(* ===== verification/Prelude.thy ===== *)
theory Prelude
  imports Main
begin

text \<open>
  Shared ground of the development: the C-level notions every component of libtarp uses.

  \<^item> \<open>ErrorCode\<close> and \<open>comparatorResult\<close> are the enums of \<open>include/tarp/error.h\<close> and
    \<open>include/tarp/common.h\<close>.
  \<^item> A run of a C function either returns or stops the process: \<open>'a res\<close> is
    \<open>fault + 'a\<close>, with \<open>Inl\<close> for a failed \<open>assert\<close>, a \<open>THROW_ON\<close> (which prints
    and calls \<open>exit\<close>), an access through a null or dangling pointer, or a pointer-chasing
    loop that used up its fuel. \<open>bindE\<close> is sequencing.
  \<^item> A pointer to a node is an \<open>addr option\<close>; the nodes of one struct type live in a
    \<open>store\<close>, a partial map from addresses to node records. Freeing a node removes its
    address from the store, so a later access is the fault \<open>WildDeref\<close>.
  \<^item> \<open>lseg nxt s p xs q\<close>: following the pointer field \<open>nxt\<close> from \<open>p\<close> visits exactly
    the nodes \<open>xs\<close> and arrives at \<open>q\<close>. It is shared by the stack/queue, the doubly
    linked list (once per direction) and the hash table's chains.
\<close>

section \<open>Fact collections\<close>

named_theorems res_iff \<open>when a sequenced computation returns\<close>
named_theorems store_simps \<open>reading and writing the node store\<close>

section \<open>Enums of the library\<close>

datatype ErrorCode =
    ERRORCODE_SUCCESS | ERROR_BADALLOC | ERROR_RUNTIMEERROR | ERROR_INTERNALERROR
  | ERROR_BADLOGIC | ERROR_NOSPACE | ERROR_OUTOFBOUNDS | ERROR_BADPOINTER
  | ERROR_INVALIDVALUE | ERROR_EXPIRED | ERROR_EMPTY | ERROR_BADTIMEPOINT
  | ERROR_MISCONFIGURED | ERROR_IO | ERROR_READ | ERROR_WRITE | ERROR_CONFLICT

fun error_num :: "ErrorCode \<Rightarrow> int" where
  "error_num ERRORCODE_SUCCESS = 0"
| "error_num ERROR_BADALLOC = 1"
| "error_num ERROR_RUNTIMEERROR = 2"
| "error_num ERROR_INTERNALERROR = 3"
| "error_num ERROR_BADLOGIC = 4"
| "error_num ERROR_NOSPACE = 5"
| "error_num ERROR_OUTOFBOUNDS = 6"
| "error_num ERROR_BADPOINTER = 7"
| "error_num ERROR_INVALIDVALUE = 8"
| "error_num ERROR_EXPIRED = 9"
| "error_num ERROR_EMPTY = 10"
| "error_num ERROR_BADTIMEPOINT = 11"
| "error_num ERROR_MISCONFIGURED = 12"
| "error_num ERROR_IO = 13"
| "error_num ERROR_READ = 14"
| "error_num ERROR_WRITE = 15"
| "error_num ERROR_CONFLICT = 16"

datatype comparatorResult = LT | EQ | GT

fun cmp_num :: "comparatorResult \<Rightarrow> int" where
  "cmp_num LT = -1"
| "cmp_num EQ = 0"
| "cmp_num GT = 1"

section \<open>Runs that may stop the process\<close>

datatype fault =
    Throw ErrorCode  \<comment> \<open>\<open>throw__\<close>: message on stderr, \<open>exit(EXIT_FAILURE)\<close>\<close>
  | AssertFail       \<comment> \<open>\<open>assert\<close>; the build keeps assertions (no \<open>NDEBUG\<close>)\<close>
  | NullDeref        \<comment> \<open>member access through NULL\<close>
  | WildDeref        \<comment> \<open>member access through a pointer to freed or foreign memory\<close>
  | Uninit           \<comment> \<open>use of memory that was never written\<close>
  | DivByZero        \<comment> \<open>integer division by zero\<close>
  | OutOfFuel        \<comment> \<open>a pointer-chasing loop ran longer than the fuel given to it\<close>

type_synonym 'a res = "fault + 'a"

definition bindE :: "'a res \<Rightarrow> ('a \<Rightarrow> 'b res) \<Rightarrow> 'b res" where
  "bindE m f = (case m of Inl e \<Rightarrow> Inl e | Inr a \<Rightarrow> f a)"

definition assertE :: "bool \<Rightarrow> unit res" where
  "assertE b = (if b then Inr () else Inl AssertFail)"

definition throw_on :: "bool \<Rightarrow> ErrorCode \<Rightarrow> unit res" where
  "throw_on b e = (if b then Inl (Throw e) else Inr ())"

lemma bindE_simps [simp]:
  "bindE (Inl e) f = Inl e"
  "bindE (Inr a) f = f a"
  by (simp_all add: bindE_def)

lemma bindE_cong [fundef_cong]:
  "m = m' \<Longrightarrow> (\<And>a. m' = Inr a \<Longrightarrow> f a = g a) \<Longrightarrow> bindE m f = bindE m' g"
  by (cases m') auto

lemma bindE_Inr_iff [res_iff]:
  "bindE m f = Inr r \<longleftrightarrow> (\<exists>a. m = Inr a \<and> f a = Inr r)"
  by (cases m) auto

lemma bindE_assoc: "bindE (bindE m f) g = bindE m (\<lambda>a. bindE (f a) g)"
  by (cases m) auto

lemma assertE_simps [simp]:
  "assertE True = Inr ()"
  "assertE False = Inl AssertFail"
  by (simp_all add: assertE_def)

lemma assertE_Inr_iff [res_iff]: "assertE b = Inr u \<longleftrightarrow> b"
  by (simp add: assertE_def)

lemma throw_on_simps [simp]:
  "throw_on True e = Inl (Throw e)"
  "throw_on False e = Inr ()"
  by (simp_all add: throw_on_def)

lemma throw_on_Inr_iff [res_iff]: "throw_on b e = Inr u \<longleftrightarrow> \<not> b"
  by (simp add: throw_on_def)

section \<open>Size arithmetic\<close>

text \<open>\<open>size_t\<close> is 64 bits wide and unsigned. Sizes and indices are \<open>nat\<close>; an operation of the
  source that can leave the range is followed by \<open>mod SZ\<close>.\<close>

definition SZ :: nat where
  "SZ = 2 ^ 64"

abbreviation SIZE_MAX :: nat where
  "SIZE_MAX \<equiv> SZ - 1"

lemma SZ_num: "SZ = 18446744073709551616"
  by (simp add: SZ_def)

section \<open>Comparators\<close>

text \<open>
  A comparator callback compares two containers. It is user code; what \<open>common.h\<close> asks of it
  is that it orders by some key: \<open>orders_by cmp key\<close>. The macros \<open>lt\<close>, \<open>gt\<close> and \<open>eq\<close> test
  its result.
\<close>

type_synonym 'a comparator = "'a \<Rightarrow> 'a \<Rightarrow> comparatorResult"

definition lt :: "'a \<Rightarrow> 'a \<Rightarrow> 'a comparator \<Rightarrow> bool" where
  "lt a b cmp \<longleftrightarrow> cmp_num (cmp a b) < 0"

definition gt :: "'a \<Rightarrow> 'a \<Rightarrow> 'a comparator \<Rightarrow> bool" where
  "gt a b cmp \<longleftrightarrow> cmp_num (cmp a b) > 0"

definition eq :: "'a \<Rightarrow> 'a \<Rightarrow> 'a comparator \<Rightarrow> bool" where
  "eq a b cmp \<longleftrightarrow> cmp_num (cmp a b) = 0"

definition cmp_by :: "('a \<Rightarrow> 'k::linorder) \<Rightarrow> 'a comparator" where
  "cmp_by key a b = (if key a < key b then LT else if key b < key a then GT else EQ)"

definition orders_by :: "'a comparator \<Rightarrow> ('a \<Rightarrow> 'k::linorder) \<Rightarrow> bool" where
  "orders_by cmp key \<longleftrightarrow> (\<forall>a b. cmp a b = cmp_by key a b)"

lemma orders_by_cmp_by [simp, intro]: "orders_by (cmp_by key) key"
  by (simp add: orders_by_def)

lemma orders_by_simps:
  assumes "orders_by cmp key"
  shows "lt a b cmp \<longleftrightarrow> key a < key b" "gt a b cmp \<longleftrightarrow> key b < key a" "eq a b cmp \<longleftrightarrow> key a = key b"
    and "cmp a b = LT \<longleftrightarrow> key a < key b" "cmp a b = GT \<longleftrightarrow> key b < key a" "cmp a b = EQ \<longleftrightarrow> key a = key b"
  using assms by (auto simp: orders_by_def cmp_by_def lt_def gt_def eq_def)

section \<open>Pointers and node stores\<close>

type_synonym addr = nat
type_synonym ptr = "addr option"
type_synonym 'n store = "addr \<Rightarrow> 'n option"

abbreviation NULL :: ptr where
  "NULL \<equiv> None"

definition load :: "'n store \<Rightarrow> ptr \<Rightarrow> 'n res" where
  "load s p = (case p of
      None \<Rightarrow> Inl NullDeref
    | Some a \<Rightarrow> (case s a of None \<Rightarrow> Inl WildDeref | Some n \<Rightarrow> Inr n))"

definition update :: "'n store \<Rightarrow> ptr \<Rightarrow> ('n \<Rightarrow> 'n) \<Rightarrow> 'n store res" where
  "update s p f = (case p of
      None \<Rightarrow> Inl NullDeref
    | Some a \<Rightarrow> (case s a of None \<Rightarrow> Inl WildDeref | Some n \<Rightarrow> Inr (s(a \<mapsto> f n))))"

lemma load_simps [simp, store_simps]:
  "load s None = Inl NullDeref"
  "s a = None \<Longrightarrow> load s (Some a) = Inl WildDeref"
  "s a = Some n \<Longrightarrow> load s (Some a) = Inr n"
  by (simp_all add: load_def)

lemma update_simps [simp, store_simps]:
  "update s None f = Inl NullDeref"
  "s a = None \<Longrightarrow> update s (Some a) f = Inl WildDeref"
  "s a = Some n \<Longrightarrow> update s (Some a) f = Inr (s(a \<mapsto> f n))"
  by (simp_all add: update_def)

lemma load_Inr_iff [res_iff]: "load s p = Inr n \<longleftrightarrow> (\<exists>a. p = Some a \<and> s a = Some n)"
  by (auto simp: load_def split: option.splits)

lemma update_Inr_iff [res_iff]:
  "update s p f = Inr s' \<longleftrightarrow> (\<exists>a n. p = Some a \<and> s a = Some n \<and> s' = s(a \<mapsto> f n))"
  by (auto simp: update_def split: option.splits)

text \<open>
  A destructor callback receives the node and frees its container. It is user code, so it is
  a parameter of the model; \<open>frees_node\<close> is what the headers ask of it: the node it is
  given is deallocated and no other node of the store changes.
\<close>

type_synonym 'n dtor = "'n store \<Rightarrow> addr \<Rightarrow> 'n store res"

definition frees_node :: "'n dtor \<Rightarrow> bool" where
  "frees_node d \<longleftrightarrow> (\<forall>s a. a \<in> dom s \<longrightarrow> d s a = Inr (s(a := None)))"

definition free_dtor :: "'n dtor" where
  "free_dtor s a = (case s a of None \<Rightarrow> Inl WildDeref | Some _ \<Rightarrow> Inr (s(a := None)))"

lemma frees_node_free_dtor: "frees_node free_dtor"
  by (auto simp: frees_node_def free_dtor_def)

lemma frees_nodeD: "frees_node d \<Longrightarrow> s a = Some n \<Longrightarrow> d s a = Inr (s(a := None))"
  by (auto simp: frees_node_def)

section \<open>Linked segments\<close>

fun lseg :: "('n \<Rightarrow> ptr) \<Rightarrow> 'n store \<Rightarrow> ptr \<Rightarrow> addr list \<Rightarrow> ptr \<Rightarrow> bool" where
  "lseg nxt s p [] q \<longleftrightarrow> p = q"
| "lseg nxt s p (a # xs) q \<longleftrightarrow>
     p = Some a \<and> (case s a of None \<Rightarrow> False | Some n \<Rightarrow> lseg nxt s (nxt n) xs q)"

lemma lseg_Cons_iff [simp]:
  "lseg nxt s p (a # xs) q \<longleftrightarrow> p = Some a \<and> (\<exists>n. s a = Some n \<and> lseg nxt s (nxt n) xs q)"
  by (auto split: option.splits)

declare lseg.simps(2) [simp del]

lemma lseg_append:
  "lseg nxt s p (xs @ ys) q \<longleftrightarrow> (\<exists>r. lseg nxt s p xs r \<and> lseg nxt s r ys q)"
  by (induction xs arbitrary: p) (auto split: option.splits)

lemma lseg_snoc:
  "lseg nxt s p (xs @ [a]) q \<longleftrightarrow>
     lseg nxt s p xs (Some a) \<and> (\<exists>n. s a = Some n \<and> nxt n = q)"
  by (auto simp: lseg_append split: option.splits)

lemma lseg_dom: "lseg nxt s p xs q \<Longrightarrow> a \<in> set xs \<Longrightarrow> \<exists>n. s a = Some n"
  by (induction xs arbitrary: p) (auto split: option.splits)

lemma lseg_cong:
  "(\<And>a. a \<in> set xs \<Longrightarrow> map_option nxt (s a) = map_option nxt (s' a)) \<Longrightarrow>
     lseg nxt s p xs q = lseg nxt s' p xs q"
proof (induction xs arbitrary: p)
  case Nil
  then show ?case by simp
next
  case (Cons a xs)
  have "map_option nxt (s a) = map_option nxt (s' a)"
    using Cons.prems by simp
  moreover have "lseg nxt s r xs q = lseg nxt s' r xs q" for r
    using Cons by simp
  ultimately show ?case
    by (cases "s a"; cases "s' a") simp_all
qed

lemma lseg_upd_notin [simp]:
  "a \<notin> set xs \<Longrightarrow> lseg nxt (s(a := v)) p xs q = lseg nxt s p xs q"
  by (rule lseg_cong) auto

lemma lseg_upd_same [simp]:
  "s a = Some n \<Longrightarrow> nxt n' = nxt n \<Longrightarrow> lseg nxt (s(a \<mapsto> n')) p xs q = lseg nxt s p xs q"
  by (rule lseg_cong) auto

lemma lseg_head: "lseg nxt s p xs NULL \<Longrightarrow> p = (if xs = [] then NULL else Some (hd xs))"
  by (cases xs) auto

lemma lseg_unique: "lseg nxt s p xs NULL \<Longrightarrow> lseg nxt s p ys NULL \<Longrightarrow> xs = ys"
proof (induction xs arbitrary: p ys)
  case Nil
  then show ?case by (cases ys) auto
next
  case (Cons a xs)
  then show ?case by (cases ys) (auto split: option.splits)
qed

text \<open>Redirecting the last node's pointer moves the segment's end.\<close>

lemma lseg_redirect_last:
  assumes "lseg nxt s p (xs @ [a]) q" and "distinct (xs @ [a])" and "nxt n = r"
  shows "lseg nxt (s(a \<mapsto> n)) p (xs @ [a]) r"
  using assms by (auto simp: lseg_snoc)

text \<open>
  \<open>frame A s s'\<close>: from \<open>s\<close> to \<open>s'\<close> nothing was allocated or freed and only nodes of
  \<open>A\<close> may have changed.
\<close>

definition frame :: "addr set \<Rightarrow> 'n store \<Rightarrow> 'n store \<Rightarrow> bool" where
  "frame A s s' \<longleftrightarrow> dom s' = dom s \<and> (\<forall>b. b \<notin> A \<longrightarrow> s' b = s b)"

lemma frame_refl [simp, intro]: "frame A s s"
  by (simp add: frame_def)

lemma frame_trans: "frame A s s' \<Longrightarrow> frame B s' s'' \<Longrightarrow> A \<union> B \<subseteq> C \<Longrightarrow> frame C s s''"
  unfolding frame_def by (metis Un_iff subsetD)

lemma frame_mono: "frame A s s' \<Longrightarrow> A \<subseteq> B \<Longrightarrow> frame B s s'"
  by (auto simp: frame_def)

lemma frame_upd: "frame A s s' \<Longrightarrow> s' a = Some n \<Longrightarrow> a \<in> A \<Longrightarrow> frame A s (s'(a \<mapsto> m))"
  by (auto simp: frame_def)

lemma frame_dom: "frame A s s' \<Longrightarrow> dom s' = dom s"
  by (simp add: frame_def)

lemma frame_other: "frame A s s' \<Longrightarrow> b \<notin> A \<Longrightarrow> s' b = s b"
  by (simp add: frame_def)

lemma lseg_frame: "frame A s s' \<Longrightarrow> A \<inter> set xs = {} \<Longrightarrow> lseg nxt s' p xs q = lseg nxt s p xs q"
  by (rule lseg_cong) (auto simp: frame_def disjoint_iff)

section \<open>Folding and draining\<close>

text \<open>
  \<open>foldE\<close> applies an operation to each element of a list in turn; \<open>drainE\<close> calls a removal
  operation a given number of times and collects what it returned. They state client
  programs (a run of pushes, a run of pops) over any container.
\<close>

fun foldE :: "('s \<Rightarrow> 'a \<Rightarrow> 's res) \<Rightarrow> 's \<Rightarrow> 'a list \<Rightarrow> 's res" where
  "foldE f s [] = Inr s"
| "foldE f s (x # xs) = bindE (f s x) (\<lambda>s. foldE f s xs)"

fun drainE :: "('s \<Rightarrow> ('a option \<times> 's) res) \<Rightarrow> nat \<Rightarrow> 's \<Rightarrow> ('a list \<times> 's) res" where
  "drainE f 0 s = Inr ([], s)"
| "drainE f (Suc n) s = bindE (f s) (\<lambda>(x, s). bindE (drainE f n s) (\<lambda>(xs, s).
     Inr (case x of None \<Rightarrow> xs | Some a \<Rightarrow> a # xs, s)))"

lemma foldE_append: "foldE f s (xs @ ys) = bindE (foldE f s xs) (\<lambda>s. foldE f s ys)"
  by (induction xs arbitrary: s) (simp_all add: bindE_assoc)

section \<open>Lists\<close>

lemma rotate_back: "rotate n (drop (length xs - n mod length xs) xs @ take (length xs - n mod length xs) xs) = xs"
proof (cases "n mod length xs = 0 \<or> xs = []")
  case True
  then show ?thesis by (auto simp: rotate_drop_take)
next
  case False
  have "n mod length xs < length xs" using False by simp
  then show ?thesis by (simp add: rotate_drop_take)
qed

lemma split_at_two:
  assumes "i < j" and "j < length xs"
  obtains us ms ws where "xs = us @ xs ! i # ms @ xs ! j # ws" and "length ms = j - i - 1"
    and "xs[i := xs ! j, j := xs ! i] = us @ xs ! j # ms @ xs ! i # ws"
proof -
  define us ms ws where "us = take i xs" and "ms = take (j - i - 1) (drop (i + 1) xs)" and "ws = drop (j + 1) xs"
  have "drop (i + 1) xs = ms @ drop (j - i - 1) (drop (i + 1) xs)"
    unfolding ms_def by (rule append_take_drop_id [symmetric])
  also have "drop (j - i - 1) (drop (i + 1) xs) = xs ! j # ws"
    using assms by (simp add: ws_def Cons_nth_drop_Suc)
  finally have *: "xs = us @ xs ! i # ms @ xs ! j # ws"
    using assms id_take_nth_drop [of i xs] by (simp add: us_def)
  have len: "length us = i" "length ms = j - i - 1"
    using assms by (auto simp: us_def ms_def)
  have "j - i = Suc (j - i - 1)" using assms by simp
  then have "xs[i := v, j := w] = us @ v # ms @ w # ws" for v w
    using assms len by (subst *) (simp add: list_update_append split: nat.splits)
  with * len(2) show ?thesis by (rule that) 
qed

end
