(* ===== verification/Interfaces.thy ===== *)
theory Interfaces
  imports Prelude
begin

text \<open>
  The contracts of libtarp's intrusive sequences, as the code that uses them relies on them:
  a state represents a list of nodes, a node may be linked in when the client owns its memory
  (\<open>usable\<close>), pushing adds it at one end and popping takes it from the front. Staq provides
  the stack and the queue contract at once, the doubly linked list provides them again; what
  a client may conclude (last-in-first-out, first-in-first-out, nothing lost or repeated) is
  proved here once.
\<close>

locale node_seq =
  fixes repr :: "'s \<Rightarrow> addr list \<Rightarrow> bool"
    and usable :: "'s \<Rightarrow> addr \<Rightarrow> bool"
    and pop :: "'s \<Rightarrow> (ptr \<times> 's) res"
  assumes pop_Nil: "repr s [] \<Longrightarrow> pop s = Inr (NULL, s)"
    and pop_Cons: "repr s (a # xs) \<Longrightarrow>
          \<exists>s'. pop s = Inr (Some a, s') \<and> repr s' xs \<and> (\<forall>b. usable s b \<longrightarrow> usable s' b)"
begin

lemma drain_all: "repr s xs \<Longrightarrow> \<exists>s'. drainE pop (length xs) s = Inr (xs, s') \<and> repr s' []"
proof (induction xs arbitrary: s)
  case Nil
  then show ?case by simp
next
  case (Cons a xs)
  then obtain s1 where "pop s = Inr (Some a, s1)" and "repr s1 xs"
    using pop_Cons by blast
  moreover from this Cons.IH obtain s2 where "drainE pop (length xs) s1 = Inr (xs, s2)" "repr s2 []"
    by blast
  ultimately show ?case by simp
qed

lemma drain_past_end:
  assumes "repr s []"
  shows "drainE pop n s = Inr ([], s)"
  using assms by (induction n) (simp_all add: pop_Nil)

end

locale node_stack = node_seq repr usable pop
  for repr :: "'s \<Rightarrow> addr list \<Rightarrow> bool" and usable and pop +
  fixes push :: "'s \<Rightarrow> addr \<Rightarrow> 's res"
  assumes push_ok: "repr s xs \<Longrightarrow> usable s a \<Longrightarrow> a \<notin> set xs \<Longrightarrow>
          \<exists>s'. push s a = Inr s' \<and> repr s' (a # xs) \<and> (\<forall>b. usable s b \<longrightarrow> usable s' b)"
begin

lemma push_all:
  assumes "repr s xs" and "distinct ys" and "set ys \<inter> set xs = {}" and "\<forall>a\<in>set ys. usable s a"
  shows "\<exists>s'. foldE push s ys = Inr s' \<and> repr s' (rev ys @ xs) \<and> (\<forall>b. usable s b \<longrightarrow> usable s' b)"
  using assms
proof (induction ys arbitrary: s xs)
  case Nil
  then show ?case by simp
next
  case (Cons a ys)
  then obtain s1 where s1: "push s a = Inr s1" "repr s1 (a # xs)" "\<forall>b. usable s b \<longrightarrow> usable s1 b"
    using push_ok [of s xs a] by auto
  with Cons.prems Cons.IH [of s1 "a # xs"] obtain s2
    where "foldE push s1 ys = Inr s2" "repr s2 (rev ys @ a # xs)" "\<forall>b. usable s1 b \<longrightarrow> usable s2 b"
    by auto
  with s1 show ?case by simp
qed

lemma lifo:
  assumes "repr s xs" and "distinct ys" and "set ys \<inter> set xs = {}" and "\<forall>a\<in>set ys. usable s a"
  shows "\<exists>s' s''. foldE push s ys = Inr s' \<and>
           drainE pop (length ys + length xs) s' = Inr (rev ys @ xs, s'') \<and> repr s'' []"
  using push_all [OF assms] drain_all by fastforce

end

locale node_queue = node_seq repr usable pop
  for repr :: "'s \<Rightarrow> addr list \<Rightarrow> bool" and usable and pop +
  fixes enq :: "'s \<Rightarrow> addr \<Rightarrow> 's res"
  assumes enq_ok: "repr s xs \<Longrightarrow> usable s a \<Longrightarrow> a \<notin> set xs \<Longrightarrow>
          \<exists>s'. enq s a = Inr s' \<and> repr s' (xs @ [a]) \<and> (\<forall>b. usable s b \<longrightarrow> usable s' b)"
begin

lemma enq_all:
  assumes "repr s xs" and "distinct ys" and "set ys \<inter> set xs = {}" and "\<forall>a\<in>set ys. usable s a"
  shows "\<exists>s'. foldE enq s ys = Inr s' \<and> repr s' (xs @ ys)"
  using assms
proof (induction ys arbitrary: s xs)
  case Nil
  then show ?case by simp
next
  case (Cons a ys)
  then obtain s1 where s1: "enq s a = Inr s1" "repr s1 (xs @ [a])" "\<forall>b. usable s b \<longrightarrow> usable s1 b"
    using enq_ok [of s xs a] by auto
  with Cons.prems Cons.IH [of s1 "xs @ [a]"] obtain s2
    where "foldE enq s1 ys = Inr s2" "repr s2 ((xs @ [a]) @ ys)"
    by auto
  with s1 show ?case by simp
qed

lemma fifo:
  assumes "repr s xs" and "distinct ys" and "set ys \<inter> set xs = {}" and "\<forall>a\<in>set ys. usable s a"
  shows "\<exists>s' s''. foldE enq s ys = Inr s' \<and>
           drainE pop (length xs + length ys) s' = Inr (xs @ ys, s'') \<and> repr s'' []"
  using enq_all [OF assms] drain_all by fastforce

end

locale node_deque = node_stack repr usable pop push + node_queue repr usable pop enq
  for repr :: "'s \<Rightarrow> addr list \<Rightarrow> bool" and usable and pop and push and enq
begin

lemma push_then_enq:
  assumes "repr s xs" and "distinct (ys @ zs)" and "set (ys @ zs) \<inter> set xs = {}"
    and "\<forall>a\<in>set (ys @ zs). usable s a"
  shows "\<exists>s' s''. foldE push s ys = Inr s' \<and> foldE enq s' zs = Inr s'' \<and> repr s'' (rev ys @ xs @ zs)"
proof -
  have "distinct ys" "set ys \<inter> set xs = {}" "\<forall>a\<in>set ys. usable s a"
    using assms by auto
  then obtain s' where s': "foldE push s ys = Inr s'" "repr s' (rev ys @ xs)"
      "\<forall>b. usable s b \<longrightarrow> usable s' b"
    using push_all assms(1) by blast
  have "distinct zs" "set zs \<inter> set (rev ys @ xs) = {}" "\<forall>a\<in>set zs. usable s' a"
    using assms s'(3) by auto
  then obtain s'' where "foldE enq s' zs = Inr s''" "repr s'' ((rev ys @ xs) @ zs)"
    using enq_all s'(2) by blast
  with s' show ?thesis by auto
qed

end

text \<open>
  The contract of the dynamic array, as the array-based heap uses it: indexed reads and
  writes, and a push that either appends or reports that there is no room.
\<close>

locale dyn_array =
  fixes repr :: "'v \<Rightarrow> 'a list \<Rightarrow> bool"
    and get :: "'v \<Rightarrow> nat \<Rightarrow> 'a res"
    and set_at :: "'v \<Rightarrow> nat \<Rightarrow> 'a \<Rightarrow> 'v res"
  assumes get_ok: "repr v xs \<Longrightarrow> i < length xs \<Longrightarrow> get v i = Inr (xs ! i)"
    and set_ok: "repr v xs \<Longrightarrow> i < length xs \<Longrightarrow> \<exists>v'. set_at v i x = Inr v' \<and> repr v' (xs[i := x])"
begin

lemma set_two:
  assumes "repr v xs" and "i < length xs" and "j < length xs"
  obtains v' v'' where "set_at v i x = Inr v'" and "set_at v' j y = Inr v''"
    and "repr v'' (xs[i := x, j := y])"
proof -
  obtain v' where v': "set_at v i x = Inr v'" "repr v' (xs[i := x])"
    using set_ok [OF assms(1,2)] by blast
  then obtain v'' where "set_at v' j y = Inr v''" "repr v'' (xs[i := x, j := y])"
    using set_ok [of v' "xs[i := x]" j y] assms(3) by auto
  with v'(1) show thesis by (rule that)
qed

end

locale dyn_stack = dyn_array repr get set_at
  for repr :: "'v \<Rightarrow> 'a list \<Rightarrow> bool" and get and set_at +
  fixes room :: "'v \<Rightarrow> bool"
    and push :: "'v \<Rightarrow> 'a \<Rightarrow> (ErrorCode \<times> 'v) res"
    and pop :: "'v \<Rightarrow> ('a \<times> 'v) res"
  assumes push_ok: "repr v xs \<Longrightarrow> room v \<Longrightarrow>
            \<exists>v'. push v x = Inr (ERRORCODE_SUCCESS, v') \<and> repr v' (xs @ [x])"
    and push_full: "repr v xs \<Longrightarrow> \<not> room v \<Longrightarrow> push v x = Inr (ERROR_OUTOFBOUNDS, v)"
    and pop_ok: "repr v (xs @ [x]) \<Longrightarrow> \<exists>v'. pop v = Inr (x, v') \<and> repr v' xs"
begin

lemma push_total:
  assumes "repr v xs"
  obtains (ok) v' where "push v x = Inr (ERRORCODE_SUCCESS, v')" and "repr v' (xs @ [x])" and "room v"
    | (full) "push v x = Inr (ERROR_OUTOFBOUNDS, v)" and "\<not> room v"
  using push_ok [OF assms] push_full [OF assms] by blast

lemma push_pop:
  assumes "repr v xs" and "push v x = Inr (ERRORCODE_SUCCESS, v')"
  shows "\<exists>v''. pop v' = Inr (x, v'') \<and> repr v'' xs"
  using assms(1)
proof (cases rule: push_total [of v xs x])
  case (ok w)
  with assms(2) show ?thesis using pop_ok by auto
next
  case full
  with assms(2) show ?thesis by simp
qed

end

text \<open>
  The contract of an ordered set of nodes: inserting a node links it in at its place by key, or
  refuses it when the key is taken. What follows for any run of insertions is proved here once.
\<close>

locale sorted_set =
  fixes repr :: "'m \<Rightarrow> 'a list \<Rightarrow> bool"
    and key :: "'a \<Rightarrow> 'k::linorder"
    and usable :: "'m \<Rightarrow> 'a \<Rightarrow> bool"
    and cap :: nat
    and insert_node :: "'m \<Rightarrow> 'a \<Rightarrow> (bool \<times> 'm) res"
  assumes insert_ok: "repr m xs \<Longrightarrow> usable m a \<Longrightarrow> a \<notin> set xs \<Longrightarrow> length xs < cap \<Longrightarrow>
      \<exists>m'. insert_node m a = Inr (key a \<notin> key ` set xs, m') \<and>
        repr m' (if key a \<in> key ` set xs then xs else insort_key key a xs) \<and> (\<forall>b. usable m b \<longrightarrow> usable m' b)"
    and sorted: "repr m xs \<Longrightarrow> sorted_wrt (\<lambda>a b. key a < key b) xs"
begin

lemma insert_all:
  assumes "repr m xs" "distinct as" "set as \<inter> set xs = {}" "\<forall>a\<in>set as. usable m a"
    and "length xs + length as \<le> cap"
  shows "\<exists>m' ys. foldE (\<lambda>m a. bindE (insert_node m a) (\<lambda>(_, m). Inr m)) m as = Inr m' \<and> repr m' ys \<and>
           map key ys = sorted_list_of_set (key ` (set xs \<union> set as))"
  using assms
proof (induction as arbitrary: m xs)
  case Nil
  have "sorted_wrt (<) (map key xs)" using sorted [OF Nil.prems(1)] by (simp add: sorted_wrt_map)
  then have "map key xs = sorted_list_of_set (key ` set xs)"
    by (metis list.set_map sorted_list_of_set.idem_if_sorted_distinct strict_sorted_iff)
  with Nil show ?case by auto
next
  case (Cons a as)
  let ?xs = "if key a \<in> key ` set xs then xs else insort_key key a xs"
  obtain m' where m': "insert_node m a = Inr (key a \<notin> key ` set xs, m')" "repr m' ?xs"
      "\<forall>b. usable m b \<longrightarrow> usable m' b"
    using insert_ok [of m xs a] Cons.prems by auto
  have sets: "set ?xs \<subseteq> insert a (set xs)" "key ` set ?xs = key ` insert a (set xs)"
    by (auto simp: set_insort_key)
  have "length ?xs \<le> length xs + 1" by simp
  then obtain m'' ys where "foldE (\<lambda>m a. bindE (insert_node m a) (\<lambda>(_, m). Inr m)) m' as = Inr m''" "repr m'' ys"
      "map key ys = sorted_list_of_set (key ` (set ?xs \<union> set as))"
    using Cons.IH [OF m'(2)] Cons.prems m'(3) sets(1) by fastforce
  moreover have "key ` (set ?xs \<union> set as) = key ` (set xs \<union> set (a # as))"
    using sets(2) by (simp add: image_Un)
  ultimately show ?case using m'(1) by auto
qed

end

text \<open>
  The contract of a map from keys to nodes: at most one node per key, found by any node with that key.
\<close>

locale key_map =
  fixes repr :: "'m \<Rightarrow> ('k \<Rightarrow> addr option) \<Rightarrow> bool"
    and key :: "addr \<Rightarrow> 'k"
    and usable :: "'m \<Rightarrow> addr \<Rightarrow> bool"
    and cap :: nat
    and lookup :: "'m \<Rightarrow> addr \<Rightarrow> (ptr \<times> 'm) res"
    and insert_new :: "'m \<Rightarrow> addr \<Rightarrow> (bool \<times> 'm) res"
    and remove :: "'m \<Rightarrow> addr \<Rightarrow> (bool \<times> 'm) res"
  assumes lookup_ok: "repr m f \<Longrightarrow> card (dom f) \<le> cap \<Longrightarrow>
      \<exists>m'. lookup m a = Inr (f (key a), m') \<and> repr m' f \<and> (\<forall>b. usable m b \<longrightarrow> usable m' b)"
    and insert_ok: "repr m f \<Longrightarrow> usable m a \<Longrightarrow> a \<notin> ran f \<Longrightarrow> card (dom f) < cap \<Longrightarrow>
      \<exists>m'. insert_new m a = Inr (f (key a) = NULL, m') \<and>
        repr m' (if f (key a) = NULL then f(key a \<mapsto> a) else f) \<and> (\<forall>b. usable m b \<longrightarrow> usable m' b)"
    and remove_ok: "repr m f \<Longrightarrow> card (dom f) \<le> cap \<Longrightarrow>
      \<exists>m'. remove m a = Inr (f (key a) \<noteq> NULL, m') \<and> repr m' (f(key a := NULL)) \<and> (\<forall>b. usable m b \<longrightarrow> usable m' b)"
    and finite: "repr m f \<Longrightarrow> finite (dom f)"
begin

lemma insert_all:
  assumes "repr m f" "distinct as" "set as \<inter> ran f = {}" "\<forall>a\<in>set as. usable m a" "card (dom f) + length as \<le> cap"
  shows "\<exists>m'. foldE (\<lambda>m a. bindE (insert_new m a) (\<lambda>(_, m). Inr m)) m as = Inr m' \<and>
     repr m' (map_of (map (\<lambda>a. (key a, a)) as) ++ f)"
  using assms
proof (induction as arbitrary: m f)
  case Nil
  then show ?case by simp
next
  case (Cons a as)
  let ?f = "if f (key a) = NULL then f(key a \<mapsto> a) else f"
  obtain m1 where 1: "insert_new m a = Inr (f (key a) = NULL, m1)" "repr m1 ?f" "\<forall>b. usable m b \<longrightarrow> usable m1 b"
    using insert_ok [OF Cons.prems(1), of a] Cons.prems by auto
  have "ran ?f \<subseteq> insert a (ran f)" by (auto simp: ran_def)
  then have r: "set as \<inter> ran ?f = {}" using Cons.prems(2,3) by auto
  have "card (dom ?f) \<le> Suc (card (dom f))" using finite [OF Cons.prems(1)] by (simp add: card_insert_if)
  then have n: "card (dom ?f) + length as \<le> cap" using Cons.prems(5) by simp
  have u: "distinct as" "\<forall>a\<in>set as. usable m1 a" using Cons.prems(2,4) 1(3) by simp_all
  obtain m2 where "foldE (\<lambda>m a. bindE (insert_new m a) (\<lambda>(_, m). Inr m)) m1 as = Inr m2"
      "repr m2 (map_of (map (\<lambda>a. (key a, a)) as) ++ ?f)"
    using Cons.IH [OF 1(2) u(1) r u(2) n] by blast
  moreover have "map_of (map (\<lambda>a. (key a, a)) as) ++ ?f = map_of (map (\<lambda>a. (key a, a)) (a # as)) ++ f"
    by (rule ext) (auto simp: map_add_def split: option.splits)
  moreover have "foldE (\<lambda>m a. bindE (insert_new m a) (\<lambda>(_, m). Inr m)) m (a # as) =
      foldE (\<lambda>m a. bindE (insert_new m a) (\<lambda>(_, m). Inr m)) m1 as" using 1(1) by simp
  ultimately show ?case by metis
qed

lemma insert_all_lookup:
  assumes "repr m f" "distinct as" "set as \<inter> ran f = {}" "\<forall>a\<in>set as. usable m a" "card (dom f) + length as \<le> cap"
  shows "\<exists>m' m''. foldE (\<lambda>m a. bindE (insert_new m a) (\<lambda>(_, m). Inr m)) m as = Inr m' \<and>
     lookup m' b = Inr ((map_of (map (\<lambda>a. (key a, a)) as) ++ f) (key b), m'')"
proof -
  let ?f = "map_of (map (\<lambda>a. (key a, a)) as) ++ f"
  obtain m' where m': "foldE (\<lambda>m a. bindE (insert_new m a) (\<lambda>(_, m). Inr m)) m as = Inr m'" "repr m' ?f"
    using insert_all [OF assms] by blast
  have "dom ?f = dom f \<union> key ` set as" by (simp add: dom_map_of_conv_image_fst image_image)
  then have "card (dom ?f) \<le> card (dom f) + card (key ` set as)" by (metis card_Un_le)
  also have "\<dots> \<le> cap" using card_image_le [of "set as" key] card_length [of as] assms(5) by simp
  finally show ?thesis using m' lookup_ok [OF m'(2)] by blast
qed

lemma remove_lookup:
  assumes "repr m f" "card (dom f) \<le> cap"
  shows "\<exists>m' m''. remove m a = Inr (f (key a) \<noteq> NULL, m') \<and>
     lookup m' b = Inr (if key b = key a then NULL else f (key b), m'')"
proof -
  obtain m' where m': "remove m a = Inr (f (key a) \<noteq> NULL, m')" "repr m' (f(key a := NULL))"
    using remove_ok [OF assms] by blast
  have "card (dom (f(key a := NULL))) \<le> cap" using assms(2) card_Diff1_le [of "dom f" "key a"] by simp
  from lookup_ok [OF m'(2) this, of b] m'(1) show ?thesis by auto
qed

end

end
