(* ===== verification/Staq.thy ===== *)
theory Staq
  imports Interfaces
begin

text \<open>
  The stack/queue hybrid of \<open>src/mods/staq/staq.c\<close>: a singly linked list with a head
  struct that holds both ends. The definitions follow the C functions pointer assignment by
  pointer assignment over a store of nodes; \<open>staq_inv s q xs\<close> says that the head \<open>q\<close>
  represents the node list \<open>xs\<close> in \<open>s\<close>, and the lemmas show each operation as a list
  operation. \<open>size_t\<close> counts are \<open>nat\<close>: a count is the number of distinct linked nodes,
  which address space bounds below the type's width.
\<close>

section \<open>Data\<close>

record staqnode =
  sq_next :: ptr

record staq =
  sq_count :: nat
  sq_front :: ptr
  sq_back :: ptr
  sq_dtor :: "staqnode dtor option"

type_synonym staq_state = "staqnode store \<times> staq"

section \<open>Operations\<close>

definition staq_initializer :: "staqnode dtor option \<Rightarrow> staq" where
  "staq_initializer dtor = \<lparr>sq_count = 0, sq_front = NULL, sq_back = NULL, sq_dtor = dtor\<rparr>"

definition Staq_init :: "staqnode dtor option \<Rightarrow> staq" where
  "Staq_init dtor = staq_initializer dtor"

definition Staq_new :: "staqnode dtor option \<Rightarrow> staq" where
  "Staq_new dtor = staq_initializer dtor"

definition Staq_empty :: "staq \<Rightarrow> bool" where
  "Staq_empty sq \<longleftrightarrow> sq_count sq = 0"

definition Staq_count :: "staq \<Rightarrow> nat" where
  "Staq_count sq = sq_count sq"

definition Staq_peekfront :: "staq \<Rightarrow> ptr" where
  "Staq_peekfront sq = sq_front sq"

definition Staq_peekback :: "staq \<Rightarrow> ptr" where
  "Staq_peekback sq = sq_back sq"

definition set_next :: "staqnode store \<Rightarrow> ptr \<Rightarrow> ptr \<Rightarrow> staqnode store res" where
  "set_next s p v = update s p (\<lambda>n. n\<lparr>sq_next := v\<rparr>)"

definition Staq_pushback :: "staqnode store \<Rightarrow> staq \<Rightarrow> ptr \<Rightarrow> staq_state res" where
  "Staq_pushback s sq node =
     bindE (assertE (node \<noteq> NULL)) (\<lambda>_.
     bindE (set_next s node NULL) (\<lambda>s.
     bindE (if sq_count sq > 0
            then bindE (set_next s (sq_back sq) node) (\<lambda>s. Inr (s, sq\<lparr>sq_back := node\<rparr>))
            else Inr (s, sq\<lparr>sq_front := node, sq_back := node\<rparr>)) (\<lambda>(s, sq).
     Inr (s, sq\<lparr>sq_count := sq_count sq + 1\<rparr>))))"

definition Staq_popfront :: "staqnode store \<Rightarrow> staq \<Rightarrow> (ptr \<times> staq_state) res" where
  "Staq_popfront s sq =
     (if sq_count sq = 0 then Inr (NULL, s, sq)
      else let node = sq_front sq in
        bindE (load s node) (\<lambda>n.
        let sq = sq\<lparr>sq_front := sq_next n, sq_count := sq_count sq - 1\<rparr>;
            sq = (if sq_count sq = 0 then sq\<lparr>sq_back := NULL\<rparr> else sq)
        in Inr (node, s, sq)))"

definition Staq_pushfront :: "staqnode store \<Rightarrow> staq \<Rightarrow> ptr \<Rightarrow> staq_state res" where
  "Staq_pushfront s sq node =
     bindE (assertE (node \<noteq> NULL)) (\<lambda>_.
     bindE (set_next s node (sq_front sq)) (\<lambda>s.
     let sq = sq\<lparr>sq_front := node\<rparr>;
         sq = (if sq_count sq = 0 then sq\<lparr>sq_back := node\<rparr> else sq)
     in Inr (s, sq\<lparr>sq_count := sq_count sq + 1\<rparr>)))"

definition Staq_remove :: "staqnode store \<Rightarrow> staq \<Rightarrow> bool \<Rightarrow> (bool \<times> staq_state) res" where
  "Staq_remove s sq free_container =
     bindE (Staq_popfront s sq) (\<lambda>(node, s, sq).
     case node of
       None \<Rightarrow> Inr (False, s, sq)
     | Some a \<Rightarrow>
         if free_container
         then (case sq_dtor sq of
                 None \<Rightarrow> Inl (Throw ERROR_MISCONFIGURED)
               | Some d \<Rightarrow> bindE (d s a) (\<lambda>s. Inr (True, s, sq)))
         else Inr (True, s, sq))"

lemma Staq_remove_decreases:
  "Staq_remove s sq f = Inr (True, s', sq') \<Longrightarrow> sq_count sq' < sq_count sq"
  by (auto simp: Staq_remove_def Staq_popfront_def Let_def res_iff split: if_splits option.splits)

function Staq_clear_loop :: "staqnode store \<Rightarrow> staq \<Rightarrow> staq_state res" where
  "Staq_clear_loop s sq =
     bindE (Staq_remove s sq True) (\<lambda>(more, s', sq').
       if more then Staq_clear_loop s' sq' else Inr (s', sq'))"
  by pat_completeness auto
termination
  by (relation "measure (\<lambda>(s, sq). sq_count sq)") (auto dest: Staq_remove_decreases)

definition Staq_clear :: "staqnode store \<Rightarrow> staq \<Rightarrow> bool \<Rightarrow> staq_state res" where
  "Staq_clear s sq free_containers =
     bindE (if free_containers then Staq_clear_loop s sq else Inr (s, sq)) (\<lambda>(s, sq).
     Inr (s, staq_initializer (sq_dtor sq)))"

definition Staq_destroy :: "staqnode store \<Rightarrow> staq \<Rightarrow> bool \<Rightarrow> (staqnode store \<times> staq option) res" where
  "Staq_destroy s sq free_containers =
     bindE (Staq_clear s sq free_containers) (\<lambda>(s, sq). Inr (s, None))"

definition Staq_join :: "staqnode store \<Rightarrow> staq \<Rightarrow> staq \<Rightarrow> (staqnode store \<times> staq \<times> staq) res" where
  "Staq_join s a b =
     (if sq_count a = 0
      then Inr (s, a\<lparr>sq_count := sq_count b, sq_front := sq_front b, sq_back := sq_back b\<rparr>,
                staq_initializer (sq_dtor b))
      else
        let a = a\<lparr>sq_count := sq_count a + sq_count b\<rparr> in
        bindE (set_next s (sq_back a) (sq_front b)) (\<lambda>s.
        Inr (s, a\<lparr>sq_back := sq_back b\<rparr>, staq_initializer (sq_dtor b))))"

definition Staq_swap :: "staq \<Rightarrow> staq \<Rightarrow> staq \<times> staq" where
  "Staq_swap a b =
     (let tmp = a;
          a = a\<lparr>sq_front := sq_front b, sq_back := sq_back b, sq_count := sq_count b,
                sq_dtor := sq_dtor b\<rparr>;
          b = b\<lparr>sq_front := sq_front tmp, sq_back := sq_back tmp, sq_count := sq_count tmp,
                sq_dtor := sq_dtor a\<rparr>
      in (a, b))"

fun find_nth_loop :: "staqnode store \<Rightarrow> ptr \<Rightarrow> nat \<Rightarrow> ptr res" where
  "find_nth_loop s node 0 = Inr node"
| "find_nth_loop s node (Suc n) =
     bindE (load s node) (\<lambda>nd.
     bindE (assertE (sq_next nd \<noteq> NULL)) (\<lambda>_.
     find_nth_loop s (sq_next nd) n))"

definition find_nth :: "staqnode store \<Rightarrow> staq \<Rightarrow> nat \<Rightarrow> ptr res" where
  "find_nth s sq n =
     bindE (assertE (sq_count sq > 0)) (\<lambda>_.
     bindE (assertE (n > 0)) (\<lambda>_.
     bindE (find_nth_loop s (sq_front sq) (n mod sq_count sq)) (\<lambda>node.
     bindE (assertE (node \<noteq> NULL)) (\<lambda>_. Inr node))))"

definition Staq_rotate :: "staqnode store \<Rightarrow> staq \<Rightarrow> int \<Rightarrow> nat \<Rightarrow> staq_state res" where
  "Staq_rotate s sq dir num_rotations =
     bindE (assertE (dir = 1 \<or> dir = -1)) (\<lambda>_.
     if dir = 0 then Inr (s, sq)
     else if sq_count sq < 2 \<or> num_rotations = 0 then Inr (s, sq)
     else
       let remainder = num_rotations mod sq_count sq in
       if remainder = 0 then Inr (s, sq)
       else
         let num_rotations = (if dir < 0 then sq_count sq - remainder else remainder);
             n = num_rotations - 1 in
         bindE (if n = 0 then Inr (sq_front sq) else find_nth s sq n) (\<lambda>pre.
         bindE (assertE (pre \<noteq> NULL)) (\<lambda>_.
         bindE (set_next s (sq_back sq) (sq_front sq)) (\<lambda>s.
         let sq = sq\<lparr>sq_back := pre\<rparr> in
         bindE (load s pre) (\<lambda>p.
         let sq = sq\<lparr>sq_front := sq_next p\<rparr> in
         bindE (set_next s pre NULL) (\<lambda>s. Inr (s, sq)))))))"

fun Staq_upend_loop ::
    "nat \<Rightarrow> staqnode store \<Rightarrow> ptr \<Rightarrow> ptr \<Rightarrow> ptr \<Rightarrow> (staqnode store \<times> ptr \<times> ptr) res" where
  "Staq_upend_loop 0 s a b c = Inl OutOfFuel"
| "Staq_upend_loop (Suc fuel) s a b c =
     (if a = NULL then Inr (s, a, b)
      else bindE (load s a) (\<lambda>na.
        if sq_next na = NULL then Inr (s, a, b)
        else
          let b = sq_next na in
          bindE (load s b) (\<lambda>nb.
          bindE (set_next s a (sq_next nb)) (\<lambda>s.
          bindE (set_next s b c) (\<lambda>s.
          let c = b in
          Staq_upend_loop fuel s a b c)))))"

definition Staq_upend :: "nat \<Rightarrow> staqnode store \<Rightarrow> staq \<Rightarrow> staq_state res" where
  "Staq_upend fuel s sq =
     (if sq_count sq < 2 then Inr (s, sq)
      else bindE (Staq_upend_loop fuel s (sq_front sq) (sq_front sq) (sq_front sq)) (\<lambda>(s, a, b).
        Inr (s, sq\<lparr>sq_back := a, sq_front := b\<rparr>)))"

definition Staq_put_after :: "staqnode store \<Rightarrow> staq \<Rightarrow> ptr \<Rightarrow> ptr \<Rightarrow> staq_state res" where
  "Staq_put_after s sq x node =
     bindE (assertE (x \<noteq> NULL)) (\<lambda>_.
     bindE (assertE (node \<noteq> NULL)) (\<lambda>_.
     bindE (assertE (sq_count sq > 0)) (\<lambda>_.
     bindE (load s x) (\<lambda>nx.
     bindE (set_next s node (sq_next nx)) (\<lambda>s.
     bindE (set_next s x node) (\<lambda>s.
     let sq = (if x = sq_back sq then sq\<lparr>sq_back := node\<rparr> else sq)
     in Inr (s, sq\<lparr>sq_count := sq_count sq + 1\<rparr>)))))))"

section \<open>What a head represents\<close>

definition staq_inv :: "staqnode store \<Rightarrow> staq \<Rightarrow> addr list \<Rightarrow> bool" where
  "staq_inv s sq xs \<longleftrightarrow>
     lseg sq_next s (sq_front sq) xs NULL \<and> distinct xs \<and> sq_count sq = length xs \<and>
     sq_back sq = (if xs = [] then NULL else Some (last xs))"


definition staq_repr :: "staq_state \<Rightarrow> addr list \<Rightarrow> bool" where
  "staq_repr st xs \<longleftrightarrow> staq_inv (fst st) (snd st) xs"

definition staq_usable :: "staq_state \<Rightarrow> addr \<Rightarrow> bool" where
  "staq_usable st a \<longleftrightarrow> a \<in> dom (fst st)"

lemma set_next_simps [simp]:
  "set_next s NULL v = Inl NullDeref"
  "s a = Some n \<Longrightarrow> set_next s (Some a) v = Inr (s(a \<mapsto> n\<lparr>sq_next := v\<rparr>))"
  "s a = None \<Longrightarrow> set_next s (Some a) v = Inl WildDeref"
  by (simp_all add: set_next_def)

lemma staq_inv_empty: "staq_inv s (staq_initializer d) []"
  by (simp add: staq_inv_def staq_initializer_def)

lemma staq_inv_Nil_iff: "staq_inv s sq [] \<longleftrightarrow> sq_front sq = NULL \<and> sq_back sq = NULL \<and> sq_count sq = 0"
  by (auto simp: staq_inv_def)

lemma staq_inv_count: "staq_inv s sq xs \<Longrightarrow> sq_count sq = length xs"
  by (simp add: staq_inv_def)

lemma staq_inv_dom: "staq_inv s sq xs \<Longrightarrow> a \<in> set xs \<Longrightarrow> \<exists>n. s a = Some n"
  by (auto simp: staq_inv_def dest: lseg_dom)

lemma staq_inv_frame: "staq_inv s sq xs \<Longrightarrow> frame A s s' \<Longrightarrow> A \<inter> set xs = {} \<Longrightarrow> staq_inv s' sq xs"
  by (simp add: staq_inv_def lseg_frame)

section \<open>Each operation as a list operation\<close>

lemma Staq_pushfront_inv:
  assumes inv: "staq_inv s sq xs" and a: "s a = Some n" "a \<notin> set xs"
  shows "\<exists>s' sq'. Staq_pushfront s sq (Some a) = Inr (s', sq') \<and> staq_inv s' sq' (a # xs) \<and>
           frame {a} s s' \<and> sq_dtor sq' = sq_dtor sq"
  using assms by (auto simp: Staq_pushfront_def staq_inv_def Let_def frame_def)

lemma Staq_pushback_inv:
  assumes inv: "staq_inv s sq xs" and a: "s a = Some n" "a \<notin> set xs"
  shows "\<exists>s' sq'. Staq_pushback s sq (Some a) = Inr (s', sq') \<and> staq_inv s' sq' (xs @ [a]) \<and>
           frame (insert a (set xs)) s s' \<and> sq_dtor sq' = sq_dtor sq"
proof (cases xs rule: rev_cases)
  case Nil
  then show ?thesis
    using assms by (auto simp: Staq_pushback_def staq_inv_def frame_def)
next
  case (snoc ys b)
  with inv obtain m where m: "s b = Some m" "lseg sq_next s (sq_front sq) ys (Some b)"
    by (auto simp: staq_inv_def lseg_snoc)
  from snoc assms have "b \<noteq> a" "a \<notin> set ys" "b \<notin> set ys" by (auto simp: staq_inv_def)
  then show ?thesis
    using assms m snoc by (auto simp: Staq_pushback_def staq_inv_def lseg_append frame_def)
qed

lemma Staq_popfront_Nil: "staq_inv s sq [] \<Longrightarrow> Staq_popfront s sq = Inr (NULL, s, sq)"
  by (simp add: Staq_popfront_def staq_inv_def)

lemma Staq_popfront_Cons:
  assumes "staq_inv s sq (a # xs)"
  shows "\<exists>sq'. Staq_popfront s sq = Inr (Some a, s, sq') \<and> staq_inv s sq' xs \<and>
           sq_dtor sq' = sq_dtor sq"
  using assms by (auto simp: Staq_popfront_def staq_inv_def lseg_Cons_iff Let_def)

interpretation staq: node_deque staq_repr staq_usable
  "\<lambda>(s, sq). Staq_popfront s sq" "\<lambda>(s, sq) a. Staq_pushfront s sq (Some a)"
  "\<lambda>(s, sq) a. Staq_pushback s sq (Some a)"
proof unfold_locales
  fix st a xs
  assume "staq_repr st xs" "staq_usable st a" "a \<notin> set xs"
  then show "\<exists>st'. (case st of (s, sq) \<Rightarrow> \<lambda>a. Staq_pushfront s sq (Some a)) a = Inr st' \<and>
      staq_repr st' (a # xs) \<and> (\<forall>b. staq_usable st b \<longrightarrow> staq_usable st' b)"
    using Staq_pushfront_inv [of "fst st" "snd st" xs a]
    by (fastforce simp: staq_repr_def staq_usable_def split: prod.splits dest: frame_dom)
next
  fix st a xs
  assume "staq_repr st xs" "staq_usable st a" "a \<notin> set xs"
  then show "\<exists>st'. (case st of (s, sq) \<Rightarrow> \<lambda>a. Staq_pushback s sq (Some a)) a = Inr st' \<and>
      staq_repr st' (xs @ [a]) \<and> (\<forall>b. staq_usable st b \<longrightarrow> staq_usable st' b)"
    using Staq_pushback_inv [of "fst st" "snd st" xs a]
    by (fastforce simp: staq_repr_def staq_usable_def split: prod.splits dest: frame_dom)
next
  fix st :: staq_state
  assume "staq_repr st []"
  then show "(case st of (s, sq) \<Rightarrow> Staq_popfront s sq) = Inr (NULL, st)"
    by (auto simp: staq_repr_def Staq_popfront_Nil split: prod.splits)
next
  fix st a xs
  assume "staq_repr st (a # xs)"
  then show "\<exists>st'. (case st of (s, sq) \<Rightarrow> Staq_popfront s sq) = Inr (Some a, st') \<and>
      staq_repr st' xs \<and> (\<forall>b. staq_usable st b \<longrightarrow> staq_usable st' b)"
    using Staq_popfront_Cons [of "fst st" "snd st" a xs]
    by (fastforce simp: staq_repr_def staq_usable_def split: prod.splits)
qed

lemma Staq_put_after_inv:
  assumes inv: "staq_inv s sq (xs @ x # ys)" and a: "s a = Some n" "a \<notin> set (xs @ x # ys)"
  shows "\<exists>s' sq'. Staq_put_after s sq (Some x) (Some a) = Inr (s', sq') \<and>
           staq_inv s' sq' (xs @ x # a # ys) \<and> frame {x, a} s s' \<and> sq_dtor sq' = sq_dtor sq"
proof -
  from inv obtain m where m: "s x = Some m" "lseg sq_next s (sq_front sq) xs (Some x)"
      "lseg sq_next s (sq_next m) ys NULL"
    by (auto simp: staq_inv_def lseg_append split: option.splits)
  from inv a have "x \<noteq> a" "x \<notin> set xs" "x \<notin> set ys" by (auto simp: staq_inv_def)
  moreover have "(Some x = sq_back sq) = (ys = [])"
    using inv by (auto simp: staq_inv_def last_append split: if_splits)
  ultimately show ?thesis
    using assms m by (auto simp: Staq_put_after_def staq_inv_def lseg_append Let_def frame_def)
qed

subsection \<open>Removal, clearing and destruction\<close>

lemma Staq_remove_Nil: "staq_inv s sq [] \<Longrightarrow> Staq_remove s sq f = Inr (False, s, sq)"
  by (simp add: Staq_remove_def Staq_popfront_Nil)

lemma Staq_remove_Cons_free:
  assumes "staq_inv s sq (a # xs)" and "sq_dtor sq = Some d" and "frees_node d"
  shows "\<exists>sq'. Staq_remove s sq True = Inr (True, s(a := None), sq') \<and>
           staq_inv (s(a := None)) sq' xs \<and> sq_dtor sq' = sq_dtor sq"
proof -
  obtain sq' where "Staq_popfront s sq = Inr (Some a, s, sq')" "staq_inv s sq' xs"
      "sq_dtor sq' = sq_dtor sq"
    using Staq_popfront_Cons [OF assms(1)] by blast
  moreover obtain n where "s a = Some n" "a \<notin> set xs"
    using assms(1) by (auto simp: staq_inv_def lseg_Cons_iff)
  ultimately show ?thesis
    using assms(2,3) by (auto simp: Staq_remove_def staq_inv_def dest: frees_nodeD)
qed

declare Staq_clear_loop.simps [simp del]

lemma Staq_clear_loop_frees:
  assumes "staq_inv s sq xs" and "sq_dtor sq = Some d" and "frees_node d"
  shows "\<exists>sq'. Staq_clear_loop s sq = Inr (s |` (- set xs), sq') \<and> sq_dtor sq' = sq_dtor sq"
  using assms
proof (induction xs arbitrary: s sq)
  case Nil
  then show ?case by (simp add: Staq_remove_Nil restrict_map_def Staq_clear_loop.simps [of s sq])
next
  case (Cons a xs)
  obtain sq1 where sq1: "Staq_remove s sq True = Inr (True, s(a := None), sq1)"
      "staq_inv (s(a := None)) sq1 xs" "sq_dtor sq1 = sq_dtor sq"
    using Staq_remove_Cons_free [OF Cons.prems] by blast
  have eq: "s(a := None) |` (- set xs) = s |` (- set (a # xs))"
    by (auto simp: restrict_map_def)
  obtain sq2 where sq2: "Staq_clear_loop (s(a := None)) sq1 = Inr (s(a := None) |` (- set xs), sq2)"
      "sq_dtor sq2 = sq_dtor sq1"
    using Cons.IH [OF sq1(2)] sq1(3) Cons.prems(2,3) by metis
  then have "Staq_clear_loop s sq = Inr (s |` (- set (a # xs)), sq2)"
    using sq1(1) eq by (simp only: Staq_clear_loop.simps [of s sq] bindE_simps prod.case if_True)
  with sq1(3) sq2(2) show ?case by auto
qed

subsection \<open>Joining\<close>

lemma Staq_join_inv:
  assumes "staq_inv s a xs" and "staq_inv s b ys" and "set xs \<inter> set ys = {}"
    and "xs = [] \<or> ys \<noteq> []"
  shows "\<exists>s' a'. Staq_join s a b = Inr (s', a', staq_initializer (sq_dtor b)) \<and>
           staq_inv s' a' (xs @ ys) \<and> frame (set xs) s s' \<and> sq_dtor a' = sq_dtor a"
proof (cases xs rule: rev_cases)
  case Nil
  then show ?thesis
    using assms by (auto simp: Staq_join_def staq_inv_def)
next
  case (snoc zs c)
  with assms(1) obtain m where "s c = Some m" "lseg sq_next s (sq_front a) zs (Some c)"
    by (auto simp: staq_inv_def lseg_snoc)
  moreover have "c \<notin> set zs" "c \<notin> set ys"
    using assms(1,3) snoc by (auto simp: staq_inv_def)
  ultimately show ?thesis
    using assms snoc by (auto simp: Staq_join_def staq_inv_def Let_def lseg_append frame_def)
qed

subsection \<open>Rotation\<close>

lemma find_nth_loop_lseg:
  "lseg sq_next s p xs NULL \<Longrightarrow> n < length xs \<Longrightarrow> find_nth_loop s p n = Inr (Some (xs ! n))"
proof (induction n arbitrary: p xs)
  case 0
  then show ?case by (cases xs) auto
next
  case (Suc n)
  then obtain a b ys where xs: "xs = a # b # ys"
    by (cases xs; cases "tl xs") auto
  with Suc.prems obtain m where "p = Some a" "s a = Some m" "lseg sq_next s (sq_next m) (b # ys) NULL"
    by (auto simp: lseg_Cons_iff)
  with Suc.IH [of "sq_next m" "b # ys"] Suc.prems xs show ?case
    by auto
qed

lemma Staq_rotate_split:
  assumes inv: "staq_inv s sq (xs @ ys)" and "xs \<noteq> []" and "ys \<noteq> []"
    and "dir = 1 \<and> num mod length (xs @ ys) = length xs \<or>
         dir = -1 \<and> num mod length (xs @ ys) = length ys"
  shows "\<exists>s' sq'. Staq_rotate s sq dir num = Inr (s', sq') \<and> staq_inv s' sq' (ys @ xs) \<and>
           frame (set (xs @ ys)) s s' \<and> sq_dtor sq' = sq_dtor sq"
proof -
  obtain us c where xs: "xs = us @ [c]" using assms(2) by (metis rev_exhaust)
  obtain vs e where ys: "ys = vs @ [e]" using assms(3) by (metis rev_exhaust)
  from inv obtain m k where seg: "s c = Some m" "lseg sq_next s (sq_front sq) us (Some c)"
      "lseg sq_next s (sq_next m) vs (Some e)" "s e = Some k"
    by (auto simp: xs ys staq_inv_def lseg_append split: option.splits)
  have ne: "c \<noteq> e" "c \<notin> set us" "e \<notin> set us" "c \<notin> set vs" "e \<notin> set vs"
    using inv by (auto simp: xs ys staq_inv_def)
  have rot: "(if dir < 0 then sq_count sq - num mod sq_count sq else num mod sq_count sq) = length xs"
    using assms by (auto simp: staq_inv_def)
  have pre0: "us = [] \<Longrightarrow> sq_front sq = Some c"
    using seg by simp
  have "find_nth_loop s (sq_front sq) (length us) = Inr (Some ((xs @ ys) ! length us))"
    using inv by (intro find_nth_loop_lseg) (auto simp: staq_inv_def xs)
  then have pre: "us \<noteq> [] \<Longrightarrow> find_nth s sq (length us) = Inr (Some c)"
    using inv by (simp add: find_nth_def staq_inv_def xs nth_append)
  have cond: "\<not> (sq_count sq < 2 \<or> num = 0)" "num mod sq_count sq \<noteq> 0" "dir = 1 \<or> dir = -1"
    "dir \<noteq> 0" "sq_back sq = Some e"
    using assms by (auto simp: staq_inv_def xs ys)
  have "Staq_rotate s sq dir num =
      bindE (set_next s (Some e) (sq_front sq)) (\<lambda>s. bindE (load s (Some c)) (\<lambda>p.
      bindE (set_next s (Some c) NULL) (\<lambda>s. Inr (s, sq\<lparr>sq_back := Some c, sq_front := sq_next p\<rparr>))))"
    unfolding Staq_rotate_def Let_def rot using cond pre0 pre by (cases "us = []") (simp_all add: xs)
  then show ?thesis
    using inv seg ne by (auto simp: xs ys staq_inv_def lseg_append frame_def)
qed

lemma Staq_rotate_trivial:
  "dir = 1 \<or> dir = -1 \<Longrightarrow> sq_count sq < 2 \<or> num mod sq_count sq = 0 \<Longrightarrow>
     Staq_rotate s sq dir num = Inr (s, sq)"
  by (auto simp: Staq_rotate_def Let_def)

subsection \<open>Reversal\<close>

lemma Staq_upend_loop_lseg:
  assumes "lseg sq_next s c (zs @ x # ys) NULL" and "distinct (zs @ x # ys)" and "length ys < fuel"
  shows "\<exists>s' b. Staq_upend_loop fuel s (Some x) c c = Inr (s', Some x, b) \<and>
           lseg sq_next s' b (rev ys @ zs @ [x]) NULL \<and> frame (set (zs @ x # ys)) s s'"
  using assms
proof (induction ys arbitrary: s c zs fuel)
  case Nil
  then obtain k where "fuel = Suc k" by (cases fuel) auto
  with Nil show ?case by (auto simp: lseg_append)
next
  case (Cons y ys)
  then obtain k where k: "fuel = Suc k" "length ys < k" by (cases fuel) auto
  obtain nx ny where n: "s x = Some nx" "sq_next nx = Some y" "s y = Some ny"
      "lseg sq_next s c zs (Some x)" "lseg sq_next s (sq_next ny) ys NULL"
    using Cons.prems(1) by (auto simp: lseg_append)
  have ne: "x \<noteq> y" "x \<notin> set zs" "y \<notin> set zs" "x \<notin> set ys" "y \<notin> set ys"
    using Cons.prems(2) by auto
  let ?s2 = "s(x \<mapsto> nx\<lparr>sq_next := sq_next ny\<rparr>, y \<mapsto> ny\<lparr>sq_next := c\<rparr>)"
  have step: "Staq_upend_loop fuel s (Some x) c c = Staq_upend_loop k ?s2 (Some x) (Some y) (Some y)"
    using k n ne by (simp add: Let_def)
  have "lseg sq_next ?s2 (Some y) ((y # zs) @ x # ys) NULL"
    using n ne by (auto simp: lseg_append)
  moreover have "distinct ((y # zs) @ x # ys)"
    using Cons.prems(2) by auto
  ultimately obtain s' b where "Staq_upend_loop k ?s2 (Some x) (Some y) (Some y) = Inr (s', Some x, b)"
      "lseg sq_next s' b (rev ys @ (y # zs) @ [x]) NULL" "frame (set ((y # zs) @ x # ys)) ?s2 s'"
    using Cons.IH k(2) by blast
  moreover have "frame (set (zs @ x # y # ys)) s ?s2"
    using n ne by (auto simp: frame_def)
  ultimately show ?case
    using step by (auto intro: frame_trans)
qed

section \<open>The properties of the component\<close>

text \<open>A small store for the witnesses: nodes 1, 2, 3 are linked in this order under the head
  \<open>staq_ex\<close>, whose destructor frees the node it is given; nodes 4 and 5 are allocated but
  not linked.\<close>

definition staq_ex_store :: "staqnode store" where
  "staq_ex_store = [1 \<mapsto> \<lparr>sq_next = Some 2\<rparr>, 2 \<mapsto> \<lparr>sq_next = Some 3\<rparr>, 3 \<mapsto> \<lparr>sq_next = NULL\<rparr>,
     4 \<mapsto> \<lparr>sq_next = NULL\<rparr>, 5 \<mapsto> \<lparr>sq_next = NULL\<rparr>]"

definition staq_ex :: staq where
  "staq_ex = \<lparr>sq_count = 3, sq_front = Some 1, sq_back = Some 3, sq_dtor = Some free_dtor\<rparr>"

lemma staq_ex_inv: "staq_inv staq_ex_store staq_ex [1, 2, 3]"
  by (simp add: staq_inv_def staq_ex_def staq_ex_store_def)

lemma staq_ex_dom: "set [4, 5] \<subseteq> dom staq_ex_store" "staq_ex_store 4 = Some \<lparr>sq_next = NULL\<rparr>"
  by (auto simp: staq_ex_store_def)

lemma staq_ex_dtor: "sq_dtor staq_ex = Some free_dtor"
  by (simp add: staq_ex_def)

text \<open>C33: Queue behaviour: linking any distinct, unlinked nodes with \<open>Staq_pushback\<close> and then calling
  \<open>Staq_popfront\<close> as often as there are nodes returns the nodes already queued followed by the
  new ones, in the order they were pushed, and leaves an empty list.\<close>

theorem staq_fifo:
  assumes "staq_inv s sq xs" and "distinct ys" and "set ys \<inter> set xs = {}" and "set ys \<subseteq> dom s"
  shows "\<exists>st st'. foldE (\<lambda>(s, sq) a. Staq_pushback s sq (Some a)) (s, sq) ys = Inr st \<and>
           drainE (\<lambda>(s, sq). Staq_popfront s sq) (length xs + length ys) st = Inr (xs @ ys, st') \<and>
           staq_inv (fst st') (snd st') []"
  using staq.fifo [of "(s, sq)" xs ys] assms by (simp add: staq_repr_def staq_usable_def subset_eq)

theorem staq_fifo_witness:
  "\<exists>st st'. foldE (\<lambda>(s, sq) a. Staq_pushback s sq (Some a)) (staq_ex_store, staq_ex) [4, 5] = Inr st \<and>
     drainE (\<lambda>(s, sq). Staq_popfront s sq) (length [1, 2, 3 :: addr] + length [4, 5 :: addr]) st =
       Inr ([1, 2, 3] @ [4, 5], st') \<and> staq_inv (fst st') (snd st') []"
  by (rule staq_fifo [OF staq_ex_inv _ _ staq_ex_dom(1)]) simp_all

text \<open>Stack behaviour: nodes pushed with \<open>Staq_pushfront\<close> come out of \<open>Staq_popfront\<close> in
  reverse order, before what was on the stack.\<close>

theorem staq_lifo:
  assumes "staq_inv s sq xs" and "distinct ys" and "set ys \<inter> set xs = {}" and "set ys \<subseteq> dom s"
  shows "\<exists>st st'. foldE (\<lambda>(s, sq) a. Staq_pushfront s sq (Some a)) (s, sq) ys = Inr st \<and>
           drainE (\<lambda>(s, sq). Staq_popfront s sq) (length ys + length xs) st = Inr (rev ys @ xs, st') \<and>
           staq_inv (fst st') (snd st') []"
  using staq.lifo [of "(s, sq)" xs ys] assms by (simp add: staq_repr_def staq_usable_def subset_eq)

text \<open>\<open>Staq_upend\<close> reverses the list in place: the loop ends after at most as many rounds as
  there are nodes, the head then represents the reversed list, and only nodes of the list
  are written.\<close>

theorem Staq_upend_correct:
  assumes inv: "staq_inv s sq xs" and fuel: "length xs \<le> fuel"
  shows "\<exists>s' sq'. Staq_upend fuel s sq = Inr (s', sq') \<and> staq_inv s' sq' (rev xs) \<and>
           frame (set xs) s s' \<and> sq_dtor sq' = sq_dtor sq"
proof (cases "length xs < 2")
  case True
  then have "rev xs = xs" by (cases xs; cases "tl xs") auto
  with True inv show ?thesis by (auto simp: Staq_upend_def staq_inv_count)
next
  case False
  then obtain x ys where xs: "xs = x # ys" "ys \<noteq> []" by (cases xs; cases "tl xs") auto
  with inv have front: "sq_front sq = Some x" by (simp add: staq_inv_def)
  from inv obtain s' b where loop: "Staq_upend_loop fuel s (Some x) (Some x) (Some x) = Inr (s', Some x, b)"
      "lseg sq_next s' b (rev ys @ [] @ [x]) NULL" "frame (set ([] @ x # ys)) s s'"
    using Staq_upend_loop_lseg [of s "Some x" "[]" x ys fuel] fuel xs
    by (auto simp: staq_inv_def)
  with False inv front show ?thesis
    by (auto simp: Staq_upend_def staq_inv_def xs)
qed

theorem Staq_upend_witness:
  "\<exists>s' sq'. Staq_upend 3 staq_ex_store staq_ex = Inr (s', sq') \<and> staq_inv s' sq' [3, 2, 1]"
  using Staq_upend_correct [OF staq_ex_inv, of 3] by auto

text \<open>\<open>Staq_rotate\<close> by \<open>num\<close> steps is list rotation: towards the front (\<open>dir = 1\<close>) the result is
  the list rotated \<open>num\<close> times, towards the back (\<open>dir = -1\<close>) it is the list that rotating
  \<open>num\<close> times brings back to the original; counts beyond the length wrap around.\<close>

theorem Staq_rotate_correct:
  assumes inv: "staq_inv s sq xs" and dir: "dir = 1 \<or> dir = -1"
  shows "\<exists>s' sq' ys. Staq_rotate s sq dir num = Inr (s', sq') \<and> staq_inv s' sq' ys \<and>
           frame (set xs) s s' \<and> (if dir = 1 then ys = rotate num xs else rotate num ys = xs)"
proof (cases "length xs < 2 \<or> num mod length xs = 0")
  case True
  then have "rotate num xs = xs"
    by (cases xs; cases "tl xs") (auto simp: rotate_drop_take)
  with True inv dir show ?thesis
    by (auto simp: Staq_rotate_trivial staq_inv_count intro!: exI [of _ xs])
next
  case False
  let ?k = "if dir = 1 then num mod length xs else length xs - num mod length xs"
  have "num mod length xs < length xs" using False by (intro mod_less_divisor) linarith
  with False have k: "0 < ?k" "?k < length xs" by auto
  have "dir = 1 \<and> num mod length (take ?k xs @ drop ?k xs) = length (take ?k xs) \<or>
        dir = -1 \<and> num mod length (take ?k xs @ drop ?k xs) = length (drop ?k xs)"
    using dir k by auto
  then obtain s' sq' where "Staq_rotate s sq dir num = Inr (s', sq')"
      "staq_inv s' sq' (drop ?k xs @ take ?k xs)" "frame (set xs) s s'"
    using Staq_rotate_split [of s sq "take ?k xs" "drop ?k xs" dir num] inv k by force
  then show ?thesis
    using dir rotate_back [of num xs]
    by (intro exI [of _ s'] exI [of _ sq'] exI [of _ "drop ?k xs @ take ?k xs"])
       (auto simp: rotate_drop_take)
qed

theorem Staq_rotate_witness:
  "\<exists>s' sq'. Staq_rotate staq_ex_store staq_ex 1 4 = Inr (s', sq') \<and> staq_inv s' sq' [2, 3, 1]"
  using Staq_rotate_correct [OF staq_ex_inv, of 1 4] by (auto simp: rotate_drop_take)

text \<open>\<open>Staq_clear\<close> with a destructor that frees its node terminates, frees exactly the linked
  nodes, touches no freed node, and leaves the head empty with its destructor kept.\<close>

theorem Staq_clear_frees_all:
  assumes "staq_inv s sq xs" and "sq_dtor sq = Some d" and "frees_node d"
  shows "Staq_clear s sq True = Inr (s |` (- set xs), Staq_new (Some d))"
  using Staq_clear_loop_frees [OF assms] assms(2)
  by (auto simp: Staq_clear_def Staq_new_def)

theorem Staq_clear_witness:
  "Staq_clear staq_ex_store staq_ex True =
     Inr (staq_ex_store |` (- set [1, 2, 3]), Staq_new (Some free_dtor))"
  using Staq_clear_frees_all [OF staq_ex_inv staq_ex_dtor frees_node_free_dtor] .

text \<open>\<open>Staq_join\<close> moves all nodes of \<open>b\<close> to the end of \<open>a\<close>, unless \<open>b\<close> is empty and \<open>a\<close> is not.\<close>

theorem Staq_join_correct:
  assumes "staq_inv s a xs" and "staq_inv s b ys" and "set xs \<inter> set ys = {}"
    and "xs = [] \<or> ys \<noteq> []"
  shows "\<exists>s' a' b'. Staq_join s a b = Inr (s', a', b') \<and>
           staq_inv s' a' (xs @ ys) \<and> staq_inv s' b' [] \<and> frame (set xs) s s' \<and>
           sq_dtor a' = sq_dtor a \<and> sq_dtor b' = sq_dtor b"
  using Staq_join_inv [OF assms] staq_inv_empty by (fastforce simp: staq_initializer_def)

text \<open>\<open>Staq_join\<close> of a non-empty list with an empty one sets the back pointer to NULL although
  nodes are linked, and the next \<open>Staq_pushback\<close> dereferences NULL.\<close>

theorem Staq_join_empty_corrupts:
  assumes "staq_inv s a xs" and "xs \<noteq> []" and "staq_inv s b []" and "s c = Some n" and "c \<notin> set xs"
  shows "\<exists>s' a' b'. Staq_join s a b = Inr (s', a', b') \<and> sq_count a' = length xs \<and>
           sq_back a' = NULL \<and> Staq_pushback s' a' (Some c) = Inl NullDeref"
proof -
  obtain zs e where xs: "xs = zs @ [e]" using assms(2) by (metis rev_exhaust)
  with assms(1) obtain m where "s e = Some m" "e \<noteq> c"
    using assms(5) by (auto simp: staq_inv_def lseg_snoc)
  with assms xs show ?thesis
    by (auto simp: Staq_join_def Staq_pushback_def staq_inv_def Let_def)
qed

theorem Staq_join_empty_witness:
  "\<exists>s' a' b'. Staq_join staq_ex_store staq_ex (Staq_new None) = Inr (s', a', b') \<and>
     sq_count a' = length [1, 2, 3 :: addr] \<and> sq_back a' = NULL \<and>
     Staq_pushback s' a' (Some 4) = Inl NullDeref"
  by (rule Staq_join_empty_corrupts [OF staq_ex_inv _ _ staq_ex_dom(2)])
     (simp_all add: Staq_new_def staq_initializer_def staq_inv_def)

text \<open>\<open>Staq_swap\<close> exchanges the two lists, but both heads end with the destructor of \<open>b\<close>: that of
  \<open>a\<close> is overwritten before it is read.\<close>

theorem Staq_swap_exchanges_contents:
  assumes "staq_inv s a xs" and "staq_inv s b ys"
  shows "(case Staq_swap a b of (a', b') \<Rightarrow>
           staq_inv s a' ys \<and> staq_inv s b' xs \<and> sq_dtor a' = sq_dtor b \<and> sq_dtor b' = sq_dtor b)"
  using assms by (simp add: Staq_swap_def staq_inv_def Let_def)

end
