(* ===== verification/Dllist.thy ===== *)
theory Dllist
  imports Interfaces
begin

text \<open>
  The doubly linked list of \<open>src/mods/dllist/dllist.c\<close>, over a store of \<open>dlnode\<close>s.
  \<open>dll_inv s l xs\<close> says that the head \<open>l\<close> represents the node list \<open>xs\<close>: following
  \<open>next\<close> from the front and \<open>prev\<close> from the back visits exactly these nodes, in opposite
  orders. Every function of the file is modelled, and each is shown to act as the list
  operation its header documents, or the inputs on which it does not are stated.
  Functions that chase pointers until NULL take a fuel argument; a fuel of the list's length
  plus one is shown to be enough.
\<close>

section \<open>Data\<close>

record dlnode =
  dl_next :: ptr
  dl_prev :: ptr

record dllist =
  dl_count :: nat
  dl_front :: ptr
  dl_back :: ptr
  dl_dtor :: "dlnode dtor option"

type_synonym dll_state = "dlnode store \<times> dllist"

section \<open>Operations\<close>

definition initialize_dllist :: "dlnode dtor option \<Rightarrow> dllist" where
  "initialize_dllist dtor = \<lparr>dl_count = 0, dl_front = NULL, dl_back = NULL, dl_dtor = dtor\<rparr>"

definition Dll_init :: "dlnode dtor option \<Rightarrow> dllist" where
  "Dll_init dtor = initialize_dllist dtor"

definition Dll_new :: "dlnode dtor option \<Rightarrow> dllist" where
  "Dll_new dtor = initialize_dllist dtor"

definition put_next :: "dlnode store \<Rightarrow> ptr \<Rightarrow> ptr \<Rightarrow> dlnode store res" where
  "put_next s p v = update s p (\<lambda>n. n\<lparr>dl_next := v\<rparr>)"

definition put_prev :: "dlnode store \<Rightarrow> ptr \<Rightarrow> ptr \<Rightarrow> dlnode store res" where
  "put_prev s p v = update s p (\<lambda>n. n\<lparr>dl_prev := v\<rparr>)"

text \<open>The loop of the macro \<open>Dll_foreach_node_\<close>: the successor is read before the body
  runs, so the body may unlink or free the current node.\<close>

definition peek_next :: "dlnode store \<Rightarrow> ptr \<Rightarrow> ptr res" where
  "peek_next s p = (if p = NULL then Inr NULL else bindE (load s p) (\<lambda>n. Inr (dl_next n)))"

fun foreach_node_loop :: "nat \<Rightarrow> dlnode dtor \<Rightarrow> dlnode store \<Rightarrow> ptr \<Rightarrow> ptr \<Rightarrow> dlnode store res" where
  "foreach_node_loop 0 body s tmp tmp_next = Inl OutOfFuel"
| "foreach_node_loop (Suc fuel) body s tmp tmp_next =
     (case tmp of
        None \<Rightarrow> Inr s
      | Some i \<Rightarrow>
          bindE (body s i) (\<lambda>s.
          bindE (peek_next s tmp_next) (\<lambda>nn.
          foreach_node_loop fuel body s tmp_next nn)))"

definition Dll_foreach_node :: "nat \<Rightarrow> dlnode dtor \<Rightarrow> dlnode store \<Rightarrow> dllist \<Rightarrow> dlnode store res" where
  "Dll_foreach_node fuel body s l =
     bindE (peek_next s (dl_front l)) (\<lambda>nn. foreach_node_loop fuel body s (dl_front l) nn)"

definition Dll_clear :: "nat \<Rightarrow> dlnode store \<Rightarrow> dllist \<Rightarrow> bool \<Rightarrow> dll_state res" where
  "Dll_clear fuel s l free_containers =
     (if dl_count l = 0 then Inr (s, l)
      else bindE (if free_containers
                  then (case dl_dtor l of
                          None \<Rightarrow> Inl (Throw ERROR_MISCONFIGURED)
                        | Some d \<Rightarrow> Dll_foreach_node fuel d s l)
                  else Inr s) (\<lambda>s.
        Inr (s, initialize_dllist (dl_dtor l))))"

definition Dll_destroy :: "nat \<Rightarrow> dlnode store \<Rightarrow> dllist \<Rightarrow> bool \<Rightarrow> (dlnode store \<times> dllist option) res" where
  "Dll_destroy fuel s l free_containers =
     bindE (Dll_clear fuel s l free_containers) (\<lambda>(s, l). Inr (s, None))"

definition Dll_empty :: "dllist \<Rightarrow> bool" where
  "Dll_empty l \<longleftrightarrow> dl_count l = 0"

definition Dll_count :: "dllist \<Rightarrow> nat" where
  "Dll_count l = dl_count l"

definition Dll_peek_front :: "dllist \<Rightarrow> ptr" where
  "Dll_peek_front l = dl_front l"

definition Dll_peek_back :: "dllist \<Rightarrow> ptr" where
  "Dll_peek_back l = dl_back l"

definition Dll_nextnode :: "dlnode store \<Rightarrow> ptr \<Rightarrow> ptr res" where
  "Dll_nextnode s node = bindE (assertE (node \<noteq> NULL)) (\<lambda>_. bindE (load s node) (\<lambda>n. Inr (dl_next n)))"

definition Dll_prevnode :: "dlnode store \<Rightarrow> ptr \<Rightarrow> ptr res" where
  "Dll_prevnode s node = bindE (assertE (node \<noteq> NULL)) (\<lambda>_. bindE (load s node) (\<lambda>n. Inr (dl_prev n)))"

definition Dll_pop_front :: "dlnode store \<Rightarrow> dllist \<Rightarrow> (ptr \<times> dll_state) res" where
  "Dll_pop_front s l =
     (let node = dl_front l in
      if dl_count l = 0 then Inr (NULL, s, l)
      else bindE
        (if dl_count l = 1 then Inr (s, l\<lparr>dl_front := NULL, dl_back := NULL\<rparr>)
         else if dl_count l = 2 then
           bindE (load s node) (\<lambda>n.
           let l = l\<lparr>dl_front := dl_next n, dl_back := dl_next n\<rparr> in
           bindE (put_next s (dl_front l) NULL) (\<lambda>s.
           bindE (put_prev s (dl_front l) NULL) (\<lambda>s. Inr (s, l))))
         else
           bindE (load s node) (\<lambda>n.
           let l = l\<lparr>dl_front := dl_next n\<rparr> in
           bindE (put_prev s (dl_front l) NULL) (\<lambda>s. Inr (s, l)))) (\<lambda>(s, l).
        Inr (node, s, l\<lparr>dl_count := dl_count l - 1\<rparr>)))"

definition Dll_pop_back :: "dlnode store \<Rightarrow> dllist \<Rightarrow> (ptr \<times> dll_state) res" where
  "Dll_pop_back s l =
     (let node = dl_back l in
      if dl_count l = 0 then Inr (NULL, s, l)
      else bindE
        (if dl_count l = 1 then Inr (s, l\<lparr>dl_front := NULL, dl_back := NULL\<rparr>)
         else if dl_count l = 2 then
           bindE (load s node) (\<lambda>n.
           let l = l\<lparr>dl_front := dl_prev n, dl_back := dl_prev n\<rparr> in
           bindE (put_next s (dl_front l) NULL) (\<lambda>s.
           bindE (put_prev s (dl_front l) NULL) (\<lambda>s. Inr (s, l))))
         else
           bindE (load s node) (\<lambda>n.
           let l = l\<lparr>dl_back := dl_prev n\<rparr> in
           bindE (put_next s (dl_back l) NULL) (\<lambda>s. Inr (s, l)))) (\<lambda>(s, l).
        Inr (node, s, l\<lparr>dl_count := dl_count l - 1\<rparr>)))"

definition Dll_push_front :: "dlnode store \<Rightarrow> dllist \<Rightarrow> ptr \<Rightarrow> dll_state res" where
  "Dll_push_front s l node =
     bindE (assertE (node \<noteq> NULL)) (\<lambda>_.
     bindE (put_prev s node NULL) (\<lambda>s.
     bindE (put_next s node (dl_front l)) (\<lambda>s.
     let l = l\<lparr>dl_front := node\<rparr> in
     bindE (if dl_count l = 0 then Inr (s, l\<lparr>dl_back := dl_front l\<rparr>)
            else bindE (load s (dl_front l)) (\<lambda>f.
                 bindE (put_prev s (dl_next f) (dl_front l)) (\<lambda>s. Inr (s, l)))) (\<lambda>(s, l).
     Inr (s, l\<lparr>dl_count := dl_count l + 1\<rparr>)))))"

definition Dll_push_back :: "dlnode store \<Rightarrow> dllist \<Rightarrow> ptr \<Rightarrow> dll_state res" where
  "Dll_push_back s l node =
     bindE (assertE (node \<noteq> NULL)) (\<lambda>_.
     bindE (put_next s node NULL) (\<lambda>s.
     bindE (put_prev s node (dl_back l)) (\<lambda>s.
     let l = l\<lparr>dl_back := node\<rparr> in
     bindE (if dl_count l = 0 then Inr (s, l\<lparr>dl_front := dl_back l\<rparr>)
            else bindE (load s (dl_back l)) (\<lambda>f.
                 bindE (put_next s (dl_prev f) (dl_back l)) (\<lambda>s. Inr (s, l)))) (\<lambda>(s, l).
     Inr (s, l\<lparr>dl_count := dl_count l + 1\<rparr>)))))"

text \<open>Unlinking an inner node: \<open>node->next->prev = node->prev; node->prev->next = node->next\<close>.\<close>

definition unlink_inner :: "dlnode store \<Rightarrow> dllist \<Rightarrow> ptr \<Rightarrow> dll_state res" where
  "unlink_inner s l node =
     bindE (load s node) (\<lambda>n.
     bindE (put_prev s (dl_next n) (dl_prev n)) (\<lambda>s.
     bindE (load s node) (\<lambda>n.
     bindE (put_next s (dl_prev n) (dl_next n)) (\<lambda>s.
     Inr (s, l\<lparr>dl_count := dl_count l - 1\<rparr>)))))"

definition Dll_remove_node :: "dlnode store \<Rightarrow> dllist \<Rightarrow> ptr \<Rightarrow> bool \<Rightarrow> dll_state res" where
  "Dll_remove_node s l node free_container =
     bindE (assertE (node \<noteq> NULL)) (\<lambda>_.
     bindE (assertE (dl_count l > 0)) (\<lambda>_.
     bindE (if node = dl_front l then bindE (Dll_pop_front s l) (\<lambda>(_, st). Inr st)
            else if node = dl_back l then bindE (Dll_pop_back s l) (\<lambda>(_, st). Inr st)
            else unlink_inner s l node) (\<lambda>(s, l).
     if free_container
     then (case dl_dtor l of
             None \<Rightarrow> Inl (Throw ERROR_MISCONFIGURED)
           | Some d \<Rightarrow> bindE (d s (the node)) (\<lambda>s. Inr (s, l)))
     else Inr (s, l))))"

definition Dll_pop_node :: "dlnode store \<Rightarrow> dllist \<Rightarrow> ptr \<Rightarrow> dll_state res" where
  "Dll_pop_node s l node = Dll_remove_node s l node False"

definition Dll_remove_back :: "dlnode store \<Rightarrow> dllist \<Rightarrow> dll_state res" where
  "Dll_remove_back s l =
     (if dl_count l = 0 then Inr (s, l) else Dll_remove_node s l (Dll_peek_back l) True)"

definition Dll_remove_front :: "dlnode store \<Rightarrow> dllist \<Rightarrow> dll_state res" where
  "Dll_remove_front s l =
     (if dl_count l = 0 then Inr (s, l) else Dll_remove_node s l (Dll_peek_front l) True)"

definition Dll_put_node_after :: "dlnode store \<Rightarrow> dllist \<Rightarrow> ptr \<Rightarrow> ptr \<Rightarrow> dll_state res" where
  "Dll_put_node_after s l a b =
     bindE (assertE (a \<noteq> NULL)) (\<lambda>_.
     bindE (assertE (b \<noteq> NULL)) (\<lambda>_.
     if a = dl_back l then Dll_push_back s l b
     else
       bindE (load s a) (\<lambda>na.
       bindE (put_next s b (dl_next na)) (\<lambda>s.
       bindE (load s b) (\<lambda>nb.
       bindE (put_prev s (dl_next nb) b) (\<lambda>s.
       bindE (put_prev s b a) (\<lambda>s.
       bindE (put_next s a b) (\<lambda>s.
       Inr (s, l\<lparr>dl_count := dl_count l + 1\<rparr>)))))))))"

definition Dll_put_node_before :: "dlnode store \<Rightarrow> dllist \<Rightarrow> ptr \<Rightarrow> ptr \<Rightarrow> dll_state res" where
  "Dll_put_node_before s l a b =
     bindE (assertE (a \<noteq> NULL)) (\<lambda>_.
     bindE (assertE (b \<noteq> NULL)) (\<lambda>_.
     if a = dl_front l then Dll_push_front s l b
     else
       bindE (load s a) (\<lambda>na.
       bindE (put_prev s b (dl_prev na)) (\<lambda>s.
       bindE (load s b) (\<lambda>nb.
       bindE (put_next s (dl_prev nb) b) (\<lambda>s.
       bindE (put_next s b a) (\<lambda>s.
       bindE (put_prev s a b) (\<lambda>s.
       Inr (s, l\<lparr>dl_count := dl_count l + 1\<rparr>)))))))))"

definition Dll_replace_node :: "dlnode store \<Rightarrow> dllist \<Rightarrow> ptr \<Rightarrow> ptr \<Rightarrow> dll_state res" where
  "Dll_replace_node s l a b =
     bindE (assertE (a \<noteq> NULL)) (\<lambda>_.
     bindE (assertE (b \<noteq> NULL)) (\<lambda>_.
     bindE (load s a) (\<lambda>na.
     bindE (put_next s b (dl_next na)) (\<lambda>s.
     bindE (load s a) (\<lambda>na.
     bindE (put_prev s b (dl_prev na)) (\<lambda>s.
     bindE (load s b) (\<lambda>nb.
     bindE (if dl_next nb \<noteq> NULL
            then bindE (put_prev s (dl_next nb) b) (\<lambda>s. Inr (s, l))
            else Inr (s, l\<lparr>dl_back := b\<rparr>)) (\<lambda>(s, l).
     bindE (load s b) (\<lambda>nb.
     if dl_prev nb \<noteq> NULL
     then bindE (put_next s (dl_prev nb) b) (\<lambda>s. Inr (s, l))
     else Inr (s, l\<lparr>dl_front := b\<rparr>))))))))))"

definition Dll_swap_list_nodes :: "dlnode store \<Rightarrow> dllist \<Rightarrow> ptr \<Rightarrow> ptr \<Rightarrow> dll_state res" where
  "Dll_swap_list_nodes s l a b =
     bindE (assertE (a \<noteq> NULL)) (\<lambda>_.
     bindE (assertE (b \<noteq> NULL)) (\<lambda>_.
     bindE (load s a) (\<lambda>na.
     let before_a = dl_prev na in
     bindE (Dll_remove_node s l a False) (\<lambda>(s, l).
     bindE (Dll_replace_node s l b a) (\<lambda>(s, l).
     if before_a \<noteq> NULL then Dll_put_node_after s l before_a b
     else Dll_push_front s l b)))))"

definition Dll_swap_list_heads :: "dllist \<Rightarrow> dllist \<Rightarrow> dllist \<times> dllist" where
  "Dll_swap_list_heads a b =
     (let tmp = a;
          a = a\<lparr>dl_front := dl_front b, dl_back := dl_back b, dl_count := dl_count b\<rparr>;
          b = b\<lparr>dl_front := dl_front tmp, dl_back := dl_back tmp, dl_count := dl_count tmp\<rparr>
      in (a, b))"

definition Dll_join :: "dlnode store \<Rightarrow> dllist \<Rightarrow> dllist \<Rightarrow> (dlnode store \<times> dllist \<times> dllist) res" where
  "Dll_join s a b =
     bindE (if dl_back a \<noteq> NULL
            then bindE (put_next s (dl_back a) (dl_front b)) (\<lambda>s.
                 bindE (put_prev s (dl_front b) (dl_back a)) (\<lambda>s. Inr (s, a)))
            else Inr (s, a\<lparr>dl_front := dl_front b, dl_back := dl_back b\<rparr>)) (\<lambda>(s, a).
     Inr (s, a\<lparr>dl_count := dl_count a + dl_count b\<rparr>, initialize_dllist None))"

fun count_list_nodes_loop :: "nat \<Rightarrow> dlnode store \<Rightarrow> ptr \<Rightarrow> nat \<Rightarrow> nat res" where
  "count_list_nodes_loop 0 s node count = Inl OutOfFuel"
| "count_list_nodes_loop (Suc fuel) s node count =
     (if node = NULL then Inr count
      else bindE (load s node) (\<lambda>n. count_list_nodes_loop fuel s (dl_next n) (count + 1)))"

definition count_list_nodes :: "nat \<Rightarrow> dlnode store \<Rightarrow> dllist \<Rightarrow> nat res" where
  "count_list_nodes fuel s l = count_list_nodes_loop fuel s (dl_front l) 0"

definition Dll_split_list ::
    "nat \<Rightarrow> dlnode store \<Rightarrow> dllist \<Rightarrow> ptr \<Rightarrow> (dlnode store \<times> dllist \<times> dllist) res" where
  "Dll_split_list fuel s l node =
     bindE (assertE (node \<noteq> NULL)) (\<lambda>_.
     let orig_len = dl_count l; b = Dll_new (dl_dtor l) in
     if node = dl_front l then (let (l, b) = Dll_swap_list_heads l b in Inr (s, l, b))
     else
       let b = b\<lparr>dl_front := node\<rparr> in
       bindE (load s node) (\<lambda>n.
       let b = (if dl_next n = NULL then b\<lparr>dl_back := node\<rparr> else b) in
       bindE (if node = dl_back l then bindE (Dll_pop_back s l) (\<lambda>(_, st). Inr st)
              else bindE (put_next s (dl_prev n) NULL) (\<lambda>s. Inr (s, l\<lparr>dl_back := dl_prev n\<rparr>))) (\<lambda>(s, l).
       bindE (put_prev s node NULL) (\<lambda>s.
       bindE (count_list_nodes fuel s b) (\<lambda>k.
       Inr (s, l\<lparr>dl_count := orig_len - k\<rparr>, b\<lparr>dl_count := k\<rparr>))))))"

definition Dll_rotate_to_node :: "dlnode store \<Rightarrow> dllist \<Rightarrow> ptr \<Rightarrow> dll_state res" where
  "Dll_rotate_to_node s l node =
     bindE (assertE (node \<noteq> NULL)) (\<lambda>_.
     if node = dl_front l then Inr (s, l)
     else
       bindE (put_next s (dl_back l) (dl_front l)) (\<lambda>s.
       bindE (put_prev s (dl_front l) (dl_back l)) (\<lambda>s.
       bindE (load s node) (\<lambda>n.
       let l = l\<lparr>dl_front := node, dl_back := dl_prev n\<rparr> in
       bindE (put_prev s (dl_front l) NULL) (\<lambda>s.
       bindE (put_next s (dl_back l) NULL) (\<lambda>s. Inr (s, l)))))))"

fun walk_nodes :: "(dlnode \<Rightarrow> ptr) \<Rightarrow> dlnode store \<Rightarrow> ptr \<Rightarrow> nat \<Rightarrow> ptr res" where
  "walk_nodes f s node 0 = Inr node"
| "walk_nodes f s node (Suc k) =
     (if node = NULL then Inr NULL
      else bindE (load s node) (\<lambda>n. walk_nodes f s (f n) k))"

definition Dll_find_nth_node :: "dlnode store \<Rightarrow> dllist \<Rightarrow> nat \<Rightarrow> ptr res" where
  "Dll_find_nth_node s l n =
     bindE (assertE (n \<noteq> 0)) (\<lambda>_.
     if n = 0 \<or> n > dl_count l then Inr NULL
     else if n \<le> dl_count l div 2 then walk_nodes dl_next s (dl_front l) (n - 1)
     else walk_nodes dl_prev s (dl_back l) (dl_count l - n))"

definition Dll_rotate :: "dlnode store \<Rightarrow> dllist \<Rightarrow> int \<Rightarrow> nat \<Rightarrow> dll_state res" where
  "Dll_rotate s l dir num_rotations =
     bindE (assertE (dir = 1 \<or> dir = -1)) (\<lambda>_.
     if dir = 0 then Inr (s, l)
     else if dl_count l < 2 \<or> num_rotations = 0 then Inr (s, l)
     else
       let remainder = num_rotations mod dl_count l in
       if remainder = 0 then Inr (s, l)
       else
         let num_rotations = (if dir = 1 then remainder else dl_count l - remainder) in
         bindE (Dll_find_nth_node s l (num_rotations + 1)) (\<lambda>node.
         Dll_rotate_to_node s l node))"

fun Dll_upend_loop ::
    "nat \<Rightarrow> dlnode store \<Rightarrow> ptr \<Rightarrow> ptr \<Rightarrow> ptr \<Rightarrow> (dlnode store \<times> ptr \<times> ptr) res" where
  "Dll_upend_loop 0 s a b c = Inl OutOfFuel"
| "Dll_upend_loop (Suc fuel) s a b c =
     (if a = NULL then Inr (s, a, b)
      else bindE (load s a) (\<lambda>na.
        if dl_next na = NULL then Inr (s, a, b)
        else
          let b = dl_next na in
          bindE (load s b) (\<lambda>nb.
          bindE (put_next s a (dl_next nb)) (\<lambda>s.
          bindE (put_next s b c) (\<lambda>s.
          bindE (if c \<noteq> NULL then put_prev s c b else Inr s) (\<lambda>s.
          let c = b in
          Dll_upend_loop fuel s a b c))))))"

definition Dll_upend :: "nat \<Rightarrow> dlnode store \<Rightarrow> dllist \<Rightarrow> dll_state res" where
  "Dll_upend fuel s l =
     (if dl_count l < 2 then Inr (s, l)
      else
        bindE (assertE (dl_front l \<noteq> NULL)) (\<lambda>_.
        bindE (Dll_upend_loop fuel s (dl_front l) (dl_front l) (dl_front l)) (\<lambda>(s, a, b).
        bindE (put_next s a NULL) (\<lambda>s.
        bindE (put_prev s b NULL) (\<lambda>s.
        Inr (s, l\<lparr>dl_back := a, dl_front := b\<rparr>))))))"

section \<open>What a head represents\<close>

definition dll_inv :: "dlnode store \<Rightarrow> dllist \<Rightarrow> addr list \<Rightarrow> bool" where
  "dll_inv s l xs \<longleftrightarrow>
     lseg dl_next s (dl_front l) xs NULL \<and> lseg dl_prev s (dl_back l) (rev xs) NULL \<and>
     distinct xs \<and> dl_count l = length xs"

definition dll_repr :: "dll_state \<Rightarrow> addr list \<Rightarrow> bool" where
  "dll_repr st xs \<longleftrightarrow> dll_inv (fst st) (snd st) xs"

definition dll_usable :: "dll_state \<Rightarrow> addr \<Rightarrow> bool" where
  "dll_usable st a \<longleftrightarrow> a \<in> dom (fst st)"

lemma put_simps [simp]:
  "put_next s NULL v = Inl NullDeref"
  "s a = Some n \<Longrightarrow> put_next s (Some a) v = Inr (s(a \<mapsto> n\<lparr>dl_next := v\<rparr>))"
  "s a = None \<Longrightarrow> put_next s (Some a) v = Inl WildDeref"
  "put_prev s NULL v = Inl NullDeref"
  "s a = Some n \<Longrightarrow> put_prev s (Some a) v = Inr (s(a \<mapsto> n\<lparr>dl_prev := v\<rparr>))"
  "s a = None \<Longrightarrow> put_prev s (Some a) v = Inl WildDeref"
  by (simp_all add: put_next_def put_prev_def)

lemma dll_inv_empty [simp]: "dll_inv s (initialize_dllist d) []"
  by (simp add: dll_inv_def initialize_dllist_def)

lemma dll_inv_Nil_iff: "dll_inv s l [] \<longleftrightarrow> dl_front l = NULL \<and> dl_back l = NULL \<and> dl_count l = 0"
  by (auto simp: dll_inv_def)

lemma dll_inv_count: "dll_inv s l xs \<Longrightarrow> dl_count l = length xs"
  by (simp add: dll_inv_def)

lemma dll_inv_distinct: "dll_inv s l xs \<Longrightarrow> distinct xs"
  by (simp add: dll_inv_def)

lemma dll_inv_dom: "dll_inv s l xs \<Longrightarrow> a \<in> set xs \<Longrightarrow> \<exists>n. s a = Some n"
  by (auto simp: dll_inv_def dest: lseg_dom)

lemma dll_inv_frame: "dll_inv s l xs \<Longrightarrow> frame A s s' \<Longrightarrow> A \<inter> set xs = {} \<Longrightarrow> dll_inv s' l xs"
  by (simp add: dll_inv_def lseg_frame)

lemma dll_inv_ends:
  assumes "dll_inv s l xs"
  shows "dl_front l = (if xs = [] then NULL else Some (hd xs))"
    and "dl_back l = (if xs = [] then NULL else Some (last xs))"
  using assms by (auto simp: dll_inv_def hd_rev dest: lseg_head)

text \<open>The node in the middle of a represented list, and what surrounds it.\<close>

lemma dll_inv_mid_iff:
  "dll_inv s l (us @ a # vs) \<longleftrightarrow>
     (\<exists>n. s a = Some n \<and>
        lseg dl_next s (dl_front l) us (Some a) \<and> lseg dl_next s (dl_next n) vs NULL \<and>
        lseg dl_prev s (dl_back l) (rev vs) (Some a) \<and> lseg dl_prev s (dl_prev n) (rev us) NULL) \<and>
     distinct (us @ a # vs) \<and> dl_count l = length us + length vs + 1"
  by (auto simp: dll_inv_def lseg_append)

lemma dll_inv_Cons_iff:
  "dll_inv s l (a # vs) \<longleftrightarrow>
     (\<exists>n. s a = Some n \<and> dl_front l = Some a \<and> lseg dl_next s (dl_next n) vs NULL \<and>
        lseg dl_prev s (dl_back l) (rev vs) (Some a) \<and> dl_prev n = NULL) \<and>
     distinct (a # vs) \<and> dl_count l = length vs + 1"
  using dll_inv_mid_iff [of s l "[]" a vs] by auto

lemma dll_inv_snoc_iff:
  "dll_inv s l (us @ [a]) \<longleftrightarrow>
     (\<exists>n. s a = Some n \<and> lseg dl_next s (dl_front l) us (Some a) \<and> dl_next n = NULL \<and>
        dl_back l = Some a \<and> lseg dl_prev s (dl_prev n) (rev us) NULL) \<and>
     distinct (us @ [a]) \<and> dl_count l = length us + 1"
  using dll_inv_mid_iff [of s l us a "[]"] by auto

lemmas dll_inv_simps = dll_inv_mid_iff dll_inv_Cons_iff dll_inv_snoc_iff

section \<open>Pushing and popping\<close>

lemma Dll_push_front_inv:
  assumes "dll_inv s l xs" and "s a = Some n" and "a \<notin> set xs"
  shows "\<exists>s' l'. Dll_push_front s l (Some a) = Inr (s', l') \<and> dll_inv s' l' (a # xs) \<and>
           frame (insert a (set xs)) s s' \<and> dl_dtor l' = dl_dtor l"
proof (cases xs)
  case Nil
  then show ?thesis
    using assms by (auto simp: Dll_push_front_def dll_inv_def Let_def frame_def)
next
  case (Cons x ys)
  with assms show ?thesis
    by (auto simp: Dll_push_front_def dll_inv_Cons_iff Let_def frame_def lseg_snoc)
qed

lemma Dll_push_back_inv:
  assumes "dll_inv s l xs" and "s a = Some n" and "a \<notin> set xs"
  shows "\<exists>s' l'. Dll_push_back s l (Some a) = Inr (s', l') \<and> dll_inv s' l' (xs @ [a]) \<and>
           frame (insert a (set xs)) s s' \<and> dl_dtor l' = dl_dtor l"
proof (cases xs rule: rev_cases)
  case Nil
  then show ?thesis
    using assms by (auto simp: Dll_push_back_def dll_inv_def Let_def frame_def)
next
  case (snoc ys x)
  with assms show ?thesis
    by (auto simp: Dll_push_back_def dll_inv_def Let_def frame_def lseg_append)
qed

lemma Dll_pop_front_Nil: "dll_inv s l [] \<Longrightarrow> Dll_pop_front s l = Inr (NULL, s, l)"
  by (simp add: Dll_pop_front_def dll_inv_def)

lemma Dll_pop_front_Cons:
  assumes "dll_inv s l (a # xs)"
  shows "\<exists>s' l'. Dll_pop_front s l = Inr (Some a, s', l') \<and> dll_inv s' l' xs \<and>
           frame (set xs) s s' \<and> dl_dtor l' = dl_dtor l"
proof (cases xs)
  case Nil
  then show ?thesis
    using assms by (auto simp: Dll_pop_front_def dll_inv_def Let_def)
next
  case (Cons x ys)
  show ?thesis
  proof (cases ys)
    case Nil
    then show ?thesis
      using assms Cons by (auto simp: Dll_pop_front_def dll_inv_Cons_iff Let_def frame_def)
  next
    case (Cons y zs)
    then show ?thesis
      using assms \<open>xs = x # ys\<close>
      by (auto simp: Dll_pop_front_def dll_inv_Cons_iff Let_def frame_def lseg_append)
  qed
qed

lemma Dll_pop_back_Nil: "dll_inv s l [] \<Longrightarrow> Dll_pop_back s l = Inr (NULL, s, l)"
  by (simp add: Dll_pop_back_def dll_inv_def)

lemma Dll_pop_back_snoc:
  assumes "dll_inv s l (xs @ [a])"
  shows "\<exists>s' l'. Dll_pop_back s l = Inr (Some a, s', l') \<and> dll_inv s' l' xs \<and>
           frame (set xs) s s' \<and> dl_dtor l' = dl_dtor l"
proof (cases xs rule: rev_cases)
  case Nil
  then show ?thesis
    using assms by (auto simp: Dll_pop_back_def dll_inv_def Let_def)
next
  case (snoc ys x)
  show ?thesis
  proof (cases ys rule: rev_cases)
    case Nil
    then show ?thesis
      using assms snoc by (auto simp: Dll_pop_back_def dll_inv_def Let_def frame_def)
  next
    case (snoc zs y)
    then show ?thesis
      using assms \<open>xs = ys @ [x]\<close>
      by (auto simp: Dll_pop_back_def dll_inv_def Let_def frame_def lseg_append)
  qed
qed

interpretation dll: node_deque dll_repr dll_usable
  "\<lambda>(s, l). Dll_pop_front s l" "\<lambda>(s, l) a. Dll_push_front s l (Some a)"
  "\<lambda>(s, l) a. Dll_push_back s l (Some a)"
proof unfold_locales
  fix st a xs
  assume "dll_repr st xs" "dll_usable st a" "a \<notin> set xs"
  then show "\<exists>st'. (case st of (s, l) \<Rightarrow> \<lambda>a. Dll_push_front s l (Some a)) a = Inr st' \<and>
      dll_repr st' (a # xs) \<and> (\<forall>b. dll_usable st b \<longrightarrow> dll_usable st' b)"
    using Dll_push_front_inv [of "fst st" "snd st" xs a]
    by (fastforce simp: dll_repr_def dll_usable_def split: prod.splits dest: frame_dom)
next
  fix st a xs
  assume "dll_repr st xs" "dll_usable st a" "a \<notin> set xs"
  then show "\<exists>st'. (case st of (s, l) \<Rightarrow> \<lambda>a. Dll_push_back s l (Some a)) a = Inr st' \<and>
      dll_repr st' (xs @ [a]) \<and> (\<forall>b. dll_usable st b \<longrightarrow> dll_usable st' b)"
    using Dll_push_back_inv [of "fst st" "snd st" xs a]
    by (fastforce simp: dll_repr_def dll_usable_def split: prod.splits dest: frame_dom)
next
  fix st :: dll_state
  assume "dll_repr st []"
  then show "(case st of (s, l) \<Rightarrow> Dll_pop_front s l) = Inr (NULL, st)"
    by (auto simp: dll_repr_def Dll_pop_front_Nil split: prod.splits)
next
  fix st a xs
  assume "dll_repr st (a # xs)"
  then show "\<exists>st'. (case st of (s, l) \<Rightarrow> Dll_pop_front s l) = Inr (Some a, st') \<and>
      dll_repr st' xs \<and> (\<forall>b. dll_usable st b \<longrightarrow> dll_usable st' b)"
    using Dll_pop_front_Cons [of "fst st" "snd st" a xs]
    by (fastforce simp: dll_repr_def dll_usable_def split: prod.splits dest: frame_dom)
qed

section \<open>Unlinking, inserting and replacing in the middle\<close>

lemma unlink_inner_inv:
  assumes "dll_inv s l (us @ a # vs)" and "us \<noteq> []" and "vs \<noteq> []"
  shows "\<exists>s' l'. unlink_inner s l (Some a) = Inr (s', l') \<and> dll_inv s' l' (us @ vs) \<and>
           frame (set us \<union> set vs) s s' \<and> dl_dtor l' = dl_dtor l"
proof -
  obtain us' p where us: "us = us' @ [p]" using assms(2) by (metis rev_exhaust)
  obtain q vs' where vs: "vs = q # vs'" using assms(3) by (cases vs) auto
  show ?thesis
    using assms(1) unfolding us vs
    by (auto simp: unlink_inner_def dll_inv_def lseg_append frame_def)
qed

lemma Dll_remove_node_inv:
  assumes inv: "dll_inv s l (us @ a # vs)"
  shows "\<exists>s' l'. Dll_remove_node s l (Some a) False = Inr (s', l') \<and> dll_inv s' l' (us @ vs) \<and>
           frame (set us \<union> set vs) s s' \<and> dl_dtor l' = dl_dtor l"
proof -
  have cnt: "dl_count l > 0" using dll_inv_count [OF inv] by simp
  show ?thesis
  proof (cases us)
    case Nil
    with inv have "dl_front l = Some a" using dll_inv_ends(1) [OF inv] by simp
    with Nil inv cnt show ?thesis
      using Dll_pop_front_Cons [of s l a vs] by (auto simp: Dll_remove_node_def)
  next
    case (Cons u us')
    then have nf: "dl_front l \<noteq> Some a"
      using dll_inv_ends(1) [OF inv] dll_inv_distinct [OF inv] by auto
    show ?thesis
    proof (cases vs)
      case Nil
      then have "dl_back l = Some a" using dll_inv_ends(2) [OF inv] by simp
      with Nil inv cnt nf show ?thesis
        using Dll_pop_back_snoc [of s l us a] by (auto simp: Dll_remove_node_def)
    next
      case (Cons v vs')
      then have "dl_back l \<noteq> Some a"
        using dll_inv_ends(2) [OF inv] dll_inv_distinct [OF inv] by (auto dest: last_in_set split: if_splits)
      with inv cnt nf \<open>us = u # us'\<close> Cons show ?thesis
        using unlink_inner_inv [of s l us a vs] by (auto simp: Dll_remove_node_def)
    qed
  qed
qed

lemma Dll_remove_node_frees:
  assumes inv: "dll_inv s l (us @ a # vs)" and d: "dl_dtor l = Some d" "frees_node d"
  shows "\<exists>s' l'. Dll_remove_node s l (Some a) True = Inr (s', l') \<and> dll_inv s' l' (us @ vs) \<and>
           dom s' = dom s - {a} \<and> dl_dtor l' = dl_dtor l"
proof -
  obtain s1 l1 where 1: "Dll_remove_node s l (Some a) False = Inr (s1, l1)" "dll_inv s1 l1 (us @ vs)"
      "frame (set us \<union> set vs) s s1" "dl_dtor l1 = dl_dtor l"
    using Dll_remove_node_inv [OF inv] by blast
  obtain n where "s1 a = Some n"
    using dll_inv_dom [OF inv, of a] frame_dom [OF 1(3)] by auto
  then have "d s1 a = Inr (s1(a := None))" using d(2) by (rule frees_nodeD [rotated])
  moreover have "a \<notin> set (us @ vs)" using dll_inv_distinct [OF inv] by auto
  ultimately show ?thesis
    using 1 d frame_dom [OF 1(3)] by (auto simp: Dll_remove_node_def dll_inv_def res_iff split: if_splits)
qed

lemma Dll_put_node_after_inv:
  assumes inv: "dll_inv s l (us @ a # vs)" and b: "s b = Some n" "b \<notin> set (us @ a # vs)"
  shows "\<exists>s' l'. Dll_put_node_after s l (Some a) (Some b) = Inr (s', l') \<and>
           dll_inv s' l' (us @ a # b # vs) \<and> frame (insert b (set (us @ a # vs))) s s' \<and>
           dl_dtor l' = dl_dtor l"
proof (cases vs)
  case Nil
  then have "dl_back l = Some a" using dll_inv_ends(2) [OF inv] by simp
  with Nil show ?thesis
    using Dll_push_back_inv [OF inv b] by (auto simp: Dll_put_node_after_def)
next
  case (Cons q vs')
  then have "dl_back l \<noteq> Some a"
    using dll_inv_ends(2) [OF inv] dll_inv_distinct [OF inv] by (auto dest: last_in_set split: if_splits)
  with inv b show ?thesis
    unfolding Cons by (auto simp: Dll_put_node_after_def dll_inv_def lseg_append frame_def)
qed

lemma Dll_put_node_before_inv:
  assumes inv: "dll_inv s l (us @ a # vs)" and b: "s b = Some n" "b \<notin> set (us @ a # vs)"
  shows "\<exists>s' l'. Dll_put_node_before s l (Some a) (Some b) = Inr (s', l') \<and>
           dll_inv s' l' (us @ b # a # vs) \<and> frame (insert b (set (us @ a # vs))) s s' \<and>
           dl_dtor l' = dl_dtor l"
proof (cases us rule: rev_cases)
  case Nil
  then have "dl_front l = Some a" using dll_inv_ends(1) [OF inv] by simp
  with Nil show ?thesis
    using Dll_push_front_inv [OF inv b] by (auto simp: Dll_put_node_before_def)
next
  case (snoc us' p)
  then have "dl_front l \<noteq> Some a"
    using dll_inv_ends(1) [OF inv] dll_inv_distinct [OF inv] by (auto simp: hd_append split: if_splits)
  with inv b show ?thesis
    unfolding snoc by (auto simp: Dll_put_node_before_def dll_inv_def lseg_append frame_def)
qed

lemma Dll_replace_node_inv:
  assumes inv: "dll_inv s l (us @ a # vs)" and b: "s b = Some n" "b \<notin> set (us @ a # vs)"
  shows "\<exists>s' l'. Dll_replace_node s l (Some a) (Some b) = Inr (s', l') \<and>
           dll_inv s' l' (us @ b # vs) \<and> frame (insert b (set us \<union> set vs)) s s' \<and>
           dl_dtor l' = dl_dtor l"
proof (cases us rule: rev_cases; cases vs)
  assume "us = []" "vs = []"
  with inv b show ?thesis
    by (auto simp: Dll_replace_node_def dll_inv_def lseg_append frame_def)
next
  fix q vs'
  assume "us = []" "vs = q # vs'"
  with inv b show ?thesis
    by (auto simp: Dll_replace_node_def dll_inv_def lseg_append frame_def)
next
  fix us' p
  assume "us = us' @ [p]" "vs = []"
  with inv b show ?thesis
    by (auto simp: Dll_replace_node_def dll_inv_def lseg_append frame_def)
next
  fix us' p q vs'
  assume "us = us' @ [p]" "vs = q # vs'"
  with inv b show ?thesis
    by (auto simp: Dll_replace_node_def dll_inv_def lseg_append frame_def)
qed

subsection \<open>Swapping two nodes\<close>

lemma dll_inv_prev:
  assumes "dll_inv s l (us @ a # vs)"
  shows "\<exists>n. s a = Some n \<and> dl_prev n = (if us = [] then NULL else Some (last us))"
  using assms by (auto simp: dll_inv_mid_iff hd_rev dest!: lseg_head)

text \<open>The shape all swaps share: after \<open>a\<close> is unlinked and \<open>b\<close> replaced by \<open>a\<close>, the list
  is \<open>zs\<close>, and \<open>b\<close> goes back in after the node that used to precede \<open>a\<close>.\<close>

lemma Dll_swap_list_nodes_via:
  assumes inv: "dll_inv s l (us @ a # vs)" and b: "us @ vs = ps @ b # qs"
  shows "\<exists>s' l'. dll_inv s' l' (ps @ a # qs) \<and> dom s' = dom s \<and>
           frame (set (us @ a # vs)) s s' \<and> dl_dtor l' = dl_dtor l \<and>
           Dll_swap_list_nodes s l (Some a) (Some b) =
             (if us \<noteq> [] then Dll_put_node_after s' l' (Some (last us)) (Some b)
              else Dll_push_front s' l' (Some b))"
proof -
  obtain n where n: "s a = Some n" "dl_prev n = (if us = [] then NULL else Some (last us))"
    using dll_inv_prev [OF inv] by blast
  obtain s1 l1 where 1: "Dll_remove_node s l (Some a) False = Inr (s1, l1)" "dll_inv s1 l1 (us @ vs)"
      "frame (set us \<union> set vs) s s1" "dl_dtor l1 = dl_dtor l"
    using Dll_remove_node_inv [OF inv] by blast
  have sets: "set us \<union> set vs = insert b (set ps \<union> set qs)"
    using arg_cong [OF b, of set] by auto
  have a: "a \<notin> set (ps @ b # qs)" using dll_inv_distinct [OF inv] sets by auto
  obtain m where "s1 a = Some m" using n(1) frame_dom [OF 1(3)] by auto
  then obtain s2 l2 where 2: "Dll_replace_node s1 l1 (Some b) (Some a) = Inr (s2, l2)"
      "dll_inv s2 l2 (ps @ a # qs)" "frame (insert a (set ps \<union> set qs)) s1 s2" "dl_dtor l2 = dl_dtor l1"
    using Dll_replace_node_inv [of s1 l1 ps b qs a m] 1(2) a b by auto
  have "frame (set (us @ a # vs)) s s2"
    using frame_trans [OF 1(3) 2(3)] sets by auto
  moreover have "Dll_swap_list_nodes s l (Some a) (Some b) =
      (if us \<noteq> [] then Dll_put_node_after s2 l2 (Some (last us)) (Some b)
       else Dll_push_front s2 l2 (Some b))"
    using n 1(1) 2(1) by (simp add: Dll_swap_list_nodes_def)
  ultimately show ?thesis
    using 1(4) 2(2,4) frame_dom [of _ s s2] by (intro exI [of _ s2] exI [of _ l2]) auto
qed

lemma Dll_swap_forward:
  assumes inv: "dll_inv s l (us @ a # ms @ b # ws)"
  shows "\<exists>s' l'. Dll_swap_list_nodes s l (Some a) (Some b) = Inr (s', l') \<and>
           dll_inv s' l' (us @ b # ms @ a # ws) \<and> frame (set (us @ a # ms @ b # ws)) s s' \<and>
           dl_dtor l' = dl_dtor l"
proof -
  let ?xs = "us @ a # ms @ b # ws"
  obtain s1 l1 where 1: "dll_inv s1 l1 ((us @ ms) @ a # ws)" "dom s1 = dom s" "frame (set ?xs) s s1"
      "dl_dtor l1 = dl_dtor l"
      "Dll_swap_list_nodes s l (Some a) (Some b) =
        (if us \<noteq> [] then Dll_put_node_after s1 l1 (Some (last us)) (Some b)
         else Dll_push_front s1 l1 (Some b))"
    using Dll_swap_list_nodes_via [OF inv, of "us @ ms" b ws] by auto
  obtain k where k: "s1 b = Some k" using dll_inv_dom [OF inv, of b] 1(2) by auto
  have b: "b \<notin> set ((us @ ms) @ a # ws)" using dll_inv_distinct [OF inv] by auto
  show ?thesis
  proof (cases us rule: rev_cases)
    case Nil
    with 1 k b obtain s2 l2 where "Dll_push_front s1 l1 (Some b) = Inr (s2, l2)"
        "dll_inv s2 l2 (b # ms @ a # ws)" "frame (insert b (set (ms @ a # ws))) s1 s2" "dl_dtor l2 = dl_dtor l1"
      using Dll_push_front_inv [of s1 l1 "ms @ a # ws" b k] by auto
    with 1 Nil show ?thesis by (auto intro: frame_trans)
  next
    case (snoc us' p)
    with 1(1) have "dll_inv s1 l1 (us' @ p # ms @ a # ws)" by simp
    with snoc k b obtain s2 l2 where "Dll_put_node_after s1 l1 (Some p) (Some b) = Inr (s2, l2)"
        "dll_inv s2 l2 (us' @ p # b # ms @ a # ws)"
        "frame (insert b (set (us' @ p # ms @ a # ws))) s1 s2" "dl_dtor l2 = dl_dtor l1"
      using Dll_put_node_after_inv [of s1 l1 us' p "ms @ a # ws" b k] by auto
    with 1 snoc show ?thesis by (auto intro: frame_trans)
  qed
qed

lemma Dll_swap_backward:
  assumes inv: "dll_inv s l (us @ b # ms @ a # ws)" and ms: "ms \<noteq> []"
  shows "\<exists>s' l'. Dll_swap_list_nodes s l (Some a) (Some b) = Inr (s', l') \<and>
           dll_inv s' l' (us @ a # ms @ b # ws) \<and> frame (set (us @ b # ms @ a # ws)) s s' \<and>
           dl_dtor l' = dl_dtor l"
proof -
  let ?xs = "us @ b # ms @ a # ws"
  obtain ms' p where p: "ms = ms' @ [p]" using ms by (metis rev_exhaust)
  have inv': "dll_inv s l ((us @ b # ms) @ a # ws)" using inv by simp
  obtain s1 l1 where 1: "dll_inv s1 l1 (us @ a # ms @ ws)" "dom s1 = dom s" "frame (set ?xs) s s1"
      "dl_dtor l1 = dl_dtor l"
      "Dll_swap_list_nodes s l (Some a) (Some b) = Dll_put_node_after s1 l1 (Some p) (Some b)"
    using Dll_swap_list_nodes_via [OF inv', of us b "ms @ ws"] p by auto
  obtain k where k: "s1 b = Some k" using dll_inv_dom [OF inv, of b] 1(2) by auto
  have b: "b \<notin> set (us @ a # ms @ ws)" using dll_inv_distinct [OF inv] by auto
  have "dll_inv s1 l1 ((us @ a # ms') @ p # ws)" using 1(1) p by simp
  with p k b obtain s2 l2 where "Dll_put_node_after s1 l1 (Some p) (Some b) = Inr (s2, l2)"
      "dll_inv s2 l2 ((us @ a # ms') @ p # b # ws)"
      "frame (insert b (set ((us @ a # ms') @ p # ws))) s1 s2" "dl_dtor l2 = dl_dtor l1"
    using Dll_put_node_after_inv [of s1 l1 "us @ a # ms'" p ws b k] by auto
  with 1 p show ?thesis by (auto intro: frame_trans)
qed

section \<open>Counting and finding\<close>

lemma count_list_nodes_loop_lseg:
  "lseg dl_next s p xs NULL \<Longrightarrow> length xs < fuel \<Longrightarrow>
     count_list_nodes_loop fuel s p k = Inr (k + length xs)"
proof (induction xs arbitrary: p fuel k)
  case Nil
  then show ?case by (cases fuel) auto
next
  case (Cons a xs)
  then show ?case by (cases fuel) auto
qed

lemma walk_nodes_lseg:
  "lseg f s p xs NULL \<Longrightarrow> n < length xs \<Longrightarrow> walk_nodes f s p n = Inr (Some (xs ! n))"
proof (induction n arbitrary: p xs)
  case 0
  then show ?case by (cases xs) auto
next
  case (Suc n)
  then show ?case by (cases xs) auto
qed

lemma Dll_find_nth_node_inv:
  assumes inv: "dll_inv s l xs" and n: "0 < n" "n \<le> length xs"
  shows "Dll_find_nth_node s l n = Inr (Some (xs ! (n - 1)))"
proof -
  have "walk_nodes dl_next s (dl_front l) (n - 1) = Inr (Some (xs ! (n - 1)))"
    using assms by (intro walk_nodes_lseg) (auto simp: dll_inv_def)
  moreover have "walk_nodes dl_prev s (dl_back l) (length xs - n) = Inr (Some (rev xs ! (length xs - n)))"
    using assms by (intro walk_nodes_lseg) (auto simp: dll_inv_def)
  moreover have "rev xs ! (length xs - n) = xs ! (n - 1)"
    using n by (simp add: rev_nth)
  ultimately show ?thesis
    using assms by (simp add: Dll_find_nth_node_def dll_inv_count)
qed

section \<open>Rotation\<close>

lemma Dll_rotate_to_node_inv:
  assumes inv: "dll_inv s l (us @ a # vs)"
  shows "\<exists>s' l'. Dll_rotate_to_node s l (Some a) = Inr (s', l') \<and> dll_inv s' l' (a # vs @ us) \<and>
           frame (set (us @ a # vs)) s s' \<and> dl_dtor l' = dl_dtor l"
proof (cases us)
  case Nil
  with inv dll_inv_ends(1) [OF inv] show ?thesis by (auto simp: Dll_rotate_to_node_def)
next
  case (Cons x us')
  then have nf: "Some a \<noteq> dl_front l"
    using dll_inv_ends(1) [OF inv] dll_inv_distinct [OF inv] by auto
  show ?thesis
  proof (cases vs rule: rev_cases; cases us' rule: rev_cases)
    assume "vs = []" "us' = []"
    with inv nf Cons show ?thesis
      by (auto simp: Dll_rotate_to_node_def dll_inv_def lseg_append frame_def Let_def)
  next
    fix vs' y assume "vs = vs' @ [y]" "us' = []"
    with inv nf Cons show ?thesis
      by (auto simp: Dll_rotate_to_node_def dll_inv_def lseg_append frame_def Let_def)
  next
    fix us'' z assume "vs = []" "us' = us'' @ [z]"
    with inv nf Cons show ?thesis
      by (auto simp: Dll_rotate_to_node_def dll_inv_def lseg_append frame_def Let_def)
  next
    fix vs' y us'' z assume "vs = vs' @ [y]" "us' = us'' @ [z]"
    with inv nf Cons show ?thesis
      by (auto simp: Dll_rotate_to_node_def dll_inv_def lseg_append frame_def Let_def)
  qed
qed

lemma Dll_rotate_split:
  assumes inv: "dll_inv s l (us @ vs)" and "us \<noteq> []" and "vs \<noteq> []"
    and "dir = 1 \<and> num mod length (us @ vs) = length us \<or>
         dir = -1 \<and> num mod length (us @ vs) = length vs"
  shows "\<exists>s' l'. Dll_rotate s l dir num = Inr (s', l') \<and> dll_inv s' l' (vs @ us) \<and>
           frame (set (us @ vs)) s s' \<and> dl_dtor l' = dl_dtor l"
proof -
  obtain a vs' where vs: "vs = a # vs'" using assms(3) by (cases vs) auto
  have rot: "(if dir = 1 then num mod dl_count l else dl_count l - num mod dl_count l) = length us"
    using assms dll_inv_count [OF inv] by auto
  have "Dll_find_nth_node s l (length us + 1) = Inr (Some a)"
    using Dll_find_nth_node_inv [OF inv, of "length us + 1"] by (simp add: vs nth_append)
  moreover have "\<not> (dl_count l < 2 \<or> num = 0)" "num mod dl_count l \<noteq> 0" "dir = 1 \<or> dir = -1" "dir \<noteq> 0"
    using assms dll_inv_count [OF inv] by (cases "num = 0"; auto simp: vs)+
  ultimately have "Dll_rotate s l dir num = Dll_rotate_to_node s l (Some a)"
    unfolding Dll_rotate_def Let_def rot by simp
  then show ?thesis
    using Dll_rotate_to_node_inv [of s l us a vs'] inv by (simp add: vs)
qed

lemma Dll_rotate_trivial:
  "dir = 1 \<or> dir = -1 \<Longrightarrow> dl_count l < 2 \<or> num mod dl_count l = 0 \<Longrightarrow>
     Dll_rotate s l dir num = Inr (s, l)"
  by (auto simp: Dll_rotate_def Let_def)


section \<open>Reversal\<close>

lemma Dll_upend_loop_lseg:
  assumes "lseg dl_next s c (zs @ x # ys) NULL" and "lseg dl_prev s (Some x) (x # rev zs) r"
    and "distinct (zs @ x # ys)" and "length ys < fuel"
  shows "\<exists>s' b r'. Dll_upend_loop fuel s (Some x) c c = Inr (s', Some x, b) \<and>
           lseg dl_next s' b (rev ys @ zs @ [x]) NULL \<and> lseg dl_prev s' (Some x) (x # rev zs @ ys) r' \<and>
           frame (set (zs @ x # ys)) s s'"
  using assms
proof (induction ys arbitrary: s c zs r fuel)
  case Nil
  then obtain k where "fuel = Suc k" by (cases fuel) auto
  with Nil show ?case by (auto simp: lseg_append)
next
  case (Cons y ys)
  then obtain k where k: "fuel = Suc k" "length ys < k" by (cases fuel) auto
  obtain nx ny where n: "s x = Some nx" "dl_next nx = Some y" "s y = Some ny"
      "lseg dl_next s c zs (Some x)" "lseg dl_next s (dl_next ny) ys NULL"
    using Cons.prems(1) by (auto simp: lseg_append)
  have ne: "x \<noteq> y" "x \<notin> set zs" "y \<notin> set zs" "x \<notin> set ys" "y \<notin> set ys" "set zs \<inter> set ys = {}" "distinct zs"
    using Cons.prems(3) by auto
  let ?s1 = "s(x \<mapsto> nx\<lparr>dl_next := dl_next ny\<rparr>, y \<mapsto> ny\<lparr>dl_next := c\<rparr>)"
  obtain h where h: "c = Some h" "h = hd (zs @ [x])"
    using n(4) by (cases zs) auto
  have h': "\<exists>nh. ?s1 h = Some nh" "h \<noteq> y" "h \<in> set (zs @ [x])" "h \<notin> set ys"
    using h(2) ne n lseg_dom [OF n(4)] by (cases zs; auto)+
  then obtain nh where nh: "?s1 h = Some nh" by blast
  let ?s2 = "?s1(h \<mapsto> nh\<lparr>dl_prev := Some y\<rparr>)"
  have step: "Dll_upend_loop fuel s (Some x) c c = Dll_upend_loop k ?s2 (Some x) (Some y) (Some y)"
    using k n ne h(1) nh by (simp add: Let_def)
  have seg: "lseg dl_next ?s2 (Some y) ((y # zs) @ x # ys) NULL"
    using n ne nh h' h by (auto simp: lseg_append)
  obtain r' where seg': "lseg dl_prev ?s2 (Some x) (x # rev (y # zs)) r'"
  proof (cases zs)
    case Nil
    with h n ne nh show ?thesis by (intro that) auto
  next
    case (Cons z zs')
    with h n ne nh Cons.prems(2) show ?thesis
      by (intro that) (auto simp: lseg_append)
  qed
  have "distinct ((y # zs) @ x # ys)"
    using Cons.prems(3) by auto
  then obtain s' b r'' where "Dll_upend_loop k ?s2 (Some x) (Some y) (Some y) = Inr (s', Some x, b)"
      "lseg dl_next s' b (rev ys @ (y # zs) @ [x]) NULL" "lseg dl_prev s' (Some x) (x # rev (y # zs) @ ys) r''"
      "frame (set ((y # zs) @ x # ys)) ?s2 s'"
    using Cons.IH [OF seg seg' _ k(2)] by blast
  moreover have "frame (set (zs @ x # y # ys)) s ?s2"
    using n ne nh h' by (auto simp: frame_def split: if_splits)
  ultimately show ?case
    using step by (auto intro: frame_trans)
qed

section \<open>Freeing the nodes\<close>

lemma foreach_frees_lseg:
  assumes "lseg dl_next s p xs NULL" and "distinct xs" and "length xs < fuel" and "frees_node d"
  shows "\<exists>nn. peek_next s p = Inr nn \<and> foreach_node_loop fuel d s p nn = Inr (s |` (- set xs))"
  using assms
proof (induction xs arbitrary: s p fuel)
  case Nil
  then show ?case by (cases fuel) (auto simp: peek_next_def restrict_map_def)
next
  case (Cons a xs)
  then obtain k where k: "fuel = Suc k" "length xs < k" by (cases fuel) auto
  obtain n where n: "p = Some a" "s a = Some n" "lseg dl_next s (dl_next n) xs NULL" "a \<notin> set xs"
    using Cons.prems by auto
  then have "lseg dl_next (s(a := None)) (dl_next n) xs NULL" by simp
  then obtain nn where "peek_next (s(a := None)) (dl_next n) = Inr nn"
      "foreach_node_loop k d (s(a := None)) (dl_next n) nn = Inr (s(a := None) |` (- set xs))"
    using Cons.IH k(2) Cons.prems(2,4) by (metis distinct.simps(2))
  moreover have "s(a := None) |` (- set xs) = s |` (- set (a # xs))"
    by (auto simp: restrict_map_def)
  ultimately show ?case
    using k(1) n frees_nodeD [of d s a n] Cons.prems(4) by (simp add: peek_next_def)
qed

section \<open>The properties of the component\<close>

text \<open>The store of the witnesses: nodes 1, 2, 3 linked under \<open>dll_ex\<close>, nodes 4 and 5 linked under
  \<open>dll_ex2\<close>, node 6 allocated but not linked.\<close>

definition dll_ex_store :: "dlnode store" where
  "dll_ex_store = [
     1 \<mapsto> \<lparr>dl_next = Some 2, dl_prev = NULL\<rparr>, 2 \<mapsto> \<lparr>dl_next = Some 3, dl_prev = Some 1\<rparr>,
     3 \<mapsto> \<lparr>dl_next = NULL, dl_prev = Some 2\<rparr>, 4 \<mapsto> \<lparr>dl_next = Some 5, dl_prev = NULL\<rparr>,
     5 \<mapsto> \<lparr>dl_next = NULL, dl_prev = Some 4\<rparr>, 6 \<mapsto> \<lparr>dl_next = NULL, dl_prev = NULL\<rparr>]"

definition dll_ex :: dllist where
  "dll_ex = \<lparr>dl_count = 3, dl_front = Some 1, dl_back = Some 3, dl_dtor = Some free_dtor\<rparr>"

definition dll_ex2 :: dllist where
  "dll_ex2 = \<lparr>dl_count = 2, dl_front = Some 4, dl_back = Some 5, dl_dtor = Some free_dtor\<rparr>"

lemma dll_ex_inv: "dll_inv dll_ex_store dll_ex [1, 2, 3]" "dll_inv dll_ex_store dll_ex2 [4, 5]"
  by (simp_all add: dll_inv_def dll_ex_def dll_ex2_def dll_ex_store_def)

lemma dll_ex_mid: "dll_inv dll_ex_store dll_ex ([1] @ 2 # [3])" "dll_inv dll_ex_store dll_ex ([1] @ [2, 3])"
  using dll_ex_inv(1) by simp_all

lemma dll_ex_dtor: "dl_dtor dll_ex = Some free_dtor"
  by (simp add: dll_ex_def)

text \<open>Nodes linked with \<open>Dll_push_back\<close> come out of \<open>Dll_pop_front\<close> in the order they were pushed,
  after those that were on the list.\<close>

theorem dll_fifo:
  assumes "dll_inv s l xs" and "distinct ys" and "set ys \<inter> set xs = {}" and "set ys \<subseteq> dom s"
  shows "\<exists>st st'. foldE (\<lambda>(s, l) a. Dll_push_back s l (Some a)) (s, l) ys = Inr st \<and>
           drainE (\<lambda>(s, l). Dll_pop_front s l) (length xs + length ys) st = Inr (xs @ ys, st') \<and>
           dll_inv (fst st') (snd st') []"
  using dll.fifo [of "(s, l)" xs ys] assms by (simp add: dll_repr_def dll_usable_def subset_eq)

text \<open>\<open>Dll_clear\<close> with a destructor that frees its node terminates, frees exactly the linked nodes
  and never reads a node after it was freed: the loop fetches the successor first.\<close>

theorem Dll_clear_frees_all:
  assumes "dll_inv s l xs" and "dl_dtor l = Some d" and "frees_node d" and "length xs < fuel"
  shows "Dll_clear fuel s l True = Inr (s |` (- set xs), Dll_new (Some d))"
proof (cases "xs = []")
  case True
  with assms show ?thesis
    by (auto simp: Dll_clear_def Dll_new_def initialize_dllist_def dll_inv_Nil_iff restrict_map_def)
next
  case False
  with assms show ?thesis
    using foreach_frees_lseg [of s "dl_front l" xs fuel d]
    by (auto simp: Dll_clear_def Dll_new_def Dll_foreach_node_def dll_inv_def)
qed

theorem Dll_clear_witness:
  "Dll_clear 4 dll_ex_store dll_ex True =
     Inr (dll_ex_store |` (- set [1, 2, 3]), Dll_new (Some free_dtor))"
  using Dll_clear_frees_all [OF dll_ex_inv(1) dll_ex_dtor frees_node_free_dtor, of 4] by simp

text \<open>\<open>Dll_upend\<close> reverses the list in place, both directions of links included, within as many
  rounds as there are nodes, writing only nodes of the list.\<close>

theorem Dll_upend_correct:
  assumes inv: "dll_inv s l xs" and fuel: "length xs \<le> fuel"
  shows "\<exists>s' l'. Dll_upend fuel s l = Inr (s', l') \<and> dll_inv s' l' (rev xs) \<and>
           frame (set xs) s s' \<and> dl_dtor l' = dl_dtor l"
proof (cases "length xs < 2")
  case True
  then have "rev xs = xs" by (cases xs; cases "tl xs") auto
  with True inv show ?thesis by (auto simp: Dll_upend_def dll_inv_count)
next
  case False
  then obtain x ys y where xs: "xs = x # ys @ [y]" by (cases xs; cases "tl xs" rule: rev_cases) auto
  with inv have front: "dl_front l = Some x" by (simp add: dll_inv_def)
  from inv obtain s' b r where loop: "Dll_upend_loop fuel s (Some x) (Some x) (Some x) = Inr (s', Some x, b)"
      "lseg dl_next s' b (rev (ys @ [y]) @ [] @ [x]) NULL" "lseg dl_prev s' (Some x) (x # rev [] @ ys @ [y]) r"
      "frame (set ([] @ x # ys @ [y])) s s'"
    using Dll_upend_loop_lseg [of s "Some x" "[]" x "ys @ [y]" _ fuel] fuel xs
    by (auto simp: dll_inv_def)
  moreover have "y \<noteq> x" "y \<notin> set ys" "x \<notin> set ys" using dll_inv_distinct [OF inv] by (auto simp: xs)
  ultimately show ?thesis using False inv front
    by (auto simp: Dll_upend_def dll_inv_def xs lseg_append frame_def)
qed

theorem Dll_upend_witness:
  "\<exists>s' l'. Dll_upend 3 dll_ex_store dll_ex = Inr (s', l') \<and> dll_inv s' l' [3, 2, 1]"
  using Dll_upend_correct [OF dll_ex_inv(1), of 3] by auto

text \<open>\<open>Dll_rotate\<close> is list rotation in either direction, for any number of steps.\<close>

theorem Dll_rotate_correct:
  assumes inv: "dll_inv s l xs" and dir: "dir = 1 \<or> dir = -1"
  shows "\<exists>s' l' ys. Dll_rotate s l dir num = Inr (s', l') \<and> dll_inv s' l' ys \<and>
           frame (set xs) s s' \<and> (if dir = 1 then ys = rotate num xs else rotate num ys = xs)"
proof (cases "length xs < 2 \<or> num mod length xs = 0")
  case True
  then have "rotate num xs = xs"
    by (cases xs; cases "tl xs") (auto simp: rotate_drop_take)
  with True inv dir show ?thesis
    by (auto simp: Dll_rotate_trivial dll_inv_count intro!: exI [of _ xs])
next
  case False
  let ?k = "if dir = 1 then num mod length xs else length xs - num mod length xs"
  have "num mod length xs < length xs" using False by (intro mod_less_divisor) linarith
  with False have k: "0 < ?k" "?k < length xs" by auto
  have "dir = 1 \<and> num mod length (take ?k xs @ drop ?k xs) = length (take ?k xs) \<or>
        dir = -1 \<and> num mod length (take ?k xs @ drop ?k xs) = length (drop ?k xs)"
    using dir k by auto
  then obtain s' l' where "Dll_rotate s l dir num = Inr (s', l')"
      "dll_inv s' l' (drop ?k xs @ take ?k xs)" "frame (set xs) s s'"
    using Dll_rotate_split [of s l "take ?k xs" "drop ?k xs" dir num] inv k by force
  then show ?thesis
    using dir rotate_back [of num xs]
    by (intro exI [of _ s'] exI [of _ l'] exI [of _ "drop ?k xs @ take ?k xs"])
       (auto simp: rotate_drop_take)
qed

theorem Dll_rotate_witness:
  "\<exists>s' l'. Dll_rotate dll_ex_store dll_ex 1 5 = Inr (s', l') \<and> dll_inv s' l' [3, 1, 2]"
  using Dll_rotate_correct [OF dll_ex_inv(1), of 1 5] by (auto simp: rotate_drop_take)

text \<open>C34: \<open>Dll_swap_list_nodes\<close> exchanges the nodes at two positions and leaves the others in place,
  except when the second node stands directly before the first.\<close>

theorem Dll_swap_correct:
  assumes inv: "dll_inv s l xs" and ij: "i < length xs" "j < length xs" "i \<noteq> j" "j + 1 \<noteq> i"
  shows "\<exists>s' l'. Dll_swap_list_nodes s l (Some (xs ! i)) (Some (xs ! j)) = Inr (s', l') \<and>
           dll_inv s' l' (xs[i := xs ! j, j := xs ! i]) \<and> frame (set xs) s s' \<and> dl_dtor l' = dl_dtor l"
proof (cases "i < j")
  case True
  obtain us ms ws where "xs = us @ xs ! i # ms @ xs ! j # ws"
      "xs[i := xs ! j, j := xs ! i] = us @ xs ! j # ms @ xs ! i # ws"
    using split_at_two [OF True ij(2)] by metis
  then show ?thesis
    using Dll_swap_forward [of s l us "xs ! i" ms "xs ! j" ws] inv by metis
next
  case False
  then have "j < i" using ij by simp
  then obtain us ms ws where *: "xs = us @ xs ! j # ms @ xs ! i # ws" "length ms = i - j - 1"
      "xs[j := xs ! i, i := xs ! j] = us @ xs ! i # ms @ xs ! j # ws"
    using split_at_two [of j i xs] ij by metis
  then have "ms \<noteq> []" using ij \<open>j < i\<close> by auto
  then show ?thesis
    using Dll_swap_backward [of s l us "xs ! j" ms "xs ! i" ws] inv * ij
    by (metis list_update_swap)
qed

theorem Dll_swap_witness:
  "\<exists>s' l'. Dll_swap_list_nodes dll_ex_store dll_ex (Some 3) (Some 1) = Inr (s', l') \<and>
     dll_inv s' l' [3, 2, 1]"
  using Dll_swap_correct [OF dll_ex_inv(1), of 2 0] by auto

text \<open>When \<open>b\<close> stands directly before \<open>a\<close> at the end of the list, \<open>Dll_swap_list_nodes\<close> inserts \<open>b\<close>
  after itself and dereferences NULL.\<close>

theorem Dll_swap_adjacent_crashes:
  assumes inv: "dll_inv s l (us @ [b, a])"
  shows "Dll_swap_list_nodes s l (Some a) (Some b) = Inl NullDeref"
proof -
  have inv': "dll_inv s l ((us @ [b]) @ a # [])" using inv by simp
  obtain n where n: "s a = Some n" "dl_prev n = Some b"
    using dll_inv_prev [OF inv'] by auto
  obtain s1 l1 where 1: "Dll_remove_node s l (Some a) False = Inr (s1, l1)" "dll_inv s1 l1 (us @ [b])"
      "frame (insert b (set us)) s s1"
    using Dll_remove_node_inv [OF inv'] by auto
  obtain m where m: "s1 a = Some m" using n(1) frame_dom [OF 1(3)] by auto
  have a: "a \<notin> set (us @ [b])" "b \<notin> set us" using dll_inv_distinct [OF inv] by auto
  obtain s2 l2 where 2: "Dll_replace_node s1 l1 (Some b) (Some a) = Inr (s2, l2)"
      "dll_inv s2 l2 (us @ [a])" "frame (insert a (set us)) s1 s2"
    using Dll_replace_node_inv [OF 1(2) m] a by auto
  obtain k where "s1 b = Some k" "dl_next k = NULL" using 1(2) by (auto simp: dll_inv_snoc_iff)
  moreover have "s2 b = s1 b" using frame_other [OF 2(3)] a by auto
  moreover have "dl_back l2 = Some a" using dll_inv_ends(2) [OF 2(2)] by simp
  ultimately show ?thesis
    using n 1(1) 2(1) a by (simp add: Dll_swap_list_nodes_def Dll_put_node_after_def)
qed

theorem Dll_swap_adjacent_witness:
  "Dll_swap_list_nodes dll_ex_store dll_ex (Some 3) (Some 2) = Inl NullDeref"
  by (rule Dll_swap_adjacent_crashes [OF dll_ex_mid(2)])

text \<open>\<open>Dll_swap_list_heads\<close> exchanges the two lists; each head keeps its destructor.\<close>

theorem Dll_swap_heads_exchanges:
  assumes "dll_inv s a xs" and "dll_inv s b ys"
  shows "(case Dll_swap_list_heads a b of (a', b') \<Rightarrow>
           dll_inv s a' ys \<and> dll_inv s b' xs \<and> dl_dtor a' = dl_dtor a \<and> dl_dtor b' = dl_dtor b)"
  using assms by (simp add: Dll_swap_list_heads_def dll_inv_def Let_def)

text \<open>\<open>Dll_join\<close> onto a non-empty list: with an empty second list it dereferences NULL; otherwise
  all nodes are reachable forwards and counted, but the back pointer still names the last node
  of the first list, so the joined head is not a well-formed list, and the emptied head loses
  its destructor.\<close>

theorem Dll_join_stale_back:
  assumes a: "dll_inv s a xs" and b: "dll_inv s b ys" and "set xs \<inter> set ys = {}" and "xs \<noteq> []"
  shows "if ys = [] then Dll_join s a b = Inl NullDeref
         else \<exists>s' a' b'. Dll_join s a b = Inr (s', a', b') \<and> lseg dl_next s' (dl_front a') (xs @ ys) NULL \<and>
                dl_count a' = length (xs @ ys) \<and> dl_back a' = Some (last xs) \<and> \<not> dll_inv s' a' (xs @ ys) \<and>
                dl_dtor b' = None"
proof -
  obtain us p where xs: "xs = us @ [p]" using assms(4) by (metis rev_exhaust)
  show ?thesis
  proof (cases ys rule: rev_cases)
    case Nil
    with a b show ?thesis by (auto simp: xs Dll_join_def dll_inv_snoc_iff dll_inv_Nil_iff)
  next
    case (snoc vs q)
    have "\<exists>h hs. ys = h # hs" using snoc by (metis neq_Nil_conv snoc_eq_iff_butlast)
    then obtain h hs where h: "ys = h # hs" by blast
    have "h \<in> set ys" using h by simp
    moreover have "q \<in> set ys" using snoc by simp
    ultimately have "p \<noteq> h" "p \<noteq> q" using assms(3) by (auto simp: xs)
    have "\<not> dll_inv s' a' (xs @ ys)" if "dl_back a' = Some p" for s' a'
      using that dll_inv_ends(2) [of s' a' "xs @ ys"] snoc \<open>p \<noteq> q\<close> by auto
    with a b assms(3) \<open>p \<noteq> h\<close> show ?thesis
      unfolding xs h by (auto simp: dll_inv_snoc_iff dll_inv_Cons_iff Dll_join_def lseg_append initialize_dllist_def)
  qed
qed

theorem Dll_join_witness:
  "\<exists>s' a' b'. Dll_join dll_ex_store dll_ex dll_ex2 = Inr (s', a', b') \<and>
     lseg dl_next s' (dl_front a') [1, 2, 3, 4, 5] NULL \<and> dl_count a' = 5 \<and> dl_back a' = Some 3"
  using Dll_join_stale_back [OF dll_ex_inv] by auto

text \<open>\<open>Dll_split_list\<close> leaves the nodes before the given one in a well-formed list and returns a
  head from which the rest is reachable and counted. The returned head is a well-formed list
  exactly when the split is at the first or the last node; otherwise its back pointer is NULL.\<close>

theorem Dll_split_list_splits:
  assumes inv: "dll_inv s l (us @ a # vs)" and fuel: "length vs + 1 < fuel"
  shows "\<exists>s' l' b. Dll_split_list fuel s l (Some a) = Inr (s', l', b) \<and> dll_inv s' l' us \<and>
           lseg dl_next s' (dl_front b) (a # vs) NULL \<and> dl_count b = length (a # vs) \<and>
           (dll_inv s' b (a # vs) \<longleftrightarrow> us = [] \<or> vs = []) \<and> dl_dtor b = dl_dtor l"
proof (cases us rule: rev_cases)
  case Nil
  with inv show ?thesis by (auto simp: Dll_split_list_def Dll_swap_list_heads_def Dll_new_def initialize_dllist_def dll_inv_def Let_def)
next
  case us: (snoc us' p)
  then have nf: "dl_front l \<noteq> Some a"
    using dll_inv_ends(1) [OF inv] dll_inv_distinct [OF inv] by (auto simp: hd_append split: if_splits)
  show ?thesis
  proof (cases vs rule: rev_cases)
    case Nil
    then have inv': "dll_inv s l (us @ [a])" using inv by simp
    obtain s1 l1 where 1: "Dll_pop_back s l = Inr (Some a, s1, l1)" "dll_inv s1 l1 us"
        "frame (set us) s s1"
      using Dll_pop_back_snoc [OF inv'] by blast
    obtain n where n: "s a = Some n" "dl_next n = NULL" "dl_back l = Some a" "a \<notin> set us"
      using inv' by (auto simp: dll_inv_snoc_iff)
    then have "s1 a = Some n" using frame_other [OF 1(3)] by auto
    with Nil us n nf 1 inv' fuel show ?thesis
      using count_list_nodes_loop_lseg [of _ "Some a" "[a]" fuel 0]
      by (auto simp: Dll_split_list_def Dll_new_def initialize_dllist_def Let_def count_list_nodes_def dll_inv_def)
  next
    case (snoc vs' q)
    obtain n where n: "s a = Some n" "lseg dl_next s (dl_next n) vs NULL" "dl_prev n = Some p"
      "dl_back l = Some q" "a \<noteq> q" "a \<notin> set vs" "a \<noteq> p" "p \<notin> set vs"
      using inv us snoc by (auto simp: dll_inv_mid_iff lseg_append)
    obtain np where p: "s p = Some np" using dll_inv_dom [OF inv, of p] us by auto
    let ?s1 = "s(p \<mapsto> np\<lparr>dl_next := NULL\<rparr>, a \<mapsto> n\<lparr>dl_prev := NULL\<rparr>)"
    have seg: "lseg dl_next ?s1 (Some a) (a # vs) NULL" using n by simp
    then have "count_list_nodes_loop fuel ?s1 (Some a) 0 = Inr (length (a # vs))"
      using count_list_nodes_loop_lseg [of ?s1 "Some a" "a # vs" fuel 0] fuel by simp
    moreover have "vs \<noteq> []" "dl_next n \<noteq> NULL" using snoc n(2) lseg_head by fastforce+
    ultimately have split: "Dll_split_list fuel s l (Some a) = Inr (?s1, l\<lparr>dl_back := Some p, dl_count := length us\<rparr>,
        \<lparr>dl_count = length (a # vs), dl_front = Some a, dl_back = NULL, dl_dtor = dl_dtor l\<rparr>)"
      using nf n p dll_inv_count [OF inv]
      by (simp add: Dll_split_list_def Dll_new_def initialize_dllist_def Let_def count_list_nodes_def)
    have "dll_inv ?s1 (l\<lparr>dl_back := Some p, dl_count := length us\<rparr>) us"
      using inv n p by (auto simp: us dll_inv_def lseg_append)
    moreover have "\<not> dll_inv ?s1 \<lparr>dl_count = length (a # vs), dl_front = Some a, dl_back = NULL, dl_dtor = dl_dtor l\<rparr> (a # vs)"
      by (auto dest: dll_inv_ends(2))
    ultimately show ?thesis
      using split seg us \<open>vs \<noteq> []\<close> by auto
  qed
qed

theorem Dll_split_list_witness:
  "\<exists>s' l' b. Dll_split_list 3 dll_ex_store dll_ex (Some 2) = Inr (s', l', b) \<and>
     dll_inv s' l' [1] \<and> lseg dl_next s' (dl_front b) [2, 3] NULL \<and> \<not> dll_inv s' b [2, 3]"
  using Dll_split_list_splits [OF dll_ex_mid(1), of 3] by auto

end
