(* ===== verification/Vector.thy ===== *)
theory Vector
  imports Interfaces
begin

text \<open>
  The dynamic array of \<open>src/mods/vector/vector.c\<close> and of the function templates in
  \<open>include/tarp/impl/vector_impl.h\<close>. A vector's memory is a list of slots for values of the
  element type, \<open>None\<close> where nothing was stored yet; \<open>tsz\<close> is \<open>sizeof(TYPE)\<close>. Capacities
  and byte sizes are computed modulo \<open>SZ\<close>, and the invariant \<open>vect_inv\<close> shows that none
  of them wraps. Allocation is assumed to succeed: \<open>salloc\<close> stops the process otherwise.
\<close>

section \<open>Data\<close>

record 'a vector =
  v_capacity :: nat
  v_occupied :: nat
  v_itemsz :: nat
  v_bytes :: "'a option list"

section \<open>Memory access\<close>

definition slot_get :: "'a option list \<Rightarrow> nat \<Rightarrow> 'a res" where
  "slot_get bs i =
     (if i < length bs then (case bs ! i of None \<Rightarrow> Inl Uninit | Some x \<Rightarrow> Inr x) else Inl WildDeref)"

definition slot_set :: "'a option list \<Rightarrow> nat \<Rightarrow> 'a \<Rightarrow> 'a option list res" where
  "slot_set bs i x = (if i < length bs then Inr (bs[i := Some x]) else Inl WildDeref)"

definition slot_move :: "'a option list \<Rightarrow> nat \<Rightarrow> nat \<Rightarrow> nat \<Rightarrow> 'a option list res" where
  "slot_move bs dst src n =
     (if dst + n \<le> length bs \<and> src + n \<le> length bs
      then Inr (take dst bs @ take n (drop src bs) @ drop (dst + n) bs)
      else Inl WildDeref)"

definition slot_realloc :: "'a option list \<Rightarrow> nat \<Rightarrow> 'a option list" where
  "slot_realloc bs n = take n bs @ replicate (n - length bs) None"

section \<open>Operations\<close>

definition TARP_VECTOR_MAX_MEM :: nat where
  "TARP_VECTOR_MAX_MEM = SIZE_MAX div 2 ^ 8"

definition TARP_VECTOR_MIN_CAPACITY :: nat where
  "TARP_VECTOR_MIN_CAPACITY = 16"

definition Vect_maxcap :: "nat \<Rightarrow> nat" where
  "Vect_maxcap itemsz = TARP_VECTOR_MAX_MEM div itemsz"

definition allocate_vector :: "'a vector option \<Rightarrow> nat \<Rightarrow> nat \<Rightarrow> 'a vector option" where
  "allocate_vector v capacity itemsz =
     (let capacity = (if capacity < TARP_VECTOR_MIN_CAPACITY then TARP_VECTOR_MIN_CAPACITY else capacity) in
      if capacity > Vect_maxcap itemsz then None
      else
        let v = (case v of
                   None \<Rightarrow> \<lparr>v_capacity = 0, v_occupied = 0, v_itemsz = 0, v_bytes = []\<rparr>
                 | Some v \<Rightarrow> v);
            v = v\<lparr>v_capacity := capacity, v_itemsz := itemsz\<rparr>
        in Some (v\<lparr>v_bytes := slot_realloc (v_bytes v) ((capacity * itemsz) mod SZ div itemsz)\<rparr>))"

definition Vect_count :: "'a vector \<Rightarrow> nat" where
  "Vect_count v = v_occupied v"

definition Vect_destroy :: "'a vector \<Rightarrow> 'a vector option" where
  "Vect_destroy v = None"

definition must_grow :: "'a vector \<Rightarrow> bool" where
  "must_grow v \<longleftrightarrow> v_occupied v = v_capacity v"

definition must_shrink :: "'a vector \<Rightarrow> bool" where
  "must_shrink v \<longleftrightarrow> v_occupied v < v_capacity v div 2 ^ 2"

definition grow :: "'a vector \<Rightarrow> 'a vector option" where
  "grow v =
     (if v_capacity v > Vect_maxcap (v_itemsz v) div 2 then None
      else allocate_vector (Some v) ((v_capacity v * 2) mod SZ) (v_itemsz v))"

definition shrink :: "'a vector \<Rightarrow> 'a vector option" where
  "shrink v = allocate_vector (Some v) (v_capacity v div 2) (v_itemsz v)"

definition Vect_clear :: "'a vector \<Rightarrow> 'a vector" where
  "Vect_clear v = v\<lparr>v_occupied := 0\<rparr>"

definition Vect_isempty :: "'a vector \<Rightarrow> bool" where
  "Vect_isempty v \<longleftrightarrow> v_occupied v = 0"

definition Vect_new :: "nat \<Rightarrow> nat \<Rightarrow> 'a vector option" where
  "Vect_new tsz capacity = allocate_vector None capacity tsz"

definition Vect_pushb :: "nat \<Rightarrow> 'a vector \<Rightarrow> 'a \<Rightarrow> (ErrorCode \<times> 'a vector) res" where
  "Vect_pushb tsz v value =
     bindE (throw_on (tsz \<noteq> v_itemsz v) ERROR_INVALIDVALUE) (\<lambda>_.
     case (if must_grow v then grow v else Some v) of
       None \<Rightarrow> Inr (ERROR_OUTOFBOUNDS, v)
     | Some v \<Rightarrow>
         bindE (slot_set (v_bytes v) (v_occupied v) value) (\<lambda>bs.
         Inr (ERRORCODE_SUCCESS, v\<lparr>v_bytes := bs, v_occupied := v_occupied v + 1\<rparr>)))"

definition Vect_popb :: "nat \<Rightarrow> 'a vector \<Rightarrow> ('a \<times> 'a vector) res" where
  "Vect_popb tsz v =
     bindE (throw_on (tsz \<noteq> v_itemsz v) ERROR_INVALIDVALUE) (\<lambda>_.
     bindE (throw_on (v_occupied v = 0) ERROR_EMPTY) (\<lambda>_.
     let v = (if must_shrink v then (case shrink v of None \<Rightarrow> v | Some v' \<Rightarrow> v') else v);
         v = v\<lparr>v_occupied := v_occupied v - 1\<rparr>
     in bindE (slot_get (v_bytes v) (v_occupied v)) (\<lambda>value. Inr (value, v))))"

definition Vect_get :: "'a vector \<Rightarrow> nat \<Rightarrow> 'a res" where
  "Vect_get v pos =
     bindE (throw_on (pos \<ge> v_occupied v) ERROR_OUTOFBOUNDS) (\<lambda>_. slot_get (v_bytes v) pos)"

definition Vect_set :: "'a vector \<Rightarrow> nat \<Rightarrow> 'a \<Rightarrow> 'a vector res" where
  "Vect_set v pos value =
     bindE (throw_on (pos \<ge> v_occupied v) ERROR_OUTOFBOUNDS) (\<lambda>_.
     bindE (slot_set (v_bytes v) pos value) (\<lambda>bs. Inr (v\<lparr>v_bytes := bs\<rparr>)))"

definition Vect_front :: "'a vector \<Rightarrow> 'a res" where
  "Vect_front v = bindE (throw_on (v_occupied v = 0) ERROR_EMPTY) (\<lambda>_. slot_get (v_bytes v) 0)"

definition Vect_back :: "'a vector \<Rightarrow> 'a res" where
  "Vect_back v =
     bindE (throw_on (v_occupied v = 0) ERROR_EMPTY) (\<lambda>_. slot_get (v_bytes v) (v_occupied v - 1))"

text \<open>\<open>Vect_begin\<close>, \<open>Vect_end\<close> and \<open>Vect_getptr\<close> return the index of the slot they point to.\<close>

definition Vect_begin :: "'a vector \<Rightarrow> nat" where
  "Vect_begin v = 0"

definition Vect_end :: "'a vector \<Rightarrow> nat" where
  "Vect_end v = v_occupied v"

definition Vect_getptr :: "'a vector \<Rightarrow> nat \<Rightarrow> nat res" where
  "Vect_getptr v pos = bindE (throw_on (pos \<ge> v_occupied v) ERROR_OUTOFBOUNDS) (\<lambda>_. Inr pos)"

definition Vect_insert :: "nat \<Rightarrow> 'a vector \<Rightarrow> nat \<Rightarrow> 'a \<Rightarrow> (ErrorCode \<times> 'a vector) res" where
  "Vect_insert tsz v pos value =
     bindE (throw_on (pos > v_occupied v) ERROR_OUTOFBOUNDS) (\<lambda>_.
     bindE (Vect_pushb tsz v value) (\<lambda>(rc, v).
     if rc \<noteq> ERRORCODE_SUCCESS then Inr (rc, v)
     else if v_occupied v = 1 then Inr (rc, v)
     else
       bindE (slot_move (v_bytes v) (pos + 1) pos (v_occupied v - 1 - pos)) (\<lambda>bs.
       bindE (Vect_set (v\<lparr>v_bytes := bs\<rparr>) pos value) (\<lambda>v.
       Inr (rc, v)))))"

definition Vect_remove :: "nat \<Rightarrow> 'a vector \<Rightarrow> nat \<Rightarrow> 'a vector res" where
  "Vect_remove tsz v pos =
     bindE (throw_on (pos \<ge> v_occupied v) ERROR_OUTOFBOUNDS) (\<lambda>_.
     if v_occupied v = 0 then Inr v
     else
       bindE (slot_move (v_bytes v) pos (pos + 1) (v_occupied v - 1 - pos)) (\<lambda>bs.
       bindE (Vect_popb tsz (v\<lparr>v_bytes := bs\<rparr>)) (\<lambda>(_, v). Inr v)))"

fun Vect_push_times :: "nat \<Rightarrow> 'a vector \<Rightarrow> 'a \<Rightarrow> nat \<Rightarrow> 'a vector res" where
  "Vect_push_times tsz v fill 0 = Inr v"
| "Vect_push_times tsz v fill (Suc n) =
     bindE (Vect_pushb tsz v fill) (\<lambda>(_, v). Vect_push_times tsz v fill n)"

fun Vect_pop_times :: "nat \<Rightarrow> 'a vector \<Rightarrow> nat \<Rightarrow> 'a vector res" where
  "Vect_pop_times tsz v 0 = Inr v"
| "Vect_pop_times tsz v (Suc n) = bindE (Vect_popb tsz v) (\<lambda>(_, v). Vect_pop_times tsz v n)"

definition Vect_resize :: "nat \<Rightarrow> 'a vector \<Rightarrow> nat \<Rightarrow> 'a \<Rightarrow> 'a vector res" where
  "Vect_resize tsz v count fill =
     (if count = v_occupied v then Inr v
      else if count > v_occupied v then Vect_push_times tsz v fill (count - v_occupied v)
      else Vect_pop_times tsz v (v_occupied v - count))"

section \<open>What a vector holds\<close>

definition vect_inv :: "nat \<Rightarrow> 'a vector \<Rightarrow> 'a list \<Rightarrow> bool" where
  "vect_inv tsz v xs \<longleftrightarrow>
     tsz > 0 \<and> v_itemsz v = tsz \<and> v_occupied v = length xs \<and> length xs \<le> v_capacity v \<and>
     TARP_VECTOR_MIN_CAPACITY \<le> v_capacity v \<and> v_capacity v \<le> Vect_maxcap tsz \<and>
     length (v_bytes v) = v_capacity v \<and> take (length xs) (v_bytes v) = map Some xs"

definition vect_room :: "'a vector \<Rightarrow> bool" where
  "vect_room v \<longleftrightarrow> v_occupied v < v_capacity v \<or> v_capacity v \<le> Vect_maxcap (v_itemsz v) div 2"

lemma Vect_maxcap_bytes: "0 < tsz \<Longrightarrow> c \<le> Vect_maxcap tsz \<Longrightarrow> c * tsz < SZ"
proof -
  assume "0 < tsz" "c \<le> Vect_maxcap tsz"
  then have "c * tsz \<le> TARP_VECTOR_MAX_MEM"
    by (simp add: Vect_maxcap_def less_eq_div_iff_mult_less_eq)
  then show ?thesis by (simp add: TARP_VECTOR_MAX_MEM_def SZ_num)
qed

lemma Vect_maxcap_le: "Vect_maxcap tsz \<le> TARP_VECTOR_MAX_MEM"
  by (simp add: Vect_maxcap_def)

lemma Vect_maxcap_SZ: "c \<le> Vect_maxcap tsz \<Longrightarrow> c * 2 < SZ"
  using Vect_maxcap_le [of tsz] by (simp add: TARP_VECTOR_MAX_MEM_def SZ_num)

lemma allocate_vector_inv:
  assumes inv: "vect_inv tsz v xs" and c: "length xs \<le> c" "c \<le> Vect_maxcap tsz"
  obtains v' where "allocate_vector (Some v) c tsz = Some v'" and "vect_inv tsz v' xs"
    and "v_capacity v' = max c TARP_VECTOR_MIN_CAPACITY"
proof -
  let ?c = "max c TARP_VECTOR_MIN_CAPACITY"
  let ?v = "v\<lparr>v_capacity := ?c, v_itemsz := tsz, v_bytes := slot_realloc (v_bytes v) ?c\<rparr>"
  have le: "?c \<le> Vect_maxcap tsz" and tsz: "0 < tsz" using inv c by (auto simp: vect_inv_def)
  then have "?c * tsz mod SZ div tsz = ?c"
    using Vect_maxcap_bytes by (metis mod_less nonzero_mult_div_cancel_right less_numeral_extra(3))
  moreover have "(if c < TARP_VECTOR_MIN_CAPACITY then TARP_VECTOR_MIN_CAPACITY else c) = ?c"
    by simp
  ultimately have "allocate_vector (Some v) c tsz = Some ?v"
    using le unfolding allocate_vector_def by (simp only: Let_def option.case not_le [symmetric]) simp
  moreover have "vect_inv tsz ?v xs"
    using inv le c by (auto simp: vect_inv_def slot_realloc_def min_def)
  ultimately show ?thesis using that by simp
qed

lemma Vect_new_inv:
  assumes "0 < tsz" and "max c TARP_VECTOR_MIN_CAPACITY \<le> Vect_maxcap tsz"
  shows "\<exists>v. Vect_new tsz c = Some v \<and> vect_inv tsz v []"
proof -
  let ?c = "max c TARP_VECTOR_MIN_CAPACITY"
  have "?c * tsz mod SZ div tsz = ?c"
    using assms Vect_maxcap_bytes by (metis mod_less nonzero_mult_div_cancel_right less_numeral_extra(3))
  moreover have "(if c < TARP_VECTOR_MIN_CAPACITY then TARP_VECTOR_MIN_CAPACITY else c) = ?c"
    by simp
  ultimately show ?thesis
    using assms unfolding Vect_new_def allocate_vector_def
    by (simp only: Let_def option.case not_le [symmetric]) (simp add: vect_inv_def slot_realloc_def)
qed

section \<open>Reading and writing\<close>

lemma vect_inv_count: "vect_inv tsz v xs \<Longrightarrow> v_occupied v = length xs"
  by (simp add: vect_inv_def)

lemma vect_inv_slot: "vect_inv tsz v xs \<Longrightarrow> i < length xs \<Longrightarrow> v_bytes v ! i = Some (xs ! i)"
  unfolding vect_inv_def by (metis nth_map nth_take)

lemma vect_inv_slot_get: "vect_inv tsz v xs \<Longrightarrow> i < length xs \<Longrightarrow> slot_get (v_bytes v) i = Inr (xs ! i)"
  using vect_inv_slot [of tsz v xs i] by (auto simp: slot_get_def vect_inv_def)

lemma Vect_get_inv: "vect_inv tsz v xs \<Longrightarrow> i < length xs \<Longrightarrow> Vect_get v i = Inr (xs ! i)"
  by (simp add: Vect_get_def vect_inv_slot_get vect_inv_count)

lemma Vect_get_range: "vect_inv tsz v xs \<Longrightarrow> length xs \<le> i \<Longrightarrow> Vect_get v i = Inl (Throw ERROR_OUTOFBOUNDS)"
  by (simp add: Vect_get_def vect_inv_count)

lemma Vect_set_inv:
  assumes "vect_inv tsz v xs" and "i < length xs"
  shows "\<exists>v'. Vect_set v i x = Inr v' \<and> vect_inv tsz v' (xs[i := x]) \<and>
           v_capacity v' = v_capacity v"
  using assms by (simp add: Vect_set_def slot_set_def vect_inv_def take_update_swap map_update)

lemma Vect_set_range: "vect_inv tsz v xs \<Longrightarrow> length xs \<le> i \<Longrightarrow> Vect_set v i x = Inl (Throw ERROR_OUTOFBOUNDS)"
  by (simp add: Vect_set_def vect_inv_count)

lemma Vect_front_inv: "vect_inv tsz v xs \<Longrightarrow> xs \<noteq> [] \<Longrightarrow> Vect_front v = Inr (xs ! 0)"
  by (simp add: Vect_front_def vect_inv_slot_get vect_inv_count)

lemma Vect_back_inv: "vect_inv tsz v xs \<Longrightarrow> xs \<noteq> [] \<Longrightarrow> Vect_back v = Inr (last xs)"
  by (simp add: Vect_back_def vect_inv_slot_get vect_inv_count last_conv_nth)

section \<open>Growing and shrinking\<close>

lemma vect_inv_push_slot:
  assumes "vect_inv tsz v xs" and "length xs < v_capacity v"
  shows "\<exists>bs. slot_set (v_bytes v) (length xs) x = Inr bs \<and>
           vect_inv tsz (v\<lparr>v_bytes := bs, v_occupied := length xs + 1\<rparr>) (xs @ [x])"
  using assms by (auto simp: slot_set_def vect_inv_def take_Suc_conv_app_nth)

lemma grow_inv:
  assumes "vect_inv tsz v xs" and "v_capacity v \<le> Vect_maxcap tsz div 2"
  shows "\<exists>v'. grow v = Some v' \<and> vect_inv tsz v' xs \<and> v_capacity v' = 2 * v_capacity v"
proof -
  have "v_itemsz v = tsz" "length xs \<le> 2 * v_capacity v" "2 * v_capacity v \<le> Vect_maxcap tsz"
    "TARP_VECTOR_MIN_CAPACITY \<le> v_capacity v"
    using assms by (auto simp: vect_inv_def)
  moreover have "v_capacity v * 2 mod SZ = 2 * v_capacity v"
    using assms Vect_maxcap_SZ [of "v_capacity v" tsz] by (simp add: vect_inv_def)
  ultimately show ?thesis
    using assms allocate_vector_inv [of tsz v xs "2 * v_capacity v"] by (auto simp: grow_def not_less)
qed

lemma Vect_pushb_inv:
  assumes inv: "vect_inv tsz v xs" and "vect_room v"
  shows "\<exists>v'. Vect_pushb tsz v x = Inr (ERRORCODE_SUCCESS, v') \<and> vect_inv tsz v' (xs @ [x]) \<and>
           v_capacity v \<le> v_capacity v'"
proof -
  have "\<exists>v'. (if must_grow v then grow v else Some v) = Some v' \<and> vect_inv tsz v' xs \<and>
      length xs < v_capacity v' \<and> v_capacity v \<le> v_capacity v'"
  proof (cases "must_grow v")
    case True
    with assms show ?thesis
      using grow_inv [OF inv] by (auto simp: must_grow_def vect_room_def vect_inv_def TARP_VECTOR_MIN_CAPACITY_def)
  next
    case False
    with inv show ?thesis by (auto simp: must_grow_def vect_inv_def)
  qed
  then obtain v' where "(if must_grow v then grow v else Some v) = Some v'" "vect_inv tsz v' xs"
      "length xs < v_capacity v'" "v_capacity v \<le> v_capacity v'"
    by blast
  with inv show ?thesis
    using vect_inv_push_slot [of tsz v' xs x] by (auto simp: Vect_pushb_def vect_inv_def)
qed

lemma Vect_pushb_full:
  assumes "vect_inv tsz v xs" and "\<not> vect_room v"
  shows "Vect_pushb tsz v x = Inr (ERROR_OUTOFBOUNDS, v)"
  using assms by (auto simp: Vect_pushb_def vect_room_def must_grow_def grow_def vect_inv_def)

lemma must_shrink_inv:
  assumes "vect_inv tsz v xs"
  shows "\<exists>v'. (if must_shrink v then (case shrink v of None \<Rightarrow> v | Some v' \<Rightarrow> v') else v) = v' \<and>
           vect_inv tsz v' xs"
proof (cases "must_shrink v")
  case True
  have "length xs \<le> v_capacity v div 2" "v_capacity v div 2 \<le> Vect_maxcap tsz" "v_itemsz v = tsz"
    using assms True by (auto simp: vect_inv_def must_shrink_def)
  then obtain v' where "shrink v = Some v'" "vect_inv tsz v' xs"
    using allocate_vector_inv [OF assms] by (metis shrink_def)
  with True show ?thesis by simp
next
  case False
  with assms show ?thesis by simp
qed

lemma vect_inv_drop_last:
  assumes "vect_inv tsz v (xs @ [x])"
  shows "vect_inv tsz (v\<lparr>v_occupied := length xs\<rparr>) xs" and "slot_get (v_bytes v) (length xs) = Inr x"
proof -
  have "take (length xs) (take (length (xs @ [x])) (v_bytes v)) = take (length xs) (map Some (xs @ [x]))"
    using assms by (simp only: vect_inv_def)
  then have "take (length xs) (v_bytes v) = map Some xs"
    by (simp add: min_def)
  with assms show "vect_inv tsz (v\<lparr>v_occupied := length xs\<rparr>) xs"
    by (simp add: vect_inv_def min_def)
  show "slot_get (v_bytes v) (length xs) = Inr x"
    using vect_inv_slot_get [OF assms, of "length xs"] by simp
qed

lemma Vect_popb_inv:
  assumes inv: "vect_inv tsz v (xs @ [x])"
  shows "\<exists>v'. Vect_popb tsz v = Inr (x, v') \<and> vect_inv tsz v' xs"
proof -
  obtain v' where "(if must_shrink v then (case shrink v of None \<Rightarrow> v | Some v' \<Rightarrow> v') else v) = v'"
      "vect_inv tsz v' (xs @ [x])"
    using must_shrink_inv [OF inv] by blast
  with inv show ?thesis
    using vect_inv_drop_last [of tsz v' xs x] by (auto simp: Vect_popb_def vect_inv_def Let_def)
qed

lemma Vect_popb_Nil: "vect_inv tsz v [] \<Longrightarrow> Vect_popb tsz v = Inl (Throw ERROR_EMPTY)"
  by (auto simp: Vect_popb_def vect_inv_def)

interpretation vec: dyn_stack "vect_inv tsz" Vect_get Vect_set vect_room
    "\<lambda>v x. Vect_pushb tsz v x" "Vect_popb tsz"
proof
  fix v :: "'a vector" and xs i x
  assume v: "vect_inv tsz v xs" and i: "i < length xs"
  show "Vect_get v i = Inr (xs ! i)"
    using v i by (rule Vect_get_inv)
  show "\<exists>v'. Vect_set v i x = Inr v' \<and> vect_inv tsz v' (xs[i := x])"
    using Vect_set_inv [OF v i] by blast
next
  fix v :: "'a vector" and xs x
  assume "vect_inv tsz v xs" "vect_room v"
  from Vect_pushb_inv [OF this]
  show "\<exists>v'. Vect_pushb tsz v x = Inr (ERRORCODE_SUCCESS, v') \<and> vect_inv tsz v' (xs @ [x])"
    by blast
next
  fix v :: "'a vector" and xs x
  assume "vect_inv tsz v xs" "\<not> vect_room v"
  then show "Vect_pushb tsz v x = Inr (ERROR_OUTOFBOUNDS, v)"
    by (rule Vect_pushb_full)
next
  fix v :: "'a vector" and xs x
  assume "vect_inv tsz v (xs @ [x])"
  then show "\<exists>v'. Vect_popb tsz v = Inr (x, v') \<and> vect_inv tsz v' xs"
    by (rule Vect_popb_inv)
qed

section \<open>Inserting and removing in the middle\<close>

lemma vect_inv_split:
  "vect_inv tsz v xs \<longleftrightarrow>
     (\<exists>rest. v_bytes v = map Some xs @ rest \<and> v_capacity v = length xs + length rest) \<and>
     tsz > 0 \<and> v_itemsz v = tsz \<and> v_occupied v = length xs \<and>
     TARP_VECTOR_MIN_CAPACITY \<le> v_capacity v \<and> v_capacity v \<le> Vect_maxcap tsz"
  (is "?l \<longleftrightarrow> ?r")
proof
  assume ?l
  then show ?r
    using append_take_drop_id [of "length xs" "v_bytes v"]
    by (auto simp: vect_inv_def intro!: exI [of _ "drop (length xs) (v_bytes v)"])
next
  assume ?r
  then show ?l by (auto simp: vect_inv_def)
qed

lemma Vect_insert_inv:
  assumes inv: "vect_inv tsz v (us @ ws)" and room: "vect_room v"
  shows "\<exists>v'. Vect_insert tsz v (length us) x = Inr (ERRORCODE_SUCCESS, v') \<and>
           vect_inv tsz v' (us @ x # ws)"
proof -
  obtain v1 where v1: "Vect_pushb tsz v x = Inr (ERRORCODE_SUCCESS, v1)" "vect_inv tsz v1 (us @ ws @ [x])"
    using Vect_pushb_inv [OF inv room, of x] by auto
  obtain rest where rest: "v_bytes v1 = map Some us @ map Some ws @ Some x # rest"
    using v1(2) by (auto simp: vect_inv_split)
  have le: "\<not> v_occupied v < length us" using inv by (simp add: vect_inv_count)
  have occ: "v_occupied v1 = length us + length ws + 1" using v1(2) by (simp add: vect_inv_count)
  have move: "slot_move (v_bytes v1) (length us + 1) (length us) (length ws) =
      Inr (map Some us @ Some (hd (ws @ [x])) # map Some ws @ rest)"
    by (cases ws) (auto simp: slot_move_def rest)
  let ?v = "v1\<lparr>v_bytes := map Some us @ Some (hd (ws @ [x])) # map Some ws @ rest\<rparr>"
  have "vect_inv tsz ?v (us @ hd (ws @ [x]) # ws)"
    using v1(2) rest by (auto simp: vect_inv_split)
  then obtain v2 where "Vect_set ?v (length us) x = Inr v2" "vect_inv tsz v2 (us @ x # ws)"
    using Vect_set_inv [of tsz ?v "us @ hd (ws @ [x]) # ws" "length us" x] by auto
  with v1 occ le move show ?thesis
    by (auto simp: Vect_insert_def)
qed

lemma Vect_remove_inv:
  assumes inv: "vect_inv tsz v (us @ x # ws)"
  shows "\<exists>v'. Vect_remove tsz v (length us) = Inr v' \<and> vect_inv tsz v' (us @ ws)"
proof -
  obtain rest where rest: "v_bytes v = map Some us @ Some x # map Some ws @ rest"
    using inv by (auto simp: vect_inv_split)
  have occ: "v_occupied v = length us + length ws + 1" using inv by (simp add: vect_inv_count)
  let ?l = "last (x # ws)"
  let ?bs = "map Some us @ map Some ws @ Some ?l # rest"
  have "drop (length ws) (x # ws) = [?l]"
    by (metis Suc_eq_plus1 append_butlast_last_id append_eq_conv_conj diff_add_inverse2 length_Cons length_butlast list.discI)
  then have "drop (length ws) (map Some (x # ws)) = [Some ?l]"
    by (metis drop_map list.simps(8,9))
  then have move: "slot_move (v_bytes v) (length us) (length us + 1) (length ws) = Inr ?bs"
    using drop_append [of "length ws" "map Some (x # ws)" rest] by (simp add: slot_move_def rest)
  have "vect_inv tsz (v\<lparr>v_bytes := ?bs\<rparr>) ((us @ ws) @ [?l])"
    using inv rest by (auto simp: vect_inv_split)
  from Vect_popb_inv [OF this]
  obtain v' where "Vect_popb tsz (v\<lparr>v_bytes := ?bs\<rparr>) = Inr (?l, v')" "vect_inv tsz v' (us @ ws)"
    by blast
  with occ move show ?thesis by (auto simp: Vect_remove_def)
qed

section \<open>Resizing\<close>

lemma Vect_pop_times_inv:
  "vect_inv tsz v (xs @ ys) \<Longrightarrow> \<exists>v'. Vect_pop_times tsz v (length ys) = Inr v' \<and> vect_inv tsz v' xs"
proof (induction ys arbitrary: v rule: rev_induct)
  case Nil
  then show ?case by simp
next
  case (snoc y ys)
  then obtain v1 where "Vect_popb tsz v = Inr (y, v1)" "vect_inv tsz v1 (xs @ ys)"
    using Vect_popb_inv [of tsz v "xs @ ys" y] by auto
  with snoc.IH show ?case by auto
qed

lemma Vect_push_times_inv:
  assumes "vect_inv tsz v xs" and "length xs + n \<le> max (v_capacity v) (Vect_maxcap tsz div 2)"
  shows "\<exists>v'. Vect_push_times tsz v fill n = Inr v' \<and> vect_inv tsz v' (xs @ replicate n fill)"
  using assms
proof (induction n arbitrary: v xs)
  case 0
  then show ?case by simp
next
  case (Suc n)
  then have "vect_room v" by (auto simp: vect_room_def vect_inv_def max_def split: if_splits)
  then obtain v1 where "Vect_pushb tsz v fill = Inr (ERRORCODE_SUCCESS, v1)" "vect_inv tsz v1 (xs @ [fill])"
      "v_capacity v \<le> v_capacity v1"
    using Vect_pushb_inv [OF Suc.prems(1)] by blast
  moreover from this Suc.prems have "length (xs @ [fill]) + n \<le> max (v_capacity v1) (Vect_maxcap tsz div 2)"
    by auto
  ultimately show ?case
    using Suc.IH [of v1 "xs @ [fill]"] by auto
qed

section \<open>The properties of the component\<close>

definition vect_ex :: "nat vector" where
  "vect_ex = \<lparr>v_capacity = 16, v_occupied = 3, v_itemsz = 8,
     v_bytes = [Some 10, Some 20, Some 30] @ replicate 13 None\<rparr>"

lemma vect_ex_inv: "vect_inv 8 vect_ex [10, 20, 30]" and vect_ex_room: "vect_room vect_ex"
  by (simp_all add: vect_inv_def vect_room_def vect_ex_def Vect_maxcap_def TARP_VECTOR_MAX_MEM_def
      TARP_VECTOR_MIN_CAPACITY_def SZ_num)

text \<open>C35: \<open>Vect_insert\<close> at any position up to the count: when there is room (free capacity, or a
  capacity that may still be doubled) the value lands at the position and everything behind it
  moves up by one; when there is none the vector is unchanged and \<open>ERROR_OUTOFBOUNDS\<close> is
  returned, for a position in the middle too, where the header says that the return value is
  always 0. No access leaves the allocated memory and no size computation wraps.\<close>

theorem Vect_insert_correct:
  assumes inv: "vect_inv tsz v xs" and pos: "pos \<le> length xs"
  shows "if vect_room v
         then \<exists>v'. Vect_insert tsz v pos x = Inr (ERRORCODE_SUCCESS, v') \<and>
                vect_inv tsz v' (take pos xs @ x # drop pos xs)
         else Vect_insert tsz v pos x = Inr (ERROR_OUTOFBOUNDS, v)"
proof (cases "vect_room v")
  case True
  then show ?thesis
    using Vect_insert_inv [of tsz v "take pos xs" "drop pos xs" x] inv pos by (simp add: min_absorb2)
next
  case False
  then show ?thesis
    using Vect_pushb_full [OF inv False, of x] inv pos by (auto simp: Vect_insert_def vect_inv_count)
qed

theorem Vect_insert_witness:
  "\<exists>v'. Vect_insert 8 vect_ex 1 15 = Inr (ERRORCODE_SUCCESS, v') \<and> vect_inv 8 v' [10, 15, 20, 30]"
  using Vect_insert_correct [OF vect_ex_inv, of 1 15] vect_ex_room by simp

text \<open>\<open>Vect_remove\<close> deletes the element at any position below the count and closes the gap,
  whether or not the vector shrinks; at or above the count it stops with
  \<open>ERROR_OUTOFBOUNDS\<close>.\<close>

theorem Vect_remove_correct:
  assumes inv: "vect_inv tsz v xs"
  shows "if pos < length xs
         then \<exists>v'. Vect_remove tsz v pos = Inr v' \<and> vect_inv tsz v' (take pos xs @ drop (pos + 1) xs)
         else Vect_remove tsz v pos = Inl (Throw ERROR_OUTOFBOUNDS)"
proof (cases "pos < length xs")
  case True
  then have "xs = take pos xs @ xs ! pos # drop (pos + 1) xs" by (simp add: id_take_nth_drop)
  with inv True show ?thesis
    using Vect_remove_inv [of tsz v "take pos xs" "xs ! pos" "drop (pos + 1) xs"] by (simp add: min_def)
next
  case False
  with inv show ?thesis by (simp add: Vect_remove_def vect_inv_count)
qed

theorem Vect_remove_witness:
  "\<exists>v'. Vect_remove 8 vect_ex 1 = Inr v' \<and> vect_inv 8 v' [10, 30]"
  using Vect_remove_correct [OF vect_ex_inv, of 1] by simp

text \<open>\<open>Vect_resize\<close> truncates or pads with the fill value to the requested count, for any
  count the vector has or may still acquire room for.\<close>

theorem Vect_resize_correct:
  assumes inv: "vect_inv tsz v xs" and n: "n \<le> max (v_capacity v) (Vect_maxcap tsz div 2)"
  shows "\<exists>v'. Vect_resize tsz v n fill = Inr v' \<and>
           vect_inv tsz v' (take n xs @ replicate (n - length xs) fill)"
proof (cases "n < length xs")
  case True
  then show ?thesis
    using Vect_pop_times_inv [of tsz v "take n xs" "drop n xs"] inv by (simp add: Vect_resize_def vect_inv_count)
next
  case False
  then show ?thesis
    using Vect_push_times_inv [OF inv, of "n - length xs" fill] inv n
    by (auto simp: Vect_resize_def vect_inv_count)
qed

theorem Vect_resize_witness:
  "\<exists>v'. Vect_resize 8 vect_ex 5 0 = Inr v' \<and> vect_inv 8 v' [10, 20, 30, 0, 0]"
  using Vect_resize_correct [OF vect_ex_inv, of 5 0]
  by (simp add: vect_ex_def eval_nat_numeral)

end
