(* ===== verification/Heap_Order.thy ===== *)
theory Heap_Order
  imports Interfaces "HOL-Library.Multiset"
begin

text \<open>
  The mathematics of array heaps, independent of any program: the parent index, one step of
  sifting, sifting an element down or up in a list, and the heap order it restores. The
  comparison \<open>b x y\<close> reads "\<open>x\<close> must come out before \<open>y\<close>"; the locale \<open>heap_order\<close> asks of
  it only that it is a strict weak order, and is interpreted for min- and max-heaps over any
  key. Both the heap of \<open>implicit.c\<close> and the heapsort routine of \<open>heap_impl.h\<close> are shown to
  compute \<open>sift_down\<close> and \<open>sift_up\<close>.
\<close>

section \<open>Sifting in a list\<close>

definition par :: "nat \<Rightarrow> nat" where
  "par i = (i - 1) div 2"

definition pick_left :: "('a \<Rightarrow> 'a \<Rightarrow> bool) \<Rightarrow> nat \<Rightarrow> 'a list \<Rightarrow> nat \<Rightarrow> nat" where
  "pick_left b n xs i = (if 2 * i + 1 < n \<and> b (xs ! (2 * i + 1)) (xs ! i) then 2 * i + 1 else i)"

definition pick :: "('a \<Rightarrow> 'a \<Rightarrow> bool) \<Rightarrow> nat \<Rightarrow> 'a list \<Rightarrow> nat \<Rightarrow> nat" where
  "pick b n xs i =
     (if 2 * i + 2 < n \<and> b (xs ! (2 * i + 2)) (xs ! pick_left b n xs i) then 2 * i + 2
      else pick_left b n xs i)"

lemma pick_cases: "pick b n xs i = i \<or> (i < pick b n xs i \<and> pick b n xs i < n)"
  by (auto simp: pick_def pick_left_def)

function sift_down :: "('a \<Rightarrow> 'a \<Rightarrow> bool) \<Rightarrow> nat \<Rightarrow> 'a list \<Rightarrow> nat \<Rightarrow> 'a list" where
  "sift_down b n xs i =
     (let m = pick b n xs i in
      if m = i then xs else sift_down b n (xs[i := xs ! m, m := xs ! i]) m)"
  by pat_completeness auto
termination
proof (relation "measure (\<lambda>(b, n, xs, i). n - i)")
  fix b :: "'a \<Rightarrow> 'a \<Rightarrow> bool" and n xs i m
  assume "m = pick b n xs i" "m \<noteq> i"
  then show "((b, n, xs[i := xs ! m, m := xs ! i], m), b, n, xs, i) \<in> measure (\<lambda>(b, n, xs, i). n - i)"
    using pick_cases [of b n xs i] by auto
qed simp

declare sift_down.simps [simp del]

lemma par_less: "0 < i \<Longrightarrow> par i < i"
  by (auto simp: par_def)

function sift_up :: "('a \<Rightarrow> 'a \<Rightarrow> bool) \<Rightarrow> 'a list \<Rightarrow> nat \<Rightarrow> 'a list" where
  "sift_up b xs i =
     (if i = 0 \<or> \<not> b (xs ! i) (xs ! par i) then xs
      else sift_up b (xs[par i := xs ! i, i := xs ! par i]) (par i))"
  by pat_completeness auto
termination
  by (relation "measure (\<lambda>(b, xs, i). i)") (auto simp: par_less)

declare sift_up.simps [simp del]

definition heap_from :: "('a \<Rightarrow> 'a \<Rightarrow> bool) \<Rightarrow> nat \<Rightarrow> 'a list \<Rightarrow> nat \<Rightarrow> bool" where
  "heap_from b n xs lo \<longleftrightarrow> (\<forall>i<n. 0 < i \<longrightarrow> lo \<le> par i \<longrightarrow> \<not> b (xs ! i) (xs ! par i))"

lemma child_cases: "0 < c \<Longrightarrow> par c = i \<Longrightarrow> c = 2 * i + 1 \<or> c = 2 * i + 2"
  by (auto simp: par_def)

lemma par_child [simp]: "par (Suc (2 * i)) = i" "par (Suc (Suc (2 * i))) = i"
  by (auto simp: par_def)

subsection \<open>Sifting permutes\<close>

lemma length_sift_down [simp]: "length (sift_down b n xs i) = length xs"
  by (induction b n xs i rule: sift_down.induct) (subst sift_down.simps, simp add: Let_def)

lemma length_sift_up [simp]: "length (sift_up b xs i) = length xs"
  by (induction b xs i rule: sift_up.induct) (subst sift_up.simps, simp)

lemma mset_sift_down:
  assumes "n \<le> length xs" "i < n"
  shows "mset (sift_down b n xs i) = mset xs"
  using assms
proof (induction b n xs i rule: sift_down.induct)
  case (1 b n xs i)
  let ?m = "pick b n xs i"
  show ?case
  proof (cases "?m = i")
    case True
    then show ?thesis by (subst sift_down.simps) (simp add: Let_def)
  next
    case False
    then have "?m < n" using pick_cases [of b n xs i] by auto
    with False "1.prems" "1.IH" [OF refl False] show ?thesis
      by (subst sift_down.simps) (simp add: Let_def mset_swap)
  qed
qed

lemma sift_down_above:
  assumes "n \<le> j" "i < n"
  shows "sift_down b n xs i ! j = xs ! j"
  using assms
proof (induction b n xs i rule: sift_down.induct)
  case (1 b n xs i)
  let ?m = "pick b n xs i"
  show ?case
  proof (cases "?m = i")
    case True
    then show ?thesis by (subst sift_down.simps) (simp add: Let_def)
  next
    case False
    then have "?m < n" using pick_cases [of b n xs i] by auto
    with False "1.prems" "1.IH" [OF refl False] show ?thesis
      by (subst sift_down.simps) (simp add: Let_def)
  qed
qed

lemma mset_sift_up:
  assumes "i < length xs"
  shows "mset (sift_up b xs i) = mset xs"
  using assms
proof (induction b xs i rule: sift_up.induct)
  case (1 b xs i)
  then show ?case
    using par_less [of i] by (subst sift_up.simps) (auto simp: mset_swap)
qed

section \<open>Sifting restores the heap order\<close>

locale heap_order =
  fixes b :: "'a \<Rightarrow> 'a \<Rightarrow> bool"
  assumes asym: "b x y \<Longrightarrow> \<not> b y x"
    and neg_trans: "\<not> b x y \<Longrightarrow> \<not> b y z \<Longrightarrow> \<not> b x z"
begin

lemma irrefl: "\<not> b x x"
  using asym by blast

lemma trans: "b x y \<Longrightarrow> b y z \<Longrightarrow> b x z"
  using asym neg_trans by blast

lemma pick_moves:
  assumes "pick b n xs i \<noteq> i"
  shows "i < pick b n xs i" "pick b n xs i < n" "par (pick b n xs i) = i"
    "b (xs ! pick b n xs i) (xs ! i)"
  using assms by (auto simp: pick_def pick_left_def intro: trans split: if_splits)

lemma pick_best:
  assumes "c < n" "0 < c" "par c = i"
  shows "\<not> b (xs ! c) (xs ! pick b n xs i)"
proof -
  have "c = 2 * i + 1 \<or> c = 2 * i + 2" using assms(2,3) by (rule child_cases)
  then show ?thesis
    using assms(1) by (auto simp: pick_def pick_left_def irrefl dest: asym intro: trans)
qed

lemma sift_down_heap:
  assumes "n \<le> length xs" "i < n" "lo \<le> i"
    and "\<And>j. j < n \<Longrightarrow> 0 < j \<Longrightarrow> lo \<le> par j \<Longrightarrow> par j \<noteq> i \<Longrightarrow> \<not> b (xs ! j) (xs ! par j)"
    and "\<And>j. j < n \<Longrightarrow> 0 < j \<Longrightarrow> par j = i \<Longrightarrow> 0 < i \<Longrightarrow> lo \<le> par i \<Longrightarrow> \<not> b (xs ! j) (xs ! par i)"
  shows "heap_from b n (sift_down b n xs i) lo"
  using assms
proof (induction "n - i" arbitrary: xs i rule: less_induct)
  case less
  let ?m = "pick b n xs i"
  show ?case
  proof (cases "?m = i")
    case True
    then have "\<not> b (xs ! j) (xs ! par j)" if "j < n" "0 < j" "par j = i" for j
      using pick_best [of j n i xs] that by simp
    with True less.prems show ?thesis
      by (subst sift_down.simps) (auto simp: heap_from_def)
  next
    case False
    note m = pick_moves [OF False]
    let ?ys = "xs[i := xs ! ?m, ?m := xs ! i]"
    have len: "i < length xs" "?m < length xs" using less.prems m by auto
    have at: "?ys ! j = (if j = ?m then xs ! i else if j = i then xs ! ?m else xs ! j)" for j
      using len by (cases "j < length xs") (auto simp: nth_list_update)
    have mi: "?m \<noteq> i" using False .
    have "heap_from b n (sift_down b n ?ys ?m) lo"
    proof (rule less.hyps)
      show "n - ?m < n - i" "n \<le> length ?ys" "?m < n" "lo \<le> ?m"
        using m less.prems by auto
    next
      fix j assume j: "j < n" "0 < j" "lo \<le> par j" "par j \<noteq> ?m"
      show "\<not> b (?ys ! j) (?ys ! par j)"
      proof (cases "par j = i")
        case True
        then have "j \<noteq> i" using j(2) par_less [of j] by auto
        then show ?thesis
          unfolding at True using mi asym [OF m(4)] pick_best [OF j(1,2) True] by simp
      next
        case ne: False
        then have "j \<noteq> ?m" using m(3) by auto
        then show ?thesis
          unfolding at using ne j less.prems(4) [OF j(1-3) ne] less.prems(5) [of ?m] m by auto
      qed
    next
      fix j assume j: "j < n" "0 < j" "par j = ?m" "0 < ?m" "lo \<le> par ?m"
      then have "j \<noteq> ?m" "j \<noteq> i" using m(1) par_less [of j] by auto
      moreover have "\<not> b (xs ! j) (xs ! ?m)"
        using less.prems(4) [of j] j m by auto
      ultimately show "\<not> b (?ys ! j) (?ys ! par ?m)"
        unfolding at m(3) using mi by simp
    qed
    with False show ?thesis by (subst sift_down.simps) (simp add: Let_def)
  qed
qed

lemma sift_up_heap:
  assumes "i < length xs"
    and "\<And>j. j < length xs \<Longrightarrow> 0 < j \<Longrightarrow> j \<noteq> i \<Longrightarrow> \<not> b (xs ! j) (xs ! par j)"
    and "\<And>j. j < length xs \<Longrightarrow> 0 < j \<Longrightarrow> par j = i \<Longrightarrow> 0 < i \<Longrightarrow> \<not> b (xs ! j) (xs ! par i)"
  shows "heap_from b (length xs) (sift_up b xs i) 0"
  using assms
proof (induction i arbitrary: xs rule: less_induct)
  case (less i)
  show ?case
  proof (cases "i = 0 \<or> \<not> b (xs ! i) (xs ! par i)")
    case True
    then have "\<not> b (xs ! j) (xs ! par j)" if "j < length xs" "0 < j" for j
      using less.prems(2) [of j] that by (cases "j = i") auto
    with True show ?thesis by (subst sift_up.simps) (auto simp: heap_from_def)
  next
    case False
    let ?p = "par i"
    let ?ys = "xs[?p := xs ! i, i := xs ! ?p]"
    have p: "?p < i" "0 < i" "?p < length xs" and bi: "b (xs ! i) (xs ! ?p)"
      using False less.prems(1) par_less [of i] by auto
    have at: "?ys ! j = (if j = i then xs ! ?p else if j = ?p then xs ! i else xs ! j)" for j
      using p less.prems(1) by (cases "j < length xs") (auto simp: nth_list_update)
    have "heap_from b (length ?ys) (sift_up b ?ys ?p) 0"
    proof (rule less.IH)
      show "?p < i" "?p < length ?ys" using p by auto
    next
      fix j assume j: "j < length ?ys" "0 < j" "j \<noteq> ?p"
      show "\<not> b (?ys ! j) (?ys ! par j)"
      proof (cases "j = i")
        case True
        then show ?thesis unfolding at using p asym [OF bi] by simp
      next
        case ne: False
        have "\<not> b (xs ! j) (xs ! i)" if "par j = ?p"
          using less.prems(2) [of j] j ne that asym [OF bi] neg_trans by auto
        with ne j less.prems(2) [of j] less.prems(3) [of j] p show ?thesis
          unfolding at by auto
      qed
    next
      fix j assume j: "j < length ?ys" "0 < j" "par j = ?p" "0 < ?p"
      have pp: "par ?p \<noteq> i" "par ?p \<noteq> ?p" using par_less [of ?p] j(4) p by auto
      have up: "\<not> b (xs ! ?p) (xs ! par ?p)" using less.prems(2) [of ?p] p j by auto
      have "j \<noteq> ?p" using par_less [of j] j by auto
      moreover have "\<not> b (xs ! j) (xs ! par ?p)" if "j \<noteq> i"
        using less.prems(2) [of j] j that up neg_trans by auto
      ultimately show "\<not> b (?ys ! j) (?ys ! par ?p)"
        unfolding at using pp up by auto
    qed
    with False show ?thesis by (subst sift_up.simps) simp
  qed
qed

lemma heap_root:
  assumes "heap_from b n xs 0" "i < n"
  shows "\<not> b (xs ! i) (xs ! 0)"
  using assms(2)
proof (induction i rule: less_induct)
  case (less i)
  show ?case
  proof (cases "i = 0")
    case True
    then show ?thesis by (simp add: irrefl)
  next
    case False
    then have "\<not> b (xs ! par i) (xs ! 0)" using less par_less [of i] by auto
    moreover have "\<not> b (xs ! i) (xs ! par i)" using assms(1) less.prems False by (auto simp: heap_from_def)
    ultimately show ?thesis using neg_trans by blast
  qed
qed

text \<open>Putting any element at the root of a heap and sifting it down gives a heap again.\<close>

lemma sift_root_heap:
  assumes "heap_from b n xs 0" "n \<le> length xs" "0 < n"
  shows "heap_from b n (sift_down b n (xs[0 := x]) 0) 0"
proof (rule sift_down_heap)
  fix j assume "j < n" "0 < j" "par j \<noteq> 0"
  then show "\<not> b (xs[0 := x] ! j) (xs[0 := x] ! par j)"
    using assms(1) by (auto simp: heap_from_def)
qed (use assms in auto)

text \<open>Appending an element to a heap and sifting it up gives a heap again.\<close>

lemma sift_last_heap:
  assumes "heap_from b (length xs) xs 0"
  shows "heap_from b (length xs + 1) (sift_up b (xs @ [x]) (length xs)) 0"
proof -
  have "heap_from b (length (xs @ [x])) (sift_up b (xs @ [x]) (length xs)) 0"
  proof (rule sift_up_heap)
    fix j assume "j < length (xs @ [x])" "0 < j" "j \<noteq> length xs"
    then show "\<not> b ((xs @ [x]) ! j) ((xs @ [x]) ! par j)"
      using assms par_less [of j] by (auto simp: heap_from_def nth_append)
  next
    fix j assume "j < length (xs @ [x])" "0 < j" "par j = length xs"
    then show "\<not> b ((xs @ [x]) ! j) ((xs @ [x]) ! par (length xs))"
      using par_less [of j] by auto
  qed simp
  then show ?thesis by simp
qed

end

section \<open>Min- and max-heaps over a key\<close>

datatype heapOrder = MIN_HEAP | MAX_HEAP

fun key_before :: "heapOrder \<Rightarrow> ('a \<Rightarrow> 'k::linorder) \<Rightarrow> 'a \<Rightarrow> 'a \<Rightarrow> bool" where
  "key_before MIN_HEAP key x y \<longleftrightarrow> key x < key y"
| "key_before MAX_HEAP key x y \<longleftrightarrow> key y < key x"

interpretation kb: heap_order "key_before ho key"
  by standard (cases ho; auto)+

section \<open>Heaps ordered by a key\<close>

definition heap_ordered :: "heapOrder \<Rightarrow> ('a \<Rightarrow> 'k::linorder) \<Rightarrow> 'a list \<Rightarrow> bool" where
  "heap_ordered ho key xs \<longleftrightarrow> heap_from (key_before ho key) (length xs) xs 0"

lemma heap_ordered_butlast: "heap_ordered ho key (zs @ [l]) \<Longrightarrow> heap_ordered ho key zs"
proof -
  assume ord: "heap_ordered ho key (zs @ [l])"
  have "\<not> key_before ho key (zs ! i) (zs ! par i)" if "i < length zs" "0 < i" for i
  proof -
    have "\<not> key_before ho key ((zs @ [l]) ! i) ((zs @ [l]) ! par i)"
      using ord that by (auto simp: heap_ordered_def heap_from_def)
    with that par_less [of i] show ?thesis by (simp add: nth_append)
  qed
  then show ?thesis by (simp add: heap_ordered_def heap_from_def)
qed

lemma heap_ordered_root:
  assumes "heap_ordered ho key xs" and "x \<in> set xs"
  shows "\<not> key_before ho key x (xs ! 0)"
proof -
  from assms(2) obtain i where "i < length xs" "x = xs ! i"
    unfolding in_set_conv_nth by blast
  then show ?thesis
    using kb.heap_root [of ho key "length xs" xs i] assms(1) by (simp add: heap_ordered_def)
qed

lemma key_before_cong:
  "key a = key' a \<Longrightarrow> key c = key' c \<Longrightarrow> key_before ho key a c = key_before ho key' a c"
  by (cases ho) simp_all

text \<open>After the key of the node at \<open>i\<close> changed, the order can only be violated next to it.\<close>

lemma priochange_local:
  fixes key key0 :: "'a \<Rightarrow> 'k::linorder"
  assumes ord: "heap_ordered ho key0 xs" and d: "distinct xs" and i: "i < length xs"
    and same: "\<forall>a. a \<noteq> xs ! i \<longrightarrow> key a = key0 a"
  defines "b \<equiv> key_before ho key"
  shows "\<And>j. j < length xs \<Longrightarrow> 0 < j \<Longrightarrow> j \<noteq> i \<Longrightarrow> par j \<noteq> i \<Longrightarrow> \<not> b (xs ! j) (xs ! par j)"
    and "\<And>j. j < length xs \<Longrightarrow> 0 < j \<Longrightarrow> par j = i \<Longrightarrow> 0 < i \<Longrightarrow> \<not> b (xs ! j) (xs ! par i)"
proof -
  have ne: "key (xs ! j) = key0 (xs ! j)" if "j < length xs" "j \<noteq> i" for j
    using same that d i by (simp add: nth_eq_iff_index_eq)
  have old: "\<not> key_before ho key0 (xs ! j) (xs ! par j)" if "j < length xs" "0 < j" for j
    using ord that by (auto simp: heap_ordered_def heap_from_def)
  fix j assume j: "j < length xs" "0 < j"
  have pj: "par j < length xs" "par j < j" using par_less [of j] j by auto
  show "\<not> b (xs ! j) (xs ! par j)" if "j \<noteq> i" "par j \<noteq> i"
    using old [OF j] ne [of j] ne [of "par j"] j pj that
    by (simp add: b_def key_before_cong [of key _ key0])
  show "\<not> b (xs ! j) (xs ! par i)" if "par j = i" "0 < i"
  proof -
    have "\<not> key_before ho key0 (xs ! j) (xs ! par i)"
      using kb.neg_trans [of ho key0 "xs ! j" "xs ! i" "xs ! par i"] old [OF j] old [OF i that(2)] that by simp
    moreover have "par i < i" "j \<noteq> i" using par_less that pj by auto
    ultimately show ?thesis
      using ne [of j] ne [of "par i"] j i by (simp add: b_def key_before_cong [of key _ key0])
  qed
qed

lemma prio_restores:
  fixes key key0 :: "'a \<Rightarrow> 'k::linorder"
  assumes old: "heap_ordered ho key0 xs" and d: "distinct xs" and i: "i < length xs"
    and same: "\<forall>a. a \<noteq> xs ! i \<longrightarrow> key a = key0 a"
  defines "b \<equiv> key_before ho key"
  shows "i = 0 \<or> \<not> b (xs ! i) (xs ! par i) \<Longrightarrow> heap_ordered ho key (sift_down b (length xs) xs i)"
    and "i \<noteq> 0 \<Longrightarrow> b (xs ! i) (xs ! par i) \<Longrightarrow> heap_ordered ho key (sift_up b xs i)"
    and "i \<noteq> 0 \<Longrightarrow> \<not> b (xs ! i) (xs ! par i) \<Longrightarrow> \<not> b (xs ! par i) (xs ! i) \<Longrightarrow> heap_ordered ho key xs"
proof -
  note loc = priochange_local [OF old d i same, folded b_def]
  have child: "\<not> b (xs ! j) (xs ! i)" if "j < length xs" "0 < j" "par j = i" "0 < i" "\<not> b (xs ! par i) (xs ! i)" for j
    using kb.neg_trans [of ho key "xs ! j" "xs ! par i" "xs ! i"] loc(2) [OF that(1-4)] that(5) by (simp add: b_def)
  show "heap_ordered ho key (sift_down b (length xs) xs i)" if "i = 0 \<or> \<not> b (xs ! i) (xs ! par i)"
    unfolding heap_ordered_def length_sift_down b_def
  proof (rule kb.sift_down_heap, fold b_def)
    fix j assume "j < length xs" "0 < j" "par j \<noteq> i"
    then show "\<not> b (xs ! j) (xs ! par j)" using loc(1) [of j] that by (cases "j = i") auto
  qed (use loc(2) i in auto)
  show "heap_ordered ho key (sift_up b xs i)" if up: "i \<noteq> 0" "b (xs ! i) (xs ! par i)"
    unfolding heap_ordered_def length_sift_up b_def
  proof (rule kb.sift_up_heap, fold b_def)
    fix j assume "j < length xs" "0 < j" "j \<noteq> i"
    then show "\<not> b (xs ! j) (xs ! par j)"
      using loc(1) [of j] child [of j] kb.asym [of ho key] up by (cases "par j = i") (auto simp: b_def)
  qed (use loc(2) i in auto)
  show "heap_ordered ho key xs" if "i \<noteq> 0" "\<not> b (xs ! i) (xs ! par i)" "\<not> b (xs ! par i) (xs ! i)"
    using loc(1) child that unfolding heap_ordered_def heap_from_def b_def [symmetric] by (metis gr0I)
qed

section \<open>Priority queues\<close>

text \<open>
  The contract of a priority queue: \<open>before x y\<close> says that \<open>x\<close> has to leave before \<open>y\<close>. A pop
  returns an element nothing has to leave before; a push adds one element or reports an error
  and changes nothing. A client that pops until the queue is empty gets the contents sorted.
\<close>

locale pqueue =
  fixes repr :: "'s \<Rightarrow> 'a multiset \<Rightarrow> bool"
    and before :: "'a \<Rightarrow> 'a \<Rightarrow> bool"
    and usable :: "'s \<Rightarrow> 'a \<Rightarrow> bool"
    and push :: "'s \<Rightarrow> 'a \<Rightarrow> (ErrorCode \<times> 's) res"
    and pop :: "'s \<Rightarrow> ('a \<times> 's) res"
  assumes pop_first: "repr s M \<Longrightarrow> M \<noteq> {#} \<Longrightarrow>
            \<exists>a s'. pop s = Inr (a, s') \<and> a \<in># M \<and> (\<forall>x. x \<in># M \<longrightarrow> \<not> before x a) \<and> repr s' (M - {#a#})"
    and push_adds: "repr s M \<Longrightarrow> usable s a \<Longrightarrow> a \<notin># M \<Longrightarrow>
            \<exists>rc s'. push s a = Inr (rc, s') \<and>
              (if rc = ERRORCODE_SUCCESS then repr s' (add_mset a M) else s' = s)"
begin

lemma drain_sorted:
  "repr s M \<Longrightarrow> \<exists>xs s'. drainE (\<lambda>s. bindE (pop s) (\<lambda>(a, s). Inr (Some a, s))) (size M) s = Inr (xs, s') \<and>
     mset xs = M \<and> sorted_wrt (\<lambda>x y. \<not> before y x) xs \<and> repr s' {#}"
proof (induction "size M" arbitrary: s M)
  case 0
  then show ?case by auto
next
  case (Suc n)
  then have "M \<noteq> {#}" by auto
  then obtain a s1 where a: "pop s = Inr (a, s1)" "a \<in># M" "\<forall>x. x \<in># M \<longrightarrow> \<not> before x a"
      "repr s1 (M - {#a#})"
    using pop_first [OF Suc.prems] by blast
  have "n = size (M - {#a#})" using Suc.hyps(2) a(2) by (simp add: size_Diff_singleton)
  then obtain xs s2 where xs: "drainE (\<lambda>s. bindE (pop s) (\<lambda>(a, s). Inr (Some a, s))) n s1 = Inr (xs, s2)"
      "mset xs = M - {#a#}" "sorted_wrt (\<lambda>x y. \<not> before y x) xs" "repr s2 {#}"
    using Suc.hyps(1) a(4) by metis
  have "mset (a # xs) = M" using xs(2) a(2) by simp
  moreover have "\<not> before x a" if "x \<in> set xs" for x
    using a(3) that xs(2) by (metis in_diffD set_mset_mset)
  ultimately show ?case
    using Suc.hyps(2) a(1) xs by (intro exI [of _ "a # xs"] exI [of _ s2]) (simp flip: Suc.hyps(2))
qed

lemma push_drain_sorted:
  assumes "repr s M" and "usable s a" and "a \<notin># M" and "push s a = Inr (ERRORCODE_SUCCESS, s1)"
  shows "\<exists>xs s'. drainE (\<lambda>s. bindE (pop s) (\<lambda>(a, s). Inr (Some a, s))) (size M + 1) s1 = Inr (xs, s') \<and>
     mset xs = add_mset a M \<and> sorted_wrt (\<lambda>x y. \<not> before y x) xs \<and> repr s' {#}"
  using push_adds [OF assms(1-3)] assms(4) drain_sorted [of s1 "add_mset a M"] by auto

end

end
