(* ===== verification/Heap_Implicit.thy ===== *)
theory Heap_Implicit
  imports Heap_Order Vector
begin

text \<open>
  The array-based priority queue of \<open>src/mods/heap/implicit.c\<close>, on the model of the vector it
  stores its node pointers in. Each node records its position in the array (\<open>hn_idx\<close>), which
  removal and priority changes start from. Index arithmetic is that of \<open>size_t\<close>:
  \<open>parent 0\<close> wraps around to a huge index. The bubbling loops are shown to compute the list
  functions of \<open>Heap_Order\<close>, from which the heap order, the multiset of nodes and the
  recorded positions follow.
\<close>

section \<open>Data\<close>

record heapnode =
  hn_idx :: nat

record heap =
  h_type :: heapOrder
  h_cmp :: "addr comparator"
  h_v :: "addr vector option"
  h_dtor :: "heapnode dtor option"

type_synonym heap_state = "heapnode store \<times> heap"

definition PTR_SIZE :: nat where
  "PTR_SIZE = 8"

section \<open>Index arithmetic\<close>

definition parent :: "nat \<Rightarrow> nat" where
  "parent i = (i + (SZ - 1)) mod SZ div 2"

definition left :: "nat \<Rightarrow> nat" where
  "left i = (i * 2 mod SZ + 1) mod SZ"

definition right :: "nat \<Rightarrow> nat" where
  "right i = (i * 2 mod SZ + 2) mod SZ"

definition has_parent :: "nat \<Rightarrow> bool" where
  "has_parent i \<longleftrightarrow> i > 0"

definition has_left :: "nat \<Rightarrow> nat \<Rightarrow> bool" where
  "has_left i heaplen \<longleftrightarrow> left i < heaplen"

definition has_right :: "nat \<Rightarrow> nat \<Rightarrow> bool" where
  "has_right i heaplen \<longleftrightarrow> right i < heaplen"

definition isroot :: "nat \<Rightarrow> bool" where
  "isroot i \<longleftrightarrow> i = 0"

section \<open>Operations\<close>

text \<open>The calls into the vector when \<open>h->v\<close> is NULL: the templates throw, \<open>Vect_count\<close> asserts.\<close>

definition heap_vec :: "heap \<Rightarrow> fault \<Rightarrow> addr vector res" where
  "heap_vec h flt = (case h_v h of None \<Rightarrow> Inl flt | Some v \<Rightarrow> Inr v)"

definition heap_get :: "heap \<Rightarrow> nat \<Rightarrow> addr res" where
  "heap_get h i = bindE (heap_vec h (Throw ERROR_BADPOINTER)) (\<lambda>v. Vect_get v i)"

definition heap_set :: "heap \<Rightarrow> nat \<Rightarrow> addr \<Rightarrow> heap res" where
  "heap_set h i x =
     bindE (heap_vec h (Throw ERROR_BADPOINTER)) (\<lambda>v. bindE (Vect_set v i x) (\<lambda>v. Inr (h\<lparr>h_v := Some v\<rparr>)))"

definition heap_popb :: "heap \<Rightarrow> (addr \<times> heap) res" where
  "heap_popb h =
     bindE (heap_vec h (Throw ERROR_BADPOINTER)) (\<lambda>v.
     bindE (Vect_popb PTR_SIZE v) (\<lambda>(x, v). Inr (x, h\<lparr>h_v := Some v\<rparr>)))"

definition set_idx :: "heapnode store \<Rightarrow> addr \<Rightarrow> nat \<Rightarrow> heapnode store res" where
  "set_idx s a i = update s (Some a) (\<lambda>n. n\<lparr>hn_idx := i\<rparr>)"

definition Heap_init :: "heapOrder \<Rightarrow> addr comparator \<Rightarrow> heapnode dtor option \<Rightarrow> heap" where
  "Heap_init ho cmp dtor = \<lparr>h_type = ho, h_cmp = cmp, h_v = Vect_new PTR_SIZE 0, h_dtor = dtor\<rparr>"

definition Heap_new :: "heapOrder \<Rightarrow> addr comparator \<Rightarrow> heapnode dtor option \<Rightarrow> heap" where
  "Heap_new ho cmp dtor = Heap_init ho cmp dtor"

definition Heap_count :: "heap \<Rightarrow> nat res" where
  "Heap_count h = bindE (heap_vec h AssertFail) (\<lambda>v. Inr (Vect_count v))"

definition Heap_empty :: "heap \<Rightarrow> bool res" where
  "Heap_empty h = bindE (Heap_count h) (\<lambda>n. Inr (n = 0))"

text \<open>The predicate of the bubbling macros: \<open>lt\<close> for a min-heap, \<open>gt\<close> for a max-heap.\<close>

fun heap_pred :: "heapOrder \<Rightarrow> addr \<Rightarrow> addr \<Rightarrow> addr comparator \<Rightarrow> bool" where
  "heap_pred MIN_HEAP a b cmp = lt a b cmp"
| "heap_pred MAX_HEAP a b cmp = gt a b cmp"

fun swap_down_while_unordered ::
    "nat \<Rightarrow> heapnode store \<Rightarrow> heap \<Rightarrow> nat \<Rightarrow> nat \<Rightarrow> nat \<Rightarrow> heap_state res" where
  "swap_down_while_unordered 0 s h heapsz last_pi pi = Inl OutOfFuel"
| "swap_down_while_unordered (Suc fuel) s h heapsz last_pi pi =
     (if \<not> pi \<le> last_pi then Inr (s, h)
      else
        bindE (heap_get h pi) (\<lambda>p.
        bindE (if has_left pi heapsz
               then bindE (heap_get h (left pi)) (\<lambda>l.
                    Inr (if heap_pred (h_type h) l p (h_cmp h) then (l, left pi) else (p, pi)))
               else Inr (p, pi)) (\<lambda>(m, mi).
        bindE (if has_right pi heapsz
               then bindE (heap_get h (right pi)) (\<lambda>r.
                    Inr (if heap_pred (h_type h) r m (h_cmp h) then (r, right pi) else (m, mi)))
               else Inr (m, mi)) (\<lambda>(m, mi).
        if p = m then bindE (assertE (pi = mi)) (\<lambda>_. Inr (s, h))
        else
          bindE (assertE (pi \<noteq> mi)) (\<lambda>_.
          bindE (heap_set h pi m) (\<lambda>h.
          bindE (heap_set h mi p) (\<lambda>h.
          bindE (set_idx s p mi) (\<lambda>s.
          bindE (set_idx s m pi) (\<lambda>s.
          swap_down_while_unordered fuel s h heapsz last_pi mi)))))))))"

lemma parent_less: "0 < i \<Longrightarrow> parent i < i"
proof -
  assume "0 < i"
  then have "i + (SZ - 1) = (i - 1) + SZ" by (simp add: SZ_num)
  then have "(i + (SZ - 1)) mod SZ \<le> i - 1" by simp
  then have "parent i \<le> (i - 1) div 2" unfolding parent_def by (rule div_le_mono)
  with \<open>0 < i\<close> show ?thesis by linarith
qed

function swap_up_while_unordered :: "heapnode store \<Rightarrow> heap \<Rightarrow> nat \<Rightarrow> heap_state res" where
  "swap_up_while_unordered s h ci =
     (if \<not> has_parent ci then Inr (s, h)
      else
        let pi = parent ci in
        bindE (heap_get h pi) (\<lambda>p.
        bindE (heap_get h ci) (\<lambda>c.
        if \<not> heap_pred (h_type h) c p (h_cmp h) then Inr (s, h)
        else
          bindE (heap_set h pi c) (\<lambda>h.
          bindE (heap_set h ci p) (\<lambda>h.
          bindE (set_idx s c pi) (\<lambda>s.
          bindE (set_idx s p ci) (\<lambda>s.
          swap_up_while_unordered s h pi)))))))"
  by pat_completeness auto
termination
  by (relation "measure (\<lambda>(s, h, ci). ci)") (auto simp: has_parent_def parent_less)

declare swap_up_while_unordered.simps [simp del]

text \<open>One round per level would do; as many rounds as there are nodes is more than enough.\<close>

definition bubble_down :: "heapnode store \<Rightarrow> heap \<Rightarrow> nat \<Rightarrow> heap_state res" where
  "bubble_down s h index =
     bindE (Heap_empty h) (\<lambda>e.
     if e then Inr (s, h)
     else bindE (Heap_count h) (\<lambda>heapsz.
          swap_down_while_unordered (heapsz + 1) s h heapsz (parent ((heapsz + (SZ - 1)) mod SZ)) index))"

definition bubble_up :: "heapnode store \<Rightarrow> heap \<Rightarrow> nat \<Rightarrow> heap_state res" where
  "bubble_up s h index =
     bindE (Heap_empty h) (\<lambda>e. if e then Inr (s, h) else swap_up_while_unordered s h index)"

definition Heap_get_root :: "heap \<Rightarrow> ptr res" where
  "Heap_get_root h =
     bindE (heap_vec h NullDeref) (\<lambda>v.
     if Vect_isempty v then Inr NULL else bindE (Vect_front v) (\<lambda>a. Inr (Some a)))"

definition Heap_pop_root :: "heapnode store \<Rightarrow> heap \<Rightarrow> (addr \<times> heap_state) res" where
  "Heap_pop_root s h =
     bindE (bindE (heap_vec h (Throw ERROR_BADPOINTER)) Vect_front) (\<lambda>top.
     bindE (heap_popb h) (\<lambda>(last, h).
     if top = last then Inr (top, s, h)
     else
       bindE (heap_set h 0 last) (\<lambda>h.
       bindE (bubble_down s h 0) (\<lambda>(s, h).
       Inr (top, s, h)))))"

definition Heap_push_node :: "heapnode store \<Rightarrow> heap \<Rightarrow> ptr \<Rightarrow> (ErrorCode \<times> heap_state) res" where
  "Heap_push_node s h node =
     (case node of
        None \<Rightarrow> Inl AssertFail
      | Some a \<Rightarrow>
          bindE (heap_vec h (Throw ERROR_BADPOINTER)) (\<lambda>v.
          bindE (Vect_pushb PTR_SIZE v a) (\<lambda>(rc, v).
          let h = h\<lparr>h_v := Some v\<rparr> in
          if rc = ERRORCODE_SUCCESS then
            bindE (set_idx s a (Vect_count v - 1)) (\<lambda>s.
            bindE (Heap_count h) (\<lambda>n.
            bindE (bubble_up s h (n - 1)) (\<lambda>(s, h).
            Inr (rc, s, h))))
          else Inr (rc, s, h))))"

fun heap_free_all :: "heapnode dtor \<Rightarrow> heapnode store \<Rightarrow> addr vector \<Rightarrow> nat \<Rightarrow> nat \<Rightarrow> heapnode store res" where
  "heap_free_all d s v i 0 = Inr s"
| "heap_free_all d s v i (Suc k) =
     bindE (slot_get (v_bytes v) i) (\<lambda>a. bindE (d s a) (\<lambda>s. heap_free_all d s v (i + 1) k))"

definition Heap_clear :: "heapnode store \<Rightarrow> heap \<Rightarrow> bool \<Rightarrow> heap_state res" where
  "Heap_clear s h free_containers =
     bindE (if free_containers
            then (case h_dtor h of
                    None \<Rightarrow> Inl (Throw ERROR_MISCONFIGURED)
                  | Some d \<Rightarrow>
                      bindE (heap_vec h (Throw ERROR_BADPOINTER)) (\<lambda>v.
                      heap_free_all d s v (Vect_begin v) (Vect_end v - Vect_begin v)))
            else Inr s) (\<lambda>s.
     bindE (heap_vec h NullDeref) (\<lambda>v.
     Inr (s, h\<lparr>h_v := Vect_destroy v\<rparr>)))"

definition Heap_destroy :: "heapnode store \<Rightarrow> heap \<Rightarrow> bool \<Rightarrow> (heapnode store \<times> heap option) res" where
  "Heap_destroy s h free_containers =
     bindE (heap_vec h AssertFail) (\<lambda>_.
     bindE (Heap_clear s h free_containers) (\<lambda>(s, h). Inr (s, None)))"

definition Heap_remove_node :: "heapnode store \<Rightarrow> heap \<Rightarrow> ptr \<Rightarrow> bool \<Rightarrow> heap_state res" where
  "Heap_remove_node s h node free_container =
     bindE (assertE (node \<noteq> NULL)) (\<lambda>_.
     bindE (load s node) (\<lambda>n.
     let index = hn_idx n in
     bindE (if isroot index then bindE (Heap_pop_root s h) (\<lambda>(_, st). Inr st)
            else
              bindE (bindE (heap_vec h (Throw ERROR_BADPOINTER)) Vect_back) (\<lambda>back.
              bindE (heap_set h index back) (\<lambda>h.
              bindE (heap_popb h) (\<lambda>(_, h).
              bubble_down s h index)))) (\<lambda>(s, h).
     if free_container
     then (case h_dtor h of
             None \<Rightarrow> Inl (Throw ERROR_MISCONFIGURED)
           | Some d \<Rightarrow> bindE (d s (the node)) (\<lambda>s. Inr (s, h)))
     else Inr (s, h))))"

definition Heap_priochange :: "heapnode store \<Rightarrow> heap \<Rightarrow> ptr \<Rightarrow> heap_state res" where
  "Heap_priochange s h node =
     bindE (assertE (node \<noteq> NULL)) (\<lambda>_.
     bindE (load s node) (\<lambda>n.
     let index = hn_idx n in
     bindE (if has_parent index
            then bindE (heap_get h (parent index)) (\<lambda>p. Inr (h_cmp h (the node) p))
            else Inr (case h_type h of MIN_HEAP \<Rightarrow> GT | MAX_HEAP \<Rightarrow> LT)) (\<lambda>cmp.
     case h_type h of
       MIN_HEAP \<Rightarrow> (case cmp of EQ \<Rightarrow> Inr (s, h) | LT \<Rightarrow> bubble_up s h index | GT \<Rightarrow> bubble_down s h index)
     | MAX_HEAP \<Rightarrow> (case cmp of EQ \<Rightarrow> Inr (s, h) | LT \<Rightarrow> bubble_down s h index | GT \<Rightarrow> bubble_up s h index))))"

section \<open>What a heap represents\<close>

definition heap_inv :: "heapOrder \<Rightarrow> (addr \<Rightarrow> 'k::linorder) \<Rightarrow> heapnode store \<Rightarrow> heap \<Rightarrow> addr list \<Rightarrow> bool" where
  "heap_inv ho key s h xs \<longleftrightarrow>
     h_type h = ho \<and> orders_by (h_cmp h) key \<and> distinct xs \<and> set xs \<subseteq> dom s \<and>
     (\<exists>v. h_v h = Some v \<and> vect_inv PTR_SIZE v xs)"

definition idx_at :: "heapnode store \<Rightarrow> addr list \<Rightarrow> nat \<Rightarrow> bool" where
  "idx_at s xs j \<longleftrightarrow> (case s (xs ! j) of None \<Rightarrow> False | Some n \<Rightarrow> hn_idx n = j)"

definition idx_ok :: "heapnode store \<Rightarrow> addr list \<Rightarrow> bool" where
  "idx_ok s xs \<longleftrightarrow> (\<forall>j<length xs. idx_at s xs j)"

section \<open>Index arithmetic without wrap-around\<close>

lemma pred_SZ:
  assumes "0 < i" "i < SZ"
  shows "(i + (SZ - 1)) mod SZ = i - 1"
proof -
  have "i + (SZ - 1) = (i - 1) + SZ" using assms by simp
  then show ?thesis using assms by (metis mod_add_self2 mod_less less_imp_diff_less)
qed

lemma parent_par: "0 < i \<Longrightarrow> i < SZ \<Longrightarrow> parent i = par i"
  by (simp only: parent_def par_def pred_SZ)

lemma parent_0: "parent 0 = 2 ^ 63 - 1"
  by (simp add: parent_def SZ_num)

lemma left_right: "i < 2 ^ 62 \<Longrightarrow> left i = 2 * i + 1" "i < 2 ^ 62 \<Longrightarrow> right i = 2 * i + 2"
  by (simp_all add: left_def right_def SZ_num)

lemma vect_inv_length: "vect_inv PTR_SIZE v xs \<Longrightarrow> length xs < 2 ^ 62"
  by (auto simp: vect_inv_def PTR_SIZE_def Vect_maxcap_def TARP_VECTOR_MAX_MEM_def SZ_num)

lemma heap_inv_length: "heap_inv ho key s h xs \<Longrightarrow> length xs < 2 ^ 62"
  by (auto simp: heap_inv_def dest: vect_inv_length)

lemma heap_inv_index:
  assumes "heap_inv ho key s h xs" and "i < length xs"
  shows "left i = 2 * i + 1" "right i = 2 * i + 2" "0 < i \<Longrightarrow> parent i = par i"
proof -
  have "i < 2 ^ 62" using heap_inv_length [OF assms(1)] assms(2) by simp
  then show "left i = 2 * i + 1" "right i = 2 * i + 2" by (simp_all add: left_right)
  show "parent i = par i" if "0 < i" using that \<open>i < 2 ^ 62\<close> by (intro parent_par) (simp_all add: SZ_num)
qed

section \<open>One exchange\<close>

lemma heap_pred_key: "orders_by cmp key \<Longrightarrow> heap_pred ho a b cmp = key_before ho key a b"
  by (cases ho) (simp_all add: orders_by_simps)

lemma heap_get_inv: "heap_inv ho key s h xs \<Longrightarrow> i < length xs \<Longrightarrow> heap_get h i = Inr (xs ! i)"
  by (auto simp: heap_inv_def heap_get_def heap_vec_def Vect_get_inv)

lemma heap_set_two:
  assumes "heap_inv ho key s h xs" "i < length xs" "j < length xs"
  obtains h' v where "heap_set h i x = Inr h'" "heap_set h' j y = Inr (h'\<lparr>h_v := Some v\<rparr>)"
    "vect_inv PTR_SIZE v (xs[i := x, j := y])" "h_type h' = h_type h" "h_cmp h' = h_cmp h" "h_dtor h' = h_dtor h"
proof -
  obtain v where v: "h_v h = Some v" "vect_inv PTR_SIZE v xs" using assms(1) by (auto simp: heap_inv_def)
  obtain v' v'' where "Vect_set v i x = Inr v'" "Vect_set v' j y = Inr v''" "vect_inv PTR_SIZE v'' (xs[i := x, j := y])"
    by (rule vec.set_two [OF v(2) assms(2,3)])
  with v that [of "h\<lparr>h_v := Some v'\<rparr>" v''] show ?thesis by (simp add: heap_set_def heap_vec_def)
qed

lemma idx_ok_swap:
  assumes "distinct xs" "i < length xs" "j < length xs" "i \<noteq> j"
    and "s (xs ! i) = Some ni" "s (xs ! j) = Some nj" "\<forall>k<length xs. k = i \<or> k = j \<or> idx_at s xs k"
  shows "idx_ok (s(xs ! i \<mapsto> ni\<lparr>hn_idx := j\<rparr>, xs ! j \<mapsto> nj\<lparr>hn_idx := i\<rparr>)) (xs[i := xs ! j, j := xs ! i])"
  using assms by (auto simp: idx_ok_def idx_at_def nth_list_update nth_eq_iff_index_eq)

lemma heap_inv_distinct: "heap_inv ho key s h xs \<Longrightarrow> distinct xs"
  by (simp add: heap_inv_def)

lemma heap_swap:
  assumes inv: "heap_inv ho key s h xs" and ij: "i < length xs" "j < length xs" "i \<noteq> j"
  obtains h1 h2 ni nj where
    "heap_set h i (xs ! j) = Inr h1" "heap_set h1 j (xs ! i) = Inr h2"
    "s (xs ! i) = Some ni" "s (xs ! j) = Some nj" "xs ! i \<noteq> xs ! j"
    "heap_inv ho key (s(xs ! i \<mapsto> ni\<lparr>hn_idx := j\<rparr>, xs ! j \<mapsto> nj\<lparr>hn_idx := i\<rparr>)) h2 (xs[i := xs ! j, j := xs ! i])"
    "h_dtor h2 = h_dtor h"
proof -
  obtain h1 v where h1: "heap_set h i (xs ! j) = Inr h1" "heap_set h1 j (xs ! i) = Inr (h1\<lparr>h_v := Some v\<rparr>)"
    "vect_inv PTR_SIZE v (xs[i := xs ! j, j := xs ! i])" "h_type h1 = h_type h" "h_cmp h1 = h_cmp h" "h_dtor h1 = h_dtor h"
    by (rule heap_set_two [OF inv ij(1,2)])
  have "xs ! i \<in> dom s" "xs ! j \<in> dom s" using inv ij by (auto simp only: heap_inv_def intro: subsetD nth_mem)
  then obtain ni nj where n: "s (xs ! i) = Some ni" "s (xs ! j) = Some nj" by auto
  have ne: "xs ! i \<noteq> xs ! j" using inv ij by (simp add: heap_inv_def nth_eq_iff_index_eq)
  have "set (xs[i := xs ! j, j := xs ! i]) = set xs" using ij by (metis mset_swap set_mset_mset)
  moreover have "distinct (xs[i := xs ! j, j := xs ! i])"
    using inv ij by (simp add: heap_inv_def distinct_swap)
  ultimately show ?thesis
    using that [OF h1(1,2) n ne] h1(3-6) inv by (auto simp: heap_inv_def)
qed

section \<open>Bubbling computes sifting\<close>

lemma swap_down_refines:
  assumes "heap_inv ho key s h xs" and "i < length xs" and "length xs - i < fuel"
    and "\<And>j. last_pi < j \<Longrightarrow> j < length xs \<Longrightarrow> length xs \<le> 2 * j + 1"
  shows "\<exists>s' h'. swap_down_while_unordered fuel s h (length xs) last_pi i = Inr (s', h') \<and>
           heap_inv ho key s' h' (sift_down (key_before ho key) (length xs) xs i) \<and>
           frame (set xs) s s' \<and> h_dtor h' = h_dtor h \<and>
           (sift_down (key_before ho key) (length xs) xs i = xs \<and> s' = s \<or>
            ((\<forall>j<length xs. j = i \<or> idx_at s xs j) \<longrightarrow>
              idx_ok s' (sift_down (key_before ho key) (length xs) xs i)))"
  using assms
proof (induction fuel arbitrary: s h xs i)
  case 0
  then show ?case by simp
next
  case (Suc fuel)
  let ?b = "key_before ho key" and ?n = "length xs"
  let ?m = "pick ?b ?n xs i"
  note inv = Suc.prems(1) and i = Suc.prems(2)
  have hp: "heap_pred (h_type h) x y (h_cmp h) = ?b x y" for x y
    using inv heap_pred_key [of "h_cmp h" key] by (simp add: heap_inv_def)
  show ?case
  proof (cases "i \<le> last_pi")
    case False
    then have "?m = i" using Suc.prems(4) [of i] i by (simp add: pick_def pick_left_def)
    then have "sift_down ?b ?n xs i = xs" by (subst sift_down.simps) simp
    with False inv show ?thesis by auto
  next
    case True
    let ?l = "pick_left ?b ?n xs i"
    have l: "(if has_left i ?n
               then bindE (heap_get h (left i)) (\<lambda>l.
                    Inr (if heap_pred (h_type h) l (xs ! i) (h_cmp h) then (l, left i) else (xs ! i, i)))
               else Inr (xs ! i, i)) = Inr (xs ! ?l, ?l)"
      using inv i heap_inv_index(1) [OF inv i]
      by (simp add: has_left_def pick_left_def hp heap_get_inv)
    have r: "(if has_right i ?n
               then bindE (heap_get h (right i)) (\<lambda>r.
                    Inr (if heap_pred (h_type h) r (xs ! ?l) (h_cmp h) then (r, right i) else (xs ! ?l, ?l)))
               else Inr (xs ! ?l, ?l)) = Inr (xs ! ?m, ?m)"
      using inv i heap_inv_index(2) [OF inv i]
      by (simp add: has_right_def pick_def hp heap_get_inv)
    show ?thesis
    proof (cases "?m = i")
      case m: True
      then have "sift_down ?b ?n xs i = xs" by (subst sift_down.simps) simp
      with True m inv i l r show ?thesis by (simp add: heap_get_inv)
    next
      case m: False
      have mn: "i < ?m" "?m < ?n" using pick_cases [of ?b ?n xs i] m by auto
      obtain h1 h2 ni nj where sw: "heap_set h i (xs ! ?m) = Inr h1" "heap_set h1 ?m (xs ! i) = Inr h2"
          "s (xs ! i) = Some ni" "s (xs ! ?m) = Some nj" "xs ! i \<noteq> xs ! ?m"
          "heap_inv ho key (s(xs ! i \<mapsto> ni\<lparr>hn_idx := ?m\<rparr>, xs ! ?m \<mapsto> nj\<lparr>hn_idx := i\<rparr>)) h2
             (xs[i := xs ! ?m, ?m := xs ! i])"
          "h_dtor h2 = h_dtor h"
        using heap_swap [OF inv i mn(2)] mn by (metis less_irrefl)
      let ?s2 = "s(xs ! i \<mapsto> ni\<lparr>hn_idx := ?m\<rparr>, xs ! ?m \<mapsto> nj\<lparr>hn_idx := i\<rparr>)"
      let ?xs2 = "xs[i := xs ! ?m, ?m := xs ! i]"
      have run: "swap_down_while_unordered (Suc fuel) s h ?n last_pi i =
          swap_down_while_unordered fuel ?s2 h2 ?n last_pi ?m"
        using True m sw inv i by (simp add: heap_get_inv l r set_idx_def)
      have down: "sift_down ?b ?n xs i = sift_down ?b ?n ?xs2 ?m"
        using m by (subst sift_down.simps) (simp add: Let_def)
      have idx: "idx_ok ?s2 ?xs2" if "\<forall>j<?n. j = i \<or> idx_at s xs j"
        by (rule idx_ok_swap) (use heap_inv_distinct [OF inv] i mn sw that in auto)
      have eq: "set ?xs2 = set xs" using i mn by (metis mset_swap set_mset_mset)
      have "\<exists>s' h'. swap_down_while_unordered fuel ?s2 h2 (length ?xs2) last_pi ?m = Inr (s', h') \<and>
           heap_inv ho key s' h' (sift_down ?b (length ?xs2) ?xs2 ?m) \<and>
           frame (set ?xs2) ?s2 s' \<and> h_dtor h' = h_dtor h2 \<and>
           (sift_down ?b (length ?xs2) ?xs2 ?m = ?xs2 \<and> s' = ?s2 \<or>
            ((\<forall>j<length ?xs2. j = ?m \<or> idx_at ?s2 ?xs2 j) \<longrightarrow> idx_ok s' (sift_down ?b (length ?xs2) ?xs2 ?m)))"
        by (rule Suc.IH [OF sw(6)]) (use mn Suc.prems in auto)
      then obtain s' h' where fin: "swap_down_while_unordered fuel ?s2 h2 ?n last_pi ?m = Inr (s', h')"
          "heap_inv ho key s' h' (sift_down ?b ?n ?xs2 ?m)" "frame (set xs) ?s2 s'" "h_dtor h' = h_dtor h2"
          "sift_down ?b ?n ?xs2 ?m = ?xs2 \<and> s' = ?s2 \<or>
            ((\<forall>j<?n. j = ?m \<or> idx_at ?s2 ?xs2 j) \<longrightarrow> idx_ok s' (sift_down ?b ?n ?xs2 ?m))"
        unfolding eq by auto
      have "frame (set xs) s ?s2" using sw i mn by (auto simp: frame_def)
      then have "frame (set xs) s s'" using fin(3) by (rule frame_trans) simp
      moreover have "idx_ok s' (sift_down ?b ?n ?xs2 ?m)" if "\<forall>j<?n. j = i \<or> idx_at s xs j"
        using fin(5) idx [OF that] by (auto simp: idx_ok_def)
      ultimately show ?thesis
        unfolding run down using fin sw(7) by auto
    qed
  qed
qed


lemma swap_up_refines:
  assumes "heap_inv ho key s h xs" and "i < length xs"
  shows "\<exists>s' h'. swap_up_while_unordered s h i = Inr (s', h') \<and>
           heap_inv ho key s' h' (sift_up (key_before ho key) xs i) \<and>
           frame (set xs) s s' \<and> h_dtor h' = h_dtor h \<and>
           (idx_ok s xs \<longrightarrow> idx_ok s' (sift_up (key_before ho key) xs i))"
  using assms
proof (induction i arbitrary: s h xs rule: less_induct)
  case (less i)
  let ?b = "key_before ho key" and ?p = "par i"
  note inv = less.prems(1) and i = less.prems(2)
  have hp: "heap_pred (h_type h) x y (h_cmp h) = ?b x y" for x y
    using inv heap_pred_key [of "h_cmp h" key] by (simp add: heap_inv_def)
  show ?case
  proof (cases "i = 0 \<or> \<not> ?b (xs ! i) (xs ! ?p)")
    case True
    then have "sift_up ?b xs i = xs" by (subst sift_up.simps) simp
    moreover have "swap_up_while_unordered s h i = Inr (s, h)"
      using True inv i par_less [of i] heap_inv_index(3) [OF inv i]
      by (subst swap_up_while_unordered.simps) (auto simp: has_parent_def heap_get_inv hp)
    ultimately show ?thesis using less.prems by auto
  next
    case False
    then have p: "?p < i" "0 < i" "?p < length xs" using par_less [of i] i by auto
    obtain h1 h2 ni nj where sw: "heap_set h ?p (xs ! i) = Inr h1" "heap_set h1 i (xs ! ?p) = Inr h2"
        "s (xs ! ?p) = Some ni" "s (xs ! i) = Some nj" "xs ! ?p \<noteq> xs ! i"
        "heap_inv ho key (s(xs ! ?p \<mapsto> ni\<lparr>hn_idx := i\<rparr>, xs ! i \<mapsto> nj\<lparr>hn_idx := ?p\<rparr>)) h2
           (xs[?p := xs ! i, i := xs ! ?p])"
        "h_dtor h2 = h_dtor h"
      using heap_swap [OF inv p(3) i] p(1) by (metis less_irrefl)
    let ?s2 = "s(xs ! ?p \<mapsto> ni\<lparr>hn_idx := i\<rparr>, xs ! i \<mapsto> nj\<lparr>hn_idx := ?p\<rparr>)"
    let ?xs2 = "xs[?p := xs ! i, i := xs ! ?p]"
    have "s(xs ! i \<mapsto> nj\<lparr>hn_idx := ?p\<rparr>, xs ! ?p \<mapsto> ni\<lparr>hn_idx := i\<rparr>) = ?s2"
      using sw(5) by (rule fun_upd_twist [symmetric])
    then have run: "swap_up_while_unordered s h i = swap_up_while_unordered ?s2 h2 ?p"
      using False sw inv i p heap_inv_index(3) [OF inv i]
      by (subst swap_up_while_unordered.simps)
         (simp add: has_parent_def heap_get_inv hp set_idx_def Let_def)
    have up: "sift_up ?b xs i = sift_up ?b ?xs2 ?p"
      using False by (subst sift_up.simps) simp
    have idx: "idx_ok s xs \<Longrightarrow> idx_ok ?s2 ?xs2"
      by (rule idx_ok_swap) (use heap_inv_distinct [OF inv] i p sw in \<open>auto simp: idx_ok_def\<close>)
    have eq: "set ?xs2 = set xs" using i p by (metis mset_swap set_mset_mset)
    have "\<exists>s' h'. swap_up_while_unordered ?s2 h2 ?p = Inr (s', h') \<and>
        heap_inv ho key s' h' (sift_up ?b ?xs2 ?p) \<and> frame (set ?xs2) ?s2 s' \<and> h_dtor h' = h_dtor h2 \<and>
        (idx_ok ?s2 ?xs2 \<longrightarrow> idx_ok s' (sift_up ?b ?xs2 ?p))"
      by (rule less.IH [OF p(1) sw(6)]) (use p in simp)
    then obtain s' h' where fin: "swap_up_while_unordered ?s2 h2 ?p = Inr (s', h')"
        "heap_inv ho key s' h' (sift_up ?b ?xs2 ?p)" "frame (set ?xs2) ?s2 s'" "h_dtor h' = h_dtor h2"
        "idx_ok ?s2 ?xs2 \<longrightarrow> idx_ok s' (sift_up ?b ?xs2 ?p)"
      by blast
    have "frame (set xs) s ?s2" using sw i p by (auto simp: frame_def)
    then have "frame (set xs) s s'" using fin(3) unfolding eq by (rule frame_trans) simp
    then show ?thesis
      unfolding run up using fin sw(7) idx by auto
  qed
qed

lemma heap_inv_count: "heap_inv ho key s h xs \<Longrightarrow> Heap_count h = Inr (length xs)"
  by (auto simp: heap_inv_def Heap_count_def heap_vec_def Vect_count_def vect_inv_count)

lemma last_parent_childless:
  assumes "0 < n" "n < 2 ^ 62" "parent ((n + (SZ - 1)) mod SZ) < j" "j < n"
  shows "n \<le> 2 * j + 1"
proof -
  have eq: "(n + (SZ - 1)) mod SZ = n - 1"
    using assms by (intro pred_SZ) (simp_all add: SZ_num)
  show ?thesis
  proof (cases "n = 1")
    case True
    with assms eq show ?thesis by (simp add: parent_0)
  next
    case False
    then have "parent (n - 1) = par (n - 1)" using assms by (intro parent_par) (simp_all add: SZ_num)
    with assms eq show ?thesis by (simp add: par_def)
  qed
qed

lemma bubble_down_refines:
  assumes inv: "heap_inv ho key s h xs" and i: "i < length xs"
  shows "\<exists>s' h'. bubble_down s h i = Inr (s', h') \<and>
           heap_inv ho key s' h' (sift_down (key_before ho key) (length xs) xs i) \<and>
           frame (set xs) s s' \<and> h_dtor h' = h_dtor h \<and>
           (sift_down (key_before ho key) (length xs) xs i = xs \<and> s' = s \<or>
            ((\<forall>j<length xs. j = i \<or> idx_at s xs j) \<longrightarrow>
              idx_ok s' (sift_down (key_before ho key) (length xs) xs i)))"
proof -
  let ?l = "parent ((length xs + (SZ - 1)) mod SZ)"
  have "bubble_down s h i = swap_down_while_unordered (length xs + 1) s h (length xs) ?l i"
    using i by (auto simp: bubble_down_def Heap_empty_def heap_inv_count [OF inv])
  moreover have "length xs \<le> 2 * j + 1" if "?l < j" "j < length xs" for j
    using last_parent_childless that heap_inv_length [OF inv] i by (metis gr_zeroI less_nat_zero_code)
  ultimately show ?thesis
    using swap_down_refines [OF inv i, of "length xs + 1" ?l] by simp
qed

lemma bubble_up_refines:
  assumes inv: "heap_inv ho key s h xs" and i: "i < length xs"
  shows "\<exists>s' h'. bubble_up s h i = Inr (s', h') \<and>
           heap_inv ho key s' h' (sift_up (key_before ho key) xs i) \<and>
           frame (set xs) s s' \<and> h_dtor h' = h_dtor h \<and>
           (idx_ok s xs \<longrightarrow> idx_ok s' (sift_up (key_before ho key) xs i))"
  using swap_up_refines [OF assms] i by (auto simp: bubble_up_def Heap_empty_def heap_inv_count [OF inv])

section \<open>Push, pop and priority change\<close>

lemma idx_ok_append:
  "idx_ok s (xs @ [a]) \<longleftrightarrow> idx_ok s xs \<and> (\<exists>n. s a = Some n \<and> hn_idx n = length xs)"
proof -
  have "idx_at s (xs @ [a]) j = idx_at s xs j" if "j < length xs" for j
    using that by (simp add: idx_at_def nth_append)
  moreover have "idx_at s (xs @ [a]) (length xs) \<longleftrightarrow> (\<exists>n. s a = Some n \<and> hn_idx n = length xs)"
    by (simp add: idx_at_def split: option.splits)
  ultimately show ?thesis by (auto simp: idx_ok_def All_less_Suc)
qed

lemma idx_ok_upd: "a \<notin> set xs \<Longrightarrow> idx_ok (s(a := v)) xs = idx_ok s xs"
proof -
  assume a: "a \<notin> set xs"
  have "idx_at (s(a := v)) xs j = idx_at s xs j" if "j < length xs" for j
    using a nth_mem [OF that] by (auto simp: idx_at_def)
  then show ?thesis by (simp add: idx_ok_def)
qed

lemma Heap_push_room:
  assumes inv: "heap_inv ho key s h xs" and ord: "heap_ordered ho key xs"
    and a: "s a = Some n" "a \<notin> set xs" and room: "h_v h = Some v" "vect_room v"
  shows "\<exists>s' h' ys. Heap_push_node s h (Some a) = Inr (ERRORCODE_SUCCESS, s', h') \<and>
           heap_inv ho key s' h' ys \<and> heap_ordered ho key ys \<and> mset ys = add_mset a (mset xs) \<and>
           (idx_ok s xs \<longrightarrow> idx_ok s' ys) \<and> frame (insert a (set xs)) s s' \<and> h_dtor h' = h_dtor h"
proof -
  have "vect_inv PTR_SIZE v xs" using inv room by (auto simp: heap_inv_def)
  from vec.push_ok [OF this room(2)]
  obtain v' where v': "Vect_pushb PTR_SIZE v a = Inr (ERRORCODE_SUCCESS, v')" "vect_inv PTR_SIZE v' (xs @ [a])"
    by blast
  let ?s1 = "s(a \<mapsto> n\<lparr>hn_idx := length xs\<rparr>)" and ?h1 = "h\<lparr>h_v := Some v'\<rparr>"
  have inv1: "heap_inv ho key ?s1 ?h1 (xs @ [a])"
    using inv a v'(2) by (auto simp: heap_inv_def)
  let ?ys = "sift_up (key_before ho key) (xs @ [a]) (length xs)"
  have "\<exists>s' h'. bubble_up ?s1 ?h1 (length xs) = Inr (s', h') \<and> heap_inv ho key s' h' ?ys \<and>
      frame (set (xs @ [a])) ?s1 s' \<and> h_dtor h' = h_dtor ?h1 \<and> (idx_ok ?s1 (xs @ [a]) \<longrightarrow> idx_ok s' ?ys)"
    using bubble_up_refines [OF inv1, of "length xs"] by simp
  then obtain s' h' where up: "bubble_up ?s1 ?h1 (length xs) = Inr (s', h')" "heap_inv ho key s' h' ?ys"
      "frame (set (xs @ [a])) ?s1 s'" "h_dtor h' = h_dtor ?h1" "idx_ok ?s1 (xs @ [a]) \<longrightarrow> idx_ok s' ?ys"
    by blast
  have "heap_ordered ho key ?ys"
    using kb.sift_last_heap [of ho key xs a] ord by (simp add: heap_ordered_def)
  moreover have "mset ?ys = add_mset a (mset xs)" by (simp add: mset_sift_up)
  moreover have "Heap_push_node s h (Some a) = Inr (ERRORCODE_SUCCESS, s', h')"
    using v' room(1) a(1) up(1) heap_inv_count [OF inv1]
    by (simp add: Heap_push_node_def heap_vec_def set_idx_def Vect_count_def vect_inv_count)
  moreover have "idx_ok ?s1 (xs @ [a]) = idx_ok s xs"
    using a by (auto simp: idx_ok_append idx_ok_upd)
  moreover have "frame (insert a (set xs)) s s'"
    using up(3) a(1) by (auto simp: frame_def)
  ultimately show ?thesis using up by auto
qed

lemma Heap_push_full:
  assumes "heap_inv ho key s h xs" and "h_v h = Some v" and "\<not> vect_room v"
  shows "Heap_push_node s h (Some a) = Inr (ERROR_OUTOFBOUNDS, s, h)"
proof -
  have "Vect_pushb PTR_SIZE v a = Inr (ERROR_OUTOFBOUNDS, v)"
    using assms vec.push_full by (auto simp: heap_inv_def)
  with assms(2) show ?thesis by (simp add: Heap_push_node_def heap_vec_def)
qed

lemma heap_popb_inv:
  assumes "heap_inv ho key s h (zs @ [l])"
  shows "\<exists>h'. heap_popb h = Inr (l, h') \<and> heap_inv ho key s h' zs \<and> h_dtor h' = h_dtor h"
proof -
  obtain v where v: "h_v h = Some v" "vect_inv PTR_SIZE v (zs @ [l])" using assms by (auto simp: heap_inv_def)
  obtain v' where "Vect_popb PTR_SIZE v = Inr (l, v')" "vect_inv PTR_SIZE v' zs"
    using vec.pop_ok [OF v(2)] by blast
  with v assms show ?thesis by (auto simp: heap_popb_def heap_vec_def heap_inv_def)
qed

lemma heap_set_inv:
  assumes "heap_inv ho key s h xs" "i < length xs" "a \<in> dom s" "a \<notin> set xs"
  shows "\<exists>h'. heap_set h i a = Inr h' \<and> heap_inv ho key s h' (xs[i := a]) \<and> h_dtor h' = h_dtor h"
proof -
  obtain v where v: "h_v h = Some v" "vect_inv PTR_SIZE v xs" using assms by (auto simp: heap_inv_def)
  obtain v' where "Vect_set v i a = Inr v'" "vect_inv PTR_SIZE v' (xs[i := a])"
    using vec.set_ok [OF v(2) assms(2)] by blast
  moreover have "distinct (xs[i := a])" "set (xs[i := a]) \<subseteq> dom s"
    using assms set_update_subset_insert [of xs i a] by (auto simp: heap_inv_def distinct_list_update)
  ultimately show ?thesis
    using v assms by (auto simp: heap_set_def heap_vec_def heap_inv_def)
qed

lemma Heap_pop_root_inv:
  assumes inv: "heap_inv ho key s h xs" and ord: "heap_ordered ho key xs" and ne: "xs \<noteq> []"
  shows "\<exists>s' h' ys. Heap_pop_root s h = Inr (xs ! 0, s', h') \<and>
           heap_inv ho key s' h' ys \<and> heap_ordered ho key ys \<and> mset xs = add_mset (xs ! 0) (mset ys) \<and>
           frame (set xs) s s' \<and> h_dtor h' = h_dtor h \<and>
           (idx_ok s xs \<longrightarrow> idx_ok s' ys \<or> s' = s \<and> ys ! 0 = last xs \<and> (\<forall>j<length ys. 0 < j \<longrightarrow> idx_at s ys j))"
proof -
  obtain zs l where xs: "xs = zs @ [l]" using ne by (metis rev_exhaust)
  obtain v where v: "h_v h = Some v" "vect_inv PTR_SIZE v xs" using inv by (auto simp: heap_inv_def)
  have front: "bindE (heap_vec h (Throw ERROR_BADPOINTER)) Vect_front = Inr (xs ! 0)"
    using v ne by (simp add: heap_vec_def Vect_front_inv)
  obtain h1 where h1: "heap_popb h = Inr (l, h1)" "heap_inv ho key s h1 zs" "h_dtor h1 = h_dtor h"
    using heap_popb_inv inv xs by blast
  show ?thesis
  proof (cases zs)
    case Nil
    with front h1 ord show ?thesis
      by (auto simp: Heap_pop_root_def xs heap_ordered_def heap_from_def idx_ok_def intro!: exI [of _ "[]"])
  next
    case (Cons z zs')
    have l: "l \<notin> set zs" "l \<in> dom s" using inv xs by (auto simp: heap_inv_def)
    obtain h2 where h2: "heap_set h1 0 l = Inr h2" "heap_inv ho key s h2 (zs[0 := l])" "h_dtor h2 = h_dtor h1"
      using heap_set_inv [OF h1(2) _ l(2,1), of 0] Cons by auto
    let ?ys = "sift_down (key_before ho key) (length zs) (zs[0 := l]) 0"
    obtain s' h' where dn: "bubble_down s h2 0 = Inr (s', h')" "heap_inv ho key s' h' ?ys"
        "frame (set (zs[0 := l])) s s'" "h_dtor h' = h_dtor h2"
        "?ys = zs[0 := l] \<and> s' = s \<or> ((\<forall>j<length zs. j = 0 \<or> idx_at s (zs[0 := l]) j) \<longrightarrow> idx_ok s' ?ys)"
      using bubble_down_refines [OF h2(2), of 0] Cons by auto
    have "heap_from (key_before ho key) (length zs) zs 0"
      using heap_ordered_butlast [of ho key zs l] ord by (simp add: xs heap_ordered_def)
    then have "heap_ordered ho key ?ys"
      using kb.sift_root_heap [of ho key "length zs" zs l] Cons by (simp add: heap_ordered_def)
    moreover have "mset xs = add_mset (xs ! 0) (mset ?ys)"
      by (subst mset_sift_down) (auto simp: xs Cons)
    moreover have "frame (set xs) s s'"
      using dn(3) by (rule frame_mono) (auto simp: xs Cons)
    moreover have "idx_at s (zs[0 := l]) j" if "idx_ok s xs" "0 < j" "j < length zs" for j
      using that idx_ok_append [of s zs l] by (simp add: xs idx_ok_def idx_at_def)
    moreover have "Heap_pop_root s h = Inr (xs ! 0, s', h')"
      using front h1(1) h2(1) dn(1) l(1) by (auto simp: Heap_pop_root_def xs Cons)
    ultimately show ?thesis
      using dn h2(3) h1(3) Cons xs by (intro exI [of _ s'] exI [of _ h'] exI [of _ ?ys]) auto
  qed
qed

definition heap_repr :: "heapOrder \<Rightarrow> (addr \<Rightarrow> 'k::linorder) \<Rightarrow> heap_state \<Rightarrow> addr multiset \<Rightarrow> bool" where
  "heap_repr ho key st M \<longleftrightarrow>
     (\<exists>xs. heap_inv ho key (fst st) (snd st) xs \<and> heap_ordered ho key xs \<and> mset xs = M)"

definition heap_usable :: "heap_state \<Rightarrow> addr \<Rightarrow> bool" where
  "heap_usable st a \<longleftrightarrow> a \<in> dom (fst st)"

interpretation hq: pqueue "heap_repr ho key" "key_before ho key" heap_usable
    "\<lambda>(s, h) a. Heap_push_node s h (Some a)" "\<lambda>(s, h). Heap_pop_root s h"
proof
  fix st M
  assume r: "heap_repr ho key st M" and ne: "M \<noteq> {#}"
  obtain s h where st: "st = (s, h)" by (cases st)
  obtain xs where xs: "heap_inv ho key s h xs" "heap_ordered ho key xs" "mset xs = M" "xs \<noteq> []"
    using r ne by (auto simp: heap_repr_def st)
  obtain s' h' ys where pop: "Heap_pop_root s h = Inr (xs ! 0, s', h')" "heap_inv ho key s' h' ys"
      "heap_ordered ho key ys" "mset xs = add_mset (xs ! 0) (mset ys)"
    using Heap_pop_root_inv [OF xs(1,2,4)] by blast
  have "\<not> key_before ho key x (xs ! 0)" if "x \<in># M" for x
    using heap_ordered_root [OF xs(2)] that xs(3) by auto
  moreover have "xs ! 0 \<in># M" using xs(3,4) by auto
  moreover have "heap_repr ho key (s', h') (M - {#xs ! 0#})"
    using pop xs(3) by (auto simp: heap_repr_def)
  ultimately show "\<exists>a st'. (case st of (s, h) \<Rightarrow> Heap_pop_root s h) = Inr (a, st') \<and> a \<in># M \<and>
      (\<forall>x. x \<in># M \<longrightarrow> \<not> key_before ho key x a) \<and> heap_repr ho key st' (M - {#a#})"
    using pop(1) st by auto
next
  fix st M a
  assume r: "heap_repr ho key st M" and u: "heap_usable st a" "a \<notin># M"
  obtain s h where st: "st = (s, h)" by (cases st)
  obtain xs where xs: "heap_inv ho key s h xs" "heap_ordered ho key xs" "mset xs = M"
    using r by (auto simp: heap_repr_def st)
  obtain n where n: "s a = Some n" "a \<notin> set xs" using u xs(3) by (auto simp: heap_usable_def st)
  obtain v where v: "h_v h = Some v" using xs(1) by (auto simp: heap_inv_def)
  show "\<exists>rc st'. (case st of (s, h) \<Rightarrow> \<lambda>a. Heap_push_node s h (Some a)) a = Inr (rc, st') \<and>
      (if rc = ERRORCODE_SUCCESS then heap_repr ho key st' (add_mset a M) else st' = st)"
  proof (cases "vect_room v")
    case True
    with Heap_push_room [OF xs(1,2) n v] xs(3) show ?thesis
      unfolding st by (fastforce simp: heap_repr_def)
  next
    case False
    with Heap_push_full [OF xs(1) v] show ?thesis unfolding st by auto
  qed
qed

text \<open>What \<open>Heap_priochange\<close> does with a node at position \<open>i\<close>.\<close>

lemma Heap_priochange_cases:
  assumes inv: "heap_inv ho key s h xs" and i: "i < length xs" "idx_at s xs i"
  defines "b \<equiv> key_before ho key"
  shows "Heap_priochange s h (Some (xs ! i)) =
     (if i = 0 then bubble_down s h i
      else if b (xs ! i) (xs ! par i) then bubble_up s h i
      else if b (xs ! par i) (xs ! i) then bubble_down s h i
      else Inr (s, h))"
proof -
  obtain n where n: "s (xs ! i) = Some n" "hn_idx n = i"
    using i(2) by (auto simp: idx_at_def split: option.splits)
  have ty: "h_type h = ho" "orders_by (h_cmp h) key" using inv by (auto simp: heap_inv_def)
  show ?thesis
  proof (cases "i = 0")
    case True
    with n ty show ?thesis by (cases ho) (auto simp: Heap_priochange_def has_parent_def)
  next
    case False
    then have "heap_get h (parent i) = Inr (xs ! par i)"
      using heap_inv_index(3) [OF inv i(1)] heap_get_inv [OF inv, of "par i"] par_less [of i] i by simp
    with False n ty show ?thesis
      by (cases ho) (auto simp: Heap_priochange_def has_parent_def b_def orders_by_def cmp_by_def)
  qed
qed

section \<open>The properties of the component\<close>

text \<open>The witnesses use a min-heap of the nodes 1, 5, 2 ordered by their addresses, and node 7 not yet
  in the heap.\<close>

definition heap_ex_store :: "heapnode store" where
  "heap_ex_store = [1 \<mapsto> \<lparr>hn_idx = 0\<rparr>, 5 \<mapsto> \<lparr>hn_idx = 1\<rparr>, 2 \<mapsto> \<lparr>hn_idx = 2\<rparr>, 7 \<mapsto> \<lparr>hn_idx = 0\<rparr>]"

definition heap_ex_vec :: "addr list \<Rightarrow> addr vector" where
  "heap_ex_vec xs = \<lparr>v_capacity = 16, v_occupied = length xs, v_itemsz = 8,
     v_bytes = map Some xs @ replicate (16 - length xs) None\<rparr>"

definition heap_ex :: "addr list \<Rightarrow> heap" where
  "heap_ex xs = \<lparr>h_type = MIN_HEAP, h_cmp = cmp_by (\<lambda>a. a), h_v = Some (heap_ex_vec xs), h_dtor = None\<rparr>"

lemma heap_ex_vec_inv: "length xs \<le> 16 \<Longrightarrow> vect_inv PTR_SIZE (heap_ex_vec xs) xs"
  by (simp add: vect_inv_def heap_ex_vec_def PTR_SIZE_def Vect_maxcap_def TARP_VECTOR_MAX_MEM_def
      TARP_VECTOR_MIN_CAPACITY_def SZ_num)

lemma heap_ex_inv: "heap_inv MIN_HEAP (\<lambda>a. a) heap_ex_store (heap_ex [1, 5, 2]) [1, 5, 2]"
  using heap_ex_vec_inv [of "[1, 5, 2]"] by (auto simp: heap_inv_def heap_ex_def heap_ex_store_def)

lemma heap_ex_ordered: "heap_ordered MIN_HEAP (\<lambda>a. a) [1, 5, 2 :: addr]"
  by (auto simp: heap_ordered_def heap_from_def par_def less_Suc_eq numeral_3_eq_3)

lemma heap_ex_idx: "idx_ok heap_ex_store [1, 5, 2]"
  by (auto simp: idx_ok_def idx_at_def heap_ex_store_def less_Suc_eq numeral_3_eq_3)

text \<open>C21: Popping a heap until it is empty returns all its nodes, each exactly once, sorted by
  priority: ascending for a min-heap, descending for a max-heap.\<close>

theorem Heap_drain_sorts:
  assumes "heap_inv ho key s h xs" and "heap_ordered ho key xs"
  shows "\<exists>ys st. drainE (\<lambda>st. bindE (case st of (s, h) \<Rightarrow> Heap_pop_root s h) (\<lambda>(a, st). Inr (Some a, st)))
             (length xs) (s, h) = Inr (ys, st) \<and>
           mset ys = mset xs \<and> sorted_wrt (\<lambda>x y. \<not> key_before ho key y x) ys \<and>
           heap_inv ho key (fst st) (snd st) []"
proof -
  have "heap_repr ho key (s, h) (mset xs)" using assms by (auto simp: heap_repr_def)
  from hq.drain_sorted [OF this] show ?thesis by (auto simp: heap_repr_def)
qed

theorem Heap_drain_witness:
  "\<exists>ys st. drainE (\<lambda>st. bindE (case st of (s, h) \<Rightarrow> Heap_pop_root s h) (\<lambda>(a, st). Inr (Some a, st)))
      (length [1, 5, 2 :: addr]) (heap_ex_store, heap_ex [1, 5, 2]) = Inr (ys, st) \<and>
    mset ys = mset [1, 5, 2] \<and> sorted_wrt (\<lambda>x y. \<not> key_before MIN_HEAP (\<lambda>a. a) y x) ys \<and>
    heap_inv MIN_HEAP (\<lambda>a. a) (fst st) (snd st) []"
  by (rule Heap_drain_sorts [OF heap_ex_inv heap_ex_ordered])

text \<open>\<open>Heap_push_node\<close> on a heap with room (or a vector that may still grow) adds exactly the given
  node, keeps the heap order, and leaves all recorded positions correct; without room it
  returns the vector's error code and changes nothing.\<close>

theorem Heap_push_correct:
  assumes inv: "heap_inv ho key s h xs" and ord: "heap_ordered ho key xs" and idx: "idx_ok s xs"
    and a: "a \<in> dom s" "a \<notin> set xs" and v: "h_v h = Some v"
  shows "if vect_room v
         then \<exists>s' h' ys. Heap_push_node s h (Some a) = Inr (ERRORCODE_SUCCESS, s', h') \<and>
                heap_inv ho key s' h' ys \<and> heap_ordered ho key ys \<and> idx_ok s' ys \<and>
                mset ys = add_mset a (mset xs)
         else Heap_push_node s h (Some a) = Inr (ERROR_OUTOFBOUNDS, s, h)"
proof (cases "vect_room v")
  case True
  obtain n where "s a = Some n" using a by auto
  from Heap_push_room [OF inv ord this a(2) v True] idx True show ?thesis by auto
next
  case False
  with Heap_push_full [OF inv v False] show ?thesis by simp
qed

theorem Heap_push_witness:
  "\<exists>s' h' ys. Heap_push_node heap_ex_store (heap_ex [1, 5, 2]) (Some 7) = Inr (ERRORCODE_SUCCESS, s', h') \<and>
     heap_ordered MIN_HEAP (\<lambda>a. a) ys \<and> mset ys = {#7 :: addr, 1, 5, 2#}"
proof -
  have "7 \<in> dom heap_ex_store" "h_v (heap_ex [1, 5, 2]) = Some (heap_ex_vec [1, 5, 2])"
    "vect_room (heap_ex_vec [1, 5, 2])"
    by (simp_all add: heap_ex_store_def heap_ex_def heap_ex_vec_def vect_room_def)
  with Heap_push_correct [OF heap_ex_inv heap_ex_ordered heap_ex_idx, of 7] show ?thesis by fastforce
qed

text \<open>\<open>Heap_pop_root\<close> on a non-empty heap returns the first node by priority and leaves a heap of
  the others. The recorded positions stay correct except possibly for one node: when the
  former last node stays at the root after taking its place, its position is not updated.\<close>

theorem Heap_pop_root_correct:
  assumes inv: "heap_inv ho key s h xs" and ord: "heap_ordered ho key xs" and idx: "idx_ok s xs"
    and ne: "xs \<noteq> []"
  shows "\<exists>top s' h' ys. Heap_pop_root s h = Inr (top, s', h') \<and> top \<in> set xs \<and>
           (\<forall>x. x \<in> set xs \<longrightarrow> \<not> key_before ho key x top) \<and>
           heap_inv ho key s' h' ys \<and> heap_ordered ho key ys \<and> mset xs = add_mset top (mset ys) \<and>
           (idx_ok s' ys \<or> ys ! 0 = last xs \<and> (\<forall>j. 0 < j \<longrightarrow> j < length ys \<longrightarrow> idx_at s' ys j))"
proof -
  have "\<not> key_before ho key x (xs ! 0)" if "x \<in> set xs" for x
    using heap_ordered_root [OF ord that] .
  moreover have "xs ! 0 \<in> set xs" using ne by simp
  moreover obtain s' h' ys where "Heap_pop_root s h = Inr (xs ! 0, s', h')" "heap_inv ho key s' h' ys"
      "heap_ordered ho key ys" "mset xs = add_mset (xs ! 0) (mset ys)"
      "idx_ok s' ys \<or> s' = s \<and> ys ! 0 = last xs \<and> (\<forall>j<length ys. 0 < j \<longrightarrow> idx_at s ys j)"
    using Heap_pop_root_inv [OF inv ord ne] idx by (elim exE conjE) simp
  ultimately show ?thesis
    by (intro exI [of _ "xs ! 0"] exI [of _ s'] exI [of _ h'] exI [of _ ys]) auto
qed

theorem Heap_pop_root_witness:
  "\<exists>top s' h' ys. Heap_pop_root heap_ex_store (heap_ex [1, 5, 2]) = Inr (top, s', h') \<and>
     top \<in> {1, 5, 2} \<and> heap_ordered MIN_HEAP (\<lambda>a. a) ys \<and> {#1, 5, 2#} = add_mset top (mset ys)"
  using Heap_pop_root_correct [OF heap_ex_inv heap_ex_ordered heap_ex_idx] by auto

text \<open>After the priority of one node changed, \<open>Heap_priochange\<close> restores the heap order for the
  new priorities, keeps exactly the same nodes, and leaves every node's recorded position
  correct. This covers the node moving up, moving down, and staying (the \<open>EQ\<close> case).\<close>

theorem Heap_priochange_correct:
  fixes key key0 :: "addr \<Rightarrow> 'k::linorder"
  assumes inv: "heap_inv ho key s h xs" and old: "heap_ordered ho key0 xs" and idx: "idx_ok s xs"
    and i: "i < length xs" and same: "\<forall>a. a \<noteq> xs ! i \<longrightarrow> key a = key0 a"
  shows "\<exists>s' h' ys. Heap_priochange s h (Some (xs ! i)) = Inr (s', h') \<and> heap_inv ho key s' h' ys \<and>
           heap_ordered ho key ys \<and> mset ys = mset xs \<and> idx_ok s' ys"
proof -
  let ?b = "key_before ho key"
  note run = Heap_priochange_cases [OF inv i]
  note ord = prio_restores [OF old heap_inv_distinct [OF inv] i same]
  have at: "idx_at s xs i" using idx i by (simp add: idx_ok_def)
  consider (down) "i = 0 \<or> ?b (xs ! par i) (xs ! i)" | (up) "i \<noteq> 0" "?b (xs ! i) (xs ! par i)"
    | (stay) "i \<noteq> 0" "\<not> ?b (xs ! i) (xs ! par i)" "\<not> ?b (xs ! par i) (xs ! i)" by blast
  then show ?thesis
  proof cases
    case down
    then have "i = 0 \<or> \<not> ?b (xs ! i) (xs ! par i)" using kb.asym [of ho key "xs ! par i" "xs ! i"] by auto
    moreover from this down have "Heap_priochange s h (Some (xs ! i)) = bubble_down s h i" using run [OF at] by auto
    moreover have "mset (sift_down ?b (length xs) xs i) = mset xs" by (rule mset_sift_down) (use i in auto)
    moreover obtain s' h' where "bubble_down s h i = Inr (s', h')" "heap_inv ho key s' h' (sift_down ?b (length xs) xs i)"
      "idx_ok s' (sift_down ?b (length xs) xs i)"
      using bubble_down_refines [OF inv i] idx by (auto simp: idx_ok_def)
    ultimately show ?thesis
      using ord(1) by (intro exI [of _ s'] exI [of _ h'] exI [of _ "sift_down ?b (length xs) xs i"]) simp
  next
    case up
    then have "Heap_priochange s h (Some (xs ! i)) = bubble_up s h i" using run [OF at] by simp
    moreover have "mset (sift_up ?b xs i) = mset xs" by (rule mset_sift_up [OF i])
    ultimately show ?thesis using ord(2) [OF up] bubble_up_refines [OF inv i] idx by auto
  next
    case stay
    then show ?thesis using ord(3) [OF stay] run [OF at] inv idx by auto
  qed
qed

theorem Heap_priochange_witness:
  "\<exists>s' h' ys. Heap_priochange heap_ex_store (heap_ex [1, 5, 2]) (Some 5) = Inr (s', h') \<and>
     heap_ordered MIN_HEAP (\<lambda>a. a) ys \<and> mset ys = {#1, 5, 2#} \<and> idx_ok s' ys"
  using Heap_priochange_correct [OF heap_ex_inv heap_ex_ordered heap_ex_idx, of 1] by auto

text \<open>In a heap of exactly two nodes, removing the second one with \<open>Heap_remove_node\<close> stops the
  process with \<open>ERROR_OUTOFBOUNDS\<close>: with one node left, the parent of index 0 wraps around
  and the downward loop reads the removed position.\<close>

theorem Heap_remove_second_of_two_throws:
  assumes inv: "heap_inv ho key s h [a, c]" and idx: "idx_ok s [a, c]"
  shows "Heap_remove_node s h (Some c) free_container = Inl (Throw ERROR_OUTOFBOUNDS)"
proof -
  have "idx_at s [a, c] 1" using idx by (simp add: idx_ok_def)
  then obtain n where n: "s c = Some n" "hn_idx n = 1" by (auto simp: idx_at_def split: option.splits)
  obtain v where v: "h_v h = Some v" "vect_inv PTR_SIZE v [a, c]" using inv by (auto simp: heap_inv_def)
  obtain v1 where v1: "Vect_set v 1 c = Inr v1" "vect_inv PTR_SIZE v1 [a, c]"
    using vec.set_ok [OF v(2), of 1 c] by auto
  obtain v2 where v2: "Vect_popb PTR_SIZE v1 = Inr (c, v2)" "vect_inv PTR_SIZE v2 [a]"
    using vec.pop_ok [of PTR_SIZE v1 "[a]" c] v1(2) by auto
  have par0: "parent ((1 + (SZ - 1)) mod SZ) = 2 ^ 63 - 1" by (simp add: parent_def SZ_num)
  have "bubble_down s (h\<lparr>h_v := Some v2\<rparr>) 1 = Inl (Throw ERROR_OUTOFBOUNDS)"
    using v2(2) par0
    by (simp add: bubble_down_def Heap_empty_def Heap_count_def heap_vec_def Vect_count_def vect_inv_count
        heap_get_def Vect_get_range)
  with n v v1 v2 show ?thesis
    by (simp add: Heap_remove_node_def isroot_def heap_vec_def Vect_back_inv heap_set_def heap_popb_def)
qed

definition heap_ex_pair :: "heapnode store" where
  "heap_ex_pair = [1 \<mapsto> \<lparr>hn_idx = 0\<rparr>, 5 \<mapsto> \<lparr>hn_idx = 1\<rparr>]"

lemma heap_ex_pair_inv: "heap_inv MIN_HEAP (\<lambda>a. a) heap_ex_pair (heap_ex [1, 5]) [1, 5]" "idx_ok heap_ex_pair [1, 5]"
  using heap_ex_vec_inv [of "[1, 5]"]
  by (auto simp: heap_inv_def heap_ex_def heap_ex_pair_def idx_ok_def idx_at_def less_Suc_eq)

theorem Heap_remove_second_of_two_witness:
  "Heap_remove_node heap_ex_pair (heap_ex [1, 5]) (Some 5) False = Inl (Throw ERROR_OUTOFBOUNDS)"
  by (rule Heap_remove_second_of_two_throws [OF heap_ex_pair_inv])

text \<open>After popping the first of two nodes, the remaining node still records position 1; removing
  it then stops the process with \<open>ERROR_OUTOFBOUNDS\<close>.\<close>

theorem Heap_pop_stale_index:
  assumes inv: "heap_inv ho key s h [a, c]" and idx: "idx_ok s [a, c]"
  shows "\<exists>h'. Heap_pop_root s h = Inr (a, s, h') \<and> heap_inv ho key s h' [c] \<and> \<not> idx_ok s [c] \<and>
           Heap_remove_node s h' (Some c) free_container = Inl (Throw ERROR_OUTOFBOUNDS)"
proof -
  have "idx_at s [a, c] 1" using idx by (simp add: idx_ok_def)
  then obtain n where n: "s c = Some n" "hn_idx n = 1" by (auto simp: idx_at_def split: option.splits)
  obtain v where v: "h_v h = Some v" "vect_inv PTR_SIZE v [a, c]" using inv by (auto simp: heap_inv_def)
  have ac: "a \<noteq> c" "c \<in> dom s" using inv by (auto simp: heap_inv_def)
  obtain h1 where h1: "heap_popb h = Inr (c, h1)" "heap_inv ho key s h1 [a]"
    using heap_popb_inv [of ho key s h "[a]" c] inv by auto
  obtain h2 where h2: "heap_set h1 0 c = Inr h2" "heap_inv ho key s h2 [c]"
    using heap_set_inv [OF h1(2), of 0 c] ac by auto
  have "bubble_down s h2 0 = Inr (s, h2)"
    using heap_inv_count [OF h2(2)] heap_get_inv [OF h2(2), of 0]
    by (simp add: bubble_down_def Heap_empty_def has_left_def has_right_def left_def right_def SZ_num)
  then have pop: "Heap_pop_root s h = Inr (a, s, h2)"
    using v h1(1) h2(1) ac by (simp add: Heap_pop_root_def heap_vec_def Vect_front_inv)
  obtain v2 where v2: "h_v h2 = Some v2" "vect_inv PTR_SIZE v2 [c]" using h2(2) by (auto simp: heap_inv_def)
  have "Heap_remove_node s h2 (Some c) free_container = Inl (Throw ERROR_OUTOFBOUNDS)"
    using n v2 by (simp add: Heap_remove_node_def isroot_def heap_vec_def Vect_back_inv heap_set_def Vect_set_range)
  moreover have "\<not> idx_ok s [c]" using n by (simp add: idx_ok_def idx_at_def)
  ultimately show ?thesis using pop h2(2) by blast
qed

theorem Heap_pop_stale_index_witness:
  "\<exists>h'. Heap_pop_root heap_ex_pair (heap_ex [1, 5]) = Inr (1, heap_ex_pair, h') \<and>
     Heap_remove_node heap_ex_pair h' (Some 5) False = Inl (Throw ERROR_OUTOFBOUNDS)"
  using Heap_pop_stale_index [OF heap_ex_pair_inv] by blast

end
