(* ===== verification/Heapsort.thy ===== *)
theory Heapsort
  imports Heap_Implicit
begin

text \<open>
  The generic in-place heapsort that \<open>gen_heapsort_routine\<close> of \<open>impl/heap_impl.h\<close> generates, with
  the macros it is built from. An array is a list and an access outside of it is a fault. The
  routine is shown to return a sorted permutation of its input without a fault, for every
  comparator that orders by a key.
\<close>

section \<open>The routine\<close>

definition arr_get :: "'a list \<Rightarrow> nat \<Rightarrow> 'a res" where
  "arr_get arr i = (if i < length arr then Inr (arr ! i) else Inl WildDeref)"

definition arr_set :: "'a list \<Rightarrow> nat \<Rightarrow> 'a \<Rightarrow> 'a list res" where
  "arr_set arr i x = (if i < length arr then Inr (arr[i := x]) else Inl WildDeref)"

fun heapify_down_loop :: "nat \<Rightarrow> 'a list \<Rightarrow> nat \<Rightarrow> nat \<Rightarrow> nat \<Rightarrow> 'a comparator \<Rightarrow> 'a list res" where
  "heapify_down_loop 0 arr len last_pi idx cmp = Inl OutOfFuel"
| "heapify_down_loop (Suc fuel) arr len last_pi idx cmp =
     (if \<not> idx \<le> last_pi then Inr arr
      else
        bindE (arr_get arr idx) (\<lambda>cur.
        bindE (if has_left idx len
               then bindE (arr_get arr (left idx)) (\<lambda>tmp.
                    Inr (if lt cur tmp cmp then (tmp, left idx) else (cur, idx)))
               else Inr (cur, idx)) (\<lambda>(max, maxidx).
        bindE (if has_right idx len
               then bindE (arr_get arr (right idx)) (\<lambda>tmp.
                    Inr (if lt max tmp cmp then (tmp, right idx) else (max, maxidx)))
               else Inr (max, maxidx)) (\<lambda>(max, maxidx).
        if eq max cur cmp then bindE (assertE (maxidx = idx)) (\<lambda>_. Inr arr)
        else
          bindE (assertE (maxidx \<noteq> idx)) (\<lambda>_.
          bindE (arr_set arr idx max) (\<lambda>arr.
          bindE (arr_set arr maxidx cur) (\<lambda>arr.
          heapify_down_loop fuel arr len last_pi maxidx cmp)))))))"

definition max_heapify_down :: "'a list \<Rightarrow> nat \<Rightarrow> nat \<Rightarrow> 'a comparator \<Rightarrow> 'a list res" where
  "max_heapify_down arr len index cmp =
     heapify_down_loop (len + 1) arr len (parent ((len + (SZ - 1)) mod SZ)) index cmp"

fun heapify_from :: "'a list \<Rightarrow> nat \<Rightarrow> 'a comparator \<Rightarrow> nat \<Rightarrow> 'a list res" where
  "heapify_from arr len cmp 0 = max_heapify_down arr len 0 cmp"
| "heapify_from arr len cmp (Suc k) =
     bindE (max_heapify_down arr len (Suc k) cmp) (\<lambda>arr. heapify_from arr len cmp k)"

definition max_heapify :: "'a list \<Rightarrow> nat \<Rightarrow> 'a comparator \<Rightarrow> 'a list res" where
  "max_heapify arr len cmp = (if len < 2 then Inr arr else heapify_from arr len cmp (parent (len - 1)))"

fun heapsort_loop :: "'a list \<Rightarrow> nat \<Rightarrow> 'a comparator \<Rightarrow> nat \<Rightarrow> 'a list res" where
  "heapsort_loop arr len cmp 0 = Inr arr"
| "heapsort_loop arr len cmp (Suc i) =
     bindE (arr_get arr (Suc i)) (\<lambda>tmp.
     let len = len - 1 in
     bindE (arr_get arr 0) (\<lambda>root.
     bindE (arr_set arr (Suc i) root) (\<lambda>arr.
     bindE (arr_set arr 0 tmp) (\<lambda>arr.
     bindE (max_heapify_down arr len 0 cmp) (\<lambda>arr.
     heapsort_loop arr len cmp i)))))"

definition heapsort :: "'a list \<Rightarrow> nat \<Rightarrow> 'a comparator \<Rightarrow> 'a list res" where
  "heapsort arr len cmp =
     (if len < 2 then Inr arr
      else bindE (max_heapify arr len cmp) (\<lambda>arr. heapsort_loop arr len cmp (len - 1)))"

section \<open>Heapifying computes sifting\<close>

definition max_before :: "('a \<Rightarrow> 'k::linorder) \<Rightarrow> 'a \<Rightarrow> 'a \<Rightarrow> bool" where
  "max_before key x y \<longleftrightarrow> key y < key x"

interpretation mb: heap_order "max_before key"
  by standard (auto simp: max_before_def)

lemma heapify_down_loop_sift:
  assumes "orders_by cmp key" and "n \<le> length arr" "n < 2 ^ 62" "i < n" "n - i < fuel"
    and "\<And>j. last_pi < j \<Longrightarrow> j < n \<Longrightarrow> n \<le> 2 * j + 1"
  shows "heapify_down_loop fuel arr n last_pi i cmp = Inr (sift_down (max_before key) n arr i)"
  using assms
proof (induction fuel arbitrary: arr i)
  case 0
  then show ?case by simp
next
  case (Suc fuel)
  let ?b = "max_before key"
  let ?m = "pick ?b n arr i" and ?l = "pick_left ?b n arr i"
  note ob = orders_by_simps [OF Suc.prems(1)] max_before_def
  have ix: "left i = 2 * i + 1" "right i = 2 * i + 2"
    using Suc.prems by (simp_all add: left_right)
  show ?case
  proof (cases "i \<le> last_pi")
    case False
    then have "?m = i" using Suc.prems(6) [of i] Suc.prems(4) by (simp add: pick_def pick_left_def)
    then have "sift_down ?b n arr i = arr" by (subst sift_down.simps) simp
    with False show ?thesis by simp
  next
    case True
    have l: "(if has_left i n
               then bindE (arr_get arr (left i)) (\<lambda>tmp.
                    Inr (if lt (arr ! i) tmp cmp then (tmp, left i) else (arr ! i, i)))
               else Inr (arr ! i, i)) = Inr (arr ! ?l, ?l)"
      using Suc.prems(2) ix by (simp add: has_left_def arr_get_def pick_left_def ob)
    have r: "(if has_right i n
               then bindE (arr_get arr (right i)) (\<lambda>tmp.
                    Inr (if lt (arr ! ?l) tmp cmp then (tmp, right i) else (arr ! ?l, ?l)))
               else Inr (arr ! ?l, ?l)) = Inr (arr ! ?m, ?m)"
      using Suc.prems(2) ix by (simp add: has_right_def arr_get_def pick_def ob)
    have i: "arr_get arr i = Inr (arr ! i)" using Suc.prems by (simp add: arr_get_def)
    show ?thesis
    proof (cases "?m = i")
      case m: True
      then have "sift_down ?b n arr i = arr" by (subst sift_down.simps) simp
      with True m i l r show ?thesis by (simp add: ob(1-6))
    next
      case m: False
      note mv = mb.pick_moves [OF m]
      have ne: "key (arr ! ?m) \<noteq> key (arr ! i)" using mv(4) by (simp add: max_before_def)
      let ?arr2 = "arr[i := arr ! ?m, ?m := arr ! i]"
      have "heapify_down_loop (Suc fuel) arr n last_pi i cmp = heapify_down_loop fuel ?arr2 n last_pi ?m cmp"
        using True m mv(1,2) ne i l r Suc.prems(2,4) by (simp add: ob(1-6) arr_set_def)
      also have "\<dots> = Inr (sift_down ?b n ?arr2 ?m)"
        using Suc.prems mv by (intro Suc.IH) auto
      finally show ?thesis using m by (subst sift_down.simps) (simp add: Let_def)
    qed
  qed
qed

lemma max_heapify_down_sift:
  assumes "orders_by cmp key" and "n \<le> length arr" "n < 2 ^ 62" "i < n"
  shows "max_heapify_down arr n i cmp = Inr (sift_down (max_before key) n arr i)"
  unfolding max_heapify_down_def
proof (rule heapify_down_loop_sift)
  fix j assume "parent ((n + (SZ - 1)) mod SZ) < j" "j < n"
  then show "n \<le> 2 * j + 1" using assms by (intro last_parent_childless) auto
qed (use assms in auto)

lemma heapify_from_heap:
  assumes "orders_by cmp key" and "n \<le> length arr" "n < 2 ^ 62" "k < n"
    and "heap_from (max_before key) n arr (Suc k)"
  shows "\<exists>arr'. heapify_from arr n cmp k = Inr arr' \<and> heap_from (max_before key) n arr' 0 \<and>
           mset arr' = mset arr \<and> length arr' = length arr"
  using assms
proof (induction k arbitrary: arr)
  have step: "heap_from (max_before key) n (sift_down (max_before key) n xs k) k"
    if "heap_from (max_before key) n xs (Suc k)" "n \<le> length xs" "k < n" for xs :: "'a list" and k
  proof (rule mb.sift_down_heap)
    fix j assume "j < n" "0 < j" "k \<le> par j" "par j \<noteq> k"
    then show "\<not> max_before key (xs ! j) (xs ! par j)" using that(1) by (auto simp: heap_from_def)
  next
    fix j assume "0 < k" "k \<le> par k"
    then show "\<not> max_before key (xs ! j) (xs ! par k)" using par_less [of k] by auto
  qed (use that in auto)
  {
    case 0
    then show ?case
      using step [of arr 0] max_heapify_down_sift [of cmp key n arr 0] mset_sift_down [of n arr 0] by auto
  next
    case (Suc k)
    let ?arr = "sift_down (max_before key) n arr (Suc k)"
    have "max_heapify_down arr n (Suc k) cmp = Inr ?arr"
      using Suc.prems by (intro max_heapify_down_sift) auto
    moreover have "mset ?arr = mset arr" using Suc.prems by (intro mset_sift_down) auto
    moreover have "heap_from (max_before key) n ?arr (Suc k)" using step Suc.prems by auto
    ultimately show ?case
      using Suc.IH [of ?arr] Suc.prems by auto
  }
qed

lemma max_heapify_heap:
  assumes "orders_by cmp key" and "2 \<le> length arr" "length arr < 2 ^ 62"
  shows "\<exists>arr'. max_heapify arr (length arr) cmp = Inr arr' \<and>
           heap_from (max_before key) (length arr) arr' 0 \<and> mset arr' = mset arr \<and> length arr' = length arr"
proof -
  let ?n = "length arr"
  have p: "parent (?n - 1) = par (?n - 1)" using assms by (intro parent_par) (simp_all add: SZ_num)
  have "heap_from (max_before key) ?n arr (Suc (par (?n - 1)))"
  proof -
    have "par i \<le> par (?n - 1)" if "i < ?n" for i
      using that by (auto simp: par_def intro: div_le_mono)
    then show ?thesis by (fastforce simp: heap_from_def)
  qed
  moreover have "par (?n - 1) < ?n" using assms par_less [of "?n - 1"] by simp
  ultimately show ?thesis
    using heapify_from_heap [of cmp key ?n arr "par (?n - 1)"] assms p by (simp add: max_heapify_def)
qed

section \<open>Sorting\<close>

definition sort_inv :: "('a \<Rightarrow> 'k::linorder) \<Rightarrow> nat \<Rightarrow> 'a list \<Rightarrow> bool" where
  "sort_inv key n arr \<longleftrightarrow>
     heap_from (max_before key) n arr 0 \<and> sorted (map key (drop n arr)) \<and>
     (\<forall>x\<in>set (take n arr). \<forall>y\<in>set (drop n arr). key x \<le> key y)"

lemma sort_inv_step:
  assumes inv: "sort_inv key (Suc n) arr" and n: "0 < n" "n < length arr"
  defines "arr' \<equiv> sift_down (max_before key) n (arr[n := arr ! 0, 0 := arr ! n]) 0"
  shows "sort_inv key n arr'" and "mset arr' = mset arr" and "length arr' = length arr"
proof -
  let ?sw = "arr[n := arr ! 0, 0 := arr ! n]"
  show len: "length arr' = length arr" by (simp add: arr'_def)
  have sift: "mset arr' = mset ?sw" unfolding arr'_def using n by (intro mset_sift_down) auto
  moreover have "mset ?sw = mset arr" using n by (intro mset_swap) auto
  ultimately show "mset arr' = mset arr" by simp
  have "heap_from (max_before key) n (arr[n := arr ! 0]) 0"
    using inv by (auto simp: sort_inv_def heap_from_def par_def)
  then have heap: "heap_from (max_before key) n arr' 0"
    using mb.sift_root_heap [of key n "arr[n := arr ! 0]" "arr ! n"] n by (simp add: arr'_def)
  have "drop n arr' = drop n ?sw"
    using n by (intro nth_equalityI) (simp_all add: arr'_def sift_down_above)
  moreover have sw: "drop n ?sw = arr ! 0 # drop (Suc n) arr"
    using n by (simp add: drop_update_swap Cons_nth_drop_Suc [symmetric])
  ultimately have drop: "drop n arr' = arr ! 0 # drop (Suc n) arr" by simp
  have "mset (take n arr') = mset (take n ?sw)"
    using sift \<open>drop n arr' = drop n ?sw\<close>
    by (metis add_right_cancel append_take_drop_id mset_append)
  then have take: "set (take n arr') = set (take n ?sw)" by (rule mset_eq_setD)
  have "take n ?sw = (take n arr)[0 := arr ! n]" using n by (simp add: take_update_swap list_update_beyond)
  then have sub: "set (take n arr') \<subseteq> set (take (Suc n) arr)"
    using take set_update_subset_insert [of "take n arr" 0 "arr ! n"] n
    by (auto simp: take_Suc_conv_app_nth)
  have root: "key x \<le> key (arr ! 0)" if "x \<in> set (take (Suc n) arr)" for x
  proof -
    from that obtain i where "i < Suc n" "x = arr ! i" using n by (auto simp: in_set_conv_nth)
    then show ?thesis using mb.heap_root [of key "Suc n" arr i] inv by (auto simp: sort_inv_def max_before_def)
  qed
  have "arr ! 0 \<in> set (take (Suc n) arr)" using n by (auto simp: in_set_conv_nth intro!: exI [of _ 0])
  then show "sort_inv key n arr'"
    using inv heap drop sub root by (auto simp: sort_inv_def)
qed

lemma heapsort_loop_sorts:
  assumes "orders_by cmp key" and "n < length arr" "length arr < 2 ^ 62" and "sort_inv key (Suc n) arr"
  shows "\<exists>arr'. heapsort_loop arr (Suc n) cmp n = Inr arr' \<and> sort_inv key 1 arr' \<and>
           mset arr' = mset arr"
  using assms
proof (induction n arbitrary: arr)
  case 0
  then show ?case by simp
next
  case (Suc n)
  let ?sw = "arr[Suc n := arr ! 0, 0 := arr ! Suc n]"
  let ?arr = "sift_down (max_before key) (Suc n) ?sw 0"
  have "max_heapify_down ?sw (Suc n) 0 cmp = Inr ?arr"
    using Suc.prems by (intro max_heapify_down_sift) auto
  moreover have "sort_inv key (Suc n) ?arr" "mset ?arr = mset arr"
    using sort_inv_step [of key "Suc n" arr] Suc.prems by auto
  ultimately show ?case
    using Suc.IH [of ?arr] Suc.prems by (auto simp: arr_get_def arr_set_def)
qed

section \<open>The properties of the component\<close>

text \<open>C14: The generated heapsort routine, called on an array with its length, terminates without an
  out-of-range access or a failed assertion and leaves the array sorted by the comparator's
  key, as a permutation of what it was. The bound on the length is that of addressable
  memory.\<close>

theorem heapsort_sorts:
  assumes "orders_by cmp key" and "length arr < 2 ^ 62"
  shows "\<exists>arr'. heapsort arr (length arr) cmp = Inr arr' \<and> mset arr' = mset arr \<and> sorted (map key arr')"
proof (cases "length arr < 2")
  case True
  then have "sorted (map key arr)" by (cases arr; cases "tl arr") auto
  with True show ?thesis by (simp add: heapsort_def)
next
  case False
  let ?n = "length arr"
  obtain arr1 where a1: "max_heapify arr ?n cmp = Inr arr1" "heap_from (max_before key) ?n arr1 0"
      "mset arr1 = mset arr" "length arr1 = ?n"
    using max_heapify_heap [of cmp key arr] assms False by auto
  moreover have n: "Suc (?n - 1) = ?n" using False by simp
  ultimately have "sort_inv key (Suc (?n - 1)) arr1" unfolding n by (simp add: sort_inv_def)
  then obtain arr2 where a2: "heapsort_loop arr1 ?n cmp (?n - 1) = Inr arr2" "sort_inv key 1 arr2" "mset arr2 = mset arr1"
    using heapsort_loop_sorts [of cmp key "?n - 1" arr1] assms a1(4) n by auto
  have "arr2 \<noteq> []" using a2(3) a1(3) False by auto
  then obtain x xs where "arr2 = x # xs" by (cases arr2) auto
  with a2(2) have "sorted (map key arr2)" by (auto simp: sort_inv_def)
  with a1 a2 False show ?thesis by (auto simp: heapsort_def)
qed

theorem heapsort_witness:
  "\<exists>arr'. heapsort [3, 1, 2, 1 :: int] (length [3, 1, 2, 1 :: int]) (cmp_by (\<lambda>x. x)) = Inr arr' \<and>
     mset arr' = mset [3, 1, 2, 1] \<and> sorted (map (\<lambda>x. x) arr')"
  by (rule heapsort_sorts) simp_all

end
