(* ===== verification/Avl.thy ===== *)
theory Avl
  imports Staq
begin

text \<open>
  The AVL tree of \<open>src/mods/avltree/avl.c\<close>, in its default build (balance factors only, no height
  field), with the generic binary-search-tree functions it instantiates from
  \<open>include/tarp/impl/bst_impl.h\<close>. Nodes live in a store; the node comparator and destructor are
  user code and fields of the tree handle, as in the source.

  The path of waypoints that the source keeps on a \<open>staq\<close> used as a stack is a list here, top
  first: the stack laws that justify this are those proved in \<open>Staq\<close> (\<open>Staq_pushfront\<close> and
  \<open>Staq_popfront\<close> are \<open>Cons\<close> and head, \<open>Staq_join\<close> is append). Loops that walk down the tree
  take a fuel argument; one more than the height of the tree is shown to be enough. The
  balance factor is an \<open>int8_t\<close> that stays between -2 and 2.
\<close>

section \<open>Data\<close>

record avlnode =
  av_left :: ptr
  av_right :: ptr
  av_bf :: int

record avltree =
  at_root :: ptr
  at_cached :: ptr
  at_cmp :: "addr comparator"
  at_count :: nat
  at_dtor :: "avlnode dtor option"

type_synonym avl_state = "avlnode store \<times> avltree"

datatype pathTraceDirection = LEFT | EQUAL | RIGHT

fun dir_num :: "pathTraceDirection \<Rightarrow> int" where
  "dir_num LEFT = -1"
| "dir_num EQUAL = 0"
| "dir_num RIGHT = 1"

type_synonym avl_waypoint = "addr \<times> pathTraceDirection"

section \<open>Node access\<close>

definition put_left :: "avlnode store \<Rightarrow> ptr \<Rightarrow> ptr \<Rightarrow> avlnode store res" where
  "put_left s p v = update s p (\<lambda>n. n\<lparr>av_left := v\<rparr>)"

definition put_right :: "avlnode store \<Rightarrow> ptr \<Rightarrow> ptr \<Rightarrow> avlnode store res" where
  "put_right s p v = update s p (\<lambda>n. n\<lparr>av_right := v\<rparr>)"

definition put_bf :: "avlnode store \<Rightarrow> ptr \<Rightarrow> int \<Rightarrow> avlnode store res" where
  "put_bf s p v = update s p (\<lambda>n. n\<lparr>av_bf := v\<rparr>)"

definition get_left :: "avlnode store \<Rightarrow> ptr \<Rightarrow> ptr res" where
  "get_left s p = bindE (load s p) (\<lambda>n. Inr (av_left n))"

definition get_right :: "avlnode store \<Rightarrow> ptr \<Rightarrow> ptr res" where
  "get_right s p = bindE (load s p) (\<lambda>n. Inr (av_right n))"

text \<open>A \<open>struct avlnode **\<close>: the root field of the handle, or a child field of a node.\<close>

datatype avl_ref = RootRef | LeftRef ptr | RightRef ptr

fun put_ref :: "avlnode store \<Rightarrow> avltree \<Rightarrow> avl_ref \<Rightarrow> ptr \<Rightarrow> avl_state res" where
  "put_ref s tree RootRef v = Inr (s, tree\<lparr>at_root := v\<rparr>)"
| "put_ref s tree (LeftRef p) v = bindE (put_left s p v) (\<lambda>s. Inr (s, tree))"
| "put_ref s tree (RightRef p) v = bindE (put_right s p v) (\<lambda>s. Inr (s, tree))"

section \<open>Predicates on a node\<close>

definition unbalanced :: "avlnode \<Rightarrow> bool" where
  "unbalanced n \<longleftrightarrow> av_bf n < -1 \<or> av_bf n > 1"

definition left_heavy :: "avlnode \<Rightarrow> bool" where
  "left_heavy n \<longleftrightarrow> av_bf n < 0"

definition right_heavy :: "avlnode \<Rightarrow> bool" where
  "right_heavy n \<longleftrightarrow> av_bf n > 0"

definition perfectly_balanced :: "avlnode \<Rightarrow> bool" where
  "perfectly_balanced n \<longleftrightarrow> av_bf n = 0"

definition lopsided :: "avlnode \<Rightarrow> bool" where
  "lopsided n \<longleftrightarrow> \<not> perfectly_balanced n \<and> \<not> unbalanced n"

definition left_child_only :: "avlnode \<Rightarrow> bool" where
  "left_child_only n \<longleftrightarrow> av_left n \<noteq> NULL \<and> av_right n = NULL"

definition right_child_only :: "avlnode \<Rightarrow> bool" where
  "right_child_only n \<longleftrightarrow> av_right n \<noteq> NULL \<and> av_left n = NULL"

definition both_children :: "avlnode \<Rightarrow> bool" where
  "both_children n \<longleftrightarrow> av_left n \<noteq> NULL \<and> av_right n \<noteq> NULL"

section \<open>The generic tree functions\<close>

fun avl_find_node_loop :: "nat \<Rightarrow> avlnode store \<Rightarrow> addr comparator \<Rightarrow> addr \<Rightarrow> ptr \<Rightarrow> ptr res" where
  "avl_find_node_loop 0 s cmp key node = Inl OutOfFuel"
| "avl_find_node_loop (Suc fuel) s cmp key node =
     (case node of
        None \<Rightarrow> Inr NULL
      | Some a \<Rightarrow>
          bindE (load s node) (\<lambda>n.
          case cmp key a of
            LT \<Rightarrow> avl_find_node_loop fuel s cmp key (av_left n)
          | EQ \<Rightarrow> Inr node
          | GT \<Rightarrow> avl_find_node_loop fuel s cmp key (av_right n)))"

definition avl_find_node :: "nat \<Rightarrow> avlnode store \<Rightarrow> avltree \<Rightarrow> addr \<Rightarrow> ptr res" where
  "avl_find_node fuel s tree key =
     (if at_count tree = 0 then Inr NULL
      else bindE (assertE (at_root tree \<noteq> NULL)) (\<lambda>_.
           avl_find_node_loop fuel s (at_cmp tree) key (at_root tree)))"

fun leftmost_loop :: "nat \<Rightarrow> avlnode store \<Rightarrow> ptr \<Rightarrow> ptr res" where
  "leftmost_loop 0 s node = Inl OutOfFuel"
| "leftmost_loop (Suc fuel) s node =
     (if node = NULL then Inr NULL
      else bindE (get_left s node) (\<lambda>l. if l = NULL then Inr node else leftmost_loop fuel s l))"

fun rightmost_loop :: "nat \<Rightarrow> avlnode store \<Rightarrow> ptr \<Rightarrow> ptr res" where
  "rightmost_loop 0 s node = Inl OutOfFuel"
| "rightmost_loop (Suc fuel) s node =
     (if node = NULL then Inr NULL
      else bindE (get_right s node) (\<lambda>r. if r = NULL then Inr node else rightmost_loop fuel s r))"

definition avl_find_inorder_successor :: "nat \<Rightarrow> avlnode store \<Rightarrow> ptr \<Rightarrow> ptr res" where
  "avl_find_inorder_successor fuel s node = bindE (get_right s node) (\<lambda>r. leftmost_loop fuel s r)"

definition Avl_get_min :: "nat \<Rightarrow> avlnode store \<Rightarrow> avltree \<Rightarrow> ptr res" where
  "Avl_get_min fuel s tree = (if at_count tree = 0 then Inr NULL else leftmost_loop fuel s (at_root tree))"

definition Avl_get_max :: "nat \<Rightarrow> avlnode store \<Rightarrow> avltree \<Rightarrow> ptr res" where
  "Avl_get_max fuel s tree = (if at_count tree = 0 then Inr NULL else rightmost_loop fuel s (at_root tree))"

fun trace_path_loop ::
    "nat \<Rightarrow> avlnode store \<Rightarrow> addr comparator \<Rightarrow> addr \<Rightarrow> ptr \<Rightarrow> avl_waypoint list \<Rightarrow> avl_waypoint list res" where
  "trace_path_loop 0 s cmp dst node path = Inl OutOfFuel"
| "trace_path_loop (Suc fuel) s cmp dst node path =
     (case node of
        None \<Rightarrow> Inr path
      | Some a \<Rightarrow>
          bindE (load s node) (\<lambda>n.
          case cmp dst a of
            LT \<Rightarrow> trace_path_loop fuel s cmp dst (av_left n) ((a, LEFT) # path)
          | GT \<Rightarrow> trace_path_loop fuel s cmp dst (av_right n) ((a, RIGHT) # path)
          | EQ \<Rightarrow> Inr ((a, EQUAL) # path)))"

definition avl_trace_path_to_node ::
    "nat \<Rightarrow> avlnode store \<Rightarrow> avltree \<Rightarrow> ptr \<Rightarrow> addr \<Rightarrow> avl_waypoint list res" where
  "avl_trace_path_to_node fuel s tree src dst =
     (let node = (if src \<noteq> NULL then src else at_root tree) in
      if at_count tree = 0 then Inr []
      else bindE (assertE (node \<noteq> NULL)) (\<lambda>_. trace_path_loop fuel s (at_cmp tree) dst node []))"

fun avl_cut_down :: "nat \<Rightarrow> avlnode dtor \<Rightarrow> avlnode store \<Rightarrow> ptr \<Rightarrow> avlnode store res" where
  "avl_cut_down 0 d s root = Inl OutOfFuel"
| "avl_cut_down (Suc fuel) d s root =
     (case root of
        None \<Rightarrow> Inr s
      | Some a \<Rightarrow>
          bindE (get_left s root) (\<lambda>l.
          bindE (avl_cut_down fuel d s l) (\<lambda>s.
          bindE (get_right s root) (\<lambda>r.
          bindE (avl_cut_down fuel d s r) (\<lambda>s.
          d s a)))))"

fun avl_find_node_height :: "nat \<Rightarrow> avlnode store \<Rightarrow> ptr \<Rightarrow> int res" where
  "avl_find_node_height 0 s node = Inl OutOfFuel"
| "avl_find_node_height (Suc fuel) s node =
     (if node = NULL then Inr (-1)
      else
        bindE (load s node) (\<lambda>n.
        bindE (avl_find_node_height fuel s (av_left n)) (\<lambda>hl.
        bindE (avl_find_node_height fuel s (av_right n)) (\<lambda>hr.
        Inr (1 + max hl hr)))))"

fun avl_get_nodes_at_level :: "nat \<Rightarrow> avlnode store \<Rightarrow> ptr \<Rightarrow> nat \<Rightarrow> addr list \<Rightarrow> addr list res" where
  "avl_get_nodes_at_level 0 s root level q = Inl OutOfFuel"
| "avl_get_nodes_at_level (Suc fuel) s root level q =
     (case root of
        None \<Rightarrow> Inr q
      | Some a \<Rightarrow>
          if level = 1 then Inr (q @ [a])
          else
            let level = (level + (SZ - 1)) mod SZ in
            bindE (load s root) (\<lambda>n.
            bindE (avl_get_nodes_at_level fuel s (av_left n) level q) (\<lambda>q.
            avl_get_nodes_at_level fuel s (av_right n) level q)))"

definition do_avl_rotate_left :: "avlnode store \<Rightarrow> ptr \<Rightarrow> ptr \<Rightarrow> (ptr \<times> avlnode store) res" where
  "do_avl_rotate_left s a b =
     bindE (get_left s b) (\<lambda>bl.
     bindE (put_right s a bl) (\<lambda>s.
     bindE (put_left s b a) (\<lambda>s. Inr (b, s))))"

definition do_avl_rotate_right :: "avlnode store \<Rightarrow> ptr \<Rightarrow> ptr \<Rightarrow> (ptr \<times> avlnode store) res" where
  "do_avl_rotate_right s a b =
     bindE (get_right s b) (\<lambda>br.
     bindE (put_left s a br) (\<lambda>s.
     bindE (put_right s b a) (\<lambda>s. Inr (b, s))))"

section \<open>Handle, cache and validation\<close>

definition initialize_avl_tree :: "addr comparator \<Rightarrow> avlnode dtor option \<Rightarrow> avltree" where
  "initialize_avl_tree cmp dtor =
     \<lparr>at_root = NULL, at_cached = NULL, at_cmp = cmp, at_count = 0, at_dtor = dtor\<rparr>"

definition Avl_init :: "addr comparator \<Rightarrow> avlnode dtor option \<Rightarrow> avltree" where
  "Avl_init cmpf dtor = initialize_avl_tree cmpf dtor"

definition Avl_new :: "addr comparator \<Rightarrow> avlnode dtor option \<Rightarrow> avltree" where
  "Avl_new cmpf dtor = Avl_init cmpf dtor"

definition Avl_count :: "avltree \<Rightarrow> nat" where
  "Avl_count tree = at_count tree"

definition Avl_empty :: "avltree \<Rightarrow> bool" where
  "Avl_empty tree \<longleftrightarrow> at_count tree = 0"

definition initialize_avl_node :: "avlnode store \<Rightarrow> ptr \<Rightarrow> avlnode store res" where
  "initialize_avl_node s node =
     bindE (assertE (node \<noteq> NULL)) (\<lambda>_.
     update s node (\<lambda>n. n\<lparr>av_left := NULL, av_right := NULL, av_bf := 0\<rparr>))"

definition copy_avlnode_fields ::
    "avlnode store \<Rightarrow> ptr \<Rightarrow> ptr \<Rightarrow> bool \<Rightarrow> bool \<Rightarrow> avlnode store res" where
  "copy_avlnode_fields s a b copy_left_child copy_right_child =
     bindE (if copy_left_child then bindE (load s b) (\<lambda>n. put_left s a (av_left n)) else Inr s) (\<lambda>s.
     bindE (if copy_right_child then bindE (load s b) (\<lambda>n. put_right s a (av_right n)) else Inr s) (\<lambda>s.
     bindE (load s b) (\<lambda>n. put_bf s a (av_bf n))))"

fun validate_avl :: "nat \<Rightarrow> avlnode store \<Rightarrow> ptr \<Rightarrow> bool \<Rightarrow> (nat \<times> bool) res" where
  "validate_avl 0 s node priv = Inl OutOfFuel"
| "validate_avl (Suc fuel) s node priv =
     (if node = NULL then Inr (0, priv)
      else
        bindE (load s node) (\<lambda>n.
        bindE (validate_avl fuel s (av_left n) priv) (\<lambda>(height_left, priv).
        bindE (validate_avl fuel s (av_right n) priv) (\<lambda>(height_right, priv).
        let height = 1 + max height_left height_right;
            diff = max height_left height_right - min height_left height_right
        in Inr (height, \<not> (diff > 1 \<or> av_bf n > 1 \<or> av_bf n < -1))))))"

definition isavl :: "nat \<Rightarrow> avlnode store \<Rightarrow> avltree \<Rightarrow> bool res" where
  "isavl fuel s tree =
     (if at_count tree = 0 then Inr True
      else bindE (validate_avl fuel s (at_root tree) False) (\<lambda>(_, is). Inr is))"

definition cache_hit :: "avltree \<Rightarrow> addr \<Rightarrow> bool" where
  "cache_hit tree k = (case at_cached tree of None \<Rightarrow> False | Some c \<Rightarrow> eq c k (at_cmp tree))"

definition clear_cache :: "avltree \<Rightarrow> avltree" where
  "clear_cache tree = tree\<lparr>at_cached := NULL\<rparr>"

definition update_cache :: "avltree \<Rightarrow> ptr \<Rightarrow> avltree" where
  "update_cache tree node = tree\<lparr>at_cached := node\<rparr>"

definition Avl_height :: "nat \<Rightarrow> avlnode store \<Rightarrow> avltree \<Rightarrow> int res" where
  "Avl_height fuel s tree = avl_find_node_height fuel s (at_root tree)"

definition Avl_num_levels :: "nat \<Rightarrow> avlnode store \<Rightarrow> avltree \<Rightarrow> int res" where
  "Avl_num_levels fuel s tree = bindE (Avl_height fuel s tree) (\<lambda>h. Inr (h + 1))"

definition Avl_get_nodes_at_level :: "nat \<Rightarrow> avlnode store \<Rightarrow> avltree \<Rightarrow> nat \<Rightarrow> addr list res" where
  "Avl_get_nodes_at_level fuel s tree level = avl_get_nodes_at_level fuel s (at_root tree) level []"

definition AVL_count_nodes_at_level :: "nat \<Rightarrow> avlnode store \<Rightarrow> avltree \<Rightarrow> nat \<Rightarrow> nat res" where
  "AVL_count_nodes_at_level fuel s tree level =
     bindE (avl_get_nodes_at_level fuel s (at_root tree) level []) (\<lambda>q. Inr (length q))"

definition Avl_clear :: "nat \<Rightarrow> avlnode store \<Rightarrow> avltree \<Rightarrow> bool \<Rightarrow> avl_state res" where
  "Avl_clear fuel s tree free_containers =
     bindE (if free_containers
            then (case at_dtor tree of
                    None \<Rightarrow> Inl (Throw ERROR_MISCONFIGURED)
                  | Some d \<Rightarrow> avl_cut_down fuel d s (at_root tree))
            else Inr s) (\<lambda>s.
     Inr (s, initialize_avl_tree (at_cmp tree) (at_dtor tree)))"

definition Avl_destroy :: "nat \<Rightarrow> avlnode store \<Rightarrow> avltree \<Rightarrow> bool \<Rightarrow> (avlnode store \<times> avltree option) res" where
  "Avl_destroy fuel s tree free_containers =
     bindE (Avl_clear fuel s tree free_containers) (\<lambda>(s, tree). Inr (s, None))"

section \<open>Rotations\<close>

definition avl_left_right :: "avlnode store \<Rightarrow> ptr \<Rightarrow> ptr \<Rightarrow> ptr \<Rightarrow> (ptr \<times> avlnode store) res" where
  "avl_left_right s parent child grandchild =
     bindE (assertE (parent \<noteq> NULL \<and> child \<noteq> NULL)) (\<lambda>_.
     bindE (load s grandchild) (\<lambda>g.
     bindE (if av_bf g = -1 then bindE (put_bf s parent 1) (\<lambda>s. put_bf s child 0)
            else if av_bf g = 1 then bindE (put_bf s parent 0) (\<lambda>s. put_bf s child (-1))
            else if av_bf g = 0 then bindE (put_bf s child 0) (\<lambda>s. put_bf s parent 0)
            else Inr s) (\<lambda>s.
     bindE (put_bf s grandchild 0) (\<lambda>s.
     bindE (get_right s child) (\<lambda>cr.
     bindE (do_avl_rotate_left s child cr) (\<lambda>(top, s).
     bindE (put_left s parent top) (\<lambda>s.
     bindE (get_left s parent) (\<lambda>pl.
     do_avl_rotate_right s parent pl))))))))"

definition avl_right_left :: "avlnode store \<Rightarrow> ptr \<Rightarrow> ptr \<Rightarrow> ptr \<Rightarrow> (ptr \<times> avlnode store) res" where
  "avl_right_left s parent child grandchild =
     bindE (assertE (parent \<noteq> NULL \<and> child \<noteq> NULL)) (\<lambda>_.
     bindE (load s grandchild) (\<lambda>g.
     bindE (if av_bf g = -1 then bindE (put_bf s parent 0) (\<lambda>s. put_bf s child 1)
            else if av_bf g = 1 then bindE (put_bf s parent (-1)) (\<lambda>s. put_bf s child 0)
            else if av_bf g = 0 then bindE (put_bf s child 0) (\<lambda>s. put_bf s parent 0)
            else Inr s) (\<lambda>s.
     bindE (put_bf s grandchild 0) (\<lambda>s.
     bindE (get_left s child) (\<lambda>cl.
     bindE (do_avl_rotate_right s child cl) (\<lambda>(top, s).
     bindE (put_right s parent top) (\<lambda>s.
     bindE (get_right s parent) (\<lambda>pr.
     do_avl_rotate_left s parent pr))))))))"

definition avl_left :: "avlnode store \<Rightarrow> ptr \<Rightarrow> ptr \<Rightarrow> (ptr \<times> bool \<times> avlnode store) res" where
  "avl_left s parent child =
     bindE (assertE (parent \<noteq> NULL \<and> child \<noteq> NULL)) (\<lambda>_.
     bindE (load s child) (\<lambda>c.
     bindE (if lopsided c
            then bindE (put_bf s child 0) (\<lambda>s. bindE (put_bf s parent 0) (\<lambda>s. Inr (False, s)))
            else bindE (put_bf s parent 1) (\<lambda>s. bindE (put_bf s child (-1)) (\<lambda>s. Inr (True, s)))) (\<lambda>(done, s).
     bindE (do_avl_rotate_left s parent child) (\<lambda>(top, s). Inr (top, done, s)))))"

definition avl_right :: "avlnode store \<Rightarrow> ptr \<Rightarrow> ptr \<Rightarrow> (ptr \<times> bool \<times> avlnode store) res" where
  "avl_right s parent child =
     bindE (assertE (parent \<noteq> NULL \<and> child \<noteq> NULL)) (\<lambda>_.
     bindE (load s child) (\<lambda>c.
     bindE (if lopsided c
            then bindE (put_bf s child 0) (\<lambda>s. bindE (put_bf s parent 0) (\<lambda>s. Inr (False, s)))
            else bindE (put_bf s parent (-1)) (\<lambda>s. bindE (put_bf s child 1) (\<lambda>s. Inr (True, s)))) (\<lambda>(done, s).
     bindE (do_avl_rotate_right s parent child) (\<lambda>(top, s). Inr (top, done, s)))))"

definition update_avl_parameters :: "avlnode store \<Rightarrow> ptr \<Rightarrow> int \<Rightarrow> bool \<Rightarrow> avlnode store res" where
  "update_avl_parameters s node bfchange isdel =
     bindE (assertE (node \<noteq> NULL)) (\<lambda>_.
     bindE (assertE (bfchange = -1 \<or> bfchange = 1)) (\<lambda>_.
     update s node (\<lambda>n. n\<lparr>av_bf := (if isdel then av_bf n - bfchange else av_bf n + bfchange)\<rparr>)))"

definition fix_imbalance ::
    "avlnode store \<Rightarrow> avltree \<Rightarrow> avl_ref \<Rightarrow> ptr \<Rightarrow> ptr \<Rightarrow> (bool \<times> avl_state) res" where
  "fix_imbalance s tree upper parent child =
     bindE (assertE (parent \<noteq> NULL)) (\<lambda>_.
     bindE (assertE (child \<noteq> NULL)) (\<lambda>_.
     bindE (load s parent) (\<lambda>p.
     bindE (load s child) (\<lambda>c.
     bindE (if left_heavy p then
              if right_heavy c
              then bindE (avl_left_right s parent child (av_right c)) (\<lambda>(top, s). Inr (top, False, s))
              else avl_right s parent child
            else
              if left_heavy c
              then bindE (avl_right_left s parent child (av_left c)) (\<lambda>(top, s). Inr (top, False, s))
              else avl_left s parent child) (\<lambda>(top, must_stop, s).
     bindE (put_ref s tree upper top) (\<lambda>(s, tree). Inr (must_stop, s, tree)))))))"

section \<open>Insertion\<close>

fun path_ref :: "avl_waypoint list \<Rightarrow> avl_ref" where
  "path_ref [] = RootRef"
| "path_ref ((a, dir) # path) = (if dir = LEFT then LeftRef (Some a) else RightRef (Some a))"

fun avl_insert_fixup :: "avlnode store \<Rightarrow> avltree \<Rightarrow> avl_waypoint list \<Rightarrow> avl_state res" where
  "avl_insert_fixup s tree [] = Inr (s, tree)"
| "avl_insert_fixup s tree ((parent, dir) # path) =
     bindE (update_avl_parameters s (Some parent) (dir_num dir) False) (\<lambda>s.
     bindE (load s (Some parent)) (\<lambda>n.
     if perfectly_balanced n then Inr (s, tree)
     else if unbalanced n then
       let child = (if dir = LEFT then av_left n else av_right n) in
       bindE (fix_imbalance s tree (path_ref path) (Some parent) child) (\<lambda>(_, st). Inr st)
     else avl_insert_fixup s tree path))"

definition avl_try_insert ::
    "nat \<Rightarrow> avlnode store \<Rightarrow> avltree \<Rightarrow> ptr \<Rightarrow> (bool \<times> avl_waypoint list \<times> avl_state) res" where
  "avl_try_insert fuel s tree node =
     bindE (initialize_avl_node s node) (\<lambda>s.
     if at_root tree = NULL then
       bindE (assertE (at_count tree = 0)) (\<lambda>_.
       Inr (True, [], s, tree\<lparr>at_root := node, at_count := at_count tree + 1\<rparr>))
     else
       bindE (avl_trace_path_to_node fuel s tree NULL (the node)) (\<lambda>path.
       case path of
         [] \<Rightarrow> Inl AssertFail
       | (p, dir) # _ \<Rightarrow>
           if dir = EQUAL then Inr (False, path, s, tree)
           else
             bindE (if dir = LEFT then put_left s (Some p) node else put_right s (Some p) node) (\<lambda>s.
             let tree = tree\<lparr>at_count := at_count tree + 1\<rparr> in
             bindE (avl_insert_fixup s tree path) (\<lambda>(s, tree).
             Inr (True, path, s, tree)))))"

definition Avl_insert_node :: "nat \<Rightarrow> avlnode store \<Rightarrow> avltree \<Rightarrow> addr \<Rightarrow> (bool \<times> avl_state) res" where
  "Avl_insert_node fuel s tree node =
     (if cache_hit tree node then Inr (False, s, tree)
      else bindE (avl_try_insert fuel s tree (Some node)) (\<lambda>(inserted, path, st). Inr (inserted, st)))"

definition Avl_find_or_insert_node :: "nat \<Rightarrow> avlnode store \<Rightarrow> avltree \<Rightarrow> addr \<Rightarrow> (ptr \<times> avl_state) res" where
  "Avl_find_or_insert_node fuel s tree node =
     (if cache_hit tree node then Inr (at_cached tree, s, tree)
      else
        bindE (avl_try_insert fuel s tree (Some node)) (\<lambda>(inserted, path, s, tree).
        if inserted then Inr (NULL, s, tree)
        else (case path of
                [] \<Rightarrow> Inl AssertFail
              | (duplicate, _) # _ \<Rightarrow> Inr (Some duplicate, s, update_cache tree (Some duplicate)))))"

section \<open>Lookup\<close>

definition Avl_find_node :: "nat \<Rightarrow> avlnode store \<Rightarrow> avltree \<Rightarrow> addr \<Rightarrow> (ptr \<times> avltree) res" where
  "Avl_find_node fuel s tree key =
     (if cache_hit tree key then Inr (at_cached tree, tree)
      else
        bindE (avl_find_node fuel s tree key) (\<lambda>found.
        Inr (found, if found \<noteq> NULL then tree\<lparr>at_cached := found\<rparr> else tree)))"

definition Avl_has_node :: "nat \<Rightarrow> avlnode store \<Rightarrow> avltree \<Rightarrow> addr \<Rightarrow> (bool \<times> avltree) res" where
  "Avl_has_node fuel s tree key =
     bindE (Avl_find_node fuel s tree key) (\<lambda>(found, tree). Inr (found \<noteq> NULL, tree))"

section \<open>Deletion\<close>

fun avl_delete_fixup :: "avlnode store \<Rightarrow> avltree \<Rightarrow> avl_waypoint list \<Rightarrow> avl_state res" where
  "avl_delete_fixup s tree [] = Inr (s, tree)"
| "avl_delete_fixup s tree ((parent, dir) # path) =
     bindE (update_avl_parameters s (Some parent) (dir_num dir) True) (\<lambda>s.
     bindE (load s (Some parent)) (\<lambda>n.
     if lopsided n then Inr (s, tree)
     else if \<not> unbalanced n then
       bindE (assertE (perfectly_balanced n)) (\<lambda>_. avl_delete_fixup s tree path)
     else
       bindE (assertE (dir = LEFT \<or> dir = RIGHT)) (\<lambda>_.
       let child = (if dir = RIGHT then av_left n else av_right n) in
       bindE (assertE (case path of [] \<Rightarrow> True | (_, d) # _ \<Rightarrow> d = LEFT \<or> d = RIGHT)) (\<lambda>_.
       bindE (fix_imbalance s tree (path_ref path) (Some parent) child) (\<lambda>(must_stop, s, tree).
       if must_stop then Inr (s, tree) else avl_delete_fixup s tree path)))))"

text \<open>The replacement of a node with two children by its in-order successor: the new subtree root and
  the waypoints from it down to the place a node is missing from.\<close>

definition replace_by_successor ::
    "nat \<Rightarrow> avlnode store \<Rightarrow> avltree \<Rightarrow> addr \<Rightarrow> (ptr \<times> avl_waypoint list \<times> avlnode store) res" where
  "replace_by_successor fuel s tree k =
     bindE (avl_find_inorder_successor fuel s (Some k)) (\<lambda>suc.
     bindE (assertE (suc \<noteq> NULL)) (\<lambda>_.
     bindE (get_right s (Some k)) (\<lambda>kr.
     bindE (if suc \<noteq> kr then
              bindE (avl_trace_path_to_node fuel s tree kr (the suc)) (\<lambda>rp.
              case tl rp of
                [] \<Rightarrow> Inl AssertFail
              | (suc_parent, _) # _ \<Rightarrow>
                  bindE (get_right s suc) (\<lambda>sr.
                  bindE (put_left s (Some suc_parent) sr) (\<lambda>s. Inr (tl rp, s))))
            else Inr ([], s)) (\<lambda>(rp, s).
     bindE (get_right s (Some k)) (\<lambda>kr.
     bindE (copy_avlnode_fields s suc (Some k) True (suc \<noteq> kr)) (\<lambda>s.
     Inr (suc, rp @ [(the suc, RIGHT)], s)))))))"

text \<open>The middle of \<open>Avl_delete_node\<close>: the node \<open>k\<close>, found at the end of \<open>path\<close>, is replaced by its
  only child or its in-order successor, the new subtree is linked to the parent and the balance
  factors are repaired upwards.\<close>

definition delete_unlink ::
    "nat \<Rightarrow> avlnode store \<Rightarrow> avltree \<Rightarrow> addr \<Rightarrow> avl_waypoint list \<Rightarrow> avl_state res" where
  "delete_unlink fuel s tree k path =
     bindE (load s (Some k)) (\<lambda>n.
     bindE (if left_child_only n then Inr (av_left n, [], s)
            else if right_child_only n then Inr (av_right n, [], s)
            else if both_children n then replace_by_successor fuel s tree k
            else Inr (NULL, [], s)) (\<lambda>(node, rp, s).
     bindE (case path of
              [] \<Rightarrow> Inr (s, tree\<lparr>at_root := node\<rparr>)
            | (p, dir) # _ \<Rightarrow>
                bindE (if dir = LEFT then put_left s (Some p) node else put_right s (Some p) node) (\<lambda>s.
                Inr (s, tree))) (\<lambda>(s, tree).
     if at_root tree \<noteq> NULL then avl_delete_fixup s tree (rp @ path) else Inr (s, tree))))"

definition Avl_delete_node :: "nat \<Rightarrow> avlnode store \<Rightarrow> avltree \<Rightarrow> addr \<Rightarrow> bool \<Rightarrow> (bool \<times> avl_state) res" where
  "Avl_delete_node fuel s tree k free_container =
     (if at_count tree = 0 then Inr (False, s, tree)
      else
        bindE (avl_trace_path_to_node fuel s tree NULL k) (\<lambda>path.
        case path of
          [] \<Rightarrow> Inr (False, s, tree)
        | (k, _) # path \<Rightarrow>
            bindE (delete_unlink fuel s tree k path) (\<lambda>(s, tree).
            bindE (if free_container
                   then (case at_dtor tree of None \<Rightarrow> Inl (Throw ERROR_MISCONFIGURED) | Some d \<Rightarrow> d s k)
                   else Inr s) (\<lambda>s.
            Inr (True, s, (clear_cache tree)\<lparr>at_count := at_count tree - 1\<rparr>)))))"

section \<open>Order statistics\<close>

fun find_kth_inorder ::
    "nat \<Rightarrow> avlnode store \<Rightarrow> ptr \<Rightarrow> nat \<Rightarrow> nat \<Rightarrow> bool \<Rightarrow> ptr \<Rightarrow> (nat \<times> ptr) res" where
  "find_kth_inorder 0 s node k n backward found = Inl OutOfFuel"
| "find_kth_inorder (Suc fuel) s node k n backward found =
     (if node = NULL then Inr (n, found)
      else
        bindE (load s node) (\<lambda>nd.
        bindE (find_kth_inorder fuel s (if backward then av_right nd else av_left nd) k n backward found)
          (\<lambda>(n, found).
        if n = k then Inr (n, found)
        else
          let n = n + 1 in
          if n = k then Inr (n, node)
          else find_kth_inorder fuel s (if backward then av_left nd else av_right nd) k n backward found)))"

definition Avl_get_kth_min :: "nat \<Rightarrow> avlnode store \<Rightarrow> avltree \<Rightarrow> nat \<Rightarrow> ptr res" where
  "Avl_get_kth_min fuel s tree k =
     bindE (assertE (k > 0)) (\<lambda>_.
     if k > at_count tree then Inr NULL
     else
       let half = at_count tree div 2 in
       bindE (find_kth_inorder fuel s (at_root tree)
                (if k > half then at_count tree - (k - 1) else k) 0 (k > half) NULL)
         (\<lambda>(_, found). Inr found))"

definition Avl_get_kth_max :: "nat \<Rightarrow> avlnode store \<Rightarrow> avltree \<Rightarrow> nat \<Rightarrow> ptr res" where
  "Avl_get_kth_max fuel s tree k =
     bindE (assertE (k > 0)) (\<lambda>_.
     if k > at_count tree then Inr NULL
     else Avl_get_kth_min fuel s tree (at_count tree - (k - 1)))"

end
