(* ===== verification/Avl_Shape.thy ===== *)
theory Avl_Shape
  imports Avl "HOL-Library.Tree"
begin

text \<open>
  The shape of a linked AVL tree: \<open>tree_at s p t\<close> relates a pointer into the store to a tree of
  node addresses, \<open>balanced s t\<close> says that every stored balance factor is the true height
  difference and lies between -1 and 1. A path of waypoints corresponds to a one-hole context
  (a list of frames, innermost first): \<open>plug\<close> fills the hole, \<open>ctx_at\<close> and \<open>ctx_bal\<close> are
  \<open>tree_at\<close> and \<open>balanced\<close> for the tree around the hole. Filling the hole and following the
  pointers commute (\<open>tree_at_plug\<close>), which turns the path-based code into tree surgery.
\<close>

section \<open>Trees in the store\<close>

fun tree_at :: "avlnode store \<Rightarrow> ptr \<Rightarrow> addr tree \<Rightarrow> bool" where
  "tree_at s p Leaf \<longleftrightarrow> p = NULL"
| "tree_at s p (Node l a r) \<longleftrightarrow>
     p = Some a \<and> (\<exists>n. s a = Some n \<and> tree_at s (av_left n) l \<and> tree_at s (av_right n) r)"

fun balanced :: "avlnode store \<Rightarrow> addr tree \<Rightarrow> bool" where
  "balanced s Leaf \<longleftrightarrow> True"
| "balanced s (Node l a r) \<longleftrightarrow>
     (\<exists>n. s a = Some n \<and> av_bf n = int (height r) - int (height l) \<and> -1 \<le> av_bf n \<and> av_bf n \<le> 1) \<and>
     balanced s l \<and> balanced s r"

lemma tree_at_cong:
  "(\<And>a. a \<in> set_tree t \<Longrightarrow> map_option (\<lambda>n. (av_left n, av_right n)) (s a) =
      map_option (\<lambda>n. (av_left n, av_right n)) (s' a)) \<Longrightarrow> tree_at s p t = tree_at s' p t"
proof (induction t arbitrary: p)
  case Leaf
  then show ?case by simp
next
  case (Node l a r)
  have "map_option (\<lambda>n. (av_left n, av_right n)) (s a) = map_option (\<lambda>n. (av_left n, av_right n)) (s' a)"
    using Node.prems by simp
  moreover have "tree_at s q l = tree_at s' q l" "tree_at s q r = tree_at s' q r" for q
    using Node by simp_all
  ultimately show ?case by (cases "s a"; cases "s' a") simp_all
qed

lemma balanced_cong:
  "(\<And>a. a \<in> set_tree t \<Longrightarrow> map_option av_bf (s a) = map_option av_bf (s' a)) \<Longrightarrow> balanced s t = balanced s' t"
proof (induction t)
  case Leaf
  then show ?case by simp
next
  case (Node l a r)
  have "map_option av_bf (s a) = map_option av_bf (s' a)" using Node.prems by simp
  moreover have "balanced s l = balanced s' l" "balanced s r = balanced s' r" using Node by simp_all
  ultimately show ?case by (cases "s a"; cases "s' a") simp_all
qed

lemma tree_at_upd [simp]: "a \<notin> set_tree t \<Longrightarrow> tree_at (s(a := v)) p t = tree_at s p t"
  by (rule tree_at_cong) auto

lemma balanced_upd [simp]: "a \<notin> set_tree t \<Longrightarrow> balanced (s(a := v)) t = balanced s t"
  by (rule balanced_cong) auto

lemma tree_at_upd_bf: "s a = Some n \<Longrightarrow> tree_at (s(a \<mapsto> n\<lparr>av_bf := b\<rparr>)) p t = tree_at s p t"
  by (rule tree_at_cong) auto

lemma tree_at_frame: "frame A s s' \<Longrightarrow> A \<inter> set_tree t = {} \<Longrightarrow> tree_at s' p t = tree_at s p t"
  by (rule tree_at_cong) (auto simp: frame_def disjoint_iff)

lemma balanced_frame: "frame A s s' \<Longrightarrow> A \<inter> set_tree t = {} \<Longrightarrow> balanced s' t = balanced s t"
  by (rule balanced_cong) (auto simp: frame_def disjoint_iff)

lemma tree_at_dom: "tree_at s p t \<Longrightarrow> set_tree t \<subseteq> dom s"
  by (induction t arbitrary: p) fastforce+

lemma tree_at_root: "tree_at s p t \<Longrightarrow> p = NULL \<longleftrightarrow> t = Leaf"
  by (cases t) auto

section \<open>Contexts\<close>

type_synonym frames = "(pathTraceDirection \<times> addr \<times> addr tree) list"

fun plug :: "addr tree \<Rightarrow> frames \<Rightarrow> addr tree" where
  "plug t [] = t"
| "plug t ((d, a, u) # c) = plug (if d = LEFT then Node t a u else Node u a t) c"

fun before :: "frames \<Rightarrow> addr list" where
  "before [] = []"
| "before ((d, a, u) # c) = before c @ (if d = LEFT then [] else inorder u @ [a])"

fun after :: "frames \<Rightarrow> addr list" where
  "after [] = []"
| "after ((d, a, u) # c) = (if d = LEFT then a # inorder u else []) @ after c"

definition path_of :: "frames \<Rightarrow> avl_waypoint list" where
  "path_of c = map (\<lambda>(d, a, u). (a, d)) c"

fun ctx_set :: "frames \<Rightarrow> addr set" where
  "ctx_set [] = {}"
| "ctx_set ((d, a, u) # c) = insert a (set_tree u \<union> ctx_set c)"

fun ctx_at :: "avlnode store \<Rightarrow> ptr \<Rightarrow> frames \<Rightarrow> ptr \<Rightarrow> bool" where
  "ctx_at s root [] q \<longleftrightarrow> root = q"
| "ctx_at s root ((d, a, u) # c) q \<longleftrightarrow>
     (\<exists>n. s a = Some n \<and>
        (if d = LEFT then av_left n = q \<and> tree_at s (av_right n) u
         else av_right n = q \<and> tree_at s (av_left n) u)) \<and>
     ctx_at s root c (Some a)"

fun ctx_bal :: "avlnode store \<Rightarrow> frames \<Rightarrow> nat \<Rightarrow> bool" where
  "ctx_bal s [] h \<longleftrightarrow> True"
| "ctx_bal s ((d, a, u) # c) h \<longleftrightarrow>
     (\<exists>n. s a = Some n \<and>
        av_bf n = (if d = LEFT then int (height u) - int h else int h - int (height u)) \<and>
        -1 \<le> av_bf n \<and> av_bf n \<le> 1) \<and>
     balanced s u \<and> ctx_bal s c (max h (height u) + 1)"

lemma path_of_simps [simp]:
  "path_of [] = []"
  "path_of ((d, a, u) # c) = (a, d) # path_of c"
  by (simp_all add: path_of_def)

lemma inorder_plug: "inorder (plug t c) = before c @ inorder t @ after c"
  by (induction t c rule: plug.induct) auto

lemma set_tree_plug: "set_tree (plug t c) = set_tree t \<union> ctx_set c"
  by (induction t c rule: plug.induct) auto

lemma ctx_set_inorder: "ctx_set c = set (before c) \<union> set (after c)"
  by (induction c rule: ctx_set.induct) auto

lemma plug_append: "plug t (c @ c') = plug (plug t c) c'"
  by (induction t c rule: plug.induct) auto

lemma tree_at_plug: "tree_at s root (plug t c) \<longleftrightarrow> (\<exists>q. tree_at s q t \<and> ctx_at s root c q)"
  by (induction t c rule: plug.induct) auto

lemma balanced_plug: "balanced s (plug t c) \<longleftrightarrow> balanced s t \<and> ctx_bal s c (height t)"
  by (induction t c rule: plug.induct) (auto simp: max.commute)

lemma ctx_at_upd [simp]: "a \<notin> ctx_set c \<Longrightarrow> ctx_at (s(a := v)) root c q = ctx_at s root c q"
  by (induction c arbitrary: q rule: ctx_set.induct) auto

lemma ctx_bal_upd [simp]: "a \<notin> ctx_set c \<Longrightarrow> ctx_bal (s(a := v)) c h = ctx_bal s c h"
  by (induction c arbitrary: h rule: ctx_set.induct) auto

lemma ctx_at_frame: "frame A s s' \<Longrightarrow> A \<inter> ctx_set c = {} \<Longrightarrow> ctx_at s' root c q = ctx_at s root c q"
proof (induction c arbitrary: q rule: ctx_set.induct)
  case 1
  then show ?case by simp
next
  case (2 d a u c)
  then have "s' a = s a" "A \<inter> set_tree u = {}" "A \<inter> ctx_set c = {}" by (auto simp: frame_def)
  with 2 tree_at_frame [of A s s' u] show ?case by simp
qed

lemma ctx_bal_frame: "frame A s s' \<Longrightarrow> A \<inter> ctx_set c = {} \<Longrightarrow> ctx_bal s' c h = ctx_bal s c h"
proof (induction c arbitrary: h rule: ctx_set.induct)
  case 1
  then show ?case by simp
next
  case (2 d a u c)
  then have "s' a = s a" "A \<inter> set_tree u = {}" "A \<inter> ctx_set c = {}" by (auto simp: frame_def)
  with 2 balanced_frame [of A s s' u] show ?case by simp
qed

text \<open>Writing the child pointer of the innermost frame (or the root) moves the hole.\<close>

lemma put_ref_ctx:
  assumes "ctx_at s (at_root tree) c q" and "distinct (before c @ after c)"
  shows "\<exists>s' tree'. put_ref s tree (path_ref (path_of c)) p = Inr (s', tree') \<and>
           ctx_at s' (at_root tree') c p \<and> (\<forall>h. ctx_bal s' c h = ctx_bal s c h) \<and>
           frame (ctx_set c) s s' \<and> tree' = tree\<lparr>at_root := at_root tree'\<rparr>"
proof (cases c rule: ctx_set.cases)
  case 1
  with assms show ?thesis by simp
next
  case (2 d a u c')
  have ne: "a \<notin> set_tree u" "a \<notin> ctx_set c'"
    using assms(2) by (auto simp: 2 ctx_set_inorder split: if_splits)
  with assms(1) show ?thesis
    by (cases "d = LEFT") (auto simp: 2 put_left_def put_right_def frame_def)
qed

section \<open>Distinct addresses\<close>

lemma distinct_plug: "distinct (inorder (plug t c)) \<longleftrightarrow>
    distinct (inorder t) \<and> distinct (before c @ after c) \<and> set_tree t \<inter> ctx_set c = {}"
  by (auto simp: inorder_plug ctx_set_inorder)

lemma distinct_Node: "distinct (inorder (Node l a r)) \<longleftrightarrow>
    distinct (inorder l) \<and> distinct (inorder r) \<and> a \<notin> set_tree l \<and> a \<notin> set_tree r \<and>
    set_tree l \<inter> set_tree r = {}"
  by auto

end
