(* ===== verification/Avl_Correct.thy ===== *)
theory Avl_Correct
  imports Avl_Shape
begin

text \<open>
  Correctness of the AVL operations on the pointer structure: rebalancing, insertion with its
  upward fixup, deletion with successor replacement and its fixup, lookup through the cache,
  minimum, maximum and order statistics, traversal and destruction.
\<close>

section \<open>Rebalancing one subtree\<close>

lemmas avl_access = put_left_def put_right_def put_bf_def get_left_def get_right_def

lemma avl_right_ok:
  assumes "s a = Some n" and "s c = Some m" and "a \<noteq> c" and "av_bf m \<in> {-1, 0}"
  shows "avl_right s (Some a) (Some c) =
     Inr (Some c, av_bf m = 0,
       s(a \<mapsto> n\<lparr>av_left := av_right m, av_bf := (if av_bf m = 0 then -1 else 0)\<rparr>,
         c \<mapsto> m\<lparr>av_right := Some a, av_bf := (if av_bf m = 0 then 1 else 0)\<rparr>))"
  using assms
  by (auto simp: avl_right_def lopsided_def perfectly_balanced_def unbalanced_def do_avl_rotate_right_def
      avl_access fun_upd_twist)

lemma avl_left_ok:
  assumes "s a = Some n" and "s c = Some m" and "a \<noteq> c" and "av_bf m \<in> {0, 1}"
  shows "avl_left s (Some a) (Some c) =
     Inr (Some c, av_bf m = 0,
       s(a \<mapsto> n\<lparr>av_right := av_left m, av_bf := (if av_bf m = 0 then 1 else 0)\<rparr>,
         c \<mapsto> m\<lparr>av_left := Some a, av_bf := (if av_bf m = 0 then -1 else 0)\<rparr>))"
  using assms
  by (auto simp: avl_left_def lopsided_def perfectly_balanced_def unbalanced_def do_avl_rotate_left_def
      avl_access fun_upd_twist)

lemma avl_left_right_ok:
  assumes "s a = Some n" and "s c = Some m" and "s g = Some k" and "a \<noteq> c" "a \<noteq> g" "c \<noteq> g"
    and "av_right m = Some g" and "av_bf k \<in> {-1, 0, 1}"
  shows "avl_left_right s (Some a) (Some c) (Some g) = Inr (Some g,
     s(a \<mapsto> n\<lparr>av_left := av_right k, av_bf := (if av_bf k = -1 then 1 else 0)\<rparr>,
       c \<mapsto> m\<lparr>av_right := av_left k, av_bf := (if av_bf k = 1 then -1 else 0)\<rparr>,
       g \<mapsto> k\<lparr>av_left := Some c, av_right := Some a, av_bf := 0\<rparr>))"
  using assms
  by (auto simp: avl_left_right_def do_avl_rotate_left_def do_avl_rotate_right_def avl_access fun_eq_iff)

lemma avl_right_left_ok:
  assumes "s a = Some n" and "s c = Some m" and "s g = Some k" and "a \<noteq> c" "a \<noteq> g" "c \<noteq> g"
    and "av_left m = Some g" and "av_bf k \<in> {-1, 0, 1}"
  shows "avl_right_left s (Some a) (Some c) (Some g) = Inr (Some g,
     s(a \<mapsto> n\<lparr>av_right := av_left k, av_bf := (if av_bf k = 1 then -1 else 0)\<rparr>,
       c \<mapsto> m\<lparr>av_left := av_right k, av_bf := (if av_bf k = -1 then 1 else 0)\<rparr>,
       g \<mapsto> k\<lparr>av_left := Some a, av_right := Some c, av_bf := 0\<rparr>))"
  using assms
  by (auto simp: avl_right_left_def do_avl_rotate_left_def do_avl_rotate_right_def avl_access fun_eq_iff)

fun root_even :: "addr tree \<Rightarrow> bool" where
  "root_even Leaf \<longleftrightarrow> True"
| "root_even (Node l a r) \<longleftrightarrow> height l = height r"

text \<open>What rebalancing promises about the subtree \<open>Node l a r\<close> whose root is two levels too heavy on
  the side of \<open>heavy\<close>: a balanced subtree with the same in-order sequence, one level lower
  than before unless the heavy child was even.\<close>

definition rebalanced ::
    "avlnode store \<Rightarrow> avltree \<Rightarrow> avl_ref \<Rightarrow> addr \<Rightarrow> ptr \<Rightarrow> addr tree \<Rightarrow> addr tree \<Rightarrow> bool" where
  "rebalanced s tree ref a child whole heavy \<longleftrightarrow>
     (\<exists>p s' t. fix_imbalance s tree ref (Some a) child =
          bindE (put_ref s' tree ref p) (\<lambda>(s, tree). Inr (root_even heavy, s, tree)) \<and>
        tree_at s' p t \<and> balanced s' t \<and> inorder t = inorder whole \<and> frame (set_tree whole) s s' \<and>
        height t = (if root_even heavy then height heavy + 1 else height heavy))"

lemma rebalancedI:
  assumes "fix_imbalance s tree ref (Some a) child =
      bindE (put_ref s' tree ref p) (\<lambda>(s, tree). Inr (root_even heavy, s, tree))"
    and "tree_at s' p t" and "balanced s' t" and "frame (set_tree whole) s s'"
    and "height t = (if root_even heavy then height heavy + 1 else height heavy)"
    and "inorder t = inorder whole"
  shows "rebalanced s tree ref a child whole heavy"
  using assms unfolding rebalanced_def by blast

lemma rebalance_left_heavy:
  assumes a: "s a = Some n" "av_bf n = -2"
    and l: "tree_at s (av_left n) l" "balanced s l" and r: "tree_at s (av_right n) r" "balanced s r"
    and h: "height l = height r + 2" and d: "distinct (inorder (Node l a r))"
  shows "rebalanced s tree ref a (av_left n) (Node l a r) l"
proof -
  obtain ll c lr where lt: "l = Node ll c lr" using h by (cases l) auto
  obtain m where m: "av_left n = Some c" "s c = Some m" "tree_at s (av_left m) ll" "tree_at s (av_right m) lr"
      "av_bf m = int (height lr) - int (height ll)" "-1 \<le> av_bf m" "av_bf m \<le> 1"
      "balanced s ll" "balanced s lr"
    using l by (auto simp: lt)
  have ne: "a \<noteq> c" "a \<notin> set_tree ll" "a \<notin> set_tree lr" "a \<notin> set_tree r" "c \<notin> set_tree ll" "c \<notin> set_tree lr"
      "c \<notin> set_tree r" "distinct (inorder lr)" "set_tree lr \<inter> set_tree ll = {}" "set_tree lr \<inter> set_tree r = {}"
    using d by (auto simp: lt)
  show ?thesis
  proof (cases "right_heavy m")
    case False
    let ?s = "s(a \<mapsto> n\<lparr>av_left := av_right m, av_bf := (if av_bf m = 0 then -1 else 0)\<rparr>,
        c \<mapsto> m\<lparr>av_right := Some a, av_bf := (if av_bf m = 0 then 1 else 0)\<rparr>)"
    have "av_bf m \<in> {-1, 0}" using False m(6) by (auto simp: right_heavy_def)
    moreover from this m(5) have even: "root_even l \<longleftrightarrow> av_bf m = 0" by (auto simp: lt)
    ultimately have 1: "fix_imbalance s tree ref (Some a) (av_left n) =
        bindE (put_ref ?s tree ref (Some c)) (\<lambda>(s, tree). Inr (root_even l, s, tree))"
      using a m(1,2) ne(1) False avl_right_ok [OF a(1) m(2)]
      by (simp add: fix_imbalance_def left_heavy_def)
    have 2: "tree_at ?s (Some c) (Node ll c (Node lr a r))"
      using m r ne by simp
    have 3: "balanced ?s (Node ll c (Node lr a r))"
      using m(5-9) r(2) ne h \<open>av_bf m \<in> {-1, 0}\<close> by (auto simp: lt)
    have 4: "frame (set_tree (Node l a r)) s ?s"
      using a m(2) by (auto simp: frame_def lt)
    have 5: "height (Node ll c (Node lr a r)) = (if root_even l then height l + 1 else height l)"
      using m(5-7) h \<open>av_bf m \<in> {-1, 0}\<close> by (auto simp: lt)
    show ?thesis by (rule rebalancedI [OF 1 2 3 4 5]) (simp add: lt)
  next
    case True
    then have bf: "av_bf m = 1" using m(7) by (simp add: right_heavy_def)
    then obtain g1 g g2 where lrt: "lr = Node g1 g g2" using m(5) by (cases lr) auto
    obtain k where k: "av_right m = Some g" "s g = Some k" "tree_at s (av_left k) g1" "tree_at s (av_right k) g2"
        "av_bf k = int (height g2) - int (height g1)" "-1 \<le> av_bf k" "av_bf k \<le> 1" "balanced s g1" "balanced s g2"
      using m(4,9) by (auto simp: lrt)
    have ne': "a \<noteq> g" "c \<noteq> g" "g \<notin> set_tree ll" "g \<notin> set_tree r" "g \<notin> set_tree g1" "g \<notin> set_tree g2"
        "a \<notin> set_tree g1" "a \<notin> set_tree g2" "c \<notin> set_tree g1" "c \<notin> set_tree g2"
      using ne by (auto simp: lrt)
    let ?s = "s(a \<mapsto> n\<lparr>av_left := av_right k, av_bf := (if av_bf k = -1 then 1 else 0)\<rparr>,
       c \<mapsto> m\<lparr>av_right := av_left k, av_bf := (if av_bf k = 1 then -1 else 0)\<rparr>,
       g \<mapsto> k\<lparr>av_left := Some c, av_right := Some a, av_bf := 0\<rparr>)"
    let ?t = "Node (Node ll c g1) g (Node g2 a r)"
    have kbf: "av_bf k \<in> {-1, 0, 1}" using k(6,7) by auto
    have odd: "\<not> root_even l" using m(5) bf by (auto simp: lt)
    have 1: "fix_imbalance s tree ref (Some a) (av_left n) =
        bindE (put_ref ?s tree ref (Some g)) (\<lambda>(s, tree). Inr (root_even l, s, tree))"
      using a m(1,2) k(1) True odd avl_left_right_ok [OF a(1) m(2) k(2) ne(1) ne'(1,2) k(1) kbf]
      by (simp add: fix_imbalance_def left_heavy_def)
    have 2: "tree_at ?s (Some g) ?t"
      using m(3) k(3,4) r ne ne' by simp
    have 3: "balanced ?s ?t"
      using m(5-9) bf k(5-9) kbf r(2) ne ne' h by (auto simp: lt lrt)
    have 4: "frame (set_tree (Node l a r)) s ?s"
      using a m(2) k(2) by (auto simp: frame_def lt lrt)
    have 5: "height ?t = (if root_even l then height l + 1 else height l)"
      using odd m(5) bf k(5-7) h kbf by (auto simp: lt lrt)
    show ?thesis by (rule rebalancedI [OF 1 2 3 4 5]) (simp add: lt lrt)
  qed
qed

lemma rebalance_right_heavy:
  assumes a: "s a = Some n" "av_bf n = 2"
    and l: "tree_at s (av_left n) l" "balanced s l" and r: "tree_at s (av_right n) r" "balanced s r"
    and h: "height r = height l + 2" and d: "distinct (inorder (Node l a r))"
  shows "rebalanced s tree ref a (av_right n) (Node l a r) r"
proof -
  obtain rl c rr where rt: "r = Node rl c rr" using h by (cases r) auto
  obtain m where m: "av_right n = Some c" "s c = Some m" "tree_at s (av_left m) rl" "tree_at s (av_right m) rr"
      "av_bf m = int (height rr) - int (height rl)" "-1 \<le> av_bf m" "av_bf m \<le> 1"
      "balanced s rl" "balanced s rr"
    using r by (auto simp: rt)
  have ne: "a \<noteq> c" "a \<notin> set_tree rl" "a \<notin> set_tree rr" "a \<notin> set_tree l" "c \<notin> set_tree rl" "c \<notin> set_tree rr"
      "c \<notin> set_tree l" "distinct (inorder rl)" "set_tree rl \<inter> set_tree rr = {}" "set_tree rl \<inter> set_tree l = {}"
    using d by (auto simp: rt)
  show ?thesis
  proof (cases "left_heavy m")
    case False
    let ?s = "s(a \<mapsto> n\<lparr>av_right := av_left m, av_bf := (if av_bf m = 0 then 1 else 0)\<rparr>,
        c \<mapsto> m\<lparr>av_left := Some a, av_bf := (if av_bf m = 0 then -1 else 0)\<rparr>)"
    have "av_bf m \<in> {0, 1}" using False m(7) by (auto simp: left_heavy_def)
    moreover from this m(5) have even: "root_even r \<longleftrightarrow> av_bf m = 0" by (auto simp: rt)
    ultimately have 1: "fix_imbalance s tree ref (Some a) (av_right n) =
        bindE (put_ref ?s tree ref (Some c)) (\<lambda>(s, tree). Inr (root_even r, s, tree))"
      using a m(1,2) ne(1) False avl_left_ok [OF a(1) m(2)]
      by (simp add: fix_imbalance_def left_heavy_def)
    have 2: "tree_at ?s (Some c) (Node (Node l a rl) c rr)"
      using m l ne by simp
    have 3: "balanced ?s (Node (Node l a rl) c rr)"
      using m(5-9) l(2) ne h \<open>av_bf m \<in> {0, 1}\<close> by (auto simp: rt)
    have 4: "frame (set_tree (Node l a r)) s ?s"
      using a m(2) by (auto simp: frame_def rt)
    have 5: "height (Node (Node l a rl) c rr) = (if root_even r then height r + 1 else height r)"
      using m(5-7) h \<open>av_bf m \<in> {0, 1}\<close> by (auto simp: rt)
    show ?thesis by (rule rebalancedI [OF 1 2 3 4 5]) (simp add: rt)
  next
    case True
    then have bf: "av_bf m = -1" using m(6) by (simp add: left_heavy_def)
    then obtain g1 g g2 where rlt: "rl = Node g1 g g2" using m(5) by (cases rl) auto
    obtain k where k: "av_left m = Some g" "s g = Some k" "tree_at s (av_left k) g1" "tree_at s (av_right k) g2"
        "av_bf k = int (height g2) - int (height g1)" "-1 \<le> av_bf k" "av_bf k \<le> 1" "balanced s g1" "balanced s g2"
      using m(3,8) by (auto simp: rlt)
    have ne': "a \<noteq> g" "c \<noteq> g" "g \<notin> set_tree rr" "g \<notin> set_tree l" "g \<notin> set_tree g1" "g \<notin> set_tree g2"
        "a \<notin> set_tree g1" "a \<notin> set_tree g2" "c \<notin> set_tree g1" "c \<notin> set_tree g2"
      using ne by (auto simp: rlt)
    let ?s = "s(a \<mapsto> n\<lparr>av_right := av_left k, av_bf := (if av_bf k = 1 then -1 else 0)\<rparr>,
       c \<mapsto> m\<lparr>av_left := av_right k, av_bf := (if av_bf k = -1 then 1 else 0)\<rparr>,
       g \<mapsto> k\<lparr>av_left := Some a, av_right := Some c, av_bf := 0\<rparr>)"
    let ?t = "Node (Node l a g1) g (Node g2 c rr)"
    have kbf: "av_bf k \<in> {-1, 0, 1}" using k(6,7) by auto
    have odd: "\<not> root_even r" using m(5) bf by (auto simp: rt)
    have 1: "fix_imbalance s tree ref (Some a) (av_right n) =
        bindE (put_ref ?s tree ref (Some g)) (\<lambda>(s, tree). Inr (root_even r, s, tree))"
      using a m(1,2) k(1) True odd avl_right_left_ok [OF a(1) m(2) k(2) ne(1) ne'(1,2) k(1) kbf]
      by (simp add: fix_imbalance_def left_heavy_def)
    have 2: "tree_at ?s (Some g) ?t"
      using m(4) k(3,4) l ne ne' by simp
    have 3: "balanced ?s ?t"
      using m(5-9) bf k(5-9) kbf l(2) ne ne' h by (auto simp: rt rlt)
    have 4: "frame (set_tree (Node l a r)) s ?s"
      using a m(2) k(2) by (auto simp: frame_def rt rlt)
    have 5: "height ?t = (if root_even r then height r + 1 else height r)"
      using odd m(5) bf k(5-7) h kbf by (auto simp: rt rlt)
    show ?thesis by (rule rebalancedI [OF 1 2 3 4 5]) (simp add: rt rlt)
  qed
qed

section \<open>Rebalancing inside a context\<close>

lemma rebalanced_link:
  assumes "rebalanced s tree (path_ref (path_of c)) a child whole heavy"
    and c: "ctx_at s (at_root tree) c q" "ctx_bal s c h" and d: "distinct (inorder (plug whole c))"
  obtains s' tree' t p where
    "fix_imbalance s tree (path_ref (path_of c)) (Some a) child = Inr (root_even heavy, s', tree')"
    "tree_at s' p t" "ctx_at s' (at_root tree') c p" "balanced s' t" "ctx_bal s' c h"
    "inorder t = inorder whole" "frame (set_tree (plug whole c)) s s'"
    "tree' = tree\<lparr>at_root := at_root tree'\<rparr>"
    "height t = (if root_even heavy then height heavy + 1 else height heavy)"
proof -
  obtain p s1 t where 1: "fix_imbalance s tree (path_ref (path_of c)) (Some a) child =
        bindE (put_ref s1 tree (path_ref (path_of c)) p) (\<lambda>(s, tree). Inr (root_even heavy, s, tree))"
      "tree_at s1 p t" "balanced s1 t" "inorder t = inorder whole" "frame (set_tree whole) s s1"
      "height t = (if root_even heavy then height heavy + 1 else height heavy)"
    using assms(1) by (auto simp: rebalanced_def)
  have disj: "set_tree whole \<inter> ctx_set c = {}" "distinct (before c @ after c)"
    using d by (simp_all add: distinct_plug)
  have same: "set_tree t = set_tree whole" using 1(4) by (metis set_inorder)
  have c1: "ctx_at s1 (at_root tree) c q" "ctx_bal s1 c h"
    using c ctx_at_frame [OF 1(5) disj(1)] ctx_bal_frame [OF 1(5) disj(1)] by simp_all
  obtain s2 tree2 where 2: "put_ref s1 tree (path_ref (path_of c)) p = Inr (s2, tree2)"
      "ctx_at s2 (at_root tree2) c p" "\<forall>h. ctx_bal s2 c h = ctx_bal s1 c h" "frame (ctx_set c) s1 s2"
      "tree2 = tree\<lparr>at_root := at_root tree2\<rparr>"
    using put_ref_ctx [OF c1(1) disj(2)] by blast
  have "ctx_set c \<inter> set_tree t = {}" using same disj(1) by blast
  then have "tree_at s2 p t" "balanced s2 t"
    using 1(2,3) tree_at_frame [OF 2(4)] balanced_frame [OF 2(4)] by simp_all
  moreover have "frame (set_tree (plug whole c)) s s2"
    using frame_trans [OF 1(5) 2(4)] by (simp add: set_tree_plug)
  ultimately show thesis using 1 2 c1 by (intro that [of s2 tree2 p t]) auto
qed

section \<open>The insertion fixup\<close>

lemma avl_insert_fixup_ok:
  assumes "tree_at s q t" "ctx_at s (at_root tree) c q" "balanced s t" "ctx_bal s c h"
    and "height t = h + 1" "h = 0 \<or> \<not> root_even t" "distinct (inorder (plug t c))"
    and "EQUAL \<notin> fst ` set c"
  shows "\<exists>s' tree' t'. avl_insert_fixup s tree (path_of c) = Inr (s', tree') \<and>
           tree_at s' (at_root tree') t' \<and> balanced s' t' \<and> inorder t' = inorder (plug t c) \<and>
           frame (set_tree (plug t c)) s s' \<and> tree' = tree\<lparr>at_root := at_root tree'\<rparr>"
  using assms
proof (induction c arbitrary: s t q h rule: ctx_set.induct)
  case 1
  then show ?case by auto
next
  case (2 d a u c)
  obtain n where n: "s a = Some n" "if d = LEFT then av_left n = q \<and> tree_at s (av_right n) u
         else av_right n = q \<and> tree_at s (av_left n) u" "ctx_at s (at_root tree) c (Some a)"
    "av_bf n = (if d = LEFT then int (height u) - int h else int h - int (height u))"
    "-1 \<le> av_bf n" "av_bf n \<le> 1" "balanced s u" "ctx_bal s c (max h (height u) + 1)"
    using "2.prems"(2,4) by auto
  have dir: "d = LEFT \<or> d = RIGHT" using "2.prems"(8) by (cases d) auto
  let ?whole = "if d = LEFT then Node t a u else Node u a t"
  have ne: "a \<notin> set_tree t" "a \<notin> set_tree u" "a \<notin> ctx_set c" "distinct (inorder ?whole)"
      "distinct (inorder (plug ?whole c))"
    using "2.prems"(7) by (auto simp: distinct_plug split: if_splits)
  let ?b = "av_bf n + dir_num d"
  let ?n = "n\<lparr>av_bf := ?b\<rparr>" and ?s = "s(a \<mapsto> n\<lparr>av_bf := av_bf n + dir_num d\<rparr>)"
  have bf: "?b = (if d = LEFT then int (height u) - int (height t) else int (height t) - int (height u))"
    using n(4) "2.prems"(5) dir by auto
  have upd: "update_avl_parameters s (Some a) (dir_num d) False = Inr ?s"
    using n(1) dir by (auto simp: update_avl_parameters_def)
  have t: "tree_at ?s q t" "balanced ?s t" "balanced ?s u" "tree_at ?s p u = tree_at s p u" for p
    using "2.prems"(1,3) n(7) ne by simp_all
  have c: "ctx_at ?s (at_root tree) c (Some a)" "ctx_bal ?s c (max h (height u) + 1)"
    using n(3,8) ne(3) by simp_all
  have whole: "tree_at ?s (Some a) ?whole"
    using t n(2) by auto
  have fr: "frame (set_tree (plug ?whole c)) s ?s" using n(1) by (auto simp: frame_def set_tree_plug)
  consider (even) "?b = 0" | (tilted) "?b \<noteq> 0" "-1 \<le> ?b" "?b \<le> 1" | (off) "?b < -1 \<or> 1 < ?b"
    by linarith
  then show ?case
  proof cases
    case even
    have "height ?whole = max h (height u) + 1" using even bf n(4) "2.prems"(5) by (auto split: if_splits)
    then have "balanced ?s (plug ?whole c)"
      using t c even bf by (auto simp: balanced_plug split: if_splits)
    moreover have "tree_at ?s (at_root tree) (plug ?whole c)"
      using whole c by (auto simp: tree_at_plug)
    moreover have "avl_insert_fixup s tree (path_of ((d, a, u) # c)) = Inr (?s, tree)"
      using upd even by (simp add: perfectly_balanced_def)
    ultimately show ?thesis using fr by auto
  next
    case tilted
    have old: "height u = h" using tilted bf n(4-6) "2.prems"(5) dir by (auto split: if_splits)
    have "\<exists>s' tree' t'. avl_insert_fixup ?s tree (path_of c) = Inr (s', tree') \<and>
           tree_at s' (at_root tree') t' \<and> balanced s' t' \<and> inorder t' = inorder (plug ?whole c) \<and>
           frame (set_tree (plug ?whole c)) ?s s' \<and> tree' = tree\<lparr>at_root := at_root tree'\<rparr>"
    proof (rule "2.IH" [OF whole c(1) _ c(2)])
      show "balanced ?s ?whole" using t bf tilted by auto
      show "height ?whole = max h (height u) + 1 + 1" using old "2.prems"(5) by auto
      show "max h (height u) + 1 = 0 \<or> \<not> root_even ?whole" using bf tilted by auto
    qed (use ne "2.prems"(8) in auto)
    moreover have "avl_insert_fixup s tree (path_of ((d, a, u) # c)) = avl_insert_fixup ?s tree (path_of c)"
      using upd tilted by (simp add: perfectly_balanced_def unbalanced_def)
    ultimately show ?thesis using fr frame_trans by fastforce
  next
    case off
    have hh: "h \<noteq> 0" "height t = height u + 2" "?b = (if d = LEFT then -2 else 2)"
      using off bf n(4-6) "2.prems"(5) dir by (auto split: if_splits)
    have n': "?s a = Some ?n" "av_bf ?n = ?b" by simp_all
    have reb: "rebalanced ?s tree (path_ref (path_of c)) a (if d = LEFT then av_left ?n else av_right ?n) ?whole t"
    proof (cases "d = LEFT")
      case True
      then show ?thesis
        using rebalance_left_heavy [of ?s a ?n t u] n(2) t hh ne(4) by simp
    next
      case False
      then show ?thesis
        using rebalance_right_heavy [of ?s a ?n u t] n(2) t hh ne(4) by simp
    qed
    obtain s' tree' t' p where fin: "fix_imbalance ?s tree (path_ref (path_of c)) (Some a)
          (if d = LEFT then av_left ?n else av_right ?n) = Inr (root_even t, s', tree')"
        "tree_at s' p t'" "ctx_at s' (at_root tree') c p" "balanced s' t'"
        "ctx_bal s' c (max h (height u) + 1)" "inorder t' = inorder ?whole"
        "frame (set_tree (plug ?whole c)) ?s s'" "tree' = tree\<lparr>at_root := at_root tree'\<rparr>"
        "height t' = (if root_even t then height t + 1 else height t)"
      by (rule rebalanced_link [OF reb c ne(5)])
    have ht: "height t' = max h (height u) + 1"
      using fin(9) hh "2.prems"(5,6) by auto
    have "avl_insert_fixup s tree (path_of ((d, a, u) # c)) = Inr (s', tree')"
    proof -
      have "unbalanced ?n" "\<not> perfectly_balanced ?n" using off by (auto simp: unbalanced_def perfectly_balanced_def)
      moreover have "load ?s (Some a) = Inr ?n" by simp
      ultimately show ?thesis
        using fin(1) by (simp only: path_of_simps avl_insert_fixup.simps upd bindE_simps Let_def if_True if_False prod.case)
    qed
    moreover have "tree_at s' (at_root tree') (plug t' c)" "balanced s' (plug t' c)"
      using fin(2-5) ht by (auto simp: tree_at_plug balanced_plug)
    moreover have "inorder (plug t' c) = inorder (plug t ((d, a, u) # c))"
      using fin(6) by (simp add: inorder_plug)
    moreover have "frame (set_tree (plug t ((d, a, u) # c))) s s'"
      unfolding plug.simps by (rule frame_trans [OF fr fin(7)]) simp
    ultimately show ?thesis using fin(8) by blast
  qed
qed

section \<open>The deletion fixup\<close>

lemma avl_delete_fixup_ok:
  assumes "tree_at s q t" "ctx_at s (at_root tree) c q" "balanced s t" "ctx_bal s c (height t + 1)"
    and "distinct (inorder (plug t c))" and "EQUAL \<notin> fst ` set c"
  shows "\<exists>s' tree' t'. avl_delete_fixup s tree (path_of c) = Inr (s', tree') \<and>
           tree_at s' (at_root tree') t' \<and> balanced s' t' \<and> inorder t' = inorder (plug t c) \<and>
           frame (set_tree (plug t c)) s s' \<and> tree' = tree\<lparr>at_root := at_root tree'\<rparr>"
  using assms
proof (induction c arbitrary: s t q tree rule: ctx_set.induct)
  case 1
  then show ?case by auto
next
  case (2 d a u c)
  let ?h = "height t + 1"
  obtain n where n: "s a = Some n" "if d = LEFT then av_left n = q \<and> tree_at s (av_right n) u
         else av_right n = q \<and> tree_at s (av_left n) u" "ctx_at s (at_root tree) c (Some a)"
    "av_bf n = (if d = LEFT then int (height u) - int ?h else int ?h - int (height u))"
    "-1 \<le> av_bf n" "av_bf n \<le> 1" "balanced s u" "ctx_bal s c (max ?h (height u) + 1)"
    using "2.prems"(2,4) by auto
  have dir: "d = LEFT \<or> d = RIGHT" using "2.prems"(6) by (cases d) auto
  let ?whole = "if d = LEFT then Node t a u else Node u a t"
  have ne: "a \<notin> set_tree t" "a \<notin> set_tree u" "a \<notin> ctx_set c" "distinct (inorder ?whole)"
      "distinct (inorder (plug ?whole c))"
    using "2.prems"(5) by (auto simp: distinct_plug split: if_splits)
  let ?b = "av_bf n - dir_num d"
  let ?n = "n\<lparr>av_bf := ?b\<rparr>" and ?s = "s(a \<mapsto> n\<lparr>av_bf := av_bf n - dir_num d\<rparr>)"
  have bf: "?b = (if d = LEFT then int (height u) - int (height t) else int (height t) - int (height u))"
    using n(4) dir by auto
  have upd: "update_avl_parameters s (Some a) (dir_num d) True = Inr ?s"
    using n(1) dir by (auto simp: update_avl_parameters_def)
  have t: "tree_at ?s q t" "balanced ?s t" "balanced ?s u" "tree_at ?s p u = tree_at s p u" for p
    using "2.prems"(1,3) n(7) ne by simp_all
  have c: "ctx_at ?s (at_root tree) c (Some a)" "ctx_bal ?s c (max ?h (height u) + 1)"
    using n(3,8) ne(3) by simp_all
  have whole: "tree_at ?s (Some a) ?whole"
    using t n(2) by auto
  have fr: "frame (set_tree (plug ?whole c)) s ?s" using n(1) by (auto simp: frame_def set_tree_plug)
  have ld: "load ?s (Some a) = Inr ?n" by simp
  consider (even) "?b = 0" | (tilted) "?b \<noteq> 0" "-1 \<le> ?b" "?b \<le> 1" | (off) "?b < -1 \<or> 1 < ?b"
    by linarith
  then show ?case
  proof cases
    case tilted
    have "height ?whole = max ?h (height u) + 1" using tilted bf n(4-6) dir by (auto split: if_splits)
    then have "balanced ?s (plug ?whole c)"
      using t c tilted bf by (auto simp: balanced_plug split: if_splits)
    moreover have "tree_at ?s (at_root tree) (plug ?whole c)"
      using whole c by (auto simp: tree_at_plug)
    moreover have "avl_delete_fixup s tree (path_of ((d, a, u) # c)) = Inr (?s, tree)"
      using upd tilted by (simp add: perfectly_balanced_def lopsided_def unbalanced_def)
    ultimately show ?thesis using fr by auto
  next
    case even
    have "height ?whole = height t + 1" using even bf by (auto split: if_splits)
    moreover have "max ?h (height u) + 1 = height t + 1 + 1" using even bf by (auto split: if_splits)
    ultimately have c': "ctx_bal ?s c (height ?whole + 1)" using c(2) by simp
    have bw: "balanced ?s ?whole" using t bf even by auto
    have EQ: "EQUAL \<notin> fst ` set c" using "2.prems"(6) by simp
    have ih: "\<exists>s' tree' t'. avl_delete_fixup ?s tree (path_of c) = Inr (s', tree') \<and>
           tree_at s' (at_root tree') t' \<and> balanced s' t' \<and> inorder t' = inorder (plug ?whole c) \<and>
           frame (set_tree (plug ?whole c)) ?s s' \<and> tree' = tree\<lparr>at_root := at_root tree'\<rparr>"
      by (rule "2.IH" [OF whole c(1) bw c' ne(5) EQ])
    have run: "avl_delete_fixup s tree (path_of ((d, a, u) # c)) = avl_delete_fixup ?s tree (path_of c)"
      using upd even by (simp add: perfectly_balanced_def unbalanced_def lopsided_def)
    have "frame (set_tree (plug ?whole c)) s s'" if "frame (set_tree (plug ?whole c)) ?s s'" for s'
      by (rule frame_trans [OF fr that]) simp
    with ih show ?thesis unfolding run plug.simps by blast
  next
    case off
    have hh: "height u = height t + 2" "?b = (if d = LEFT then 2 else -2)"
      using off bf n(4-6) dir by (auto split: if_splits)
    let ?child = "if d = RIGHT then av_left ?n else av_right ?n"
    have reb: "rebalanced ?s tree (path_ref (path_of c)) a ?child ?whole u"
    proof (cases "d = LEFT")
      case True
      then show ?thesis
        using rebalance_right_heavy [of ?s a ?n t u] n(2) t hh ne(4) by simp
    next
      case False
      then have "av_bf n = -1" using hh(2) dir by auto
      with False show ?thesis
        using rebalance_left_heavy [of ?s a ?n u t] n(2) t hh(1) ne(4) dir by simp
    qed
    obtain s1 tree1 t1 p where fin: "fix_imbalance ?s tree (path_ref (path_of c)) (Some a) ?child =
          Inr (root_even u, s1, tree1)"
        "tree_at s1 p t1" "ctx_at s1 (at_root tree1) c p" "balanced s1 t1"
        "ctx_bal s1 c (max ?h (height u) + 1)" "inorder t1 = inorder ?whole"
        "frame (set_tree (plug ?whole c)) ?s s1" "tree1 = tree\<lparr>at_root := at_root tree1\<rparr>"
        "height t1 = (if root_even u then height u + 1 else height u)"
      by (rule rebalanced_link [OF reb c ne(5)])
    have "unbalanced ?n" "\<not> lopsided ?n" using off by (auto simp: unbalanced_def lopsided_def)
    moreover have "case path_of c of [] \<Rightarrow> True | (_, d) # _ \<Rightarrow> d = LEFT \<or> d = RIGHT"
      using "2.prems"(6) by (cases c rule: ctx_set.cases) (auto intro: pathTraceDirection.exhaust)
    ultimately have run: "avl_delete_fixup s tree (path_of ((d, a, u) # c)) =
        (if root_even u then Inr (s1, tree1) else avl_delete_fixup s1 tree1 (path_of c))"
      using fin(1) dir
      by (simp only: path_of_simps avl_delete_fixup.simps upd bindE_simps ld Let_def if_True if_False
          prod.case assertE_simps simp_thms)
    have io: "inorder (plug t1 c) = inorder (plug ?whole c)" using fin(6) by (simp add: inorder_plug)
    then have sets: "set_tree (plug t1 c) = set_tree (plug ?whole c)" by (metis set_inorder)
    show ?thesis
    proof (cases "root_even u")
      case True
      have "tree_at s1 (at_root tree1) (plug t1 c)" using fin(2,3) by (auto simp: tree_at_plug)
      moreover have "balanced s1 (plug t1 c)" using fin(4,5,9) hh True by (simp add: balanced_plug)
      moreover have "frame (set_tree (plug ?whole c)) s s1" by (rule frame_trans [OF fr fin(7)]) simp
      ultimately show ?thesis using run True io fin(8) unfolding plug.simps by fastforce
    next
      case False
      have "ctx_bal s1 c (height t1 + 1)" using fin(5,9) hh False by simp
      moreover have "distinct (inorder (plug t1 c))" using ne(5) io by simp
      ultimately obtain s2 tree2 t2 where 2: "avl_delete_fixup s1 tree1 (path_of c) = Inr (s2, tree2)"
          "tree_at s2 (at_root tree2) t2" "balanced s2 t2" "inorder t2 = inorder (plug t1 c)"
          "frame (set_tree (plug t1 c)) s1 s2" "tree2 = tree1\<lparr>at_root := at_root tree2\<rparr>"
        using "2.IH" [OF fin(2,3,4)] "2.prems"(6) by auto
      have "frame (set_tree (plug ?whole c)) s s1" by (rule frame_trans [OF fr fin(7)]) simp
      then have "frame (set_tree (plug ?whole c)) s s2"
        by (rule frame_trans [OF _ 2(5)]) (simp add: sets)
      moreover have "tree2 = tree\<lparr>at_root := at_root tree2\<rparr>"
        by (metis 2(6) fin(8) avltree.update_convs(1) avltree.surjective)
      ultimately show ?thesis using run False io 2(1-4) unfolding plug.simps by fastforce
    qed
  qed
qed

end
