(* ===== verification/Avl_Unlink.thy ===== *)
theory Avl_Unlink
  imports Avl_Correct
begin

text \<open>
  Finding and unlinking a node. \<open>trace_path_ok\<close> and \<open>leftmost_path\<close> say which one-hole context the
  waypoints of \<open>avl_trace_path_to_node\<close> describe; \<open>delete_one_child\<close> and \<open>delete_two_children\<close> are the
  two shapes of \<open>delete_unlink\<close>: the node disappears from the in-order sequence, the tree stays
  linked and balanced, and no other memory changes.
\<close>

section \<open>Composed contexts\<close>

lemma before_append: "before (c @ c') = before c' @ before c"
  by (induction c rule: before.induct) auto

lemma after_append: "after (c @ c') = after c @ after c'"
  by (induction c rule: after.induct) auto

lemma path_of_append [simp]: "path_of (c @ c') = path_of c @ path_of c'"
  by (simp add: path_of_def)

lemma ctx_set_append [simp]: "ctx_set (c @ c') = ctx_set c \<union> ctx_set c'"
  by (auto simp: ctx_set_inorder before_append after_append)

lemma ctx_at_append: "ctx_at s root (c @ c') q \<longleftrightarrow> (\<exists>p. ctx_at s p c q \<and> ctx_at s root c' p)"
  by (induction c arbitrary: q rule: ctx_set.induct) auto

lemma ctx_bal_append:
  "ctx_bal s (c @ c') (height t) \<longleftrightarrow> ctx_bal s c (height t) \<and> ctx_bal s c' (height (plug t c))"
  by (induction t c rule: plug.induct) (auto simp: max.commute)

lemma ctx_at_NULL: "ctx_at s NULL c q \<Longrightarrow> c = []"
proof (induction c arbitrary: q rule: ctx_set.induct)
  case (2 d a u c)
  then have "ctx_at s NULL c (Some a)" by simp
  moreover from this have "c = []" by (rule 2)
  ultimately show ?case by simp
qed simp

lemma link_put_ref:
  "(case path of [] \<Rightarrow> Inr (s, tree\<lparr>at_root := v\<rparr>)
    | (p, dir) # _ \<Rightarrow>
        bindE (if dir = LEFT then put_left s (Some p) v else put_right s (Some p) v) (\<lambda>s. Inr (s, tree))) =
   put_ref s tree (path_ref path) v"
  by (cases path rule: path_ref.cases) auto

section \<open>Tracing\<close>

definition keys_sorted :: "(addr \<Rightarrow> 'k::linorder) \<Rightarrow> addr tree \<Rightarrow> bool" where
  "keys_sorted key t \<longleftrightarrow> sorted_wrt (\<lambda>a b. key a < key b) (inorder t)"

lemma keys_sorted_simps [simp]:
  "keys_sorted key Leaf"
  "keys_sorted key (Node l a r) \<longleftrightarrow> keys_sorted key l \<and> keys_sorted key r \<and>
     (\<forall>x\<in>set_tree l. key x < key a) \<and> (\<forall>x\<in>set_tree r. key a < key x)"
  by (auto simp: keys_sorted_def sorted_wrt_append intro: less_trans)

lemma sorted_keys_distinct: "sorted_wrt (\<lambda>a b. key a < (key b :: 'k::linorder)) xs \<Longrightarrow> distinct xs"
  by (induction xs) auto

lemma keys_sorted_distinct: "keys_sorted key t \<Longrightarrow> distinct (inorder t)"
  unfolding keys_sorted_def by (rule sorted_keys_distinct)

definition found :: "addr tree \<Rightarrow> avl_waypoint list" where
  "found t = (case t of Leaf \<Rightarrow> [] | Node l a r \<Rightarrow> [(a, EQUAL)])"

lemma found_simps [simp]: "found Leaf = []" "found (Node l a r) = [(a, EQUAL)]"
  by (simp_all add: found_def)

text \<open>Following the comparator from a subtree ends at the node with the key, or at the leaf where
  it belongs.\<close>

lemma trace_path_ok:
  assumes "tree_at s q t" "orders_by cmp key" "keys_sorted key t" "height t < fuel"
  shows "\<exists>c t'. plug t' c = t \<and> EQUAL \<notin> fst ` set c \<and>
     trace_path_loop fuel s cmp k q path = Inr (found t' @ path_of c @ path) \<and>
     (\<forall>x\<in>set (before c). key x < key k) \<and> (\<forall>x\<in>set (after c). key k < key x) \<and>
     (\<forall>l a r. t' = Node l a r \<longrightarrow> key a = key k)"
  using assms
proof (induction t arbitrary: q fuel path)
  case Leaf
  then show ?case by (intro exI [of _ "[]"] exI [of _ Leaf]) (cases fuel; simp)
next
  case (Node l a r)
  obtain f n where f: "fuel = Suc f" and n: "q = Some a" "s a = Some n" "tree_at s (av_left n) l" "tree_at s (av_right n) r"
    using Node.prems(1,4) by (cases fuel) auto
  note cmp = orders_by_simps [OF Node.prems(2)]
  consider (lt) "key k < key a" | (eq) "key k = key a" | (gt) "key a < key k" by fastforce
  then show ?case
  proof cases
    case lt
    obtain c t' where c: "plug t' c = l" "EQUAL \<notin> fst ` set c"
        "trace_path_loop f s cmp k (av_left n) ((a, LEFT) # path) = Inr (found t' @ path_of c @ (a, LEFT) # path)"
        "\<forall>x\<in>set (before c). key x < key k" "\<forall>x\<in>set (after c). key k < key x"
        "\<forall>l a r. t' = Node l a r \<longrightarrow> key a = key k"
      using Node.IH(1) [OF n(3) Node.prems(2), of f "(a, LEFT) # path"] Node.prems(3,4) f by auto
    have "cmp k a = LT" using lt cmp by simp
    then show ?thesis
      using c n f lt Node.prems(3)
      by (intro exI [of _ "c @ [(LEFT, a, r)]"] exI [of _ t'])
        (auto simp: plug_append before_append after_append intro: less_trans)
  next
    case eq
    have "cmp k a = EQ" using eq cmp by simp
    then show ?thesis
      using n f eq by (intro exI [of _ "[]"] exI [of _ "Node l a r"]) auto
  next
    case gt
    obtain c t' where c: "plug t' c = r" "EQUAL \<notin> fst ` set c"
        "trace_path_loop f s cmp k (av_right n) ((a, RIGHT) # path) = Inr (found t' @ path_of c @ (a, RIGHT) # path)"
        "\<forall>x\<in>set (before c). key x < key k" "\<forall>x\<in>set (after c). key k < key x"
        "\<forall>l a r. t' = Node l a r \<longrightarrow> key a = key k"
      using Node.IH(2) [OF n(4) Node.prems(2), of f "(a, RIGHT) # path"] Node.prems(3,4) f by auto
    have "cmp k a = GT" using gt cmp by simp
    then show ?thesis
      using c n f gt Node.prems(3)
      by (intro exI [of _ "c @ [(RIGHT, a, l)]"] exI [of _ t'])
        (auto simp: plug_append before_append after_append intro: less_trans)
  qed
qed

text \<open>The in-order successor of a node: the leftmost node of its right subtree, with its path.\<close>

lemma leftmost_path:
  assumes "tree_at s q r" "r \<noteq> Leaf" "orders_by cmp key" "keys_sorted key r" "height r < fuel"
  shows "\<exists>c b rr. plug (Node Leaf b rr) c = r \<and> fst ` set c \<subseteq> {LEFT} \<and> leftmost_loop fuel s q = Inr (Some b) \<and>
     trace_path_loop fuel s cmp b q path = Inr ((b, EQUAL) # path_of c @ path)"
  using assms
proof (induction r arbitrary: q fuel path)
  case Leaf
  then show ?case by simp
next
  case (Node l a r)
  obtain f n where f: "fuel = Suc f" and n: "q = Some a" "s a = Some n" "tree_at s (av_left n) l" "tree_at s (av_right n) r"
    using Node.prems(1,5) by (cases fuel) auto
  note cmp = orders_by_simps [OF Node.prems(3)]
  show ?case
  proof (cases "l = Leaf")
    case True
    have "cmp a a = EQ" using cmp by simp
    with True show ?thesis using n f
      by (intro exI [of _ "[]"] exI [of _ a] exI [of _ r]) (simp add: get_left_def)
  next
    case False
    obtain c b rr where c: "plug (Node Leaf b rr) c = l" "fst ` set c \<subseteq> {LEFT}"
        "leftmost_loop f s (av_left n) = Inr (Some b)"
        "trace_path_loop f s cmp b (av_left n) ((a, LEFT) # path) = Inr ((b, EQUAL) # path_of c @ (a, LEFT) # path)"
      using Node.IH(1) [OF n(3) False Node.prems(3), of f "(a, LEFT) # path"] Node.prems(4,5) f by auto
    have "b \<in> set_tree l" using c(1) by (metis insertI1 set_tree_plug tree.set_intros(2) Un_iff)
    then have "cmp b a = LT" using cmp Node.prems(4) by simp
    moreover obtain y where "av_left n = Some y" using False n(3) tree_at_root by (cases "av_left n") auto
    ultimately show ?thesis
      using c n f
      by (intro exI [of _ "c @ [(LEFT, a, r)]"] exI [of _ b] exI [of _ rr])
        (simp add: plug_append get_left_def)
  qed
qed

section \<open>Unlinking a node\<close>

text \<open>Filling the hole of a context with another subtree of the store, then repairing upwards.\<close>


lemma fix_unless_empty:
  assumes "ctx_at s (at_root tree) c q"
  shows "(if at_root tree \<noteq> NULL then avl_delete_fixup s tree (path_of c) else Inr (s, tree)) =
     avl_delete_fixup s tree (path_of c)"
  using assms ctx_at_NULL by fastforce

lemma delete_one_child:
  assumes at: "tree_at s (at_root tree) (plug (Node l a r) c)" and bal: "balanced s (plug (Node l a r) c)"
    and d: "distinct (inorder (plug (Node l a r) c))" and eq: "EQUAL \<notin> fst ` set c"
    and one: "l = Leaf \<or> r = Leaf"
  shows "\<exists>s' tree' t'. delete_unlink fuel s tree a (path_of c) = Inr (s', tree') \<and>
           tree_at s' (at_root tree') t' \<and> balanced s' t' \<and>
           inorder t' = before c @ inorder l @ inorder r @ after c \<and>
           frame (set_tree (plug (Node l a r) c)) s s' \<and> tree' = tree\<lparr>at_root := at_root tree'\<rparr>"
proof -
  obtain n where n: "s a = Some n" "tree_at s (av_left n) l" "tree_at s (av_right n) r" 
      and c: "ctx_at s (at_root tree) c (Some a)"
    using at by (auto simp: tree_at_plug)
  define t where "t = (if r = Leaf then l else r)"
  define p where "p = (if r = Leaf then av_left n else av_right n)"
  have t: "tree_at s p t" "balanced s t" "height (Node l a r) = height t + 1" "inorder t = inorder l @ inorder r"
      "set_tree t \<subseteq> set_tree (Node l a r)"
    using one n bal by (auto simp: t_def p_def balanced_plug)
  have b: "ctx_bal s c (height t + 1)" using bal t(3) by (simp add: balanced_plug)
  have dis: "distinct (before c @ after c)" "set_tree (Node l a r) \<inter> ctx_set c = {}" "distinct (inorder (Node l a r))"
    using d by (auto simp: distinct_plug)
  have dt: "distinct (inorder (plug t c))" using dis t(4,5) by (auto simp: distinct_plug)
  obtain s1 tree1 where 1: "put_ref s tree (path_ref (path_of c)) p = Inr (s1, tree1)"
      "ctx_at s1 (at_root tree1) c p" "\<forall>h. ctx_bal s1 c h = ctx_bal s c h" "frame (ctx_set c) s s1"
      "tree1 = tree\<lparr>at_root := at_root tree1\<rparr>"
    using put_ref_ctx [OF c dis(1), of p] by blast
  have sd: "ctx_set c \<inter> set_tree t = {}" using dis(2) t(5) by auto
  have t1: "tree_at s1 p t" "balanced s1 t" "ctx_bal s1 c (height t + 1)"
    using t(1,2) tree_at_frame [OF 1(4) sd] balanced_frame [OF 1(4) sd] b 1(3) by auto
  obtain s2 tree2 t2 where 2: "avl_delete_fixup s1 tree1 (path_of c) = Inr (s2, tree2)"
      "tree_at s2 (at_root tree2) t2" "balanced s2 t2" "inorder t2 = inorder (plug t c)"
      "frame (set_tree (plug t c)) s1 s2" "tree2 = tree1\<lparr>at_root := at_root tree2\<rparr>"
    using avl_delete_fixup_ok [OF t1(1) 1(2) t1(2,3) dt eq] by blast
  have kids: "av_left n = NULL \<longleftrightarrow> l = Leaf" "av_right n = NULL \<longleftrightarrow> r = Leaf"
    using n tree_at_root by blast+
  have "delete_unlink fuel s tree a (path_of c) = Inr (s2, tree2)"
    unfolding delete_unlink_def load_simps(3) [where s = s, OF n(1)] bindE_simps
    using one 1(1) 2(1) kids fix_unless_empty [OF 1(2)]
    by (auto simp: link_put_ref left_child_only_def right_child_only_def both_children_def p_def)
  moreover have "frame (set_tree (plug (Node l a r) c)) s s2"
    using t(5) by (intro frame_trans [OF 1(4) 2(5)]) (auto simp: set_tree_plug)
  moreover have "tree2 = tree\<lparr>at_root := at_root tree2\<rparr>"
    by (metis 2(6) 1(5) avltree.update_convs(1) avltree.surjective)
  ultimately show ?thesis using 2(2-4) t(4) by (auto simp: inorder_plug)
qed

lemma ctx_at_root_mem: "ctx_at s (Some q) c p \<Longrightarrow> c \<noteq> [] \<Longrightarrow> q \<in> ctx_set c"
proof (induction c arbitrary: p rule: ctx_set.induct)
  case (2 d a u c)
  then have "ctx_at s (Some q) c (Some a)" by simp
  with 2(1) show ?case by (cases "c = []") auto
qed simp

lemma successor_replaces:
  assumes a: "s a = Some n" "tree_at s (av_left n) l" "tree_at s (av_right n) r" and ne: "r \<noteq> Leaf"
    and bal: "balanced s (Node l a r)" and d: "distinct (inorder (Node l a r))"
    and k: "keys_sorted key r" "orders_by (at_cmp tree) key" "at_count tree \<noteq> 0" "height r < fuel"
  obtains s' c2 b rr p where "replace_by_successor fuel s tree a = Inr (Some b, path_of (c2 @ [(RIGHT, b, l)]), s')"
    and "plug (Node Leaf b rr) c2 = r" and "fst ` set c2 \<subseteq> {LEFT}"
    and "tree_at s' p rr" and "ctx_at s' (Some b) (c2 @ [(RIGHT, b, l)]) p"
    and "balanced s' rr" and "ctx_bal s' (c2 @ [(RIGHT, b, l)]) (height rr + 1)" and "frame (set_tree r) s s'"
proof -
  obtain c2 b rr where c: "plug (Node Leaf b rr) c2 = r" "fst ` set c2 \<subseteq> {LEFT}"
      "leftmost_loop fuel s (av_right n) = Inr (Some b)"
      "trace_path_loop fuel s (at_cmp tree) b (av_right n) [] = Inr ((b, EQUAL) # path_of c2)"
    using leftmost_path [OF a(3) ne k(2,1,4), of "[]"] by auto
  have dr: "distinct (inorder (plug (Node Leaf b rr) c2))" using d c(1) by simp
  have mem: "b \<in> set_tree r" "set_tree rr \<subseteq> set_tree r" "ctx_set c2 \<subseteq> set_tree r"
    using c(1) set_tree_plug [of "Node Leaf b rr" c2] by auto
  have nb: "b \<noteq> a" "b \<notin> set_tree l" "a \<notin> set_tree r" "set_tree l \<inter> set_tree r = {}" using d mem by auto
  have ns: "b \<notin> set_tree rr" "b \<notin> ctx_set c2" "set_tree rr \<inter> ctx_set c2 = {}"
    using dr by (auto simp: distinct_plug)
  obtain m where m: "s b = Some m" "av_left m = NULL" "tree_at s (av_right m) rr"
      and c2: "ctx_at s (av_right n) c2 (Some b)"
    using a(3) c(1) tree_at_plug [of s "av_right n" "Node Leaf b rr" c2] by auto
  have balr: "balanced s (plug (Node Leaf b rr) c2)" using bal c(1) by simp
  then have brr: "balanced s rr" and bc2: "ctx_bal s c2 (height rr + 1)"
    by (auto simp: balanced_plug)
  have nbf: "av_bf n = int (height r) - int (height l)" "-1 \<le> av_bf n" "av_bf n \<le> 1" "balanced s l"
    using bal a(1) by auto
  obtain q where rq: "av_right n = Some q" using a(3) ne by (cases r) auto
  note eval = replace_by_successor_def avl_find_inorder_successor_def get_right_def avl_trace_path_to_node_def
    put_left_def put_right_def put_bf_def copy_avlnode_fields_def
  show ?thesis
  proof (cases c2 rule: ctx_set.cases)
    case 1
    let ?s = "s(b \<mapsto> m\<lparr>av_left := av_left n, av_bf := av_bf n\<rparr>)"
    have r: "r = Node Leaf b rr" "av_right n = Some b" using 1 c(1) c2 by auto
    have "replace_by_successor fuel s tree a = Inr (Some b, path_of (c2 @ [(RIGHT, b, l)]), ?s)"
      using c(3) r(2) a(1) m(1) nb(1) 1 by (simp add: eval)
    moreover have "tree_at ?s (av_right m) rr" "balanced ?s rr" using m(3) brr ns(1) by simp_all
    moreover have "ctx_at ?s (Some b) (c2 @ [(RIGHT, b, l)]) (av_right m)"
      using 1 a(2) nb(2) by simp
    moreover have "ctx_bal ?s (c2 @ [(RIGHT, b, l)]) (height rr + 1)"
      using 1 nbf r(1) nb(2) by simp
    moreover have "frame (set_tree r) s ?s" using m(1) mem(1) by (auto simp: frame_def)
    ultimately show ?thesis using c(1,2) that by blast
  next
    case (2 d e u c')
    have d: "d = LEFT" using 2 c(2) by simp
    have e: "e \<noteq> b" "e \<notin> set_tree u" "e \<notin> ctx_set c'" "e \<notin> set_tree rr" "e \<noteq> a" "e \<notin> set_tree l"
        "e \<in> set_tree r"
      using dr 2 d mem(3) nb by (auto simp: distinct_plug ctx_set_inorder)
    obtain k where k: "s e = Some k" "av_left k = Some b" "tree_at s (av_right k) u" "ctx_at s (av_right n) c' (Some e)"
      using c2 2 d by auto
    have "q \<in> ctx_set c2" using ctx_at_root_mem [of s q c2 "Some b"] c2 rq 2 by (simp only: list.distinct simp_thms)
    then have qb: "q \<noteq> b" using ns(2) by auto
    let ?k = "k\<lparr>av_left := av_right m\<rparr>"
    let ?m = "m\<lparr>av_left := av_left n, av_right := av_right n, av_bf := av_bf n\<rparr>"
    let ?s = "s(e \<mapsto> ?k, b \<mapsto> ?m)"
    have "replace_by_successor fuel s tree a = Inr (Some b, path_of (c2 @ [(RIGHT, b, l)]), ?s)"
      using c(3,4) rq a(1) m(1) nb(1) 2 d k(1) e k qb assms(9) by (simp add: eval)
    moreover have "tree_at ?s (av_right m) rr" "balanced ?s rr" using m(3) brr ns(1) e by simp_all
    moreover have "ctx_at ?s (Some b) (c2 @ [(RIGHT, b, l)]) (av_right m)"
      using 2 d a(2) nb(2) e k ns rq by (simp add: ctx_at_append)
    moreover have "ctx_bal ?s (c2 @ [(RIGHT, b, l)]) (height rr + 1)"
    proof -
      have "ctx_bal ?s c2 (height rr + 1)" using bc2 2 d e ns k(1) by simp
      moreover have "height (plug (Node Leaf b rr) c2) = height r" using c(1) by simp
      ultimately show ?thesis
        using ctx_bal_append [of ?s c2 "[(RIGHT, b, l)]" "Node Leaf b rr"] nbf nb(2) e by simp
    qed
    moreover have "frame (set_tree r) s ?s" using m(1) mem(1) k(1) e(7) by (auto simp: frame_def)
    ultimately show ?thesis using c(1,2) that by blast
  qed
qed

lemma delete_two_children:
  assumes at: "tree_at s (at_root tree) (plug (Node l a r) c)" and bal: "balanced s (plug (Node l a r) c)"
    and eq: "EQUAL \<notin> fst ` set c" and two: "l \<noteq> Leaf" "r \<noteq> Leaf"
    and k: "keys_sorted key (plug (Node l a r) c)" "orders_by (at_cmp tree) key" "at_count tree \<noteq> 0"
    and fuel: "height r < fuel"
  shows "\<exists>s' tree' t'. delete_unlink fuel s tree a (path_of c) = Inr (s', tree') \<and>
           tree_at s' (at_root tree') t' \<and> balanced s' t' \<and>
           inorder t' = before c @ inorder l @ inorder r @ after c \<and>
           frame (set_tree (plug (Node l a r) c)) s s' \<and> tree' = tree\<lparr>at_root := at_root tree'\<rparr>"
proof -
  obtain n where n: "s a = Some n" "tree_at s (av_left n) l" "tree_at s (av_right n) r" 
      and c: "ctx_at s (at_root tree) c (Some a)"
    using at by (auto simp: tree_at_plug)
  have d: "distinct (inorder (plug (Node l a r) c))" by (rule keys_sorted_distinct [OF k(1)])
  have dis: "distinct (before c @ after c)" "set_tree (Node l a r) \<inter> ctx_set c = {}" "distinct (inorder (Node l a r))"
    using d by (auto simp: distinct_plug)
  have ks: "keys_sorted key r" using k(1) by (simp add: keys_sorted_def inorder_plug sorted_wrt_append)
  have bw: "balanced s (Node l a r)" "ctx_bal s c (height (Node l a r))" using bal balanced_plug by blast+
  obtain s1 c2 b rr p where 1: "replace_by_successor fuel s tree a = Inr (Some b, path_of (c2 @ [(RIGHT, b, l)]), s1)"
    "plug (Node Leaf b rr) c2 = r" "fst ` set c2 \<subseteq> {LEFT}"
    "tree_at s1 p rr" "ctx_at s1 (Some b) (c2 @ [(RIGHT, b, l)]) p"
    "balanced s1 rr" "ctx_bal s1 (c2 @ [(RIGHT, b, l)]) (height rr + 1)" "frame (set_tree r) s s1"
    by (rule successor_replaces [OF n two(2) bw(1) dis(3) ks k(2,3) fuel])
  have sr: "insert b (set_tree rr \<union> ctx_set c2) = set_tree r"
    using 1(2) set_tree_plug [of "Node Leaf b rr" c2] by auto
  have dr: "set_tree r \<inter> ctx_set c = {}" "set_tree r \<inter> set_tree l = {}" using dis by auto
  have c1: "ctx_at s1 (at_root tree) c (Some a)" "ctx_bal s1 c h = ctx_bal s c h" for h
    using ctx_at_frame [OF 1(8) dr(1)] ctx_bal_frame [OF 1(8) dr(1)] c by auto
  obtain s2 tree2 where 2: "put_ref s1 tree (path_ref (path_of c)) (Some b) = Inr (s2, tree2)"
      "ctx_at s2 (at_root tree2) c (Some b)" "\<forall>h. ctx_bal s2 c h = ctx_bal s1 c h" "frame (ctx_set c) s1 s2"
      "tree2 = tree\<lparr>at_root := at_root tree2\<rparr>"
    using put_ref_ctx [OF c1(1) dis(1), of "Some b"] by blast
  let ?c = "c2 @ (RIGHT, b, l) # c"
  have d2: "ctx_set c \<inter> set_tree rr = {}" "ctx_set c \<inter> ctx_set (c2 @ [(RIGHT, b, l)]) = {}"
    using dis(2) sr by auto
  have t: "tree_at s2 p rr" "balanced s2 rr"
    using tree_at_frame [OF 2(4) d2(1)] balanced_frame [OF 2(4) d2(1)] 1(4,6) by auto
  have in2: "ctx_at s2 (Some b) (c2 @ [(RIGHT, b, l)]) p" "ctx_bal s2 (c2 @ [(RIGHT, b, l)]) (height rr + 1)"
    using ctx_at_frame [OF 2(4) d2(2)] ctx_bal_frame [OF 2(4) d2(2)] 1(5,7) by auto
  have "ctx_at s2 (at_root tree2) ((c2 @ [(RIGHT, b, l)]) @ c) p"
    using in2(1) 2(2) by (subst ctx_at_append) blast
  then have c3: "ctx_at s2 (at_root tree2) ?c p" by simp
  have "height (plug (Node Leaf b rr) (c2 @ [(RIGHT, b, l)])) = height (Node l a r)"
    using 1(2) by (simp add: plug_append)
  then have "ctx_bal s2 ((c2 @ [(RIGHT, b, l)]) @ c) (height (Node Leaf b rr))"
    using in2(2) 2(3) c1(2) bw(2) by (subst ctx_bal_append) simp
  then have b3: "ctx_bal s2 ?c (height rr + 1)" by simp
  have io: "inorder (plug rr ?c) = before c @ inorder l @ inorder r @ after c"
    using 1(2) inorder_plug [of "Node Leaf b rr" c2]
  proof -
    have "before c2 = []" using 1(3) by (induction c2 rule: before.induct) auto
    then have "inorder r = b # inorder rr @ after c2"
      using 1(2) inorder_plug [of "Node Leaf b rr" c2] by simp
    with \<open>before c2 = []\<close> show ?thesis by (simp add: inorder_plug before_append after_append)
  qed
  have "distinct (inorder (plug rr ?c))" unfolding io using d by (simp add: inorder_plug)
  moreover have "EQUAL \<notin> fst ` set ?c" using 1(3) eq by auto
  ultimately obtain s3 tree3 t3 where 3: "avl_delete_fixup s2 tree2 (path_of ?c) = Inr (s3, tree3)"
      "tree_at s3 (at_root tree3) t3" "balanced s3 t3" "inorder t3 = inorder (plug rr ?c)"
      "frame (set_tree (plug rr ?c)) s2 s3" "tree3 = tree2\<lparr>at_root := at_root tree3\<rparr>"
    using avl_delete_fixup_ok [OF t(1) c3 t(2) b3] by blast
  have kids: "\<not> left_child_only n" "\<not> right_child_only n" "both_children n"
    using n two tree_at_root by (auto simp: left_child_only_def right_child_only_def both_children_def)
  have root: "at_root tree2 \<noteq> NULL" using c3 ctx_at_NULL [of s2 ?c p] by (cases "at_root tree2") auto
  have "delete_unlink fuel s tree a (path_of c) = Inr (s3, tree3)"
    unfolding delete_unlink_def load_simps(3) [where s = s, OF n(1)] bindE_simps
    using 1(1) 2(1) 3(1) kids root by (simp add: link_put_ref)
  moreover have "frame (set_tree (plug (Node l a r) c)) s s3"
  proof -
    have "set (inorder (plug rr ?c)) \<subseteq> set (inorder (plug (Node l a r) c))"
      by (simp only: io) (auto simp: inorder_plug)
    then have "set_tree (plug rr ?c) \<subseteq> set_tree (plug (Node l a r) c)" by simp
    moreover have "frame (set_tree r \<union> ctx_set c) s s2" by (rule frame_trans [OF 1(8) 2(4)]) simp
    ultimately show ?thesis by (intro frame_trans [OF _ 3(5)]) (auto simp: set_tree_plug)
  qed
  moreover have "tree3 = tree\<lparr>at_root := at_root tree3\<rparr>"
    by (metis 3(6) 2(5) avltree.update_convs(1) avltree.surjective)
  ultimately show ?thesis using 3(2-4) io by auto
qed

end
