(* ===== verification/Avl_Ops.thy ===== *)
theory Avl_Ops
  imports Avl_Unlink
begin

text \<open>
  Insertion, lookup and deletion on an AVL tree handle. \<open>avl_holds s tree key t\<close> is the invariant: the
  nodes of the store reachable from the handle are the tree \<open>t\<close>, balanced, with strictly increasing
  keys, counted by the handle, and the cached node is one of them.
\<close>

section \<open>The invariant of the handle\<close>

definition avl_holds :: "avlnode store \<Rightarrow> avltree \<Rightarrow> (addr \<Rightarrow> 'k::linorder) \<Rightarrow> addr tree \<Rightarrow> bool" where
  "avl_holds s tree key t \<longleftrightarrow>
     tree_at s (at_root tree) t \<and> balanced s t \<and> keys_sorted key t \<and> at_count tree = size t \<and>
     orders_by (at_cmp tree) key \<and> (\<forall>c. at_cached tree = Some c \<longrightarrow> c \<in> set_tree t)"

lemma avl_holds_init: "orders_by cmp key \<Longrightarrow> avl_holds s (Avl_init cmp dtor) key Leaf"
  by (simp add: avl_holds_def Avl_init_def initialize_avl_tree_def)

lemma avl_holds_empty: "avl_holds s tree key t \<Longrightarrow> at_root tree = NULL \<longleftrightarrow> t = Leaf"
  by (auto simp: avl_holds_def dest: tree_at_root)

lemma cache_hitD:
  "avl_holds s tree key t \<Longrightarrow> cache_hit tree k \<longleftrightarrow> (\<exists>c. at_cached tree = Some c \<and> key c = key k)"
  by (auto simp: avl_holds_def cache_hit_def orders_by_simps split: option.splits)

lemma same_key_same_node:
  "keys_sorted key t \<Longrightarrow> a \<in> set_tree t \<Longrightarrow> b \<in> set_tree t \<Longrightarrow> key a = key b \<Longrightarrow> a = b"
proof -
  assume *: "keys_sorted key t" "a \<in> set_tree t" "b \<in> set_tree t" "key a = key b"
  have "sorted_wrt (\<lambda>a b. key a < key b) xs \<Longrightarrow> inj_on key (set xs)" for xs :: "addr list"
    by (induction xs) auto
  then have "inj_on key (set (inorder t))" using *(1) unfolding keys_sorted_def .
  with *(2-4) show "a = b" by (auto dest: inj_onD)
qed

lemma find_in_list: "find P xs = Some x \<Longrightarrow> x \<in> set xs \<and> P x"
  by (induction xs) (auto split: if_splits)

lemma find_append: "find P (xs @ ys) = (case find P xs of None \<Rightarrow> find P ys | Some x \<Rightarrow> Some x)"
  by (induction xs) auto

lemma find_keyI:
  assumes "keys_sorted key t" "c \<in> set_tree t" "key c = key k"
  shows "find (\<lambda>x. key x = key k) (inorder t) = Some c"
proof (cases "find (\<lambda>x. key x = key k) (inorder t)")
  case None
  then show ?thesis using assms by (auto simp: find_None_iff)
next
  case (Some b)
  then have "b \<in> set (inorder t)" "key b = key k" using find_in_list by fastforce+
  then show ?thesis using assms Some same_key_same_node [of key t b c] by simp
qed

lemma find_key_None: "key k \<notin> key ` set_tree t \<Longrightarrow> find (\<lambda>x. key x = key k) (inorder t) = None"
  by (auto simp: find_None_iff) (metis image_eqI)

lemma insort_between:
  "\<forall>x\<in>set xs. key x < key a \<Longrightarrow> \<forall>y\<in>set ys. key a < key y \<Longrightarrow> insort_key key a (xs @ ys) = xs @ a # ys"
proof (induction xs)
  case Nil
  then show ?case by (cases ys) auto
qed auto

lemma size_by_inorder: "size t = length (inorder t)"
  by simp

section \<open>An example tree\<close>

definition avl_ex_store :: "avlnode store" where
  "avl_ex_store =
     [1 \<mapsto> \<lparr>av_left = NULL, av_right = NULL, av_bf = 0\<rparr>, 2 \<mapsto> \<lparr>av_left = Some 1, av_right = Some 3, av_bf = 0\<rparr>,
      3 \<mapsto> \<lparr>av_left = NULL, av_right = NULL, av_bf = 0\<rparr>, 4 \<mapsto> \<lparr>av_left = NULL, av_right = NULL, av_bf = 0\<rparr>]"

definition avl_ex_tree :: avltree where
  "avl_ex_tree =
     \<lparr>at_root = Some 2, at_cached = NULL, at_cmp = cmp_by (\<lambda>a. a mod 4), at_count = 3, at_dtor = Some free_dtor\<rparr>"

abbreviation avl_ex_t :: "addr tree" where
  "avl_ex_t \<equiv> Node (Node Leaf 1 Leaf) 2 (Node Leaf 3 Leaf)"

lemma avl_ex: "avl_holds avl_ex_store avl_ex_tree (\<lambda>a. a mod 4) avl_ex_t"
  by (simp add: avl_holds_def avl_ex_store_def avl_ex_tree_def)

lemma avl_ex_simps: "avl_ex_store 4 = Some \<lparr>av_left = NULL, av_right = NULL, av_bf = 0\<rparr>"
  "at_dtor avl_ex_tree = Some free_dtor" "at_count avl_ex_tree = 3" "dom avl_ex_store = {1, 2, 3, 4}"
  by (auto simp: avl_ex_store_def avl_ex_tree_def)

text \<open>A tree that is two chains below its root, with the balance factors of a freshly linked tree.\<close>

definition chain_store :: "avlnode store" where
  "chain_store =
     [1 \<mapsto> \<lparr>av_left = NULL, av_right = NULL, av_bf = 0\<rparr>, 2 \<mapsto> \<lparr>av_left = Some 1, av_right = NULL, av_bf = 0\<rparr>,
      3 \<mapsto> \<lparr>av_left = Some 2, av_right = NULL, av_bf = 0\<rparr>, 4 \<mapsto> \<lparr>av_left = Some 3, av_right = Some 5, av_bf = 0\<rparr>,
      5 \<mapsto> \<lparr>av_left = NULL, av_right = Some 6, av_bf = 0\<rparr>, 6 \<mapsto> \<lparr>av_left = NULL, av_right = Some 7, av_bf = 0\<rparr>,
      7 \<mapsto> \<lparr>av_left = NULL, av_right = NULL, av_bf = 0\<rparr>]"

definition chain_tree :: avltree where
  "chain_tree = \<lparr>at_root = Some 4, at_cached = NULL, at_cmp = cmp_by id, at_count = 7, at_dtor = None\<rparr>"

abbreviation chain_left :: "addr tree" where
  "chain_left \<equiv> Node (Node (Node Leaf 1 Leaf) 2 Leaf) 3 Leaf"

abbreviation chain_right :: "addr tree" where
  "chain_right \<equiv> Node Leaf 5 (Node Leaf 6 (Node Leaf 7 Leaf))"

lemma chain_at: "tree_at chain_store (at_root chain_tree) (Node chain_left 4 chain_right)"
  by (simp add: chain_store_def chain_tree_def)

lemma chain_unbalanced: "\<not> balanced chain_store (Node chain_left 4 chain_right)"
  by (simp add: chain_store_def)

lemma chain_simps: "chain_store 4 = Some \<lparr>av_left = Some 3, av_right = Some 5, av_bf = 0\<rparr>" "at_count chain_tree = 7"
  by (simp_all add: chain_store_def chain_tree_def)

section \<open>Insertion\<close>

lemma avl_try_insert_ok:
  assumes h: "avl_holds s tree key t" and a: "s a = Some n" "a \<notin> set_tree t" and fuel: "height t < fuel"
  shows "if key a \<in> key ` set_tree t
    then \<exists>x path. x \<in> set_tree t \<and> key x = key a \<and>
           avl_try_insert fuel s tree (Some a) =
             Inr (False, (x, EQUAL) # path, s(a \<mapsto> n\<lparr>av_left := NULL, av_right := NULL, av_bf := 0\<rparr>), tree)
    else \<exists>path s' tree' t'. avl_try_insert fuel s tree (Some a) = Inr (True, path, s', tree') \<and>
           avl_holds s' tree' key t' \<and> inorder t' = insort_key key a (inorder t) \<and>
           frame (insert a (set_tree t)) s s' \<and>
           tree' = tree\<lparr>at_root := at_root tree', at_count := at_count tree + 1\<rparr>"
proof -
  let ?n = "n\<lparr>av_left := NULL, av_right := NULL, av_bf := 0\<rparr>"
  let ?s = "s(a \<mapsto> ?n)"
  note hh = h [unfolded avl_holds_def]
  have init: "initialize_avl_node s (Some a) = Inr ?s" using a(1) by (simp add: initialize_avl_node_def)
  have t: "tree_at ?s (at_root tree) t" "balanced ?s t" using hh a(2) by simp_all
  show ?thesis
  proof (cases "t = Leaf")
    case True
    then have r: "at_root tree = NULL" "at_count tree = 0" "at_cached tree = NULL" 
      using hh by (auto split: option.splits)
    then have "avl_try_insert fuel s tree (Some a) = Inr (True, [], ?s, tree\<lparr>at_root := Some a, at_count := 1\<rparr>)"
      using init by (simp add: avl_try_insert_def)
    moreover have "avl_holds ?s (tree\<lparr>at_root := Some a, at_count := 1\<rparr>) key (Node Leaf a Leaf)"
      using hh r by (simp add: avl_holds_def)
    moreover have "frame {a} s ?s" using a(1) by (auto simp: frame_def)
    ultimately show ?thesis using True r by auto
  next
    case False
    then have root: "at_root tree \<noteq> NULL" "at_count tree \<noteq> 0" using hh tree_at_root by auto
    obtain c t' where c: "plug t' c = t" "EQUAL \<notin> fst ` set c"
        "trace_path_loop fuel ?s (at_cmp tree) a (at_root tree) [] = Inr (found t' @ path_of c)"
        "\<forall>x\<in>set (before c). key x < key a" "\<forall>x\<in>set (after c). key a < key x"
        "\<forall>l x r. t' = Node l x r \<longrightarrow> key x = key a"
      using trace_path_ok [OF t(1), of "at_cmp tree" key fuel a "[]"] hh fuel by auto
    have trace: "avl_trace_path_to_node fuel ?s tree NULL a = Inr (found t' @ path_of c)"
      using c(3) root by (simp add: avl_trace_path_to_node_def)
    show ?thesis
    proof (cases t')
      case (Node l x r)
      have x: "x \<in> set_tree t" "key x = key a" using c(1,6) Node set_tree_plug [of t' c] by auto
      have "avl_try_insert fuel s tree (Some a) = Inr (False, (x, EQUAL) # path_of c, ?s, tree)"
        using trace Node root init by (simp add: avl_try_insert_def)
      moreover have "key a \<in> key ` set_tree t" using x by (metis image_eqI)
      ultimately show ?thesis using x by auto
    next
      case Leaf
      obtain d p u c' where cc: "c = (d, p, u) # c'" using c(1) Leaf False by (cases c rule: ctx_set.cases) auto
      have io: "inorder t = before c @ after c" using c(1) Leaf inorder_plug [of Leaf c] by simp
      then have new: "key a \<notin> key ` set_tree t"
        using c(4,5) by (metis Un_iff image_iff order_less_irrefl set_append set_inorder)
      have ctx: "ctx_at ?s (at_root tree) c NULL" "ctx_bal ?s c 0"
        using t c(1) Leaf tree_at_plug [of ?s "at_root tree" Leaf c] balanced_plug [of ?s Leaf c] by auto
      have d: "distinct (inorder t)" using hh keys_sorted_distinct by blast
      have ac: "a \<notin> ctx_set c" using a(2) c(1) set_tree_plug by auto
      have dd: "distinct (before c @ after c)" using d io by simp
      let ?tree = "tree\<lparr>at_count := at_count tree + 1\<rparr>"
      obtain s2 tree2 where 20: "put_ref ?s tree (path_ref (path_of c)) (Some a) = Inr (s2, tree2)"
          "ctx_at s2 (at_root tree2) c (Some a)" "\<forall>h. ctx_bal s2 c h = ctx_bal ?s c h" "frame (ctx_set c) ?s s2"
        using put_ref_ctx [OF ctx(1) dd, of "Some a"] by (elim exE conjE) (rule that)
      have "tree2 = tree" using 20(1) cc by (cases "d = LEFT") (simp_all add: res_iff)
      then have 2: "put_ref ?s tree (path_ref (path_of c)) (Some a) = Inr (s2, tree)"
          "ctx_at s2 (at_root tree) c (Some a)" "ctx_bal s2 c 0" "frame (ctx_set c) ?s s2"
        using 20 ctx(2) by simp_all
      have s2a: "s2 a = Some ?n" using frame_other [OF 2(4) ac] by simp
      have leaf: "tree_at s2 (Some a) (Node Leaf a Leaf)" "balanced s2 (Node Leaf a Leaf)"
          "height (Node Leaf a Leaf) = 0 + 1" "(0 :: nat) = 0 \<or> \<not> root_even (Node Leaf a Leaf)"
        using s2a by simp_all
      have ctx': "ctx_at s2 (at_root ?tree) c (Some a)" using 2(2) by simp
      have d1: "distinct (inorder (plug (Node Leaf a Leaf) c))"
        using dd ac by (simp add: distinct_plug del: distinct_append)
      obtain s3 tree3 t3 where 3: "avl_insert_fixup s2 ?tree (path_of c) = Inr (s3, tree3)"
          "tree_at s3 (at_root tree3) t3" "balanced s3 t3" "inorder t3 = inorder (plug (Node Leaf a Leaf) c)"
          "frame (set_tree (plug (Node Leaf a Leaf) c)) s2 s3" "tree3 = ?tree\<lparr>at_root := at_root tree3\<rparr>"
        using avl_insert_fixup_ok [OF leaf(1) ctx' leaf(2) 2(3) leaf(3,4) d1 c(2)] by (elim exE conjE) (rule that)
      have io3: "inorder t3 = before c @ a # after c" using 3(4) by (simp add: inorder_plug)
      have put: "(if d = LEFT then put_left ?s (Some p) (Some a) else put_right ?s (Some p) (Some a)) = Inr s2"
        using 2(1) cc by (cases "d = LEFT") (auto simp: res_iff)
      have "d \<noteq> EQUAL" using c(2) cc by auto
      moreover have "avl_trace_path_to_node fuel ?s tree NULL a = Inr ((p, d) # path_of c')"
        using trace Leaf cc by simp
      moreover have "avl_insert_fixup s2 ?tree ((p, d) # path_of c') = Inr (s3, tree3)" using 3(1) cc by simp
      moreover obtain y where "at_root tree = Some y" using root(1) by auto
      ultimately have "avl_try_insert fuel s tree (Some a) = Inr (True, path_of c, s3, tree3)"
        using put init cc by (simp add: avl_try_insert_def del: avl_insert_fixup.simps)
      moreover have "avl_holds s3 tree3 key t3"
      proof -
        have "size t3 = size t + 1" by (simp only: size_by_inorder io3 io) simp
        moreover have "keys_sorted key t3"
          using hh c(4,5) unfolding keys_sorted_def io3 io by (auto simp: sorted_wrt_append)
        moreover have "set_tree t \<subseteq> set_tree t3"
          using arg_cong [OF io3, of set] arg_cong [OF io, of set] by auto
        moreover have "at_cmp tree3 = at_cmp tree" "at_count tree3 = at_count tree + 1" "at_cached tree3 = at_cached tree"
          by (subst 3(6), simp)+
        ultimately show ?thesis using 3(2,3) hh by (auto simp: avl_holds_def)
      qed
      moreover have "inorder t3 = insort_key key a (inorder t)"
        using insort_between [OF c(4,5)] io io3 by simp
      moreover have "frame (insert a (set_tree t)) s s3"
      proof -
        have "set_tree t = ctx_set c" using c(1) Leaf set_tree_plug [of Leaf c] by simp
        moreover have "frame {a} s ?s" using a(1) by (auto simp: frame_def)
        then have "frame (insert a (ctx_set c)) s s2" by (rule frame_trans [OF _ 2(4)]) simp
        ultimately show ?thesis by (intro frame_trans [OF _ 3(5)]) (auto simp: set_tree_plug)
      qed
      moreover have "tree3 = tree\<lparr>at_root := at_root tree3, at_count := at_count tree + 1\<rparr>"
        by (subst 3(6)) simp
      ultimately show ?thesis using new by auto
    qed
  qed
qed

lemma avl_insert_ok:
  assumes h: "avl_holds s tree key t" and a: "s a = Some n" "a \<notin> set_tree t" and fuel: "height t < fuel"
  shows "\<exists>s' tree' t'. Avl_insert_node fuel s tree a = Inr (key a \<notin> key ` set_tree t, s', tree') \<and>
     avl_holds s' tree' key t' \<and>
     inorder t' = (if key a \<in> key ` set_tree t then inorder t else insort_key key a (inorder t)) \<and>
     frame (insert a (set_tree t)) s s'"
proof (cases "cache_hit tree a")
  case True
  then obtain c where c: "c \<in> set_tree t" "key c = key a"
    using h cache_hitD [OF h] by (auto simp: avl_holds_def)
  then have "key a \<in> key ` set_tree t" by (metis image_eqI)
  moreover have "Avl_insert_node fuel s tree a = Inr (False, s, tree)" using True by (simp add: Avl_insert_node_def)
  ultimately show ?thesis using h by auto
next
  case miss: False
  note ins = avl_try_insert_ok [OF h a fuel]
  show ?thesis
  proof (cases "key a \<in> key ` set_tree t")
    case True
    obtain x path where x: "avl_try_insert fuel s tree (Some a) =
        Inr (False, (x, EQUAL) # path, s(a \<mapsto> n\<lparr>av_left := NULL, av_right := NULL, av_bf := 0\<rparr>), tree)"
      using ins unfolding if_P [OF True] by (elim exE conjE) (rule that)
    have "avl_holds (s(a \<mapsto> n\<lparr>av_left := NULL, av_right := NULL, av_bf := 0\<rparr>)) tree key t"
      using h a(2) by (simp add: avl_holds_def)
    moreover have "frame (insert a (set_tree t)) s (s(a \<mapsto> n\<lparr>av_left := NULL, av_right := NULL, av_bf := 0\<rparr>))"
      using a(1) by (auto simp: frame_def)
    ultimately show ?thesis using x miss True by (auto simp: Avl_insert_node_def)
  next
    case False
    obtain path s' tree' t' where "avl_try_insert fuel s tree (Some a) = Inr (True, path, s', tree')"
        "avl_holds s' tree' key t'" "inorder t' = insort_key key a (inorder t)" "frame (insert a (set_tree t)) s s'"
      using ins unfolding if_not_P [OF False] by (elim exE conjE) (rule that)
    then show ?thesis using miss False by (auto simp: Avl_insert_node_def)
  qed
qed

text \<open>C2: Inserting a node into an AVL tree: a node whose key is already in the tree is refused and the tree stays as it was; otherwise the node is linked at its place in the key order, the tree is rebalanced, and no memory but the tree's own nodes changes.\<close>

theorem Avl_insert_correct:
  assumes h: "avl_holds s tree key t" and a: "s a = Some n" "a \<notin> set_tree t" and fuel: "height t < fuel"
  shows "\<exists>s' tree' t'. Avl_insert_node fuel s tree a = Inr (key a \<notin> key ` set_tree t, s', tree') \<and>
     avl_holds s' tree' key t' \<and>
     inorder t' = (if key a \<in> key ` set_tree t then inorder t else insort_key key a (inorder t)) \<and>
     frame (insert a (set_tree t)) s s'"
  using assms by (rule avl_insert_ok)

theorem Avl_insert_witness:
  "\<exists>s' tree' t'. Avl_insert_node 5 avl_ex_store avl_ex_tree 4 = Inr (True, s', tree') \<and>
     avl_holds s' tree' (\<lambda>a. a mod 4) t' \<and> inorder t' = [4, 1, 2, 3]"
  using Avl_insert_correct [OF avl_ex avl_ex_simps(1), of 5] by auto

text \<open>Avl_find_or_insert_node inserts a node with a new key and returns NULL; otherwise it returns the node that already has the key, which it also caches.\<close>

theorem Avl_find_or_insert_correct:
  assumes h: "avl_holds s tree key t" and a: "s a = Some n" "a \<notin> set_tree t" and fuel: "height t < fuel"
  shows "\<exists>s' tree' t'. Avl_find_or_insert_node fuel s tree a = Inr (find (\<lambda>x. key x = key a) (inorder t), s', tree') \<and>
     avl_holds s' tree' key t' \<and>
     inorder t' = (if key a \<in> key ` set_tree t then inorder t else insort_key key a (inorder t))"
proof (cases "cache_hit tree a")
  case True
  then obtain c where c: "at_cached tree = Some c" "c \<in> set_tree t" "key c = key a"
    using h cache_hitD [OF h] by (auto simp: avl_holds_def)
  have "find (\<lambda>x. key x = key a) (inorder t) = Some c"
    using h c by (intro find_keyI) (auto simp: avl_holds_def)
  moreover have "Avl_find_or_insert_node fuel s tree a = Inr (Some c, s, tree)"
    using True c(1) by (simp add: Avl_find_or_insert_node_def)
  moreover have "key a \<in> key ` set_tree t" using c by (metis image_eqI)
  ultimately show ?thesis using h by auto
next
  case miss: False
  note ins = avl_try_insert_ok [OF h a fuel]
  show ?thesis
  proof (cases "key a \<in> key ` set_tree t")
    case True
    obtain x path where x: "x \<in> set_tree t" "key x = key a" "avl_try_insert fuel s tree (Some a) =
        Inr (False, (x, EQUAL) # path, s(a \<mapsto> n\<lparr>av_left := NULL, av_right := NULL, av_bf := 0\<rparr>), tree)"
      using ins unfolding if_P [OF True] by (elim exE conjE) (rule that)
    have "avl_holds (s(a \<mapsto> n\<lparr>av_left := NULL, av_right := NULL, av_bf := 0\<rparr>)) (update_cache tree (Some x)) key t"
      using h a(2) x(1) by (simp add: avl_holds_def update_cache_def)
    moreover have "find (\<lambda>x. key x = key a) (inorder t) = Some x"
      using h x(1,2) by (intro find_keyI) (auto simp: avl_holds_def)
    ultimately show ?thesis using x(3) miss True by (auto simp: Avl_find_or_insert_node_def)
  next
    case False
    obtain path s' tree' t' where "avl_try_insert fuel s tree (Some a) = Inr (True, path, s', tree')"
        "avl_holds s' tree' key t'" "inorder t' = insort_key key a (inorder t)"
      using ins unfolding if_not_P [OF False] by (elim exE conjE) (rule that)
    then show ?thesis using miss False find_key_None [OF False] by (auto simp: Avl_find_or_insert_node_def)
  qed
qed

theorem Avl_find_or_insert_witness:
  "\<exists>s' tree' t'. Avl_find_or_insert_node 5 avl_ex_store avl_ex_tree 4 = Inr (NULL, s', tree') \<and>
     avl_holds s' tree' (\<lambda>a. a mod 4) t' \<and> inorder t' = [4, 1, 2, 3]"
  using Avl_find_or_insert_correct [OF avl_ex avl_ex_simps(1), of 5] by auto

section \<open>Lookup\<close>

lemma find_loop_ok:
  assumes "tree_at s q t" "orders_by cmp key" "keys_sorted key t" "height t < fuel"
  shows "avl_find_node_loop fuel s cmp k q = Inr (find (\<lambda>x. key x = key k) (inorder t))"
  using assms
proof (induction t arbitrary: q fuel)
  case Leaf
  then show ?case by (cases fuel) auto
next
  case (Node l a r)
  obtain f n where f: "fuel = Suc f" and n: "q = Some a" "s a = Some n" "tree_at s (av_left n) l" "tree_at s (av_right n) r"
    using Node.prems(1,4) by (cases fuel) auto
  note cmp = orders_by_simps [OF Node.prems(2)]
  have sorted: "\<forall>x\<in>set_tree l. key x < key a" "\<forall>x\<in>set_tree r. key a < key x" "keys_sorted key l" "keys_sorted key r"
    using Node.prems(3) by simp_all
  consider (lt) "key k < key a" | (eq) "key k = key a" | (gt) "key a < key k" by fastforce
  then show ?case
  proof cases
    case lt
    have "find (\<lambda>x. key x = key k) (inorder r) = None"
      using sorted(2) lt by (intro find_key_None) auto
    then have "find (\<lambda>x. key x = key k) (inorder (Node l a r)) = find (\<lambda>x. key x = key k) (inorder l)"
      using lt by (auto simp: find_append split: option.split)
    moreover have "cmp k a = LT" using lt cmp by simp
    ultimately show ?thesis using n f Node.IH(1) [OF n(3) Node.prems(2) sorted(3), of f] Node.prems(4) by simp
  next
    case eq
    have "find (\<lambda>x. key x = key k) (inorder l) = None"
      using sorted(1) eq by (intro find_key_None) auto
    then have "find (\<lambda>x. key x = key k) (inorder (Node l a r)) = Some a"
      using eq by (auto simp: find_append)
    moreover have "cmp k a = EQ" using eq cmp by simp
    ultimately show ?thesis using n f by simp
  next
    case gt
    have "find (\<lambda>x. key x = key k) (inorder l) = None"
      using sorted(1) gt by (intro find_key_None) auto
    then have "find (\<lambda>x. key x = key k) (inorder (Node l a r)) = find (\<lambda>x. key x = key k) (inorder r)"
      using gt by (auto simp: find_append)
    moreover have "cmp k a = GT" using gt cmp by simp
    ultimately show ?thesis using n f Node.IH(2) [OF n(4) Node.prems(2) sorted(4), of f] Node.prems(4) by simp
  qed
qed

text \<open>Looking a key up in an AVL tree returns the one node with that key, or NULL when there is none, whatever the cache holds; the tree is unchanged but for the cached node, which stays one of its nodes.\<close>

theorem Avl_find_node_correct:
  assumes h: "avl_holds s tree key t" and fuel: "height t < fuel"
  shows "\<exists>tree'. Avl_find_node fuel s tree k = Inr (find (\<lambda>x. key x = key k) (inorder t), tree') \<and>
     avl_holds s tree' key t \<and> tree' = tree\<lparr>at_cached := at_cached tree'\<rparr>"
proof (cases "cache_hit tree k")
  case True
  then obtain c where c: "at_cached tree = Some c" "c \<in> set_tree t" "key c = key k"
    using h cache_hitD [OF h] by (auto simp: avl_holds_def)
  have "find (\<lambda>x. key x = key k) (inorder t) = Some c"
    using h c by (intro find_keyI) (auto simp: avl_holds_def)
  with True c(1) h show ?thesis by (simp add: Avl_find_node_def)
next
  case miss: False
  let ?f = "find (\<lambda>x. key x = key k) (inorder t)"
  have "avl_find_node fuel s tree k = Inr ?f"
  proof (cases "t = Leaf")
    case True
    then show ?thesis using h by (simp add: avl_holds_def avl_find_node_def)
  next
    case False
    then have "\<exists>y. at_root tree = Some y" "at_count tree \<noteq> 0" 
      using h tree_at_root by (auto simp: avl_holds_def)
    then show ?thesis
      using h fuel find_loop_ok [of s "at_root tree" t "at_cmp tree" key fuel k]
      by (auto simp: avl_holds_def avl_find_node_def)
  qed
  then have "Avl_find_node fuel s tree k = Inr (?f, if ?f \<noteq> NULL then tree\<lparr>at_cached := ?f\<rparr> else tree)"
    using miss by (simp add: Avl_find_node_def)
  moreover have "c \<in> set_tree t" if "?f = Some c" for c
  proof -
    have "c \<in> set (inorder t)" using that find_in_list by fastforce
    then show ?thesis by simp
  qed
  ultimately show ?thesis using h by (simp add: avl_holds_def)
qed

theorem Avl_find_node_witness:
  "\<exists>tree'. Avl_find_node 5 avl_ex_store avl_ex_tree 7 = Inr (Some 3, tree') \<and>
     avl_holds avl_ex_store tree' (\<lambda>a. a mod 4) avl_ex_t"
  using Avl_find_node_correct [OF avl_ex, of 5 7] by auto

section \<open>Deletion\<close>

lemma height_plug_le: "height t \<le> height (plug t c)"
  by (induction t c rule: plug.induct) (auto simp: le_max_iff_disj intro: le_trans [rotated])

lemma delete_unlink_ok:
  assumes h: "avl_holds s tree key t" and p: "plug (Node l x r) c = t" and eq: "EQUAL \<notin> fst ` set c"
    and fuel: "height t < fuel"
  obtains s' tree' t' where "delete_unlink fuel s tree x (path_of c) = Inr (s', tree')"
    and "tree_at s' (at_root tree') t'" "balanced s' t'"
    and "inorder t' = before c @ inorder l @ inorder r @ after c"
    and "frame (set_tree t) s s'" "tree' = tree\<lparr>at_root := at_root tree'\<rparr>"
proof -
  have at: "tree_at s (at_root tree) (plug (Node l x r) c)" and bal: "balanced s (plug (Node l x r) c)"
    and k: "keys_sorted key (plug (Node l x r) c)" "orders_by (at_cmp tree) key"
    using h p by (simp_all add: avl_holds_def)
  have "size (plug (Node l x r) c) \<noteq> 0"
    using set_tree_plug [of "Node l x r" c] by (cases "plug (Node l x r) c") auto
  then have ne: "at_count tree \<noteq> 0" using h p by (simp add: avl_holds_def)
  have "height r < fuel" using height_plug_le [of "Node l x r" c] p fuel by simp
  note two = delete_two_children [OF at bal eq _ _ k ne this]
  note one = delete_one_child [OF at bal keys_sorted_distinct [OF k(1)] eq, of fuel]
  show ?thesis
  proof (cases "l = Leaf \<or> r = Leaf")
    case True
    show ?thesis using one [OF True] p by (elim exE conjE) (rule that; simp)
  next
    case False
    then have lr: "l \<noteq> Leaf" "r \<noteq> Leaf" by simp_all
    show ?thesis using two [OF lr] p by (elim exE conjE) (rule that; simp)
  qed
qed

lemma remove1_middle: "distinct (xs @ a # ys) \<Longrightarrow> remove1 a (xs @ a # ys) = xs @ ys"
  by (induction xs) auto

lemma delete_at:
  assumes h: "avl_holds s tree key t" and p: "plug (Node l x r) c = t" and eq: "EQUAL \<notin> fst ` set c"
    and trace: "avl_trace_path_to_node fuel s tree NULL k = Inr ((x, d) # path_of c)"
    and fuel: "height t < fuel"
    and free: "free_container \<Longrightarrow> \<exists>d. at_dtor tree = Some d \<and> frees_node d"
  shows "\<exists>s' tree' t'. Avl_delete_node fuel s tree k free_container =
       Inr (True, if free_container then s'(x := None) else s', tree') \<and>
     avl_holds (if free_container then s'(x := None) else s') tree' key t' \<and>
     inorder t' = remove1 x (inorder t) \<and> frame (set_tree t) s s' \<and> at_dtor tree' = at_dtor tree"
proof -
  obtain s' tree' t' where 1: "delete_unlink fuel s tree x (path_of c) = Inr (s', tree')"
     "tree_at s' (at_root tree') t'" "balanced s' t'"
     "inorder t' = before c @ inorder l @ inorder r @ after c"
     "frame (set_tree t) s s'" "tree' = tree\<lparr>at_root := at_root tree'\<rparr>"
    by (rule delete_unlink_ok [OF h p eq fuel])
  have io: "inorder t = (before c @ inorder l) @ x # (inorder r @ after c)"
    using inorder_plug [of "Node l x r" c] p by simp
  have ks: "keys_sorted key t" using h by (simp add: avl_holds_def)
  then have d: "distinct (inorder t)" by (rule keys_sorted_distinct)
  then have rem: "inorder t' = remove1 x (inorder t)"
    using remove1_middle [of "before c @ inorder l" x "inorder r @ after c"] 1(4) unfolding io by simp
  have same: "at_count tree' = at_count tree" "at_cmp tree' = at_cmp tree" "at_dtor tree' = at_dtor tree"
    by (subst 1(6), simp)+
  let ?tree = "(clear_cache tree')\<lparr>at_count := at_count tree' - 1\<rparr>"
  have "size t' = size t - 1"
    unfolding size_by_inorder rem using io by (simp add: length_remove1)
  moreover have "keys_sorted key t'"
    using ks unfolding keys_sorted_def 1(4) io by (simp add: sorted_wrt_append)
  moreover have "x \<notin> set (inorder t')" unfolding rem using d by simp
  then have "x \<notin> set_tree t'" by simp
  ultimately have holds: "avl_holds s' ?tree key t'" "avl_holds (s'(x := None)) ?tree key t'"
    using 1(2,3) same h by (simp_all add: avl_holds_def clear_cache_def)
  have ne: "at_count tree \<noteq> 0" using h io by (metis avl_holds_def append_is_Nil_conv length_0_conv list.distinct(1) size_by_inorder)
  have "s x \<noteq> None" using h tree_at_dom [of s "at_root tree" t] arg_cong [OF io, of set] by (auto simp: avl_holds_def)
  then have x: "x \<in> dom s'" using frame_dom [OF 1(5)] by auto
  have "Avl_delete_node fuel s tree k free_container = Inr (True, if free_container then s'(x := None) else s', ?tree)"
  proof (cases free_container)
    case True
    then obtain dt where "at_dtor tree' = Some dt" "dt s' x = Inr (s'(x := None))"
      using free same x by (auto simp: frees_node_def)
    with True show ?thesis
      using ne trace 1(1) by (simp add: Avl_delete_node_def clear_cache_def)
  next
    case False
    then show ?thesis using ne trace 1(1) by (simp add: Avl_delete_node_def clear_cache_def)
  qed
  moreover have "at_dtor ?tree = at_dtor tree" using same by (simp add: clear_cache_def)
  ultimately show ?thesis using holds rem 1(5) by (cases free_container) auto
qed

text \<open>C3: Deleting a key that is in an AVL tree takes exactly its node out of the tree: the other nodes keep their order, the tree is rebalanced, the cache is emptied, nothing outside the tree changes, and the node is freed exactly when that was asked for.\<close>

theorem Avl_delete_correct:
  assumes h: "avl_holds s tree key t" and x: "x \<in> set_tree t" "key x = key k" and fuel: "height t < fuel"
    and free: "free_container \<Longrightarrow> \<exists>d. at_dtor tree = Some d \<and> frees_node d"
  shows "\<exists>s' tree' t'. Avl_delete_node fuel s tree k free_container =
       Inr (True, if free_container then s'(x := None) else s', tree') \<and>
     avl_holds (if free_container then s'(x := None) else s') tree' key t' \<and>
     inorder t' = remove1 x (inorder t) \<and> frame (set_tree t) s s'"
proof -
  note hh = h [unfolded avl_holds_def]
  obtain c t' where c: "plug t' c = t" "EQUAL \<notin> fst ` set c"
        "trace_path_loop fuel s (at_cmp tree) k (at_root tree) [] = Inr (found t' @ path_of c)"
        "\<forall>x\<in>set (before c). key x < key k" "\<forall>x\<in>set (after c). key k < key x"
        "\<forall>l x r. t' = Node l x r \<longrightarrow> key x = key k"
    using trace_path_ok [of s "at_root tree" t "at_cmp tree" key fuel k "[]"] hh fuel by auto
  have "t' \<noteq> Leaf"
  proof
    assume "t' = Leaf"
    then have "x \<in> set (before c) \<union> set (after c)"
      using c(1) x(1) set_tree_plug [of t' c] by (simp add: ctx_set_inorder)
    then show False using c(4,5) x(2) by auto
  qed
  then obtain l y r where t': "t' = Node l y r" by (cases t') auto
  then have "y \<in> set_tree t" "key y = key x" using c(1,6) x(2) set_tree_plug [of t' c] by auto
  then have "y = x" using same_key_same_node [of key t y x] hh x(1) by simp
  then have "avl_trace_path_to_node fuel s tree NULL k = Inr ((x, EQUAL) # path_of c)"
    using c(3) t' x(1) hh tree_at_root by (cases t) (auto simp: avl_trace_path_to_node_def)
  then show ?thesis
    using delete_at [OF h _ c(2) _ fuel free] c(1) t' \<open>y = x\<close> by blast
qed

theorem Avl_delete_witness:
  "\<exists>s' tree' t'. Avl_delete_node 5 avl_ex_store avl_ex_tree 6 True = Inr (True, s'(2 := None), tree') \<and>
     avl_holds (s'(2 := None)) tree' (\<lambda>a. a mod 4) t' \<and> inorder t' = [1, 3]"
  using Avl_delete_correct [OF avl_ex, of 2 6 5 True] avl_ex_simps(2) frees_node_free_dtor by auto

text \<open>Deleting a key that is not in a non-empty AVL tree does not report failure: it deletes another node, the last one on the search path, and returns true.\<close>

theorem Avl_delete_absent_key:
  assumes h: "avl_holds s tree key t" and k: "key k \<notin> key ` set_tree t" "t \<noteq> Leaf" and fuel: "height t < fuel"
  shows "\<exists>x s' tree' t'. Avl_delete_node fuel s tree k False = Inr (True, s', tree') \<and>
     x \<in> set_tree t \<and> key x \<noteq> key k \<and> avl_holds s' tree' key t' \<and> inorder t' = remove1 x (inorder t)"
proof -
  note hh = h [unfolded avl_holds_def]
  obtain c t' where c: "plug t' c = t" "EQUAL \<notin> fst ` set c"
        "trace_path_loop fuel s (at_cmp tree) k (at_root tree) [] = Inr (found t' @ path_of c)"
        "\<forall>l x r. t' = Node l x r \<longrightarrow> key x = key k"
    using trace_path_ok [of s "at_root tree" t "at_cmp tree" key fuel k "[]"] hh fuel by auto
  have leaf: "t' = Leaf"
  proof (cases t')
    case (Node l x r)
    then have "x \<in> set_tree t" "key x = key k" using c(1,4) set_tree_plug [of t' c] by auto
    then have "key k \<in> key ` set_tree t" by (metis image_eqI)
    with k(1) show ?thesis by contradiction
  qed
  then obtain d x u c' where cc: "c = (d, x, u) # c'" using c(1) k(2) by (cases c rule: ctx_set.cases) auto
  have trace: "avl_trace_path_to_node fuel s tree NULL k = Inr ((x, d) # path_of c')"
    using c(3) leaf cc k(2) hh tree_at_root by (cases t) (auto simp: avl_trace_path_to_node_def)
  have p: "plug (if d = LEFT then Node Leaf x u else Node u x Leaf) c' = t" using c(1) leaf cc by simp
  then obtain l r where p: "plug (Node l x r) c' = t" by (cases "d = LEFT") auto
  have "EQUAL \<notin> fst ` set c'" using c(2) cc by auto
  moreover have x: "x \<in> set_tree t" using p set_tree_plug [of "Node l x r" c'] by auto
  moreover have "key x \<noteq> key k" using x k(1) by (metis image_eqI)
  ultimately show ?thesis
    using delete_at [OF h p _ trace fuel, of False] by (metis (no_types, lifting))
qed

theorem Avl_delete_absent_witness:
  "\<exists>s' tree'. Avl_delete_node 5 avl_ex_store avl_ex_tree 4 False = Inr (True, s', tree')"
  using Avl_delete_absent_key [OF avl_ex, of 4 5] by auto


end
