(* ===== verification/Avl_Query.thy ===== *)
theory Avl_Query
  imports Avl_Ops Interfaces
begin

text \<open>
  The AVL tree as an ordered set (interpretation of \<open>sorted_set\<close>), minimum, maximum and order
  statistics, height, levels, destruction and the validation function.
\<close>

section \<open>The ordered-set contract\<close>

definition avl_repr :: "(addr \<Rightarrow> 'k::linorder) \<Rightarrow> avl_state \<Rightarrow> addr list \<Rightarrow> bool" where
  "avl_repr key st xs \<longleftrightarrow> (\<exists>t. avl_holds (fst st) (snd st) key t \<and> inorder t = xs)"

definition avl_usable :: "avl_state \<Rightarrow> addr \<Rightarrow> bool" where
  "avl_usable st a \<longleftrightarrow> a \<in> dom (fst st)"

interpretation avl: sorted_set "avl_repr key" key avl_usable fuel "\<lambda>(s, tree) a. Avl_insert_node fuel s tree a"
proof
  fix st xs a
  assume r: "avl_repr key st xs" and u: "avl_usable st a" "a \<notin> set xs" "length xs < fuel"
  obtain s tree where st: "st = (s, tree)" by (cases st)
  obtain t where t: "avl_holds s tree key t" "inorder t = xs" using r st by (auto simp: avl_repr_def)
  obtain n where n: "s a = Some n" using u(1) st by (auto simp: avl_usable_def)
  have "height t \<le> size t" by (rule height_le_size_tree)
  then have H: "height t < fuel" using u(3) t(2) size_by_inorder [of t] by simp
  have sx: "set_tree t = set xs" using t(2) set_inorder by metis
  have A: "a \<notin> set_tree t" using u(2) sx by simp
  obtain s' tree' t' where 1: "Avl_insert_node fuel s tree a = Inr (key a \<notin> key ` set xs, s', tree')"
      "avl_holds s' tree' key t'"
      "inorder t' = (if key a \<in> key ` set xs then xs else insort_key key a xs)"
      "frame (insert a (set xs)) s s'"
    using avl_insert_ok [OF t(1) n A H] unfolding sx t(2) by (elim exE conjE) (rule that)
  have "\<forall>b. avl_usable st b \<longrightarrow> avl_usable (s', tree') b"
    using frame_dom [OF 1(4)] st by (simp add: avl_usable_def)
  with 1 st show "\<exists>st'. (case st of (s, tree) \<Rightarrow> \<lambda>a. Avl_insert_node fuel s tree a) a =
        Inr (key a \<notin> key ` set xs, st') \<and>
      avl_repr key st' (if key a \<in> key ` set xs then xs else insort_key key a xs) \<and>
      (\<forall>b. avl_usable st b \<longrightarrow> avl_usable st' b)"
    by (auto simp: avl_repr_def)
next
  fix st xs
  assume "avl_repr key st xs"
  then show "sorted_wrt (\<lambda>a b. key a < key b) xs" by (auto simp: avl_repr_def avl_holds_def keys_sorted_def)
qed

section \<open>Minimum, maximum and order statistics\<close>

lemma leftmost_ok:
  "tree_at s q t \<Longrightarrow> height t < fuel \<Longrightarrow>
     leftmost_loop fuel s q = Inr (case inorder t of [] \<Rightarrow> NULL | a # _ \<Rightarrow> Some a)"
proof (induction t arbitrary: q fuel)
  case Leaf
  then show ?case by (cases fuel) auto
next
  case (Node l a r)
  then obtain f n where "fuel = Suc f" "q = Some a" "s a = Some n" "tree_at s (av_left n) l" by (cases fuel) auto
  with Node show ?case
    using tree_at_root [of s "av_left n" l] by (cases "l = Leaf") (auto simp: get_left_def split: list.splits)
qed

lemma rightmost_ok:
  "tree_at s q t \<Longrightarrow> height t < fuel \<Longrightarrow>
     rightmost_loop fuel s q = Inr (if t = Leaf then NULL else Some (last (inorder t)))"
proof (induction t arbitrary: q fuel)
  case Leaf
  then show ?case by (cases fuel) auto
next
  case (Node l a r)
  then obtain f n where "fuel = Suc f" "q = Some a" "s a = Some n" "tree_at s (av_right n) r" by (cases fuel) auto
  with Node show ?case
    using tree_at_root [of s "av_right n" r] by (cases "r = Leaf") (auto simp: get_right_def)
qed

lemma Avl_get_min_ok:
  assumes "avl_holds s tree key t" "height t < fuel"
  shows "Avl_get_min fuel s tree = Inr (case inorder t of [] \<Rightarrow> NULL | a # _ \<Rightarrow> Some a)"
  using assms leftmost_ok [of s "at_root tree" t fuel]
  by (auto simp: Avl_get_min_def avl_holds_def)

lemma Avl_get_max_ok:
  assumes "avl_holds s tree key t" "height t < fuel"
  shows "Avl_get_max fuel s tree = Inr (if t = Leaf then NULL else Some (last (inorder t)))"
  using assms rightmost_ok [of s "at_root tree" t fuel]
  by (auto simp: Avl_get_max_def avl_holds_def)

text \<open>The counting walk stops at the \<open>k\<close>-th node; \<open>seq\<close> is the order in which it visits.\<close>

definition visit_order :: "bool \<Rightarrow> addr tree \<Rightarrow> addr list" where
  "visit_order backward t = (if backward then rev (inorder t) else inorder t)"

lemma find_kth_ok:
  assumes "tree_at s q t" "height t < fuel" "n < k"
  shows "find_kth_inorder fuel s q k n backward f =
     Inr (if n + size t < k then (n + size t, f) else (k, Some (visit_order backward t ! (k - n - 1))))"
  using assms
proof (induction t arbitrary: q fuel n f)
  case Leaf
  then show ?case by (cases fuel) auto
next
  case (Node l a r)
  obtain g m where g: "fuel = Suc g" "q = Some a" "s a = Some m" "tree_at s (av_left m) l" "tree_at s (av_right m) r"
    using Node.prems by (cases fuel) auto
  define x where "x = (if backward then r else l)"
  define y where "y = (if backward then l else r)"
  define p where "p = (if backward then av_right m else av_left m)"
  define p' where "p' = (if backward then av_left m else av_right m)"
  have visit: "visit_order backward (Node l a r) = visit_order backward x @ a # visit_order backward y"
    and len: "length (visit_order backward x) = size x" "length (visit_order backward y) = size y"
    and sz: "size (Node l a r) = size x + size y + 1"
    by (auto simp: visit_order_def x_def y_def)
  have ih: "find_kth_inorder g s p k n backward f =
      Inr (if n + size x < k then (n + size x, f) else (k, Some (visit_order backward x ! (k - n - 1))))"
     "n' < k \<Longrightarrow> find_kth_inorder g s p' k n' backward f =
      Inr (if n' + size y < k then (n' + size y, f) else (k, Some (visit_order backward y ! (k - n' - 1))))" for n'
    using Node.IH g(4,5) g(1) Node.prems(2,3) by (auto simp: x_def y_def p_def p'_def)
  have step: "find_kth_inorder fuel s q k n backward f =
      bindE (find_kth_inorder g s p k n backward f) (\<lambda>(n, f). if n = k then Inr (n, f) else
        if n + 1 = k then Inr (n + 1, q) else find_kth_inorder g s p' k (n + 1) backward f)"
    using g(1-3) by (auto simp: p_def p'_def Let_def fun_eq_iff intro!: arg_cong2 [of _ _ _ _ bindE] split: prod.split)
  show ?case
  proof (cases "n + size x < k")
    case False
    then show ?thesis unfolding step ih(1) visit using len sz Node.prems(3) by (auto simp: nth_append)
  next
    case True
    show ?thesis
    proof (cases "n + size x + 1 = k")
      case now: True
      then have "k - n - 1 = size x" by simp
      then show ?thesis unfolding step ih(1) visit using True now len sz g(2) by (simp add: nth_append)
    next
      case later: False
      then have k: "n + size x + 1 < k" using True by simp
      then obtain j where j: "k = n + size x + 1 + Suc j" using less_iff_Suc_add by (metis add_Suc_right)
      then have "(visit_order backward x @ a # visit_order backward y) ! (k - n - 1) =
          visit_order backward y ! (k - (n + size x + 1) - 1)"
        using len(1) by (simp add: nth_append)
      then show ?thesis unfolding step ih(1) visit using True later sz ih(2) [OF k] by simp
    qed
  qed
qed

lemma avl_size: "avl_holds s tree key t \<Longrightarrow> at_count tree = length (inorder t)"
  by (simp add: avl_holds_def)

lemma find_kth_from_root:
  assumes h: "avl_holds s tree key t" "height t < fuel" and k: "0 < k" "k \<le> at_count tree"
  shows "find_kth_inorder fuel s (at_root tree) k 0 backward NULL = Inr (k, Some (visit_order backward t ! (k - 1)))"
  using find_kth_ok [of s "at_root tree" t fuel 0 k backward NULL] assms by (auto simp: avl_holds_def)

lemma kth_min_ok:
  assumes h: "avl_holds s tree key t" "height t < fuel" and k: "0 < k"
  shows "Avl_get_kth_min fuel s tree k =
     Inr (if k \<le> length (inorder t) then Some (inorder t ! (k - 1)) else NULL)"
proof (cases "k \<le> at_count tree")
  case False
  then show ?thesis using avl_size [OF h(1)] k by (simp add: Avl_get_kth_min_def)
next
  case True
  let ?n = "at_count tree"
  show ?thesis
  proof (cases "k > ?n div 2")
    case False
    then show ?thesis
      using find_kth_from_root [OF h k True, of False] True k avl_size [OF h(1)]
      by (simp add: Avl_get_kth_min_def visit_order_def)
  next
    case bk: True
    let ?k = "?n - (k - 1)"
    have "rev (inorder t) ! (?k - 1) = inorder t ! (k - 1)"
      using True k avl_size [OF h(1)] by (simp add: rev_nth)
    then show ?thesis
      using find_kth_from_root [OF h, of ?k True] True bk k avl_size [OF h(1)]
      by (simp add: Avl_get_kth_min_def visit_order_def)
  qed
qed

text \<open>The order statistics of an AVL tree: the k-th minimum is the k-th node of the in-order sequence and the k-th maximum the k-th from its end, whichever end the walk starts from; NULL when there are fewer than k nodes.\<close>

theorem Avl_kth_correct:
  assumes "avl_holds s tree key t" "height t < fuel" and "0 < k"
  shows "Avl_get_kth_min fuel s tree k =
      Inr (if k \<le> length (inorder t) then Some (inorder t ! (k - 1)) else NULL) \<and>
    Avl_get_kth_max fuel s tree k =
      Inr (if k \<le> length (inorder t) then Some (rev (inorder t) ! (k - 1)) else NULL)"
proof (cases "k \<le> at_count tree")
  case True
  then show ?thesis
    using kth_min_ok [OF assms(1,2)] avl_size [OF assms(1)] assms(3)
    by (simp add: Avl_get_kth_max_def rev_nth)
next
  case False
  then show ?thesis
    using kth_min_ok [OF assms(1,2)] avl_size [OF assms(1)] assms(3) by (simp add: Avl_get_kth_max_def)
qed

theorem Avl_kth_witness:
  "Avl_get_kth_min 5 avl_ex_store avl_ex_tree 3 = Inr (Some 3) \<and>
   Avl_get_kth_max 5 avl_ex_store avl_ex_tree 3 = Inr (Some 1)"
  using Avl_kth_correct [OF avl_ex, of 5 3] by (simp add: numeral_eq_Suc)

section \<open>Height and levels\<close>

lemma find_height_ok: "tree_at s q t \<Longrightarrow> height t < fuel \<Longrightarrow> avl_find_node_height fuel s q = Inr (int (height t) - 1)"
proof (induction t arbitrary: q fuel)
  case Leaf
  then show ?case by (cases fuel) auto
next
  case (Node l a r)
  then obtain f n where "fuel = Suc f" "q = Some a" "s a = Some n" by (cases fuel) auto
  with Node show ?case by auto
qed

lemma balanced_size: "balanced s t \<Longrightarrow> 2 ^ (height t div 2) \<le> size t + 1"
proof (induction t)
  case Leaf
  then show ?case by simp
next
  case (Node l a r)
  let ?e = "height (Node l a r) div 2"
  show ?case
  proof (cases "max (height l) (height r) = 0")
    case True
    then show ?thesis by simp
  next
    case False
    have h: "height l \<ge> height (Node l a r) - 2" "height r \<ge> height (Node l a r) - 2"
      using Node.prems by auto
    have "2 \<le> height (Node l a r)" using False by (cases "max (height l) (height r)") auto
    then have "?e \<noteq> 0" by linarith
    then obtain e where e: "?e = Suc e" using not0_implies_Suc by blast
    have "e \<le> height l div 2" "e \<le> height r div 2" using h e by linarith+
    then have "2 ^ e \<le> size l + 1" "2 ^ e \<le> size r + 1"
      using Node by (auto intro: le_trans [OF power_increasing [of _ _ "2 :: nat"]])
    then show ?thesis using e by simp
  qed
qed

lemma balanced_height: "balanced s t \<Longrightarrow> size t < 2 ^ n \<Longrightarrow> height t \<le> 2 * n + 1"
proof -
  assume "balanced s t" "size t < 2 ^ n"
  then have "(2 :: nat) ^ (height t div 2) \<le> 2 ^ n" using balanced_size [of s t] by linarith
  then have "height t div 2 \<le> n" by simp
  then show ?thesis by linarith
qed

text \<open>C36: An AVL tree is shallow: Avl_height is the true height (levels minus one, so -1 for the empty tree, for which the comment above the function says 0), a tree of height h holds at least 2^(h/2) - 1 nodes, and whatever the number of nodes a size_t can count there are at most 129 levels, so 130 rounds of any downward walk are enough.\<close>

theorem Avl_height_bound:
  assumes "avl_holds s tree key t" "at_count tree < SZ" "130 \<le> fuel"
  shows "Avl_height fuel s tree = Inr (int (height t) - 1) \<and>
     2 ^ (height t div 2) \<le> at_count tree + 1 \<and> height t \<le> 129"
proof -
  have t: "tree_at s (at_root tree) t" "balanced s t" "at_count tree = size t"
    using assms(1) by (simp_all add: avl_holds_def)
  have h: "height t \<le> 129"
    using balanced_height [OF t(2), of 64] t(3) assms(2) by (simp add: SZ_def)
  then show ?thesis
    using find_height_ok [OF t(1), of fuel] balanced_size [OF t(2)] t(3) assms(3) by (simp add: Avl_height_def)
qed

theorem Avl_height_witness: "Avl_height 130 avl_ex_store avl_ex_tree = Inr 1"
  using Avl_height_bound [OF avl_ex, of 130] avl_ex_simps(3) by (simp add: SZ_def)

fun nodes_at :: "nat \<Rightarrow> addr tree \<Rightarrow> addr list" where
  "nodes_at d Leaf = []"
| "nodes_at 0 (Node l a r) = [a]"
| "nodes_at (Suc d) (Node l a r) = nodes_at d l @ nodes_at d r"

lemma get_nodes_at_level_ok:
  "tree_at s q t \<Longrightarrow> height t < fuel \<Longrightarrow> d + 1 < SZ \<Longrightarrow>
     avl_get_nodes_at_level fuel s q (Suc d) acc = Inr (acc @ nodes_at d t)"
proof (induction t arbitrary: q fuel d acc)
  case Leaf
  then show ?case by (cases fuel) auto
next
  case (Node l a r)
  then obtain f n where f: "fuel = Suc f" "q = Some a" "s a = Some n" by (cases fuel) auto
  show ?case
  proof (cases d)
    case 0
    then show ?thesis using f by simp
  next
    case (Suc e)
    have "Suc d + (SZ - 1) = d + SZ" by (simp add: SZ_def)
    then have "(Suc d + (SZ - 1)) mod SZ = Suc e" using Node.prems(3) Suc by (simp only: mod_add_self2) simp
    then show ?thesis using Node f Suc by (simp add: Let_def)
  qed
qed

lemma Avl_get_nodes_at_level_ok:
  assumes "avl_holds s tree key t" "height t < fuel" "0 < level" "level < SZ"
  shows "Avl_get_nodes_at_level fuel s tree level = Inr (nodes_at (level - 1) t)"
    and "AVL_count_nodes_at_level fuel s tree level = Inr (length (nodes_at (level - 1) t))"
  using get_nodes_at_level_ok [of s "at_root tree" t fuel "level - 1" "[]"] assms
  by (auto simp: Avl_get_nodes_at_level_def AVL_count_nodes_at_level_def avl_holds_def)

section \<open>Destruction\<close>

lemma cut_down_ok:
  "tree_at s q t \<Longrightarrow> distinct (inorder t) \<Longrightarrow> frees_node dt \<Longrightarrow> height t < fuel \<Longrightarrow>
     avl_cut_down fuel dt s q = Inr (\<lambda>a. if a \<in> set_tree t then None else s a)"
proof (induction t arbitrary: s q fuel)
  case Leaf
  then show ?case by (cases fuel) auto
next
  case (Node l a r)
  obtain f n where f: "fuel = Suc f" "q = Some a" "s a = Some n" "tree_at s (av_left n) l" "tree_at s (av_right n) r"
    using Node.prems by (cases fuel) auto
  have d: "distinct (inorder l)" "distinct (inorder r)" "a \<notin> set_tree l" "a \<notin> set_tree r" "set_tree l \<inter> set_tree r = {}"
    using Node.prems(2) by auto
  let ?s1 = "\<lambda>b. if b \<in> set_tree l then None else s b"
  let ?s2 = "\<lambda>b. if b \<in> set_tree r then None else ?s1 b"
  have 1: "avl_cut_down f dt s (av_left n) = Inr ?s1"
    using Node.IH(1) [OF f(4) d(1) Node.prems(3)] Node.prems(4) f(1) by simp
  have "tree_at ?s1 (av_right n) r = tree_at s (av_right n) r" using d(5) by (intro tree_at_cong) auto
  then have 2: "avl_cut_down f dt ?s1 (av_right n) = Inr ?s2"
    using Node.IH(2) [OF _ d(2) Node.prems(3), of ?s1 "av_right n" f] Node.prems(4) f(1,5) by simp
  have g: "get_left s (Some a) = Inr (av_left n)" "get_right ?s1 (Some a) = Inr (av_right n)" "?s2 a = Some n"
    using f d by (simp_all add: get_left_def get_right_def)
  have dt: "dt ?s2 a = Inr (?s2(a := None))" by (rule frees_nodeD [where s = ?s2, OF Node.prems(3) g(3)])
  have eq: "?s2(a := None) = (\<lambda>b. if b \<in> set_tree (Node l a r) then None else s b)" by auto
  show ?case
    unfolding f(1,2) avl_cut_down.simps option.case g(1) bindE_simps 1 g(2) 2 dt eq ..
qed

text \<open>Clearing an AVL tree with its destructor frees every node of the tree once and nothing else, never reads a freed node, and leaves an empty tree with the same comparator and destructor.\<close>

theorem Avl_clear_frees_all:
  assumes h: "avl_holds s tree key t" "height t < fuel" and d: "at_dtor tree = Some d" "frees_node d"
  shows "\<exists>s' tree'. Avl_clear fuel s tree True = Inr (s', tree') \<and> dom s' = dom s - set_tree t \<and>
     (\<forall>a. a \<notin> set_tree t \<longrightarrow> s' a = s a) \<and> avl_holds s' tree' key Leaf \<and>
     at_cmp tree' = at_cmp tree \<and> at_dtor tree' = at_dtor tree"
proof -
  have t: "tree_at s (at_root tree) t" "distinct (inorder t)" "orders_by (at_cmp tree) key"
    using h(1) keys_sorted_distinct by (auto simp: avl_holds_def)
  have "Avl_clear fuel s tree True =
      Inr (\<lambda>a. if a \<in> set_tree t then None else s a, initialize_avl_tree (at_cmp tree) (at_dtor tree))"
    using cut_down_ok [OF t(1,2) d(2) h(2)] d(1) by (simp add: Avl_clear_def)
  moreover have "avl_holds s' (initialize_avl_tree (at_cmp tree) (at_dtor tree)) key Leaf" for s'
    using t(3) by (simp add: avl_holds_def initialize_avl_tree_def)
  ultimately show ?thesis by (auto simp: initialize_avl_tree_def split: if_splits)
qed

theorem Avl_clear_witness:
  "\<exists>s' tree'. Avl_clear 5 avl_ex_store avl_ex_tree True = Inr (s', tree') \<and> dom s' = {4} \<and> at_count tree' = 0"
  using Avl_clear_frees_all [OF avl_ex, of 5 free_dtor] avl_ex_simps frees_node_free_dtor
  by (auto simp: avl_holds_def)

section \<open>The validation function\<close>

lemma validate_ok:
  "tree_at s q t \<Longrightarrow> height t < fuel \<Longrightarrow>
     \<exists>p. validate_avl fuel s q priv = Inr (height t, p) \<and>
       (\<forall>l a r n. t = Node l a r \<and> s a = Some n \<longrightarrow>
          p = (height l \<le> height r + 1 \<and> height r \<le> height l + 1 \<and> -1 \<le> av_bf n \<and> av_bf n \<le> 1))"
proof (induction t arbitrary: q fuel priv)
  case Leaf
  then show ?case by (cases fuel) auto
next
  case (Node l a r)
  obtain f n where f: "fuel = Suc f" "q = Some a" "s a = Some n" "tree_at s (av_left n) l" "tree_at s (av_right n) r"
    using Node.prems by (cases fuel) auto
  obtain p1 where 1: "validate_avl f s (av_left n) priv = Inr (height l, p1)"
    using Node.IH(1) [OF f(4)] Node.prems(2) f(1) by fastforce
  obtain p2 where 2: "validate_avl f s (av_right n) p1 = Inr (height r, p2)"
    using Node.IH(2) [OF f(5)] Node.prems(2) f(1) by fastforce
  show ?case using f 1 2 by (auto simp: Let_def)
qed

text \<open>isavl judges the root node only: the verdict on every other node is overwritten on the way up, so a tree that is out of balance below the root passes the check.\<close>

theorem isavl_judges_root_only:
  assumes t: "tree_at s (at_root tree) (Node l a r)" "s a = Some n" and "at_count tree \<noteq> 0"
    and fuel: "height (Node l a r) < fuel"
  shows "isavl fuel s tree =
     Inr (height l \<le> height r + 1 \<and> height r \<le> height l + 1 \<and> -1 \<le> av_bf n \<and> av_bf n \<le> 1)"
proof -
  obtain p where "validate_avl fuel s (at_root tree) False = Inr (height (Node l a r), p)"
      "p = (height l \<le> height r + 1 \<and> height r \<le> height l + 1 \<and> -1 \<le> av_bf n \<and> av_bf n \<le> 1)"
    using validate_ok [OF t(1) fuel, of False] t(2) by auto
  then show ?thesis using assms(3) by (simp add: isavl_def)
qed

theorem isavl_witness:
  "isavl 10 chain_store chain_tree = Inr True \<and> \<not> balanced chain_store (Node chain_left 4 chain_right)"
  using isavl_judges_root_only [OF chain_at chain_simps(1), of 10] chain_simps(2) chain_unbalanced
  by simp

text \<open>C22: Inserting any nodes, in any order, into an AVL tree yields the tree whose in-order keys are the sorted set of all keys: the first node with a key is kept, later ones are refused.\<close>

theorem Avl_insert_all_sorts:
  assumes "avl_holds s tree key t" "distinct as" "set as \<inter> set_tree t = {}" "set as \<subseteq> dom s"
    and "size t + length as \<le> fuel"
  shows "\<exists>s' tree' t'.
     foldE (\<lambda>st a. bindE (Avl_insert_node fuel (fst st) (snd st) a) (\<lambda>(_, st). Inr st)) (s, tree) as = Inr (s', tree') \<and>
     avl_holds s' tree' key t' \<and> map key (inorder t') = sorted_list_of_set (key ` (set_tree t \<union> set as))"
  using avl.insert_all [of key "(s, tree)" "inorder t" as fuel] assms
  by (auto simp: avl_repr_def avl_usable_def case_prod_unfold subset_iff)

theorem Avl_insert_all_witness:
  "\<exists>s' tree' t'.
     foldE (\<lambda>st a. bindE (Avl_insert_node 5 (fst st) (snd st) a) (\<lambda>(_, st). Inr st)) (avl_ex_store, avl_ex_tree) [4] = Inr (s', tree') \<and>
     avl_holds s' tree' (\<lambda>a. a mod 4) t' \<and>
     map (\<lambda>a. a mod 4) (inorder t') = sorted_list_of_set ((\<lambda>a. a mod 4) ` (set_tree avl_ex_t \<union> set [4]))"
  by (rule Avl_insert_all_sorts [OF avl_ex, of "[4]" 5]) (auto simp: avl_ex_simps(4))


end
