(* ===== verification/Bits.thy ===== *)
theory Bits
  imports Prelude "HOL-Library.Word"
begin

text \<open>
  The bit-manipulation macros and functions of \<open>include/tarp/bits.h\<close> and \<open>src/misc/bits.c\<close>. A macro
  that works on any unsigned type is a function on \<open>'a word\<close>; bit positions count from 1, as in the
  source. Strings are character lists without the terminator.
\<close>

unbundle bit_operations_syntax

section \<open>Rotation and byte reversal\<close>

definition lrot :: "'a::len word \<Rightarrow> nat \<Rightarrow> 'a word" where
  "lrot x n = (push_bit n x OR drop_bit (LENGTH('a) - n) x)"

definition rrot :: "'a::len word \<Rightarrow> nat \<Rightarrow> 'a word" where
  "rrot x n = (drop_bit n x OR push_bit (LENGTH('a) - n) x)"

definition revu64 :: "64 word \<Rightarrow> 64 word" where
  "revu64 i =
     (push_bit 56 (i AND 0x00000000000000ff) OR push_bit 40 (i AND 0x000000000000ff00) OR
      push_bit 24 (i AND 0x0000000000ff0000) OR push_bit 8 (i AND 0x00000000ff000000) OR
      drop_bit 8 (i AND 0x000000ff00000000) OR drop_bit 24 (i AND 0x0000ff000000ff00) OR
      drop_bit 40 (i AND 0x00ff000000000000) OR drop_bit 56 (i AND 0xff00000000000000))"

definition revu32 :: "32 word \<Rightarrow> 32 word" where
  "revu32 i =
     (push_bit 24 (i AND 0x000000ff) OR drop_bit 24 (i AND 0xff000000) OR
      push_bit 8 (i AND 0x0000ff00) OR drop_bit 8 (i AND 0x00ff0000))"

definition revu16 :: "16 word \<Rightarrow> 16 word" where
  "revu16 i = (drop_bit 8 (i AND 0xff00) OR push_bit 8 (i AND 0x00ff))"

definition revu8 :: "8 word \<Rightarrow> 8 word" where
  "revu8 i =
     (drop_bit 7 (i AND 128) OR push_bit 7 (i AND 1) OR drop_bit 5 (i AND 64) OR push_bit 5 (i AND 2) OR
      drop_bit 3 (i AND 32) OR push_bit 3 (i AND 4) OR drop_bit 1 (i AND 16) OR push_bit 1 (i AND 8))"

section \<open>Sizes\<close>

definition BITS_IN_BYTE :: nat where
  "BITS_IN_BYTE = 8"

definition bytes2bits :: "nat \<Rightarrow> nat" where
  "bytes2bits nbytes = nbytes * BITS_IN_BYTE mod SZ"

definition bits2bytes :: "nat \<Rightarrow> bool \<Rightarrow> nat" where
  "bits2bytes nbits rnd =
     nbits div BITS_IN_BYTE + (if rnd then (if nbits mod BITS_IN_BYTE \<noteq> 0 then 1 else 0) else 0)"

section \<open>Single bits and bit ranges\<close>

definition get_bit :: "'a::len word \<Rightarrow> nat \<Rightarrow> 'a word" where
  "get_bit num pos = (drop_bit (pos - 1) num AND 1)"

definition set_bit_on :: "'a::len word \<Rightarrow> nat \<Rightarrow> 'a word" where
  "set_bit_on num pos = (num OR push_bit (pos - 1) 1)"

definition set_bitval :: "'a::len word \<Rightarrow> nat \<Rightarrow> nat \<Rightarrow> 'a word" where
  "set_bitval num pos bitval = ((num AND NOT (push_bit (pos - 1) 1)) OR push_bit (pos - 1) (of_nat bitval))"

definition clear_bit :: "'a::len word \<Rightarrow> nat \<Rightarrow> 'a word" where
  "clear_bit num pos = (num AND NOT (push_bit (pos - 1) 1))"

definition toggle_bit :: "'a::len word \<Rightarrow> nat \<Rightarrow> 'a word" where
  "toggle_bit num pos = (num XOR push_bit (pos - 1) 1)"

definition range_mask :: "nat \<Rightarrow> nat \<Rightarrow> 'a::len word" where
  "range_mask pos nbits = push_bit (pos - nbits) (NOT (push_bit nbits (NOT 0)))"

definition get_bits :: "'a::len word \<Rightarrow> nat \<Rightarrow> nat \<Rightarrow> 'a word" where
  "get_bits num pos nbits = drop_bit (pos - nbits) (num AND range_mask pos nbits)"

definition set_bits :: "'a::len word \<Rightarrow> nat \<Rightarrow> nat \<Rightarrow> 'a word" where
  "set_bits num pos nbits = (num OR range_mask pos nbits)"

definition clear_bits :: "'a::len word \<Rightarrow> nat \<Rightarrow> nat \<Rightarrow> 'a word" where
  "clear_bits num pos nbits = (num AND NOT (range_mask pos nbits))"

definition toggle_bits :: "'a::len word \<Rightarrow> nat \<Rightarrow> nat \<Rightarrow> 'a word" where
  "toggle_bits num pos nbits = (num XOR range_mask pos nbits)"

text \<open>The bit deque: the value of the pop macros is a C truth value, the assignment to \<open>num\<close> is the
  second component.\<close>

definition rpush_bit :: "'a::len word \<Rightarrow> bool \<Rightarrow> 'a word" where
  "rpush_bit num b = (push_bit 1 num OR of_bool b)"

definition lpush_bit :: "'a::len word \<Rightarrow> bool \<Rightarrow> 'a word" where
  "lpush_bit num b = (drop_bit 1 num OR push_bit (LENGTH('a) - 1) (of_bool b))"

definition rpop_bit :: "'a::len word \<Rightarrow> bool \<times> 'a word" where
  "rpop_bit num = (if num AND 1 \<noteq> 0 then (True, drop_bit 1 num) else (False, num))"

definition lpop_bit :: "'a::len word \<Rightarrow> bool \<times> 'a word" where
  "lpop_bit num = (if num AND push_bit (LENGTH('a) - 1) 1 \<noteq> 0 then (True, push_bit 1 num) else (False, num))"

section \<open>Powers of two and the most significant bit\<close>

definition ispow2 :: "64 word \<Rightarrow> bool" where
  "ispow2 x = (x AND (x - 1) = 0)"

definition ismult2 :: "64 word \<Rightarrow> bool" where
  "ismult2 x = (x AND 1 = 0)"

function posmsb_loop :: "64 word \<Rightarrow> nat \<Rightarrow> nat" where
  "posmsb_loop v pos = (let v = drop_bit 1 v in if v = 0 then pos else posmsb_loop v (pos + 1))"
  by pat_completeness auto

lemma unat_drop_bit_1: "unat (drop_bit 1 v :: 'a::len word) = unat v div 2"
  by (subst unat_drop_bit_eq) (simp add: drop_bit_eq_div)

lemma drop_bit_1_less: "drop_bit 1 v \<noteq> (0 :: 'a::len word) \<Longrightarrow> unat (drop_bit 1 v) < unat v"
  using unat_drop_bit_1 [of v] by (metis unat_eq_zero div_less_dividend gr0I nat_neq_iff one_less_numeral_iff semiring_norm(76) div_0)

termination posmsb_loop
  by (relation "measure (\<lambda>(v, pos). unat v)") (auto simp: drop_bit_1_less [simplified])

definition posmsb :: "64 word \<Rightarrow> nat" where
  "posmsb v = (if v = 0 then 0 else posmsb_loop v 0 + 1)"

definition lg :: "64 word \<Rightarrow> nat" where
  "lg num = posmsb num"

definition wide_enough :: "int \<Rightarrow> 64 word \<Rightarrow> bool" where
  "wide_enough wd val \<longleftrightarrow> wd \<ge> int (posmsb val)"

definition modulo_pow2 :: "'a::len word \<Rightarrow> 'a word \<Rightarrow> 'a word" where
  "modulo_pow2 pow_of_2 val = (val AND pow_of_2)"

section \<open>Packing\<close>

definition pack_buff_le :: "'a::len word \<Rightarrow> 8 word list" where
  "pack_buff_le num = map (\<lambda>pos. ucast (drop_bit (bytes2bits pos) num AND 0xff)) [0..<LENGTH('a) div 8]"

definition pack_buff_be :: "'a::len word \<Rightarrow> 8 word list" where
  "pack_buff_be num = rev (map (\<lambda>pos. ucast (drop_bit (bytes2bits pos) num AND 0xff)) [0..<LENGTH('a) div 8])"

definition load_uint_le :: "8 word list \<Rightarrow> 'a::len word" where
  "load_uint_le buff =
     foldl (\<lambda>num i. num OR push_bit (bytes2bits i) (ucast (buff ! i))) 0 [0..<LENGTH('a) div 8]"

definition load_uint_be :: "8 word list \<Rightarrow> 'a::len word" where
  "load_uint_be buff =
     foldl (\<lambda>num i. num OR push_bit (bytes2bits (LENGTH('a) div 8 - 1 - i)) (ucast (buff ! i))) 0
       [0..<LENGTH('a) div 8]"

section \<open>Strings of bits and hexadecimal digits\<close>

function valid_loop :: "string \<Rightarrow> string \<Rightarrow> nat \<Rightarrow> nat option" where
  "valid_loop s sep len_no_sep =
     (if s = [] then Some len_no_sep
      else if hd s = CHR ''1'' \<or> hd s = CHR ''0'' then valid_loop (tl s) sep len_no_sep
      else if sep \<noteq> [] \<and> take (length sep) s = sep
           then valid_loop (drop (length sep) s) sep (len_no_sep - length sep)
      else None)"
  by pat_completeness auto

termination valid_loop
  by (relation "measure (\<lambda>(s, sep, n). length s)") auto

text \<open>\<open>None\<close> for false; otherwise what is stored through \<open>len\<close>. An empty separator is dropped, as in
  the source.\<close>

definition is_valid_bitstring :: "string \<Rightarrow> string option \<Rightarrow> nat option" where
  "is_valid_bitstring s sep =
     (if length s = 0 then None
      else valid_loop s (case sep of None \<Rightarrow> [] | Some p \<Rightarrow> p) (length s))"

text \<open>The buffer of \<open>bitstr\<close> has \<open>sizeof(strsz)\<close> bytes, that is 8; a write past it is a fault.\<close>

definition buf_put :: "char list \<Rightarrow> nat \<Rightarrow> char \<Rightarrow> char list res" where
  "buf_put s i c = (if i < length s then Inr (s[i := c]) else Inl WildDeref)"

definition bitstr :: "64 word \<Rightarrow> nat \<Rightarrow> char list res" where
  "bitstr val wd =
     (let msb_pos = posmsb val;
          s = replicate 8 (CHR 0x00);
          padding = (if wd > msb_pos then wd - msb_pos else 0);
          pos = (if msb_pos \<le> wd then msb_pos else wd)
      in bindE (foldE (\<lambda>s i. buf_put s i (CHR ''0'')) s [0..<padding]) (\<lambda>s.
         foldE (\<lambda>s i. buf_put s (padding + i)
                  (if 1 AND drop_bit (pos - i - 1) val \<noteq> 0 then CHR ''1'' else CHR ''0'')) s [0..<pos]))"

definition hexdigit :: "nat \<Rightarrow> char" where
  "hexdigit d = (if d < 10 then char_of (48 + d) else char_of (87 + d))"

definition hex02 :: "8 word \<Rightarrow> string" where
  "hex02 b = [hexdigit (unat b div 16), hexdigit (unat b mod 16)]"

text \<open>The string written to \<open>dst\<close>, or \<open>None\<close> for -1. \<open>src\<close> is not empty: the source reads \<open>src[0]\<close>.\<close>

definition hexstr :: "nat \<Rightarrow> 8 word list \<Rightarrow> string option \<Rightarrow> string option \<Rightarrow> string option res" where
  "hexstr dstlen src delim prefix =
     (let sep = (case delim of None \<Rightarrow> [] | Some d \<Rightarrow> d);
          pref = (case prefix of None \<Rightarrow> [] | Some p \<Rightarrow> p);
          stepsz = length sep + length pref + 2;
          totlen = (length src * stepsz + 1 + (SZ - length sep)) mod SZ
      in if dstlen < totlen then Inr None
         else if src = [] then Inl WildDeref
         else Inr (Some (foldl (\<lambda>d i. d @ sep @ pref @ hex02 (src ! i)) (pref @ hex02 (src ! 0)) [1..<length src])))"

section \<open>Rotations\<close>

text \<open>The rotation macros rotate: for a shift below the width no bit is lost, bit \<open>i\<close> of the result is bit \<open>i - n\<close> of the argument, counted around the word, and rotating right undoes rotating left.\<close>

lemma rotations_correct:
  fixes x :: "'a::len word"
  assumes "n < LENGTH('a)"
  shows "(\<forall>i. bit (lrot x n) i \<longleftrightarrow> i < LENGTH('a) \<and> bit x ((i + LENGTH('a) - n) mod LENGTH('a))) \<and>
    rrot (lrot x n) n = x \<and> lrot (rrot x n) n = x"
proof -
  have l: "bit (lrot x n) i \<longleftrightarrow> i < LENGTH('a) \<and> bit x ((i + LENGTH('a) - n) mod LENGTH('a))" for i
  proof (cases "n \<le> i \<and> i < LENGTH('a)")
    case True
    then have eq: "i + LENGTH('a) - n = (i - n) + LENGTH('a)" and "i - n < LENGTH('a)"
      by (simp_all add: less_imp_diff_less)
    then have "(i + LENGTH('a) - n) mod LENGTH('a) = i - n" by (simp only: eq mod_add_self2 mod_less)
    moreover have "\<not> bit x (LENGTH('a) - n + i)" using True bit_imp_le_length [of x "LENGTH('a) - n + i"] by auto
    ultimately show ?thesis using True by (auto simp: lrot_def bit_simps)
  next
    case False
    then show ?thesis
      using assms by (auto simp: lrot_def bit_simps add.commute dest: bit_imp_le_length)
  qed
  have "rrot (lrot x n) n = x" "lrot (rrot x n) n = x"
    using assms by (auto intro!: bit_word_eqI simp: lrot_def rrot_def bit_simps dest: bit_imp_le_length)
  with l show ?thesis by blast
qed

section \<open>Byte reversal\<close>

lemma byte_masks:
  "(0xff :: 'a::len word) = mask 8" "(0xff00 :: 'a word) = push_bit 8 (mask 8)"
  "(0xff0000 :: 'a word) = push_bit 16 (mask 8)" "(0xff000000 :: 'a word) = push_bit 24 (mask 8)"
  "(0xff00000000 :: 'a word) = push_bit 32 (mask 8)"
  "(0xff000000ff00 :: 'a word) = push_bit 40 (mask 8) OR push_bit 8 (mask 8)"
  "(0xff000000000000 :: 'a word) = push_bit 48 (mask 8)" "(0xff00000000000000 :: 'a word) = push_bit 56 (mask 8)"
  by (simp_all add: mask_eq_exp_minus_1 push_bit_eq_mult)

lemma below_64: "i < 64 \<Longrightarrow> \<exists>k j. i = 8 * k + j \<and> k < 8 \<and> j < (8 :: nat)"
  by (intro exI [of _ "i div 8"] exI [of _ "i mod 8"]) auto

lemma less_8_cases: "k < (8 :: nat) \<Longrightarrow> k = 0 \<or> k = 1 \<or> k = 2 \<or> k = 3 \<or> k = 4 \<or> k = 5 \<or> k = 6 \<or> k = 7"
  by linarith

lemma revu64_bit:
  assumes "i < 64"
  shows "bit (revu64 w) i = bit w (8 * (7 - i div 8) + i mod 8)"
proof -
  obtain k j where i: "i = 8 * k + j" and k: "k < 8" and j: "j < 8" using below_64 [OF assms] by blast
  have "i div 8 = k" "i mod 8 = j" using i j by simp_all
  then show ?thesis
    using less_8_cases [OF k] j
    unfolding i revu64_def byte_masks by (elim disjE) (simp_all add: bit_simps)
qed

text \<open>revu64 reverses the bytes of a 64-bit value: byte k of the result is byte 7 - k of the argument (the stray second byte in one of its masks is shifted out), so applying it twice gives the value back.\<close>

lemma revu64_reverses_bytes:
  "(\<forall>i<64. bit (revu64 w) i = bit w (8 * (7 - i div 8) + i mod 8)) \<and> revu64 (revu64 w) = w"
proof -
  have "revu64 (revu64 w) = w"
  proof (rule bit_word_eqI)
    fix i assume i: "i < LENGTH(64)"
    let ?i = "8 * (7 - i div 8) + i mod 8"
    have "?i div 8 = 7 - i div 8" "?i mod 8 = i mod 8" by simp_all
    moreover have "?i < 64" "i div 8 < 8" using i by simp_all
    moreover have "8 * (i div 8) + i mod 8 = i" by simp
    ultimately show "bit (revu64 (revu64 w)) i = bit w i"
      using i revu64_bit [of i "revu64 w"] revu64_bit [of ?i w] by simp
  qed
  then show ?thesis using revu64_bit by blast
qed

section \<open>Single bits and ranges\<close>

lemma one_bit: "(1 :: 'a::len word) = mask 1"
  by (simp add: mask_eq_exp_minus_1)

lemma get_bit_eq: "get_bit num pos = of_bool (bit num (pos - 1))"
proof (rule bit_word_eqI)
  fix i
  show "bit (get_bit num pos) i = bit (of_bool (bit num (pos - 1)) :: 'a word) i"
    by (cases i) (auto simp: get_bit_def bit_simps)
qed

lemma bit_set_bitval:
  "v \<le> 1 \<Longrightarrow> bit (set_bitval num pos v) i \<longleftrightarrow>
     (if i = pos - 1 then v = 1 \<and> i < LENGTH('a) else bit (num :: 'a::len word) i)"
  by (cases "v = 0"; cases "v = 1") (auto simp: set_bitval_def bit_simps dest: bit_imp_le_length)

lemma bit_clear_bit: "bit (clear_bit num pos) i \<longleftrightarrow> i \<noteq> pos - 1 \<and> bit num i"
  by (auto simp: clear_bit_def bit_simps dest: bit_imp_le_length)

lemma bit_toggle_bit:
  "bit (toggle_bit num pos) i \<longleftrightarrow> (bit (num :: 'a::len word) i \<noteq> (i = pos - 1)) \<and> i < LENGTH('a)"
  by (auto simp: toggle_bit_def bit_simps dest: bit_imp_le_length)

lemma bit_range_mask:
  "nbits \<le> pos \<Longrightarrow> pos \<le> LENGTH('a) \<Longrightarrow>
     bit (range_mask pos nbits :: 'a::len word) i \<longleftrightarrow> pos - nbits \<le> i \<and> i < pos"
  by (auto simp: range_mask_def bit_simps)

text \<open>The bit-range macros act on the bits at positions pos, pos - 1, ..., pos - nbits + 1 (counted from 1) and on no other: get_bits reads them into the low end of the result, set_bits, clear_bits and toggle_bits write them.\<close>

lemma bit_ranges_correct:
  fixes num :: "'a::len word"
  assumes "nbits \<le> pos" and "pos \<le> LENGTH('a)"
  shows "bit (get_bits num pos nbits) i \<longleftrightarrow> i < nbits \<and> bit num (pos - nbits + i)"
    and "bit (set_bits num pos nbits) i \<longleftrightarrow> bit num i \<or> (pos - nbits \<le> i \<and> i < pos)"
    and "bit (clear_bits num pos nbits) i \<longleftrightarrow> bit num i \<and> \<not> (pos - nbits \<le> i \<and> i < pos)"
    and "bit (toggle_bits num pos nbits) i \<longleftrightarrow> (bit num i \<noteq> (pos - nbits \<le> i \<and> i < pos))"
  using assms bit_imp_le_length [of num i]
  by (auto simp: get_bits_def set_bits_def clear_bits_def toggle_bits_def bit_range_mask bit_simps)

section \<open>Powers of two\<close>

declare posmsb_loop.simps [simp del]

lemma posmsb_loop_bounds:
  "v \<noteq> 0 \<Longrightarrow> posmsb_loop v pos \<ge> pos \<and> 2 ^ (posmsb_loop v pos - pos) \<le> unat v \<and>
     unat v < 2 ^ (posmsb_loop v pos - pos + 1)"
proof (induction v pos rule: posmsb_loop.induct)
  case (1 v pos)
  have half: "unat (drop_bit 1 v) = unat v div 2" by (rule unat_drop_bit_1)
  have step: "posmsb_loop v pos = (if drop_bit 1 v = 0 then pos else posmsb_loop (drop_bit 1 v) (pos + 1))"
    by (subst posmsb_loop.simps) (simp only: Let_def)
  show ?case
  proof (cases "drop_bit 1 v = 0")
    case True
    then have "unat v div 2 = 0" using half by (metis unat_0)
    moreover have "unat v \<noteq> 0" using 1(2) by (simp add: unat_eq_zero)
    ultimately have "unat v = 1" by linarith
    then show ?thesis unfolding step if_P [OF True] by simp
  next
    case False
    define q where "q = posmsb_loop (drop_bit 1 v) (pos + 1)"
    have ih: "pos + 1 \<le> q" "2 ^ (q - (pos + 1)) \<le> unat v div 2" "unat v div 2 < 2 ^ (q - (pos + 1) + 1)"
      using 1(1) [OF refl False False] unfolding half q_def by blast+
    then obtain d where d: "q = pos + 1 + d" using le_Suc_ex by blast
    have "2 ^ d \<le> unat v div 2" "unat v div 2 < 2 * 2 ^ d" using ih(2,3) unfolding d by simp_all
    then have "2 ^ (d + 1) \<le> unat v" "unat v < 2 ^ (d + 2)" by simp_all
    then show ?thesis unfolding step if_not_P [OF False] q_def [symmetric] d by simp
  qed
qed

lemma posmsb_ok:
  "posmsb v \<le> 64 \<and> (v = 0 \<longleftrightarrow> posmsb v = 0) \<and> unat v < 2 ^ posmsb v \<and>
   (v = 0 \<or> 2 ^ (posmsb v - 1) \<le> unat v) \<and> (wide_enough (int n) v \<longleftrightarrow> unat v < 2 ^ n)"
proof (cases "v = 0")
  case True
  then show ?thesis by (simp add: posmsb_def wide_enough_def)
next
  case False
  have b: "2 ^ (posmsb v - 1) \<le> unat v" "unat v < 2 ^ posmsb v" "posmsb v \<noteq> 0"
    using posmsb_loop_bounds [OF False, of 0] False by (simp_all add: posmsb_def)
  have "unat v < 2 ^ LENGTH(64)" by (rule unsigned_less)
  then have "unat v < 2 ^ 64" by simp
  then have "(2 :: nat) ^ (posmsb v - 1) < 2 ^ 64" using b(1) by (rule le_less_trans [rotated])
  then have "posmsb v - 1 < 64" by (rule power_less_imp_less_exp [rotated]) simp
  moreover have "posmsb v \<le> n \<longleftrightarrow> unat v < 2 ^ n"
  proof
    assume "posmsb v \<le> n"
    then have "(2 :: nat) ^ posmsb v \<le> 2 ^ n" by simp
    then show "unat v < 2 ^ n" using b(2) by linarith
  next
    assume "unat v < 2 ^ n"
    then have "(2 :: nat) ^ (posmsb v - 1) < 2 ^ n" using b(1) by linarith
    then have "posmsb v - 1 < n" by (rule power_less_imp_less_exp [rotated]) simp
    then show "posmsb v \<le> n" by simp
  qed
  ultimately show ?thesis using False b by (simp add: wide_enough_def)
qed

text \<open>posmsb terminates and is the position, counted from 1, of the most significant set bit (0 for the value 0), so wide_enough says exactly whether the value fits in that many bits.\<close>

theorem posmsb_correct:
  "posmsb v \<le> 64 \<and> (v = 0 \<longleftrightarrow> posmsb v = 0) \<and> unat v < 2 ^ posmsb v \<and>
   (v = 0 \<or> 2 ^ (posmsb v - 1) \<le> unat v) \<and> (wide_enough (int n) v \<longleftrightarrow> unat v < 2 ^ n)"
  by (rule posmsb_ok)

lemma top_bitI:
  fixes w :: "'a::len word"
  assumes "2 ^ n \<le> unat w" "unat w < 2 ^ (n + 1)"
  shows "bit w n"
proof -
  have "unat w div 2 ^ n = 1" using assms by (intro div_nat_eqI) simp_all
  then have "bit (unat w) n" by (simp add: bit_iff_odd)
  then show ?thesis by (simp add: bit_unsigned_iff)
qed

lemma ispow2_zero: "ispow2 0"
  by (simp add: ispow2_def)

text \<open>ispow2 holds for the powers of two, and also for 0, which is none.\<close>

lemma ispow2_correct: "ispow2 x \<longleftrightarrow> x = 0 \<or> (\<exists>n<64. x = push_bit n 1)"
proof
  assume r: "x = 0 \<or> (\<exists>n<64. x = push_bit n 1)"
  show "ispow2 x"
  proof (cases "x = 0")
    case False
    then obtain n where "n < 64" "x = push_bit n 1" using r by blast
    then have "x - 1 = mask n" by (simp add: mask_eq_exp_minus_1 push_bit_eq_mult)
    then show ?thesis using \<open>x = push_bit n 1\<close>
      by (auto simp: ispow2_def bit_simps intro!: bit_word_eqI)
  qed (simp add: ispow2_def)
next
  assume a: "ispow2 x"
  show "x = 0 \<or> (\<exists>n<64. x = push_bit n 1)"
  proof (cases "x = 0")
    case False
    define n where "n = posmsb x - 1"
    have n: "2 ^ n \<le> unat x" "unat x < 2 ^ (n + 1)" "n < 64"
      using posmsb_ok [of x 0] False by (auto simp: n_def)
    have "unat x = 2 ^ n"
    proof (rule ccontr)
      assume "unat x \<noteq> 2 ^ n"
      moreover have "unat (x - 1) = unat x - 1" using False by (simp add: unat_minus_one)
      ultimately have "bit x n" "bit (x - 1) n" using n by (auto intro!: top_bitI)
      then have "bit (x AND (x - 1)) n" by (simp add: bit_simps)
      then show False using a by (simp add: ispow2_def)
    qed
    moreover have "x = of_nat (unat x)" by simp
    ultimately have "x = of_nat (2 ^ n)" by simp
    then have "x = push_bit n 1" by (simp add: push_bit_eq_mult)
    then show ?thesis using n(3) by blast
  qed simp
qed

section \<open>Packing\<close>

lemma bit_foldl_or:
  fixes f :: "nat \<Rightarrow> 'a::len word"
  shows "bit (foldl (\<lambda>num i. num OR f i) z xs) j \<longleftrightarrow> bit z j \<or> (\<exists>i\<in>set xs. bit (f i) j)"
  by (induction xs arbitrary: z) (auto simp: bit_simps)

lemma nth_pack_le:
  "i < LENGTH('a) div 8 \<Longrightarrow> pack_buff_le (num :: 'a::len word) ! i = ucast (drop_bit (bytes2bits i) num AND 0xff)"
  by (simp add: pack_buff_le_def)

lemma nth_pack_be:
  "i < LENGTH('a) div 8 \<Longrightarrow> pack_buff_be (num :: 'a::len word) ! i =
     ucast (drop_bit (bytes2bits (LENGTH('a) div 8 - 1 - i)) num AND 0xff)"
  by (simp add: pack_buff_be_def rev_nth)

lemma length_pack [simp]:
  "length (pack_buff_le (num :: 'a::len word)) = LENGTH('a) div 8"
  "length (pack_buff_be (num :: 'a word)) = LENGTH('a) div 8"
  by (simp_all add: pack_buff_le_def pack_buff_be_def)

lemma bit_packed_byte:
  fixes num :: "'a::len word"
  assumes "k * 8 < SZ"
  shows "bit (push_bit (bytes2bits k) (ucast (ucast (drop_bit (bytes2bits k) num AND 0xff) :: 8 word)) :: 'a word) j \<longleftrightarrow>
    j div 8 = k \<and> bit num j"
proof -
  have b: "bytes2bits k = k * 8" using assms by (simp add: bytes2bits_def BITS_IN_BYTE_def)
  have k: "8 * k \<le> j \<and> j - 8 * k < 8 \<longleftrightarrow> j div 8 = k" by auto
  have "bit (push_bit (8 * k) (ucast (ucast (drop_bit (8 * k) num AND mask 8) :: 8 word)) :: 'a word) j \<longleftrightarrow>
      (8 * k \<le> j \<and> j - 8 * k < 8) \<and> bit num j"
    using bit_imp_le_length [of num j] by (auto simp: bit_simps)
  then show ?thesis unfolding b byte_masks(1) k by (simp only: mult.commute)
qed

text \<open>C38: Packing an unsigned value into bytes and loading it again gives the value back, in little-endian and in big-endian order, and the big-endian buffer is the little-endian one reversed.\<close>

theorem pack_load_roundtrip:
  fixes num :: "'a::len word"
  assumes "8 dvd LENGTH('a)" "LENGTH('a) < SZ"
  shows "load_uint_le (pack_buff_le num) = num \<and> load_uint_be (pack_buff_be num) = num \<and>
    pack_buff_be num = rev (pack_buff_le num)"
proof -
  have small: "i * 8 < SZ" if "i < LENGTH('a) div 8" for i using that assms(2) by linarith
  have le: "bit (push_bit (bytes2bits i) (ucast (pack_buff_le num ! i)) :: 'a word) j \<longleftrightarrow> j div 8 = i \<and> bit num j"
    if "i < LENGTH('a) div 8" for i j
    using that bit_packed_byte [OF small [OF that]] by (simp add: nth_pack_le)
  have in_range: "j div 8 < LENGTH('a) div 8" if "bit num j" for j
    using bit_imp_le_length [OF that] assms(1) by (auto elim!: dvdE)
  have "bit (load_uint_le (pack_buff_le num) :: 'a word) j = bit num j" for j
    using le in_range by (auto simp: load_uint_le_def bit_foldl_or)
  then have 1: "load_uint_le (pack_buff_le num) = num" by (rule bit_word_eqI)
  let ?k = "\<lambda>i. LENGTH('a) div 8 - 1 - i"
  have be: "bit (push_bit (bytes2bits (?k i)) (ucast (pack_buff_be num ! i)) :: 'a word) j \<longleftrightarrow> j div 8 = ?k i \<and> bit num j"
    if "i < LENGTH('a) div 8" for i j
    using that bit_packed_byte [OF small, of "?k i"] by (simp add: nth_pack_be)
  have "bit (load_uint_be (pack_buff_be num) :: 'a word) j = bit num j" for j
  proof
    assume "bit (load_uint_be (pack_buff_be num) :: 'a word) j"
    then show "bit num j" using be by (auto simp: load_uint_be_def bit_foldl_or)
  next
    assume j: "bit num j"
    have "?k (?k (j div 8)) = j div 8" "?k (j div 8) < LENGTH('a) div 8" using in_range [OF j] by auto
    then have "bit (push_bit (bytes2bits (?k (?k (j div 8)))) (ucast (pack_buff_be num ! ?k (j div 8))) :: 'a word) j"
      using be j by metis
    with \<open>?k (j div 8) < LENGTH('a) div 8\<close> show "bit (load_uint_be (pack_buff_be num) :: 'a word) j"
      by (auto simp: load_uint_be_def bit_foldl_or intro!: bexI [of _ "?k (j div 8)"])
  qed
  then have "load_uint_be (pack_buff_be num) = num" by (rule bit_word_eqI)
  with 1 show ?thesis by (simp add: pack_buff_le_def pack_buff_be_def)
qed

theorem pack_load_witness: "load_uint_be (pack_buff_be (0x12345678 :: 32 word)) = (0x12345678 :: 32 word)"
  by (rule conjunct1 [OF conjunct2 [OF pack_load_roundtrip]]) (simp_all add: SZ_num)

section \<open>The bit deque and the modulo macro\<close>

text \<open>The pop macros shift only when the bit that falls off is 1; on a 0 bit the value stays as it was.\<close>

lemma rpop_zero_keeps: "\<not> bit num 0 \<Longrightarrow> rpop_bit num = (False, num)"
  by (simp add: rpop_bit_def and_one_eq mod_2_eq_odd bit_0)

lemma rpop_rpush: "rpop_bit (rpush_bit num True) = (True, drop_bit 1 (rpush_bit num True))"
proof -
  have "bit (rpush_bit num True AND 1) 0" by (simp add: rpush_bit_def bit_simps)
  then have "rpush_bit num True AND 1 \<noteq> 0" by (metis bit_0_eq bot_apply bot_bool_def)
  then show ?thesis by (simp only: rpop_bit_def if_True simp_thms)
qed

lemma modulo_pow2_selects_a_bit: "modulo_pow2 8 (9 :: 32 word) = 8" "(9 :: 32 word) mod 8 = 1"
  by (simp_all add: modulo_pow2_def)

section \<open>Strings\<close>

lemma foldE_buf_put:
  "foldE (\<lambda>s i. buf_put s (k + i) (f i)) s [0..<n] =
     (if n = 0 \<or> k + n \<le> length s then Inr (take k s @ map f [0..<n] @ drop (k + n) s) else Inl WildDeref)"
proof (induction n)
  case 0
  then show ?case by simp
next
  case (Suc n)
  show ?case
  proof (cases "k + Suc n \<le> length s")
    case True
    have "(take k s @ map f [0..<n] @ drop (k + n) s)[k + n := f n] = take k s @ map f [0..<n] @ f n # drop (Suc (k + n)) s"
      using True by (simp add: list_update_append min_def Cons_nth_drop_Suc [symmetric])
    with True Suc show ?thesis by (simp add: foldE_append buf_put_def)
  next
    case False
    with Suc show ?thesis by (cases "n = 0") (auto simp: foldE_append buf_put_def)
  qed
qed

definition bit_char :: "bool \<Rightarrow> char" where
  "bit_char b = (if b then CHR ''1'' else CHR ''0'')"

text \<open>bitstr writes the requested number of binary digits, most significant first, but into a buffer that always has eight bytes: with eight digits no room is left for the terminator, and any larger width writes past the end of the allocation.\<close>

theorem bitstr_overflows:
  "bitstr val wd =
     (if wd \<le> 8 then Inr (map (\<lambda>i. bit_char (bit val (wd - 1 - i))) [0..<wd] @ replicate (8 - wd) (CHR 0x00))
      else Inl WildDeref)"
proof -
  define padding where "padding = (if wd > posmsb val then wd - posmsb val else 0)"
  define pos where "pos = (if posmsb val \<le> wd then posmsb val else wd)"
  have sum: "padding + pos = wd" by (simp add: padding_def pos_def)
  let ?s = "replicate 8 (CHR 0x00)" and ?f = "\<lambda>i. if 1 AND drop_bit (pos - i - 1) val \<noteq> 0 then CHR ''1'' else CHR ''0''"
  have run: "bitstr val wd = bindE (foldE (\<lambda>s i. buf_put s (0 + i) (CHR ''0'')) ?s [0..<padding]) (\<lambda>s.
      foldE (\<lambda>s i. buf_put s (padding + i) (?f i)) s [0..<pos])"
    by (simp add: bitstr_def Let_def padding_def pos_def)
  have high: "\<not> bit val i" if "posmsb val \<le> i" for i
  proof
    assume b: "bit val i"
    have "unat val < 2 ^ i" using posmsb_ok [of val 0] power_increasing [OF that, of "2 :: nat"] by linarith
    moreover have "bit (unat val) i" using b by (simp add: bit_unsigned_iff)
    ultimately show False by (simp add: bit_iff_odd)
  qed
  have f: "?f i = bit_char (bit val (pos - i - 1))" for i
    by (simp add: bit_char_def and.commute [of 1] and_one_eq mod_2_eq_odd bit_iff_odd_drop_bit)
  have digits: "replicate padding (CHR ''0'') @ map ?f [0..<pos] = map (\<lambda>i. bit_char (bit val (wd - 1 - i))) [0..<wd]"
  proof (rule nth_equalityI)
    show "length (replicate padding (CHR ''0'') @ map ?f [0..<pos]) = length (map (\<lambda>i. bit_char (bit val (wd - 1 - i))) [0..<wd])"
      using sum by simp
  next
    fix i assume "i < length (replicate padding (CHR ''0'') @ map ?f [0..<pos])"
    then have i: "i < wd" using sum by simp
    show "(replicate padding (CHR ''0'') @ map ?f [0..<pos]) ! i = map (\<lambda>i. bit_char (bit val (wd - 1 - i))) [0..<wd] ! i"
    proof (cases "i < padding")
      case True
      then have "posmsb val \<le> wd - 1 - i" by (auto simp: padding_def split: if_splits)
      with high True i show ?thesis by (simp add: nth_append bit_char_def)
    next
      case False
      then have "pos - (i - padding) - 1 = wd - 1 - i" "i - padding < pos" using sum i by auto
      with False i f show ?thesis by (simp add: nth_append)
    qed
  qed
  show ?thesis
  proof (cases "wd \<le> 8")
    case True
    have "map (\<lambda>_. CHR ''0'') [0..<padding] = replicate padding (CHR ''0'')" by (simp add: map_replicate_const)
    then show ?thesis
      unfolding run foldE_buf_put using True sum digits by (auto simp: append_assoc [symmetric])
  next
    case False
    then show ?thesis unfolding run foldE_buf_put using sum by auto
  qed
qed

lemma valid_loop_digits:
  "set s \<subseteq> {CHR ''0'', CHR ''1''} \<Longrightarrow> valid_loop s sep n = Some n"
proof (induction s)
  case Nil
  then show ?case by simp
next
  case (Cons c s)
  then show ?case by (subst valid_loop.simps) (auto simp del: valid_loop.simps)
qed

lemma is_valid_bitstring_plain:
  "s \<noteq> [] \<Longrightarrow> set s \<subseteq> {CHR ''0'', CHR ''1''} \<Longrightarrow> is_valid_bitstring s sep = Some (length s)"
  by (simp add: is_valid_bitstring_def valid_loop_digits del: valid_loop.simps)

lemma hexstr_ok:
  assumes "src \<noteq> []" "length src * (length sep + length pref + 2) + 1 < SZ" "length sep \<le> length src * (length sep + length pref + 2)"
    and "length src * (length sep + length pref + 2) + 1 - length sep \<le> dstlen"
  shows "hexstr dstlen src (Some sep) (Some pref) =
     Inr (Some (concat (map (\<lambda>b. pref @ hex02 b) [src ! 0] @ map (\<lambda>i. sep @ pref @ hex02 (src ! i)) [1..<length src])))"
proof -
  have "length src * (length sep + length pref + 2) + 1 + (SZ - length sep) =
      (length src * (length sep + length pref + 2) + 1 - length sep) + SZ"
    using assms(2,3) by simp
  then have "(length src * (length sep + length pref + 2) + 1 + (SZ - length sep)) mod SZ =
      length src * (length sep + length pref + 2) + 1 - length sep"
    using assms(2) by (simp only: mod_add_self2) (simp only: mod_less less_imp_diff_less)
  moreover have "foldl (\<lambda>d i. d @ f i) z is = z @ concat (map f is)" for f :: "nat \<Rightarrow> string" and z "is"
    by (induction "is" arbitrary: z) simp_all
  ultimately show ?thesis using assms(1,4) by (simp add: hexstr_def)
qed

end
