(* ===== verification/Bitarray.thy ===== *)
theory Bitarray
  imports Bits
begin

text \<open>
  The bit array of \<open>src/misc/bitarray.c\<close>: a handle with a width in bits, a size in bytes and a buffer of
  exactly the allocated bytes. Reading or writing outside the buffer is a fault. A returned pointer is
  an option (\<open>None\<close> for NULL); a function that changes its argument returns it as well. Functions
  generated once per integer width are one definition over \<open>'a word\<close>.
\<close>

section \<open>Data and memory\<close>

record bitarray =
  ba_size :: nat
  ba_width :: nat
  ba_bytes :: "8 word list"

definition byte_get :: "bitarray \<Rightarrow> nat \<Rightarrow> 8 word res" where
  "byte_get b i = (if i < length (ba_bytes b) then Inr (ba_bytes b ! i) else Inl WildDeref)"

definition byte_put :: "bitarray \<Rightarrow> nat \<Rightarrow> 8 word \<Rightarrow> bitarray res" where
  "byte_put b i x = (if i < length (ba_bytes b) then Inr (b\<lparr>ba_bytes := (ba_bytes b)[i := x]\<rparr>) else Inl WildDeref)"

text \<open>\<open>memcpy(b->bytes + off, src, n)\<close>\<close>

definition bytes_copy :: "bitarray \<Rightarrow> nat \<Rightarrow> 8 word list \<Rightarrow> nat \<Rightarrow> bitarray res" where
  "bytes_copy b off src n =
     (if off + n \<le> length (ba_bytes b) \<and> n \<le> length src
      then Inr (b\<lparr>ba_bytes := take off (ba_bytes b) @ take n src @ drop (off + n) (ba_bytes b)\<rparr>)
      else Inl WildDeref)"

section \<open>Allocation\<close>

definition MAX_BITARRAY_WIDTH :: nat where
  "MAX_BITARRAY_WIDTH = SIZE_MAX div 2 ^ 10"

definition Bitr_maxcap :: nat where
  "Bitr_maxcap = MAX_BITARRAY_WIDTH"

text \<open>The argument is a \<open>uint32_t\<close>: a wider number of bits is truncated on the call.\<close>

definition calculate_required_size :: "nat \<Rightarrow> nat" where
  "calculate_required_size nbits =
     (let nbits = nbits mod 2 ^ 32
      in nbits div BITS_IN_BYTE + (if nbits mod 8 \<noteq> 0 then 1 else 0))"

definition allocate_bitarray :: "nat \<Rightarrow> bitarray option res" where
  "allocate_bitarray nbits =
     bindE (assertE (nbits > 0)) (\<lambda>_.
     let buffsz = calculate_required_size nbits in
     if buffsz > Bitr_maxcap then Inr None
     else Inr (Some \<lparr>ba_size = buffsz, ba_width = nbits, ba_bytes = replicate buffsz 0\<rparr>))"

definition fill_bitarray :: "bitarray \<Rightarrow> 8 word \<Rightarrow> bitarray res" where
  "fill_bitarray bitr byte = bytes_copy bitr 0 (replicate (ba_size bitr) byte) (ba_size bitr)"

definition Bitr_new :: "nat \<Rightarrow> bool \<Rightarrow> bitarray option res" where
  "Bitr_new nbits one =
     bindE (allocate_bitarray nbits) (\<lambda>new.
     case new of
       None \<Rightarrow> Inr None
     | Some b \<Rightarrow> bindE (fill_bitarray b (if one then 0xff else 0)) (\<lambda>b. Inr (Some b)))"

definition Bitr_width :: "bitarray \<Rightarrow> nat" where
  "Bitr_width bitr = ba_width bitr"

definition Bitr_frombuff :: "bitarray option \<Rightarrow> 8 word list \<Rightarrow> nat \<Rightarrow> bitarray option res" where
  "Bitr_frombuff bitr buffer buffsz =
     bindE (case bitr of
              Some b \<Rightarrow> Inr (if bits2bytes (ba_width b) False < buffsz then None else Some b)
            | None \<Rightarrow> if buffsz > Bitr_maxcap then Inr None else allocate_bitarray (bytes2bits buffsz)) (\<lambda>b.
     case b of
       None \<Rightarrow> Inr None
     | Some b \<Rightarrow> bindE (bytes_copy b 0 buffer buffsz) (\<lambda>b. Inr (Some b)))"

definition Bitr_fromu :: "bitarray option \<Rightarrow> 'a::len word \<Rightarrow> bitarray option res" where
  "Bitr_fromu bitr val = Bitr_frombuff bitr (pack_buff_le val) (LENGTH('a) div 8)"

definition Bitr_clone :: "bitarray \<Rightarrow> bitarray res" where
  "Bitr_clone bitr =
     bindE (Bitr_frombuff None (ba_bytes bitr) (ba_size bitr)) (\<lambda>new.
     case new of
       None \<Rightarrow> Inl (Throw ERROR_BADPOINTER)
     | Some b \<Rightarrow> Inr (b\<lparr>ba_size := ba_size bitr, ba_width := ba_width bitr\<rparr>))"

section \<open>Single bits\<close>

definition inrange :: "nat \<Rightarrow> nat \<Rightarrow> bool" where
  "inrange wd pos \<longleftrightarrow> pos > 0 \<and> pos \<le> wd"

definition byte_index :: "nat \<Rightarrow> nat" where
  "byte_index pos = (pos - 1) div BITS_IN_BYTE"

definition bit_index :: "nat \<Rightarrow> nat" where
  "bit_index pos = and (pos - 1) (BITS_IN_BYTE - 1) + 1"

definition Bitr_setval :: "bitarray \<Rightarrow> nat \<Rightarrow> int \<Rightarrow> (int \<times> bitarray) res" where
  "Bitr_setval bitr pos bitval =
     bindE (assertE (bitval = 1 \<or> bitval = 0)) (\<lambda>_.
     if \<not> inrange (Bitr_width bitr) pos then Inr (- error_num ERROR_OUTOFBOUNDS, bitr)
     else
       bindE (byte_get bitr (byte_index pos)) (\<lambda>x.
       bindE (byte_put bitr (byte_index pos) (set_bitval x (bit_index pos) (nat bitval))) (\<lambda>bitr.
       Inr (0, bitr))))"

definition Bitr_set :: "bitarray \<Rightarrow> nat \<Rightarrow> (int \<times> bitarray) res" where
  "Bitr_set bitr pos = Bitr_setval bitr pos 1"

definition Bitr_clear :: "bitarray \<Rightarrow> nat \<Rightarrow> (int \<times> bitarray) res" where
  "Bitr_clear bitr pos =
     (if \<not> inrange (Bitr_width bitr) pos then Inr (- error_num ERROR_OUTOFBOUNDS, bitr)
      else
        bindE (byte_get bitr (byte_index pos)) (\<lambda>x.
        bindE (byte_put bitr (byte_index pos) (clear_bit x (bit_index pos))) (\<lambda>bitr. Inr (0, bitr))))"

definition Bitr_toggle :: "bitarray \<Rightarrow> nat \<Rightarrow> (int \<times> bitarray) res" where
  "Bitr_toggle bitr pos =
     (if \<not> inrange (Bitr_width bitr) pos then Inr (- error_num ERROR_OUTOFBOUNDS, bitr)
      else
        bindE (byte_get bitr (byte_index pos)) (\<lambda>x.
        bindE (byte_put bitr (byte_index pos) (toggle_bit x (bit_index pos))) (\<lambda>bitr. Inr (0, bitr))))"

definition Bitr_get :: "bitarray \<Rightarrow> nat \<Rightarrow> int res" where
  "Bitr_get bitr pos =
     (if \<not> inrange (Bitr_width bitr) pos then Inr (- error_num ERROR_OUTOFBOUNDS)
      else bindE (byte_get bitr (byte_index pos)) (\<lambda>x. Inr (int (unat (get_bit x (bit_index pos))))))"

definition Bitr_tou :: "bitarray \<Rightarrow> 'a::len word res" where
  "Bitr_tou bitr =
     bindE (assertE (ba_width bitr > 0)) (\<lambda>_.
     foldE (\<lambda>num i. bindE (Bitr_get bitr i) (\<lambda>v. Inr (set_bitval num i (nat v)))) 0
       [1..<min (LENGTH('a)) (ba_width bitr) + 1])"

section \<open>Ranges of bits\<close>

fun for_bits :: "(bitarray \<Rightarrow> nat \<Rightarrow> (int \<times> bitarray) res) \<Rightarrow> bitarray \<Rightarrow> nat \<Rightarrow> nat \<Rightarrow> (int \<times> bitarray) res" where
  "for_bits f bitr i 0 = Inr (0, bitr)"
| "for_bits f bitr i (Suc n) =
     bindE (f bitr i) (\<lambda>(rc, bitr). if rc \<noteq> 0 then Inr (rc, bitr) else for_bits f bitr (i - 1) n)"

text \<open>The parameter \<open>pos\<close> is a \<open>uint32_t\<close>. The range check passes \<open>pos\<close> where the width belongs, as in the source.\<close>

definition do_for_bits ::
    "(bitarray \<Rightarrow> nat \<Rightarrow> (int \<times> bitarray) res) \<Rightarrow> bitarray \<Rightarrow> nat \<Rightarrow> nat \<Rightarrow> (int \<times> bitarray) res" where
  "do_for_bits f bitr pos nbits =
     (let pos = pos mod 2 ^ 32;
          pos = (if pos > 0 then pos else Bitr_width bitr mod 2 ^ 32);
          nbits = (if nbits > 0 then nbits else pos)
      in if \<not> inrange pos nbits then Inr (- error_num ERROR_OUTOFBOUNDS, bitr)
         else if nbits > pos then Inr (- error_num ERROR_OUTOFBOUNDS, bitr)
         else for_bits f bitr pos nbits)"

definition Bitr_setn :: "bitarray \<Rightarrow> nat \<Rightarrow> nat \<Rightarrow> (int \<times> bitarray) res" where
  "Bitr_setn bitr pos nbits = do_for_bits Bitr_set bitr pos nbits"

definition Bitr_clearn :: "bitarray \<Rightarrow> nat \<Rightarrow> nat \<Rightarrow> (int \<times> bitarray) res" where
  "Bitr_clearn bitr pos nbits = do_for_bits Bitr_clear bitr pos nbits"

definition Bitr_togglen :: "bitarray \<Rightarrow> nat \<Rightarrow> nat \<Rightarrow> (int \<times> bitarray) res" where
  "Bitr_togglen bitr pos nbits = do_for_bits Bitr_toggle bitr pos nbits"

text \<open>The loop of the three predicates: is one of the bits at the given positions equal to \<open>v\<close>?\<close>

fun scan_bits :: "bitarray \<Rightarrow> int \<Rightarrow> nat list \<Rightarrow> bool res" where
  "scan_bits bitr v [] = Inr False"
| "scan_bits bitr v (i # is) = bindE (Bitr_get bitr i) (\<lambda>x. if x = v then Inr True else scan_bits bitr v is)"

definition Bitr_any :: "bitarray \<Rightarrow> bool res" where
  "Bitr_any bitr = scan_bits bitr 1 [1..<ba_width bitr + 1]"

definition Bitr_all :: "bitarray \<Rightarrow> bool res" where
  "Bitr_all bitr = bindE (scan_bits bitr 0 [1..<ba_width bitr + 1]) (\<lambda>x. Inr (\<not> x))"

definition Bitr_none :: "bitarray \<Rightarrow> bool res" where
  "Bitr_none bitr = bindE (scan_bits bitr 1 [1..<ba_width bitr + 1]) (\<lambda>x. Inr (\<not> x))"

section \<open>Bitwise operations\<close>

definition loop_transform_bytes ::
    "bitarray \<Rightarrow> bitarray \<Rightarrow> (8 word \<Rightarrow> 8 word \<Rightarrow> 8 word) \<Rightarrow> (int \<times> bitarray) res" where
  "loop_transform_bytes a b bop =
     (if ba_width a \<noteq> ba_width b then Inr (error_num ERROR_INVALIDVALUE, a)
      else
        bindE (foldE (\<lambda>a i. bindE (byte_get a i) (\<lambda>x. bindE (byte_get b i) (\<lambda>y. byte_put a i (bop x y)))) a
          [0..<ba_size a]) (\<lambda>a. Inr (0, a)))"

definition Bitr_bor :: "bitarray \<Rightarrow> bitarray \<Rightarrow> (int \<times> bitarray) res" where
  "Bitr_bor a b = loop_transform_bytes a b (\<lambda>x y. x OR y)"

definition Bitr_band :: "bitarray \<Rightarrow> bitarray \<Rightarrow> (int \<times> bitarray) res" where
  "Bitr_band a b = loop_transform_bytes a b (\<lambda>x y. x AND y)"

definition Bitr_bxor :: "bitarray \<Rightarrow> bitarray \<Rightarrow> (int \<times> bitarray) res" where
  "Bitr_bxor a b = loop_transform_bytes a b (\<lambda>x y. x XOR y)"

definition Bitr_bnot :: "bitarray \<Rightarrow> (int \<times> bitarray) res" where
  "Bitr_bnot a = loop_transform_bytes a a (\<lambda>x y. NOT y)"

section \<open>Slices, repetition and concatenation\<close>

text \<open>The loop \<open>Bitr_setval(dst, dpos + i, Bitr_get(src, spos + i))\<close> for \<open>i < n\<close>, between different arrays.\<close>

definition copy_bits :: "bitarray \<Rightarrow> nat \<Rightarrow> bitarray \<Rightarrow> nat \<Rightarrow> nat \<Rightarrow> bitarray res" where
  "copy_bits dst dpos src spos n =
     foldE (\<lambda>dst i. bindE (Bitr_get src (spos + i)) (\<lambda>v.
                    bindE (Bitr_setval dst (dpos + i) v) (\<lambda>(rc, dst). Inr dst))) dst [0..<n]"

text \<open>The same loop within one array, over the given pairs of positions (destination, source).\<close>

definition move_bits :: "bitarray \<Rightarrow> (nat \<times> nat) list \<Rightarrow> bitarray res" where
  "move_bits bitr ps =
     foldE (\<lambda>b (d, i). bindE (Bitr_get b i) (\<lambda>v. bindE (Bitr_setval b d v) (\<lambda>(rc, b). Inr b))) bitr ps"

definition not_null :: "'a option \<Rightarrow> fault \<Rightarrow> 'a res" where
  "not_null p e = (case p of None \<Rightarrow> Inl e | Some a \<Rightarrow> Inr a)"

definition Bitr_slice :: "bitarray \<Rightarrow> nat \<Rightarrow> nat \<Rightarrow> bitarray res" where
  "Bitr_slice bitr start end =
     (let start = (if start = 0 then 1 else start);
          end = (if end = 0 then ba_width bitr + 1 else end)
      in bindE (assertE (start < end)) (\<lambda>_.
         bindE (assertE (end \<le> ba_width bitr + 1)) (\<lambda>_.
         bindE (Bitr_new (end - start) False) (\<lambda>new.
         bindE (not_null new AssertFail) (\<lambda>new.
         copy_bits new 1 bitr start (end - start))))))"

definition Bitr_repeat :: "bitarray \<Rightarrow> nat \<Rightarrow> bitarray option res" where
  "Bitr_repeat bitr n =
     (if n = 0 then Inl DivByZero
      else if Bitr_maxcap div n < ba_size bitr then Inr None
      else
        bindE (allocate_bitarray (Bitr_width bitr * n mod SZ)) (\<lambda>new.
        case new of
          None \<Rightarrow> Inr None
        | Some new \<Rightarrow>
            let w = Bitr_width bitr in
            if w \<ge> BITS_IN_BYTE \<and> ismult2 (of_nat w)
            then bindE (foldE (\<lambda>new i. bytes_copy new (ba_size bitr * i) (ba_bytes bitr) (ba_size bitr)) new [0..<n]) (\<lambda>new.
                 Inr (Some new))
            else bindE (foldE (\<lambda>new rnd. copy_bits new (ba_width bitr * rnd + 1) bitr 1 (ba_width bitr)) new [0..<n]) (\<lambda>new.
                 Inr (Some new))))"

definition Bitr_join :: "bitarray \<Rightarrow> bitarray \<Rightarrow> bitarray option res" where
  "Bitr_join a b =
     (if Bitr_maxcap - ba_size a < ba_size b then Inr None
      else
        bindE (allocate_bitarray ((Bitr_width a + Bitr_width b) mod SZ)) (\<lambda>new.
        bindE (not_null new NullDeref) (\<lambda>new.
        let wa = Bitr_width a; wb = Bitr_width b in
        if (wa \<ge> BITS_IN_BYTE \<and> ismult2 (of_nat wa)) \<and> (wb \<ge> BITS_IN_BYTE \<and> ismult2 (of_nat wb))
        then bindE (bytes_copy new 0 (ba_bytes b) (ba_size b)) (\<lambda>new.
             bindE (bytes_copy new (ba_size b) (ba_bytes a) (ba_size a)) (\<lambda>new. Inr (Some new)))
        else bindE (copy_bits new 1 b 1 (ba_width b)) (\<lambda>new.
             bindE (copy_bits new (ba_width b + 1) a 1 (ba_width a)) (\<lambda>new. Inr (Some new))))))"

section \<open>Comparison\<close>

fun bytes_equal :: "bitarray \<Rightarrow> bitarray \<Rightarrow> nat list \<Rightarrow> bool res" where
  "bytes_equal a b [] = Inr True"
| "bytes_equal a b (i # is) =
     bindE (byte_get a i) (\<lambda>x. bindE (byte_get b i) (\<lambda>y. if x \<noteq> y then Inr False else bytes_equal a b is))"

definition Bitr_equal :: "bitarray \<Rightarrow> bitarray \<Rightarrow> bool res" where
  "Bitr_equal a b =
     (if ba_width a \<noteq> ba_width b then Inr False
      else
        bindE (assertE (ba_size a = ba_size b)) (\<lambda>_.
        let i = bits2bytes (ba_width a) False; remainder_bits = ba_width a mod 8 in
        bindE (bytes_equal a b [0..<i]) (\<lambda>same.
        if \<not> same then Inr False
        else
          bindE (byte_get a i) (\<lambda>a_byte.
          bindE (byte_get b i) (\<lambda>b_byte.
          if remainder_bits > 0
          then Inr (\<forall>j\<in>set [1..<remainder_bits + 1]. get_bit a_byte j = get_bit b_byte j)
          else Inr (a_byte = b_byte))))))"

section \<open>Reversal and shifts\<close>

function reverse_loop :: "bitarray \<Rightarrow> nat \<Rightarrow> nat \<Rightarrow> bitarray res" where
  "reverse_loop bitr i j =
     (if i < j then
        bindE (Bitr_get bitr i) (\<lambda>temp.
        bindE (Bitr_get bitr j) (\<lambda>v.
        bindE (Bitr_setval bitr i v) (\<lambda>(_, bitr).
        bindE (Bitr_setval bitr j temp) (\<lambda>(_, bitr).
        reverse_loop bitr (i + 1) (j - 1)))))
      else Inr bitr)"
  by pat_completeness auto

termination reverse_loop
  by (relation "measure (\<lambda>(b, i, j). j - i)") auto

definition Bitr_reverse :: "bitarray \<Rightarrow> bitarray res" where
  "Bitr_reverse bitr = reverse_loop bitr 1 (ba_width bitr)"

definition Bitr_lshift :: "bitarray \<Rightarrow> nat \<Rightarrow> bool \<Rightarrow> bitarray res" where
  "Bitr_lshift bitr n rot =
     bindE (assertE (n \<le> ba_width bitr)) (\<lambda>_.
     if n = 0 then Inr bitr
     else
       bindE (if rot then bindE (Bitr_slice bitr (ba_width bitr + 1 - n) 0) (\<lambda>s. Inr (Some s)) else Inr None) (\<lambda>slice.
       bindE (move_bits bitr (map (\<lambda>i. (i, i - n)) (rev [n + 1..<ba_width bitr + 1]))) (\<lambda>bitr.
       case slice of
         Some sl \<Rightarrow> copy_bits bitr 1 sl 1 (ba_width sl)
       | None \<Rightarrow> bindE (Bitr_clearn bitr n n) (\<lambda>(_, bitr). Inr bitr))))"

definition Bitr_rshift :: "bitarray \<Rightarrow> nat \<Rightarrow> bool \<Rightarrow> bitarray res" where
  "Bitr_rshift bitr n rot =
     bindE (assertE (n \<le> ba_width bitr)) (\<lambda>_.
     if n = 0 then Inr bitr
     else
       bindE (if rot then bindE (Bitr_slice bitr 1 (n + 1)) (\<lambda>s. Inr (Some s)) else Inr None) (\<lambda>slice.
       bindE (move_bits bitr (map (\<lambda>i. (i, i + n)) [1..<ba_width bitr - n + 1])) (\<lambda>bitr.
       case slice of
         Some sl \<Rightarrow> copy_bits bitr (ba_width bitr - n + 1) sl 1 (ba_width sl)
       | None \<Rightarrow> bindE (Bitr_clearn bitr (ba_width bitr) n) (\<lambda>(_, bitr). Inr bitr))))"

definition Bitr_lpush :: "bitarray \<Rightarrow> bool \<Rightarrow> bitarray res" where
  "Bitr_lpush bitr on =
     bindE (Bitr_rshift bitr 1 False) (\<lambda>bitr.
     bindE (Bitr_setval bitr (Bitr_width bitr) (of_bool on)) (\<lambda>(_, bitr). Inr bitr))"

definition Bitr_rpush :: "bitarray \<Rightarrow> bool \<Rightarrow> bitarray res" where
  "Bitr_rpush bitr on =
     bindE (Bitr_lshift bitr 1 False) (\<lambda>bitr.
     bindE (Bitr_setval bitr 1 (of_bool on)) (\<lambda>(_, bitr). Inr bitr))"

definition Bitr_lpop :: "bitarray \<Rightarrow> (int \<times> bitarray) res" where
  "Bitr_lpop bitr =
     bindE (Bitr_get bitr (Bitr_width bitr)) (\<lambda>v.
     bindE (Bitr_lshift bitr 1 False) (\<lambda>bitr. Inr (v, bitr)))"

definition Bitr_rpop :: "bitarray \<Rightarrow> (int \<times> bitarray) res" where
  "Bitr_rpop bitr =
     bindE (Bitr_get bitr 1) (\<lambda>v.
     bindE (Bitr_rshift bitr 1 False) (\<lambda>bitr. Inr (v, bitr)))"

section \<open>Strings\<close>

text \<open>The output buffer and the position below the last character written; a write outside is a fault.\<close>

definition str_put :: "string \<Rightarrow> int \<Rightarrow> string \<Rightarrow> string res" where
  "str_put s p t =
     (if 0 \<le> p \<and> nat p + length t \<le> length s
      then Inr (take (nat p) s @ t @ drop (nat p + length t) s) else Inl WildDeref)"

fun tostring_loop :: "bitarray \<Rightarrow> string \<Rightarrow> nat \<Rightarrow> string \<times> int \<times> nat \<Rightarrow> nat list \<Rightarrow> (string \<times> int \<times> nat) res" where
  "tostring_loop bitr sep groupsz st [] = Inr st"
| "tostring_loop bitr sep groupsz (s, p, groups) (i # is) =
     bindE (Bitr_get bitr i) (\<lambda>v.
     bindE (str_put s p [if v = 1 then CHR ''1'' else CHR ''0'']) (\<lambda>s.
     let p = p - 1 in
     if groups > 1 \<and> i mod groupsz = 0 then
       let groups = groups - 1 in
       if groups \<noteq> 0 then
         bindE (assertE (length sep > 0)) (\<lambda>_.
         let p = p - int (length sep) in
         bindE (str_put s (p + 1) sep) (\<lambda>s. tostring_loop bitr sep groupsz (s, p, groups) is))
       else tostring_loop bitr sep groupsz (s, p, groups) is
     else tostring_loop bitr sep groupsz (s, p, groups) is))"

text \<open>The returned buffer, its terminating NUL dropped.\<close>

definition Bitr_tostring :: "bitarray \<Rightarrow> nat \<Rightarrow> string option \<Rightarrow> string res" where
  "Bitr_tostring bitr split_every sep =
     (let sep = (case sep of None \<Rightarrow> [] | Some t \<Rightarrow> t);
          groupsz = split_every;
          separators = ba_width bitr div groupsz - (if ba_width bitr mod groupsz \<noteq> 0 then 0 else 1);
          (groups, totsz) = (if groupsz > 0 \<and> groupsz < ba_width bitr
             then (separators + 1, ba_width bitr + 1 + length sep * separators)
             else (0, ba_width bitr + 1))
      in bindE (tostring_loop bitr sep groupsz (replicate totsz (CHR 0x00), int totsz - 2, groups)
                 [1..<ba_width bitr + 1]) (\<lambda>(s, _). Inr (butlast s)))"

fun fromstring_loop :: "string \<Rightarrow> nat \<Rightarrow> nat \<Rightarrow> bitarray \<Rightarrow> nat \<Rightarrow> bitarray res" where
  "fromstring_loop str true_len 0 bitr bai = Inr bitr"
| "fromstring_loop str true_len (Suc bsi) bitr bai =
     (if bai \<le> true_len then
        let bschar = str ! bsi in
        if bschar = CHR ''1'' \<or> bschar = CHR ''0''
        then bindE (Bitr_setval bitr bai (if bschar = CHR ''1'' then 1 else 0)) (\<lambda>(_, bitr).
             fromstring_loop str true_len bsi bitr (bai + 1))
        else fromstring_loop str true_len bsi bitr bai
      else Inr bitr)"

definition Bitr_fromstring :: "bitarray option \<Rightarrow> string \<Rightarrow> string option \<Rightarrow> bitarray option res" where
  "Bitr_fromstring bitr bitstring sep =
     (case is_valid_bitstring bitstring sep of
        None \<Rightarrow> Inr None
      | Some true_len \<Rightarrow>
          bindE (case bitr of
                   Some b \<Rightarrow> Inr (if ba_width b < true_len then None else Some b)
                 | None \<Rightarrow> allocate_bitarray true_len) (\<lambda>b.
          case b of
            None \<Rightarrow> Inr None
          | Some b \<Rightarrow> bindE (fromstring_loop bitstring true_len (length bitstring) b 1) (\<lambda>b. Inr (Some b))))"

end
