(* ===== verification/Bitarray_Correct.thy ===== *)
theory Bitarray_Correct
  imports Bitarray
begin

text \<open>
  The bit array as a list of booleans: \<open>bits\<close> reads it off, \<open>bitr_inv\<close> says that the buffer has exactly
  the bytes the width needs. Each operation is shown to be the list operation it stands for.
\<close>

section \<open>Abstraction\<close>

definition bit_at :: "bitarray \<Rightarrow> nat \<Rightarrow> bool" where
  "bit_at b i = bit (ba_bytes b ! (i div 8)) (i mod 8)"

definition bits :: "bitarray \<Rightarrow> bool list" where
  "bits b = map (bit_at b) [0..<ba_width b]"

definition bitr_inv :: "bitarray \<Rightarrow> bool" where
  "bitr_inv b \<longleftrightarrow> 0 < ba_width b \<and> ba_width b < 2 ^ 32 \<and> ba_size b = (ba_width b + 7) div 8 \<and>
     length (ba_bytes b) = ba_size b"

lemma length_bits [simp]: "length (bits b) = ba_width b"
  by (simp add: bits_def)

lemma nth_bits [simp]: "i < ba_width b \<Longrightarrow> bits b ! i = bit_at b i"
  by (simp add: bits_def)

lemma bits_eqI:
  "length xs = ba_width b \<Longrightarrow> (\<And>i. i < ba_width b \<Longrightarrow> bit_at b i = xs ! i) \<Longrightarrow> bits b = xs"
  by (rule nth_equalityI) auto

lemma indices: "byte_index pos = (pos - 1) div 8" "bit_index pos = (pos - 1) mod 8 + 1"
proof -
  have "and (pos - 1) 7 = (pos - 1) mod 8"
    using take_bit_eq_mask [of 3 "pos - 1"] by (simp add: take_bit_eq_mod mask_eq_exp_minus_1)
  then show "byte_index pos = (pos - 1) div 8" "bit_index pos = (pos - 1) mod 8 + 1"
    by (simp_all add: byte_index_def bit_index_def BITS_IN_BYTE_def)
qed

lemma byte_in_buffer: "bitr_inv b \<Longrightarrow> i < ba_width b \<Longrightarrow> i div 8 < length (ba_bytes b)"
  by (simp add: bitr_inv_def)

text \<open>What a successful write leaves.\<close>

definition ba_put :: "bitarray \<Rightarrow> nat \<Rightarrow> bool \<Rightarrow> bitarray" where
  "ba_put b i x = b\<lparr>ba_bytes := (ba_bytes b)[i div 8 := set_bitval (ba_bytes b ! (i div 8)) (i mod 8 + 1) (of_bool x)]\<rparr>"

lemma ba_put_simps [simp]:
  "ba_width (ba_put b i x) = ba_width b" "ba_size (ba_put b i x) = ba_size b"
  "bitr_inv (ba_put b i x) = bitr_inv b"
  by (simp_all add: ba_put_def bitr_inv_def)

lemma bit_at_put:
  assumes "bitr_inv b" "i < ba_width b" "j < ba_width b"
  shows "bit_at (ba_put b i x) j = (if j = i then x else bit_at b j)"
proof -
  have "i div 8 < length (ba_bytes b)" using byte_in_buffer assms by blast
  moreover have "j = i \<longleftrightarrow> j div 8 = i div 8 \<and> j mod 8 = i mod 8" by (metis div_mult_mod_eq)
  ultimately show ?thesis by (auto simp: bit_at_def ba_put_def bit_set_bitval nth_list_update)
qed

lemma bits_put [simp]: "bitr_inv b \<Longrightarrow> i < ba_width b \<Longrightarrow> bits (ba_put b i x) = (bits b)[i := x]"
  by (rule bits_eqI) (auto simp: bit_at_put nth_list_update)

section \<open>Single bits\<close>

lemma bitr_get_ok: "bitr_inv b \<Longrightarrow> 0 < pos \<Longrightarrow> pos \<le> ba_width b \<Longrightarrow> Bitr_get b pos = Inr (of_bool (bits b ! (pos - 1)))"
  using byte_in_buffer [of b "pos - 1"]
  by (simp add: Bitr_get_def inrange_def Bitr_width_def byte_get_def indices get_bit_eq bit_at_def)

lemma get_outside: "\<not> (0 < pos \<and> pos \<le> ba_width b) \<Longrightarrow> Bitr_get b pos = Inr (-6)"
  by (auto simp: Bitr_get_def inrange_def Bitr_width_def)

lemma setval_ok:
  "bitr_inv b \<Longrightarrow> 0 < pos \<Longrightarrow> pos \<le> ba_width b \<Longrightarrow> Bitr_setval b pos (of_bool x) = Inr (0, ba_put b (pos - 1) x)"
  using byte_in_buffer [of b "pos - 1"]
  by (auto simp: Bitr_setval_def inrange_def Bitr_width_def byte_get_def byte_put_def indices ba_put_def)

lemma setval_outside:
  "v = 0 \<or> v = 1 \<Longrightarrow> \<not> (0 < pos \<and> pos \<le> ba_width b) \<Longrightarrow> Bitr_setval b pos v = Inr (-6, b)"
  by (auto simp: Bitr_setval_def inrange_def Bitr_width_def)

lemma set_eq: "bitr_inv b \<Longrightarrow> 0 < pos \<Longrightarrow> pos \<le> ba_width b \<Longrightarrow> Bitr_set b pos = Inr (0, ba_put b (pos - 1) True)"
  using setval_ok [of b pos True] by (simp add: Bitr_set_def)

lemma clear_is_set: "clear_bit num pos = set_bitval num pos 0"
  by (simp add: clear_bit_def set_bitval_def)

lemma toggle_is_set: "pos \<le> 8 \<Longrightarrow> 0 < pos \<Longrightarrow> toggle_bit num pos = set_bitval (num :: 8 word) pos (of_bool (\<not> bit num (pos - 1)))"
  by (rule bit_word_eqI) (auto simp: bit_toggle_bit bit_set_bitval)

lemma clear_eq: "bitr_inv b \<Longrightarrow> 0 < pos \<Longrightarrow> pos \<le> ba_width b \<Longrightarrow> Bitr_clear b pos = Inr (0, ba_put b (pos - 1) False)"
  using byte_in_buffer [of b "pos - 1"]
  by (auto simp: Bitr_clear_def inrange_def Bitr_width_def byte_get_def byte_put_def indices ba_put_def clear_is_set)

lemma toggle_eq:
  "bitr_inv b \<Longrightarrow> 0 < pos \<Longrightarrow> pos \<le> ba_width b \<Longrightarrow> Bitr_toggle b pos = Inr (0, ba_put b (pos - 1) (\<not> bits b ! (pos - 1)))"
  using byte_in_buffer [of b "pos - 1"]
  by (auto simp: Bitr_toggle_def inrange_def Bitr_width_def byte_get_def byte_put_def indices ba_put_def
      toggle_is_set bit_at_def)

section \<open>Ranges\<close>

text \<open>A range update applies a pointwise update to the positions \<open>pos - nbits + 1 .. pos\<close>.\<close>

definition map_range :: "nat \<Rightarrow> nat \<Rightarrow> (bool \<Rightarrow> bool) \<Rightarrow> bool list \<Rightarrow> bool list" where
  "map_range lo hi f xs = take lo xs @ map f (drop lo (take hi xs)) @ drop hi xs"

lemma nth_map_range:
  "lo \<le> hi \<Longrightarrow> hi \<le> length xs \<Longrightarrow> i < length xs \<Longrightarrow>
     map_range lo hi f xs ! i = (if lo \<le> i \<and> i < hi then f (xs ! i) else xs ! i)"
  by (auto simp: map_range_def nth_append min_def)

lemma length_map_range [simp]: "lo \<le> hi \<Longrightarrow> hi \<le> length xs \<Longrightarrow> length (map_range lo hi f xs) = length xs"
  by (simp add: map_range_def)

lemma for_bits_ok:
  assumes "\<And>b pos. bitr_inv b \<Longrightarrow> 0 < pos \<Longrightarrow> pos \<le> ba_width b \<Longrightarrow> op b pos = Inr (0, ba_put b (pos - 1) (f (bits b ! (pos - 1))))"
    and "bitr_inv b" "n \<le> pos" "pos \<le> ba_width b"
  shows "\<exists>b'. for_bits op b pos n = Inr (0, b') \<and> bitr_inv b' \<and> ba_width b' = ba_width b \<and>
     bits b' = map_range (pos - n) pos f (bits b)"
  using assms(2-)
proof (induction n arbitrary: b pos)
  case 0
  then show ?case by (simp add: map_range_def)
next
  case (Suc n)
  let ?b = "ba_put b (pos - 1) (f (bits b ! (pos - 1)))"
  have op: "op b pos = Inr (0, ?b)" using assms(1) Suc.prems by simp
  obtain b' where b': "for_bits op ?b (pos - 1) n = Inr (0, b')" "bitr_inv b'" "ba_width b' = ba_width b"
      "bits b' = map_range (pos - 1 - n) (pos - 1) f (bits ?b)"
  proof -
    have pre: "bitr_inv ?b" "n \<le> pos - 1" "pos - 1 \<le> ba_width ?b" using Suc.prems by simp_all
    show ?thesis using Suc.IH [OF pre] that by (elim exE conjE) simp
  qed
  have "bits b' = map_range (pos - Suc n) pos f (bits b)"
  proof (rule nth_equalityI)
    show "length (bits b') = length (map_range (pos - Suc n) pos f (bits b))" using b'(3) Suc.prems by simp
  next
    fix i assume "i < length (bits b')"
    then have i: "i < ba_width b" using b'(3) by simp
    have "pos - 1 < ba_width b" using Suc.prems by simp
    then have "bits b' ! i = (if pos - 1 - n \<le> i \<and> i < pos - 1 then f ((bits b)[pos - 1 := f (bits b ! (pos - 1))] ! i)
        else (bits b)[pos - 1 := f (bits b ! (pos - 1))] ! i)"
      unfolding b'(4) bits_put [OF Suc.prems(1) \<open>pos - 1 < ba_width b\<close>]
      using i Suc.prems by (subst nth_map_range) auto
    moreover have "map_range (pos - Suc n) pos f (bits b) ! i =
        (if pos - Suc n \<le> i \<and> i < pos then f (bits b ! i) else bits b ! i)"
      using i Suc.prems by (subst nth_map_range) auto
    ultimately show "bits b' ! i = map_range (pos - Suc n) pos f (bits b) ! i"
      using i Suc.prems by (auto simp: nth_list_update)
  qed
  with op b' show ?case by auto
qed

lemma do_for_bits_ok:
  assumes "\<And>b pos. bitr_inv b \<Longrightarrow> 0 < pos \<Longrightarrow> pos \<le> ba_width b \<Longrightarrow> op b pos = Inr (0, ba_put b (pos - 1) (f (bits b ! (pos - 1))))"
    and "bitr_inv b" "0 < pos" "pos \<le> ba_width b" "0 < n" "n \<le> pos"
  shows "\<exists>b'. do_for_bits op b pos n = Inr (0, b') \<and> bitr_inv b' \<and> ba_width b' = ba_width b \<and>
     bits b' = map_range (pos - n) pos f (bits b)"
proof -
  have "pos mod 2 ^ 32 = pos" using assms(2,4) by (simp add: bitr_inv_def)
  then have "do_for_bits op b pos n = for_bits op b pos n"
    using assms by (simp add: do_for_bits_def Let_def inrange_def)
  then show ?thesis using for_bits_ok [OF assms(1,2) assms(6,4)] by simp
qed

lemma map_range_const: "lo \<le> hi \<Longrightarrow> hi \<le> length xs \<Longrightarrow>
    map_range lo hi (\<lambda>_. v) xs = take lo xs @ replicate (hi - lo) v @ drop hi xs"
  by (simp add: map_range_def map_replicate_const)

text \<open>Outside the array the range operations report the error and change nothing, although the range
  check itself compares the wrong pair.\<close>

lemma do_for_bits_outside:
  assumes "\<And>b pos. \<not> (0 < pos \<and> pos \<le> ba_width b) \<Longrightarrow> op b pos = Inr (-6, b)"
    and "ba_width b < pos" "pos < 2 ^ 32" "0 < n" "n \<le> pos"
  shows "do_for_bits op b pos n = Inr (-6, b)"
proof -
  have "pos mod 2 ^ 32 = pos" using assms(3) by simp
  then have "do_for_bits op b pos n = for_bits op b pos n"
    using assms by (simp add: do_for_bits_def Let_def inrange_def)
  also obtain m where "n = Suc m" using assms(4) by (cases n) auto
  then have "for_bits op b pos n = Inr (-6, b)" using assms(1) [of pos b] assms(2) by simp
  finally show ?thesis .
qed

section \<open>Predicates and bitwise operations\<close>

lemma scan_bits_ok:
  "bitr_inv b \<Longrightarrow> set ps \<subseteq> {1..ba_width b} \<Longrightarrow>
     scan_bits b (of_bool v) ps = Inr (\<exists>p\<in>set ps. bits b ! (p - 1) = v)"
  by (induction ps) (auto simp: bitr_get_ok)

lemma any_position: "(\<exists>p\<in>{1..<Suc n}. P (p - 1)) \<longleftrightarrow> (\<exists>i<n. P i)"
proof
  assume "\<exists>p\<in>{1..<Suc n}. P (p - 1)"
  then obtain p where "1 \<le> p" "p < Suc n" "P (p - 1)" by auto
  then show "\<exists>i<n. P i" by (intro exI [of _ "p - 1"]) simp
next
  assume "\<exists>i<n. P i"
  then obtain i where "i < n" "P i" by blast
  then show "\<exists>p\<in>{1..<Suc n}. P (p - 1)" by (intro bexI [of _ "Suc i"]) simp_all
qed

lemma predicates_ok:
  assumes "bitr_inv b"
  shows "Bitr_any b = Inr (True \<in> set (bits b))" "Bitr_all b = Inr (False \<notin> set (bits b))"
    "Bitr_none b = Inr (True \<notin> set (bits b))"
proof -
  have "set [1..<ba_width b + 1] \<subseteq> {1..ba_width b}" by auto
  then have "scan_bits b (of_bool v) [1..<ba_width b + 1] = Inr (v \<in> set (bits b))" for v
    using scan_bits_ok [OF assms] any_position [of "ba_width b" "\<lambda>i. bits b ! i = v"]
    by (auto simp: in_set_conv_nth)
  from this [of True] this [of False]
  show "Bitr_any b = Inr (True \<in> set (bits b))" "Bitr_all b = Inr (False \<notin> set (bits b))"
    "Bitr_none b = Inr (True \<notin> set (bits b))"
    by (simp_all add: Bitr_any_def Bitr_all_def Bitr_none_def)
qed

lemma transform_loop:
  assumes "length (ba_bytes a) = length (ba_bytes b)" "n \<le> length (ba_bytes a)"
  shows "foldE (\<lambda>a i. bindE (byte_get a i) (\<lambda>x. bindE (byte_get b i) (\<lambda>y. byte_put a i (bop x y)))) a [0..<n] =
     Inr (a\<lparr>ba_bytes := map2 bop (take n (ba_bytes a)) (take n (ba_bytes b)) @ drop n (ba_bytes a)\<rparr>)"
  using assms(2)
proof (induction n)
  case 0
  then show ?case by simp
next
  case (Suc n)
  let ?xs = "map2 bop (take n (ba_bytes a)) (take n (ba_bytes b)) @ drop n (ba_bytes a)"
  have n: "n < length (ba_bytes a)" "n < length (ba_bytes b)" using Suc.prems assms(1) by auto
  have "?xs ! n = ba_bytes a ! n" "n < length ?xs" using n by (auto simp: nth_append)
  moreover have "?xs[n := bop (ba_bytes a ! n) (ba_bytes b ! n)] =
      map2 bop (take (Suc n) (ba_bytes a)) (take (Suc n) (ba_bytes b)) @ drop (Suc n) (ba_bytes a)"
    using n by (simp add: list_update_append take_Suc_conv_app_nth Cons_nth_drop_Suc [symmetric])
  ultimately show ?case using Suc n by (simp add: foldE_append byte_get_def byte_put_def)
qed

lemma transform_ok:
  assumes "bitr_inv a" "bitr_inv b" "ba_width a = ba_width b"
    and "\<And>x y i. i < 8 \<Longrightarrow> bit (bop x y) i = g (bit x i) (bit y i)"
  shows "\<exists>a'. loop_transform_bytes a b bop = Inr (0, a') \<and> bitr_inv a' \<and> bits a' = map2 g (bits a) (bits b)"
proof -
  have len: "length (ba_bytes a) = ba_size a" "length (ba_bytes b) = ba_size a"
    using assms(1-3) by (auto simp: bitr_inv_def)
  let ?a = "a\<lparr>ba_bytes := map2 bop (ba_bytes a) (ba_bytes b)\<rparr>"
  have "loop_transform_bytes a b bop = Inr (0, ?a)"
    using transform_loop [of a b "ba_size a" bop] len assms(3) by (simp add: loop_transform_bytes_def)
  moreover have "bitr_inv ?a" using assms(1) len by (simp add: bitr_inv_def)
  moreover have "bits ?a = map2 g (bits a) (bits b)"
  proof (rule bits_eqI)
    fix i assume "i < ba_width ?a"
    then have "i div 8 < length (ba_bytes a)" "i div 8 < length (ba_bytes b)"
      using byte_in_buffer assms(1-3) by auto
    then show "bit_at ?a i = map2 g (bits a) (bits b) ! i"
      using \<open>i < ba_width ?a\<close> assms(3,4) by (simp add: bit_at_def)
  qed (simp add: assms(3))
  ultimately show ?thesis by blast
qed

section \<open>Copying bits\<close>

lemma copy_step:
  assumes "k + n < length xs" "m + n < length ys"
  shows "(take k xs @ take n (drop m ys) @ drop (k + n) xs)[k + n := ys ! (m + n)] =
     take k xs @ take (Suc n) (drop m ys) @ drop (k + Suc n) xs"
proof -
  have "take (Suc n) (drop m ys) = take n (drop m ys) @ [ys ! (m + n)]"
    using assms(2) by (simp add: take_Suc_conv_app_nth)
  moreover have "drop (k + n) xs = xs ! (k + n) # drop (k + Suc n) xs"
    using assms(1) by (simp add: Cons_nth_drop_Suc)
  ultimately show ?thesis using assms by (simp add: list_update_append)
qed

lemma copy_bits_ok:
  assumes "bitr_inv dst" "bitr_inv src" "0 < dpos" "0 < spos" "dpos + n \<le> ba_width dst + 1" "spos + n \<le> ba_width src + 1"
  shows "\<exists>d. copy_bits dst dpos src spos n = Inr d \<and> bitr_inv d \<and> ba_width d = ba_width dst \<and>
     bits d = take (dpos - 1) (bits dst) @ take n (drop (spos - 1) (bits src)) @ drop (dpos - 1 + n) (bits dst)"
  using assms(5,6)
proof (induction n)
  case 0
  then show ?case using assms(1) by (simp add: copy_bits_def)
next
  case (Suc n)
  then obtain d where d: "copy_bits dst dpos src spos n = Inr d" "bitr_inv d" "ba_width d = ba_width dst"
      "bits d = take (dpos - 1) (bits dst) @ take n (drop (spos - 1) (bits src)) @ drop (dpos - 1 + n) (bits dst)"
    by auto
  let ?v = "bits src ! (spos + n - 1)"
  have g: "Bitr_get src (spos + n) = Inr (of_bool ?v)" using bitr_get_ok [OF assms(2)] assms(4) Suc.prems by simp
  have p: "Bitr_setval d (dpos + n) (of_bool ?v) = Inr (0, ba_put d (dpos + n - 1) ?v)"
    using setval_ok [OF d(2)] d(3) assms(3) Suc.prems by simp
  have "bits (ba_put d (dpos + n - 1) ?v) = (bits d)[dpos + n - 1 := ?v]" 
    using d(2,3) assms(3) Suc.prems by (intro bits_put) auto
  also have "\<dots> = take (dpos - 1) (bits dst) @ take (Suc n) (drop (spos - 1) (bits src)) @ drop (dpos - 1 + Suc n) (bits dst)"
    using copy_step [of "dpos - 1" n "bits dst" "spos - 1" "bits src"] assms(3,4) Suc.prems unfolding d(4) by simp
  finally show ?case using d g p by (simp add: copy_bits_def foldE_append)
qed

lemma allocate_ok:
  assumes "0 < n" "n < 2 ^ 32"
  shows "allocate_bitarray n = Inr (Some \<lparr>ba_size = (n + 7) div 8, ba_width = n, ba_bytes = replicate ((n + 7) div 8) 0\<rparr>)"
proof -
  have "calculate_required_size n = (n + 7) div 8"
    using assms(2) by (auto simp: calculate_required_size_def BITS_IN_BYTE_def Let_def) presburger+
  moreover have "(n + 7) div 8 \<le> Bitr_maxcap" using assms(2) by (simp add: Bitr_maxcap_def MAX_BITARRAY_WIDTH_def SZ_def)
  ultimately show ?thesis using assms(1) by (simp add: allocate_bitarray_def Let_def)
qed

lemma bitr_new_ok:
  assumes "0 < n" "n < 2 ^ 32"
  shows "\<exists>b. Bitr_new n one = Inr (Some b) \<and> bitr_inv b \<and> ba_width b = n \<and> bits b = replicate n one"
proof -
  let ?c = "(if one then 0xff else 0) :: 8 word"
  let ?b = "\<lparr>ba_size = (n + 7) div 8, ba_width = n, ba_bytes = replicate ((n + 7) div 8) ?c\<rparr>"
  have "Bitr_new n one = Inr (Some ?b)"
    using allocate_ok [OF assms] by (simp add: Bitr_new_def fill_bitarray_def bytes_copy_def)
  moreover have inv: "bitr_inv ?b" using assms by (simp add: bitr_inv_def)
  moreover have "bits ?b = replicate n one"
  proof (rule bits_eqI)
    fix i assume i: "i < ba_width ?b"
    have "bit (0xff :: 8 word) (i mod 8)" unfolding byte_masks(1) by (simp add: bit_simps)
    then show "bit_at ?b i = replicate n one ! i"
      using i byte_in_buffer [OF inv i] by (simp add: bit_at_def)
  qed simp
  ultimately show ?thesis by (intro exI [of _ ?b]) simp
qed

lemma slice_ok:
  assumes "bitr_inv b" "0 < start" "start < end" "end \<le> ba_width b + 1"
  shows "\<exists>c. Bitr_slice b start end = Inr c \<and> bitr_inv c \<and> ba_width c = end - start \<and>
     bits c = take (end - start) (drop (start - 1) (bits b))"
proof -
  have n: "0 < end - start" "end - start < 2 ^ 32" using assms by (auto simp: bitr_inv_def)
  obtain c where c: "Bitr_new (end - start) False = Inr (Some c)" "bitr_inv c" "ba_width c = end - start"
    using bitr_new_ok [OF n] by blast
  obtain d where d: "copy_bits c 1 b start (end - start) = Inr d" "bitr_inv d" "ba_width d = ba_width c"
      "bits d = take 0 (bits c) @ take (end - start) (drop (start - 1) (bits b)) @ drop (end - start) (bits c)"
    using copy_bits_ok [OF c(2) assms(1), of 1 start "end - start"] c(3) assms by auto
  have "Bitr_slice b start end = Inr d"
    using assms c(1) d(1) by (simp add: Bitr_slice_def Let_def not_null_def)
  with d c(3) show ?thesis by simp
qed

end
