(* ===== verification/Bitarray_Ops.thy ===== *)
theory Bitarray_Ops
  imports Bitarray_Correct
begin

text \<open>
  Whole-array operations of the bit array: concatenation, shifts, rotations, pushes and pops, reversal,
  comparison, and the conversions from and to integers and strings.
\<close>

section \<open>Range and bitwise operations\<close>

text \<open>Bitr_setn, Bitr_clearn and Bitr_togglen write, clear and flip exactly the bits at the positions pos, pos - 1, ..., pos - nbits + 1 of the array, and report success.\<close>

theorem bit_range_operations:
  assumes "bitr_inv b" "0 < pos" "pos \<le> ba_width b" "0 < n" "n \<le> pos"
  shows "(\<exists>b'. Bitr_setn b pos n = Inr (0, b') \<and> bitr_inv b' \<and>
           bits b' = take (pos - n) (bits b) @ replicate n True @ drop pos (bits b)) \<and>
         (\<exists>b'. Bitr_clearn b pos n = Inr (0, b') \<and> bitr_inv b' \<and>
           bits b' = take (pos - n) (bits b) @ replicate n False @ drop pos (bits b)) \<and>
         (\<exists>b'. Bitr_togglen b pos n = Inr (0, b') \<and> bitr_inv b' \<and>
           bits b' = take (pos - n) (bits b) @ map Not (drop (pos - n) (take pos (bits b))) @ drop pos (bits b))"
  using do_for_bits_ok [OF set_eq assms] do_for_bits_ok [OF clear_eq assms] do_for_bits_ok [OF toggle_eq assms] assms
    map_range_const [of "pos - n" pos "bits b"]
  by (auto simp: Bitr_setn_def Bitr_clearn_def Bitr_togglen_def map_range_def)

text \<open>The bitwise operations on two bit arrays of the same width are the pointwise operations on their bits and report success; of different widths they report the error and change nothing.\<close>

theorem bitwise_operations:
  assumes "bitr_inv a" "bitr_inv b"
  shows "if ba_width a = ba_width b
    then (\<exists>c. Bitr_bor a b = Inr (0, c) \<and> bitr_inv c \<and> bits c = map2 (\<or>) (bits a) (bits b)) \<and>
         (\<exists>c. Bitr_band a b = Inr (0, c) \<and> bitr_inv c \<and> bits c = map2 (\<and>) (bits a) (bits b)) \<and>
         (\<exists>c. Bitr_bxor a b = Inr (0, c) \<and> bitr_inv c \<and> bits c = map2 (\<noteq>) (bits a) (bits b)) \<and>
         (\<exists>c. Bitr_bnot a = Inr (0, c) \<and> bitr_inv c \<and> bits c = map Not (bits a))
    else Bitr_bor a b = Inr (8, a) \<and> Bitr_band a b = Inr (8, a) \<and> Bitr_bxor a b = Inr (8, a)"
proof (cases "ba_width a = ba_width b")
  case True
  have self: "map2 (\<lambda>x y. \<not> x) xs xs = map Not xs" for xs :: "bool list" by (induction xs) auto
  show ?thesis
    using True transform_ok [OF assms True, of "(OR)" "(\<or>)"] transform_ok [OF assms True, of "(AND)" "(\<and>)"]
      transform_ok [OF assms True, of "(XOR)" "(\<noteq>)"] transform_ok [OF assms(1,1) refl, of "\<lambda>x y. NOT x" "\<lambda>x y. \<not> x"]
      transform_ok [OF assms(1,1) refl, of "\<lambda>x y. NOT y" "\<lambda>x y. \<not> y"]
    by (auto simp: Bitr_bor_def Bitr_band_def Bitr_bxor_def Bitr_bnot_def bit_simps map2_map_map zip_same_conv_map self)
next
  case False
  then show ?thesis
    by (simp add: Bitr_bor_def Bitr_band_def Bitr_bxor_def loop_transform_bytes_def)
qed

section \<open>Moving bits within an array\<close>

definition mv :: "bool list \<Rightarrow> nat \<times> nat \<Rightarrow> bool list" where
  "mv xs = (\<lambda>(d, i). xs[d - 1 := xs ! (i - 1)])"

lemma length_mv [simp]: "length (foldl mv xs ps) = length xs"
  by (induction ps arbitrary: xs) (auto simp: mv_def)

lemma move_bits_ok:
  assumes "bitr_inv b" "\<forall>(d, i)\<in>set ps. 0 < d \<and> d \<le> ba_width b \<and> 0 < i \<and> i \<le> ba_width b"
  shows "\<exists>b'. move_bits b ps = Inr b' \<and> bitr_inv b' \<and> ba_width b' = ba_width b \<and> bits b' = foldl mv (bits b) ps"
  using assms
proof (induction ps arbitrary: b)
  case Nil
  then show ?case by (simp add: move_bits_def)
next
  case (Cons p ps)
  obtain d i where p: "p = (d, i)" by (cases p)
  have r: "0 < d" "d \<le> ba_width b" "0 < i" "i \<le> ba_width b" using Cons.prems(2) p by auto
  let ?v = "bits b ! (i - 1)"
  have ops: "Bitr_get b i = Inr (of_bool ?v)" "Bitr_setval b d (of_bool ?v) = Inr (0, ba_put b (d - 1) ?v)"
    using bitr_get_ok [OF Cons.prems(1) r(3,4)] setval_ok [OF Cons.prems(1) r(1,2)] by simp_all
  have w: "d - 1 < ba_width b" using r by simp
  have "bits (ba_put b (d - 1) ?v) = mv (bits b) p"
    using bits_put [OF Cons.prems(1) w] p by (simp add: mv_def)
  then obtain b' where "move_bits (ba_put b (d - 1) ?v) ps = Inr b'" "bitr_inv b'" "ba_width b' = ba_width b"
      "bits b' = foldl mv (mv (bits b) p) ps"
    using Cons.IH [of "ba_put b (d - 1) ?v"] Cons.prems by auto
  with ops p show ?case by (simp add: move_bits_def)
qed

lemma mv_up:
  assumes "k = length xs - m" "n \<le> k" "m \<le> length xs"
  shows "j < length xs \<Longrightarrow> foldl mv xs (map (\<lambda>i. (i, i - n)) (rev [k + 1..<length xs + 1])) ! j =
     (if k \<le> j then xs ! (j - n) else xs ! j)"
  using assms
proof (induction m arbitrary: k j)
  case 0
  then show ?case by simp
next
  case (Suc m)
  let ?ys = "foldl mv xs (map (\<lambda>i. (i, i - n)) (rev [Suc k + 1..<length xs + 1]))"
  have k: "k < length xs" "Suc k = length xs - m" using Suc.prems by auto
  have ys: "?ys ! i = (if Suc k \<le> i then xs ! (i - n) else xs ! i)" if "i < length xs" for i
  proof -
    have "n \<le> Suc k" "m \<le> length xs" using Suc.prems by simp_all
    then show ?thesis by (rule Suc.IH [OF that k(2)])
  qed
  have "[k + 1..<length xs + 1] = (k + 1) # [Suc k + 1..<length xs + 1]" using k(1) by (simp add: upt_conv_Cons)
  then have "foldl mv xs (map (\<lambda>i. (i, i - n)) (rev [k + 1..<length xs + 1])) = ?ys[k := ?ys ! (k - n)]"
    by (simp add: mv_def)
  moreover have "k - n < length xs" using k by simp
  ultimately show ?case using ys Suc.prems(1) k(1) by (auto simp: nth_list_update)
qed

lemma mv_down:
  "m + n \<le> length xs \<Longrightarrow> j < length xs \<Longrightarrow> foldl mv xs (map (\<lambda>i. (i, i + n)) [1..<m + 1]) ! j =
     (if j < m then xs ! (j + n) else xs ! j)"
proof (induction m arbitrary: j)
  case 0
  then show ?case by simp
next
  case (Suc m)
  let ?ys = "foldl mv xs (map (\<lambda>i. (i, i + n)) [1..<m + 1])"
  have ys: "?ys ! i = (if i < m then xs ! (i + n) else xs ! i)" if "i < length xs" for i
    using Suc that by simp
  have "foldl mv xs (map (\<lambda>i. (i, i + n)) [1..<Suc m + 1]) = ?ys[m := ?ys ! (m + n)]"
    by (simp add: mv_def)
  moreover have "m + n < length xs" using Suc.prems by simp
  ultimately show ?case using ys Suc.prems by (auto simp: nth_list_update)
qed

lemma mv_up_all:
  assumes "n \<le> length xs"
  shows "foldl mv xs (map (\<lambda>i. (i, i - n)) (rev [n + 1..<length xs + 1])) = take n xs @ take (length xs - n) xs"
  using assms mv_up [of n xs "length xs - n" n] by (intro nth_equalityI) (auto simp: nth_append)

lemma mv_down_all:
  assumes "n \<le> length xs"
  shows "foldl mv xs (map (\<lambda>i. (i, i + n)) [1..<length xs - n + 1]) = drop n xs @ drop (length xs - n) xs"
  using assms mv_down [of "length xs - n" n xs] by (intro nth_equalityI) (auto simp: nth_append add.commute)

section \<open>Shifts and rotations\<close>

lemma clearn_ok:
  assumes "bitr_inv b" "0 < pos" "pos \<le> ba_width b" "0 < n" "n \<le> pos"
  shows "\<exists>b'. Bitr_clearn b pos n = Inr (0, b') \<and> bitr_inv b' \<and> ba_width b' = ba_width b \<and>
     bits b' = take (pos - n) (bits b) @ replicate n False @ drop pos (bits b)"
  using do_for_bits_ok [OF clear_eq assms] map_range_const [of "pos - n" pos "bits b"] assms
  by (auto simp: Bitr_clearn_def)

lemma lshift_ok:
  assumes "bitr_inv b" "n \<le> ba_width b"
  shows "\<exists>c. Bitr_lshift b n rot = Inr c \<and> bitr_inv c \<and> ba_width c = ba_width b \<and>
     bits c = (if rot then drop (ba_width b - n) (bits b) else replicate n False) @ take (ba_width b - n) (bits b)"
proof (cases "n = 0")
  case True
  then show ?thesis using assms by (simp add: Bitr_lshift_def)
next
  case False
  let ?w = "ba_width b"
  have "\<forall>(d, i)\<in>set (map (\<lambda>i. (i, i - n)) (rev [n + 1..<?w + 1])). 0 < d \<and> d \<le> ?w \<and> 0 < i \<and> i \<le> ?w" by auto
  note move = move_bits_ok [OF assms(1) this]
  have "foldl mv (bits b) (map (\<lambda>i. (i, i - n)) (rev [n + 1..<?w + 1])) = take n (bits b) @ take (?w - n) (bits b)"
    using mv_up_all [of n "bits b"] assms(2) unfolding length_bits by blast
  with move obtain m where m: "move_bits b (map (\<lambda>i. (i, i - n)) (rev [n + 1..<?w + 1])) = Inr m" "bitr_inv m"
      "ba_width m = ?w" "bits m = take n (bits b) @ take (?w - n) (bits b)"
    by (elim exE conjE) (simp only: that)
  show ?thesis
  proof (cases rot)
    case True
    obtain sl where sl: "Bitr_slice b (?w + 1 - n) (?w + 1) = Inr sl" "bitr_inv sl" "ba_width sl = n"
        "bits sl = drop (?w - n) (bits b)"
      using slice_ok [OF assms(1), of "?w + 1 - n" "?w + 1"] False assms(2) by auto
    have "Bitr_slice b (?w + 1 - n) 0 = Bitr_slice b (?w + 1 - n) (?w + 1)" by (simp add: Bitr_slice_def)
    moreover obtain c where "copy_bits m 1 sl 1 n = Inr c" "bitr_inv c" "ba_width c = ?w"
        "bits c = drop (?w - n) (bits b) @ take (?w - n) (bits b)"
      using copy_bits_ok [OF m(2) sl(2), of 1 1 n] m(3,4) sl(3,4) assms(2) by auto
    ultimately show ?thesis
      using True False assms(2) m(1) sl(1,3) by (simp add: Bitr_lshift_def)
  next
    case not_rot: False
    obtain c where "Bitr_clearn m n n = Inr (0, c)" "bitr_inv c" "ba_width c = ?w"
        "bits c = replicate n False @ take (?w - n) (bits b)"
      using clearn_ok [OF m(2), of n n] m(3,4) assms(2) False by auto
    then show ?thesis using not_rot False assms(2) m(1) by (simp add: Bitr_lshift_def)
  qed
qed

lemma rshift_ok:
  assumes "bitr_inv b" "n \<le> ba_width b"
  shows "\<exists>c. Bitr_rshift b n rot = Inr c \<and> bitr_inv c \<and> ba_width c = ba_width b \<and>
     bits c = drop n (bits b) @ (if rot then take n (bits b) else replicate n False)"
proof (cases "n = 0")
  case True
  then show ?thesis using assms by (simp add: Bitr_rshift_def)
next
  case False
  let ?w = "ba_width b"
  have "\<forall>(d, i)\<in>set (map (\<lambda>i. (i, i + n)) [1..<?w - n + 1]). 0 < d \<and> d \<le> ?w \<and> 0 < i \<and> i \<le> ?w"
    using assms(2) by auto
  note move = move_bits_ok [OF assms(1) this]
  have "foldl mv (bits b) (map (\<lambda>i. (i, i + n)) [1..<?w - n + 1]) = drop n (bits b) @ drop (?w - n) (bits b)"
    using mv_down_all [of n "bits b"] assms(2) unfolding length_bits by blast
  with move obtain m where m: "move_bits b (map (\<lambda>i. (i, i + n)) [1..<?w - n + 1]) = Inr m" "bitr_inv m"
      "ba_width m = ?w" "bits m = drop n (bits b) @ drop (?w - n) (bits b)"
    by (elim exE conjE) (simp only: that)
  show ?thesis
  proof (cases rot)
    case True
    obtain sl where sl: "Bitr_slice b 1 (n + 1) = Inr sl" "bitr_inv sl" "ba_width sl = n" "bits sl = take n (bits b)"
      using slice_ok [OF assms(1), of 1 "n + 1"] False assms(2) by auto
    moreover obtain c where "copy_bits m (?w - n + 1) sl 1 n = Inr c" "bitr_inv c" "ba_width c = ?w"
        "bits c = drop n (bits b) @ take n (bits b)"
      using copy_bits_ok [OF m(2) sl(2), of "?w - n + 1" 1 n] m(3,4) sl(3,4) assms(2) by auto
    ultimately show ?thesis
      using True False assms(2) m(1,3) by (simp add: Bitr_rshift_def)
  next
    case not_rot: False
    obtain c where "Bitr_clearn m ?w n = Inr (0, c)" "bitr_inv c" "ba_width c = ?w"
        "bits c = drop n (bits b) @ replicate n False"
      using clearn_ok [OF m(2), of ?w n] m(3,4) assms False by (auto simp: bitr_inv_def)
    then show ?thesis using not_rot False assms(2) m(1,3) by (simp add: Bitr_rshift_def)
  qed
qed

text \<open>C23: Shifting a bit array left or right by up to its width moves every bit that many positions, fills the gap with zeros or, when rotating, with the bits that fell off the other end, and keeps the width.\<close>

theorem Bitr_shift_correct:
  assumes "bitr_inv b" "n \<le> ba_width b"
  shows "\<exists>l r lr rr. Bitr_lshift b n False = Inr l \<and> Bitr_rshift b n False = Inr r \<and>
     Bitr_lshift b n True = Inr lr \<and> Bitr_rshift b n True = Inr rr \<and>
     bitr_inv l \<and> bitr_inv r \<and> bitr_inv lr \<and> bitr_inv rr \<and>
     bits l = replicate n False @ take (ba_width b - n) (bits b) \<and>
     bits r = drop n (bits b) @ replicate n False \<and>
     bits lr = drop (ba_width b - n) (bits b) @ take (ba_width b - n) (bits b) \<and>
     bits rr = drop n (bits b) @ take n (bits b)"
  using lshift_ok [OF assms, of False] lshift_ok [OF assms, of True] rshift_ok [OF assms, of False] rshift_ok [OF assms, of True]
  by auto

lemma inv_width: "bitr_inv b \<Longrightarrow> 1 \<le> ba_width b"
  by (auto simp: bitr_inv_def)

lemma push_pop_ok:
  assumes "bitr_inv b"
  shows "\<exists>c. Bitr_rpush b x = Inr c \<and> bitr_inv c \<and> bits c = x # butlast (bits b)"
    and "\<exists>c. Bitr_lpush b x = Inr c \<and> bitr_inv c \<and> bits c = tl (bits b) @ [x]"
    and "\<exists>c. Bitr_rpop b = Inr (of_bool (hd (bits b)), c) \<and> bitr_inv c \<and> bits c = tl (bits b) @ [False]"
    and "\<exists>c. Bitr_lpop b = Inr (of_bool (last (bits b)), c) \<and> bitr_inv c \<and> bits c = False # butlast (bits b)"
proof -
  note w = inv_width [OF assms]
  have ne: "bits b \<noteq> []" using w by (metis length_bits list.size(3) not_one_le_zero)
  obtain l where l: "Bitr_lshift b 1 False = Inr l" "bitr_inv l" "ba_width l = ba_width b" "bits l = False # butlast (bits b)"
    using lshift_ok [OF assms w, of False] by (auto simp: butlast_conv_take)
  obtain r where r: "Bitr_rshift b 1 False = Inr r" "bitr_inv r" "ba_width r = ba_width b" "bits r = tl (bits b) @ [False]"
    using rshift_ok [OF assms w, of False] by (auto simp: drop_Suc)
  have "Bitr_setval l 1 (of_bool x) = Inr (0, ba_put l 0 x)" "bits (ba_put l 0 x) = x # butlast (bits b)"
    using setval_ok [OF l(2), of 1 x] l(3,4) w bits_put [OF l(2), of 0 x] by simp_all
  then show "\<exists>c. Bitr_rpush b x = Inr c \<and> bitr_inv c \<and> bits c = x # butlast (bits b)"
    using l(1,2) by (simp add: Bitr_rpush_def)
  have "(tl (bits b) @ [False])[ba_width b - 1 := x] = tl (bits b) @ [x]"
    by (simp add: list_update_append)
  then have "Bitr_setval r (Bitr_width r) (of_bool x) = Inr (0, ba_put r (ba_width b - 1) x)"
      "bits (ba_put r (ba_width b - 1) x) = tl (bits b) @ [x]"
    using setval_ok [OF r(2), of "ba_width b" x] r(3,4) w bits_put [OF r(2), of "ba_width b - 1" x]
    by (simp_all add: Bitr_width_def)
  then show "\<exists>c. Bitr_lpush b x = Inr c \<and> bitr_inv c \<and> bits c = tl (bits b) @ [x]"
    using r(1,2) by (simp add: Bitr_lpush_def)
  have "Bitr_get b 1 = Inr (of_bool (hd (bits b)))" "Bitr_get b (Bitr_width b) = Inr (of_bool (last (bits b)))"
    using bitr_get_ok [OF assms, of 1] bitr_get_ok [OF assms, of "ba_width b"] w ne
    by (simp_all add: hd_conv_nth last_conv_nth Bitr_width_def)
  then show "\<exists>c. Bitr_rpop b = Inr (of_bool (hd (bits b)), c) \<and> bitr_inv c \<and> bits c = tl (bits b) @ [False]"
    and "\<exists>c. Bitr_lpop b = Inr (of_bool (last (bits b)), c) \<and> bitr_inv c \<and> bits c = False # butlast (bits b)"
    using l(1,2,4) r(1,2,4) by (simp_all add: Bitr_rpop_def Bitr_lpop_def)
qed

section \<open>Reversal\<close>

declare reverse_loop.simps [simp del]

lemma reverse_loop_ok:
  "bitr_inv b \<Longrightarrow> 0 < i \<Longrightarrow> i + j = ba_width b + 1 \<Longrightarrow>
     \<exists>c. reverse_loop b i j = Inr c \<and> bitr_inv c \<and> ba_width c = ba_width b \<and>
       (\<forall>p<ba_width b. bits c ! p = (if i \<le> p + 1 \<and> p < j then bits b ! (ba_width b - 1 - p) else bits b ! p))"
proof (induction b i j rule: reverse_loop.induct)
  case (1 b i j)
  show ?case
  proof (cases "i < j")
    case False
    have "(if i \<le> p + 1 \<and> p < j then bits b ! (ba_width b - 1 - p) else bits b ! p) = bits b ! p"
      if "p < ba_width b" for p
    proof (cases "i \<le> p + 1 \<and> p < j")
      case True
      then have "ba_width b - 1 - p = p" using False "1.prems"(3) by linarith
      then show ?thesis by simp
    next
      case False
      then show ?thesis by (rule if_not_P)
    qed
    with False "1.prems" show ?thesis by (subst reverse_loop.simps) simp
  next
    case True
    let ?w = "ba_width b"
    let ?x = "bits b ! (i - 1)" and ?y = "bits b ! (j - 1)"
    have r: "0 < i" "i \<le> ?w" "0 < j" "j \<le> ?w" "i - 1 < ?w" "j - 1 < ?w" using True "1.prems" by auto
    let ?b1 = "ba_put b (i - 1) ?y"
    let ?b2 = "ba_put ?b1 (j - 1) ?x"
    have ops: "Bitr_get b i = Inr (of_bool ?x)" "Bitr_get b j = Inr (of_bool ?y)"
        "Bitr_setval b i (of_bool ?y) = Inr (0, ?b1)" "Bitr_setval ?b1 j (of_bool ?x) = Inr (0, ?b2)"
      using bitr_get_ok [OF "1.prems"(1)] setval_ok [OF "1.prems"(1)] setval_ok [of ?b1 j ?x] r "1.prems"(1) by simp_all
    have run: "reverse_loop b i j = reverse_loop ?b2 (i + 1) (j - 1)"
      using True by (subst reverse_loop.simps) (simp only: ops if_True bindE_simps prod.case)
    have b2: "bits ?b2 = (bits b)[i - 1 := ?y, j - 1 := ?x]" 
      using bits_put [of ?b1 "j - 1" ?x] bits_put [of b "i - 1" ?y] "1.prems"(1) r by simp
    have "\<exists>c. reverse_loop ?b2 (i + 1) (j - 1) = Inr c \<and> bitr_inv c \<and> ba_width c = ba_width ?b2 \<and>
       (\<forall>p<ba_width ?b2. bits c ! p = (if i + 1 \<le> p + 1 \<and> p < j - 1 then bits ?b2 ! (ba_width ?b2 - 1 - p) else bits ?b2 ! p))"
      using "1.prems" True by (intro "1.IH" [OF True ops(1,2,3) refl ops(4) refl]) simp_all
    then obtain c where c: "reverse_loop ?b2 (i + 1) (j - 1) = Inr c" "bitr_inv c" "ba_width c = ?w"
       "\<forall>p<?w. bits c ! p = (if i < p + 1 \<and> p < j - 1 then bits ?b2 ! (?w - 1 - p) else bits ?b2 ! p)"
      by auto
    have "bits c ! p = (if i \<le> p + 1 \<and> p < j then bits b ! (?w - 1 - p) else bits b ! p)" if p: "p < ?w" for p
    proof -
      have ij: "?w - 1 - (i - 1) = j - 1" "?w - 1 - (j - 1) = i - 1" using r "1.prems"(3) by linarith+
      consider "p = i - 1" | "p = j - 1" "p \<noteq> i - 1" | "p \<noteq> i - 1" "p \<noteq> j - 1" by blast
      then show ?thesis
      proof cases
        case 1
        then show ?thesis using c(4) p b2 ij r True by (simp add: nth_list_update)
      next
        case 2
        then show ?thesis using c(4) p b2 ij r True by (simp add: nth_list_update)
      next
        case 3
        then have "?w - 1 - p \<noteq> i - 1" "?w - 1 - p \<noteq> j - 1" using ij p r by linarith+
        moreover have "i < p + 1 \<and> p < j - 1 \<longleftrightarrow> i \<le> p + 1 \<and> p < j" using 3 r by linarith
        ultimately show ?thesis using c(4) p b2 3 r by (simp add: nth_list_update)
      qed
    qed
    with run c(1-3) show ?thesis by auto
  qed
qed

lemma reverse_ok:
  assumes "bitr_inv b"
  shows "\<exists>c. Bitr_reverse b = Inr c \<and> bitr_inv c \<and> bits c = rev (bits b)"
proof -
  obtain c where c: "reverse_loop b 1 (ba_width b) = Inr c" "bitr_inv c" "ba_width c = ba_width b"
     "\<forall>p<ba_width b. bits c ! p = bits b ! (ba_width b - 1 - p)"
    using reverse_loop_ok [OF assms, of 1 "ba_width b"] by auto
  have "bits c = rev (bits b)" using c(3,4) by (intro nth_equalityI) (auto simp: rev_nth)
  with c show ?thesis by (simp add: Bitr_reverse_def)
qed

section \<open>Concatenation\<close>

lemma ismult2_of_nat: "ismult2 (of_nat n) \<longleftrightarrow> even n"
  by (simp add: ismult2_def and_one_eq mod_2_eq_odd)

text \<open>Whole bytes copied to a byte boundary are the bits of the source at eight times the offset.\<close>

lemma bytes_copy_bits:
  assumes "bitr_inv dst" "bitr_inv src" "off + ba_size src \<le> ba_size dst"
  obtains d where "bytes_copy dst off (ba_bytes src) (ba_size src) = Inr d" "bitr_inv d" "ba_width d = ba_width dst"
    "\<forall>i<ba_width dst. bit_at d i =
       (if 8 * off \<le> i \<and> i < 8 * (off + ba_size src) then bit (ba_bytes src ! ((i - 8 * off) div 8)) (i mod 8) else bit_at dst i)"
proof -
  have len: "length (ba_bytes src) = ba_size src" "length (ba_bytes dst) = ba_size dst"
    using assms by (auto simp: bitr_inv_def)
  let ?d = "dst\<lparr>ba_bytes := take off (ba_bytes dst) @ ba_bytes src @ drop (off + ba_size src) (ba_bytes dst)\<rparr>"
  have "bytes_copy dst off (ba_bytes src) (ba_size src) = Inr ?d"
    using len assms(3) by (simp add: bytes_copy_def)
  moreover have "bitr_inv ?d" using assms(1,3) len by (simp add: bitr_inv_def)
  moreover have "bit_at ?d i =
       (if 8 * off \<le> i \<and> i < 8 * (off + ba_size src) then bit (ba_bytes src ! ((i - 8 * off) div 8)) (i mod 8) else bit_at dst i)"
    if "i < ba_width dst" for i
  proof -
    have "i div 8 < ba_size dst" using byte_in_buffer [OF assms(1) that] len by simp
    moreover have "8 * off \<le> i \<longleftrightarrow> off \<le> i div 8" "i < 8 * (off + ba_size src) \<longleftrightarrow> i div 8 < off + ba_size src"
      by auto
    moreover have "(i - 8 * off) div 8 = i div 8 - off"
    proof (cases "8 * off \<le> i")
      case True
      then obtain r where "i = 8 * off + r" using le_Suc_ex by blast
      then show ?thesis by simp
    next
      case False
      then have "i div 8 < off" by auto
      with False show ?thesis by simp
    qed
    ultimately show ?thesis using len assms(3) by (auto simp: bit_at_def nth_append min_def)
  qed
  ultimately show ?thesis using that [of ?d] by simp
qed

lemma allocate_inv:
  assumes "0 < n" "n < 2 ^ 32"
  obtains new where "allocate_bitarray n = Inr (Some new)" "bitr_inv new" "ba_width new = n" "ba_size new = (n + 7) div 8"
  using allocate_ok [OF assms] assms by (auto simp: bitr_inv_def)

lemma fits_maxcap: "bitr_inv a \<Longrightarrow> bitr_inv b \<Longrightarrow> \<not> Bitr_maxcap - ba_size a < ba_size b"
  by (auto simp: bitr_inv_def Bitr_maxcap_def MAX_BITARRAY_WIDTH_def SZ_def)

definition fast_path :: "nat \<Rightarrow> bool" where
  "fast_path w \<longleftrightarrow> 8 \<le> w \<and> even w"

lemma join_cases:
  assumes "bitr_inv a" "bitr_inv b" "ba_width a + ba_width b < 2 ^ 32"
  obtains new where "allocate_bitarray (ba_width a + ba_width b) = Inr (Some new)" "bitr_inv new"
    "ba_width new = ba_width a + ba_width b" "ba_size new = (ba_width a + ba_width b + 7) div 8"
    "Bitr_join a b = (if fast_path (ba_width a) \<and> fast_path (ba_width b)
        then bindE (bytes_copy new 0 (ba_bytes b) (ba_size b)) (\<lambda>new.
             bindE (bytes_copy new (ba_size b) (ba_bytes a) (ba_size a)) (\<lambda>new. Inr (Some new)))
        else bindE (copy_bits new 1 b 1 (ba_width b)) (\<lambda>new.
             bindE (copy_bits new (ba_width b + 1) a 1 (ba_width a)) (\<lambda>new. Inr (Some new))))"
proof -
  have pos: "0 < ba_width a + ba_width b" using assms(1) by (simp add: bitr_inv_def)
  obtain new where n: "allocate_bitarray (ba_width a + ba_width b) = Inr (Some new)" "bitr_inv new"
    "ba_width new = ba_width a + ba_width b" "ba_size new = (ba_width a + ba_width b + 7) div 8"
    by (rule allocate_inv [OF pos assms(3)])
  have "(ba_width a + ba_width b) mod SZ = ba_width a + ba_width b" using assms(3) by (simp add: SZ_def)
  note width = this
  have fast: "((BITS_IN_BYTE \<le> ba_width a \<and> ismult2 (of_nat (ba_width a))) \<and>
      BITS_IN_BYTE \<le> ba_width b \<and> ismult2 (of_nat (ba_width b))) \<longleftrightarrow> fast_path (ba_width a) \<and> fast_path (ba_width b)"
    by (simp add: ismult2_of_nat fast_path_def BITS_IN_BYTE_def)
  have "Bitr_join a b = (if fast_path (ba_width a) \<and> fast_path (ba_width b)
        then bindE (bytes_copy new 0 (ba_bytes b) (ba_size b)) (\<lambda>new.
             bindE (bytes_copy new (ba_size b) (ba_bytes a) (ba_size a)) (\<lambda>new. Inr (Some new)))
        else bindE (copy_bits new 1 b 1 (ba_width b)) (\<lambda>new.
             bindE (copy_bits new (ba_width b + 1) a 1 (ba_width a)) (\<lambda>new. Inr (Some new))))"
    unfolding Bitr_join_def if_not_P [OF fits_maxcap [OF assms(1,2)]] Bitr_width_def width n(1) bindE_simps
      not_null_def option.case Let_def fast ..
  with n show ?thesis by (rule that)
qed

text \<open>Joining two bit arrays appends the first above the second, whenever the low array is a whole number of bytes or one of the two widths rules out the byte-wise fast path.\<close>

theorem Bitr_join_correct:
  assumes "bitr_inv a" "bitr_inv b" "ba_width a + ba_width b < 2 ^ 32"
    and "8 dvd ba_width b \<or> \<not> (fast_path (ba_width a) \<and> fast_path (ba_width b))"
  shows "\<exists>c. Bitr_join a b = Inr (Some c) \<and> bitr_inv c \<and> bits c = bits b @ bits a"
proof -
  let ?wa = "ba_width a" and ?wb = "ba_width b"
  obtain new where "allocate_bitarray (?wa + ?wb) = Inr (Some new)"
    and n: "bitr_inv new" "ba_width new = ?wa + ?wb" "ba_size new = (?wa + ?wb + 7) div 8"
    "Bitr_join a b = (if fast_path ?wa \<and> fast_path ?wb
        then bindE (bytes_copy new 0 (ba_bytes b) (ba_size b)) (\<lambda>new.
             bindE (bytes_copy new (ba_size b) (ba_bytes a) (ba_size a)) (\<lambda>new. Inr (Some new)))
        else bindE (copy_bits new 1 b 1 ?wb) (\<lambda>new.
             bindE (copy_bits new (?wb + 1) a 1 ?wa) (\<lambda>new. Inr (Some new))))"
    by (rule join_cases [OF assms(1-3)])
  show ?thesis
  proof (cases "fast_path ?wa \<and> fast_path ?wb")
    case True
    then have "8 dvd ?wb" using assms(4) by blast
    then obtain k where k: "?wb = 8 * k" by (elim dvdE)
    have sz: "ba_size b = k" "ba_size a = (?wa + 7) div 8" "ba_size new = k + ba_size a"
      using assms(1,2) n(3) k by (auto simp: bitr_inv_def)
    have fit: "0 + ba_size b \<le> ba_size new" using sz by simp
    obtain d where d: "bytes_copy new 0 (ba_bytes b) (ba_size b) = Inr d" "bitr_inv d" "ba_width d = ba_width new"
        "\<forall>i<ba_width new. bit_at d i = (if 8 * 0 \<le> i \<and> i < 8 * (0 + ba_size b)
          then bit (ba_bytes b ! ((i - 8 * 0) div 8)) (i mod 8) else bit_at new i)"
      by (rule bytes_copy_bits [OF n(1) assms(2) fit])
    have "ba_size d = ba_size new" using d(2,3) n(1,2) by (simp add: bitr_inv_def)
    then have fit2: "ba_size b + ba_size a \<le> ba_size d" using sz by simp
    obtain c where c: "bytes_copy d (ba_size b) (ba_bytes a) (ba_size a) = Inr c" "bitr_inv c" "ba_width c = ba_width d"
        "\<forall>i<ba_width d. bit_at c i = (if 8 * ba_size b \<le> i \<and> i < 8 * (ba_size b + ba_size a)
          then bit (ba_bytes a ! ((i - 8 * ba_size b) div 8)) (i mod 8) else bit_at d i)"
      by (rule bytes_copy_bits [OF d(2) assms(1) fit2])
    have wc: "ba_width c = ?wa + ?wb" using c(3) d(3) n(2) by simp
    have "bits c = bits b @ bits a"
    proof (rule bits_eqI)
      fix i assume "i < ba_width c"
      then have i: "i < ?wa + ?wb" "i < ba_width d" "i < ba_width new" using wc c(3) d(3) by simp_all
      show "bit_at c i = (bits b @ bits a) ! i"
      proof (cases "i < ?wb")
        case True
        then have "bit_at c i = bit_at d i" "bit_at d i = bit_at b i"
          using c(4) [rule_format, OF i(2)] d(4) [rule_format, OF i(3)] k sz(1) by (simp_all add: bit_at_def)
        then show ?thesis using True by (simp add: nth_append)
      next
        case False
        then obtain r where r: "i = 8 * k + r" "r < ?wa" using i(1) k by (metis add_less_cancel_left le_Suc_ex linorder_not_less add.commute)
        then have "i < 8 * (ba_size b + ba_size a)" using sz by auto
        then have "bit_at c i = bit (ba_bytes a ! (r div 8)) (r mod 8)"
          using c(4) [rule_format, OF i(2)] r sz(1) by simp
        then show ?thesis using False r k by (simp add: nth_append bit_at_def)
      qed
    qed (simp add: wc)
    then show ?thesis using True n(4) d(1) c(1,2) by simp
  next
    case False
    obtain d where d: "copy_bits new 1 b 1 ?wb = Inr d" "bitr_inv d" "ba_width d = ?wa + ?wb"
        "bits d = bits b @ drop ?wb (bits new)"
      using copy_bits_ok [OF n(1) assms(2), of 1 1 ?wb] n(2) by auto
    have emp: "drop (?wa + ?wb) (bits new) = []" using n(2) by simp
    obtain c where "copy_bits d (?wb + 1) a 1 ?wa = Inr c" "bitr_inv c" "ba_width c = ?wa + ?wb"
        "bits c = bits b @ bits a"
      using copy_bits_ok [OF d(2) assms(1), of "?wb + 1" 1 ?wa] d(3,4) emp by auto
    note c = this
    have "Bitr_join a b = Inr (Some c)"
      unfolding n(4) if_not_P [OF False] d(1) bindE_simps c(1) by (rule refl)
    then show ?thesis using c by blast
  qed
qed

text \<open>Joining two bit arrays of even widths above eight that are not whole bytes can write past the end of the new array: the fast path copies both buffers behind each other, and two partly filled last bytes need more room than the bits themselves.\<close>

theorem Bitr_join_overflows:
  assumes "bitr_inv a" "bitr_inv b" "ba_width a + ba_width b < 2 ^ 32"
    and "fast_path (ba_width a)" "fast_path (ba_width b)"
    and "(ba_width a + ba_width b + 7) div 8 < ba_size a + ba_size b"
  shows "Bitr_join a b = Inl WildDeref"
proof -
  obtain new where "allocate_bitarray (ba_width a + ba_width b) = Inr (Some new)"
    and n: "bitr_inv new" "ba_width new = ba_width a + ba_width b" "ba_size new = (ba_width a + ba_width b + 7) div 8"
    and join: "Bitr_join a b = (if fast_path (ba_width a) \<and> fast_path (ba_width b)
        then bindE (bytes_copy new 0 (ba_bytes b) (ba_size b)) (\<lambda>new.
             bindE (bytes_copy new (ba_size b) (ba_bytes a) (ba_size a)) (\<lambda>new. Inr (Some new)))
        else bindE (copy_bits new 1 b 1 (ba_width b)) (\<lambda>new.
             bindE (copy_bits new (ba_width b + 1) a 1 (ba_width a)) (\<lambda>new. Inr (Some new))))"
    by (rule join_cases [OF assms(1-3)])
  have n4: "Bitr_join a b = bindE (bytes_copy new 0 (ba_bytes b) (ba_size b)) (\<lambda>new.
             bindE (bytes_copy new (ba_size b) (ba_bytes a) (ba_size a)) (\<lambda>new. Inr (Some new)))"
    using join assms(4,5) by simp
  have len: "length (ba_bytes a) = ba_size a" "length (ba_bytes b) = ba_size b" "length (ba_bytes new) = ba_size new"
    using assms(1,2) n(1) by (auto simp: bitr_inv_def)
  show ?thesis
  proof (cases "ba_size b \<le> ba_size new")
    case True
    then show ?thesis using n(3) n4 len assms(6) by (simp add: bytes_copy_def)
  next
    case False
    then show ?thesis using n4 len by (simp add: bytes_copy_def)
  qed
qed

section \<open>Comparison\<close>

lemma bytes_equal_ok:
  "set ps \<subseteq> {..<length (ba_bytes a)} \<Longrightarrow> length (ba_bytes b) = length (ba_bytes a) \<Longrightarrow>
     bytes_equal a b ps = Inr (\<forall>i\<in>set ps. ba_bytes a ! i = ba_bytes b ! i)"
  by (induction ps) (auto simp: byte_get_def)

lemma byte_eq_iff: "(x :: 8 word) = y \<longleftrightarrow> (\<forall>j<8. bit x j = bit y j)"
  by (auto intro: bit_word_eqI)

lemma bits_eq_iff: "ba_width a = ba_width b \<Longrightarrow> bits a = bits b \<longleftrightarrow> (\<forall>i<ba_width a. bit_at a i = bit_at b i)"
  by (auto simp: list_eq_iff_nth_eq)

lemma all_less_add: "(\<forall>i<m + r. P i) \<longleftrightarrow> (\<forall>i<m. P i) \<and> (\<forall>j<r. P (m + j))" for m r :: nat
proof -
  have "P i" if a: "\<forall>i<m. P i" and b: "\<forall>j<r. P (m + j)" and i: "i < m + r" for i
  proof (cases "i < m")
    case False
    then have "i - m < r" "m + (i - m) = i" using i by auto
    then show ?thesis using b by metis
  qed (use a in blast)
  then show ?thesis by auto
qed

text \<open>Comparing two bit arrays decides whether their bits are equal, except that for widths of whole bytes with all bits equal it reads one byte past the end of both buffers.\<close>

theorem Bitr_equal_correct:
  assumes "bitr_inv a" "bitr_inv b"
  shows "Bitr_equal a b =
     (if bits a = bits b \<and> ba_width a mod 8 = 0 then Inl WildDeref else Inr (bits a = bits b))"
proof (cases "ba_width a = ba_width b")
  case False
  then have "bits a \<noteq> bits b" by (metis length_bits)
  with False show ?thesis by (simp add: Bitr_equal_def)
next
  case True
  let ?w = "ba_width a"
  define k where "k = ?w div 8"
  define r where "r = ?w mod 8"
  have w: "?w = 8 * k + r" "r < 8" by (simp_all add: k_def r_def)
  have len: "length (ba_bytes a) = (?w + 7) div 8" "length (ba_bytes b) = (?w + 7) div 8"
    using assms True by (auto simp: bitr_inv_def)
  have size: "ba_size a = ba_size b" using assms True by (simp add: bitr_inv_def)
  have full: "(\<forall>i<k. ba_bytes a ! i = ba_bytes b ! i) \<longleftrightarrow> (\<forall>i<8 * k. bit_at a i = bit_at b i)"
  proof
    assume h: "\<forall>i<k. ba_bytes a ! i = ba_bytes b ! i"
    then show "\<forall>i<8 * k. bit_at a i = bit_at b i" by (auto simp: bit_at_def less_mult_imp_div_less mult.commute)
  next
    assume h: "\<forall>i<8 * k. bit_at a i = bit_at b i"
    show "\<forall>i<k. ba_bytes a ! i = ba_bytes b ! i"
    proof (intro allI impI)
      fix i assume i: "i < k"
      have "bit (ba_bytes a ! i) j = bit (ba_bytes b ! i) j" if "j < 8" for j
        using h [rule_format, of "8 * i + j"] i that by (simp add: bit_at_def)
      then show "ba_bytes a ! i = ba_bytes b ! i" unfolding byte_eq_iff by blast
    qed
  qed
  have loop: "bytes_equal a b [0..<k] = Inr (\<forall>i<8 * k. bit_at a i = bit_at b i)"
    using bytes_equal_ok [of "[0..<k]" a b] len full w by (auto simp: atLeast0LessThan)
  have eq: "bits a = bits b \<longleftrightarrow> (\<forall>i<8 * k. bit_at a i = bit_at b i) \<and> (\<forall>j<r. bit_at a (8 * k + j) = bit_at b (8 * k + j))"
    unfolding bits_eq_iff [OF True] w(1) by (rule all_less_add)
  have run: "Bitr_equal a b = (if \<not> (\<forall>i<8 * k. bit_at a i = bit_at b i) then Inr False else
      bindE (byte_get a k) (\<lambda>x. bindE (byte_get b k) (\<lambda>y.
        if r > 0 then Inr (\<forall>j\<in>set [1..<r + 1]. get_bit x j = get_bit y j) else Inr (x = y))))"
    using size loop by (simp add: Bitr_equal_def bits2bytes_def BITS_IN_BYTE_def Let_def True [symmetric] k_def [symmetric] r_def [symmetric])
  show ?thesis
  proof (cases "r = 0")
    case True
    then have "\<not> k < length (ba_bytes a)" using len(1) w by simp
    then show ?thesis using run eq True by (auto simp: byte_get_def r_def)
  next
    case False
    then have k: "k < length (ba_bytes a)" "k < length (ba_bytes b)" using len w by auto
    have pos: "(\<forall>j\<in>set [1..<r + 1]. get_bit x j = get_bit y j) \<longleftrightarrow> (\<forall>j<r. bit x j = bit y j)" for x y :: "8 word"
    proof -
      have "(\<forall>j\<in>set [1..<r + 1]. get_bit x j = get_bit y j) \<longleftrightarrow> (\<forall>j\<in>Suc ` {..<r}. get_bit x j = get_bit y j)"
        by (simp only: set_upt lessThan_atLeast0 image_Suc_atLeastLessThan One_nat_def add_Suc_right add_0_right)
      then show ?thesis by (simp only:) (auto simp: get_bit_eq)
    qed
    have at: "bit_at c (8 * k + j) = bit (ba_bytes c ! k) j" if "j < r" for c j
      using that w(2) by (simp add: bit_at_def)
    have "Bitr_equal a b = Inr (bits a = bits b)"
      unfolding run eq byte_get_def using k False pos at by simp
    then show ?thesis using False by (simp add: r_def)
  qed
qed

section \<open>Strings\<close>

lemma put_below:
  "str_put (replicate (Suc n) c @ t) (int n) [d] = Inr (replicate n c @ d # t)"
  by (simp add: str_put_def replicate_app_Cons_same [symmetric] del: replicate_Suc)

lemma tostring_loop_ok:
  assumes "bitr_inv b" "k + n = ba_width b"
  shows "tostring_loop b sep g (replicate n c @ rev (map bit_char (take k (bits b))) @ [c], int n - 1, 0) [k + 1..<k + n + 1] =
     Inr (rev (map bit_char (bits b)) @ [c], -1, 0)"
  using assms
proof (induction n arbitrary: k)
  case 0
  then show ?case by simp
next
  case (Suc n)
  have k: "k < ba_width b" using Suc.prems(2) by simp
  have upt: "[k + 1..<k + Suc n + 1] = (k + 1) # [Suc k + 1..<Suc k + n + 1]"
    by (simp add: upt_rec)
  have get: "Bitr_get b (Suc k) = Inr (of_bool (bit_at b k))" using bitr_get_ok [OF Suc.prems(1), of "k + 1"] k by simp
  have char: "(if x then CHR ''1'' else CHR ''0'') = bit_char x" for x
    by (simp add: bit_char_def)
  have "rev (map bit_char (take (Suc k) (bits b))) = bit_char (bits b ! k) # rev (map bit_char (take k (bits b)))"
    using k by (simp add: take_Suc_conv_app_nth)
  then show ?case using Suc.IH [of "Suc k"] Suc.prems k put_below [of n c]
    unfolding upt by (simp add: get char del: upt_Suc)
qed

lemma tostring_ok:
  assumes "bitr_inv b"
  shows "Bitr_tostring b 0 None = Inr (rev (map bit_char (bits b)))"
  using tostring_loop_ok [OF assms, of 0 "ba_width b" "[]" 0 "CHR 0x00"]
  by (simp add: Bitr_tostring_def replicate_append_same [symmetric] del: upt_Suc)

lemma fromstring_loop_ok:
  assumes "bitr_inv b" "set s \<subseteq> {CHR ''0'', CHR ''1''}" "n + k = length s" "length s \<le> ba_width b"
    and "take k (bits b) = map (\<lambda>c. c = CHR ''1'') (take k (rev s))"
  shows "\<exists>b'. fromstring_loop s (length s) n b (k + 1) = Inr b' \<and> bitr_inv b' \<and> ba_width b' = ba_width b \<and>
     bits b' = map (\<lambda>c. c = CHR ''1'') (rev s) @ drop (length s) (bits b)"
  using assms
proof (induction n arbitrary: b k)
  case 0
  have "bits b = take k (bits b) @ drop (length s) (bits b)" "take k (rev s) = rev s" using 0(3) by simp_all
  then have "bits b = map (\<lambda>c. c = CHR ''1'') (rev s) @ drop (length s) (bits b)" unfolding 0(5) by simp
  then show ?case using 0(1) by simp
next
  case (Suc n)
  let ?x = "s ! n = CHR ''1''"
  have n: "n < length s" "k < ba_width b" "rev s ! k = s ! n"
    using Suc.prems(3,4) by (simp_all add: rev_nth flip: Suc.prems(3))
  then have digit: "s ! n = CHR ''1'' \<or> s ! n = CHR ''0''" using Suc.prems(2) nth_mem [OF n(1)] by blast
  have put: "Bitr_setval b (k + 1) (if ?x then 1 else 0) = Inr (0, ba_put b k ?x)"
    using setval_ok [OF Suc.prems(1), of "k + 1" ?x] n(2) by (cases ?x) simp_all
  have bits: "bits (ba_put b k ?x) = (bits b)[k := ?x]" by (rule bits_put [OF Suc.prems(1) n(2)])
  have take: "take (Suc k) (bits (ba_put b k ?x)) = map (\<lambda>c. c = CHR ''1'') (take (Suc k) (rev s))"
    unfolding bits using Suc.prems(3,5) n by (simp add: take_Suc_conv_app_nth)
  have drop: "drop (length s) (bits (ba_put b k ?x)) = drop (length s) (bits b)"
    unfolding bits using Suc.prems(3) by (simp add: drop_update_cancel)
  have inv: "bitr_inv (ba_put b k ?x)" "n + Suc k = length s" "length s \<le> ba_width (ba_put b k ?x)"
    using Suc.prems(1,3,4) by simp_all
  note ih = Suc.IH [OF inv(1) Suc.prems(2) inv(2,3) take, unfolded drop ba_put_simps(1)]
  have "fromstring_loop s (length s) (Suc n) b (k + 1) = fromstring_loop s (length s) n (ba_put b k ?x) (Suc k + 1)"
    using digit put Suc.prems(3) by (simp add: Let_def)
  with ih show ?case by simp
qed

lemma fromstring_ok:
  assumes "s \<noteq> []" "set s \<subseteq> {CHR ''0'', CHR ''1''}" "length s < 2 ^ 32"
  shows "\<exists>b. Bitr_fromstring None s sep = Inr (Some b) \<and> bitr_inv b \<and> ba_width b = length s \<and>
     bits b = map (\<lambda>c. c = CHR ''1'') (rev s)"
proof -
  have len: "0 < length s" using assms(1) by simp
  obtain new where new: "allocate_bitarray (length s) = Inr (Some new)" "bitr_inv new" "ba_width new = length s"
    by (rule that [OF allocate_ok [OF len assms(3)]]) (use assms in \<open>simp_all add: bitr_inv_def\<close>)
  obtain b where "fromstring_loop s (length s) (length s) new 1 = Inr b" "bitr_inv b" "ba_width b = length s"
      "bits b = map (\<lambda>c. c = CHR ''1'') (rev s) @ drop (length s) (bits new)"
    using fromstring_loop_ok [OF new(2) assms(2), of "length s" 0] new(3) by auto
  then show ?thesis using new by (simp add: Bitr_fromstring_def is_valid_bitstring_plain [OF assms(1,2)])
qed

text \<open>C37: Writing a bit array as a string, with no separators, gives its bits as digits, the highest first, and reading that string back gives an array of the same width with the same bits.\<close>

theorem Bitr_string_roundtrip:
  assumes "bitr_inv b"
  shows "\<exists>s b'. Bitr_tostring b 0 None = Inr s \<and> s = rev (map bit_char (bits b)) \<and>
     Bitr_fromstring None s None = Inr (Some b') \<and> bitr_inv b' \<and> bits b' = bits b"
proof -
  let ?s = "rev (map bit_char (bits b))"
  have "?s \<noteq> []" "set ?s \<subseteq> {CHR ''0'', CHR ''1''}" "length ?s < 2 ^ 32"
    using assms by (auto simp: bitr_inv_def bit_char_def bits_def)
  from fromstring_ok [OF this, of None] tostring_ok [OF assms] show ?thesis
    by (auto simp: rev_map bit_char_def comp_def)
qed

section \<open>Unsigned integers\<close>

lemma bit_packed_le:
  fixes num :: "'a::len word"
  assumes "8 dvd LENGTH('a)" "LENGTH('a) < SZ" "i < LENGTH('a)"
  shows "bit (pack_buff_le num ! (i div 8)) (i mod 8) \<longleftrightarrow> bit num i"
proof -
  have k: "i div 8 < LENGTH('a) div 8" "i div 8 * 8 < SZ" using assms by (auto elim!: dvdE)
  then have b: "bytes2bits (i div 8) = i div 8 * 8" by (simp add: bytes2bits_def BITS_IN_BYTE_def)
  have "bit (ucast (drop_bit (i div 8 * 8) num AND mask 8) :: 8 word) (i mod 8) \<longleftrightarrow> bit num (i div 8 * 8 + i mod 8)"
    using assms(3) by (auto simp: bit_simps)
  then show ?thesis unfolding nth_pack_le [OF k(1)] b byte_masks(1) by simp
qed

lemma fromu_ok:
  fixes num :: "'a::len word"
  assumes "8 dvd LENGTH('a)" "LENGTH('a) < 2 ^ 32"
  shows "\<exists>b. Bitr_fromu None num = Inr (Some b) \<and> bitr_inv b \<and> bits b = map (bit num) [0..<LENGTH('a)]"
proof -
  have sz: "LENGTH('a) < SZ" using assms(2) by (simp add: SZ_num)
  have n: "bytes2bits (LENGTH('a) div 8) = LENGTH('a)" using assms(1) sz by (simp add: bytes2bits_def BITS_IN_BYTE_def)
  have "LENGTH('a) div 8 \<le> Bitr_maxcap" using assms(2) by (simp add: Bitr_maxcap_def MAX_BITARRAY_WIDTH_def SZ_def)
  moreover have up: "(LENGTH('a) + 7) div 8 = LENGTH('a) div 8" using assms(1) by (auto elim!: dvdE)
  moreover note allocate_ok [OF len_gt_0 assms(2)]
  ultimately have run: "Bitr_fromu None num =
      Inr (Some \<lparr>ba_size = LENGTH('a) div 8, ba_width = LENGTH('a), ba_bytes = pack_buff_le num\<rparr>)"
    by (simp add: Bitr_fromu_def Bitr_frombuff_def n bytes_copy_def length_pack)
  let ?b = "\<lparr>ba_size = LENGTH('a) div 8, ba_width = LENGTH('a), ba_bytes = pack_buff_le num\<rparr>"
  have "bits ?b = map (bit num) [0..<LENGTH('a)]"
    by (rule bits_eqI) (simp_all add: bit_at_def bit_packed_le [OF assms(1) sz])
  moreover have "bitr_inv ?b" using assms(2) up by (simp add: bitr_inv_def length_pack)
  ultimately show ?thesis using run by simp
qed

lemma tou_loop_ok:
  assumes "bitr_inv b" "n \<le> ba_width b" "n \<le> LENGTH('a)"
  shows "\<exists>num :: 'a::len word. foldE (\<lambda>num i. bindE (Bitr_get b i) (\<lambda>v. Inr (set_bitval num i (nat v)))) 0 [1..<n + 1] = Inr num \<and>
     (\<forall>i. bit num i \<longleftrightarrow> i < n \<and> bits b ! i)"
  using assms(2,3)
proof (induction n)
  case 0
  then show ?case by simp
next
  case (Suc n)
  let ?f = "\<lambda>(num :: 'a word) i. bindE (Bitr_get b i) (\<lambda>v. Inr (set_bitval num i (nat v)))"
  have n: "n \<le> ba_width b" "n \<le> LENGTH('a)" "n < LENGTH('a)" "n < ba_width b" using Suc.prems by simp_all
  obtain num where num: "foldE ?f 0 [1..<n + 1] = Inr num" "\<forall>i. bit num i \<longleftrightarrow> i < n \<and> bits b ! i"
    using Suc.IH [OF n(1,2)] by blast
  have get: "Bitr_get b (Suc n) = Inr (of_bool (bits b ! n))" using bitr_get_ok [OF assms(1), of "Suc n"] n(4) by simp
  have "foldE ?f 0 [1..<Suc n + 1] = Inr (set_bitval num (Suc n) (of_bool (bits b ! n)))"
    using num(1) get by (simp add: foldE_append)
  moreover have "bit (set_bitval num (Suc n) (of_bool (bits b ! n))) i \<longleftrightarrow> i < Suc n \<and> bits b ! i" for i
    using num(2) n(3) by (auto simp: bit_set_bitval less_Suc_eq simp del: nth_bits)
  ultimately show ?case by blast
qed

lemma tou_ok:
  assumes "bitr_inv b"
  shows "\<exists>num :: 'a::len word. Bitr_tou b = Inr num \<and> (\<forall>i. bit num i \<longleftrightarrow> i < LENGTH('a) \<and> i < ba_width b \<and> bits b ! i)"
  using tou_loop_ok [OF assms, of "min LENGTH('a) (ba_width b)", where 'a = 'a] inv_width [OF assms]
  by (auto simp: Bitr_tou_def)

text \<open>A bit array made from an unsigned integer of 8, 16, 32 or 64 bits (any whole number of bytes) holds its bits, and reading an unsigned integer of that width back gives the value.\<close>

theorem Bitr_unsigned_roundtrip:
  fixes num :: "'a::len word"
  assumes "8 dvd LENGTH('a)" "LENGTH('a) < 2 ^ 32"
  shows "\<exists>b. Bitr_fromu None num = Inr (Some b) \<and> bitr_inv b \<and> bits b = map (bit num) [0..<LENGTH('a)] \<and>
     Bitr_tou b = Inr num"
proof -
  obtain b where b: "Bitr_fromu None num = Inr (Some b)" "bitr_inv b" "bits b = map (bit num) [0..<LENGTH('a)]"
    using fromu_ok [OF assms] by blast
  then have w: "ba_width b = LENGTH('a)" by (metis length_bits length_map length_upt diff_zero)
  obtain m :: "'a word" where m: "Bitr_tou b = Inr m" "\<forall>i. bit m i \<longleftrightarrow> i < LENGTH('a) \<and> i < ba_width b \<and> bits b ! i"
    using tou_ok [OF b(2)] by blast
  have "m = num" by (rule bit_word_eqI) (use m(2) w b(3) in \<open>auto simp del: nth_bits\<close>)
  with b m show ?thesis by blast
qed

section \<open>Concrete arrays\<close>

definition ex_ten :: bitarray where
  "ex_ten = \<lparr>ba_size = 2, ba_width = 10, ba_bytes = [0x65, 0x02]\<rparr>"

definition ex_byte :: bitarray where
  "ex_byte = \<lparr>ba_size = 1, ba_width = 8, ba_bytes = [0x0f]\<rparr>"

lemma ex_inv: "bitr_inv ex_ten" "bitr_inv ex_byte"
  by (simp_all add: bitr_inv_def ex_ten_def ex_byte_def)

lemma ex_width: "ba_width ex_ten = 10" "ba_width ex_byte = 8" "ba_size ex_ten = 2"
  by (simp_all add: ex_ten_def ex_byte_def)

lemma ex_bits:
  "bits ex_ten = [True, False, True, False, False, True, True, False, False, True]"
  "bits ex_byte = [True, True, True, True, False, False, False, False]"
  by code_simp+

theorem bit_range_operations_witness:
  "\<exists>b. Bitr_setn ex_ten 9 4 = Inr (0, b) \<and> bits b = [True, False, True, False, False, True, True, True, True, True]"
  using bit_range_operations [of ex_ten 9 4] by (auto simp: ex_inv ex_width ex_bits numeral_eq_Suc)

theorem bitwise_operations_witness:
  "\<exists>b. Bitr_bnot ex_byte = Inr (0, b) \<and> bits b = [False, False, False, False, True, True, True, True]"
  using bitwise_operations [of ex_byte ex_byte] by (auto simp: ex_inv ex_bits)

theorem Bitr_shift_witness:
  "\<exists>b. Bitr_lshift ex_ten 3 True = Inr b \<and> bits b = [False, False, True, True, False, True, False, False, True, True]"
  using Bitr_shift_correct [of ex_ten 3] by (auto simp: ex_inv ex_width ex_bits numeral_eq_Suc)

theorem Bitr_join_witness:
  "\<exists>c. Bitr_join ex_ten ex_byte = Inr (Some c) \<and> bits c = bits ex_byte @ bits ex_ten"
  using Bitr_join_correct [of ex_ten ex_byte] by (auto simp: ex_inv ex_width)

theorem Bitr_join_overflows_witness: "Bitr_join ex_ten ex_ten = Inl WildDeref"
  by (rule Bitr_join_overflows) (simp_all add: ex_inv ex_width fast_path_def)

theorem Bitr_equal_witness: "Bitr_equal ex_byte ex_byte = Inl WildDeref \<and> Bitr_equal ex_ten ex_byte = Inr False"
  using Bitr_equal_correct [of ex_byte ex_byte] Bitr_equal_correct [of ex_ten ex_byte] by (simp add: ex_inv ex_width ex_bits)

theorem Bitr_string_witness: "Bitr_tostring ex_ten 0 None = Inr ''1001100101''"
  using Bitr_string_roundtrip [OF ex_inv(1)] by (simp add: ex_bits bit_char_def)

theorem Bitr_unsigned_witness: "\<exists>b. Bitr_fromu None (0x1234 :: 16 word) = Inr (Some b) \<and> Bitr_tou b = Inr (0x1234 :: 16 word)"
  using Bitr_unsigned_roundtrip [of "0x1234 :: 16 word"] by auto

end
