(* ===== verification/Hasht.thy ===== *)
theory Hasht
  imports Bits
begin

text \<open>
  The chained hash table of \<open>src/mods/hasht/hasht.c\<close> with its hash functions from \<open>src/misc/hash.c\<close>.
  Nodes live in a store; the bucket vector is the list of the \<open>next\<close> fields of its dummy heads. The key
  getter is user code: it gives the bytes of a node's key, or \<open>None\<close> when it leaves the start pointer NULL.
  Loops along a chain take a fuel argument; one more than the number of entries is shown to be enough.
\<close>

section \<open>Hash functions\<close>

definition oaat_step :: "64 word \<Rightarrow> 8 word \<Rightarrow> 64 word" where
  "oaat_step hash c =
     (let hash = hash + ucast c;
          hash = hash + push_bit 10 hash
      in hash XOR drop_bit 6 hash)"

definition jenkins_oaat :: "8 word list \<Rightarrow> 64 word res" where
  "jenkins_oaat key =
     bindE (assertE (length key > 0)) (\<lambda>_.
     let hash = foldl oaat_step 0 key;
         hash = hash + push_bit 3 hash;
         hash = hash XOR drop_bit 11 hash
     in Inr (hash + push_bit 15 hash))"

definition djb2 :: "8 word list \<Rightarrow> 64 word" where
  "djb2 key = foldl (\<lambda>hash c. (push_bit 5 hash + hash) + ucast c) 5381 key"

section \<open>Data\<close>

record hashtnode =
  hn_next :: ptr

record hasht =
  ht_num_buckets :: nat
  ht_count :: nat
  ht_lf :: nat
  ht_hash :: "8 word list \<Rightarrow> 64 word"
  ht_key :: "addr \<Rightarrow> 8 word list option"
  ht_dtor :: "hashtnode dtor option"
  ht_buckets :: "ptr list"
  ht_cached :: ptr

type_synonym hasht_state = "hashtnode store \<times> hasht"

definition HASHT_MAX_MEM :: nat where
  "HASHT_MAX_MEM = SIZE_MAX div 2 ^ 4"

definition HASHT_MAX_BUCKETS :: nat where
  "HASHT_MAX_BUCKETS = HASHT_MAX_MEM div 8"

definition HASHT_MAX_COUNT :: nat where
  "HASHT_MAX_COUNT = SIZE_MAX div 1000"

definition HASHT_MIN_BUCKETS :: nat where
  "HASHT_MIN_BUCKETS = 16"

definition HASHT_DEFAULT_LOAD_FACTOR :: nat where
  "HASHT_DEFAULT_LOAD_FACTOR = 80"

definition Hasht_maxcap :: "nat res" where
  "Hasht_maxcap = bindE (assertE (HASHT_MAX_COUNT \<ge> HASHT_MAX_BUCKETS)) (\<lambda>_. Inr HASHT_MAX_COUNT)"

text \<open>The vector of heads comes zeroed from \<open>calloc\<close>; \<open>None\<close> is the NULL returned for too many buckets.\<close>

definition allocate_hasht :: "hasht \<Rightarrow> nat \<Rightarrow> hasht option" where
  "allocate_hasht ht num_buckets =
     (let num_buckets = (if num_buckets < HASHT_MIN_BUCKETS then HASHT_MIN_BUCKETS else num_buckets)
      in if num_buckets > HASHT_MAX_BUCKETS then None
         else Some (ht\<lparr>ht_num_buckets := num_buckets, ht_buckets := replicate num_buckets NULL\<rparr>))"

section \<open>Links\<close>

text \<open>A \<open>struct hashtnode *\<close> that may point at a dummy head of the bucket vector or at a node.\<close>

datatype hasht_link = Head nat | Node addr

fun get_link :: "hashtnode store \<Rightarrow> hasht \<Rightarrow> hasht_link \<Rightarrow> ptr res" where
  "get_link s ht (Head i) = (if i < length (ht_buckets ht) then Inr (ht_buckets ht ! i) else Inl WildDeref)"
| "get_link s ht (Node a) = bindE (load s (Some a)) (\<lambda>n. Inr (hn_next n))"

fun put_link :: "hashtnode store \<Rightarrow> hasht \<Rightarrow> hasht_link \<Rightarrow> ptr \<Rightarrow> hasht_state res" where
  "put_link s ht (Head i) v =
     (if i < length (ht_buckets ht) then Inr (s, ht\<lparr>ht_buckets := (ht_buckets ht)[i := v]\<rparr>) else Inl WildDeref)"
| "put_link s ht (Node a) v = bindE (update s (Some a) (\<lambda>n. n\<lparr>hn_next := v\<rparr>)) (\<lambda>s. Inr (s, ht))"

section \<open>Hashing and comparing keys\<close>

definition PRIME_SCRAMBLER :: "64 word" where
  "PRIME_SCRAMBLER = push_bit 61 1 - 1"

definition hash2index :: "hasht \<Rightarrow> 64 word \<Rightarrow> nat res" where
  "hash2index ht hash =
     bindE (assertE (ispow2 (of_nat (ht_num_buckets ht)))) (\<lambda>_.
     Inr (unat ((hash mod PRIME_SCRAMBLER) AND (of_nat (ht_num_buckets ht) - 1))))"

text \<open>The call of the key getter with the assertions on the buffer it reports.\<close>

definition key_bytes :: "hasht \<Rightarrow> addr \<Rightarrow> 8 word list res" where
  "key_bytes ht node =
     (case ht_key ht node of
        None \<Rightarrow> Inl AssertFail
      | Some key \<Rightarrow> bindE (assertE (length key > 0)) (\<lambda>_. Inr key))"

definition node2index :: "hasht \<Rightarrow> addr \<Rightarrow> nat res" where
  "node2index ht node =
     bindE (key_bytes ht node) (\<lambda>key.
     bindE (hash2index ht (ht_hash ht key)) (\<lambda>idx.
     bindE (assertE (idx < ht_num_buckets ht)) (\<lambda>_. Inr idx)))"

definition hasht_raw_set :: "hashtnode store \<Rightarrow> hasht \<Rightarrow> addr \<Rightarrow> hasht_state res" where
  "hasht_raw_set s ht node =
     bindE (node2index ht node) (\<lambda>idx.
     bindE (get_link s ht (Head idx)) (\<lambda>first.
     bindE (put_link s ht (Node node) first) (\<lambda>(s, ht).
     put_link s ht (Head idx) (Some node))))"

text \<open>\<open>strncmp\<close>: the comparison stops at a NUL byte common to both.\<close>

fun strncmp :: "8 word list \<Rightarrow> 8 word list \<Rightarrow> nat \<Rightarrow> int" where
  "strncmp (x # xs) (y # ys) (Suc n) =
     (if x \<noteq> y then uint x - uint y else if x = 0 then 0 else strncmp xs ys n)"
| "strncmp _ _ _ = 0"

definition equal_keys :: "hasht \<Rightarrow> addr \<Rightarrow> addr \<Rightarrow> bool res" where
  "equal_keys ht a b =
     bindE (key_bytes ht a) (\<lambda>ak.
     bindE (key_bytes ht b) (\<lambda>bk.
     if length ak \<noteq> length bk then Inr False
     else if strncmp ak bk (length ak) \<noteq> 0 then Inr False
     else Inr True))"

definition cache_hit :: "hasht \<Rightarrow> addr \<Rightarrow> bool res" where
  "cache_hit ht m = (case ht_cached ht of None \<Rightarrow> Inr False | Some c \<Rightarrow> equal_keys ht c m)"

definition clear_cache :: "hasht \<Rightarrow> hasht" where
  "clear_cache ht = ht\<lparr>ht_cached := NULL\<rparr>"

definition update_cache :: "hasht \<Rightarrow> ptr \<Rightarrow> hasht" where
  "update_cache ht node = ht\<lparr>ht_cached := node\<rparr>"

section \<open>The handle\<close>

fun destroy_chain :: "nat \<Rightarrow> hashtnode store \<Rightarrow> hashtnode dtor \<Rightarrow> ptr \<Rightarrow> hashtnode store res" where
  "destroy_chain 0 s d htn = Inl OutOfFuel"
| "destroy_chain (Suc fuel) s d htn =
     (case htn of
        None \<Rightarrow> Inr s
      | Some a \<Rightarrow> bindE (load s htn) (\<lambda>n. bindE (d s a) (\<lambda>s. destroy_chain fuel s d (hn_next n))))"

definition destroy_chains :: "nat \<Rightarrow> hashtnode store \<Rightarrow> hasht \<Rightarrow> hashtnode store res" where
  "destroy_chains fuel s ht =
     (case ht_dtor ht of
        None \<Rightarrow> Inl (Throw ERROR_MISCONFIGURED)
      | Some d \<Rightarrow>
          foldE (\<lambda>s i. bindE (get_link s ht (Head i)) (\<lambda>htn. destroy_chain fuel s d htn)) s [0..<ht_num_buckets ht])"

definition Hasht_count :: "hasht \<Rightarrow> nat" where
  "Hasht_count ht = ht_count ht"

definition Hasht_empty :: "hasht \<Rightarrow> bool" where
  "Hasht_empty ht \<longleftrightarrow> Hasht_count ht = 0"

text \<open>The result of the second allocation is ignored by the source; it is never NULL for the minimum.\<close>

definition Hasht_clear :: "nat \<Rightarrow> hashtnode store \<Rightarrow> hasht \<Rightarrow> bool \<Rightarrow> hasht_state res" where
  "Hasht_clear fuel s ht free_containers =
     bindE (if free_containers then destroy_chains fuel s ht else Inr s) (\<lambda>s.
     let ht = clear_cache (ht\<lparr>ht_buckets := [], ht_num_buckets := 0, ht_count := 0\<rparr>)
     in Inr (s, case allocate_hasht ht 0 of None \<Rightarrow> ht | Some ht \<Rightarrow> ht))"

definition Hasht_destroy :: "nat \<Rightarrow> hashtnode store \<Rightarrow> hasht \<Rightarrow> bool \<Rightarrow> hashtnode store res" where
  "Hasht_destroy fuel s ht free_containers =
     (if free_containers then destroy_chains fuel s ht else Inr s)"

definition Hasht_new ::
    "(8 word list \<Rightarrow> 64 word) option \<Rightarrow> (addr \<Rightarrow> 8 word list option) option \<Rightarrow> hashtnode dtor option \<Rightarrow> nat \<Rightarrow> hasht res" where
  "Hasht_new hashfunc keyfunc dtor lf =
     (case keyfunc of
        None \<Rightarrow> Inl (Throw ERROR_MISCONFIGURED)
      | Some key \<Rightarrow>
          let hash = (case hashfunc of None \<Rightarrow> djb2 | Some h \<Rightarrow> h);
              lf = (if lf > 0 then lf else HASHT_DEFAULT_LOAD_FACTOR)
          in case allocate_hasht \<lparr>ht_num_buckets = 0, ht_count = 0, ht_lf = lf, ht_hash = hash, ht_key = key,
                                  ht_dtor = dtor, ht_buckets = [], ht_cached = NULL\<rparr> 0 of
               None \<Rightarrow> Inl AssertFail
             | Some ht \<Rightarrow> Inr (clear_cache ht))"

section \<open>Resizing\<close>

fun rehash_chain :: "nat \<Rightarrow> hashtnode store \<Rightarrow> hasht \<Rightarrow> ptr \<Rightarrow> hasht_state res" where
  "rehash_chain 0 s new node = Inl OutOfFuel"
| "rehash_chain (Suc fuel) s new node =
     (case node of
        None \<Rightarrow> Inr (s, new)
      | Some a \<Rightarrow>
          bindE (load s node) (\<lambda>n.
          bindE (hasht_raw_set s new a) (\<lambda>(s, new). rehash_chain fuel s new (hn_next n))))"

text \<open>The load is an \<open>unsigned\<close>, the product a \<open>size_t\<close>.\<close>

definition current_load :: "hasht \<Rightarrow> nat" where
  "current_load ht = (ht_count ht * 100 mod SZ) div ht_num_buckets ht mod 2 ^ 32"

text \<open>
  \<open>None\<close> is the NULL returned when the table cannot grow. Of the temporary table only the fields
  the source sets (bucket vector, size, hash, key getter, count) are used.
\<close>

definition maybe_resize :: "nat \<Rightarrow> hashtnode store \<Rightarrow> hasht \<Rightarrow> bool \<Rightarrow> hasht_state option res" where
  "maybe_resize fuel s ht isdel =
     (if ht_num_buckets ht = 0 then Inl DivByZero
      else
        let load = current_load ht;
            newsize = (if \<not> isdel \<and> load > ht_lf ht then ht_num_buckets ht * 2 mod SZ
                       else if isdel \<and> load < ht_lf ht div 2 ^ 3 then ht_num_buckets ht div 2
                       else ht_num_buckets ht)
        in if newsize = ht_num_buckets ht then Inr (Some (s, ht))
           else if isdel \<and> newsize < HASHT_MIN_BUCKETS then Inr (Some (s, ht))
           else
             case allocate_hasht (ht\<lparr>ht_count := 0\<rparr>) newsize of
               None \<Rightarrow> Inr None
             | Some new \<Rightarrow>
                 bindE (foldE (\<lambda>(s, new) i. bindE (get_link s ht (Head i)) (\<lambda>node. rehash_chain fuel s new node))
                          (s, new) [0..<ht_num_buckets ht]) (\<lambda>(s, new).
                 Inr (Some (s, ht\<lparr>ht_buckets := ht_buckets new, ht_num_buckets := ht_num_buckets new\<rparr>))))"

section \<open>Lookup, removal and insertion\<close>

fun find_in_chain :: "nat \<Rightarrow> hashtnode store \<Rightarrow> hasht \<Rightarrow> addr \<Rightarrow> ptr \<Rightarrow> ptr res" where
  "find_in_chain 0 s ht node i = Inl OutOfFuel"
| "find_in_chain (Suc fuel) s ht node i =
     (case i of
        None \<Rightarrow> Inr NULL
      | Some a \<Rightarrow>
          bindE (load s i) (\<lambda>n.
          bindE (equal_keys ht a node) (\<lambda>same.
          if same then Inr i else find_in_chain fuel s ht node (hn_next n))))"

definition Hasht_get_entry :: "nat \<Rightarrow> hashtnode store \<Rightarrow> hasht \<Rightarrow> addr \<Rightarrow> (ptr \<times> hasht) res" where
  "Hasht_get_entry fuel s ht node =
     (if ht_count ht = 0 then Inr (NULL, ht)
      else
        bindE (cache_hit ht node) (\<lambda>hit.
        if hit then Inr (ht_cached ht, ht)
        else
          bindE (node2index ht node) (\<lambda>index.
          bindE (get_link s ht (Head index)) (\<lambda>i.
          bindE (find_in_chain fuel s ht node i) (\<lambda>i.
          if i \<noteq> NULL then Inr (i, update_cache ht i) else Inr (NULL, ht))))))"

definition Hasht_has_entry :: "nat \<Rightarrow> hashtnode store \<Rightarrow> hasht \<Rightarrow> addr \<Rightarrow> (bool \<times> hasht) res" where
  "Hasht_has_entry fuel s ht node =
     bindE (Hasht_get_entry fuel s ht node) (\<lambda>(p, ht). Inr (p \<noteq> NULL, ht))"

fun remove_loop :: "nat \<Rightarrow> hashtnode store \<Rightarrow> hasht \<Rightarrow> addr \<Rightarrow> hasht_link \<Rightarrow> ptr \<Rightarrow> (hasht_link \<times> ptr) res" where
  "remove_loop 0 s ht node prev i = Inl OutOfFuel"
| "remove_loop (Suc fuel) s ht node prev i =
     (case i of
        None \<Rightarrow> Inr (prev, NULL)
      | Some a \<Rightarrow>
          bindE (load s i) (\<lambda>n.
          bindE (equal_keys ht a node) (\<lambda>same.
          if same then Inr (prev, i) else remove_loop fuel s ht node (Node a) (hn_next n))))"

text \<open>On an empty table the source returns NULL, which is \<open>false\<close>; the result of resizing is ignored.\<close>

definition Hasht_remove_entry :: "nat \<Rightarrow> hashtnode store \<Rightarrow> hasht \<Rightarrow> addr \<Rightarrow> bool \<Rightarrow> (bool \<times> hasht_state) res" where
  "Hasht_remove_entry fuel s ht node free_container =
     (if ht_count ht = 0 then Inr (False, s, ht)
      else
        bindE (node2index ht node) (\<lambda>index.
        bindE (get_link s ht (Head index)) (\<lambda>i.
        bindE (remove_loop fuel s ht node (Head index) i) (\<lambda>(prev, i).
        case i of
          None \<Rightarrow> Inr (False, s, ht)
        | Some a \<Rightarrow>
            bindE (load s i) (\<lambda>n.
            bindE (put_link s ht prev (hn_next n)) (\<lambda>(s, ht).
            bindE (cache_hit ht node) (\<lambda>hit.
            let ht = (if hit then clear_cache ht else ht) in
            bindE (if free_container
                   then (case ht_dtor ht of None \<Rightarrow> Inl (Throw ERROR_MISCONFIGURED) | Some d \<Rightarrow> d s a)
                   else Inr s) (\<lambda>s.
            let ht = ht\<lparr>ht_count := (ht_count ht + SZ - 1) mod SZ\<rparr> in
            bindE (maybe_resize fuel s ht True) (\<lambda>r.
            case r of None \<Rightarrow> Inr (True, s, ht) | Some st \<Rightarrow> Inr (True, st))))))))))"

definition unique :: "nat \<Rightarrow> hashtnode store \<Rightarrow> hasht \<Rightarrow> nat \<Rightarrow> addr \<Rightarrow> bool res" where
  "unique fuel s ht index node =
     bindE (get_link s ht (Head index)) (\<lambda>head.
     bindE (find_in_chain fuel s ht node head) (\<lambda>i. Inr (i = NULL)))"

definition Hasht_insert_entry :: "nat \<Rightarrow> hashtnode store \<Rightarrow> hasht \<Rightarrow> addr \<Rightarrow> bool \<Rightarrow> (bool \<times> hasht_state) res" where
  "Hasht_insert_entry fuel s ht node allow_duplicates =
     bindE (node2index ht node) (\<lambda>index.
     bindE (if allow_duplicates then Inr True
            else bindE (cache_hit ht node) (\<lambda>hit. if hit then Inr False else unique fuel s ht index node)) (\<lambda>go.
     if \<not> go then Inr (False, s, ht)
     else
       bindE (get_link s ht (Head index)) (\<lambda>first.
       bindE (put_link s ht (Node node) first) (\<lambda>(s, ht).
       bindE (put_link s ht (Head index) (Some node)) (\<lambda>(s, ht).
       let ht = ht\<lparr>ht_count := (ht_count ht + 1) mod SZ\<rparr> in
       bindE (maybe_resize fuel s ht False) (\<lambda>r.
       case r of None \<Rightarrow> Inr (False, s, ht) | Some st \<Rightarrow> Inr (True, st)))))))"

end
