(* ===== verification/Hasht_Correct.thy ===== *)
theory Hasht_Correct
  imports Hasht Interfaces
begin

text \<open>
  The hash table as a list of chains: \<open>hasht_at\<close> relates the bucket vector and the store to the chains,
  and every operation is shown to be an update of them. Keys are assumed to be non-empty and free of NUL
  bytes (\<open>keyed_by\<close>), because the source compares them with \<open>strncmp\<close>.
\<close>

section \<open>Keys and slots\<close>

definition keyed_by :: "hasht \<Rightarrow> (addr \<Rightarrow> 8 word list) \<Rightarrow> bool" where
  "keyed_by ht key \<longleftrightarrow> (\<forall>a. ht_key ht a = Some (key a) \<and> key a \<noteq> [] \<and> 0 \<notin> set (key a))"

definition slot :: "hasht \<Rightarrow> 8 word list \<Rightarrow> nat" where
  "slot ht k = unat (ht_hash ht k mod PRIME_SCRAMBLER) mod ht_num_buckets ht"

lemma strncmp_plain:
  "length xs = length ys \<Longrightarrow> 0 \<notin> set xs \<Longrightarrow> strncmp xs ys (length xs) = 0 \<longleftrightarrow> xs = ys"
  by (induction xs ys rule: list_induct2) (auto simp: word_uint_eq_iff)

lemma key_bytes_ok: "keyed_by ht key \<Longrightarrow> key_bytes ht a = Inr (key a)"
  by (simp add: keyed_by_def key_bytes_def)

lemma equal_keys_ok: "keyed_by ht key \<Longrightarrow> equal_keys ht a b = Inr (key a = key b)"
proof -
  assume k: "keyed_by ht key"
  then have "0 \<notin> set (key a)" by (simp add: keyed_by_def)
  then show ?thesis using strncmp_plain [of "key a" "key b"] by (auto simp: equal_keys_def key_bytes_ok [OF k])
qed

definition pow2_buckets :: "hasht \<Rightarrow> bool" where
  "pow2_buckets ht \<longleftrightarrow> (\<exists>k. 4 \<le> k \<and> k < 57 \<and> ht_num_buckets ht = 2 ^ k)"

lemma index_ok:
  assumes "keyed_by ht key" "pow2_buckets ht"
  shows "node2index ht a = Inr (slot ht (key a))" "slot ht k < ht_num_buckets ht"
proof -
  obtain n where n: "n < 57" "ht_num_buckets ht = 2 ^ n" using assms(2) by (auto simp: pow2_buckets_def)
  show slot: "slot ht k < ht_num_buckets ht" for k by (simp add: slot_def n(2))
  have "ispow2 (of_nat (ht_num_buckets ht))"
    unfolding ispow2_correct n(2) using n(1) by (auto intro!: exI [of _ n] simp: push_bit_of_1)
  moreover have "unat (w AND (of_nat (ht_num_buckets ht) - 1)) = unat w mod ht_num_buckets ht" for w :: "64 word"
  proof -
    have "w AND (of_nat (ht_num_buckets ht) - 1) = take_bit n w"
      by (simp add: n(2) take_bit_eq_mask mask_eq_exp_minus_1)
    moreover have "unat (take_bit n w) = unat w mod 2 ^ n"
      by (simp only: unsigned_take_bit_eq) (rule take_bit_eq_mod)
    ultimately show ?thesis by (simp only: n(2))
  qed
  ultimately have "hash2index ht h = Inr (unat (h mod PRIME_SCRAMBLER) mod ht_num_buckets ht)" for h
    by (simp add: hash2index_def)
  then show "node2index ht a = Inr (slot ht (key a))"
    using slot by (simp add: node2index_def key_bytes_ok [OF assms(1)] slot_def)
qed

section \<open>Chains\<close>

definition chains_at :: "(addr \<Rightarrow> 8 word list) \<Rightarrow> hashtnode store \<Rightarrow> hasht \<Rightarrow> addr list list \<Rightarrow> bool" where
  "chains_at key s ht cs \<longleftrightarrow> pow2_buckets ht \<and> length (ht_buckets ht) = ht_num_buckets ht \<and>
     list_all2 (\<lambda>p xs. lseg hn_next s p xs NULL) (ht_buckets ht) cs \<and> distinct (concat cs) \<and>
     (\<forall>i<length cs. \<forall>a\<in>set (cs ! i). slot ht (key a) = i)"

definition hasht_at :: "(addr \<Rightarrow> 8 word list) \<Rightarrow> hashtnode store \<Rightarrow> hasht \<Rightarrow> addr list list \<Rightarrow> bool" where
  "hasht_at key s ht cs \<longleftrightarrow> chains_at key s ht cs \<and> keyed_by ht key \<and> ht_count ht = length (concat cs) \<and>
     0 < ht_lf ht \<and> (\<forall>c. ht_cached ht = Some c \<longrightarrow> c \<in> set (concat cs))"

lemma in_concat: "a \<in> set (concat cs) \<longleftrightarrow> (\<exists>i<length cs. a \<in> set (cs ! i))"
  by (auto simp: set_conv_nth [of cs])

lemma chains_length: "chains_at key s ht cs \<Longrightarrow> length cs = ht_num_buckets ht"
  unfolding chains_at_def by (metis list_all2_lengthD)

lemma chains_lseg:
  "chains_at key s ht cs \<Longrightarrow> i < ht_num_buckets ht \<Longrightarrow> lseg hn_next s (ht_buckets ht ! i) (cs ! i) NULL"
  unfolding chains_at_def by (metis list_all2_nthD)

lemma chains_slot: "chains_at key s ht cs \<Longrightarrow> i < ht_num_buckets ht \<Longrightarrow> a \<in> set (cs ! i) \<Longrightarrow> slot ht (key a) = i"
  using chains_length [of key s ht cs] by (auto simp: chains_at_def)

lemma chain_of:
  assumes "chains_at key s ht cs" "a \<in> set (concat cs)"
  shows "a \<in> set (cs ! slot ht (key a))"
proof -
  obtain i where "i < length cs" "a \<in> set (cs ! i)" using assms(2) unfolding in_concat by blast
  then show ?thesis using chains_slot [OF assms(1)] chains_length [OF assms(1)] by metis
qed

lemma slot_less: "chains_at key s ht cs \<Longrightarrow> slot ht k < ht_num_buckets ht"
  by (auto simp: chains_at_def pow2_buckets_def slot_def)

text \<open>The entries with a given key, in the order of their chain.\<close>

definition entries :: "(addr \<Rightarrow> 8 word list) \<Rightarrow> addr list list \<Rightarrow> 8 word list \<Rightarrow> addr list" where
  "entries key cs k = filter (\<lambda>a. key a = k) (concat cs)"

lemma filter_concat_one:
  "i < length cs \<Longrightarrow> (\<And>j. j < length cs \<Longrightarrow> j \<noteq> i \<Longrightarrow> filter P (cs ! j) = []) \<Longrightarrow> filter P (concat cs) = filter P (cs ! i)"
proof (induction cs arbitrary: i)
  case Nil
  then show ?case by simp
next
  case (Cons c cs)
  show ?case
  proof (cases i)
    case 0
    have "filter P (cs ! j) = []" if "j < length cs" for j using Cons.prems(2) [of "Suc j"] that 0 by simp
    then have "filter P (concat cs) = []" by (auto simp: filter_empty_conv in_concat simp del: set_concat)
    then show ?thesis using 0 by simp
  next
    case (Suc n)
    have "filter P (cs ! j) = []" if "j < length cs" "j \<noteq> n" for j using Cons.prems(2) [of "Suc j"] that Suc by simp
    moreover have "filter P c = []" using Cons.prems(2) [of 0] Suc by simp
    ultimately show ?thesis using Cons.IH [of n] Cons.prems(1) Suc by simp
  qed
qed

lemma entries_chain:
  assumes "chains_at key s ht cs"
  shows "entries key cs k = filter (\<lambda>a. key a = k) (cs ! slot ht k)"
  unfolding entries_def
proof (rule filter_concat_one)
  show "slot ht k < length cs" using slot_less [OF assms] chains_length [OF assms] by simp
  fix j assume "j < length cs" "j \<noteq> slot ht k"
  then show "filter (\<lambda>a. key a = k) (cs ! j) = []"
    using chains_slot [OF assms] chains_length [OF assms] by (auto simp: filter_empty_conv)
qed

lemma get_head: "chains_at key s ht cs \<Longrightarrow> i < ht_num_buckets ht \<Longrightarrow> get_link s' ht (Head i) = Inr (ht_buckets ht ! i)"
  by (simp add: chains_at_def)

section \<open>Lookup\<close>

lemma find_ok:
  "keyed_by ht key \<Longrightarrow> lseg hn_next s p xs NULL \<Longrightarrow> length xs < fuel \<Longrightarrow>
     find_in_chain fuel s ht node p = Inr (find (\<lambda>a. key a = key node) xs)"
proof (induction xs arbitrary: p fuel)
  case Nil
  then show ?case by (cases fuel) auto
next
  case (Cons a xs)
  then show ?case by (cases fuel) (auto simp: equal_keys_ok)
qed

lemma find_filter: "find P xs = (case filter P xs of [] \<Rightarrow> None | x # _ \<Rightarrow> Some x)"
  by (induction xs) auto

definition first_entry :: "(addr \<Rightarrow> 8 word list) \<Rightarrow> addr list list \<Rightarrow> 8 word list \<Rightarrow> ptr" where
  "first_entry key cs k = (case entries key cs k of [] \<Rightarrow> NULL | a # _ \<Rightarrow> Some a)"

lemma chain_short:
  assumes "chains_at key s ht cs" "i < ht_num_buckets ht"
  shows "length (cs ! i) \<le> length (concat cs)"
proof -
  have "cs ! i \<in> set cs" using assms chains_length [OF assms(1)] by simp
  then show ?thesis by (metis concat.simps(2) concat_append in_set_conv_decomp length_append le_add1 le_add2 le_trans)
qed

lemma find_in_table:
  assumes "hasht_at key s ht cs" "length (concat cs) < fuel"
  shows "find_in_chain fuel s ht node (ht_buckets ht ! slot ht (key node)) = Inr (first_entry key cs (key node))"
proof -
  have c: "chains_at key s ht cs" "keyed_by ht key" using assms(1) by (auto simp: hasht_at_def)
  let ?i = "slot ht (key node)"
  have i: "?i < ht_num_buckets ht" by (rule slot_less [OF c(1)])
  have "length (cs ! ?i) < fuel" using chain_short [OF c(1) i] assms(2) by simp
  from find_ok [OF c(2) chains_lseg [OF c(1) i] this, of node]
  show ?thesis by (simp add: find_filter first_entry_def entries_chain [OF c(1)])
qed

lemma cache_hit_ok:
  "keyed_by ht key \<Longrightarrow> cache_hit ht m = Inr (\<exists>c. ht_cached ht = Some c \<and> key c = key m)"
  by (auto simp: cache_hit_def equal_keys_ok split: option.splits)

lemma in_entries: "a \<in> set (entries key cs k) \<longleftrightarrow> a \<in> set (concat cs) \<and> key a = k"
  by (auto simp: entries_def)

lemma get_entry_ok:
  assumes "hasht_at key s ht cs" "length (concat cs) < fuel"
  shows "\<exists>p. Hasht_get_entry fuel s ht node = Inr (p, ht\<lparr>ht_cached := if p = NULL then ht_cached ht else p\<rparr>) \<and>
     p = (case ht_cached ht of
            Some c \<Rightarrow> if key c = key node then Some c else first_entry key cs (key node)
          | None \<Rightarrow> first_entry key cs (key node))"
proof -
  have c: "chains_at key s ht cs" "keyed_by ht key" "ht_count ht = length (concat cs)"
      "\<And>c. ht_cached ht = Some c \<Longrightarrow> c \<in> set (concat cs)" using assms(1) by (auto simp: hasht_at_def)
  have pow: "pow2_buckets ht" using c(1) by (simp add: chains_at_def)
  show ?thesis
  proof (cases "ht_count ht = 0")
    case True
    then have none: "concat cs = []" using c(3) by (metis length_0_conv)
    then have "first_entry key cs k = NULL" for k unfolding first_entry_def entries_def none by simp
    moreover have "ht_cached ht = NULL" using c(4) none by (cases "ht_cached ht") auto
    ultimately show ?thesis using True by (simp add: Hasht_get_entry_def)
  next
    case False
    show ?thesis
    proof (cases "\<exists>c. ht_cached ht = Some c \<and> key c = key node")
      case True
      then show ?thesis using False cache_hit_ok [OF c(2), of node] by (auto simp: Hasht_get_entry_def)
    next
      case miss: False
      have hit: "cache_hit ht node = Inr False" using miss cache_hit_ok [OF c(2), of node] by simp
      have "Hasht_get_entry fuel s ht node =
          (let p = first_entry key cs (key node) in Inr (p, ht\<lparr>ht_cached := if p = NULL then ht_cached ht else p\<rparr>))"
        using False hit index_ok [OF c(2) pow] get_head [OF c(1)] find_in_table [OF assms]
        by (simp add: Hasht_get_entry_def update_cache_def Let_def del: get_link.simps)
      then show ?thesis using miss by (auto simp: Let_def split: option.splits)
    qed
  qed
qed

section \<open>Resizing\<close>

definition put_front :: "(addr \<Rightarrow> nat) \<Rightarrow> addr list list \<Rightarrow> addr \<Rightarrow> addr list list" where
  "put_front sl cs a = cs[sl a := a # cs ! sl a]"

lemma foldl_put_front:
  "length cs = n \<Longrightarrow> \<forall>a\<in>set xs. sl a < n \<Longrightarrow>
     foldl (put_front sl) cs xs = map (\<lambda>j. rev (filter (\<lambda>a. sl a = j) xs) @ cs ! j) [0..<n]"
proof (induction xs arbitrary: cs)
  case Nil
  then show ?case by (auto intro: nth_equalityI)
next
  case (Cons a xs)
  have "length (put_front sl cs a) = n" using Cons.prems(1) by (simp add: put_front_def)
  then have "foldl (put_front sl) cs (a # xs) =
      map (\<lambda>j. rev (filter (\<lambda>a. sl a = j) xs) @ put_front sl cs a ! j) [0..<n]"
    using Cons.IH Cons.prems(2) by simp
  moreover have "put_front sl cs a ! j = (if j = sl a then a # cs ! j else cs ! j)" if "j < n" for j
    using that Cons.prems by (simp add: put_front_def nth_list_update)
  ultimately show ?case by auto
qed

lemma set_put_front: "sl a < length cs \<Longrightarrow> set (concat (put_front sl cs a)) = insert a (set (concat cs))"
proof -
  assume i: "sl a < length cs"
  have "b \<in> set (concat (put_front sl cs a)) \<longleftrightarrow> b \<in> insert a (set (concat cs))" for b
    using i unfolding in_concat by (auto simp: put_front_def nth_list_update in_concat simp del: set_concat split: if_splits)
  then show ?thesis by blast
qed

lemma distinct_put_front:
  assumes "sl a < length cs" "distinct (concat cs)" "a \<notin> set (concat cs)"
  shows "distinct (concat (put_front sl cs a))"
proof -
  obtain us vs where cs: "cs = us @ cs ! sl a # vs" "length us = sl a"
    using assms(1) by (metis id_take_nth_drop length_take min.absorb4)
  then have "put_front sl cs a = us @ (a # cs ! sl a) # vs"
    unfolding put_front_def by (metis list_update_length)
  moreover have "concat cs = concat us @ cs ! sl a @ concat vs" by (subst cs(1)) simp
  ultimately show ?thesis using assms(2,3) by auto
qed

abbreviation slot_of :: "hasht \<Rightarrow> (addr \<Rightarrow> 8 word list) \<Rightarrow> addr \<Rightarrow> nat" where
  "slot_of ht key \<equiv> (\<lambda>a. slot ht (key a))"

lemma slot_buckets [simp]: "slot (ht\<lparr>ht_buckets := bs\<rparr>) k = slot ht k"
  by (simp add: slot_def)

lemma chains_at_bucketsI:
  "pow2_buckets ht \<Longrightarrow> length bs = ht_num_buckets ht \<Longrightarrow>
     list_all2 (\<lambda>p xs. lseg hn_next s p xs NULL) bs cs \<Longrightarrow> distinct (concat cs) \<Longrightarrow>
     \<forall>i<length cs. \<forall>a\<in>set (cs ! i). slot ht (key a) = i \<Longrightarrow> chains_at key s (ht\<lparr>ht_buckets := bs\<rparr>) cs"
  by (simp add: chains_at_def pow2_buckets_def)

lemma raw_set_ok:
  assumes "chains_at key s ht cs" "keyed_by ht key" "s a = Some n" "a \<notin> set (concat cs)"
  shows "\<exists>s' bs. hasht_raw_set s ht a = Inr (s', ht\<lparr>ht_buckets := bs\<rparr>) \<and>
     chains_at key s' (ht\<lparr>ht_buckets := bs\<rparr>) (put_front (slot_of ht key) cs a) \<and> frame {a} s s'"
proof -
  let ?i = "slot ht (key a)" and ?s = "\<lambda>i. s(a \<mapsto> n\<lparr>hn_next := ht_buckets ht ! i\<rparr>)"
  let ?bs = "(ht_buckets ht)[?i := Some a]"
  have pow: "pow2_buckets ht" and len: "length (ht_buckets ht) = ht_num_buckets ht"
    and dist: "distinct (concat cs)" using assms(1) by (auto simp: chains_at_def)
  have i: "?i < ht_num_buckets ht" "?i < length cs" using slot_less [OF assms(1)] chains_length [OF assms(1)] by auto
  have run: "hasht_raw_set s ht a = Inr (?s ?i, ht\<lparr>ht_buckets := ?bs\<rparr>)"
    using i len assms(3) by (simp add: hasht_raw_set_def index_ok [OF assms(2) pow])
  have notin: "a \<notin> set (cs ! j)" if "j < length cs" for j using assms(4) that unfolding in_concat by blast
  have old: "lseg hn_next (?s ?i) (ht_buckets ht ! j) (cs ! j) NULL" if "j < ht_num_buckets ht" for j
    using chains_lseg [OF assms(1) that] notin [of j] that chains_length [OF assms(1)] by simp
  then have "lseg hn_next (?s ?i) (?bs ! j) (put_front (slot_of ht key) cs a ! j) NULL" if "j < ht_num_buckets ht" for j
    using that i len by (cases "j = ?i") (simp_all add: put_front_def)
  then have l: "list_all2 (\<lambda>p xs. lseg hn_next (?s ?i) p xs NULL) ?bs (put_front (slot_of ht key) cs a)"
    using chains_length [OF assms(1)] len by (simp add: list_all2_conv_all_nth put_front_def)
  have sl: "\<forall>j<length (put_front (slot_of ht key) cs a). \<forall>b\<in>set (put_front (slot_of ht key) cs a ! j). slot ht (key b) = j"
  proof (intro allI impI ballI)
    fix j b assume jb: "j < length (put_front (slot_of ht key) cs a)" "b \<in> set (put_front (slot_of ht key) cs a ! j)"
    then have "j < ht_num_buckets ht" using chains_length [OF assms(1)] by (simp add: put_front_def)
    note j = this
    show "slot ht (key b) = j"
    proof (cases "j = ?i")
      case True
      then have "put_front (slot_of ht key) cs a ! j = a # cs ! j" using i(2) by (simp add: put_front_def)
      then show ?thesis using jb(2) True chains_slot [OF assms(1) j, of b] by (metis set_ConsD)
    next
      case False
      then have "put_front (slot_of ht key) cs a ! j = cs ! j" by (simp add: put_front_def)
      then have "b \<in> set (cs ! j)" using jb(2) by (simp only:)
      then show ?thesis by (rule chains_slot [OF assms(1) j])
    qed
  qed
  have d: "distinct (concat (put_front (slot_of ht key) cs a))"
    by (rule distinct_put_front [OF _ dist assms(4)]) (rule i(2))
  have "chains_at key (?s ?i) (ht\<lparr>ht_buckets := ?bs\<rparr>) (put_front (slot_of ht key) cs a)"
    by (rule chains_at_bucketsI [OF pow _ l d sl]) (simp add: len)
  moreover have "frame {a} s (?s ?i)" using assms(3) by (auto simp: frame_def)
  ultimately show ?thesis using run by blast
qed

lemma set_foldl_put_front:
  "\<forall>a\<in>set xs. sl a < length cs \<Longrightarrow> set (concat (foldl (put_front sl) cs xs)) = set xs \<union> set (concat cs)"
proof (induction xs arbitrary: cs)
  case Nil
  then show ?case by simp
next
  case (Cons a xs)
  have "length (put_front sl cs a) = length cs" by (simp add: put_front_def)
  with Cons set_put_front [of sl a cs] show ?case by simp
qed

lemma rehash_chain_ok:
  assumes "chains_at key s new ns" "keyed_by new key" "lseg hn_next s p xs NULL" "distinct xs"
    and "set xs \<inter> set (concat ns) = {}" "length xs < fuel"
  shows "\<exists>s' bs. rehash_chain fuel s new p = Inr (s', new\<lparr>ht_buckets := bs\<rparr>) \<and>
     chains_at key s' (new\<lparr>ht_buckets := bs\<rparr>) (foldl (put_front (slot_of new key)) ns xs) \<and> frame (set xs) s s'"
  using assms
proof (induction xs arbitrary: p s new ns fuel)
  case Nil
  then obtain f where "fuel = Suc f" by (cases fuel) auto
  then have "rehash_chain fuel s new p = Inr (s, new\<lparr>ht_buckets := ht_buckets new\<rparr>)" using Nil(3) by simp
  then show ?case using Nil(1) by (intro exI [of _ s] exI [of _ "ht_buckets new"]) simp
next
  case (Cons a xs)
  obtain f where f: "fuel = Suc f" "length xs < f" using Cons.prems(6) by (cases fuel) auto
  obtain n where n: "p = Some a" "s a = Some n" "lseg hn_next s (hn_next n) xs NULL" using Cons.prems(3) by auto
  have fresh: "a \<notin> set (concat ns)" using Cons.prems(5) by auto
  obtain s1 bs where 1: "hasht_raw_set s new a = Inr (s1, new\<lparr>ht_buckets := bs\<rparr>)"
      "chains_at key s1 (new\<lparr>ht_buckets := bs\<rparr>) (put_front (slot_of new key) ns a)" "frame {a} s s1"
    using raw_set_ok [OF Cons.prems(1,2) n(2) fresh] by blast
  have rest: "lseg hn_next s1 (hn_next n) xs NULL" using n(3) lseg_frame [OF 1(3)] Cons.prems(4) by simp
  have key: "keyed_by (new\<lparr>ht_buckets := bs\<rparr>) key" using Cons.prems(2) by (simp add: keyed_by_def)
  have "slot new (key a) < length ns" using slot_less [OF Cons.prems(1)] chains_length [OF Cons.prems(1)] by simp
  then have disj: "set xs \<inter> set (concat (put_front (slot_of new key) ns a)) = {}"
    using Cons.prems(4,5) by (auto simp: set_put_front simp del: set_concat)
  obtain s2 bs2 where "rehash_chain f s1 (new\<lparr>ht_buckets := bs\<rparr>) (hn_next n) = Inr (s2, new\<lparr>ht_buckets := bs2\<rparr>)"
      "chains_at key s2 (new\<lparr>ht_buckets := bs2\<rparr>) (foldl (put_front (slot_of new key)) (put_front (slot_of new key) ns a) xs)"
      "frame (set xs) s1 s2"
    using Cons.IH [OF 1(2) key rest _ disj f(2)] Cons.prems(4) by auto
  moreover from this(3) have "frame (set (a # xs)) s s2" by (rule frame_trans [OF 1(3)]) simp
  ultimately show ?case using f(1) n(1,2) 1(1) by (intro exI [of _ s2] exI [of _ bs2]) simp
qed

lemma rehash_loop_ok:
  assumes "chains_at key s ht cs" "keyed_by new key" "chains_at key s new ns" "concat ns = []"
    and "length (concat cs) < fuel" "m \<le> ht_num_buckets ht"
  shows "\<exists>s' bs. foldE (\<lambda>(s, new) i. bindE (get_link s ht (Head i)) (\<lambda>node. rehash_chain fuel s new node)) (s, new) [0..<m] =
       Inr (s', new\<lparr>ht_buckets := bs\<rparr>) \<and>
     chains_at key s' (new\<lparr>ht_buckets := bs\<rparr>) (foldl (put_front (slot_of new key)) ns (concat (take m cs))) \<and>
     frame (set (concat (take m cs))) s s'"
  using assms(6)
proof (induction m)
  case 0
  have "new\<lparr>ht_buckets := ht_buckets new\<rparr> = new" by simp
  then show ?case using assms(3) by (intro exI [of _ s] exI [of _ "ht_buckets new"]) simp
next
  case (Suc m)
  have m: "m < ht_num_buckets ht" "m < length cs" using Suc.prems chains_length [OF assms(1)] by simp_all
  let ?f = "\<lambda>(s, new) i. bindE (get_link s ht (Head i)) (\<lambda>node. rehash_chain fuel s new node)"
  let ?new = "\<lambda>bs. new\<lparr>ht_buckets := bs\<rparr>" and ?sl = "slot_of new key"
  obtain s1 bs where 1: "foldE ?f (s, new) [0..<m] = Inr (s1, ?new bs)"
      "chains_at key s1 (?new bs) (foldl (put_front ?sl) ns (concat (take m cs)))" "frame (set (concat (take m cs))) s s1"
    using Suc by auto
  have dist: "distinct (concat cs)" using assms(1) by (simp add: chains_at_def)
  have "concat cs = concat (take m cs) @ cs ! m @ concat (drop (Suc m) cs)"
    by (metis append_take_drop_id concat.simps(2) concat_append Cons_nth_drop_Suc m(2))
  with dist have d: "distinct (cs ! m)" "set (concat (take m cs)) \<inter> set (cs ! m) = {}" by (simp_all add: Int_Un_distrib)
  have chain: "lseg hn_next s1 (ht_buckets ht ! m) (cs ! m) NULL"
    using chains_lseg [OF assms(1) m(1)] lseg_frame [OF 1(3) d(2)] by simp
  have key: "keyed_by (?new bs) key" using assms(2) by (simp add: keyed_by_def)
  have "\<forall>a\<in>set (concat (take m cs)). ?sl a < length ns"
    using slot_less [OF assms(3)] chains_length [OF assms(3)] by simp
  from set_foldl_put_front [OF this]
  have disj: "set (cs ! m) \<inter> set (concat (foldl (put_front ?sl) ns (concat (take m cs)))) = {}"
    using d(2) assms(4) by (simp only: list.set(1) Un_empty_right Int_commute)
  have fuel: "length (cs ! m) < fuel" using chain_short [OF assms(1) m(1)] assms(5) by simp
  obtain s2 bs2 where 2: "rehash_chain fuel s1 (?new bs) (ht_buckets ht ! m) = Inr (s2, ?new bs2)"
      "chains_at key s2 (?new bs2) (foldl (put_front ?sl) (foldl (put_front ?sl) ns (concat (take m cs))) (cs ! m))"
      "frame (set (cs ! m)) s1 s2"
    using rehash_chain_ok [OF 1(2) key chain d(1) disj fuel] by auto
  have "foldE ?f (s, new) [0..<Suc m] = Inr (s2, ?new bs2)"
    using 1(1) 2(1) get_head [OF assms(1) m(1)] by (simp add: foldE_append del: get_link.simps)
  moreover have "concat (take (Suc m) cs) = concat (take m cs) @ cs ! m" by (simp add: take_Suc_conv_app_nth m(2))
  moreover have "frame (set (concat (take m cs)) \<union> set (cs ! m)) s s2" by (rule frame_trans [OF 1(3) 2(3)]) simp
  ultimately show ?case using 2(2) by (intro exI [of _ s2] exI [of _ bs2]) simp
qed

end
