(* ===== verification/Hasht_Ops.thy ===== *)
theory Hasht_Ops
  imports Hasht_Correct
begin

text \<open>
  Resizing, insertion, removal, creation and clearing of the hash table, as updates of its chains. A resize
  keeps the entries but reverses the order of those that share a key.
\<close>

section \<open>Resizing\<close>

definition resizes :: "hasht \<Rightarrow> bool \<Rightarrow> bool" where
  "resizes ht isdel \<longleftrightarrow>
     (if isdel then current_load ht < ht_lf ht div 8 \<and> 32 \<le> ht_num_buckets ht else ht_lf ht < current_load ht)"

text \<open>A table of fewer than \<open>2 ^ 50\<close> entries never reaches the limit on the number of buckets.\<close>

lemma grow_bound:
  assumes "ht_lf ht < current_load ht" "0 < ht_lf ht" "ht_count ht < 2 ^ 50"
  shows "ht_num_buckets ht * 2 < 2 ^ 57"
proof -
  let ?n = "ht_num_buckets ht" and ?c = "ht_count ht * 100"
  have "2 \<le> current_load ht" using assms(1,2) by simp
  also have "current_load ht \<le> ?c mod SZ div ?n" by (simp add: current_load_def)
  also have "\<dots> = ?c div ?n" using assms(3) by (simp add: SZ_num)
  finally have "2 * ?n \<le> (?c div ?n) * ?n" by simp
  also have "\<dots> \<le> ?c" by simp
  finally show ?thesis using assms(3) by simp
qed

lemma chains_at_cong:
  "ht_num_buckets ht' = ht_num_buckets ht \<Longrightarrow> ht_buckets ht' = ht_buckets ht \<Longrightarrow> ht_hash ht' = ht_hash ht \<Longrightarrow>
     chains_at key s ht' cs = chains_at key s ht cs"
  unfolding chains_at_def pow2_buckets_def slot_def by (simp only:)

lemma replicate_chains:
  assumes "pow2_buckets ht" "ht_buckets ht = replicate (ht_num_buckets ht) NULL"
  shows "chains_at key s ht (replicate (ht_num_buckets ht) [])"
  using assms by (simp add: chains_at_def list_all2_conv_all_nth)

lemma concat_replicate_Nil [simp]: "concat (replicate n []) = []"
  by (induction n) simp_all

lemma maybe_resize_ok:
  assumes "hasht_at key s ht cs" "length (concat cs) < 2 ^ 50" "length (concat cs) < fuel"
  shows "\<exists>s' ht' cs'. maybe_resize fuel s ht isdel = Inr (Some (s', ht')) \<and> hasht_at key s' ht' cs' \<and>
     frame (set (concat cs)) s s' \<and> set (concat cs') = set (concat cs) \<and>
     (\<forall>k. entries key cs' k = (if resizes ht isdel then rev (entries key cs k) else entries key cs k)) \<and>
     ht_dtor ht' = ht_dtor ht \<and> ht_cached ht' = ht_cached ht"
proof -
  have c: "chains_at key s ht cs" "keyed_by ht key" "ht_count ht = length (concat cs)" "0 < ht_lf ht"
    "distinct (concat cs)" and cached: "\<forall>c. ht_cached ht = Some c \<longrightarrow> c \<in> set (concat cs)"
    using assms(1) by (auto simp: hasht_at_def chains_at_def)
  obtain e where e: "4 \<le> e" "e < 57" "ht_num_buckets ht = 2 ^ e" using c(1) by (auto simp: chains_at_def pow2_buckets_def)
  have nb: "16 \<le> ht_num_buckets ht" using power_increasing [OF e(1), of "2 :: nat"] e(3) by simp
  have small: "ht_num_buckets ht < 2 ^ 57" unfolding e(3) by (rule power_strict_increasing [OF e(2)]) simp
  show ?thesis
  proof (cases "resizes ht isdel")
    case False
    then have "maybe_resize fuel s ht isdel = Inr (Some (s, ht))"
      using nb by (auto simp: maybe_resize_def resizes_def Let_def HASHT_MIN_BUCKETS_def)
    then show ?thesis using False assms(1) by (intro exI [of _ s] exI [of _ ht] exI [of _ cs]) simp
  next
    case True
    define n where "n = (if isdel then ht_num_buckets ht div 2 else ht_num_buckets ht * 2)"
    obtain e' where e': "4 \<le> e'" "e' < 57" "n = 2 ^ e'"
    proof (cases isdel)
      case True
      then have "32 \<le> ht_num_buckets ht" using \<open>resizes ht isdel\<close> by (simp add: resizes_def)
      then have "(2 :: nat) ^ 5 \<le> 2 ^ e" using e(3) by simp
      then have "5 \<le> e" by (rule power_le_imp_le_exp [rotated]) simp
      moreover from this have "n = 2 ^ (e - 1)" using True e(3) by (simp add: n_def power_diff)
      ultimately show ?thesis using that [of "e - 1"] e(2) by simp
    next
      case False
      then have "ht_num_buckets ht * 2 < 2 ^ 57"
        using \<open>resizes ht isdel\<close> grow_bound [of ht] c(3,4) assms(2) by (simp add: resizes_def)
      then have "(2 :: nat) ^ Suc e < 2 ^ 57" using e(3) by simp
      then have "Suc e < 57" by (rule power_less_imp_less_exp [rotated]) simp
      then show ?thesis using that [of "Suc e"] e False by (simp add: n_def)
    qed
    have n: "16 \<le> n" using power_increasing [OF e'(1), of "2 :: nat"] e'(3) by simp
    have n_max: "n < 2 ^ 57" unfolding e'(3) by (rule power_strict_increasing [OF e'(2)]) simp
    let ?new = "ht\<lparr>ht_count := 0, ht_num_buckets := n, ht_buckets := replicate n NULL\<rparr>"
    have "allocate_hasht (ht\<lparr>ht_count := 0\<rparr>) n = Some ?new"
      using n n_max by (simp add: allocate_hasht_def HASHT_MIN_BUCKETS_def HASHT_MAX_BUCKETS_def HASHT_MAX_MEM_def SZ_num)
    moreover have "(if \<not> isdel \<and> current_load ht > ht_lf ht then ht_num_buckets ht * 2 mod SZ
        else if isdel \<and> current_load ht < ht_lf ht div 2 ^ 3 then ht_num_buckets ht div 2 else ht_num_buckets ht) = n"
      using True small by (auto simp: resizes_def n_def SZ_num)
    moreover have "n \<noteq> ht_num_buckets ht" "\<not> n < HASHT_MIN_BUCKETS" "ht_num_buckets ht \<noteq> 0"
      using nb n by (auto simp: n_def HASHT_MIN_BUCKETS_def)
    ultimately have run: "maybe_resize fuel s ht isdel =
        bindE (foldE (\<lambda>(s, new) i. bindE (get_link s ht (Head i)) (\<lambda>node. rehash_chain fuel s new node))
                 (s, ?new) [0..<ht_num_buckets ht]) (\<lambda>(s, new).
        Inr (Some (s, ht\<lparr>ht_buckets := ht_buckets new, ht_num_buckets := ht_num_buckets new\<rparr>)))"
      by (simp add: maybe_resize_def Let_def)
    have new: "chains_at key s ?new (replicate n [])" "keyed_by ?new key" "concat (replicate n []) = []"
      using replicate_chains [of ?new key s] e' c(2) by (auto simp: pow2_buckets_def keyed_by_def)
    let ?cs = "foldl (put_front (slot_of ?new key)) (replicate n []) (concat cs)"
    obtain s' bs where r: "foldE (\<lambda>(s, new) i. bindE (get_link s ht (Head i)) (\<lambda>node. rehash_chain fuel s new node))
        (s, ?new) [0..<ht_num_buckets ht] = Inr (s', ?new\<lparr>ht_buckets := bs\<rparr>)"
      "chains_at key s' (?new\<lparr>ht_buckets := bs\<rparr>) ?cs" "frame (set (concat cs)) s s'"
      using rehash_loop_ok [OF c(1) new(2,1,3) assms(3) order_refl] chains_length [OF c(1)] by auto
    let ?ht = "ht\<lparr>ht_buckets := bs, ht_num_buckets := n\<rparr>"
    have slots: "slot ?new k < n" for k using slot_less [OF new(1)] by simp
    have set: "set (concat ?cs) = set (concat cs)" using set_foldl_put_front [of "concat cs" "slot_of ?new key" "replicate n []"] slots by simp
    have "chains_at key s' ?ht ?cs" by (rule iffD2 [OF chains_at_cong r(2)]) simp_all
    moreover from this have "distinct (concat ?cs)" by (simp add: chains_at_def)
    then have "length (concat ?cs) = length (concat cs)" using c(5) set by (metis distinct_card)
    ultimately have at: "hasht_at key s' ?ht ?cs" using c(2-4) cached set by (simp add: hasht_at_def keyed_by_def)
    have "entries key ?cs k = rev (entries key cs k)" for k
    proof -
      have "?cs = map (\<lambda>j. rev (filter (\<lambda>a. slot_of ?new key a = j) (concat cs)) @ replicate n [] ! j) [0..<n]"
        by (rule foldl_put_front [OF length_replicate]) (rule ballI, rule slots)
      then have "?cs ! slot ?new k = rev (filter (\<lambda>a. slot_of ?new key a = slot ?new k) (concat cs))"
        using slots [of k] by simp
      moreover have "filter (\<lambda>a. slot_of ?new key a = slot ?new k \<and> key a = k) (concat cs) = filter (\<lambda>a. key a = k) (concat cs)"
        by (rule filter_cong) auto
      moreover have "entries key ?cs k = filter (\<lambda>a. key a = k) (?cs ! slot ?new k)"
        using entries_chain [OF r(2), of k] by simp
      ultimately show ?thesis by (simp add: entries_def rev_filter [symmetric])
    qed
    then show ?thesis using run r(1,3) at set True by (intro exI [of _ s'] exI [of _ ?ht] exI [of _ ?cs]) simp
  qed
qed

section \<open>Insertion\<close>

lemma hasht_at_count:
  assumes "chains_at key s' (ht\<lparr>ht_buckets := bs\<rparr>) cs'" "keyed_by ht key" "0 < ht_lf ht"
    and "n = length (concat cs')" "\<forall>c. q = Some c \<longrightarrow> c \<in> set (concat cs')"
  shows "hasht_at key s' (ht\<lparr>ht_buckets := bs, ht_count := n, ht_cached := q\<rparr>) cs'"
proof -
  have "chains_at key s' (ht\<lparr>ht_buckets := bs, ht_count := n, ht_cached := q\<rparr>) cs'"
    by (rule iffD2 [OF chains_at_cong assms(1)]) simp_all
  then show ?thesis using assms(2-5) by (simp add: hasht_at_def keyed_by_def)
qed

lemma length_put_front:
  assumes "sl a < length cs"
  shows "length (concat (put_front sl cs a)) = Suc (length (concat cs))"
proof -
  have "cs = take (sl a) cs @ cs ! sl a # drop (Suc (sl a)) cs" using assms by (rule id_take_nth_drop)
  then have "length (concat cs) = length (concat (take (sl a) cs)) + length (cs ! sl a) + length (concat (drop (Suc (sl a)) cs))"
    by (metis (no_types) add.assoc concat.simps(2) concat_append length_append)
  then show ?thesis using assms by (simp add: put_front_def upd_conv_take_nth_drop)
qed

lemma entries_put_front:
  assumes "chains_at key s' ht' (put_front (slot_of ht key) cs a)" "chains_at key s ht cs" "\<And>k. slot ht' k = slot ht k"
  shows "entries key (put_front (slot_of ht key) cs a) k = (if key a = k then a # entries key cs k else entries key cs k)"
proof -
  have i: "slot ht k < length cs" for k using slot_less [OF assms(2)] chains_length [OF assms(2)] by simp
  have "put_front (slot_of ht key) cs a ! slot ht k = (if slot ht k = slot ht (key a) then a # cs ! slot ht k else cs ! slot ht k)"
    using i by (simp add: put_front_def nth_list_update)
  then show ?thesis unfolding entries_chain [OF assms(1)] entries_chain [OF assms(2)] assms(3)
    by (cases "key a = k") auto
qed

text \<open>What an insertion leaves before the table is resized.\<close>

lemma insert_step:
  assumes "hasht_at key s ht cs" "s a = Some n" "a \<notin> set (concat cs)" "length (concat cs) < 2 ^ 50"
  obtains s' bs where
    "bindE (get_link s ht (Head (slot ht (key a)))) (\<lambda>first. bindE (put_link s ht (Node a) first) (\<lambda>(s', ht').
       put_link s' ht' (Head (slot ht (key a))) (Some a))) = Inr (s', ht\<lparr>ht_buckets := bs\<rparr>)"
    "hasht_at key s' (ht\<lparr>ht_buckets := bs, ht_count := (ht_count ht + 1) mod SZ\<rparr>) (put_front (slot_of ht key) cs a)"
    "frame {a} s s'"
    "\<forall>k. entries key (put_front (slot_of ht key) cs a) k = (if key a = k then a # entries key cs k else entries key cs k)"
proof -
  have c: "chains_at key s ht cs" "keyed_by ht key" "ht_count ht = length (concat cs)" "0 < ht_lf ht" "pow2_buckets ht"
    and cached: "\<forall>c. ht_cached ht = Some c \<longrightarrow> c \<in> set (concat cs)"
    using assms(1) by (auto simp: hasht_at_def chains_at_def)
  let ?cs = "put_front (slot_of ht key) cs a"
  have i: "slot ht (key a) < length cs" using slot_less [OF c(1)] chains_length [OF c(1)] by simp
  obtain s' bs where 1: "hasht_raw_set s ht a = Inr (s', ht\<lparr>ht_buckets := bs\<rparr>)"
      "chains_at key s' (ht\<lparr>ht_buckets := bs\<rparr>) ?cs" "frame {a} s s'"
    using raw_set_ok [OF c(1,2) assms(2,3)] by blast
  have count: "(ht_count ht + 1) mod SZ = length (concat ?cs)"
    using length_put_front [of "slot_of ht key" a cs] i c(3) assms(4) by (simp add: SZ_num)
  have "\<forall>c. ht_cached ht = Some c \<longrightarrow> c \<in> set (concat ?cs)"
    using cached set_put_front [of "slot_of ht key" a cs] i by simp
  from hasht_at_count [OF 1(2) c(2,4) count this]
  have "hasht_at key s' (ht\<lparr>ht_buckets := bs, ht_count := (ht_count ht + 1) mod SZ\<rparr>) ?cs"
    by (rule subst [rotated, where P = "\<lambda>h. hasht_at key s' h ?cs"]) simp
  moreover have "\<forall>k. entries key ?cs k = (if key a = k then a # entries key cs k else entries key cs k)"
    using entries_put_front [OF 1(2) c(1)] by simp
  moreover have "bindE (get_link s ht (Head (slot ht (key a)))) (\<lambda>first. bindE (put_link s ht (Node a) first) (\<lambda>(s', ht').
       put_link s' ht' (Head (slot ht (key a))) (Some a))) = Inr (s', ht\<lparr>ht_buckets := bs\<rparr>)"
    using 1(1) index_ok [OF c(2,5)] by (simp only: hasht_raw_set_def bindE_simps)
  ultimately show ?thesis using that 1(3) by blast
qed

lemma hasht_insert_ok:
  assumes "hasht_at key s ht cs" "s a = Some n" "a \<notin> set (concat cs)" "length (concat cs) < 2 ^ 50 - 1"
    and "Suc (length (concat cs)) < fuel"
  shows "\<exists>s' ht' cs'. Hasht_insert_entry fuel s ht a dup = Inr (dup \<or> entries key cs (key a) = [], s', ht') \<and>
     hasht_at key s' ht' cs' \<and> frame (insert a (set (concat cs))) s s' \<and> ht_dtor ht' = ht_dtor ht \<and>
     ht_cached ht' = ht_cached ht \<and>
     (if dup \<or> entries key cs (key a) = []
      then set (concat cs') = insert a (set (concat cs)) \<and>
        (\<exists>rv. \<forall>k. entries key cs' k = (if rv then rev else id) (if key a = k then a # entries key cs k else entries key cs k))
      else s' = s \<and> ht' = ht \<and> cs' = cs)"
proof -
  have c: "chains_at key s ht cs" "keyed_by ht key" "ht_count ht = length (concat cs)" "pow2_buckets ht"
    and cached: "\<forall>c. ht_cached ht = Some c \<longrightarrow> c \<in> set (concat cs)"
    using assms(1) by (auto simp: hasht_at_def chains_at_def)
  let ?i = "slot ht (key a)"
  have i: "?i < ht_num_buckets ht" by (rule slot_less [OF c(1)])
  have hit: "entries key cs (key a) \<noteq> []" if "\<exists>c. ht_cached ht = Some c \<and> key c = key a"
    using that cached by (auto simp: entries_def filter_empty_conv simp del: set_concat)
  have "unique fuel s ht ?i a = Inr (entries key cs (key a) = [])"
    using get_head [OF c(1) i] find_in_table [OF assms(1), of fuel a] assms(5)
    by (simp add: unique_def first_entry_def del: get_link.simps split: list.split)
  then have go: "(if dup then Inr True
      else bindE (cache_hit ht a) (\<lambda>hit. if hit then Inr False else unique fuel s ht ?i a)) = Inr (dup \<or> entries key cs (key a) = [])"
    using cache_hit_ok [OF c(2), of a] hit by auto
  show ?thesis
  proof (cases "dup \<or> entries key cs (key a) = []")
    case False
    then have "Hasht_insert_entry fuel s ht a dup = Inr (False, s, ht)"
      using go by (simp add: Hasht_insert_entry_def index_ok [OF c(2,4)])
    then show ?thesis using False assms(1) by (intro exI [of _ s] exI [of _ ht] exI [of _ cs]) simp
  next
    case True
    let ?cs = "put_front (slot_of ht key) cs a"
    have lim: "length (concat cs) < 2 ^ 50" using assms(4) by simp
    obtain s1 bs where 1: "bindE (get_link s ht (Head ?i)) (\<lambda>first. bindE (put_link s ht (Node a) first) (\<lambda>(s, ht).
         put_link s ht (Head ?i) (Some a))) = Inr (s1, ht\<lparr>ht_buckets := bs\<rparr>)"
      "hasht_at key s1 (ht\<lparr>ht_buckets := bs, ht_count := (ht_count ht + 1) mod SZ\<rparr>) ?cs" "frame {a} s s1"
      "\<forall>k. entries key ?cs k = (if key a = k then a # entries key cs k else entries key cs k)"
      by (rule insert_step [OF assms(1-3) lim])
    let ?ht = "ht\<lparr>ht_buckets := bs, ht_count := (ht_count ht + 1) mod SZ\<rparr>"
    have i': "?i < length cs" using i chains_length [OF c(1)] by simp
    have set: "set (concat ?cs) = insert a (set (concat cs))" by (rule set_put_front) (rule i')
    have len: "length (concat ?cs) = Suc (length (concat cs))" by (rule length_put_front) (rule i')
    then have "length (concat ?cs) < 2 ^ 50" "length (concat ?cs) < fuel" using assms(4,5) by simp_all
    from maybe_resize_ok [OF 1(2) this, of False]
    obtain s2 ht2 cs2 where 2: "maybe_resize fuel s1 ?ht False = Inr (Some (s2, ht2))" "hasht_at key s2 ht2 cs2"
      "frame (set (concat ?cs)) s1 s2" "set (concat cs2) = set (concat ?cs)"
      "\<forall>k. entries key cs2 k = (if resizes ?ht False then rev (entries key ?cs k) else entries key ?cs k)"
      "ht_dtor ht2 = ht_dtor ?ht" "ht_cached ht2 = ht_cached ?ht" by blast
    have "Hasht_insert_entry fuel s ht a dup =
        bindE (bindE (get_link s ht (Head ?i)) (\<lambda>first. bindE (put_link s ht (Node a) first) (\<lambda>(s, ht).
         put_link s ht (Head ?i) (Some a)))) (\<lambda>(s, ht).
         let ht = ht\<lparr>ht_count := (ht_count ht + 1) mod SZ\<rparr> in
         bindE (maybe_resize fuel s ht False) (\<lambda>r.
         case r of None \<Rightarrow> Inr (False, s, ht) | Some st \<Rightarrow> Inr (True, st)))"
      unfolding Hasht_insert_entry_def index_ok [OF c(2,4)] bindE_simps go using True
      by (simp add: bindE_assoc case_prod_unfold del: get_link.simps put_link.simps)
    also have "\<dots> = Inr (True, s2, ht2)" unfolding 1(1) using 2(1) by simp
    finally have run: "Hasht_insert_entry fuel s ht a dup = Inr (True, s2, ht2)" .
    have "frame (insert a (set (concat cs))) s s2" by (rule frame_trans [OF 1(3) 2(3)], unfold set) blast
    moreover have "\<forall>k. entries key cs2 k = (if resizes ?ht False then rev else id) (if key a = k then a # entries key cs k else entries key cs k)"
      using 2(5) 1(4) by simp
    then have "\<exists>rv. \<forall>k. entries key cs2 k = (if rv then rev else id) (if key a = k then a # entries key cs k else entries key cs k)" by blast
    ultimately show ?thesis using run 2(2,4,6,7) set True by (intro exI [of _ s2] exI [of _ ht2] exI [of _ cs2]) simp
  qed
qed

section \<open>Removal\<close>

lemma remove_loop_found:
  "keyed_by ht key \<Longrightarrow> lseg hn_next s p (us @ x # vs) NULL \<Longrightarrow> length (us @ x # vs) < fuel \<Longrightarrow>
     \<forall>u\<in>set us. key u \<noteq> key node \<Longrightarrow> key x = key node \<Longrightarrow>
     remove_loop fuel s ht node prev p = Inr (if us = [] then prev else Node (last us), Some x)"
proof (induction us arbitrary: p prev fuel)
  case Nil
  then show ?case by (cases fuel) (auto simp: equal_keys_ok)
next
  case (Cons u us)
  obtain f where f: "fuel = Suc f" "length (us @ x # vs) < f" using Cons.prems(3) by (cases fuel) auto
  obtain n where n: "p = Some u" "s u = Some n" "lseg hn_next s (hn_next n) (us @ x # vs) NULL" using Cons.prems(2) by auto
  have "key u \<noteq> key node" using Cons.prems(4) by simp
  with Cons.IH [OF Cons.prems(1) n(3) f(2) _ Cons.prems(5), of "Node u"] Cons.prems(4) show ?case
    using f(1) n(1,2) by (simp add: equal_keys_ok [OF Cons.prems(1)])
qed

lemma remove_loop_none:
  "keyed_by ht key \<Longrightarrow> lseg hn_next s p us NULL \<Longrightarrow> length us < fuel \<Longrightarrow> \<forall>u\<in>set us. key u \<noteq> key node \<Longrightarrow>
     \<exists>q. remove_loop fuel s ht node prev p = Inr (q, NULL)"
proof (induction us arbitrary: p prev fuel)
  case Nil
  then show ?case by (cases fuel) auto
next
  case (Cons u us)
  then show ?case by (cases fuel) (auto simp: equal_keys_ok)
qed

lemma chain_disjoint:
  assumes "chains_at key s ht cs" "i < ht_num_buckets ht" "j < ht_num_buckets ht" "i \<noteq> j"
  shows "set (cs ! i) \<inter> set (cs ! j) = {}"
  using chains_slot [OF assms(1)] assms(2-4) by blast

lemma chain_distinct:
  assumes "chains_at key s ht cs" "i < ht_num_buckets ht"
  shows "distinct (cs ! i)"
proof -
  have "distinct (concat cs)" using assms(1) by (simp add: chains_at_def)
  moreover have "cs ! i \<in> set cs" using assms(2) chains_length [OF assms(1)] by simp
  ultimately show ?thesis by (simp add: distinct_concat_iff)
qed

lemma concat_update:
  assumes "i < length cs" "cs ! i = us @ x # vs"
  obtains as bs where "concat cs = as @ x # bs" "concat (cs[i := us @ vs]) = as @ bs"
proof -
  have "cs = take i cs @ (us @ x # vs) # drop (Suc i) cs" using id_take_nth_drop [OF assms(1)] assms(2) by simp
  then have "concat cs = (concat (take i cs) @ us) @ x # (vs @ concat (drop (Suc i) cs))"
    by (metis (no_types) append.assoc append_Cons concat.simps(2) concat_append)
  moreover have "concat (cs[i := us @ vs]) = (concat (take i cs) @ us) @ (vs @ concat (drop (Suc i) cs))"
    using assms(1) by (simp add: upd_conv_take_nth_drop)
  ultimately show ?thesis by (rule that)
qed

lemma unlink_ok:
  assumes c: "chains_at key s ht cs" "i < ht_num_buckets ht" and xs: "cs ! i = us @ x # vs" and n: "s x = Some n"
  shows "\<exists>s' bs. put_link s ht (if us = [] then Head i else Node (last us)) (hn_next n) = Inr (s', ht\<lparr>ht_buckets := bs\<rparr>) \<and>
     chains_at key s' (ht\<lparr>ht_buckets := bs\<rparr>) (cs[i := us @ vs]) \<and> frame (set us) s s'"
proof -
  have chain: "lseg hn_next s (ht_buckets ht ! i) (us @ x # vs) NULL" using chains_lseg [OF c] xs by simp
  have dist: "distinct (us @ x # vs)" using chain_distinct [OF c] xs by simp
  have len: "length (ht_buckets ht) = ht_num_buckets ht" "length cs = ht_num_buckets ht" "pow2_buckets ht"
    using c(1) chains_length [OF c(1)] by (auto simp: chains_at_def)
  have i: "i < length cs" using c(2) len by simp
  obtain as bs where cat: "concat cs = as @ x # bs" "concat (cs[i := us @ vs]) = as @ bs"
    by (rule concat_update [OF i xs])
  have d: "distinct (concat (cs[i := us @ vs]))" using c(1) cat by (auto simp: chains_at_def)
  have sl: "\<forall>j<length (cs[i := us @ vs]). \<forall>a\<in>set (cs[i := us @ vs] ! j). slot ht (key a) = j"
  proof (intro allI impI ballI)
    fix j a assume j: "j < length (cs[i := us @ vs])" "a \<in> set (cs[i := us @ vs] ! j)"
    then have "a \<in> set (cs ! j)" using xs i by (cases "j = i") auto
    then show "slot ht (key a) = j" using chains_slot [OF c(1)] j(1) len(2) by simp
  qed
  show ?thesis
  proof (cases us rule: rev_cases)
    case Nil
    let ?bs = "(ht_buckets ht)[i := hn_next n]"
    have "lseg hn_next s (?bs ! j) (cs[i := us @ vs] ! j) NULL" if "j < ht_num_buckets ht" for j
      using chains_lseg [OF c(1) that] chain n Nil c(2) len that by (cases "j = i") auto
    then have l: "list_all2 (\<lambda>p xs. lseg hn_next s p xs NULL) ?bs (cs[i := us @ vs])"
      using len by (simp add: list_all2_conv_all_nth)
    have "chains_at key s (ht\<lparr>ht_buckets := ?bs\<rparr>) (cs[i := us @ vs])"
      by (rule chains_at_bucketsI [OF len(3) _ l d sl]) (simp add: len)
    then show ?thesis using Nil c(2) len(1) by (intro exI [of _ s] exI [of _ ?bs]) simp
  next
    case (snoc ws w)
    obtain m where w: "lseg hn_next s (ht_buckets ht ! i) ws (Some w)" "s w = Some m" "lseg hn_next s (hn_next n) vs NULL"
      using chain n snoc by (auto simp: lseg_append)
    let ?s = "s(w \<mapsto> m\<lparr>hn_next := hn_next n\<rparr>)"
    have "lseg hn_next ?s (ht_buckets ht ! i) (us @ vs) NULL"
      using w dist snoc by (auto simp: lseg_append)
    moreover have "w \<notin> set (cs ! j)" if "j < ht_num_buckets ht" "j \<noteq> i" for j
      using chain_disjoint [OF c(1,2) that(1)] that(2) xs snoc by auto
    ultimately have "lseg hn_next ?s (ht_buckets ht ! j) (cs[i := us @ vs] ! j) NULL" if "j < ht_num_buckets ht" for j
      using chains_lseg [OF c(1) that] i that by (cases "j = i") auto
    then have l: "list_all2 (\<lambda>p xs. lseg hn_next ?s p xs NULL) (ht_buckets ht) (cs[i := us @ vs])"
      using len by (simp add: list_all2_conv_all_nth)
    have "chains_at key ?s (ht\<lparr>ht_buckets := ht_buckets ht\<rparr>) (cs[i := us @ vs])"
      by (rule chains_at_bucketsI [OF len(3) len(1) l d sl])
    moreover have "frame (set us) s ?s" using w(2) snoc by (auto simp: frame_def)
    ultimately show ?thesis using w(2) snoc by (intro exI [of _ ?s] exI [of _ "ht_buckets ht"]) simp
  qed
qed

lemma chains_free:
  assumes "chains_at key s ht cs" "x \<notin> set (concat cs)"
  shows "chains_at key (s(x := None)) ht cs"
proof -
  have "lseg hn_next (s(x := None)) (ht_buckets ht ! i) (cs ! i) NULL" if "i < ht_num_buckets ht" for i
  proof -
    have "x \<notin> set (cs ! i)" using assms(2) that chains_length [OF assms(1)] unfolding in_concat by metis
    then show ?thesis using chains_lseg [OF assms(1) that] by simp
  qed
  then have "list_all2 (\<lambda>p xs. lseg hn_next (s(x := None)) p xs NULL) (ht_buckets ht) cs"
    using assms(1) chains_length [OF assms(1)] by (simp add: list_all2_conv_all_nth chains_at_def)
  then show ?thesis using assms(1) unfolding chains_at_def by blast
qed

lemma entries_unlink:
  assumes "chains_at key s ht cs" "chains_at key s' ht' (cs[slot ht (key x) := us @ vs])" "\<And>k. slot ht' k = slot ht k"
    and "cs ! slot ht (key x) = us @ x # vs" "\<forall>u\<in>set us. key u \<noteq> key x"
  shows "entries key (cs[slot ht (key x) := us @ vs]) k = (if k = key x then tl (entries key cs k) else entries key cs k)"
proof -
  have i: "slot ht (key x) < length cs" using slot_less [OF assms(1)] chains_length [OF assms(1)] by simp
  have us: "filter (\<lambda>a. key a = key x) us = []" using assms(5) by (simp add: filter_empty_conv)
  show ?thesis unfolding entries_chain [OF assms(1)] entries_chain [OF assms(2)] assms(3)
  proof (cases "slot ht k = slot ht (key x)")
    case True
    then show "filter (\<lambda>a. key a = k) (cs[slot ht (key x) := us @ vs] ! slot ht k) =
        (if k = key x then tl (filter (\<lambda>a. key a = k) (cs ! slot ht k)) else filter (\<lambda>a. key a = k) (cs ! slot ht k))"
      using i us assms(4) by auto
  next
    case False
    then show "filter (\<lambda>a. key a = k) (cs[slot ht (key x) := us @ vs] ! slot ht k) =
        (if k = key x then tl (filter (\<lambda>a. key a = k) (cs ! slot ht k)) else filter (\<lambda>a. key a = k) (cs ! slot ht k))"
      by auto
  qed
qed

definition dtor_for :: "hasht \<Rightarrow> bool \<Rightarrow> bool" where
  "dtor_for ht free \<longleftrightarrow> (free \<longrightarrow> (\<exists>d. ht_dtor ht = Some d \<and> frees_node d))"

lemma hasht_remove_ok:
  assumes "hasht_at key s ht cs" "length (concat cs) < 2 ^ 50" "length (concat cs) < fuel" "dtor_for ht free"
  shows "\<exists>s' ht' cs'. Hasht_remove_entry fuel s ht node free = Inr (entries key cs (key node) \<noteq> [], s', ht') \<and>
     hasht_at key s' ht' cs' \<and> ht_dtor ht' = ht_dtor ht \<and> (\<forall>b. b \<notin> set (concat cs) \<longrightarrow> s' b = s b) \<and>
     (if entries key cs (key node) = [] then s' = s \<and> ht' = ht \<and> cs' = cs
      else \<exists>x. x = hd (entries key cs (key node)) \<and> set (concat cs') = set (concat cs) - {x} \<and>
        dom s' = (if free then dom s - {x} else dom s) \<and>
        (\<exists>rv. \<forall>k. entries key cs' k = (if rv then rev else id) (if k = key node then tl (entries key cs k) else entries key cs k)))"
proof -
  have c: "chains_at key s ht cs" "keyed_by ht key" "ht_count ht = length (concat cs)" "pow2_buckets ht" "0 < ht_lf ht"
    and cached: "\<forall>c. ht_cached ht = Some c \<longrightarrow> c \<in> set (concat cs)" and dist: "distinct (concat cs)"
    using assms(1) by (auto simp: hasht_at_def chains_at_def)
  let ?i = "slot ht (key node)"
  have i: "?i < ht_num_buckets ht" by (rule slot_less [OF c(1)])
  have chain: "lseg hn_next s (ht_buckets ht ! ?i) (cs ! ?i) NULL" by (rule chains_lseg [OF c(1) i])
  have fuel: "length (cs ! ?i) < fuel" using chain_short [OF c(1) i] assms(3) by simp
  have ent: "entries key cs (key node) = filter (\<lambda>a. key a = key node) (cs ! ?i)" by (rule entries_chain [OF c(1)])
  show ?thesis
  proof (cases "entries key cs (key node) = []")
    case True
    then have "\<forall>u\<in>set (cs ! ?i). key u \<noteq> key node" by (simp add: ent filter_empty_conv)
    then obtain q where "remove_loop fuel s ht node (Head ?i) (ht_buckets ht ! ?i) = Inr (q, NULL)"
      using remove_loop_none [OF c(2) chain fuel] by blast
    then have "Hasht_remove_entry fuel s ht node free = Inr (False, s, ht)"
      using get_head [OF c(1) i] by (simp add: Hasht_remove_entry_def index_ok [OF c(2,4)] del: get_link.simps)
    then show ?thesis using True assms(1) by (intro exI [of _ s] exI [of _ ht] exI [of _ cs]) simp
  next
    case False
    then obtain x us vs where x: "cs ! ?i = us @ x # vs" "key x = key node" "\<forall>u\<in>set us. key u \<noteq> key node"
      using split_list_first_prop [of "cs ! ?i" "\<lambda>a. key a = key node"] by (auto simp: ent filter_empty_conv)
    have hd: "hd (entries key cs (key node)) = x"
      using x by (simp add: ent filter_empty_conv)
    obtain n where n: "s x = Some n" using lseg_dom [OF chain, of x] x(1) by auto
    obtain s1 bs where 1: "put_link s ht (if us = [] then Head ?i else Node (last us)) (hn_next n) = Inr (s1, ht\<lparr>ht_buckets := bs\<rparr>)"
        "chains_at key s1 (ht\<lparr>ht_buckets := bs\<rparr>) (cs[?i := us @ vs])" "frame (set us) s s1"
      using unlink_ok [OF c(1) i x(1) n] by blast
    let ?cs = "cs[?i := us @ vs]"
    have i': "?i < length cs" using i chains_length [OF c(1)] by simp
    obtain as zs where cat: "concat cs = as @ x # zs" "concat ?cs = as @ zs" by (rule concat_update [OF i' x(1)])
    have set: "set (concat ?cs) = set (concat cs) - {x}" "x \<notin> set (concat ?cs)" "x \<in> set (concat cs)"
      using dist cat by auto
    have ents: "entries key ?cs k = (if k = key node then tl (entries key cs k) else entries key cs k)" for k
      using entries_unlink [OF c(1), of s1 "ht\<lparr>ht_buckets := bs\<rparr>" x us vs] 1(2) x by simp
    define q where "q = (if \<exists>c. ht_cached ht = Some c \<and> key c = key node then NULL else ht_cached ht)"
    define s2 where "s2 = (if free then s1(x := None) else s1)"
    let ?ht = "ht\<lparr>ht_buckets := bs, ht_count := (ht_count ht + SZ - 1) mod SZ, ht_cached := q\<rparr>"
    have at2: "chains_at key s2 (ht\<lparr>ht_buckets := bs\<rparr>) ?cs"
      using 1(2) chains_free [OF 1(2) set(2)] by (simp add: s2_def)
    have "ht_count ht + SZ - 1 = length (concat ?cs) + SZ" using c(3) cat by simp
    then have count: "(ht_count ht + SZ - 1) mod SZ = length (concat ?cs)" using assms(2) cat by (simp add: SZ_num)
    have "\<forall>c. q = Some c \<longrightarrow> c \<in> set (concat ?cs)" unfolding set(1) using cached x(2) by (auto simp: q_def)
    from hasht_at_count [OF at2 c(2,5) count this] have at: "hasht_at key s2 ?ht ?cs" .
    have len: "length (concat ?cs) < 2 ^ 50" "length (concat ?cs) < fuel" using assms(2,3) cat by simp_all
    from maybe_resize_ok [OF at len, of True] obtain s3 ht3 cs3 where 3: "maybe_resize fuel s2 ?ht True = Inr (Some (s3, ht3))"
      "hasht_at key s3 ht3 cs3" "frame (set (concat ?cs)) s2 s3" "set (concat cs3) = set (concat ?cs)"
      "\<forall>k. entries key cs3 k = (if resizes ?ht True then rev (entries key ?cs k) else entries key ?cs k)"
      "ht_dtor ht3 = ht_dtor ?ht" by blast
    have x1: "x \<in> dom s1" using frame_dom [OF 1(3)] n by auto
    have dtor: "(if free then (case ht_dtor h of None \<Rightarrow> Inl (Throw ERROR_MISCONFIGURED) | Some d \<Rightarrow> d s1 x) else Inr s1) = Inr s2"
      if "ht_dtor h = ht_dtor ht" for h
      using assms(4) x1 that by (auto simp: dtor_for_def s2_def frees_nodeD)
    have k1: "keyed_by (ht\<lparr>ht_buckets := bs\<rparr>) key" using c(2) by (simp add: keyed_by_def)
    have hit: "cache_hit (ht\<lparr>ht_buckets := bs\<rparr>) node = Inr (\<exists>c. ht_cached ht = Some c \<and> key c = key node)"
      using cache_hit_ok [OF k1] by simp
    have loop: "remove_loop fuel s ht node (Head ?i) (ht_buckets ht ! ?i) = Inr (if us = [] then Head ?i else Node (last us), Some x)"
      using remove_loop_found [OF c(2) chain [unfolded x(1)] fuel [unfolded x(1)] x(3,2)] .
    have count0: "ht_count ht \<noteq> 0" using c(3) cat by simp
    let ?h = "if \<exists>c. ht_cached ht = Some c \<and> key c = key node then clear_cache (ht\<lparr>ht_buckets := bs\<rparr>) else ht\<lparr>ht_buckets := bs\<rparr>"
    have h: "?h\<lparr>ht_count := (ht_count ?h + SZ - 1) mod SZ\<rparr> = ?ht" "ht_dtor ?h = ht_dtor ht"
      by (auto simp: clear_cache_def q_def)
    have run: "Hasht_remove_entry fuel s ht node free = Inr (True, s3, ht3)"
      unfolding Hasht_remove_entry_def if_not_P [OF count0] index_ok [OF c(2,4)] bindE_simps get_head [OF c(1) i] loop prod.case
        option.case load_simps(3) [of s x, OF n] 1(1) hit Let_def dtor [OF h(2)] h(1) 3(1) ..
    have "s3 b = s b" if "b \<notin> set (concat cs)" for b
    proof -
      have "b \<notin> set us" using that x(1) i' unfolding in_concat by auto
      then show ?thesis using that set frame_other [OF 3(3), of b] frame_other [OF 1(3), of b] by (auto simp: s2_def)
    qed
    moreover have "dom s3 = (if free then dom s - {x} else dom s)"
      using frame_dom [OF 3(3)] frame_dom [OF 1(3)] by (simp add: s2_def)
    moreover have "\<exists>rv. \<forall>k. entries key cs3 k = (if rv then rev else id) (if k = key node then tl (entries key cs k) else entries key cs k)"
      using 3(5) ents by (intro exI [of _ "resizes ?ht True"]) simp
    ultimately show ?thesis using run 3(2,4,6) set(1) hd False by (intro exI [of _ s3] exI [of _ ht3] exI [of _ cs3]) simp
  qed
qed

section \<open>Creation and clearing\<close>

lemma hasht_new_ok:
  assumes "\<forall>a. key a \<noteq> [] \<and> 0 \<notin> set (key a)"
  shows "\<exists>ht. Hasht_new h (Some (\<lambda>a. Some (key a))) d lf = Inr ht \<and> hasht_at key s ht (replicate 16 []) \<and> ht_dtor ht = d"
proof -
  obtain ht where ht: "Hasht_new h (Some (\<lambda>a. Some (key a))) d lf = Inr ht" "ht_num_buckets ht = 16"
      "ht_buckets ht = replicate 16 NULL" "ht_count ht = 0" "0 < ht_lf ht" "ht_cached ht = NULL" "ht_dtor ht = d"
      "ht_key ht = (\<lambda>a. Some (key a))"
    by (simp add: Hasht_new_def allocate_hasht_def clear_cache_def Let_def HASHT_MIN_BUCKETS_def HASHT_MAX_BUCKETS_def
        HASHT_MAX_MEM_def SZ_num HASHT_DEFAULT_LOAD_FACTOR_def)
  have "pow2_buckets ht" unfolding pow2_buckets_def ht(2) by (intro exI [of _ 4]) simp
  then have "chains_at key s ht (replicate 16 [])" using replicate_chains [of ht key s] ht(2,3) by simp
  then show ?thesis using ht assms by (simp add: hasht_at_def keyed_by_def)
qed

lemma destroy_chain_ok:
  "frees_node d \<Longrightarrow> lseg hn_next s p xs NULL \<Longrightarrow> distinct xs \<Longrightarrow> length xs < fuel \<Longrightarrow>
     destroy_chain fuel s d p = Inr (\<lambda>b. if b \<in> set xs then None else s b)"
proof (induction xs arbitrary: s p fuel)
  case Nil
  then show ?case by (cases fuel) auto
next
  case (Cons a xs)
  obtain f where f: "fuel = Suc f" "length xs < f" using Cons.prems(4) by (cases fuel) auto
  obtain n where n: "p = Some a" "s a = Some n" "lseg hn_next s (hn_next n) xs NULL" using Cons.prems(2) by auto
  have "lseg hn_next (s(a := None)) (hn_next n) xs NULL" using n(3) Cons.prems(3) by simp
  moreover have "distinct xs" using Cons.prems(3) by simp
  ultimately have "destroy_chain f (s(a := None)) d (hn_next n) = Inr (\<lambda>b. if b \<in> set xs then None else (s(a := None)) b)"
    by (rule Cons.IH [OF Cons.prems(1) _ _ f(2)])
  moreover have "(\<lambda>b. if b \<in> set xs then None else (s(a := None)) b) = (\<lambda>b. if b \<in> set (a # xs) then None else s b)"
    by auto
  ultimately show ?case using f(1) n(1,2) frees_nodeD [OF Cons.prems(1), of s a n, OF n(2)] by simp
qed

lemma destroy_chains_ok:
  assumes "chains_at key s ht cs" "frees_node d" "ht_dtor ht = Some d" "length (concat cs) < fuel" "m \<le> ht_num_buckets ht"
  shows "foldE (\<lambda>s i. bindE (get_link s ht (Head i)) (\<lambda>htn. destroy_chain fuel s d htn)) s [0..<m] =
     Inr (\<lambda>b. if b \<in> set (concat (take m cs)) then None else s b)"
  using assms(5)
proof (induction m)
  case 0
  then show ?case by simp
next
  case (Suc m)
  have m: "m < ht_num_buckets ht" "m < length cs" using Suc.prems chains_length [OF assms(1)] by simp_all
  let ?s = "\<lambda>b. if b \<in> set (concat (take m cs)) then None else s b"
  have dist: "distinct (concat cs)" using assms(1) by (simp add: chains_at_def)
  have "concat cs = concat (take m cs) @ cs ! m @ concat (drop (Suc m) cs)"
    by (metis append_take_drop_id concat.simps(2) concat_append Cons_nth_drop_Suc m(2))
  with dist have d: "distinct (cs ! m)" "set (concat (take m cs)) \<inter> set (cs ! m) = {}" by (simp_all add: Int_Un_distrib)
  have "lseg hn_next ?s (ht_buckets ht ! m) (cs ! m) NULL = lseg hn_next s (ht_buckets ht ! m) (cs ! m) NULL"
    by (rule lseg_cong) (use d(2) in auto)
  then have chain: "lseg hn_next ?s (ht_buckets ht ! m) (cs ! m) NULL" using chains_lseg [OF assms(1) m(1)] by blast
  have fuel: "length (cs ! m) < fuel" using chain_short [OF assms(1) m(1)] assms(4) by simp
  have "concat (take (Suc m) cs) = concat (take m cs) @ cs ! m" by (simp add: take_Suc_conv_app_nth m(2))
  then have "(\<lambda>b. if b \<in> set (cs ! m) then None else ?s b) = (\<lambda>b. if b \<in> set (concat (take (Suc m) cs)) then None else s b)"
    by auto
  with Suc destroy_chain_ok [OF assms(2) chain d(1) fuel] show ?case
    using get_head [OF assms(1) m(1)] by (simp add: foldE_append del: get_link.simps)
qed

lemma hasht_clear_ok:
  assumes "hasht_at key s ht cs" "dtor_for ht True" "length (concat cs) < fuel"
  shows "\<exists>ht'. Hasht_clear fuel s ht True = Inr (\<lambda>b. if b \<in> set (concat cs) then None else s b, ht') \<and>
     hasht_at key (\<lambda>b. if b \<in> set (concat cs) then None else s b) ht' (replicate 16 []) \<and> ht_dtor ht' = ht_dtor ht"
proof -
  let ?s = "\<lambda>b. if b \<in> set (concat cs) then None else s b"
  have c: "chains_at key s ht cs" "keyed_by ht key" "0 < ht_lf ht" using assms(1) by (auto simp: hasht_at_def)
  obtain d where d: "ht_dtor ht = Some d" "frees_node d" using assms(2) by (auto simp: dtor_for_def)
  have "take (ht_num_buckets ht) cs = cs" using chains_length [OF c(1)] by simp
  with destroy_chains_ok [OF c(1) d(2,1) assms(3) order_refl]
  have s: "destroy_chains fuel s ht = Inr ?s" using d(1) by (simp add: destroy_chains_def del: get_link.simps set_concat)
  let ?ht = "ht\<lparr>ht_buckets := replicate 16 NULL, ht_num_buckets := 16, ht_count := 0, ht_cached := NULL\<rparr>"
  have "Hasht_clear fuel s ht True = Inr (?s, ?ht)"
    using s by (simp add: Hasht_clear_def clear_cache_def allocate_hasht_def Let_def HASHT_MIN_BUCKETS_def HASHT_MAX_BUCKETS_def
        HASHT_MAX_MEM_def SZ_num del: set_concat)
  moreover have "pow2_buckets ?ht" unfolding pow2_buckets_def by (intro exI [of _ 4]) simp
  then have "chains_at key ?s ?ht (replicate 16 [])" using replicate_chains [of ?ht key ?s] by simp
  then have "hasht_at key ?s ?ht (replicate 16 [])" using c(2,3) by (simp add: hasht_at_def keyed_by_def)
  ultimately show ?thesis by (intro exI [of _ ?ht]) simp
qed

end
