(* ===== verification/Hasht_Map.thy ===== *)
theory Hasht_Map
  imports Hasht_Ops
begin

text \<open>
  The hash table as a map from keys to nodes (interpretation of \<open>key_map\<close>), what its operations promise,
  and the behaviours that contradict the documentation of duplicates and of binary keys.
\<close>

section \<open>The table as a map\<close>

definition hasht_repr :: "(addr \<Rightarrow> 8 word list) \<Rightarrow> hasht_state \<Rightarrow> (8 word list \<Rightarrow> addr option) \<Rightarrow> bool" where
  "hasht_repr key = (\<lambda>(s, ht) f. \<exists>cs. hasht_at key s ht cs \<and> f = first_entry key cs \<and>
     (\<forall>k. length (entries key cs k) \<le> 1))"

definition hasht_usable :: "hasht_state \<Rightarrow> addr \<Rightarrow> bool" where
  "hasht_usable = (\<lambda>(s, ht) a. a \<in> dom s)"

lemma first_entry_hd: "first_entry key cs k = (if entries key cs k = [] then NULL else Some (hd (entries key cs k)))"
  by (auto simp: first_entry_def split: list.split)

lemma one_entry: "length xs \<le> 1 \<Longrightarrow> rev xs = xs \<and> tl xs = []"
  by (cases xs) auto

lemma rev_if_one: "length xs \<le> 1 \<Longrightarrow> (if rv then rev else id) xs = xs"
  by (simp add: one_entry)

lemma first_entry_dom: "dom (first_entry key cs) = key ` set (concat cs)"
  by (auto simp: first_entry_hd entries_def filter_empty_conv simp del: set_concat split: if_splits)

lemma card_first_entry:
  assumes "distinct (concat cs)" "\<forall>k. length (entries key cs k) \<le> 1"
  shows "card (dom (first_entry key cs)) = length (concat cs)"
proof -
  have "inj_on key (set (concat cs))"
  proof (rule inj_onI)
    fix a b assume ab: "a \<in> set (concat cs)" "b \<in> set (concat cs)" "key a = key b"
    then have "a \<in> set (entries key cs (key a))" "b \<in> set (entries key cs (key a))" by (simp_all only: in_entries)
    then show "a = b" using assms(2) [rule_format, of "key a"] by (cases "entries key cs (key a)") auto
  qed
  then show ?thesis unfolding first_entry_dom by (simp only: card_image distinct_card [OF assms(1)])
qed

lemma first_entry_key: "first_entry key cs k = Some a \<Longrightarrow> key a = k \<and> a \<in> set (concat cs)"
  using in_entries [of a key cs k] by (auto simp: first_entry_hd split: if_splits simp del: set_concat)

lemma repr_lookup:
  assumes "hasht_repr key (s, ht) f" "card (dom f) < fuel"
  shows "\<exists>m'. bindE (Hasht_get_entry fuel s ht a) (\<lambda>(p, ht). Inr (p, s, ht)) = Inr (f (key a), m') \<and>
     hasht_repr key m' f \<and> (\<forall>b. hasht_usable (s, ht) b \<longrightarrow> hasht_usable m' b)"
proof -
  obtain cs where cs: "hasht_at key s ht cs" "f = first_entry key cs" "\<forall>k. length (entries key cs k) \<le> 1"
    using assms(1) by (auto simp: hasht_repr_def)
  have "distinct (concat cs)" using cs(1) by (simp add: hasht_at_def chains_at_def)
  then have "length (concat cs) < fuel" using card_first_entry cs(2,3) assms(2) by simp
  from get_entry_ok [OF cs(1) this, of a] obtain p where
    p: "Hasht_get_entry fuel s ht a = Inr (p, ht\<lparr>ht_cached := if p = NULL then ht_cached ht else p\<rparr>)"
    and p': "p = (case ht_cached ht of Some c \<Rightarrow> if key c = key a then Some c else first_entry key cs (key a)
                | None \<Rightarrow> first_entry key cs (key a))" by blast
  have "p = f (key a)"
  proof (cases "\<exists>c. ht_cached ht = Some c \<and> key c = key a")
    case True
    then obtain c where c: "ht_cached ht = Some c" "key c = key a" by blast
    then have "c \<in> set (entries key cs (key a))" using cs(1) unfolding in_entries hasht_at_def by blast
    then have "first_entry key cs (key a) = Some c"
      using cs(3) [rule_format, of "key a"] by (cases "entries key cs (key a)") (auto simp: first_entry_def)
    then show ?thesis using p' c cs(2) by simp
  next
    case False
    then show ?thesis using p' cs(2) by (auto split: option.splits)
  qed
  moreover have "hasht_at key s (ht\<lparr>ht_cached := if p = NULL then ht_cached ht else p\<rparr>) cs"
  proof -
    have "chains_at key s (ht\<lparr>ht_cached := if p = NULL then ht_cached ht else p\<rparr>) cs"
      by (rule iffD2 [OF chains_at_cong conjunct1 [OF cs(1) [unfolded hasht_at_def]]]) simp_all
    moreover have "c \<in> set (concat cs)" if "p = Some c" for c
      using that \<open>p = f (key a)\<close> first_entry_key cs(2) by metis
    ultimately show ?thesis using cs(1) unfolding hasht_at_def keyed_by_def by (simp del: set_concat)
  qed
  ultimately show ?thesis using p cs(2,3) by (auto simp: hasht_repr_def hasht_usable_def)
qed

lemma repr_insert:
  assumes "hasht_repr key (s, ht) f" "hasht_usable (s, ht) a" "a \<notin> ran f" "card (dom f) < min (fuel - 1) (2 ^ 50 - 1)"
  shows "\<exists>m'. Hasht_insert_entry fuel s ht a False = Inr (f (key a) = NULL, m') \<and>
     hasht_repr key m' (if f (key a) = NULL then f(key a \<mapsto> a) else f) \<and> (\<forall>b. hasht_usable (s, ht) b \<longrightarrow> hasht_usable m' b)"
proof -
  obtain cs where cs: "hasht_at key s ht cs" "f = first_entry key cs" "\<forall>k. length (entries key cs k) \<le> 1"
    using assms(1) by (auto simp: hasht_repr_def)
  have "distinct (concat cs)" using cs(1) by (simp add: hasht_at_def chains_at_def)
  then have len: "length (concat cs) < 2 ^ 50 - 1" "Suc (length (concat cs)) < fuel"
    using card_first_entry cs(2,3) assms(4) by auto
  have fresh: "a \<notin> set (concat cs)"
  proof
    assume "a \<in> set (concat cs)"
    then have "a \<in> set (entries key cs (key a))" by (simp only: in_entries)
    then have "f (key a) = Some a"
      using cs(2,3) by (cases "entries key cs (key a)") (auto simp: first_entry_def dest: spec [of _ "key a"])
    then show False using assms(3) by (auto simp: ran_def)
  qed
  obtain n where n: "s a = Some n" using assms(2) by (auto simp: hasht_usable_def)
  have empty: "entries key cs (key a) = [] \<longleftrightarrow> f (key a) = NULL" by (simp add: cs(2) first_entry_hd)
  obtain s' ht' cs' where
    1: "Hasht_insert_entry fuel s ht a False = Inr (False \<or> f (key a) = NULL, s', ht')" "hasht_at key s' ht' cs'"
      "frame (insert a (set (concat cs))) s s'"
    and 2: "if False \<or> f (key a) = NULL then set (concat cs') = insert a (set (concat cs)) \<and>
        (\<exists>rv. \<forall>k. entries key cs' k = (if rv then rev else id) (if key a = k then a # entries key cs k else entries key cs k))
      else s' = s \<and> ht' = ht \<and> cs' = cs"
    using hasht_insert_ok [OF cs(1) n fresh len, of False, unfolded empty] by (elim exE conjE) (rule that)
  have "hasht_repr key (s', ht') (if f (key a) = NULL then f(key a \<mapsto> a) else f)"
  proof (cases "f (key a) = NULL")
    case True
    then obtain rv where rv: "entries key cs' k = (if rv then rev else id) (if key a = k then a # entries key cs k else entries key cs k)" for k
      using 2 by auto
    have e0: "entries key cs (key a) = []" using empty True by blast
    have short: "length (if key a = k then a # entries key cs k else entries key cs k) \<le> 1" for k
      using cs(3) e0 by (cases "key a = k") auto
    have e: "entries key cs' k = (if key a = k then a # entries key cs k else entries key cs k)" for k
      unfolding rv by (rule rev_if_one [OF short])
    have "first_entry key cs' = f(key a \<mapsto> a)" by (rule ext) (simp add: first_entry_hd e cs(2))
    moreover have "length (entries key cs' k) \<le> 1" for k unfolding e by (rule short)
    ultimately show ?thesis using 1(2) True by (auto simp: hasht_repr_def)
  next
    case False
    then obtain y where "f (key a) = Some y" by blast
    then show ?thesis using 2 assms(1) by simp
  qed
  then show ?thesis using 1(1) frame_dom [OF 1(3)] by (auto simp: hasht_usable_def)
qed

lemma repr_remove:
  assumes "hasht_repr key (s, ht) f" "card (dom f) \<le> min (fuel - 1) (2 ^ 50 - 1)" "0 < fuel"
  shows "\<exists>m'. Hasht_remove_entry fuel s ht a False = Inr (f (key a) \<noteq> NULL, m') \<and>
     hasht_repr key m' (f(key a := NULL)) \<and> (\<forall>b. hasht_usable (s, ht) b \<longrightarrow> hasht_usable m' b)"
proof -
  obtain cs where cs: "hasht_at key s ht cs" "f = first_entry key cs" "\<forall>k. length (entries key cs k) \<le> 1"
    using assms(1) by (auto simp: hasht_repr_def)
  have "distinct (concat cs)" using cs(1) by (simp add: hasht_at_def chains_at_def)
  then have len: "length (concat cs) < 2 ^ 50" "length (concat cs) < fuel"
    using card_first_entry cs(2,3) assms(2,3) by auto
  have empty: "entries key cs (key a) = [] \<longleftrightarrow> f (key a) = NULL" by (simp add: cs(2) first_entry_hd)
  have "dtor_for ht False" by (simp add: dtor_for_def)
  from hasht_remove_ok [OF cs(1) len this, of a, unfolded empty] obtain s' ht' cs' where
    1: "Hasht_remove_entry fuel s ht a False = Inr (f (key a) \<noteq> NULL, s', ht')" "hasht_at key s' ht' cs'"
    and 2: "if f (key a) = NULL then s' = s \<and> ht' = ht \<and> cs' = cs
      else \<exists>x. x = hd (entries key cs (key a)) \<and> set (concat cs') = set (concat cs) - {x} \<and>
        dom s' = (if False then dom s - {x} else dom s) \<and>
        (\<exists>rv. \<forall>k. entries key cs' k = (if rv then rev else id) (if k = key a then tl (entries key cs k) else entries key cs k))"
    by (elim exE conjE) (rule that)
  have dom: "dom s' = dom s" using 2 by (auto split: if_splits)
  have "hasht_repr key (s', ht') (f(key a := NULL))"
  proof (cases "f (key a) = NULL")
    case True
    then have "f(key a := NULL) = f" by auto
    then show ?thesis using 2 True assms(1) by simp
  next
    case False
    then obtain rv where rv: "entries key cs' k = (if rv then rev else id) (if k = key a then tl (entries key cs k) else entries key cs k)" for k
      using 2 by auto
    have short: "length (if k = key a then tl (entries key cs k) else entries key cs k) \<le> 1" for k
      using cs(3) by (cases "k = key a") (simp_all add: le_diff_conv le_SucI)
    have t: "tl (entries key cs k) = []" for k using cs(3) one_entry by blast
    have e: "entries key cs' k = (if k = key a then [] else entries key cs k)" for k
      using rev_if_one [OF short, of rv k] unfolding rv t .
    have "first_entry key cs' = f(key a := NULL)" by (rule ext) (simp add: first_entry_hd e cs(2))
    moreover have "length (entries key cs' k) \<le> 1" for k unfolding e using cs(3) by (cases "k = key a") simp_all
    ultimately show ?thesis using 1(2) by (auto simp: hasht_repr_def)
  qed
  then show ?thesis using 1(1) dom by (auto simp: hasht_usable_def)
qed

interpretation ht: key_map "hasht_repr key" key hasht_usable "min fuel (2 ^ 50 - 1)"
  "\<lambda>(s, ht) a. bindE (Hasht_get_entry (Suc fuel) s ht a) (\<lambda>(p, ht). Inr (p, s, ht))"
  "\<lambda>(s, ht) a. Hasht_insert_entry (Suc fuel) s ht a False"
  "\<lambda>(s, ht) a. Hasht_remove_entry (Suc fuel) s ht a False"
  for key fuel
proof (unfold_locales, goal_cases)
  case (1 m f a)
  obtain s ht where m: "m = (s, ht)" by (cases m)
  have "card (dom f) < Suc fuel" using 1(2) by simp
  from repr_lookup [OF 1(1) [unfolded m] this] show ?case unfolding m prod.case .
next
  case (2 m f a)
  obtain s ht where m: "m = (s, ht)" by (cases m)
  have "card (dom f) < min (Suc fuel - 1) (2 ^ 50 - 1)" using 2(4) by simp
  from repr_insert [OF 2(1,2) [unfolded m] 2(3) this] show ?case unfolding m prod.case .
next
  case (3 m f a)
  obtain s ht where m: "m = (s, ht)" by (cases m)
  have "card (dom f) \<le> min (Suc fuel - 1) (2 ^ 50 - 1)" "0 < Suc fuel" using 3(2) by simp_all
  from repr_remove [OF 3(1) [unfolded m] this] show ?case unfolding m prod.case .
next
  case (4 m f)
  then show ?case by (auto simp: hasht_repr_def first_entry_dom simp del: set_concat)
qed

section \<open>A concrete table\<close>

definition ht_ex_key :: "addr \<Rightarrow> 8 word list" where
  "ht_ex_key a = [word_of_nat (a mod 200 + 1)]"

definition ht_ex_store :: "hashtnode store" where
  "ht_ex_store a = (if a < 300 then Some \<lparr>hn_next = NULL\<rparr> else None)"

definition ht_ex :: hasht where
  "ht_ex = \<lparr>ht_num_buckets = 16, ht_count = 0, ht_lf = 80, ht_hash = djb2, ht_key = (\<lambda>a. Some (ht_ex_key a)),
     ht_dtor = Some free_dtor, ht_buckets = replicate 16 NULL, ht_cached = NULL\<rparr>"

definition ht_ex1 :: hasht where
  "ht_ex1 = ht_ex\<lparr>ht_count := 1, ht_buckets := (replicate 16 NULL)[9 := Some 3], ht_cached := Some 3\<rparr>"

definition ht_ex1_chains :: "addr list list" where
  "ht_ex1_chains = (replicate 16 [])[9 := [3]]"

lemma ht_ex_key_ok: "\<forall>a. ht_ex_key a \<noteq> [] \<and> 0 \<notin> set (ht_ex_key a)"
proof
  fix a :: addr
  have "a mod 200 < 200" by simp
  then have "\<not> 256 dvd a mod 200 + 1" by (auto dest: dvd_imp_le)
  then have "(word_of_nat (a mod 200 + 1) :: 8 word) \<noteq> 0" by (simp add: word_of_nat_eq_0_iff del: of_nat_add of_nat_Suc)
  then show "ht_ex_key a \<noteq> [] \<and> 0 \<notin> set (ht_ex_key a)" by (simp add: ht_ex_key_def del: of_nat_add of_nat_Suc)
qed

lemma ht_ex_at: "hasht_at ht_ex_key ht_ex_store ht_ex (replicate 16 [])"
proof -
  have "pow2_buckets ht_ex" unfolding pow2_buckets_def by (intro exI [of _ 4]) (simp add: ht_ex_def)
  then have "chains_at ht_ex_key ht_ex_store ht_ex (replicate 16 [])"
    using replicate_chains [of ht_ex ht_ex_key ht_ex_store] by (simp add: ht_ex_def)
  then show ?thesis using ht_ex_key_ok by (simp add: hasht_at_def keyed_by_def ht_ex_def)
qed

lemma ht_ex1_slot: "slot ht_ex1 (ht_ex_key 3) = 9"
proof -
  have "djb2 (ht_ex_key 3) = 177577" by (simp add: djb2_def ht_ex_key_def)
  then show ?thesis by (simp add: slot_def ht_ex1_def ht_ex_def PRIME_SCRAMBLER_def unat_mod)
qed

lemma ht_ex1_concat: "concat ht_ex1_chains = [3]"
  by code_simp

lemma ht_ex1_at: "hasht_at ht_ex_key ht_ex_store ht_ex1 ht_ex1_chains"
proof -
  have "pow2_buckets ht_ex1" unfolding pow2_buckets_def by (intro exI [of _ 4]) (simp add: ht_ex_def ht_ex1_def)
  moreover have "list_all2 (\<lambda>p xs. lseg hn_next ht_ex_store p xs NULL) (ht_buckets ht_ex1) ht_ex1_chains"
    by (simp add: ht_ex1_def ht_ex_def ht_ex1_chains_def list_all2_conv_all_nth nth_list_update ht_ex_store_def)
  moreover have "\<forall>i<length ht_ex1_chains. \<forall>a\<in>set (ht_ex1_chains ! i). slot ht_ex1 (ht_ex_key a) = i"
    by (auto simp: ht_ex1_chains_def nth_list_update ht_ex1_slot split: if_splits)
  ultimately have "chains_at ht_ex_key ht_ex_store ht_ex1 ht_ex1_chains"
    using ht_ex1_concat by (simp add: chains_at_def ht_ex1_def ht_ex_def)
  then show ?thesis using ht_ex_key_ok unfolding hasht_at_def ht_ex1_concat by (simp add: keyed_by_def ht_ex1_def ht_ex_def)
qed

lemma ht_ex1_entries: "entries ht_ex_key ht_ex1_chains k = (if k = ht_ex_key 3 then [3] else [])"
  by (auto simp: entries_def ht_ex1_concat)

section \<open>Properties\<close>



text \<open>Inserting a node into a hash table reports success exactly when duplicates are allowed or no entry has its key; then the node comes first among the entries with its key and no entry is lost, except that a resize of the table reverses the order of the entries that share a key. Otherwise nothing changes. Only the node and the entries are written.\<close>

theorem Hasht_insert_correct:
  assumes "hasht_at key s ht cs" "s a = Some n" "a \<notin> set (concat cs)" "length (concat cs) < 2 ^ 50 - 1"
    and "Suc (length (concat cs)) < fuel"
  shows "\<exists>s' ht' cs'. Hasht_insert_entry fuel s ht a dup = Inr (dup \<or> entries key cs (key a) = [], s', ht') \<and>
     hasht_at key s' ht' cs' \<and> frame (insert a (set (concat cs))) s s' \<and> ht_dtor ht' = ht_dtor ht \<and>
     ht_cached ht' = ht_cached ht \<and>
     (if dup \<or> entries key cs (key a) = []
      then set (concat cs') = insert a (set (concat cs)) \<and>
        (\<exists>rv. \<forall>k. entries key cs' k = (if rv then rev else id) (if key a = k then a # entries key cs k else entries key cs k))
      else s' = s \<and> ht' = ht \<and> cs' = cs)"
  by (rule hasht_insert_ok [OF assms])

theorem Hasht_insert_witness:
  "\<exists>s' ht'. Hasht_insert_entry 5 ht_ex_store ht_ex1 203 False = Inr (False, s', ht') \<and> ht_count ht' = 1 \<and>
     hasht_at ht_ex_key s' ht' ht_ex1_chains"
proof -
  have e: "entries ht_ex_key ht_ex1_chains (ht_ex_key 203) \<noteq> []" unfolding ht_ex1_entries by (simp add: ht_ex_key_def)
  have n: "ht_ex_store 203 = Some \<lparr>hn_next = NULL\<rparr>" by (simp add: ht_ex_store_def)
  show ?thesis
    using Hasht_insert_correct [OF ht_ex1_at n, of 5 False, unfolded ht_ex1_concat] e ht_ex1_at
    by (auto simp: ht_ex1_def)
qed

text \<open>Removing from a hash table reports whether an entry with the key exists; the first one in its chain is unlinked, and freed when requested, while every other entry stays. The table may shrink, which reverses the order of entries that share a key.\<close>

theorem Hasht_remove_correct:
  assumes "hasht_at key s ht cs" "length (concat cs) < 2 ^ 50" "length (concat cs) < fuel" "dtor_for ht free"
  shows "\<exists>s' ht' cs'. Hasht_remove_entry fuel s ht node free = Inr (entries key cs (key node) \<noteq> [], s', ht') \<and>
     hasht_at key s' ht' cs' \<and> ht_dtor ht' = ht_dtor ht \<and> (\<forall>b. b \<notin> set (concat cs) \<longrightarrow> s' b = s b) \<and>
     (if entries key cs (key node) = [] then s' = s \<and> ht' = ht \<and> cs' = cs
      else \<exists>x. x = hd (entries key cs (key node)) \<and> set (concat cs') = set (concat cs) - {x} \<and>
        dom s' = (if free then dom s - {x} else dom s) \<and>
        (\<exists>rv. \<forall>k. entries key cs' k = (if rv then rev else id) (if k = key node then tl (entries key cs k) else entries key cs k)))"
  by (rule hasht_remove_ok [OF assms])

theorem Hasht_remove_witness:
  "\<exists>s' ht' cs'. Hasht_remove_entry 5 ht_ex_store ht_ex1 203 True = Inr (True, s', ht') \<and> dom s' = {..<300} - {3} \<and>
     hasht_at ht_ex_key s' ht' cs' \<and> set (concat cs') = {}"
proof -
  have k: "ht_ex_key 203 = ht_ex_key 3" by (simp add: ht_ex_key_def)
  have d: "dtor_for ht_ex1 True" using frees_node_free_dtor by (simp add: dtor_for_def ht_ex1_def ht_ex_def)
  have "dom ht_ex_store = {..<300}" by (auto simp: ht_ex_store_def dom_def split: if_splits)
  then show ?thesis
    using Hasht_remove_correct [OF ht_ex1_at _ _ d, of 5 203, unfolded ht_ex1_concat k ht_ex1_entries] by auto
qed

text \<open>Clearing a hash table with its destructor frees every entry exactly once, no other node, and leaves an empty table of the minimum size.\<close>

theorem Hasht_clear_frees_all:
  assumes "hasht_at key s ht cs" "dtor_for ht True" "length (concat cs) < fuel"
  shows "\<exists>ht'. Hasht_clear fuel s ht True = Inr (\<lambda>b. if b \<in> set (concat cs) then None else s b, ht') \<and>
     hasht_at key (\<lambda>b. if b \<in> set (concat cs) then None else s b) ht' (replicate 16 []) \<and> ht_dtor ht' = ht_dtor ht"
  by (rule hasht_clear_ok [OF assms])

theorem Hasht_clear_witness:
  "\<exists>s' ht'. Hasht_clear 2 ht_ex_store ht_ex1 True = Inr (s', ht') \<and> s' 3 = None \<and> s' 4 = Some \<lparr>hn_next = NULL\<rparr>"
proof -
  have d: "dtor_for ht_ex1 True" using frees_node_free_dtor by (simp add: dtor_for_def ht_ex1_def ht_ex_def)
  show ?thesis
    using Hasht_clear_frees_all [OF ht_ex1_at d, of 2, unfolded ht_ex1_concat] by (auto simp: ht_ex_store_def)
qed

text \<open>The cache breaks the promised order of duplicates: after a lookup of a key, inserting a second node with the key and looking it up again returns the older node, and the new one stays hidden.\<close>

theorem Hasht_duplicate_hidden:
  assumes "hasht_at key s ht cs" "ht_cached ht = Some c" "key c = key a" "s a = Some n" "a \<notin> set (concat cs)"
    and "length (concat cs) < 2 ^ 50 - 1" "Suc (length (concat cs)) < fuel"
  shows "\<exists>s' ht' cs'. Hasht_insert_entry fuel s ht a True = Inr (True, s', ht') \<and> hasht_at key s' ht' cs' \<and>
     a \<in> set (entries key cs' (key a)) \<and> Hasht_get_entry fuel s' ht' a = Inr (Some c, ht')"
proof -
  obtain s' ht' cs' where 1: "Hasht_insert_entry fuel s ht a True = Inr (True \<or> entries key cs (key a) = [], s', ht')"
      "hasht_at key s' ht' cs'" "frame (insert a (set (concat cs))) s s'" "ht_dtor ht' = ht_dtor ht" "ht_cached ht' = ht_cached ht"
    and 2: "if True \<or> entries key cs (key a) = []
      then set (concat cs') = insert a (set (concat cs)) \<and>
        (\<exists>rv. \<forall>k. entries key cs' k = (if rv then rev else id) (if key a = k then a # entries key cs k else entries key cs k))
      else s' = s \<and> ht' = ht \<and> cs' = cs"
    using hasht_insert_ok [OF assms(1,4,5,6,7), of True] by (elim exE conjE) (rule that)
  have k: "keyed_by ht' key" and count: "ht_count ht' = length (concat cs')" using 1(2) by (simp_all add: hasht_at_def)
  have a: "a \<in> set (concat cs')" using 2 by (simp only: HOL.simp_thms if_True) blast
  then have "ht_count ht' \<noteq> 0" unfolding count by (cases "concat cs'") auto
  moreover have "cache_hit ht' a = Inr True" using cache_hit_ok [OF k, of a] 1(5) assms(2,3) by simp
  ultimately have "Hasht_get_entry fuel s' ht' a = Inr (Some c, ht')"
    using 1(5) assms(2) by (simp add: Hasht_get_entry_def)
  moreover have "a \<in> set (entries key cs' (key a))" using a by (simp only: in_entries)
  ultimately show ?thesis using 1(1,2) by auto
qed

theorem Hasht_duplicate_hidden_witness:
  "\<exists>s' ht'. Hasht_insert_entry 5 ht_ex_store ht_ex1 203 True = Inr (True, s', ht') \<and>
     Hasht_get_entry 5 s' ht' 203 = Inr (Some 3, ht')"
proof -
  have c: "ht_cached ht_ex1 = Some 3" "ht_ex_key 3 = ht_ex_key 203" "ht_ex_store 203 = Some \<lparr>hn_next = NULL\<rparr>"
    by (simp_all add: ht_ex1_def ht_ex_key_def ht_ex_store_def)
  show ?thesis using Hasht_duplicate_hidden [OF ht_ex1_at c, of 5, unfolded ht_ex1_concat] by auto
qed

text \<open>Hasht_maxcap always stops the process: its assertion compares a limit on entries of about 2^54 with a limit on buckets of about 2^57.\<close>

lemma Hasht_maxcap_aborts: "Hasht_maxcap = Inl AssertFail"
  by (simp add: Hasht_maxcap_def HASHT_MAX_COUNT_def HASHT_MAX_BUCKETS_def HASHT_MAX_MEM_def SZ_num)

text \<open>Keys of equal length that agree up to a NUL byte count as equal, whatever follows it.\<close>

lemma equal_keys_ignores_rest:
  assumes "ht_key ht a = Some (ks @ 0 # xs)" "ht_key ht b = Some (ks @ 0 # ys)" "length xs = length ys"
  shows "equal_keys ht a b = Inr True"
proof -
  have "strncmp (ks @ 0 # xs) (ks @ 0 # ys) (length (ks @ 0 # xs)) = 0" by (induction ks) auto
  then show ?thesis using assms by (simp add: equal_keys_def key_bytes_def)
qed

end
