(* ===== verification/Md5.thy ===== *)
theory Md5
  imports Bits
begin

text \<open>
  The MD5 digest of \<open>src/hash/md5/md5sum.c\<close> with the congruence helper of \<open>impl/math_impl.h\<close>. A context keeps
  the four registers, the block being filled, the cursor into it and the length of the input so far. A block is
  read as sixteen words in little-endian order: the source decodes it to host order in place and reads host
  words. File input is a list of the results of \<open>read\<close>.
\<close>

section \<open>Congruent values\<close>

text \<open>The arithmetic is that of \<open>uint32_t\<close>; the modulus must not be 0 when it is used.\<close>

definition find_congruent_value :: "32 word \<Rightarrow> 32 word \<Rightarrow> 32 word \<Rightarrow> 32 word res" where
  "find_congruent_value v b m =
     (if v = b then Inr (v + m)
      else if v < b then Inr b
      else if m = 0 then Inl DivByZero
      else Inr (v + (m - ((v mod m) - (b mod m)))))"

section \<open>Contexts\<close>

definition MD5_BLOCKSZ :: nat where
  "MD5_BLOCKSZ = 64"

definition MD5_MODULUS :: nat where
  "MD5_MODULUS = 512"

definition MD5_CONGRUENCE_CONSTANT :: nat where
  "MD5_CONGRUENCE_CONSTANT = 448"

record md5_context =
  md_hash :: "32 word list"
  md_block :: "8 word list"
  md_cursor :: nat
  md_input_len :: "64 word"

text \<open>The allocator is \<open>calloc\<close>: the block is zeroed.\<close>

definition MD5_newctx :: md5_context where
  "MD5_newctx = \<lparr>md_hash = [0x67452301, 0xefcdab89, 0x98badcfe, 0x10325476],
     md_block = replicate 64 0, md_cursor = 0, md_input_len = 0\<rparr>"

definition MD5_dump :: "md5_context \<Rightarrow> 8 word list" where
  "MD5_dump ctx = concat (map pack_buff_le (md_hash ctx))"

section \<open>Processing a block\<close>

definition transformation_inputs :: "(nat \<times> nat \<times> 32 word) list" where
  "transformation_inputs = [
    (0, 7, 0xd76aa478), (1, 12, 0xe8c7b756), (2, 17, 0x242070db), (3, 22, 0xc1bdceee),
    (4, 7, 0xf57c0faf), (5, 12, 0x4787c62a), (6, 17, 0xa8304613), (7, 22, 0xfd469501),
    (8, 7, 0x698098d8), (9, 12, 0x8b44f7af), (10, 17, 0xffff5bb1), (11, 22, 0x895cd7be),
    (12, 7, 0x6b901122), (13, 12, 0xfd987193), (14, 17, 0xa679438e), (15, 22, 0x49b40821),
    (1, 5, 0xf61e2562), (6, 9, 0xc040b340), (11, 14, 0x265e5a51), (0, 20, 0xe9b6c7aa),
    (5, 5, 0xd62f105d), (10, 9, 0x2441453), (15, 14, 0xd8a1e681), (4, 20, 0xe7d3fbc8),
    (9, 5, 0x21e1cde6), (14, 9, 0xc33707d6), (3, 14, 0xf4d50d87), (8, 20, 0x455a14ed),
    (13, 5, 0xa9e3e905), (2, 9, 0xfcefa3f8), (7, 14, 0x676f02d9), (12, 20, 0x8d2a4c8a),
    (5, 4, 0xfffa3942), (8, 11, 0x8771f681), (11, 16, 0x6d9d6122), (14, 23, 0xfde5380c),
    (1, 4, 0xa4beea44), (4, 11, 0x4bdecfa9), (7, 16, 0xf6bb4b60), (10, 23, 0xbebfbc70),
    (13, 4, 0x289b7ec6), (0, 11, 0xeaa127fa), (3, 16, 0xd4ef3085), (6, 23, 0x4881d05),
    (9, 4, 0xd9d4d039), (12, 11, 0xe6db99e5), (15, 16, 0x1fa27cf8), (2, 23, 0xc4ac5665),
    (0, 6, 0xf4292244), (7, 10, 0x432aff97), (14, 15, 0xab9423a7), (5, 21, 0xfc93a039),
    (12, 6, 0x655b59c3), (3, 10, 0x8f0ccc92), (10, 15, 0xffeff47d), (1, 21, 0x85845dd1),
    (8, 6, 0x6fa87e4f), (15, 10, 0xfe2ce6e0), (6, 15, 0xa3014314), (13, 21, 0x4e0811a1),
    (4, 6, 0xf7537e82), (11, 10, 0xbd3af235), (2, 15, 0x2ad7d2bb), (9, 21, 0xeb86d391)]"

definition decode_block_le32toh :: "md5_context \<Rightarrow> 32 word list" where
  "decode_block_le32toh ctx = map (\<lambda>i. load_uint_le (drop (4 * i) (md_block ctx))) [0..<16]"

type_synonym md5_regs = "32 word \<times> 32 word \<times> 32 word \<times> 32 word"

definition md5_step :: "32 word list \<Rightarrow> md5_regs \<Rightarrow> nat \<Rightarrow> md5_regs" where
  "md5_step X = (\<lambda>(a, b, c, d) i.
     case transformation_inputs ! i of (idx, shift, sinv) \<Rightarrow>
       let a = (if i div 2 ^ 4 = 0 then a + ((b AND c) OR (NOT b AND d))
                else if i div 2 ^ 4 = 1 then a + ((b AND d) OR (c AND NOT d))
                else if i div 2 ^ 4 = 2 then a + (b XOR c XOR d)
                else if i div 2 ^ 4 = 3 then a + (c XOR (b OR NOT d))
                else a);
           a = a + (X ! idx + sinv);
           a = lrot a shift;
           a = a + b
       in (d, a, b, c))"

definition MD5_process_block :: "md5_context \<Rightarrow> md5_context" where
  "MD5_process_block ctx =
     (case md_hash ctx of
        [h0, h1, h2, h3] \<Rightarrow>
          (case foldl (md5_step (decode_block_le32toh ctx)) (h0, h1, h2, h3) [0..<64] of
             (a, b, c, d) \<Rightarrow> ctx\<lparr>md_hash := [h0 + a, h1 + b, h2 + c, h3 + d]\<rparr>)
      | _ \<Rightarrow> ctx)"

section \<open>Feeding the input\<close>

text \<open>
  One copy fills the block or ends the message, whichever is first. A cursor past the block would make
  the number of bytes negative and \<open>memcpy\<close> run wild.
\<close>

function digest_loop :: "md5_context \<Rightarrow> nat \<Rightarrow> 8 word list \<Rightarrow> md5_context res" where
  "digest_loop ctx pos message =
     (if message = [] then Inr (ctx\<lparr>md_cursor := pos\<rparr>)
      else if MD5_BLOCKSZ < pos then Inl WildDeref
      else
        let bytes = min (MD5_BLOCKSZ - pos) (length message);
            block = take pos (md_block ctx) @ take bytes message @ drop (pos + bytes) (md_block ctx);
            ctx = ctx\<lparr>md_block := block\<rparr>;
            pos = pos + bytes;
            message = drop bytes message
        in if and pos MD5_BLOCKSZ \<noteq> 0 then digest_loop (MD5_process_block ctx) 0 message
           else digest_loop ctx pos message)"
  by pat_completeness auto

lemma cursor_test:
  assumes "pos \<le> 64"
  shows "and pos MD5_BLOCKSZ \<noteq> 0 \<longleftrightarrow> pos = 64"
proof (cases "pos = 64")
  case False
  then have "take_bit 6 pos = pos" using assms by (simp add: take_bit_nat_eq_self_iff)
  then have "and pos (2 ^ 6) = and (take_bit 6 pos) (2 ^ 6)" by simp
  also have "\<dots> = 0" by (rule bit_eqI) (simp only: bit_and_iff bit_take_bit_iff bit_exp_iff bit_0_eq bot_fun_def, auto)
  finally show ?thesis using False by (simp add: MD5_BLOCKSZ_def)
qed (simp add: MD5_BLOCKSZ_def)

termination digest_loop
proof (relation "measures [\<lambda>(ctx, pos, message). length message, \<lambda>(ctx, pos, message). pos]", goal_cases)
  case 1
  then show ?case by simp
next
  case (2 ctx pos message bytes block ctx' pos' message')
  have "pos' \<le> 64" using 2 by (auto simp: MD5_BLOCKSZ_def)
  then have "pos' = 64" using 2 cursor_test by blast
  then show ?case using 2 by (auto simp: MD5_BLOCKSZ_def)
next
  case (3 ctx pos message bytes block ctx' pos' message')
  have "pos' \<le> 64" using 3 by (auto simp: MD5_BLOCKSZ_def)
  then have "pos' \<noteq> 64" using 3 cursor_test by blast
  then show ?case using 3 by (auto simp: MD5_BLOCKSZ_def min_def split: if_splits)
qed

declare digest_loop.simps [simp del]

definition MD5_digest_part :: "md5_context \<Rightarrow> 8 word list \<Rightarrow> md5_context res" where
  "MD5_digest_part ctx message = digest_loop ctx (md_cursor ctx) message"

definition find_padding :: "nat \<Rightarrow> nat res" where
  "find_padding len =
     bindE (find_congruent_value (of_nat len) (of_nat (MD5_CONGRUENCE_CONSTANT div 2 ^ 3)) (of_nat (MD5_MODULUS div 2 ^ 3))) (\<lambda>v.
     Inr (unat (v - of_nat len)))"

definition get_trailer :: "md5_context \<Rightarrow> 8 word list res" where
  "get_trailer ctx =
     bindE (find_padding (md_cursor ctx)) (\<lambda>padding.
     let trailersz = padding + 8;
         trailer = (replicate trailersz 0)[0 := 0x80];
         trailer = map (\<lambda>i. if 1 \<le> i \<and> i < trailersz - 8 then 0 else trailer ! i) [0..<trailersz]
     in Inr (take (trailersz - 8) trailer @ pack_buff_le (push_bit 3 (md_input_len ctx))))"

definition MD5_digest :: "md5_context \<Rightarrow> 8 word list \<Rightarrow> bool \<Rightarrow> md5_context res" where
  "MD5_digest ctx message isfinal =
     bindE (if length message > 0
            then bindE (MD5_digest_part ctx message) (\<lambda>ctx.
                 Inr (ctx\<lparr>md_input_len := md_input_len ctx + of_nat (length message)\<rparr>))
            else Inr ctx) (\<lambda>ctx.
     if isfinal then bindE (get_trailer ctx) (\<lambda>trailer. MD5_digest_part ctx trailer)
     else Inr ctx)"

text \<open>The bytes of a C string, without its terminator.\<close>

definition MD5_sdigest :: "8 word list \<Rightarrow> 8 word list res" where
  "MD5_sdigest s =
     bindE (MD5_digest MD5_newctx s False) (\<lambda>ctx.
     bindE (MD5_digest ctx [] True) (\<lambda>ctx. Inr (MD5_dump ctx)))"

text \<open>
  The results of \<open>read\<close> in order: a chunk of bytes or an \<open>errno\<close>; an empty chunk, or the end of the list, is the
  end of the file. An error is returned as its number, with nothing written.
\<close>

fun fdigest_loop :: "md5_context \<Rightarrow> (int + 8 word list) list \<Rightarrow> (int + md5_context) res" where
  "fdigest_loop ctx [] = Inr (Inr ctx)"
| "fdigest_loop ctx (Inl errno # rs) = Inr (Inl errno)"
| "fdigest_loop ctx (Inr buffer # rs) =
     (if buffer = [] then Inr (Inr ctx)
      else bindE (MD5_digest ctx buffer False) (\<lambda>ctx. fdigest_loop ctx rs))"

definition MD5_fdigest :: "(int + 8 word list) list \<Rightarrow> (int + 8 word list) res" where
  "MD5_fdigest rs =
     bindE (fdigest_loop MD5_newctx rs) (\<lambda>r.
     case r of
       Inl errno \<Rightarrow> Inr (Inl errno)
     | Inr ctx \<Rightarrow> bindE (MD5_digest ctx [] True) (\<lambda>ctx. Inr (Inr (MD5_dump ctx))))"

end
