(* ===== verification/Md5_Sine.thy ===== *)
theory Md5_Sine
  imports Md5 Complex_Main
begin

text \<open>
  The constants of MD5. RFC 1321 defines the table by the sine function, with the angle in radians: the integer part of
  4294967296 times the absolute value of the sine of 1, 2, ..., 64. The table of \<open>md5.c\<close> is shown to be that one. The sine of
  1 and its cosine come from their Taylor polynomials; the other angles are reached by turning a vector of fixed-point
  numbers, with a bound on the error of each turn.
\<close>

definition rfc_sine :: "nat \<Rightarrow> int" where
  "rfc_sine i = \<lfloor>2 ^ 32 * \<bar>sin (real (Suc i))\<bar>\<rfloor>"

definition rfc_T :: "nat \<Rightarrow> 32 word" where
  "rfc_T i = word_of_int (rfc_sine i)"

section \<open>The angle 1\<close>

definition sin_1 :: int where "sin_1 = 15522399902203605025"
definition cos_1 :: int where "cos_1 = 9966818358784711826"

lemma scaled_error:
  fixes x y s e k :: real
  assumes "\<bar>x - y\<bar> \<le> e" "\<bar>s - k * y\<bar> + k * e \<le> 1" "0 \<le> k"
  shows "\<bar>s - k * x\<bar> \<le> 1"
proof -
  have "\<bar>s - k * x\<bar> \<le> \<bar>s - k * y\<bar> + \<bar>k * (y - x)\<bar>" by (simp add: algebra_simps)
  also have "\<bar>k * (y - x)\<bar> \<le> k * e" using assms(1,3) by (simp add: abs_mult abs_minus_commute mult_left_mono)
  finally show ?thesis using assms(2) by linarith
qed

lemma sin_1_error: "\<bar>of_int sin_1 - 2 ^ 64 * sin (1 :: real)\<bar> \<le> 1"
proof -
  have "\<bar>sin (1 :: real) - (\<Sum>m<24. sin_coeff m * 1 ^ m)\<bar> \<le> inverse (fact 24) * \<bar>1\<bar> ^ 24"
    by (rule Maclaurin_sin_bound)
  moreover have "\<bar>of_int sin_1 - 2 ^ 64 * (\<Sum>m<24. sin_coeff m * 1 ^ m :: real)\<bar> + 2 ^ 64 * (inverse (fact 24)) \<le> 1"
    by (simp add: sin_1_def lessThan_nat_numeral sin_coeff_def fact_numeral)
  ultimately show ?thesis by (intro scaled_error) simp_all
qed

lemma cos_1_error: "\<bar>of_int cos_1 - 2 ^ 64 * cos (1 :: real)\<bar> \<le> 1"
proof -
  let ?P = "\<Sum>m<24. cos_coeff m * 1 ^ m :: real"
  obtain t where t: "cos (1 :: real) = ?P + (cos (t + 1 / 2 * real 24 * pi) / fact 24) * 1 ^ 24"
    using Maclaurin_cos_expansion by blast
  have "\<bar>cos (1 :: real) - ?P\<bar> = \<bar>cos (t + 1 / 2 * real 24 * pi)\<bar> / fact 24"
    unfolding t by (simp only: add_diff_cancel_left' power_one mult_1_right abs_divide abs_of_pos [OF fact_gt_zero])
  also have "\<dots> \<le> 1 / fact 24" by (intro divide_right_mono abs_cos_le_one fact_ge_zero)
  finally have "\<bar>cos (1 :: real) - ?P\<bar> \<le> inverse (fact 24)" by (simp only: inverse_eq_divide)
  moreover have "\<bar>of_int cos_1 - 2 ^ 64 * ?P\<bar> + 2 ^ 64 * (inverse (fact 24)) \<le> 1"
    by (simp add: cos_1_def lessThan_nat_numeral cos_coeff_def fact_numeral)
  ultimately show ?thesis by (intro scaled_error) simp_all
qed

section \<open>Turning by 1\<close>

definition turn :: "int \<times> int \<Rightarrow> int \<times> int" where
  "turn p = (case p of (c, s) \<Rightarrow> ((c * cos_1 - s * sin_1) div 2 ^ 64, (s * cos_1 + c * sin_1) div 2 ^ 64))"

definition point :: "int \<times> int \<Rightarrow> complex" where
  "point p = Complex (of_int (fst p)) (of_int (snd p))"

lemma div_error: "\<bar>of_int (a div 2 ^ 64) - of_int a / (2 ^ 64 :: real)\<bar> \<le> 1"
proof -
  have "of_int (a div 2 ^ 64) = (of_int \<lfloor>of_int a / (2 ^ 64 :: real)\<rfloor> :: real)"
    using floor_divide_of_int_eq[of a "2 ^ 64", where 'a = real] by simp
  then show ?thesis by linarith
qed

lemma turn_error: "cmod (point (turn p) - point p * point (cos_1, sin_1) / 2 ^ 64) \<le> 2"
proof -
  obtain c s where p: "p = (c, s)" by (cases p)
  let ?z = "point (turn p) - point p * point (cos_1, sin_1) / 2 ^ 64"
  have "Re ?z = of_int ((c * cos_1 - s * sin_1) div 2 ^ 64) - of_int (c * cos_1 - s * sin_1) / 2 ^ 64"
    "Im ?z = of_int ((s * cos_1 + c * sin_1) div 2 ^ 64) - of_int (s * cos_1 + c * sin_1) / 2 ^ 64"
    by (simp_all add: p point_def turn_def add.commute)
  then have "\<bar>Re ?z\<bar> \<le> 1" "\<bar>Im ?z\<bar> \<le> 1"
    using div_error by metis+
  then show ?thesis using cmod_le[of ?z] by linarith
qed

lemma angle_1: "cmod (point (cos_1, sin_1) - 2 ^ 64 * cis 1) \<le> 2"
proof -
  have "cmod (point (cos_1, sin_1) - 2 ^ 64 * cis 1) \<le>
     \<bar>Re (point (cos_1, sin_1) - 2 ^ 64 * cis 1)\<bar> + \<bar>Im (point (cos_1, sin_1) - 2 ^ 64 * cis 1)\<bar>"
    by (rule cmod_le)
  then show ?thesis using sin_1_error cos_1_error by (simp add: point_def)
qed

lemma turns_error: "i \<le> 64 \<Longrightarrow> cmod (point ((turn ^^ i) (2 ^ 64, 0)) - 2 ^ 64 * cis (real i)) \<le> 5 * real i"
proof (induction i)
  case 0
  then show ?case by (simp add: point_def complex_eq_iff)
next
  case (Suc i)
  let ?p = "(turn ^^ i) (2 ^ 64, 0)"
  let ?e = "point ?p - 2 ^ 64 * cis (real i)"
  let ?R = "point (cos_1, sin_1)"
  have e: "cmod ?e \<le> 5 * real i" "5 * real i \<le> 320" using Suc by simp_all
  have R: "cmod ?R \<le> 2 ^ 64 + 2"
    using norm_triangle_sub[of ?R "2 ^ 64 * cis 1"] angle_1 by (simp add: norm_mult norm_power)
  have split: "point ?p * ?R / 2 ^ 64 - 2 ^ 64 * cis (real (Suc i)) = ?e * (?R / 2 ^ 64) + cis (real i) * (?R - 2 ^ 64 * cis 1)"
    by (simp add: field_simps cis_mult[symmetric] flip: cis_mult)
  have "cmod (?e * (?R / 2 ^ 64)) \<le> 5 * real i + 1"
  proof -
    have "cmod (?e * (?R / 2 ^ 64)) = cmod ?e * (cmod ?R / 2 ^ 64)" by (simp add: norm_mult norm_divide norm_power)
    also have "\<dots> \<le> cmod ?e * (1 + 2 / 2 ^ 64)" using R by (intro mult_left_mono) (simp_all add: field_simps)
    also have "\<dots> \<le> cmod ?e + 1" using e by (simp add: field_simps)
    finally show ?thesis using e(1) by linarith
  qed
  moreover have "cmod (cis (real i) * (?R - 2 ^ 64 * cis 1)) \<le> 2"
    using angle_1 by (simp add: norm_mult)
  ultimately have "cmod (point ?p * ?R / 2 ^ 64 - 2 ^ 64 * cis (real (Suc i))) \<le> 5 * real i + 3"
    unfolding split using norm_triangle_ineq[of "?e * (?R / 2 ^ 64)" "cis (real i) * (?R - 2 ^ 64 * cis 1)"] by linarith
  then show ?case
    using turn_error[of ?p] norm_triangle_ineq[of "point (turn ?p) - point ?p * ?R / 2 ^ 64" "point ?p * ?R / 2 ^ 64 - 2 ^ 64 * cis (real (Suc i))"]
    by simp
qed

lemma turns_sine: "i \<le> 64 \<Longrightarrow> \<bar>of_int (snd ((turn ^^ i) (2 ^ 64, 0))) - 2 ^ 64 * sin (real i)\<bar> \<le> 320"
proof -
  assume i: "i \<le> 64"
  let ?z = "point ((turn ^^ i) (2 ^ 64, 0)) - 2 ^ 64 * cis (real i)"
  have "\<bar>Im ?z\<bar> \<le> cmod ?z" by (rule abs_Im_le_cmod)
  then show ?thesis using turns_error[OF i] i by (simp add: point_def)
qed

section \<open>The table\<close>

text \<open>The fixed-point value determines the integer part when it is not within the error of an integer.\<close>

fun sines_match :: "(nat \<times> nat \<times> 32 word) list \<Rightarrow> int \<times> int \<Rightarrow> bool" where
  "sines_match [] p = True"
| "sines_match ((idx, shift, sinv) # rows) p =
     (let q = turn p
      in uint sinv * 2 ^ 32 + 320 \<le> \<bar>snd q\<bar> \<and> \<bar>snd q\<bar> + 320 < (uint sinv + 1) * 2 ^ 32 \<and> sines_match rows q)"

lemma table_matches: "sines_match transformation_inputs (2 ^ 64, 0)"
  by code_simp

lemma sines_match_nth:
  "sines_match rows ((turn ^^ j) p) \<Longrightarrow> i < length rows \<Longrightarrow>
     uint (snd (snd (rows ! i))) * 2 ^ 32 + 320 \<le> \<bar>snd ((turn ^^ Suc (j + i)) p)\<bar> \<and>
     \<bar>snd ((turn ^^ Suc (j + i)) p)\<bar> + 320 < (uint (snd (snd (rows ! i))) + 1) * 2 ^ 32"
proof (induction rows arbitrary: i j)
  case (Cons row rows)
  obtain idx shift sinv where row: "row = (idx, shift, sinv)" by (cases row) auto
  show ?case
  proof (cases i)
    case 0
    then show ?thesis using Cons.prems by (simp add: row Let_def)
  next
    case (Suc k)
    have "sines_match rows ((turn ^^ Suc j) p)" using Cons.prems by (simp add: row Let_def)
    from Cons.IH[OF this, of k] show ?thesis using Suc Cons.prems by simp
  qed
qed simp

text \<open>Every constant of the source is the one of the RFC.\<close>

theorem md5_sines: "i < 64 \<Longrightarrow> snd (snd (transformation_inputs ! i)) = rfc_T i"
proof -
  assume i: "i < 64"
  let ?T = "uint (snd (snd (transformation_inputs ! i)))"
  let ?s = "snd ((turn ^^ Suc i) (2 ^ 64, 0))"
  have len: "length transformation_inputs = 64" by (simp add: transformation_inputs_def)
  have m: "?T * 2 ^ 32 + 320 \<le> \<bar>?s\<bar>" "\<bar>?s\<bar> + 320 < (?T + 1) * 2 ^ 32"
    using sines_match_nth[of transformation_inputs 0 "(2 ^ 64, 0)" i] table_matches i len by simp_all
  have e: "\<bar>\<bar>of_int ?s\<bar> - 2 ^ 64 * \<bar>sin (real (Suc i))\<bar>\<bar> \<le> 320"
    using turns_sine[of "Suc i"] i by (simp add: abs_le_iff abs_if split: if_splits)
  have "real_of_int (?T * 2 ^ 32 + 320) \<le> of_int \<bar>?s\<bar>" using m(1) by (rule of_int_le_iff [THEN iffD2])
  moreover have "real_of_int (\<bar>?s\<bar> + 320) < of_int ((?T + 1) * 2 ^ 32)" using m(2) by (rule of_int_less_iff [THEN iffD2])
  ultimately have m': "real_of_int ?T * 2 ^ 32 + 320 \<le> \<bar>of_int ?s\<bar>" "\<bar>of_int ?s\<bar> + 320 < (real_of_int ?T + 1) * 2 ^ 32"
    by simp_all
  have "rfc_sine i = ?T"
    unfolding rfc_sine_def by (rule floor_unique) (use m' e in simp_all)
  then show ?thesis by (simp add: rfc_T_def)
qed

end
