(* ===== verification/Md5_Correct.thy ===== *)
theory Md5_Correct
  imports Md5_Sine
begin

text \<open>
  A reference definition of MD5 after RFC 1321, and the proof that the context-based implementation computes
  it for every way of cutting the message into chunks. The constants are the RFC's, defined by the sine function
  (\<open>rfc_T\<close> of \<open>Md5_Sine\<close>); word indices and shift amounts are its formulas, and the registers are updated in place.
\<close>

section \<open>The reference\<close>

definition rfc_aux :: "nat \<Rightarrow> 32 word \<Rightarrow> 32 word \<Rightarrow> 32 word \<Rightarrow> 32 word" where
  "rfc_aux i x y z =
     (if i < 16 then (x AND y) OR (NOT x AND z)
      else if i < 32 then (x AND z) OR (y AND NOT z)
      else if i < 48 then x XOR y XOR z
      else y XOR (x OR NOT z))"

definition rfc_k :: "nat \<Rightarrow> nat" where
  "rfc_k i = (if i < 16 then i else if i < 32 then (5 * i + 1) mod 16 else if i < 48 then (3 * i + 5) mod 16 else 7 * i mod 16)"

definition rfc_s :: "nat \<Rightarrow> nat" where
  "rfc_s i = [[7, 12, 17, 22], [5, 9, 14, 20], [4, 11, 16, 23], [6, 10, 15, 21]] ! (i div 16) ! (i mod 4)"

text \<open>Operation \<open>i\<close> on the register file: [ABCD] for i = 0, then [DABC], [CDAB], [BCDA], and again.\<close>

definition rfc_step :: "32 word list \<Rightarrow> 32 word list \<Rightarrow> nat \<Rightarrow> 32 word list" where
  "rfc_step X R i =
     (let a = (64 - i) mod 4; b = (a + 1) mod 4; c = (a + 2) mod 4; d = (a + 3) mod 4
      in R[a := R ! b + lrot (R ! a + rfc_aux i (R ! b) (R ! c) (R ! d) + X ! rfc_k i + rfc_T i) (rfc_s i)])"

definition rfc_words :: "8 word list \<Rightarrow> 32 word list" where
  "rfc_words block = map (\<lambda>i. load_uint_le (drop (4 * i) block)) [0..<16]"

definition rfc_compress :: "32 word list \<Rightarrow> 8 word list \<Rightarrow> 32 word list" where
  "rfc_compress H block = map2 (+) H (foldl (rfc_step (rfc_words block)) H [0..<64])"

definition rfc_pad :: "8 word list \<Rightarrow> 8 word list" where
  "rfc_pad m = m @ 0x80 # replicate ((119 - length m mod 64) mod 64) 0 @ pack_buff_le (of_nat (8 * length m) :: 64 word)"

definition md5_blocks :: "8 word list \<Rightarrow> 8 word list list" where
  "md5_blocks m = map (\<lambda>i. take 64 (drop (64 * i) m)) [0..<length m div 64]"

definition rfc_init :: "32 word list" where
  "rfc_init = [0x67452301, 0xefcdab89, 0x98badcfe, 0x10325476]"

definition rfc_md5 :: "8 word list \<Rightarrow> 8 word list" where
  "rfc_md5 m = concat (map pack_buff_le (foldl rfc_compress rfc_init (md5_blocks (rfc_pad m))))"

section \<open>One block\<close>

lemma md5_table_ok: "\<forall>i\<in>set [0..<64]. fst (transformation_inputs ! i) = rfc_k i \<and> fst (snd (transformation_inputs ! i)) = rfc_s i"
  by code_simp

lemma md5_table: "i < 64 \<Longrightarrow> transformation_inputs ! i = (rfc_k i, rfc_s i, rfc_T i)"
  using md5_table_ok md5_sines [of i] by (auto simp: prod_eq_iff)

definition reg_view :: "32 word list \<Rightarrow> nat \<Rightarrow> md5_regs" where
  "reg_view R i = (let a = (64 - i) mod 4 in (R ! a, R ! ((a + 1) mod 4), R ! ((a + 2) mod 4), R ! ((a + 3) mod 4)))"

lemma md5_step_ok:
  assumes "length R = 4" "i < 64"
  shows "md5_step X (reg_view R i) i = reg_view (rfc_step X R i) (Suc i)" "length (rfc_step X R i) = 4"
proof -
  show "length (rfc_step X R i) = 4" using assms(1) by (simp add: rfc_step_def Let_def)
  have four: "(64 - i) mod 4 = 0 \<or> (64 - i) mod 4 = 1 \<or> (64 - i) mod 4 = 2 \<or> (64 - i) mod 4 = 3"
  proof -
    have "(64 - i) mod 4 < 4" by simp
    moreover have "n < 4 \<Longrightarrow> n = 0 \<or> n = 1 \<or> n = 2 \<or> n = 3" for n :: nat by arith
    ultimately show ?thesis by blast
  qed
  have "(Suc m mod 4 + 3) mod 4 = m mod 4" for m :: nat by (simp add: mod_add_left_eq [of "Suc m" 4 3])
  moreover have "64 - i = Suc (64 - Suc i)" using assms(2) by simp
  ultimately have next_pos: "(64 - Suc i) mod 4 = ((64 - i) mod 4 + 3) mod 4" by metis
  have round: "i div 2 ^ 4 = 0 \<longleftrightarrow> i < 16" "i div 2 ^ 4 = 1 \<longleftrightarrow> 16 \<le> i \<and> i < 32" "i div 2 ^ 4 = 2 \<longleftrightarrow> 32 \<le> i \<and> i < 48"
    "i div 2 ^ 4 = 3 \<longleftrightarrow> 48 \<le> i"
    using assms(2) by auto
  have step: "md5_step X (a, b, c, d) i = (d, b + lrot (a + rfc_aux i b c d + X ! rfc_k i + rfc_T i) (rfc_s i), b, c)" for a b c d
  proof -
    have f: "(if i div 2 ^ 4 = 0 then a + ((b AND c) OR (NOT b AND d))
        else if i div 2 ^ 4 = 1 then a + ((b AND d) OR (c AND NOT d))
        else if i div 2 ^ 4 = 2 then a + (b XOR c XOR d)
        else if i div 2 ^ 4 = 3 then a + (c XOR (b OR NOT d)) else a) = a + rfc_aux i b c d"
      unfolding round rfc_aux_def using assms(2) by simp
    show ?thesis unfolding md5_step_def prod.case md5_table [OF assms(2)] Let_def f by (simp only: add.assoc add.commute [of b])
  qed
  from four show "md5_step X (reg_view R i) i = reg_view (rfc_step X R i) (Suc i)"
    unfolding reg_view_def Let_def step next_pos
    by (elim disjE) (simp_all add: rfc_step_def Let_def assms(1) flip: numeral_2_eq_2)
qed

lemma md5_steps_ok:
  assumes "length R = 4" "n \<le> 64"
  shows "foldl (md5_step X) (reg_view R 0) [0..<n] = reg_view (foldl (rfc_step X) R [0..<n]) n \<and> length (foldl (rfc_step X) R [0..<n]) = 4"
  using assms(2)
proof (induction n)
  case 0
  then show ?case using assms(1) by simp
next
  case (Suc n)
  then show ?case using md5_step_ok [of "foldl (rfc_step X) R [0..<n]" n X] by simp
qed

lemma list4: "length R = 4 \<Longrightarrow> R = [R ! 0, R ! 1, R ! 2, R ! 3]"
  by (auto simp: numeral_eq_Suc length_Suc_conv)

lemma map2_four:
  assumes "length R = 4" "length S = 4"
  shows "map2 f R S = [f (R ! 0) (S ! 0), f (R ! 1) (S ! 1), f (R ! 2) (S ! 2), f (R ! 3) (S ! 3)]"
  using assms by (auto simp: numeral_eq_Suc length_Suc_conv)

lemma process_block_ok:
  assumes "length (md_hash ctx) = 4"
  shows "MD5_process_block ctx = ctx\<lparr>md_hash := rfc_compress (md_hash ctx) (md_block ctx)\<rparr>"
    and "length (rfc_compress (md_hash ctx) (md_block ctx)) = 4"
proof -
  let ?X = "decode_block_le32toh ctx" and ?H = "md_hash ctx"
  let ?R = "foldl (rfc_step ?X) ?H [0..<64]"
  have X: "?X = rfc_words (md_block ctx)" by (simp add: decode_block_le32toh_def rfc_words_def)
  have R: "foldl (md5_step ?X) (reg_view ?H 0) [0..<64] = reg_view ?R 64" "length ?R = 4"
    using md5_steps_ok [OF assms order_refl, of ?X] by simp_all
  have v: "reg_view S 0 = (S ! 0, S ! 1, S ! 2, S ! 3)" "reg_view S 64 = (S ! 0, S ! 1, S ! 2, S ! 3)" for S
    by (simp_all add: reg_view_def Let_def flip: numeral_2_eq_2)
  have H: "?H = [?H ! 0, ?H ! 1, ?H ! 2, ?H ! 3]" by (rule list4 [OF assms])
  have "map2 (+) ?H ?R = [?H ! 0 + ?R ! 0, ?H ! 1 + ?R ! 1, ?H ! 2 + ?R ! 2, ?H ! 3 + ?R ! 3]"
    by (rule map2_four [OF assms R(2)])
  then have c: "rfc_compress ?H (md_block ctx) = [?H ! 0 + ?R ! 0, ?H ! 1 + ?R ! 1, ?H ! 2 + ?R ! 2, ?H ! 3 + ?R ! 3]"
    by (simp add: rfc_compress_def X)
  then show "length (rfc_compress ?H (md_block ctx)) = 4" by simp
  show "MD5_process_block ctx = ctx\<lparr>md_hash := rfc_compress ?H (md_block ctx)\<rparr>"
    unfolding MD5_process_block_def c by (subst H) (simp add: R(1) [unfolded v] del: One_nat_def)
qed

section \<open>Feeding a message in pieces\<close>

text \<open>A context that has consumed the message \<open>m\<close>: whole blocks are compressed, the rest waits in the block.\<close>

definition fed :: "md5_context \<Rightarrow> 8 word list \<Rightarrow> bool" where
  "fed ctx m \<longleftrightarrow> length (md_hash ctx) = 4 \<and> length (md_block ctx) = 64 \<and>
     md_hash ctx = foldl rfc_compress rfc_init (md5_blocks m) \<and>
     take (length m mod 64) (md_block ctx) = drop (length m - length m mod 64) m"

lemma length_md5_blocks [simp]: "length (md5_blocks m) = length m div 64"
  by (simp add: md5_blocks_def)

lemma whole_blocks:
  fixes a b :: nat
  shows "a mod 64 + b < 64 \<Longrightarrow> (a + b) div 64 = a div 64" and "a mod 64 + b = 64 \<Longrightarrow> (a + b) div 64 = Suc (a div 64)"
    and "a mod 64 + b < 64 \<Longrightarrow> (a + b) mod 64 = a mod 64 + b" and "a mod 64 + b = 64 \<Longrightarrow> (a + b) mod 64 = 0"
proof -
  have "r + b < 64 \<Longrightarrow> (64 * q + r + b) div 64 = q \<and> (64 * q + r + b) mod 64 = r + b"
    "r + b = 64 \<Longrightarrow> (64 * q + r + b) div 64 = Suc q \<and> (64 * q + r + b) mod 64 = 0" for q r :: nat
    by (simp_all add: add.assoc)
  from this [of "a mod 64" "a div 64"]
  show "a mod 64 + b < 64 \<Longrightarrow> (a + b) div 64 = a div 64" "a mod 64 + b = 64 \<Longrightarrow> (a + b) div 64 = Suc (a div 64)"
    "a mod 64 + b < 64 \<Longrightarrow> (a + b) mod 64 = a mod 64 + b" "a mod 64 + b = 64 \<Longrightarrow> (a + b) mod 64 = 0"
    by (simp_all only: mult_div_mod_eq)
qed

lemma md5_blocks_append:
  assumes "length m mod 64 + length xs < 64"
  shows "md5_blocks (m @ xs) = md5_blocks m"
proof -
  have d: "(length m + length xs) div 64 = length m div 64" by (rule whole_blocks(1) [OF assms])
  show ?thesis unfolding md5_blocks_def length_append d by (rule map_cong) (auto simp: take_append drop_append)
qed

lemma md5_blocks_complete:
  assumes "length m mod 64 + length xs = 64"
  shows "md5_blocks (m @ xs) = md5_blocks m @ [drop (length m - length m mod 64) m @ xs]"
proof -
  have d: "(length m + length xs) div 64 = Suc (length m div 64)" by (rule whole_blocks(2) [OF assms])
  have s: "length m - length m mod 64 = 64 * (length m div 64)" by (simp add: minus_mod_eq_mult_div)
  have "map (\<lambda>i. take 64 (drop (64 * i) (m @ xs))) [0..<length m div 64] = md5_blocks m"
    unfolding md5_blocks_def by (rule map_cong) auto
  moreover have "take 64 (drop (64 * (length m div 64)) (m @ xs)) = drop (length m - length m mod 64) m @ xs"
  proof -
    have "length m - 64 * (length m div 64) = length m mod 64" by (rule minus_mult_div_eq_mod)
    then have "length (drop (64 * (length m div 64)) m @ xs) = 64" using assms by simp
    then show ?thesis unfolding s by simp
  qed
  ultimately show ?thesis unfolding md5_blocks_def length_append d by simp
qed

lemma fed_complete:
  assumes "fed ctx m" and "length m mod 64 + length ys = 64"
  shows "fed (MD5_process_block (ctx\<lparr>md_block := take (length m mod 64) (md_block ctx) @ ys\<rparr>)) (m @ ys)"
    and "md_input_len (MD5_process_block (ctx\<lparr>md_block := block\<rparr>)) = md_input_len ctx"
proof -
  have ctx: "length (md_hash ctx) = 4" "length (md_block ctx) = 64" "md_hash ctx = foldl rfc_compress rfc_init (md5_blocks m)"
    "take (length m mod 64) (md_block ctx) = drop (length m - length m mod 64) m"
    using assms(1) [unfolded fed_def] by blast+
  have p: "MD5_process_block (ctx\<lparr>md_block := bl\<rparr>) = ctx\<lparr>md_block := bl, md_hash := rfc_compress (md_hash ctx) bl\<rparr>"
    "length (rfc_compress (md_hash ctx) bl) = 4" for bl
    using process_block_ok [of "ctx\<lparr>md_block := bl\<rparr>"] ctx(1) by simp_all
  have "foldl rfc_compress rfc_init (md5_blocks (m @ ys)) = rfc_compress (md_hash ctx) (take (length m mod 64) (md_block ctx) @ ys)"
    by (simp only: md5_blocks_complete [OF assms(2)] foldl_append foldl.simps ctx(3) [symmetric] ctx(4))
  then show "fed (MD5_process_block (ctx\<lparr>md_block := take (length m mod 64) (md_block ctx) @ ys\<rparr>)) (m @ ys)"
    unfolding fed_def p(1) using p(2) whole_blocks(4) [OF assms(2)] assms(2) ctx(2) by simp
  show "md_input_len (MD5_process_block (ctx\<lparr>md_block := block\<rparr>)) = md_input_len ctx" by (simp add: p(1))
qed

lemma fed_partial:
  assumes "fed ctx m" and "length m mod 64 + length ys < 64"
  shows "fed (ctx\<lparr>md_block := take (length m mod 64) (md_block ctx) @ ys @ drop (length m mod 64 + length ys) (md_block ctx)\<rparr>) (m @ ys)"
proof -
  have ctx: "length (md_hash ctx) = 4" "length (md_block ctx) = 64" "md_hash ctx = foldl rfc_compress rfc_init (md5_blocks m)"
    "take (length m mod 64) (md_block ctx) = drop (length m - length m mod 64) m"
    using assms(1) [unfolded fed_def] by blast+
  have "length m + length ys - (length m mod 64 + length ys) = length m - length m mod 64" by simp
  then show ?thesis
    using ctx whole_blocks(3) [OF assms(2)] assms(2) md5_blocks_append [OF assms(2)] by (simp add: fed_def)
qed

lemma digest_loop_ok:
  assumes "fed ctx m"
  shows "pos = length m mod 64 \<Longrightarrow>
    \<exists>ctx'. digest_loop ctx pos xs = Inr ctx' \<and> fed ctx' (m @ xs) \<and> md_cursor ctx' = length (m @ xs) mod 64 \<and>
      md_input_len ctx' = md_input_len ctx"
  using assms
proof (induction ctx pos xs arbitrary: m rule: digest_loop.induct)
  case (1 ctx pos xs)
  show ?case
  proof (cases "xs = []")
    case True
    then have "digest_loop ctx pos xs = Inr (ctx\<lparr>md_cursor := pos\<rparr>)" by (subst digest_loop.simps) simp
    then show ?thesis using 1(3,4) True by (auto simp: fed_def)
  next
    case False
    define n where "n = min (64 - pos) (length xs)"
    define ctx1 where "ctx1 = ctx\<lparr>md_block := take pos (md_block ctx) @ take n xs @ drop (pos + n) (md_block ctx)\<rparr>"
    have pos: "pos < 64" using 1(3) by simp
    have n: "n \<le> length xs" "pos + n \<le> 64" "0 < n" using pos False by (auto simp: n_def)
    have blk: "length (md_block ctx) = 64" "length (md_hash ctx) = 4" "take pos (md_block ctx) = drop (length m - pos) m"
      using 1(3,4) by (auto simp: fed_def)
    have split: "m @ xs = (m @ take n xs) @ drop n xs" by simp
    have unfold: "digest_loop ctx pos xs = (if pos + n = 64 then digest_loop (MD5_process_block ctx1) 0 (drop n xs) else digest_loop ctx1 (pos + n) (drop n xs))"
      using pos False cursor_test [OF n(2)]
      by (subst digest_loop.simps) (simp only: MD5_BLOCKSZ_def Let_def n_def [symmetric] ctx1_def [symmetric] if_False less_not_sym)
    have len: "length (take n xs) = n" using n(1) by simp
    show ?thesis
    proof (cases "pos + n = 64")
      case True
      then have "fed (MD5_process_block ctx1) (m @ take n xs)" "md_input_len (MD5_process_block ctx1) = md_input_len ctx"
        "0 = length (m @ take n xs) mod 64"
        using fed_complete [OF 1(4), of "take n xs"] whole_blocks(4) [of "length m" n] 1(3) n(1) blk(1) by (simp_all add: ctx1_def)
      then show ?thesis
        using 1(1) [OF False _ n_def [folded MD5_BLOCKSZ_def] refl ctx1_def refl refl, of "m @ take n xs"] unfold True pos cursor_test [OF n(2)]
        n(1) by (auto simp: MD5_BLOCKSZ_def min_def split: if_splits)
    next
      case next_False: False
      then have "pos + n < 64" using n(2) by simp
      then have "fed ctx1 (m @ take n xs)" "md_input_len ctx1 = md_input_len ctx" "pos + n = length (m @ take n xs) mod 64"
        using fed_partial [OF 1(4), of "take n xs"] whole_blocks(3) [of "length m" n] 1(3) n(1) by (simp_all add: ctx1_def)
      then show ?thesis
        using 1(2) [OF False _ n_def [folded MD5_BLOCKSZ_def] refl ctx1_def refl refl, of "m @ take n xs"] unfold next_False pos cursor_test [OF n(2)]
        n(1) by (auto simp: MD5_BLOCKSZ_def min_def split: if_splits)
    qed
  qed
qed

definition fed_all :: "md5_context \<Rightarrow> 8 word list \<Rightarrow> bool" where
  "fed_all ctx m \<longleftrightarrow> fed ctx m \<and> md_cursor ctx = length m mod 64 \<and> md_input_len ctx = of_nat (length m)"

lemma fed_all_new: "fed_all MD5_newctx []"
  by (simp add: fed_all_def fed_def MD5_newctx_def md5_blocks_def rfc_init_def)

lemma digest_part_ok:
  assumes "fed_all ctx m"
  shows "\<exists>ctx'. MD5_digest ctx xs False = Inr ctx' \<and> fed_all ctx' (m @ xs)"
proof (cases "xs = []")
  case True
  then show ?thesis using assms by (simp add: MD5_digest_def)
next
  case False
  then show ?thesis using digest_loop_ok [of ctx m "md_cursor ctx" xs] assms
    by (auto simp: MD5_digest_def MD5_digest_part_def fed_all_def fed_def)
qed

lemma padding_ok:
  assumes "c < 64"
  shows "find_padding c = Inr ((119 - c) mod 64 + 1)"
proof -
  have small: "unat (of_nat n :: 32 word) = n" if "n \<le> 120" for n :: nat
    using that by (simp add: unat_of_nat)
  have w: "(of_nat c :: 32 word) mod 64 = of_nat c"
    using assms by (simp add: word_arith_nat_mod small)
  have order: "(of_nat c :: 32 word) < 56 \<longleftrightarrow> c < 56" "(of_nat c :: 32 word) = 56 \<longleftrightarrow> c = 56"
    using assms small [of c] by (simp_all add: word_less_nat_alt word_unat_eq_iff)
  consider "c < 56" | "c = 56" | "56 < c" by linarith
  then show ?thesis
  proof cases
    case 1
    have "(56 :: 32 word) - of_nat c = of_nat (56 - c)" using 1 by (simp add: of_nat_diff)
    moreover have "(119 - c) mod 64 + 1 = 56 - c" using 1 by (simp add: mod_if) arith
    ultimately show ?thesis using 1 order small [of "56 - c"]
      by (simp add: find_padding_def find_congruent_value_def MD5_CONGRUENCE_CONSTANT_def MD5_MODULUS_def)
  next
    case 2
    then show ?thesis by (simp add: find_padding_def find_congruent_value_def MD5_CONGRUENCE_CONSTANT_def MD5_MODULUS_def)
  next
    case 3
    have "(64 :: 32 word) - (of_nat c - 56) = of_nat (120 - c)" using 3 assms by (simp add: of_nat_diff)
    moreover have "(119 - c) mod 64 + 1 = 120 - c" using 3 assms by simp
    ultimately show ?thesis using 3 order small [of "120 - c"]
      by (simp add: find_padding_def find_congruent_value_def MD5_CONGRUENCE_CONSTANT_def MD5_MODULUS_def w)
  qed
qed

lemma trailer_zeros:
  "take (Suc p) (map (\<lambda>i. if Suc 0 \<le> i \<and> i < Suc p then 0 else (replicate (Suc p + 8) (0::8 word))[0 := 0x80] ! i) [0..<Suc p + 8]) =
     0x80 # replicate p 0"
proof (rule nth_equalityI)
  fix i assume "i < length (take (Suc p) (map (\<lambda>i. if Suc 0 \<le> i \<and> i < Suc p then 0 else (replicate (Suc p + 8) (0::8 word))[0 := 0x80] ! i) [0..<Suc p + 8]))"
  then have i: "i < Suc p" by simp
  then show "take (Suc p) (map (\<lambda>i. if Suc 0 \<le> i \<and> i < Suc p then 0 else (replicate (Suc p + 8) (0::8 word))[0 := 0x80] ! i) [0..<Suc p + 8]) ! i =
    (0x80 # replicate p 0) ! i"
    by (cases i) (simp_all del: upt_Suc replicate.simps)
qed simp

lemma trailer_ok:
  assumes "md_cursor ctx < 64"
  shows "get_trailer ctx = Inr (0x80 # replicate ((119 - md_cursor ctx) mod 64) 0 @ pack_buff_le (push_bit 3 (md_input_len ctx)))"
  using trailer_zeros [of "(119 - md_cursor ctx) mod 64"]
  by (simp add: get_trailer_def padding_ok [OF assms] Let_def del: upt_Suc replicate.simps)

lemma bindE_Inr_right: "bindE r Inr = r"
  by (cases r) simp_all

lemma digest_final_ok:
  assumes "fed_all ctx m"
  shows "\<exists>ctx'. MD5_digest ctx xs True = Inr ctx' \<and> md_hash ctx' = foldl rfc_compress rfc_init (md5_blocks (rfc_pad (m @ xs)))"
proof -
  obtain ctx1 where ctx1: "MD5_digest ctx xs False = Inr ctx1" "fed_all ctx1 (m @ xs)" using digest_part_ok [OF assms] by blast
  have "push_bit 3 (of_nat (length (m @ xs)) :: 64 word) = of_nat (8 * length (m @ xs))" by (simp add: push_bit_eq_mult)
  then have t: "get_trailer ctx1 = Inr (drop (length (m @ xs)) (rfc_pad (m @ xs)))"
    using ctx1(2) by (simp add: trailer_ok fed_all_def rfc_pad_def)
  have "MD5_digest ctx xs True = bindE (MD5_digest ctx xs False) (\<lambda>ctx. bindE (get_trailer ctx) (MD5_digest_part ctx))"
    by (simp only: MD5_digest_def bindE_assoc if_True if_False bindE_Inr_right)
  then have "MD5_digest ctx xs True = digest_loop ctx1 (md_cursor ctx1) (drop (length (m @ xs)) (rfc_pad (m @ xs)))"
    by (simp only: ctx1(1) t bindE_simps MD5_digest_part_def)
  moreover have "(m @ xs) @ drop (length (m @ xs)) (rfc_pad (m @ xs)) = rfc_pad (m @ xs)" by (simp add: rfc_pad_def)
  ultimately show ?thesis
    using digest_loop_ok [of ctx1 "m @ xs" "md_cursor ctx1" "drop (length (m @ xs)) (rfc_pad (m @ xs))"] ctx1(2)
    by (auto simp: fed_all_def fed_def)
qed

lemma digest_chunks_ok:
  "fed_all ctx m \<Longrightarrow> \<exists>ctx'. foldE (\<lambda>ctx x. MD5_digest ctx x False) ctx chunks = Inr ctx' \<and> fed_all ctx' (m @ concat chunks)"
proof (induction chunks arbitrary: ctx m)
  case (Cons x xs)
  obtain ctx1 where "MD5_digest ctx x False = Inr ctx1" "fed_all ctx1 (m @ x)" using digest_part_ok [OF Cons.prems] by blast
  with Cons.IH [of ctx1 "m @ x"] show ?case by simp
qed simp

section \<open>The digest\<close>

lemma dump_ok: "md_hash ctx = foldl rfc_compress rfc_init (md5_blocks (rfc_pad m)) \<Longrightarrow> MD5_dump ctx = rfc_md5 m"
  by (simp add: MD5_dump_def rfc_md5_def)

lemma finish_ok:
  assumes "fed_all ctx m"
  shows "bindE (MD5_digest ctx xs True) (\<lambda>ctx. Inr (MD5_dump ctx)) = Inr (rfc_md5 (m @ xs))"
  using digest_final_ok [OF assms, of xs] by (auto simp: dump_ok)

text \<open>C4: 
  However a message is cut into pieces, feeding them to a new context and then the last one with the final flag
  succeeds, and the dump of the context is the MD5 digest of the whole message as RFC 1321 defines it, with the
  constants given by the sine function: rounds, constants, padding, block boundaries and the little-endian words are
  right for every length.
\<close>

theorem MD5_streaming_correct:
  "bindE (foldE (\<lambda>ctx x. MD5_digest ctx x False) MD5_newctx chunks) (\<lambda>ctx.
     bindE (MD5_digest ctx last_chunk True) (\<lambda>ctx. Inr (MD5_dump ctx))) = Inr (rfc_md5 (concat chunks @ last_chunk))"
proof -
  obtain ctx where "foldE (\<lambda>ctx x. MD5_digest ctx x False) MD5_newctx chunks = Inr ctx" "fed_all ctx (concat chunks)"
    using digest_chunks_ok [OF fed_all_new, of chunks] by auto
  then show ?thesis by (simp add: finish_ok)
qed

lemma MD5_sdigest_ok: "MD5_sdigest s = Inr (rfc_md5 s)"
proof -
  obtain ctx where "MD5_digest MD5_newctx s False = Inr ctx" "fed_all ctx s"
    using digest_part_ok [OF fed_all_new, of s] by auto
  then show ?thesis using finish_ok [of ctx s "[]"] by (simp add: MD5_sdigest_def)
qed

lemma fdigest_loop_ok:
  "fed_all ctx m \<Longrightarrow> [] \<notin> set chunks \<Longrightarrow>
    \<exists>ctx'. fed_all ctx' (m @ concat chunks) \<and> (\<forall>rs. fdigest_loop ctx (map Inr chunks @ rs) = fdigest_loop ctx' rs)"
proof (induction chunks arbitrary: ctx m)
  case (Cons x xs)
  obtain ctx1 where "MD5_digest ctx x False = Inr ctx1" "fed_all ctx1 (m @ x)" using digest_part_ok [OF Cons.prems(1)] by blast
  with Cons.IH [of ctx1 "m @ x"] Cons.prems(2) show ?case by auto
qed auto

text \<open>
  Reading from a descriptor: the digest is that of all the bytes read up to the end of the file (a read of 0
  bytes), whatever the sizes of the reads; a read error ends it with the error number and no digest.
\<close>

theorem MD5_fdigest_correct:
  assumes "[] \<notin> set chunks"
  shows "MD5_fdigest (map Inr chunks) = Inr (Inr (rfc_md5 (concat chunks)))"
    and "MD5_fdigest (map Inr chunks @ Inr [] # later) = Inr (Inr (rfc_md5 (concat chunks)))"
    and "MD5_fdigest (map Inr chunks @ Inl errno # later) = Inr (Inl errno)"
proof -
  obtain ctx where ctx: "fed_all ctx (concat chunks)"
    "\<forall>rs. fdigest_loop MD5_newctx (map Inr chunks @ rs) = fdigest_loop ctx rs"
    using fdigest_loop_ok [OF fed_all_new assms] by auto
  obtain ctx' where "MD5_digest ctx [] True = Inr ctx'" "MD5_dump ctx' = rfc_md5 (concat chunks)"
    using digest_final_ok [OF ctx(1), of "[]"] by (auto simp: dump_ok)
  then show "MD5_fdigest (map Inr chunks) = Inr (Inr (rfc_md5 (concat chunks)))"
    "MD5_fdigest (map Inr chunks @ Inr [] # later) = Inr (Inr (rfc_md5 (concat chunks)))"
    "MD5_fdigest (map Inr chunks @ Inl errno # later) = Inr (Inl errno)"
    using ctx(2) [rule_format, of "[]"] by (simp_all add: MD5_fdigest_def ctx(2))
qed

theorem MD5_fdigest_witness:
  "MD5_fdigest (map Inr [[0x61, 0x62], [0x63]]) = Inr (Inr (rfc_md5 (concat [[0x61, 0x62], [0x63]])))"
  by (rule MD5_fdigest_correct(1)) simp

end
