(* ===== verification/XHeap.thy ===== *)
theory XHeap
  imports Heap_Order Bits
begin

text \<open>
  The pointer-based priority queue of \<open>src/mods/heap/explicit.c\<close>: a complete binary tree of nodes with
  links to both children and to the parent. The n-th node in level order is found by following the bits of n.
  Nodes live in a store; the handle is passed by value.
\<close>

section \<open>Data\<close>

record xheapnode =
  xl :: ptr
  xr :: ptr
  xp :: ptr

record xheap =
  xh_type :: heapOrder
  xh_cmp :: "addr comparator"
  xh_dtor :: "xheapnode dtor option"
  xh_root :: ptr
  xh_count :: nat

type_synonym xheap_state = "xheapnode store \<times> xheap"

section \<open>Exchanging two nodes\<close>

definition assert_no_direct_cycle :: "xheapnode store \<Rightarrow> ptr \<Rightarrow> unit res" where
  "assert_no_direct_cycle s node =
     bindE (throw_on (node = NULL) ERROR_BADPOINTER) (\<lambda>_.
     bindE (load s node) (\<lambda>n.
     bindE (throw_on (xp n = node) ERROR_BADLOGIC) (\<lambda>_.
     bindE (throw_on (xl n = node) ERROR_BADLOGIC) (\<lambda>_.
     throw_on (xr n = node) ERROR_BADLOGIC))))"

text \<open>\<open>if (c) c->p = a\<close>\<close>

definition set_parent :: "xheapnode store \<Rightarrow> ptr \<Rightarrow> ptr \<Rightarrow> xheapnode store res" where
  "set_parent s c a = (if c = NULL then Inr s else update s c (\<lambda>n. n\<lparr>xp := a\<rparr>))"

text \<open>\<open>if (a->p && a->p != b)\<close>: the child link of the parent that still names \<open>b\<close> is turned to \<open>a\<close>.\<close>

definition fix_parent :: "xheapnode store \<Rightarrow> ptr \<Rightarrow> ptr \<Rightarrow> xheapnode store res" where
  "fix_parent s a b =
     bindE (load s a) (\<lambda>na.
     if xp na \<noteq> NULL \<and> xp na \<noteq> b then
       bindE (load s (xp na)) (\<lambda>np.
       if xl np = b then update s (xp na) (\<lambda>n. n\<lparr>xl := a\<rparr>) else update s (xp na) (\<lambda>n. n\<lparr>xr := a\<rparr>))
     else Inr s)"

definition swap_nodes :: "xheapnode store \<Rightarrow> ptr \<Rightarrow> ptr \<Rightarrow> xheapnode store res" where
  "swap_nodes s a b =
     bindE (assert_no_direct_cycle s a) (\<lambda>_.
     bindE (assert_no_direct_cycle s b) (\<lambda>_.
     bindE (load s a) (\<lambda>tmp.
     bindE (load s b) (\<lambda>nb.
     bindE (update s a (\<lambda>n. n\<lparr>xl := if xl nb = a then b else xl nb,
                              xr := if xr nb = a then b else xr nb,
                              xp := if xp nb = a then b else xp nb\<rparr>)) (\<lambda>s.
     bindE (update s b (\<lambda>n. n\<lparr>xl := if xl tmp = b then a else xl tmp,
                              xr := if xr tmp = b then a else xr tmp,
                              xp := if xp tmp = b then a else xp tmp\<rparr>)) (\<lambda>s.
     bindE (load s a) (\<lambda>na. bindE (set_parent s (xl na) a) (\<lambda>s.
     bindE (load s a) (\<lambda>na. bindE (set_parent s (xr na) a) (\<lambda>s.
     bindE (fix_parent s a b) (\<lambda>s.
     bindE (load s b) (\<lambda>nb. bindE (set_parent s (xl nb) b) (\<lambda>s.
     bindE (load s b) (\<lambda>nb. bindE (set_parent s (xr nb) b) (\<lambda>s.
     bindE (fix_parent s b a) (\<lambda>s.
     bindE (assert_no_direct_cycle s a) (\<lambda>_.
     bindE (assert_no_direct_cycle s b) (\<lambda>_.
     Inr s))))))))))))))))))"

section \<open>Finding a node by its position\<close>

fun find_nth_loop :: "xheapnode store \<Rightarrow> 64 word \<Rightarrow> nat \<Rightarrow> ptr \<Rightarrow> ptr res" where
  "find_nth_loop s bitpath 0 node = Inr node"
| "find_nth_loop s bitpath (Suc i) node =
     bindE (load s node) (\<lambda>n.
     let node = if get_bit bitpath (Suc i) = 1 then xr n else xl n in
     bindE (assertE (node \<noteq> NULL)) (\<lambda>_.
     find_nth_loop s bitpath i node))"

definition find_nth_node :: "xheapnode store \<Rightarrow> xheap \<Rightarrow> nat \<Rightarrow> ptr res" where
  "find_nth_node s xh n =
     (if xh_count xh = 0 \<or> n = 0 then Inr NULL
      else if n > xh_count xh then Inr NULL
      else
        let node = xh_root xh in
        bindE (assertE (node \<noteq> NULL)) (\<lambda>_.
        if n = 1 then Inr node
        else
          let nbits_needed = posmsb (of_nat n) - 1;
              bitpath = get_bits (of_nat n) nbits_needed nbits_needed
          in find_nth_loop s bitpath nbits_needed node))"

section \<open>Bubbling\<close>

definition xheap_pred :: "xheap \<Rightarrow> ptr \<Rightarrow> ptr \<Rightarrow> bool res" where
  "xheap_pred xh a b =
     (case (a, b) of
        (Some x, Some y) \<Rightarrow> Inr (case xh_type xh of MIN_HEAP \<Rightarrow> lt x y (xh_cmp xh) | MAX_HEAP \<Rightarrow> gt x y (xh_cmp xh))
      | _ \<Rightarrow> Inl NullDeref)"

text \<open>\<open>if (c && predicate(c, m)) m = c\<close>\<close>

definition pick_child :: "xheap \<Rightarrow> ptr \<Rightarrow> ptr \<Rightarrow> ptr res" where
  "pick_child xh c m =
     (if c = NULL then Inr m else bindE (xheap_pred xh c m) (\<lambda>before. Inr (if before then c else m)))"

fun xswap_down_while_unordered :: "nat \<Rightarrow> xheapnode store \<Rightarrow> xheap \<Rightarrow> ptr \<Rightarrow> xheap_state res" where
  "xswap_down_while_unordered 0 s xh p = Inl OutOfFuel"
| "xswap_down_while_unordered (Suc fuel) s xh p =
     bindE (load s p) (\<lambda>n.
     if xl n = NULL \<and> xr n = NULL then Inr (s, xh)
     else
       bindE (assertE (xl n \<noteq> p)) (\<lambda>_.
       bindE (assertE (xr n \<noteq> p)) (\<lambda>_.
       bindE (pick_child xh (xl n) p) (\<lambda>m.
       bindE (pick_child xh (xr n) m) (\<lambda>m.
       if p = m then Inr (s, xh)
       else
         bindE (assertE (m = xl n \<or> m = xr n)) (\<lambda>_.
         bindE (swap_nodes s p m) (\<lambda>s.
         bindE (load s m) (\<lambda>nm.
         xswap_down_while_unordered fuel s (if xp nm = NULL then xh\<lparr>xh_root := m\<rparr> else xh) p))))))))"

fun xswap_up_while_unordered :: "nat \<Rightarrow> xheapnode store \<Rightarrow> xheap \<Rightarrow> ptr \<Rightarrow> xheap_state res" where
  "xswap_up_while_unordered 0 s xh c = Inl OutOfFuel"
| "xswap_up_while_unordered (Suc fuel) s xh c =
     bindE (load s c) (\<lambda>n.
     if xp n = NULL then Inr (s, xh\<lparr>xh_root := c\<rparr>)
     else
       bindE (xheap_pred xh c (xp n)) (\<lambda>before.
       if before then bindE (swap_nodes s (xp n) c) (\<lambda>s. xswap_up_while_unordered fuel s xh c)
       else Inr (s, xh)))"

text \<open>One round per level would do; as many rounds as there are nodes is more than enough.\<close>

definition xbubble_down :: "xheapnode store \<Rightarrow> xheap \<Rightarrow> ptr \<Rightarrow> xheap_state res" where
  "xbubble_down s xh node =
     bindE (assertE (node \<noteq> NULL)) (\<lambda>_.
     bindE (assertE (xh_count xh > 0)) (\<lambda>_.
     xswap_down_while_unordered (xh_count xh + 1) s xh node))"

definition xbubble_up :: "xheapnode store \<Rightarrow> xheap \<Rightarrow> ptr \<Rightarrow> xheap_state res" where
  "xbubble_up s xh node =
     bindE (assertE (xh_count xh > 0)) (\<lambda>_. xswap_up_while_unordered (xh_count xh + 1) s xh node)"

section \<open>Operations\<close>

definition XHeap_init :: "heapOrder \<Rightarrow> addr comparator \<Rightarrow> xheapnode dtor option \<Rightarrow> xheap" where
  "XHeap_init ho cmp dtor = \<lparr>xh_type = ho, xh_cmp = cmp, xh_dtor = dtor, xh_root = NULL, xh_count = 0\<rparr>"

definition XHeap_new :: "heapOrder \<Rightarrow> addr comparator \<Rightarrow> xheapnode dtor option \<Rightarrow> xheap" where
  "XHeap_new ho cmp dtor = XHeap_init ho cmp dtor"

definition XHeap_count :: "xheap \<Rightarrow> nat" where
  "XHeap_count xh = xh_count xh"

definition XHeap_empty :: "xheap \<Rightarrow> bool" where
  "XHeap_empty xh \<longleftrightarrow> xh_count xh = 0"

definition XHeap_get_root :: "xheap \<Rightarrow> ptr" where
  "XHeap_get_root xh = xh_root xh"

text \<open>\<open>if (last == last->p->l) last->p->l = NULL; else last->p->r = NULL\<close>\<close>

definition unlink_leaf :: "xheapnode store \<Rightarrow> ptr \<Rightarrow> xheapnode store res" where
  "unlink_leaf s node =
     bindE (load s node) (\<lambda>n.
     bindE (load s (xp n)) (\<lambda>np.
     if xl np = node then update s (xp n) (\<lambda>n. n\<lparr>xl := NULL\<rparr>) else update s (xp n) (\<lambda>n. n\<lparr>xr := NULL\<rparr>)))"

definition XHeap_pop_root :: "xheapnode store \<Rightarrow> xheap \<Rightarrow> (ptr \<times> xheap_state) res" where
  "XHeap_pop_root s xh =
     (if xh_count xh = 0 then Inr (NULL, s, xh)
      else
        let root = xh_root xh in
        bindE (if xh_count xh = 1 then Inr (s, xh\<lparr>xh_root := NULL\<rparr>)
               else
                 bindE (find_nth_node s xh (xh_count xh)) (\<lambda>last.
                 bindE (assertE (last \<noteq> NULL)) (\<lambda>_.
                 bindE (load s last) (\<lambda>nl.
                 bindE (assertE (xp nl \<noteq> NULL)) (\<lambda>_.
                 bindE (assertE (root \<noteq> NULL)) (\<lambda>_.
                 bindE (load s root) (\<lambda>nr.
                 bindE (assertE (\<not> (xl nr = NULL \<and> xr nr = NULL))) (\<lambda>_.
                 bindE (swap_nodes s last root) (\<lambda>s.
                 let xh = xh\<lparr>xh_root := last\<rparr> in
                 bindE (load s root) (\<lambda>nr.
                 bindE (assertE (xp nr \<noteq> NULL)) (\<lambda>_.
                 bindE (unlink_leaf s root) (\<lambda>s.
                 xbubble_down s xh (xh_root xh))))))))))))) (\<lambda>(s, xh).
        Inr (root, s, xh\<lparr>xh_count := xh_count xh - 1\<rparr>)))"

definition XHeap_push_node :: "xheapnode store \<Rightarrow> xheap \<Rightarrow> ptr \<Rightarrow> xheap_state res" where
  "XHeap_push_node s xh node =
     bindE (assertE (node \<noteq> NULL)) (\<lambda>_.
     let xh = xh\<lparr>xh_count := (xh_count xh + 1) mod SZ\<rparr> in
     if xh_count xh = 1 then
       bindE (update s node (\<lambda>n. n\<lparr>xr := NULL, xl := NULL, xp := NULL\<rparr>)) (\<lambda>s.
       Inr (s, xh\<lparr>xh_root := node\<rparr>))
     else
       bindE (find_nth_node s xh (xh_count xh div 2)) (\<lambda>p.
       bindE (assertE (p \<noteq> NULL)) (\<lambda>_.
       bindE (update s node (\<lambda>n. n\<lparr>xp := p, xr := NULL, xl := NULL\<rparr>)) (\<lambda>s.
       bindE (load s p) (\<lambda>np.
       bindE (if xl np \<noteq> NULL then update s p (\<lambda>n. n\<lparr>xr := node\<rparr>) else update s p (\<lambda>n. n\<lparr>xl := node\<rparr>)) (\<lambda>s.
       xbubble_up s xh node))))))"

text \<open>The recursion visits a tree; its fuel bounds the depth.\<close>

fun xheap_destroy_rec :: "nat \<Rightarrow> xheapnode dtor \<Rightarrow> xheapnode store \<Rightarrow> ptr \<Rightarrow> xheapnode store res" where
  "xheap_destroy_rec 0 d s node = Inl OutOfFuel"
| "xheap_destroy_rec (Suc fuel) d s node =
     (case node of
        None \<Rightarrow> Inr s
      | Some a \<Rightarrow>
          bindE (load s node) (\<lambda>n.
          bindE (xheap_destroy_rec fuel d s (xl n)) (\<lambda>s.
          bindE (load s node) (\<lambda>n.
          bindE (xheap_destroy_rec fuel d s (xr n)) (\<lambda>s.
          d s a)))))"

definition XHeap_clear :: "xheapnode store \<Rightarrow> xheap \<Rightarrow> bool \<Rightarrow> xheap_state res" where
  "XHeap_clear s xh free_containers =
     bindE (if free_containers
            then (case xh_dtor xh of
                    None \<Rightarrow> Inl (Throw ERROR_MISCONFIGURED)
                  | Some d \<Rightarrow> xheap_destroy_rec (xh_count xh + 2) d s (xh_root xh))
            else Inr s) (\<lambda>s.
     Inr (s, xh\<lparr>xh_root := NULL, xh_count := 0\<rparr>))"

definition XHeap_destroy :: "xheapnode store \<Rightarrow> xheap \<Rightarrow> bool \<Rightarrow> (xheapnode store \<times> xheap option) res" where
  "XHeap_destroy s xh free_containers =
     bindE (XHeap_clear s xh free_containers) (\<lambda>(s, xh). Inr (s, None))"

definition XHeap_remove_node :: "xheapnode store \<Rightarrow> xheap \<Rightarrow> ptr \<Rightarrow> bool \<Rightarrow> xheap_state res" where
  "XHeap_remove_node s xh node free_container =
     bindE (assertE (node \<noteq> NULL)) (\<lambda>_.
     if xh_count xh = 0 then Inr (s, xh)
     else
       bindE (find_nth_node s xh (xh_count xh)) (\<lambda>last.
       bindE (assertE (last \<noteq> NULL)) (\<lambda>_.
       bindE (if node = xh_root xh then bindE (XHeap_pop_root s xh) (\<lambda>(_, st). Inr st)
              else
                bindE (swap_nodes s node last) (\<lambda>s.
                bindE (unlink_leaf s node) (\<lambda>s.
                bindE (xbubble_down s xh last) (\<lambda>(s, xh).
                Inr (s, xh\<lparr>xh_count := xh_count xh - 1\<rparr>))))) (\<lambda>(s, xh).
       if free_container
       then (case xh_dtor xh of
               None \<Rightarrow> Inl (Throw ERROR_MISCONFIGURED)
             | Some d \<Rightarrow> bindE (d s (the node)) (\<lambda>s. Inr (s, xh)))
       else Inr (s, xh)))))"

definition XHeap_priochange :: "xheapnode store \<Rightarrow> xheap \<Rightarrow> ptr \<Rightarrow> xheap_state res" where
  "XHeap_priochange s xh node =
     bindE (assertE (node \<noteq> NULL)) (\<lambda>_.
     bindE (load s node) (\<lambda>n.
     let cmp = (case xp n of
                  Some p \<Rightarrow> xh_cmp xh (the node) p
                | None \<Rightarrow> (case xh_type xh of MIN_HEAP \<Rightarrow> GT | MAX_HEAP \<Rightarrow> LT))
     in case xh_type xh of
          MIN_HEAP \<Rightarrow> (case cmp of EQ \<Rightarrow> Inr (s, xh) | LT \<Rightarrow> xbubble_up s xh node | GT \<Rightarrow> xbubble_down s xh node)
        | MAX_HEAP \<Rightarrow> (case cmp of EQ \<Rightarrow> Inr (s, xh) | LT \<Rightarrow> xbubble_down s xh node | GT \<Rightarrow> xbubble_up s xh node)))"

end
