(* ===== verification/XHeap_Swap.thy ===== *)
theory XHeap_Swap
  imports XHeap
begin

text \<open>
  The exchange of two nodes of a linked tree. \<open>linked s V\<close> says that child and parent links of the nodes \<open>V\<close>
  agree; \<open>swap_nodes\<close> then renames the two nodes in every link, except when the first is the right and the
  second the left child of one parent.
\<close>

definition linked :: "xheapnode store \<Rightarrow> addr set \<Rightarrow> bool" where
  "linked s V \<longleftrightarrow> (\<forall>x n. x \<in> V \<longrightarrow> s x = Some n \<longrightarrow>
     (\<forall>y. xl n = Some y \<or> xr n = Some y \<longrightarrow> y \<in> V \<and> y \<noteq> x \<and> (\<exists>m. s y = Some m \<and> xp m = Some x)) \<and>
     (xl n = xr n \<longrightarrow> xl n = None) \<and>
     (\<forall>q. xp n = Some q \<longrightarrow> q \<in> V \<and> q \<noteq> x \<and> (\<exists>m. s q = Some m \<and> (xl m = Some x \<or> xr m = Some x))))"

definition swap_addr :: "addr \<Rightarrow> addr \<Rightarrow> addr \<Rightarrow> addr" where
  "swap_addr a b x = (if x = a then b else if x = b then a else x)"

definition rename_node :: "addr \<Rightarrow> addr \<Rightarrow> xheapnode \<Rightarrow> xheapnode" where
  "rename_node a b n = \<lparr>xl = map_option (swap_addr a b) (xl n), xr = map_option (swap_addr a b) (xr n),
     xp = map_option (swap_addr a b) (xp n)\<rparr>"

section \<open>The steps as functions on the store\<close>

definition par_to :: "ptr \<Rightarrow> addr \<Rightarrow> xheapnode store \<Rightarrow> xheapnode store" where
  "par_to c a s = (\<lambda>x. if c = Some x then map_option (\<lambda>n. n\<lparr>xp := Some a\<rparr>) (s x) else s x)"

definition child_to :: "addr \<Rightarrow> ptr \<Rightarrow> addr \<Rightarrow> xheapnode store \<Rightarrow> xheapnode store" where
  "child_to a p b s = (\<lambda>x. if p = Some x \<and> p \<noteq> Some b
     then map_option (\<lambda>n. if xl n = Some b then n\<lparr>xl := Some a\<rparr> else n\<lparr>xr := Some a\<rparr>) (s x) else s x)"

lemma set_parent_ok:
  assumes "\<And>x. c = Some x \<Longrightarrow> x \<in> dom s"
  shows "set_parent s c (Some a) = Inr (par_to c a s)"
  using assms by (cases c) (auto simp: set_parent_def par_to_def fun_eq_iff dom_def)

lemma fix_parent_ok:
  assumes "s a = Some n" and "\<And>x. xp n = Some x \<Longrightarrow> x \<in> dom s"
  shows "fix_parent s (Some a) (Some b) = Inr (child_to a (xp n) b s)"
proof (cases "xp n")
  case None
  then show ?thesis using assms(1) by (simp add: fix_parent_def child_to_def)
next
  case (Some q)
  then obtain m where "s q = Some m" using assms(2) by auto
  then show ?thesis using assms(1) Some by (auto simp: fix_parent_def child_to_def fun_eq_iff)
qed

lemma dom_steps [simp]: "dom (par_to c a s) = dom s" "dom (child_to a p b s) = dom s"
  by (auto simp: par_to_def child_to_def dom_def split: if_splits)

lemma no_cycle_ok:
  "s a = Some n \<Longrightarrow> xl n \<noteq> Some a \<Longrightarrow> xr n \<noteq> Some a \<Longrightarrow> xp n \<noteq> Some a \<Longrightarrow> assert_no_direct_cycle s (Some a) = Inr ()"
  by (simp add: assert_no_direct_cycle_def)

lemma if_swap: "p \<noteq> Some b \<Longrightarrow> (if p = Some a then Some b else p) = map_option (swap_addr a b) p"
  "p \<noteq> Some a \<Longrightarrow> (if p = Some b then Some a else p) = map_option (swap_addr a b) p"
  by (cases p; simp add: swap_addr_def)+

lemma if_both: "(if p = Some a then Some b else if p = Some b then Some a else p) = map_option (swap_addr a b) p"
  by (cases p) (simp_all add: swap_addr_def)

lemma swap_addr_simps [simp]:
  "swap_addr a b a = b" "swap_addr a b b = a" "x \<noteq> a \<Longrightarrow> x \<noteq> b \<Longrightarrow> swap_addr a b x = x"
  "swap_addr a b (swap_addr a b x) = x"
  by (auto simp: swap_addr_def)

lemma swap_addr_sym: "swap_addr b a = swap_addr a b"
  by (auto simp: fun_eq_iff swap_addr_def)

lemma swapped_ptr:
  "map_option (swap_addr a b) p = Some x \<longleftrightarrow> p = Some (swap_addr a b x)"
  by (cases p) (auto simp: swap_addr_def)

lemma rename_node_ptr [simp]:
  "xl (rename_node a b n) = Some x \<longleftrightarrow> xl n = Some (swap_addr a b x)"
  "xr (rename_node a b n) = Some x \<longleftrightarrow> xr n = Some (swap_addr a b x)"
  "xp (rename_node a b n) = Some x \<longleftrightarrow> xp n = Some (swap_addr a b x)"
  by (simp_all add: rename_node_def swapped_ptr del: map_option_eq_Some)

section \<open>The exchange\<close>

definition swapped :: "xheapnode store \<Rightarrow> addr \<Rightarrow> addr \<Rightarrow> xheapnode \<Rightarrow> xheapnode \<Rightarrow> xheapnode store" where
  "swapped s a b na nb =
     (let A = rename_node a b nb; B = rename_node a b na in
      child_to b (xp B) a (par_to (xr B) b (par_to (xl B) b
        (child_to a (xp A) b (par_to (xr A) a (par_to (xl A) a (s(a \<mapsto> A, b \<mapsto> B))))))))"

lemma linkedD:
  assumes "linked s V" "x \<in> V" "s x = Some n"
  shows "xl n = Some y \<or> xr n = Some y \<Longrightarrow> y \<in> V \<and> y \<noteq> x \<and> (\<exists>m. s y = Some m \<and> xp m = Some x)"
    and "xl n = xr n \<Longrightarrow> xl n = None"
    and "xp n = Some y \<Longrightarrow> y \<in> V \<and> y \<noteq> x \<and> (\<exists>m. s y = Some m \<and> (xl m = Some x \<or> xr m = Some x))"
  using assms unfolding linked_def by blast+

lemma swapped_ends:
  assumes lk: "linked s V" and ab: "a \<in> V" "b \<in> V" "a \<noteq> b" and n: "s a = Some na" "s b = Some nb"
    and acyclic: "\<not> (xp na = Some b \<and> xp nb = Some a)"
  shows "swapped s a b na nb a = Some (rename_node a b nb)" "swapped s a b na nb b = Some (rename_node a b na)"
    and "swap_nodes s (Some a) (Some b) = Inr (swapped s a b na nb)"
proof -
  let ?A = "rename_node a b nb" and ?B = "rename_node a b na"
  note la = linkedD [OF lk ab(1) n(1)] and lb = linkedD [OF lk ab(2) n(2)]
  have self: "xl na \<noteq> Some a" "xr na \<noteq> Some a" "xp na \<noteq> Some a" "xl nb \<noteq> Some b" "xr nb \<noteq> Some b" "xp nb \<noteq> Some b"
    using la(1,3) lb(1,3) by blast+
  have up: "xl na = Some b \<or> xr na = Some b \<Longrightarrow> xp nb = Some a" "xl nb = Some a \<or> xr nb = Some a \<Longrightarrow> xp na = Some b"
    using la(1) [of b] lb(1) [of a] n by auto
  have selfA: "xl ?A \<noteq> Some a" "xr ?A \<noteq> Some a" "xp ?A \<noteq> Some a" "xl ?B \<noteq> Some b" "xr ?B \<noteq> Some b" "xp ?B \<noteq> Some b"
    using self by simp_all
  have upA: "xl ?A = Some b \<or> xr ?A = Some b \<Longrightarrow> xp ?B = Some a" "xl ?B = Some a \<or> xr ?B = Some a \<Longrightarrow> xp ?A = Some b"
    using up by simp_all
  define s1 where "s1 = s(a \<mapsto> ?A, b \<mapsto> ?B)"
  define s2 where "s2 = par_to (xl ?A) a s1"
  define s3 where "s3 = par_to (xr ?A) a s2"
  define s4 where "s4 = child_to a (xp ?A) b s3"
  define s5 where "s5 = par_to (xl ?B) b s4"
  define s6 where "s6 = par_to (xr ?B) b s5"
  define s7 where "s7 = child_to b (xp ?B) a s6"
  have s7: "swapped s a b na nb = s7" by (simp add: swapped_def s1_def s2_def s3_def s4_def s5_def s6_def s7_def Let_def)
  have keep: "n\<lparr>xp := p\<rparr> = n" if "xp n = p" for n :: xheapnode and p using that by simp
  have A: "s1 a = Some ?A" "s2 a = Some ?A" "s3 a = Some ?A" "s4 a = Some ?A" "s5 a = Some ?A" "s6 a = Some ?A" "s7 a = Some ?A"
    using ab(3) selfA(1-3) upA(2) by (auto simp: s1_def s2_def s3_def s4_def s5_def s6_def s7_def par_to_def child_to_def keep)
  have B: "s1 b = Some ?B" "s2 b = Some ?B" "s3 b = Some ?B" "s4 b = Some ?B" "s5 b = Some ?B" "s6 b = Some ?B" "s7 b = Some ?B"
    using selfA(4-6) upA(1) by (auto simp: s1_def s2_def s3_def s4_def s5_def s6_def s7_def par_to_def child_to_def keep)
  show "swapped s a b na nb a = Some (rename_node a b nb)" "swapped s a b na nb b = Some (rename_node a b na)"
    using A(7) B(7) by (simp_all add: s7)
  have dom: "dom s1 = dom s" using n by (auto simp: s1_def)
  have ptrs: "x \<in> dom s" if "xl ?A = Some x \<or> xr ?A = Some x \<or> xp ?A = Some x \<or> xl ?B = Some x \<or> xr ?B = Some x \<or> xp ?B = Some x" for x
  proof -
    have "swap_addr a b x \<in> dom s"
      using that la(1,3) [of "swap_addr a b x"] lb(1,3) [of "swap_addr a b x"] by auto
    then show ?thesis using n by (auto simp: swap_addr_def split: if_splits)
  qed
  have c: "assert_no_direct_cycle s (Some a) = Inr ()" "assert_no_direct_cycle s (Some b) = Inr ()"
    "assert_no_direct_cycle s7 (Some a) = Inr ()" "assert_no_direct_cycle s7 (Some b) = Inr ()"
    using n self selfA A(7) B(7) by (auto intro: no_cycle_ok)
  have new: "na\<lparr>xl := if xl nb = Some a then Some b else xl nb, xr := if xr nb = Some a then Some b else xr nb,
       xp := if xp nb = Some a then Some b else xp nb\<rparr> = ?A"
    "nb\<lparr>xl := if xl na = Some b then Some a else xl na, xr := if xr na = Some b then Some a else xr na,
       xp := if xp na = Some b then Some a else xp na\<rparr> = ?B"
    using self by (simp_all add: if_swap rename_node_def swap_addr_sym [of b a])
  have st: "set_parent s1 (xl ?A) (Some a) = Inr s2" "set_parent s2 (xr ?A) (Some a) = Inr s3"
    "fix_parent s3 (Some a) (Some b) = Inr s4" "set_parent s4 (xl ?B) (Some b) = Inr s5"
    "set_parent s5 (xr ?B) (Some b) = Inr s6" "fix_parent s6 (Some b) (Some a) = Inr s7"
    unfolding s2_def s3_def s4_def s5_def s6_def s7_def
    by (rule set_parent_ok fix_parent_ok; use ptrs A B dom in \<open>auto simp: s2_def s3_def s4_def s5_def s6_def\<close>)+
  have u1: "update s (Some a) (\<lambda>n. n\<lparr>xl := if xl nb = Some a then Some b else xl nb, xr := if xr nb = Some a then Some b else xr nb,
       xp := if xp nb = Some a then Some b else xp nb\<rparr>) = Inr (s(a \<mapsto> ?A))"
    using n by (simp only: update_simps new)
  have u2: "update (s(a \<mapsto> ?A)) (Some b) (\<lambda>n. n\<lparr>xl := if xl na = Some b then Some a else xl na, xr := if xr na = Some b then Some a else xr na,
       xp := if xp na = Some b then Some a else xp na\<rparr>) = Inr s1"
    using n ab(3) new(2) by (simp add: s1_def)
  show "swap_nodes s (Some a) (Some b) = Inr (swapped s a b na nb)"
    unfolding swap_nodes_def by (simp only: s7 c n bindE_simps load_simps u1 u2 A B st)
qed

lemma swapped_others:
  assumes lk: "linked s V" and ab: "a \<in> V" "b \<in> V" "a \<noteq> b" and n: "s a = Some na" "s b = Some nb"
    and sib: "\<And>q m. xp na = Some q \<Longrightarrow> xp nb = Some q \<Longrightarrow> s q = Some m \<Longrightarrow> xr m \<noteq> Some a"
    and x: "x \<noteq> a" "x \<noteq> b"
  shows "swapped s a b na nb x = (if x \<in> V then map_option (rename_node a b) (s x) else s x)"
proof -
  note la = linkedD [OF lk ab(1) n(1)] and lb = linkedD [OF lk ab(2) n(2)]
  have at: "swapped s a b na nb x = child_to b (xp na) a (par_to (xr na) b (par_to (xl na) b
        (child_to a (xp nb) b (par_to (xr nb) a (par_to (xl nb) a s))))) x"
    using x by (simp add: swapped_def Let_def par_to_def child_to_def) 
  show ?thesis
  proof (cases "x \<in> V")
    case False
    then show ?thesis using la(1,3) [of x] lb(1,3) [of x] unfolding at by (auto simp: par_to_def child_to_def)
  next
    case True
    show ?thesis
    proof (cases "s x")
      case None
      then show ?thesis unfolding at by (simp add: par_to_def child_to_def)
    next
      case (Some m)
      note lx = linkedD [OF lk True Some]
      have fa: "xp m = Some a \<longleftrightarrow> xl na = Some x \<or> xr na = Some x" using lx(3) [of a] la(1) [of x] n Some by auto
      have fb: "xp m = Some b \<longleftrightarrow> xl nb = Some x \<or> xr nb = Some x" using lx(3) [of b] lb(1) [of x] n Some by auto
      have ca: "xp na = Some x \<longleftrightarrow> xl m = Some a \<or> xr m = Some a" using la(3) [of x] lx(1) [of a] n Some by auto
      have cb: "xp nb = Some x \<longleftrightarrow> xl m = Some b \<or> xr m = Some b" using lb(3) [of x] lx(1) [of b] n Some by auto
      have sb: "\<not> (xl m = Some b \<and> xr m = Some a)" using sib [of x m] ca cb Some by auto
      have one: "xl m = xr m \<Longrightarrow> xl m = None" by (rule lx(2))
      define m1 where "m1 = m\<lparr>xp := if xp m = Some b then Some a else xp m\<rparr>"
      define m2 where "m2 = (if xp nb = Some x then if xl m = Some b then m1\<lparr>xl := Some a\<rparr> else m1\<lparr>xr := Some a\<rparr> else m1)"
      define m3 where "m3 = m2\<lparr>xp := if xp m = Some a then Some b else xp m2\<rparr>"
      have "par_to (xr nb) a (par_to (xl nb) a s) x = Some m1"
        using fb Some by (auto simp: par_to_def m1_def)
      then have "child_to a (xp nb) b (par_to (xr nb) a (par_to (xl nb) a s)) x = Some m2"
        using x(2) by (auto simp: child_to_def m1_def m2_def)
      then have "par_to (xr na) b (par_to (xl na) b (child_to a (xp nb) b (par_to (xr nb) a (par_to (xl nb) a s)))) x = Some m3"
        using fa by (auto simp: par_to_def m3_def)
      then have "swapped s a b na nb x =
          Some (if xp na = Some x then if xl m3 = Some a then m3\<lparr>xl := Some b\<rparr> else m3\<lparr>xr := Some b\<rparr> else m3)"
        unfolding at using x(1) by (auto simp: child_to_def)
      also have "(if xp na = Some x then if xl m3 = Some a then m3\<lparr>xl := Some b\<rparr> else m3\<lparr>xr := Some b\<rparr> else m3) =
          \<lparr>xl = if xl m = Some a then Some b else if xl m = Some b then Some a else xl m,
           xr = if xr m = Some a then Some b else if xr m = Some b then Some a else xr m,
           xp = if xp m = Some a then Some b else if xp m = Some b then Some a else xp m\<rparr>"
        using ca cb sb one ab(3) by (cases m; cases "xp na = Some x"; cases "xp nb = Some x") (auto simp: m1_def m2_def m3_def)
      also have "\<dots> = rename_node a b m"
        by (simp add: rename_node_def if_both)
      also have "Some \<dots> = map_option (rename_node a b) (s x)"
        by (simp add: Some)
      finally show ?thesis using True by simp
    qed
  qed
qed

end
