(* ===== verification/XHeap_Correct.thy ===== *)
theory XHeap_Correct
  imports XHeap_Swap
begin

text \<open>
  What the linked heap represents: the list of its nodes in level order, from which every link follows
  (\<open>tree_of\<close>). An exchange of nodes is an exchange in the list, the search by position reads the list, and the
  bubbling loops compute the sifting functions of \<open>Heap_Order\<close>.
\<close>

section \<open>Trees in level order\<close>

definition at_pos :: "addr list \<Rightarrow> nat \<Rightarrow> ptr" where
  "at_pos xs i = (if i < length xs then Some (xs ! i) else None)"

definition node_at :: "addr list \<Rightarrow> nat \<Rightarrow> xheapnode" where
  "node_at xs i = \<lparr>xl = at_pos xs (2 * i + 1), xr = at_pos xs (2 * i + 2), xp = if i = 0 then None else Some (xs ! par i)\<rparr>"

definition tree_of :: "xheapnode store \<Rightarrow> addr list \<Rightarrow> bool" where
  "tree_of s xs \<longleftrightarrow> distinct xs \<and> (\<forall>i<length xs. s (xs ! i) = Some (node_at xs i))"

lemma at_pos_Some: "at_pos xs i = Some x \<longleftrightarrow> i < length xs \<and> xs ! i = x"
  by (auto simp: at_pos_def)

lemma at_pos_None [simp]: "at_pos xs i = None \<longleftrightarrow> length xs \<le> i"
  by (auto simp: at_pos_def)

lemma node_at_simps [simp]:
  "xl (node_at xs i) = at_pos xs (2 * i + 1)" "xr (node_at xs i) = at_pos xs (2 * i + 2)"
  "xp (node_at xs i) = (if i = 0 then None else Some (xs ! par i))"
  by (simp_all add: node_at_def)

lemma tree_node: "tree_of s xs \<Longrightarrow> i < length xs \<Longrightarrow> s (xs ! i) = Some (node_at xs i)"
  by (simp add: tree_of_def)

lemma tree_linked:
  assumes "tree_of s xs"
  shows "linked s (set xs)"
proof -
  have d: "distinct xs" using assms by (simp add: tree_of_def)
  have child: "\<exists>m. s y = Some m \<and> xp m = Some (xs ! i)" "y \<in> set xs" "y \<noteq> xs ! i"
    if "at_pos xs (2 * i + 1) = Some y \<or> at_pos xs (2 * i + 2) = Some y" for i y
    using that tree_node [OF assms, of "2 * i + 1"] tree_node [OF assms, of "2 * i + 2"] d
    by (auto simp: at_pos_Some nth_eq_iff_index_eq)
  have up: "\<exists>m. s (xs ! par i) = Some m \<and> (xl m = Some (xs ! i) \<or> xr m = Some (xs ! i))" "xs ! par i \<in> set xs" "xs ! par i \<noteq> xs ! i"
    if "i < length xs" "0 < i" for i
  proof -
    have p: "par i < length xs" "par i < i" using that par_less [of i] by auto
    moreover have "i = 2 * par i + 1 \<or> i = 2 * par i + 2" using child_cases [OF that(2) refl] .
    ultimately show "\<exists>m. s (xs ! par i) = Some m \<and> (xl m = Some (xs ! i) \<or> xr m = Some (xs ! i))"
      using tree_node [OF assms p(1)] that(1) by (auto simp: at_pos_Some)
    show "xs ! par i \<in> set xs" "xs ! par i \<noteq> xs ! i" using p that d by (auto simp: nth_eq_iff_index_eq)
  qed
  have ne: "at_pos xs (2 * i + 1) = at_pos xs (2 * i + 2) \<Longrightarrow> at_pos xs (2 * i + 1) = None" for i
    using d by (auto simp: at_pos_def nth_eq_iff_index_eq split: if_splits)
  show ?thesis unfolding linked_def
  proof (intro allI impI, goal_cases)
    case (1 x n)
    then obtain i where i: "i < length xs" "x = xs ! i" by (auto simp: in_set_conv_nth)
    then have n: "n = node_at xs i" using 1(2) tree_node [OF assms i(1)] by simp
    show ?case unfolding n i(2) node_at_simps using child [of i] up [OF i(1)] ne [of i] by (auto split: if_splits)
  qed
qed

lemma nth_swap_addr:
  assumes "distinct xs" "i < length xs" "j < length xs" "k < length xs"
  shows "xs[i := xs ! j, j := xs ! i] ! k = swap_addr (xs ! i) (xs ! j) (xs ! k)"
  using assms by (auto simp: nth_list_update swap_addr_def nth_eq_iff_index_eq)

lemma node_at_swap:
  assumes "distinct xs" "i < length xs" "j < length xs" "k < length xs"
  shows "node_at (xs[i := xs ! j, j := xs ! i]) k = rename_node (xs ! i) (xs ! j) (node_at xs k)"
proof -
  have "par k < length xs" if "k \<noteq> 0" using par_less [of k] that assms(4) by simp
  then show ?thesis
    using nth_swap_addr [OF assms(1-3)] by (simp add: node_at_def rename_node_def at_pos_def)
qed

lemma xheap_swap:
  assumes t: "tree_of s xs" and ij: "i < length xs" "j < length xs" "i \<noteq> j"
    and sib: "\<not> (i = Suc j \<and> par i = par j \<and> 0 < j)"
  obtains s' where "swap_nodes s (Some (xs ! i)) (Some (xs ! j)) = Inr s'"
    and "tree_of s' (xs[i := xs ! j, j := xs ! i])" and "frame (set xs) s s'"
proof -
  let ?a = "xs ! i" and ?b = "xs ! j" and ?na = "node_at xs i" and ?nb = "node_at xs j"
  let ?ys = "xs[i := ?b, j := ?a]" and ?s' = "swapped s ?a ?b ?na ?nb"
  have d: "distinct xs" using t by (simp add: tree_of_def)
  have ne: "?a \<noteq> ?b" using d ij by (simp add: nth_eq_iff_index_eq)
  note lk = tree_linked [OF t] nth_mem [OF ij(1)] nth_mem [OF ij(2)] ne tree_node [OF t ij(1)] tree_node [OF t ij(2)]
  have acyc: "\<not> (xp ?na = Some ?b \<and> xp ?nb = Some ?a)"
  proof
    assume "xp ?na = Some ?b \<and> xp ?nb = Some ?a"
    then have "0 < i" "0 < j" "xs ! par i = xs ! j" "xs ! par j = xs ! i" by (auto split: if_splits)
    moreover from this have "par i < i" "par j < j" using par_less by auto
    ultimately have "par i = j" "par j = i" using d ij by (simp_all add: nth_eq_iff_index_eq)
    then show False using \<open>par i < i\<close> \<open>par j < j\<close> by simp
  qed
  note ends = swapped_ends [OF lk acyc]
  have sibs: "xr m \<noteq> Some ?a" if "xp ?na = Some q" "xp ?nb = Some q" "s q = Some m" for q m
  proof -
    have ij0: "0 < i" "0 < j" and q: "q = xs ! par i" "q = xs ! par j" using that by (auto split: if_splits)
    have p: "par i < length xs" "par j < length xs" using par_less [OF ij0(1)] par_less [OF ij0(2)] ij by auto
    then have pe: "par i = par j" using q d by (simp add: nth_eq_iff_index_eq)
    have "m = node_at xs (par i)" using that(3) q(1) tree_node [OF t p(1)] by simp
    moreover have "i \<noteq> 2 * par i + 2"
      using sib pe ij ij0 child_cases [OF ij0(2) refl] by auto
    ultimately show ?thesis using d ij(1) by (auto simp: at_pos_Some nth_eq_iff_index_eq)
  qed
  have others: "?s' x = (if x \<in> set xs then map_option (rename_node ?a ?b) (s x) else s x)" if "x \<noteq> ?a" "x \<noteq> ?b" for x
    by (rule swapped_others [OF lk]) (use sibs that in auto)
  have look: "?s' (swap_addr ?a ?b (xs ! k)) = Some (rename_node ?a ?b (node_at xs k))" if k: "k < length xs" for k
  proof -
    consider "xs ! k = ?a" | "xs ! k = ?b" | "xs ! k \<noteq> ?a" "xs ! k \<noteq> ?b" by blast
    then show ?thesis
    proof cases
      case 1
      then have "k = i" using d k ij by (simp add: nth_eq_iff_index_eq)
      then show ?thesis using ends(2) by simp
    next
      case 2
      then have "k = j" using d k ij by (simp add: nth_eq_iff_index_eq)
      then show ?thesis using ends(1) by simp
    next
      case 3
      then show ?thesis using others [of "xs ! k"] k tree_node [OF t k] by simp
    qed
  qed
  have "tree_of ?s' ?ys"
    unfolding tree_of_def
  proof (intro conjI allI impI)
    show "distinct ?ys" using d ij by (simp add: distinct_swap)
    fix k assume "k < length ?ys"
    then have k: "k < length xs" by simp
    show "?s' (?ys ! k) = Some (node_at ?ys k)"
      unfolding nth_swap_addr [OF d ij(1,2) k] node_at_swap [OF d ij(1,2) k] by (rule look [OF k])
  qed
  moreover have "frame (set xs) s ?s'"
    unfolding frame_def
  proof
    show "\<forall>x. x \<notin> set xs \<longrightarrow> ?s' x = s x"
    proof (intro allI impI)
      fix x assume x: "x \<notin> set xs"
      then have "x \<noteq> ?a" "x \<noteq> ?b" using lk(2,3) by blast+
      from others [OF this] x show "?s' x = s x" by (simp only: if_False)
    qed
    show "dom ?s' = dom s"
    proof (rule set_eqI)
      fix x
      consider "x = ?a" | "x = ?b" | "x \<noteq> ?a" "x \<noteq> ?b" by blast
      then show "x \<in> dom ?s' \<longleftrightarrow> x \<in> dom s"
      proof cases
        case 1
        show ?thesis unfolding 1 domIff ends(1) lk(5) by simp
      next
        case 2
        show ?thesis unfolding 2 domIff ends(2) lk(6) by simp
      next
        case 3
        show ?thesis unfolding domIff others [OF 3] by simp
      qed
    qed
  qed
  ultimately show thesis using that ends(3) by blast
qed

section \<open>Finding a node\<close>

lemma find_nth_loop_ok:
  assumes t: "tree_of s xs" and n: "n \<le> length xs"
    and bits: "\<And>k. k < i \<Longrightarrow> bit path k = bit n k"
    and top: "0 < n div 2 ^ i"
  shows "find_nth_loop s path i (Some (xs ! (n div 2 ^ i - 1))) = Inr (Some (xs ! (n - 1)))"
  using bits top
proof (induction i)
  case 0
  then show ?case by simp
next
  case (Suc i)
  let ?m = "n div 2 ^ Suc i" and ?k = "n div 2 ^ i"
  have m: "?m = ?k div 2" by (simp only: power_Suc2 div_mult2_eq)
  have k: "?k = 2 * ?m + of_bool (bit n i)"
    unfolding m bit_iff_odd by (simp only: mod_2_eq_odd [symmetric] mult_div_mod_eq)
  have le: "?k \<le> length xs" using n div_le_dividend [of n "2 ^ i"] by linarith
  then have "?m - 1 < length xs" using Suc.prems(2) k by linarith
  then have node: "s (xs ! (?m - 1)) = Some (node_at xs (?m - 1))" by (rule tree_node [OF t])
  have g: "get_bit path (Suc i) = 1 \<longleftrightarrow> bit n i" using Suc.prems(1) [of i] by (simp add: get_bit_eq)
  obtain j where j: "?m = Suc j" using Suc.prems(2) by (metis gr0_implies_Suc)
  have child: "(if get_bit path (Suc i) = 1 then xr (node_at xs (?m - 1)) else xl (node_at xs (?m - 1))) = Some (xs ! (?k - 1))"
    using k le unfolding j by (auto simp: g at_pos_def)
  have "find_nth_loop s path i (Some (xs ! (?k - 1))) = Inr (Some (xs ! (n - 1)))"
    by (rule Suc.IH) (use Suc.prems k in auto)
  then show ?case
    by (simp only: find_nth_loop.simps load_simps(3) [of s, OF node] bindE_simps Let_def child) simp
qed

lemma find_nth_ok:
  assumes t: "tree_of s xs" and h: "xh_root h = at_pos xs 0" and n: "0 < n" "n \<le> length xs" "n \<le> xh_count h" and len: "length xs < 2 ^ 63"
  shows "find_nth_node s h n = Inr (Some (xs ! (n - 1)))"
proof (cases "n = 1")
  case True
  then show ?thesis using n h by (auto simp: find_nth_node_def at_pos_def Let_def)
next
  case False
  let ?v = "of_nat n :: 64 word"
  let ?b = "posmsb ?v - 1"
  have u: "unat ?v = n" using n(2) len by (simp add: unat_of_nat)
  then have nz: "?v \<noteq> 0" using n(1) by auto
  have ps: "2 ^ ?b \<le> n" "n < 2 ^ posmsb ?v" "posmsb ?v \<noteq> 0"
    using posmsb_ok [of ?v 0] nz by (auto simp: u)
  then have "n < 2 * 2 ^ ?b" by (cases "posmsb ?v") auto
  then have one: "n div 2 ^ ?b = 1" using ps(1) by (intro div_nat_eqI) simp_all
  have "?b \<le> LENGTH(64)" using posmsb_ok [of ?v 0, THEN conjunct1] by simp
  then have "bit (get_bits ?v ?b ?b) k = bit n k" if "k < ?b" for k
    using that bit_ranges_correct(1) [of ?b ?b ?v k] bit_unsigned_iff [of ?v k, where 'a = nat] by (simp add: u)
  from find_nth_loop_ok [OF t n(2) this, of ?b] one
  have "find_nth_loop s (get_bits ?v ?b ?b) ?b (Some (xs ! 0)) = Inr (Some (xs ! (n - 1)))" by simp
  moreover have "xs \<noteq> []" using n by auto
  ultimately show ?thesis using False n h by (simp add: find_nth_node_def at_pos_def Let_def)
qed

section \<open>Bubbling computes sifting\<close>

definition keyed :: "heapOrder \<Rightarrow> (addr \<Rightarrow> 'k::linorder) \<Rightarrow> xheap \<Rightarrow> bool" where
  "keyed ho key h \<longleftrightarrow> xh_type h = ho \<and> orders_by (xh_cmp h) key"

lemma keyed_upd [simp]: "keyed ho key (h\<lparr>xh_root := r\<rparr>) = keyed ho key h" "keyed ho key (h\<lparr>xh_count := c\<rparr>) = keyed ho key h"
  by (simp_all add: keyed_def)

lemma xheap_pred_key: "keyed ho key h \<Longrightarrow> xheap_pred h (Some x) (Some y) = Inr (key_before ho key x y)"
  by (cases ho) (auto simp: xheap_pred_def keyed_def orders_by_simps)

lemma pick_child_left:
  "keyed ho key h \<Longrightarrow> pick_child h (at_pos xs (2 * i + 1)) (Some (xs ! i)) = Inr (Some (xs ! pick_left (key_before ho key) (length xs) xs i))"
  by (auto simp: pick_child_def pick_left_def at_pos_def xheap_pred_key)

lemma pick_child_right:
  "keyed ho key h \<Longrightarrow> pick_child h (at_pos xs (2 * i + 2)) (Some (xs ! pick_left (key_before ho key) (length xs) xs i)) =
     Inr (Some (xs ! pick (key_before ho key) (length xs) xs i))"
  by (auto simp: pick_child_def pick_def at_pos_def xheap_pred_key)

lemma set_swap_list: "i < length xs \<Longrightarrow> j < length xs \<Longrightarrow> set (xs[i := xs ! j, j := xs ! i]) = set xs"
  by (metis mset_swap set_mset_mset)

lemma xdown_refines:
  assumes "tree_of s xs" and "xh_root h = at_pos xs 0" and "keyed ho key h" and "i < length xs" and "length xs - i < fuel"
  shows "\<exists>s'. xswap_down_while_unordered fuel s h (Some (xs ! i)) =
             Inr (s', h\<lparr>xh_root := at_pos (sift_down (key_before ho key) (length xs) xs i) 0\<rparr>) \<and>
           tree_of s' (sift_down (key_before ho key) (length xs) xs i) \<and> frame (set xs) s s'"
  using assms
proof (induction fuel arbitrary: s h xs i)
  case 0
  then show ?case by simp
next
  case (Suc fuel)
  let ?b = "key_before ho key" and ?n = "length xs"
  let ?m = "pick ?b ?n xs i"
  note t = Suc.prems(1) and k = Suc.prems(3) and i = Suc.prems(4)
  have d: "distinct xs" using t by (simp add: tree_of_def)
  note node = tree_node [OF t i]
  have root: "h\<lparr>xh_root := at_pos xs 0\<rparr> = h" using Suc.prems(2) by simp
  have self: "at_pos xs (2 * i + 1) \<noteq> Some (xs ! i)" "at_pos xs (2 * i + 2) \<noteq> Some (xs ! i)"
    using d i by (auto simp: at_pos_Some nth_eq_iff_index_eq)
  show ?case
  proof (cases "?m = i")
    case True
    then have "sift_down ?b ?n xs i = xs" by (subst sift_down.simps) simp
    moreover have "xswap_down_while_unordered (Suc fuel) s h (Some (xs ! i)) = Inr (s, h)"
      using True self node pick_child_left [OF k, of xs i] pick_child_right [OF k, of xs i] by simp
    ultimately show ?thesis using t root by auto
  next
    case False
    then have m: "i < ?m" "?m < ?n" using pick_cases [of ?b ?n xs i] by auto
    have mc: "?m = 2 * i + 1 \<or> ?m = 2 * i + 2" using False by (auto simp: pick_def pick_left_def split: if_splits)
    let ?ys = "xs[i := xs ! ?m, ?m := xs ! i]"
    obtain s1 where s1: "swap_nodes s (Some (xs ! i)) (Some (xs ! ?m)) = Inr s1" "tree_of s1 ?ys" "frame (set xs) s s1"
      using xheap_swap [OF t i m(2)] m(1) by (metis less_not_refl less_SucI lessI not_less_eq)
    have ymi: "?ys ! i = xs ! ?m" "?ys ! ?m = xs ! i" using i m by simp_all
    then have node1: "s1 (xs ! ?m) = Some (node_at ?ys i)" using tree_node [OF s1(2), of i] i by simp
    let ?h1 = "if i = 0 then h\<lparr>xh_root := Some (xs ! ?m)\<rparr> else h"
    have h1: "?h1 = h\<lparr>xh_root := at_pos ?ys 0\<rparr>"
      using Suc.prems(2) i m by (auto simp: at_pos_def)
    have ne: "xs ! i \<noteq> xs ! ?m" using d i m by (simp add: nth_eq_iff_index_eq)
    have kid: "at_pos xs (2 * i + 1) = Some (xs ! ?m) \<or> at_pos xs (2 * i + 2) = Some (xs ! ?m)"
      using mc m(2) by (auto simp: at_pos_def)
    have some: "\<not> (at_pos xs (2 * i + 1) = NULL \<and> at_pos xs (2 * i + 2) = NULL)"
      using kid by (elim disjE) (simp_all only: option.distinct simp_thms)
    have run: "xswap_down_while_unordered (Suc fuel) s h (Some (xs ! i)) = xswap_down_while_unordered fuel s1 ?h1 (Some (?ys ! ?m))"
      using self some kid ne s1(1) pick_child_left [OF k, of xs i] pick_child_right [OF k, of xs i]
      by (auto simp: node node1 ymi)
    have down: "sift_down ?b ?n xs i = sift_down ?b ?n ?ys ?m"
      using False by (subst sift_down.simps) (simp add: Let_def)
    have "\<exists>s'. xswap_down_while_unordered fuel s1 ?h1 (Some (?ys ! ?m)) =
             Inr (s', ?h1\<lparr>xh_root := at_pos (sift_down ?b (length ?ys) ?ys ?m) 0\<rparr>) \<and>
           tree_of s' (sift_down ?b (length ?ys) ?ys ?m) \<and> frame (set ?ys) s1 s'"
      by (rule Suc.IH [OF s1(2)]) (use h1 k m Suc.prems in auto)
    then obtain s' where fin: "xswap_down_while_unordered fuel s1 ?h1 (Some (?ys ! ?m)) =
             Inr (s', h\<lparr>xh_root := at_pos (sift_down ?b ?n ?ys ?m) 0\<rparr>)"
        "tree_of s' (sift_down ?b ?n ?ys ?m)" "frame (set xs) s1 s'"
      unfolding h1 set_swap_list [OF i m(2)] by auto
    have "frame (set xs) s s'" using s1(3) fin(3) by (rule frame_trans) simp
    then show ?thesis unfolding run down using fin(1,2) by blast
  qed
qed

lemma xup_refines:
  assumes "tree_of s xs" and "i \<noteq> 0 \<Longrightarrow> xh_root h = at_pos xs 0" and "keyed ho key h" and "i < length xs" and "i < fuel"
  shows "\<exists>s'. xswap_up_while_unordered fuel s h (Some (xs ! i)) =
             Inr (s', h\<lparr>xh_root := at_pos (sift_up (key_before ho key) xs i) 0\<rparr>) \<and>
           tree_of s' (sift_up (key_before ho key) xs i) \<and> frame (set xs) s s'"
  using assms
proof (induction fuel arbitrary: s h xs i)
  case 0
  then show ?case by simp
next
  case (Suc fuel)
  let ?b = "key_before ho key" and ?p = "par i"
  note t = Suc.prems(1) and k = Suc.prems(3) and i = Suc.prems(4)
  note node = tree_node [OF t i]
  show ?case
  proof (cases "i = 0 \<or> \<not> ?b (xs ! i) (xs ! ?p)")
    case True
    then have "sift_up ?b xs i = xs" by (subst sift_up.simps) simp
    moreover have "xswap_up_while_unordered (Suc fuel) s h (Some (xs ! i)) = Inr (s, h\<lparr>xh_root := at_pos xs 0\<rparr>)"
      using True Suc.prems(2) i node by (cases "i = 0") (simp_all add: xheap_pred_key [OF k] at_pos_def)
    ultimately show ?thesis using t by auto
  next
    case False
    then have p: "?p < i" "?p < length xs" using par_less [of i] i by auto
    let ?ys = "xs[?p := xs ! i, i := xs ! ?p]"
    obtain s1 where s1: "swap_nodes s (Some (xs ! ?p)) (Some (xs ! i)) = Inr s1" "tree_of s1 ?ys" "frame (set xs) s s1"
      using xheap_swap [OF t p(2) i] p(1) by (metis less_not_refl less_SucI lessI not_less_eq)
    have run: "xswap_up_while_unordered (Suc fuel) s h (Some (xs ! i)) = xswap_up_while_unordered fuel s1 h (Some (?ys ! ?p))"
      using False s1(1) p i by (simp add: node xheap_pred_key [OF k])
    have up: "sift_up ?b xs i = sift_up ?b ?ys ?p"
      using False by (subst sift_up.simps) simp
    have "\<exists>s'. xswap_up_while_unordered fuel s1 h (Some (?ys ! ?p)) =
             Inr (s', h\<lparr>xh_root := at_pos (sift_up ?b ?ys ?p) 0\<rparr>) \<and>
           tree_of s' (sift_up ?b ?ys ?p) \<and> frame (set ?ys) s1 s'"
      by (rule Suc.IH [OF s1(2)]) (use False k p i Suc.prems in \<open>auto simp: at_pos_def\<close>)
    then obtain s' where fin: "xswap_up_while_unordered fuel s1 h (Some (?ys ! ?p)) =
             Inr (s', h\<lparr>xh_root := at_pos (sift_up ?b ?ys ?p) 0\<rparr>)"
        "tree_of s' (sift_up ?b ?ys ?p)" "frame (set xs) s1 s'"
      unfolding set_swap_list [OF p(2) i] by auto
    have "frame (set xs) s s'" using s1(3) fin(3) by (rule frame_trans) simp
    then show ?thesis unfolding run up using fin(1,2) by blast
  qed
qed

declare xswap_down_while_unordered.simps [simp del] xswap_up_while_unordered.simps [simp del]

section \<open>Well-formed heaps\<close>

text \<open>A node takes up 24 bytes, so there are fewer than \<open>2^63\<close> of them.\<close>

definition xheap_inv :: "heapOrder \<Rightarrow> (addr \<Rightarrow> 'k::linorder) \<Rightarrow> xheapnode store \<Rightarrow> xheap \<Rightarrow> addr list \<Rightarrow> bool" where
  "xheap_inv ho key s h xs \<longleftrightarrow> tree_of s xs \<and> keyed ho key h \<and> xh_root h = at_pos xs 0 \<and> xh_count h = length xs \<and> length xs < 2 ^ 63"

lemma xheap_invD:
  assumes "xheap_inv ho key s h xs"
  shows "tree_of s xs" "keyed ho key h" "xh_root h = at_pos xs 0" "xh_count h = length xs" "length xs < 2 ^ 63" "distinct xs"
  using assms by (auto simp: xheap_inv_def tree_of_def)

lemma at_pos_0: "at_pos xs 0 = (if xs = [] then NULL else Some (hd xs))"
  by (auto simp: at_pos_def hd_conv_nth)

lemma node_at_snoc:
  assumes "xs \<noteq> []"
  defines "q \<equiv> par (length xs)"
  shows "q < length xs"
    and "i < length xs \<Longrightarrow> i \<noteq> q \<Longrightarrow> node_at (xs @ [a]) i = node_at xs i"
    and "node_at (xs @ [a]) (length xs) = \<lparr>xl = NULL, xr = NULL, xp = Some (xs ! q)\<rparr>"
    and "node_at (xs @ [a]) q = (if xl (node_at xs q) = NULL then (node_at xs q)\<lparr>xl := Some a\<rparr> else (node_at xs q)\<lparr>xr := Some a\<rparr>)"
    and "a \<notin> set xs \<Longrightarrow> node_at xs q = (if xl (node_at (xs @ [a]) q) = Some a then (node_at (xs @ [a]) q)\<lparr>xl := NULL\<rparr>
           else (node_at (xs @ [a]) q)\<lparr>xr := NULL\<rparr>)"
proof -
  let ?n = "length xs"
  have q: "q < ?n" using assms par_less [of ?n] by simp
  have c: "?n = 2 * q + 1 \<or> ?n = 2 * q + 2" using assms child_cases [of ?n q] by simp
  have pq: "par q < ?n" using q by (simp add: par_def)
  show "q < ?n" by (rule q)
  show "node_at (xs @ [a]) i = node_at xs i" if "i < ?n" "i \<noteq> q"
  proof -
    have "2 * i + 1 \<noteq> ?n" "2 * i + 2 \<noteq> ?n" using c that(2) by auto
    moreover have "par i < ?n" using that(1) by (simp add: par_def)
    ultimately show ?thesis using that(1) by (auto simp: node_at_def at_pos_def nth_append)
  qed
  show "node_at (xs @ [a]) ?n = \<lparr>xl = NULL, xr = NULL, xp = Some (xs ! q)\<rparr>"
    using assms(1) q by (simp add: node_at_def at_pos_def nth_append q_def)
  show "node_at (xs @ [a]) q = (if xl (node_at xs q) = NULL then (node_at xs q)\<lparr>xl := Some a\<rparr> else (node_at xs q)\<lparr>xr := Some a\<rparr>)"
    using c pq q by (auto simp: node_at_def at_pos_def nth_append)
  show "node_at xs q = (if xl (node_at (xs @ [a]) q) = Some a then (node_at (xs @ [a]) q)\<lparr>xl := NULL\<rparr>
           else (node_at (xs @ [a]) q)\<lparr>xr := NULL\<rparr>)" if "a \<notin> set xs"
    using c pq q that nth_mem [of "Suc (2 * q)" xs] by (auto simp: node_at_def at_pos_def nth_append)
qed

lemma tree_of_snocI:
  assumes "distinct (xs @ [a])" and "\<And>i. i < length xs \<Longrightarrow> s (xs ! i) = Some (node_at (xs @ [a]) i)"
    and "s a = Some (node_at (xs @ [a]) (length xs))"
  shows "tree_of s (xs @ [a])"
  using assms by (auto simp: tree_of_def nth_append less_Suc_eq)

lemma tree_append:
  assumes t: "tree_of s xs" and a: "a \<in> dom s" "a \<notin> set xs" and ne: "xs \<noteq> []"
  defines "p \<equiv> xs ! par (length xs)"
  obtains s1 np s2 where "update s (Some a) (\<lambda>n. n\<lparr>xp := Some p, xr := NULL, xl := NULL\<rparr>) = Inr s1" "s1 p = Some np"
     "(if xl np \<noteq> NULL then update s1 (Some p) (\<lambda>n. n\<lparr>xr := Some a\<rparr>) else update s1 (Some p) (\<lambda>n. n\<lparr>xl := Some a\<rparr>)) = Inr s2"
     "tree_of s2 (xs @ [a])" "frame (insert a (set xs)) s s2"
proof -
  let ?n = "length xs"
  let ?q = "par ?n"
  note snoc = node_at_snoc [OF ne]
  have d: "distinct xs" using t by (simp add: tree_of_def)
  obtain na where na: "s a = Some na" using a(1) by auto
  define s1 where "s1 = s(a \<mapsto> \<lparr>xl = NULL, xr = NULL, xp = Some p\<rparr>)"
  define s2 where "s2 = s1(p \<mapsto> node_at (xs @ [a]) ?q)"
  have u1: "update s (Some a) (\<lambda>n. n\<lparr>xp := Some p, xr := NULL, xl := NULL\<rparr>) = Inr s1"
    using na by (cases na) (simp add: s1_def)
  have ap: "p \<noteq> a" using a(2) snoc(1) by (auto simp: p_def)
  then have np: "s1 p = Some (node_at xs ?q)" using tree_node [OF t snoc(1)] by (simp add: s1_def p_def)
  then have u2: "(if xl (node_at xs ?q) \<noteq> NULL then update s1 (Some p) (\<lambda>n. n\<lparr>xr := Some a\<rparr>) else update s1 (Some p) (\<lambda>n. n\<lparr>xl := Some a\<rparr>)) = Inr s2"
    unfolding s2_def snoc(4) by simp
  have "s2 (xs ! i) = Some (node_at (xs @ [a]) i)" if i: "i < ?n" for i
  proof (cases "i = ?q")
    case True
    then show ?thesis by (simp add: s2_def p_def)
  next
    case False
    then have "xs ! i \<noteq> p" "xs ! i \<noteq> a" using d i snoc(1) a(2) by (auto simp: p_def nth_eq_iff_index_eq)
    then show ?thesis using snoc(2) [OF i False] tree_node [OF t i] by (simp add: s2_def s1_def)
  qed
  moreover have "s2 a = Some (node_at (xs @ [a]) ?n)" using ap by (simp add: s2_def s1_def snoc(3) p_def)
  ultimately have "tree_of s2 (xs @ [a])" using d a(2) by (intro tree_of_snocI) auto
  moreover have "frame (insert a (set xs)) s s2"
    using na np ap snoc(1) by (auto simp: frame_def s2_def s1_def p_def dom_def split: if_splits)
  ultimately show thesis using that u1 np u2 by blast
qed

lemma tree_unlink:
  assumes t: "tree_of s (xs @ [a])" and ne: "xs \<noteq> []"
  obtains s' where "unlink_leaf s (Some a) = Inr s'" "tree_of s' xs" "frame (set xs) s s'"
    "s' a = Some \<lparr>xl = NULL, xr = NULL, xp = Some (xs ! par (length xs))\<rparr>"
proof -
  let ?q = "par (length xs)"
  let ?p = "xs ! ?q"
  note snoc = node_at_snoc [OF ne]
  have d: "distinct xs" "a \<notin> set xs" using t by (auto simp: tree_of_def)
  have sa: "s a = Some \<lparr>xl = NULL, xr = NULL, xp = Some ?p\<rparr>"
    using tree_node [OF t, of "length xs"] by (simp add: snoc(3))
  have at: "s (xs ! i) = Some (node_at (xs @ [a]) i)" if "i < length xs" for i
    using tree_node [OF t, of i] that by (simp add: nth_append)
  define s' where "s' = s(?p \<mapsto> node_at xs ?q)"
  have "unlink_leaf s (Some a) = Inr s'"
    using at [OF snoc(1)] unfolding s'_def snoc(5) [OF d(2)] by (simp add: unlink_leaf_def sa)
  moreover have "s' (xs ! i) = Some (node_at xs i)" if i: "i < length xs" for i
    using at [OF i] snoc(2) [OF i] d(1) i snoc(1) by (cases "i = ?q") (simp_all add: s'_def nth_eq_iff_index_eq)
  then have "tree_of s' xs" using d by (simp add: tree_of_def)
  moreover have "frame (set xs) s s'" using at [OF snoc(1)] snoc(1) by (auto simp: frame_def s'_def)
  moreover have "s' a = Some \<lparr>xl = NULL, xr = NULL, xp = Some ?p\<rparr>" using sa d(2) snoc(1) by (auto simp: s'_def)
  ultimately show thesis by (rule that)
qed

end
