(* ===== verification/XHeap_Ops.thy ===== *)
theory XHeap_Ops
  imports XHeap_Correct
begin

text \<open>
  The operations of the linked heap on the list it represents, the heap as a priority queue (interpretation of
  \<open>pqueue\<close>), and the properties of the component.
\<close>

section \<open>Push and pop\<close>

lemma XHeap_push_ok:
  assumes inv: "xheap_inv ho key s h xs" and a: "a \<in> dom s" "a \<notin> set xs" and room: "length xs + 1 < 2 ^ 63"
  defines "ys \<equiv> sift_up (key_before ho key) (xs @ [a]) (length xs)"
  shows "\<exists>s'. XHeap_push_node s h (Some a) = Inr (s', h\<lparr>xh_count := length xs + 1, xh_root := at_pos ys 0\<rparr>) \<and>
    xheap_inv ho key s' (h\<lparr>xh_count := length xs + 1, xh_root := at_pos ys 0\<rparr>) ys \<and> frame (insert a (set xs)) s s'"
proof -
  note h = xheap_invD [OF inv]
  let ?h = "h\<lparr>xh_count := length xs + 1\<rparr>"
  have cnt: "(xh_count h + 1) mod SZ = length xs + 1" using h(4) room by (simp add: SZ_num)
  have len: "length ys = length xs + 1" by (simp add: ys_def)
  show ?thesis
  proof (cases "xs = []")
    case True
    obtain na where na: "s a = Some na" using a by auto
    have "ys = [a]" unfolding ys_def True by (subst sift_up.simps) simp
    moreover have "XHeap_push_node s h (Some a) = Inr (s(a \<mapsto> \<lparr>xl = NULL, xr = NULL, xp = NULL\<rparr>), ?h\<lparr>xh_root := Some a\<rparr>)"
      using cnt na True by (cases na) (simp add: XHeap_push_node_def Let_def)
    ultimately show ?thesis
      using na h(2) True by (auto simp: xheap_inv_def tree_of_def node_at_def at_pos_def frame_def)
  next
    case False
    obtain s1 np s2 where st: "update s (Some a) (\<lambda>n. n\<lparr>xp := Some (xs ! par (length xs)), xr := NULL, xl := NULL\<rparr>) = Inr s1"
      "s1 (xs ! par (length xs)) = Some np"
      "(if xl np \<noteq> NULL then update s1 (Some (xs ! par (length xs))) (\<lambda>n. n\<lparr>xr := Some a\<rparr>)
        else update s1 (Some (xs ! par (length xs))) (\<lambda>n. n\<lparr>xl := Some a\<rparr>)) = Inr s2"
      "tree_of s2 (xs @ [a])" "frame (insert a (set xs)) s s2"
      by (rule tree_append [OF h(1) a False])
    have half: "(length xs + 1) div 2 - 1 = par (length xs)" "0 < (length xs + 1) div 2" "(length xs + 1) div 2 \<le> length xs"
      using False by (cases xs; simp add: par_def)+
    have find: "find_nth_node s ?h ((length xs + 1) div 2) = Inr (Some (xs ! par (length xs)))"
      using find_nth_ok [OF h(1) _ half(2,3), of ?h] h(3,5) half by simp
    have "at_pos (xs @ [a]) 0 = at_pos xs 0" using False by (simp add: at_pos_def nth_append)
    then obtain s3 where s3: "xswap_up_while_unordered (length xs + 2) s2 ?h (Some ((xs @ [a]) ! length xs)) = Inr (s3, ?h\<lparr>xh_root := at_pos ys 0\<rparr>)"
      "tree_of s3 ys" "frame (set (xs @ [a])) s2 s3"
      using xup_refines [OF st(4), of "length xs" ?h ho key "length xs + 2"] h(2,3) by (auto simp: ys_def)
    have "XHeap_push_node s h (Some a) = Inr (s3, ?h\<lparr>xh_root := at_pos ys 0\<rparr>)"
      using False s3(1) find st(3) cnt by (cases "xl np") (simp_all add: XHeap_push_node_def Let_def st(1,2) xbubble_up_def)
    moreover have "xheap_inv ho key s3 (?h\<lparr>xh_root := at_pos ys 0\<rparr>) ys"
      using s3(2) h(2) len room by (simp add: xheap_inv_def)
    moreover have "frame (insert a (set xs)) s s3" using st(5) s3(3) by (rule frame_trans) auto
    ultimately show ?thesis by blast
  qed
qed

text \<open>Exchanging a node with the last one and unlinking it there.\<close>

lemma swap_self:
  assumes lk: "linked s V" and a: "a \<in> V" "s a = Some n"
  shows "swap_nodes s (Some a) (Some a) = Inr s"
proof -
  note la = linkedD [OF lk a]
  have self: "xl n \<noteq> Some a" "xr n \<noteq> Some a" "xp n \<noteq> Some a" using la(1,3) by blast+
  have c: "assert_no_direct_cycle s (Some a) = Inr ()" using a(2) self by (auto intro: no_cycle_ok)
  have same: "s(x \<mapsto> m) = s" if "s x = Some m" for x m using that by auto
  have "set_parent s c (Some a) = Inr s" if "c = xl n \<or> c = xr n" for c
  proof (cases c)
    case (Some x)
    then have "xl n = Some x \<or> xr n = Some x" using that by auto
    then obtain m where "s x = Some m" "xp m = Some a" using la(1) by blast
    then show ?thesis using Some by (cases m) (simp add: set_parent_def same)
  qed (simp add: set_parent_def)
  then have p: "set_parent s (xl n) (Some a) = Inr s" "set_parent s (xr n) (Some a) = Inr s" by simp_all
  have f: "fix_parent s (Some a) (Some a) = Inr s"
    using la(3) a(2) self by (cases "xp n") (auto simp: fix_parent_def same)
  have u: "update s (Some a) (\<lambda>n. n\<lparr>xl := if xl m = Some a then Some a else xl m, xr := if xr m = Some a then Some a else xr m,
      xp := if xp m = Some a then Some a else xp m\<rparr>) = Inr s" if "m = n" for m
    using a(2) that by (cases n) (auto simp: same)
  show ?thesis unfolding swap_nodes_def by (simp only: c a(2) bindE_simps load_simps u p f)
qed

lemma last_to_index:
  assumes t: "tree_of s (xs @ [l])" and i: "i \<le> length xs" and ne: "xs \<noteq> []"
  defines "a \<equiv> (xs @ [l]) ! i"
  defines "zs \<equiv> (if i < length xs then xs[i := l] else xs)"
  obtains s1 s2 n where "swap_nodes s (Some a) (Some l) = Inr s1" "s1 a = Some n" "xp n \<noteq> NULL" "unlink_leaf s1 (Some a) = Inr s2"
    "tree_of s2 zs" "frame (set (xs @ [l])) s s2" "i = length xs \<longrightarrow> (\<exists>m. s2 l = Some m \<and> xl m = NULL \<and> xr m = NULL)"
proof (cases "i < length xs")
  case True
  let ?ys = "xs[i := l] @ [a]"
  have "(xs @ [l])[i := (xs @ [l]) ! length xs, length xs := (xs @ [l]) ! i] = ?ys"
    using True by (simp add: list_update_append a_def nth_append)
  with xheap_swap [OF t, of i "length xs"] True
  obtain s1 where s1: "swap_nodes s (Some a) (Some l) = Inr s1" "tree_of s1 ?ys" "frame (set (xs @ [l])) s s1"
    by (auto simp: a_def)
  obtain s2 where s2: "unlink_leaf s1 (Some a) = Inr s2" "tree_of s2 (xs[i := l])" "frame (set (xs[i := l])) s1 s2"
    by (rule tree_unlink [OF s1(2)]) (use ne in auto)
  have "s1 a = Some (node_at ?ys (length xs))" using tree_node [OF s1(2), of "length xs"] by (simp add: nth_append)
  moreover have "frame (set (xs @ [l])) s s2"
    using s1(3) s2(3) by (rule frame_trans) (use set_update_subset_insert [of xs i l] in auto)
  ultimately show thesis using that s1(1) s2(1,2) True ne by (simp add: zs_def)
next
  case False
  then have i': "i = length xs" using i by simp
  then have a: "a = l" by (simp add: a_def)
  have sl: "s l = Some (node_at (xs @ [l]) (length xs))" using tree_node [OF t, of "length xs"] by simp
  have sw: "swap_nodes s (Some a) (Some l) = Inr s" unfolding a by (rule swap_self [OF tree_linked [OF t] _ sl]) simp
  obtain s2 where s2: "unlink_leaf s (Some l) = Inr s2" "tree_of s2 xs" "frame (set xs) s s2"
    "s2 l = Some \<lparr>xl = NULL, xr = NULL, xp = Some (xs ! par (length xs))\<rparr>"
    by (rule tree_unlink [OF t ne])
  moreover have "frame (set (xs @ [l])) s s2" using s2(3) by (rule frame_mono) auto
  ultimately show thesis using that sw sl False ne by (simp add: zs_def a)
qed

lemma bubble_at:
  assumes t: "tree_of s zs" and h: "xh_root h = at_pos zs 0" "keyed ho key h" "0 < xh_count h" "length zs \<le> xh_count h"
    and i: "i < length zs"
  shows "\<exists>s'. xbubble_down s h (Some (zs ! i)) =
             Inr (s', h\<lparr>xh_root := at_pos (sift_down (key_before ho key) (length zs) zs i) 0\<rparr>) \<and>
           tree_of s' (sift_down (key_before ho key) (length zs) zs i) \<and> frame (set zs) s s'"
  using xdown_refines [OF t h(1,2) i, of "xh_count h + 1"] h(3,4) by (simp add: xbubble_down_def)

lemma XHeap_pop_ok:
  assumes inv: "xheap_inv ho key s h (xs @ [l])"
  defines "ys \<equiv> (if xs = [] then [] else sift_down (key_before ho key) (length xs) (xs[0 := l]) 0)"
  shows "\<exists>s'. XHeap_pop_root s h = Inr (Some (hd (xs @ [l])), s', h\<lparr>xh_count := length xs, xh_root := at_pos ys 0\<rparr>) \<and>
    xheap_inv ho key s' (h\<lparr>xh_count := length xs, xh_root := at_pos ys 0\<rparr>) ys \<and> frame (set (xs @ [l])) s s'"
proof -
  note h = xheap_invD [OF inv]
  define a where "a = hd (xs @ [l])"
  have root: "xh_root h = Some a" using h(3) by (simp add: at_pos_0 a_def)
  show ?thesis
  proof (cases "xs = []")
    case True
    then show ?thesis using h root unfolding a_def [symmetric] by (auto simp: XHeap_pop_root_def xheap_inv_def ys_def tree_of_def at_pos_def)
  next
    case False
    let ?n = "length xs"
    have a: "a = (xs @ [l]) ! 0" "a = xs ! 0" using False by (simp_all add: a_def hd_conv_nth nth_append)
    have d: "l \<noteq> a" using h(6) False by (cases xs) (auto simp: a_def)
    have l: "(xs @ [l]) ! ?n = l" by simp
    have tl: "tree_of s (xs @ [l])" by (rule h(1))
    have sl: "s l = Some (node_at (xs @ [l]) ?n)" using tree_node [OF tl, of ?n] by simp
    have sa: "s a = Some (node_at (xs @ [l]) 0)" using tree_node [OF tl, of 0] a(1) by simp
    have find: "find_nth_node s h (xh_count h) = Inr (Some l)"
      using find_nth_ok [OF tl h(3), of "?n + 1"] h(4,5) by simp
    have ys': "(xs @ [l])[?n := (xs @ [l]) ! 0, 0 := (xs @ [l]) ! ?n] = xs[0 := l] @ [a]"
      using False a by (cases xs) simp_all
    obtain s1 where s1: "swap_nodes s (Some l) (Some a) = Inr s1" "tree_of s1 (xs[0 := l] @ [a])" "frame (set (xs @ [l])) s s1"
      using xheap_swap [OF tl, of ?n 0] False unfolding ys' unfolding l a(1) [symmetric] by auto
    have s1a: "s1 a = Some (node_at (xs[0 := l] @ [a]) ?n)" using tree_node [OF s1(2), of ?n] by (simp add: nth_append)
    obtain s2 where s2: "unlink_leaf s1 (Some a) = Inr s2" "tree_of s2 (xs[0 := l])" "frame (set (xs[0 := l])) s1 s2"
      by (rule tree_unlink [OF s1(2)]) (use False in auto)
    have at0: "xs[0 := l] ! 0 = l" "at_pos (xs[0 := l]) 0 = Some l" using False by (simp_all add: at_pos_def)
    obtain s3 where s3: "xbubble_down s2 (h\<lparr>xh_root := Some l\<rparr>) (Some l) = Inr (s3, h\<lparr>xh_root := at_pos ys 0\<rparr>)"
      "tree_of s3 ys" "frame (set (xs[0 := l])) s2 s3"
      using bubble_at [OF s2(2), of "h\<lparr>xh_root := Some l\<rparr>" ho key 0] h(2,4) False at0 by (auto simp: ys_def)
    have kid: "at_pos (xs @ [l]) (Suc 0) = Some ((xs @ [l]) ! Suc 0)" using False by (cases xs) (simp_all add: at_pos_def)
    have run: "XHeap_pop_root s h = Inr (Some a, s3, h\<lparr>xh_root := at_pos ys 0, xh_count := ?n\<rparr>)"
      using False d unfolding XHeap_pop_root_def root find
      by (simp add: Let_def h(4) sl sa s1(1) s1a s2(1) s3(1) kid)
    have "set (xs[0 := l]) \<subseteq> set (xs @ [l])" using set_update_subset_insert [of xs 0 l] by auto
    moreover have f: "frame (set (xs[0 := l])) s1 s3" using s2(3) s3(3) by (rule frame_trans) simp
    ultimately have "frame (set (xs @ [l])) s s3" by (intro frame_trans [OF s1(3) f]) auto
    moreover have "xheap_inv ho key s3 (h\<lparr>xh_count := ?n, xh_root := at_pos ys 0\<rparr>) ys"
      using s3(2) h(2,5) by (simp add: xheap_inv_def) (simp add: ys_def)
    ultimately show ?thesis using run unfolding a_def [symmetric] by (intro exI [of _ s3]) simp
  qed
qed

section \<open>Removal and priority change\<close>

lemma XHeap_remove_ok:
  assumes inv: "xheap_inv ho key s h (xs @ [l])" and i: "0 < i" "i \<le> length xs" and d: "fc \<Longrightarrow> xh_dtor h = Some d \<and> frees_node d"
  defines "a \<equiv> (xs @ [l]) ! i"
  defines "zs \<equiv> (if i < length xs then xs[i := l] else xs)"
  defines "ys \<equiv> sift_down (key_before ho key) (length xs) zs i"
  shows "\<exists>s'. XHeap_remove_node s h (Some a) fc = Inr (if fc then s'(a := None) else s', h\<lparr>xh_count := length xs, xh_root := at_pos ys 0\<rparr>) \<and>
    xheap_inv ho key s' (h\<lparr>xh_count := length xs, xh_root := at_pos ys 0\<rparr>) ys \<and> frame (set (xs @ [l])) s s'"
proof -
  note h = xheap_invD [OF inv]
  let ?n = "length xs"
  have ne: "xs \<noteq> []" using i by auto
  have lz: "length zs = ?n" by (simp add: zs_def)
  have find: "find_nth_node s h (xh_count h) = Inr (Some l)"
    using find_nth_ok [OF h(1,3), of "?n + 1"] h(4,5) by simp
  have "(xs @ [l]) ! 0 \<noteq> a" using h(6) i unfolding a_def by (subst nth_eq_iff_index_eq) auto
  then have nroot: "xh_root h \<noteq> Some a" using h(3) ne by (simp add: at_pos_def nth_append)
  obtain s1 s2 n where sw: "swap_nodes s (Some a) (Some l) = Inr s1" "s1 a = Some n" "xp n \<noteq> NULL" "unlink_leaf s1 (Some a) = Inr s2"
    "tree_of s2 zs" "frame (set (xs @ [l])) s s2" "i = ?n \<longrightarrow> (\<exists>m. s2 l = Some m \<and> xl m = NULL \<and> xr m = NULL)"
    using last_to_index [OF h(1) i(2) ne, folded a_def zs_def] by metis
  have root: "xh_root h = at_pos zs 0" using h(3) i ne by (simp add: at_pos_def zs_def nth_append)
  have sub: "set zs \<subseteq> set (xs @ [l])" using set_update_subset_insert [of xs i l] by (auto simp: zs_def)
  obtain s3 where s3: "xbubble_down s2 h (Some l) = Inr (s3, h\<lparr>xh_root := at_pos ys 0\<rparr>)" "tree_of s3 ys" "frame (set (xs @ [l])) s2 s3"
  proof (cases "i < ?n")
    case True
    then have "zs ! i = l" by (simp add: zs_def)
    moreover obtain s3 where "xbubble_down s2 h (Some (zs ! i)) = Inr (s3, h\<lparr>xh_root := at_pos ys 0\<rparr>)" "tree_of s3 ys" "frame (set zs) s2 s3"
      using bubble_at [OF sw(5) root h(2), of i] h(4) True lz by (auto simp: ys_def)
    ultimately show thesis using that frame_mono [of "set zs" s2 s3, OF _ sub] by metis
  next
    case False
    then obtain m where "s2 l = Some m" "xl m = NULL" "xr m = NULL" using sw(7) i by auto
    then have "xbubble_down s2 h (Some l) = Inr (s2, h)" using h(4) by (simp add: xbubble_down_def xswap_down_while_unordered.simps)
    moreover have "ys = zs" using False lz unfolding ys_def by (subst sift_down.simps) (simp add: pick_def pick_left_def)
    ultimately show thesis using that sw(5) root by simp
  qed
  have fr: "frame (set (xs @ [l])) s s3" by (rule frame_trans [OF sw(6) s3(3)]) simp
  have "a \<in> set (xs @ [l])" unfolding a_def by (rule nth_mem) (use i in simp)
  then have "a \<in> dom s" using h(1) unfolding tree_of_def in_set_conv_nth by auto
  then have free: "fc \<Longrightarrow> d s3 a = Inr (s3(a := None))" using d fr by (auto simp: frees_node_def frame_def)
  have "XHeap_remove_node s h (Some a) fc = Inr (if fc then s3(a := None) else s3, h\<lparr>xh_count := ?n, xh_root := at_pos ys 0\<rparr>)"
    using nroot sw s3(1) d free find by (simp add: XHeap_remove_node_def h(4))
  moreover have "xheap_inv ho key s3 (h\<lparr>xh_count := ?n, xh_root := at_pos ys 0\<rparr>) ys"
    using s3(2) h(2,5) lz by (simp add: xheap_inv_def ys_def)
  ultimately show ?thesis using fr by blast
qed

lemma XHeap_priochange_cases:
  assumes inv: "xheap_inv ho key s h xs" and i: "i < length xs"
  defines "b \<equiv> key_before ho key"
  shows "XHeap_priochange s h (Some (xs ! i)) =
     (if i = 0 then xbubble_down s h (Some (xs ! i))
      else if b (xs ! i) (xs ! par i) then xbubble_up s h (Some (xs ! i))
      else if b (xs ! par i) (xs ! i) then xbubble_down s h (Some (xs ! i))
      else Inr (s, h))"
proof -
  note h = xheap_invD [OF inv]
  have "xh_type h = ho" "orders_by (xh_cmp h) key" using h(2) by (auto simp: keyed_def)
  then show ?thesis
    using tree_node [OF h(1) i] by (cases ho) (auto simp: XHeap_priochange_def b_def orders_by_def cmp_by_def Let_def)
qed

lemma bubble_inv:
  assumes inv: "xheap_inv ho key s h xs" and i: "i < length xs"
  shows "\<exists>s' h'. xbubble_down s h (Some (xs ! i)) = Inr (s', h') \<and> xheap_inv ho key s' h' (sift_down (key_before ho key) (length xs) xs i)"
    and "\<exists>s' h'. xbubble_up s h (Some (xs ! i)) = Inr (s', h') \<and> xheap_inv ho key s' h' (sift_up (key_before ho key) xs i)"
proof -
  note h = xheap_invD [OF inv]
  have c: "0 < xh_count h" "length xs \<le> xh_count h" using h(4) i by auto
  from bubble_at [OF h(1,3,2) c i] h(2,4,5)
  show "\<exists>s' h'. xbubble_down s h (Some (xs ! i)) = Inr (s', h') \<and> xheap_inv ho key s' h' (sift_down (key_before ho key) (length xs) xs i)"
    by (auto simp: xheap_inv_def)
  show "\<exists>s' h'. xbubble_up s h (Some (xs ! i)) = Inr (s', h') \<and> xheap_inv ho key s' h' (sift_up (key_before ho key) xs i)"
    using xup_refines [OF h(1,3,2) i, of "xh_count h + 1"] h(2,4,5) i c(1) by (auto simp: xheap_inv_def xbubble_up_def)
qed

section \<open>Freeing everything\<close>

function below :: "nat \<Rightarrow> nat \<Rightarrow> nat set" where
  "below n i = (if i < n then insert i (below n (2 * i + 1) \<union> below n (2 * i + 2)) else {})"
  by pat_completeness auto
termination
  by (relation "measure (\<lambda>(n, i). n - i)") auto

declare below.simps [simp del]

lemma below_ancestor: "j \<in> below n i \<Longrightarrow> \<exists>k. (j + 1) div 2 ^ k = i + 1"
proof (induction n i rule: below.induct)
  case (1 n i)
  from 1(3) have i: "i < n" and "j = i \<or> j \<in> below n (2 * i + 1) \<or> j \<in> below n (2 * i + 2)"
    by (subst (asm) below.simps; auto split: if_splits)+
  then consider "j = i" | c where "c = 2 * i + 1 \<or> c = 2 * i + 2" "\<exists>k. (j + 1) div 2 ^ k = c + 1"
    using 1(1,2) [OF i] by blast
  then show ?case
  proof cases
    case 1
    then show ?thesis by (intro exI [of _ 0]) simp
  next
    case 2
    then obtain k where "(j + 1) div 2 ^ k = c + 1" by blast
    then have "(j + 1) div 2 ^ Suc k = (c + 1) div 2" by (simp only: power_Suc2 div_mult2_eq)
    then show ?thesis using 2(1) by (intro exI [of _ "Suc k"]) auto
  qed
qed

lemma below_siblings: "below n (2 * i + 1) \<inter> below n (2 * i + 2) = {}"
proof (rule equals0I)
  fix j assume "j \<in> below n (2 * i + 1) \<inter> below n (2 * i + 2)"
  then obtain k k' where "(j + 1) div 2 ^ k = 2 * i + 1 + 1" "(j + 1) div 2 ^ k' = 2 * i + 2 + 1"
    by (blast dest: below_ancestor)
  then have k: "(j + 1) div 2 ^ k = 2 * i + 2" "(j + 1) div 2 ^ k' = 2 * i + 3" by simp_all
  consider "k = k'" | m where "k' = k + Suc m" | m where "k = k' + Suc m"
    by (metis less_imp_Suc_add linorder_neqE_nat add_Suc_right)
  then show False
  proof cases
    case 1
    then show ?thesis using k by simp
  next
    case (2 m)
    then have "2 * i + 3 = (2 * i + 2) div 2 ^ Suc m" using k by (simp only: power_add div_mult2_eq)
    then show ?thesis using div_le_dividend [of "2 * i + 2" "2 ^ Suc m"] by linarith
  next
    case (3 m)
    then have "2 * i + 2 = (2 * i + 3) div 2 ^ Suc m" using k by (simp only: power_add div_mult2_eq)
    also have "\<dots> \<le> (2 * i + 3) div 2" by (rule div_le_mono2) simp_all
    finally show ?thesis by simp
  qed
qed

lemma below_self: "j \<in> below n i \<Longrightarrow> i \<noteq> j \<Longrightarrow> i < j"
proof (induction n i rule: below.induct)
  case (1 n i)
  then show ?case by (subst (asm) (3) below.simps) (fastforce split: if_splits)
qed

lemma below_closed: "k \<in> below n i \<Longrightarrow> c < n \<Longrightarrow> c = 2 * k + 1 \<or> c = 2 * k + 2 \<Longrightarrow> c \<in> below n i"
proof (induction n i rule: below.induct)
  case (1 n i)
  have i: "i < n" using 1(3) by (subst (asm) below.simps) (auto split: if_splits)
  have b: "below n i = insert i (below n (2 * i + 1) \<union> below n (2 * i + 2))" using i by (subst below.simps) simp
  have "c \<in> below n c" using 1(4) by (subst below.simps) simp
  then show ?case using 1(1,2) [OF i] 1(3-5) unfolding b by auto
qed

lemma below_root: "below n 0 = {..<n}"
proof (rule set_eqI)
  fix j
  have "j \<in> below n i \<Longrightarrow> j < n" for i
    by (induction n i rule: below.induct) (subst (asm) (3) below.simps, auto split: if_splits)
  moreover have "j < n \<Longrightarrow> j \<in> below n 0"
  proof (induction j rule: less_induct)
    case (less j)
    show ?case
    proof (cases "j = 0")
      case True
      then show ?thesis using less(2) by (subst below.simps) simp
    next
      case False
      then show ?thesis using less(1) [of "par j"] less(2) par_less [of j] child_cases [of j "par j"] below_closed [of "par j" n 0 j] by auto
    qed
  qed
  ultimately show "j \<in> below n 0 \<longleftrightarrow> j \<in> {..<n}" by auto
qed

lemma destroy_ok:
  assumes "distinct xs" "frees_node d" and "\<And>j. j \<in> below (length xs) i \<Longrightarrow> s (xs ! j) = Some (node_at xs j)" and "length xs - i < fuel"
  shows "xheap_destroy_rec fuel d s (at_pos xs i) = Inr (\<lambda>x. if x \<in> (!) xs ` below (length xs) i then None else s x)"
  using assms(3,4)
proof (induction fuel arbitrary: i s)
  case 0
  then show ?case by simp
next
  case (Suc fuel)
  let ?n = "length xs"
  let ?l = "below ?n (2 * i + 1)" and ?r = "below ?n (2 * i + 2)"
  show ?case
  proof (cases "i < ?n")
    case False
    then have "below ?n i = {}" by (subst below.simps) simp
    then show ?thesis using False by (simp add: at_pos_def)
  next
    case True
    have b: "below ?n i = insert i (?l \<union> ?r)" using True by (subst below.simps) simp
    have lt: "j < ?n" if "j \<in> below ?n i" for j
      using that by (induction ?n i rule: below.induct) (subst (asm) (3) below.simps, auto split: if_splits)
    have inj: "xs ! j = xs ! k \<longleftrightarrow> j = k" if "j \<in> below ?n i" "k \<in> below ?n i" for j k
      using that lt assms(1) by (simp add: nth_eq_iff_index_eq)
    have notin: "i \<notin> ?l" "i \<notin> ?r" using below_self [of i ?n "2 * i + 1"] below_self [of i ?n "2 * i + 2"] by auto
    have si: "s (xs ! i) = Some (node_at xs i)" using Suc.prems(1) b by simp
    define s1 where "s1 = (\<lambda>x. if x \<in> (!) xs ` ?l then None else s x)"
    define s2 where "s2 = (\<lambda>x. if x \<in> (!) xs ` ?r then None else s1 x)"
    have l: "xheap_destroy_rec fuel d s (at_pos xs (2 * i + 1)) = Inr s1"
      unfolding s1_def by (rule Suc.IH) (use Suc.prems True b in auto)
    have keep: "s1 (xs ! j) = s (xs ! j)" if "j \<in> below ?n i" "j \<notin> ?l" for j
      using that inj b by (auto simp: s1_def)
    have r: "xheap_destroy_rec fuel d s1 (at_pos xs (2 * i + 2)) = Inr s2"
      unfolding s2_def by (rule Suc.IH) (use Suc.prems True b keep below_siblings [of ?n i] in auto)
    have s1i: "s1 (xs ! i) = Some (node_at xs i)" using keep [of i] notin b si by simp
    have "s2 (xs ! i) = s1 (xs ! i)" using notin inj b by (auto simp: s2_def)
    then have free: "d s2 (xs ! i) = Inr (s2(xs ! i := None))" using assms(2) s1i by (auto simp: frees_node_def)
    have "s2(xs ! i := None) = (\<lambda>x. if x \<in> (!) xs ` below ?n i then None else s x)"
      unfolding b by (auto simp: s1_def s2_def fun_eq_iff)
    then show ?thesis
      using True l r free by (simp add: at_pos_def si s1i del: One_nat_def add_2_eq_Suc')
  qed
qed

lemma XHeap_clear_ok:
  assumes "xheap_inv ho key s h xs" and "xh_dtor h = Some d" "frees_node d"
  shows "XHeap_clear s h True = Inr (\<lambda>x. if x \<in> set xs then None else s x, h\<lparr>xh_root := NULL, xh_count := 0\<rparr>)"
proof -
  note h = xheap_invD [OF assms(1)]
  have "(!) xs ` {..<length xs} = set xs" by (auto simp: set_conv_nth)
  then have "xheap_destroy_rec (xh_count h + 2) d s (xh_root h) = Inr (\<lambda>x. if x \<in> set xs then None else s x)"
    using destroy_ok [OF h(6) assms(3), of 0 s "xh_count h + 2"] tree_node [OF h(1)] h(3,4) by (simp add: below_root)
  then show ?thesis by (simp add: XHeap_clear_def assms(2))
qed

section \<open>The heap as a priority queue\<close>

lemma pop_ordered:
  assumes "heap_ordered ho key (xs @ [l])"
  defines "ys \<equiv> (if xs = [] then [] else sift_down (key_before ho key) (length xs) (xs[0 := l]) 0)"
  shows "heap_ordered ho key ys" and "mset (xs @ [l]) = add_mset (hd (xs @ [l])) (mset ys)"
proof -
  have "heap_from (key_before ho key) (length xs) xs 0"
    using heap_ordered_butlast [OF assms(1)] by (simp add: heap_ordered_def)
  then show "heap_ordered ho key ys"
    using kb.sift_root_heap [of ho key "length xs" xs l] by (auto simp: ys_def heap_ordered_def heap_from_def)
  show "mset (xs @ [l]) = add_mset (hd (xs @ [l])) (mset ys)"
    by (cases xs) (simp_all add: ys_def mset_sift_down)
qed

definition xheap_repr :: "heapOrder \<Rightarrow> (addr \<Rightarrow> 'k::linorder) \<Rightarrow> xheap_state \<Rightarrow> addr multiset \<Rightarrow> bool" where
  "xheap_repr ho key st M \<longleftrightarrow>
     (\<exists>xs. xheap_inv ho key (fst st) (snd st) xs \<and> heap_ordered ho key xs \<and> mset xs = M)"

definition xheap_usable :: "xheap_state \<Rightarrow> addr \<Rightarrow> bool" where
  "xheap_usable st a \<longleftrightarrow> a \<in> dom (fst st) \<and> xh_count (snd st) + 1 < 2 ^ 63"

definition xheap_push :: "xheap_state \<Rightarrow> addr \<Rightarrow> xheap_state res" where
  "xheap_push = (\<lambda>(s, h) a. XHeap_push_node s h (Some a))"

definition xheap_pop :: "xheap_state \<Rightarrow> (addr \<times> xheap_state) res" where
  "xheap_pop = (\<lambda>(s, h). bindE (XHeap_pop_root s h) (\<lambda>(p, st). case p of None \<Rightarrow> Inl NullDeref | Some a \<Rightarrow> Inr (a, st)))"

lemma xheap_repr_push:
  assumes "xheap_repr ho key st M" "xheap_usable st a" "a \<notin># M"
  shows "\<exists>st'. xheap_push st a = Inr st' \<and> xheap_repr ho key st' (add_mset a M) \<and> dom (fst st') = dom (fst st) \<and>
    xh_count (snd st') = xh_count (snd st) + 1"
proof -
  obtain s h where st: "st = (s, h)" by (cases st)
  obtain xs where xs: "xheap_inv ho key s h xs" "heap_ordered ho key xs" "mset xs = M"
    using assms(1) by (auto simp: xheap_repr_def st)
  have a: "a \<in> dom s" "a \<notin> set xs" "length xs + 1 < 2 ^ 63"
    using assms(2,3) xs xheap_invD(4) [OF xs(1)] by (auto simp: xheap_usable_def st)
  let ?ys = "sift_up (key_before ho key) (xs @ [a]) (length xs)"
  have "heap_ordered ho key ?ys" using kb.sift_last_heap [of ho key xs a] xs(2) by (simp add: heap_ordered_def)
  moreover have "mset ?ys = add_mset a M" using xs(3) by (simp add: mset_sift_up)
  ultimately show ?thesis
    using XHeap_push_ok [OF xs(1) a] a(1) xheap_invD(4) [OF xs(1)]
    by (fastforce simp: st xheap_push_def xheap_repr_def frame_def)
qed

interpretation xq: pqueue "xheap_repr ho key" "key_before ho key" xheap_usable
    "\<lambda>st a. bindE (xheap_push st a) (\<lambda>st. Inr (ERRORCODE_SUCCESS, st))" xheap_pop
proof
  fix st M
  assume r: "xheap_repr ho key st M" and ne: "M \<noteq> {#}"
  obtain s h where st: "st = (s, h)" by (cases st)
  obtain zs where zs: "xheap_inv ho key s h zs" "heap_ordered ho key zs" "mset zs = M" "zs \<noteq> []"
    using r ne by (auto simp: xheap_repr_def st)
  then obtain xs l where "zs = xs @ [l]" by (metis rev_exhaust)
  with zs have xs: "xheap_inv ho key s h (xs @ [l])" "heap_ordered ho key (xs @ [l])" "mset (xs @ [l]) = M" by simp_all
  note ord = pop_ordered [OF xs(2)]
  let ?a = "hd (xs @ [l])"
  have "?a \<in># M" using xs(3) by (metis hd_in_set set_mset_mset snoc_eq_iff_butlast)
  moreover have "\<not> key_before ho key x ?a" if "x \<in># M" for x
    using heap_ordered_root [OF xs(2), of x] that xs(3) by (auto simp: hd_conv_nth)
  moreover obtain st' where st': "xheap_pop st = Inr (?a, st')" "xheap_repr ho key st' (M - {#?a#})"
  proof -
    let ?ys = "if xs = [] then [] else sift_down (key_before ho key) (length xs) (xs[0 := l]) 0"
    obtain s' h' where run: "XHeap_pop_root s h = Inr (Some ?a, s', h')" and inv: "xheap_inv ho key s' h' ?ys"
      using XHeap_pop_ok [OF xs(1)] by (elim exE conjE) (rule that)
    have "M - {#?a#} = mset ?ys" unfolding xs(3) [symmetric] ord(2) by (rule add_mset_remove_trivial)
    then show thesis using that [of "(s', h')"] run inv ord(1) by (auto simp: xheap_pop_def st xheap_repr_def)
  qed
  ultimately show "\<exists>a st'. xheap_pop st = Inr (a, st') \<and> a \<in># M \<and>
      (\<forall>x. x \<in># M \<longrightarrow> \<not> key_before ho key x a) \<and> xheap_repr ho key st' (M - {#a#})"
    using st' by auto
next
  fix st M a
  assume "xheap_repr ho key st M" "xheap_usable st a" "a \<notin># M"
  from xheap_repr_push [OF this]
  show "\<exists>rc st'. bindE (xheap_push st a) (\<lambda>st. Inr (ERRORCODE_SUCCESS, st)) = Inr (rc, st') \<and>
      (if rc = ERRORCODE_SUCCESS then xheap_repr ho key st' (add_mset a M) else st' = st)" by auto
qed

lemma xheap_push_all:
  assumes "xheap_repr ho key st M" and "distinct as" "set as \<inter> set_mset M = {}" "set as \<subseteq> dom (fst st)" "size M + length as < 2 ^ 63"
    and "xh_count (snd st) = size M"
  shows "\<exists>st'. foldE xheap_push st as = Inr st' \<and> xheap_repr ho key st' (mset as + M)"
  using assms
proof (induction as arbitrary: st M)
  case Nil
  then show ?case by simp
next
  case (Cons a as)
  have u: "xheap_usable st a" "a \<notin># M" using Cons.prems by (auto simp: xheap_usable_def)
  obtain st1 where st1: "xheap_push st a = Inr st1" "xheap_repr ho key st1 (add_mset a M)" "dom (fst st1) = dom (fst st)"
    "xh_count (snd st1) = xh_count (snd st) + 1"
    using xheap_repr_push [OF Cons.prems(1) u] by blast
  then show ?case using Cons.IH [OF st1(2)] Cons.prems(2-6) by auto
qed

section \<open>The properties of the component\<close>

text \<open>C13: 
  Any distinct nodes pushed into a new heap and popped again come out sorted by priority, each exactly once:
  the exchanges keep every link of the tree right, for min- and max-heaps of any size.
\<close>

theorem XHeap_sorts:
  assumes "orders_by cmp key" and "distinct as" "set as \<subseteq> dom s" "length as < 2 ^ 63"
  shows "\<exists>st ys st'. foldE xheap_push (s, XHeap_new ho cmp dtor) as = Inr st \<and>
    drainE (\<lambda>st. bindE (xheap_pop st) (\<lambda>(a, st). Inr (Some a, st))) (length as) st = Inr (ys, st') \<and>
    mset ys = mset as \<and> sorted_wrt (\<lambda>x y. \<not> key_before ho key y x) ys \<and> XHeap_empty (snd st')"
proof -
  have "xheap_repr ho key (s, XHeap_new ho cmp dtor) {#}"
    using assms(1) by (auto simp: xheap_repr_def xheap_inv_def XHeap_new_def XHeap_init_def keyed_def tree_of_def at_pos_def
        heap_ordered_def heap_from_def)
  from xheap_push_all [OF this assms(2), of] assms(3,4)
  obtain st where st: "foldE xheap_push (s, XHeap_new ho cmp dtor) as = Inr st" "xheap_repr ho key st (mset as)"
    by (auto simp: XHeap_new_def XHeap_init_def)
  obtain ys st' where "drainE (\<lambda>st. bindE (xheap_pop st) (\<lambda>(a, st). Inr (Some a, st))) (length as) st = Inr (ys, st')"
    "mset ys = mset as" "sorted_wrt (\<lambda>x y. \<not> key_before ho key y x) ys" "xheap_repr ho key st' {#}"
    using xq.drain_sorted [OF st(2)] by auto
  moreover from this(4) have "XHeap_empty (snd st')" by (auto simp: xheap_repr_def xheap_inv_def XHeap_empty_def)
  ultimately show ?thesis using st(1) by blast
qed

definition xheap_ex_store :: "xheapnode store" where
  "xheap_ex_store = (\<lambda>x. if x < 20 then Some \<lparr>xl = NULL, xr = NULL, xp = NULL\<rparr> else None)"

theorem XHeap_sorts_witness:
  "\<exists>st ys st'. foldE xheap_push (xheap_ex_store, XHeap_new MAX_HEAP (cmp_by (\<lambda>a. a)) None) [3, 7, 5] = Inr st \<and>
    drainE (\<lambda>st. bindE (xheap_pop st) (\<lambda>(a, st). Inr (Some a, st))) (length [3, 7, 5 :: addr]) st = Inr (ys, st') \<and>
    mset ys = mset [3, 7, 5] \<and> sorted_wrt (\<lambda>x y. \<not> key_before MAX_HEAP (\<lambda>a. a) y x) ys \<and> XHeap_empty (snd st')"
  by (rule XHeap_sorts) (auto simp: xheap_ex_store_def)

text \<open>
  After the priority of one node changed, \<open>XHeap_priochange\<close> restores the heap order for the new priorities and
  keeps the same nodes and a well-formed tree.
\<close>

theorem XHeap_priochange_correct:
  fixes key keyo :: "addr \<Rightarrow> 'k::linorder"
  assumes inv: "xheap_inv ho key s h xs" and old: "heap_ordered ho keyo xs"
    and i: "i < length xs" and same: "\<forall>a. a \<noteq> xs ! i \<longrightarrow> key a = keyo a"
  shows "\<exists>s' h' ys. XHeap_priochange s h (Some (xs ! i)) = Inr (s', h') \<and> xheap_inv ho key s' h' ys \<and>
           heap_ordered ho key ys \<and> mset ys = mset xs"
proof -
  let ?b = "key_before ho key"
  note run = XHeap_priochange_cases [OF inv i]
  note ord = prio_restores [OF old xheap_invD(6) [OF inv] i same]
  have m: "mset (sift_down ?b (length xs) xs i) = mset xs" "mset (sift_up ?b xs i) = mset xs"
    using i by (simp_all add: mset_sift_down mset_sift_up)
  consider (down) "i = 0 \<or> ?b (xs ! par i) (xs ! i)" | (up) "i \<noteq> 0" "?b (xs ! i) (xs ! par i)"
    | (stay) "i \<noteq> 0" "\<not> ?b (xs ! i) (xs ! par i)" "\<not> ?b (xs ! par i) (xs ! i)" by blast
  then show ?thesis
  proof cases
    case down
    then have "i = 0 \<or> \<not> ?b (xs ! i) (xs ! par i)" using kb.asym [of ho key "xs ! par i" "xs ! i"] by auto
    moreover from this down have "XHeap_priochange s h (Some (xs ! i)) = xbubble_down s h (Some (xs ! i))" using run by auto
    ultimately show ?thesis using ord(1) bubble_inv(1) [OF inv i] m(1) by auto
  next
    case up
    then have "XHeap_priochange s h (Some (xs ! i)) = xbubble_up s h (Some (xs ! i))" using run by simp
    then show ?thesis using ord(2) [OF up] bubble_inv(2) [OF inv i] m(2) by auto
  next
    case stay
    then show ?thesis using ord(3) [OF stay] run inv by auto
  qed
qed

definition xheap_of :: "addr list \<Rightarrow> xheapnode store" where
  "xheap_of xs = (\<lambda>x. map_of (map (\<lambda>i. (xs ! i, node_at xs i)) [0..<length xs]) x)"

definition xheap_ex :: "addr list \<Rightarrow> xheap" where
  "xheap_ex xs = \<lparr>xh_type = MIN_HEAP, xh_cmp = cmp_by (\<lambda>a. a), xh_dtor = Some free_dtor, xh_root = at_pos xs 0, xh_count = length xs\<rparr>"

lemma xheap_ex_inv:
  assumes "distinct xs" "length xs < 2 ^ 63"
  shows "xheap_inv MIN_HEAP (\<lambda>a. a) (xheap_of xs) (xheap_ex xs) xs"
proof -
  have "xheap_of xs (xs ! i) = Some (node_at xs i)" if "i < length xs" for i
    unfolding xheap_of_def
    by (rule map_of_is_SomeI) (use assms(1) that in \<open>auto simp: distinct_map inj_on_def nth_eq_iff_index_eq comp_def\<close>)
  then show ?thesis using assms by (auto simp: xheap_inv_def tree_of_def keyed_def xheap_ex_def)
qed

lemma heap_ordered_code [code]: "heap_ordered ho key xs \<longleftrightarrow> (\<forall>i\<in>set [1..<length xs]. \<not> key_before ho key (xs ! i) (xs ! par i))"
  by (auto simp: heap_ordered_def heap_from_def)

theorem XHeap_priochange_witness:
  "\<exists>s' h' ys. XHeap_priochange (xheap_of [1, 5, 2]) (xheap_ex [1, 5, 2]) (Some ([1, 5, 2] ! 2)) = Inr (s', h') \<and>
     xheap_inv MIN_HEAP (\<lambda>a. a) s' h' ys \<and> heap_ordered MIN_HEAP (\<lambda>a. a) ys \<and> mset ys = mset [1, 5, 2 :: addr]"
  by (rule XHeap_priochange_correct [OF xheap_ex_inv, where keyo = "\<lambda>a. a"])
    (simp_all add: heap_ordered_code par_def numeral_3_eq_3 upt_rec)

text \<open>
  Removing a node other than the root takes out and frees exactly that node and leaves a well-formed tree. The
  heap is ordered afterwards if the node taking its place, the former last one, does not come before the removed
  node's parent: it is only ever moved down.
\<close>

theorem XHeap_remove_correct:
  assumes inv: "xheap_inv ho key s h (xs @ [l])" and ord: "heap_ordered ho key (xs @ [l])"
    and i: "0 < i" "i \<le> length xs" and d: "xh_dtor h = Some d" "frees_node d"
  shows "\<exists>s' h' ys. XHeap_remove_node s h (Some ((xs @ [l]) ! i)) True = Inr (s', h') \<and> xheap_inv ho key s' h' ys \<and>
     mset (xs @ [l]) = add_mset ((xs @ [l]) ! i) (mset ys) \<and> (xs @ [l]) ! i \<notin> dom s' \<and>
     (\<not> key_before ho key l (xs ! par i) \<longrightarrow> heap_ordered ho key ys)"
proof -
  let ?b = "key_before ho key" and ?n = "length xs" and ?a = "(xs @ [l]) ! i"
  define zs where "zs = (if i < ?n then xs[i := l] else xs)"
  let ?ys = "sift_down ?b ?n zs i"
  obtain s' where s': "XHeap_remove_node s h (Some ?a) True = Inr (s'(?a := None), h\<lparr>xh_count := ?n, xh_root := at_pos ?ys 0\<rparr>)"
    "xheap_inv ho key s' (h\<lparr>xh_count := ?n, xh_root := at_pos ?ys 0\<rparr>) ?ys"
    using XHeap_remove_ok [OF inv i, of True d] d by (auto simp: zs_def)
  have lz: "length zs = ?n" by (simp add: zs_def)
  have zs: "mset (xs @ [l]) = add_mset ?a (mset zs)"
    using i by (auto simp: zs_def nth_append mset_update)
  have same: "mset ?ys = mset zs"
  proof (cases "i < ?n")
    case False
    then show ?thesis by (subst sift_down.simps) (simp add: pick_def pick_left_def)
  qed (simp add: mset_sift_down lz)
  have "mset (xs @ [l]) = add_mset ?a (mset ?ys)" using zs same by simp
  moreover from this have "?a \<notin> set ?ys"
    using mset_eq_imp_distinct_iff [of "xs @ [l]" "?a # ?ys"] xheap_invD(6) [OF inv] by simp
  then have "?ys ! j \<noteq> ?a" if "j < length ?ys" for j using that by (metis nth_mem)
  then have "tree_of (s'(?a := None)) ?ys" using xheap_invD(1) [OF s'(2)] by (simp add: tree_of_def)
  then have "xheap_inv ho key (s'(?a := None)) (h\<lparr>xh_count := ?n, xh_root := at_pos ?ys 0\<rparr>) ?ys"
    using s'(2) by (simp add: xheap_inv_def)
  moreover have "heap_ordered ho key ?ys" if "\<not> ?b l (xs ! par i)"
  proof -
    have old: "\<not> ?b (xs ! j) (xs ! par j)" if "j < ?n" "0 < j" for j
      using heap_ordered_butlast [OF ord] that by (auto simp: heap_ordered_def heap_from_def)
    show ?thesis
    proof (cases "i < ?n")
      case True
      have "heap_from ?b ?n ?ys 0"
      proof (rule kb.sift_down_heap)
        fix j assume "j < ?n" "0 < j" "par j \<noteq> i"
        then show "\<not> ?b (zs ! j) (zs ! par j)" using old [of j] that True by (auto simp: zs_def nth_list_update)
      next
        fix j assume j: "j < ?n" "0 < j" "par j = i"
        then have "\<not> ?b (xs ! j) (xs ! par i)" using old [of j] old [of i] i(1) True kb.neg_trans [of ho key "xs ! j" "xs ! i"] by auto
        then show "\<not> ?b (zs ! j) (zs ! par i)" using j par_less [of j] par_less [of i] i(1) True by (auto simp: zs_def)
      qed (use True lz in auto)
      then show ?thesis by (simp add: heap_ordered_def lz)
    next
      case False
      then have "?ys = xs" by (subst sift_down.simps) (simp add: pick_def pick_left_def zs_def)
      then show ?thesis using heap_ordered_butlast [OF ord] by simp
    qed
  qed
  ultimately show ?thesis using s'(1) by (intro exI [of _ "s'(?a := None)"] exI conjI) auto
qed

theorem XHeap_remove_witness:
  "\<exists>s' h' ys. XHeap_remove_node (xheap_of ([1, 5] @ [7])) (xheap_ex ([1, 5] @ [7])) (Some (([1, 5] @ [7]) ! 1)) True = Inr (s', h') \<and>
     xheap_inv MIN_HEAP (\<lambda>a. a) s' h' ys \<and> mset ([1, 5] @ [7]) = add_mset (([1, 5] @ [7]) ! 1) (mset ys) \<and> ([1, 5] @ [7]) ! 1 \<notin> dom s' \<and>
     (\<not> key_before MIN_HEAP (\<lambda>a. a) 7 ([1, 5 :: addr] ! par 1) \<longrightarrow> heap_ordered MIN_HEAP (\<lambda>a. a) ys)"
  by (rule XHeap_remove_correct [OF xheap_ex_inv, of _ _ _ free_dtor])
    (simp_all add: heap_ordered_code par_def numeral_3_eq_3 upt_rec xheap_ex_def frees_node_free_dtor)

text \<open>
  Removal can break the heap: in the min-heap 1, 10, 2, 11, 12, 3, 4 the removal of 11 puts 4 below 10, and
  nothing moves it up.
\<close>

theorem XHeap_remove_breaks_order:
  "heap_ordered MIN_HEAP (\<lambda>a. a) [1, 10, 2, 11, 12, 3, 4 :: addr] \<and>
   (\<exists>s' h'. XHeap_remove_node (xheap_of [1, 10, 2, 11, 12, 3, 4]) (xheap_ex [1, 10, 2, 11, 12, 3, 4]) (Some 11) False = Inr (s', h') \<and>
     xheap_inv MIN_HEAP (\<lambda>a. a) s' h' [1, 10, 2, 4, 12, 3]) \<and> \<not> heap_ordered MIN_HEAP (\<lambda>a. a) [1, 10, 2, 4, 12, 3 :: addr]"
proof -
  let ?xs = "[1, 10, 2, 11, 12, 3 :: addr]" and ?b = "key_before MIN_HEAP (\<lambda>a :: addr. a)"
  have inv: "xheap_inv MIN_HEAP (\<lambda>a. a) (xheap_of (?xs @ [4])) (xheap_ex (?xs @ [4])) (?xs @ [4])"
    by (rule xheap_ex_inv) simp_all
  have z: "(if 3 < length ?xs then ?xs[3 := 4] else ?xs) = [1, 10, 2, 4, 12, 3]" by simp
  have e: "sift_down ?b (length ?xs) (if 3 < length ?xs then ?xs[3 := 4] else ?xs) 3 = [1, 10, 2, 4, 12, 3]"
    unfolding z by (subst sift_down.simps) (simp add: pick_def pick_left_def)
  have p: "0 < (3 :: nat)" "3 \<le> length ?xs" by simp_all
  note XHeap_remove_ok [OF inv p, where fc = False, unfolded False_implies_equals e if_False, OF TrueI]
  then have "\<exists>s' h'. XHeap_remove_node (xheap_of (?xs @ [4])) (xheap_ex (?xs @ [4])) (Some ((?xs @ [4]) ! 3)) False = Inr (s', h') \<and>
     xheap_inv MIN_HEAP (\<lambda>a. a) s' h' [1, 10, 2, 4, 12, 3]"
    by (elim exE conjE) (intro exI conjI; assumption)
  moreover have "(?xs @ [4]) ! 3 = 11" "?xs @ [4] = [1, 10, 2, 11, 12, 3, 4]" by simp_all
  moreover have "heap_ordered MIN_HEAP (\<lambda>a. a) [1, 10, 2, 11, 12, 3, 4 :: addr]" "\<not> heap_ordered MIN_HEAP (\<lambda>a. a) [1, 10, 2, 4, 12, 3 :: addr]"
    by (simp_all add: heap_ordered_code par_def upt_rec)
  ultimately show ?thesis by metis
qed

text \<open>
  Clearing a heap with a destructor ends, whatever the size of the tree, and frees exactly its nodes; the heap
  is empty afterwards.
\<close>

theorem XHeap_clear_frees_all:
  assumes "xheap_inv ho key s h xs" and "xh_dtor h = Some d" and "frees_node d"
  shows "\<exists>h'. XHeap_clear s h True = Inr (\<lambda>x. if x \<in> set xs then None else s x, h') \<and> XHeap_empty h' \<and> XHeap_get_root h' = NULL"
  using XHeap_clear_ok [OF assms] by (simp add: XHeap_empty_def XHeap_get_root_def)

theorem XHeap_clear_witness:
  "\<exists>h'. XHeap_clear (xheap_of [1, 5, 7]) (xheap_ex [1, 5, 7]) True = Inr (\<lambda>x. if x \<in> set [1, 5, 7] then None else xheap_of [1, 5, 7] x, h') \<and>
     XHeap_empty h' \<and> XHeap_get_root h' = NULL"
  by (rule XHeap_clear_frees_all [OF xheap_ex_inv, where d = free_dtor]) (simp_all add: xheap_ex_def frees_node_free_dtor)

end
