(* ===== verification/Cohort.thy ===== *)
theory Cohort
  imports Prelude
begin

text \<open>
  The test runner of \<open>src/misc/cohort.c\<close>: a linked list of tests, and \<open>Cohort_decimate\<close>, which runs them in
  order and means to survive tests that crash. A crash runs the signal handler, which jumps back to the anchor set at
  the start of \<open>Cohort_decimate\<close>; the run is a state machine whose phases are the points the control flow passes.

  What a test function does is a parameter \<open>exec\<close>: given the state of the world it passes, fails or crashes. The
  local variable \<open>total_passed\<close> is neither volatile nor restored by the jump; what it holds afterwards is the
  parameter \<open>kept\<close> (the identity if the compiler keeps it in memory).

  The anchor is set by \<open>sigsetjmp\<close> in a wrapper, \<open>set_sigjmp_anchor_point\<close>, that has returned by the time of the jump;
  C leaves a jump into a function that has terminated undefined. The parameter \<open>live\<close> of the machine tells whether
  the function that set the anchor is still running: for the code as it is written it is \<open>False\<close>, and a jump
  leads to the phase \<open>Undefined\<close>, where nothing more is known; it would be \<open>True\<close> if \<open>sigsetjmp\<close> were called by
  \<open>Cohort_decimate\<close> itself, and then the jump lands below the anchor.
\<close>

section \<open>Data\<close>

datatype testStatus = TEST_PASS | TEST_FAIL

datatype outcome = Finished testStatus | Crashed

record 'f ctest =
  t_func :: 'f
  t_name :: string
  t_next :: ptr

record cohort =
  co_head :: ptr
  co_tail :: ptr
  co_count :: nat

record test_report =
  rp_number :: nat
  rp_passed :: bool
  rp_fatal :: bool
  rp_name :: "string option"
  rp_test :: ptr

text \<open>The file-scoped variables of \<open>cohort.c\<close>.\<close>

record cohort_globals =
  sig_delivered :: bool
  num_run :: nat
  testcount :: nat
  safe_to_jump :: bool
  report :: test_report

definition cohort_static :: cohort_globals where
  "cohort_static = \<lparr>sig_delivered = False, num_run = 0, testcount = 0, safe_to_jump = False,
     report = \<lparr>rp_number = 0, rp_passed = False, rp_fatal = False, rp_name = None, rp_test = NULL\<rparr>\<rparr>"

text \<open>Lines printed: a test's number, the number of tests, its name, passed, fatal; and the summary.\<close>

datatype out_line =
    TestLine nat nat "string option" bool bool
  | DoneLine nat nat

definition print_test_report :: "cohort_globals \<Rightarrow> out_line" where
  "print_test_report g =
     (if rp_passed (report g) then TestLine (rp_number (report g)) (testcount g) (rp_name (report g)) True False
      else if rp_fatal (report g) then TestLine (rp_number (report g)) (testcount g) (rp_name (report g)) False True
      else TestLine (rp_number (report g)) (testcount g) (rp_name (report g)) False False)"

definition save_test_report :: "'f ctest store \<Rightarrow> bool \<Rightarrow> bool \<Rightarrow> nat \<Rightarrow> ptr \<Rightarrow> cohort_globals \<Rightarrow> cohort_globals res" where
  "save_test_report s passed got_fatal_signal test_number test_ptr g =
     bindE (load s test_ptr) (\<lambda>t.
     Inr (g\<lparr>report := \<lparr>rp_number = test_number, rp_passed = passed, rp_fatal = got_fatal_signal,
       rp_name = Some (t_name t), rp_test = test_ptr\<rparr>\<rparr>))"

section \<open>The list of tests\<close>

definition Cohort_init :: cohort where
  "Cohort_init = \<lparr>co_head = NULL, co_tail = NULL, co_count = 0\<rparr>"

text \<open>The node comes from \<open>calloc\<close>: its address \<open>a\<close> is an argument.\<close>

definition Cohort_add :: "'f ctest store \<Rightarrow> cohort \<Rightarrow> addr \<Rightarrow> 'f option \<Rightarrow> string option \<Rightarrow> ('f ctest store \<times> cohort) res" where
  "Cohort_add s c a testf test_name =
     (case (testf, test_name) of
        (Some f, Some name) \<Rightarrow>
          let s = s(a \<mapsto> \<lparr>t_func = f, t_name = name, t_next = NULL\<rparr>) in
          if co_head c = NULL then
            Inr (s, c\<lparr>co_head := Some a, co_tail := Some a, co_count := (co_count c + 1) mod SZ\<rparr>)
          else
            bindE (update s (co_tail c) (\<lambda>t. t\<lparr>t_next := Some a\<rparr>)) (\<lambda>s.
            Inr (s, c\<lparr>co_tail := Some a, co_count := (co_count c + 1) mod SZ\<rparr>))
      | _ \<Rightarrow> Inl AssertFail)"

definition Cohort_count :: "cohort \<Rightarrow> nat" where
  "Cohort_count c = co_count c"

fun get_nth_loop :: "'f ctest store \<Rightarrow> ptr \<Rightarrow> nat \<Rightarrow> ptr res" where
  "get_nth_loop s current 0 = Inr current"
| "get_nth_loop s current (Suc k) =
     (if current = NULL then Inr NULL else bindE (load s current) (\<lambda>t. get_nth_loop s (t_next t) k))"

definition Cohort_get_nth :: "'f ctest store \<Rightarrow> cohort \<Rightarrow> nat \<Rightarrow> ptr res" where
  "Cohort_get_nth s c n = (if n > Cohort_count c then Inr NULL else get_nth_loop s (co_head c) (n - 1))"

fun cohort_free :: "nat \<Rightarrow> 'f ctest store \<Rightarrow> ptr \<Rightarrow> 'f ctest store res" where
  "cohort_free fuel s None = Inr s"
| "cohort_free 0 s (Some a) = Inl OutOfFuel"
| "cohort_free (Suc fuel) s (Some a) = bindE (load s (Some a)) (\<lambda>t. cohort_free fuel (s(a := None)) (t_next t))"

definition Cohort_destroy :: "'f ctest store \<Rightarrow> cohort \<Rightarrow> 'f ctest store res" where
  "Cohort_destroy s c = cohort_free (co_count c) s (co_head c)"

section \<open>Running the tests\<close>

text \<open>
  \<open>Anchor again\<close> is the return from \<open>set_sigjmp_anchor_point\<close>, the first time or after a jump; \<open>Resume\<close> is the
  test of the flag below it; \<open>Loop\<close> is the head of the loop over the tests. The last component is the world
  the tests act on; \<open>total_passed\<close> and the lines printed so far come before it.
\<close>

datatype phase = Anchor bool | Resume ptr | Loop ptr | Returned testStatus | Exited | Undefined

type_synonym 'w run_state = "phase \<times> nat \<times> cohort_globals \<times> out_line list \<times> 'w"

definition decimate_start :: "cohort \<Rightarrow> cohort_globals \<Rightarrow> 'w \<Rightarrow> 'w run_state res" where
  "decimate_start c g w =
     bindE (assertE (Cohort_count c > 0)) (\<lambda>_.
     Inr (Anchor False, 0, g\<lparr>testcount := Cohort_count c\<rparr>, [], w))"

inductive decimate_step :: "bool \<Rightarrow> ('f \<Rightarrow> 'w \<Rightarrow> outcome \<times> 'w) \<Rightarrow> (nat \<Rightarrow> nat) \<Rightarrow> 'f ctest store \<Rightarrow> cohort \<Rightarrow>
    'w run_state \<Rightarrow> 'w run_state \<Rightarrow> bool"
  for live exec kept s c where
    anchor_first:
      "\<not> sig_delivered g \<Longrightarrow> co_head c \<noteq> NULL \<Longrightarrow>
         decimate_step live exec kept s c (Anchor False, tp, g, out, w) (Resume (co_head c), tp, g\<lparr>safe_to_jump := True\<rparr>, out, w)"
  | anchor_pending:
      "sig_delivered g \<Longrightarrow>
         decimate_step live exec kept s c (Anchor False, tp, g, out, w) (Resume NULL, tp, g\<lparr>safe_to_jump := True\<rparr>, out, w)"
  | anchor_again:
      "live \<Longrightarrow> decimate_step live exec kept s c (Anchor True, tp, g, out, w) (Resume NULL, kept tp, g, out, w)"
  | anchor_gone:
      "\<not> live \<Longrightarrow> decimate_step live exec kept s c (Anchor True, tp, g, out, w) (Undefined, tp, g, out, w)"
  | resume_after_signal:
      "sig_delivered g \<Longrightarrow> Cohort_get_nth s c (num_run g + 1) = Inr p' \<Longrightarrow>
         decimate_step live exec kept s c (Resume p, tp, g, out, w)
           (Loop p', tp, g\<lparr>sig_delivered := False\<rparr>, out @ [print_test_report g], w)"
  | resume_fresh:
      "\<not> sig_delivered g \<Longrightarrow> decimate_step live exec kept s c (Resume p, tp, g, out, w) (Loop p, tp, g, out, w)"
  | test_finishes:
      "load s p = Inr t \<Longrightarrow> exec (t_func t) w = (Finished code, w') \<Longrightarrow>
       save_test_report s (code = TEST_PASS) False (num_run g + 1) p (g\<lparr>num_run := num_run g + 1\<rparr>) = Inr g' \<Longrightarrow>
         decimate_step live exec kept s c (Loop p, tp, g, out, w)
           (Loop (t_next t), if code = TEST_PASS then tp + 1 else tp, g', out @ [print_test_report g'], w')"
  | test_crashes:
      "load s p = Inr t \<Longrightarrow> exec (t_func t) w = (Crashed, w') \<Longrightarrow> safe_to_jump g \<Longrightarrow>
       save_test_report s False True (num_run g + 1) p (g\<lparr>num_run := num_run g + 1\<rparr>) = Inr g' \<Longrightarrow>
         decimate_step live exec kept s c (Loop p, tp, g, out, w) (Anchor True, tp, g'\<lparr>sig_delivered := True\<rparr>, out, w')"
  | test_crashes_unarmed:
      "load s p = Inr t \<Longrightarrow> exec (t_func t) w = (Crashed, w') \<Longrightarrow> \<not> safe_to_jump g \<Longrightarrow>
         decimate_step live exec kept s c (Loop p, tp, g, out, w) (Exited, tp, g, out, w')"
  | out_of_tests:
      "decimate_step live exec kept s c (Loop NULL, tp, g, out, w)
         (Returned (if tp \<noteq> testcount g then TEST_FAIL else TEST_PASS), tp, g, out @ [DoneLine tp (testcount g)], w)"

inductive_cases Anchor_stepE: "decimate_step live exec kept s c (Anchor b, tp, g, out, w) st"
inductive_cases Resume_stepE: "decimate_step live exec kept s c (Resume p, tp, g, out, w) st"
inductive_cases Loop_stepE: "decimate_step live exec kept s c (Loop p, tp, g, out, w) st"
inductive_cases Returned_stepE: "decimate_step live exec kept s c (Returned r, tp, g, out, w) st"
inductive_cases Exited_stepE: "decimate_step live exec kept s c (Exited, tp, g, out, w) st"
inductive_cases Undefined_stepE: "decimate_step live exec kept s c (Undefined, tp, g, out, w) st"

section \<open>The list as the code builds it\<close>

definition cohort_inv :: "'f ctest store \<Rightarrow> cohort \<Rightarrow> addr list \<Rightarrow> bool" where
  "cohort_inv s c xs \<longleftrightarrow> lseg t_next s (co_head c) xs NULL \<and> distinct xs \<and> co_count c = length xs \<and>
     co_tail c = (if xs = [] then NULL else Some (last xs))"

lemma cohort_inv_init: "cohort_inv s Cohort_init []"
  by (simp add: cohort_inv_def Cohort_init_def)

lemma Cohort_add_inv:
  assumes inv: "cohort_inv s c xs" and a: "a \<notin> set xs" and len: "length xs + 1 < SZ"
  shows "\<exists>s' c'. Cohort_add s c a (Some f) (Some name) = Inr (s', c') \<and> cohort_inv s' c' (xs @ [a]) \<and>
    s' a = Some \<lparr>t_func = f, t_name = name, t_next = NULL\<rparr> \<and>
    (\<forall>x\<in>set xs. map_option t_func (s' x) = map_option t_func (s x) \<and> map_option t_name (s' x) = map_option t_name (s x))"
proof (cases xs rule: rev_cases)
  case Nil
  then have "co_head c = NULL" "co_count c = 0" using inv by (auto simp: cohort_inv_def)
  then show ?thesis using Nil by (simp add: Cohort_add_def Let_def cohort_inv_def SZ_num)
next
  case (snoc ys z)
  let ?n = "\<lparr>t_func = f, t_name = name, t_next = NULL\<rparr>"
  have seg: "lseg t_next s (co_head c) (ys @ [z]) NULL" and d: "distinct (ys @ [z])" and "co_tail c = Some z" "co_count c = length xs"
    using inv snoc by (auto simp: cohort_inv_def)
  obtain q where hd: "co_head c = Some q" using seg by (cases ys) auto
  obtain t where t: "s z = Some t" using lseg_dom [OF seg, of z] by auto
  have za: "z \<noteq> a" using a snoc by auto
  let ?s = "s(a \<mapsto> ?n, z \<mapsto> t\<lparr>t_next := Some a\<rparr>)"
  have "Cohort_add s c a (Some f) (Some name) = Inr (?s, c\<lparr>co_tail := Some a, co_count := length xs + 1\<rparr>)"
    using hd t za \<open>co_tail c = Some z\<close> \<open>co_count c = length xs\<close> len by (simp add: Cohort_add_def Let_def)
  moreover have "lseg t_next ?s (co_head c) ((ys @ [z]) @ [a]) NULL"
  proof -
    have "lseg t_next (s(a \<mapsto> ?n)) (co_head c) (ys @ [z]) NULL" using seg a snoc by simp
    from lseg_redirect_last [OF this d, of "t\<lparr>t_next := Some a\<rparr>" "Some a"] za show ?thesis
      by (simp add: lseg_append)
  qed
  ultimately show ?thesis using snoc d a za t \<open>co_count c = length xs\<close> by (auto simp: cohort_inv_def)
qed

lemma cohort_free_ok:
  "lseg t_next s p xs NULL \<Longrightarrow> distinct xs \<Longrightarrow> length xs \<le> fuel \<Longrightarrow>
     cohort_free fuel s p = Inr (\<lambda>x. if x \<in> set xs then None else s x)"
proof (induction xs arbitrary: s p fuel)
  case Nil
  then show ?case by simp
next
  case (Cons a xs)
  then obtain t k where t: "s a = Some t" "p = Some a" "lseg t_next s (t_next t) xs NULL" "fuel = Suc k"
    by (cases fuel) auto
  have "lseg t_next (s(a := None)) (t_next t) xs NULL" using t(3) Cons.prems(2) by simp
  moreover have "distinct xs" "length xs \<le> k" using Cons.prems(2,3) t(4) by simp_all
  ultimately have "cohort_free k (s(a := None)) (t_next t) = Inr (\<lambda>x. if x \<in> set xs then None else (s(a := None)) x)"
    by (rule Cons.IH [where s = "s(a := None)" and fuel = k])
  moreover have "(\<lambda>x. if x \<in> set xs then None else (s(a := None)) x) = (\<lambda>x. if x \<in> set (a # xs) then None else s x)" by auto
  ultimately show ?case unfolding t(2,4) by (simp only: cohort_free.simps load_simps(3) [of s, OF t(1)] bindE_simps)
qed

lemma get_nth_loop_ok:
  "lseg t_next s p xs NULL \<Longrightarrow> get_nth_loop s p k = Inr (if k < length xs then Some (xs ! k) else NULL)"
proof (induction xs arbitrary: p k)
  case Nil
  then show ?case by (cases k) auto
next
  case (Cons a xs)
  then show ?case by (cases k) auto
qed

lemma Cohort_get_nth_ok:
  assumes "cohort_inv s c xs"
  shows "Cohort_get_nth s c (n + 1) = Inr (if n < length xs then Some (xs ! n) else NULL)"
  using assms get_nth_loop_ok [of s "co_head c" xs n] by (auto simp: Cohort_get_nth_def cohort_inv_def Cohort_count_def)

section \<open>Every step is determined\<close>

lemma decimate_step_deterministic:
  "decimate_step live exec kept s c st st1 \<Longrightarrow> decimate_step live exec kept s c st st2 \<Longrightarrow> st1 = st2"
proof (induction rule: decimate_step.induct)
  case (out_of_tests tp g out w)
  then show ?case by (auto elim: Loop_stepE)
qed (auto elim!: Anchor_stepE Resume_stepE Loop_stepE)

lemma final_no_step:
  "\<not> decimate_step live exec kept s c (Returned r, tp, g, out, w) st"
  "\<not> decimate_step live exec kept s c (Undefined, tp, g, out, w) st"
  by (auto elim: Returned_stepE Undefined_stepE)

text \<open>A deterministic run that reaches a state without successors is the only run, and it ends.\<close>

lemma no_infinite_run:
  assumes det: "\<And>x y z. r x y \<Longrightarrow> r x z \<Longrightarrow> y = z" and "r\<^sup>*\<^sup>* x y" and "\<And>z. \<not> r y z"
  shows "\<not> (\<exists>f. f (0::nat) = x \<and> (\<forall>i. r (f i) (f (Suc i))))"
proof
  assume "\<exists>f. f (0::nat) = x \<and> (\<forall>i. r (f i) (f (Suc i)))"
  then obtain f where f: "f (0::nat) = x" "\<And>i. r (f i) (f (Suc i))" by blast
  have "\<exists>i. f i = y" using assms(2)
  proof (induction rule: rtranclp_induct)
    case base
    then show ?case using f(1) by blast
  next
    case (step y z)
    then obtain i where "f i = y" by blast
    then have "f (Suc i) = z" using det f(2) [of i] step(2) by blast
    then show ?case by blast
  qed
  then show False using f(2) assms(3) by metis
qed

section \<open>A complete run\<close>

text \<open>The outcomes of the tests run one after the other, what is printed for them, and the count of passes.\<close>

fun outcomes :: "('f \<Rightarrow> 'w \<Rightarrow> outcome \<times> 'w) \<Rightarrow> 'f list \<Rightarrow> 'w \<Rightarrow> outcome list \<times> 'w" where
  "outcomes exec [] w = ([], w)"
| "outcomes exec (f # fs) w = (case exec f w of (r, w) \<Rightarrow> case outcomes exec fs w of (rs, w) \<Rightarrow> (r # rs, w))"

fun report_lines :: "nat \<Rightarrow> nat \<Rightarrow> string list \<Rightarrow> outcome list \<Rightarrow> out_line list" where
  "report_lines n_tests k (name # names) (r # rs) =
     TestLine (k + 1) n_tests (Some name) (r = Finished TEST_PASS) (r = Crashed) # report_lines n_tests (k + 1) names rs"
| "report_lines n_tests k _ _ = []"

fun count_passed :: "(nat \<Rightarrow> nat) \<Rightarrow> nat \<Rightarrow> outcome list \<Rightarrow> nat" where
  "count_passed kept n [] = n"
| "count_passed kept n (r # rs) =
     count_passed kept (case r of Finished TEST_PASS \<Rightarrow> n + 1 | Finished TEST_FAIL \<Rightarrow> n | Crashed \<Rightarrow> kept n) rs"

definition funcs :: "'f ctest store \<Rightarrow> addr list \<Rightarrow> 'f list" where
  "funcs s xs = map (\<lambda>a. t_func (the (s a))) xs"

definition names :: "'f ctest store \<Rightarrow> addr list \<Rightarrow> string list" where
  "names s xs = map (\<lambda>a. t_name (the (s a))) xs"

definition saved_report :: "bool \<Rightarrow> bool \<Rightarrow> 'f ctest \<Rightarrow> addr \<Rightarrow> cohort_globals \<Rightarrow> cohort_globals" where
  "saved_report b1 b2 t a g = g\<lparr>num_run := num_run g + 1, report :=
     \<lparr>rp_number = num_run g + 1, rp_passed = b1, rp_fatal = b2, rp_name = Some (t_name t), rp_test = Some a\<rparr>\<rparr>"

lemma saved_report_simps [simp]:
  "num_run (saved_report b1 b2 t a g) = num_run g + 1" "testcount (saved_report b1 b2 t a g) = testcount g"
  "safe_to_jump (saved_report b1 b2 t a g) = safe_to_jump g" "sig_delivered (saved_report b1 b2 t a g) = sig_delivered g"
  "\<not> (b1 \<and> b2) \<Longrightarrow> print_test_report (saved_report b1 b2 t a g) = TestLine (num_run g + 1) (testcount g) (Some (t_name t)) b1 b2"
  by (auto simp: saved_report_def print_test_report_def)

lemma save_report:
  "s a = Some t \<Longrightarrow> save_test_report s b1 b2 (num_run g + 1) (Some a) (g\<lparr>num_run := num_run g + 1\<rparr>) = Inr (saved_report b1 b2 t a g)"
  by (simp add: save_test_report_def saved_report_def)

text \<open>One test: it finishes, or it crashes and, where the anchor is live, the run resumes behind it.\<close>

lemma run_finishing:
  assumes "s a = Some t" "exec (t_func t) w = (Finished code, w')"
  shows "decimate_step live exec kept s c (Loop (Some a), tp, g, out, w)
    (Loop (t_next t), if code = TEST_PASS then tp + 1 else tp, saved_report (code = TEST_PASS) False t a g,
     out @ [TestLine (num_run g + 1) (testcount g) (Some (t_name t)) (code = TEST_PASS) False], w')"
proof -
  have "load s (Some a) = Inr t" using assms(1) by simp
  from decimate_step.test_finishes
    [where exec = exec and live = live and kept = kept and c = c and tp = tp and out = out, OF this assms(2) save_report [where s = s and a = a, OF assms(1)]]
  show ?thesis by simp
qed

lemma run_crashing:
  assumes "s a = Some t" "exec (t_func t) w = (Crashed, w')" "safe_to_jump g"
  shows "decimate_step live exec kept s c (Loop (Some a), tp, g, out, w)
    (Anchor True, tp, (saved_report False True t a g)\<lparr>sig_delivered := True\<rparr>, out, w')"
proof -
  have "load s (Some a) = Inr t" using assms(1) by simp
  from decimate_step.test_crashes
    [where exec = exec and live = live and kept = kept and c = c and tp = tp and out = out, OF this assms(2,3) save_report [where s = s and a = a, OF assms(1)]]
  show ?thesis .
qed

lemma run_resuming:
  assumes "live" "s a = Some t" "exec (t_func t) w = (Crashed, w')" "safe_to_jump g" "\<not> sig_delivered g"
    and "Cohort_get_nth s c (num_run g + 1 + 1) = Inr p"
  shows "(decimate_step live exec kept s c)\<^sup>*\<^sup>* (Loop (Some a), tp, g, out, w)
    (Loop p, kept tp, saved_report False True t a g,
     out @ [TestLine (num_run g + 1) (testcount g) (Some (t_name t)) False True], w')"
proof -
  let ?step = "decimate_step live exec kept s c" and ?g = "(saved_report False True t a g)\<lparr>sig_delivered := True\<rparr>"
  have "?step (Anchor True, tp, ?g, out, w') (Resume NULL, kept tp, ?g, out, w')"
    by (rule decimate_step.anchor_again) (rule assms(1))
  moreover have "?step (Resume NULL, kept tp, ?g, out, w')
      (Loop p, kept tp, ?g\<lparr>sig_delivered := False\<rparr>, out @ [print_test_report ?g], w')"
    by (rule decimate_step.resume_after_signal) (use assms(6) in simp_all)
  moreover have "?g\<lparr>sig_delivered := False\<rparr> = saved_report False True t a g"
    using assms(5) by (simp add: saved_report_def)
  moreover have "print_test_report ?g = TestLine (num_run g + 1) (testcount g) (Some (t_name t)) False True"
    by (simp add: print_test_report_def saved_report_def)
  ultimately show ?thesis using run_crashing [where exec = exec and s = s and a = a and live = live and kept = kept and c = c and tp = tp and out = out, OF assms(2-4)]
    by (metis (no_types, lifting) converse_rtranclp_into_rtranclp rtranclp.rtrancl_refl)
qed

text \<open>The tests \<open>rest\<close> from some point of the list on, the tests \<open>pre\<close> having been run.\<close>

abbreviation at_test :: "addr list \<Rightarrow> phase" where
  "at_test rest \<equiv> Loop (if rest = [] then NULL else Some (hd rest))"

definition runnable :: "'f ctest store \<Rightarrow> cohort \<Rightarrow> addr list \<Rightarrow> addr list \<Rightarrow> addr list \<Rightarrow> cohort_globals \<Rightarrow> bool" where
  "runnable s c xs pre rest g \<longleftrightarrow> cohort_inv s c xs \<and> xs = pre @ rest \<and> num_run g = length pre \<and> safe_to_jump g \<and>
     \<not> sig_delivered g \<and> testcount g = length xs"

lemma runnable_Cons:
  assumes "runnable s c xs pre (a # rest) g"
  obtains t where "s a = Some t" "t_next t = (if rest = [] then NULL else Some (hd rest))"
    "names s (a # rest) = t_name t # names s rest" "funcs s (a # rest) = t_func t # funcs s rest"
    "Cohort_get_nth s c (num_run g + 1 + 1) = Inr (t_next t)"
    "\<And>b1 b2. runnable s c xs (pre @ [a]) rest (saved_report b1 b2 t a g)"
proof -
  have inv: "cohort_inv s c xs" and xs: "xs = pre @ a # rest" and n: "num_run g = length pre"
    using assms unfolding runnable_def by blast+
  have "lseg t_next s (co_head c) (pre @ a # rest) NULL" using inv xs by (simp add: cohort_inv_def)
  then obtain t where t: "s a = Some t" "lseg t_next s (t_next t) rest NULL" by (auto simp: lseg_append)
  have nxt: "t_next t = (if rest = [] then NULL else Some (hd rest))" using lseg_head [OF t(2)] .
  have "Cohort_get_nth s c (num_run g + 1 + 1) = Inr (t_next t)"
    using Cohort_get_nth_ok [OF inv, of "num_run g + 1"] xs n nxt by (cases rest) (simp_all add: nth_append)
  moreover have "runnable s c xs (pre @ [a]) rest (saved_report b1 b2 t a g)" for b1 b2
    using assms inv n xs unfolding runnable_def by (metis append.assoc append_Cons append_Nil length_append_singleton saved_report_simps(1-4) Suc_eq_plus1)
  ultimately show thesis using that [OF t(1) nxt] t(1) by (simp add: names_def funcs_def)
qed

lemma run_from_loop:
  "runnable s c xs pre rest g \<Longrightarrow> outcomes exec (funcs s rest) w = (rs, w') \<Longrightarrow> live \<or> Crashed \<notin> set rs \<Longrightarrow>
   \<exists>g'. (decimate_step live exec kept s c)\<^sup>*\<^sup>* (at_test rest, tp, g, out, w)
      (Loop NULL, count_passed kept tp rs, g', out @ report_lines (length xs) (length pre) (names s rest) rs, w') \<and>
     num_run g' = length xs \<and> testcount g' = length xs"
proof (induction rest arbitrary: pre tp g out w rs)
  case Nil
  then show ?case by (auto simp: funcs_def names_def runnable_def)
next
  case (Cons a rest)
  let ?step = "decimate_step live exec kept s c"
  obtain t where t: "s a = Some t" "t_next t = (if rest = [] then NULL else Some (hd rest))"
    "names s (a # rest) = t_name t # names s rest" "funcs s (a # rest) = t_func t # funcs s rest"
    "Cohort_get_nth s c (num_run g + 1 + 1) = Inr (t_next t)"
    "\<And>b1 b2. runnable s c xs (pre @ [a]) rest (saved_report b1 b2 t a g)"
    using runnable_Cons [OF Cons.prems(1)] by metis
  have g: "num_run g = length pre" "testcount g = length xs" "safe_to_jump g" "\<not> sig_delivered g"
    using Cons.prems(1) by (simp_all add: runnable_def)
  obtain r w1 where r: "exec (t_func t) w = (r, w1)" by (cases "exec (t_func t) w")
  obtain rs' where rs: "outcomes exec (funcs s rest) w1 = (rs', w')" "rs = r # rs'"
    using Cons.prems(2) t(4) r by (auto split: prod.splits)
  have live: "live \<or> Crashed \<notin> set rs'" using Cons.prems(3) rs(2) by auto
  let ?line = "TestLine (length pre + 1) (length xs) (Some (t_name t)) (r = Finished TEST_PASS) (r = Crashed)"
  let ?tp = "case r of Finished TEST_PASS \<Rightarrow> tp + 1 | Finished TEST_FAIL \<Rightarrow> tp | Crashed \<Rightarrow> kept tp"
  have one: "?step\<^sup>*\<^sup>* (Loop (Some a), tp, g, out, w)
      (at_test rest, ?tp, saved_report (r = Finished TEST_PASS) (r = Crashed) t a g, out @ [?line], w1)"
  proof (cases r)
    case (Finished code)
    then have "(if code = TEST_PASS then tp + 1 else tp) = ?tp" by (cases code) simp_all
    then show ?thesis using run_finishing [of s a t exec w code w1 live kept c tp g out] t(1,2) r Finished g(1,2) by simp
  next
    case Crashed
    then have "live" using Cons.prems(3) rs(2) by auto
    from run_resuming [where exec = exec and s = s and a = a, OF this t(1) _ g(3,4) t(5), of w w1] show ?thesis using r Crashed t(2) g(1,2) by simp
  qed
  obtain g2 where "?step\<^sup>*\<^sup>* (at_test rest, ?tp, saved_report (r = Finished TEST_PASS) (r = Crashed) t a g, out @ [?line], w1)
      (Loop NULL, count_passed kept ?tp rs', g2, (out @ [?line]) @ report_lines (length xs) (length (pre @ [a])) (names s rest) rs', w')"
    "num_run g2 = length xs" "testcount g2 = length xs"
    using Cons.IH [OF t(6) rs(1) live] by blast
  then show ?case using rtranclp_trans [OF one] t(3) rs(2) by (intro exI [of _ g2]) simp
qed

text \<open>Without a live anchor the run gets as far as the first test that crashes.\<close>

lemma run_to_crash:
  "runnable s c xs pre rest g \<Longrightarrow> outcomes exec (funcs s rest) w = (rs, w') \<Longrightarrow> Crashed \<in> set rs \<Longrightarrow>
   \<exists>tp' g' w''. (decimate_step False exec kept s c)\<^sup>*\<^sup>* (at_test rest, tp, g, out, w)
      (Undefined, tp', g', out @ report_lines (length xs) (length pre) (names s rest) (takeWhile (\<lambda>r. r \<noteq> Crashed) rs), w'')"
proof (induction rest arbitrary: pre tp g out w rs)
  case Nil
  then show ?case by (simp add: funcs_def)
next
  case (Cons a rest)
  let ?step = "decimate_step False exec kept s c"
  obtain t where t: "s a = Some t" "t_next t = (if rest = [] then NULL else Some (hd rest))"
    "names s (a # rest) = t_name t # names s rest" "funcs s (a # rest) = t_func t # funcs s rest"
    "\<And>b1 b2. runnable s c xs (pre @ [a]) rest (saved_report b1 b2 t a g)"
    using runnable_Cons [OF Cons.prems(1)] by metis
  have g: "num_run g = length pre" "testcount g = length xs" "safe_to_jump g"
    using Cons.prems(1) by (simp_all add: runnable_def)
  obtain r w1 where r: "exec (t_func t) w = (r, w1)" by (cases "exec (t_func t) w")
  obtain rs' where rs: "outcomes exec (funcs s rest) w1 = (rs', w')" "rs = r # rs'"
    using Cons.prems(2) t(4) r by (auto split: prod.splits)
  show ?case
  proof (cases r)
    case (Finished code)
    define line where "line = TestLine (length pre + 1) (length xs) (Some (t_name t)) (code = TEST_PASS) False"
    have "?step (Loop (Some a), tp, g, out, w)
       (at_test rest, if code = TEST_PASS then tp + 1 else tp, saved_report (code = TEST_PASS) False t a g, out @ [line], w1)"
      using run_finishing [of s a t exec w code w1 False kept c tp g out] t(1,2) r Finished g(1,2) by (simp add: line_def)
    moreover have "Crashed \<in> set rs'" using Cons.prems(3) rs(2) Finished by simp
    then obtain tp' g' w'' where "?step\<^sup>*\<^sup>*
       (at_test rest, if code = TEST_PASS then tp + 1 else tp, saved_report (code = TEST_PASS) False t a g, out @ [line], w1)
       (Undefined, tp', g', (out @ [line]) @ report_lines (length xs) (length (pre @ [a])) (names s rest) (takeWhile (\<lambda>r. r \<noteq> Crashed) rs'), w'')"
      using Cons.IH [OF t(5) rs(1)] by blast
    ultimately have "?step\<^sup>*\<^sup>* (Loop (Some a), tp, g, out, w)
       (Undefined, tp', g', (out @ [line]) @ report_lines (length xs) (length (pre @ [a])) (names s rest) (takeWhile (\<lambda>r. r \<noteq> Crashed) rs'), w'')"
      by (rule converse_rtranclp_into_rtranclp)
    then show ?thesis using Finished rs(2) t(3) by (intro exI [of _ tp'] exI [of _ g'] exI [of _ w'']) (simp add: line_def)
  next
    case Crashed
    let ?g = "(saved_report False True t a g)\<lparr>sig_delivered := True\<rparr>"
    have "?step (Loop (Some a), tp, g, out, w) (Anchor True, tp, ?g, out, w1)"
      using run_crashing [where exec = exec and s = s and a = a, OF t(1) _ g(3)] r Crashed by simp
    moreover have "?step (Anchor True, tp, ?g, out, w1) (Undefined, tp, ?g, out, w1)"
      by (rule decimate_step.anchor_gone) simp
    ultimately have "?step\<^sup>*\<^sup>* (Loop (Some a), tp, g, out, w) (Undefined, tp, ?g, out, w1)"
      by (meson converse_rtranclp_into_rtranclp rtranclp.rtrancl_refl)
    then show ?thesis using Crashed rs(2) by (intro exI [of _ tp] exI [of _ ?g] exI [of _ w1]) (cases "names s (a # rest)", simp_all)
  qed
qed

lemma decimate_begins:
  assumes inv: "cohort_inv s c xs" and ne: "xs \<noteq> []" and g: "num_run g = 0" "\<not> sig_delivered g"
  shows "\<exists>st g1. decimate_start c g w = Inr st \<and> (decimate_step live exec kept s c)\<^sup>*\<^sup>* st (at_test xs, 0, g1, [], w) \<and>
    runnable s c xs [] xs g1"
proof -
  let ?step = "decimate_step live exec kept s c" and ?g = "g\<lparr>testcount := length xs\<rparr>"
  have c: "Cohort_count c = length xs" "co_head c = Some (hd xs)"
    using inv ne lseg_head [of t_next s "co_head c" xs] by (auto simp: cohort_inv_def Cohort_count_def)
  have start: "decimate_start c g w = Inr (Anchor False, 0, ?g, [], w)" using c(1) ne by (simp add: decimate_start_def)
  have "?step (Anchor False, 0, ?g, [], w) (Resume (co_head c), 0, ?g\<lparr>safe_to_jump := True\<rparr>, [], w)"
    by (rule decimate_step.anchor_first) (use g c in simp_all)
  moreover have "?step (Resume (co_head c), 0, ?g\<lparr>safe_to_jump := True\<rparr>, [], w) (Loop (co_head c), 0, ?g\<lparr>safe_to_jump := True\<rparr>, [], w)"
    by (rule decimate_step.resume_fresh) (use g in simp)
  ultimately have "?step\<^sup>*\<^sup>* (Anchor False, 0, ?g, [], w) (at_test xs, 0, ?g\<lparr>safe_to_jump := True\<rparr>, [], w)"
    unfolding c(2) using ne by (simp add: converse_rtranclp_into_rtranclp)
  then show ?thesis using start inv g by (intro exI conjI) (auto simp: runnable_def)
qed

lemma decimate_run:
  assumes inv: "cohort_inv s c xs" and ne: "xs \<noteq> []" and g: "num_run g = 0" "\<not> sig_delivered g"
    and rs: "outcomes exec (funcs s xs) w = (rs, w')" and live: "live \<or> Crashed \<notin> set rs"
  shows "\<exists>st g'. decimate_start c g w = Inr st \<and>
    (decimate_step live exec kept s c)\<^sup>*\<^sup>* st
      (Returned (if count_passed kept 0 rs = length xs then TEST_PASS else TEST_FAIL), count_passed kept 0 rs, g',
       report_lines (length xs) 0 (names s xs) rs @ [DoneLine (count_passed kept 0 rs) (length xs)], w')"
proof -
  define n where "n = count_passed kept 0 rs"
  let ?step = "decimate_step live exec kept s c"
  obtain st g1 where st: "decimate_start c g w = Inr st" "?step\<^sup>*\<^sup>* st (at_test xs, 0, g1, [], w)" "runnable s c xs [] xs g1"
    using decimate_begins [OF inv ne g, where live = live and exec = exec and kept = kept and w = w] by blast
  obtain g' where g': "?step\<^sup>*\<^sup>* (at_test xs, 0, g1, [], w)
      (Loop NULL, n, g', report_lines (length xs) 0 (names s xs) rs, w')" "testcount g' = length xs"
    using run_from_loop [OF st(3) rs live, of kept 0 "[]"] by (auto simp: n_def)
  have "?step (Loop NULL, n, g', report_lines (length xs) 0 (names s xs) rs, w')
      (Returned (if n \<noteq> testcount g' then TEST_FAIL else TEST_PASS), n, g',
       report_lines (length xs) 0 (names s xs) rs @ [DoneLine n (testcount g')], w')"
    by (rule decimate_step.out_of_tests)
  from rtranclp.rtrancl_into_rtrancl [OF rtranclp_trans [OF st(2) g'(1)] this] st(1) show ?thesis
    unfolding g'(2) n_def [symmetric] by (auto split: if_splits)
qed

lemma count_passed_all:
  "count_passed (\<lambda>n. n) k rs = k + length (filter (\<lambda>r. r = Finished TEST_PASS) rs)"
  by (induction rs arbitrary: k) (auto split: outcome.splits testStatus.splits)

lemma length_outcomes: "length (fst (outcomes exec fs w)) = length fs"
  by (induction fs arbitrary: w) (simp_all add: split_beta)

lemma count_passed_no_crash:
  "Crashed \<notin> set rs \<Longrightarrow> count_passed kept k rs = k + length (filter (\<lambda>r. r = Finished TEST_PASS) rs)"
  by (induction rs arbitrary: k) (auto split: outcome.splits testStatus.splits)

lemma all_passed: "length (filter P rs) = length rs \<longleftrightarrow> (\<forall>r\<in>set rs. P r)"
proof (intro iffI ballI)
  fix r assume "length (filter P rs) = length rs" "r \<in> set rs"
  then show "P r" using length_filter_less [of r rs P] by auto
qed simp

section \<open>The properties of the component\<close>

definition cohort_ex_store :: "bool ctest store" where
  "cohort_ex_store = [4 \<mapsto> \<lparr>t_func = False, t_name = ''crash'', t_next = Some 7\<rparr>, 7 \<mapsto> \<lparr>t_func = True, t_name = ''pass'', t_next = NULL\<rparr>]"

definition cohort_ex :: cohort where
  "cohort_ex = \<lparr>co_head = Some 4, co_tail = Some 7, co_count = 2\<rparr>"

definition cohort_ex_exec :: "bool \<Rightarrow> unit \<Rightarrow> outcome \<times> unit" where
  "cohort_ex_exec f w = (if f then Finished TEST_PASS else Crashed, w)"

lemma cohort_ex_inv: "cohort_inv cohort_ex_store cohort_ex [4, 7]"
  by (simp add: cohort_inv_def cohort_ex_store_def cohort_ex_def)

text \<open>C18: 
  A first run of \<open>Cohort_decimate\<close> as the code is written (\<open>live = False\<close>) ends. When no test crashes it has run every
  test exactly once and in order, printed one line for each with its number, name and result, and returns TEST_PASS
  exactly when all of them passed. When a test crashes the run gets as far as that test, with the lines of the tests
  before it printed; then the signal handler jumps to an anchor whose function has returned, which is undefined.
  With a live anchor (\<open>live = True\<close>, the repair) the run goes on behind the test that crashed, reports it, and returns
  after the last test, TEST_PASS exactly when the count of passes, as far as the jumps keep it, is the number of tests.
\<close>

theorem Cohort_runs_every_test:
  assumes inv: "cohort_inv s c xs" and ne: "xs \<noteq> []" and g: "num_run g = 0" "\<not> sig_delivered g"
    and rs: "outcomes exec (funcs s xs) w = (rs, w')"
  shows "\<exists>st tp g' w''. decimate_start c g w = Inr st \<and>
    (if Crashed \<notin> set rs then (decimate_step live exec kept s c)\<^sup>*\<^sup>* st
       (Returned (if \<forall>r\<in>set rs. r = Finished TEST_PASS then TEST_PASS else TEST_FAIL), tp, g',
        report_lines (length xs) 0 (names s xs) rs @ [DoneLine tp (length xs)], w') \<and>
        tp = length (filter (\<lambda>r. r = Finished TEST_PASS) rs)
     else if \<not> live then (decimate_step live exec kept s c)\<^sup>*\<^sup>* st
       (Undefined, tp, g', report_lines (length xs) 0 (names s xs) (takeWhile (\<lambda>r. r \<noteq> Crashed) rs), w'')
     else (decimate_step live exec kept s c)\<^sup>*\<^sup>* st
       (Returned (if count_passed kept 0 rs = length xs then TEST_PASS else TEST_FAIL), count_passed kept 0 rs, g',
        report_lines (length xs) 0 (names s xs) rs @ [DoneLine (count_passed kept 0 rs) (length xs)], w')) \<and>
    \<not> (\<exists>f. f (0::nat) = st \<and> (\<forall>i. decimate_step live exec kept s c (f i) (f (Suc i))))"
proof (cases "live \<or> Crashed \<notin> set rs")
  case True
  obtain st g' where st: "decimate_start c g w = Inr st" "(decimate_step live exec kept s c)\<^sup>*\<^sup>* st
      (Returned (if count_passed kept 0 rs = length xs then TEST_PASS else TEST_FAIL), count_passed kept 0 rs, g',
       report_lines (length xs) 0 (names s xs) rs @ [DoneLine (count_passed kept 0 rs) (length xs)], w')"
    using decimate_run [OF inv ne g rs True, of kept] by blast
  moreover have "\<not> (\<exists>f. f (0::nat) = st \<and> (\<forall>i. decimate_step live exec kept s c (f i) (f (Suc i))))"
    by (rule no_infinite_run [OF decimate_step_deterministic st(2) final_no_step(1)])
  moreover have len: "length rs = length xs" using length_outcomes [of exec "funcs s xs" w] rs by (simp add: funcs_def)
  moreover have "count_passed kept 0 rs = length (filter (\<lambda>r. r = Finished TEST_PASS) rs)" if "Crashed \<notin> set rs"
    using count_passed_no_crash [OF that, of kept 0] by simp
  moreover have "length (filter (\<lambda>r. r = Finished TEST_PASS) rs) = length xs \<longleftrightarrow> (\<forall>r\<in>set rs. r = Finished TEST_PASS)"
    using all_passed [of "\<lambda>r. r = Finished TEST_PASS" rs] len by simp
  ultimately show ?thesis using True
    by (intro exI [of _ st] exI [of _ "count_passed kept 0 rs"] exI [of _ g'] exI [of _ w'])
      (cases "Crashed \<in> set rs"; simp)
next
  case False
  obtain st g1 where st: "decimate_start c g w = Inr st" "(decimate_step live exec kept s c)\<^sup>*\<^sup>* st (at_test xs, 0, g1, [], w)"
      "runnable s c xs [] xs g1"
    using decimate_begins [OF inv ne g, where live = live and exec = exec and kept = kept and w = w] by blast
  obtain tp g' w'' where u: "(decimate_step live exec kept s c)\<^sup>*\<^sup>* (at_test xs, 0, g1, [], w)
      (Undefined, tp, g', report_lines (length xs) 0 (names s xs) (takeWhile (\<lambda>r. r \<noteq> Crashed) rs), w'')"
    using run_to_crash [OF st(3) rs, of kept 0 "[]"] False by auto
  have "\<not> (\<exists>f. f (0::nat) = st \<and> (\<forall>i. decimate_step live exec kept s c (f i) (f (Suc i))))"
    by (rule no_infinite_run [OF decimate_step_deterministic rtranclp_trans [OF st(2) u] final_no_step(2)])
  then show ?thesis using st(1) rtranclp_trans [OF st(2) u] False by auto
qed

text \<open>The test at the head crashes: with the code as it is nothing is reported, with a live anchor the second test runs.\<close>

theorem Cohort_runs_every_test_witness:
  "\<exists>st tp g' w''. decimate_start cohort_ex cohort_static () = Inr st \<and>
    (decimate_step False cohort_ex_exec (\<lambda>n. n) cohort_ex_store cohort_ex)\<^sup>*\<^sup>* st (Undefined, tp, g', [], w'') \<and>
    (\<exists>g''. (decimate_step True cohort_ex_exec (\<lambda>n. n) cohort_ex_store cohort_ex)\<^sup>*\<^sup>* st
      (Returned TEST_FAIL, 1, g'', [TestLine 1 2 (Some ''crash'') False True, TestLine 2 2 (Some ''pass'') True False, DoneLine 1 2], ()))"
proof -
  have rs: "outcomes cohort_ex_exec (funcs cohort_ex_store [4, 7]) () = ([Crashed, Finished TEST_PASS], ())"
    by (simp add: funcs_def cohort_ex_store_def cohort_ex_exec_def)
  have n: "names cohort_ex_store [4, 7] = [''crash'', ''pass'']" by (simp add: names_def cohort_ex_store_def)
  obtain st1 tp1 g1 w1 where 1: "decimate_start cohort_ex cohort_static () = Inr st1"
    "(decimate_step False cohort_ex_exec (\<lambda>n. n) cohort_ex_store cohort_ex)\<^sup>*\<^sup>* st1 (Undefined, tp1, g1, [], w1)"
    using Cohort_runs_every_test [OF cohort_ex_inv _ _ _ rs, of cohort_static False "\<lambda>n. n"] by (auto simp: cohort_static_def n)
  obtain st2 g2 where 2: "decimate_start cohort_ex cohort_static () = Inr st2"
    "(decimate_step True cohort_ex_exec (\<lambda>n. n) cohort_ex_store cohort_ex)\<^sup>*\<^sup>* st2
      (Returned TEST_FAIL, 1, g2, [TestLine 1 2 (Some ''crash'') False True, TestLine 2 2 (Some ''pass'') True False, DoneLine 1 2], ())"
    using Cohort_runs_every_test [OF cohort_ex_inv _ _ _ rs, of cohort_static True "\<lambda>n. n"]
    by (auto simp: cohort_static_def n numeral_2_eq_2)
  have "st1 = st2" using 1(1) 2(1) by simp
  then show ?thesis using 1 2(2) by blast
qed

text \<open>
  Where the anchor is live and the jump keeps the count of passes, the verdict is right with crashes too: a first run
  returns TEST_PASS if and only if every test finished with TEST_PASS.
\<close>

lemma Cohort_verdict:
  assumes inv: "cohort_inv s c xs" and ne: "xs \<noteq> []" and g: "num_run g = 0" "\<not> sig_delivered g"
  shows "\<exists>st rest. decimate_start c g w = Inr st \<and>
    (decimate_step True exec (\<lambda>n. n) s c)\<^sup>*\<^sup>* st
      (Returned (if \<forall>r\<in>set (fst (outcomes exec (funcs s xs) w)). r = Finished TEST_PASS then TEST_PASS else TEST_FAIL), rest)"
proof -
  obtain rs w' where rs: "outcomes exec (funcs s xs) w = (rs, w')" by (metis surj_pair)
  have "length rs = length xs" using length_outcomes [of exec "funcs s xs" w] rs by (simp add: funcs_def)
  then have eq: "count_passed (\<lambda>n. n) 0 rs = length xs \<longleftrightarrow> (\<forall>r\<in>set rs. r = Finished TEST_PASS)"
    using all_passed [of "\<lambda>r. r = Finished TEST_PASS" rs] by (simp add: count_passed_all)
  have "True \<or> Crashed \<notin> set rs" by simp
  from decimate_run [OF inv ne g rs this, of "\<lambda>n. n"] show ?thesis
    unfolding eq rs fst_conv by blast
qed

text \<open>
  The number of tests run is never reset: even with a live anchor, when a second run of the same cohort starts with a
  crashing test, the runner looks for a test past the end of the list, runs none of the others and returns.
\<close>

theorem Cohort_second_run_skips:
  assumes inv: "cohort_inv s c (a # xs)" and g: "num_run g = length (a # xs)" "\<not> sig_delivered g"
    and t: "s a = Some t" and crash: "exec (t_func t) w = (Crashed, w')"
  shows "\<exists>st g'. decimate_start c g w = Inr st \<and>
    (decimate_step True exec kept s c)\<^sup>*\<^sup>* st
      (Returned (if kept 0 = length (a # xs) then TEST_PASS else TEST_FAIL), kept 0, g',
       [TestLine (length (a # xs) + 1) (length (a # xs)) (Some (t_name t)) False True, DoneLine (kept 0) (length (a # xs))], w')"
proof -
  let ?step = "decimate_step True exec kept s c" and ?n = "length (a # xs)"
  have c: "Cohort_count c = ?n" "co_head c = Some a" using inv by (auto simp: cohort_inv_def Cohort_count_def)
  define g0 where "g0 = g\<lparr>testcount := ?n\<rparr>"
  define g1 where "g1 = g0\<lparr>safe_to_jump := True\<rparr>"
  define g2 where "g2 = g1\<lparr>num_run := num_run g1 + 1,
    report := \<lparr>rp_number = num_run g1 + 1, rp_passed = False, rp_fatal = True, rp_name = Some (t_name t), rp_test = Some a\<rparr>\<rparr>"
  define g3 where "g3 = g2\<lparr>sig_delivered := True\<rparr>"
  define line where "line = TestLine (?n + 1) ?n (Some (t_name t)) False True"
  have start: "decimate_start c g w = Inr (Anchor False, 0, g0, [], w)" using c(1) by (simp add: decimate_start_def g0_def)
  have "?step (Anchor False, 0, g0, [], w) (Resume (co_head c), 0, g1, [], w)"
    unfolding g1_def by (rule decimate_step.anchor_first) (use g c in \<open>simp_all add: g0_def\<close>)
  moreover have "?step (Resume (co_head c), 0, g1, [], w) (Loop (co_head c), 0, g1, [], w)"
    by (rule decimate_step.resume_fresh) (use g in \<open>simp add: g1_def g0_def\<close>)
  moreover have "?step (Loop (co_head c), 0, g1, [], w) (Anchor True, 0, g3, [], w')"
    unfolding g3_def c(2)
    by (rule decimate_step.test_crashes [where exec = exec and t = t and w = w, OF _ crash]) (use t in \<open>simp_all add: save_test_report_def g2_def, simp add: g1_def\<close>)
  moreover have "?step (Anchor True, 0, g3, [], w') (Resume NULL, kept 0, g3, [], w')"
    by (rule decimate_step.anchor_again) simp
  moreover have "Cohort_get_nth s c (num_run g3 + 1) = Inr NULL"
    using Cohort_get_nth_ok [OF inv, of "num_run g3"] g(1) by (simp add: g3_def g2_def g1_def g0_def)
  then have "?step (Resume NULL, kept 0, g3, [], w') (Loop NULL, kept 0, g3\<lparr>sig_delivered := False\<rparr>, [] @ [print_test_report g3], w')"
    by (intro decimate_step.resume_after_signal) (simp_all add: g3_def)
  moreover have "?step (Loop NULL, kept 0, g3\<lparr>sig_delivered := False\<rparr>, [] @ [print_test_report g3], w')
     (Returned (if kept 0 \<noteq> testcount (g3\<lparr>sig_delivered := False\<rparr>) then TEST_FAIL else TEST_PASS), kept 0, g3\<lparr>sig_delivered := False\<rparr>,
      ([] @ [print_test_report g3]) @ [DoneLine (kept 0) (testcount (g3\<lparr>sig_delivered := False\<rparr>))], w')"
    by (rule decimate_step.out_of_tests)
  ultimately have "?step\<^sup>*\<^sup>* (Anchor False, 0, g0, [], w)
     (Returned (if kept 0 \<noteq> testcount (g3\<lparr>sig_delivered := False\<rparr>) then TEST_FAIL else TEST_PASS), kept 0, g3\<lparr>sig_delivered := False\<rparr>,
      ([] @ [print_test_report g3]) @ [DoneLine (kept 0) (testcount (g3\<lparr>sig_delivered := False\<rparr>))], w')"
    by (meson converse_rtranclp_into_rtranclp rtranclp.rtrancl_refl)
  moreover have "testcount g3 = ?n" by (simp add: g3_def g2_def g1_def g0_def)
  moreover have "print_test_report g3 = line" using g(1) by (simp add: g3_def g2_def g1_def g0_def print_test_report_def line_def)
  ultimately show ?thesis using start unfolding line_def by (intro exI conjI) (simp_all split: if_splits)
qed

theorem Cohort_second_run_witness:
  "\<exists>st g'. decimate_start cohort_ex (cohort_static\<lparr>num_run := 2\<rparr>) () = Inr st \<and>
    (decimate_step True cohort_ex_exec (\<lambda>n. n) cohort_ex_store cohort_ex)\<^sup>*\<^sup>* st
      (Returned (if 0 = length [4, 7 :: addr] then TEST_PASS else TEST_FAIL), 0, g',
       [TestLine (length [4, 7 :: addr] + 1) (length [4, 7 :: addr]) (Some ''crash'') False True, DoneLine 0 (length [4, 7 :: addr])], ())"
  using Cohort_second_run_skips [OF cohort_ex_inv, of "cohort_static\<lparr>num_run := 2\<rparr>" _ cohort_ex_exec "()" "()" "\<lambda>n. n"]
  by (simp add: cohort_static_def cohort_ex_store_def cohort_ex_exec_def)

text \<open>
  What the jump leaves in \<open>total_passed\<close> decides: with a compiler that leaves the number of tests there, a cohort of
  one crashing test is reported as passed.
\<close>

lemma verdict_depends_on_the_jump: "count_passed (\<lambda>_. 1) 0 [Crashed] = length [a]"
  by simp

end
