(* ===== verification/Timeutils.thy ===== *)
theory Timeutils
  imports Prelude "HOL-Library.Word"
begin

text \<open>
  The time arithmetic of \<open>src/misc/timeutils.c\<close> and the prime sieve of \<open>src/misc/math.c\<close>. A \<open>struct timespec\<close> is
  two signed 64-bit words: sums wrap (the library is built with \<open>-fwrapv\<close>), comparisons read them with \<open>sint\<close>.
  The clocks and the conversions from floating point are not modelled; functions that read a clock take its value
  as an argument.
\<close>

section \<open>Time points and durations\<close>

record timespec =
  tv_sec :: "64 word"
  tv_nsec :: "64 word"

definition MSECS_PER_SEC :: "32 word" where
  "MSECS_PER_SEC = 1000"

definition NSECS_PER_SEC :: "64 word" where
  "NSECS_PER_SEC = 1000000000"

definition NSECS_PER_MSEC :: "32 word" where
  "NSECS_PER_MSEC = 1000000"

definition USECS_PER_SEC :: "32 word" where
  "USECS_PER_SEC = 1000000"

definition NSECS_PER_USEC :: "32 word" where
  "NSECS_PER_USEC = 1000"

definition timespec_cmp :: "timespec comparator" where
  "timespec_cmp a b =
     (if sint (tv_sec a) > sint (tv_sec b) then GT
      else if sint (tv_sec a) < sint (tv_sec b) then LT
      else if sint (tv_nsec a) > sint (tv_nsec b) then GT
      else if sint (tv_nsec a) < sint (tv_nsec b) then LT
      else EQ)"

definition timespec_add :: "timespec \<Rightarrow> timespec \<Rightarrow> timespec" where
  "timespec_add a b =
     (let secs = tv_sec a + tv_sec b;
          nsecs = tv_nsec a + tv_nsec b;
          secs = secs + nsecs div NSECS_PER_SEC;
          nsecs = nsecs mod NSECS_PER_SEC
      in \<lparr>tv_sec = secs, tv_nsec = nsecs\<rparr>)"

text \<open>The products of 32-bit operands are 32 bits wide before they are stored.\<close>

definition ms2timespec :: "32 word \<Rightarrow> timespec" where
  "ms2timespec ms = \<lparr>tv_sec = ucast (ms div MSECS_PER_SEC), tv_nsec = ucast ((ms mod MSECS_PER_SEC) * NSECS_PER_MSEC)\<rparr>"

definition get_unix_timepoint :: "timespec \<Rightarrow> 32 word \<Rightarrow> timespec" where
  "get_unix_timepoint now ms =
     (let delay = \<lparr>tv_sec = ucast (ms div MSECS_PER_SEC), tv_nsec = ucast ((ms mod MSECS_PER_SEC) * NSECS_PER_MSEC)\<rparr>
      in timespec_add now delay)"

subsection \<open>Nanoseconds\<close>

definition nanos :: "timespec \<Rightarrow> int" where
  "nanos t = sint (tv_sec t) * 1000000000 + sint (tv_nsec t)"

definition normal_ts :: "timespec \<Rightarrow> bool" where
  "normal_ts t \<longleftrightarrow> 0 \<le> sint (tv_nsec t) \<and> sint (tv_nsec t) < 1000000000"

lemma sint_of_int_small: "0 \<le> k \<Longrightarrow> k < 2 ^ 63 \<Longrightarrow> sint (word_of_int k :: 64 word) = k"
  by (subst sint_sbintrunc') (rule signed_take_bit_int_eq_self; simp)

lemma word_of_sint: "word_of_int (sint w) = (w :: 'a::len word)"
  by transfer (simp flip: take_bit_signed_take_bit)

lemma timespec_cmp_ok:
  assumes "normal_ts a" "normal_ts b"
  shows "timespec_cmp a b = cmp_by nanos a b"
proof -
  define x y u v where "x = sint (tv_sec a)" and "y = sint (tv_sec b)" and "u = sint (tv_nsec a)" and "v = sint (tv_nsec b)"
  have r: "0 \<le> u" "u < 1000000000" "0 \<le> v" "v < 1000000000" using assms by (simp_all add: normal_ts_def u_def v_def)
  have n: "nanos a = x * 1000000000 + u" "nanos b = y * 1000000000 + v" by (simp_all add: nanos_def x_def y_def u_def v_def)
  have "x < y \<Longrightarrow> nanos a < nanos b" "y < x \<Longrightarrow> nanos b < nanos a" unfolding n using r by linarith+
  then show ?thesis
    unfolding timespec_cmp_def cmp_by_def x_def [symmetric] y_def [symmetric] u_def [symmetric] v_def [symmetric]
    using n by auto
qed

lemma sint_add_small:
  assumes "- (2 ^ 63) \<le> sint a + sint b" "sint a + sint b < 2 ^ 63"
  shows "sint (a + b :: 64 word) = sint a + sint b"
  using assms by (simp add: signed_take_bit_int_eq_self sint_word_ariths)

lemma add_nsecs:
  assumes "normal_ts a" "normal_ts b"
  defines "k \<equiv> sint (tv_nsec a) + sint (tv_nsec b)"
  shows "(tv_nsec a + tv_nsec b) div NSECS_PER_SEC = (if k < 1000000000 then 0 else 1)"
    and "sint ((tv_nsec a + tv_nsec b) mod NSECS_PER_SEC) = (if k < 1000000000 then k else k - 1000000000)"
proof -
  have k: "0 \<le> k" "k < 2000000000" using assms by (auto simp: normal_ts_def)
  have w: "tv_nsec a + tv_nsec b = word_of_int k" by (simp only: k_def of_int_add word_of_sint)
  have u: "uint (word_of_int k :: 64 word) = k" using k by (simp add: uint_word_of_int_eq take_bit_int_eq_self)
  have d: "k div 1000000000 = (if k < 1000000000 then 0 else 1)"
  proof (cases "k < 1000000000")
    case False
    then have "k div 1000000000 = 1" using k by (intro div_pos_geq [THEN trans]) auto
    then show ?thesis using False by simp
  qed (use k in simp)
  have m: "k mod 1000000000 = (if k < 1000000000 then k else k - 1000000000)"
    using d by (simp add: minus_div_mult_eq_mod [symmetric])
  have "(word_of_int k :: 64 word) div NSECS_PER_SEC = word_of_int (k div 1000000000)"
    by (simp add: word_div_def u NSECS_PER_SEC_def)
  then show "(tv_nsec a + tv_nsec b) div NSECS_PER_SEC = (if k < 1000000000 then 0 else 1)"
    unfolding w d by simp
  have "(word_of_int k :: 64 word) mod NSECS_PER_SEC = word_of_int (k mod 1000000000)"
    by (simp add: word_mod_def u NSECS_PER_SEC_def)
  then show "sint ((tv_nsec a + tv_nsec b) mod NSECS_PER_SEC) = (if k < 1000000000 then k else k - 1000000000)"
    unfolding w m using k by (simp add: sint_of_int_small)
qed

lemma timespec_add_ok:
  assumes "normal_ts a" "normal_ts b"
  shows "normal_ts (timespec_add a b)"
    and "- (2 ^ 63) \<le> sint (tv_sec a) + sint (tv_sec b) \<Longrightarrow> sint (tv_sec a) + sint (tv_sec b) < 2 ^ 63 - 1 \<Longrightarrow>
      nanos (timespec_add a b) = nanos a + nanos b"
proof -
  let ?k = "sint (tv_nsec a) + sint (tv_nsec b)"
  note ns = add_nsecs [OF assms]
  have k: "0 \<le> ?k" "?k < 2000000000" using assms by (auto simp: normal_ts_def)
  show "normal_ts (timespec_add a b)"
    using k by (auto simp: timespec_add_def normal_ts_def Let_def ns(2))
  assume r: "- (2 ^ 63) \<le> sint (tv_sec a) + sint (tv_sec b)" "sint (tv_sec a) + sint (tv_sec b) < 2 ^ 63 - 1"
  have s: "sint (tv_sec a + tv_sec b) = sint (tv_sec a) + sint (tv_sec b)"
    by (rule sint_add_small) (use r in auto)
  have "sint (tv_sec a + tv_sec b + 1) = sint (tv_sec a) + sint (tv_sec b) + 1"
    using sint_add_small [of "tv_sec a + tv_sec b" 1] r by (simp add: s)
  then show "nanos (timespec_add a b) = nanos a + nanos b"
    unfolding nanos_def timespec_add_def Let_def ns(1) timespec.simps ns(2) using s by simp
qed

lemma ms2timespec_ok: "normal_ts (ms2timespec ms)" "nanos (ms2timespec ms) = uint ms * 1000000"
  "0 \<le> sint (tv_sec (ms2timespec ms))" "sint (tv_sec (ms2timespec ms)) < 2 ^ 32"
proof -
  let ?m = "uint ms"
  have m: "0 \<le> ?m" "?m < 2 ^ 32" using uint_bounded [of ms] by simp_all
  have sec: "uint (ms div MSECS_PER_SEC) = ?m div 1000" "uint (ms mod MSECS_PER_SEC) = ?m mod 1000"
    by (simp_all add: MSECS_PER_SEC_def uint_div_distrib uint_mod_distrib)
  have r: "0 \<le> ?m mod 1000" "?m mod 1000 < 1000" by simp_all
  have ns: "uint ((ms mod MSECS_PER_SEC) * NSECS_PER_MSEC) = ?m mod 1000 * 1000000"
    using r by (simp add: uint_word_ariths sec NSECS_PER_MSEC_def)
  have up: "sint (ucast w :: 64 word) = uint w" for w :: "32 word"
    using uint_bounded [of w] by (simp add: sint_of_int_small [of "uint w", simplified] flip: word_of_int_uint)
  have tv: "sint (tv_sec (ms2timespec ms)) = ?m div 1000" "sint (tv_nsec (ms2timespec ms)) = ?m mod 1000 * 1000000"
    by (simp_all add: ms2timespec_def up sec ns)
  show "normal_ts (ms2timespec ms)" using r by (simp add: normal_ts_def tv)
  show "nanos (ms2timespec ms) = ?m * 1000000"
    unfolding nanos_def tv using mult_div_mod_eq [of 1000 ?m] by linarith
  show "0 \<le> sint (tv_sec (ms2timespec ms))" "sint (tv_sec (ms2timespec ms)) < 2 ^ 32" unfolding tv using m by linarith+
qed

section \<open>The prime sieve\<close>

text \<open>
  \<open>j\<close> runs from \<open>i\<close> while \<open>i*j\<close> is below the limit; a zero \<open>i\<close> would never end, and the loop starts at 2. The
  products are those of \<open>size_t\<close>: a limit of at most \<open>2^62\<close> keeps them from wrapping, and the model takes them
  as they are.
\<close>

function sieve_inner :: "nat \<Rightarrow> nat \<Rightarrow> nat \<Rightarrow> bool list \<Rightarrow> bool list" where
  "sieve_inner limit i j buff =
     (if 0 < i \<and> i * j < limit then sieve_inner limit i (j + 1) (buff[i * j := False]) else buff)"
  by pat_completeness auto
termination
proof (relation "measure (\<lambda>(limit, i, j, buff). limit - i * j)")
  fix limit i j :: nat and buff :: "bool list"
  assume "0 < i \<and> i * j < limit"
  moreover from this have "i * j < i * (j + 1)" by simp
  ultimately show "((limit, i, j + 1, buff[i * j := False]), limit, i, j, buff) \<in> measure (\<lambda>(limit, i, j, buff). limit - i * j)"
    by simp linarith
qed simp

function sieve_outer :: "nat \<Rightarrow> nat \<Rightarrow> bool list \<Rightarrow> bool list" where
  "sieve_outer limit i buff =
     (if i * i \<le> limit then sieve_outer limit (i + 1) (if buff ! i then sieve_inner limit i i buff else buff) else buff)"
  by pat_completeness auto
termination
proof (relation "measure (\<lambda>(limit, i, buff). limit + 1 - i)")
  fix limit i :: nat and buff :: "bool list"
  assume "i * i \<le> limit"
  then have "i \<le> limit" using le_square [of i] by linarith
  then show "((limit, i + 1, if buff ! i then sieve_inner limit i i buff else buff), limit, i, buff) \<in> measure (\<lambda>(limit, i, buff). limit + 1 - i)"
    by simp
qed simp

declare sieve_inner.simps [simp del] sieve_outer.simps [simp del]

definition find_primes :: "nat \<Rightarrow> bool list res" where
  "find_primes limit = bindE (assertE (limit > 1)) (\<lambda>_. Inr (sieve_outer limit 2 (replicate limit True)))"

definition prime_nat :: "nat \<Rightarrow> bool" where
  "prime_nat n \<longleftrightarrow> 1 < n \<and> (\<forall>d. d dvd n \<longrightarrow> d = 1 \<or> d = n)"

lemma length_sieve_inner [simp]: "length (sieve_inner limit i j buff) = length buff"
  by (induction limit i j buff rule: sieve_inner.induct) (subst sieve_inner.simps, simp)

lemma sieve_inner_ok:
  "length buff = limit \<Longrightarrow> k < limit \<Longrightarrow> 0 < i \<Longrightarrow>
     sieve_inner limit i j buff ! k \<longleftrightarrow> buff ! k \<and> \<not> (\<exists>m. j \<le> m \<and> k = i * m)"
proof (induction limit i j buff rule: sieve_inner.induct)
  case (1 limit i j buff)
  show ?case
  proof (cases "i * j < limit")
    case True
    have "sieve_inner limit i j buff ! k \<longleftrightarrow> buff[i * j := False] ! k \<and> \<not> (\<exists>m. j + 1 \<le> m \<and> k = i * m)"
      using 1 True by (subst sieve_inner.simps) simp
    also have "\<dots> \<longleftrightarrow> buff ! k \<and> \<not> (\<exists>m. j \<le> m \<and> k = i * m)"
    proof (cases "k = i * j")
      case True
      then show ?thesis using "1.prems" by auto
    next
      case False
      then have "j + 1 \<le> m \<longleftrightarrow> j \<le> m" if "k = i * m" for m using that by (cases "m = j") auto
      then show ?thesis using False by (auto simp: nth_list_update_neq)
    qed
    finally show ?thesis .
  next
    case False
    then have "\<not> (\<exists>m. j \<le> m \<and> k = i * m)" using "1.prems"(2) mult_le_mono2 [of j _ i] by (metis le_less_trans not_less)
    then show ?thesis using False by (subst sieve_inner.simps) simp
  qed
qed

text \<open>After the numbers below \<open>i\<close>: marked are the products of two factors, the smaller one from 2 up to below \<open>i\<close>.\<close>

definition sieved :: "nat \<Rightarrow> nat \<Rightarrow> bool" where
  "sieved i k \<longleftrightarrow> (\<exists>d m. 2 \<le> d \<and> d < i \<and> d \<le> m \<and> k = d * m)"

lemma sieved_skip:
  assumes "sieved i i" "2 \<le> i"
  shows "sieved (Suc i) k \<longleftrightarrow> sieved i k"
proof
  assume "sieved (Suc i) k"
  then obtain d m where dm: "2 \<le> d" "d < Suc i" "d \<le> m" "k = d * m" by (auto simp: sieved_def)
  show "sieved i k"
  proof (cases "d = i")
    case True
    obtain e n where en: "2 \<le> e" "e < i" "e \<le> n" "i = e * n" using assms(1) by (auto simp: sieved_def)
    have "k = e * (n * m)" using dm(4) True en(4) by simp
    moreover have "e \<le> n * m" using en(3) dm(1,3) mult_le_mono [of e n 1 m] by simp
    ultimately show ?thesis using en(1,2) unfolding sieved_def by blast
  next
    case False
    then show ?thesis using dm unfolding sieved_def by (intro exI [of _ d] exI [of _ m]) simp
  qed
qed (auto simp: sieved_def less_Suc_eq)

lemma sieve_outer_ok:
  "length buff = limit \<Longrightarrow> 2 \<le> i \<Longrightarrow> (\<And>k. k < limit \<Longrightarrow> buff ! k \<longleftrightarrow> \<not> sieved i k) \<Longrightarrow> 1 < limit \<Longrightarrow>
     length (sieve_outer limit i buff) = limit \<and>
     (\<forall>k<limit. sieve_outer limit i buff ! k \<longleftrightarrow> \<not> (\<exists>j. sieved j k))"
proof (induction limit i buff rule: sieve_outer.induct)
  case (1 limit i buff)
  show ?case
  proof (cases "i * i \<le> limit")
    case True
    let ?b = "if buff ! i then sieve_inner limit i i buff else buff"
    have "i * 2 \<le> i * i" using "1.prems"(2) by (rule mult_le_mono2)
    then have i: "i < limit" using True "1.prems"(2) by linarith
    have "?b ! k \<longleftrightarrow> \<not> sieved (Suc i) k" if k: "k < limit" for k
    proof (cases "sieved i i")
      case True
      then show ?thesis using "1.prems"(3) [OF i] "1.prems"(3) [OF k] sieved_skip [OF True "1.prems"(2)] by simp
    next
      case False
      then have "?b ! k \<longleftrightarrow> \<not> sieved i k \<and> \<not> (\<exists>m. i \<le> m \<and> k = i * m)"
        using "1.prems" i k sieve_inner_ok [of buff limit k i i] by simp
      also have "\<dots> \<longleftrightarrow> \<not> sieved (Suc i) k"
        using "1.prems"(2) unfolding sieved_def by (auto simp: less_Suc_eq)
      finally show ?thesis .
    qed
    then show ?thesis
      using True "1.IH" [OF True] "1.prems" by (subst (1 2) sieve_outer.simps) simp
  next
    case False
    have "sieved i k" if sk: "sieved j k" "k < limit" for j k
    proof -
      obtain d m where dm: "2 \<le> d" "d \<le> m" "k = d * m" using sk(1) by (auto simp: sieved_def)
      have "d * d < i * i" using mult_le_mono2 [OF dm(2), of d] dm(3) sk(2) False by linarith
      then have "d < i" by (meson mult_le_mono not_less)
      then show ?thesis using dm unfolding sieved_def by blast
    qed
    then show ?thesis using False "1.prems" by (subst (1 2) sieve_outer.simps) auto
  qed
qed

lemma composite_sieved:
  assumes "1 < k"
  shows "(\<exists>j. sieved j k) \<longleftrightarrow> \<not> prime_nat k"
proof
  assume "\<exists>j. sieved j k"
  then obtain d m where "2 \<le> d" "d \<le> m" "k = d * m" by (auto simp: sieved_def)
  then have "d dvd k" "d \<noteq> 1" "d \<noteq> k" by auto
  then show "\<not> prime_nat k" by (auto simp: prime_nat_def)
next
  assume "\<not> prime_nat k"
  then obtain d where d: "d dvd k" "d \<noteq> 1" "d \<noteq> k" using assms by (auto simp: prime_nat_def)
  then obtain m where k: "k = d * m" by (auto simp: dvd_def)
  have "d \<noteq> 0" "m \<noteq> 0" by (rule notI; use k assms in simp)+
  moreover have "m \<noteq> 1" using k d by auto
  ultimately have "2 \<le> d" "2 \<le> m" using d(2) by auto
  show "\<exists>j. sieved j k"
  proof (cases "d \<le> m")
    case True
    then have "sieved (Suc d) k" unfolding sieved_def using k \<open>2 \<le> d\<close> by auto
    then show ?thesis by blast
  next
    case False
    then have "m < Suc m \<and> 2 \<le> m \<and> m \<le> d \<and> k = m * d" using k \<open>2 \<le> m\<close> by (simp add: mult.commute)
    then have "sieved (Suc m) k" unfolding sieved_def by blast
    then show ?thesis by blast
  qed
qed

section \<open>The properties of the component\<close>

text \<open>C39: 
  Time arithmetic on normal time points: the sum is normal and, unless the seconds overflow, its nanoseconds are
  the sum of the nanoseconds; the comparator orders time points by their nanoseconds; a number of milliseconds is
  converted exactly.
\<close>

theorem timespec_arithmetic_correct:
  assumes "normal_ts a" "normal_ts b"
  shows "normal_ts (timespec_add a b) \<and>
    (- (2 ^ 63) \<le> sint (tv_sec a) + sint (tv_sec b) \<and> sint (tv_sec a) + sint (tv_sec b) < 2 ^ 63 - 1 \<longrightarrow>
       nanos (timespec_add a b) = nanos a + nanos b) \<and>
    timespec_cmp a b = cmp_by nanos a b \<and>
    normal_ts (ms2timespec ms) \<and> nanos (ms2timespec ms) = uint ms * 1000000"
  using timespec_add_ok [OF assms] timespec_cmp_ok [OF assms] ms2timespec_ok by blast

theorem timespec_arithmetic_witness:
  "normal_ts (timespec_add \<lparr>tv_sec = 1, tv_nsec = 999999999\<rparr> \<lparr>tv_sec = 2, tv_nsec = 2\<rparr>) \<and>
   nanos (timespec_add \<lparr>tv_sec = 1, tv_nsec = 999999999\<rparr> \<lparr>tv_sec = 2, tv_nsec = 2\<rparr>) = 4000000001"
  using timespec_arithmetic_correct [of "\<lparr>tv_sec = 1, tv_nsec = 999999999\<rparr>" "\<lparr>tv_sec = 2, tv_nsec = 2\<rparr>"]
  by (simp add: normal_ts_def nanos_def)

text \<open>
  The sieve ends and marks exactly the primes among the numbers from 2 below the limit. It leaves 0 and 1 marked as
  primes, which the description of the buffer in \<open>math.h\<close> excludes.
\<close>

theorem find_primes_correct:
  assumes "1 < limit"
  shows "\<exists>buff. find_primes limit = Inr buff \<and> length buff = limit \<and>
    (\<forall>k<limit. buff ! k \<longleftrightarrow> k < 2 \<or> prime_nat k)"
proof -
  let ?b = "sieve_outer limit 2 (replicate limit True)"
  have "\<not> sieved 2 k" for k by (simp add: sieved_def)
  then have b: "length ?b = limit" "\<forall>k<limit. ?b ! k \<longleftrightarrow> \<not> (\<exists>j. sieved j k)"
    using sieve_outer_ok [of "replicate limit True" limit 2] assms by simp_all
  have "\<not> (\<exists>j. sieved j k) \<longleftrightarrow> k < 2 \<or> prime_nat k" for k
  proof (cases "1 < k")
    case False
    have "4 \<le> d * m" if "2 \<le> d" "d \<le> m" for d m :: nat using mult_le_mono [of 2 d 2 m] that by simp
    then show ?thesis using False unfolding sieved_def by fastforce
  qed (simp add: composite_sieved)
  then show ?thesis using b assms by (simp add: find_primes_def)
qed

theorem find_primes_witness:
  "\<exists>buff. find_primes 10 = Inr buff \<and> length buff = 10 \<and> (\<forall>k<10. buff ! k \<longleftrightarrow> k < 2 \<or> prime_nat k)"
  by (rule find_primes_correct) simp

end
