(* ===== verification/Ioutils.thy ===== *)
theory Ioutils
  imports Prelude "HOL-Library.Word"
begin

text \<open>
  The read and write wrappers of \<open>src/misc/ioutils.c\<close>. The system calls are a parameter: a record of functions on
  the state \<open>'w\<close> of the world outside the process. \<open>try_write\<close> is shown to end and to hand a prefix of the buffer
  to the descriptor, \<open>pump\<close> to move everything up to the end of the file; the return value of \<open>try_write\<close> and the
  buffer arithmetic of \<open>try_read\<close> go wrong on partial transfers, which is stated as well.
\<close>

section \<open>System calls\<close>

text \<open>A result of \<open>-1\<close> comes with the flag that tells whether \<open>errno\<close> is \<open>EAGAIN\<close> or \<open>EWOULDBLOCK\<close>.\<close>

type_synonym byte = "8 word"

record 'w io_env =
  io_write :: "int \<Rightarrow> byte list \<Rightarrow> 'w \<Rightarrow> int \<times> bool \<times> 'w"
  io_read :: "int \<Rightarrow> nat \<Rightarrow> 'w \<Rightarrow> int \<times> byte list \<times> bool \<times> 'w"
  io_poll :: "int \<Rightarrow> int \<Rightarrow> int \<Rightarrow> 'w \<Rightarrow> int \<times> int \<times> 'w"

definition POLLIN :: int where "POLLIN = 1"
definition POLLOUT :: int where "POLLOUT = 4"

section \<open>Operations\<close>

definition pollfd :: "'w io_env \<Rightarrow> int \<Rightarrow> int \<Rightarrow> int \<Rightarrow> 'w \<Rightarrow> int \<times> 'w" where
  "pollfd E fd events timeout w =
     (if fd < 0 then (fd, w)
      else let evmask = (if events \<noteq> 0 then events else 5);
               (ret, revents, w) = io_poll E fd evmask timeout w
           in if ret > 0 then (revents, w) else (ret, w))"

definition max_tries :: nat where
  "max_tries = 10"

text \<open>\<open>to_write\<close> is an \<open>int\<close>, \<open>src\<close> the rest of the buffer.\<close>

fun try_write_loop :: "nat \<Rightarrow> 'w io_env \<Rightarrow> int \<Rightarrow> byte list \<Rightarrow> int \<Rightarrow> nat \<Rightarrow> int \<Rightarrow> 'w \<Rightarrow> (int \<times> 'w) res" where
  "try_write_loop 0 E dst src to_write tries bytes_written w = Inl OutOfFuel"
| "try_write_loop (Suc fuel) E dst src to_write tries bytes_written w =
     (if to_write \<le> 0 \<or> tries = max_tries then Inr (bytes_written, w)
      else let (bytes_written, again, w) = io_write E dst (take (nat to_write) src) w in
        if bytes_written \<noteq> -1
        then try_write_loop fuel E dst (drop (nat bytes_written) src) (to_write - bytes_written) 0 bytes_written w
        else if \<not> again then Inr (bytes_written, w)
        else try_write_loop fuel E dst src to_write (tries + 1) bytes_written (snd (pollfd E dst POLLOUT 2 w)))"

definition try_write :: "nat \<Rightarrow> 'w io_env \<Rightarrow> int \<Rightarrow> byte list \<Rightarrow> nat \<Rightarrow> 'w \<Rightarrow> (int \<times> 'w) res" where
  "try_write fuel E dst src nbytes w = try_write_loop fuel E dst src (sint (word_of_nat nbytes :: 32 word)) 0 0 w"

text \<open>
  \<open>read\<close> stores its bytes from the offset \<open>off\<close> of the buffer \<open>buff\<close> on; storing past the end of the buffer is an
  access outside its memory.
\<close>

definition store_bytes :: "byte list \<Rightarrow> nat \<Rightarrow> byte list \<Rightarrow> byte list res" where
  "store_bytes buff off bs =
     (if off + length bs \<le> length buff then Inr (take off buff @ bs @ drop (off + length bs) buff) else Inl WildDeref)"

fun try_read_loop :: "nat \<Rightarrow> 'w io_env \<Rightarrow> int \<Rightarrow> byte list \<Rightarrow> nat \<Rightarrow> nat \<Rightarrow> int \<Rightarrow> nat \<Rightarrow> int \<Rightarrow> 'w \<Rightarrow> (int \<times> byte list \<times> 'w) res" where
  "try_read_loop 0 E src buff off buffsz to_read tries bytes_read w = Inl OutOfFuel"
| "try_read_loop (Suc fuel) E src buff off buffsz to_read tries bytes_read w =
     (if to_read \<le> 0 \<or> tries = max_tries then Inr (bytes_read, buff, w)
      else let (bytes_read, bs, again, w) = io_read E src buffsz w in
        if bytes_read \<noteq> -1
        then bindE (store_bytes buff off bs) (\<lambda>buff.
             try_read_loop fuel E src buff (off + nat bytes_read) buffsz (to_read - bytes_read) 0 bytes_read w)
        else if \<not> again then Inr (bytes_read, buff, w)
        else try_read_loop fuel E src buff off buffsz to_read (tries + 1) bytes_read (snd (pollfd E src POLLIN 2 w)))"

definition try_read :: "nat \<Rightarrow> 'w io_env \<Rightarrow> int \<Rightarrow> byte list \<Rightarrow> nat \<Rightarrow> 'w \<Rightarrow> (int \<times> byte list \<times> 'w) res" where
  "try_read fuel E src buff buffsz w =
     bindE (assertE (src > 0)) (\<lambda>_.
     bindE (assertE (buffsz > 0)) (\<lambda>_.
     try_read_loop fuel E src buff 0 buffsz (sint (word_of_nat buffsz :: 32 word)) 0 0 w))"

text \<open>The counters are of type \<open>size_t\<close>: adding a result of \<open>-1\<close> to them wraps.\<close>

record pumped =
  bytes_read :: nat
  bytes_written :: nat

definition add_size :: "nat \<Rightarrow> int \<Rightarrow> nat" where
  "add_size a m = nat ((int a + m) mod int SZ)"

text \<open>The inner fuel is that of \<open>try_write\<close>; the buffer keeps nothing from one round to the next.\<close>

fun pump_loop :: "nat \<Rightarrow> nat \<Rightarrow> 'w io_env \<Rightarrow> int \<Rightarrow> int \<Rightarrow> nat \<Rightarrow> pumped \<Rightarrow> 'w \<Rightarrow> (pumped \<times> 'w) res" where
  "pump_loop 0 wfuel E src dst buffsz ret w = Inl OutOfFuel"
| "pump_loop (Suc fuel) wfuel E src dst buffsz ret w =
     (let (n, bs, again, w) = io_read E src buffsz w in
      if n = 0 then Inr (ret, w)
      else if n = -1 then Inr (ret, w)
      else let ret = ret\<lparr>bytes_read := add_size (bytes_read ret) n\<rparr> in
        bindE (try_write wfuel E dst bs (nat n) w) (\<lambda>(m, w).
        let ret = ret\<lparr>bytes_written := add_size (bytes_written ret) m\<rparr> in
        if m \<noteq> n then Inr (ret, w) else pump_loop fuel wfuel E src dst buffsz ret w))"

definition pump :: "nat \<Rightarrow> nat \<Rightarrow> 'w io_env \<Rightarrow> int \<Rightarrow> int \<Rightarrow> nat \<Rightarrow> 'w \<Rightarrow> (pumped \<times> 'w) res" where
  "pump fuel wfuel E src dst buffsz w = pump_loop fuel wfuel E src dst buffsz \<lparr>bytes_read = 0, bytes_written = 0\<rparr> w"

section \<open>What the system calls promise\<close>

text \<open>
  \<open>sink w\<close> is what a descriptor has received. A write takes a non-empty prefix of the bytes it is given, or fails
  and takes nothing; polling changes nothing.
\<close>

definition write_ok :: "'w io_env \<Rightarrow> int \<Rightarrow> ('w \<Rightarrow> byte list) \<Rightarrow> bool" where
  "write_ok E fd sink \<longleftrightarrow>
     (\<forall>bs w n again w'. bs \<noteq> [] \<longrightarrow> io_write E fd bs w = (n, again, w') \<longrightarrow>
        (n = -1 \<and> sink w' = sink w) \<or> (0 < n \<and> n \<le> int (length bs) \<and> sink w' = sink w @ take (nat n) bs)) \<and>
     (\<forall>ev t w. sink (snd (snd (io_poll E fd ev t w))) = sink w)"

lemma pollfd_sink: "write_ok E fd sink \<Longrightarrow> sink (snd (pollfd E fd ev t w)) = sink w"
  by (auto simp: pollfd_def write_ok_def Let_def split: prod.splits) (metis snd_conv)+

lemma write_okE:
  assumes "write_ok E fd sink" and "io_write E fd bs w = (n, again, w')" and "bs \<noteq> []"
  obtains "n = -1" "sink w' = sink w"
  | k where "n = int k" "0 < k" "k \<le> length bs" "sink w' = sink w @ take k bs"
proof -
  have "(n = -1 \<and> sink w' = sink w) \<or> (0 < n \<and> n \<le> int (length bs) \<and> sink w' = sink w @ take (nat n) bs)"
    using assms unfolding write_ok_def by blast
  then show thesis
    using that(1) that(2) [of "nat n"] by (auto simp: nat_le_iff)
qed

section \<open>Writing\<close>

text \<open>
  Every round either consumes bytes or uses up one of the ten tries, so \<open>11\<close> rounds per byte are enough. The number
  \<open>r\<close> returned is what the last \<open>write\<close> returned.
\<close>

lemma try_write_loop_ok:
  assumes E: "write_ok E fd sink"
  shows "to_write = int (length src) \<Longrightarrow> tries \<le> max_tries \<Longrightarrow> 11 * length src + (max_tries - tries) < fuel \<Longrightarrow>
    \<exists>r w' k. try_write_loop fuel E fd src to_write tries bw w = Inr (r, w') \<and> sink w' = sink w @ take k src \<and>
      (k < length src \<and> (r = -1 \<or> tries = max_tries \<and> r = bw) \<or>
       k = length src \<and> (src = [] \<and> r = bw \<or> (\<exists>m. r = int m \<and> 0 < m \<and> m \<le> k)))"
proof (induction fuel arbitrary: src to_write tries bw w)
  case 0
  then show ?case by simp
next
  case (Suc fuel)
  show ?case
  proof (cases "src = [] \<or> tries = max_tries")
    case True
    then show ?thesis using Suc.prems(1) by (intro exI [of _ bw] exI [of _ w] exI [of _ 0]) auto
  next
    case False
    then have src: "src \<noteq> []" and t: "tries \<noteq> max_tries" by auto
    then have go: "\<not> (to_write \<le> 0 \<or> tries = max_tries)" and nt: "nat to_write = length src"
      using Suc.prems(1) by (cases src; simp)+
    obtain n again w1 where wr: "io_write E fd src w = (n, again, w1)" by (metis prod_cases3)
    then show ?thesis
    proof (cases rule: write_okE [OF E wr src])
      case 1
      show ?thesis
      proof (cases again)
        case False
        then show ?thesis using 1 go nt wr src
          by (intro exI [of _ "-1"] exI [of _ w1] exI [of _ 0]) simp
      next
        case True
        let ?w2 = "snd (pollfd E fd POLLOUT 2 w1)"
        have "tries + 1 \<le> max_tries" "11 * length src + (max_tries - (tries + 1)) < fuel"
          using Suc.prems t by auto
        from Suc.IH [OF Suc.prems(1) this, of "-1" ?w2] obtain r w' k where
          "try_write_loop fuel E fd src to_write (tries + 1) (-1) ?w2 = Inr (r, w')" "sink w' = sink ?w2 @ take k src"
          "k < length src \<and> r = -1 \<or> k = length src \<and> (\<exists>m. r = int m \<and> 0 < m \<and> m \<le> k)" using src by auto
        then show ?thesis using 1 True go nt wr src pollfd_sink [OF E, of POLLOUT 2 w1]
          by (intro exI [of _ r] exI [of _ w'] exI [of _ k]) auto
      qed
    next
      case (2 j)
      have "to_write - n = int (length (drop j src))" using 2 Suc.prems(1) by simp
      moreover have "11 * length (drop j src) + (max_tries - 0) < fuel"
        using 2 Suc.prems unfolding max_tries_def by simp
      ultimately obtain r w' k where ih:
        "try_write_loop fuel E fd (drop j src) (to_write - n) 0 n w1 = Inr (r, w')"
        "sink w' = sink w1 @ take k (drop j src)"
        "k < length (drop j src) \<and> r = -1 \<or>
         k = length (drop j src) \<and> (drop j src = [] \<and> r = n \<or> (\<exists>m. r = int m \<and> 0 < m \<and> m \<le> k))"
        using Suc.IH [of "to_write - n" "drop j src" 0 n w1] by (auto simp: max_tries_def)
      have "sink w' = sink w @ take (j + k) src" using ih(2) 2 by (simp add: take_add)
      moreover have "j + k < length src \<and> r = -1 \<or> j + k = length src \<and> (\<exists>m. r = int m \<and> 0 < m \<and> m \<le> j + k)"
        using ih(3) 2 by fastforce
      ultimately show ?thesis using ih(1) 2 go nt wr
        by (intro exI [of _ r] exI [of _ w'] exI [of _ "j + k"]) auto
    qed
  qed
qed

lemma int_of_size: "n < 2 ^ 31 \<Longrightarrow> sint (word_of_nat n :: 32 word) = int n"
  by (subst of_int_of_nat_eq [symmetric], subst sint_sbintrunc') (rule signed_take_bit_int_eq_self; simp)

lemma try_write_ok:
  assumes "write_ok E fd sink" "length src < 2 ^ 31" "11 * length src + 10 < fuel"
  shows "\<exists>r w' k. try_write fuel E fd src (length src) w = Inr (r, w') \<and> sink w' = sink w @ take k src \<and>
    (k < length src \<and> r = -1 \<or> k = length src \<and> 0 \<le> r \<and> r \<le> int k)"
proof -
  obtain r w' k where r: "try_write_loop fuel E fd src (int (length src)) 0 0 w = Inr (r, w')" "sink w' = sink w @ take k src"
    "k < length src \<and> r = -1 \<or> k = length src \<and> (src = [] \<and> r = 0 \<or> (\<exists>m. r = int m \<and> 0 < m \<and> m \<le> k))"
    using try_write_loop_ok [OF assms(1) refl, of 0 src fuel 0 w] assms(3) by (auto simp: max_tries_def)
  then show ?thesis
    using assms(2) by (intro exI [of _ r] exI [of _ w'] exI [of _ k]) (auto simp: try_write_def int_of_size)
qed

section \<open>Pumping\<close>

text \<open>
  \<open>feed w\<close> is what the source still holds; an empty read means the end of the file. \<open>moves_all\<close> describes a source
  that is read without errors and a destination that takes whatever it is given.
\<close>

definition moves_all :: "'w io_env \<Rightarrow> int \<Rightarrow> int \<Rightarrow> ('w \<Rightarrow> byte list) \<Rightarrow> ('w \<Rightarrow> byte list) \<Rightarrow> bool" where
  "moves_all E src dst feed sink \<longleftrightarrow>
     (\<forall>cap w n bs again w'. 0 < cap \<longrightarrow> io_read E src cap w = (n, bs, again, w') \<longrightarrow>
        n = int (length bs) \<and> length bs \<le> cap \<and> feed w = bs @ feed w' \<and> (bs = [] \<longrightarrow> feed w = []) \<and> sink w' = sink w) \<and>
     (\<forall>bs w n again w'. io_write E dst bs w = (n, again, w') \<longrightarrow>
        n = int (length bs) \<and> feed w' = feed w \<and> sink w' = sink w @ bs)"

lemma try_write_whole:
  assumes E: "moves_all E src dst feed sink" and "bs \<noteq> []" "length bs < 2 ^ 31"
  shows "\<exists>w'. try_write (Suc (Suc wfuel)) E dst bs (length bs) w = Inr (int (length bs), w') \<and>
    feed w' = feed w \<and> sink w' = sink w @ bs"
proof -
  obtain n again w' where wr: "io_write E dst bs w = (n, again, w')" by (metis prod_cases3)
  then have "n = int (length bs)" "feed w' = feed w" "sink w' = sink w @ bs"
    using E unfolding moves_all_def by blast+
  then show ?thesis
    using wr assms(2,3) by (simp add: try_write_def int_of_size max_tries_def)
qed

lemma add_size_int [simp]: "a + m < SZ \<Longrightarrow> add_size a (int m) = a + m"
  by (simp add: add_size_def flip: of_nat_add of_nat_mod)

lemma pump_loop_ok:
  assumes E: "moves_all E src dst feed sink" and b: "0 < buffsz" "buffsz < 2 ^ 31"
  shows "length (feed w) < fuel \<Longrightarrow> bytes_read ret + length (feed w) < SZ \<Longrightarrow> bytes_written ret + length (feed w) < SZ \<Longrightarrow>
    \<exists>w'. pump_loop fuel (Suc (Suc wfuel)) E src dst buffsz ret w =
      Inr (ret\<lparr>bytes_read := bytes_read ret + length (feed w), bytes_written := bytes_written ret + length (feed w)\<rparr>, w') \<and>
    feed w' = [] \<and> sink w' = sink w @ feed w"
proof (induction fuel arbitrary: ret w)
  case 0
  then show ?case by simp
next
  case (Suc fuel)
  obtain n bs again w1 where rd: "io_read E src buffsz w = (n, bs, again, w1)" by (metis prod_cases4)
  then have 1: "n = int (length bs)" "length bs \<le> buffsz" "feed w = bs @ feed w1" "bs = [] \<longrightarrow> feed w = []" "sink w1 = sink w"
    using E b unfolding moves_all_def by blast+
  show ?case
  proof (cases "bs = []")
    case True
    then show ?thesis using rd 1 by (intro exI [of _ w1]) simp
  next
    case False
    obtain w2 where w2: "try_write (Suc (Suc wfuel)) E dst bs (length bs) w1 = Inr (int (length bs), w2)"
      "feed w2 = feed w1" "sink w2 = sink w1 @ bs"
      using try_write_whole [OF E False, of wfuel w1] 1(2) b(2) by auto
    let ?r = "ret\<lparr>bytes_read := bytes_read ret + length bs, bytes_written := bytes_written ret + length bs\<rparr>"
    have len: "length (feed w) = length bs + length (feed w2)" using 1(3) w2(2) by simp
    have "length (feed w2) < fuel" using Suc.prems(1) len False by (cases bs) auto
    moreover have "bytes_read ?r + length (feed w2) < SZ" "bytes_written ?r + length (feed w2) < SZ"
      using Suc.prems(2,3) len by simp_all
    ultimately obtain w3 where w3: "pump_loop fuel (Suc (Suc wfuel)) E src dst buffsz ?r w2 =
        Inr (?r\<lparr>bytes_read := bytes_read ?r + length (feed w2), bytes_written := bytes_written ?r + length (feed w2)\<rparr>, w3)"
      "feed w3 = []" "sink w3 = sink w2 @ feed w2"
      using Suc.IH [of w2 ?r] by blast
    have "pump_loop (Suc fuel) (Suc (Suc wfuel)) E src dst buffsz ret w =
      pump_loop fuel (Suc (Suc wfuel)) E src dst buffsz ?r w2"
      using rd w2(1) 1(1) False Suc.prems(2,3) len by (simp add: Let_def)
    then show ?thesis using w3 w2 1 by (intro exI [of _ w3]) (simp add: add.assoc)
  qed
qed

section \<open>The properties of the component\<close>

text \<open>C24: 
  \<open>try_write\<close> ends on every descriptor whose writes make progress or fail, hands it exactly a prefix of the buffer,
  and returns \<open>-1\<close> exactly when bytes are missing.
\<close>

theorem try_write_correct:
  assumes "write_ok E fd sink" "length src < 2 ^ 31" "11 * length src + 10 < fuel"
  shows "\<exists>r w' k. try_write fuel E fd src (length src) w = Inr (r, w') \<and> sink w' = sink w @ take k src \<and>
    (k < length src \<and> r = -1 \<or> k = length src \<and> 0 \<le> r \<and> r \<le> int k)"
  using try_write_ok [OF assms] .

text \<open>A descriptor that takes at most five bytes at a time and counts what it has received.\<close>

definition five_env :: "byte list io_env" where
  "five_env = \<lparr>io_write = \<lambda>fd bs w. (int (min 5 (length bs)), False, w @ take 5 bs),
     io_read = \<lambda>fd cap w. (int (min 5 cap), replicate (min 5 cap) 7, False, w),
     io_poll = \<lambda>fd ev t w. (0, 0, w)\<rparr>"

lemma five_env_ok: "write_ok five_env fd (\<lambda>w. w)"
  by (auto simp: write_ok_def five_env_def min_def)

definition eight :: "byte list" where
  "eight = [1, 2, 3, 4, 5, 6, 7, 8]"

lemma length_eight: "length eight = 8"
  by (simp add: eight_def)

theorem try_write_witness:
  "\<exists>r w' k. try_write 99 five_env 1 eight 8 [] = Inr (r, w') \<and> w' = take k eight \<and>
     (k < 8 \<and> r = -1 \<or> k = 8 \<and> 0 \<le> r \<and> r \<le> int k)"
  using try_write_correct [OF five_env_ok, of eight 99 1 "[]"] by (simp add: length_eight)

text \<open>
  The header promises the number of bytes written; after a partial write only the size of the last piece is
  returned. Eight bytes written as five and three count as three.
\<close>

theorem try_write_underreports:
  "try_write 99 five_env 1 [1, 2, 3, 4, 5, 6, 7, 8] 8 [] = Inr (3, [1, 2, 3, 4, 5, 6, 7, 8])"
  by code_simp

text \<open>
  \<open>try_read\<close> asks for the whole buffer size in every round but moves on in the buffer: after a short read, a read of
  more than the rest stores past the end. At the end of the file it never returns, whatever the fuel.
\<close>

theorem try_read_partial_fails:
  assumes "0 < src" "buffsz < 2 ^ 31" "length buff = buffsz"
    and "io_read E src buffsz w = (int j, bs, g, w1)" "length bs = j" "0 < j" "j < buffsz"
    and "io_read E src buffsz w1 = (int k, cs, h, w2)" "length cs = k" "buffsz - j < k"
    and "io_read E' src buffsz w = (0, [], g', w)"
  shows "try_read (Suc (Suc fuel)) E src buff buffsz w = Inl WildDeref \<and>
    try_read fuel' E' src buff buffsz w = Inl OutOfFuel"
proof
  show "try_read (Suc (Suc fuel)) E src buff buffsz w = Inl WildDeref"
  proof -
    have "\<not> j + k \<le> buffsz" using assms(7,10) by linarith
    then show ?thesis using assms by (simp add: try_read_def int_of_size max_tries_def store_bytes_def)
  qed
  have "try_read_loop fuel' E' src buff 0 buffsz (int buffsz) 0 n w = Inl OutOfFuel" for n
    using assms(6,7,11) by (induction fuel' arbitrary: n) (simp_all add: max_tries_def store_bytes_def)
  then show "try_read fuel' E' src buff buffsz w = Inl OutOfFuel"
    using assms by (simp add: try_read_def int_of_size)
qed

definition eof_env :: "byte list io_env" where
  "eof_env = \<lparr>io_write = \<lambda>fd bs w. (-1, False, w), io_read = \<lambda>fd cap w. (0, [], False, w), io_poll = \<lambda>fd ev t w. (0, 0, w)\<rparr>"

theorem try_read_partial_witness:
  "try_read 2 five_env 3 (replicate 8 0) 8 [] = Inl WildDeref \<and> try_read 100 eof_env 3 (replicate 8 0) 8 [] = Inl OutOfFuel"
proof -
  have "io_read five_env 3 8 [] = (int 5, replicate 5 7, False, [])" "io_read eof_env 3 8 [] = (0, [], False, [])"
    by (simp_all add: five_env_def eof_env_def)
  from try_read_partial_fails [of 3 8 "replicate 8 0", OF _ _ _ this(1) _ _ _ this(1) _ _ this(2), of 0 100]
  show ?thesis by (simp flip: numeral_2_eq_2)
qed

text \<open>\<open>pump\<close> moves everything up to the end of the file, in order, and counts it on both sides.\<close>

theorem pump_correct:
  assumes "moves_all E src dst feed sink" "0 < buffsz" "buffsz < 2 ^ 31" "length (feed w) < fuel" "length (feed w) < SZ"
  shows "\<exists>w'. pump fuel (Suc (Suc wfuel)) E src dst buffsz w =
      Inr (\<lparr>bytes_read = length (feed w), bytes_written = length (feed w)\<rparr>, w') \<and>
    feed w' = [] \<and> sink w' = sink w @ feed w"
  using pump_loop_ok [OF assms(1-4), of "\<lparr>bytes_read = 0, bytes_written = 0\<rparr>" wfuel] assms(5) by (auto simp: pump_def)

definition pipe_env :: "(byte list \<times> byte list) io_env" where
  "pipe_env = \<lparr>io_write = \<lambda>fd bs (i, s). (int (length bs), False, i, s @ bs),
     io_read = \<lambda>fd cap (i, s). (int (min cap (length i)), take cap i, False, drop cap i, s), io_poll = \<lambda>fd ev t w. (0, 0, w)\<rparr>"

theorem pump_witness:
  "\<exists>w'. pump 9 2 pipe_env 3 4 2 ([1, 2, 3, 4, 5], [9]) = Inr (\<lparr>bytes_read = 5, bytes_written = 5\<rparr>, w') \<and>
     fst w' = [] \<and> snd w' = [9, 1, 2, 3, 4, 5]"
proof -
  have "moves_all pipe_env 3 4 fst snd" by (auto simp: moves_all_def pipe_env_def)
  from pump_correct [OF this, of 2 "([1, 2, 3, 4, 5], [9])" 9 0] show ?thesis by (simp add: SZ_num flip: numeral_2_eq_2)
qed

end
