(* ===== verification/Event.thy ===== *)
theory Event
  imports Dllist Staq Timeutils Ioutils
begin

text \<open>
  The event pump of \<open>src/misc/event.c\<close> and its interface to Linux in \<open>src/misc/linux-event.c\<close>: timers in a queue sorted
  by deadline, descriptor events queued by epoll, user events queued by any publisher. Queue nodes are embedded in
  their containers: the links of the timers live in \<open>tlinks\<close> and the other members in \<open>tevs\<close> under the same address,
  and likewise for descriptor and user events. Kernel calls are the functions of \<open>event_env\<close> on the world \<open>'w\<close>,
  callbacks the functions of \<open>callbacks\<close> on the whole state: a callback may use any operation of the pump.
  Loops that run callbacks or follow links take fuel.
\<close>

section \<open>Data\<close>

record timer_event =
  tev_registered :: bool
  tev_tspec :: timespec
  tev_cb :: ptr
  tev_priv :: ptr

record fd_event =
  fde_registered :: bool
  fde_fd :: int
  fde_evmask :: "32 word"
  fde_revents :: "32 word"
  fde_cb :: ptr
  fde_priv :: ptr

record user_event =
  ue_event_type :: "32 word"
  ue_data :: ptr

record user_event_watch =
  uw_priv :: ptr
  uw_cb :: ptr
  uw_event_type :: "32 word"
  uw_registered :: bool

definition MAX_USER_EVENT_TYPE_VALUE :: nat where
  "MAX_USER_EVENT_TYPE_VALUE = 30"

definition FD_EVENT_READABLE :: "32 word" where "FD_EVENT_READABLE = 1"
definition FD_EVENT_WRITABLE :: "32 word" where "FD_EVENT_WRITABLE = 2"
definition FD_EVENT_ERROR :: "32 word" where "FD_EVENT_ERROR = 4"
definition FD_EVENT_EDGE_TRIGGERED :: "32 word" where "FD_EVENT_EDGE_TRIGGERED = 8"
definition FD_NONBLOCKING :: "32 word" where "FD_NONBLOCKING = 16"

text \<open>
  \<open>sem\<close> and \<open>timerfd\<close> are members of the handle; their addresses are known to epoll, so they live in the store of
  descriptor events. \<open>osapi\<close> holds the epoll descriptor, \<open>None\<close> is the null pointer.
\<close>

record evp_handle =
  timers :: dllist
  evq :: dllist
  sem :: addr
  timerfd :: addr
  uevq :: staq
  uev_mtx :: bool
  watch :: "ptr list"
  osapi :: "int option"

record 'w evp = evp_handle +
  tlinks :: "dlnode store"
  tevs :: "timer_event store"
  flinks :: "dlnode store"
  fdevs :: "fd_event store"
  ulinks :: "staqnode store"
  uevs :: "user_event store"
  watches :: "user_event_watch store"
  world :: 'w

datatype epoll_op = EPOLL_CTL_ADD | EPOLL_CTL_MOD | EPOLL_CTL_DEL

datatype mutex_op = AttrInit | AttrSettype | MutexInit | AttrDestroy | MutexDestroy

record 'w event_env =
  ev_io :: "'w io_env"
  ev_clock :: "'w \<Rightarrow> timespec \<times> 'w"
  ev_epoll_create :: "'w \<Rightarrow> int \<times> 'w"
  ev_epoll_ctl :: "int \<Rightarrow> epoll_op \<Rightarrow> int \<Rightarrow> 32 word \<Rightarrow> ptr \<Rightarrow> 'w \<Rightarrow> int \<times> 'w"
  ev_epoll_wait :: "int \<Rightarrow> nat \<Rightarrow> 'w \<Rightarrow> int \<times> (32 word \<times> ptr) list \<times> 'w"
  ev_eventfd :: "'w \<Rightarrow> int \<times> 'w"
  ev_timerfd_create :: "'w \<Rightarrow> int \<times> 'w"
  ev_timerfd_settime :: "int \<Rightarrow> timespec \<Rightarrow> 'w \<Rightarrow> int \<times> 'w"
  ev_pthread :: "mutex_op \<Rightarrow> 'w \<Rightarrow> int \<times> 'w"
  ev_set_nonblock :: "int \<Rightarrow> 'w \<Rightarrow> 'w"
  ev_close :: "int \<Rightarrow> 'w \<Rightarrow> 'w"
  ev_past :: "'w \<Rightarrow> 'w \<Rightarrow> int \<Rightarrow> bool \<times> 'w"

record 'w callbacks =
  call_timer :: "addr \<Rightarrow> addr \<Rightarrow> ptr \<Rightarrow> 'w evp \<Rightarrow> 'w evp res"
  call_fd :: "addr \<Rightarrow> addr \<Rightarrow> int \<Rightarrow> 32 word \<Rightarrow> ptr \<Rightarrow> 'w evp \<Rightarrow> 'w evp res"
  call_user :: "addr \<Rightarrow> addr \<Rightarrow> 32 word \<Rightarrow> ptr \<Rightarrow> ptr \<Rightarrow> 'w evp \<Rightarrow> 'w evp res"

section \<open>Epoll\<close>

definition MAX_EPOLL_BATCH :: nat where
  "MAX_EPOLL_BATCH = 50"

definition EPOLLIN :: "32 word" where "EPOLLIN = 1"
definition EPOLLOUT :: "32 word" where "EPOLLOUT = 4"
definition EPOLLERR :: "32 word" where "EPOLLERR = 8"
definition EPOLLHUP :: "32 word" where "EPOLLHUP = 16"
definition EPOLLRDHUP :: "32 word" where "EPOLLRDHUP = 0x2000"
definition EPOLLET :: "32 word" where "EPOLLET = 0x80000000"

unbundle bit_operations_syntax

definition has_flag :: "32 word \<Rightarrow> 32 word \<Rightarrow> bool" where
  "has_flag m f \<longleftrightarrow> m AND f \<noteq> 0"

definition get_os_api_handle :: "'w event_env \<Rightarrow> 'w \<Rightarrow> int option \<times> 'w" where
  "get_os_api_handle E w = (let (rc, w) = ev_epoll_create E w in if rc < 0 then (None, w) else (Some rc, w))"

definition destroy_os_api_handle :: "'w event_env \<Rightarrow> int option \<Rightarrow> 'w \<Rightarrow> 'w" where
  "destroy_os_api_handle E api w = (case api of None \<Rightarrow> w | Some h \<Rightarrow> ev_close E h w)"

definition epoll_mask :: "32 word \<Rightarrow> 32 word" where
  "epoll_mask evmask =
     (let mask = 0;
          mask = (if has_flag evmask FD_EVENT_READABLE then mask OR (EPOLLIN OR EPOLLRDHUP) else mask);
          mask = (if has_flag evmask FD_EVENT_WRITABLE then mask OR EPOLLOUT else mask)
      in if has_flag evmask FD_EVENT_EDGE_TRIGGERED then mask OR EPOLLET else mask)"

definition load_api :: "int option \<Rightarrow> int res" where
  "load_api api = (case api of None \<Rightarrow> Inl NullDeref | Some h \<Rightarrow> Inr h)"

definition add_fd_event_monitor :: "'w event_env \<Rightarrow> ptr \<Rightarrow> 'w evp \<Rightarrow> (int \<times> 'w evp) res" where
  "add_fd_event_monitor E fdev st =
     bindE (assertE (fdev \<noteq> NULL)) (\<lambda>_.
     bindE (load (fdevs st) fdev) (\<lambda>f.
     bindE (assertE (fde_fd f \<ge> 0)) (\<lambda>_.
     bindE (load_api (osapi st)) (\<lambda>epollfd.
     let (rc, w) = ev_epoll_ctl E epollfd (if fde_registered f then EPOLL_CTL_MOD else EPOLL_CTL_ADD)
                     (fde_fd f) (epoll_mask (fde_evmask f)) fdev (world st)
     in Inr (if rc < 0 then -1 else 0, st\<lparr>world := w\<rparr>)))))"

definition remove_fd_event_monitor :: "'w event_env \<Rightarrow> ptr \<Rightarrow> 'w evp \<Rightarrow> (int \<times> 'w evp) res" where
  "remove_fd_event_monitor E fdev st =
     bindE (assertE (osapi st \<noteq> None)) (\<lambda>_.
     bindE (assertE (fdev \<noteq> NULL)) (\<lambda>_.
     bindE (load (fdevs st) fdev) (\<lambda>f.
     bindE (load_api (osapi st)) (\<lambda>epollfd.
     let (rc, w) = ev_epoll_ctl E epollfd EPOLL_CTL_DEL (fde_fd f) 0 NULL (world st)
     in Inr (0, st\<lparr>world := w\<rparr>)))))"

definition translate_events :: "32 word \<Rightarrow> 32 word" where
  "translate_events events =
     (let revents = 0;
          revents = (if has_flag events EPOLLIN then revents OR FD_EVENT_READABLE else revents);
          revents = (if has_flag events EPOLLRDHUP then revents OR FD_EVENT_READABLE else revents);
          revents = (if has_flag events EPOLLOUT then revents OR FD_EVENT_WRITABLE else revents);
          revents = (if has_flag events EPOLLERR then revents OR FD_EVENT_ERROR else revents)
      in if has_flag events EPOLLHUP then revents OR FD_EVENT_ERROR else revents)"

text \<open>
  The loop over the batch: \<open>i\<close> counts the rounds, \<open>ev\<close> is the index of the entry read in this round; the entries
  behind the ones the kernel has filled are uninitialised.
\<close>

definition push_os_event :: "32 word \<times> ptr \<Rightarrow> 'w evp \<Rightarrow> 'w evp res" where
  "push_os_event e st =
     bindE (update (fdevs st) (snd e) (\<lambda>f. f\<lparr>fde_revents := translate_events (fst e)\<rparr>)) (\<lambda>fs.
     bindE (Dll_push_back (flinks st) (evq st) (snd e)) (\<lambda>(s, l).
     Inr (st\<lparr>fdevs := fs, flinks := s, evq := l\<rparr>)))"

function pump_loop_os :: "(32 word \<times> ptr) list \<Rightarrow> nat \<Rightarrow> nat \<Rightarrow> nat \<Rightarrow> 'w evp \<Rightarrow> 'w evp res" where
  "pump_loop_os buff rc i ev st =
     (if i < rc
      then if ev < length buff
        then bindE (push_os_event (buff ! ev) st) (\<lambda>st. pump_loop_os buff rc (i + 1) (ev + (i + 1)) st)
        else Inl Uninit
      else Inr st)"
  by pat_completeness auto
termination
  by (relation "measure (\<lambda>(buff, rc, i, ev, st). rc - i)") auto

declare pump_loop_os.simps [simp del]

definition pump_os_events :: "'w event_env \<Rightarrow> 'w evp \<Rightarrow> (int \<times> 'w evp) res" where
  "pump_os_events E st =
     bindE (load_api (osapi st)) (\<lambda>epollfd.
     let (rc, buff, w) = ev_epoll_wait E epollfd MAX_EPOLL_BATCH (world st);
         st = st\<lparr>world := w\<rparr>
     in if rc < 0 then Inr (-1, st)
        else bindE (pump_loop_os buff (nat rc) 0 0 st) (\<lambda>st. Inr (0, st)))"

section \<open>Timers\<close>

definition Evp_set_timer_interval_secs :: "32 word \<Rightarrow> timer_event \<Rightarrow> timer_event" where
  "Evp_set_timer_interval_secs seconds tev = tev\<lparr>tev_tspec := \<lparr>tv_sec = ucast seconds, tv_nsec = 0\<rparr>\<rparr>"

definition Evp_set_timer_interval_ms :: "32 word \<Rightarrow> timer_event \<Rightarrow> timer_event" where
  "Evp_set_timer_interval_ms milliseconds tev = tev\<lparr>tev_tspec :=
     \<lparr>tv_sec = ucast (milliseconds div MSECS_PER_SEC), tv_nsec = ucast ((milliseconds mod MSECS_PER_SEC) * NSECS_PER_MSEC)\<rparr>\<rparr>"

definition Evp_set_timer_interval_us :: "32 word \<Rightarrow> timer_event \<Rightarrow> timer_event" where
  "Evp_set_timer_interval_us microseconds tev = tev\<lparr>tev_tspec :=
     \<lparr>tv_sec = ucast (microseconds div USECS_PER_SEC), tv_nsec = ucast ((microseconds mod USECS_PER_SEC) * NSECS_PER_USEC)\<rparr>\<rparr>"

definition Evp_set_timer_interval_fromtimespec :: "timespec \<Rightarrow> timer_event \<Rightarrow> timer_event" where
  "Evp_set_timer_interval_fromtimespec tspec tev = tev\<lparr>tev_tspec := \<lparr>tv_sec = tv_sec tspec, tv_nsec = tv_nsec tspec\<rparr>\<rparr>"

definition initialize_tev :: "ptr \<Rightarrow> ptr \<Rightarrow> timer_event \<Rightarrow> timer_event" where
  "initialize_tev cb priv tev = tev\<lparr>tev_priv := priv, tev_cb := cb, tev_registered := False\<rparr>"

definition Evp_init_timer_secs :: "32 word \<Rightarrow> ptr \<Rightarrow> ptr \<Rightarrow> timer_event \<Rightarrow> timer_event" where
  "Evp_init_timer_secs seconds cb priv tev = initialize_tev cb priv (Evp_set_timer_interval_secs seconds tev)"

definition Evp_init_timer_ms :: "32 word \<Rightarrow> ptr \<Rightarrow> ptr \<Rightarrow> timer_event \<Rightarrow> timer_event" where
  "Evp_init_timer_ms milliseconds cb priv tev = initialize_tev cb priv (Evp_set_timer_interval_ms milliseconds tev)"

definition Evp_init_timer_us :: "32 word \<Rightarrow> ptr \<Rightarrow> ptr \<Rightarrow> timer_event \<Rightarrow> timer_event" where
  "Evp_init_timer_us microseconds cb priv tev = initialize_tev cb priv (Evp_set_timer_interval_us microseconds tev)"

definition Evp_init_timer_fromtimespec :: "timespec \<Rightarrow> ptr \<Rightarrow> ptr \<Rightarrow> timer_event \<Rightarrow> timer_event" where
  "Evp_init_timer_fromtimespec tspec cb priv tev = initialize_tev cb priv (Evp_set_timer_interval_fromtimespec tspec tev)"

definition EVP_DEFAULT_WAIT_TIME_SECS :: "64 word" where
  "EVP_DEFAULT_WAIT_TIME_SECS = 36000"

definition pick_shortest_wait_time :: "'w event_env \<Rightarrow> 'w evp \<Rightarrow> (timespec \<times> 'w evp) res" where
  "pick_shortest_wait_time E st =
     (if Dll_empty (timers st)
      then let (now, w) = ev_clock E (world st)
           in Inr (now\<lparr>tv_sec := tv_sec now + EVP_DEFAULT_WAIT_TIME_SECS\<rparr>, st\<lparr>world := w\<rparr>)
      else bindE (load (tevs st) (Dll_peek_front (timers st))) (\<lambda>tev. Inr (tev_tspec tev, st)))"

definition wake_on_first_timer :: "'w event_env \<Rightarrow> 'w evp \<Rightarrow> (int \<times> 'w evp) res" where
  "wake_on_first_timer E st =
     bindE (pick_shortest_wait_time E st) (\<lambda>(it_value, st).
     bindE (assertE (sint (tv_nsec it_value) < 999999999)) (\<lambda>_.
     bindE (load (fdevs st) (Some (timerfd st))) (\<lambda>f.
     let (rc, w) = ev_timerfd_settime E (fde_fd f) it_value (world st)
     in Inr (if rc \<noteq> 0 then rc else error_num ERRORCODE_SUCCESS, st\<lparr>world := w\<rparr>))))"

definition elapsed :: "timespec \<Rightarrow> timespec \<Rightarrow> bool" where
  "elapsed ts reference \<longleftrightarrow> \<not> gt ts reference timespec_cmp"

definition timer_duration_to_timepoint :: "'w event_env \<Rightarrow> ptr \<Rightarrow> 'w evp \<Rightarrow> (ErrorCode \<times> 'w evp) res" where
  "timer_duration_to_timepoint E tev st =
     bindE (assertE (tev \<noteq> NULL)) (\<lambda>_.
     bindE (load (tevs st) tev) (\<lambda>t.
     let seconds_before = tv_sec (tev_tspec t);
         (now, w) = ev_clock E (world st);
         sum = timespec_add now (tev_tspec t)
     in bindE (update (tevs st) tev (\<lambda>t. t\<lparr>tev_tspec := sum\<rparr>)) (\<lambda>ts.
        let st = st\<lparr>tevs := ts, world := w\<rparr>
        in Inr (if sint (tv_sec sum) < sint seconds_before then ERROR_OUTOFBOUNDS else ERRORCODE_SUCCESS, st))))"

definition set_registered :: "ptr \<Rightarrow> bool \<Rightarrow> 'w evp \<Rightarrow> 'w evp res" where
  "set_registered tev b st =
     bindE (update (tevs st) tev (\<lambda>t. t\<lparr>tev_registered := b\<rparr>)) (\<lambda>ts. Inr (st\<lparr>tevs := ts\<rparr>))"

fun register_loop :: "nat \<Rightarrow> ptr \<Rightarrow> ptr \<Rightarrow> ptr \<Rightarrow> 'w evp \<Rightarrow> 'w evp res" where
  "register_loop 0 tev tmp tmp_next st = Inl OutOfFuel"
| "register_loop (Suc fuel) tev tmp tmp_next st =
     (case tmp of
        None \<Rightarrow>
          bindE (Dll_push_back (tlinks st) (timers st) tev) (\<lambda>(s, l).
          set_registered tev True (st\<lparr>tlinks := s, timers := l\<rparr>))
      | Some i \<Rightarrow>
          bindE (load (tevs st) tmp) (\<lambda>timer.
          bindE (load (tevs st) tev) (\<lambda>t.
          if gt (tev_tspec timer) (tev_tspec t) timespec_cmp
          then bindE (Dll_put_node_before (tlinks st) (timers st) tmp tev) (\<lambda>(s, l).
               set_registered tev True (st\<lparr>tlinks := s, timers := l\<rparr>))
          else bindE (peek_next (tlinks st) tmp_next) (\<lambda>nn. register_loop fuel tev tmp_next nn st))))"

definition Evp_register_timer :: "nat \<Rightarrow> 'w event_env \<Rightarrow> ptr \<Rightarrow> 'w evp \<Rightarrow> (ErrorCode \<times> 'w evp) res" where
  "Evp_register_timer fuel E tev st =
     bindE (assertE (tev \<noteq> NULL)) (\<lambda>_.
     bindE (load (tevs st) tev) (\<lambda>t.
     bindE (assertE (tev_cb t \<noteq> NULL)) (\<lambda>_.
     if tev_registered t then Inr (ERROR_INVALIDVALUE, st)
     else bindE (timer_duration_to_timepoint E tev st) (\<lambda>(rc, st).
       if rc \<noteq> ERRORCODE_SUCCESS then Inr (rc, st)
       else if Dll_empty (timers st)
       then bindE (Dll_push_front (tlinks st) (timers st) tev) (\<lambda>(s, l).
            bindE (set_registered tev True (st\<lparr>tlinks := s, timers := l\<rparr>)) (\<lambda>st. Inr (ERRORCODE_SUCCESS, st)))
       else bindE (peek_next (tlinks st) (dl_front (timers st))) (\<lambda>nn.
            bindE (register_loop fuel tev (dl_front (timers st)) nn st) (\<lambda>st. Inr (ERRORCODE_SUCCESS, st)))))))"

definition Evp_unregister_timer :: "ptr \<Rightarrow> 'w evp \<Rightarrow> 'w evp res" where
  "Evp_unregister_timer tev st =
     bindE (assertE (tev \<noteq> NULL)) (\<lambda>_.
     bindE (load (tevs st) tev) (\<lambda>t.
     if tev_registered t
     then bindE (Dll_pop_node (tlinks st) (timers st) tev) (\<lambda>(s, l).
          set_registered tev False (st\<lparr>tlinks := s, timers := l\<rparr>))
     else Inr st))"

section \<open>Descriptor monitors\<close>

definition Evp_init_fdmon :: "'w event_env \<Rightarrow> int \<Rightarrow> 32 word \<Rightarrow> ptr \<Rightarrow> ptr \<Rightarrow> fd_event \<Rightarrow> 'w \<Rightarrow> (ErrorCode \<times> fd_event \<times> 'w) res" where
  "Evp_init_fdmon E fd flags cb priv fdev w =
     bindE (assertE (cb \<noteq> NULL)) (\<lambda>_.
     if fd < 0 then Inr (ERROR_INVALIDVALUE, fdev, w)
     else if \<not> (has_flag flags FD_EVENT_READABLE \<or> has_flag flags FD_EVENT_WRITABLE) then Inr (ERROR_INVALIDVALUE, fdev, w)
     else let w = (if has_flag (fde_evmask fdev) FD_NONBLOCKING then ev_set_nonblock E fd w else w)
          in Inr (ERRORCODE_SUCCESS,
               fdev\<lparr>fde_cb := cb, fde_evmask := flags, fde_fd := fd, fde_priv := priv, fde_registered := False\<rparr>, w))"

definition Evp_register_fdmon :: "'w event_env \<Rightarrow> ptr \<Rightarrow> 'w evp \<Rightarrow> (int \<times> 'w evp) res" where
  "Evp_register_fdmon E fdev st =
     bindE (assertE (fdev \<noteq> NULL)) (\<lambda>_.
     bindE (load (fdevs st) fdev) (\<lambda>f.
     bindE (assertE (fde_cb f \<noteq> NULL)) (\<lambda>_.
     bindE (assertE (fde_fd f \<ge> 0)) (\<lambda>_.
     bindE (assertE (has_flag (fde_evmask f) FD_EVENT_READABLE \<or> has_flag (fde_evmask f) FD_EVENT_WRITABLE)) (\<lambda>_.
     if fde_registered f then Inr (error_num ERROR_INVALIDVALUE, st)
     else bindE (add_fd_event_monitor E fdev st) (\<lambda>(rc, st).
       if rc = 0
       then bindE (update (fdevs st) fdev (\<lambda>f. f\<lparr>fde_registered := True\<rparr>)) (\<lambda>fs. Inr (rc, st\<lparr>fdevs := fs\<rparr>))
       else Inr (rc, st)))))))"

definition Evp_unregister_fdmon :: "'w event_env \<Rightarrow> ptr \<Rightarrow> 'w evp \<Rightarrow> 'w evp res" where
  "Evp_unregister_fdmon E fdev st =
     bindE (assertE (fdev \<noteq> NULL)) (\<lambda>_.
     bindE (load (fdevs st) fdev) (\<lambda>f.
     if fde_registered f
     then bindE (update (fdevs st) fdev (\<lambda>f. f\<lparr>fde_registered := False\<rparr>)) (\<lambda>fs.
          bindE (remove_fd_event_monitor E fdev (st\<lparr>fdevs := fs\<rparr>)) (\<lambda>(rc, st). Inr st))
     else Inr st))"

section \<open>User events\<close>

text \<open>The mutex checks for errors: locking it twice or unlocking it when it is free ends the process.\<close>

definition lock_mutex :: "'w evp \<Rightarrow> 'w evp res" where
  "lock_mutex st = bindE (throw_on (uev_mtx st) ERROR_RUNTIMEERROR) (\<lambda>_. Inr (st\<lparr>uev_mtx := True\<rparr>))"

definition unlock_mutex :: "'w evp \<Rightarrow> 'w evp res" where
  "unlock_mutex st = bindE (throw_on (\<not> uev_mtx st) ERROR_RUNTIMEERROR) (\<lambda>_. Inr (st\<lparr>uev_mtx := False\<rparr>))"

definition Evp_init_uev_watch :: "32 word \<Rightarrow> ptr \<Rightarrow> ptr \<Rightarrow> user_event_watch \<Rightarrow> (ErrorCode \<times> user_event_watch) res" where
  "Evp_init_uev_watch event_type cb priv uev =
     bindE (assertE (cb \<noteq> NULL)) (\<lambda>_.
     if unat event_type \<ge> MAX_USER_EVENT_TYPE_VALUE then Inr (ERROR_OUTOFBOUNDS, uev)
     else Inr (ERRORCODE_SUCCESS, uev\<lparr>uw_cb := cb, uw_priv := priv, uw_event_type := event_type, uw_registered := False\<rparr>))"

definition Evp_register_uev_watch :: "ptr \<Rightarrow> 'w evp \<Rightarrow> (ErrorCode \<times> 'w evp) res" where
  "Evp_register_uev_watch uev st =
     bindE (assertE (uev \<noteq> NULL)) (\<lambda>_.
     bindE (load (watches st) uev) (\<lambda>u.
     bindE (assertE (uw_cb u \<noteq> NULL)) (\<lambda>_.
     bindE (assertE (unat (uw_event_type u) < MAX_USER_EVENT_TYPE_VALUE)) (\<lambda>_.
     if uw_registered u then Inr (ERROR_INVALIDVALUE, st)
     else if uw_event_type u \<noteq> 0 then Inr (ERROR_CONFLICT, st)
     else bindE (update (watches st) uev (\<lambda>u. u\<lparr>uw_registered := True\<rparr>)) (\<lambda>ws.
          Inr (ERRORCODE_SUCCESS, st\<lparr>watch := (watch st)[unat (uw_event_type u) := uev], watches := ws\<rparr>))))))"

definition Evp_unregister_uev_watch :: "ptr \<Rightarrow> 'w evp \<Rightarrow> 'w evp res" where
  "Evp_unregister_uev_watch uev st =
     bindE (assertE (uev \<noteq> NULL)) (\<lambda>_.
     bindE (load (watches st) uev) (\<lambda>u.
     if unat (uw_event_type u) \<ge> MAX_USER_EVENT_TYPE_VALUE then Inr st
     else if \<not> uw_registered u then Inr st
     else bindE (update (watches st) uev (\<lambda>u. u\<lparr>uw_registered := False\<rparr>)) (\<lambda>ws.
          Inr (st\<lparr>watch := (watch st)[unat (uw_event_type u) := NULL], watches := ws\<rparr>))))"

text \<open>Eight bytes are written, which \<open>98\<close> rounds of \<open>try_write\<close> are enough for (\<open>try_write_ok\<close>).\<close>

definition one_as_bytes :: "byte list" where
  "one_as_bytes = [1, 0, 0, 0, 0, 0, 0, 0]"

definition notify_event_pushlished :: "'w event_env \<Rightarrow> 'w evp \<Rightarrow> (ErrorCode \<times> 'w evp) res" where
  "notify_event_pushlished E st =
     bindE (load (fdevs st) (Some (sem st))) (\<lambda>f.
     bindE (try_write 99 (ev_io E) (fde_fd f) one_as_bytes 8 (world st)) (\<lambda>(n, w).
     Inr (if n \<noteq> 8 then ERROR_WRITE else ERRORCODE_SUCCESS, st\<lparr>world := w\<rparr>)))"

text \<open>\<open>a\<close> is the address of the new event.\<close>

definition Evp_push_uev :: "'w event_env \<Rightarrow> addr \<Rightarrow> 32 word \<Rightarrow> ptr \<Rightarrow> 'w evp \<Rightarrow> (ErrorCode \<times> 'w evp) res" where
  "Evp_push_uev E a event_type data st =
     (if unat event_type \<ge> MAX_USER_EVENT_TYPE_VALUE then Inr (ERROR_OUTOFBOUNDS, st)
      else let st = st\<lparr>ulinks := (ulinks st)(a \<mapsto> \<lparr>sq_next = NULL\<rparr>),
                       uevs := (uevs st)(a \<mapsto> \<lparr>ue_event_type = event_type, ue_data = data\<rparr>)\<rparr>
        in bindE (lock_mutex st) (\<lambda>st.
           bindE (Staq_pushback (ulinks st) (uevq st) (Some a)) (\<lambda>(s, q).
           bindE (unlock_mutex (st\<lparr>ulinks := s, uevq := q\<rparr>)) (\<lambda>st.
           notify_event_pushlished E st))))"

end
