(* ===== verification/Event_Pump.thy ===== *)
theory Event_Pump
  imports Event
begin

text \<open>
  The main loop of the event pump: creation and destruction of a handle, the dispatch of everything that is queued,
  and the run that waits, collects and dispatches until its time is over (\<open>src/misc/event.c\<close>).
\<close>

section \<open>Dispatching\<close>

text \<open>The front of the queue is read anew in every round, as a callback may have removed any timer.\<close>

fun dispatch_timers :: "nat \<Rightarrow> 'w callbacks \<Rightarrow> timespec \<Rightarrow> 32 word \<Rightarrow> 'w evp \<Rightarrow> (32 word \<times> 'w evp) res" where
  "dispatch_timers 0 C now num_handled st = Inl OutOfFuel"
| "dispatch_timers (Suc fuel) C now num_handled st =
     (if Dll_empty (timers st) then Inr (num_handled, st)
      else let tev = Dll_peek_front (timers st) in
        bindE (load (tevs st) tev) (\<lambda>t.
        if \<not> elapsed (tev_tspec t) now then Inr (num_handled, st)
        else bindE (Dll_pop_node (tlinks st) (timers st) tev) (\<lambda>(s, l).
          bindE (assertE (tev_cb t \<noteq> NULL)) (\<lambda>_.
          bindE (set_registered tev False (st\<lparr>tlinks := s, timers := l\<rparr>)) (\<lambda>st.
          bindE (call_timer C (the (tev_cb t)) (the tev) (tev_priv t) st) (\<lambda>st.
          dispatch_timers fuel C now (num_handled + 1) st))))))"

fun dispatch_fds :: "nat \<Rightarrow> 'w event_env \<Rightarrow> 'w callbacks \<Rightarrow> 32 word \<Rightarrow> 'w evp \<Rightarrow> (32 word \<times> 'w evp) res" where
  "dispatch_fds 0 E C num_handled st = Inl OutOfFuel"
| "dispatch_fds (Suc fuel) E C num_handled st =
     (if Dll_empty (evq st) then Inr (num_handled, st)
      else let fdev = Dll_peek_front (evq st) in
        bindE (Dll_pop_node (flinks st) (evq st) fdev) (\<lambda>(s, l).
        let st = st\<lparr>flinks := s, evq := l\<rparr> in
        bindE (load (fdevs st) fdev) (\<lambda>f.
        bindE (load (fdevs st) (Some (sem st))) (\<lambda>fs.
        bindE (load (fdevs st) (Some (timerfd st))) (\<lambda>ft.
        if fde_fd f = fde_fd fs \<or> fde_fd f = fde_fd ft
        then let (n, bs, again, w) = io_read (ev_io E) (fde_fd f) 8 (world st)
             in dispatch_fds fuel E C num_handled (st\<lparr>world := w\<rparr>)
        else bindE (assertE (fde_cb f \<noteq> NULL)) (\<lambda>_.
          bindE (call_fd C (the (fde_cb f)) (the fdev) (fde_fd f) (fde_revents f) (fde_priv f) st) (\<lambda>st.
          bindE (update (fdevs st) fdev (\<lambda>f. f\<lparr>fde_revents := 0\<rparr>)) (\<lambda>fs.
          dispatch_fds fuel E C (num_handled + 1) (st\<lparr>fdevs := fs\<rparr>)))))))))"

text \<open>\<open>salloc(0, uev)\<close>: the event and its link are one piece of memory.\<close>

definition free_uev :: "addr \<Rightarrow> 'w evp \<Rightarrow> 'w evp res" where
  "free_uev a st = (case uevs st a of None \<Rightarrow> Inl WildDeref
     | Some _ \<Rightarrow> Inr (st\<lparr>ulinks := (ulinks st)(a := None), uevs := (uevs st)(a := None)\<rparr>))"

definition deliver :: "'w callbacks \<Rightarrow> user_event \<Rightarrow> 32 word \<Rightarrow> 'w evp \<Rightarrow> (32 word \<times> 'w evp) res" where
  "deliver C uev num_handled st =
     bindE (assertE (unat (ue_event_type uev) < MAX_USER_EVENT_TYPE_VALUE)) (\<lambda>_.
     case watch st ! unat (ue_event_type uev) of
       None \<Rightarrow> Inr (num_handled, st)
     | Some wa \<Rightarrow>
         bindE (load (watches st) (Some wa)) (\<lambda>x.
         bindE (assertE (uw_cb x \<noteq> NULL)) (\<lambda>_.
         bindE (assertE (uw_event_type x = ue_event_type uev)) (\<lambda>_.
         bindE (call_user C (the (uw_cb x)) wa (uw_event_type x) (ue_data uev) (uw_priv x) st) (\<lambda>st.
         Inr (num_handled + 1, st))))))"

fun dispatch_uevs :: "nat \<Rightarrow> 'w callbacks \<Rightarrow> 32 word \<Rightarrow> 'w evp \<Rightarrow> (32 word \<times> 'w evp) res" where
  "dispatch_uevs 0 C num_handled st = Inl OutOfFuel"
| "dispatch_uevs (Suc fuel) C num_handled st =
     bindE (lock_mutex st) (\<lambda>st.
     bindE (Staq_popfront (ulinks st) (uevq st)) (\<lambda>(node, s, q).
     bindE (unlock_mutex (st\<lparr>ulinks := s, uevq := q\<rparr>)) (\<lambda>st.
     case node of
       None \<Rightarrow> Inr (num_handled, st)
     | Some a \<Rightarrow>
         bindE (load (uevs st) node) (\<lambda>uev.
         bindE (deliver C uev num_handled st) (\<lambda>(num_handled, st).
         bindE (free_uev a st) (\<lambda>st.
         dispatch_uevs fuel C num_handled st))))))"

definition dispatch_events :: "nat \<Rightarrow> 'w event_env \<Rightarrow> 'w callbacks \<Rightarrow> 'w evp \<Rightarrow> (32 word \<times> 'w evp) res" where
  "dispatch_events fuel E C st =
     (let (now, w) = ev_clock E (world st) in
      bindE (dispatch_timers fuel C now 0 (st\<lparr>world := w\<rparr>)) (\<lambda>(n, st).
      bindE (dispatch_fds fuel E C n st) (\<lambda>(n, st).
      dispatch_uevs fuel C n st)))"

section \<open>Creating and destroying a handle\<close>

definition initialize_eventfd_semaphore :: "'w event_env \<Rightarrow> 'w evp \<Rightarrow> (int \<times> 'w evp) res" where
  "initialize_eventfd_semaphore E st =
     (let (rc, w) = ev_eventfd E (world st); st = st\<lparr>world := w\<rparr> in
      if rc < 0 then Inr (-1, st)
      else bindE (update (fdevs st) (Some (sem st)) (\<lambda>f. f\<lparr>fde_evmask := FD_EVENT_READABLE, fde_fd := rc\<rparr>)) (\<lambda>fs.
        bindE (add_fd_event_monitor E (Some (sem st)) (st\<lparr>fdevs := fs\<rparr>)) (\<lambda>(rc, st).
        Inr (if rc \<noteq> 0 then -1 else 0, st))))"

definition initialize_wait_timer :: "'w event_env \<Rightarrow> 'w evp \<Rightarrow> (int \<times> 'w evp) res" where
  "initialize_wait_timer E st =
     (let (rc, w) = ev_timerfd_create E (world st); st = st\<lparr>world := w\<rparr> in
      if rc < 0 then Inr (-1, st)
      else bindE (update (fdevs st) (Some (timerfd st)) (\<lambda>f. f\<lparr>fde_evmask := FD_EVENT_READABLE, fde_fd := rc\<rparr>)) (\<lambda>fs.
        bindE (add_fd_event_monitor E (Some (timerfd st)) (st\<lparr>fdevs := fs\<rparr>)) (\<lambda>(rc, st).
        Inr (if rc \<noteq> 0 then -1 else 0, st))))"

definition initialize_uevq_mutex :: "'w event_env \<Rightarrow> 'w \<Rightarrow> int \<times> 'w" where
  "initialize_uevq_mutex E w =
     (let (rc, w) = ev_pthread E AttrInit w in
      if rc \<noteq> 0 then (rc, w)
      else let (rc, w) = ev_pthread E AttrSettype w in
        if rc \<noteq> 0 then (rc, snd (ev_pthread E AttrDestroy w))
        else let (rc, w) = ev_pthread E MutexInit w in
          if rc \<noteq> 0 then (rc, snd (ev_pthread E AttrDestroy w))
          else (0, snd (ev_pthread E AttrDestroy w)))"

definition user_event_destructor :: "staqnode dtor" where
  "user_event_destructor = free_dtor"

definition initialize_event_pump_handle :: "'w event_env \<Rightarrow> 'w evp \<Rightarrow> (ErrorCode \<times> 'w evp) res" where
  "initialize_event_pump_handle E st =
     (let rc = ERROR_RUNTIMEERROR;
          (api, w) = get_os_api_handle E (world st);
          st = st\<lparr>osapi := api, world := w\<rparr>
      in if api = None then Inr (rc, st)
         else bindE (initialize_eventfd_semaphore E st) (\<lambda>(r, st).
           if r \<noteq> 0 then Inr (rc, st)
           else bindE (initialize_wait_timer E st) (\<lambda>(r, st).
             if r \<noteq> 0 then Inr (rc, st)
             else let (r, w) = initialize_uevq_mutex E (world st); st = st\<lparr>world := w\<rparr> in
               if r \<noteq> 0 then Inr (rc, st)
               else Inr (ERRORCODE_SUCCESS,
                 st\<lparr>timers := Dll_init None, evq := Dll_init None, uevq := Staq_init (Some user_event_destructor),
                    watch := replicate MAX_USER_EVENT_TYPE_VALUE NULL\<rparr>))))"

text \<open>
  The queued user events are freed with their links; then the handle itself, and with it its two descriptor events.
  Clearing the two lists frees no container, so their fuel does not matter.
\<close>

definition Evp_destroy :: "'w event_env \<Rightarrow> 'w evp \<Rightarrow> 'w evp res" where
  "Evp_destroy E st =
     bindE (remove_fd_event_monitor E (Some (sem st)) st) (\<lambda>(rc, st).
     bindE (remove_fd_event_monitor E (Some (timerfd st)) st) (\<lambda>(rc, st).
     bindE (load (fdevs st) (Some (sem st))) (\<lambda>fs.
     bindE (load (fdevs st) (Some (timerfd st))) (\<lambda>ft.
     let w = ev_close E (fde_fd ft) (ev_close E (fde_fd fs) (world st));
         w = destroy_os_api_handle E (osapi st) w;
         w = snd (ev_pthread E MutexDestroy w)
     in bindE (Dll_clear 0 (tlinks st) (timers st) False) (\<lambda>(tl, _).
        bindE (Dll_clear 0 (flinks st) (evq st) False) (\<lambda>(fl, _).
        bindE (Staq_clear (ulinks st) (uevq st) True) (\<lambda>(ul, _).
        Inr (st\<lparr>tlinks := tl, flinks := fl(sem st := None, timerfd st := None),
          fdevs := (fdevs st)(sem st := None, timerfd st := None),
          ulinks := ul, uevs := uevs st |` dom ul, world := w\<rparr>))))))))"

definition zero_fd_event :: fd_event where
  "zero_fd_event = \<lparr>fde_registered = False, fde_fd = 0, fde_evmask = 0, fde_revents = 0, fde_cb = NULL, fde_priv = NULL\<rparr>"

text \<open>\<open>salloc\<close> clears the memory it allocates; \<open>a\<close> and \<open>b\<close> are the addresses of the two descriptor events in it.\<close>

definition zeroed_handle :: "addr \<Rightarrow> addr \<Rightarrow> 'w evp \<Rightarrow> 'w evp" where
  "zeroed_handle a b st =
     st\<lparr>timers := initialize_dllist None, evq := initialize_dllist None, sem := a, timerfd := b,
        uevq := staq_initializer None, uev_mtx := False, watch := replicate MAX_USER_EVENT_TYPE_VALUE NULL, osapi := None,
        flinks := (flinks st)(a \<mapsto> \<lparr>dl_next = NULL, dl_prev = NULL\<rparr>, b \<mapsto> \<lparr>dl_next = NULL, dl_prev = NULL\<rparr>),
        fdevs := (fdevs st)(a \<mapsto> zero_fd_event, b \<mapsto> zero_fd_event)\<rparr>"

text \<open>The result tells whether the handle is not NULL.\<close>

definition Evp_new :: "'w event_env \<Rightarrow> addr \<Rightarrow> addr \<Rightarrow> 'w evp \<Rightarrow> (bool \<times> 'w evp) res" where
  "Evp_new E a b st =
     bindE (initialize_event_pump_handle E (zeroed_handle a b st)) (\<lambda>(rc, st).
     if rc \<noteq> ERRORCODE_SUCCESS then bindE (Evp_destroy E st) (\<lambda>st. Inr (False, st)) else Inr (True, st))"

section \<open>The run\<close>

definition dummy_timer_callback :: "addr \<Rightarrow> ptr \<Rightarrow> 'w evp \<Rightarrow> 'w evp res" where
  "dummy_timer_callback tev priv st = Inr st"

text \<open>
  Whether the run's time is over is a comparison of two floating point readings of the clock; \<open>ev_past\<close> makes it,
  given the world at the start and now.
\<close>

fun run_loop :: "nat \<Rightarrow> 'w event_env \<Rightarrow> 'w callbacks \<Rightarrow> bool \<Rightarrow> 'w \<Rightarrow> int \<Rightarrow> 'w evp \<Rightarrow> 'w evp res" where
  "run_loop 0 E C with_timeout start seconds st = Inl OutOfFuel"
| "run_loop (Suc fuel) E C with_timeout start seconds st =
     bindE (wake_on_first_timer E st) (\<lambda>(rc, st).
     if rc \<noteq> 0 then Inr st
     else bindE (pump_os_events E st) (\<lambda>(rc, st).
       if rc \<noteq> 0 then Inr st
       else bindE (dispatch_events fuel E C st) (\<lambda>(n, st).
         if with_timeout
         then let (over, w) = ev_past E start (world st) seconds; st = st\<lparr>world := w\<rparr>
              in if over then Inr st else run_loop fuel E C with_timeout start seconds st
         else run_loop fuel E C with_timeout start seconds st)))"

text \<open>
  The timer that ends the run is a local variable at the address \<open>a\<close>, \<open>cb\<close> is the address of
  \<open>dummy_timer_callback\<close>. The result of its registration is not looked at.
\<close>

definition local_timer :: timer_event where
  "local_timer = \<lparr>tev_registered = False, tev_tspec = \<lparr>tv_sec = 0, tv_nsec = 0\<rparr>, tev_cb = NULL, tev_priv = NULL\<rparr>"

definition Evp_run :: "nat \<Rightarrow> 'w event_env \<Rightarrow> 'w callbacks \<Rightarrow> addr \<Rightarrow> addr \<Rightarrow> int \<Rightarrow> 'w evp \<Rightarrow> 'w evp res" where
  "Evp_run fuel E C a cb seconds st =
     (let with_timeout = seconds > -1;
          start = world st
      in bindE (if with_timeout
                then bindE (Evp_register_timer fuel E (Some a)
                       (st\<lparr>tlinks := (tlinks st)(a \<mapsto> \<lparr>dl_next = NULL, dl_prev = NULL\<rparr>),
                          tevs := (tevs st)(a \<mapsto> Evp_init_timer_secs (word_of_int seconds) (Some cb) NULL local_timer)\<rparr>)) (\<lambda>(rc, st). Inr st)
                else Inr st) (\<lambda>st.
         bindE (run_loop fuel E C with_timeout start seconds st) (\<lambda>st.
         if with_timeout
         then bindE (Evp_unregister_timer (Some a) st) (\<lambda>st.
              Inr (st\<lparr>tlinks := (tlinks st)(a := None), tevs := (tevs st)(a := None)\<rparr>))
         else Inr st)))"

end
