(* ===== verification/Event_Timers.thy ===== *)
theory Event_Timers
  imports Event_Pump
begin

text \<open>
  What the timer queue of the event pump guarantees. \<open>timers_ok st ts\<close> says that the queue holds exactly the
  registered timers, in the order of their deadlines; registering and unregistering keep it, dispatching fires
  exactly the timers whose deadline has passed, and no callback that keeps it can make the loop touch freed memory.
\<close>

section \<open>The well-formed timer queue\<close>

definition deadline :: "'w evp \<Rightarrow> addr \<Rightarrow> int" where
  "deadline st a = nanos (tev_tspec (the (tevs st a)))"

definition timer_fit :: "timer_event \<Rightarrow> bool" where
  "timer_fit t \<longleftrightarrow> tev_registered t \<and> tev_cb t \<noteq> NULL \<and> normal_ts (tev_tspec t)"

definition timers_ok :: "'w evp \<Rightarrow> addr list \<Rightarrow> bool" where
  "timers_ok st ts \<longleftrightarrow>
     dll_inv (tlinks st) (timers st) ts \<and> dom (tevs st) \<subseteq> dom (tlinks st) \<and>
     (\<forall>a\<in>set ts. \<exists>t. tevs st a = Some t \<and> timer_fit t) \<and>
     (\<forall>a t. tevs st a = Some t \<longrightarrow> tev_registered t \<longrightarrow> a \<in> set ts) \<and>
     sorted (map (deadline st) ts)"

lemma timers_okD:
  assumes "timers_ok st ts"
  shows "dll_inv (tlinks st) (timers st) ts" "dom (tevs st) \<subseteq> dom (tlinks st)"
    "a \<in> set ts \<Longrightarrow> \<exists>t. tevs st a = Some t \<and> timer_fit t"
    "tevs st a = Some t \<Longrightarrow> tev_registered t \<Longrightarrow> a \<in> set ts"
    "sorted (map (deadline st) ts)"
  using assms unfolding timers_ok_def by blast+

lemma deadline_same: "tevs st' = tevs st \<Longrightarrow> deadline st' = deadline st"
  by (rule ext) (simp add: deadline_def)

lemma timers_ok_links:
  "timers_ok st ts \<Longrightarrow> tevs st' = tevs st \<Longrightarrow> tlinks st' = tlinks st \<Longrightarrow> timers st' = timers st \<Longrightarrow> timers_ok st' ts"
  using deadline_same [of st' st] by (simp add: timers_ok_def)

lemma deadline_world [simp]: "deadline (st\<lparr>world := w\<rparr>) = deadline st"
  by (rule deadline_same) simp

lemma timers_ok_world [simp]: "timers_ok (st\<lparr>world := w\<rparr>) ts \<longleftrightarrow> timers_ok st ts"
  by (simp add: timers_ok_def)

lemma timer_later:
  assumes "normal_ts a" "normal_ts b"
  shows "gt a b timespec_cmp \<longleftrightarrow> nanos b < nanos a" and "elapsed a b \<longleftrightarrow> nanos a \<le> nanos b"
  using timespec_cmp_ok [OF assms] by (auto simp: gt_def elapsed_def cmp_by_def)

section \<open>Registering\<close>

definition hd_ptr :: "addr list \<Rightarrow> ptr" where
  "hd_ptr xs = (if xs = [] then NULL else Some (hd xs))"

lemma hd_ptr_simps [simp]: "hd_ptr [] = NULL" "hd_ptr (x # xs) = Some x"
  by (simp_all add: hd_ptr_def)

lemma peek_next_hd_ptr: "dll_inv s l (us @ vs) \<Longrightarrow> peek_next s (hd_ptr vs) = Inr (hd_ptr (tl vs))"
proof (cases vs)
  case (Cons v vs')
  assume "dll_inv s l (us @ vs)"
  then obtain n where "s v = Some n" "lseg dl_next s (dl_next n) vs' NULL"
    unfolding Cons by (auto simp: dll_inv_mid_iff)
  then show ?thesis using lseg_head by (fastforce simp: Cons peek_next_def hd_ptr_def)
qed (simp add: peek_next_def)

text \<open>\<open>put_timer f d a xs\<close> puts \<open>a\<close> behind all elements that are not later than \<open>d\<close>.\<close>

definition put_timer :: "(addr \<Rightarrow> int) \<Rightarrow> int \<Rightarrow> addr \<Rightarrow> addr list \<Rightarrow> addr list" where
  "put_timer f d a xs = takeWhile (\<lambda>x. f x \<le> d) xs @ a # dropWhile (\<lambda>x. f x \<le> d) xs"

lemma set_put_timer [simp]: "set (put_timer f d a xs) = insert a (set xs)"
proof -
  have "set xs = set (takeWhile (\<lambda>x. f x \<le> d) xs @ dropWhile (\<lambda>x. f x \<le> d) xs)" by simp
  then show ?thesis unfolding put_timer_def by (simp only: set_append) auto
qed

lemma put_timer_same: "(\<And>x. x \<in> set xs \<Longrightarrow> f x = g x) \<Longrightarrow> put_timer f d a xs = put_timer g d a xs"
  unfolding put_timer_def by (metis (mono_tags, lifting) dropWhile_cong takeWhile_cong)

lemma sorted_put_timer:
  assumes "sorted (map f xs)" "a \<notin> set xs"
  shows "sorted (map (f(a := d)) (put_timer f d a xs))"
proof -
  let ?P = "\<lambda>x. f x \<le> d"
  have sp: "xs = takeWhile ?P xs @ dropWhile ?P xs" by simp
  have "map (f(a := d)) (put_timer f d a xs) = map f (takeWhile ?P xs) @ d # map f (dropWhile ?P xs)"
    using assms(2) by (auto simp: put_timer_def dest: set_takeWhileD set_dropWhileD)
  moreover have "sorted (map f (takeWhile ?P xs) @ map f (dropWhile ?P xs))"
    using assms(1) by (simp flip: map_append)
  moreover have "\<forall>x\<in>set (takeWhile ?P xs). f x \<le> d" by (auto dest: set_takeWhileD)
  moreover have "\<forall>x\<in>set (dropWhile ?P xs). d \<le> f x"
  proof (cases "dropWhile ?P xs = []")
    case False
    then obtain y ys where y: "dropWhile ?P xs = y # ys" by (cases "dropWhile ?P xs") auto
    then have "\<not> f y \<le> d" by (metis hd_dropWhile False list.sel(1))
    moreover have "sorted (map f (y # ys))" using assms(1) sp y by (metis map_append sorted_append)
    ultimately show ?thesis unfolding y by fastforce
  next
    case True
    show ?thesis unfolding True by simp
  qed
  ultimately show ?thesis by (auto simp: sorted_append)
qed

text \<open>The loop looks for the first timer that is later.\<close>

lemma register_loop_ok:
  assumes a: "tevs st a = Some t" "tlinks st a = Some n" "normal_ts (tev_tspec t)"
  shows "dll_inv (tlinks st) (timers st) (us @ vs) \<Longrightarrow> a \<notin> set (us @ vs) \<Longrightarrow>
    (\<forall>x\<in>set vs. \<exists>u. tevs st x = Some u \<and> timer_fit u) \<Longrightarrow> length vs < fuel \<Longrightarrow>
    \<exists>s l. register_loop fuel (Some a) (hd_ptr vs) (hd_ptr (tl vs)) st =
        Inr (st\<lparr>tlinks := s, timers := l, tevs := (tevs st)(a \<mapsto> t\<lparr>tev_registered := True\<rparr>)\<rparr>) \<and>
      dll_inv s l (us @ put_timer (deadline st) (nanos (tev_tspec t)) a vs) \<and> dom s = dom (tlinks st)"
proof (induction vs arbitrary: us fuel)
  case Nil
  then obtain s l where "Dll_push_back (tlinks st) (timers st) (Some a) = Inr (s, l)" "dll_inv s l (us @ [a])"
      "dom s = dom (tlinks st)"
    using Dll_push_back_inv [of "tlinks st" "timers st" us a n] a(2) frame_dom by (metis append_Nil2)
  then show ?case
    using Nil.prems(4) a(1)
    by (cases fuel; intro exI [of _ s] exI [of _ l]) (auto simp: set_registered_def put_timer_def fun_upd_def)
next
  case (Cons v vs)
  obtain f where f: "fuel = Suc f" "length vs < f" using Cons.prems(4) by (cases fuel) auto
  obtain u where u: "tevs st v = Some u" "timer_fit u" using Cons.prems(3) by auto
  have later: "gt (tev_tspec u) (tev_tspec t) timespec_cmp \<longleftrightarrow> nanos (tev_tspec t) < deadline st v"
    using timer_later(1) [of "tev_tspec u" "tev_tspec t"] u a(3) by (simp add: timer_fit_def deadline_def)
  show ?case
  proof (cases "deadline st v \<le> nanos (tev_tspec t)")
    case True
    have pn: "peek_next (tlinks st) (hd_ptr vs) = Inr (hd_ptr (tl vs))"
      using peek_next_hd_ptr [of "tlinks st" "timers st" "us @ [v]" vs] Cons.prems(1) by simp
    have "dll_inv (tlinks st) (timers st) ((us @ [v]) @ vs)" "a \<notin> set ((us @ [v]) @ vs)"
      "\<forall>x\<in>set vs. \<exists>u. tevs st x = Some u \<and> timer_fit u" using Cons.prems by auto
    from Cons.IH [OF this f(2)] obtain s l where "register_loop f (Some a) (hd_ptr vs) (hd_ptr (tl vs)) st =
        Inr (st\<lparr>tlinks := s, timers := l, tevs := (tevs st)(a \<mapsto> t\<lparr>tev_registered := True\<rparr>)\<rparr>)"
      "dll_inv s l ((us @ [v]) @ put_timer (deadline st) (nanos (tev_tspec t)) a vs)" "dom s = dom (tlinks st)"
      by blast
    then show ?thesis using True later u a(1) f(1) pn by (intro exI [of _ s] exI [of _ l]) (auto simp: put_timer_def fun_upd_def)
  next
    case False
    obtain s l where "Dll_put_node_before (tlinks st) (timers st) (Some v) (Some a) = Inr (s, l)" "dll_inv s l (us @ a # v # vs)"
      "dom s = dom (tlinks st)"
      using Dll_put_node_before_inv [OF Cons.prems(1) a(2) Cons.prems(2)] frame_dom by metis
    then show ?thesis using False later u a(1) f(1)
      by (intro exI [of _ s] exI [of _ l]) (auto simp: put_timer_def set_registered_def fun_upd_def)
  qed
qed

lemma timespec_add_later:
  assumes "normal_ts a" "normal_ts b" "0 \<le> sint (tv_sec a)" "sint (tv_sec a) + sint (tv_sec b) < 2 ^ 63 - 1" "0 \<le> sint (tv_sec b)"
  shows "nanos (timespec_add a b) = nanos a + nanos b" "normal_ts (timespec_add a b)"
    "\<not> sint (tv_sec (timespec_add a b)) < sint (tv_sec b)"
proof -
  have 1: "normal_ts (timespec_add a b)" "nanos (timespec_add a b) = nanos a + nanos b"
    using timespec_add_ok [OF assms(1,2)] assms(3-5) by auto
  then show "nanos (timespec_add a b) = nanos a + nanos b" "normal_ts (timespec_add a b)" by auto
  have "nanos b \<le> nanos (timespec_add a b)" using 1(2) assms(1,3) by (simp add: nanos_def normal_ts_def)
  then show "\<not> sint (tv_sec (timespec_add a b)) < sint (tv_sec b)"
    using 1(1) assms(2) by (auto simp: nanos_def normal_ts_def)
qed

text \<open>The timers other than \<open>a\<close> keep their deadlines.\<close>

lemma timers_ok_put:
  assumes ok: "timers_ok st ts" and a: "tevs st a = Some t" "a \<notin> set ts" and t': "timer_fit t'"
    and inv: "dll_inv s l (put_timer (deadline st) (nanos (tev_tspec t')) a ts)" and d: "dom s = dom (tlinks st)"
    and st': "tevs st' = (tevs st)(a \<mapsto> t')" "tlinks st' = s" "timers st' = l"
  shows "timers_ok st' (put_timer (deadline st) (nanos (tev_tspec t')) a ts)"
proof -
  have dl: "deadline st' = (deadline st)(a := nanos (tev_tspec t'))"
    by (rule ext) (simp add: deadline_def st')
  have "dom (tevs st') \<subseteq> dom (tlinks st')" using timers_okD(2) [OF ok] a(1) d st' by auto
  moreover have "\<forall>x\<in>set (put_timer (deadline st) (nanos (tev_tspec t')) a ts). \<exists>u. tevs st' x = Some u \<and> timer_fit u"
    using timers_okD(3) [OF ok] t' st'(1) by auto
  moreover have "\<forall>x u. tevs st' x = Some u \<longrightarrow> tev_registered u \<longrightarrow> x \<in> set (put_timer (deadline st) (nanos (tev_tspec t')) a ts)"
    using timers_okD(4) [OF ok] st'(1) by auto
  moreover have "sorted (map (deadline st') (put_timer (deadline st) (nanos (tev_tspec t')) a ts))"
    unfolding dl using sorted_put_timer [OF timers_okD(5) [OF ok] a(2)] .
  ultimately show ?thesis unfolding timers_ok_def using inv st' by blast
qed

lemma register_ok:
  assumes ok: "timers_ok st ts" and t: "tevs st a = Some t" "\<not> tev_registered t" "tev_cb t \<noteq> NULL" "normal_ts (tev_tspec t)"
    and clock: "ev_clock E (world st) = (now, w)" "normal_ts now" "0 \<le> sint (tv_sec now)" "0 \<le> sint (tv_sec (tev_tspec t))"
      "sint (tv_sec now) + sint (tv_sec (tev_tspec t)) < 2 ^ 63 - 1"
    and fuel: "length ts < fuel" and notin: "a \<notin> set ts"
  defines "d \<equiv> nanos now + nanos (tev_tspec t)"
  shows "\<exists>s l. Evp_register_timer fuel E (Some a) st = Inr (ERRORCODE_SUCCESS, st\<lparr>world := w, tlinks := s, timers := l,
      tevs := (tevs st)(a \<mapsto> t\<lparr>tev_tspec := timespec_add now (tev_tspec t), tev_registered := True\<rparr>)\<rparr>) \<and>
    timers_ok (st\<lparr>world := w, tlinks := s, timers := l,
      tevs := (tevs st)(a \<mapsto> t\<lparr>tev_tspec := timespec_add now (tev_tspec t), tev_registered := True\<rparr>)\<rparr>)
      (put_timer (deadline st) d a ts)"
proof -
  let ?sum = "timespec_add now (tev_tspec t)"
  let ?t1 = "t\<lparr>tev_tspec := ?sum\<rparr>" and ?t2 = "t\<lparr>tev_tspec := ?sum, tev_registered := True\<rparr>"
  let ?st1 = "st\<lparr>tevs := (tevs st)(a \<mapsto> ?t1), world := w\<rparr>"
  have sum: "nanos ?sum = d" "normal_ts ?sum" "\<not> sint (tv_sec ?sum) < sint (tv_sec (tev_tspec t))"
    using timespec_add_later [OF clock(2) t(4) clock(3,5,4)] by (auto simp: d_def)
  obtain n where n: "tlinks st a = Some n" using timers_okD(2) [OF ok] t(1) by auto
  note inv = timers_okD(1) [OF ok]
  have dl: "\<And>x. x \<in> set ts \<Longrightarrow> deadline ?st1 x = deadline st x" using notin by (auto simp: deadline_def)
  have go: "\<exists>s l. Evp_register_timer fuel E (Some a) st = Inr (ERRORCODE_SUCCESS, st\<lparr>world := w, tlinks := s, timers := l,
      tevs := (tevs st)(a \<mapsto> ?t2)\<rparr>) \<and> dll_inv s l (put_timer (deadline st) d a ts) \<and> dom s = dom (tlinks st)"
  proof (cases "ts = []")
    case True
    then obtain s l where "Dll_push_front (tlinks st) (timers st) (Some a) = Inr (s, l)" "dll_inv s l [a]" "dom s = dom (tlinks st)"
      using Dll_push_front_inv [OF inv n notin] frame_dom by metis
    then show ?thesis using True t clock(1) sum(3) inv
      by (intro exI [of _ s] exI [of _ l]) (auto simp: Evp_register_timer_def timer_duration_to_timepoint_def set_registered_def put_timer_def Dll_empty_def
          dll_inv_Nil_iff)
  next
    case False
    have hd: "dl_front (timers st) = hd_ptr ts" using dll_inv_ends(1) [OF inv] False by (simp add: hd_ptr_def)
    have ne: "\<not> Dll_empty (timers st)" using dll_inv_count [OF inv] False by (simp add: Dll_empty_def)
    have pn: "peek_next (tlinks st) (hd_ptr ts) = Inr (hd_ptr (tl ts))"
      using peek_next_hd_ptr [of "tlinks st" "timers st" "[]" ts] inv by simp
    have "\<forall>x\<in>set ts. \<exists>u. tevs ?st1 x = Some u \<and> timer_fit u" using timers_okD(3) [OF ok] notin by auto
    then obtain s l where "register_loop fuel (Some a) (hd_ptr ts) (hd_ptr (tl ts)) ?st1 =
        Inr (?st1\<lparr>tlinks := s, timers := l, tevs := (tevs ?st1)(a \<mapsto> ?t1\<lparr>tev_registered := True\<rparr>)\<rparr>)"
      "dll_inv s l ([] @ put_timer (deadline ?st1) (nanos (tev_tspec ?t1)) a ts)" "dom s = dom (tlinks ?st1)"
      using register_loop_ok [of ?st1 a ?t1 n "[]" ts fuel] n sum(2) inv notin fuel by auto
    moreover have "put_timer (deadline ?st1) (nanos (tev_tspec ?t1)) a ts = put_timer (deadline st) d a ts"
      using put_timer_same [OF dl] sum(1) by simp
    ultimately show ?thesis using t clock(1) sum(3) hd ne pn
      by (intro exI [of _ s] exI [of _ l]) (auto simp: Evp_register_timer_def timer_duration_to_timepoint_def)
  qed
  then obtain s l where r: "Evp_register_timer fuel E (Some a) st = Inr (ERRORCODE_SUCCESS, st\<lparr>world := w, tlinks := s, timers := l,
      tevs := (tevs st)(a \<mapsto> ?t2)\<rparr>)" "dll_inv s l (put_timer (deadline st) d a ts)" "dom s = dom (tlinks st)" by blast
  have "timer_fit ?t2" using t sum by (simp add: timer_fit_def)
  then show ?thesis
    using timers_ok_put [OF ok t(1) notin, of ?t2 s l "st\<lparr>world := w, tlinks := s, timers := l, tevs := (tevs st)(a \<mapsto> ?t2)\<rparr>"] r sum(1)
    by (intro exI [of _ s] exI [of _ l]) simp
qed

section \<open>Unregistering\<close>

text \<open>Taking a timer out of the queue.\<close>

lemma timers_ok_take:
  assumes ok: "timers_ok st (us @ a # vs)" and t: "tevs st a = Some t"
    and inv: "dll_inv s l (us @ vs)" and d: "dom s = dom (tlinks st)"
  shows "timers_ok (st\<lparr>tlinks := s, timers := l, tevs := (tevs st)(a \<mapsto> t\<lparr>tev_registered := False\<rparr>)\<rparr>) (us @ vs)"
    (is "timers_ok ?st' _")
proof -
  have a: "a \<notin> set (us @ vs)" using dll_inv_distinct [OF timers_okD(1) [OF ok]] by auto
  have dl: "deadline ?st' = deadline st" by (rule ext) (simp add: deadline_def t)
  have "sorted (map (deadline ?st') (us @ vs))"
    unfolding dl using timers_okD(5) [OF ok] by (auto simp: sorted_append)
  moreover have "\<forall>x\<in>set (us @ vs). \<exists>u. tevs ?st' x = Some u \<and> timer_fit u"
    using timers_okD(3) [OF ok] a by auto
  moreover have "\<forall>x u. tevs ?st' x = Some u \<longrightarrow> tev_registered u \<longrightarrow> x \<in> set (us @ vs)"
    using timers_okD(4) [OF ok] by auto
  moreover have "dom (tevs ?st') \<subseteq> dom (tlinks ?st')" using timers_okD(2) [OF ok] t d by auto
  ultimately show ?thesis unfolding timers_ok_def using inv by simp
qed

lemma pop_timer:
  assumes ok: "timers_ok st (us @ a # vs)" and t: "tevs st a = Some t"
  shows "\<exists>s l. Dll_pop_node (tlinks st) (timers st) (Some a) = Inr (s, l) \<and>
    set_registered (Some a) False (st\<lparr>tlinks := s, timers := l\<rparr>) =
      Inr (st\<lparr>tlinks := s, timers := l, tevs := (tevs st)(a \<mapsto> t\<lparr>tev_registered := False\<rparr>)\<rparr>) \<and>
    timers_ok (st\<lparr>tlinks := s, timers := l, tevs := (tevs st)(a \<mapsto> t\<lparr>tev_registered := False\<rparr>)\<rparr>) (us @ vs)"
proof -
  obtain s l where sl: "Dll_remove_node (tlinks st) (timers st) (Some a) False = Inr (s, l)" "dll_inv s l (us @ vs)"
      "dom s = dom (tlinks st)"
    using Dll_remove_node_inv [OF timers_okD(1) [OF ok]] frame_dom by metis
  then show ?thesis
    using timers_ok_take [OF ok t sl(2,3)] t
    by (intro exI [of _ s] exI [of _ l]) (simp add: Dll_pop_node_def set_registered_def)
qed

lemma unregister_ok:
  assumes ok: "timers_ok st (us @ a # vs)" and t: "tevs st a = Some t"
  shows "\<exists>s l. Evp_unregister_timer (Some a) st =
      Inr (st\<lparr>tlinks := s, timers := l, tevs := (tevs st)(a \<mapsto> t\<lparr>tev_registered := False\<rparr>)\<rparr>) \<and>
    timers_ok (st\<lparr>tlinks := s, timers := l, tevs := (tevs st)(a \<mapsto> t\<lparr>tev_registered := False\<rparr>)\<rparr>) (us @ vs)"
proof -
  have "tev_registered t" using timers_okD(3) [OF ok, of a] t by (auto simp: timer_fit_def)
  then show ?thesis
    using pop_timer [OF ok t] t by (fastforce simp: Evp_unregister_timer_def)
qed

lemma unregister_any:
  assumes ok: "timers_ok st ts" and t: "tevs st a = Some t"
  shows "\<exists>st'. Evp_unregister_timer (Some a) st = Inr st' \<and> timers_ok st' (remove1 a ts) \<and>
    (\<forall>x. deadline st' x = deadline st x)"
proof (cases "a \<in> set ts")
  case True
  then obtain us vs where ts: "ts = us @ a # vs" "a \<notin> set us" by (meson split_list_first)
  then have "remove1 a ts = us @ vs" by (simp add: remove1_append)
  then show ?thesis
    using unregister_ok [of st us a vs t] ok t ts(1) by (fastforce simp: deadline_def)
next
  case False
  then have "\<not> tev_registered t" using timers_okD(4) [OF ok t] by blast
  then show ?thesis using ok t False by (simp add: Evp_unregister_timer_def remove1_idem)
qed

section \<open>Dispatching\<close>

definition due :: "'w evp \<Rightarrow> int \<Rightarrow> addr list \<Rightarrow> addr list" where
  "due st now ts = filter (\<lambda>a. deadline st a \<le> now) ts"

text \<open>
  A callback may do anything with the pump that keeps the queue well-formed and an invariant \<open>I\<close> of the user's own
  choice, and that leaves no more timers due than there were: what it registers anew lies in the future. The
  callback is called for a timer \<open>a\<close> that was due and has been taken out of the queue, so it may register it again.
  The dispatcher itself must not disturb \<open>I\<close> by taking a timer out.
\<close>

definition cb_keeps_queue :: "('w evp \<Rightarrow> bool) \<Rightarrow> 'w callbacks \<Rightarrow> int \<Rightarrow> bool" where
  "cb_keeps_queue I C now \<longleftrightarrow>
     (\<forall>cb a p t st ts. I st \<longrightarrow> timers_ok st ts \<longrightarrow> a \<notin> set ts \<longrightarrow> tevs st a = Some t \<longrightarrow> \<not> tev_registered t \<longrightarrow>
        tev_cb t = Some cb \<longrightarrow> tev_priv t = p \<longrightarrow> deadline st a \<le> now \<longrightarrow>
        (\<exists>st' ts'. call_timer C cb a p st = Inr st' \<and> I st' \<and> timers_ok st' ts' \<and>
           length (due st' now ts') \<le> length (due st now ts)))"

definition survives_pop :: "('w evp \<Rightarrow> bool) \<Rightarrow> bool" where
  "survives_pop I \<longleftrightarrow>
     (\<forall>st s l a t. I st \<longrightarrow> tevs st a = Some t \<longrightarrow>
        I (st\<lparr>tlinks := s, timers := l, tevs := (tevs st)(a \<mapsto> t\<lparr>tev_registered := False\<rparr>)\<rparr>))"

lemma front_timer:
  assumes ok: "timers_ok st (a # ts)" and now: "normal_ts now"
  obtains t where "tevs st a = Some t" "timer_fit t" "Dll_peek_front (timers st) = Some a" "\<not> Dll_empty (timers st)"
    "elapsed (tev_tspec t) now \<longleftrightarrow> deadline st a \<le> nanos now"
proof -
  obtain t where t: "tevs st a = Some t" "timer_fit t" using timers_okD(3) [OF ok, of a] by auto
  have inv: "dll_inv (tlinks st) (timers st) (a # ts)" using timers_okD(1) [OF ok] .
  have "Dll_peek_front (timers st) = Some a" "\<not> Dll_empty (timers st)"
    using dll_inv_ends(1) [OF inv] dll_inv_count [OF inv] by (simp_all add: Dll_peek_front_def Dll_empty_def)
  moreover have "elapsed (tev_tspec t) now \<longleftrightarrow> deadline st a \<le> nanos now"
    using timer_later(2) [of "tev_tspec t" now] t now by (simp add: timer_fit_def deadline_def)
  ultimately show thesis using that t by blast
qed

lemma no_timer: "timers_ok st [] \<Longrightarrow> Dll_empty (timers st)"
  by (simp add: timers_ok_def Dll_empty_def dll_inv_Nil_iff)

lemma dispatch_timers_ok:
  assumes C: "cb_keeps_queue I C (nanos now)" and P: "survives_pop I" and now: "normal_ts now"
  shows "timers_ok st ts \<Longrightarrow> I st \<Longrightarrow> length (due st (nanos now) ts) < fuel \<Longrightarrow>
    \<exists>k st' ts'. dispatch_timers fuel C now n st = Inr (k, st') \<and> I st' \<and> timers_ok st' ts' \<and> due st' (nanos now) ts' = []"
proof (induction fuel arbitrary: n st ts)
  case 0
  then show ?case by simp
next
  case (Suc fuel)
  show ?case
  proof (cases ts)
    case Nil
    then show ?thesis using no_timer [of st] Suc.prems(1,2) by (intro exI [of _ n] exI [of _ st] exI [of _ ts]) (simp add: due_def)
  next
    case (Cons a rest)
    note ok = Suc.prems(1) [unfolded Cons]
    obtain t where t: "tevs st a = Some t" "timer_fit t" "Dll_peek_front (timers st) = Some a" "\<not> Dll_empty (timers st)"
      "elapsed (tev_tspec t) now \<longleftrightarrow> deadline st a \<le> nanos now" by (rule front_timer [OF ok now])
    show ?thesis
    proof (cases "deadline st a \<le> nanos now")
      case False
      have "\<forall>x\<in>set rest. deadline st a \<le> deadline st x" using timers_okD(5) [OF ok] by simp
      then have "due st (nanos now) ts = []" using False Cons by (force simp: due_def filter_empty_conv)
      then show ?thesis using False t Suc.prems(1,2) by (intro exI [of _ n] exI [of _ st] exI [of _ ts]) simp
    next
      case True
      obtain s l st1 where sl: "Dll_pop_node (tlinks st) (timers st) (Some a) = Inr (s, l)"
          "set_registered (Some a) False (st\<lparr>tlinks := s, timers := l\<rparr>) = Inr st1" "timers_ok st1 rest"
          and st1: "st1 = st\<lparr>tlinks := s, timers := l, tevs := (tevs st)(a \<mapsto> t\<lparr>tev_registered := False\<rparr>)\<rparr>"
        using pop_timer [of st "[]" a rest t] ok t(1) by auto
      have "a \<notin> set rest" using dll_inv_distinct [OF timers_okD(1) [OF ok]] by simp
      have I1: "I st1" using P Suc.prems(2) t(1) unfolding survives_pop_def st1 by blast
      obtain cb where cb: "tev_cb t = Some cb" using t(2) by (auto simp: timer_fit_def)
      have t1: "tevs st1 a = Some (t\<lparr>tev_registered := False\<rparr>)" "deadline st1 a \<le> nanos now"
        using True t(1) by (simp_all add: st1 deadline_def)
      obtain st2 ts2 where c: "call_timer C cb a (tev_priv t) st1 = Inr st2" "I st2" "timers_ok st2 ts2"
          "length (due st2 (nanos now) ts2) \<le> length (due st1 (nanos now) rest)"
        using C [unfolded cb_keeps_queue_def, rule_format, OF I1 sl(3) \<open>a \<notin> set rest\<close> t1(1) _ _ refl t1(2)] cb by auto
      have "due st1 (nanos now) rest = due st (nanos now) rest"
        using \<open>a \<notin> set rest\<close> by (auto simp: due_def deadline_def st1 intro: filter_cong)
      then have "length (due st2 (nanos now) ts2) < fuel" using c(4) Suc.prems(3) True Cons by (simp add: due_def)
      from Suc.IH [OF c(3,2) this, of "n + 1"] show ?thesis using t True sl(1,2) cb c(1) by simp
    qed
  qed
qed

text \<open>\<open>fire f st w a\<close>: the callback of the timer \<open>a\<close> acts on the world only.\<close>

definition cb_world_only :: "'w callbacks \<Rightarrow> (addr \<Rightarrow> addr \<Rightarrow> ptr \<Rightarrow> 'w \<Rightarrow> 'w) \<Rightarrow> bool" where
  "cb_world_only C f \<longleftrightarrow> (\<forall>cb a p st. call_timer C cb a p st = Inr (st\<lparr>world := f cb a p (world st)\<rparr>))"

definition fire :: "(addr \<Rightarrow> addr \<Rightarrow> ptr \<Rightarrow> 'w \<Rightarrow> 'w) \<Rightarrow> 'w evp \<Rightarrow> 'w \<Rightarrow> addr \<Rightarrow> 'w" where
  "fire f st w a = f (the (tev_cb (the (tevs st a)))) a (tev_priv (the (tevs st a))) w"

lemma dispatch_passive:
  assumes C: "cb_world_only C f" and now: "normal_ts now"
  shows "timers_ok st ts \<Longrightarrow> length ts < fuel \<Longrightarrow>
    \<exists>st'. dispatch_timers fuel C now n st = Inr (n + of_nat (length (due st (nanos now) ts)), st') \<and>
      timers_ok st' (filter (\<lambda>a. nanos now < deadline st a) ts) \<and> deadline st' = deadline st \<and>
      world st' = foldl (fire f st) (world st) (due st (nanos now) ts)"
proof (induction ts arbitrary: st n fuel)
  case Nil
  then show ?case using no_timer [of st] by (cases fuel) (auto simp: due_def intro!: exI [of _ st])
next
  case (Cons a ts)
  obtain g where g: "fuel = Suc g" "length ts < g" using Cons.prems(2) by (cases fuel) auto
  obtain t where t: "tevs st a = Some t" "timer_fit t" "Dll_peek_front (timers st) = Some a" "\<not> Dll_empty (timers st)"
    "elapsed (tev_tspec t) now \<longleftrightarrow> deadline st a \<le> nanos now" by (rule front_timer [OF Cons.prems(1) now])
  show ?case
  proof (cases "deadline st a \<le> nanos now")
    case False
    have "\<forall>x\<in>set ts. deadline st a \<le> deadline st x" using timers_okD(5) [OF Cons.prems(1)] by simp
    then have all: "\<forall>x\<in>set (a # ts). nanos now < deadline st x" using False by auto
    then have "due st (nanos now) (a # ts) = []" by (auto simp: due_def filter_empty_conv not_le)
    moreover have "filter (\<lambda>a. nanos now < deadline st a) (a # ts) = a # ts" using all by (simp only: filter_True)
    ultimately show ?thesis using Cons.prems(1) False t g(1) by (intro exI [of _ st]) simp
  next
    case True
    obtain s l st1 where sl: "Dll_pop_node (tlinks st) (timers st) (Some a) = Inr (s, l)"
        "set_registered (Some a) False (st\<lparr>tlinks := s, timers := l\<rparr>) = Inr st1" "timers_ok st1 ts"
        and st1: "st1 = st\<lparr>tlinks := s, timers := l, tevs := (tevs st)(a \<mapsto> t\<lparr>tev_registered := False\<rparr>)\<rparr>"
      using pop_timer [of st "[]" a ts t] Cons.prems(1) t(1) by auto
    obtain cb where cb: "tev_cb t = Some cb" using t(2) by (auto simp: timer_fit_def)
    let ?st2 = "st1\<lparr>world := f cb a (tev_priv t) (world st)\<rparr>"
    have c: "call_timer C cb a (tev_priv t) st1 = Inr ?st2" using C by (simp add: cb_world_only_def st1)
    have dl: "deadline ?st2 = deadline st" by (rule ext) (simp add: deadline_def t(1) st1)
    then have du: "due ?st2 = due st" by (intro ext) (simp add: due_def)
    have fi: "fire f ?st2 = fire f st" by (intro ext) (simp add: fire_def t(1) st1)
    have fa: "fire f st w a = f cb a (tev_priv t) w" for w by (simp add: fire_def t(1) cb)
    have ok2: "timers_ok ?st2 ts" using sl(3) by (simp only: timers_ok_world)
    obtain st' where "dispatch_timers g C now (n + 1) ?st2 = Inr (n + 1 + of_nat (length (due st (nanos now) ts)), st')"
      "timers_ok st' (filter (\<lambda>a. nanos now < deadline st a) ts)" "deadline st' = deadline st"
      "world st' = foldl (fire f st) (world ?st2) (due st (nanos now) ts)"
      using Cons.IH [OF ok2 g(2), of "n + 1"] unfolding dl du fi by blast
    moreover have "due st (nanos now) (a # ts) = a # due st (nanos now) ts" using True by (simp add: due_def)
    ultimately show ?thesis
      using True t g(1) sl(1,2) cb c by (intro exI [of _ st']) (auto simp: fa st1)
  qed
qed

section \<open>The properties of the component\<close>

text \<open>A pump with two registered timers, due after 5 and 9 seconds, and a third one that is not registered.\<close>

definition secs :: "nat \<Rightarrow> timespec" where
  "secs n = \<lparr>tv_sec = of_nat n, tv_nsec = 0\<rparr>"

definition timer_at :: "bool \<Rightarrow> nat \<Rightarrow> ptr \<Rightarrow> timer_event" where
  "timer_at r n p = \<lparr>tev_registered = r, tev_tspec = secs n, tev_cb = Some 7, tev_priv = p\<rparr>"

definition evp_ex :: "addr list evp" where
  "evp_ex = \<lparr>timers = \<lparr>dl_count = 2, dl_front = Some 2, dl_back = Some 4, dl_dtor = None\<rparr>,
     evq = initialize_dllist None, sem = 10, timerfd = 11, uevq = staq_initializer None, uev_mtx = False,
     watch = replicate 30 NULL, osapi = Some 3,
     tlinks = [2 \<mapsto> \<lparr>dl_next = Some 4, dl_prev = NULL\<rparr>, 4 \<mapsto> \<lparr>dl_next = NULL, dl_prev = Some 2\<rparr>, 3 \<mapsto> \<lparr>dl_next = NULL, dl_prev = NULL\<rparr>],
     tevs = [2 \<mapsto> timer_at True 5 (Some 4), 4 \<mapsto> timer_at True 9 NULL, 3 \<mapsto> timer_at False 2 NULL],
     flinks = Map.empty, fdevs = Map.empty, ulinks = Map.empty, uevs = Map.empty, watches = Map.empty, world = []\<rparr>"

definition env_ex :: "addr list event_env" where
  "env_ex = \<lparr>ev_io = \<lparr>io_write = \<lambda>fd bs w. (int (length bs), False, w @ map unat bs), io_read = \<lambda>fd cap w. (8, replicate 8 0, False, w),
       io_poll = \<lambda>fd ev t w. (0, 0, w)\<rparr>, ev_clock = \<lambda>w. (secs 4, w), ev_epoll_create = \<lambda>w. (3, w),
     ev_epoll_ctl = \<lambda>h op fd m p w. (0, w), ev_epoll_wait = \<lambda>h n w. (0, [], w), ev_eventfd = \<lambda>w. (4, w),
     ev_timerfd_create = \<lambda>w. (5, w), ev_timerfd_settime = \<lambda>fd t w. (0, w), ev_pthread = \<lambda>op w. (0, w),
     ev_set_nonblock = \<lambda>fd w. w, ev_close = \<lambda>fd w. w @ [nat fd], ev_past = \<lambda>w w' s. (True, w')\<rparr>"

lemma secs_simps:
  "normal_ts (secs n)" "n < 2 ^ 63 \<Longrightarrow> sint (tv_sec (secs n)) = int n" "n < 2 ^ 63 \<Longrightarrow> nanos (secs n) = int n * 1000000000"
proof -
  have s: "sint (of_nat n :: 64 word) = int n" if "n < 2 ^ 63"
    using sint_of_int_small [of "int n"] that by simp
  show "normal_ts (secs n)" by (simp add: normal_ts_def secs_def)
  show "sint (tv_sec (secs n)) = int n" "nanos (secs n) = int n * 1000000000" if "n < 2 ^ 63"
    using s [OF that] by (simp_all add: secs_def nanos_def)
qed

lemma evp_ex_ok: "timers_ok evp_ex [2, 4]"
  by (auto simp: timers_ok_def evp_ex_def dll_inv_def timer_fit_def timer_at_def deadline_def secs_simps split: if_splits)

lemma evp_ex_deadline: "deadline evp_ex 2 = 5000000000" "deadline evp_ex 4 = 9000000000" "deadline evp_ex 3 = 2000000000"
  by (simp_all add: deadline_def evp_ex_def timer_at_def secs_simps)

text \<open>C16: 
  Registering a timer turns its duration into a deadline and puts it behind every timer that is not later, taking any
  timer out again keeps the others, and the queue stays sorted. Registering a timer twice is refused.
\<close>

theorem Evp_register_timer_correct:
  assumes ok: "timers_ok st ts" and t: "tevs st a = Some t" "tev_cb t \<noteq> NULL" "normal_ts (tev_tspec t)"
    and clock: "ev_clock E (world st) = (now, w)" "normal_ts now" "0 \<le> sint (tv_sec now)" "0 \<le> sint (tv_sec (tev_tspec t))"
      "sint (tv_sec now) + sint (tv_sec (tev_tspec t)) < 2 ^ 63 - 1"
    and fuel: "length ts < fuel"
  shows "(if a \<in> set ts then Evp_register_timer fuel E (Some a) st = Inr (ERROR_INVALIDVALUE, st)
     else \<exists>st'. Evp_register_timer fuel E (Some a) st = Inr (ERRORCODE_SUCCESS, st') \<and>
       timers_ok st' (put_timer (deadline st) (nanos now + nanos (tev_tspec t)) a ts) \<and>
       deadline st' a = nanos now + nanos (tev_tspec t)) \<and>
    (\<exists>st'. Evp_unregister_timer (Some a) st = Inr st' \<and> timers_ok st' (remove1 a ts))"
proof (intro conjI)
  show "\<exists>st'. Evp_unregister_timer (Some a) st = Inr st' \<and> timers_ok st' (remove1 a ts)"
    using unregister_any [OF ok t(1)] by blast
  show "if a \<in> set ts then Evp_register_timer fuel E (Some a) st = Inr (ERROR_INVALIDVALUE, st)
     else \<exists>st'. Evp_register_timer fuel E (Some a) st = Inr (ERRORCODE_SUCCESS, st') \<and>
       timers_ok st' (put_timer (deadline st) (nanos now + nanos (tev_tspec t)) a ts) \<and>
       deadline st' a = nanos now + nanos (tev_tspec t)"
  proof (cases "a \<in> set ts")
    case True
    then have "tev_registered t" using timers_okD(3) [OF ok True] t(1) by (auto simp: timer_fit_def)
    then show ?thesis using True t by (simp add: Evp_register_timer_def)
  next
    case False
    then have "\<not> tev_registered t" using timers_okD(4) [OF ok t(1)] by blast
    from register_ok [OF ok t(1) this t(2,3) clock fuel False] show ?thesis
      using False timespec_add_later(1) [OF clock(2) t(3) clock(3,5,4)] by (fastforce simp: deadline_def)
  qed
qed

theorem Evp_register_timer_witness:
  "\<exists>st'. Evp_register_timer 3 env_ex (Some 3) evp_ex = Inr (ERRORCODE_SUCCESS, st') \<and> timers_ok st' [2, 3, 4] \<and>
     deadline st' 3 = 6000000000"
proof -
  have t: "tevs evp_ex 3 = Some (timer_at False 2 NULL)" by (simp add: evp_ex_def)
  show ?thesis
    using Evp_register_timer_correct [OF evp_ex_ok t, of env_ex "secs 4" "[]" 3]
    by (simp add: timer_at_def secs_simps env_ex_def evp_ex_def [THEN arg_cong [where f = world]] put_timer_def evp_ex_deadline)
qed

text \<open>
  Dispatching runs the callbacks of exactly the timers whose deadline has passed, in the order of their deadlines,
  and leaves exactly the others registered.
\<close>

theorem dispatch_timers_correct:
  assumes "timers_ok st ts" "cb_world_only C f" "normal_ts now" "length ts < fuel"
  shows "\<exists>st'. dispatch_timers fuel C now n st = Inr (n + of_nat (length (due st (nanos now) ts)), st') \<and>
    timers_ok st' (filter (\<lambda>a. nanos now < deadline st a) ts) \<and>
    world st' = foldl (fire f st) (world st) (due st (nanos now) ts)"
  using dispatch_passive [OF assms(2,3,1,4), of n] by blast

definition log_callbacks :: "addr list callbacks" where
  "log_callbacks = \<lparr>call_timer = \<lambda>cb a p st. Inr (st\<lparr>world := world st @ [a]\<rparr>),
     call_fd = \<lambda>cb a fd m p st. Inr (st\<lparr>world := world st @ [a]\<rparr>),
     call_user = \<lambda>cb a ty d p st. Inr (st\<lparr>world := world st @ [the d]\<rparr>)\<rparr>"

theorem dispatch_timers_witness:
  "\<exists>st'. dispatch_timers 3 log_callbacks (secs 6) 0 evp_ex = Inr (1, st') \<and> timers_ok st' [4] \<and> world st' = [2]"
proof -
  have C: "cb_world_only log_callbacks (\<lambda>cb a p w. w @ [a])" by (simp add: cb_world_only_def log_callbacks_def)
  show ?thesis
    using dispatch_timers_correct [OF evp_ex_ok C secs_simps(1) [of 6], of 3 0]
    by (simp add: due_def evp_ex_deadline secs_simps fire_def) (simp add: evp_ex_def)
qed

text \<open>C15: 
  Callbacks may register and unregister timers, their own and others. Let \<open>I\<close> be an invariant of the pump such that
  every callback, called in a state with \<open>I\<close> and a well-formed queue, returns, keeps both and leaves no more timers
  due than there were (what it registers lies in the future of the reading \<open>now\<close>). Then dispatching ends within as
  many rounds as timers were due and one more, no access goes to a timer that is gone, \<open>I\<close> and the queue are kept and
  no timer that is due is left. A periodic timer, whose callback sets its interval and registers it again, is an
  instance (\<open>dispatch_timers_safe_witness\<close>), and so are callbacks that cancel other timers (\<open>cancelling_ok\<close>).
\<close>

theorem dispatch_timers_safe:
  assumes "timers_ok st ts" "I st" "cb_keeps_queue I C (nanos now)" "survives_pop I" "normal_ts now"
    and "length (due st (nanos now) ts) < fuel"
  shows "\<exists>k st' ts'. dispatch_timers fuel C now n st = Inr (k, st') \<and> I st' \<and> timers_ok st' ts' \<and> due st' (nanos now) ts' = []"
  using dispatch_timers_ok [OF assms(3-5,1,2,6), of n] by blast

text \<open>Callbacks that unregister the timer their private pointer names.\<close>

definition cancelling :: "addr list callbacks" where
  "cancelling = log_callbacks\<lparr>call_timer := \<lambda>cb a p st. (case p of None \<Rightarrow> Inr st
     | Some b \<Rightarrow> if tevs st b = None then Inr st else Evp_unregister_timer p st)\<rparr>"

lemma cancelling_ok: "cb_keeps_queue (\<lambda>_. True) cancelling now" "survives_pop (\<lambda>_. True)"
proof -
  have "\<exists>st' ts'. call_timer cancelling cb a p st = Inr st' \<and> timers_ok st' ts' \<and> length (due st' now ts') \<le> length (due st now ts)"
    if ok: "timers_ok st ts" for cb a p st ts
  proof (cases "\<exists>b t. p = Some b \<and> tevs st b = Some t")
    case True
    then obtain b t where b: "p = Some b" "tevs st b = Some t" by blast
    obtain st' where st': "Evp_unregister_timer (Some b) st = Inr st'" "timers_ok st' (remove1 b ts)"
      "\<forall>x. deadline st' x = deadline st x" using unregister_any [OF ok b(2)] by blast
    have "length (due st' now (remove1 b ts)) \<le> length (due st now ts)"
      using st'(3) by (simp add: due_def filter_remove1 length_remove1)
    then show ?thesis using b st' by (auto simp: cancelling_def)
  next
    case False
    then have "call_timer cancelling cb a p st = Inr st" by (auto simp: cancelling_def split: option.splits)
    then show ?thesis using ok by blast
  qed
  then show "cb_keeps_queue (\<lambda>_. True) cancelling now" unfolding cb_keeps_queue_def by blast
qed (simp add: survives_pop_def)

text \<open>
  Periodic timers, as the header describes them: the callback sets the interval, here three seconds, and registers its
  own timer again. The invariant bounds the number of timers, for the search in the queue.
\<close>

definition env_at :: "nat \<Rightarrow> addr list event_env" where
  "env_at n = env_ex\<lparr>ev_clock := \<lambda>w. (secs n, w)\<rparr>"

definition periodic :: "nat \<Rightarrow> addr list event_env \<Rightarrow> addr list callbacks" where
  "periodic fuel E = log_callbacks\<lparr>call_timer := \<lambda>cb a p st.
     bindE (update (tevs st) (Some a) (Evp_set_timer_interval_secs 3)) (\<lambda>ts.
     bindE (Evp_register_timer fuel E (Some a) (st\<lparr>tevs := ts\<rparr>)) (\<lambda>(rc, st).
     Inr st))\<rparr>"

definition few_timers :: "nat \<Rightarrow> 'w evp \<Rightarrow> bool" where
  "few_timers fuel st \<longleftrightarrow> finite (dom (tevs st)) \<and> card (dom (tevs st)) < fuel"

lemma few_timers_length:
  assumes "few_timers fuel st" "timers_ok st ts"
  shows "length ts < fuel"
proof -
  have "set ts \<subseteq> dom (tevs st)" using timers_okD(3) [OF assms(2)] by blast
  then have "card (set ts) \<le> card (dom (tevs st))" using assms(1) by (simp add: few_timers_def card_mono)
  then show ?thesis using assms(1) dll_inv_distinct [OF timers_okD(1) [OF assms(2)]]
    by (simp add: few_timers_def distinct_card)
qed

text \<open>A timer outside the queue may be given any other members.\<close>

lemma timers_ok_upd:
  assumes "timers_ok st ts" "a \<notin> set ts" "a \<in> dom (tevs st)" "\<not> tev_registered t"
  shows "timers_ok (st\<lparr>tevs := (tevs st)(a \<mapsto> t)\<rparr>) ts"
proof -
  have "map (deadline (st\<lparr>tevs := (tevs st)(a \<mapsto> t)\<rparr>)) ts = map (deadline st) ts"
    using assms(2) by (auto simp: deadline_def)
  then have "sorted (map (deadline (st\<lparr>tevs := (tevs st)(a \<mapsto> t)\<rparr>)) ts)" by (simp only: timers_okD(5) [OF assms(1)])
  then show ?thesis using assms unfolding timers_ok_def by auto
qed

lemma due_put_timer:
  fixes f f' :: "addr \<Rightarrow> int"
  assumes "now < f' a" "\<And>x. x \<in> set ts \<Longrightarrow> f' x = f x"
  shows "filter (\<lambda>x. f' x \<le> now) (put_timer g d a ts) = filter (\<lambda>x. f x \<le> now) ts"
proof -
  have "filter (\<lambda>x. f' x \<le> now) (put_timer g d a ts) =
      filter (\<lambda>x. f' x \<le> now) (takeWhile (\<lambda>x. g x \<le> d) ts @ dropWhile (\<lambda>x. g x \<le> d) ts)"
    unfolding put_timer_def filter_append using assms(1) by simp
  also have "\<dots> = filter (\<lambda>x. f x \<le> now) ts" using assms(2) by (simp cong: filter_cong)
  finally show ?thesis .
qed

lemma periodic_ok: "cb_keeps_queue (few_timers fuel) (periodic fuel (env_at 20)) (nanos (secs 20))"
  unfolding cb_keeps_queue_def
proof (intro allI impI)
  fix cb a :: addr and p t and st :: "addr list evp" and ts
  assume few: "few_timers fuel st" and ok: "timers_ok st ts" and a: "a \<notin> set ts" and t: "tevs st a = Some t" "\<not> tev_registered t"
    and cb: "tev_cb t = Some cb"
  define t1 where "t1 = t\<lparr>tev_tspec := secs 3\<rparr>"
  define st1 where "st1 = st\<lparr>tevs := (tevs st)(a \<mapsto> t1)\<rparr>"
  have call: "call_timer (periodic fuel (env_at 20)) cb a p st =
      bindE (Evp_register_timer fuel (env_at 20) (Some a) st1) (\<lambda>(rc, st). Inr st)"
    using t(1) by (simp add: periodic_def st1_def t1_def secs_def Evp_set_timer_interval_secs_def)
  have ok1: "timers_ok st1 ts" using timers_ok_upd [OF ok a, of t1] t by (auto simp: st1_def t1_def)
  have "tevs st1 a = Some t1" "\<not> tev_registered t1" "tev_cb t1 \<noteq> NULL" "normal_ts (tev_tspec t1)"
    using t(2) cb by (simp_all add: st1_def t1_def secs_simps)
  from register_ok [OF ok1 this, of "env_at 20" "secs 20" "world st1" fuel] obtain s l st2 where r:
    "Evp_register_timer fuel (env_at 20) (Some a) st1 = Inr (ERRORCODE_SUCCESS, st2)"
    "timers_ok st2 (put_timer (deadline st1) (nanos (secs 20) + nanos (secs 3)) a ts)"
    "st2 = st1\<lparr>tlinks := s, timers := l,
      tevs := (tevs st1)(a \<mapsto> t1\<lparr>tev_tspec := timespec_add (secs 20) (secs 3), tev_registered := True\<rparr>)\<rparr>"
    using few_timers_length [OF few ok] a by (auto simp: env_at_def secs_simps t1_def)
  have "deadline st2 a = 23000000000"
    using timespec_add_later(1) [of "secs 20" "secs 3"] by (simp add: r(3) deadline_def secs_simps)
  moreover have "\<And>x. x \<in> set ts \<Longrightarrow> deadline st2 x = deadline st x" using a by (auto simp: r(3) st1_def deadline_def)
  ultimately have "due st2 (nanos (secs 20)) (put_timer (deadline st1) (nanos (secs 20) + nanos (secs 3)) a ts) = due st (nanos (secs 20)) ts"
    unfolding due_def by (intro due_put_timer) (simp_all add: secs_simps)
  moreover have "few_timers fuel st2" using few t(1) by (simp add: few_timers_def r(3) st1_def insert_absorb domI)
  ultimately show "\<exists>st' ts'. call_timer (periodic fuel (env_at 20)) cb a p st = Inr st' \<and> few_timers fuel st' \<and> timers_ok st' ts' \<and>
      length (due st' (nanos (secs 20)) ts') \<le> length (due st (nanos (secs 20)) ts)"
    using r(1,2) call by (intro exI [of _ st2] exI [of _ "put_timer (deadline st1) (nanos (secs 20) + nanos (secs 3)) a ts"]) simp
qed

lemma few_timers_pop: "survives_pop (few_timers fuel)"
  by (auto simp: survives_pop_def few_timers_def insert_absorb domI)

theorem dispatch_timers_safe_witness:
  "\<exists>k st' ts'. dispatch_timers 3 (periodic 4 (env_at 20)) (secs 20) 0 evp_ex = Inr (k, st') \<and> few_timers 4 st' \<and>
     timers_ok st' ts' \<and> due st' (nanos (secs 20)) ts' = []"
proof -
  have "dom (tevs evp_ex) = {2, 3, 4}" by (auto simp: evp_ex_def split: if_splits)
  then have "few_timers 4 evp_ex" by (simp add: few_timers_def)
  from dispatch_timers_safe [OF evp_ex_ok this periodic_ok few_timers_pop secs_simps(1), of 3 0] show ?thesis by (simp add: due_def)
qed

end
