(* ===== verification/Event_Queues.thy ===== *)
theory Event_Queues
  imports Event_Timers
begin

text \<open>
  User events and descriptor events of the pump: what is pushed is delivered once, in order, to the watch of its
  type; a new handle is well-formed. Stated as well are the places where the code departs from its header: a batch of
  more than two events from epoll, watches of a type other than 0, monitors that are unregistered while queued.
\<close>

section \<open>User events\<close>

definition watch_ok :: "'w evp \<Rightarrow> bool" where
  "watch_ok st \<longleftrightarrow> length (watch st) = MAX_USER_EVENT_TYPE_VALUE \<and>
     (\<forall>i wa. i < MAX_USER_EVENT_TYPE_VALUE \<longrightarrow> watch st ! i = Some wa \<longrightarrow>
        (\<exists>x. watches st wa = Some x \<and> uw_cb x \<noteq> NULL \<and> unat (uw_event_type x) = i))"

definition uevs_ok :: "'w evp \<Rightarrow> addr list \<Rightarrow> bool" where
  "uevs_ok st us \<longleftrightarrow> staq_inv (ulinks st) (uevq st) us \<and> \<not> uev_mtx st \<and> watch_ok st \<and>
     (\<forall>a\<in>set us. \<exists>u. uevs st a = Some u \<and> unat (ue_event_type u) < MAX_USER_EVENT_TYPE_VALUE)"

lemma watch_ok_same: "watch_ok st \<Longrightarrow> watch st' = watch st \<Longrightarrow> watches st' = watches st \<Longrightarrow> watch_ok st'"
  by (simp add: watch_ok_def)

lemma notify_ok:
  assumes "fdevs st (sem st) = Some f" "write_ok (ev_io E) (fde_fd f) sink"
  shows "\<exists>rc w. notify_event_pushlished E st = Inr (rc, st\<lparr>world := w\<rparr>) \<and> rc \<in> {ERRORCODE_SUCCESS, ERROR_WRITE}"
proof -
  have "length one_as_bytes = 8" by (simp add: one_as_bytes_def)
  then obtain n w k where "try_write 99 (ev_io E) (fde_fd f) one_as_bytes 8 (world st) = Inr (n, w)"
    using try_write_ok [OF assms(2), of one_as_bytes 99 "world st"] by auto
  then show ?thesis
    using assms(1) by (intro exI [of _ "if n \<noteq> 8 then ERROR_WRITE else ERRORCODE_SUCCESS"] exI [of _ w])
      (simp add: notify_event_pushlished_def)
qed

lemma push_uev_ok:
  assumes ok: "uevs_ok st us" and a: "a \<notin> dom (ulinks st)" and ty: "unat ty < MAX_USER_EVENT_TYPE_VALUE"
    and f: "fdevs st (sem st) = Some f" "write_ok (ev_io E) (fde_fd f) sink"
  shows "\<exists>rc st'. Evp_push_uev E a ty d st = Inr (rc, st') \<and> uevs_ok st' (us @ [a]) \<and> rc \<in> {ERRORCODE_SUCCESS, ERROR_WRITE} \<and>
    uevs st' = (uevs st)(a \<mapsto> \<lparr>ue_event_type = ty, ue_data = d\<rparr>) \<and> dom (ulinks st') = insert a (dom (ulinks st)) \<and>
    watch st' = watch st \<and> watches st' = watches st \<and> fdevs st' = fdevs st \<and> sem st' = sem st \<and>
    (\<exists>st0. notify_event_pushlished E st0 = Inr (rc, st') \<and> world st0 = world st \<and> fdevs st0 = fdevs st \<and> sem st0 = sem st)"
proof -
  let ?s = "(ulinks st)(a \<mapsto> \<lparr>sq_next = NULL\<rparr>)"
  have us: "a \<notin> set us" using ok a staq_inv_dom unfolding uevs_ok_def by blast
  have inv: "staq_inv ?s (uevq st) us" using ok us by (simp add: uevs_ok_def staq_inv_def)
  obtain s q where sq: "Staq_pushback ?s (uevq st) (Some a) = Inr (s, q)" "staq_inv s q (us @ [a])" "dom s = dom ?s"
    using Staq_pushback_inv [OF inv, of a "\<lparr>sq_next = NULL\<rparr>"] us frame_dom by (metis fun_upd_same)
  define st1 where "st1 = st\<lparr>uevs := (uevs st)(a \<mapsto> \<lparr>ue_event_type = ty, ue_data = d\<rparr>), ulinks := s, uevq := q, uev_mtx := False\<rparr>"
  obtain rc w where rc: "notify_event_pushlished E st1 = Inr (rc, st1\<lparr>world := w\<rparr>)" "rc \<in> {ERRORCODE_SUCCESS, ERROR_WRITE}"
    using notify_ok [of st1 f E sink] f by (auto simp: st1_def)
  have "Evp_push_uev E a ty d st = notify_event_pushlished E st1"
    using ty ok sq(1) by (simp add: Evp_push_uev_def lock_mutex_def unlock_mutex_def uevs_ok_def st1_def)
  moreover have "uevs_ok (st1\<lparr>world := w\<rparr>) (us @ [a])"
    using ok sq(2) ty us by (auto simp: uevs_ok_def st1_def watch_ok_def)
  moreover have "world st1 = world st" "fdevs st1 = fdevs st" "sem st1 = sem st" by (simp_all add: st1_def)
  ultimately show ?thesis using rc sq(3)
    by (intro exI [of _ rc] exI [of _ "st1\<lparr>world := w\<rparr>"] conjI exI [of _ st1]) (simp_all add: st1_def)
qed

text \<open>A run of pushes, whose results a publisher need not look at.\<close>

definition push_one :: "'w event_env \<Rightarrow> 'w evp \<Rightarrow> addr \<times> 32 word \<times> ptr \<Rightarrow> 'w evp res" where
  "push_one E st e = (case e of (a, ty, d) \<Rightarrow> bindE (Evp_push_uev E a ty d st) (\<lambda>(rc, st). Inr st))"

lemma push_all_ok:
  assumes f: "fdevs st (sem st) = Some f" "write_ok (ev_io E) (fde_fd f) sink"
  shows "uevs_ok st us \<Longrightarrow> distinct (map fst es) \<Longrightarrow> fst ` set es \<inter> dom (ulinks st) = {} \<Longrightarrow>
    (\<forall>(a, ty, d)\<in>set es. unat ty < MAX_USER_EVENT_TYPE_VALUE) \<Longrightarrow> fdevs st (sem st) = Some f \<Longrightarrow>
    \<exists>st'. foldE (push_one E) st es = Inr st' \<and> uevs_ok st' (us @ map fst es) \<and>
      (\<forall>(a, ty, d)\<in>set es. uevs st' a = Some \<lparr>ue_event_type = ty, ue_data = d\<rparr>) \<and>
      (\<forall>a. a \<notin> fst ` set es \<longrightarrow> uevs st' a = uevs st a) \<and> watch st' = watch st \<and> watches st' = watches st \<and>
      dom (ulinks st') = dom (ulinks st) \<union> fst ` set es \<and> fdevs st' = fdevs st \<and> sem st' = sem st"
proof (induction es arbitrary: st us)
  case Nil
  then show ?case by simp
next
  case (Cons e es)
  obtain a ty d where e: "e = (a, ty, d)" by (cases e) auto
  have a: "a \<notin> dom (ulinks st)" "unat ty < MAX_USER_EVENT_TYPE_VALUE" using Cons.prems(3,4) by (auto simp: e)
  obtain rc st1 where 1: "Evp_push_uev E a ty d st = Inr (rc, st1)" "uevs_ok st1 (us @ [a])"
      "uevs st1 = (uevs st)(a \<mapsto> \<lparr>ue_event_type = ty, ue_data = d\<rparr>)" "dom (ulinks st1) = insert a (dom (ulinks st))"
      "watch st1 = watch st" "watches st1 = watches st" "fdevs st1 = fdevs st" "sem st1 = sem st"
    using push_uev_ok [OF Cons.prems(1) a Cons.prems(5) f(2), of d] by blast
  have "\<exists>st'. foldE (push_one E) st1 es = Inr st' \<and> uevs_ok st' ((us @ [a]) @ map fst es) \<and>
      (\<forall>(a, ty, d)\<in>set es. uevs st' a = Some \<lparr>ue_event_type = ty, ue_data = d\<rparr>) \<and>
      (\<forall>a. a \<notin> fst ` set es \<longrightarrow> uevs st' a = uevs st1 a) \<and> watch st' = watch st1 \<and> watches st' = watches st1 \<and>
      dom (ulinks st') = dom (ulinks st1) \<union> fst ` set es \<and> fdevs st' = fdevs st1 \<and> sem st' = sem st1"
    using Cons.prems 1 by (intro Cons.IH) (auto simp: e)
  then obtain st' where 2: "foldE (push_one E) st1 es = Inr st'" "uevs_ok st' ((us @ [a]) @ map fst es)"
      "\<forall>(a, ty, d)\<in>set es. uevs st' a = Some \<lparr>ue_event_type = ty, ue_data = d\<rparr>"
      "\<forall>a. a \<notin> fst ` set es \<longrightarrow> uevs st' a = uevs st1 a" "watch st' = watch st1" "watches st' = watches st1"
      "dom (ulinks st') = dom (ulinks st1) \<union> fst ` set es" "fdevs st' = fdevs st1" "sem st' = sem st1" by blast
  have "a \<notin> fst ` set es" using Cons.prems(2) by (auto simp: e)
  moreover have "push_one E st e = Inr st1" by (simp add: push_one_def e 1(1))
  ultimately show ?case using 1 2 by (intro exI [of _ st']) (auto simp: e)
qed

text \<open>
  What the callbacks of the watches do, seen from outside: a reaction maps the call and what the pump shows (the array
  of watches, the watches in memory and an observation \<open>L\<close> of the world) to what it shows afterwards and the events
  that are pushed meanwhile. \<open>hand\<close> gives an event to the watch of its type, if there is one; \<open>drain\<close> is the
  dispatcher reduced to this: take the first event, hand it over, put what is pushed behind the others.
\<close>

type_synonym 'l watched = "ptr list \<times> user_event_watch store \<times> 'l"

type_synonym 'l reaction = "addr \<Rightarrow> addr \<Rightarrow> 32 word \<Rightarrow> ptr \<Rightarrow> ptr \<Rightarrow> 'l watched \<Rightarrow> 'l watched \<times> (32 word \<times> ptr) list"

definition hand :: "'l reaction \<Rightarrow> 32 word \<times> ptr \<Rightarrow> 'l watched \<Rightarrow> 'l watched \<times> (32 word \<times> ptr) list" where
  "hand g e v = (case v of (ws, xs, l) \<Rightarrow> case ws ! unat (fst e) of None \<Rightarrow> (v, [])
     | Some wa \<Rightarrow> g (the (uw_cb (the (xs wa)))) wa (fst e) (snd e) (uw_priv (the (xs wa))) v)"

fun drain :: "nat \<Rightarrow> 'l reaction \<Rightarrow> (32 word \<times> ptr) list \<Rightarrow> 'l watched \<Rightarrow> 'l watched option" where
  "drain 0 g es v = None"
| "drain (Suc n) g [] v = Some v"
| "drain (Suc n) g (e # es) v = (case hand g e v of (v, pushed) \<Rightarrow> drain n g (es @ pushed) v)"

text \<open>Where no callback pushes events, every event is handed over once, in its order, and the dispatcher ends.\<close>

lemma drain_passive:
  assumes "\<And>cb wa ty d p v. snd (g cb wa ty d p v) = []"
  shows "length es < n \<Longrightarrow> drain n g es v = Some (foldl (\<lambda>v e. fst (hand g e v)) v es)"
proof (induction es arbitrary: n v)
  case Nil
  then show ?case by (cases n) simp_all
next
  case (Cons e es)
  have "snd (hand g e v) = []" using assms by (auto simp: hand_def split: prod.splits option.splits)
  then show ?case using Cons by (cases n) (auto simp: split_beta)
qed

definition payload :: "'w evp \<Rightarrow> addr \<Rightarrow> 32 word \<times> ptr" where
  "payload st a = (ue_event_type (the (uevs st a)), ue_data (the (uevs st a)))"

definition shown :: "('w \<Rightarrow> 'l) \<Rightarrow> 'w evp \<Rightarrow> 'l watched" where
  "shown L st = (watch st, watches st, L (world st))"

text \<open>
  The condition on the callbacks: called for the event \<open>a\<close>, which is off the queue and not freed yet, in a state with a
  well-formed queue and an invariant \<open>I\<close> of the user's own choice, they return, keep both, react as \<open>g\<close> says, and leave
  the queued events alone: they may register and unregister watches, timers and monitors and push new events, which go
  behind the queued ones. The dispatcher itself must not disturb \<open>I\<close> by taking an event out and freeing it.
\<close>

definition cb_user_reacts :: "('w evp \<Rightarrow> bool) \<Rightarrow> ('w \<Rightarrow> 'l) \<Rightarrow> 'w callbacks \<Rightarrow> 'l reaction \<Rightarrow> bool" where
  "cb_user_reacts I L C g \<longleftrightarrow>
     (\<forall>st us a wa x cb. I st \<longrightarrow> uevs_ok st us \<longrightarrow> a \<notin> set us \<longrightarrow> a \<in> dom (ulinks st) \<longrightarrow> a \<in> dom (uevs st) \<longrightarrow>
        unat (fst (payload st a)) < MAX_USER_EVENT_TYPE_VALUE \<longrightarrow> watch st ! unat (fst (payload st a)) = Some wa \<longrightarrow>
        watches st wa = Some x \<longrightarrow> uw_cb x = Some cb \<longrightarrow> uw_event_type x = fst (payload st a) \<longrightarrow>
        (\<exists>st' new. call_user C cb wa (fst (payload st a)) (snd (payload st a)) (uw_priv x) st = Inr st' \<and> I st' \<and>
           uevs_ok st' (us @ new) \<and> a \<notin> set new \<and> (\<forall>b\<in>insert a (set us). uevs st' b = uevs st b) \<and>
           dom (uevs st') = dom (uevs st) \<union> set new \<and> a \<in> dom (ulinks st') \<and>
           g cb wa (fst (payload st a)) (snd (payload st a)) (uw_priv x) (shown L st) = (shown L st', map (payload st') new)))"

definition survives_take :: "('w evp \<Rightarrow> bool) \<Rightarrow> bool" where
  "survives_take I \<longleftrightarrow> (\<forall>st q. I st \<longrightarrow> I (st\<lparr>uevq := q\<rparr>)) \<and>
     (\<forall>st a. I st \<longrightarrow> I (st\<lparr>ulinks := (ulinks st)(a := None), uevs := (uevs st)(a := None)\<rparr>))"

lemma deliver_ok:
  assumes C: "cb_user_reacts I L C g" "I st" and ok: "uevs_ok st us" and u: "uevs st a = Some u"
    and ty: "unat (ue_event_type u) < MAX_USER_EVENT_TYPE_VALUE" and a: "a \<notin> set us" "a \<in> dom (ulinks st)"
  shows "\<exists>k st' new. deliver C u n st = Inr (k, st') \<and> I st' \<and> uevs_ok st' (us @ new) \<and> a \<notin> set new \<and>
    (\<forall>b\<in>insert a (set us). uevs st' b = uevs st b) \<and> dom (uevs st') = dom (uevs st) \<union> set new \<and>
    hand g (payload st a) (shown L st) = (shown L st', map (payload st') new)"
proof (cases "watch st ! unat (ue_event_type u)")
  case None
  then show ?thesis using ty C(2) ok u
    by (intro exI [of _ n] exI [of _ st] exI [of _ "[]"]) (simp add: deliver_def hand_def payload_def shown_def)
next
  case (Some wa)
  then obtain x where x: "watches st wa = Some x" "uw_cb x \<noteq> NULL" "unat (uw_event_type x) = unat (ue_event_type u)"
    using ok ty unfolding uevs_ok_def watch_ok_def by blast
  then obtain cb where cb: "uw_cb x = Some cb" by blast
  have t: "uw_event_type x = ue_event_type u" using x(3) by (simp only: word_unat_eq_iff)
  have pl: "payload st a = (ue_event_type u, ue_data u)" by (simp add: payload_def u)
  obtain st' new where st': "call_user C cb wa (ue_event_type u) (ue_data u) (uw_priv x) st = Inr st'" "I st'"
      "uevs_ok st' (us @ new)" "a \<notin> set new" "\<forall>b\<in>insert a (set us). uevs st' b = uevs st b"
      "dom (uevs st') = dom (uevs st) \<union> set new"
      "g cb wa (ue_event_type u) (ue_data u) (uw_priv x) (shown L st) = (shown L st', map (payload st') new)"
    using C(1) [unfolded cb_user_reacts_def, rule_format, of st us a wa x cb] C(2) ok a u ty Some x(1) cb t unfolding pl fst_conv snd_conv
    by blast
  have "deliver C u n st = Inr (n + 1, st')" using Some x ty cb t st'(1) by (simp add: deliver_def)
  moreover have "hand g (payload st a) (shown L st) = (shown L st', map (payload st') new)"
    unfolding pl st'(7) [symmetric] by (simp add: hand_def shown_def Some x(1) cb)
  ultimately show ?thesis using st'(2-6) by blast
qed

lemma dispatch_uevs_ok:
  assumes C: "cb_user_reacts I L C g" "survives_take I"
  shows "uevs_ok st us \<Longrightarrow> I st \<Longrightarrow> drain fuel g (map (payload st) us) (shown L st) = Some v \<Longrightarrow>
    \<exists>k st'. dispatch_uevs fuel C n st = Inr (k, st') \<and> I st' \<and> uevs_ok st' [] \<and> shown L st' = v \<and>
      dom (uevs st') \<subseteq> dom (uevs st) - set us"
proof (induction fuel arbitrary: st us n)
  case 0
  then show ?case by simp
next
  case (Suc fuel)
  show ?case
  proof (cases us)
    case Nil
    have "st\<lparr>uev_mtx := False\<rparr> = st" "\<not> uev_mtx st" "staq_inv (ulinks st) (uevq st) []"
      using Suc.prems(1) by (simp_all add: uevs_ok_def Nil)
    then have "dispatch_uevs (Suc fuel) C n st = Inr (n, st)"
      by (simp add: lock_mutex_def unlock_mutex_def Staq_popfront_Nil)
    then show ?thesis using Nil Suc.prems by simp
  next
    case (Cons a rest)
    have ok: "staq_inv (ulinks st) (uevq st) (a # rest)" "\<not> uev_mtx st" "watch_ok st"
      and all: "\<forall>a\<in>set (a # rest). \<exists>u. uevs st a = Some u \<and> unat (ue_event_type u) < MAX_USER_EVENT_TYPE_VALUE"
      using Suc.prems(1) by (auto simp: uevs_ok_def Cons)
    obtain q where q: "Staq_popfront (ulinks st) (uevq st) = Inr (Some a, ulinks st, q)" "staq_inv (ulinks st) q rest"
      using Staq_popfront_Cons [OF ok(1)] by blast
    obtain u where u: "uevs st a = Some u" "unat (ue_event_type u) < MAX_USER_EVENT_TYPE_VALUE" using all by auto
    have a: "a \<notin> set rest" "a \<in> dom (ulinks st)" using ok(1) staq_inv_dom [OF ok(1)] by (auto simp: staq_inv_def)
    define st1 where "st1 = st\<lparr>uevq := q\<rparr>"
    have st1: "st\<lparr>ulinks := ulinks st, uevq := q, uev_mtx := False\<rparr> = st1" using ok(2) by (simp add: st1_def)
    have ok1: "uevs_ok st1 rest" using q(2) ok all by (auto simp: uevs_ok_def st1_def watch_ok_def)
    have I1: "I st1" using C(2) Suc.prems(2) by (simp add: survives_take_def st1_def)
    have same: "payload st1 = payload st" "shown L st1 = shown L st" "uevs st1 = uevs st" "ulinks st1 = ulinks st"
      by (simp_all add: st1_def payload_def fun_eq_iff shown_def)
    obtain k st2 new where d: "deliver C u n st1 = Inr (k, st2)" "I st2" "uevs_ok st2 (rest @ new)" "a \<notin> set new"
        "\<forall>b\<in>insert a (set rest). uevs st2 b = uevs st1 b" "dom (uevs st2) = dom (uevs st1) \<union> set new"
        "hand g (payload st1 a) (shown L st1) = (shown L st2, map (payload st2) new)"
      using deliver_ok [OF C(1) I1 ok1, of a u n] u a same by auto
    define st3 where "st3 = st2\<lparr>ulinks := (ulinks st2)(a := None), uevs := (uevs st2)(a := None)\<rparr>"
    have free: "free_uev a st2 = Inr st3" using d(5) u(1) same by (simp add: free_uev_def st3_def)
    have "I st3" using C(2) d(2) by (simp add: survives_take_def st3_def)
    moreover have "uevs_ok st3 (rest @ new)"
      using d(3,4) a(1) unfolding uevs_ok_def st3_def by (auto simp: staq_inv_def watch_ok_def)
    moreover have pl: "map (payload st3) (rest @ new) = map (payload st) rest @ map (payload st2) new"
    proof -
      have "payload st3 b = payload st b" if "b \<in> set rest" for b
        using that d(5) a(1) same by (auto simp: payload_def st3_def)
      moreover have "payload st3 b = payload st2 b" if "b \<in> set new" for b
        using that d(4) by (auto simp: payload_def st3_def)
      ultimately show ?thesis by simp
    qed
    moreover have sh: "shown L st3 = shown L st2" by (simp add: st3_def shown_def)
    ultimately have "\<exists>k' st'. dispatch_uevs fuel C k st3 = Inr (k', st') \<and> I st' \<and> uevs_ok st' [] \<and> shown L st' = v \<and>
        dom (uevs st') \<subseteq> dom (uevs st3) - set (rest @ new)"
      using Suc.prems(3) d(7) by (intro Suc.IH) (simp_all only: pl sh same Cons list.map drain.simps prod.case)
    moreover have "dom (uevs st3) - set (rest @ new) \<subseteq> dom (uevs st) - set us"
      using d(6) same by (auto simp: st3_def Cons)
    moreover have "dispatch_uevs (Suc fuel) C n st = dispatch_uevs fuel C k st3"
      using ok(2) q(1) u(1) d(1) free st1 same by (simp add: lock_mutex_def unlock_mutex_def)
    ultimately show ?thesis by (metis order_trans)
  qed
qed

section \<open>Descriptor events\<close>

lemma push_os_event_ok:
  assumes "dll_inv (flinks st) (evq st) es" "a \<notin> set es" "flinks st a = Some n" "fdevs st a = Some f"
  shows "\<exists>s l. push_os_event (m, Some a) st =
      Inr (st\<lparr>fdevs := (fdevs st)(a \<mapsto> f\<lparr>fde_revents := translate_events m\<rparr>), flinks := s, evq := l\<rparr>) \<and>
    dll_inv s l (es @ [a]) \<and> dom s = dom (flinks st)"
proof -
  obtain s l where "Dll_push_back (flinks st) (evq st) (Some a) = Inr (s, l)" "dll_inv s l (es @ [a])" "dom s = dom (flinks st)"
    using Dll_push_back_inv [OF assms(1,3,2)] frame_dom by metis
  then show ?thesis using assms(4) by (intro exI [of _ s] exI [of _ l]) (simp add: push_os_event_def)
qed

text \<open>Entries the kernel may report: distinct monitors in memory that are not queued yet.\<close>

definition batch_ok :: "'w evp \<Rightarrow> addr list \<Rightarrow> (32 word \<times> ptr) list \<Rightarrow> addr list \<Rightarrow> bool" where
  "batch_ok st es buff bs \<longleftrightarrow> map snd buff = map Some bs \<and> distinct bs \<and> set bs \<inter> set es = {} \<and>
     set bs \<subseteq> dom (flinks st) \<and> set bs \<subseteq> dom (fdevs st) \<and> dll_inv (flinks st) (evq st) es"

lemma batch_step:
  assumes ok: "batch_ok st es (buff1 @ (m, p) # buff2) (bs1 @ a # bs2)" and len: "length buff1 = length bs1"
  shows "\<exists>st' s l. push_os_event (m, p) st = Inr st' \<and>
    st' = st\<lparr>fdevs := (fdevs st)(a \<mapsto> (the (fdevs st a))\<lparr>fde_revents := translate_events m\<rparr>), flinks := s, evq := l\<rparr> \<and>
    batch_ok st' (es @ [a]) buff2 bs2"
proof -
  have p: "p = Some a" "map snd buff2 = map Some bs2" using ok len by (auto simp: batch_ok_def)
  have a: "a \<notin> set es" "a \<in> dom (flinks st)" "a \<in> dom (fdevs st)" "dll_inv (flinks st) (evq st) es"
    using ok by (auto simp: batch_ok_def)
  obtain n f where nf: "flinks st a = Some n" "fdevs st a = Some f" using a by blast
  from push_os_event_ok [OF a(4,1) this, of m] obtain s l where
    "push_os_event (m, Some a) st = Inr (st\<lparr>fdevs := (fdevs st)(a \<mapsto> f\<lparr>fde_revents := translate_events m\<rparr>), flinks := s, evq := l\<rparr>)"
    "dll_inv s l (es @ [a])" "dom s = dom (flinks st)" by blast
  then show ?thesis using ok p nf(2)
    by (intro exI [of _ "st\<lparr>fdevs := (fdevs st)(a \<mapsto> f\<lparr>fde_revents := translate_events m\<rparr>), flinks := s, evq := l\<rparr>"] exI [of _ s] exI [of _ l])
      (auto simp: batch_ok_def)
qed

lemma batch_drop: "batch_ok st es buff bs \<Longrightarrow> batch_ok st es (drop k buff) (drop k bs)"
  unfolding batch_ok_def by (auto simp: drop_map [symmetric] dest: in_set_dropD)

text \<open>From the third round on the index of the entry is ahead of the round, so it leaves the batch before the loop ends.\<close>

lemma pump_overruns:
  assumes buff: "length buff = n"
  shows "batch_ok st es (drop ev buff) (drop ev bs) \<Longrightarrow> length bs = n \<Longrightarrow> i < n \<Longrightarrow> i < ev \<Longrightarrow> pump_loop_os buff n i ev st = Inl Uninit"
proof (induction "n - i" arbitrary: i ev st es)
  case 0
  then show ?case by simp
next
  case (Suc k)
  show ?case
  proof (cases "ev < n")
    case False
    then show ?thesis using Suc.prems buff by (simp add: pump_loop_os.simps [of _ _ i])
  next
    case True
    have "drop ev buff = [] @ (fst (buff ! ev), snd (buff ! ev)) # drop (Suc ev) buff" "drop ev bs = [] @ bs ! ev # drop (Suc ev) bs"
      using True buff Suc.prems(2) by (simp_all add: Cons_nth_drop_Suc)
    then obtain st' where st': "push_os_event (buff ! ev) st = Inr st'" "batch_ok st' (es @ [bs ! ev]) (drop (Suc ev) buff) (drop (Suc ev) bs)"
      using batch_step [of st es "[]" "fst (buff ! ev)" "snd (buff ! ev)" "drop (Suc ev) buff" "[]" "bs ! ev" "drop (Suc ev) bs"] Suc.prems(1)
      by auto
    have "batch_ok st' (es @ [bs ! ev]) (drop (ev + (i + 1)) buff) (drop (ev + (i + 1)) bs)"
      using batch_drop [OF st'(2), of i] by (simp add: add.commute)
    then have "pump_loop_os buff n (i + 1) (ev + (i + 1)) st' = Inl Uninit"
      using Suc.hyps(2) Suc.prems(2-4) True by (intro Suc.hyps(1)) auto
    then show ?thesis using True st'(1) buff Suc.prems(3) by (simp add: pump_loop_os.simps [of _ _ i])
  qed
qed

lemma pump_loop_step:
  "i < rc \<Longrightarrow> ev < length buff \<Longrightarrow> push_os_event (buff ! ev) st = Inr st' \<Longrightarrow>
     pump_loop_os buff rc i ev st = pump_loop_os buff rc (i + 1) (ev + (i + 1)) st'"
  by (simp add: pump_loop_os.simps [of _ _ i])

lemma pump_first_two:
  assumes ok: "batch_ok st es buff bs" and len: "length buff = n" "length bs = n"
  shows "n \<le> 2 \<Longrightarrow> \<exists>st'. pump_loop_os buff n 0 0 st = Inr st' \<and> dll_inv (flinks st') (evq st') (es @ bs) \<and>
      tlinks st' = tlinks st \<and> timers st' = timers st"
    and "2 < n \<Longrightarrow> pump_loop_os buff n 0 0 st = Inl Uninit"
proof -
  have inv: "dll_inv (flinks st) (evq st) es" using ok by (simp add: batch_ok_def)
  have step: "\<exists>st'. push_os_event e st = Inr st' \<and> batch_ok st' (es @ [a]) buff bs \<and> tlinks st' = tlinks st \<and> timers st' = timers st"
    if "batch_ok st es (e # buff) (a # bs)" for st :: "'a evp" and es e buff a bs
    using batch_step [of st es "[]" "fst e" "snd e" buff "[]" a bs] that by auto
  consider "n = 0" | e a where "buff = [e]" "bs = [a]" "n = 1"
    | e1 e2 buff' a1 a2 bs' where "buff = e1 # e2 # buff'" "bs = a1 # a2 # bs'" "n = length buff' + 2"
    using len by (cases buff; cases bs; cases "tl buff"; cases "tl bs") auto
  then have "(n \<le> 2 \<longrightarrow> (\<exists>st'. pump_loop_os buff n 0 0 st = Inr st' \<and> dll_inv (flinks st') (evq st') (es @ bs) \<and>
      tlinks st' = tlinks st \<and> timers st' = timers st)) \<and> (2 < n \<longrightarrow> pump_loop_os buff n 0 0 st = Inl Uninit)"
  proof cases
    case 1
    then show ?thesis using inv len by (simp add: pump_loop_os.simps)
  next
    case 2
    obtain st1 where "push_os_event e st = Inr st1" "batch_ok st1 (es @ [a]) [] []" "tlinks st1 = tlinks st" "timers st1 = timers st"
      using step [of st es e "[]" a "[]"] ok 2 by auto
    then show ?thesis using 2 by (simp add: pump_loop_os.simps batch_ok_def)
  next
    case 3
    obtain st1 where 1: "push_os_event e1 st = Inr st1" "batch_ok st1 (es @ [a1]) (e2 # buff') (a2 # bs')" "tlinks st1 = tlinks st" "timers st1 = timers st"
      using step [of st es e1 "e2 # buff'" a1 "a2 # bs'"] ok 3 by auto
    obtain st2 where 2: "push_os_event e2 st1 = Inr st2" "batch_ok st2 ((es @ [a1]) @ [a2]) buff' bs'" "tlinks st2 = tlinks st1" "timers st2 = timers st1"
      using step [OF 1(2)] by blast
    have two: "pump_loop_os buff n 0 0 st = pump_loop_os buff n 2 3 st2"
      using pump_loop_step [of 0 n 0 buff st st1] pump_loop_step [of 1 n 1 buff st1 st2] 1(1) 2(1) 3
      by (simp add: numeral_2_eq_2 numeral_3_eq_3)
    show ?thesis
    proof (cases "n = 2")
      case True
      then have "pump_loop_os buff n 0 0 st = Inr st2" unfolding two by (simp add: pump_loop_os.simps)
      moreover have "es @ bs = (es @ [a1]) @ [a2]" using True 3 len by simp
      ultimately show ?thesis using True 1(3,4) 2(2-4) by (simp only: batch_ok_def) simp
    next
      case False
      have "batch_ok st2 (es @ [a1, a2]) (drop 3 buff) (drop 3 bs)"
        using batch_drop [OF 2(2), of 1] 3 by (simp add: numeral_3_eq_3)
      then show ?thesis using pump_overruns [OF len(1), where st = st2 and es = "es @ [a1, a2]" and ev = 3 and bs = bs and i = 2]
          len(2) two False 3(3) by simp
    qed
  qed
  then show "n \<le> 2 \<Longrightarrow> \<exists>st'. pump_loop_os buff n 0 0 st = Inr st' \<and> dll_inv (flinks st') (evq st') (es @ bs) \<and>
      tlinks st' = tlinks st \<and> timers st' = timers st" and "2 < n \<Longrightarrow> pump_loop_os buff n 0 0 st = Inl Uninit"
    by blast+
qed

section \<open>A new handle\<close>

text \<open>
  Kernel calls that succeed: the descriptors they return are not negative. The memory of the handle is new, and no
  timer in memory is registered.
\<close>

definition calls_succeed :: "'w event_env \<Rightarrow> bool" where
  "calls_succeed E \<longleftrightarrow> (\<forall>w. 0 \<le> fst (ev_epoll_create E w) \<and> 0 \<le> fst (ev_eventfd E w) \<and> 0 \<le> fst (ev_timerfd_create E w)) \<and>
     (\<forall>h op fd m p w. 0 \<le> fst (ev_epoll_ctl E h op fd m p w)) \<and> (\<forall>op w. fst (ev_pthread E op w) = 0)"

text \<open>
  The kernel calls of a successful set-up in their order, with the three descriptors they return, and the calls that
  undo them.
\<close>

definition setup_calls :: "'w event_env \<Rightarrow> addr \<Rightarrow> addr \<Rightarrow> 'w \<Rightarrow> int \<times> int \<times> int \<times> 'w" where
  "setup_calls E a b w =
     (let (h, w) = ev_epoll_create E w;
          (s, w) = ev_eventfd E w;
          w = snd (ev_epoll_ctl E h EPOLL_CTL_ADD s (EPOLLIN OR EPOLLRDHUP) (Some a) w);
          (t, w) = ev_timerfd_create E w;
          w = snd (ev_epoll_ctl E h EPOLL_CTL_ADD t (EPOLLIN OR EPOLLRDHUP) (Some b) w)
      in (h, s, t, foldl (\<lambda>w op. snd (ev_pthread E op w)) w [AttrInit, AttrSettype, MutexInit, AttrDestroy]))"

definition teardown_calls :: "'w event_env \<Rightarrow> int \<Rightarrow> int \<Rightarrow> int \<Rightarrow> 'w \<Rightarrow> 'w" where
  "teardown_calls E h s t w =
     (let w = snd (ev_epoll_ctl E h EPOLL_CTL_DEL s 0 NULL w);
          w = snd (ev_epoll_ctl E h EPOLL_CTL_DEL t 0 NULL w)
      in snd (ev_pthread E MutexDestroy (ev_close E h (ev_close E t (ev_close E s w)))))"

lemma epoll_mask_readable: "epoll_mask FD_EVENT_READABLE = EPOLLIN OR EPOLLRDHUP"
  by (simp add: epoll_mask_def has_flag_def FD_EVENT_READABLE_def FD_EVENT_WRITABLE_def FD_EVENT_EDGE_TRIGGERED_def)

lemma add_monitor_ok:
  assumes "calls_succeed E" "fdevs st a = Some f" "0 \<le> fde_fd f" "\<not> fde_registered f" "osapi st = Some h"
  shows "add_fd_event_monitor E (Some a) st =
    Inr (0, st\<lparr>world := snd (ev_epoll_ctl E h EPOLL_CTL_ADD (fde_fd f) (epoll_mask (fde_evmask f)) (Some a) (world st))\<rparr>)"
proof -
  obtain rc w where e: "ev_epoll_ctl E h EPOLL_CTL_ADD (fde_fd f) (epoll_mask (fde_evmask f)) (Some a) (world st) = (rc, w)"
    by (metis surj_pair)
  then have "0 \<le> rc" using assms(1) unfolding calls_succeed_def by (metis fst_conv)
  then show ?thesis using e assms by (simp add: add_fd_event_monitor_def load_api_def)
qed

text \<open>The two descriptors of the handle are set up alike.\<close>

lemma semaphore_ok:
  assumes E: "calls_succeed E" "ev_eventfd E (world st) = (fd, w)" "fdevs st (sem st) = Some f" "\<not> fde_registered f" "osapi st = Some h"
  shows "initialize_eventfd_semaphore E st =
    Inr (0, st\<lparr>world := snd (ev_epoll_ctl E h EPOLL_CTL_ADD fd (EPOLLIN OR EPOLLRDHUP) (Some (sem st)) w),
      fdevs := (fdevs st)(sem st \<mapsto> f\<lparr>fde_evmask := FD_EVENT_READABLE, fde_fd := fd\<rparr>)\<rparr>)"
proof -
  have fd: "0 \<le> fd" using E(1,2) unfolding calls_succeed_def by (metis fst_conv)
  let ?f = "f\<lparr>fde_evmask := FD_EVENT_READABLE, fde_fd := fd\<rparr>"
  show ?thesis
    using add_monitor_ok [OF E(1), of "st\<lparr>world := w, fdevs := (fdevs st)(sem st \<mapsto> ?f)\<rparr>" "sem st" ?f h] fd E(2-5)
    by (simp add: initialize_eventfd_semaphore_def epoll_mask_readable)
qed

lemma wait_timer_ok:
  assumes E: "calls_succeed E" "ev_timerfd_create E (world st) = (fd, w)" "fdevs st (timerfd st) = Some f" "\<not> fde_registered f" "osapi st = Some h"
  shows "initialize_wait_timer E st =
    Inr (0, st\<lparr>world := snd (ev_epoll_ctl E h EPOLL_CTL_ADD fd (EPOLLIN OR EPOLLRDHUP) (Some (timerfd st)) w),
      fdevs := (fdevs st)(timerfd st \<mapsto> f\<lparr>fde_evmask := FD_EVENT_READABLE, fde_fd := fd\<rparr>)\<rparr>)"
proof -
  have fd: "0 \<le> fd" using E(1,2) unfolding calls_succeed_def by (metis fst_conv)
  let ?f = "f\<lparr>fde_evmask := FD_EVENT_READABLE, fde_fd := fd\<rparr>"
  show ?thesis
    using add_monitor_ok [OF E(1), of "st\<lparr>world := w, fdevs := (fdevs st)(timerfd st \<mapsto> ?f)\<rparr>" "timerfd st" ?f h] fd E(2-5)
    by (simp add: initialize_wait_timer_def epoll_mask_readable)
qed

lemma mutex_ok:
  assumes "calls_succeed E"
  shows "initialize_uevq_mutex E w = (0, foldl (\<lambda>w op. snd (ev_pthread E op w)) w [AttrInit, AttrSettype, MutexInit, AttrDestroy])"
proof -
  have p: "\<exists>w'. ev_pthread E op w = (0, w')" for op w using assms unfolding calls_succeed_def by (metis prod.collapse)
  obtain w1 where "ev_pthread E AttrInit w = (0, w1)" using p by blast
  moreover obtain w2 where "ev_pthread E AttrSettype w1 = (0, w2)" using p by blast
  moreover obtain w3 where "ev_pthread E MutexInit w2 = (0, w3)" using p by blast
  ultimately show ?thesis by (simp add: initialize_uevq_mutex_def)
qed

lemma clear_empty_staq: "Staq_clear s (Staq_init d) True = Inr (s, staq_initializer d)"
  by (simp add: Staq_clear_def Staq_init_def staq_initializer_def Staq_clear_loop.simps Staq_remove_def Staq_popfront_def)

definition armed :: "int \<Rightarrow> fd_event" where
  "armed fd = zero_fd_event\<lparr>fde_evmask := FD_EVENT_READABLE, fde_fd := fd\<rparr>"

lemma initialize_ok:
  assumes E: "calls_succeed E" "setup_calls E (sem st) (timerfd st) (world st) = (h, s, t, w)" "sem st \<noteq> timerfd st"
    and z: "fdevs st (sem st) = Some zero_fd_event" "fdevs st (timerfd st) = Some zero_fd_event"
  shows "initialize_event_pump_handle E st = Inr (ERRORCODE_SUCCESS,
    st\<lparr>osapi := Some h, world := w, fdevs := (fdevs st)(sem st \<mapsto> armed s, timerfd st \<mapsto> armed t),
       timers := Dll_init None, evq := Dll_init None,
       uevq := Staq_init (Some user_event_destructor), watch := replicate MAX_USER_EVENT_TYPE_VALUE NULL\<rparr>)"
proof -
  obtain h' w1 where h: "ev_epoll_create E (world st) = (h', w1)" by (metis surj_pair)
  obtain s' w2 where s: "ev_eventfd E w1 = (s', w2)" by (metis surj_pair)
  define w3 where "w3 = snd (ev_epoll_ctl E h' EPOLL_CTL_ADD s' (EPOLLIN OR EPOLLRDHUP) (Some (sem st)) w2)"
  obtain t' w4 where t: "ev_timerfd_create E w3 = (t', w4)" by (metis surj_pair)
  define w5 where "w5 = snd (ev_epoll_ctl E h' EPOLL_CTL_ADD t' (EPOLLIN OR EPOLLRDHUP) (Some (timerfd st)) w4)"
  have eq: "h' = h" "s' = s" "t' = t" "foldl (\<lambda>w op. snd (ev_pthread E op w)) w5 [AttrInit, AttrSettype, MutexInit, AttrDestroy] = w"
    using E(2) h s t by (auto simp: setup_calls_def w3_def w5_def)
  have unreg: "\<not> fde_registered zero_fd_event" by (simp add: zero_fd_event_def)
  have "0 \<le> h'" using E(1) h unfolding calls_succeed_def by (metis fst_conv)
  then have g: "get_os_api_handle E (world st) = (Some h', w1)" using h by (simp add: get_os_api_handle_def)
  let ?st1 = "st\<lparr>osapi := Some h', world := w3, fdevs := (fdevs st)(sem st \<mapsto> armed s')\<rparr>"
  have 1: "initialize_eventfd_semaphore E (st\<lparr>osapi := Some h', world := w1\<rparr>) = Inr (0, ?st1)"
    using semaphore_ok [OF E(1), of "st\<lparr>osapi := Some h', world := w1\<rparr>" s' w2 zero_fd_event h'] s z(1) unreg
    by (simp add: w3_def armed_def)
  let ?st2 = "st\<lparr>osapi := Some h', world := w5, fdevs := (fdevs st)(sem st \<mapsto> armed s', timerfd st \<mapsto> armed t')\<rparr>"
  have 2: "initialize_wait_timer E ?st1 = Inr (0, ?st2)"
    using wait_timer_ok [OF E(1), of ?st1 t' w4 zero_fd_event h'] t z(2) unreg E(3) by (simp add: w5_def armed_def)
  show ?thesis
    using g 1 2 mutex_ok [OF E(1), of w5] unfolding eq(4) by (simp add: initialize_event_pump_handle_def eq(1-3))
qed

section \<open>The properties of the component\<close>

text \<open>The pump of the timer examples with five descriptor events in memory and a watch for events of type 0.\<close>

definition fd_at :: "int \<Rightarrow> fd_event" where
  "fd_at fd = \<lparr>fde_registered = True, fde_fd = fd, fde_evmask = FD_EVENT_READABLE, fde_revents = 0, fde_cb = Some 8, fde_priv = NULL\<rparr>"

definition free_link :: dlnode where
  "free_link = \<lparr>dl_next = NULL, dl_prev = NULL\<rparr>"

definition evp_fd_ex :: "addr list evp" where
  "evp_fd_ex = evp_ex\<lparr>
     flinks := [10 \<mapsto> free_link, 11 \<mapsto> free_link, 20 \<mapsto> free_link, 21 \<mapsto> free_link, 22 \<mapsto> free_link],
     fdevs := [10 \<mapsto> fd_at 4, 11 \<mapsto> fd_at 5, 20 \<mapsto> fd_at 6, 21 \<mapsto> fd_at 7, 22 \<mapsto> fd_at 8],
     watches := [30 \<mapsto> \<lparr>uw_priv = NULL, uw_cb = Some 9, uw_event_type = 0, uw_registered = True\<rparr>],
     watch := (replicate 30 NULL)[0 := Some 30]\<rparr>"

definition env_batch :: "addr list \<Rightarrow> addr list event_env" where
  "env_batch bs = env_ex\<lparr>ev_epoll_wait := \<lambda>h n w. (int (length bs), map (\<lambda>a. (EPOLLIN, Some a)) bs, w)\<rparr>"

text \<open>C17: 
  Whatever is pushed is queued in the order of the pushes, and the dispatcher takes the queue from the front: each
  event is handed once to the watch its type has at that moment, is dropped when there is none, and is freed; events
  pushed by a callback come behind the queued ones. This is \<open>drain\<close>, for callbacks that react as some \<open>g\<close> says
  (\<open>cb_user_reacts\<close>: they return, keep an invariant \<open>I\<close>, and do not touch the events that are queued; they may
  register and unregister watches, their own too, and push). If \<open>drain\<close> ends within the fuel, so does the dispatcher,
  with the same watches and the same observation of the world. Callbacks that push nothing always end
  (\<open>drain_passive\<close>).
\<close>

theorem user_events_fifo:
  assumes "uevs_ok st []" "distinct (map fst es)" "fst ` set es \<inter> dom (ulinks st) = {}"
    and "\<forall>(a, ty, d)\<in>set es. unat ty < MAX_USER_EVENT_TYPE_VALUE"
    and "fdevs st (sem st) = Some f" "write_ok (ev_io E) (fde_fd f) sink"
    and "cb_user_reacts I L C g" "survives_take I"
  shows "\<exists>st1. foldE (push_one E) st es = Inr st1 \<and> uevs_ok st1 (map fst es) \<and> watch st1 = watch st \<and> watches st1 = watches st \<and>
    dom (ulinks st1) = dom (ulinks st) \<union> fst ` set es \<and> fdevs st1 = fdevs st \<and> sem st1 = sem st \<and>
    (\<forall>v. I st1 \<longrightarrow> drain fuel g (map snd es) (shown L st1) = Some v \<longrightarrow>
      (\<exists>k st2. dispatch_uevs fuel C n st1 = Inr (k, st2) \<and> shown L st2 = v \<and> uevs_ok st2 [] \<and>
         dom (uevs st2) \<subseteq> dom (uevs st) - fst ` set es))"
proof -
  obtain st1 where 1: "foldE (push_one E) st es = Inr st1" "uevs_ok st1 (map fst es)"
      "\<forall>(a, ty, d)\<in>set es. uevs st1 a = Some \<lparr>ue_event_type = ty, ue_data = d\<rparr>" "\<forall>a. a \<notin> fst ` set es \<longrightarrow> uevs st1 a = uevs st a"
      "watch st1 = watch st" "watches st1 = watches st" "dom (ulinks st1) = dom (ulinks st) \<union> fst ` set es"
      "fdevs st1 = fdevs st" "sem st1 = sem st"
    using push_all_ok [OF assms(5,6) assms(1-4) assms(5)] by auto
  have pl: "map (payload st1) (map fst es) = map snd es" using 1(3) by (auto simp: payload_def)
  have "dom (uevs st1) - set (map fst es) \<subseteq> dom (uevs st) - fst ` set es" using 1(4) by (auto simp: domIff)
  then have "\<exists>k st2. dispatch_uevs fuel C n st1 = Inr (k, st2) \<and> shown L st2 = v \<and> uevs_ok st2 [] \<and>
      dom (uevs st2) \<subseteq> dom (uevs st) - fst ` set es"
    if "I st1" "drain fuel g (map snd es) (shown L st1) = Some v" for v
    using dispatch_uevs_ok [OF assms(7,8) 1(2) that(1), of fuel v n] that(2) unfolding pl by blast
  then show ?thesis using 1(1,2,5-9) by blast
qed

lemma evp_fd_ex_uevs: "uevs_ok evp_fd_ex []"
  by (auto simp: uevs_ok_def evp_fd_ex_def evp_ex_def staq_inv_empty watch_ok_def MAX_USER_EVENT_TYPE_VALUE_def nth_list_update split: if_splits)

text \<open>
  A callback that answers the event with the data 5 by pushing another one, with the data 8, and unregisters its own
  watch on any other event; both are logged. The invariant makes the address of the new event fresh.
\<close>

definition answering :: "addr list callbacks" where
  "answering = log_callbacks\<lparr>call_user := \<lambda>cb wa ty d p st.
     bindE (if d = Some 5 then push_one env_ex st (100 + length (world st), ty, Some 8)
            else Evp_unregister_uev_watch (Some wa) st) (\<lambda>st.
     Inr (st\<lparr>world := world st @ [the d]\<rparr>))\<rparr>"

definition answers :: "nat list reaction" where
  "answers cb wa ty d p v = (case v of (ws, xs, l) \<Rightarrow>
     if d = Some 5 then ((ws, xs, l @ [5]), [(ty, Some 8)])
     else let l = l @ filter (\<lambda>x. 1 < x) [the d] in
       if uw_registered (the (xs wa))
       then ((ws[unat ty := NULL], xs(wa \<mapsto> (the (xs wa))\<lparr>uw_registered := False\<rparr>), l), [])
       else ((ws, xs, l), []))"

definition logged :: "addr list \<Rightarrow> nat list" where
  "logged w = filter (\<lambda>x. 1 < x) w"

definition room :: "addr list evp \<Rightarrow> bool" where
  "room st \<longleftrightarrow> (\<forall>x\<in>dom (ulinks st). x < 100 + length (world st)) \<and> fdevs st (sem st) = Some (fd_at 4)"

lemma room_take: "survives_take room"
  by (auto simp: survives_take_def room_def)

lemma env_ex_write: "write_ok (ev_io env_ex) (fde_fd (fd_at 4)) (map of_nat)"
  by (auto simp: write_ok_def env_ex_def intro!: map_idI)

lemma env_ex_notify:
  assumes "fdevs st (sem st) = Some (fd_at 4)"
  shows "notify_event_pushlished env_ex st = Inr (ERRORCODE_SUCCESS, st\<lparr>world := world st @ [1, 0, 0, 0, 0, 0, 0, 0]\<rparr>)"
  using assms by (simp add: notify_event_pushlished_def try_write_def env_ex_def one_as_bytes_def numeral_eq_Suc max_tries_def)

lemma answers_push:
  assumes "room st" "uevs_ok st us" "a \<notin> set us" "a \<in> dom (ulinks st)" "unat ty < MAX_USER_EVENT_TYPE_VALUE"
  shows "\<exists>st' b. push_one env_ex st (100 + length (world st), ty, Some 8) = Inr st' \<and> uevs_ok st' (us @ [b]) \<and> a \<noteq> b \<and>
    (\<forall>c\<in>insert a (set us). uevs st' c = uevs st c) \<and> dom (uevs st') = dom (uevs st) \<union> {b} \<and> a \<in> dom (ulinks st') \<and>
    payload st' b = (ty, Some 8) \<and> watch st' = watch st \<and> watches st' = watches st \<and>
    world st' = world st @ [1, 0, 0, 0, 0, 0, 0, 0] \<and> room (st'\<lparr>world := world st' @ [5]\<rparr>)"
proof -
  let ?b = "100 + length (world st)"
  have b: "?b \<notin> dom (ulinks st)" "a \<noteq> ?b" and f: "fdevs st (sem st) = Some (fd_at 4)"
    using assms(1,4) by (auto simp: room_def)
  have us: "set us \<subseteq> dom (ulinks st)" using assms(2) staq_inv_dom unfolding uevs_ok_def by blast
  obtain rc st' st0 where st': "Evp_push_uev env_ex ?b ty (Some 8) st = Inr (rc, st')" "uevs_ok st' (us @ [?b])"
    "uevs st' = (uevs st)(?b \<mapsto> \<lparr>ue_event_type = ty, ue_data = Some 8\<rparr>)" "dom (ulinks st') = insert ?b (dom (ulinks st))"
    "watch st' = watch st" "watches st' = watches st" "fdevs st' = fdevs st" "sem st' = sem st"
    "notify_event_pushlished env_ex st0 = Inr (rc, st')" "world st0 = world st" "fdevs st0 = fdevs st" "sem st0 = sem st"
    using push_uev_ok [OF assms(2) b(1) assms(5) f env_ex_write, of "Some 8"] by blast
  have "st' = st0\<lparr>world := world st0 @ [1, 0, 0, 0, 0, 0, 0, 0]\<rparr>"
    using env_ex_notify [of st0] st'(9,11,12) f by simp
  then have w: "world st' = world st @ [1, 0, 0, 0, 0, 0, 0, 0]" using st'(10) by simp
  have "push_one env_ex st (?b, ty, Some 8) = Inr st'" using st'(1) by (simp add: push_one_def)
  moreover have "room (st'\<lparr>world := world st' @ [5]\<rparr>)"
  proof -
    have "x < 100 + length (world st)" if "x \<in> dom (ulinks st)" for x using that assms(1) by (simp add: room_def)
    then have "x < 109 + length (world st)" if "x \<in> dom (ulinks st)" for x using that by fastforce
    then show ?thesis using st'(4,7,8) w f unfolding room_def by simp
  qed
  ultimately show ?thesis using st'(2-6) w b us assms(4)
    by (intro exI [of _ st'] exI [of _ ?b]) (auto simp: payload_def)
qed

lemma answers_unregister:
  assumes "uevs_ok st us" "watches st wa = Some x" "unat (uw_event_type x) < MAX_USER_EVENT_TYPE_VALUE"
  shows "\<exists>ws xs. Evp_unregister_uev_watch (Some wa) st = Inr (st\<lparr>watch := ws, watches := xs\<rparr>) \<and>
    uevs_ok (st\<lparr>watch := ws, watches := xs\<rparr>) us \<and>
    (ws, xs) = (if uw_registered x then ((watch st)[unat (uw_event_type x) := NULL], (watches st)(wa \<mapsto> x\<lparr>uw_registered := False\<rparr>))
      else (watch st, watches st))"
proof (cases "uw_registered x")
  case True
  have "watch_ok (st\<lparr>watch := (watch st)[unat (uw_event_type x) := NULL], watches := (watches st)(wa \<mapsto> x\<lparr>uw_registered := False\<rparr>)\<rparr>)"
    using assms unfolding watch_ok_def uevs_ok_def by (auto simp: nth_list_update split: if_splits)
  then show ?thesis using True assms by (auto simp: Evp_unregister_uev_watch_def uevs_ok_def)
next
  case False
  then show ?thesis using assms
    by (intro exI [of _ "watch st"] exI [of _ "watches st"]) (simp add: Evp_unregister_uev_watch_def)
qed

lemma answering_ok: "cb_user_reacts room logged answering answers"
  unfolding cb_user_reacts_def
proof (intro allI impI)
  fix st us a wa x cb
  assume room: "room st" and ok: "uevs_ok st us" and a: "a \<notin> set us" "a \<in> dom (ulinks st)" "a \<in> dom (uevs st)"
    and ty: "unat (fst (payload st a)) < MAX_USER_EVENT_TYPE_VALUE"
    and x: "watches st wa = Some x" "uw_event_type x = fst (payload st a)"
  obtain ty d where pl: "payload st a = (ty, d)" by (metis surj_pair)
  show "\<exists>st' new. call_user answering cb wa (fst (payload st a)) (snd (payload st a)) (uw_priv x) st = Inr st' \<and> room st' \<and>
      uevs_ok st' (us @ new) \<and> a \<notin> set new \<and> (\<forall>b\<in>insert a (set us). uevs st' b = uevs st b) \<and>
      dom (uevs st') = dom (uevs st) \<union> set new \<and> a \<in> dom (ulinks st') \<and>
      answers cb wa (fst (payload st a)) (snd (payload st a)) (uw_priv x) (shown logged st) = (shown logged st', map (payload st') new)"
  proof (cases "d = Some 5")
    case True
    obtain st' b where st': "push_one env_ex st (100 + length (world st), ty, Some 8) = Inr st'" "uevs_ok st' (us @ [b])" "a \<noteq> b"
      "\<forall>c\<in>insert a (set us). uevs st' c = uevs st c" "dom (uevs st') = dom (uevs st) \<union> {b}" "a \<in> dom (ulinks st')"
      "payload st' b = (ty, Some 8)" "watch st' = watch st" "watches st' = watches st"
      "world st' = world st @ [1, 0, 0, 0, 0, 0, 0, 0]" "room (st'\<lparr>world := world st' @ [5]\<rparr>)"
      using answers_push [OF room ok a(1,2)] ty unfolding pl fst_conv by blast
    let ?st = "st'\<lparr>world := world st' @ [5]\<rparr>"
    have "uevs_ok ?st (us @ [b])" using st'(2) by (simp add: uevs_ok_def watch_ok_def)
    moreover have "payload ?st b = (ty, Some 8)" using st'(7) by (simp add: payload_def)
    ultimately show ?thesis using st' True
      by (intro exI [of _ ?st] exI [of _ "[b]"]) (simp add: pl answering_def answers_def shown_def logged_def)
  next
    case False
    obtain ws xs where u: "Evp_unregister_uev_watch (Some wa) st = Inr (st\<lparr>watch := ws, watches := xs\<rparr>)"
      "uevs_ok (st\<lparr>watch := ws, watches := xs\<rparr>) us"
      "(ws, xs) = (if uw_registered x then ((watch st)[unat (uw_event_type x) := NULL], (watches st)(wa \<mapsto> x\<lparr>uw_registered := False\<rparr>))
        else (watch st, watches st))"
      using answers_unregister [OF ok x(1)] ty x(2) by auto
    let ?st = "st\<lparr>watch := ws, watches := xs, world := world st @ [the d]\<rparr>"
    have "uevs_ok ?st us" using u(2) by (simp add: uevs_ok_def watch_ok_def)
    moreover have "x < 101 + length (world st)" if "x \<in> dom (ulinks st)" for x
    proof -
      have "x < 100 + length (world st)" using that room unfolding room_def by blast
      then show ?thesis by linarith
    qed
    then have "room ?st" using room by (simp add: room_def)
    moreover have "answers cb wa ty d (uw_priv x) (shown logged st) = (shown logged ?st, [])"
      using False u(3) x pl by (auto simp: answers_def shown_def logged_def Let_def split: if_splits)
    ultimately show ?thesis using False u(1) a
      by (intro exI [of _ ?st] exI [of _ "[]"]) (simp add: pl answering_def)
  qed
qed

theorem user_events_witness:
  "\<exists>st1 k st2. foldE (push_one env_ex) evp_fd_ex [(40, 0, Some 5), (41, 3, Some 6), (42, 0, Some 7)] = Inr st1 \<and>
     dispatch_uevs 5 answering 0 st1 = Inr (k, st2) \<and> logged (world st2) = logged (world st1) @ [5, 7] \<and> watch st2 = replicate 30 NULL"
proof -
  let ?es = "[(40 :: addr, 0 :: 32 word, Some 5 :: ptr), (41, 3, Some 6), (42, 0, Some 7)]"
  have f: "fdevs evp_fd_ex (sem evp_fd_ex) = Some (fd_at 4)" by (simp add: evp_fd_ex_def evp_ex_def)
  have fresh: "fst ` set ?es \<inter> dom (ulinks evp_fd_ex) = {}" by (simp add: evp_fd_ex_def evp_ex_def)
  have ty: "\<forall>(a, ty, d)\<in>set ?es. unat ty < MAX_USER_EVENT_TYPE_VALUE" by (simp add: MAX_USER_EVENT_TYPE_VALUE_def)
  have h: "watch evp_fd_ex = Some 30 # replicate 29 NULL" "watches evp_fd_ex 30 = Some \<lparr>uw_priv = NULL, uw_cb = Some 9, uw_event_type = 0, uw_registered = True\<rparr>"
    by (simp_all add: evp_fd_ex_def evp_ex_def numeral_eq_Suc)
  have five: "(5 :: nat) = Suc (Suc (Suc (Suc (Suc 0))))" and none: "replicate 30 NULL = NULL # replicate 29 NULL"
    by (simp_all add: numeral_eq_Suc)
  obtain st1 where 1:
    "foldE (push_one env_ex) evp_fd_ex ?es = Inr st1" "watch st1 = watch evp_fd_ex" "watches st1 = watches evp_fd_ex"
    "dom (ulinks st1) = {40, 41, 42}" "fdevs st1 = fdevs evp_fd_ex" "sem st1 = sem evp_fd_ex"
    "\<And>v. room st1 \<Longrightarrow> drain 5 answers (map snd ?es) (shown logged st1) = Some v \<Longrightarrow>
      \<exists>k st2. dispatch_uevs 5 answering 0 st1 = Inr (k, st2) \<and> shown logged st2 = v"
  proof -
    have "distinct (map fst ?es)" "length ?es < 5" "dom (ulinks evp_fd_ex) \<union> fst ` set ?es = {40, 41, 42}"
      by (auto simp: evp_fd_ex_def evp_ex_def)
    then show ?thesis
      using that user_events_fifo [OF evp_fd_ex_uevs _ fresh ty f env_ex_write answering_ok room_take, of 5 0] by metis
  qed
  have room: "room st1" using 1(4-6) f by (simp add: room_def)
  let ?v = "(replicate 30 NULL, (watches evp_fd_ex)(30 \<mapsto> (the (watches evp_fd_ex 30))\<lparr>uw_registered := False\<rparr>), logged (world st1) @ [5, 7])"
  have "drain 5 answers (map snd ?es) (shown logged st1) = Some ?v"
    by (subst (1) five) (simp add: shown_def 1(2,3) h hand_def answers_def none)
  from 1(7) [OF room this] show ?thesis using 1(1) by (auto simp: shown_def)
qed

text \<open>C25: 
  A batch from epoll is queued in its order as long as it has at most two entries. The loop advances its entry
  pointer by the number of the round, so with three or more ready descriptors it skips entries and reads past the
  ones the kernel has filled.
\<close>

theorem pump_os_events_batch:
  assumes "osapi st = Some h" "ev_epoll_wait E h MAX_EPOLL_BATCH (world st) = (int (length buff), buff, w)"
    and "batch_ok st es buff bs"
  shows "if length buff \<le> 2
    then \<exists>st'. pump_os_events E st = Inr (0, st') \<and> dll_inv (flinks st') (evq st') (es @ bs) \<and>
      tlinks st' = tlinks st \<and> timers st' = timers st
    else pump_os_events E st = Inl Uninit"
proof -
  have ok: "batch_ok (st\<lparr>world := w\<rparr>) es buff bs" using assms(3) by (simp add: batch_ok_def)
  have "length buff = length bs" using assms(3) unfolding batch_ok_def by (metis length_map)
  then show ?thesis
    using pump_first_two [OF ok refl] assms(1,2) by (auto simp: pump_os_events_def load_api_def)
qed

theorem pump_os_events_witness:
  "(\<exists>st'. pump_os_events (env_batch [20, 21]) evp_fd_ex = Inr (0, st') \<and> dll_inv (flinks st') (evq st') [20, 21]) \<and>
   pump_os_events (env_batch [20, 21, 22]) evp_fd_ex = Inl Uninit"
proof -
  have o: "osapi evp_fd_ex = Some 3" by (simp add: evp_fd_ex_def evp_ex_def)
  have e: "ev_epoll_wait (env_batch bs) 3 MAX_EPOLL_BATCH (world evp_fd_ex) =
      (int (length (map (\<lambda>a. (EPOLLIN, Some a)) bs)), map (\<lambda>a. (EPOLLIN, Some a)) bs, world evp_fd_ex)" for bs
    by (simp add: env_batch_def)
  have b: "batch_ok evp_fd_ex [] (map (\<lambda>a. (EPOLLIN, Some a)) bs) bs" if "bs \<in> {[20, 21], [20, 21, 22]}" for bs
    using that by (auto simp: batch_ok_def evp_fd_ex_def evp_ex_def)
  show ?thesis
    using pump_os_events_batch [OF o e b, of "[20, 21]"] pump_os_events_batch [OF o e b, of "[20, 21, 22]"] by auto
qed

text \<open>
  Only events of type 0 can be watched: for any other type registration reports a conflict although nobody else is
  bound. For type 0 a watch that is bound already is replaced without a report.
\<close>

theorem Evp_register_uev_watch_conflicts:
  assumes "watches st a = Some u" "uw_cb u \<noteq> NULL" "\<not> uw_registered u" "unat (uw_event_type u) < MAX_USER_EVENT_TYPE_VALUE"
  shows "Evp_register_uev_watch (Some a) st =
    (if uw_event_type u \<noteq> 0 then Inr (ERROR_CONFLICT, st)
     else Inr (ERRORCODE_SUCCESS, st\<lparr>watch := (watch st)[0 := Some a], watches := (watches st)(a \<mapsto> u\<lparr>uw_registered := True\<rparr>)\<rparr>))"
  using assms by (auto simp: Evp_register_uev_watch_def)

theorem Evp_register_uev_watch_witness:
  "\<exists>st'. Evp_register_uev_watch (Some 31) (evp_fd_ex\<lparr>watches := [31 \<mapsto> \<lparr>uw_priv = NULL, uw_cb = Some 9, uw_event_type = 0, uw_registered = False\<rparr>]\<rparr>) =
     Inr (ERRORCODE_SUCCESS, st') \<and> watch evp_fd_ex ! 0 = Some 30 \<and> watch st' ! 0 = Some 31"
  using Evp_register_uev_watch_conflicts [of "evp_fd_ex\<lparr>watches := [31 \<mapsto> \<lparr>uw_priv = NULL, uw_cb = Some 9, uw_event_type = 0, uw_registered = False\<rparr>]\<rparr>" 31
      "\<lparr>uw_priv = NULL, uw_cb = Some 9, uw_event_type = 0, uw_registered = False\<rparr>"]
  by (simp add: MAX_USER_EVENT_TYPE_VALUE_def) (simp add: evp_fd_ex_def evp_ex_def)

text \<open>
  Unregistering a monitor leaves its event in the queue: the callback still runs, and when the monitor's memory has
  been released in between, dispatching uses it nonetheless.
\<close>

definition evp_queued_ex :: "addr list evp" where
  "evp_queued_ex = evp_fd_ex\<lparr>evq := \<lparr>dl_count = 1, dl_front = Some 20, dl_back = Some 20, dl_dtor = None\<rparr>\<rparr>"

theorem Evp_unregister_fdmon_still_called:
  "\<exists>st1 st2. Evp_unregister_fdmon env_ex (Some 20) evp_queued_ex = Inr st1 \<and> \<not> fde_registered (the (fdevs st1 20)) \<and>
     dispatch_fds 2 env_ex log_callbacks 0 st1 = Inr (1, st2) \<and> world st2 = [20] \<and>
     dispatch_fds 2 env_ex log_callbacks 0 (st1\<lparr>fdevs := (fdevs st1)(20 := None)\<rparr>) = Inl WildDeref"
  by (simp add: evp_queued_ex_def evp_fd_ex_def evp_ex_def Evp_unregister_fdmon_def remove_fd_event_monitor_def load_api_def
      env_ex_def fd_at_def numeral_2_eq_2 Dll_empty_def Dll_peek_front_def Dll_pop_node_def Dll_remove_node_def Dll_pop_front_def
      log_callbacks_def)

text \<open>C40: 
  Where the kernel calls succeed, \<open>Evp_new\<close> makes exactly the calls of \<open>setup_calls\<close>: it creates the epoll object, an
  eventfd and a timerfd, registers both with epoll for reading under the addresses of their monitors, and creates the
  mutex. The handle then holds the three descriptors, its queues are empty and the queue of user events frees what it
  drops, the mutex is free, no user event type is watched, and no other monitor in memory is touched. Destroying the
  new handle takes the two monitors off epoll, closes the three descriptors, destroys the mutex and frees the handle.
\<close>

theorem Evp_new_correct:
  assumes E: "calls_succeed E" "setup_calls E a b (world st) = (h, s, t, w)" and ab: "a \<noteq> b"
    and mem: "dom (tevs st) \<subseteq> dom (tlinks st)" "\<forall>x t. tevs st x = Some t \<longrightarrow> \<not> tev_registered t"
  shows "\<exists>st' st''. Evp_new E a b st = Inr (True, st') \<and> world st' = w \<and> osapi st' = Some h \<and> sem st' = a \<and> timerfd st' = b \<and>
    fdevs st' = (fdevs st)(a \<mapsto> armed s, b \<mapsto> armed t) \<and> uevq st' = Staq_init (Some user_event_destructor) \<and>
    watch st' = replicate MAX_USER_EVENT_TYPE_VALUE NULL \<and>
    timers_ok st' [] \<and> dll_inv (flinks st') (evq st') [] \<and> uevs_ok st' [] \<and>
    Evp_destroy E st' = Inr st'' \<and> world st'' = teardown_calls E h s t w \<and> fdevs st'' = (fdevs st)(a := None, b := None) \<and>
    ulinks st'' = ulinks st"
proof -
  let ?z = "zeroed_handle a b st"
  have "setup_calls E (sem ?z) (timerfd ?z) (world ?z) = (h, s, t, w)" "sem ?z \<noteq> timerfd ?z"
    "fdevs ?z (sem ?z) = Some zero_fd_event" "fdevs ?z (timerfd ?z) = Some zero_fd_event"
    using E(2) ab by (simp_all add: zeroed_handle_def)
  note i = initialize_ok [OF E(1) this]
  define st' where "st' = ?z\<lparr>osapi := Some h, world := w, fdevs := (fdevs ?z)(sem ?z \<mapsto> armed s, timerfd ?z \<mapsto> armed t),
       timers := Dll_init None, evq := Dll_init None,
       uevq := Staq_init (Some user_event_destructor), watch := replicate MAX_USER_EVENT_TYPE_VALUE NULL\<rparr>"
  have new: "Evp_new E a b st = Inr (True, st')" using i by (simp add: Evp_new_def st'_def)
  have f: "world st' = w" "osapi st' = Some h" "sem st' = a" "timerfd st' = b" "fdevs st' = (fdevs st)(a \<mapsto> armed s, b \<mapsto> armed t)"
      "uevq st' = Staq_init (Some user_event_destructor)" "watch st' = replicate MAX_USER_EVENT_TYPE_VALUE NULL" "ulinks st' = ulinks st"
      "timers st' = Dll_init None" "evq st' = Dll_init None"
    using ab by (simp_all add: st'_def zeroed_handle_def fun_eq_iff)
  have "timers_ok st' []" using mem by (auto simp: timers_ok_def Dll_init_def st'_def zeroed_handle_def)
  moreover have "dll_inv (flinks st') (evq st') []" by (simp add: f Dll_init_def)
  moreover have "uevs_ok st' []" by (simp add: uevs_ok_def Staq_init_def staq_inv_empty watch_ok_def st'_def zeroed_handle_def)
  moreover have "(fdevs st)(a \<mapsto> armed s, b \<mapsto> armed t, a := None, b := None) = (fdevs st)(a := None, b := None)"
    using ab by (simp add: fun_eq_iff)
  then have "Evp_destroy E st' = Inr (st'\<lparr>tlinks := tlinks st', flinks := (flinks st')(a := None, b := None),
      fdevs := (fdevs st)(a := None, b := None), ulinks := ulinks st, uevs := uevs st' |` dom (ulinks st),
      world := teardown_calls E h s t w\<rparr>)"
    using ab by (simp add: Evp_destroy_def remove_fd_event_monitor_def load_api_def f split_beta Let_def armed_def
        destroy_os_api_handle_def teardown_calls_def Dll_clear_def Dll_init_def clear_empty_staq)
  then obtain st'' where "Evp_destroy E st' = Inr st''" "world st'' = teardown_calls E h s t w"
      "fdevs st'' = (fdevs st)(a := None, b := None)" "ulinks st'' = ulinks st" by simp
  ultimately show ?thesis using new f by (intro exI [of _ st'] exI [of _ st'']) simp
qed

theorem Evp_new_witness:
  "\<exists>st'. Evp_new env_ex 50 51 (evp_ex\<lparr>tevs := Map.empty\<rparr>) = Inr (True, st') \<and> osapi st' = Some 3 \<and>
     fdevs st' = [50 \<mapsto> armed 4, 51 \<mapsto> armed 5] \<and> timers_ok st' [] \<and> uevs_ok st' [] \<and>
     (\<exists>st''. Evp_destroy env_ex st' = Inr st'' \<and> world st'' = [4, 5, 3])"
proof -
  have "calls_succeed env_ex" by (simp add: calls_succeed_def env_ex_def)
  moreover have "setup_calls env_ex 50 51 (world (evp_ex\<lparr>tevs := Map.empty\<rparr>)) = (3, 4, 5, [])"
    by (simp add: setup_calls_def env_ex_def evp_ex_def)
  moreover have "teardown_calls env_ex 3 4 5 [] = [4, 5, 3]" by (simp add: teardown_calls_def env_ex_def)
  moreover have "fdevs (evp_ex\<lparr>tevs := Map.empty\<rparr>) = Map.empty" by (simp add: evp_ex_def)
  ultimately show ?thesis
    using Evp_new_correct [of env_ex 50 51 "evp_ex\<lparr>tevs := Map.empty\<rparr>" 3 4 5 "[]"] by auto
qed

text \<open>
  When a handle cannot be created the clean-up runs on what is not there: without epoll it fails an assertion, so NULL
  is never returned, and without the eventfd it closes the descriptor 0 twice.
\<close>

lemma Evp_new_without_epoll:
  assumes "ev_epoll_create E (world st) = (-1, w)"
  shows "Evp_new E a b st = Inl AssertFail"
  using assms by (simp add: Evp_new_def initialize_event_pump_handle_def get_os_api_handle_def zeroed_handle_def
      Evp_destroy_def remove_fd_event_monitor_def)

lemma Evp_new_closes_stdin:
  "\<exists>st'. Evp_new (env_ex\<lparr>ev_eventfd := \<lambda>w. (-1, w)\<rparr>) 50 51 evp_ex = Inr (False, st') \<and> world st' = [0, 0, 3]"
  by (simp add: Evp_new_def initialize_event_pump_handle_def get_os_api_handle_def zeroed_handle_def env_ex_def
      initialize_eventfd_semaphore_def Evp_destroy_def remove_fd_event_monitor_def load_api_def zero_fd_event_def
      destroy_os_api_handle_def Dll_clear_def Staq_clear_def initialize_dllist_def staq_initializer_def
      Staq_clear_loop.simps Staq_remove_def Staq_popfront_def evp_ex_def)

end
