(* ===== verification/Adler32.thy ===== *)
theory Adler32
  imports Prelude "HOL-Library.Word"
begin

text \<open>
  The Adler-32 checksum of \<open>src/hash/adler32.cxx\<close> and \<open>include/tarp/hash/checksum/adler32.hxx\<close>. The update routine adds
  up to \<open>MAX_ADD\<close> bytes before it reduces the sums; the sums are 32 bits wide and must not wrap in between. It is
  shown to compute the definition of RFC 1950 for any way of feeding the data, and \<open>roll\<close> to move the window on.
\<close>

section \<open>The code\<close>

definition MOD_ADLER :: "32 word" where
  "MOD_ADLER = 65521"

definition MAX_ADD :: nat where
  "MAX_ADD = 5552"

definition BULKSZ :: nat where
  "BULKSZ = MAX_ADD div 16"

record adler32_ctx =
  sum1 :: "32 word"
  sum2 :: "32 word"

definition adler32_init :: adler32_ctx where
  "adler32_init = \<lparr>sum1 = 1, sum2 = 0\<rparr>"

definition modsub :: "32 word \<Rightarrow> 32 word" where
  "modsub x = (if x < MOD_ADLER then x else x - MOD_ADLER)"

definition ADD1 :: "adler32_ctx \<Rightarrow> 8 word \<Rightarrow> adler32_ctx" where
  "ADD1 ctx b = (let ctx = ctx\<lparr>sum1 := sum1 ctx + ucast b\<rparr> in ctx\<lparr>sum2 := sum2 ctx + sum1 ctx\<rparr>)"

definition ADD16 :: "adler32_ctx \<Rightarrow> 8 word list \<Rightarrow> adler32_ctx" where
  "ADD16 ctx buff = foldl (\<lambda>ctx pos. ADD1 ctx (buff ! pos)) ctx [0, 1, 2, 3, 4, 5, 6, 7, 8, 9, 10, 11, 12, 13, 14, 15]"

fun byte_loop :: "adler32_ctx \<Rightarrow> 8 word list \<Rightarrow> nat \<Rightarrow> adler32_ctx" where
  "byte_loop ctx buff 0 = ctx"
| "byte_loop ctx buff (Suc len) = byte_loop (ADD1 ctx (hd buff)) (tl buff) len"

fun bulk_loop :: "nat \<Rightarrow> adler32_ctx \<Rightarrow> 8 word list \<Rightarrow> adler32_ctx \<times> 8 word list" where
  "bulk_loop 0 ctx buff = (ctx, buff)"
| "bulk_loop (Suc i) ctx buff = bulk_loop i (ADD16 ctx buff) (drop 16 buff)"

definition reduce_mod :: "adler32_ctx \<Rightarrow> adler32_ctx" where
  "reduce_mod ctx = ctx\<lparr>sum1 := sum1 ctx mod MOD_ADLER, sum2 := sum2 ctx mod MOD_ADLER\<rparr>"

function max_loop :: "adler32_ctx \<Rightarrow> 8 word list \<Rightarrow> nat \<Rightarrow> adler32_ctx \<times> 8 word list \<times> nat" where
  "max_loop ctx buff len =
     (if len \<ge> MAX_ADD
      then let len = len - MAX_ADD; (ctx, buff) = bulk_loop BULKSZ ctx buff in max_loop (reduce_mod ctx) buff len
      else (ctx, buff, len))"
  by pat_completeness auto
termination
  by (relation "measure (\<lambda>(ctx, buff, len). len)") (auto simp: MAX_ADD_def)

declare max_loop.simps [simp del]

function sixteen_loop :: "adler32_ctx \<Rightarrow> 8 word list \<Rightarrow> nat \<Rightarrow> adler32_ctx \<times> 8 word list \<times> nat" where
  "sixteen_loop ctx buff len =
     (if len \<ge> 16 then sixteen_loop (ADD16 ctx buff) (drop 16 buff) (len - 16) else (ctx, buff, len))"
  by pat_completeness auto
termination
  by (relation "measure (\<lambda>(ctx, buff, len). len)") auto

declare sixteen_loop.simps [simp del]

definition adler32_update :: "adler32_ctx \<Rightarrow> 8 word list \<Rightarrow> nat \<Rightarrow> adler32_ctx" where
  "adler32_update ctx buff len =
     (if len = 1 then
        let ctx = ctx\<lparr>sum1 := sum1 ctx + ucast (buff ! 0)\<rparr>;
            ctx = ctx\<lparr>sum1 := modsub (sum1 ctx)\<rparr>;
            ctx = ctx\<lparr>sum2 := sum2 ctx + sum1 ctx\<rparr>
        in ctx\<lparr>sum2 := modsub (sum2 ctx)\<rparr>
      else if len = 0 then ctx
      else if len < 16 then
        let ctx = byte_loop ctx buff len;
            ctx = ctx\<lparr>sum1 := modsub (sum1 ctx)\<rparr>
        in ctx\<lparr>sum2 := sum2 ctx mod MOD_ADLER\<rparr>
      else
        let (ctx, buff, len) = max_loop ctx buff len in
        if len > 0
        then let (ctx, buff, len) = sixteen_loop ctx buff len in reduce_mod (byte_loop ctx buff len)
        else ctx)"

unbundle bit_operations_syntax

definition adler32_get_checksum :: "adler32_ctx \<Rightarrow> 32 word" where
  "adler32_get_checksum ctx = (push_bit 16 (sum2 ctx) OR sum1 ctx)"

text \<open>\<open>old_contrib\<close> is 64 bits wide, so the second sum is computed in 64 bits.\<close>

definition adler32_roll :: "adler32_ctx \<Rightarrow> 32 word \<Rightarrow> 8 word \<Rightarrow> 8 word \<Rightarrow> adler32_ctx" where
  "adler32_roll ctx window_size inb out =
     (let ctx = ctx\<lparr>sum1 := (sum1 ctx + MOD_ADLER + ucast inb - ucast out) mod MOD_ADLER\<rparr>;
          old_contrib = (ucast out * ucast window_size) mod (ucast MOD_ADLER :: 64 word)
      in ctx\<lparr>sum2 := ucast ((ucast (sum2 ctx + sum1 ctx + MOD_ADLER) - old_contrib - 1) mod ucast MOD_ADLER)\<rparr>)"

definition adler32 :: "8 word list \<Rightarrow> 32 word" where
  "adler32 data = adler32_get_checksum (adler32_update adler32_init data (length data))"

section \<open>The definition of RFC 1950\<close>

definition base :: nat where
  "base = 65521"

definition octets :: "8 word list \<Rightarrow> nat list" where
  "octets bs = map unat bs"

definition adler_A :: "8 word list \<Rightarrow> nat" where
  "adler_A bs = (1 + sum_list (octets bs)) mod base"

definition adler_B :: "8 word list \<Rightarrow> nat" where
  "adler_B bs = (\<Sum>k\<leftarrow>[1..<length bs + 1]. 1 + sum_list (octets (take k bs))) mod base"

text \<open>Adding without reducing, and the sizes the sums can reach.\<close>

definition plain :: "nat \<times> nat \<Rightarrow> 8 word \<Rightarrow> nat \<times> nat" where
  "plain ab d = (fst ab + unat d, snd ab + fst ab + unat d)"

lemma unat_byte: "unat (d :: 8 word) \<le> 255"
  using unsigned_less [of d, where ?'a = nat] by simp

lemma unat_ucast_byte: "unat (ucast (d :: 8 word) :: 32 word) = unat d"
  using unat_byte [of d] by (simp add: unsigned_ucast_eq take_bit_nat_eq_self)

lemma plain_bounds:
  assumes "fst ab \<le> p" "snd ab \<le> q"
  shows "fst (foldl plain ab bs) \<le> p + 255 * length bs \<and>
    2 * snd (foldl plain ab bs) \<le> 2 * q + length bs * (2 * p) + 255 * (length bs * (length bs + 1))"
  using assms
proof (induction bs arbitrary: ab p q)
  case Nil
  then show ?case by simp
next
  case (Cons d bs)
  have d: "unat d \<le> 255" by (rule unat_byte)
  have "fst (plain ab d) \<le> p + 255" "snd (plain ab d) \<le> q + p + 255" using Cons.prems d by (simp_all add: plain_def)
  from Cons.IH [OF this] show ?case by (simp add: algebra_simps)
qed

definition view :: "adler32_ctx \<Rightarrow> nat \<times> nat" where
  "view ctx = (unat (sum1 ctx), unat (sum2 ctx))"

lemma view_inj: "view c = view d \<Longrightarrow> c = d"
  by (cases c; cases d) (simp add: view_def word_unat_eq_iff)

lemma ADD1_view:
  assumes "snd (plain (view ctx) b) < 2 ^ 32"
  shows "view (ADD1 ctx b) = plain (view ctx) b"
proof -
  have b: "unat (ucast b :: 32 word) = unat b" by (rule unat_ucast_byte)
  have 1: "unat (sum1 ctx + ucast b) = unat (sum1 ctx) + unat b"
    using assms b by (subst unat_add_lem [THEN iffD1]) (simp_all add: plain_def view_def)
  have "unat (sum2 ctx + (sum1 ctx + ucast b)) = unat (sum2 ctx) + unat (sum1 ctx + ucast b)"
    using assms 1 by (subst unat_add_lem [THEN iffD1]) (simp_all add: plain_def view_def)
  then show ?thesis using 1 by (simp add: ADD1_def view_def plain_def)
qed

lemma plain_mono: "snd ab \<le> snd (foldl plain ab bs)"
proof (induction bs arbitrary: ab)
  case (Cons d bs)
  have "snd ab \<le> snd (plain ab d)" by (simp add: plain_def)
  also have "\<dots> \<le> snd (foldl plain (plain ab d) bs)" using Cons.IH .
  finally show ?case by simp
qed simp

lemma adds_view: "snd (foldl plain (view ctx) bs) < 2 ^ 32 \<Longrightarrow> view (foldl ADD1 ctx bs) = foldl plain (view ctx) bs"
proof (induction bs arbitrary: ctx)
  case (Cons d bs)
  have "snd (plain (view ctx) d) < 2 ^ 32"
    using plain_mono [of "plain (view ctx) d" bs] Cons.prems by simp
  then have v: "view (ADD1 ctx d) = plain (view ctx) d" by (rule ADD1_view)
  show ?case using Cons.IH [of "ADD1 ctx d"] Cons.prems by (simp add: v)
qed simp

text \<open>Between two reductions at most \<open>MAX_ADD\<close> bytes are added, and that many fit.\<close>

definition adler_ok :: "adler32_ctx \<Rightarrow> bool" where
  "adler_ok ctx \<longleftrightarrow> fst (view ctx) < base \<and> snd (view ctx) < base"

lemma adds_fit:
  assumes "adler_ok ctx" "length bs \<le> MAX_ADD"
  shows "snd (foldl plain (view ctx) bs) < 2 ^ 32" "fst (foldl plain (view ctx) bs) \<le> 65520 + 255 * length bs"
proof -
  have "fst (view ctx) \<le> 65520" "snd (view ctx) \<le> 65520" using assms(1) by (auto simp: adler_ok_def base_def)
  note b = plain_bounds [OF this, of bs]
  then show "fst (foldl plain (view ctx) bs) \<le> 65520 + 255 * length bs" by blast
  have n: "length bs \<le> 5552" using assms(2) by (simp add: MAX_ADD_def)
  then have "length bs * (length bs + 1) \<le> 5552 * 5553" by (intro mult_le_mono) auto
  then show "snd (foldl plain (view ctx) bs) < 2 ^ 32" using b n by simp
qed

subsection \<open>Reducing\<close>

definition red :: "nat \<times> nat \<Rightarrow> nat \<times> nat" where
  "red ab = (fst ab mod base, snd ab mod base)"

lemma red_plain: "red ab = red cd \<Longrightarrow> red (plain ab d) = red (plain cd d)"
  unfolding red_def plain_def by (auto intro: mod_add_cong)

lemma red_foldl: "red ab = red cd \<Longrightarrow> red (foldl plain ab bs) = red (foldl plain cd bs)"
proof (induction bs arbitrary: ab cd)
  case (Cons d bs)
  show ?case using Cons.IH [OF red_plain [OF Cons.prems]] by simp
qed simp

lemma red_red [simp]: "red (red ab) = red ab"
  by (simp add: red_def)

lemma red_append: "red (foldl plain (red (foldl plain ab xs)) ys) = red (foldl plain ab (xs @ ys))"
  using red_foldl [of "red (foldl plain ab xs)" "foldl plain ab xs" ys] by simp

lemma unat_modsub: "unat x < 2 * base \<Longrightarrow> unat (modsub x) = unat x mod base"
proof -
  assume x: "unat x < 2 * base"
  have lt: "x < MOD_ADLER \<longleftrightarrow> unat x < base" by (simp add: MOD_ADLER_def base_def word_less_nat_alt)
  show ?thesis
  proof (cases "x < MOD_ADLER")
    case False
    then have "MOD_ADLER \<le> x" by simp
    then have "unat (x - MOD_ADLER) = unat x - base" by (simp add: unat_sub MOD_ADLER_def base_def)
    moreover have "unat x mod base = unat x - base" using False lt x by (simp add: le_mod_geq)
    ultimately show ?thesis using False by (simp add: modsub_def)
  qed (simp add: modsub_def lt)
qed

lemma unat_mod_adler: "unat (x mod MOD_ADLER) = unat x mod base"
  by (simp add: unat_mod_distrib MOD_ADLER_def base_def)

lemma reduce_mod_view: "view (reduce_mod ctx) = red (view ctx)" "adler_ok (reduce_mod ctx)"
  by (simp_all add: view_def reduce_mod_def red_def unat_mod_adler adler_ok_def) (simp_all add: base_def)

lemma ok_red: "adler_ok ctx \<Longrightarrow> red (view ctx) = view ctx"
  by (simp add: adler_ok_def red_def)

subsection \<open>The loops add all the bytes in their order\<close>

lemma ADD16_ok: "16 \<le> length buff \<Longrightarrow> ADD16 ctx buff = foldl ADD1 ctx (take 16 buff)"
proof -
  assume "16 \<le> length buff"
  then have "take 16 buff = map ((!) buff) [0..<16]" by (intro nth_equalityI) auto
  moreover have "[0..<16] = [0, 1, 2, 3, 4, 5, 6, 7, 8, 9, 10, 11, 12, 13, 14, 15 :: nat]" by code_simp
  ultimately show ?thesis unfolding ADD16_def foldl_map by (simp only: foldl_map)
qed

lemma byte_loop_ok: "len \<le> length buff \<Longrightarrow> byte_loop ctx buff len = foldl ADD1 ctx (take len buff)"
proof (induction len arbitrary: ctx buff)
  case (Suc len)
  then show ?case by (cases buff) auto
qed simp

lemma bulk_loop_ok: "16 * n \<le> length buff \<Longrightarrow> bulk_loop n ctx buff = (foldl ADD1 ctx (take (16 * n) buff), drop (16 * n) buff)"
proof (induction n arbitrary: ctx buff)
  case (Suc n)
  have "take (16 * Suc n) buff = take 16 buff @ take (16 * n) (drop 16 buff)" by (simp add: take_add)
  then show ?case using Suc.IH [of "drop 16 buff"] Suc.prems ADD16_ok [of buff ctx] by (simp add: add.commute)
qed simp

lemma sixteen_loop_ok:
  "length buff = len \<Longrightarrow> \<exists>k \<le> len. sixteen_loop ctx buff len = (foldl ADD1 ctx (take k buff), drop k buff, len - k)"
proof (induction ctx buff len rule: sixteen_loop.induct)
  case (1 ctx buff len)
  show ?case
  proof (cases "16 \<le> len")
    case False
    then show ?thesis by (intro exI [of _ 0]) (simp add: sixteen_loop.simps [of ctx buff])
  next
    case True
    then obtain k where k: "k \<le> len - 16" "sixteen_loop (ADD16 ctx buff) (drop 16 buff) (len - 16) =
        (foldl ADD1 (ADD16 ctx buff) (take k (drop 16 buff)), drop k (drop 16 buff), len - 16 - k)"
      using 1 by auto
    have "foldl ADD1 (ADD16 ctx buff) (take k (drop 16 buff)) = foldl ADD1 ctx (take (16 + k) buff)"
      using ADD16_ok [of buff ctx] True 1(2) by (simp add: take_add)
    then show ?thesis using True k
      by (intro exI [of _ "16 + k"]) (simp add: sixteen_loop.simps [of ctx buff] add.commute)
  qed
qed

lemma max_loop_ok:
  "adler_ok ctx \<Longrightarrow> length buff = len \<Longrightarrow> \<exists>ctx' k. max_loop ctx buff len = (ctx', drop k buff, len - k) \<and> k \<le> len \<and>
     len - k < MAX_ADD \<and> adler_ok ctx' \<and> view ctx' = red (foldl plain (view ctx) (take k buff))"
proof (induction "len" arbitrary: ctx buff rule: less_induct)
  case (less len)
  show ?case
  proof (cases "MAX_ADD \<le> len")
    case False
    then show ?thesis using less.prems
      by (intro exI [of _ ctx] exI [of _ 0]) (simp add: max_loop.simps [of ctx buff] ok_red)
  next
    case True
    let ?c = "foldl ADD1 ctx (take MAX_ADD buff)"
    have b: "16 * BULKSZ = MAX_ADD" by (simp add: BULKSZ_def MAX_ADD_def)
    then have bulk: "bulk_loop BULKSZ ctx buff = (?c, drop MAX_ADD buff)" using bulk_loop_ok [of BULKSZ buff ctx] True less.prems by simp
    have v: "view ?c = foldl plain (view ctx) (take MAX_ADD buff)"
      using adds_view adds_fit(1) [OF less.prems(1), of "take MAX_ADD buff"] by simp
    have "len - MAX_ADD < len" using True by (simp add: MAX_ADD_def)
    then obtain ctx' k where k: "max_loop (reduce_mod ?c) (drop MAX_ADD buff) (len - MAX_ADD) = (ctx', drop k (drop MAX_ADD buff), len - MAX_ADD - k)"
        "k \<le> len - MAX_ADD" "len - MAX_ADD - k < MAX_ADD" "adler_ok ctx'"
        "view ctx' = red (foldl plain (view (reduce_mod ?c)) (take k (drop MAX_ADD buff)))"
      using less.IH [OF _ reduce_mod_view(2), of "len - MAX_ADD" "drop MAX_ADD buff"] less.prems(2) by fastforce
    have "view ctx' = red (foldl plain (view ctx) (take (MAX_ADD + k) buff))"
      unfolding k(5) reduce_mod_view v red_append by (simp add: take_add)
    then show ?thesis using True k bulk
      by (intro exI [of _ ctx'] exI [of _ "MAX_ADD + k"]) (simp add: max_loop.simps [of ctx buff] add.commute)
  qed
qed

lemma update_one:
  assumes ok: "adler_ok ctx"
  shows "view (adler32_update ctx [d] 1) = red (plain (view ctx) d)"
proof -
  have "length [d] \<le> MAX_ADD" by (simp add: MAX_ADD_def)
  note f = adds_fit [OF ok this]
  have "view (ADD1 ctx d) = plain (view ctx) d" using ADD1_view f(1) by simp
  then have 1: "unat (sum1 ctx + ucast d) = unat (sum1 ctx) + unat d" by (simp add: ADD1_def view_def plain_def)
  let ?m = "(unat (sum1 ctx) + unat d) mod base"
  have s1: "unat (modsub (sum1 ctx + ucast d)) = ?m"
    using f(2) 1 by (subst unat_modsub) (auto simp: view_def plain_def base_def)
  have m: "?m < base" by (simp add: base_def)
  have "unat (sum2 ctx) < base" using ok by (simp add: adler_ok_def view_def)
  then have lt: "unat (sum2 ctx) + ?m < 2 * base" using m by linarith
  have 2: "unat (sum2 ctx + modsub (sum1 ctx + ucast d)) = unat (sum2 ctx) + ?m"
    using ok m s1 by (subst unat_add_lem [THEN iffD1]) (auto simp: adler_ok_def view_def base_def)
  have "unat (modsub (sum2 ctx + modsub (sum1 ctx + ucast d))) = (unat (sum2 ctx) + ?m) mod base"
    using lt 2 by (subst unat_modsub) simp_all
  then show ?thesis using s1
    by (simp add: adler32_update_def view_def red_def plain_def mod_simps add.assoc)
qed

lemma update_few:
  assumes ok: "adler_ok ctx" and len: "1 < length buff" "length buff < 16"
  shows "view (adler32_update ctx buff (length buff)) = red (foldl plain (view ctx) buff)"
proof -
  have "length buff \<le> MAX_ADD" using len by (simp add: MAX_ADD_def)
  note f = adds_fit [OF ok this]
  have v: "view (byte_loop ctx buff (length buff)) = foldl plain (view ctx) buff"
    using adds_view f(1) by (simp add: byte_loop_ok)
  then have "unat (sum1 (byte_loop ctx buff (length buff))) < 2 * base"
    using f(2) len by (simp add: view_def base_def prod_eq_iff)
  moreover have "buff \<noteq> []" using len by auto
  ultimately show ?thesis using v len
    by (simp add: adler32_update_def Let_def view_def red_def unat_modsub unat_mod_adler prod_eq_iff)
qed

lemma update_many:
  assumes ok: "adler_ok ctx" and len: "16 \<le> length buff"
  shows "view (adler32_update ctx buff (length buff)) = red (foldl plain (view ctx) buff)"
proof -
  obtain ctx' k where k: "max_loop ctx buff (length buff) = (ctx', drop k buff, length buff - k)" "k \<le> length buff"
      "length buff - k < MAX_ADD" "adler_ok ctx'" "view ctx' = red (foldl plain (view ctx) (take k buff))"
    using max_loop_ok [OF ok refl] by blast
  obtain j where j: "j \<le> length buff - k" "sixteen_loop ctx' (drop k buff) (length buff - k) =
      (foldl ADD1 ctx' (take j (drop k buff)), drop j (drop k buff), length buff - k - j)"
    using sixteen_loop_ok [of "drop k buff" "length buff - k" ctx'] by auto
  let ?c = "byte_loop (foldl ADD1 ctx' (take j (drop k buff))) (drop j (drop k buff)) (length buff - k - j)"
  have "?c = foldl ADD1 ctx' (take j (drop k buff) @ drop j (drop k buff))"
    by (simp only: foldl_append) (simp add: byte_loop_ok)
  then have "?c = foldl ADD1 ctx' (drop k buff)" by (simp only: append_take_drop_id)
  then have c: "view ?c = foldl plain (view ctx') (drop k buff)"
    using adds_view [of ctx' "drop k buff"] adds_fit(1) [OF k(4), of "drop k buff"] k(3) by simp
  have all: "red (foldl plain (view ctx') (drop k buff)) = red (foldl plain (view ctx) buff)"
    unfolding k(5) red_append by simp
  show ?thesis
  proof (cases "length buff - k = 0")
    case True
    then have e: "foldl plain (view ctx') (drop k buff) = view ctx'" by simp
    moreover have "buff \<noteq> []" using len by auto
    ultimately show ?thesis using True k(1) len all [unfolded e] ok_red [OF k(4)] by (simp add: adler32_update_def)
  next
    case False
    moreover have "buff \<noteq> []" using len by auto
    ultimately show ?thesis using k(1) len j(2) c all by (simp add: adler32_update_def reduce_mod_view)
  qed
qed

lemma adler32_update_ok:
  assumes ok: "adler_ok ctx"
  shows "view (adler32_update ctx buff (length buff)) = red (foldl plain (view ctx) buff)"
    "adler_ok (adler32_update ctx buff (length buff))"
proof -
  consider "length buff = 0" | "length buff = 1" | "1 < length buff" "length buff < 16" | "16 \<le> length buff"
    by linarith
  then show v: "view (adler32_update ctx buff (length buff)) = red (foldl plain (view ctx) buff)"
  proof cases
    case 1
    then show ?thesis using ok_red [OF ok] by (simp add: adler32_update_def)
  next
    case 2
    then obtain d where "buff = [d]" by (auto simp: length_Suc_conv)
    then show ?thesis using update_one [OF ok] by simp
  next
    case 3
    then show ?thesis using update_few [OF ok] by simp
  next
    case 4
    then show ?thesis using update_many [OF ok] by simp
  qed
  show "adler_ok (adler32_update ctx buff (length buff))"
    by (simp add: adler_ok_def v red_def) (simp add: base_def)
qed

subsection \<open>The closed form\<close>

lemma plain_sums:
  "foldl plain (a, b) bs = (a + sum_list (octets bs), b + (\<Sum>k\<leftarrow>[1..<length bs + 1]. a + sum_list (octets (take k bs))))"
proof (induction bs rule: rev_induct)
  case (snoc d bs)
  have "map (\<lambda>k. a + sum_list (octets (take k (bs @ [d])))) [1..<length bs + 1] =
      map (\<lambda>k. a + sum_list (octets (take k bs))) [1..<length bs + 1]"
    by (rule map_cong) auto
  moreover have "[1..<length (bs @ [d]) + 1] = [1..<length bs + 1] @ [length bs + 1]" by simp
  moreover have "foldl plain (a, b) (bs @ [d]) = plain (foldl plain (a, b) bs) d" by simp
  ultimately show ?case
    by (simp only: map_append sum_list_append snoc.IH) (simp add: plain_def octets_def del: upt_Suc)
qed (simp add: octets_def)

lemma red_sums: "red (foldl plain (1, 0) bs) = (adler_A bs, adler_B bs)"
  unfolding plain_sums by (simp add: red_def adler_A_def adler_B_def)

section \<open>Rolling\<close>

lemma unat_diff_word: "b \<le> a \<Longrightarrow> unat (a - b :: 'a::len word) = unat a - unat b"
  by (simp add: unat_sub)

lemma unat_add_small: "unat a + unat b < 2 ^ LENGTH('a) \<Longrightarrow> unat (a + b :: 'a::len word) = unat a + unat b"
  by (subst unat_add_lem [THEN iffD1]) auto

lemma roll_view:
  fixes inb out :: "8 word"
  assumes ok: "adler_ok ctx"
  defines "a' \<equiv> (fst (view ctx) + base + unat inb - unat out) mod base"
  shows "view (adler32_roll ctx n inb out) =
    (a', (snd (view ctx) + a' + base - (unat out * unat n) mod base - 1) mod base)"
proof -
  have r: "unat (sum1 ctx) < 65521" "unat (sum2 ctx) < 65521" using ok by (auto simp: adler_ok_def view_def base_def)
  have b: "unat inb \<le> 255" "unat out \<le> 255" by (rule unat_byte)+
  let ?s = "sum1 ctx + MOD_ADLER + ucast inb"
  have s: "unat ?s = unat (sum1 ctx) + 65521 + unat inb"
    using r b by (simp add: unat_add_small unat_ucast_byte MOD_ADLER_def)
  have "(ucast out :: 32 word) \<le> ?s" using s b by (simp add: word_le_nat_alt unat_ucast_byte)
  then have 1: "unat ((?s - ucast out) mod MOD_ADLER) = a'"
    using s by (simp add: unat_mod_adler unat_diff_word unat_ucast_byte a'_def view_def base_def)
  have a': "a' < 65521" by (simp add: a'_def base_def)
  let ?o = "(ucast out * ucast n) mod (ucast MOD_ADLER :: 64 word)"
  have "unat (ucast out :: 64 word) = unat out" "unat (ucast n :: 64 word) = unat n"
    using b(2) unsigned_less [of n, where ?'a = nat] by (simp_all add: unsigned_ucast_eq take_bit_nat_eq_self)
  moreover have "unat out * unat n < 2 ^ 64"
  proof -
    have "unat out * unat n \<le> 255 * 2 ^ 32" using b(2) unsigned_less [of n, where ?'a = nat] by (intro mult_le_mono) auto
    then show ?thesis by simp
  qed
  ultimately have "unat (ucast out * ucast n :: 64 word) = unat out * unat n"
    by (simp add: unat_word_ariths)
  then have o: "unat ?o = (unat out * unat n) mod base"
    by (simp add: unat_mod_distrib MOD_ADLER_def base_def)
  define m where "m = (?s - ucast out) mod MOD_ADLER"
  have m: "unat m = a'" using 1 by (simp add: m_def)
  have t: "unat (sum2 ctx + m + MOD_ADLER) = unat (sum2 ctx) + a' + 65521"
    using r a' m by (simp add: unat_add_small MOD_ADLER_def)
  then have u: "unat (ucast (sum2 ctx + m + MOD_ADLER) :: 64 word) = unat (sum2 ctx) + a' + 65521"
    using r a' by (simp add: unsigned_ucast_eq take_bit_nat_eq_self)
  have ol: "(unat out * unat n) mod base < 65521" by (simp add: base_def)
  have d1: "unat (ucast (sum2 ctx + m + MOD_ADLER) - ?o) = unat (sum2 ctx) + a' + 65521 - (unat out * unat n) mod base"
    using u o ol by (subst unat_diff_word) (auto simp: word_le_nat_alt)
  have d2: "unat (ucast (sum2 ctx + m + MOD_ADLER) - ?o - 1) = unat (sum2 ctx) + a' + 65521 - (unat out * unat n) mod base - 1"
    using d1 ol by (subst unat_diff_word) (auto simp: word_le_nat_alt)
  have "unat ((ucast (sum2 ctx + m + MOD_ADLER) - ?o - 1) mod ucast MOD_ADLER) =
      (unat (sum2 ctx) + a' + 65521 - (unat out * unat n) mod base - 1) mod base"
    by (simp only: unat_mod_distrib d2) (simp add: MOD_ADLER_def base_def)
  moreover have "x mod base < 2 ^ 32" for x :: nat by (rule less_trans [of _ base]) (simp_all add: base_def)
  ultimately show ?thesis using 1
    by (simp add: adler32_roll_def Let_def view_def m_def [symmetric] unsigned_ucast_eq take_bit_nat_eq_self base_def)
qed

text \<open>Moving a window on: the first byte leaves, a new one enters at the end.\<close>

lemma mod_add3: "(p mod c + q mod c + r) mod c = (p + q + r) mod (c :: nat)"
  by (metis mod_add_eq mod_add_left_eq)

lemma roll_sums:
  assumes x: "x < base" and a: "a = 1 + (x + s)" and b: "b = (n + 1) + ((n + 1) * x + q)"
  shows "(a mod base + base + y - x) mod base = (1 + (s + y)) mod base"
    and "(b mod base + (1 + (s + y)) mod base + base - (x * (n + 1)) mod base - 1) mod base = ((n + 1) + (q + s + y)) mod base"
proof -
  have "a mod base + base + y - x = a mod base + (base + y - x)" using x by simp
  then have "(a mod base + base + y - x) mod base = (a + (base + y - x)) mod base" by (simp add: mod_simps)
  also have "a + (base + y - x) = (1 + (s + y)) + base" using x a by simp
  finally show "(a mod base + base + y - x) mod base = (1 + (s + y)) mod base" by (simp only: mod_add_self2)
  define m where "m = x * (n + 1)"
  have m: "m mod base < base" using x by simp
  define r where "r = base - m mod base - 1"
  have "b mod base + (1 + (s + y)) mod base + base - m mod base - 1 = b mod base + (1 + (s + y)) mod base + r"
    using m by (simp add: r_def)
  then have "(b mod base + (1 + (s + y)) mod base + base - m mod base - 1) mod base = (b + (1 + (s + y)) + r) mod base"
    by (simp only: mod_add3)
  also have "b + (1 + (s + y)) + r = ((n + 1) + (q + s + y)) + (m + (base - m mod base))"
    using m b by (simp add: r_def m_def mult.commute)
  also have "m + (base - m mod base) = base * (m div base + 1)"
    using m mult_div_mod_eq [of base m] unfolding distrib_left mult_1_right by linarith
  finally show "(b mod base + (1 + (s + y)) mod base + base - (x * (n + 1)) mod base - 1) mod base = ((n + 1) + (q + s + y)) mod base"
    by (simp only: m_def mod_mult_self2)
qed

definition sums :: "8 word list \<Rightarrow> nat" where
  "sums xs = (\<Sum>k\<leftarrow>[0..<length xs + 1]. sum_list (octets (take k xs)))"

lemma B_Cons: "(\<Sum>k\<leftarrow>[1..<length (x # xs) + 1]. 1 + sum_list (octets (take k (x # xs)))) =
    (length xs + 1) + ((length xs + 1) * unat x + sums xs)"
proof -
  have "[1..<length (x # xs) + 1] = map Suc [0..<length xs + 1]" by (simp add: map_Suc_upt del: upt_Suc)
  then have "(\<Sum>k\<leftarrow>[1..<length (x # xs) + 1]. 1 + sum_list (octets (take k (x # xs)))) =
      (\<Sum>k\<leftarrow>[0..<length xs + 1]. (1 + unat x) + sum_list (octets (take k xs)))"
    by (simp add: octets_def o_def del: upt_Suc)
  also have "\<dots> = (length xs + 1) * (1 + unat x) + sums xs"
    by (simp only: sum_list_addf sum_list_triv length_upt sums_def) simp
  finally show ?thesis by (simp only: distrib_left mult_1_right add.assoc)
qed

lemma B_snoc: "(\<Sum>k\<leftarrow>[1..<length (xs @ [y]) + 1]. 1 + sum_list (octets (take k (xs @ [y])))) =
    (length xs + 1) + (sums xs + sum_list (octets xs) + unat y)"
proof -
  have "[1..<length (xs @ [y]) + 1] = [1..<length xs + 1] @ [length xs + 1]" by simp
  moreover have "map (\<lambda>k. 1 + sum_list (octets (take k (xs @ [y])))) [1..<length xs + 1] =
      map (\<lambda>k. 1 + sum_list (octets (take k xs))) [1..<length xs + 1]" by (rule map_cong) auto
  ultimately have "(\<Sum>k\<leftarrow>[1..<length (xs @ [y]) + 1]. 1 + sum_list (octets (take k (xs @ [y])))) =
      (\<Sum>k\<leftarrow>[1..<length xs + 1]. 1 + sum_list (octets (take k xs))) + (1 + (sum_list (octets xs) + unat y))"
    by (simp only: map_append sum_list_append) (simp add: octets_def del: upt_Suc)
  moreover have "sums xs = (\<Sum>k\<leftarrow>[1..<length xs + 1]. sum_list (octets (take k xs)))"
    by (simp add: sums_def upt_conv_Cons octets_def del: upt_Suc)
  moreover have "(\<Sum>k\<leftarrow>[1..<length xs + 1]. 1 + sum_list (octets (take k xs))) =
      length xs + (\<Sum>k\<leftarrow>[1..<length xs + 1]. sum_list (octets (take k xs)))"
    by (simp only: sum_list_addf sum_list_triv length_upt) simp
  ultimately show ?thesis by linarith
qed

lemma updates_ok:
  "adler_ok ctx \<Longrightarrow> view (foldl (\<lambda>ctx p. adler32_update ctx p (length p)) ctx ps) = red (foldl plain (view ctx) (concat ps)) \<and>
     adler_ok (foldl (\<lambda>ctx p. adler32_update ctx p (length p)) ctx ps)"
proof (induction ps arbitrary: ctx)
  case Nil
  then show ?case by (simp add: ok_red)
next
  case (Cons p ps)
  note u = adler32_update_ok [OF Cons.prems, of p]
  show ?case using Cons.IH [OF u(2)] unfolding u(1) red_append by simp
qed

lemma adler32_init_ok: "adler_ok adler32_init" "view adler32_init = (1, 0)"
  by (simp_all add: adler_ok_def view_def adler32_init_def base_def)

lemma checksum_ok:
  assumes "view ctx = (a, b)" "a < 2 ^ 16"
  shows "adler32_get_checksum ctx = of_nat (b * 2 ^ 16 + a)"
proof -
  have u: "unat (sum1 ctx) = a" "unat (sum2 ctx) = b" using assms(1) by (auto simp: view_def)
  have "take_bit 16 (sum1 ctx) = sum1 ctx"
    using u assms(2) by (intro word_unat_eq_iff [THEN iffD2]) (simp add: unsigned_take_bit_eq take_bit_nat_eq_self)
  then have "push_bit 16 (sum2 ctx) AND sum1 ctx = 0"
    by (metis (no_types, lifting) and.commute bit_and_iff bit_eqI bit_push_bit_iff bit_take_bit_iff bit_0_eq bot_apply bot_bool_def not_le)
  then have "adler32_get_checksum ctx = push_bit 16 (sum2 ctx) + sum1 ctx"
    unfolding adler32_get_checksum_def by (simp add: disjunctive_add_eq_or)
  also have "\<dots> = of_nat b * 2 ^ 16 + of_nat a" using u by (auto simp: push_bit_eq_mult)
  finally show ?thesis by simp
qed

section \<open>The properties of the component\<close>

text \<open>C10: 
  Fed in any pieces, of any lengths, the context ends up with the two sums of RFC 1950; in particular none of the
  32-bit additions between two reductions wraps.
\<close>

theorem adler32_correct:
  "adler32_get_checksum (foldl (\<lambda>ctx p. adler32_update ctx p (length p)) adler32_init pieces) =
     of_nat (adler_B (concat pieces) * 2 ^ 16 + adler_A (concat pieces))"
proof (rule checksum_ok)
  show "view (foldl (\<lambda>ctx p. adler32_update ctx p (length p)) adler32_init pieces) = (adler_A (concat pieces), adler_B (concat pieces))"
    using updates_ok [OF adler32_init_ok(1), of pieces] unfolding adler32_init_ok(2) red_sums by blast
  have "adler_A (concat pieces) < base" by (simp add: adler_A_def base_def)
  then show "adler_A (concat pieces) < 2 ^ 16" by (simp add: base_def)
qed

text \<open>
  Rolling moves the window on by one byte: from the context of \<open>x # xs\<close> to that of \<open>xs @ [y]\<close>, without looking at the
  bytes in between.
\<close>

theorem adler32_roll_correct:
  assumes "Suc (length xs) < 2 ^ 32"
  shows "adler32_roll (adler32_update adler32_init (x # xs) (Suc (length xs))) (of_nat (Suc (length xs))) y x =
    adler32_update adler32_init (xs @ [y]) (Suc (length xs))"
proof -
  have v: "view (adler32_update adler32_init bs (length bs)) = (adler_A bs, adler_B bs)" for bs
    using adler32_update_ok(1) [OF adler32_init_ok(1), of bs] unfolding adler32_init_ok(2) red_sums .
  let ?c = "adler32_update adler32_init (x # xs) (length (x # xs))"
  have ok: "adler_ok ?c" by (rule adler32_update_ok(2) [OF adler32_init_ok(1)])
  have n: "unat (of_nat (Suc (length xs)) :: 32 word) = length xs + 1" using assms by (simp add: unsigned_of_nat take_bit_nat_eq_self del: of_nat_Suc)
  have x: "unat x < base" using unat_byte [of x] by (simp add: base_def)
  let ?a = "1 + (unat x + sum_list (octets xs))" and ?b = "(length xs + 1) + ((length xs + 1) * unat x + sums xs)"
  have AB: "adler_A (x # xs) = ?a mod base" "adler_B (x # xs) = ?b mod base"
    unfolding adler_B_def B_Cons by (simp_all add: adler_A_def octets_def)
  note r = roll_sums(1) [OF x refl refl, of "sum_list (octets xs)" "unat y"]
    roll_sums(2) [OF x refl refl, of "length xs" "sums xs" "sum_list (octets xs)" "unat y"]
  have "adler_A (xs @ [y]) = (1 + (sum_list (octets xs) + unat y)) mod base" by (simp add: adler_A_def octets_def)
  moreover have "adler_B (xs @ [y]) = ((length xs + 1) + (sums xs + sum_list (octets xs) + unat y)) mod base"
    unfolding adler_B_def B_snoc ..
  ultimately have "view (adler32_roll ?c (of_nat (Suc (length xs))) y x) = view (adler32_update adler32_init (xs @ [y]) (length (xs @ [y])))"
    unfolding v roll_view [OF ok] fst_conv snd_conv n AB by (simp only: r)
  then show ?thesis using view_inj by fastforce
qed

theorem adler32_roll_witness:
  "adler32_roll (adler32_update adler32_init [97, 98, 99] 3) 3 100 97 = adler32_update adler32_init [98, 99, 100] 3"
proof -
  have "Suc (length [98, 99 :: 8 word]) = 3" by simp
  then show ?thesis using adler32_roll_correct [of "[98, 99]" 97 100] by (simp only: of_nat_numeral append.simps) simp
qed

end
