(* ===== verification/Inet.thy ===== *)
theory Inet
  imports Prelude "HOL-Library.Word"
begin

text \<open>
  The internet checksum of \<open>include/tarp/hash/checksum/inet.hxx\<close> and \<open>src/hash/inet_checksum.cxx\<close>, on a little-endian
  machine. Data may be fed in pieces of any length and changed in place afterwards; both are shown to give the
  checksum of RFC 1071 for the whole data, as long as the 32-bit accumulator does not wrap, which is what the code
  assumes as well. The contents of \<open>joint\<close> in a new context are indeterminate and a parameter of the model.
\<close>

section \<open>The code\<close>

record inetcksum_ctx =
  isum :: "32 word"
  truncated :: bool
  joint0 :: "8 word"
  joint1 :: "8 word"

definition inet_new :: "8 word \<Rightarrow> 8 word \<Rightarrow> inetcksum_ctx" where
  "inet_new g0 g1 = \<lparr>isum = 0, truncated = False, joint0 = g0, joint1 = g1\<rparr>"

text \<open>\<open>memcpy\<close> of two bytes into a \<open>uint16_t\<close>.\<close>

definition load16 :: "8 word \<Rightarrow> 8 word \<Rightarrow> 16 word" where
  "load16 lo hi = ucast lo + 256 * ucast hi"

definition add_sum :: "16 word \<Rightarrow> inetcksum_ctx \<Rightarrow> inetcksum_ctx" where
  "add_sum v ctx = ctx\<lparr>isum := isum ctx + ucast v\<rparr>"

fun word_loop :: "nat \<Rightarrow> inetcksum_ctx \<Rightarrow> 8 word list \<Rightarrow> inetcksum_ctx \<times> 8 word list" where
  "word_loop 0 ctx buff = (ctx, buff)"
| "word_loop (Suc n) ctx buff = word_loop n (add_sum (load16 (buff ! 0) (buff ! 1)) ctx) (drop 2 buff)"

definition add_words :: "inetcksum_ctx \<Rightarrow> 8 word list \<Rightarrow> nat \<Rightarrow> inetcksum_ctx" where
  "add_words ctx buff bufflen =
     (let (ctx, buff) = word_loop (bufflen div 2) ctx buff in
      if odd bufflen
      then (add_sum (load16 (buff ! 0) 0) ctx)\<lparr>truncated := True, joint0 := buff ! 0\<rparr>
      else ctx)"

definition inet_update :: "inetcksum_ctx \<Rightarrow> 8 word list \<Rightarrow> nat \<Rightarrow> inetcksum_ctx" where
  "inet_update ctx buff bufflen =
     (if truncated ctx \<and> bufflen > 0 then
        let prev = load16 (joint0 ctx) (joint1 ctx);
            ctx = ctx\<lparr>joint1 := buff ! 0\<rparr>;
            nxt = load16 (joint0 ctx) (joint1 ctx) - prev;
            ctx = add_sum nxt ctx
        in add_words (ctx\<lparr>truncated := False, joint0 := 0, joint1 := 0\<rparr>) (drop 1 buff) (bufflen - 1)
      else add_words ctx buff bufflen)"

unbundle bit_operations_syntax

lemma unat_take16: "unat (take_bit 16 s :: 32 word) = unat s mod 2 ^ 16"
  by (subst unsigned_take_bit_eq) (rule take_bit_eq_mod)

lemma unat_drop16: "unat (drop_bit 16 s :: 32 word) = unat s div 2 ^ 16"
proof -
  have "take_bit 32 (unat s) = unat s" using unsigned_less [of s, where ?'a = nat] by (intro take_bit_nat_eq_self) simp
  then have "unat (drop_bit 16 s) = drop_bit 16 (unat s)" by (simp add: unsigned_drop_bit_eq)
  then show ?thesis by (simp only: drop_bit_eq_div)
qed

lemma fold_once: "unat ((s AND 0xFFFF) + drop_bit 16 s :: 32 word) = unat s mod 2 ^ 16 + unat s div 2 ^ 16"
proof -
  have m: "s AND 0xFFFF = take_bit 16 s" by (simp add: take_bit_eq_mask mask_eq_exp_minus_1)
  have "unat s < 2 ^ 32" using unsigned_less [of s, where ?'a = nat] by simp
  then have "unat s div 2 ^ 16 < 2 ^ 16" by (simp add: div_less_iff_less_mult)
  moreover have "unat s mod 2 ^ 16 < 2 ^ 16" by simp
  ultimately have "unat (take_bit 16 s) + unat (drop_bit 16 s) < 2 ^ 32" unfolding unat_take16 unat_drop16 by simp
  then have "unat (take_bit 16 s + drop_bit 16 s) = unat (take_bit 16 s) + unat (drop_bit 16 s)"
    by (subst unat_add_lem [THEN iffD1]) simp_all
  then show ?thesis unfolding m unat_take16 unat_drop16 .
qed

lemma fold_smaller: "drop_bit 16 s \<noteq> (0 :: 32 word) \<Longrightarrow> unat s mod 2 ^ 16 + unat s div 2 ^ 16 < unat s"
proof -
  assume "drop_bit 16 s \<noteq> 0"
  then have "unat (drop_bit 16 s) \<noteq> 0" using unat_eq_zero by blast
  define q r where "q = unat s div 2 ^ 16" and "r = unat s mod 2 ^ 16"
  have "q \<noteq> 0" using \<open>unat (drop_bit 16 s) \<noteq> 0\<close> unfolding unat_drop16 q_def .
  moreover have "unat s = 65536 * q + r" using mult_div_mod_eq [of "2 ^ 16" "unat s"] by (simp add: q_def r_def)
  ultimately show ?thesis unfolding q_def [symmetric] r_def [symmetric] by linarith
qed

function fold_sum_loop :: "32 word \<Rightarrow> 32 word" where
  "fold_sum_loop s = (if drop_bit 16 s \<noteq> 0 then fold_sum_loop ((s AND 0xFFFF) + drop_bit 16 s) else s)"
  by pat_completeness auto
termination
  by (relation "measure unat") (simp_all only: wf_measure in_measure fold_once not_False_eq_True fold_smaller)

declare fold_sum_loop.simps [simp del]

definition fold_sum :: "32 word \<Rightarrow> 16 word" where
  "fold_sum s = ucast (fold_sum_loop s)"

definition inet_get_checksum :: "inetcksum_ctx \<Rightarrow> 16 word" where
  "inet_get_checksum ctx = NOT (fold_sum (isum ctx))"

definition inet_process_block :: "inetcksum_ctx \<Rightarrow> 8 word list \<Rightarrow> nat \<Rightarrow> bool \<Rightarrow> 16 word \<times> inetcksum_ctx" where
  "inet_process_block ctx data len last_block =
     (let ctx = inet_update ctx data len in (if last_block then inet_get_checksum ctx else 0, ctx))"

definition inet_process_all :: "8 word \<Rightarrow> 8 word \<Rightarrow> 8 word list \<Rightarrow> 16 word" where
  "inet_process_all g0 g1 data = inet_get_checksum (inet_update (inet_new g0 g1) data (length data))"

text \<open>Replacing a value of a whole number of 16-bit words, given by its bytes in memory.\<close>

definition inet_update_value :: "inetcksum_ctx \<Rightarrow> 8 word list \<Rightarrow> 8 word list \<Rightarrow> inetcksum_ctx" where
  "inet_update_value ctx old_value new_value =
     (let ctx = fst (word_loop (length old_value div 2) ctx (map NOT old_value))
      in fst (word_loop (length new_value div 2) ctx new_value))"

text \<open>Replacing any range of bytes of the buffer the checksum was computed over. \<open>None\<close> is the exception thrown.\<close>

fun change_loop :: "nat \<Rightarrow> inetcksum_ctx \<Rightarrow> 8 word list \<Rightarrow> 8 word list \<Rightarrow> inetcksum_ctx" where
  "change_loop 0 ctx old p = ctx"
| "change_loop (Suc n) ctx old p =
     change_loop n (add_sum (load16 (p ! 0) (p ! 1)) (add_sum (NOT (load16 (old ! 0) (old ! 1))) ctx)) (drop 2 old) (drop 2 p)"

definition change_aligned :: "inetcksum_ctx \<Rightarrow> 8 word list \<Rightarrow> nat \<Rightarrow> nat \<Rightarrow> nat \<Rightarrow> 8 word list \<Rightarrow> inetcksum_ctx" where
  "change_aligned ctx buff bufflen off len change =
     (let ctx = change_loop (len div 2) ctx (drop off buff) change in
      if odd len
      then let (oldval, newval, ctx) =
             (if off + len = bufflen
              then (load16 (buff ! (off + len - 1)) 0, load16 (change ! (len - 1)) 0, ctx\<lparr>joint0 := change ! (len - 1)\<rparr>)
              else (load16 (buff ! (off + len - 1)) (buff ! (off + len)),
                    load16 (change ! (len - 1)) (buff ! (off + len)), ctx))
           in add_sum newval (add_sum (NOT oldval) ctx)
      else ctx)"

definition inet_update_change :: "inetcksum_ctx \<Rightarrow> 8 word list \<Rightarrow> nat \<Rightarrow> nat \<Rightarrow> nat \<Rightarrow> 8 word list \<Rightarrow> inetcksum_ctx option" where
  "inet_update_change ctx buff bufflen off clen change =
     (if clen = 0 then Some ctx
      else if off + clen > bufflen then None
      else if odd off
      then let ctx = add_sum (load16 (buff ! (off - 1)) (change ! 0))
                       (add_sum (NOT (load16 (buff ! (off - 1)) (buff ! off))) ctx)
           in Some (change_aligned ctx buff bufflen (off + 1) (clen - 1) (drop 1 change))
      else Some (change_aligned ctx buff bufflen off clen change))"

section \<open>Sums of words\<close>

text \<open>The 16-bit words of the data; a last single byte is padded with a zero byte.\<close>

fun words :: "8 word list \<Rightarrow> nat list" where
  "words [] = []"
| "words [a] = [unat a]"
| "words (a # b # bs) = (unat a + 256 * unat b) # words bs"

definition wsum :: "8 word list \<Rightarrow> nat" where
  "wsum bs = sum_list (words bs)"

lemma wsum_simps [simp]: "wsum [] = 0" "wsum [a] = unat a" "wsum (a # b # bs) = unat a + 256 * unat b + wsum bs"
  by (simp_all add: wsum_def)

lemma wsum_append: "even (length xs) \<Longrightarrow> wsum (xs @ ys) = wsum xs + wsum ys"
  by (induction xs rule: words.induct) auto

lemma wsum_snoc: "wsum (xs @ [b]) = (if even (length xs) then wsum xs + unat b else wsum xs + 256 * unat b)"
  by (induction xs rule: words.induct) auto

lemma unat_byte8: "unat (d :: 8 word) < 256"
  using unsigned_less [of d, where ?'a = nat] by simp

lemma unat_load16: "unat (load16 lo hi) = unat lo + 256 * unat hi"
proof -
  have u: "unat (ucast lo :: 16 word) = unat lo" "unat (ucast hi :: 16 word) = unat hi"
    using unat_byte8 [of lo] unat_byte8 [of hi] by (simp_all add: unsigned_ucast_eq take_bit_nat_eq_self)
  have "unat lo + 256 * unat hi < 2 ^ 16" using unat_byte8 [of lo] unat_byte8 [of hi] by simp
  then show ?thesis unfolding load16_def by (simp add: unat_word_ariths u)
qed

lemma unat_NOT16: "unat (NOT v :: 16 word) = 65535 - unat v"
proof -
  have "NOT v = - 1 - v" by (simp add: not_eq_complement)
  moreover have "unat (- 1 - v) = unat (- 1 :: 16 word) - unat v" by (rule unat_sub) simp
  ultimately show ?thesis by (simp add: unsigned_minus_1_eq_mask mask_eq_exp_minus_1)
qed

lemma unat_add_sum: "unat (isum ctx) + unat v < 2 ^ 32 \<Longrightarrow> unat (isum (add_sum v ctx)) = unat (isum ctx) + unat v"
proof -
  assume a: "unat (isum ctx) + unat v < 2 ^ 32"
  have "unat v < 65536" using unsigned_less [of v, where ?'a = nat] by simp
  then have "unat (ucast v :: 32 word) = unat v" by (simp add: unsigned_ucast_eq take_bit_nat_eq_self)
  then show ?thesis using a by (simp add: add_sum_def unat_word_ariths)
qed

section \<open>Folding\<close>

definition ones_fold :: "nat \<Rightarrow> nat" where
  "ones_fold n = (if n = 0 then 0 else if n mod 65535 = 0 then 65535 else n mod 65535)"

lemma ones_fold_le: "ones_fold n \<le> 65535"
  by (simp add: ones_fold_def)

lemma ones_fold_unique: "m \<le> 65535 \<Longrightarrow> m mod 65535 = n mod 65535 \<Longrightarrow> (m = 0 \<longleftrightarrow> n = 0) \<Longrightarrow> m = ones_fold n"
  by (cases "m = 65535") (auto simp: ones_fold_def)

lemma ones_fold_cong: "m mod 65535 = n mod 65535 \<Longrightarrow> (m = 0 \<longleftrightarrow> n = 0) \<Longrightarrow> ones_fold m = ones_fold n"
  by (simp add: ones_fold_def)

lemma ones_fold_complement: "ones_fold (n + (65535 - ones_fold n)) = 65535"
proof -
  define q r where "q = n div 65535" and "r = n mod 65535"
  have n: "n = 65535 * q + r" and r: "r < 65535" by (simp_all add: q_def r_def)
  have "n + (65535 - ones_fold n) = 65535 * (if r = 0 \<and> q \<noteq> 0 then q else q + 1)"
    using n r by (auto simp: ones_fold_def)
  then show ?thesis by (simp add: ones_fold_def)
qed

lemma fold_sum_loop_ok: "unat (fold_sum_loop s) = ones_fold (unat s)"
proof (induction s rule: fold_sum_loop.induct)
  case (1 s)
  show ?case
  proof (cases "drop_bit 16 s = 0")
    case True
    then have "unat s div 2 ^ 16 = 0" using unat_drop16 [of s] by simp
    then have "unat s \<le> 65535" by (simp add: div_eq_0_iff)
    then show ?thesis using True by (simp add: fold_sum_loop.simps [of s] ones_fold_unique)
  next
    case False
    define q r where "q = unat s div 2 ^ 16" and "r = unat s mod 2 ^ 16"
    have s: "unat s = 65535 * q + (r + q)" using mult_div_mod_eq [of "2 ^ 16" "unat s"] by (simp add: q_def r_def)
    have "unat s mod 65535 = (65535 * q + (r + q)) mod 65535" by (rule arg_cong [OF s])
    then have "(r + q) mod 65535 = unat s mod 65535" by (simp only: mod_mult_self4)
    moreover have "r + q = 0 \<longleftrightarrow> unat s = 0" using s by auto
    ultimately have "ones_fold (r + q) = ones_fold (unat s)" by (rule ones_fold_cong)
    then show ?thesis using False 1 [OF False] unfolding fold_once q_def r_def by (simp add: fold_sum_loop.simps [of s])
  qed
qed

lemma get_checksum_ok: "unat (inet_get_checksum ctx) = 65535 - ones_fold (unat (isum ctx))"
proof -
  have "ones_fold (unat (isum ctx)) < 65536" using ones_fold_le [of "unat (isum ctx)"] by simp
  then have "unat (fold_sum (isum ctx)) = ones_fold (unat (isum ctx))"
    by (simp add: fold_sum_def unsigned_ucast_eq fold_sum_loop_ok take_bit_nat_eq_self)
  then show ?thesis by (simp add: inet_get_checksum_def unat_NOT16)
qed

section \<open>Feeding data\<close>

lemma word_loop_ok:
  "2 * n \<le> length buff \<Longrightarrow> unat (isum ctx) + wsum (take (2 * n) buff) < 2 ^ 32 \<Longrightarrow>
     \<exists>s. word_loop n ctx buff = (ctx\<lparr>isum := s\<rparr>, drop (2 * n) buff) \<and> unat s = unat (isum ctx) + wsum (take (2 * n) buff)"
proof (induction n arbitrary: ctx buff)
  case 0
  then show ?case by (intro exI [of _ "isum ctx"]) simp
next
  case (Suc n)
  then obtain a b bs where buff: "buff = a # b # bs" by (cases buff; cases "tl buff") auto
  let ?c = "add_sum (load16 a b) ctx"
  have c: "unat (isum ?c) = unat (isum ctx) + (unat a + 256 * unat b)"
    using Suc.prems(2) buff by (subst unat_add_sum) (simp_all add: unat_load16)
  obtain s where "word_loop n ?c bs = (?c\<lparr>isum := s\<rparr>, drop (2 * n) bs)" "unat s = unat (isum ?c) + wsum (take (2 * n) bs)"
    using Suc.IH [of bs ?c] Suc.prems buff c by auto
  then show ?case using buff c by (intro exI [of _ s]) (simp add: add_sum_def)
qed

definition inet_ok :: "inetcksum_ctx \<Rightarrow> 8 word list \<Rightarrow> bool" where
  "inet_ok ctx bs \<longleftrightarrow> unat (isum ctx) = wsum bs \<and> truncated ctx = odd (length bs) \<and> (odd (length bs) \<longrightarrow> joint0 ctx = last bs)"

lemma add_words_ok:
  assumes ok: "inet_ok ctx bs" "even (length bs)" and fits: "wsum (bs @ buff) < 2 ^ 32"
  shows "inet_ok (add_words ctx buff (length buff)) (bs @ buff)"
proof -
  let ?n = "length buff div 2"
  let ?xs = "take (2 * ?n) buff" and ?ys = "drop (2 * ?n) buff"
  have w: "wsum (bs @ buff) = wsum bs + wsum ?xs + wsum ?ys"
    using ok(2) wsum_append [of ?xs ?ys] by (simp add: wsum_append)
  have "unat (isum ctx) + wsum ?xs < 2 ^ 32" using ok fits w by (simp add: inet_ok_def)
  then obtain s where s: "word_loop ?n ctx buff = (ctx\<lparr>isum := s\<rparr>, ?ys)" "unat s = wsum bs + wsum ?xs"
    using word_loop_ok [of ?n buff ctx] ok by (auto simp: inet_ok_def)
  show ?thesis
  proof (cases "odd (length buff)")
    case False
    then have "?ys = []" by simp
    then show ?thesis using s w False ok by (simp add: add_words_def inet_ok_def)
  next
    case True
    then have "length ?ys = 1" by (simp add: odd_iff_mod_2_eq_one minus_mult_div_eq_mod)
    then obtain y where y: "?ys = [y]" by (metis One_nat_def length_0_conv length_Suc_conv)
    then have "last buff = y" by (metis append_take_drop_id last_snoc)
    moreover have "unat (isum (add_sum (load16 y 0) (ctx\<lparr>isum := s\<rparr>))) = wsum (bs @ buff)"
      using s w fits y by (subst unat_add_sum) (simp_all add: unat_load16)
    moreover have "buff \<noteq> []" using True by auto
    ultimately show ?thesis using s(1) y True ok by (auto simp: add_words_def inet_ok_def add_sum_def Let_def)
  qed
qed

lemma inet_update_ok:
  assumes ok: "inet_ok ctx bs" "truncated ctx \<Longrightarrow> joint1 ctx = 0" and fits: "wsum (bs @ buff) < 2 ^ 32"
  shows "inet_ok (inet_update ctx buff (length buff)) (bs @ buff)"
proof (cases "truncated ctx \<and> buff \<noteq> []")
  case False
  then show ?thesis
  proof (cases "buff = []")
    case True
    then show ?thesis using ok(1) by (simp add: inet_update_def add_words_def)
  next
    case n: False
    then show ?thesis using False ok(1) add_words_ok [OF ok(1) _ fits] by (auto simp: inet_update_def inet_ok_def)
  qed
next
  case True
  then obtain f fs where buff: "buff = f # fs" by (cases buff) auto
  have odd: "odd (length bs)" using True ok(1) by (simp add: inet_ok_def)
  then obtain cs e where bs: "bs = cs @ [e]" by (cases bs rule: rev_cases) auto
  have j: "joint0 ctx = e" "joint1 ctx = 0" using ok odd bs True by (auto simp: inet_ok_def)
  have ev: "even (length cs)" using odd bs by simp
  define nxt where "nxt = load16 e f - load16 e 0"
  have nxt: "unat nxt = 256 * unat f"
  proof -
    have "load16 e 0 \<le> load16 e f" by (simp add: word_le_nat_alt unat_load16)
    then show ?thesis by (simp add: nxt_def unat_sub unat_load16)
  qed
  have w: "wsum (bs @ [f]) = wsum bs + 256 * unat f" using ev bs by (simp add: wsum_snoc wsum_append)
  have e2: "even (length (bs @ [f]))" using odd by simp
  have split: "wsum (bs @ buff) = wsum (bs @ [f]) + wsum fs" using wsum_append [OF e2, of fs] buff by simp
  define c where "c = (add_sum nxt (ctx\<lparr>joint1 := f\<rparr>))\<lparr>truncated := False, joint0 := 0, joint1 := 0\<rparr>"
  have "unat (isum (add_sum nxt (ctx\<lparr>joint1 := f\<rparr>))) = wsum (bs @ [f])"
    using w fits split ok(1) nxt by (subst unat_add_sum) (simp_all add: inet_ok_def)
  then have c: "inet_ok c (bs @ [f])" using e2 by (simp add: c_def inet_ok_def)
  have "inet_update ctx buff (length buff) = add_words c fs (length fs)"
    using True buff j by (simp add: inet_update_def c_def nxt_def Let_def add_sum_def)
  then show ?thesis using add_words_ok [OF c e2, of fs] fits buff by simp
qed







lemma inet_new_ok: "inet_ok (inet_new g0 g1) []"
  by (simp add: inet_ok_def inet_new_def)

section \<open>Changing data in place\<close>

lemma change_one:
  assumes "unat (isum ctx) + 131070 < 2 ^ 32"
  shows "unat (isum (add_sum new (add_sum (NOT old) ctx))) + unat old = unat (isum ctx) + 65535 + unat new"
    and "unat (isum (add_sum new (add_sum (NOT old) ctx))) \<le> unat (isum ctx) + 131070"
proof -
  have l: "unat old \<le> 65535" "unat new \<le> 65535" "unat (NOT old) = 65535 - unat old"
    using unsigned_less [of old, where ?'a = nat] unsigned_less [of new, where ?'a = nat] by (simp_all add: unat_NOT16)
  have 1: "unat (isum (add_sum (NOT old) ctx)) = unat (isum ctx) + (65535 - unat old)"
    using assms l by (subst unat_add_sum) simp_all
  have "unat (isum (add_sum new (add_sum (NOT old) ctx))) = unat (isum ctx) + (65535 - unat old) + unat new"
    using assms l 1 by (subst unat_add_sum) simp_all
  then show "unat (isum (add_sum new (add_sum (NOT old) ctx))) + unat old = unat (isum ctx) + 65535 + unat new"
    "unat (isum (add_sum new (add_sum (NOT old) ctx))) \<le> unat (isum ctx) + 131070" using l by simp_all
qed

lemma add_sum_same [simp]:
  "truncated (add_sum v ctx) = truncated ctx" "joint0 (add_sum v ctx) = joint0 ctx" "joint1 (add_sum v ctx) = joint1 ctx"
  by (simp_all add: add_sum_def)

lemma change_loop_ok:
  "2 * n \<le> length old \<Longrightarrow> 2 * n \<le> length p \<Longrightarrow> unat (isum ctx) + 131070 * n < 2 ^ 32 \<Longrightarrow>
     unat (isum (change_loop n ctx old p)) + wsum (take (2 * n) old) = unat (isum ctx) + 65535 * n + wsum (take (2 * n) p) \<and>
     unat (isum (change_loop n ctx old p)) \<le> unat (isum ctx) + 131070 * n \<and>
     truncated (change_loop n ctx old p) = truncated ctx \<and> joint0 (change_loop n ctx old p) = joint0 ctx \<and>
     joint1 (change_loop n ctx old p) = joint1 ctx"
proof (induction n arbitrary: ctx old p)
  case 0
  then show ?case by simp
next
  case (Suc n)
  obtain a b os where old: "old = a # b # os" using Suc.prems(1) by (cases old; cases "tl old") auto
  obtain c d ps where p: "p = c # d # ps" using Suc.prems(2) by (cases p; cases "tl p") auto
  let ?c = "add_sum (load16 c d) (add_sum (NOT (load16 a b)) ctx)"
  have one: "unat (isum ctx) + 131070 < 2 ^ 32" using Suc.prems(3) by simp
  note s = change_one [OF one, where new = "load16 c d" and old = "load16 a b", unfolded unat_load16]
  have "unat (isum ?c) + 131070 * n < 2 ^ 32" using s(2) Suc.prems(3) by simp
  from Suc.IH [OF _ _ this, of os ps] show ?case using s old p Suc.prems by simp
qed

definition put_change :: "8 word list \<Rightarrow> nat \<Rightarrow> 8 word list \<Rightarrow> 8 word list" where
  "put_change buff off change = take off buff @ change @ drop (off + length change) buff"

lemma change_aligned_ok:
  assumes off: "even off" "off + length change \<le> length buff"
    and fits: "unat (isum ctx) + 131070 * ((length change + 1) div 2) < 2 ^ 32"
  defines "ctx' \<equiv> change_aligned ctx buff (length buff) off (length change) change"
  shows "unat (isum ctx') + wsum buff = unat (isum ctx) + 65535 * ((length change + 1) div 2) + wsum (put_change buff off change)"
    "truncated ctx' = truncated ctx"
    "joint0 ctx' = (if off + length change = length buff \<and> odd (length change) then last change else joint0 ctx)"
proof -
  define A M T where "A = take off buff" and "M = take (length change) (drop off buff)" and "T = drop (off + length change) buff"
  have buff: "buff = A @ M @ T" unfolding A_def M_def T_def by (metis append_take_drop_id drop_drop add.commute)
  have len: "length A = off" "length M = length change" using off by (auto simp: A_def M_def)
  have new: "put_change buff off change = A @ change @ T" by (simp add: put_change_def A_def T_def)
  let ?n = "length change div 2"
  have dr: "drop off buff = M @ T" using buff len by simp
  have "unat (isum ctx) + 131070 * ?n < 2 ^ 32" using fits by (rule le_less_trans [rotated]) (auto intro: div_le_mono)
  note loop = change_loop_ok [OF _ _ this, of "M @ T" change]
  have goal: "unat (isum ctx') + wsum buff = unat (isum ctx) + 65535 * ((length change + 1) div 2) + wsum (A @ change @ T) \<and>
    truncated ctx' = truncated ctx \<and>
    joint0 ctx' = (if off + length change = length buff \<and> odd (length change) then last change else joint0 ctx)"
  proof (cases "even (length change)")
    case True
    then have "ctx' = change_loop ?n ctx (M @ T) change" by (simp add: ctx'_def change_aligned_def dr Let_def)
    moreover have "take (2 * ?n) (M @ T) = M" "take (2 * ?n) change = change" "(length change + 1) div 2 = ?n"
      using True len by auto
    moreover have "wsum buff = wsum A + (wsum M + wsum T)" "wsum (A @ change @ T) = wsum A + (wsum change + wsum T)"
      using True len off(1) by (simp_all add: buff wsum_append)
    ultimately show ?thesis using loop len True by auto
  next
    case False
    then obtain C d where change: "change = C @ [d]" by (cases change rule: rev_cases) auto
    with len obtain M' m where M: "M = M' @ [m]" by (cases M rule: rev_cases) auto
    have ev: "even (length C)" "length M' = length C" "2 * ?n = length C" using False change len M by auto
    define c where "c = change_loop ?n ctx (M @ T) change"
    have k: "(length change + 1) div 2 = ?n + 1" using False by presburger
    have tk: "take (2 * ?n) (M @ T) = M'" "take (2 * ?n) change = C" using ev M change by simp_all
    have c: "unat (isum c) + wsum M' = unat (isum ctx) + 65535 * ?n + wsum C" "unat (isum c) \<le> unat (isum ctx) + 131070 * ?n"
      "truncated c = truncated ctx" "joint0 c = joint0 ctx"
      using loop len unfolding c_def tk by auto
    have room: "unat (isum c) + 131070 < 2 ^ 32" using c(2) fits k by simp
    have nths: "change ! (length change - 1) = d" "buff ! (off + length change - 1) = m"
      using change len M ev by (simp_all add: buff nth_append)
    have ctx': "ctx' = (let (oldval, newval, ctx) =
        (if off + length change = length buff then (load16 m 0, load16 d 0, c\<lparr>joint0 := d\<rparr>)
         else (load16 m (buff ! (off + length change)), load16 d (buff ! (off + length change)), c))
      in add_sum newval (add_sum (NOT oldval) ctx))"
      unfolding ctx'_def change_aligned_def dr c_def [symmetric] nths using False by simp
    show ?thesis
    proof (cases T)
      case Nil
      then have "off + length change = length buff" using len buff by simp
      moreover have "unat (isum (c\<lparr>joint0 := d\<rparr>)) + 131070 < 2 ^ 32" using room by simp
      note change_one [OF this, where new = "load16 d 0" and old = "load16 m 0", unfolded unat_load16]
      ultimately show ?thesis
        using ctx' c k False off(1) len ev unfolding buff M change Nil by (simp add: wsum_append)
    next
      case (Cons t T')
      then have "off + length change \<noteq> length buff" "buff ! (off + length change) = t" using len by (simp_all add: buff nth_append)
      moreover note change_one [OF room, where new = "load16 d t" and old = "load16 m t", unfolded unat_load16]
      ultimately show ?thesis
        using ctx' c k False off(1) len ev unfolding buff M change Cons by (simp add: wsum_append)
    qed
  qed
  then show "unat (isum ctx') + wsum buff = unat (isum ctx) + 65535 * ((length change + 1) div 2) + wsum (put_change buff off change)"
    "truncated ctx' = truncated ctx"
    "joint0 ctx' = (if off + length change = length buff \<and> odd (length change) then last change else joint0 ctx)"
    unfolding new by blast+
qed

lemma put_change_odd:
  assumes "odd off" "off + Suc (length ch) \<le> length buff"
  shows "wsum (put_change buff off (d # ch)) + (unat (buff ! (off - 1)) + 256 * unat (buff ! off)) =
    wsum (put_change buff (off + 1) ch) + (unat (buff ! (off - 1)) + 256 * unat d)"
proof -
  obtain o' where o': "off = Suc o'" "even o'" using assms(1) by (cases off) auto
  define A R where "A = take o' buff" and "R = drop (off + Suc (length ch)) buff"
  have A: "even (length A)" using o' assms(2) by (simp add: A_def)
  have "take off buff = A @ [buff ! o']" using o' assms(2) by (simp add: A_def take_Suc_conv_app_nth)
  moreover from this have "take (off + 1) buff = A @ [buff ! o', buff ! off]" using assms(2) by (simp add: take_Suc_conv_app_nth)
  ultimately have "put_change buff off (d # ch) = A @ (buff ! o' # d # (ch @ R))"
    "put_change buff (off + 1) ch = A @ (buff ! o' # buff ! off # (ch @ R))"
    by (simp_all add: put_change_def R_def)
  then show ?thesis using o' by (simp add: wsum_append [OF A])
qed

lemma update_change_ok:
  assumes c: "change \<noteq> []" "off + length change \<le> length buff"
    and fits: "unat (isum ctx) + 131070 * (length change div 2 + 1) < 2 ^ 32"
  shows "\<exists>ctx' k. inet_update_change ctx buff (length buff) off (length change) change = Some ctx' \<and>
    unat (isum ctx') + wsum buff = unat (isum ctx) + 65535 * k + wsum (put_change buff off change) \<and>
    truncated ctx' = truncated ctx \<and>
    joint0 ctx' = (if off + length change = length buff \<and> odd (length buff) then last change else joint0 ctx)"
proof (cases "odd off")
  case False
  have "unat (isum ctx) + 131070 * ((length change + 1) div 2) < 2 ^ 32" by (rule le_less_trans [OF _ fits]) simp
  moreover have "off + length change = length buff \<Longrightarrow> odd (length change) \<longleftrightarrow> odd (length buff)"
    using False by (metis even_add)
  ultimately show ?thesis using change_aligned_ok [OF _ c(2), of ctx] False c
    by (intro exI [of _ "change_aligned ctx buff (length buff) off (length change) change"] exI [of _ "(length change + 1) div 2"])
      (auto simp: inet_update_change_def)
next
  case True
  obtain d ch where ch: "change = d # ch" using c(1) by (cases change) auto
  have room: "unat (isum ctx) + 131070 < 2 ^ 32" using fits by simp
  define x where "x = buff ! (off - 1)"
  let ?c = "add_sum (load16 x d) (add_sum (NOT (load16 x (buff ! off))) ctx)"
  note one = change_one [OF room, where new = "load16 x d" and old = "load16 x (buff ! off)", unfolded unat_load16]
  have "unat (isum ?c) + 131070 * ((length ch + 1) div 2) < 2 ^ 32"
  proof -
    have "(length ch + 1) div 2 = length change div 2" by (simp add: ch)
    then show ?thesis using one(2) fits by simp
  qed
  note al = change_aligned_ok [OF _ _ this, of "off + 1" buff]
  let ?c2 = "change_aligned ?c buff (length buff) (off + 1) (length ch) ch"
  have u: "inet_update_change ctx buff (length buff) off (length change) change = Some ?c2"
    using c True ch by (simp add: inet_update_change_def x_def)
  have po: "wsum (put_change buff off change) + (unat x + 256 * unat (buff ! off)) =
      wsum (put_change buff (off + 1) ch) + (unat x + 256 * unat d)"
    using put_change_odd [OF True, of ch buff d] c ch by (simp add: x_def)
  have "unat (isum ?c2) + wsum buff = unat (isum ?c) + 65535 * ((length ch + 1) div 2) + wsum (put_change buff (off + 1) ch)"
    using al(1) True c ch by simp
  then have "unat (isum ?c2) + wsum buff = unat (isum ctx) + 65535 * ((length ch + 1) div 2 + 1) + wsum (put_change buff off change)"
    using one(1) po by simp
  moreover have "truncated ?c2 = truncated ctx" using al(2) True c ch by simp
  moreover have "joint0 ?c2 = (if off + length change = length buff \<and> odd (length buff) then last change else joint0 ctx)"
  proof -
    have "off + length change = length buff \<Longrightarrow> odd (length ch) \<longleftrightarrow> odd (length buff)"
      using True ch by (metis even_Suc even_add length_Cons)
    then show ?thesis using al(3) True c ch by auto
  qed
  ultimately show ?thesis using u by blast
qed

section \<open>The properties of the component\<close>

text \<open>The checksum of RFC 1071: the complement of the one's complement sum of the words.\<close>

definition rfc1071 :: "8 word list \<Rightarrow> nat" where
  "rfc1071 bs = 65535 - ones_fold (wsum bs)"

lemma checksum_of: "inet_ok ctx bs \<Longrightarrow> unat (inet_get_checksum ctx) = rfc1071 bs"
  by (simp add: get_checksum_ok rfc1071_def inet_ok_def)

lemma process_all_ok: "wsum data < 2 ^ 32 \<Longrightarrow> unat (inet_process_all g0 g1 data) = rfc1071 data"
  using checksum_of [OF inet_update_ok [OF inet_new_ok, of g0 g1 data]] by (simp add: inet_process_all_def inet_new_def)



text \<open>
  A context that is not zeroed gives a wrong checksum as soon as a piece of odd length is followed by another: the
  indeterminate byte is subtracted from the sum.
\<close>

lemma inet_joint_garbage:
  "inet_get_checksum (foldl (\<lambda>ctx p. inet_update ctx p (length p)) (inet_new 0 1) [[1], [2]]) \<noteq>
   inet_get_checksum (foldl (\<lambda>ctx p. inet_update ctx p (length p)) (inet_new 0 1) [[1, 2]])"
  by code_simp

text \<open>Data of even length with its own checksum appended has the checksum 0, which is how a receiver verifies it.\<close>

theorem inet_verify:
  assumes "even (length data)" "wsum data + 65535 < 2 ^ 32" and c_def: "c = inet_process_all g0 g1 data"
  shows "inet_process_all h0 h1 (data @ [ucast c, ucast (drop_bit 8 c)]) = 0"
proof -
  have lo: "unat (ucast c :: 8 word) = unat c mod 256" by (simp add: unsigned_ucast_eq take_bit_eq_mod)
  have c: "unat c = 65535 - ones_fold (wsum data)" using process_all_ok [of data g0 g1] assms(2) by (simp add: c_def rfc1071_def)
  then have c16: "unat c < 65536" by linarith
  have "unat (ucast (drop_bit 8 c) :: 8 word) = unat c div 256"
  proof -
    have "take_bit 16 (unat c) = unat c" using c16 by (intro take_bit_nat_eq_self) simp
    then have "unat (drop_bit 8 c) = drop_bit 8 (unat c)" by (simp add: unsigned_drop_bit_eq)
    then have "unat (drop_bit 8 c) = unat c div 256" by (simp only: drop_bit_eq_div) simp
    moreover have "unat c div 256 < 256" using c16 by (simp add: div_less_iff_less_mult)
    ultimately show ?thesis by (simp add: unsigned_ucast_eq take_bit_nat_eq_self)
  qed
  then have w: "wsum (data @ [ucast c, ucast (drop_bit 8 c)]) = wsum data + unat c"
    using lo by (simp add: wsum_append [OF assms(1)])
  define n where "n = wsum data"
  have "ones_fold (n + unat c) = 65535" unfolding c n_def [symmetric] by (rule ones_fold_complement)
  then have "rfc1071 (data @ [ucast c, ucast (drop_bit 8 c)]) = 0" by (simp add: rfc1071_def w n_def)
  moreover have "wsum (data @ [ucast c, ucast (drop_bit 8 c)]) < 2 ^ 32" using w assms(2) c16 by linarith
  ultimately have "unat (inet_process_all h0 h1 (data @ [ucast c, ucast (drop_bit 8 c)])) = 0" using process_all_ok by metis
  then show ?thesis by (simp add: unat_eq_0)
qed

theorem inet_verify_witness:
  "inet_process_all 0 0 ([1, 2, 3, 4] @ [ucast (inet_process_all 0 0 [1, 2, 3, 4]), ucast (drop_bit 8 (inet_process_all 0 0 [1, 2, 3, 4]))]) = 0"
  using inet_verify [OF _ _ refl, of "[1, 2, 3, 4]" 0 0 0 0] by simp

text \<open>C11: 
  Changing any range of bytes, at any offset and of any length, turns the checksum into that of the changed data,
  unless the changed data is all zero, for which the incremental sum has the other representation of zero.
\<close>

theorem inet_change_correct:
  assumes "inet_ok ctx buff" "change \<noteq> []" "off + length change \<le> length buff"
    and "unat (isum ctx) + 131070 * (length change div 2 + 1) < 2 ^ 32" "wsum (put_change buff off change) \<noteq> 0"
  shows "\<exists>ctx'. inet_update_change ctx buff (length buff) off (length change) change = Some ctx' \<and>
    unat (inet_get_checksum ctx') = rfc1071 (put_change buff off change)"
proof -
  obtain ctx' k where c: "inet_update_change ctx buff (length buff) off (length change) change = Some ctx'"
      "unat (isum ctx') + wsum buff = unat (isum ctx) + 65535 * k + wsum (put_change buff off change)"
    using update_change_ok [OF assms(2,3,4)] by blast
  have "unat (isum ctx') = 65535 * k + wsum (put_change buff off change)" using c(2) assms(1) by (simp add: inet_ok_def)
  moreover from this assms(5) have "ones_fold (unat (isum ctx')) = ones_fold (wsum (put_change buff off change))"
    by (intro ones_fold_cong) auto
  ultimately show ?thesis using c(1) by (simp add: get_checksum_ok rfc1071_def)
qed

theorem inet_change_witness:
  "\<exists>ctx'. inet_update_change (inet_update (inet_new 0 0) [1, 2, 3, 4, 5] 5) [1, 2, 3, 4, 5] 5 1 4 [9, 8, 7, 6] = Some ctx' \<and>
     unat (inet_get_checksum ctx') = rfc1071 [1, 9, 8, 7, 6]"
proof -
  have five: "length [1, 2, 3, 4, 5 :: 8 word] = 5" by simp
  have ok: "inet_ok (inet_update (inet_new 0 0) [1, 2, 3, 4, 5] 5) [1, 2, 3, 4, 5]"
    using inet_update_ok [OF inet_new_ok, of 0 0 "[1, 2, 3, 4, 5]"] unfolding append.simps five by (simp add: inet_new_def)
  have "isum (inet_update (inet_new 0 0) [1, 2, 3, 4, 5] 5) = 1545" by code_simp
  moreover have four: "length [9, 8, 7, 6 :: 8 word] = 4" by simp
  moreover have "put_change [1, 2, 3, 4, 5] 1 [9, 8, 7, 6] = [1, 9, 8, 7, 6]" by (simp add: put_change_def)
  ultimately show ?thesis
    using inet_change_correct [OF ok, of "[9, 8, 7, 6]" 1] unfolding five four by (simp flip: One_nat_def del: One_nat_def)
qed

end
