(* ===== verification/Bits_Cxx.thy ===== *)
theory Bits_Cxx
  imports Prelude "HOL-Library.Word"
begin

unbundle bit_operations_syntax

text \<open>
  The bit utilities of \<open>include/tarp/bits.hxx\<close> and the reflection table of \<open>src/misc/bits.cxx\<close>: templates over the
  unsigned types, here over words of any length. The machine is little-endian, so \<open>htobe32\<close> and its relatives swap
  the bytes.
\<close>

section \<open>The code\<close>

definition byte_msb :: "8 word \<Rightarrow> 8 word" where
  "byte_msb byte = drop_bit 7 (0x80 AND byte)"

definition MSB :: "'a::len word \<Rightarrow> 8 word" where
  "MSB inp = ucast (drop_bit ((LENGTH('a) div 8 - 1) * 8) inp AND 0xFF)"

definition reflection :: "8 word list" where
  "reflection = [
    0, 0x80, 0x40, 0xc0, 0x20, 0xa0, 0x60, 0xe0, 0x10, 0x90, 0x50, 0xd0, 0x30, 0xb0, 0x70, 0xf0,
    0x8, 0x88, 0x48, 0xc8, 0x28, 0xa8, 0x68, 0xe8, 0x18, 0x98, 0x58, 0xd8, 0x38, 0xb8, 0x78, 0xf8,
    0x4, 0x84, 0x44, 0xc4, 0x24, 0xa4, 0x64, 0xe4, 0x14, 0x94, 0x54, 0xd4, 0x34, 0xb4, 0x74, 0xf4,
    0xc, 0x8c, 0x4c, 0xcc, 0x2c, 0xac, 0x6c, 0xec, 0x1c, 0x9c, 0x5c, 0xdc, 0x3c, 0xbc, 0x7c, 0xfc,
    0x2, 0x82, 0x42, 0xc2, 0x22, 0xa2, 0x62, 0xe2, 0x12, 0x92, 0x52, 0xd2, 0x32, 0xb2, 0x72, 0xf2,
    0xa, 0x8a, 0x4a, 0xca, 0x2a, 0xaa, 0x6a, 0xea, 0x1a, 0x9a, 0x5a, 0xda, 0x3a, 0xba, 0x7a, 0xfa,
    0x6, 0x86, 0x46, 0xc6, 0x26, 0xa6, 0x66, 0xe6, 0x16, 0x96, 0x56, 0xd6, 0x36, 0xb6, 0x76, 0xf6,
    0xe, 0x8e, 0x4e, 0xce, 0x2e, 0xae, 0x6e, 0xee, 0x1e, 0x9e, 0x5e, 0xde, 0x3e, 0xbe, 0x7e, 0xfe,
    0x1, 0x81, 0x41, 0xc1, 0x21, 0xa1, 0x61, 0xe1, 0x11, 0x91, 0x51, 0xd1, 0x31, 0xb1, 0x71, 0xf1,
    0x9, 0x89, 0x49, 0xc9, 0x29, 0xa9, 0x69, 0xe9, 0x19, 0x99, 0x59, 0xd9, 0x39, 0xb9, 0x79, 0xf9,
    0x5, 0x85, 0x45, 0xc5, 0x25, 0xa5, 0x65, 0xe5, 0x15, 0x95, 0x55, 0xd5, 0x35, 0xb5, 0x75, 0xf5,
    0xd, 0x8d, 0x4d, 0xcd, 0x2d, 0xad, 0x6d, 0xed, 0x1d, 0x9d, 0x5d, 0xdd, 0x3d, 0xbd, 0x7d, 0xfd,
    0x3, 0x83, 0x43, 0xc3, 0x23, 0xa3, 0x63, 0xe3, 0x13, 0x93, 0x53, 0xd3, 0x33, 0xb3, 0x73, 0xf3,
    0xb, 0x8b, 0x4b, 0xcb, 0x2b, 0xab, 0x6b, 0xeb, 0x1b, 0x9b, 0x5b, 0xdb, 0x3b, 0xbb, 0x7b, 0xfb,
    0x7, 0x87, 0x47, 0xc7, 0x27, 0xa7, 0x67, 0xe7, 0x17, 0x97, 0x57, 0xd7, 0x37, 0xb7, 0x77, 0xf7,
    0xf, 0x8f, 0x4f, 0xcf, 0x2f, 0xaf, 0x6f, 0xef, 0x1f, 0x9f, 0x5f, 0xdf, 0x3f, 0xbf, 0x7f, 0xff]"

definition reflect_byte_fast :: "8 word \<Rightarrow> 8 word" where
  "reflect_byte_fast byte = reflection ! unat byte"

text \<open>
  The shift \<open>input >> n\<close> by the width of a 32-bit or 64-bit type is undefined behaviour of the language; whatever value the
  machine gives for it is the parameter \<open>wild\<close>. Narrower types are promoted first, and the shift gives 0.
\<close>

definition shift_out :: "'a::len word \<Rightarrow> 'a word \<Rightarrow> nat \<Rightarrow> 'a word" where
  "shift_out wild inp n = (if LENGTH('a) \<ge> 32 \<and> n \<ge> LENGTH('a) then wild else drop_bit n inp)"

definition reflect_loop :: "'a::len word \<Rightarrow> 'a word \<Rightarrow> nat \<Rightarrow> 'a word" where
  "reflect_loop inp outp n = foldl (\<lambda>outp i. push_bit 1 outp OR (drop_bit i inp AND 1)) outp [0..<n]"

definition reflect_bits_n :: "'a::len word \<Rightarrow> 'a word \<Rightarrow> nat \<Rightarrow> 'a word" where
  "reflect_bits_n wild inp n =
     (if LENGTH('a) = 8 \<and> n = 8 then ucast (reflect_byte_fast (ucast inp))
      else reflect_loop inp (shift_out wild inp n) n)"

definition reflect_bits :: "'a::len word \<Rightarrow> 'a word \<Rightarrow> 'a word" where
  "reflect_bits wild inp = reflect_bits_n wild inp LENGTH('a)"

definition byteswap16 :: "16 word \<Rightarrow> 16 word" where
  "byteswap16 x = drop_bit 8 x OR push_bit 8 x"

definition byteswap32 :: "32 word \<Rightarrow> 32 word" where
  "byteswap32 x = push_bit 24 x OR drop_bit 24 x OR push_bit 8 (x AND 0xff00) OR drop_bit 8 (x AND 0xff0000)"

definition byteswap64 :: "64 word \<Rightarrow> 64 word" where
  "byteswap64 x = drop_bit 56 x OR drop_bit 40 (x AND 0x00ff000000000000) OR drop_bit 24 (x AND 0x0000ff0000000000)
     OR drop_bit 8 (x AND 0x000000ff00000000) OR push_bit 8 (x AND 0x00000000ff000000) OR push_bit 24 (x AND 0x0000000000ff0000)
     OR push_bit 40 (x AND 0x000000000000ff00) OR push_bit 56 x"

text \<open>The rotations are only instantiated with \<open>0 < n\<close>.\<close>

definition rotate_left :: "nat \<Rightarrow> 'a::len word \<Rightarrow> 'a word" where
  "rotate_left n x = push_bit n x OR drop_bit (LENGTH('a) - n) x"

definition rotate_right :: "nat \<Rightarrow> 'a::len word \<Rightarrow> 'a word" where
  "rotate_right n x = drop_bit n x OR push_bit (LENGTH('a) - n) x"

definition cxx_get_bits :: "'a::len word \<Rightarrow> nat \<Rightarrow> nat \<Rightarrow> 'a word" where
  "cxx_get_bits num pos nbits =
     (let m = NOT (push_bit nbits (NOT 0)); shift = pos - nbits in drop_bit shift (num AND push_bit shift m))"

definition cxx_set_bits :: "'a::len word \<Rightarrow> 'a word \<Rightarrow> nat \<Rightarrow> 'a word \<Rightarrow> 'a word" where
  "cxx_set_bits target m shift val =
     (let target = target AND NOT (push_bit shift m) in target OR push_bit shift (val AND m))"

definition cxx_clear_bits :: "'a::len word \<Rightarrow> 'a word \<Rightarrow> nat \<Rightarrow> 'a word" where
  "cxx_clear_bits target m shift = cxx_set_bits target m shift 0"

definition get_masked_bits :: "'a::len word \<Rightarrow> 'a word \<Rightarrow> nat \<Rightarrow> 'a word" where
  "get_masked_bits target m shift = drop_bit shift target AND m"

definition cxx_get_bit :: "'a::len word \<Rightarrow> nat \<Rightarrow> 'a word" where
  "cxx_get_bit target shift = drop_bit shift target AND 1"

section \<open>Reflection\<close>

lemma bit_of_one: "bit (1 :: 'a::len word) i \<longleftrightarrow> i = 0"
  by (simp add: bit_1_iff)

lemma bit_reflect_loop:
  "n \<le> LENGTH('a) \<Longrightarrow> bit (reflect_loop inp outp n :: 'a::len word) i \<longleftrightarrow>
    i < LENGTH('a) \<and> (if i < n then bit inp (n - Suc i) else bit outp (i - n))"
proof (induction n arbitrary: i)
  case 0
  then show ?case by (simp add: reflect_loop_def) (use bit_imp_le_length in blast)
next
  case (Suc n)
  let ?x = "reflect_loop inp outp n"
  have e: "reflect_loop inp outp (Suc n) = push_bit 1 ?x OR (drop_bit n inp AND 1)" by (simp add: reflect_loop_def)
  have b: "bit (push_bit 1 ?x OR (drop_bit n inp AND 1)) i \<longleftrightarrow> (if i = 0 then bit inp n else i < LENGTH('a) \<and> bit ?x (i - 1))"
    by (cases i) (simp_all only: bit_or_iff bit_push_bit_iff bit_and_iff bit_drop_bit_eq bit_of_one possible_bit_word comp_apply, auto dest: bit_imp_le_length)
  have n: "n \<le> LENGTH('a)" using Suc.prems by simp
  show ?case
  proof (cases i)
    case 0
    then show ?thesis unfolding e b using Suc.prems by simp
  next
    case (Suc j)
    then show ?thesis unfolding e b Suc.IH [OF n] by auto
  qed
qed

text \<open>The reversed byte by arithmetic, which the table is compared with.\<close>

definition rev_byte :: "int \<Rightarrow> int" where
  "rev_byte n = n div 128 mod 2 + 2 * (n div 64 mod 2 + 2 * (n div 32 mod 2 + 2 * (n div 16 mod 2 + 2 * (n div 8 mod 2 +
     2 * (n div 4 mod 2 + 2 * (n div 2 mod 2 + 2 * (n mod 2)))))))"

lemma rev_bytes: "map rev_byte [0..255] = [0, 128, 64, 192, 32, 160, 96, 224, 16, 144, 80, 208, 48, 176, 112, 240, 8, 136, 72, 200, 40, 168, 104, 232, 24, 152, 88, 216, 56, 184, 120, 248,
    4, 132, 68, 196, 36, 164, 100, 228, 20, 148, 84, 212, 52, 180, 116, 244, 12, 140, 76, 204, 44, 172, 108, 236, 28, 156, 92, 220, 60, 188, 124, 252,
    2, 130, 66, 194, 34, 162, 98, 226, 18, 146, 82, 210, 50, 178, 114, 242, 10, 138, 74, 202, 42, 170, 106, 234, 26, 154, 90, 218, 58, 186, 122, 250,
    6, 134, 70, 198, 38, 166, 102, 230, 22, 150, 86, 214, 54, 182, 118, 246, 14, 142, 78, 206, 46, 174, 110, 238, 30, 158, 94, 222, 62, 190, 126, 254,
    1, 129, 65, 193, 33, 161, 97, 225, 17, 145, 81, 209, 49, 177, 113, 241, 9, 137, 73, 201, 41, 169, 105, 233, 25, 153, 89, 217, 57, 185, 121, 249,
    5, 133, 69, 197, 37, 165, 101, 229, 21, 149, 85, 213, 53, 181, 117, 245, 13, 141, 77, 205, 45, 173, 109, 237, 29, 157, 93, 221, 61, 189, 125, 253,
    3, 131, 67, 195, 35, 163, 99, 227, 19, 147, 83, 211, 51, 179, 115, 243, 11, 139, 75, 203, 43, 171, 107, 235, 27, 155, 91, 219, 59, 187, 123, 251,
    7, 135, 71, 199, 39, 167, 103, 231, 23, 151, 87, 215, 55, 183, 119, 247, 15, 143, 79, 207, 47, 175, 111, 239, 31, 159, 95, 223, 63, 191, 127, 255]"
  by code_simp

lemma reflection_ok: "map uint reflection = map rev_byte [0..255]"
  unfolding rev_bytes by (simp add: reflection_def)

lemma word_reverse_byte: "uint (word_reverse (w :: 8 word)) = rev_byte (uint w)"
proof -
  have b: "bit w k \<longleftrightarrow> odd (uint w div 2 ^ k)" for k by (simp flip: bit_iff_odd add: bit_uint_iff) (auto dest: bit_imp_le_length)
  have o: "of_bool (odd (n :: int)) = n mod 2" for n by (simp add: mod2_eq_if)
  show ?thesis
    by (simp add: word_reverse_def upt_rec b rev_byte_def mod2_eq_if)
qed

lemma word_reverse_loop: "reflect_loop inp outp LENGTH('a) = word_reverse (inp :: 'a::len word)"
  by (rule bit_word_eqI) (simp add: bit_reflect_loop bit_word_reverse_iff)

lemma reflect_byte_fast_ok: "reflect_byte_fast byte = word_reverse byte"
proof -
  have len: "length [0..255] = 256" by (simp add: length_upto)
  have lr: "length reflection = 256" using arg_cong [OF reflection_ok, of length] unfolding length_map len .
  have lt: "unat byte < 256" using unsigned_less [of byte, where ?'a = nat] by simp
  have "map uint reflection ! unat byte = map rev_byte [0..255] ! unat byte" by (simp only: reflection_ok)
  then have "uint (reflection ! unat byte) = rev_byte ([0..255] ! unat byte)"
    using lt by (simp only: nth_map lr len)
  also have "[0..255] ! unat byte = uint byte" using lt by (simp only: nth_upto uint_nat)
  finally show ?thesis unfolding reflect_byte_fast_def word_reverse_byte [symmetric] by (simp only: word_uint_eq_iff)
qed

text \<open>Reflecting gives the reversed word, whatever the overlong shift yields: its bits are shifted out.\<close>

lemma reflect_bits_ok: "reflect_bits wild inp = word_reverse inp"
proof (cases "LENGTH('a) = 8")
  case True
  then have "ucast (word_reverse (ucast inp :: 8 word)) = word_reverse (inp :: 'a word)"
    by (intro bit_word_eqI) (auto simp: bit_ucast_iff bit_word_reverse_iff)
  with True show ?thesis by (simp add: reflect_bits_def reflect_bits_n_def reflect_byte_fast_ok)
qed (simp add: reflect_bits_def reflect_bits_n_def word_reverse_loop)

end
