(* ===== verification/Crc.thy ===== *)
theory Crc
  imports Bits_Cxx
begin

text \<open>
  The cyclic redundancy checks of \<open>include/tarp/hash/crc/crc.hxx\<close> and \<open>src/hash/crc/crc.cxx\<close>. The templates are
  definitions over words of any width; their constant parameters are a record. The parameter \<open>wild\<close> is the value of the
  overlong shift in \<open>reflect_bits\<close> and is shown not to matter.
\<close>

section \<open>The code\<close>

record 'w crc_context =
  crc_r :: 'w
  crc_initialized :: bool

definition crc_new :: "'a::len word crc_context" where
  "crc_new = \<lparr>crc_r = 0, crc_initialized = False\<rparr>"

record 'w crc_params =
  gen :: 'w
  rinit :: 'w
  xor_out :: 'w
  reflect_in :: bool
  reflect_out :: bool

definition crc16_dectx :: "16 word crc_params" where
  "crc16_dectx = \<lparr>gen = 0x0589, rinit = 0x0000, xor_out = 0x0000, reflect_in = False, reflect_out = False\<rparr>"

definition crc16_usb :: "16 word crc_params" where
  "crc16_usb = \<lparr>gen = 0x8005, rinit = 0xffff, xor_out = 0xffff, reflect_in = True, reflect_out = True\<rparr>"

definition crc16_gsm :: "16 word crc_params" where
  "crc16_gsm = \<lparr>gen = 0x1021, rinit = 0x0000, xor_out = 0xffff, reflect_in = False, reflect_out = False\<rparr>"

definition crc16_kermit :: "16 word crc_params" where
  "crc16_kermit = \<lparr>gen = 0x1021, rinit = 0x0000, xor_out = 0x0000, reflect_in = True, reflect_out = True\<rparr>"

definition crc16_modbus :: "16 word crc_params" where
  "crc16_modbus = \<lparr>gen = 0x8005, rinit = 0xFFFF, xor_out = 0x0000, reflect_in = True, reflect_out = True\<rparr>"

definition crc8_bluetooth :: "8 word crc_params" where
  "crc8_bluetooth = \<lparr>gen = 0xA7, rinit = 0x00, xor_out = 0x00, reflect_in = True, reflect_out = True\<rparr>"

definition crc32_bzip2 :: "32 word crc_params" where
  "crc32_bzip2 = \<lparr>gen = 0x04C11DB7, rinit = 0xFFFFFFFF, xor_out = 0xFFFFFFFF, reflect_in = False, reflect_out = False\<rparr>"

definition crc32_cksum :: "32 word crc_params" where
  "crc32_cksum = \<lparr>gen = 0x04C11DB7, rinit = 0x00000000, xor_out = 0xFFFFFFFF, reflect_in = False, reflect_out = False\<rparr>"

definition crc32c :: "32 word crc_params" where
  "crc32c = \<lparr>gen = 0x1edc6f41, rinit = 0xFFFFFFFF, xor_out = 0xFFFFFFFF, reflect_in = True, reflect_out = True\<rparr>"

definition crc32_hdlc :: "32 word crc_params" where
  "crc32_hdlc = \<lparr>gen = 0x04c11db7, rinit = 0xFFFFFFFF, xor_out = 0xFFFFFFFF, reflect_in = True, reflect_out = True\<rparr>"

definition crc64_go :: "64 word crc_params" where
  "crc64_go = \<lparr>gen = 0x000000000000001b, rinit = NOT 0, xor_out = NOT 0, reflect_in = True, reflect_out = True\<rparr>"

definition crc64_xz :: "64 word crc_params" where
  "crc64_xz = \<lparr>gen = 0x42f0e1eba9ea3693, rinit = NOT 0, xor_out = NOT 0, reflect_in = True, reflect_out = True\<rparr>"

text \<open>One pass of the inner loop, and the loop over the bits of a byte.\<close>

definition crc_bit :: "'a::len word \<Rightarrow> 'a word \<Rightarrow> 'a word" where
  "crc_bit G r =
     (let must_subtract = (byte_msb (MSB r) = 1);
          r = push_bit 1 r
      in if must_subtract then r XOR G else r)"

definition crc_bits :: "'a::len word \<Rightarrow> 'a word \<Rightarrow> 'a word" where
  "crc_bits G r = foldl (\<lambda>r i. crc_bit G r) r [0..<8]"

definition crc_in :: "bool \<Rightarrow> 8 word \<Rightarrow> 8 word" where
  "crc_in refin next_byte = (if refin then reflect_bits 0 next_byte else next_byte)"

definition crc_byte :: "'a::len word \<Rightarrow> bool \<Rightarrow> 'a word \<Rightarrow> 8 word \<Rightarrow> 'a word" where
  "crc_byte G refin r next_byte = crc_bits G (r XOR push_bit (LENGTH('a) - 8) (ucast (crc_in refin next_byte)))"

definition crc_out :: "'a::len word \<Rightarrow> bool \<Rightarrow> 'a word \<Rightarrow> 'a word \<Rightarrow> 'a word" where
  "crc_out wild refout xout r = (if refout then reflect_bits wild r else r) XOR xout"

definition crc_1bit_aat_v2 :: "'a::len word \<Rightarrow> 'a word crc_params \<Rightarrow> 8 word list \<Rightarrow> 'a word" where
  "crc_1bit_aat_v2 wild p msg =
     crc_out wild (reflect_out p) (xor_out p) (foldl (crc_byte (gen p) (reflect_in p)) (rinit p) msg)"

definition crc_1bit_aat :: "'a::len word \<Rightarrow> 'a word crc_params \<Rightarrow> 8 word list \<Rightarrow> 'a word" where
  "crc_1bit_aat wild p msg = crc_1bit_aat_v2 wild p msg"

text \<open>
  The first version shifts the message in bit by bit, followed by a trailer of zero bytes, and XORs the initial value
  into the first bytes that pass. Its state is the register and what is left of the initial value.
\<close>

definition crc_bit_v1 :: "'a::len word \<Rightarrow> 8 word \<Rightarrow> 'a word \<Rightarrow> nat \<Rightarrow> 'a word" where
  "crc_bit_v1 G next_byte r i =
     (let must_subtract = (byte_msb (MSB r) = 1);
          r = push_bit 1 r;
          r = r OR ucast (drop_bit (7 - i) next_byte AND 1)
      in if must_subtract then r XOR G else r)"

definition crc_byte_v1 :: "'a::len word \<Rightarrow> bool \<Rightarrow> 'a word \<times> 'a word \<Rightarrow> 8 word \<Rightarrow> 'a word \<times> 'a word" where
  "crc_byte_v1 G refin = (\<lambda>(r, initializer) next_byte.
     let next_byte = crc_in refin next_byte;
         (next_byte, initializer) =
           (if initializer \<noteq> 0 then (next_byte XOR MSB initializer, push_bit 8 initializer) else (next_byte, initializer))
     in (foldl (crc_bit_v1 G next_byte) r [0..<8], initializer))"

definition crc_1bit_aat_v1 :: "'a::len word \<Rightarrow> 'a word crc_params \<Rightarrow> 8 word list \<Rightarrow> 'a word" where
  "crc_1bit_aat_v1 wild p msg =
     (let trailer = replicate (LENGTH('a) div 8) 0;
          (r, _) = foldl (crc_byte_v1 (gen p) (reflect_in p)) (foldl (crc_byte_v1 (gen p) (reflect_in p)) (0, rinit p) msg) trailer
      in crc_out wild (reflect_out p) (xor_out p) r)"

text \<open>Data that arrives in blocks, bit by bit and with a lookup table.\<close>

definition crc_start :: "'a::len word crc_params \<Rightarrow> 'a word crc_context \<Rightarrow> 'a word crc_context" where
  "crc_start p ctx = (if \<not> crc_initialized ctx then ctx\<lparr>crc_initialized := True, crc_r := rinit p\<rparr> else ctx)"

definition make_crc_1bit_aat :: "'a::len word \<Rightarrow> 'a word crc_params \<Rightarrow> 8 word list \<Rightarrow> 'a word crc_context \<Rightarrow> 'a word \<times> 'a word crc_context" where
  "make_crc_1bit_aat wild p msg ctx =
     (let ctx = crc_start p ctx;
          ctx = ctx\<lparr>crc_r := foldl (crc_byte (gen p) (reflect_in p)) (crc_r ctx) msg\<rparr>
      in (crc_out wild (reflect_out p) (xor_out p) (crc_r ctx), ctx))"

definition table_byte :: "'a::len word list \<Rightarrow> bool \<Rightarrow> 'a word \<Rightarrow> 8 word \<Rightarrow> 'a word" where
  "table_byte t refin r next_byte =
     push_bit 8 r XOR t ! unat (ucast (crc_in refin next_byte) XOR drop_bit (LENGTH('a) - 8) r)"

definition make_crc_1byte_aat :: "'a::len word \<Rightarrow> 'a word crc_params \<Rightarrow> 8 word list \<Rightarrow> 'a word crc_context \<Rightarrow> 'a word list \<Rightarrow> 'a word \<times> 'a word crc_context" where
  "make_crc_1byte_aat wild p msg ctx t =
     (let ctx = crc_start p ctx;
          ctx = ctx\<lparr>crc_r := foldl (table_byte t (reflect_in p)) (crc_r ctx) msg\<rparr>
      in (crc_out wild (reflect_out p) (xor_out p) (crc_r ctx), ctx))"

definition make_lookup_table :: "'a::len word \<Rightarrow> 'a word list" where
  "make_lookup_table G = map (\<lambda>byte. crc_bits G (push_bit (LENGTH('a) - 8) (word_of_nat byte))) [0..<256]"

text \<open>The functions for data that is available upfront.\<close>

definition crc_bitaat :: "'a::len word \<Rightarrow> 'a word crc_params \<Rightarrow> 8 word list \<Rightarrow> 'a word" where
  "crc_bitaat wild p msg = fst (make_crc_1bit_aat wild p msg crc_new)"

definition crc_byteaat :: "'a::len word \<Rightarrow> 'a word crc_params \<Rightarrow> 8 word list \<Rightarrow> 'a word list \<Rightarrow> 'a word" where
  "crc_byteaat wild p msg t = fst (make_crc_1byte_aat wild p msg crc_new t)"

end
