(* ===== verification/Crc_Correct.thy ===== *)
theory Crc_Correct
  imports Crc
begin

text \<open>
  The register step is linear over XOR and, for a generator with constant term 1, injective. From this follow the
  table-driven form, the form with a trailer, and the detection of bursts; and the register is the remainder of a
  division of polynomials over GF(2), written as numbers whose bits are the coefficients.
\<close>

section \<open>The step on the register\<close>

lemmas word_bits = bit_and_iff bit_or_iff bit_xor_iff bit_push_bit_iff bit_drop_bit_eq bit_take_bit_iff bit_ucast_iff
  possible_bit_word comp_apply

lemma byte_width: "LENGTH('a::len) mod 8 = 0 \<Longrightarrow> 8 \<le> LENGTH('a)"
  using len_gt_0 [where ?'a = 'a] by presburger

lemma xor_inject: "a XOR x = b XOR x \<longleftrightarrow> a = b" "x XOR a = x XOR b \<longleftrightarrow> a = b" for a b x :: "'a::len word"
proof -
  have "(a XOR x) XOR x = a" "(b XOR x) XOR x = b" by (simp_all add: xor.assoc)
  then show "a XOR x = b XOR x \<longleftrightarrow> a = b" by metis
  then show "x XOR a = x XOR b \<longleftrightarrow> a = b" by (simp only: xor.commute [of x])
qed

lemma byte_msb_bit: "byte_msb b = 1 \<longleftrightarrow> bit b 7"
proof -
  have m: "bit (0x80 :: 8 word) i \<longleftrightarrow> i = 7" for i
    using bit_exp_iff [of 7 i, where ?'a = "8 word"] by (auto dest: bit_imp_le_length)
  have "bit (byte_msb b) i \<longleftrightarrow> i = 0 \<and> bit b 7" for i
    unfolding byte_msb_def by (simp only: word_bits m) auto
  then have "byte_msb b = of_bool (bit b 7)" by (intro bit_word_eqI) (simp add: bit_of_bool_iff)
  then show ?thesis by simp
qed

lemma top_bit:
  assumes "LENGTH('a::len) mod 8 = 0"
  shows "byte_msb (MSB (r :: 'a word)) = 1 \<longleftrightarrow> bit r (LENGTH('a) - 1)"
proof -
  have "(LENGTH('a) div 8 - 1) * 8 + 7 = LENGTH('a) - 1" using byte_width [OF assms] assms by presburger
  moreover have "(0xFF :: 'a word) = mask 8" by (simp add: mask_eq_exp_minus_1)
  ultimately show ?thesis
    unfolding byte_msb_bit MSB_def using byte_width [OF assms] by (simp only: word_bits bit_mask_iff) (simp add: add.commute)
qed

lemma crc_bit_eq:
  assumes "LENGTH('a::len) mod 8 = 0"
  shows "crc_bit G (r :: 'a word) = push_bit 1 r XOR (if bit r (LENGTH('a) - 1) then G else 0)"
  by (simp add: crc_bit_def top_bit [OF assms] del: push_bit_Suc)

lemma crc_bit_xor: "LENGTH('a::len) mod 8 = 0 \<Longrightarrow> crc_bit G (r XOR s :: 'a word) = crc_bit G r XOR crc_bit G s"
  by (simp only: crc_bit_eq bit_xor_iff push_bit_xor) (auto simp: ac_simps)

lemma crc_bits_funpow: "crc_bits G = crc_bit G ^^ 8"
proof -
  have "foldl (\<lambda>r i. crc_bit G r) r [0..<n] = (crc_bit G ^^ n) r" for r n by (induction n) simp_all
  then show ?thesis by (simp add: crc_bits_def fun_eq_iff)
qed

lemma crc_pow_xor:
  "LENGTH('a::len) mod 8 = 0 \<Longrightarrow> (crc_bit G ^^ n) (r XOR s :: 'a word) = (crc_bit G ^^ n) r XOR (crc_bit G ^^ n) s"
  by (induction n) (simp_all add: crc_bit_xor)

text \<open>Bits that do not reach the top of the register are only shifted.\<close>

lemma crc_pow_shift:
  assumes "LENGTH('a::len) mod 8 = 0"
  shows "n \<le> LENGTH('a) \<Longrightarrow> (crc_bit G ^^ n) (take_bit (LENGTH('a) - n) r :: 'a word) = push_bit n r"
proof (induction n arbitrary: r)
  case (Suc n)
  let ?x = "take_bit (LENGTH('a) - Suc n) r"
  have t: "take_bit (LENGTH('a) - n) ?x = ?x" by simp
  have "(crc_bit G ^^ n) ?x = push_bit n ?x"
    using Suc.IH [of ?x] Suc.prems t by simp
  then have "(crc_bit G ^^ Suc n) ?x = crc_bit G (push_bit n ?x)" by simp
  also have "\<dots> = push_bit 1 (push_bit n ?x)"
  proof -
    have "\<not> LENGTH('a) - 1 - n < LENGTH('a) - Suc n" by simp
    then have "\<not> bit (push_bit n ?x) (LENGTH('a) - 1)" by (simp only: word_bits) blast
    then show ?thesis by (simp only: crc_bit_eq [OF assms] if_False xor.right_neutral)
  qed
  also have "\<dots> = push_bit (Suc n) r"
    by (rule bit_word_eqI) (auto simp: bit_push_bit_iff bit_take_bit_iff simp del: push_bit_Suc)
  finally show ?case .
qed simp

lemma crc_pow_inject:
  assumes "LENGTH('a::len) mod 8 = 0" "bit (G :: 'a word) 0"
  shows "(crc_bit G ^^ n) r = (crc_bit G ^^ n) s \<longleftrightarrow> r = s"
proof -
  have zero: "x = 0" if z: "crc_bit G x = 0" for x
  proof -
    have L: "8 \<le> LENGTH('a)" by (rule byte_width [OF assms(1)])
    have "\<not> bit (crc_bit G x) 0" using z by simp
    then have top: "\<not> bit x (LENGTH('a) - 1)"
      using assms(2) by (simp add: crc_bit_eq [OF assms(1)] bit_xor_iff bit_push_bit_iff del: push_bit_Suc split: if_splits)
    then have "push_bit 1 x = 0" using z by (simp add: crc_bit_eq [OF assms(1)] del: push_bit_Suc)
    have "\<not> bit x i" if "Suc i < LENGTH('a)" for i
    proof -
      have "bit (push_bit 1 x) (Suc i) \<longleftrightarrow> bit x i" using that by (simp only: word_bits) simp
      then have "bit (0 :: 'a word) (Suc i) \<longleftrightarrow> bit x i" unfolding \<open>push_bit 1 x = 0\<close> .
      then show ?thesis by simp
    qed
    moreover have "Suc i < LENGTH('a) \<or> i = LENGTH('a) - 1" if "i < LENGTH('a)" for i using that by linarith
    ultimately show "x = 0" using top by (intro bit_word_eqI) auto
  qed
  have "x = y" if "crc_bit G x = crc_bit G y" for x y
  proof -
    have "x XOR y = y XOR y" using zero [of "x XOR y"] that by (simp add: crc_bit_xor [OF assms(1)])
    then show ?thesis by (simp only: xor_inject)
  qed
  then have "inj (crc_bit G)" by (rule injI)
  then have "inj (crc_bit G ^^ n)" by (induction n) (simp_all add: inj_compose)
  then show ?thesis by (simp add: inj_eq)
qed

section \<open>The lookup table\<close>

lemma split_word: "m \<le> LENGTH('a) \<Longrightarrow> push_bit m (drop_bit m r) XOR take_bit m r = (r :: 'a::len word)"
  by (rule bit_word_eqI) (simp only: word_bits, auto)

lemma crc_byte_split:
  fixes G :: "'a::len word"
  assumes "LENGTH('a) mod 8 = 0"
  shows "crc_bits G (r XOR push_bit (LENGTH('a) - 8) c) =
    crc_bits G (push_bit (LENGTH('a) - 8) (c XOR drop_bit (LENGTH('a) - 8) r)) XOR push_bit 8 r"
proof -
  let ?m = "LENGTH('a) - 8"
  have "r XOR push_bit ?m c = push_bit ?m (c XOR drop_bit ?m r) XOR take_bit ?m r"
    by (rule bit_word_eqI) (simp only: word_bits, auto)
  then show ?thesis
    using crc_pow_shift [OF assms byte_width [OF assms], of G r] by (simp only: crc_bits_funpow crc_pow_xor [OF assms])
qed

lemma table_byte_ok:
  fixes G :: "'a::len word"
  assumes "LENGTH('a) mod 8 = 0"
  shows "table_byte (make_lookup_table G) refin = crc_byte G refin"
proof (intro ext)
  fix r b
  let ?c = "ucast (crc_in refin b) :: 'a word" and ?m = "LENGTH('a) - 8"
  let ?i = "?c XOR drop_bit ?m r"
  have low: "j < 8" if "bit ?i j" for j
  proof -
    have "bit (crc_in refin b) j \<or> bit r (?m + j)" using that by (simp only: word_bits) blast
    then have "j < 8 \<or> ?m + j < LENGTH('a)" using bit_imp_le_length [of "crc_in refin b" j] bit_imp_le_length [of r "?m + j"] by auto
    then show ?thesis by linarith
  qed
  have "?i = take_bit 8 ?i" by (rule bit_word_eqI) (use low in \<open>simp only: bit_take_bit_iff, blast\<close>)
  then have "unat ?i = take_bit 8 (unat ?i)" by (metis unsigned_take_bit_eq)
  then have "unat ?i < 256" using take_bit_nat_less_exp [of 8 "unat ?i"] by simp
  then have "make_lookup_table G ! unat ?i = crc_bits G (push_bit ?m ?i)" by (simp add: make_lookup_table_def)
  then show "table_byte (make_lookup_table G) refin r b = crc_byte G refin r b"
    unfolding table_byte_def crc_byte_def crc_byte_split [OF assms] by (simp only: xor.commute)
qed

section \<open>The form with a trailer\<close>

lemma crc_bit_v1_eq:
  assumes "LENGTH('a::len) mod 8 = 0"
  shows "crc_bit_v1 (G :: 'a word) b r i = crc_bit G r XOR ucast (drop_bit (7 - i) b AND 1)"
proof -
  let ?d = "ucast (drop_bit (7 - i) b AND 1) :: 'a word"
  have "push_bit 1 r OR ?d = push_bit 1 r XOR ?d"
    by (rule bit_word_eqI) (simp only: word_bits bit_of_one, auto)
  then show ?thesis unfolding crc_bit_v1_def crc_bit_def Let_def by (simp add: ac_simps del: push_bit_Suc)
qed

lemma crc_bits_v1:
  assumes "LENGTH('a::len) mod 8 = 0"
  shows "n \<le> 8 \<Longrightarrow> foldl (crc_bit_v1 (G :: 'a word) b) r [0..<n] = (crc_bit G ^^ n) r XOR ucast (drop_bit (8 - n) b)"
proof (induction n)
  case 0
  have "drop_bit 8 b = 0" by (rule bit_word_eqI) (simp only: word_bits bit_0_eq bot_apply, auto dest: bit_imp_le_length)
  then show ?case by simp
next
  case (Suc n)
  let ?x = "ucast (drop_bit (8 - n) b) :: 'a word"
  have "\<not> bit ?x (LENGTH('a) - 1)"
  proof
    assume "bit ?x (LENGTH('a) - 1)"
    then have "bit b (8 - n + (LENGTH('a) - 1))" by (simp only: word_bits)
    then show False using bit_imp_le_length [of b "8 - n + (LENGTH('a) - 1)"] byte_width [OF assms] Suc.prems by simp
  qed
  then have s: "crc_bit G ?x = push_bit 1 ?x" by (simp only: crc_bit_eq [OF assms] if_False xor.right_neutral)
  have "push_bit 1 ?x XOR ucast (drop_bit (7 - n) b AND 1) = (ucast (drop_bit (8 - Suc n) b) :: 'a word)"
  proof (rule bit_word_eqI)
    fix j assume j: "j < LENGTH('a)"
    show "bit (push_bit 1 ?x XOR ucast (drop_bit (7 - n) b AND 1)) j \<longleftrightarrow> bit (ucast (drop_bit (8 - Suc n) b) :: 'a word) j"
    proof (cases "j = 0")
      case True
      then show ?thesis using j by (simp only: word_bits bit_of_one) simp
    next
      case False
      then have e: "8 - n + (j - 1) = 8 - Suc n + j" using Suc.prems by simp
      show ?thesis using j False by (simp only: word_bits bit_of_one e) auto
    qed
  qed
  then show ?case using Suc by (simp add: crc_bit_v1_eq [OF assms] crc_bit_xor [OF assms] s xor.assoc)
qed

lemma crc_byte_v1_eq:
  assumes "LENGTH('a::len) mod 8 = 0"
  shows "crc_byte_v1 (G :: 'a word) refin (r, ini) b =
    (crc_bits G r XOR ucast (crc_in refin b XOR MSB ini), push_bit 8 ini)"
proof -
  have "MSB (0 :: 'a word) = 0" by (simp add: MSB_def)
  then show ?thesis using crc_bits_v1 [OF assms, of 8 G _ r]
    by (simp add: crc_byte_v1_def crc_bits_funpow Let_def)
qed

lemma MSB_top:
  assumes "LENGTH('a::len) mod 8 = 0"
  shows "(ucast (MSB (r :: 'a word)) :: 'a word) = drop_bit (LENGTH('a) - 8) r"
proof (rule bit_word_eqI)
  fix i assume "i < LENGTH('a)"
  have e: "(LENGTH('a) div 8 - 1) * 8 = LENGTH('a) - 8" using byte_width [OF assms] assms by presburger
  have m: "(0xFF :: 'a word) = mask 8" by (simp add: mask_eq_exp_minus_1)
  have "LENGTH('a) - 8 + i < LENGTH('a) \<Longrightarrow> i < 8" by linarith
  then show "bit (ucast (MSB r) :: 'a word) i \<longleftrightarrow> bit (drop_bit (LENGTH('a) - 8) r) i"
    using \<open>i < LENGTH('a)\<close> bit_imp_le_length [of r "LENGTH('a) - 8 + i"]
    unfolding MSB_def e m by (simp only: word_bits bit_mask_iff, auto)
qed

text \<open>
  After the same bytes the direct register is the trailer form's register, \<open>LENGTH('a)\<close> steps further on, with the rest
  of the initial value.
\<close>

definition v1_rel :: "'a::len word \<Rightarrow> 'a word \<times> 'a word \<Rightarrow> 'a word \<Rightarrow> bool" where
  "v1_rel G = (\<lambda>(r1, ini) r2. r2 = (crc_bit G ^^ LENGTH('a)) r1 XOR ini)"

lemma v1_rel_byte:
  fixes G :: "'a::len word"
  assumes w: "LENGTH('a) mod 8 = 0" and "v1_rel G s r2"
  shows "v1_rel G (crc_byte_v1 G refin s b) (crc_byte G refin r2 b)"
proof -
  obtain r1 ini where s: "s = (r1, ini)" by (cases s)
  let ?m = "LENGTH('a) - 8" and ?L = "LENGTH('a)" and ?c = "crc_in refin b"
  have r2: "r2 = (crc_bit G ^^ ?L) r1 XOR ini" using assms(2) by (simp add: v1_rel_def s)
  have comm: "(crc_bit G ^^ 8) ((crc_bit G ^^ ?L) r1) = (crc_bit G ^^ ?L) ((crc_bit G ^^ 8) r1)"
    by (metis add.commute comp_apply funpow_add)
  have push: "(crc_bit G ^^ 8) (push_bit ?m (ucast d)) = (crc_bit G ^^ ?L) (ucast d)" for d :: "8 word"
  proof -
    have "?L - ?m = 8" using byte_width [OF w] by simp
    moreover have "take_bit 8 (ucast d) = (ucast d :: 'a word)"
      by (rule bit_word_eqI) (simp only: word_bits, auto dest: bit_imp_le_length)
    ultimately have "(crc_bit G ^^ ?m) (ucast d) = push_bit ?m (ucast d)" using crc_pow_shift [OF w, of ?m G "ucast d"] by simp
    moreover have "?L = 8 + ?m" using byte_width [OF w] by simp
    ultimately show ?thesis by (metis comp_apply funpow_add)
  qed
  have "crc_byte G refin r2 b = (crc_bit G ^^ ?L) ((crc_bit G ^^ 8) r1) XOR crc_bits G (ini XOR push_bit ?m (ucast ?c))"
    by (simp only: crc_byte_def r2 crc_bits_funpow xor.assoc crc_pow_xor [OF w] comm)
  also have "crc_bits G (ini XOR push_bit ?m (ucast ?c)) = crc_bits G (push_bit ?m (ucast (?c XOR MSB ini))) XOR push_bit 8 ini"
    by (simp only: crc_byte_split [OF w] MSB_top [OF w, symmetric] unsigned_xor_eq)
  finally show ?thesis
    by (simp add: v1_rel_def s crc_byte_v1_eq [OF w] crc_bits_funpow push crc_pow_xor [OF w] xor.assoc)
qed

lemma v1_rel_bytes: "LENGTH('a::len) mod 8 = 0 \<Longrightarrow> v1_rel (G :: 'a word) s r2 \<Longrightarrow> v1_rel G (foldl (crc_byte_v1 G refin) s msg) (foldl (crc_byte G refin) r2 msg)"
  by (induction msg arbitrary: s r2) (simp_all add: v1_rel_byte)

lemma crc_in_zero: "crc_in refin 0 = 0"
proof -
  have "word_reverse (0 :: 8 word) = 0" by (rule bit_word_eqI) (simp add: bit_word_reverse_iff)
  then show ?thesis by (simp add: crc_in_def reflect_bits_ok)
qed

lemma trailer_bytes:
  fixes G :: "'a::len word"
  assumes w: "LENGTH('a) mod 8 = 0"
  shows "8 * k \<le> LENGTH('a) \<Longrightarrow> foldl (crc_byte_v1 G refin) (r1, ini) (replicate k 0) =
    ((crc_bit G ^^ (8 * k)) r1 XOR drop_bit (LENGTH('a) - 8 * k) ini, push_bit (8 * k) ini)"
proof (induction k)
  case 0
  have "drop_bit LENGTH('a) ini = 0" by (rule bit_word_eqI) (simp only: word_bits bit_0_eq bot_apply, auto dest: bit_imp_le_length)
  then show ?case by simp
next
  case (Suc k)
  let ?L = "LENGTH('a)" and ?top = "drop_bit (LENGTH('a) - 8 * k) ini"
  have "take_bit (?L - 8) ?top = ?top"
  proof (rule bit_word_eqI)
    fix i assume "i < ?L"
    have "?L - 8 * k + i < ?L \<Longrightarrow> i < ?L - 8" using Suc.prems by arith
    then show "bit (take_bit (?L - 8) ?top) i \<longleftrightarrow> bit ?top i"
      using bit_imp_le_length [of ini "?L - 8 * k + i"] by (simp only: word_bits) blast
  qed
  then have s: "(crc_bit G ^^ 8) ?top = push_bit 8 ?top" using crc_pow_shift [OF w byte_width [OF w], of G ?top] by simp
  have j: "push_bit 8 ?top XOR drop_bit (?L - 8) (push_bit (8 * k) ini) = drop_bit (?L - 8 * Suc k) ini"
  proof (rule bit_word_eqI)
    fix i assume "i < ?L"
    have "8 \<le> i \<Longrightarrow> ?L - 8 * k + (i - 8) = ?L - 8 * Suc k + i" "i < 8 \<Longrightarrow> 8 * k \<le> ?L - 8 + i"
      "i < 8 \<Longrightarrow> ?L - 8 + i - 8 * k = ?L - 8 * Suc k + i" "8 \<le> i \<longleftrightarrow> \<not> ?L - 8 + i < ?L"
      using Suc.prems byte_width [OF w] by (arith | linarith)+
    then show "bit (push_bit 8 ?top XOR drop_bit (?L - 8) (push_bit (8 * k) ini)) i \<longleftrightarrow> bit (drop_bit (?L - 8 * Suc k) ini) i"
      using \<open>i < ?L\<close> by (cases "i < 8") (simp_all only: word_bits, simp_all)
  qed
  have IH: "foldl (crc_byte_v1 G refin) (r1, ini) (replicate k 0) =
    ((crc_bit G ^^ (8 * k)) r1 XOR ?top, push_bit (8 * k) ini)" using Suc by simp
  have step: "crc_byte_v1 G refin (foldl (crc_byte_v1 G refin) (r1, ini) (replicate k 0)) 0 =
    ((crc_bit G ^^ 8) ((crc_bit G ^^ (8 * k)) r1) XOR drop_bit (?L - 8 * Suc k) ini, push_bit 8 (push_bit (8 * k) ini))"
    unfolding IH crc_byte_v1_eq [OF w] crc_in_zero crc_bits_funpow crc_pow_xor [OF w] s
    by (simp only: xor.left_neutral MSB_top [OF w] xor.assoc j)
  have p: "(crc_bit G ^^ 8) ((crc_bit G ^^ (8 * k)) r1) = (crc_bit G ^^ (8 * Suc k)) r1"
    by (metis comp_apply funpow_add mult_Suc_right)
  have q: "push_bit 8 (push_bit (8 * k) ini) = push_bit (8 * Suc k) ini" by (simp only: push_bit_push_bit mult_Suc_right)
  show ?case unfolding replicate_Suc replicate_append_same [symmetric] foldl_append using step by (simp only: foldl.simps p q)
qed

lemma crc_v1_register:
  fixes G :: "'a::len word"
  assumes w: "LENGTH('a) mod 8 = 0"
  shows "fst (foldl (crc_byte_v1 G refin) (foldl (crc_byte_v1 G refin) (0, ini) msg) (replicate (LENGTH('a) div 8) 0)) =
    foldl (crc_byte G refin) ini msg"
proof -
  have zero: "(crc_bit G ^^ LENGTH('a)) 0 = 0" using crc_pow_xor [OF w, where n = "LENGTH('a)" and G = G and r = 0 and s = 0] by simp
  obtain r1 rest where s: "foldl (crc_byte_v1 G refin) (0, ini) msg = (r1, rest)" by fastforce
  have "v1_rel G (0, ini) ini" by (simp add: v1_rel_def zero)
  then have "v1_rel G (r1, rest) (foldl (crc_byte G refin) ini msg)" using v1_rel_bytes [OF w, of G "(0, ini)" ini refin msg] by (simp add: s)
  moreover have "8 * (LENGTH('a) div 8) = LENGTH('a)" using w by presburger
  ultimately show ?thesis using trailer_bytes [OF w, where k = "LENGTH('a) div 8" and ?r1.0 = r1 and ini = rest] by (simp add: s v1_rel_def)
qed

section \<open>The remainder of a polynomial\<close>

text \<open>A number stands for the polynomial whose coefficients are its bits; multiplication is without carries.\<close>

fun clmul :: "nat \<Rightarrow> nat \<Rightarrow> nat" where
  "clmul a b = (if a = 0 then 0 else (if odd a then b else 0) XOR 2 * clmul (a div 2) b)"

declare clmul.simps [simp del]

definition generator_poly :: "'a::len word \<Rightarrow> nat" where
  "generator_poly G = 2 ^ LENGTH('a) + unat G"

definition message_poly :: "bool \<Rightarrow> 8 word list \<Rightarrow> nat" where
  "message_poly refin msg = foldl (\<lambda>n b. 256 * n + unat (crc_in refin b)) 0 msg"

lemma clmul_0 [simp]: "clmul 0 b = 0"
  by (simp add: clmul.simps)

lemma clmul_step: "clmul (2 * q + of_bool c) b = (if c then b else 0) XOR 2 * clmul q b"
  by (subst clmul.simps) auto

lemma double_xor: "2 * (a XOR b) = 2 * a XOR 2 * (b :: nat)"
  using push_bit_xor [of 1 a b] by (simp add: push_bit_eq_mult mult.commute)

lemma unat_crc_bit:
  assumes w: "LENGTH('a::len) mod 8 = 0"
  shows "unat (crc_bit G (r :: 'a word)) = 2 * unat r XOR (if bit r (LENGTH('a) - 1) then generator_poly G else 0)"
proof (rule bit_eqI)
  fix i
  let ?L = "LENGTH('a)"
  have "bit (generator_poly G) i \<longleftrightarrow> i = ?L \<or> bit G i"
  proof -
    have "generator_poly G = 2 ^ ?L OR unat G" unfolding generator_poly_def
      by (rule disjunctive_add) (auto simp: bit_exp_iff bit_unsigned_iff dest: bit_imp_le_length)
    then show ?thesis by (auto simp: bit_or_iff bit_exp_iff bit_unsigned_iff dest: bit_imp_le_length)
  qed
  moreover have "bit (2 * unat r) i \<longleftrightarrow> 1 \<le> i \<and> bit r (i - 1)"
    using bit_push_bit_iff [of 1 "unat r" i] by (auto simp: push_bit_eq_mult mult.commute bit_unsigned_iff dest: bit_imp_le_length)
  moreover have "bit (unat (crc_bit G r)) i \<longleftrightarrow> i < ?L \<and> ((1 \<le> i \<and> bit r (i - 1)) \<noteq> (bit r (?L - 1) \<and> bit G i))"
  proof -
    have "bit (unat (crc_bit G r)) i \<longleftrightarrow> bit (crc_bit G r) i" by (auto simp: bit_unsigned_iff dest: bit_imp_le_length)
    then show ?thesis by (auto simp: crc_bit_eq [OF w] word_bits simp del: push_bit_Suc dest: bit_imp_le_length split: if_splits)
  qed
  moreover have "1 \<le> i \<and> bit r (i - 1) \<Longrightarrow> i \<le> ?L" using bit_imp_le_length [of r "i - 1"] by linarith
  ultimately show "bit (unat (crc_bit G r)) i \<longleftrightarrow> bit (2 * unat r XOR (if bit r (?L - 1) then generator_poly G else 0)) i"
    using bit_imp_le_length [of G i] byte_width [OF w] by (cases "i = ?L") (auto simp: bit_xor_iff)
qed

lemma remainder_bit:
  assumes "LENGTH('a::len) mod 8 = 0" "x = clmul q (generator_poly G) XOR unat (r :: 'a word)"
  shows "\<exists>q. 2 * x = clmul q (generator_poly G) XOR unat (crc_bit G r)"
proof -
  let ?c = "bit r (LENGTH('a) - 1)"
  have "clmul (2 * q + of_bool ?c) (generator_poly G) XOR unat (crc_bit G r) = 2 * clmul q (generator_poly G) XOR 2 * unat r"
    unfolding clmul_step unat_crc_bit [OF assms(1)] by (simp add: ac_simps)
  then show ?thesis using assms(2) double_xor by metis
qed

lemma remainder_bits:
  assumes "LENGTH('a::len) mod 8 = 0" "x = clmul q (generator_poly G) XOR unat (r :: 'a word)"
  shows "\<exists>q. 2 ^ n * x = clmul q (generator_poly G) XOR unat ((crc_bit G ^^ n) r)"
proof (induction n)
  case (Suc n)
  then obtain q where "2 ^ n * x = clmul q (generator_poly G) XOR unat ((crc_bit G ^^ n) r)" by blast
  from remainder_bit [OF assms(1) this] show ?case by (simp add: mult.assoc)
qed (use assms(2) in auto)

lemma message_snoc: "message_poly refin (msg @ [b]) = 2 ^ 8 * message_poly refin msg XOR unat (crc_in refin b)"
proof -
  let ?m = "message_poly refin msg" and ?b = "unat (crc_in refin b)"
  have "256 * ?m + ?b = push_bit 8 ?m XOR ?b"
  proof -
    have d: "\<not> bit (push_bit 8 ?m) i \<or> \<not> bit ?b i" for i by (auto simp: bit_push_bit_iff bit_unsigned_iff dest: bit_imp_le_length)
    have "push_bit 8 ?m + ?b = push_bit 8 ?m OR ?b" by (rule disjunctive_add) (rule d)
    also have "\<dots> = push_bit 8 ?m XOR ?b" by (rule bit_eqI) (use d in \<open>auto simp: bit_or_iff bit_xor_iff\<close>)
    finally show ?thesis by (simp add: push_bit_eq_mult mult.commute)
  qed
  then show ?thesis by (simp add: message_poly_def push_bit_eq_mult mult.commute)
qed

lemma remainder_message:
  fixes G :: "'a::len word"
  assumes w: "LENGTH('a) mod 8 = 0"
  shows "\<exists>q. 2 ^ LENGTH('a) * message_poly refin msg XOR 2 ^ (8 * length msg) * unat ini =
    clmul q (generator_poly G) XOR unat (foldl (crc_byte G refin) ini msg)"
proof (induction msg rule: rev_induct)
  case Nil
  have "unat ini = clmul 0 (generator_poly G) XOR unat ini" by simp
  then show ?case by (auto simp: message_poly_def intro!: exI [of _ 0])
next
  case (snoc b msg)
  let ?L = "LENGTH('a)" and ?r = "foldl (crc_byte G refin) ini msg" and ?c = "crc_in refin b"
  let ?z = "2 ^ ?L * message_poly refin msg XOR 2 ^ (8 * length msg) * unat ini"
  let ?p = "push_bit (?L - 8) (ucast ?c) :: 'a word"
  obtain q where q: "?z = clmul q (generator_poly G) XOR unat ?r" using snoc by blast
  have e: "2 ^ ?L = (2 ^ 8 * 2 ^ (?L - 8) :: nat)" using byte_width [OF w] by (metis le_add_diff_inverse power_add)
  have p: "unat ?p = 2 ^ (?L - 8) * unat ?c"
  proof -
    have c: "unat ?c < 2 ^ 8" using unsigned_less [of ?c, where ?'a = nat] by simp
    have "2 ^ (?L - 8) * unat ?c < 2 ^ ?L" using c unfolding e by simp
    moreover have "unat (ucast ?c :: 'a word) = unat ?c" 
      using less_le_trans [OF c power_increasing [OF byte_width [OF w]]] by (simp add: unsigned_ucast_eq take_bit_nat_eq_self_iff)
    ultimately show ?thesis
      by (simp add: unsigned_push_bit_eq push_bit_eq_mult [where ?'a = nat] take_bit_nat_eq_self mult.commute)
  qed
  have "?z XOR unat ?p = clmul q (generator_poly G) XOR unat (?r XOR ?p)" unfolding q by (simp add: unsigned_xor_eq xor.assoc)
  from remainder_bits [OF w this, of 8]
  obtain q' where q': "2 ^ 8 * (?z XOR unat ?p) = clmul q' (generator_poly G) XOR unat (foldl (crc_byte G refin) ini (msg @ [b]))"
    by (auto simp: crc_byte_def crc_bits_funpow)
  have dist: "2 ^ n * (x XOR y) = 2 ^ n * x XOR 2 ^ n * y" for n and x y :: nat
    using push_bit_xor [of n x y] by (simp add: push_bit_eq_mult mult.commute)
  have "2 ^ 8 * (?z XOR unat ?p) = 2 ^ ?L * message_poly refin (msg @ [b]) XOR 2 ^ (8 * length (msg @ [b])) * unat ini"
    unfolding message_snoc dist p by (simp add: e power_add ac_simps)
  then show ?case using q' by metis
qed

text \<open>Division leaves only one remainder of less than the generator's degree.\<close>

lemma xor_cancel [simp]: "a XOR (a XOR b) = (b :: nat)"
  by (simp flip: xor.assoc)

lemma clmul_xor: "clmul (a XOR b) c = clmul a c XOR clmul b c"
proof (induction a arbitrary: b rule: less_induct)
  case (less a)
  show ?case
  proof (cases "a = 0")
    case False
    have e: "clmul n c = (if odd n then c else 0) XOR 2 * clmul (n div 2) c" for n by (subst clmul.simps) simp
    have h: "(a XOR b) div 2 = a div 2 XOR b div 2" using drop_bit_xor [of 1 a b] by (simp add: drop_bit_eq_div)
    have o: "odd (a XOR b) \<longleftrightarrow> odd a \<noteq> odd b" by (simp add: even_xor_iff)
    have "clmul (a div 2 XOR b div 2) c = clmul (a div 2) c XOR clmul (b div 2) c" using less [of "a div 2" "b div 2"] False by simp
    then show ?thesis unfolding e [of "a XOR b"] e [of a] e [of b] h o double_xor by (auto simp: ac_simps double_xor)
  qed simp
qed

lemma clmul_large: "a \<noteq> 0 \<Longrightarrow> 2 ^ n \<le> b \<Longrightarrow> b < 2 ^ Suc n \<Longrightarrow> 2 ^ n \<le> clmul a b"
proof (induction a rule: less_induct)
  case (less a)
  have e: "clmul a b = (if odd a then b else 0) XOR 2 * clmul (a div 2) b" using less.prems by (subst clmul.simps) simp
  show ?case
  proof (cases "a div 2 = 0")
    case True
    then have "odd a" using less.prems(1) by presburger
    then show ?thesis unfolding e True using less.prems by simp
  next
    case False
    then have c: "2 ^ n \<le> clmul (a div 2) b" using less by simp
    have z: "drop_bit (Suc n) b = 0" using less.prems(3) by (simp only: drop_bit_eq_div div_less)
    have "drop_bit (Suc n) (2 * clmul (a div 2) b) = drop_bit n (clmul (a div 2) b)" by (simp add: drop_bit_eq_div)
    then have "drop_bit (Suc n) (clmul a b) = drop_bit n (clmul (a div 2) b)"
      unfolding e by (simp only: drop_bit_xor z if_distrib [of "drop_bit (Suc n)"] drop_bit_of_0 if_cancel xor.left_neutral)
    moreover have "drop_bit n (clmul (a div 2) b) \<noteq> 0"
      using div_le_mono [OF c, of "2 ^ n"] by (simp add: drop_bit_eq_div del: div_eq_0_iff)
    ultimately have "drop_bit (Suc n) (clmul a b) \<noteq> 0" by simp
    then have "\<not> clmul a b < 2 ^ Suc n" unfolding drop_bit_eq_div using div_less [of "clmul a b" "2 ^ Suc n"] by metis
    then show ?thesis by simp
  qed
qed

lemma remainder_unique:
  fixes r s :: "'a::len word"
  assumes "clmul q (generator_poly G) XOR unat r = clmul q' (generator_poly (G :: 'a word)) XOR unat s"
  shows "r = s"
proof -
  have u: "unat (r XOR s) < 2 ^ LENGTH('a)" by (rule unsigned_less)
  have "clmul q (generator_poly G) = (clmul q' (generator_poly G) XOR unat s) XOR unat r"
    using assms by (metis xor.assoc xor_self_eq xor.right_neutral)
  then have "clmul (q XOR q') (generator_poly G) = unat (r XOR s)"
    by (simp add: clmul_xor unsigned_xor_eq ac_simps)
  moreover have "2 ^ LENGTH('a) \<le> generator_poly G" "generator_poly G < 2 ^ Suc LENGTH('a)"
    using unsigned_less [of G, where ?'a = nat] by (simp_all add: generator_poly_def)
  ultimately have "q XOR q' = 0" using clmul_large [of "q XOR q'" "LENGTH('a)" "generator_poly G"] u by (metis not_le)
  then have "unat (r XOR s) = 0" using \<open>clmul (q XOR q') (generator_poly G) = unat (r XOR s)\<close> by simp
  then have "r XOR s = s XOR s" by (simp add: unat_eq_zero)
  then show ?thesis by (simp only: xor_inject)
qed

section \<open>Bursts of errors\<close>

lemma crc_byte_inject:
  fixes G :: "'a::len word"
  assumes "LENGTH('a) mod 8 = 0" "bit G 0"
  shows "crc_byte G refin r b = crc_byte G refin s b \<longleftrightarrow> r = s"
  unfolding crc_byte_def crc_bits_funpow crc_pow_inject [OF assms] by (rule xor_inject(1))

lemma crc_bytes_inject:
  fixes G :: "'a::len word"
  assumes "LENGTH('a) mod 8 = 0" "bit G 0"
  shows "foldl (crc_byte G refin) r msg = foldl (crc_byte G refin) s msg \<longleftrightarrow> r = s"
  by (induction msg arbitrary: r s) (simp_all add: crc_byte_inject [OF assms])

text \<open>The bytes at the top of the register, the first one highest.\<close>

fun top_bytes :: "bool \<Rightarrow> 8 word list \<Rightarrow> 'a::len word" where
  "top_bytes refin [] = 0"
| "top_bytes refin (b # bs) = push_bit (LENGTH('a) - 8) (ucast (crc_in refin b)) XOR drop_bit 8 (top_bytes refin bs)"

lemma top_bytes_low:
  assumes w: "LENGTH('a::len) mod 8 = 0"
  shows "8 * length bs \<le> LENGTH('a) \<Longrightarrow> bit (top_bytes refin bs :: 'a word) i \<Longrightarrow> LENGTH('a) - 8 * length bs \<le> i"
proof (induction bs arbitrary: i)
  case (Cons b bs)
  then consider "LENGTH('a) - 8 \<le> i" | "bit (top_bytes refin bs :: 'a word) (8 + i)"
    unfolding top_bytes.simps by (simp only: word_bits) blast
  then show ?case using Cons.IH [of "8 + i"] Cons.prems by cases auto
qed simp

lemma crc_bytes_top:
  fixes G :: "'a::len word"
  assumes w: "LENGTH('a) mod 8 = 0"
  shows "8 * length bs \<le> LENGTH('a) \<Longrightarrow> foldl (crc_byte G refin) r bs = (crc_bit G ^^ (8 * length bs)) (r XOR top_bytes refin bs)"
proof (induction bs arbitrary: r)
  case (Cons b bs)
  let ?t = "top_bytes refin bs :: 'a word"
  have "take_bit (LENGTH('a) - 8) (drop_bit 8 ?t) = drop_bit 8 ?t"
  proof (rule bit_word_eqI)
    fix i
    show "bit (take_bit (LENGTH('a) - 8) (drop_bit 8 ?t)) i \<longleftrightarrow> bit (drop_bit 8 ?t) i"
      using bit_imp_le_length [of ?t "8 + i"] by (simp only: word_bits) auto
  qed
  then have "(crc_bit G ^^ 8) (drop_bit 8 ?t) = push_bit 8 (drop_bit 8 ?t)"
    using crc_pow_shift [OF w byte_width [OF w], of G "drop_bit 8 ?t"] by simp
  also have "\<dots> = ?t"
  proof (rule bit_word_eqI)
    fix i assume "i < LENGTH('a)"
    have "bit ?t i \<Longrightarrow> 8 \<le> i" using top_bytes_low [OF w, of bs refin i] Cons.prems by simp
    then show "bit (push_bit 8 (drop_bit 8 ?t)) i \<longleftrightarrow> bit ?t i" using \<open>i < LENGTH('a)\<close> by (simp only: word_bits) auto
  qed
  finally have t: "(crc_bit G ^^ 8) (drop_bit 8 ?t) = ?t" .
  have "foldl (crc_byte G refin) r (b # bs) = (crc_bit G ^^ (8 * length bs)) (crc_byte G refin r b XOR ?t)"
    using Cons by simp
  moreover have "crc_byte G refin r b XOR ?t = (crc_bit G ^^ 8) (r XOR top_bytes refin (b # bs))"
    by (simp only: crc_byte_def crc_bits_funpow crc_pow_xor [OF w] top_bytes.simps t xor.assoc)
  moreover have "8 * length (b # bs) = 8 * length bs + 8" by simp
  ultimately show ?case by (simp only: funpow_add comp_apply)
qed simp

lemma top_bytes_inject:
  assumes w: "LENGTH('a::len) mod 8 = 0"
  shows "length xs = length ys \<Longrightarrow> 8 * length xs \<le> LENGTH('a) \<Longrightarrow> (top_bytes refin xs :: 'a word) = top_bytes refin ys \<Longrightarrow>
    map (crc_in refin) xs = map (crc_in refin) ys"
proof (induction xs ys rule: list_induct2)
  case (Cons x xs y ys)
  let ?L = "LENGTH('a)" and ?tx = "top_bytes refin xs :: 'a word" and ?ty = "top_bytes refin ys :: 'a word"
  have L: "8 \<le> ?L" by (rule byte_width [OF w])
  have top: "bit (top_bytes refin (b # bs) :: 'a word) (?L - 8 + i) \<longleftrightarrow> bit (crc_in refin b) i" if "i < 8" for b bs i
  proof -
    have "?L - 8 + i < ?L" "\<not> bit (top_bytes refin bs :: 'a word) (8 + (?L - 8 + i))"
      using that L bit_imp_le_length [of "top_bytes refin bs :: 'a word" "8 + (?L - 8 + i)"] by auto
    then show ?thesis by (simp only: top_bytes.simps word_bits) simp
  qed
  have "crc_in refin x = crc_in refin y"
  proof (rule bit_word_eqI)
    fix i assume i: "i < LENGTH(8)"
    show "bit (crc_in refin x) i \<longleftrightarrow> bit (crc_in refin y) i" using top [of i x xs] top [of i y ys] i Cons.prems(2) by simp
  qed
  moreover have "?tx = ?ty"
  proof (rule bit_word_eqI)
    fix i assume i: "i < ?L"
    have e: "drop_bit 8 ?tx = drop_bit 8 ?ty"
      using Cons.prems(2) \<open>crc_in refin x = crc_in refin y\<close> by (simp only: top_bytes.simps xor_inject)
    show "bit ?tx i \<longleftrightarrow> bit ?ty i"
    proof (cases "8 \<le> i")
      case True
      then show ?thesis using arg_cong [OF e, of "\<lambda>z. bit z (i - 8)"] by (simp add: bit_drop_bit_eq)
    next
      case False
      then show ?thesis
        using top_bytes_low [OF w, of xs refin i] top_bytes_low [OF w, of ys refin i] Cons.prems(1) Cons.hyps by auto
    qed
  qed
  ultimately show ?case using Cons.IH Cons.prems(1) by simp
qed simp

lemma crc_in_inject: "crc_in refin a = crc_in refin b \<longleftrightarrow> a = b"
  by (auto simp: crc_in_def reflect_bits_ok dest: arg_cong [of _ _ word_reverse])

lemma crc_out_inject: "crc_out wild refout x r = crc_out wild refout x s \<longleftrightarrow> r = (s :: 'a::len word)"
proof -
  show ?thesis unfolding crc_out_def xor_inject by (auto simp: reflect_bits_ok dest: arg_cong [of _ _ word_reverse])
qed

section \<open>The properties of the component\<close>

lemma crc_out_wild: "crc_out wild refout x r = (if refout then word_reverse r else r) XOR x"
  by (simp add: crc_out_def reflect_bits_ok)

lemma crc_start_new: "crc_start p crc_new = \<lparr>crc_r = rinit p, crc_initialized = True\<rparr>"
  by (simp add: crc_start_def crc_new_def)

lemma crc_chunks:
  fixes step :: "'a::len word \<Rightarrow> 8 word \<Rightarrow> 'a word"
  assumes f: "\<And>msg ctx. f msg ctx = (let ctx = crc_start p ctx; ctx = ctx\<lparr>crc_r := foldl step (crc_r ctx) msg\<rparr> in
    (crc_out wild (reflect_out p) (xor_out p) (crc_r ctx), ctx))"
  shows "fst (f last_chunk (foldl (\<lambda>ctx m. snd (f m ctx)) crc_new chunks)) =
    crc_out 0 (reflect_out p) (xor_out p) (foldl step (rinit p) (concat chunks @ last_chunk))"
proof -
  have "crc_start p (foldl (\<lambda>ctx m. snd (f m ctx)) ctx chunks) = \<lparr>crc_r = foldl step r (concat chunks), crc_initialized = True\<rparr>"
    if "crc_start p ctx = \<lparr>crc_r = r, crc_initialized = True\<rparr>" for ctx r
    using that
  proof (induction chunks arbitrary: ctx r)
    case (Cons c chunks)
    have "crc_start p (snd (f c ctx)) = \<lparr>crc_r = foldl step r c, crc_initialized = True\<rparr>"
      by (simp add: f Let_def Cons.prems) (simp add: crc_start_def)
    from Cons.IH [OF this] show ?case by simp
  qed simp
  from this [OF crc_start_new] show ?thesis by (simp add: f Let_def crc_out_wild)
qed

text \<open>C7: 
  The lookup table computes the bitwise check: fed in any chunks, with the table made for the same generator, the
  table-driven function returns what the bit-at-a-time function returns for the whole message, and so does the bitwise
  function for chunks. The overlong shift does not matter.
\<close>

theorem crc_streaming_correct:
  fixes p :: "'a::len word crc_params"
  assumes "LENGTH('a) mod 8 = 0"
  shows "fst (make_crc_1byte_aat wild p last_chunk
      (foldl (\<lambda>ctx m. snd (make_crc_1byte_aat wild p m ctx (make_lookup_table (gen p)))) crc_new chunks) (make_lookup_table (gen p))) =
    crc_1bit_aat wild' p (concat chunks @ last_chunk) \<and>
    fst (make_crc_1bit_aat wild p last_chunk (foldl (\<lambda>ctx m. snd (make_crc_1bit_aat wild p m ctx)) crc_new chunks)) =
    crc_1bit_aat wild' p (concat chunks @ last_chunk)"
  unfolding crc_1bit_aat_def crc_1bit_aat_v2_def
    crc_chunks [where f = "\<lambda>m ctx. make_crc_1byte_aat wild p m ctx (make_lookup_table (gen p))",
      OF make_crc_1byte_aat_def [unfolded table_byte_ok [OF assms]], unfolded table_byte_ok [OF assms]]
    crc_chunks [where f = "make_crc_1bit_aat wild p", OF make_crc_1bit_aat_def]
  by (simp_all only: crc_out_wild)

theorem crc_streaming_witness:
  "fst (make_crc_1byte_aat 0 crc16_kermit [3] (foldl (\<lambda>ctx m. snd (make_crc_1byte_aat 0 crc16_kermit m ctx
      (make_lookup_table (gen crc16_kermit)))) crc_new [[1], [], [2, 9]]) (make_lookup_table (gen crc16_kermit))) =
    crc_1bit_aat 7 crc16_kermit [1, 2, 9, 3]"
  using crc_streaming_correct [of 0 crc16_kermit "[3]" "[[1], [], [2, 9]]" 7] by simp

text \<open>C8: 
  The check is a remainder: the message, with its bytes reflected if the parameters say so, times \<open>x^w\<close>, with the initial
  value added to its first \<open>w\<close> coefficients, is a multiple of the generator plus the register, which is then reflected
  and complemented for the output.
\<close>

theorem crc_remainder:
  fixes p :: "'a::len word crc_params"
  assumes "LENGTH('a) mod 8 = 0"
  shows "\<exists>q r. crc_bitaat wild p msg = (if reflect_out p then word_reverse r else r) XOR xor_out p \<and>
    2 ^ LENGTH('a) * message_poly (reflect_in p) msg XOR 2 ^ (8 * length msg) * unat (rinit p) =
      clmul q (generator_poly (gen p)) XOR unat r"
proof -
  have "crc_bitaat wild p msg = crc_out wild (reflect_out p) (xor_out p) (foldl (crc_byte (gen p) (reflect_in p)) (rinit p) msg)"
    by (simp add: crc_bitaat_def make_crc_1bit_aat_def crc_start_new)
  with remainder_message [OF assms, of "reflect_in p" msg "rinit p" "gen p"] show ?thesis unfolding crc_out_wild by blast
qed

theorem crc_remainder_witness:
  "\<exists>q r. crc_bitaat 0 crc8_bluetooth [1, 2] = word_reverse r \<and>
    2 ^ 8 * message_poly True [1, 2] = clmul q (generator_poly (0xA7 :: 8 word)) XOR unat r"
  using crc_remainder [of 0 crc8_bluetooth "[1, 2]"] by (simp add: crc8_bluetooth_def)

text \<open>The version that shifts a zero trailer through the register gives the same check as the one that does not.\<close>

theorem crc_trailer_equivalent:
  fixes p :: "'a::len word crc_params"
  assumes "LENGTH('a) mod 8 = 0"
  shows "crc_1bit_aat_v1 wild p msg = crc_1bit_aat_v2 wild' p msg"
proof -
  have "crc_1bit_aat_v1 wild p msg = crc_out wild (reflect_out p) (xor_out p) (foldl (crc_byte (gen p) (reflect_in p)) (rinit p) msg)"
    unfolding crc_v1_register [OF assms, symmetric] by (simp add: crc_1bit_aat_v1_def split_beta Let_def)
  then show ?thesis by (simp add: crc_1bit_aat_v2_def crc_out_wild)
qed

theorem crc_trailer_witness: "crc_1bit_aat_v1 0 crc32c [5, 6] = crc_1bit_aat_v2 0 crc32c [5, 6]"
  using crc_trailer_equivalent [of 0 crc32c "[5, 6]" 0] by simp

text \<open>C26: 
  A burst is detected: if the generator has a constant term, two messages of the same length that differ within as many
  bytes as the check is wide have different checks.
\<close>

theorem crc_detects_bursts:
  fixes p :: "'a::len word crc_params"
  assumes "LENGTH('a) mod 8 = 0" "bit (gen p) 0" "length x = length y" "8 * length x \<le> LENGTH('a)" "x \<noteq> y"
  shows "crc_bitaat wild p (before @ x @ after) \<noteq> crc_bitaat wild p (before @ y @ after)"
proof
  assume eq: "crc_bitaat wild p (before @ x @ after) = crc_bitaat wild p (before @ y @ after)"
  let ?f = "foldl (crc_byte (gen p) (reflect_in p))"
  have "crc_bitaat wild p m = crc_out wild (reflect_out p) (xor_out p) (?f (rinit p) m)" for m
    by (simp add: crc_bitaat_def make_crc_1bit_aat_def crc_start_new)
  then have "?f (?f (?f (rinit p) before) x) after = ?f (?f (?f (rinit p) before) y) after" using eq by (simp add: crc_out_inject)
  then have "?f (?f (rinit p) before) x = ?f (?f (rinit p) before) y" by (simp only: crc_bytes_inject [OF assms(1,2)])
  moreover have "8 * length y \<le> LENGTH('a)" using assms(3,4) by simp
  ultimately have "top_bytes (reflect_in p) x = (top_bytes (reflect_in p) y :: 'a word)"
    using assms(3) by (simp only: crc_bytes_top [OF assms(1)] assms(4) crc_pow_inject [OF assms(1,2)] xor_inject)
  then have "map (crc_in (reflect_in p)) x = map (crc_in (reflect_in p)) y" by (rule top_bytes_inject [OF assms(1,3,4)])
  then have "x = y" using inj_map_eq_map [of "crc_in (reflect_in p)" x y] by (simp add: inj_def crc_in_inject)
  then show False using assms(5) by simp
qed

theorem crc_detects_bursts_witness: "crc_bitaat 0 crc16_gsm ([1, 2] @ [3, 4] @ [5]) \<noteq> crc_bitaat 0 crc16_gsm ([1, 2] @ [3, 5] @ [5])"
proof (rule crc_detects_bursts)
  show "bit (gen crc16_gsm) 0" by (simp add: crc16_gsm_def)
qed simp_all

text \<open>The check values of the published catalogue for the message 123456789, for every set of parameters.\<close>

definition check_message :: "8 word list" where
  "check_message = [49, 50, 51, 52, 53, 54, 55, 56, 57]"

lemma crc_check_values:
  "crc_bitaat 0 crc8_bluetooth check_message = 0x26"
  "crc_bitaat 0 crc16_dectx check_message = 0x007f"
  "crc_bitaat 0 crc16_usb check_message = 0xb4c8"
  "crc_bitaat 0 crc16_gsm check_message = 0xce3c"
  "crc_bitaat 0 crc16_kermit check_message = 0x2189"
  "crc_bitaat 0 crc16_modbus check_message = 0x4b37"
  "crc_bitaat 0 crc32_bzip2 check_message = 0xfc891918"
  "crc_bitaat 0 crc32_cksum check_message = 0x765e7680"
  "crc_bitaat 0 crc32c check_message = 0xe3069283"
  "crc_bitaat 0 crc32_hdlc check_message = 0xcbf43926"
  "crc_bitaat 0 crc64_go check_message = 0xb90956c775a41001"
  "crc_bitaat 0 crc64_xz check_message = 0x995dc9bbdf1939fa"
  by code_simp+

end
