(* ===== verification/Math_Cxx.thy ===== *)
theory Math_Cxx
  imports Prelude "HOL-Library.Word"
begin

unbundle bit_operations_syntax

text \<open>The integer functions of \<open>include/tarp/math.hxx\<close>, templates over the unsigned types, here over words of any length.\<close>

section \<open>The code\<close>

text \<open>
  The square root by bisection, with every operation in the type \<open>T\<close>, the addition \<open>l + 1\<close> of the loop condition included:
  for a type narrower than \<open>int\<close> the operands are promoted and nothing wraps, which is \<open>math_sqrt_wide\<close> below. With \<open>l = r\<close>
  the largest value, \<open>l + 1\<close> would wrap and the loop would not end: \<open>None\<close>.
\<close>

partial_function (option) sqrt_loop :: "'a::len word \<Rightarrow> 'a word \<Rightarrow> 'a word \<Rightarrow> ('a word \<times> 'a word) option" where
  "sqrt_loop x l r =
     (if r > l + 1
      then let m = l + (r - l) div 2 in if m \<le> x div m then sqrt_loop x m r else sqrt_loop x l m
      else Some (l, r))"

definition math_sqrt :: "'a::len word \<Rightarrow> 'a word option" where
  "math_sqrt x =
     (if x = 0 then Some 0
      else if x < 4 then Some 1
      else map_option (\<lambda>(l, r). if r \<le> x div r then r else l) (sqrt_loop x 0 (x div 2 + 1)))"

text \<open>The same code in numbers without a bound.\<close>

function sqrt_loop_wide :: "nat \<Rightarrow> nat \<Rightarrow> nat \<Rightarrow> nat \<times> nat" where
  "sqrt_loop_wide x l r =
     (if r > l + 1
      then let m = l + (r - l) div 2 in if m \<le> x div m then sqrt_loop_wide x m r else sqrt_loop_wide x l m
      else (l, r))"
  by pat_completeness auto
termination
  by (relation "measure (\<lambda>(x, l, r). r - l)") auto

declare sqrt_loop_wide.simps [simp del]

definition math_sqrt_wide :: "nat \<Rightarrow> nat" where
  "math_sqrt_wide x =
     (if x = 0 then 0
      else if x < 4 then 1
      else case sqrt_loop_wide x 0 (x div 2 + 1) of (l, r) \<Rightarrow> if r \<le> x div r then r else l)"

text \<open>Exponentiation by squaring; the exponent is an \<open>unsigned\<close>.\<close>

lemma unat_half: "unat (drop_bit 1 (e :: 32 word)) = unat e div 2"
proof -
  have "unat (drop_bit 1 e) = drop_bit 1 (unat e)"
    using unsigned_less [of e, where ?'a = nat] by (simp add: unsigned_drop_bit_eq take_bit_nat_eq_self del: drop_bit_Suc)
  then show ?thesis by (simp only: drop_bit_eq_div power_one_right)
qed

function intpow_loop :: "'a::len word \<Rightarrow> 32 word \<Rightarrow> 'a word \<Rightarrow> 'a word" where
  "intpow_loop base expo res =
     (let res = (if expo AND 1 \<noteq> 0 then res * base else res);
          expo = drop_bit 1 expo
      in if expo = 0 then res else intpow_loop (base * base) expo res)"
  by pat_completeness auto
termination
proof (relation "measure (\<lambda>(base, expo, res). unat expo)", goal_cases)
  case (2 base expo res res' expo')
  then have "unat expo' = unat expo div 2" by (simp only: unat_half)
  moreover have "unat expo' \<noteq> 0" using 2 by (simp only: unat_eq_zero not_False_eq_True)
  ultimately show ?case by simp
qed simp

declare intpow_loop.simps [simp del]

definition intpow :: "'a::len word \<Rightarrow> 32 word \<Rightarrow> 'a word" where
  "intpow base expo = intpow_loop base expo 1"

text \<open>The integer branch of \<open>equals\<close>; \<open>A\<close>, \<open>B\<close> and \<open>E\<close> are the values converted to the unsigned type.\<close>

definition equals_unsigned :: "'a::len word \<Rightarrow> 'a word \<Rightarrow> 'a word \<Rightarrow> bool" where
  "equals_unsigned Au Bu Eu =
     (let head = NOT 0 - Bu;
          Eu = (if Eu > head then head else Eu)
      in if Au > Bu + Eu then False
         else let tail = Bu - 0;
                  Eu = (if Eu > tail then tail else Eu)
              in \<not> Au < Bu - Eu)"

text \<open>For a signed common type the sign of the tolerance is dropped first and the values are converted.\<close>

definition equals_signed :: "'a::len word \<Rightarrow> 'a word \<Rightarrow> 'a word \<Rightarrow> bool" where
  "equals_signed A B E = equals_unsigned A B (if sint E < 0 then - E else E)"

section \<open>The properties of the component\<close>

lemma le_div_square: "0 < m \<Longrightarrow> m \<le> x div m \<longleftrightarrow> m * m \<le> (x :: nat)"
  by (simp add: less_eq_div_iff_mult_less_eq)

lemma halfway:
  assumes "unat l + 1 < unat (r :: 'a::len word)"
  shows "unat (l + (r - l) div 2) = unat l + (unat r - unat l) div 2"
proof -
  have "l \<le> r" using assms by (simp add: word_le_nat_alt)
  then have d: "unat (r - l) = unat r - unat l" by (rule unat_sub)
  have "unat (2 :: 'a word) = 2 mod 2 ^ LENGTH('a)" by (metis of_nat_numeral unat_of_nat)
  moreover have "2 < (2 :: nat) ^ LENGTH('a)" using assms unsigned_less [of r, where ?'a = nat] by linarith
  ultimately have "unat ((r - l) div 2) = (unat r - unat l) div 2" by (simp add: unat_div_distrib d)
  moreover have "unat l + (unat r - unat l) div 2 < 2 ^ LENGTH('a)" using assms unsigned_less [of r, where ?'a = nat] by linarith
  ultimately show ?thesis by (simp add: unat_add_lem [THEN iffD1])
qed

text \<open>Below \<open>r\<close> the addition of the condition does not wrap.\<close>

lemma next_less:
  assumes "unat l < unat (r :: 'a::len word)"
  shows "r > l + 1 \<longleftrightarrow> unat l + 1 < unat r"
proof -
  have "unat l + unat (1 :: 'a word) < 2 ^ LENGTH('a)" using assms unsigned_less [of r, where ?'a = nat] unfolding unat_1 by linarith
  then have "unat (l + 1) = unat l + 1" by (simp add: unat_add_lem [THEN iffD1])
  then show ?thesis by (simp add: word_less_nat_alt)
qed

lemma sqrt_loop_ok:
  fixes x :: "'a::len word"
  assumes "unat l * unat l \<le> unat x" "unat x < unat r * unat r" "unat l < unat r"
  shows "\<exists>l' r'. sqrt_loop x l r = Some (l', r') \<and> sqrt_loop_wide (unat x) (unat l) (unat r) = (unat l', unat r') \<and>
    unat l' * unat l' \<le> unat x \<and> unat x < unat r' * unat r' \<and> unat r' = unat l' + 1"
  using assms
proof (induction "unat r - unat l" arbitrary: l r rule: less_induct)
  case less
  note go = next_less [OF less.prems(3)]
  show ?case
  proof (cases "unat l + 1 < unat r")
    case False
    then have "sqrt_loop x l r = Some (l, r)" using go by (subst sqrt_loop.simps) simp
    moreover have "sqrt_loop_wide (unat x) (unat l) (unat r) = (unat l, unat r)"
      using False by (subst sqrt_loop_wide.simps) simp
    moreover have "unat r = unat l + 1" using False less.prems(3) by linarith
    ultimately show ?thesis using less.prems(1,2) by blast
  next
    case True
    let ?m = "l + (r - l) div 2"
    have m: "unat ?m = unat l + (unat r - unat l) div 2" by (rule halfway [OF True])
    then have between: "unat l < unat ?m" "unat ?m < unat r" using True by linarith+
    have c: "?m \<le> x div ?m \<longleftrightarrow> unat ?m * unat ?m \<le> unat x" "unat ?m \<le> unat x div unat ?m \<longleftrightarrow> unat ?m * unat ?m \<le> unat x"
      using between(1) by (simp_all add: word_le_nat_alt unat_div_distrib le_div_square)
    have s: "sqrt_loop x l r = (if ?m \<le> x div ?m then sqrt_loop x ?m r else sqrt_loop x l ?m)"
      using True go by (subst sqrt_loop.simps) (simp add: Let_def)
    have w: "sqrt_loop_wide (unat x) (unat l) (unat r) =
        (if unat ?m \<le> unat x div unat ?m then sqrt_loop_wide (unat x) (unat ?m) (unat r) else sqrt_loop_wide (unat x) (unat l) (unat ?m))"
      using True by (subst sqrt_loop_wide.simps) (simp add: Let_def m)
    show ?thesis
    proof (cases "unat ?m * unat ?m \<le> unat x")
      case down: True
      then show ?thesis using less.hyps [of r ?m] between less.prems unfolding s w c by simp
    next
      case up: False
      then show ?thesis using less.hyps [of ?m l] between less.prems unfolding s w c by simp
    qed
  qed
qed

lemma unat_numeral_small: "numeral k < (2 :: nat) ^ LENGTH('a) \<Longrightarrow> unat (numeral k :: 'a::len word) = numeral k"
  by (simp add: unat_numeral take_bit_nat_eq_self)

lemma math_sqrt_ok:
  fixes x :: "'a::len word"
  assumes "4 < LENGTH('a)"
  shows "\<exists>n. math_sqrt x = Some n \<and> unat n = math_sqrt_wide (unat x) \<and> unat n ^ 2 \<le> unat x \<and> unat x < (unat n + 1) ^ 2"
proof -
  have w: "2 ^ 4 < (2 :: nat) ^ LENGTH('a)" using assms by (rule power_strict_increasing) simp
  have "(2 :: nat) < 2 ^ LENGTH('a)" "(4 :: nat) < 2 ^ LENGTH('a)" using w by simp_all
  then have n: "unat (2 :: 'a word) = 2" "unat (4 :: 'a word) = 4" by (simp_all only: unat_numeral_small)
  consider "x = 0" | "x \<noteq> 0" "x < 4" | "\<not> x < 4" by blast
  then show ?thesis
  proof cases
    case 1
    then show ?thesis by (simp add: math_sqrt_def math_sqrt_wide_def)
  next
    case 2
    then have "0 < unat x" "unat x < 4" unfolding word_less_nat_alt n by (simp_all add: unat_gt_0)
    then show ?thesis using 2 by (simp add: math_sqrt_def math_sqrt_wide_def power2_eq_square)
  next
    case 3
    then have x: "4 \<le> unat x" unfolding word_less_nat_alt n by simp
    have start: "unat (x div 2 + 1) = unat x div 2 + 1"
      using unsigned_less [of x, where ?'a = nat] x by (subst unat_add_lem [THEN iffD1]) (simp_all only: unat_div_distrib n unat_1)
    moreover have "unat x < (unat x div 2 + 1) * (unat x div 2 + 1)"
    proof -
      define h where "h = unat x div 2"
      have "unat x \<le> 2 * h + 1" unfolding h_def by linarith
      moreover have "(h + 1) * (h + 1) = h * h + 2 * h + 1" by (simp add: algebra_simps)
      moreover have "0 < h * h" using x by (simp add: h_def)
      ultimately show ?thesis unfolding h_def [symmetric] by linarith
    qed
    ultimately obtain l r where lr: "sqrt_loop x 0 (x div 2 + 1) = Some (l, r)"
        "sqrt_loop_wide (unat x) 0 (unat x div 2 + 1) = (unat l, unat r)"
        "unat l * unat l \<le> unat x" "unat x < unat r * unat r" "unat r = unat l + 1"
      using sqrt_loop_ok [of 0 x "x div 2 + 1"] by auto
    have below: "\<not> r \<le> x div r" "\<not> unat r \<le> unat x div unat r"
      using lr(4,5) by (simp_all add: word_le_nat_alt unat_div_distrib le_div_square)
    have "x \<noteq> 0" using x by auto
    then have "math_sqrt x = Some l" unfolding math_sqrt_def using 3 lr(1) below(1) by (simp only: if_False option.map prod.case)
    moreover have "math_sqrt_wide (unat x) = unat l" unfolding math_sqrt_wide_def using x lr(2) below(2) by simp
    ultimately show ?thesis using lr by (simp add: power2_eq_square)
  qed
qed

text \<open>C32: The bisection ends, at every width, and returns the integer square root; this is also what the same code computes in
  numbers without a bound, where nothing can wrap.\<close>

theorem math_sqrt_correct:
  fixes x :: "'a::len word"
  assumes "4 < LENGTH('a)"
  shows "\<exists>n. math_sqrt x = Some n \<and> unat n = math_sqrt_wide (unat x) \<and> unat n ^ 2 \<le> unat x \<and> unat x < (unat n + 1) ^ 2"
  by (rule math_sqrt_ok [OF assms])

theorem math_sqrt_witness:
  "\<exists>n. math_sqrt (33686018 :: 32 word) = Some n \<and> unat n = math_sqrt_wide 33686018 \<and> unat n ^ 2 \<le> 33686018 \<and> 33686018 < (unat n + 1) ^ 2"
  using math_sqrt_correct [of "33686018 :: 32 word"] by simp

lemma intpow_loop_ok: "intpow_loop base expo res = res * base ^ unat expo"
proof (induction base expo res rule: intpow_loop.induct)
  case (1 base expo res)
  let ?n = "unat expo" and ?res = "if expo AND 1 \<noteq> 0 then res * base else res"
  have "expo AND 1 \<noteq> 0 \<longleftrightarrow> odd ?n"
    using bit_unsigned_iff [where w = expo and n = 0 and ?'a = nat] by (simp add: bit_0 and_one_eq mod_2_eq_odd)
  then have r: "?res = res * base ^ (?n mod 2)" by (simp add: mod2_eq_if)
  have p: "base ^ ?n = base ^ (?n mod 2) * (base * base) ^ (?n div 2)"
  proof -
    have "?n = ?n mod 2 + 2 * (?n div 2)" by simp
    then show ?thesis by (metis power2_eq_square power_add power_mult)
  qed
  show ?case
  proof (cases "drop_bit 1 expo = 0")
    case True
    then have "?n div 2 = 0" using unat_half [of expo] by simp
    then have "base ^ ?n = base ^ (?n mod 2)" using p by simp
    then show ?thesis using True r by (subst intpow_loop.simps) (simp only: Let_def simp_thms if_True)
  next
    case False
    then have "intpow_loop base expo res = intpow_loop (base * base) (drop_bit 1 expo) ?res"
      by (subst intpow_loop.simps) (simp only: Let_def if_False)
    also have "\<dots> = ?res * (base * base) ^ (?n div 2)" using 1 [OF refl refl False] by (simp only: unat_half)
    finally show ?thesis by (simp only: r p mult.assoc)
  qed
qed

text \<open>\<open>intpow\<close> is the power, modulo the width of the type.\<close>

lemma intpow_correct: "intpow base expo = base ^ unat expo"
  by (simp add: intpow_def intpow_loop_ok)

text \<open>
  The tolerance is clamped to the room above \<open>b\<close> before the lower bound is checked: the comparison is right when
  \<open>b + epsilon\<close> fits the type, and wrong for values near the maximum; signed values on both sides of zero are never
  close.
\<close>

lemma equals_unsigned_correct:
  assumes "unat b + unat e < 2 ^ LENGTH('a)"
  shows "equals_unsigned a b (e :: 'a::len word) \<longleftrightarrow> unat a \<le> unat b + unat e \<and> unat b \<le> unat a + unat e"
proof -
  have h: "unat (NOT 0 - b) = 2 ^ LENGTH('a) - 1 - unat b"
    by (subst unat_sub) (simp_all add: unsigned_minus_1_eq_mask mask_eq_exp_minus_1)
  then have n: "\<not> e > NOT 0 - b" using assms by (simp add: word_less_nat_alt)
  have s: "unat (b + e) = unat b + unat e" using assms by (simp add: unat_add_lem [THEN iffD1])
  show ?thesis
  proof (cases "e > b")
    case True
    then show ?thesis using n by (simp add: equals_unsigned_def Let_def word_less_nat_alt s)
  next
    case False
    then have "unat (b - e) = unat b - unat e" by (simp add: unat_sub)
    then show ?thesis using n False by (auto simp: equals_unsigned_def Let_def word_less_nat_alt s)
  qed
qed

lemma equals_unsigned_clamped: "\<not> equals_unsigned 235 250 (20 :: 8 word)"
  by code_simp

lemma equals_signed_around_zero: "\<not> equals_signed (- 1) 1 (2 :: 8 word)"
  by code_simp

end
