(* ===== verification/Fletcher.thy ===== *)
theory Fletcher
  imports Math_Cxx
begin

text \<open>
  The Fletcher checksums of \<open>include/tarp/hash/checksum/fletcher.hxx\<close>. The templates are definitions over the type of
  the words, passed as \<open>TYPE('w)\<close>, and that of the accumulators. The machine is little-endian; the contents of \<open>joint\<close>
  in a new context are indeterminate and a parameter.
\<close>

section \<open>The code\<close>

record 'acc fletcher_ctx =
  fl_cnt :: "32 word"
  fl_joint :: "8 word list"
  fl_deficit :: nat
  fl_sum1 :: 'acc
  fl_sum2 :: 'acc

definition fletcher_new :: "8 word list \<Rightarrow> 'a::len word fletcher_ctx" where
  "fletcher_new garbage = \<lparr>fl_cnt = 0, fl_joint = garbage, fl_deficit = 0, fl_sum1 = 0, fl_sum2 = 0\<rparr>"

definition word_size :: "'w::len itself \<Rightarrow> nat" where
  "word_size w = LENGTH('w) div 8"

definition fl_modulus :: "'w::len itself \<Rightarrow> 'a::len word" where
  "fl_modulus w = ucast (NOT 0 :: 'w word)"

definition find_max_num_additions_without_overflow :: "'w::len itself \<Rightarrow> 'a::len word" where
  "find_max_num_additions_without_overflow w =
     (let maxT = NOT 0 :: 'a word; maxw = ucast (NOT 0 :: 'w word) :: 'a word in the (math_sqrt (push_bit 1 (maxT div maxw))))"

definition fl_MAX_ADD :: "'w::len itself \<Rightarrow> 'a::len word" where
  "fl_MAX_ADD w = find_max_num_additions_without_overflow w"

definition fl_add :: "'a::len word fletcher_ctx \<Rightarrow> 'w::len word \<Rightarrow> 'a word fletcher_ctx" where
  "fl_add ctx val =
     (let ctx = (if ucast (fl_cnt ctx) = (fl_MAX_ADD TYPE('w) :: 'a word)
                 then ctx\<lparr>fl_sum1 := fl_sum1 ctx mod fl_modulus TYPE('w), fl_sum2 := fl_sum2 ctx mod fl_modulus TYPE('w), fl_cnt := 0\<rparr>
                 else ctx);
          ctx = ctx\<lparr>fl_sum1 := fl_sum1 ctx + ucast val\<rparr>;
          ctx = ctx\<lparr>fl_sum2 := fl_sum2 ctx + fl_sum1 ctx\<rparr>
      in ctx\<lparr>fl_cnt := fl_cnt ctx + 1\<rparr>)"

definition fl_reduce :: "'a::len word \<Rightarrow> 'a word \<Rightarrow> 'a word" where
  "fl_reduce M s = (if s \<ge> M then if s < push_bit 1 M then s - M else s mod M else s)"

definition fl_subtract :: "'a::len word fletcher_ctx \<Rightarrow> 'w::len word \<Rightarrow> 'a word fletcher_ctx" where
  "fl_subtract ctx val =
     (let M = fl_modulus TYPE('w) :: 'a word;
          ctx = ctx\<lparr>fl_sum1 := fl_reduce M (fl_sum1 ctx)\<rparr>;
          ctx = ctx\<lparr>fl_sum2 := fl_reduce M (fl_sum2 ctx)\<rparr>;
          ctx = (if fl_sum2 ctx \<ge> fl_sum1 ctx then ctx\<lparr>fl_sum2 := fl_sum2 ctx - fl_sum1 ctx\<rparr>
                 else let s = fl_sum2 ctx + M - fl_sum1 ctx in ctx\<lparr>fl_sum2 := (if s \<ge> M then s - M else s)\<rparr>);
          ctx = (if fl_sum1 ctx > ucast val then ctx\<lparr>fl_sum1 := fl_sum1 ctx - ucast val\<rparr>
                 else let s = fl_sum1 ctx + M - ucast val in ctx\<lparr>fl_sum1 := (if s \<ge> M then s - M else s)\<rparr>)
      in ctx\<lparr>fl_cnt := 0\<rparr>)"

text \<open>The type of the checksum, twice as wide as the words, is \<open>'c\<close>.\<close>

definition fl_get_checksum :: "'w::len itself \<Rightarrow> 'a::len word fletcher_ctx \<Rightarrow> 'c::len word \<times> 'a word fletcher_ctx" where
  "fl_get_checksum w ctx =
     (let ctx = ctx\<lparr>fl_sum1 := fl_sum1 ctx mod fl_modulus w\<rparr>;
          ctx = ctx\<lparr>fl_sum2 := fl_sum2 ctx mod fl_modulus w\<rparr>;
          ctx = ctx\<lparr>fl_cnt := 0\<rparr>
      in (ucast (fl_sum1 ctx OR push_bit LENGTH('w) (fl_sum2 ctx)), ctx))"

text \<open>\<open>memcpy\<close> of some bytes into a zeroed word.\<close>

fun load_bytes :: "8 word list \<Rightarrow> 'w::len word" where
  "load_bytes [] = 0"
| "load_bytes (b # bs) = ucast b OR push_bit 8 (load_bytes bs)"

fun fl_words :: "'w::len itself \<Rightarrow> nat \<Rightarrow> 'a::len word fletcher_ctx \<Rightarrow> 8 word list \<Rightarrow> 'a word fletcher_ctx \<times> 8 word list" where
  "fl_words w 0 ctx buff = (ctx, buff)"
| "fl_words w (Suc n) ctx buff =
     fl_words w n (fl_add ctx (load_bytes (take (word_size w) buff) :: 'w word)) (drop (word_size w) buff)"

definition fl_main :: "'w::len itself \<Rightarrow> 'a::len word fletcher_ctx \<Rightarrow> 8 word list \<Rightarrow> 'a word fletcher_ctx" where
  "fl_main w ctx buff =
     (let nwords = length buff div word_size w;
          (ctx, buff) = fl_words w nwords ctx buff
      in if buff = [] then ctx
         else let ctx = fl_add ctx (load_bytes buff :: 'w word) in
              ctx\<lparr>fl_joint := buff @ drop (length buff) (fl_joint ctx), fl_deficit := word_size w - length buff\<rparr>)"

definition fl_update :: "'w::len itself \<Rightarrow> 'a::len word fletcher_ctx \<Rightarrow> 8 word list \<Rightarrow> 'a word fletcher_ctx" where
  "fl_update w ctx buff =
     (if fl_deficit ctx > 0 \<and> length buff > 0 then
        let l = word_size w - min (word_size w) (fl_deficit ctx) in
        if length buff < fl_deficit ctx then
          let oldval = load_bytes (take l (fl_joint ctx)) :: 'w word;
              ctx = ctx\<lparr>fl_joint := take l (fl_joint ctx) @ buff @ drop (l + length buff) (fl_joint ctx)\<rparr>;
              ctx = ctx\<lparr>fl_deficit := fl_deficit ctx - length buff\<rparr>;
              newval = load_bytes (take (word_size w - fl_deficit ctx) (fl_joint ctx)) :: 'w word
          in fl_add (fl_subtract ctx oldval) newval
        else
          let oldval = load_bytes (take l (fl_joint ctx)) :: 'w word;
              ctx = ctx\<lparr>fl_joint := take l (fl_joint ctx) @ take (fl_deficit ctx) buff @ drop (l + fl_deficit ctx) (fl_joint ctx)\<rparr>;
              newval = load_bytes (take (word_size w) (fl_joint ctx)) :: 'w word;
              ctx = fl_add (fl_subtract ctx oldval) newval;
              buff = drop (fl_deficit ctx) buff;
              ctx = ctx\<lparr>fl_deficit := 0\<rparr>
          in if buff = [] then ctx else fl_main w ctx buff
      else fl_main w ctx buff)"

text \<open>The three instances, for data that is available upfront.\<close>

definition fletcher16 :: "8 word list \<Rightarrow> 8 word list \<Rightarrow> 16 word" where
  "fletcher16 garbage data = fst (fl_get_checksum TYPE(8) (fl_update TYPE(8) (fletcher_new garbage :: 32 word fletcher_ctx) data))"

definition fletcher32 :: "8 word list \<Rightarrow> 8 word list \<Rightarrow> 32 word" where
  "fletcher32 garbage data = fst (fl_get_checksum TYPE(16) (fl_update TYPE(16) (fletcher_new garbage :: 64 word fletcher_ctx) data))"

definition fletcher64 :: "8 word list \<Rightarrow> 8 word list \<Rightarrow> 64 word" where
  "fletcher64 garbage data = fst (fl_get_checksum TYPE(32) (fl_update TYPE(32) (fletcher_new garbage :: 64 word fletcher_ctx) data))"

section \<open>The limit on the additions\<close>

lemma math_sqrt_unique:
  fixes x :: "'a::len word"
  assumes "4 < LENGTH('a)" "n ^ 2 \<le> unat x" "unat x < (n + 1) ^ 2"
  shows "math_sqrt x = Some (word_of_nat n)"
proof -
  obtain v where v: "math_sqrt x = Some v" "unat v ^ 2 \<le> unat x" "unat x < (unat v + 1) ^ 2"
    using math_sqrt_ok [OF assms(1), of x] by blast
  then have "unat v < n + 1" "n < unat v + 1"
    using assms(2,3) by (meson le_less_trans power_less_imp_less_base zero_le)+
  then have "n = unat v" by simp
  then show ?thesis using v(1) by simp
qed

lemma fl_MAX_ADD_values:
  "fl_MAX_ADD TYPE(8) = (5803 :: 32 word)"
  "fl_MAX_ADD TYPE(16) = (23726747 :: 64 word)"
  "fl_MAX_ADD TYPE(32) = (92681 :: 64 word)"
  unfolding fl_MAX_ADD_def find_max_num_additions_without_overflow_def Let_def
proof -
  have "push_bit 1 (NOT 0 div ucast (NOT 0 :: 8 word)) = (33686018 :: 32 word)" by code_simp
  then show "the (math_sqrt (push_bit 1 (NOT 0 div ucast (NOT 0 :: 8 word)))) = (5803 :: 32 word)"
    using math_sqrt_unique [of 5803 "33686018 :: 32 word"] by (simp del: push_bit_Suc)
  have "push_bit 1 (NOT 0 div ucast (NOT 0 :: 16 word)) = (562958543486978 :: 64 word)" by code_simp
  then show "the (math_sqrt (push_bit 1 (NOT 0 div ucast (NOT 0 :: 16 word)))) = (23726747 :: 64 word)"
    using math_sqrt_unique [of 23726747 "562958543486978 :: 64 word"] by (simp del: push_bit_Suc)
  have "push_bit 1 (NOT 0 div ucast (NOT 0 :: 32 word)) = (8589934594 :: 64 word)" by code_simp
  then show "the (math_sqrt (push_bit 1 (NOT 0 div ucast (NOT 0 :: 32 word)))) = (92681 :: 64 word)"
    using math_sqrt_unique [of 92681 "8589934594 :: 64 word"] by (simp del: push_bit_Suc)
qed

end
