(* ===== verification/Fletcher_Correct.thy ===== *)
theory Fletcher_Correct
  imports Fletcher
begin

text \<open>
  The Fletcher sums of the words of the data, least significant byte first and the last word filled up with zeros, and
  the proof that the code computes them, for any way of cutting the data into pieces, as long as the second sum cannot
  wrap between two reductions. The limit the code computes does not ensure that for words of the greatest value: a message
  is given for which it does wrap.
\<close>

section \<open>The reference\<close>

fun le_num :: "8 word list \<Rightarrow> nat" where
  "le_num [] = 0"
| "le_num (b # bs) = unat b + 256 * le_num bs"

function word_nums :: "nat \<Rightarrow> 8 word list \<Rightarrow> nat list" where
  "word_nums n bs = (if n = 0 \<or> bs = [] then [] else le_num (take n bs) # word_nums n (drop n bs))"
  by pat_completeness auto
termination
  by (relation "measure (\<lambda>(n, bs). length bs)") auto

declare word_nums.simps [simp del]

definition sum_A :: "nat list \<Rightarrow> nat" where
  "sum_A ws = sum_list ws"

definition sum_B :: "nat list \<Rightarrow> nat" where
  "sum_B ws = (\<Sum>k\<leftarrow>[1..<length ws + 1]. sum_list (take k ws))"

lemma sum_A_snoc: "sum_A (ws @ [v]) = sum_A ws + v"
  by (simp add: sum_A_def)

lemma sum_B_snoc: "sum_B (ws @ [v]) = sum_B ws + sum_A ws + v"
proof -
  have "map (\<lambda>k. sum_list (take k (ws @ [v]))) [1..<length ws + 1] = map (\<lambda>k. sum_list (take k ws)) [1..<length ws + 1]"
    by (rule map_cong) auto
  moreover have "[1..<length (ws @ [v]) + 1] = [1..<length ws + 1] @ [length ws + 1]" by simp
  ultimately have "sum_B (ws @ [v]) = (\<Sum>k\<leftarrow>[1..<length ws + 1]. sum_list (take k ws)) + sum_list (take (length ws + 1) (ws @ [v]))"
    unfolding sum_B_def by (simp only: map_append sum_list_append) simp
  then show ?thesis by (simp add: sum_B_def sum_A_def)
qed

section \<open>Words and bytes\<close>

lemma word_nums_Nil [simp]: "word_nums n [] = []"
  by (simp add: word_nums.simps)

lemma word_nums_short: "0 < n \<Longrightarrow> bs \<noteq> [] \<Longrightarrow> length bs \<le> n \<Longrightarrow> word_nums n bs = [le_num bs]"
  by (subst word_nums.simps) simp

lemma word_nums_step: "0 < n \<Longrightarrow> n \<le> length bs \<Longrightarrow> word_nums n bs = le_num (take n bs) # word_nums n (drop n bs)"
  by (subst word_nums.simps) auto

lemma word_nums_append: "n dvd length xs \<Longrightarrow> word_nums n (xs @ ys) = word_nums n xs @ word_nums n ys"
proof (induction n xs rule: word_nums.induct)
  case (1 n xs)
  show ?case
  proof (cases "n = 0 \<or> xs = []")
    case False
    then have "n \<le> length xs" using 1(2) by (simp add: dvd_imp_le)
    then show ?thesis using 1 False word_nums_step [of n "xs @ ys"] word_nums_step [of n xs] by (simp add: dvd_minus_self)
  next
    case True
    then have "xs = []" using 1(2) by auto
    then show ?thesis by simp
  qed
qed

lemma le_num_less: "le_num bs < 2 ^ (8 * length bs)"
proof (induction bs)
  case (Cons b bs)
  have "unat b < 256" using unsigned_less [of b, where ?'a = nat] by simp
  then have "le_num (b # bs) < 256 * (le_num bs + 1)" by simp
  also have "\<dots> \<le> 256 * 2 ^ (8 * length bs)" using Cons by (intro mult_left_mono) auto
  finally show ?case by (simp add: power_add)
qed simp

lemma unat_load_bytes:
  "8 * length bs \<le> LENGTH('w) \<Longrightarrow> unat (load_bytes bs :: 'w::len word) = le_num bs"
proof (induction bs)
  case (Cons b bs)
  let ?x = "load_bytes bs :: 'w word"
  have x: "unat ?x = le_num bs" using Cons by simp
  have "(2 :: nat) ^ (8 * length bs + 8) \<le> 2 ^ LENGTH('w)" using Cons.prems by (intro power_increasing) simp_all
  moreover have "le_num bs < 2 ^ (8 * length bs)" by (rule le_num_less)
  ultimately have fit: "le_num bs * 256 < 2 ^ LENGTH('w)" by (simp add: power_add)
  have p: "unat (push_bit 8 ?x) = 256 * le_num bs"
    using fit by (simp add: unsigned_push_bit_eq x push_bit_eq_mult [where ?'a = nat] take_bit_nat_eq_self mult.commute)
  have w: "8 \<le> LENGTH('w)" using Cons.prems by simp
  have "unat b < 2 ^ 8" using unsigned_less [of b, where ?'a = nat] by simp
  from less_le_trans [OF this power_increasing [OF w]] have "unat b < 2 ^ LENGTH('w)" by simp
  then have b: "unat (ucast b :: 'w word) = unat b" by (simp add: unsigned_ucast_eq take_bit_nat_eq_self)
  have "ucast b OR push_bit 8 ?x = ucast b + push_bit 8 ?x"
    by (rule disjunctive_add [symmetric]) (auto simp: bit_push_bit_iff bit_ucast_iff dest: bit_imp_le_length)
  moreover have "unat b + 256 * le_num bs < 2 ^ LENGTH('w)"
    using less_le_trans [OF le_num_less [of "b # bs"] power_increasing [OF Cons.prems]] by simp
  ultimately show ?case by (simp add: unat_add_lem [THEN iffD1] b p)
qed simp

section \<open>One addition\<close>

text \<open>Bounds on the sums after \<open>k\<close> additions of values of at most \<open>V\<close> to sums of at most the modulus.\<close>

definition bound1 :: "nat \<Rightarrow> nat \<Rightarrow> nat \<Rightarrow> nat" where
  "bound1 M V k = M + k * V"

fun bound2 :: "nat \<Rightarrow> nat \<Rightarrow> nat \<Rightarrow> nat" where
  "bound2 M V 0 = M"
| "bound2 M V (Suc k) = bound2 M V k + bound1 M V (Suc k)"

lemma bound2_value: "2 * bound2 M V k = 2 * M * (k + 1) + V * k * (k + 1)"
  by (induction k) (simp_all add: bound1_def algebra_simps)

lemma bound_mono: "k \<le> n \<Longrightarrow> bound2 M V k \<le> bound2 M V n"
  by (rule lift_Suc_mono_le [of "bound2 M V"]) simp_all

lemma bound1_le_2: "bound1 M V k \<le> bound2 M V k"
  by (cases k) (simp_all add: bound1_def)

lemma bound_least: "M \<le> bound1 M V k" "M \<le> bound2 M V k"
  using bound1_le_2 [of M V k] by (simp_all add: bound1_def)

definition fl_M :: "'w::len itself \<Rightarrow> nat" where
  "fl_M w = 2 ^ LENGTH('w) - 1"

lemma unat_fl_modulus:
  assumes "LENGTH('w::len) \<le> LENGTH('a::len)"
  shows "unat (fl_modulus TYPE('w) :: 'a word) = fl_M TYPE('w)"
proof -
  have "fl_M TYPE('w) < 2 ^ LENGTH('a)"
    using power_increasing [OF assms, of "2 :: nat"] zero_less_power [of "2 :: nat" "LENGTH('w)"] unfolding fl_M_def by linarith
  moreover have "unat (NOT 0 :: 'w word) = fl_M TYPE('w)" by (simp add: unsigned_minus_1_eq_mask mask_eq_exp_minus_1 fl_M_def)
  ultimately show ?thesis by (simp only: fl_modulus_def unsigned_ucast_eq take_bit_nat_eq_self)
qed

lemma word_le_M: "unat (v :: 'w::len word) \<le> fl_M TYPE('w)"
  using unsigned_less [of v, where ?'a = nat] unfolding fl_M_def by linarith

lemma fl_M_pos: "0 < fl_M TYPE('w::len)"
proof -
  have "(2 :: nat) ^ 1 \<le> 2 ^ LENGTH('w)" by (intro power_increasing) (simp_all add: Suc_le_eq)
  then show ?thesis by (simp add: fl_M_def)
qed

text \<open>The number of additions after which the code reduces the sums.\<close>

definition fl_limit :: "'w::len itself \<Rightarrow> 'a::len itself \<Rightarrow> nat" where
  "fl_limit w a = unat (fl_MAX_ADD w :: 'a word)"

definition limit_ok :: "'w::len itself \<Rightarrow> 'a::len itself \<Rightarrow> bool" where
  "limit_ok w a \<longleftrightarrow> 0 < fl_limit w a \<and> fl_limit w a < 2 ^ 32"

text \<open>The sums of the words \<open>ws\<close>, modulo the modulus, with the bounds that the counter gives; at most \<open>n\<close> additions were made.\<close>

definition sums_ok :: "'w::len itself \<Rightarrow> nat \<Rightarrow> 'a::len word fletcher_ctx \<Rightarrow> nat list \<Rightarrow> nat \<Rightarrow> bool" where
  "sums_ok w V ctx ws n \<longleftrightarrow> unat (fl_sum1 ctx) mod fl_M w = sum_A ws mod fl_M w \<and> unat (fl_sum2 ctx) mod fl_M w = sum_B ws mod fl_M w \<and>
     unat (fl_cnt ctx) \<le> min (fl_limit w TYPE('a)) n \<and>
     unat (fl_sum1 ctx) \<le> bound1 (fl_M w) V (unat (fl_cnt ctx)) \<and> unat (fl_sum2 ctx) \<le> bound2 (fl_M w) V (unat (fl_cnt ctx))"

lemma sums_ok_mono: "sums_ok w V ctx ws k \<Longrightarrow> k \<le> n \<Longrightarrow> sums_ok w V ctx ws n"
  unfolding sums_ok_def by linarith

text \<open>Before an addition the sums are reduced when the counter has reached the limit.\<close>

lemma fl_reduced:
  fixes ctx :: "'a::len word fletcher_ctx"
  assumes "LENGTH('w::len) \<le> LENGTH('a)" "limit_ok TYPE('w) TYPE('a)" "sums_ok TYPE('w) V ctx ws n"
  shows "\<exists>c. c = (if ucast (fl_cnt ctx) = (fl_MAX_ADD TYPE('w) :: 'a word)
       then ctx\<lparr>fl_sum1 := fl_sum1 ctx mod fl_modulus TYPE('w), fl_sum2 := fl_sum2 ctx mod fl_modulus TYPE('w), fl_cnt := 0\<rparr> else ctx) \<and>
     sums_ok TYPE('w) V c ws n \<and> unat (fl_cnt c) < fl_limit TYPE('w) TYPE('a) \<and> fl_joint c = fl_joint ctx \<and> fl_deficit c = fl_deficit ctx"
proof -
  let ?M = "fl_M TYPE('w)" and ?L = "fl_limit TYPE('w) TYPE('a)"
  have "unat (fl_cnt ctx) < 2 ^ LENGTH('a)"
    using assms(3) unsigned_less [of "fl_MAX_ADD TYPE('w) :: 'a word", where ?'a = nat] unfolding sums_ok_def fl_limit_def by linarith
  then have "unat (ucast (fl_cnt ctx) :: 'a word) = unat (fl_cnt ctx)" by (simp add: unsigned_ucast_eq take_bit_nat_eq_self)
  then have full: "ucast (fl_cnt ctx) = (fl_MAX_ADD TYPE('w) :: 'a word) \<longleftrightarrow> unat (fl_cnt ctx) = ?L"
    unfolding fl_limit_def by (metis unsigned_word_eqI)
  have less: "x mod ?M \<le> ?M" for x using mod_less_divisor [OF fl_M_pos [where ?'w = 'w], of x] by (rule less_imp_le)
  show ?thesis
  proof (cases "unat (fl_cnt ctx) = ?L")
    case True
    then show ?thesis
      using assms(2,3) less by (simp add: full limit_ok_def sums_ok_def bound1_def unat_mod_distrib unat_fl_modulus [OF assms(1)])
  next
    case False
    then have "unat (fl_cnt ctx) < ?L" using assms(3) unfolding sums_ok_def by linarith
    then show ?thesis using False assms(3) by (simp add: full)
  qed
qed

definition fl_fits :: "'w::len itself \<Rightarrow> 'a::len itself \<Rightarrow> nat \<Rightarrow> nat \<Rightarrow> bool" where
  "fl_fits w a V n \<longleftrightarrow> limit_ok w a \<and> bound2 (fl_M w) V (min (fl_limit w a) n) < 2 ^ LENGTH('a)"

lemma fl_fits_mono: "fl_fits w a V n \<Longrightarrow> k \<le> n \<Longrightarrow> fl_fits w a V k"
proof -
  assume "fl_fits w a V n" "k \<le> n"
  moreover from this(2) have "min (fl_limit w a) k \<le> min (fl_limit w a) n" by (rule min.mono [OF order_refl])
  ultimately show ?thesis using bound_mono [of "min (fl_limit w a) k" "min (fl_limit w a) n" "fl_M w" V] by (simp add: fl_fits_def)
qed

lemma fl_add_ok:
  fixes ctx :: "'a::len word fletcher_ctx" and val :: "'w::len word"
  assumes "LENGTH('w) \<le> LENGTH('a)" and s: "sums_ok TYPE('w) V ctx ws n" and val: "unat val \<le> V"
    and fits: "fl_fits TYPE('w) TYPE('a) V (Suc n)"
  shows "sums_ok TYPE('w) V (fl_add ctx val) (ws @ [unat val]) (Suc n)" "fl_joint (fl_add ctx val) = fl_joint ctx"
    "fl_deficit (fl_add ctx val) = fl_deficit ctx"
proof -
  let ?M = "fl_M TYPE('w)" and ?L = "fl_limit TYPE('w) TYPE('a)"
  have w: "LENGTH('w) \<le> LENGTH('a)" "limit_ok TYPE('w) TYPE('a)" using assms(1) fits by (simp_all add: fl_fits_def)
  have fit: "bound2 ?M V (min ?L (Suc n)) < 2 ^ LENGTH('a)" using fits by (simp add: fl_fits_def)
  obtain c where c: "c = (if ucast (fl_cnt ctx) = (fl_MAX_ADD TYPE('w) :: 'a word)
       then ctx\<lparr>fl_sum1 := fl_sum1 ctx mod fl_modulus TYPE('w), fl_sum2 := fl_sum2 ctx mod fl_modulus TYPE('w), fl_cnt := 0\<rparr> else ctx)"
    "sums_ok TYPE('w) V c ws n" "unat (fl_cnt c) < ?L" "fl_joint c = fl_joint ctx" "fl_deficit c = fl_deficit ctx"
    using fl_reduced [OF w s] by blast
  define k where "k = unat (fl_cnt c)"
  have k: "Suc k \<le> min ?L (Suc n)" "unat (fl_cnt c + 1) = Suc k"
  proof -
    show "Suc k \<le> min ?L (Suc n)" using c(2,3) unfolding sums_ok_def k_def by linarith
    have "unat (fl_cnt c) + unat (1 :: 32 word) < 2 ^ LENGTH(32)" using c(3) w(2) by (simp add: limit_ok_def)
    then show "unat (fl_cnt c + 1) = Suc k" by (simp add: unat_add_lem [THEN iffD1] k_def)
  qed
  have fits: "bound2 ?M V (Suc k) < 2 ^ LENGTH('a)" using bound_mono [OF k(1), of ?M V] fit by linarith
  have sums: "unat (fl_sum1 c) \<le> bound1 ?M V k" "unat (fl_sum2 c) \<le> bound2 ?M V k" using c(2) by (simp_all add: sums_ok_def k_def)
  have "unat val < 2 ^ LENGTH('a)"
    using less_le_trans [OF unsigned_less [of val] power_increasing [OF w(1)]] by simp
  then have v: "unat (ucast val :: 'a word) = unat val" by (simp add: unsigned_ucast_eq take_bit_nat_eq_self)
  have b1: "unat (fl_sum1 c) + unat val \<le> bound1 ?M V (Suc k)"
    using sums(1) val by (simp add: bound1_def)
  then have one: "unat (fl_sum1 c + ucast val) = unat (fl_sum1 c) + unat val"
    using fits bound1_le_2 [of ?M V "Suc k"] by (subst unat_add_lem [THEN iffD1]) (simp_all only: v)
  have b2: "unat (fl_sum2 c) + unat (fl_sum1 c + ucast val) \<le> bound2 ?M V (Suc k)" using sums(2) b1 one by simp
  then have two: "unat (fl_sum2 c + (fl_sum1 c + ucast val)) = unat (fl_sum2 c) + (unat (fl_sum1 c) + unat val)"
    using fits by (subst unat_add_lem [THEN iffD1]) (simp_all only: one)
  have m1: "(unat (fl_sum1 c) + unat val) mod ?M = (sum_A ws + unat val) mod ?M"
    using c(2) by (metis mod_add_left_eq sums_ok_def)
  then have m2: "(unat (fl_sum2 c) + (unat (fl_sum1 c) + unat val)) mod ?M = (sum_B ws + (sum_A ws + unat val)) mod ?M"
    using c(2) by (metis mod_add_eq sums_ok_def)
  have f: "fl_add ctx val = c\<lparr>fl_sum1 := fl_sum1 c + ucast val, fl_sum2 := fl_sum2 c + (fl_sum1 c + ucast val), fl_cnt := fl_cnt c + 1\<rparr>"
    by (simp add: fl_add_def c(1) [symmetric] Let_def)
  show "sums_ok TYPE('w) V (fl_add ctx val) (ws @ [unat val]) (Suc n)"
    using b1 b2 m1 m2 k one two by (simp add: f sums_ok_def sum_A_snoc sum_B_snoc add.assoc)
  show "fl_joint (fl_add ctx val) = fl_joint ctx" "fl_deficit (fl_add ctx val) = fl_deficit ctx" by (simp_all add: f c(4,5))
qed

lemma fl_reduce_ok: "unat (fl_reduce M s) = unat s mod unat M" if "0 < unat (M :: 'a::len word)" "2 * unat M < 2 ^ LENGTH('a)"
proof -
  have d: "unat (push_bit 1 M) = 2 * unat M"
    using that(2) by (simp add: unsigned_push_bit_eq push_bit_eq_mult [where ?'a = nat] take_bit_nat_eq_self mult.commute del: push_bit_Suc)
  consider "unat s < unat M" | "unat M \<le> unat s" "unat s < 2 * unat M" | "2 * unat M \<le> unat s" by linarith
  then show ?thesis
  proof cases
    case 2
    then have "unat (s - M) = unat s - unat M" by (simp add: unat_sub word_le_nat_alt)
    then show ?thesis using 2 d by (simp add: fl_reduce_def word_le_nat_alt word_less_nat_alt mod_if del: push_bit_Suc)
  qed (use that d in \<open>simp_all add: fl_reduce_def word_le_nat_alt word_less_nat_alt unat_mod_distrib del: push_bit_Suc\<close>)
qed

section \<open>Taking an addition back\<close>

lemma fl_difference:
  fixes M :: "'a::len word"
  assumes "2 * unat M < 2 ^ LENGTH('a)" "unat s < unat M" "unat t \<le> unat M"
  shows "unat (let d = s + M - t in if d \<ge> M then d - M else d) = (if unat t \<le> unat s then unat s - unat t else unat s + unat M - unat t)"
proof -
  have a: "unat (s + M) = unat s + unat M" using assms by (simp add: unat_add_lem [THEN iffD1])
  then have d: "unat (s + M - t) = unat s + unat M - unat t" using assms(3) by (simp add: unat_sub word_le_nat_alt)
  show ?thesis using assms d by (auto simp: Let_def word_le_nat_alt unat_sub)
qed

lemma fl_differences:
  fixes M :: "'a::len word"
  assumes "2 * unat M < 2 ^ LENGTH('a)" "unat s < unat M" "unat t \<le> unat M"
  shows "unat (if s \<ge> t then s - t else let d = s + M - t in if d \<ge> M then d - M else d) =
      (if unat t \<le> unat s then unat s - unat t else unat s + unat M - unat t)"
    and "unat (if s > t then s - t else let d = s + M - t in if d \<ge> M then d - M else d) =
      (if unat t \<le> unat s then unat s - unat t else unat s + unat M - unat t)"
proof -
  note d = fl_difference [OF assms]
  show "unat (if s \<ge> t then s - t else let d = s + M - t in if d \<ge> M then d - M else d) =
      (if unat t \<le> unat s then unat s - unat t else unat s + unat M - unat t)"
  proof (cases "s \<ge> t")
    case True
    then show ?thesis using unat_sub [OF True] unfolding word_le_nat_alt by simp
  next
    case False
    then show ?thesis using d by (simp only: if_False)
  qed
  show "unat (if s > t then s - t else let d = s + M - t in if d \<ge> M then d - M else d) =
      (if unat t \<le> unat s then unat s - unat t else unat s + unat M - unat t)"
  proof (cases "s > t")
    case True
    then have "t \<le> s" by simp
    then show ?thesis using True unat_sub [OF \<open>t \<le> s\<close>] unfolding word_le_nat_alt by simp
  next
    case False
    then show ?thesis using d by (simp only: if_False)
  qed
qed

lemma mod_difference:
  assumes "(a :: nat) < m" "b < m" "a mod m = (x + b) mod m"
  shows "(if b \<le> a then a - b else a + m - b) = x mod m"
proof -
  define r where "r = x mod m"
  have r: "(r + b) mod m = a" "r < m" using assms by (simp_all add: r_def mod_add_left_eq)
  show ?thesis
  proof (cases "r + b < m")
    case True
    then have "a = r + b" using r(1) by simp
    then show ?thesis by (simp add: r_def)
  next
    case False
    then have "(r + b) mod m = r + b - m" using r(2) assms(2) by (simp add: mod_if)
    then have "a = r + b - m" using r(1) by simp
    then show ?thesis using False r(2) assms(2) unfolding r_def [symmetric] by auto
  qed
qed

lemma fl_subtract_ok:
  fixes ctx :: "'a::len word fletcher_ctx" and val :: "'w::len word"
  assumes w: "LENGTH('w) < LENGTH('a)" and "sums_ok TYPE('w) V ctx (ws @ [unat val]) k" "unat val < fl_M TYPE('w)"
  shows "sums_ok TYPE('w) V (fl_subtract ctx val) ws n" "fl_joint (fl_subtract ctx val) = fl_joint ctx"
    "fl_deficit (fl_subtract ctx val) = fl_deficit ctx"
proof -
  let ?M = "fl_M TYPE('w)" and ?MM = "fl_modulus TYPE('w) :: 'a word"
  have M: "unat ?MM = ?M" using w by (simp add: unat_fl_modulus)
  have "(2 :: nat) ^ Suc LENGTH('w) \<le> 2 ^ LENGTH('a)" using w by (intro power_increasing) simp_all
  moreover have "2 * ?M < 2 ^ Suc LENGTH('w)" by (simp add: fl_M_def)
  ultimately have fit: "2 * unat ?MM < 2 ^ LENGTH('a)" unfolding M by linarith
  have pos: "0 < ?M" using assms(3) by simp
  let ?s1 = "fl_reduce ?MM (fl_sum1 ctx)" and ?s2 = "fl_reduce ?MM (fl_sum2 ctx)"
  have red: "unat (fl_reduce ?MM x) = unat x mod ?M" for x using fl_reduce_ok [OF _ fit, of x] pos unfolding M by simp
  have s: "unat ?s1 = (sum_A ws + unat val) mod ?M" "unat ?s2 = (sum_B ws + sum_A ws + unat val) mod ?M"
    using assms(2) unfolding red by (simp_all add: sums_ok_def sum_A_snoc sum_B_snoc)
  then have less: "unat ?s1 < ?M" "unat ?s2 < ?M" using pos by simp_all
  have "unat val < 2 ^ LENGTH('a)" using w assms(3) fit unfolding M by linarith
  then have v: "unat (ucast val :: 'a word) = unat val" by (simp add: unsigned_ucast_eq take_bit_nat_eq_self)
  define t2 where "t2 = (if ?s2 \<ge> ?s1 then ?s2 - ?s1 else let d = ?s2 + ?MM - ?s1 in if d \<ge> ?MM then d - ?MM else d)"
  define t1 where "t1 = (if ?s1 > ucast val then ?s1 - ucast val else let d = ?s1 + ?MM - ucast val in if d \<ge> ?MM then d - ?MM else d)"
  have t2: "unat t2 = (if unat ?s1 \<le> unat ?s2 then unat ?s2 - unat ?s1 else unat ?s2 + ?M - unat ?s1)"
    unfolding t2_def M [symmetric] using less M by (intro fl_differences(1) [OF fit]) simp_all
  have t1: "unat t1 = (if unat val \<le> unat ?s1 then unat ?s1 - unat val else unat ?s1 + ?M - unat val)"
    unfolding t1_def M [symmetric] v [symmetric] using less M assms(3) v by (intro fl_differences(2) [OF fit]) simp_all
  have "unat ?s2 mod ?M = (sum_B ws + unat ?s1) mod ?M" using s by (simp add: mod_add_right_eq add.assoc)
  then have "unat t2 = sum_B ws mod ?M" unfolding t2 by (rule mod_difference [OF less(2,1)])
  moreover have "unat ?s1 mod ?M = (sum_A ws + unat val) mod ?M" using s by simp
  then have "unat t1 = sum_A ws mod ?M" unfolding t1 by (rule mod_difference [OF less(1) assms(3)])
  moreover have f: "fl_subtract ctx val = ctx\<lparr>fl_cnt := 0, fl_sum1 := t1, fl_sum2 := t2\<rparr>"
    by (simp add: fl_subtract_def Let_def t1_def t2_def)
  moreover have "sum_A ws mod ?M \<le> ?M" "sum_B ws mod ?M \<le> ?M"
    using mod_less_divisor [OF pos, of "sum_A ws"] mod_less_divisor [OF pos, of "sum_B ws"] by linarith+
  ultimately show "sums_ok TYPE('w) V (fl_subtract ctx val) ws n" by (simp add: sums_ok_def bound1_def)
  show "fl_joint (fl_subtract ctx val) = fl_joint ctx" "fl_deficit (fl_subtract ctx val) = fl_deficit ctx" by (simp_all add: f)
qed

section \<open>Feeding the data\<close>

text \<open>A context that has consumed the bytes \<open>bs\<close>.\<close>

definition fl_ok :: "'w::len itself \<Rightarrow> nat \<Rightarrow> 'a::len word fletcher_ctx \<Rightarrow> 8 word list \<Rightarrow> bool" where
  "fl_ok w V ctx bs \<longleftrightarrow> sums_ok w V ctx (word_nums (word_size w) bs) (length bs) \<and> length (fl_joint ctx) = word_size w \<and>
     fl_deficit ctx = (if word_size w dvd length bs then 0 else word_size w - length bs mod word_size w) \<and>
     take (length bs mod word_size w) (fl_joint ctx) = drop (length bs - length bs mod word_size w) bs"

text \<open>What the data must satisfy: words of at most \<open>V\<close>, and room for the sums of so many of them.\<close>

definition words_le :: "nat \<Rightarrow> nat \<Rightarrow> 8 word list \<Rightarrow> bool" where
  "words_le sz V bs \<longleftrightarrow> (\<forall>v\<in>set (word_nums sz bs). v \<le> V)"

lemma le_num_append: "le_num xs \<le> le_num (xs @ ys)"
  by (induction xs) auto

lemma words_le_prefix: "words_le sz V (xs @ ys) \<Longrightarrow> words_le sz V xs"
proof (induction sz xs arbitrary: ys rule: word_nums.induct)
  case (1 sz xs)
  show ?case
  proof (cases "sz = 0 \<or> xs = []")
    case True
    then show ?thesis by (auto simp: words_le_def word_nums.simps)
  next
    case False
    then have e: "word_nums sz (xs @ ys) = le_num (take sz xs @ take (sz - length xs) ys) # word_nums sz (drop sz xs @ drop (sz - length xs) ys)"
      "word_nums sz xs = le_num (take sz xs) # word_nums sz (drop sz xs)"
      by (subst word_nums.simps, simp)+
    have "words_le sz V (drop sz xs @ drop (sz - length xs) ys)" using 1(2) unfolding words_le_def e by simp
    then have "words_le sz V (drop sz xs)" by (rule 1(1) [OF False])
    moreover have "le_num (take sz xs) \<le> V" using 1(2) le_num_append le_trans unfolding words_le_def e by (metis list.set_intros(1))
    ultimately show ?thesis unfolding words_le_def e by simp
  qed
qed

lemma word_size_pos: "LENGTH('w::len) mod 8 = 0 \<Longrightarrow> 0 < word_size TYPE('w)" "LENGTH('w::len) mod 8 = 0 \<Longrightarrow> 8 * word_size TYPE('w) = LENGTH('w)"
  unfolding word_size_def using len_gt_0 [where ?'a = 'w] by presburger+

lemma fl_words_ok:
  fixes ctx :: "'a::len word fletcher_ctx"
  assumes w: "LENGTH('w::len) mod 8 = 0" "LENGTH('w) \<le> LENGTH('a)"
  shows "n * word_size TYPE('w) \<le> length buff \<Longrightarrow> word_size TYPE('w) dvd length bs \<Longrightarrow>
    sums_ok TYPE('w) V ctx (word_nums (word_size TYPE('w)) bs) (length bs) \<Longrightarrow>
    words_le (word_size TYPE('w)) V (bs @ take (n * word_size TYPE('w)) buff) \<Longrightarrow>
    fl_fits TYPE('w) TYPE('a) V (length bs + n * word_size TYPE('w)) \<Longrightarrow>
    \<exists>ctx'. fl_words TYPE('w) n ctx buff = (ctx', drop (n * word_size TYPE('w)) buff) \<and>
      sums_ok TYPE('w) V ctx' (word_nums (word_size TYPE('w)) (bs @ take (n * word_size TYPE('w)) buff)) (length bs + n * word_size TYPE('w)) \<and>
      fl_joint ctx' = fl_joint ctx \<and> fl_deficit ctx' = fl_deficit ctx"
proof (induction n arbitrary: ctx buff bs)
  case (Suc n)
  let ?sz = "word_size TYPE('w)" and ?M = "fl_M TYPE('w)"
  let ?v = "load_bytes (take ?sz buff) :: 'w word" and ?bs = "bs @ take ?sz buff"
  note sz = word_size_pos [OF w(1)]
  have len: "length (take ?sz buff) = ?sz" using Suc.prems(1) by simp
  have v: "unat ?v = le_num (take ?sz buff)" using sz(2) len by (intro unat_load_bytes) simp
  have nums: "word_nums ?sz ?bs = word_nums ?sz bs @ [unat ?v]"
    using word_nums_append [OF Suc.prems(2), of "take ?sz buff"] word_nums_short [OF sz(1), of "take ?sz buff"] sz(1) len v by fastforce
  have fit: "fl_fits TYPE('w) TYPE('a) V (Suc (length bs))" by (rule fl_fits_mono [OF Suc.prems(5)]) (use sz(1) in simp)
  have t: "bs @ take (Suc n * ?sz) buff = ?bs @ take (n * ?sz) (drop ?sz buff)" by (simp add: take_add)
  have "words_le ?sz V ?bs" using Suc.prems(4) unfolding t by (rule words_le_prefix)
  then have "unat ?v \<le> V" unfolding words_le_def nums by simp
  note add = fl_add_ok [OF w(2) Suc.prems(3) this fit]
  have s: "sums_ok TYPE('w) V (fl_add ctx ?v) (word_nums ?sz ?bs) (length ?bs)"
    unfolding nums by (rule sums_ok_mono [OF add(1)]) (use sz(1) len in simp)
  have e: "length ?bs + n * ?sz = length bs + Suc n * ?sz" using len by simp
  have "n * ?sz \<le> length (drop ?sz buff)" "?sz dvd length ?bs" using Suc.prems(1,2) len by auto
  from Suc.IH [OF this s Suc.prems(4) [unfolded t], unfolded e, OF Suc.prems(5)]
  show ?case using add(2,3) by (auto simp: take_add add.commute)
qed simp

lemma fl_main_ok:
  fixes ctx :: "'a::len word fletcher_ctx"
  assumes w: "LENGTH('w::len) mod 8 = 0" "LENGTH('w) < LENGTH('a)" and ok: "fl_ok TYPE('w) V ctx bs" "word_size TYPE('w) dvd length bs"
    and fit: "fl_fits TYPE('w) TYPE('a) V (length (bs @ buff))" and le: "words_le (word_size TYPE('w)) V (bs @ buff)"
  shows "fl_ok TYPE('w) V (fl_main TYPE('w) ctx buff) (bs @ buff)"
proof -
  let ?sz = "word_size TYPE('w)" and ?M = "fl_M TYPE('w)"
  let ?n = "length buff div ?sz" and ?r = "length buff mod ?sz"
  note sz = word_size_pos [OF w(1)]
  have n: "?n * ?sz \<le> length buff" "?r = length buff - ?n * ?sz" by (simp_all add: div_times_less_eq_dividend modulo_nat_def)
  let ?done = "bs @ take (?n * ?sz) buff" and ?rest = "drop (?n * ?sz) buff"
  have f: "fl_fits TYPE('w) TYPE('a) V (length bs + ?n * ?sz)" by (rule fl_fits_mono [OF fit]) (use n(1) in simp)
  have "bs @ buff = ?done @ ?rest" by simp
  then have "words_le ?sz V ?done" using le words_le_prefix by metis
  with f obtain c where c: "fl_words TYPE('w) ?n ctx buff = (c, ?rest)" "sums_ok TYPE('w) V c (word_nums ?sz ?done) (length bs + ?n * ?sz)"
      "fl_joint c = fl_joint ctx" "fl_deficit c = fl_deficit ctx"
    using fl_words_ok [OF w(1) less_imp_le [OF w(2)] n(1) ok(2) ok(1) [unfolded fl_ok_def, THEN conjunct1]] by blast
  have aligned: "?sz dvd length ?done" using ok(2) n(1) by simp
  have total: "length (bs @ buff) mod ?sz = ?r" using ok(2) by (auto elim!: dvdE)
  have dvd: "?sz dvd length (bs @ buff) \<longleftrightarrow> ?rest = []"
    unfolding dvd_eq_mod_eq_0 total using n by (simp only: drop_eq_Nil) linarith
  have rest: "length ?rest = ?r" "?r < ?sz" by (simp_all only: length_drop n(2) [symmetric] mod_less_divisor [OF sz(1)])
  show ?thesis
  proof (cases "?rest = []")
    case True
    then have "bs @ buff = ?done" "length bs + ?n * ?sz = length (bs @ buff)" "?r = 0" using n by auto
    then show ?thesis using c ok True dvd total by (simp add: fl_main_def fl_ok_def)
  next
    case False
    let ?v = "load_bytes ?rest :: 'w word"
    have v: "unat ?v = le_num ?rest" using sz(2) rest by (intro unat_load_bytes) simp
    have nums: "word_nums ?sz (bs @ buff) = word_nums ?sz ?done @ [unat ?v]"
      using word_nums_append [OF aligned, of ?rest] word_nums_short [OF sz(1) False] rest v by simp
    have f1: "fl_fits TYPE('w) TYPE('a) V (Suc (length bs + ?n * ?sz))" by (rule fl_fits_mono [OF fit]) (use n False in auto)
    have "unat ?v \<le> V" using le unfolding words_le_def nums by simp
    note add = fl_add_ok [OF less_imp_le [OF w(2)] c(2) this f1]
    have s: "sums_ok TYPE('w) V (fl_add c ?v) (word_nums ?sz (bs @ buff)) (length (bs @ buff))"
      unfolding nums by (rule sums_ok_mono [OF add(1)]) (use n False in auto)
    have m: "fl_main TYPE('w) ctx buff =
        (fl_add c ?v)\<lparr>fl_joint := ?rest @ drop ?r (fl_joint ctx), fl_deficit := ?sz - ?r\<rparr>"
      using False c(1) rest(1) add(2) c(3) by (simp add: fl_main_def Let_def)
    have "drop (length (bs @ buff) - ?r) (bs @ buff) = ?rest" using n by simp
    then show ?thesis using s False dvd total rest ok(1) unfolding fl_ok_def m by (simp add: sums_ok_def)
  qed
qed

lemma fl_keeps [simp]:
  "fl_joint (fl_add ctx v) = fl_joint ctx" "fl_deficit (fl_add ctx v) = fl_deficit ctx"
  "fl_joint (fl_subtract ctx v) = fl_joint ctx" "fl_deficit (fl_subtract ctx v) = fl_deficit ctx"
  by (simp_all add: fl_add_def fl_subtract_def Let_def)

lemma fl_update_complete:
  assumes "fl_deficit ctx = d" "0 < d" "d \<le> length buff" "word_size TYPE('w::len) - min (word_size TYPE('w)) d = r"
    and "take r (fl_joint ctx) = tr" "j = tr @ take d buff @ drop (r + d) (fl_joint ctx)" "take (word_size TYPE('w)) j = nw"
  shows "fl_update TYPE('w) ctx buff =
    (let c = (fl_add (fl_subtract (ctx\<lparr>fl_joint := j\<rparr>) (load_bytes tr :: 'w word)) (load_bytes nw :: 'w word))\<lparr>fl_deficit := 0\<rparr>
     in if drop d buff = [] then c else fl_main TYPE('w) c (drop d buff))"
proof -
  have "fl_deficit ctx > 0 \<and> length buff > 0" "\<not> length buff < fl_deficit ctx" using assms(1-3) by auto
  moreover have "fl_deficit (ctx\<lparr>fl_joint := j\<rparr>) = d" "fl_joint (ctx\<lparr>fl_joint := j\<rparr>) = j" using assms(1) by simp_all
  ultimately show ?thesis
    unfolding fl_update_def by (simp only: simp_thms if_True if_False Let_def assms(1,4,5) assms(6) [symmetric] assms(7) fl_keeps)
qed

lemma fl_update_ok:
  fixes ctx :: "'a::len word fletcher_ctx"
  assumes w: "LENGTH('w::len) mod 8 = 0" "LENGTH('w) < LENGTH('a)" and ok: "fl_ok TYPE('w) V ctx bs"
    and fit: "fl_fits TYPE('w) TYPE('a) V (length (bs @ buff))" and le: "words_le (word_size TYPE('w)) V (bs @ buff)"
  shows "fl_ok TYPE('w) V (fl_update TYPE('w) ctx buff) (bs @ buff)"
proof (cases "fl_deficit ctx > 0 \<and> length buff > 0")
  case False
  then have "word_size TYPE('w) dvd length bs \<or> buff = []"
    using ok mod_less_divisor [OF word_size_pos(1) [OF w(1)], of "length bs"] by (auto simp: fl_ok_def dvd_eq_mod_eq_0 split: if_splits)
  moreover have "fl_update TYPE('w) ctx buff = fl_main TYPE('w) ctx buff" by (simp only: fl_update_def False if_False)
  ultimately show ?thesis using fl_main_ok [OF w ok _ fit le] ok by (auto simp: fl_main_def)
next
  case True
  let ?sz = "word_size TYPE('w)" and ?M = "fl_M TYPE('w)" and ?d = "fl_deficit ctx"
  define r where "r = length bs mod ?sz"
  define p tr where "p = take (length bs - r) bs" and "tr = drop (length bs - r) bs"
  note sz = word_size_pos [OF w(1)]
  have r: "?d = ?sz - r" "0 < r" "r < ?sz" "take r (fl_joint ctx) = tr" "length (fl_joint ctx) = ?sz"
    using ok True sz(1) by (auto simp: fl_ok_def r_def tr_def dvd_eq_mod_eq_0 split: if_splits)
  have bs: "bs = p @ tr" "length tr = r" "?sz dvd length p"
  proof -
    have "r \<le> length bs" unfolding r_def by (rule mod_less_eq_dividend)
    then show "bs = p @ tr" "length tr = r" by (simp_all add: p_def tr_def)
    have "length p = length bs - length bs mod ?sz" by (simp add: p_def r_def)
    then show "?sz dvd length p" by (simp add: dvd_minus_mod)
  qed
  have l: "?sz - min ?sz ?d = r" using r by simp
  let ?old = "load_bytes tr :: 'w word"
  have old: "unat ?old = le_num tr" using sz(2) bs(2) r(3) by (intro unat_load_bytes) simp
  have small: "unat ?old < ?M"
  proof -
    have "(2 :: nat) ^ (8 * length tr + 8) \<le> 2 ^ LENGTH('w)" using sz(2) bs(2) r(3) by (intro power_increasing) simp_all
    then have "256 * (2 :: nat) ^ (8 * length tr) \<le> 2 ^ LENGTH('w)" by (simp add: power_add)
    then show ?thesis using le_num_less [of tr] unfolding old fl_M_def by linarith
  qed
  have part: "word_nums ?sz (p @ xs) = word_nums ?sz p @ [le_num xs]" if "xs \<noteq> []" "length xs \<le> ?sz" for xs
    using that bs(3) sz(1) by (simp add: word_nums_append word_nums_short)
  have "sums_ok TYPE('w) V ctx (word_nums ?sz p @ [unat ?old]) (length bs)"
    using ok part [of tr] bs r unfolding fl_ok_def old by auto
  note sub = fl_subtract_ok [OF w(2) this small]
  have fit1: "fl_fits TYPE('w) TYPE('a) V (Suc (length bs))" by (rule fl_fits_mono [OF fit]) (use True in \<open>simp add: Suc_le_eq\<close>)
  define add where "add = (\<lambda>v :: 'w word. fl_add (fl_subtract ctx ?old) v)"
  have add: "sums_ok TYPE('w) V (add v) (word_nums ?sz p @ [unat v]) (Suc (length bs))"
      "fl_joint (add v) = fl_joint ctx" "fl_deficit (add v) = fl_deficit ctx" if "unat v \<le> V" for v
    using fl_add_ok [OF less_imp_le [OF w(2)] sub(1) that fit1] sub(2,3) by (simp_all add: add_def)
  have comm: "fl_add (fl_subtract (ctx\<lparr>fl_joint := j, fl_deficit := n\<rparr>) ?old) v = (add v)\<lparr>fl_joint := j, fl_deficit := n\<rparr>" for j n v
    by (simp add: add_def fl_add_def fl_subtract_def Let_def)
  have len: "length (bs @ buff) mod ?sz = (r + length buff) mod ?sz" using bs by (auto elim!: dvdE simp: add.assoc)
  show ?thesis
  proof (cases "length buff < ?d")
    case less: True
    let ?j = "tr @ buff @ drop (r + length buff) (fl_joint ctx)" and ?new = "load_bytes (tr @ buff) :: 'w word"
    have "?sz + length buff - ?d = r + length buff" using r less by simp
    then have tr: "take (?sz + length buff - ?d) ?j = tr @ buff" using bs(2) by simp
    have new: "unat ?new = le_num (tr @ buff)" using sz(2) bs(2) r(1) less by (intro unat_load_bytes) simp
    have u: "fl_update TYPE('w) ctx buff = (add ?new)\<lparr>fl_joint := ?j, fl_deficit := ?d - length buff\<rparr>"
      using True less by (simp add: fl_update_def Let_def l r(4) tr comm del: take_append take_take)
    have nums: "word_nums ?sz (bs @ buff) = word_nums ?sz p @ [unat ?new]" using part [of "tr @ buff"] True less r(1) bs(1,2) new by simp
    have small_new: "unat ?new \<le> V" using le unfolding words_le_def nums by simp
    have "sums_ok TYPE('w) V (add ?new) (word_nums ?sz (bs @ buff)) (length (bs @ buff))"
      using sums_ok_mono [OF add(1) [OF small_new], of "length (bs @ buff)"] True nums by (simp add: Suc_le_eq)
    moreover have "(r + length buff) mod ?sz = r + length buff" using r(1) less by simp
    moreover have "length (bs @ buff) - (r + length buff) = length p" using bs by simp
    ultimately show ?thesis
      unfolding fl_ok_def u dvd_eq_mod_eq_0 len using r bs less by (simp add: sums_ok_def)
  next
    case full: False
    let ?x = "take ?d buff"
    let ?j = "tr @ ?x @ drop (r + ?d) (fl_joint ctx)" and ?new = "load_bytes (tr @ ?x) :: 'w word"
    have x: "length ?x = ?d" "r + ?d = ?sz" using full r by simp_all
    have new: "unat ?new = le_num (tr @ ?x)" using sz(2) bs(2) x by (intro unat_load_bytes) simp
    define c where "c = (add ?new)\<lparr>fl_joint := ?j, fl_deficit := 0\<rparr>"
    have tr: "take ?sz ?j = tr @ ?x" unfolding x(2) [symmetric] using bs(2) x(1) by simp
    have c2: "fl_add (fl_subtract (ctx\<lparr>fl_joint := ?j\<rparr>) ?old) ?new = (add ?new)\<lparr>fl_joint := ?j\<rparr>"
      by (simp add: add_def fl_add_def fl_subtract_def Let_def)
    have u: "fl_update TYPE('w) ctx buff = (if drop ?d buff = [] then c else fl_main TYPE('w) c (drop ?d buff))"
      using fl_update_complete [where ?'w = 'w, OF refl _ _ l r(4) refl tr] True full c2 by (simp add: Let_def c_def)
    have nums: "word_nums ?sz (bs @ ?x) = word_nums ?sz p @ [unat ?new]" using part [of "tr @ ?x"] r(2) bs(1,2) new x by auto
    have whole: "(bs @ ?x) @ drop ?d buff = bs @ buff" by simp
    then have "words_le ?sz V (bs @ ?x)" using le words_le_prefix by metis
    then have small_new: "unat ?new \<le> V" unfolding words_le_def nums by simp
    have "sums_ok TYPE('w) V c (word_nums ?sz (bs @ ?x)) (length (bs @ ?x))"
      using sums_ok_mono [OF add(1) [OF small_new], of "length (bs @ ?x)"] True x nums by (simp add: Suc_le_eq c_def sums_ok_def)
    moreover have d: "?sz dvd length (bs @ ?x)" using bs x by simp
    ultimately have c: "fl_ok TYPE('w) V c (bs @ ?x)"
      unfolding fl_ok_def using x bs(2) r(5) by (simp add: c_def dvd_imp_mod_0)
    show ?thesis using fl_main_ok [OF w c d, of "drop ?d buff"] c fit le whole unfolding u by (auto simp del: length_append)
  qed
qed

section \<open>The checksum\<close>

definition fletcher_ref :: "'w::len itself \<Rightarrow> 8 word list \<Rightarrow> nat" where
  "fletcher_ref w bs =
     (let ws = word_nums (word_size w) bs
      in sum_A ws mod (2 ^ LENGTH('w) - 1) + 2 ^ LENGTH('w) * (sum_B ws mod (2 ^ LENGTH('w) - 1)))"

lemma fl_new_ok: "length garbage = word_size TYPE('w::len) \<Longrightarrow> fl_ok TYPE('w) V (fletcher_new garbage :: 'a::len word fletcher_ctx) []"
  by (simp add: fl_ok_def fletcher_new_def sums_ok_def sum_A_def sum_B_def)

lemma fl_updates_ok:
  fixes ctx :: "'a::len word fletcher_ctx"
  assumes w: "LENGTH('w::len) mod 8 = 0" "LENGTH('w) < LENGTH('a)"
  shows "fl_ok TYPE('w) V ctx bs \<Longrightarrow> fl_fits TYPE('w) TYPE('a) V (length (bs @ concat pieces)) \<Longrightarrow>
    words_le (word_size TYPE('w)) V (bs @ concat pieces) \<Longrightarrow>
    fl_ok TYPE('w) V (foldl (fl_update TYPE('w)) ctx pieces) (bs @ concat pieces)"
proof (induction pieces arbitrary: ctx bs)
  case (Cons x pieces)
  have e: "bs @ concat (x # pieces) = (bs @ x) @ concat pieces" by simp
  have "fl_fits TYPE('w) TYPE('a) V (length (bs @ x))" by (rule fl_fits_mono [OF Cons.prems(2)]) simp
  moreover have "words_le (word_size TYPE('w)) V (bs @ x)" using Cons.prems(3) unfolding e by (rule words_le_prefix)
  ultimately have "fl_ok TYPE('w) V (fl_update TYPE('w) ctx x) (bs @ x)" by (rule fl_update_ok [OF w Cons.prems(1)])
  then show ?case using Cons.IH [of "fl_update TYPE('w) ctx x" "bs @ x"] Cons.prems(2,3) by simp
qed simp

lemma fl_get_checksum_ok:
  fixes ctx :: "'a::len word fletcher_ctx"
  assumes w: "2 * LENGTH('w::len) \<le> LENGTH('a)" "2 * LENGTH('w) \<le> LENGTH('c::len)" and s: "sums_ok TYPE('w) V ctx ws k"
    and M: "0 < fl_M TYPE('w)"
  shows "unat (fst (fl_get_checksum TYPE('w) ctx) :: 'c word) = sum_A ws mod fl_M TYPE('w) + 2 ^ LENGTH('w) * (sum_B ws mod fl_M TYPE('w))"
proof -
  let ?M = "fl_M TYPE('w)" and ?MM = "fl_modulus TYPE('w) :: 'a word" and ?L = "LENGTH('w)"
  let ?a = "fl_sum1 ctx mod ?MM" and ?b = "fl_sum2 ctx mod ?MM"
  have MM: "unat ?MM = ?M" using w(1) by (simp add: unat_fl_modulus)
  then have ab: "unat ?a = sum_A ws mod ?M" "unat ?b = sum_B ws mod ?M" using s by (simp_all add: unat_mod_distrib sums_ok_def)
  have "?M < 2 ^ ?L" by (simp add: fl_M_def)
  then have lt: "sum_A ws mod ?M < 2 ^ ?L" "sum_B ws mod ?M < 2 ^ ?L"
    using mod_less_divisor [OF M, of "sum_A ws"] mod_less_divisor [OF M, of "sum_B ws"] by linarith+
  have "(2 :: nat) ^ ?L * (sum_B ws mod ?M) + 2 ^ ?L \<le> 2 ^ ?L * 2 ^ ?L"
    using lt(2) by (metis Suc_leI add.commute mult_Suc_right mult_le_mono2)
  then have sum: "sum_A ws mod ?M + 2 ^ ?L * (sum_B ws mod ?M) < 2 ^ (2 * ?L)"
    using lt(1) unfolding mult_2 power_add by linarith
  then have fit: "sum_A ws mod ?M + 2 ^ ?L * (sum_B ws mod ?M) < 2 ^ LENGTH('a)" "sum_A ws mod ?M + 2 ^ ?L * (sum_B ws mod ?M) < 2 ^ LENGTH('c)"
    using power_increasing [OF w(1), of "2 :: nat"] power_increasing [OF w(2), of "2 :: nat"] by linarith+
  have p: "unat (push_bit ?L ?b) = 2 ^ ?L * (sum_B ws mod ?M)"
    using fit(1) by (simp add: unsigned_push_bit_eq ab push_bit_eq_mult [where ?'a = nat] take_bit_nat_eq_self mult.commute)
  have "\<not> bit ?a i" if "?L \<le> i" for i
  proof -
    have "bit ?a i \<Longrightarrow> bit (unat ?a) i" by (simp add: bit_unsigned_iff)
    moreover have "take_bit ?L (unat ?a) = unat ?a" using lt(1) ab(1) by (simp add: take_bit_nat_eq_self)
    ultimately show ?thesis using that by (metis bit_take_bit_iff not_le)
  qed
  then have "?a OR push_bit ?L ?b = ?a + push_bit ?L ?b" by (intro disjunctive_add [symmetric]) (auto simp: bit_push_bit_iff)
  then have "unat (?a OR push_bit ?L ?b) = sum_A ws mod ?M + 2 ^ ?L * (sum_B ws mod ?M)"
    using fit(1) by (simp add: unat_add_lem [THEN iffD1] ab p)
  then show ?thesis using fit(2) by (simp add: fl_get_checksum_def Let_def unsigned_ucast_eq take_bit_nat_eq_self)
qed

lemma fletcher_pieces:
  assumes w: "LENGTH('w::len) mod 8 = 0" "LENGTH('w) * 2 \<le> LENGTH('a::len)" "LENGTH('c::len) = LENGTH('w) * 2"
    and g: "length garbage = word_size TYPE('w)" and fits: "fl_fits TYPE('w) TYPE('a) V (length (concat pieces))"
    and le: "words_le (word_size TYPE('w)) V (concat pieces)"
  shows "unat (fst (fl_get_checksum TYPE('w) (foldl (fl_update TYPE('w)) (fletcher_new garbage :: 'a word fletcher_ctx) pieces)) :: 'c word) =
    fletcher_ref TYPE('w) (concat pieces)"
proof -
  have lt: "LENGTH('w) < LENGTH('a)" using w(2) len_gt_0 [where ?'a = 'w] by linarith
  have "fl_ok TYPE('w) V (foldl (fl_update TYPE('w)) (fletcher_new garbage :: 'a word fletcher_ctx) pieces) ([] @ concat pieces)"
    using fits le by (intro fl_updates_ok [OF w(1) lt fl_new_ok [OF g]]) simp_all
  then have "sums_ok TYPE('w) V (foldl (fl_update TYPE('w)) (fletcher_new garbage :: 'a word fletcher_ctx) pieces)
      (word_nums (word_size TYPE('w)) (concat pieces)) (length (concat pieces))"
    by (simp add: fl_ok_def)
  from fl_get_checksum_ok [where ?'c = 'c, OF _ _ this fl_M_pos] show ?thesis
    using w by (simp add: fletcher_ref_def fl_M_def Let_def mult.commute)
qed

lemma fl_fitsI:
  assumes "0 < unat (fl_MAX_ADD TYPE('w::len) :: 'a::len word)" "unat (fl_MAX_ADD TYPE('w) :: 'a word) < 2 ^ 32"
    and "k = min (unat (fl_MAX_ADD TYPE('w) :: 'a word)) n"
    and "2 * (2 ^ LENGTH('w) - 1) * (k + 1) + V * k * (k + 1) < 2 * 2 ^ LENGTH('a)"
  shows "fl_fits TYPE('w) TYPE('a) V n"
  using assms bound2_value [of "fl_M TYPE('w)" V k] by (simp add: fl_fits_def limit_ok_def fl_limit_def fl_M_def)

lemma word_nums_1: "word_nums 1 bs = map unat bs"
proof (induction bs)
  case (Cons b bs)
  then show ?case by (subst word_nums.simps) simp
qed simp

text \<open>C9: 
  Let the words of the data be at most \<open>V\<close>, and let \<open>k\<close> be the number of words that the code adds without reducing the
  sums: \<open>MAX_ADD\<close>, or the length of the data when that is less. If the sums have room for \<open>k\<close> such words on top of two
  reduced sums, then in whatever pieces the data is fed, complete words or not, the checksum is that of the words of the
  whole data. There is no bound on the length. For \<open>fletcher16\<close> (\<open>MAX_ADD\<close> is 5803) and \<open>fletcher32\<close> the condition holds
  for data of any length without a word of ones only, and for any data of less than 5803 bytes in \<open>fletcher16\<close>; that it
  fails for longer runs of such words is \<open>fletcher16_wraps\<close>.
\<close>

theorem fletcher_streaming_correct:
  assumes "LENGTH('w::len) mod 8 = 0" "LENGTH('w) * 2 \<le> LENGTH('a::len)" "LENGTH('c::len) = LENGTH('w) * 2"
    and "length garbage = word_size TYPE('w)" "\<forall>v\<in>set (word_nums (word_size TYPE('w)) (concat pieces)). v \<le> V"
    and "0 < unat (fl_MAX_ADD TYPE('w) :: 'a word)" "unat (fl_MAX_ADD TYPE('w) :: 'a word) < 2 ^ 32"
    and "k = min (unat (fl_MAX_ADD TYPE('w) :: 'a word)) (length (concat pieces))"
    and "2 * (2 ^ LENGTH('w) - 1) * (k + 1) + V * k * (k + 1) < 2 * 2 ^ LENGTH('a)"
  shows "unat (fst (fl_get_checksum TYPE('w) (foldl (fl_update TYPE('w)) (fletcher_new garbage :: 'a word fletcher_ctx) pieces)) :: 'c word) =
    fletcher_ref TYPE('w) (concat pieces)"
  by (rule fletcher_pieces [OF assms(1-4) fl_fitsI [OF assms(6-9)]]) (simp add: words_le_def assms(5))

theorem fletcher_streaming_witness:
  "unat (fst (fl_get_checksum TYPE(8) (foldl (fl_update TYPE(8)) (fletcher_new [9] :: 32 word fletcher_ctx)
     [replicate 6000 0, [1, 2], replicate 6000 254])) :: 16 word) = fletcher_ref TYPE(8) (replicate 6000 0 @ [1, 2] @ replicate 6000 254)"
proof -
  define d1 d3 :: "8 word list" where d: "d1 = replicate 6000 0" "d3 = replicate 6000 254"
  have len: "length d1 = 6000" "length d3 = 6000" "set d1 = {0}" "set d3 = {254}" by (simp_all add: d)
  then have le: "\<forall>v\<in>set (word_nums (word_size TYPE(8)) (concat [d1, [1, 2], d3])). v \<le> 254"
    by (simp add: word_size_def word_nums_1 [unfolded One_nat_def])
  have k: "5803 = min (unat (fl_MAX_ADD TYPE(8) :: 32 word)) (length (concat [d1, [1, 2], d3]))"
    by (simp add: len fl_MAX_ADD_values)
  have "unat (fst (fl_get_checksum TYPE(8) (foldl (fl_update TYPE(8)) (fletcher_new [9] :: 32 word fletcher_ctx) [d1, [1, 2], d3])) :: 16 word) =
    fletcher_ref TYPE(8) (concat [d1, [1, 2], d3])"
    by (rule fletcher_streaming_correct [OF _ _ _ _ le _ _ k]) (simp_all add: word_size_def fl_MAX_ADD_values)
  then show ?thesis by (simp add: d [symmetric])
qed

text \<open>Data of any length without the greatest word, for \<open>fletcher16\<close> and \<open>fletcher32\<close>.\<close>

lemma fletcher16_any_length:
  assumes "255 \<notin> set data"
  shows "unat (fletcher16 [g] data) = fletcher_ref TYPE(8) data"
proof -
  have "unat b \<le> 254" if "b \<in> set data" for b
  proof -
    have "unat b \<noteq> unat (255 :: 8 word)" using that assms by (metis unsigned_word_eqI)
    then show ?thesis using unsigned_less [of b, where ?'a = nat] by simp
  qed
  then have le: "words_le (word_size TYPE(8)) 254 (concat [data])" by (simp add: words_le_def word_size_def word_nums_1 [unfolded One_nat_def])
  define k where "k = min 5803 (length data)"
  have "k * (k + 1) \<le> 5803 * 5804" by (intro mult_le_mono) (simp_all add: k_def)
  moreover have "k + 1 \<le> 5804" by (simp add: k_def)
  ultimately have "2 * 255 * (k + 1) + 254 * (k * (k + 1)) < 2 * 2 ^ 32" by simp
  then have fits: "fl_fits TYPE(8) TYPE(32) 254 (length (concat [data]))"
    by (intro fl_fitsI [of k]) (simp_all add: fl_MAX_ADD_values k_def mult.assoc)
  show ?thesis
    using fletcher_pieces [where ?'c = 16, OF _ _ _ _ fits le, of "[g]"] by (simp add: fletcher16_def word_size_def)
qed

section \<open>The limit is too high\<close>

fun triangle :: "nat \<Rightarrow> nat" where
  "triangle 0 = 0"
| "triangle (Suc n) = triangle n + Suc n"

lemma triangle_value: "2 * triangle n = n * (n + 1)"
  by (induction n) simp_all

lemma sum_B_run: "sum_A (ws @ replicate n v) = sum_A ws + n * v" "sum_B (ws @ replicate n v) = sum_B ws + n * sum_A ws + triangle n * v"
proof (induction n)
  case (Suc n)
  have e: "ws @ replicate (Suc n) v = (ws @ replicate n v) @ [v]" by (simp add: replicate_append_same)
  {
    case 1
    show ?case unfolding e sum_A_snoc using Suc by simp
  next
    case 2
    show ?case unfolding e sum_B_snoc using Suc by (simp add: algebra_simps)
  }
qed simp_all

text \<open>A run of equal bytes, with the arithmetic of 32-bit words.\<close>

lemma fl_run:
  fixes ctx :: "32 word fletcher_ctx" and v :: "8 word"
  shows "unat (fl_cnt ctx) + n \<le> 5803 \<Longrightarrow> n \<le> m \<Longrightarrow> fl_words TYPE(8) n ctx (replicate m v) =
    (ctx\<lparr>fl_cnt := fl_cnt ctx + of_nat n, fl_sum1 := fl_sum1 ctx + of_nat n * ucast v,
       fl_sum2 := fl_sum2 ctx + of_nat n * fl_sum1 ctx + of_nat (triangle n) * ucast v\<rparr>, replicate (m - n) v)"
proof (induction n arbitrary: ctx m)
  case (Suc n)
  have ne: "fl_cnt ctx \<noteq> 5803" using Suc.prems(1) by auto
  have cnt: "unat (fl_cnt ctx + 1) = unat (fl_cnt ctx) + 1" using Suc.prems(1) by (simp add: unat_add_lem [THEN iffD1])
  have b: "load_bytes [v] = v" by (rule bit_word_eqI) simp
  obtain m' where m: "m = Suc m'" using Suc.prems(2) by (cases m) auto
  have add: "fl_add ctx v = ctx\<lparr>fl_sum1 := fl_sum1 ctx + ucast v, fl_sum2 := fl_sum2 ctx + (fl_sum1 ctx + ucast v), fl_cnt := fl_cnt ctx + 1\<rparr>"
    using ne by (simp add: fl_add_def fl_MAX_ADD_values)
  have "unat (fl_cnt (fl_add ctx v)) + n \<le> 5803" using Suc.prems(1) by (simp add: add cnt)
  from Suc.IH [OF this, of m'] Suc.prems(2)
  show ?case by (simp add: m word_size_def b add algebra_simps)
qed simp

lemma fl_words_add: "fl_words w (a + b) ctx buff = (case fl_words w a ctx buff of (ctx, buff) \<Rightarrow> fl_words w b ctx buff)"
  by (induction a arbitrary: ctx buff) simp_all

lemma fl_words_reduced:
  fixes ctx :: "32 word fletcher_ctx"
  assumes "fl_cnt ctx = 5803"
  shows "fl_words TYPE(8) (Suc n) ctx buff = fl_words TYPE(8) (Suc n) (ctx\<lparr>fl_cnt := 0, fl_sum1 := fl_sum1 ctx mod 255, fl_sum2 := fl_sum2 ctx mod 255\<rparr>) buff"
proof -
  have "(fl_modulus TYPE(8) :: 32 word) = 255" by code_simp
  then have "fl_add ctx v = fl_add (ctx\<lparr>fl_cnt := 0, fl_sum1 := fl_sum1 ctx mod 255, fl_sum2 := fl_sum2 ctx mod 255\<rparr>) v" for v :: "8 word"
    using assms by (simp add: fl_add_def fl_MAX_ADD_values)
  then show ?thesis by simp
qed

text \<open>C27: 
  The number of additions the code allows before it reduces the sums ignores the sums that are left from before: the
  second block of a message of 11606 bytes makes the second sum of \<open>fletcher16\<close> wrap, and the checksum is not that of
  the words.
\<close>

theorem fletcher16_wraps: "unat (fletcher16 [g] (254 # replicate 11605 255)) \<noteq> fletcher_ref TYPE(8) (254 # replicate 11605 255)"
proof -
  let ?ctx = "fletcher_new [g] :: 32 word fletcher_ctx"
  have t: "triangle 5802 = 16834503" "triangle 5803 = 16840306" "triangle 11605 = 67343815"
    using triangle_value [of 5802] triangle_value [of 5803] triangle_value [of 11605] by simp_all
  let ?c1 = "\<lparr>fl_cnt = 1, fl_joint = [g], fl_deficit = 0, fl_sum1 = 254, fl_sum2 = 254\<rparr> :: 32 word fletcher_ctx"
  have c1: "fl_words TYPE(8) 1 ?ctx (254 # replicate 11605 255) = (?c1, replicate 11605 255)"
  proof -
    have "load_bytes [254] = (254 :: 8 word)" by code_simp
    then show ?thesis by (simp add: word_size_def fl_add_def fl_MAX_ADD_values fletcher_new_def)
  qed
  let ?c2 = "\<lparr>fl_cnt = 5803, fl_joint = [g], fl_deficit = 0, fl_sum1 = 1479764, fl_sum2 = 4294272227\<rparr> :: 32 word fletcher_ctx"
  let ?c3 = "\<lparr>fl_cnt = 0, fl_joint = [g], fl_deficit = 0, fl_sum1 = 254, fl_sum2 = 62\<rparr> :: 32 word fletcher_ctx"
  let ?c4 = "\<lparr>fl_cnt = 5803, fl_joint = [g], fl_deficit = 0, fl_sum1 = 1480019, fl_sum2 = 784758\<rparr> :: 32 word fletcher_ctx"
  have c2: "fl_words TYPE(8) 5802 ?c1 (replicate 11605 255) = (?c2, replicate 5803 255)"
    by (subst fl_run) (simp_all add: t)
  have "fl_words TYPE(8) 5803 ?c2 (replicate 5803 255) = fl_words TYPE(8) 5803 ?c3 (replicate 5803 255)"
    using fl_words_reduced [of ?c2 5802] by simp
  also have "\<dots> = (?c4, [])" by (subst fl_run) (simp_all add: t)
  finally have c4: "fl_words TYPE(8) 5803 ?c2 (replicate 5803 255) = (?c4, [])" .
  have "fl_words TYPE(8) (1 + (5802 + 5803)) ?ctx (254 # replicate 11605 255) = (?c4, [])"
    unfolding fl_words_add c1 prod.case c2 c4 ..
  then have "fl_main TYPE(8) ?ctx (254 # replicate 11605 255) = ?c4"
    by (simp add: fl_main_def word_size_def)
  then have u: "fl_update TYPE(8) ?ctx (254 # replicate 11605 255) = ?c4" by (simp add: fl_update_def fletcher_new_def)
  have "unat (fletcher16 [g] (254 # replicate 11605 255)) = 254 + 256 * 123"
  proof -
    have "(fl_modulus TYPE(8) :: 32 word) = 255" by code_simp
    then show ?thesis unfolding fletcher16_def u fl_get_checksum_def Let_def by simp
  qed
  moreover have "fletcher_ref TYPE(8) (254 # replicate 11605 255) = 254 + 256 * 124"
  proof -
    have w: "word_nums (word_size TYPE(8)) (254 # replicate 11605 255) = [254] @ replicate 11605 255"
      by (simp add: word_size_def word_nums_1 [unfolded One_nat_def])
    have "sum_A [254] = 254" "sum_B [254] = 254" by (simp_all add: sum_A_def sum_B_def)
    then show ?thesis unfolding fletcher_ref_def w Let_def sum_B_run by (simp add: t)
  qed
  ultimately show ?thesis by simp
qed

end
