(* ===== verification/String_Utils.thy ===== *)
theory String_Utils
  imports Prelude "HOL-Library.Word"
begin

text \<open>
  The string utilities of \<open>src/misc/string_utils.cxx\<close> and \<open>include/tarp/string_utils.hxx\<close>. A \<open>std::string\<close> is a list of
  characters; the character functions of the library are those of the C locale. Positions are numbers, and a subtraction
  of sizes that goes below zero is written out. Functions on regular expressions, files and floating point are left out.
\<close>

section \<open>Characters and substrings\<close>

definition is_space :: "char \<Rightarrow> bool" where
  "is_space c \<longleftrightarrow> (let n = of_char c :: nat in n = 32 \<or> (9 \<le> n \<and> n \<le> 13))"

definition is_digit :: "char \<Rightarrow> bool" where
  "is_digit c \<longleftrightarrow> (let n = of_char c :: nat in 48 \<le> n \<and> n \<le> 57)"

definition tolower :: "char \<Rightarrow> char" where
  "tolower c = (let n = of_char c :: nat in if 65 \<le> n \<and> n \<le> 90 then char_of (n + 32) else c)"

definition toupper :: "char \<Rightarrow> char" where
  "toupper c = (let n = of_char c :: nat in if 97 \<le> n \<and> n \<le> 122 then char_of (n - 32) else c)"

definition size_sub :: "nat \<Rightarrow> nat \<Rightarrow> nat" where
  "size_sub a b = (if b \<le> a then a - b else SZ - (b - a))"

definition substr :: "string \<Rightarrow> nat \<Rightarrow> nat \<Rightarrow> string" where
  "substr s pos len = take len (drop pos s)"

text \<open>\<open>std::string::find\<close> from a position on; the needle is not empty.\<close>

function string_find :: "string \<Rightarrow> string \<Rightarrow> nat \<Rightarrow> nat option" where
  "string_find s needle pos =
     (if length s < pos + length needle then None
      else if take (length needle) (drop pos s) = needle then Some pos
      else string_find s needle (pos + 1))"
  by pat_completeness auto
termination
  by (relation "measure (\<lambda>(s, needle, pos). Suc (length s) - pos)") auto

declare string_find.simps [simp del]

section \<open>The aliases of the ASCII characters\<close>

definition ascii_char_to_alias :: "(nat \<times> string) list" where
  "ascii_char_to_alias = [
    (0x00, ''NUL''), (0x01, ''SOH''), (0x02, ''STX''), (0x03, ''ETX''), (0x04, ''EOT''), (0x05, ''ENQ''),
    (0x06, ''ACK''), (0x07, ''BEL''), (0x08, ''BS''), (0x09, ''HT''), (0x0A, ''LF''), (0x0B, ''VT''),
    (0x0C, ''FF''), (0x0D, ''CR''), (0x0E, ''SO''), (0x0F, ''SI''), (0x10, ''DLE''), (0x11, ''DC1''),
    (0x12, ''DC2''), (0x13, ''DC3''), (0x14, ''DC4''), (0x15, ''NAK''), (0x16, ''SYN''), (0x17, ''ETB''),
    (0x18, ''CAN''), (0x19, ''EM''), (0x1A, ''SUB''), (0x1B, ''ESC''), (0x1C, ''FS''), (0x1D, ''GS''),
    (0x1E, ''RS''), (0x1F, ''US''), (0x20, '' ''), (0x21, ''!''), (0x22, [CHR 0x22]), (0x23, ''#''),
    (0x24, ''$''), (0x25, ''%''), (0x26, ''&''), (0x27, [CHR 0x27]), (0x28, ''(''), (0x29, '')''),
    (0x2A, ''*''), (0x2B, ''+''), (0x2C, '',''), (0x2D, ''-''), (0x2E, ''.''), (0x2F, ''/''),
    (0x30, ''0''), (0x31, ''1''), (0x32, ''2''), (0x33, ''3''), (0x34, ''4''), (0x35, ''5''),
    (0x36, ''6''), (0x37, ''7''), (0x38, ''8''), (0x39, ''9''), (0x3A, '':''), (0x3B, '';''),
    (0x3C, ''<''), (0x3D, ''=''), (0x3E, ''>''), (0x3F, ''?''), (0x40, ''@''), (0x41, ''A''),
    (0x42, ''B''), (0x43, ''C''), (0x44, ''D''), (0x45, ''E''), (0x46, ''F''), (0x47, ''G''),
    (0x48, ''H''), (0x49, ''I''), (0x4A, ''J''), (0x4B, ''K''), (0x4C, ''L''), (0x4D, ''M''),
    (0x4E, ''N''), (0x4F, ''O''), (0x50, ''P''), (0x51, ''Q''), (0x52, ''R''), (0x53, ''S''),
    (0x54, ''T''), (0x55, ''U''), (0x56, ''V''), (0x57, ''W''), (0x58, ''X''), (0x59, ''Y''),
    (0x5A, ''Z''), (0x5B, ''[''), (0x5C, [CHR 0x5C]), (0x5D, '']''), (0x5E, ''^''), (0x5F, ''_''),
    (0x60, [CHR 0x60]), (0x61, ''a''), (0x62, ''b''), (0x63, ''c''), (0x64, ''d''), (0x65, ''e''),
    (0x66, ''f''), (0x67, ''g''), (0x68, ''h''), (0x69, ''i''), (0x6A, ''j''), (0x6B, ''k''),
    (0x6C, ''l''), (0x6D, ''m''), (0x6E, ''n''), (0x6F, ''o''), (0x70, ''p''), (0x71, ''q''),
    (0x72, ''r''), (0x73, ''s''), (0x74, ''t''), (0x75, ''u''), (0x76, ''v''), (0x77, ''w''),
    (0x78, ''x''), (0x79, ''y''), (0x7A, ''z''), (0x7B, ''{''), (0x7C, ''|''), (0x7D, ''}''),
    (0x7E, ''~''), (0x7F, ''DE'')]"

definition ascii_alias_to_char :: "(string \<times> nat) list" where
  "ascii_alias_to_char = [
    (''NUL'', 0x00), (''SOH'', 0x01), (''STX'', 0x02), (''ETX'', 0x03), (''EOT'', 0x04), (''ENQ'', 0x05),
    (''ACK'', 0x06), (''BEL'', 0x07), (''BS'', 0x08), (''HT'', 0x09), (''LF'', 0x0A), (''VT'', 0x0B),
    (''FF'', 0x0C), (''CR'', 0x0D), (''SO'', 0x0E), (''SI'', 0x0F), (''DLE'', 0x10), (''DC1'', 0x11),
    (''DC2'', 0x12), (''DC3'', 0x13), (''DC4'', 0x14), (''NAK'', 0x15), (''SYN'', 0x16), (''ETB'', 0x17),
    (''CAN'', 0x18), (''EM'', 0x19), (''SUB'', 0x1A), (''ESC'', 0x1B), (''FS'', 0x1C), (''GS'', 0x1D),
    (''RS'', 0x1E), (''US'', 0x1F), ('' '', 0x20), (''!'', 0x21), ([CHR 0x22], 0x22), (''#'', 0x23),
    (''$'', 0x24), (''%'', 0x25), (''&'', 0x26), ([CHR 0x27], 0x27), (''('', 0x28), ('')'', 0x29),
    (''*'', 0x2A), (''+'', 0x2B), ('','', 0x2C), (''-'', 0x2D), (''.'', 0x2E), (''/'', 0x2F),
    (''0'', 0x30), (''1'', 0x31), (''2'', 0x32), (''3'', 0x33), (''4'', 0x34), (''5'', 0x35),
    (''6'', 0x36), (''7'', 0x37), (''8'', 0x38), (''9'', 0x39), ('':'', 0x3A), ('';'', 0x3B),
    (''<'', 0x3C), (''='', 0x3D), (''>'', 0x3E), (''?'', 0x3F), (''@'', 0x40), (''A'', 0x41),
    (''B'', 0x42), (''C'', 0x43), (''D'', 0x44), (''E'', 0x45), (''F'', 0x46), (''G'', 0x47),
    (''H'', 0x48), (''I'', 0x49), (''J'', 0x4A), (''K'', 0x4B), (''L'', 0x4C), (''M'', 0x4D),
    (''N'', 0x4E), (''O'', 0x4F), (''P'', 0x50), (''Q'', 0x51), (''R'', 0x52), (''S'', 0x53),
    (''T'', 0x54), (''U'', 0x55), (''V'', 0x56), (''W'', 0x57), (''X'', 0x58), (''Y'', 0x59),
    (''Z'', 0x5A), (''['', 0x5B), ([CHR 0x5C], 0x5C), ('']'', 0x5D), (''^'', 0x5E), (''_'', 0x5F),
    ([CHR 0x60], 0x60), (''a'', 0x61), (''b'', 0x62), (''c'', 0x63), (''d'', 0x64), (''e'', 0x65),
    (''f'', 0x66), (''g'', 0x67), (''h'', 0x68), (''i'', 0x69), (''j'', 0x6A), (''k'', 0x6B),
    (''l'', 0x6C), (''m'', 0x6D), (''n'', 0x6E), (''o'', 0x6F), (''p'', 0x70), (''q'', 0x71),
    (''r'', 0x72), (''s'', 0x73), (''t'', 0x74), (''u'', 0x75), (''v'', 0x76), (''w'', 0x77),
    (''x'', 0x78), (''y'', 0x79), (''z'', 0x7A), (''{'', 0x7B), (''|'', 0x7C), (''}'', 0x7D),
    (''~'', 0x7E), (''DE'', 0x7F)]"

definition ascii_charcode_to_alias_name :: "nat \<Rightarrow> string option" where
  "ascii_charcode_to_alias_name asciichar = map_of ascii_char_to_alias asciichar"

definition ascii_alias_name_to_charcode :: "string \<Rightarrow> nat option" where
  "ascii_alias_name_to_charcode alias = map_of ascii_alias_to_char alias"

section \<open>Stripping\<close>

text \<open>The loops over the indices; the descending one counts \<open>j + 1\<close>, so that it ends at 0.\<close>

function skip_forward :: "(char \<Rightarrow> bool) \<Rightarrow> string \<Rightarrow> nat \<Rightarrow> nat" where
  "skip_forward matching inp i = (if i < length inp \<and> matching (inp ! i) then skip_forward matching inp (i + 1) else i)"
  by pat_completeness auto
termination
  by (relation "measure (\<lambda>(matching, inp, i). length inp - i)") auto

declare skip_forward.simps [simp del]

fun skip_backward :: "(char \<Rightarrow> bool) \<Rightarrow> string \<Rightarrow> nat \<Rightarrow> nat" where
  "skip_backward matching inp 0 = 0"
| "skip_backward matching inp (Suc j) = (if matching (inp ! j) then skip_backward matching inp j else Suc j)"

definition find_nonmatching_slice :: "string \<Rightarrow> string option \<Rightarrow> nat \<times> nat" where
  "find_nonmatching_slice inp characters =
     (if inp = [] then (0, 0)
      else
        let chars = set (case characters of None \<Rightarrow> [] | Some cs \<Rightarrow> cs);
            strip_whitespace = (characters = None);
            matching = (\<lambda>c. if strip_whitespace then is_space c else c \<in> chars)
        in if \<not> strip_whitespace \<and> characters = Some [] then (0, length inp)
           else let i = skip_forward matching inp 0 in
                if i \<ge> length inp then (0, 0)
                else let j1 = skip_backward matching inp (length inp) in
                     if j1 = 0 then (0, 0) else (i, j1))"

definition rstrip :: "string \<Rightarrow> string option \<Rightarrow> string" where
  "rstrip inp characters = (case find_nonmatching_slice inp characters of (starti, endi) \<Rightarrow> substr inp 0 endi)"

definition lstrip :: "string \<Rightarrow> string option \<Rightarrow> string" where
  "lstrip inp characters = (case find_nonmatching_slice inp characters of (starti, endi) \<Rightarrow> substr inp starti (length inp - starti))"

definition strip :: "string \<Rightarrow> string option \<Rightarrow> string" where
  "strip inp characters = lstrip (rstrip inp characters) characters"

section \<open>Searching, splitting, replacing\<close>

lemma string_find_ge: "string_find s needle idx = Some pos \<Longrightarrow> idx \<le> pos"
  by (induction s needle idx rule: string_find.induct) (simp add: string_find.simps split: if_splits)

function needle_loop :: "string \<Rightarrow> string \<Rightarrow> nat \<Rightarrow> nat list" where
  "needle_loop haystack needle idx =
     (if idx < length haystack
      then (case string_find haystack needle idx of None \<Rightarrow> [] | Some pos \<Rightarrow> pos # needle_loop haystack needle (pos + 1))
      else [])"
  by pat_completeness auto
termination
  by (relation "measure (\<lambda>(haystack, needle, idx). length haystack - idx)") (auto dest: string_find_ge)

declare needle_loop.simps [simp del]

definition find_needle_positions :: "string \<Rightarrow> string \<Rightarrow> nat list" where
  "find_needle_positions haystack needle = (if needle = [] then [] else needle_loop haystack needle 0)"

fun split_loop :: "string \<Rightarrow> bool \<Rightarrow> nat list \<Rightarrow> nat \<Rightarrow> string list \<Rightarrow> nat \<times> string list" where
  "split_loop s drop_empty [] idx tokens = (idx, tokens)"
| "split_loop s drop_empty (split_pos # ps) idx tokens =
     (if idx \<ge> length s then (idx, tokens)
      else let substring_len = size_sub split_pos idx;
               tokens = (if \<not> drop_empty \<or> substring_len > 0 then tokens @ [substr s idx substring_len] else tokens)
           in split_loop s drop_empty ps (split_pos + 1) tokens)"

definition split_string :: "string \<Rightarrow> string \<Rightarrow> bool \<Rightarrow> string list" where
  "split_string s sep drop_empty =
     (let (idx, tokens) = split_loop s drop_empty (find_needle_positions s sep) 0 []
      in if idx < length s then tokens @ [substr s idx (length s - idx)] else tokens)"

fun join_loop :: "string list \<Rightarrow> string \<Rightarrow> string" where
  "join_loop [] sep = []"
| "join_loop (t # ts) sep = t @ (if ts \<noteq> [] then sep else []) @ join_loop ts sep"

definition join :: "string list \<Rightarrow> string \<Rightarrow> string" where
  "join tokens sep = join_loop tokens sep"

definition to_upper :: "string \<Rightarrow> string" where
  "to_upper s = map toupper s"

definition to_lower :: "string \<Rightarrow> string" where
  "to_lower s = map tolower s"

fun repeat_string :: "string \<Rightarrow> nat \<Rightarrow> string" where
  "repeat_string s 0 = []"
| "repeat_string s (Suc n) = repeat_string s n @ s"

definition replace_step :: "string \<Rightarrow> nat \<Rightarrow> string \<Rightarrow> string \<times> nat \<Rightarrow> nat \<Rightarrow> string \<times> nat" where
  "replace_step inp patlen replacement = (\<lambda>(result, prev_end_index) idx.
     (result @ substr inp prev_end_index (size_sub idx prev_end_index) @ replacement, idx + patlen))"

text \<open>\<open>replace\<close> without regular expressions, and \<open>replace_char\<close>.\<close>

definition replace_string :: "string \<Rightarrow> string \<Rightarrow> string \<Rightarrow> bool \<Rightarrow> string" where
  "replace_string inp pattern replacement case_sensitive =
     (let indices = (if case_sensitive then find_needle_positions inp pattern
                     else find_needle_positions (to_lower inp) (to_lower pattern));
          (result, prev_end_index) = foldl (replace_step inp (length pattern) replacement) ([], 0) indices
      in result @ substr inp prev_end_index (length inp - prev_end_index))"

definition replace_char :: "string \<Rightarrow> char \<Rightarrow> char \<Rightarrow> string" where
  "replace_char s a b = map (\<lambda>c. if c = a then b else c) s"

text \<open>\<open>std::string::erase\<close> throws when the position is behind the end: \<open>None\<close>.\<close>

definition erase :: "string \<Rightarrow> nat \<Rightarrow> nat \<Rightarrow> string option" where
  "erase s pos len = (if length s < pos then None else Some (take pos s @ drop (pos + len) s))"

fun remove_loop_at :: "nat list \<Rightarrow> nat \<Rightarrow> nat \<Rightarrow> string \<Rightarrow> string option" where
  "remove_loop_at [] substring_len removed outp = Some outp"
| "remove_loop_at (p # ps) substring_len removed outp =
     (case erase outp (size_sub p removed) substring_len of
        None \<Rightarrow> None
      | Some outp \<Rightarrow> remove_loop_at ps substring_len (removed + substring_len) outp)"

definition remove_substring :: "string \<Rightarrow> string \<Rightarrow> int \<Rightarrow> string option" where
  "remove_substring inp substring n_first =
     (let ps = find_needle_positions inp substring;
          n = (if n_first < 0 then length ps else min (nat n_first) (length ps))
      in if n_first = 0 then Some inp else remove_loop_at (take n ps) (length substring) 0 inp)"

definition chars_equal :: "bool \<Rightarrow> string \<Rightarrow> string \<Rightarrow> bool" where
  "chars_equal case_sensitive s t = (if case_sensitive then s = t else map tolower s = map tolower t)"

definition remove_prefix :: "string \<Rightarrow> string \<Rightarrow> bool \<Rightarrow> string" where
  "remove_prefix s prefix case_sensitive =
     (if length prefix > length s then s
      else if chars_equal case_sensitive (substr s 0 (length prefix)) prefix then drop (length prefix) s
      else s)"

definition remove_suffix :: "string \<Rightarrow> string \<Rightarrow> bool \<Rightarrow> string" where
  "remove_suffix s suffix case_sensitive =
     (if length suffix > length s then s
      else if chars_equal case_sensitive (substr s (length s - length suffix) (length suffix)) suffix
           then substr s 0 (length s - length suffix)
      else s)"

definition starts_with :: "string \<Rightarrow> string \<Rightarrow> bool \<Rightarrow> bool" where
  "starts_with s prefix case_sensitive = (remove_prefix s prefix case_sensitive \<noteq> s)"

definition ends_with :: "string \<Rightarrow> string \<Rightarrow> bool \<Rightarrow> bool" where
  "ends_with s suffix case_sensitive = (remove_suffix s suffix case_sensitive \<noteq> s)"

text \<open>\<open>std::search\<close> over the whole string, up to and including the end for an empty substring.\<close>

definition contains :: "string \<Rightarrow> string \<Rightarrow> bool \<Rightarrow> bool" where
  "contains s substring case_sensitive =
     (let norm = (if case_sensitive then id else map toupper)
      in \<exists>pos\<in>set [0..<length s]. norm (take (length substring) (drop pos s)) = norm substring)"

definition is_integer :: "string \<Rightarrow> bool" where
  "is_integer inp = (let s = strip inp None in s \<noteq> [] \<and> list_all is_digit s)"

text \<open>
  The lower-case copy has the length of the unstripped string and is written over the stripped one: with whitespace to
  strip it is longer and runs past the end, the fault \<open>WildDeref\<close>.
\<close>

definition to_boolean :: "string \<Rightarrow> bool option res" where
  "to_boolean s =
     (let inp = strip s None in
      if inp = [] then Inr None
      else if length inp < length s then Inl WildDeref
      else let inp = to_lower s in
           Inr (if inp = ''true'' \<or> inp = ''1'' then Some True
                else if inp = ''false'' \<or> inp = ''0'' then Some False
                else None))"

definition is_boolean :: "string \<Rightarrow> bool res" where
  "is_boolean s = bindE (to_boolean s) (\<lambda>r. Inr (r \<noteq> None))"

definition is_bitstring :: "string \<Rightarrow> bool" where
  "is_bitstring s = list_all (\<lambda>c. c = CHR ''0'' \<or> c = CHR ''1'') s"

text \<open>\<open>make_chunks_from_bytes\<close>; a chunk size of 0 is a division by zero.\<close>

definition make_chunks_from_bytes :: "'b list list \<Rightarrow> 'b list \<Rightarrow> nat \<Rightarrow> 'b list list res" where
  "make_chunks_from_bytes chunks bytes max_bytes =
     (if max_bytes = 0 then Inl DivByZero
      else
        let full_chunks = length bytes div max_bytes;
            (chunks, idx) = foldl (\<lambda>(chunks, idx) i. (chunks @ [take max_bytes (drop idx bytes)], idx + max_bytes)) (chunks, 0) [0..<full_chunks]
        in Inr (if length bytes mod max_bytes \<noteq> 0 then chunks @ [drop idx bytes] else chunks))"

section \<open>Numbers\<close>

definition digit_value :: "char \<Rightarrow> nat option" where
  "digit_value c =
     (let n = of_char c :: nat in
      if 48 \<le> n \<and> n \<le> 57 then Some (n - 48)
      else if 97 \<le> n \<and> n \<le> 102 then Some (n - 87)
      else if 65 \<le> n \<and> n \<le> 70 then Some (n - 55)
      else None)"

fun scan_digits :: "nat \<Rightarrow> nat \<Rightarrow> string \<Rightarrow> nat \<times> string" where
  "scan_digits base acc [] = (acc, [])"
| "scan_digits base acc (c # cs) =
     (case digit_value c of
        Some d \<Rightarrow> if d < base then scan_digits base (base * acc + d) cs else (acc, c # cs)
      | None \<Rightarrow> (acc, c # cs))"

text \<open>
  What \<open>strtoul\<close> and \<open>strtoll\<close> recognise: white space, a sign, for base 16 a prefix \<open>0x\<close> that is followed by a digit, and
  digits. \<open>None\<close>: there is no digit, and the end pointer is the start of the string.
\<close>

definition has_digit :: "nat \<Rightarrow> string \<Rightarrow> bool" where
  "has_digit base s = (case s of [] \<Rightarrow> False | c # cs \<Rightarrow> (case digit_value c of Some d \<Rightarrow> d < base | None \<Rightarrow> False))"

definition scan_number :: "nat \<Rightarrow> string \<Rightarrow> (bool \<times> nat \<times> string) option" where
  "scan_number base s =
     (let s = dropWhile is_space s;
          (neg, s) = (case s of c # cs \<Rightarrow> if c = CHR ''-'' then (True, cs) else if c = CHR ''+'' then (False, cs) else (False, s)
                      | [] \<Rightarrow> (False, s));
          s = (if base = 16 \<and> length s > 2 \<and> s ! 0 = CHR ''0'' \<and> (s ! 1 = CHR ''x'' \<or> s ! 1 = CHR ''X'') \<and> has_digit 16 (drop 2 s)
               then drop 2 s else s)
      in if has_digit base s then (case scan_digits base 0 s of (v, rest) \<Rightarrow> Some (neg, v, rest)) else None)"

datatype hex_error = ErrnoRange | NotHex | TooWide

definition hexstring_to_uint :: "string \<Rightarrow> hex_error + 'a::len word" where
  "hexstring_to_uint s =
     (let (range, res, rest) =
        (case scan_number 16 s of
           None \<Rightarrow> (False, 0, s)
         | Some (neg, v, rest) \<Rightarrow>
             if v \<ge> 2 ^ 64 then (True, 2 ^ 64 - 1, rest) else (False, if neg then (2 ^ 64 - v) mod 2 ^ 64 else v, rest))
      in if range then Inl ErrnoRange
         else if rest \<noteq> [] then Inl NotHex
         else if res > 2 ^ LENGTH('a) - 1 then Inl TooWide
         else Inr (word_of_nat res))"

definition hex_char :: "nat \<Rightarrow> char" where
  "hex_char d = (if d < 10 then char_of (48 + d) else char_of (87 + d))"

fun hex_digits :: "nat \<Rightarrow> string" where
  "hex_digits n = (if n < 16 then [hex_char n] else hex_digits (n div 16) @ [hex_char (n mod 16)])"

declare hex_digits.simps [simp del]

definition int_to_hexstring :: "'a::len word \<Rightarrow> nat \<Rightarrow> string" where
  "int_to_hexstring i ndigits =
     (let ndigits = max (LENGTH('a) div 8 * 2) ndigits;
          s = hex_digits (unat i)
      in replicate (ndigits - length s) (CHR ''0'') @ s)"

definition hexstring_from_bytes :: "8 word list \<Rightarrow> string" where
  "hexstring_from_bytes bytes = foldl (\<lambda>s byte. s @ int_to_hexstring byte 2) [] bytes"

text \<open>A number of bytes; an error leaves an empty result. \<open>None\<close> is the exception for a string that is too short.\<close>

fun hex_bytes_loop :: "string \<Rightarrow> nat list \<Rightarrow> 8 word list \<Rightarrow> hex_error + 8 word list" where
  "hex_bytes_loop s [] bytes = Inr bytes"
| "hex_bytes_loop s (i # is) bytes =
     (case hexstring_to_uint (substr s (i * 2) 2) of
        Inl e \<Rightarrow> Inl e
      | Inr b \<Rightarrow> hex_bytes_loop s is (bytes @ [b]))"

definition get_n_bytes_from_hexstring :: "string \<Rightarrow> nat \<Rightarrow> (hex_error + 8 word list) option" where
  "get_n_bytes_from_hexstring s nbytes =
     (if length s < nbytes * 2 then None else Some (hex_bytes_loop s [0..<nbytes] []))"

datatype hexstring_error = BadLength | BadDigits hex_error | BadParse

definition hexstring_to_bytes :: "string \<Rightarrow> hexstring_error + 8 word list" where
  "hexstring_to_bytes s =
     (let inp = strip s None in
      if length inp mod 2 \<noteq> 0 then Inl BadLength
      else case get_n_bytes_from_hexstring inp (length inp div 2) of
             None \<Rightarrow> Inl BadParse
           | Some (Inl e) \<Rightarrow> if length inp div 2 \<noteq> 0 then Inl (BadDigits e) else Inr []
           | Some (Inr bytes) \<Rightarrow> if length bytes \<noteq> length inp div 2 then Inl BadParse else Inr bytes)"

text \<open>\<open>to_integer\<close> for a type with the given limits.\<close>

definition to_integer :: "int \<Rightarrow> int \<Rightarrow> string \<Rightarrow> int option" where
  "to_integer tmin tmax inp =
     (let s = strip inp None in
      if s = [] then None
      else case scan_number 10 s of
             None \<Rightarrow> None
           | Some (neg, v, rest) \<Rightarrow>
               let converted = (if neg then - int v else int v) in
               if rest \<noteq> [] then None
               else if converted < - (2 ^ 63) \<or> converted \<ge> 2 ^ 63 then None
               else if converted \<ge> 0 then (if converted \<le> tmax then Some converted else None)
               else if tmin < 0 then (if tmin \<le> converted then Some converted else None)
               else None)"

end
