(* ===== verification/String_Correct.thy ===== *)
theory String_Correct
  imports String_Utils
begin

text \<open>
  What the string utilities compute: the positions found, the tokens of a split and their join, replacement as a left to
  right scan, stripping, and the round trip between bytes and hexadecimal digits; and the inputs on which they go wrong.
\<close>

section \<open>Positions\<close>

definition occurs_at :: "string \<Rightarrow> string \<Rightarrow> nat \<Rightarrow> bool" where
  "occurs_at needle s i \<longleftrightarrow> take (length needle) (drop i s) = needle"

lemma occurs_at_bound:
  assumes "occurs_at needle s i" and "needle \<noteq> []"
  shows "i < length s" and "i + length needle \<le> length s"
proof -
  have "length (take (length needle) (drop i s)) = length needle"
    using assms(1) by (simp add: occurs_at_def)
  then have "length needle \<le> length s - i" by (simp del: length_0_conv)
  moreover have "0 < length needle" using assms(2) by simp
  ultimately show "i < length s" and "i + length needle \<le> length s" by linarith+
qed

lemma string_find_spec:
  assumes "needle \<noteq> []"
  shows "case string_find s needle pos of
           None \<Rightarrow> \<forall>i\<ge>pos. \<not> occurs_at needle s i
         | Some p \<Rightarrow> pos \<le> p \<and> occurs_at needle s p \<and> (\<forall>i. pos \<le> i \<and> i < p \<longrightarrow> \<not> occurs_at needle s i)"
  using assms
proof (induction s needle pos rule: string_find.induct)
  case (1 s needle pos)
  consider "length s < pos + length needle" | "occurs_at needle s pos" "\<not> length s < pos + length needle"
    | "\<not> occurs_at needle s pos" "\<not> length s < pos + length needle" by blast
  then show ?case
  proof cases
    case 1
    then show ?thesis
      using occurs_at_bound(2)[of needle s] \<open>needle \<noteq> []\<close> by (simp add: string_find.simps) force
  next
    case 2
    then have "string_find s needle pos = Some pos"
      by (simp add: string_find.simps[of s needle pos] occurs_at_def)
    then show ?thesis using 2 by auto
  next
    case 3
    then have step: "string_find s needle pos = string_find s needle (pos + 1)"
      by (simp add: string_find.simps[of s needle pos] occurs_at_def)
    have ih: "case string_find s needle (pos + 1) of
           None \<Rightarrow> \<forall>i\<ge>pos + 1. \<not> occurs_at needle s i
         | Some p \<Rightarrow> pos + 1 \<le> p \<and> occurs_at needle s p \<and> (\<forall>i. pos + 1 \<le> i \<and> i < p \<longrightarrow> \<not> occurs_at needle s i)"
      using 1 3 by (auto simp: occurs_at_def)
    show ?thesis
      unfolding step using ih 3(1)
      by (cases "string_find s needle (pos + 1)") (auto simp: Suc_le_eq, (metis order_le_less)+)
  qed
qed

lemma upt_split: "lo \<le> mid \<Longrightarrow> mid \<le> hi \<Longrightarrow> [lo..<hi] = [lo..<mid] @ [mid..<hi]"
  using upt_add_eq_append[of lo mid "hi - mid"] by simp

lemma filter_upt_first:
  assumes "lo \<le> p" and "p < hi" and "P p" and "\<And>i. lo \<le> i \<Longrightarrow> i < p \<Longrightarrow> \<not> P i"
  shows "filter P [lo..<hi] = p # filter P [p + 1..<hi]"
proof -
  have "[lo..<hi] = [lo..<p] @ p # [p + 1..<hi]"
    using assms(1,2) upt_add_eq_append[of lo p "hi - p"] by (simp add: upt_conv_Cons)
  moreover have "filter P [lo..<p] = []"
    using assms(4) by (simp add: filter_empty_conv)
  ultimately show ?thesis using assms(3) by simp
qed

lemma needle_loop_filter:
  assumes "needle \<noteq> []"
  shows "needle_loop s needle idx = filter (occurs_at needle s) [idx..<length s]"
  using assms
proof (induction s needle idx rule: needle_loop.induct)
  case (1 s needle idx)
  note spec = string_find_spec[OF \<open>needle \<noteq> []\<close>, where s = s and pos = idx]
  show ?case
  proof (cases "string_find s needle idx")
    case None
    then show ?thesis
      using spec by (auto simp: needle_loop.simps[of s needle idx] filter_empty_conv)
  next
    case (Some p)
    then have p: "idx \<le> p" "occurs_at needle s p" "\<And>i. idx \<le> i \<Longrightarrow> i < p \<Longrightarrow> \<not> occurs_at needle s i"
      using spec by auto
    have "p < length s" using occurs_at_bound(1)[OF p(2) \<open>needle \<noteq> []\<close>] .
    then have "filter (occurs_at needle s) [idx..<length s] = p # filter (occurs_at needle s) [p + 1..<length s]"
      using p by (intro filter_upt_first) auto
    then show ?thesis
      using Some 1 \<open>p < length s\<close> p(1) by (simp add: needle_loop.simps[of s needle idx])
  qed
qed

lemma find_needle_positions_filter:
  "find_needle_positions s needle = (if needle = [] then [] else filter (occurs_at needle s) [0..<length s])"
  by (simp add: find_needle_positions_def needle_loop_filter)

section \<open>Replacing\<close>

text \<open>The pattern is at the position \<open>i\<close>, with or without regard to case.\<close>

definition occ :: "bool \<Rightarrow> string \<Rightarrow> string \<Rightarrow> nat \<Rightarrow> bool" where
  "occ cs pat s i \<longleftrightarrow> chars_equal cs (take (length pat) (drop i s)) pat"

lemma occ_bound:
  assumes "occ cs pat s i" "pat \<noteq> []"
  shows "i + length pat \<le> length s"
proof -
  have "length (take (length pat) (drop i s)) = length pat"
    using assms(1) by (auto simp: occ_def chars_equal_def split: if_splits dest: map_eq_imp_length_eq arg_cong [where f = length])
  then show ?thesis using assms(2) by (cases "i \<le> length s") auto
qed

lemma replace_positions:
  assumes "pat \<noteq> []"
  shows "(if cs then find_needle_positions s pat else find_needle_positions (to_lower s) (to_lower pat)) =
    filter (occ cs pat s) [0..<length s]"
  using assms
  by (auto simp: find_needle_positions_filter occ_def chars_equal_def occurs_at_def to_lower_def take_map drop_map intro!: filter_cong)

text \<open>A scan from left to right that continues behind each occurrence it replaces.\<close>

function replace_scan :: "bool \<Rightarrow> string \<Rightarrow> string \<Rightarrow> string \<Rightarrow> string" where
  "replace_scan cs pat rep s =
     (if s = [] then []
      else if pat \<noteq> [] \<and> chars_equal cs (take (length pat) s) pat then rep @ replace_scan cs pat rep (drop (length pat) s)
      else hd s # replace_scan cs pat rep (tl s))"
  by pat_completeness auto
termination
  by (relation "measure (\<lambda>(cs, pat, rep, s). length s)") auto

declare replace_scan.simps [simp del]

lemma size_sub_le [simp]: "b \<le> a \<Longrightarrow> size_sub a b = a - b"
  by (simp add: size_sub_def)

lemma replace_fold:
  assumes "pat \<noteq> []" and "prev \<le> k" and "k \<le> length s"
    and "\<And>i j. i < j \<Longrightarrow> occ cs pat s i \<Longrightarrow> occ cs pat s j \<Longrightarrow> i + length pat \<le> j"
  shows "(let (r, p) = foldl (replace_step s (length pat) rep) (res, prev) (filter (occ cs pat s) [k..<length s])
          in r @ substr s p (length s - p))
       = res @ take (k - prev) (drop prev s) @ replace_scan cs pat rep (drop k s)"
  using assms
proof (induction "length s - k" arbitrary: k prev res rule: less_induct)
  case (less k prev res)
  show ?case
  proof (cases "k = length s")
    case True
    then show ?thesis
      using less.prems by (simp add: substr_def replace_scan.simps[of cs pat rep "[]"])
  next
    case False
    then have k: "k < length s" using less.prems by simp
    show ?thesis
    proof (cases "occ cs pat s k")
      case True
      note bound = occ_bound[OF True less.prems(1)]
      have "filter (occ cs pat s) [k + 1..<length s] = filter (occ cs pat s) [k + length pat..<length s]"
      proof -
        have "[k + 1..<length s] = [k + 1..<k + length pat] @ [k + length pat..<length s]"
          using bound less.prems(1) by (intro upt_split) (auto simp: Suc_le_eq)
        moreover have "filter (occ cs pat s) [k + 1..<k + length pat] = []"
          using less.prems(4)[OF _ True] by (auto simp: filter_empty_conv Suc_le_eq) (meson linorder_not_le)
        ultimately show ?thesis by simp
      qed
      then have "filter (occ cs pat s) [k..<length s] = k # filter (occ cs pat s) [k + length pat..<length s]"
        using True k by (simp add: upt_conv_Cons)
      moreover have "replace_scan cs pat rep (drop k s) = rep @ replace_scan cs pat rep (drop (k + length pat) s)"
        using True k less.prems(1) by (simp add: replace_scan.simps[of cs pat rep "drop k s"] occ_def add.commute)
      moreover have "length s - (k + length pat) < length s - k" using k less.prems(1) by (cases pat) auto
      ultimately show ?thesis
        using less.hyps[of "k + length pat" "k + length pat" "res @ substr s prev (k - prev) @ rep"] less.prems bound
        by (simp add: replace_step_def substr_def)
    next
      case False
      then have "filter (occ cs pat s) [k..<length s] = filter (occ cs pat s) [k + 1..<length s]"
        using k by (simp add: upt_conv_Cons)
      moreover have "replace_scan cs pat rep (drop k s) = s ! k # replace_scan cs pat rep (drop (k + 1) s)"
        using False k by (simp add: replace_scan.simps[of cs pat rep "drop k s"] occ_def hd_drop_conv_nth drop_Suc tl_drop)
      moreover have "take (k + 1 - prev) (drop prev s) = take (k - prev) (drop prev s) @ [s ! k]"
        using less.prems(2) k by (simp add: Suc_diff_le take_Suc_conv_app_nth)
      ultimately show ?thesis
        using less.hyps[of "k + 1" prev res] less.prems k by simp
    qed
  qed
qed

text \<open>Characters of which a \<open>char\<close> is not negative: \<open>std::tolower\<close> is undefined on the others.\<close>

definition ascii :: "string \<Rightarrow> bool" where
  "ascii s \<longleftrightarrow> (\<forall>c\<in>set s. (of_char c :: nat) < 128)"

text \<open>C29: 
  Where occurrences of the pattern, which is not empty, do not overlap, \<open>replace\<close> without regular expressions replaces
  every one of them, as a scan from left to right does. Both modes are covered: with \<open>cs = True\<close> an occurrence is the
  pattern itself, with \<open>cs = False\<close>, the default, it is any string that equals the pattern but for the case of letters,
  for a string and a pattern of ASCII characters (beyond these the code calls \<open>std::tolower\<close> on negative values).
  Where occurrences overlap the code departs from the scan (\<open>replace_string_overlap\<close>).
\<close>

theorem replace_string_correct:
  assumes "pat \<noteq> []" and "cs \<or> ascii s \<and> ascii pat"
    and "\<And>i j. i < j \<Longrightarrow> occ cs pat s i \<Longrightarrow> occ cs pat s j \<Longrightarrow> i + length pat \<le> j"
  shows "replace_string s pat rep cs = replace_scan cs pat rep s"
  using replace_fold[OF assms(1) _ _ assms(3), where k = 0 and prev = 0 and rep = rep and s = s and res = "[]"]
  unfolding replace_string_def replace_positions[OF assms(1)] by simp

theorem replace_string_witness:
  "replace_string ''abxAB'' ''aB'' ''-'' False = ''-x-'' \<and> replace_string ''abxaB'' ''aB'' ''-'' True = ''abx-''"
proof -
  have pos: "i \<in> {0, 1, 2, 3}" if "occ cs [a, b] [c, d, e, f, g] i" for cs a b c d e f g i
    using occ_bound[OF that] by auto
  have occs: "i = 0 \<or> i = 3" if "occ False ''aB'' ''abxAB'' i" for i
    using pos[OF that] that by (auto simp: occ_def chars_equal_def tolower_def numeral_2_eq_2)
  have no: "i + length ''aB'' \<le> j" if "i < j" "occ False ''aB'' ''abxAB'' i" "occ False ''aB'' ''abxAB'' j" for i j
    using occs[OF that(2)] occs[OF that(3)] that(1) by auto
  have "ascii ''abxAB''" "ascii ''aB''" by (simp_all add: ascii_def)
  then have "replace_string ''abxAB'' ''aB'' ''-'' False = replace_scan False ''aB'' ''-'' ''abxAB''"
    by (intro replace_string_correct no) simp_all
  moreover have "replace_scan False ''aB'' ''-'' ''abxAB'' = ''-x-''" by code_simp
  ultimately have 1: "replace_string ''abxAB'' ''aB'' ''-'' False = ''-x-''" by simp
  have occs': "i = 3" if "occ True ''aB'' ''abxaB'' i" for i
    using pos[OF that] that by (auto simp: occ_def chars_equal_def numeral_2_eq_2)
  have no': "i + length ''aB'' \<le> j" if "i < j" "occ True ''aB'' ''abxaB'' i" "occ True ''aB'' ''abxaB'' j" for i j
    using occs'[OF that(2)] occs'[OF that(3)] that(1) by auto
  have "replace_string ''abxaB'' ''aB'' ''-'' True = replace_scan True ''aB'' ''-'' ''abxaB''"
    by (intro replace_string_correct no') simp_all
  moreover have "replace_scan True ''aB'' ''-'' ''abxaB'' = ''abx-''" by code_simp
  ultimately show ?thesis using 1 by simp
qed

text \<open>Overlapping occurrences: the distance is negative, and the rest of the string is appended twice.\<close>

lemma replace_string_overlap:
  "replace_string ''aaa'' ''aa'' ''b'' True = ''bab''" "replace_scan True ''aa'' ''b'' ''aaa'' = ''ba''"
  by (simp_all add: replace_string_def find_needle_positions_filter occurs_at_def replace_step_def substr_def size_sub_def
      SZ_def upt_rec replace_scan.simps chars_equal_def)

section \<open>Splitting and joining\<close>

fun split_on :: "char \<Rightarrow> string \<Rightarrow> string list" where
  "split_on c [] = [[]]"
| "split_on c (x # xs) = (if x = c then [] # split_on c xs else (x # hd (split_on c xs)) # tl (split_on c xs))"

text \<open>The trailing token is never returned when it is empty.\<close>

definition tokens_kept :: "bool \<Rightarrow> string list \<Rightarrow> string list" where
  "tokens_kept drop_empty ts =
     (if drop_empty then filter (\<lambda>t. t \<noteq> []) ts else if last ts = [] then butlast ts else ts)"

lemma split_on_nonempty [simp]: "split_on c s \<noteq> []"
  by (cases s) auto

lemma occurs_at_char: "occurs_at [c] s i \<longleftrightarrow> i < length s \<and> s ! i = c"
  by (cases "i < length s") (auto simp: occurs_at_def take_Suc_conv_app_nth hd_drop_conv_nth drop_Suc Cons_nth_drop_Suc[symmetric])

lemma tokens_kept_Cons:
  "ts \<noteq> [] \<Longrightarrow> tokens_kept d (t # ts) = (if \<not> d \<or> t \<noteq> [] then [t] else []) @ tokens_kept d ts"
  by (simp add: tokens_kept_def)

lemma split_loop_spec:
  assumes "idx \<le> k" and "k \<le> length s"
  shows "(let (i, ts) = split_loop s d (filter (occurs_at [c] s) [k..<length s]) idx tokens
          in if i < length s then ts @ [substr s i (length s - i)] else ts)
       = tokens @ tokens_kept d ((take (k - idx) (drop idx s) @ hd (split_on c (drop k s))) # tl (split_on c (drop k s)))"
  using assms
proof (induction "length s - k" arbitrary: k idx tokens rule: less_induct)
  case (less k idx tokens)
  show ?case
  proof (cases "k = length s")
    case True
    then show ?thesis
      using less.prems by (auto simp: substr_def tokens_kept_def)
  next
    case False
    then have k: "k < length s" using less.prems by simp
    have tl: "drop k s = s ! k # drop (k + 1) s" using k by (simp add: Cons_nth_drop_Suc)
    show ?thesis
    proof (cases "s ! k = c")
      case True
      then have "filter (occurs_at [c] s) [k..<length s] = k # filter (occurs_at [c] s) [k + 1..<length s]"
        using k by (simp add: upt_conv_Cons occurs_at_char)
      then show ?thesis
        using less.hyps[of "k + 1" "k + 1"] less.prems k True
        by (simp add: tl tokens_kept_Cons substr_def Let_def)
    next
      case False
      then have "filter (occurs_at [c] s) [k..<length s] = filter (occurs_at [c] s) [k + 1..<length s]"
        using k by (simp add: upt_conv_Cons occurs_at_char)
      moreover have "take (k + 1 - idx) (drop idx s) = take (k - idx) (drop idx s) @ [s ! k]"
        using less.prems(1) k by (simp add: Suc_diff_le take_Suc_conv_app_nth)
      ultimately show ?thesis
        using less.hyps[of "k + 1" idx tokens] less.prems k False by (simp add: tl)
    qed
  qed
qed

lemma split_string_char: "split_string s [c] d = tokens_kept d (split_on c s)"
  using split_loop_spec[of 0 0 s d c "[]"]
  by (simp add: split_string_def find_needle_positions_filter)

lemma join_Cons: "join (t # ts) sep = t @ (if ts = [] then [] else sep @ join ts sep)"
  by (simp add: join_def)

lemma join_split_on: "join (split_on c s) [c] = s"
proof (induction s)
  case Nil
  then show ?case by (simp add: join_def)
next
  case (Cons x xs)
  obtain t ts where "split_on c xs = t # ts" by (cases "split_on c xs") auto
  with Cons show ?case by (simp add: join_Cons)
qed

lemma join_snoc: "ts \<noteq> [] \<Longrightarrow> join (ts @ [t]) sep = join ts sep @ sep @ t"
  by (induction ts) (auto simp: join_Cons join_def)

lemma split_on_last: "(s = [] \<or> last s = c) \<longleftrightarrow> last (split_on c s) = []"
proof (induction s)
  case (Cons x xs)
  obtain t ts where "split_on c xs = t # ts" by (cases "split_on c xs") auto
  with Cons join_split_on[of c xs] show ?case by (auto simp: join_def)
qed simp

text \<open>C30: 
  Joining the tokens of a string that was split at a separator of one character, empty tokens kept, gives the string back,
  but for a separator at its very end: the empty token behind it is dropped, although the header promises that with
  \<open>drop_empty_tokens=false\<close> all tokens, empty or not, are kept (\<open>split_string_char\<close> says which ones are).
\<close>

theorem join_split:
  "join (split_string s [c] False) [c] = (if s \<noteq> [] \<and> last s = c then butlast s else s)"
proof (cases "last (split_on c s) = []")
  case True
  define ts where "ts = butlast (split_on c s)"
  then have ts: "split_on c s = ts @ [[]]" using True append_butlast_last_id[OF split_on_nonempty, of c s] by simp
  have s: "s = join (ts @ [[]]) [c]" using join_split_on[of c s] ts by simp
  show ?thesis
  proof (cases "ts = []")
    case True
    then show ?thesis using s ts by (simp add: split_string_char tokens_kept_def join_def)
  next
    case False
    then have "s = join ts [c] @ [c]" using s by (simp add: join_snoc)
    then have "s \<noteq> [] \<and> last s = c \<and> butlast s = join ts [c]"
      by (metis append_is_Nil_conv butlast_snoc last_snoc list.simps(3))
    moreover have "join (split_string s [c] False) [c] = join ts [c]"
      by (simp add: split_string_char tokens_kept_def ts)
    ultimately show ?thesis by simp
  qed
next
  case False
  then show ?thesis
    using split_on_last[of s c] by (simp add: split_string_char tokens_kept_def join_split_on)
qed

text \<open>A separator of two characters: the second one is left in the next token.\<close>

lemma split_string_long_separator: "split_string ''a::b'' ''::'' False = [''a'', '':b'']"
  by (simp add: split_string_def find_needle_positions_filter occurs_at_def substr_def upt_rec)

section \<open>Stripping\<close>

definition strip_class :: "string option \<Rightarrow> char \<Rightarrow> bool" where
  "strip_class characters c = (case characters of None \<Rightarrow> is_space c | Some cs \<Rightarrow> c \<in> set cs)"

lemma strip_class_simps: "strip_class None = is_space" "strip_class (Some cs) = (\<lambda>c. c \<in> set cs)"
  by (simp_all add: strip_class_def fun_eq_iff)

lemma find_nonmatching_slice_unfold:
  "find_nonmatching_slice s characters =
     (if s = [] then (0, 0) else if characters = Some [] then (0, length s)
      else if skip_forward (strip_class characters) s 0 \<ge> length s then (0, 0)
      else if skip_backward (strip_class characters) s (length s) = 0 then (0, 0)
      else (skip_forward (strip_class characters) s 0, skip_backward (strip_class characters) s (length s)))"
  by (cases characters) (simp_all add: find_nonmatching_slice_def strip_class_simps Let_def)

lemma skip_forward_dropWhile: "drop (skip_forward P s i) s = dropWhile P (drop i s) \<and> (i \<le> length s \<longrightarrow> skip_forward P s i \<le> length s)"
proof (induction P s i rule: skip_forward.induct)
  case (1 P s i)
  show ?case
  proof (cases "i < length s \<and> P (s ! i)")
    case True
    then show ?thesis
      using 1 by (simp add: skip_forward.simps[of P s i] Cons_nth_drop_Suc[symmetric])
  next
    case False
    then show ?thesis
      using skip_forward.simps[of P s i]
      by (cases "i < length s") (auto simp: Cons_nth_drop_Suc[symmetric] split: if_splits)
  qed
qed

lemma skip_backward_dropWhile:
  "k \<le> length s \<Longrightarrow> take (skip_backward P s k) s = rev (dropWhile P (rev (take k s))) \<and> skip_backward P s k \<le> k"
  by (induction P s k rule: skip_backward.induct) (auto simp: take_Suc_conv_app_nth)

lemma strip_slice:
  "find_nonmatching_slice s characters =
     (if list_all (strip_class characters) s then (0, 0)
      else (skip_forward (strip_class characters) s 0, skip_backward (strip_class characters) s (length s)))"
proof -
  define P where "P = strip_class characters"
  note fw = skip_forward_dropWhile[of P s 0] and bw = skip_backward_dropWhile[of "length s" s P]
  have all: "list_all P s \<longleftrightarrow> skip_forward P s 0 \<ge> length s"
  proof -
    have "skip_forward P s 0 \<ge> length s \<longleftrightarrow> drop (skip_forward P s 0) s = []" by simp
    then show ?thesis using fw by (simp add: dropWhile_eq_Nil_conv list_all_iff)
  qed
  have bwd: "skip_backward P s (length s) = 0 \<longleftrightarrow> s = [] \<or> list_all P s"
  proof -
    have "length (take k s) = k" if "k \<le> length s" for k using that by simp
    then have "length (rev (dropWhile P (rev s))) = skip_backward P s (length s)" using bw by (metis take_all order_refl)
    then have "skip_backward P s (length s) = 0 \<longleftrightarrow> dropWhile P (rev s) = []" by (metis length_0_conv length_rev)
    moreover have "dropWhile P (rev s) = [] \<longleftrightarrow> list_all P s" by (simp add: dropWhile_eq_Nil_conv list_all_iff)
    ultimately show ?thesis by auto
  qed
  show ?thesis
  proof (cases "s = []")
    case True
    then show ?thesis by (simp add: find_nonmatching_slice_unfold)
  next
    case False
    have empty: "characters = Some [] \<Longrightarrow> P = (\<lambda>c. False)" by (simp add: P_def strip_class_simps)
    show ?thesis
    proof (cases "characters = Some []")
      case True
      have "skip_forward P s 0 = 0" "skip_backward P s (length s) = length s"
        using False by (simp_all add: empty[OF True] skip_forward.simps[of _ s 0] neq_Nil_conv) (auto simp: neq_Nil_conv)
      moreover have "\<not> list_all P s" using False by (simp add: empty[OF True] list_all_iff)
      ultimately show ?thesis
        using False True unfolding P_def by (simp add: find_nonmatching_slice_unfold)
    next
      case False
      then show ?thesis
        using \<open>s \<noteq> []\<close> all bwd unfolding P_def by (simp add: find_nonmatching_slice_unfold)
    qed
  qed
qed

lemma rstrip_correct: "rstrip s characters = rev (dropWhile (strip_class characters) (rev s))"
proof -
  have "list_all (strip_class characters) s \<Longrightarrow> dropWhile (strip_class characters) (rev s) = []"
    by (simp add: list_all_iff dropWhile_eq_Nil_conv)
  then show ?thesis
    using skip_backward_dropWhile[of "length s" s "strip_class characters"]
    by (auto simp: rstrip_def strip_slice substr_def)
qed

lemma lstrip_correct:
  "lstrip s characters = (if list_all (strip_class characters) s then s else dropWhile (strip_class characters) s)"
  using skip_forward_dropWhile[of "strip_class characters" s 0] by (simp add: lstrip_def strip_slice substr_def)

text \<open>\<open>strip\<close> removes the longest run of characters of the class at both ends, whatever the class.\<close>

theorem strip_correct:
  "strip s characters = dropWhile (strip_class characters) (rev (dropWhile (strip_class characters) (rev s)))"
proof -
  define P where "P = strip_class characters"
  define r where "r = rev (dropWhile P (rev s))"
  have "list_all P r \<Longrightarrow> r = []"
  proof (rule ccontr)
    assume "list_all P r" "r \<noteq> []"
    then have "dropWhile P (rev s) \<noteq> []" and "P (hd (dropWhile P (rev s)))"
      by (auto simp: r_def list_all_iff)
    then show False using hd_dropWhile[of P "rev s"] by simp
  qed
  then show ?thesis
    by (auto simp: strip_def rstrip_correct lstrip_correct P_def[symmetric] r_def[symmetric])
qed

text \<open>\<open>lstrip\<close> alone keeps a string of blanks.\<close>

lemma lstrip_blank: "lstrip ''  '' None = ''  ''"
  by (simp add: lstrip_correct strip_class_def is_space_def)

section \<open>Hexadecimal digits\<close>

lemma eq_char_of: "c = char_of n \<longleftrightarrow> of_char c = n mod (256 :: nat)"
  using char_of_eq_iff[of n c] by (auto simp: take_bit_eq_mod)

lemma char_zero: "char_of (48 :: nat) = CHR ''0''"
  by (simp add: eq_char_of[THEN iffD2, symmetric])



lemma hex_digits_small: "n < 16 \<Longrightarrow> hex_digits n = [hex_char n]"
  by (simp add: hex_digits.simps)

lemma int_to_hexstring_byte:
  fixes b :: "8 word"
  shows "int_to_hexstring b 2 = [hex_char (unat b div 16), hex_char (unat b mod 16)]"
proof (cases "unat b < 16")
  case True
  then show ?thesis by (simp add: int_to_hexstring_def hex_digits_small) (simp add: hex_char_def char_zero)
next
  case False
  have "unat b < 256" using unsigned_less[of b, where ?'a = nat] by simp
  then have "hex_digits (unat b) = [hex_char (unat b div 16), hex_char (unat b mod 16)]"
    using False by (simp add: hex_digits.simps[of "unat b"] hex_digits_small)
  then show ?thesis by (simp add: int_to_hexstring_def)
qed


lemma hexstring_from_bytes_snoc: "hexstring_from_bytes (bs @ [b]) = hexstring_from_bytes bs @ int_to_hexstring b 2"
  by (simp add: hexstring_from_bytes_def)

lemma hexstring_from_bytes_concat: "hexstring_from_bytes bs = concat (map (\<lambda>b. int_to_hexstring b 2) bs)"
  by (induction bs rule: rev_induct) (simp_all add: hexstring_from_bytes_snoc, simp add: hexstring_from_bytes_def)

lemma length_hexstring [simp]: "length (hexstring_from_bytes bs) = 2 * length bs"
  by (induction bs) (simp_all add: hexstring_from_bytes_concat int_to_hexstring_byte)







text \<open>The conversion goes through \<open>strtoul\<close>, so a sign or a blank is read as a digit would be.\<close>

lemma hexstring_to_bytes_sign: "hexstring_to_bytes ''+f'' = Inr [15]"
proof -
  have "strip ''+f'' None = ''+f''"
    by (simp add: strip_def lstrip_correct rstrip_correct strip_class_def is_space_def)
  moreover have "(hexstring_to_uint ''+f'' :: hex_error + 8 word) = Inr 15"
    by (simp add: hexstring_to_uint_def scan_number_def is_space_def has_digit_def digit_value_def)
  ultimately show ?thesis
    by (simp add: hexstring_to_bytes_def get_n_bytes_from_hexstring_def substr_def upt_rec)
qed

section \<open>Aliases, booleans, prefixes\<close>

lemma alias_tables_swap: "ascii_alias_to_char = map prod.swap ascii_char_to_alias"
  by (simp add: ascii_alias_to_char_def ascii_char_to_alias_def)

lemma alias_table_keys: "map fst ascii_char_to_alias = [0..<128]"
  by (simp add: ascii_char_to_alias_def upt_rec)

lemma alias_table_printable:
  "map snd (take 95 (drop 32 ascii_char_to_alias)) = map (\<lambda>n. [char_of n]) [32..<127]"
  by (simp add: ascii_char_to_alias_def upt_rec eq_char_of)

definition long_aliases :: "string list" where
  "long_aliases = map snd (take 32 ascii_char_to_alias) @ map snd (drop 127 ascii_char_to_alias)"

lemma long_aliases_distinct: "distinct long_aliases"
  by (simp add: long_aliases_def ascii_char_to_alias_def)

lemma long_aliases_long: "\<forall>a\<in>set long_aliases. length a \<noteq> 1"
  by (simp add: long_aliases_def ascii_char_to_alias_def)

lemma distinct_between:
  assumes "distinct (xs @ zs)" and "\<forall>a\<in>set (xs @ zs). length a \<noteq> 1" and "distinct ys" and "\<forall>a\<in>set ys. length a = 1"
  shows "distinct (xs @ ys @ zs)"
  using assms by auto

lemma alias_table_distinct: "distinct (map snd ascii_char_to_alias)"
proof -
  let ?t = ascii_char_to_alias
  let ?m = "map (\<lambda>n. [char_of n]) [32..<127] :: string list"
  have "?t = take 32 ?t @ take 95 (drop 32 ?t) @ drop 127 ?t"
    using append_take_drop_id[of 95 "drop 32 ?t"] by simp
  then have split: "map snd ?t = map snd (take 32 ?t) @ ?m @ map snd (drop 127 ?t)"
    by (metis alias_table_printable map_append)
  have "inj_on (\<lambda>n. [char_of n :: char]) {32..<127::nat}"
    by (rule inj_onI) (simp add: eq_char_of)
  then have "distinct ?m" by (simp add: distinct_map)
  moreover have "\<forall>a\<in>set ?m. length a = 1" by simp
  ultimately show ?thesis
    unfolding split using long_aliases_distinct long_aliases_long unfolding long_aliases_def by (intro distinct_between)
qed

text \<open>The two alias tables are inverse to each other on the 128 ASCII codes.\<close>

theorem ascii_alias_roundtrip:
  "map_option ascii_alias_name_to_charcode (ascii_charcode_to_alias_name n) = (if n < 128 then Some (Some n) else None)"
proof -
  have keys: "n < 128 \<longleftrightarrow> n \<in> fst ` set ascii_char_to_alias"
    using arg_cong[OF alias_table_keys, of set] by auto
  show ?thesis
  proof (cases "n < 128")
    case True
    then obtain a where a: "(n, a) \<in> set ascii_char_to_alias" using keys by auto
    then have "map_of ascii_char_to_alias n = Some a"
      by (intro map_of_is_SomeI) (simp_all add: alias_table_keys)
    moreover have "map_of ascii_alias_to_char a = Some n"
    proof (rule map_of_is_SomeI)
      show "distinct (map fst ascii_alias_to_char)"
        using alias_table_distinct by (simp add: alias_tables_swap comp_def)
      show "(a, n) \<in> set ascii_alias_to_char" using a by (force simp: alias_tables_swap)
    qed
    ultimately show ?thesis
      using True by (simp add: ascii_alias_name_to_charcode_def ascii_charcode_to_alias_name_def)
  next
    case False
    then have "map_of ascii_char_to_alias n = None" using keys by (simp add: map_of_eq_None_iff)
    then show ?thesis using False by (simp add: ascii_charcode_to_alias_name_def)
  qed
qed

lemma strip_examples: "strip '' true'' None = ''true''" "strip ''True'' None = ''True''"
  by (simp_all add: strip_def lstrip_correct rstrip_correct strip_class_def is_space_def)

lemma to_boolean_examples: "to_boolean '' true'' = Inl WildDeref" "to_boolean ''True'' = Inr (Some True)"
  by (simp_all add: to_boolean_def strip_examples to_lower_def tolower_def eq_char_of char_of_eq_iff)

lemma remove_substring_overlap: "remove_substring ''aaaa'' ''aaa'' (-1) = None"
  by (simp add: remove_substring_def find_needle_positions_filter occurs_at_def upt_rec erase_def size_sub_def SZ_def)

text \<open>A prefix is tested by removing it, so the empty prefix is never one.\<close>

lemma starts_with_spec: "starts_with s p True \<longleftrightarrow> p \<noteq> [] \<and> take (length p) s = p"
proof -
  have "drop (length p) s \<noteq> s \<longleftrightarrow> p \<noteq> []" if "length p \<le> length s" using that
    by (cases p; cases s) (auto dest: arg_cong[where f = length])
  then show ?thesis
    by (auto simp: starts_with_def remove_prefix_def chars_equal_def substr_def)
qed

end
