(* ===== verification/Sha256.thy ===== *)
theory Sha256
  imports Md5_Correct Bits_Cxx String_Utils
begin

text \<open>
  The SHA-256 digest and its HMAC of \<open>src/hash/sha/sha256.cxx\<close> and \<open>include/tarp/hash/checksum/sha256.hxx\<close>, on a little-endian
  machine. A buffer is a list of bytes; the part of the context's buffer that is not initialised is a parameter of a new
  context.
\<close>

unbundle bit_operations_syntax

section \<open>Byte order\<close>

definition to_hbo32 :: "32 word \<Rightarrow> 32 word" where
  "to_hbo32 x = byteswap32 x"

definition to_nbo32 :: "32 word \<Rightarrow> 32 word" where
  "to_nbo32 x = byteswap32 x"

definition to_nbo64 :: "64 word \<Rightarrow> 64 word" where
  "to_nbo64 x = byteswap64 x"

text \<open>The conversion of a buffer, word by word; a copy of a word to memory stores its bytes in little-endian order.\<close>

fun to_nbo_buffer :: "nat \<Rightarrow> 8 word list \<Rightarrow> 8 word list" where
  "to_nbo_buffer 0 buff = buff"
| "to_nbo_buffer (Suc n) buff = pack_buff_le (to_nbo32 (load_uint_le buff)) @ to_nbo_buffer n (drop 4 buff)"

definition to_nbo :: "8 word list \<Rightarrow> 8 word list" where
  "to_nbo buff = to_nbo_buffer (length buff div 4) buff"

section \<open>The context\<close>

record 'l sha256_ctx =
  sha_buff :: "8 word list"
  sha_offset :: nat
  sha_msglen :: 'l
  sha_hash :: "32 word list"

type_synonym sha256 = "64 word sha256_ctx"

definition BLOCK_SIZE_BYTES :: nat where
  "BLOCK_SIZE_BYTES = 64"

definition sha256_init :: "32 word list" where
  "sha256_init = [0x6a09e667, 0xbb67ae85, 0x3c6ef372, 0xa54ff53a, 0x510e527f, 0x9b05688c, 0x1f83d9ab, 0x5be0cd19]"

definition sha256_new :: "8 word list \<Rightarrow> sha256" where
  "sha256_new buff = \<lparr>sha_buff = buff, sha_offset = 0, sha_msglen = 0, sha_hash = sha256_init\<rparr>"

definition sha256_constants :: "32 word list" where
  "sha256_constants = concat [
    [0x428a2f98, 0x71374491, 0xb5c0fbcf, 0xe9b5dba5, 0x3956c25b, 0x59f111f1],
    [0x923f82a4, 0xab1c5ed5, 0xd807aa98, 0x12835b01, 0x243185be, 0x550c7dc3],
    [0x72be5d74, 0x80deb1fe, 0x9bdc06a7, 0xc19bf174, 0xe49b69c1, 0xefbe4786],
    [0x0fc19dc6, 0x240ca1cc, 0x2de92c6f, 0x4a7484aa, 0x5cb0a9dc, 0x76f988da],
    [0x983e5152, 0xa831c66d, 0xb00327c8, 0xbf597fc7, 0xc6e00bf3, 0xd5a79147],
    [0x06ca6351, 0x14292967, 0x27b70a85, 0x2e1b2138, 0x4d2c6dfc, 0x53380d13],
    [0x650a7354, 0x766a0abb, 0x81c2c92e, 0x92722c85, 0xa2bfe8a1, 0xa81a664b],
    [0xc24b8b70, 0xc76c51a3, 0xd192e819, 0xd6990624, 0xf40e3585, 0x106aa070],
    [0x19a4c116, 0x1e376c08, 0x2748774c, 0x34b0bcb5, 0x391c0cb3, 0x4ed8aa4a],
    [0x5b9cca4f, 0x682e6ff3, 0x748f82ee, 0x78a5636f, 0x84c87814, 0x8cc70208],
    [0x90befffa, 0xa4506ceb, 0xbef9a3f7, 0xc67178f2]]"

section \<open>Blocks\<close>

definition majority :: "'a::len word \<Rightarrow> 'a word \<Rightarrow> 'a word \<Rightarrow> 'a word" where
  "majority x y z = (x AND y) XOR (x AND z) XOR (y AND z)"

definition sha_choose :: "'a::len word \<Rightarrow> 'a word \<Rightarrow> 'a word \<Rightarrow> 'a word" where
  "sha_choose x y z = (x AND y) XOR (NOT x AND z)"

definition sha_sum0 :: "32 word \<Rightarrow> 32 word" where
  "sha_sum0 x = rotate_right 2 x XOR rotate_right 13 x XOR rotate_right 22 x"

definition sha_sum1 :: "32 word \<Rightarrow> 32 word" where
  "sha_sum1 x = rotate_right 6 x XOR rotate_right 11 x XOR rotate_right 25 x"

definition sha_op0 :: "32 word \<Rightarrow> 32 word" where
  "sha_op0 x = rotate_right 7 x XOR rotate_right 18 x XOR drop_bit 3 x"

definition sha_op1 :: "32 word \<Rightarrow> 32 word" where
  "sha_op1 x = rotate_right 17 x XOR rotate_right 19 x XOR drop_bit 10 x"

definition sched_step :: "32 word list \<Rightarrow> nat \<Rightarrow> 32 word list" where
  "sched_step sched i =
     sched @ [sha_op1 (sched ! (i - 2)) + sched ! (i - 7) + sha_op0 (sched ! (i - 15)) + sched ! (i - 16)]"

definition sha_schedule :: "8 word list \<Rightarrow> 32 word list" where
  "sha_schedule data = foldl sched_step (map (\<lambda>i. to_hbo32 (load_uint_le (drop (4 * i) data))) [0..<16]) [16..<64]"

type_synonym sha_regs = "32 word \<times> 32 word \<times> 32 word \<times> 32 word \<times> 32 word \<times> 32 word \<times> 32 word \<times> 32 word"

definition sha_round :: "32 word list \<Rightarrow> sha_regs \<Rightarrow> nat \<Rightarrow> sha_regs" where
  "sha_round sched = (\<lambda>(a, b, c, d, e, f, g, h) i.
     let T1 = h + sha_sum1 e + sha_choose e f g + sha256_constants ! i + sched ! i;
         T2 = sha_sum0 a + majority a b c;
         h = g;
         g = f;
         f = e;
         e = d + T1;
         d = c;
         c = b;
         b = a;
         a = T1 + T2
     in (a, b, c, d, e, f, g, h))"

definition sha_process_block :: "sha256 \<Rightarrow> 8 word list \<Rightarrow> sha256" where
  "sha_process_block ctx data =
     (let H = sha_hash ctx;
          (a, b, c, d, e, f, g, h) =
            foldl (sha_round (sha_schedule data)) (H ! 0, H ! 1, H ! 2, H ! 3, H ! 4, H ! 5, H ! 6, H ! 7) [0..<64]
      in ctx\<lparr>sha_hash := [H ! 0 + a, H ! 1 + b, H ! 2 + c, H ! 3 + d, H ! 4 + e, H ! 5 + f, H ! 6 + g, H ! 7 + h]\<rparr>)"

section \<open>Processing\<close>

definition mem_copy :: "8 word list \<Rightarrow> nat \<Rightarrow> 8 word list \<Rightarrow> 8 word list" where
  "mem_copy buff offset xs = take offset buff @ xs @ drop (offset + length xs) buff"

definition sha_process_last :: "sha256 \<Rightarrow> sha256" where
  "sha_process_last ctx =
     (let chunklen = unat (sha_msglen ctx) mod BLOCK_SIZE_BYTES;
          buff = mem_copy (sha_buff ctx) chunklen (replicate (length (sha_buff ctx) - chunklen) 0);
          buff = buff[chunklen := 0x80];
          offset = (if chunklen < 56 then 56 else 64 + 56);
          len = to_nbo64 (push_bit 3 (sha_msglen ctx));
          buff = mem_copy buff offset (pack_buff_le len);
          ctx = ctx\<lparr>sha_buff := buff\<rparr>;
          ctx = sha_process_block ctx buff
      in if offset > 64 then sha_process_block ctx (drop 64 buff) else ctx)"

definition sha_process_one :: "sha256 \<Rightarrow> 8 word list \<Rightarrow> sha256 \<times> 8 word list" where
  "sha_process_one ctx data =
     (let n = min (BLOCK_SIZE_BYTES - sha_offset ctx) (length data);
          ctx = ctx\<lparr>sha_buff := mem_copy (sha_buff ctx) (sha_offset ctx) (take n data)\<rparr>;
          ctx = ctx\<lparr>sha_msglen := sha_msglen ctx + of_nat n\<rparr>;
          ctx = ctx\<lparr>sha_offset := sha_offset ctx + n\<rparr>;
          data = drop n data
      in if sha_offset ctx = BLOCK_SIZE_BYTES then ((sha_process_block ctx (sha_buff ctx))\<lparr>sha_offset := 0\<rparr>, data)
         else (ctx, data))"

function sha_full_blocks :: "sha256 \<Rightarrow> 8 word list \<Rightarrow> sha256 \<times> 8 word list" where
  "sha_full_blocks ctx data =
     (if length data \<ge> BLOCK_SIZE_BYTES
      then let ctx = ctx\<lparr>sha_msglen := sha_msglen ctx + of_nat BLOCK_SIZE_BYTES\<rparr>;
               ctx = sha_process_block ctx data
           in sha_full_blocks ctx (drop BLOCK_SIZE_BYTES data)
      else (ctx, data))"
  by pat_completeness auto
termination
  by (relation "measure (\<lambda>(ctx, data). length data)") (auto simp: BLOCK_SIZE_BYTES_def)

declare sha_full_blocks.simps [simp del]

definition sha_process :: "sha256 \<Rightarrow> 8 word list \<Rightarrow> bool \<Rightarrow> sha256" where
  "sha_process ctx data last_chunk =
     (let (ctx, data) = (if sha_offset ctx > 0 then sha_process_one ctx data else (ctx, data));
          (ctx, data) = sha_full_blocks ctx data;
          (ctx, data) = (if length data > 0 then sha_process_one ctx data else (ctx, data))
      in if last_chunk then sha_process_last ctx else ctx)"

definition sha_reset :: "sha256 \<Rightarrow> sha256" where
  "sha_reset ctx = sha256_new (replicate 128 0)"

section \<open>Results\<close>

definition sha_get_hashstring :: "sha256 \<Rightarrow> string" where
  "sha_get_hashstring ctx = concat (map (\<lambda>w. let s = hex_digits (unat w) in replicate (4 * 2 - length s) (CHR ''0'') @ s) (sha_hash ctx))"

definition sha_get_hashbytes :: "sha256 \<Rightarrow> 8 word list" where
  "sha_get_hashbytes ctx = to_nbo (concat (map pack_buff_le (sha_hash ctx)))"

definition sha256sum :: "8 word list \<Rightarrow> 8 word list \<Rightarrow> string" where
  "sha256sum garbage data = sha_get_hashstring (sha_process (sha256_new garbage) data True)"

definition sha256_hmac_bytes :: "8 word list \<Rightarrow> 8 word list \<Rightarrow> 8 word list \<Rightarrow> 8 word list" where
  "sha256_hmac_bytes garbage msg key =
     (let k = replicate BLOCK_SIZE_BYTES 0;
          ctx = sha256_new garbage;
          (ctx, k) =
            (if length key \<le> BLOCK_SIZE_BYTES then (ctx, mem_copy k 0 key)
             else let ctx = sha_process ctx key True; digested_key = sha_get_hashbytes ctx in (ctx, mem_copy k 0 digested_key));
          ipad = map (\<lambda>b. 0x36 XOR b) k;
          opad = map (\<lambda>b. 0x5c XOR b) k;
          ctx = sha_reset ctx;
          ctx = sha_process ctx ipad False;
          ctx = sha_process ctx msg True;
          ipad_hashed = sha_get_hashbytes ctx;
          ctx = sha_reset ctx;
          ctx = sha_process ctx opad False;
          ctx = sha_process ctx ipad_hashed True
      in sha_get_hashbytes ctx)"

definition sha256_hmac_hashstring :: "8 word list \<Rightarrow> 8 word list \<Rightarrow> 8 word list \<Rightarrow> string" where
  "sha256_hmac_hashstring garbage msg key = hexstring_from_bytes (sha256_hmac_bytes garbage msg key)"

end
