(* ===== verification/Sha256_Correct.thy ===== *)
theory Sha256_Correct
  imports Sha256
begin

text \<open>
  A reference definition of SHA-256 after FIPS 180-4 and of HMAC after RFC 2104, and the proof that the context-based
  implementation computes them for every way of cutting the message into pieces.
\<close>

unbundle bit_operations_syntax

section \<open>The reference\<close>

definition fips_Ch :: "32 word \<Rightarrow> 32 word \<Rightarrow> 32 word \<Rightarrow> 32 word" where
  "fips_Ch x y z = (x AND y) OR (NOT x AND z)"

definition fips_Maj :: "32 word \<Rightarrow> 32 word \<Rightarrow> 32 word \<Rightarrow> 32 word" where
  "fips_Maj x y z = (x AND y) OR (x AND z) OR (y AND z)"

definition fips_Sum :: "nat \<Rightarrow> nat \<Rightarrow> nat \<Rightarrow> 32 word \<Rightarrow> 32 word" where
  "fips_Sum i j k x = word_rotr i x XOR word_rotr j x XOR word_rotr k x"

definition fips_sigma :: "nat \<Rightarrow> nat \<Rightarrow> nat \<Rightarrow> 32 word \<Rightarrow> 32 word" where
  "fips_sigma i j k x = word_rotr i x XOR word_rotr j x XOR drop_bit k x"

function fips_W :: "8 word list \<Rightarrow> nat \<Rightarrow> 32 word" where
  "fips_W block t =
     (if t < 16 then load_uint_be (drop (4 * t) block)
      else fips_sigma 17 19 10 (fips_W block (t - 2)) + fips_W block (t - 7) + fips_sigma 7 18 3 (fips_W block (t - 15)) + fips_W block (t - 16))"
  by pat_completeness auto
termination
  by (relation "measure snd") auto

declare fips_W.simps [simp del]

text \<open>One round on the list of the registers \<open>a\<close> to \<open>h\<close>.\<close>

definition fips_round :: "8 word list \<Rightarrow> 32 word list \<Rightarrow> nat \<Rightarrow> 32 word list" where
  "fips_round block R t =
     (let T1 = R ! 7 + fips_Sum 6 11 25 (R ! 4) + fips_Ch (R ! 4) (R ! 5) (R ! 6) + sha256_constants ! t + fips_W block t;
          T2 = fips_Sum 2 13 22 (R ! 0) + fips_Maj (R ! 0) (R ! 1) (R ! 2)
      in (butlast ((T1 + T2) # R))[4 := R ! 3 + T1])"

definition fips_compress :: "32 word list \<Rightarrow> 8 word list \<Rightarrow> 32 word list" where
  "fips_compress H block = map2 (+) H (foldl (fips_round block) H [0..<64])"

definition fips_pad :: "8 word list \<Rightarrow> 8 word list" where
  "fips_pad m = m @ 0x80 # replicate ((119 - length m mod 64) mod 64) 0 @ pack_buff_be (of_nat (8 * length m) :: 64 word)"

definition fips_sha256 :: "8 word list \<Rightarrow> 8 word list" where
  "fips_sha256 m = concat (map pack_buff_be (foldl fips_compress sha256_init (md5_blocks (fips_pad m))))"

definition rfc_hmac :: "8 word list \<Rightarrow> 8 word list \<Rightarrow> 8 word list" where
  "rfc_hmac key msg =
     (let k = (if 64 < length key then fips_sha256 key else key);
          k = k @ replicate (64 - length k) 0
      in fips_sha256 (map ((XOR) 0x5c) k @ fips_sha256 (map ((XOR) 0x36) k @ msg)))"

section \<open>Bytes and bits\<close>

lemma rotate_right_rotr: "0 < n \<Longrightarrow> n < 32 \<Longrightarrow> rotate_right n x = word_rotr n (x :: 32 word)"
  unfolding rotate_right_def
  by (rule bit_word_eqI) (auto simp: bit_or_iff bit_drop_bit_eq bit_push_bit_iff bit_word_rotr_iff mod_if add.commute dest: bit_imp_le_length)

lemma bit_high: "32 \<le> n \<Longrightarrow> \<not> bit (x :: 32 word) n" "64 \<le> n \<Longrightarrow> \<not> bit (y :: 64 word) n" "8 \<le> n \<Longrightarrow> \<not> bit (z :: 8 word) n"
  using bit_imp_le_length[of x n] bit_imp_le_length[of y n] bit_imp_le_length[of z n] by auto

lemma mask_bytes:
  "(0xff00 :: 'a::len word) = push_bit 8 (mask 8)" "(0xff0000 :: 'a word) = push_bit 16 (mask 8)"
  "(0xff000000 :: 'a word) = push_bit 24 (mask 8)" "(0xff00000000 :: 'a word) = push_bit 32 (mask 8)"
  "(0xff0000000000 :: 'a word) = push_bit 40 (mask 8)" "(0xff000000000000 :: 'a word) = push_bit 48 (mask 8)"
  by (simp_all add: mask_eq_exp_minus_1 push_bit_eq_mult)

text \<open>A bit number below 32 or 64 by byte and by position in the byte.\<close>

lemma byte_cases:
  obtains q r where "j = 8 * q + r" "r < 8" "q = j div 8" "r = j mod (8 :: nat)"
  using mult_div_mod_eq[of 8 j] by (metis mod_less_divisor zero_less_numeral)

lemma quarter_cases: "q < 4 \<Longrightarrow> q = 0 \<or> q = 1 \<or> q = 2 \<or> q = (3 :: nat)"
  by linarith

lemma eighth_cases: "q < 8 \<Longrightarrow> q = 0 \<or> q = 1 \<or> q = 2 \<or> q = 3 \<or> q = 4 \<or> q = 5 \<or> q = 6 \<or> q = (7 :: nat)"
  by linarith

lemma byteswap32_bits:
  assumes "q < 4" "r < 8"
  shows "bit (byteswap32 x) (8 * q + r) \<longleftrightarrow> bit x (8 * (3 - q) + r)"
  using quarter_cases[OF assms(1)] assms(2) unfolding byteswap32_def mask_bytes
  by (elim disjE) (auto simp: bit_or_iff bit_and_iff bit_push_bit_iff bit_drop_bit_eq bit_mask_iff bit_high)

lemma byteswap64_bits:
  assumes "q < 8" "r < 8"
  shows "bit (byteswap64 x) (8 * q + r) \<longleftrightarrow> bit x (8 * (7 - q) + r)"
  using eighth_cases[OF assms(1)] assms(2) unfolding byteswap64_def mask_bytes
  by (elim disjE) (auto simp: bit_or_iff bit_and_iff bit_push_bit_iff bit_drop_bit_eq bit_mask_iff bit_high)

lemma upt_4: "[0..<4] = [0, 1, 2, 3 :: nat]"
  by code_simp

lemma load_le_bits:
  assumes "q < 4" "r < 8"
  shows "bit (load_uint_le buff :: 32 word) (8 * q + r) \<longleftrightarrow> bit (buff ! q) r"
  using quarter_cases[OF assms(1)] assms(2)
  by (elim disjE) (auto simp: load_uint_le_def upt_4 bytes2bits_def BITS_IN_BYTE_def SZ_num bit_or_iff bit_push_bit_iff bit_ucast_iff bit_high)

lemma load_be_bits:
  assumes "q < 4" "r < 8"
  shows "bit (load_uint_be buff :: 32 word) (8 * q + r) \<longleftrightarrow> bit (buff ! (3 - q)) r"
  using quarter_cases[OF assms(1)] assms(2)
  by (elim disjE) (auto simp: load_uint_be_def upt_4 bytes2bits_def BITS_IN_BYTE_def SZ_num bit_or_iff bit_push_bit_iff bit_ucast_iff bit_high)

lemma to_hbo32_load: "to_hbo32 (load_uint_le buff) = load_uint_be buff"
proof (rule bit_word_eqI)
  fix j assume "j < LENGTH(32)"
  then have "j < 32" by simp
  obtain q r where j: "j = 8 * q + r" "r < 8" by (rule byte_cases[of j])
  with \<open>j < 32\<close> have "q < 4" by linarith
  then show "bit (to_hbo32 (load_uint_le buff)) j = bit (load_uint_be buff :: 32 word) j"
    using j by (simp add: to_hbo32_def byteswap32_bits load_le_bits load_be_bits)
qed

lemma nth_pack_le_bits:
  assumes "i < LENGTH('a::len) div 8" "LENGTH('a) < SZ" "r < 8"
  shows "bit (pack_buff_le (num :: 'a word) ! i) r \<longleftrightarrow> bit num (8 * i + r)"
proof -
  have "i * 8 < SZ" using assms(1,2) by linarith
  then have b: "bytes2bits i = 8 * i" by (simp add: bytes2bits_def BITS_IN_BYTE_def)
  show ?thesis
    unfolding nth_pack_le[OF assms(1)] b byte_masks(1)
    using assms(3) bit_high by (auto simp: bit_ucast_iff bit_and_iff bit_drop_bit_eq bit_mask_iff dest: bit_imp_le_length)
qed

lemma nth_pack_be_bits:
  assumes "i < LENGTH('a::len) div 8" "LENGTH('a) < SZ" "r < 8"
  shows "bit (pack_buff_be (num :: 'a word) ! i) r \<longleftrightarrow> bit num (8 * (LENGTH('a) div 8 - 1 - i) + r)"
proof -
  have "pack_buff_be num ! i = pack_buff_le num ! (LENGTH('a) div 8 - 1 - i)"
    using assms(1) by (simp add: nth_pack_be nth_pack_le)
  then show ?thesis using assms by (simp add: nth_pack_le_bits)
qed

lemma pack_le_swapped: "pack_buff_le (to_nbo32 x) = pack_buff_be x" "pack_buff_le (to_nbo64 y) = pack_buff_be y"
proof -
  show "pack_buff_le (to_nbo32 x) = pack_buff_be x"
  proof (rule nth_equalityI)
    fix i assume "i < length (pack_buff_le (to_nbo32 x))"
    then have i: "i < 4" by simp
    then show "pack_buff_le (to_nbo32 x) ! i = pack_buff_be x ! i"
      by (intro bit_word_eqI) (simp add: nth_pack_le_bits nth_pack_be_bits SZ_num to_nbo32_def byteswap32_bits)
  qed simp
  show "pack_buff_le (to_nbo64 y) = pack_buff_be y"
  proof (rule nth_equalityI)
    fix i assume "i < length (pack_buff_le (to_nbo64 y))"
    then have i: "i < 8" by simp
    then show "pack_buff_le (to_nbo64 y) ! i = pack_buff_be y ! i"
      by (intro bit_word_eqI) (simp add: nth_pack_le_bits nth_pack_be_bits SZ_num to_nbo64_def byteswap64_bits)
  qed simp
qed

lemma drop_take_words: "load_uint_le (xs :: 8 word list) = (load_uint_le (take 4 xs @ ys) :: 32 word)" if "4 \<le> length xs"
  using that by (simp add: load_uint_le_def upt_4 nth_append)

lemma load_pack_le: "load_uint_le (pack_buff_le w @ ys) = (w :: 32 word)"
proof (rule bit_word_eqI)
  fix j assume "j < LENGTH(32)"
  then have "j < 32" by simp
  obtain q r where j: "j = 8 * q + r" "r < 8" by (rule byte_cases[of j])
  with \<open>j < 32\<close> have "q < 4" by linarith
  then show "bit (load_uint_le (pack_buff_le w @ ys) :: 32 word) j = bit w j"
    using j by (simp add: load_le_bits nth_append nth_pack_le_bits SZ_num)
qed

lemma to_nbo_words: "to_nbo (concat (map pack_buff_le (ws :: 32 word list))) = concat (map pack_buff_be ws)"
proof -
  have len: "length (concat (map pack_buff_le ws)) = 4 * length ws" for ws :: "32 word list"
    by (induction ws) simp_all
  have "to_nbo_buffer (length ws) (concat (map pack_buff_le ws)) = concat (map pack_buff_be ws)"
    by (induction ws) (simp_all add: load_pack_le pack_le_swapped)
  then show ?thesis by (simp add: to_nbo_def len)
qed

section \<open>One block\<close>

lemma logic_functions: "majority x y z = fips_Maj x y z" "sha_choose x y z = fips_Ch x y z"
  unfolding majority_def fips_Maj_def sha_choose_def fips_Ch_def
  by (rule bit_word_eqI; auto simp: bit_and_iff bit_or_iff bit_xor_iff bit_not_iff)+

lemma rotation_functions:
  "sha_sum0 x = fips_Sum 2 13 22 x" "sha_sum1 x = fips_Sum 6 11 25 x"
  "sha_op0 x = fips_sigma 7 18 3 x" "sha_op1 x = fips_sigma 17 19 10 x"
  by (simp_all add: sha_sum0_def sha_sum1_def sha_op0_def sha_op1_def fips_Sum_def fips_sigma_def rotate_right_rotr)

lemma schedule_prefix:
  "n \<le> 48 \<Longrightarrow> foldl sched_step (map (fips_W block) [0..<16]) [16..<16 + n] = map (fips_W block) [0..<16 + n]"
proof (induction n)
  case (Suc n)
  let ?s = "map (fips_W block) [0..<16 + n]"
  have "sched_step ?s (16 + n) = ?s @ [fips_W block (16 + n)]"
    unfolding sched_step_def
    by (subst fips_W.simps[of block "16 + n"]) (simp add: rotation_functions del: upt_Suc)
  moreover have "[m..<16 + Suc n] = [m..<16 + n] @ [16 + n]" if "m \<le> 16" for m
    using that by (simp only: add_Suc_right upt_Suc_append[of m "16 + n"] trans_le_add1)
  ultimately show ?case using Suc by (simp del: upt_Suc add_Suc_right)
qed simp

lemma schedule_ok: "sha_schedule block = map (fips_W block) [0..<64]"
proof -
  have "map (\<lambda>i. to_hbo32 (load_uint_le (drop (4 * i) block))) [0..<16] = map (fips_W block) [0..<16]"
    by (rule map_cong[OF refl]) (simp add: to_hbo32_load fips_W.simps)
  moreover have "16 + 48 = (64 :: nat)" by simp
  ultimately show ?thesis using schedule_prefix[of 48 block, OF order_refl] unfolding sha_schedule_def by (simp only:)
qed

definition regs_of :: "32 word list \<Rightarrow> sha_regs" where
  "regs_of R = (R ! 0, R ! 1, R ! 2, R ! 3, R ! 4, R ! 5, R ! 6, R ! 7)"

lemma list8: "length R = 8 \<Longrightarrow> \<exists>a b c d e f g h. R = [a, b, c, d, e, f, g, h]"
  by (auto simp: numeral_eq_Suc length_Suc_conv)

lemma round_ok:
  assumes "length R = 8" "t < 64"
  shows "sha_round (sha_schedule block) (regs_of R) t = regs_of (fips_round block R t)" "length (fips_round block R t) = 8"
proof -
  obtain a b c d e f g h where R: "R = [a, b, c, d, e, f, g, h]" using list8[OF assms(1)] by blast
  have W: "sha_schedule block ! t = fips_W block t" using assms(2) by (simp add: schedule_ok)
  show "sha_round (sha_schedule block) (regs_of R) t = regs_of (fips_round block R t)"
    unfolding R by (simp add: sha_round_def regs_of_def fips_round_def Let_def W logic_functions rotation_functions)
  show "length (fips_round block R t) = 8"
    unfolding R by (simp add: fips_round_def Let_def)
qed

lemma rounds_ok:
  "length R = 8 \<Longrightarrow> n \<le> 64 \<Longrightarrow> foldl (sha_round (sha_schedule block)) (regs_of R) [0..<n] = regs_of (foldl (fips_round block) R [0..<n])
     \<and> length (foldl (fips_round block) R [0..<n]) = 8"
  by (induction n) (simp_all add: round_ok)

lemma sha_block_ok:
  assumes "length (sha_hash ctx) = 8"
  shows "sha_process_block ctx block = ctx\<lparr>sha_hash := fips_compress (sha_hash ctx) block\<rparr>"
    and "length (fips_compress (sha_hash ctx) block) = 8"
proof -
  let ?H = "sha_hash ctx" and ?R = "foldl (fips_round block) (sha_hash ctx) [0..<64]"
  have rounds: "foldl (sha_round (sha_schedule block)) (regs_of ?H) [0..<64] = regs_of ?R" "length ?R = 8"
    using rounds_ok[OF assms, of 64 block] by simp_all
  obtain a b c d e f g h where H: "?H = [a, b, c, d, e, f, g, h]" using list8[OF assms] by blast
  obtain a' b' c' d' e' f' g' h' where R: "?R = [a', b', c', d', e', f', g', h']" using list8[OF rounds(2)] by blast
  have "fips_compress ?H block = [a + a', b + b', c + c', d + d', e + e', f + f', g + g', h + h']"
    unfolding fips_compress_def R by (simp add: H)
  then show "sha_process_block ctx block = ctx\<lparr>sha_hash := fips_compress ?H block\<rparr>" "length (fips_compress ?H block) = 8"
    using rounds(1) unfolding sha_process_block_def Let_def regs_of_def[of ?H, symmetric] R by (simp_all add: regs_of_def H)
qed

lemma W_take: "64 \<le> length block \<Longrightarrow> t < 64 \<Longrightarrow> fips_W (take 64 block) t = fips_W block t"
proof (induction block t rule: fips_W.induct)
  case (1 block t)
  show ?case
  proof (cases "t < 16")
    case True
    then have "drop (4 * t) (take 64 block) ! i = drop (4 * t) block ! i" if "i < 4" for i
      using 1(5) that by simp
    then have "(load_uint_be (drop (4 * t) (take 64 block)) :: 32 word) = load_uint_be (drop (4 * t) block)"
      by (simp add: load_uint_be_def upt_4)
    then show ?thesis using True by (simp add: fips_W.simps)
  next
    case False
    then show ?thesis
      using 1 by (simp add: fips_W.simps[of _ t])
  qed
qed

lemma compress_take: "64 \<le> length block \<Longrightarrow> fips_compress H (take 64 block) = fips_compress H block"
  unfolding fips_compress_def
  by (intro arg_cong[where f = "map2 (+) H"] foldl_cong) (simp_all add: fips_round_def W_take)

section \<open>Feeding a message in pieces\<close>

text \<open>A context that has consumed the message \<open>m\<close>.\<close>

definition sha_fed :: "sha256 \<Rightarrow> 8 word list \<Rightarrow> bool" where
  "sha_fed ctx m \<longleftrightarrow> length (sha_hash ctx) = 8 \<and> length (sha_buff ctx) = 128 \<and>
     sha_hash ctx = foldl fips_compress sha256_init (md5_blocks m) \<and>
     take (length m mod 64) (sha_buff ctx) = drop (length m - length m mod 64) m \<and>
     sha_offset ctx = length m mod 64 \<and> sha_msglen ctx = of_nat (length m)"

lemma sha_fed_new: "length garbage = 128 \<Longrightarrow> sha_fed (sha256_new garbage) []"
  by (simp add: sha_fed_def sha256_new_def sha256_init_def md5_blocks_def)

lemma length_mem_copy [simp]: "offset + length xs \<le> length buff \<Longrightarrow> length (mem_copy buff offset xs) = length buff"
  by (simp add: mem_copy_def)

lemma mem_copy_nothing [simp]: "mem_copy buff offset [] = buff"
  by (simp add: mem_copy_def)

lemma sha_one_empty: "sha_offset ctx < 64 \<Longrightarrow> sha_process_one ctx [] = (ctx, [])"
  by (cases ctx) (simp add: sha_process_one_def BLOCK_SIZE_BYTES_def)

lemma sha_one_ok:
  assumes "sha_fed ctx m" and "data \<noteq> []"
  shows "\<exists>ctx' n. sha_process_one ctx data = (ctx', drop n data) \<and> sha_fed ctx' (m @ take n data) \<and>
     n = min (64 - length m mod 64) (length data)"
proof -
  let ?c = "length m mod 64"
  define n where "n = min (64 - ?c) (length data)"
  have c: "?c < 64" by simp
  have n: "?c + n \<le> 64" "n \<le> length data" using c by (auto simp: n_def)
  have ctx: "length (sha_hash ctx) = 8" "length (sha_buff ctx) = 128" "sha_hash ctx = foldl fips_compress sha256_init (md5_blocks m)"
    "take ?c (sha_buff ctx) = drop (length m - ?c) m" "sha_offset ctx = ?c" "sha_msglen ctx = of_nat (length m)"
    using assms(1)[unfolded sha_fed_def] by blast+
  define buff where "buff = mem_copy (sha_buff ctx) ?c (take n data)"
  have len: "length buff = 128" using ctx(2) n by (simp add: buff_def)
  have front: "take (?c + n) buff = drop (length m - ?c) m @ take n data"
    using ctx(2,4) n by (simp add: buff_def mem_copy_def)
  define ctx1 where "ctx1 = ctx\<lparr>sha_buff := buff, sha_msglen := of_nat (length m) + of_nat n, sha_offset := ?c + n\<rparr>"
  have one: "sha_process_one ctx data =
      (if ?c + n = 64 then ((sha_process_block ctx1 buff)\<lparr>sha_offset := 0\<rparr>, drop n data) else (ctx1, drop n data))"
    by (simp add: sha_process_one_def BLOCK_SIZE_BYTES_def ctx(5,6) n_def[symmetric] buff_def[symmetric] ctx1_def Let_def)
  show ?thesis
  proof (cases "?c + n = 64")
    case True
    then have full: "?c + length (take n data) = 64" using n by simp
    have "fips_compress (sha_hash ctx) buff = foldl fips_compress sha256_init (md5_blocks (m @ take n data))"
      using compress_take[of buff "sha_hash ctx"] len front True
      by (simp add: md5_blocks_complete[OF full] ctx(3))
    then have "sha_fed ((sha_process_block ctx1 buff)\<lparr>sha_offset := 0\<rparr>) (m @ take n data)"
      using sha_block_ok[of ctx1 buff] whole_blocks(4)[OF full] ctx(1) len n by (simp add: sha_fed_def ctx1_def)
    moreover have "sha_process_one ctx data = ((sha_process_block ctx1 buff)\<lparr>sha_offset := 0\<rparr>, drop n data)"
      using one True by simp
    ultimately show ?thesis using n_def by blast
  next
    case False
    then have part: "?c + length (take n data) < 64" using n by simp
    have "length m + n - (?c + n) = length m - ?c" by simp
    then have "sha_fed ctx1 (m @ take n data)"
      using whole_blocks(3)[OF part] md5_blocks_append[OF part] ctx(1,3) len front n by (simp add: sha_fed_def ctx1_def)
    moreover have "sha_process_one ctx data = (ctx1, drop n data)" using one False by simp
    ultimately show ?thesis using n_def by blast
  qed
qed

lemma sha_full_ok:
  "sha_fed ctx m \<Longrightarrow> length m mod 64 = 0 \<Longrightarrow>
   \<exists>ctx' p d. sha_full_blocks ctx data = (ctx', d) \<and> data = p @ d \<and> length d < 64 \<and> sha_fed ctx' (m @ p) \<and> length (m @ p) mod 64 = 0"
proof (induction ctx data arbitrary: m rule: sha_full_blocks.induct)
  case (1 ctx data)
  show ?case
  proof (cases "64 \<le> length data")
    case False
    then show ?thesis using 1 by (simp add: sha_full_blocks.simps[of ctx data] BLOCK_SIZE_BYTES_def)
  next
    case True
    define ctx1 where "ctx1 = ctx\<lparr>sha_msglen := sha_msglen ctx + of_nat 64\<rparr>"
    have full: "length m mod 64 + length (take 64 data) = 64" using 1(3) True by simp
    have ctx: "length (sha_hash ctx) = 8" "length (sha_buff ctx) = 128" "sha_hash ctx = foldl fips_compress sha256_init (md5_blocks m)"
      "sha_offset ctx = 0" "sha_msglen ctx = of_nat (length m)"
      using 1(2)[unfolded sha_fed_def 1(3)] by blast+
    have "fips_compress (sha_hash ctx) data = foldl fips_compress sha256_init (md5_blocks (m @ take 64 data))"
      using compress_take[OF True] 1(3) by (simp add: md5_blocks_complete[OF full] ctx(3))
    then have fed: "sha_fed (sha_process_block ctx1 data) (m @ take 64 data)"
      using sha_block_ok[of ctx1 data] whole_blocks(4)[OF full] ctx True by (simp add: sha_fed_def ctx1_def)
    have step: "sha_full_blocks ctx data = sha_full_blocks (sha_process_block ctx1 data) (drop 64 data)"
      using True by (simp add: sha_full_blocks.simps[of ctx data] BLOCK_SIZE_BYTES_def ctx1_def)
    obtain ctx' p d where "sha_full_blocks (sha_process_block ctx1 data) (drop 64 data) = (ctx', d)" "drop 64 data = p @ d"
      "length d < 64" "sha_fed ctx' ((m @ take 64 data) @ p)" "length ((m @ take 64 data) @ p) mod 64 = 0"
      using 1(1)[OF _ refl refl, of "m @ take 64 data"] True fed whole_blocks(4)[OF full]
      by (auto simp: BLOCK_SIZE_BYTES_def ctx1_def)
    moreover have "data = (take 64 data @ p) @ d" using calculation(2) by (metis append.assoc append_take_drop_id)
    ultimately show ?thesis unfolding step by (metis append.assoc)
  qed
qed

lemma sha_process_ok:
  assumes "sha_fed ctx m"
  shows "sha_fed (sha_process ctx data False) (m @ data)"
    and "sha_process ctx data True = sha_process_last (sha_process ctx data False)"
proof -
  have offset: "sha_offset ctx = length m mod 64" using assms by (simp add: sha_fed_def)
  obtain ctx1 n where first: "(if sha_offset ctx > 0 then sha_process_one ctx data else (ctx, data)) = (ctx1, drop n data)"
    "sha_fed ctx1 (m @ take n data)" "length (m @ take n data) mod 64 = 0 \<or> drop n data = []"
  proof (cases "length m mod 64 = 0 \<or> data = []")
    case True
    have "sha_process_one ctx [] = (ctx, [])" using offset by (simp add: sha_one_empty)
    then show thesis using True assms offset by (intro that[of ctx 0]) auto
  next
    case False
    then obtain ctx' n where "sha_process_one ctx data = (ctx', drop n data)" "sha_fed ctx' (m @ take n data)"
      "n = min (64 - length m mod 64) (length data)"
      using sha_one_ok[OF assms] by blast
    moreover from this(3) have "length (m @ take n data) mod 64 = 0 \<or> drop n data = []"
      using whole_blocks(4)[of "length m" n] by (auto simp: min_def split: if_splits)
    ultimately show thesis using False offset by (intro that[of ctx' n]) auto
  qed
  obtain ctx2 p d where second: "sha_full_blocks ctx1 (drop n data) = (ctx2, d)" "drop n data = p @ d"
    "length d < 64" "sha_fed ctx2 (m @ take n data @ p)" "length (m @ take n data @ p) mod 64 = 0 \<or> d = []"
  proof (cases "length (m @ take n data) mod 64 = 0")
    case True
    then show thesis using sha_full_ok[OF first(2) True, of "drop n data"] that by auto
  next
    case False
    then have "drop n data = []" using first(3) by simp
    then show thesis using first(2) by (intro that[of ctx1 "[]" "[]"]) (simp_all add: sha_full_blocks.simps BLOCK_SIZE_BYTES_def)
  qed
  have all: "m @ data = (m @ take n data @ p) @ d" using second(2) by (metis append.assoc append_take_drop_id)
  obtain ctx3 where third: "(if length d > 0 then sha_process_one ctx2 d else (ctx2, d)) = (ctx3, [])" "sha_fed ctx3 (m @ data)"
  proof (cases "d = []")
    case True
    then show thesis using second(4) all that by simp
  next
    case False
    then have "min (64 - length (m @ take n data @ p) mod 64) (length d) = length d" using second(3,5) by simp
    then show thesis using sha_one_ok[OF second(4) False] all that False by auto
  qed
  have result: "sha_process ctx data last_chunk = (if last_chunk then sha_process_last ctx3 else ctx3)" for last_chunk
    by (simp only: sha_process_def first(1) second(1) third(1) Let_def prod.case)
  show "sha_fed (sha_process ctx data False) (m @ data)" using third(2) by (simp add: result)
  show "sha_process ctx data True = sha_process_last (sha_process ctx data False)" by (simp add: result)
qed

lemma sha_chunks_ok:
  "sha_fed ctx m \<Longrightarrow> sha_fed (foldl (\<lambda>ctx c. sha_process ctx c False) ctx chunks) (m @ concat chunks)"
proof (induction chunks arbitrary: ctx m)
  case (Cons c cs)
  then show ?case using sha_process_ok(1)[OF Cons.prems, of c] Cons.IH by fastforce
qed simp

section \<open>Padding\<close>

lemma md5_blocks_from_boundary:
  assumes "length a mod 64 = 0"
  shows "md5_blocks (a @ ys) = md5_blocks a @ md5_blocks ys"
proof -
  obtain q where q: "length a = 64 * q" using assms by (auto simp: mod_eq_0_iff_dvd elim: dvdE)
  have "[0..<q + length ys div 64] = [0..<q] @ map (\<lambda>i. i + q) [0..<length ys div 64]"
    using upt_add_eq_append[of 0 q "length ys div 64"] map_add_upt[of q "length ys div 64"] by (simp add: add.commute)
  then show ?thesis
    unfolding md5_blocks_def length_append q by (auto simp: q comp_def distrib_left)
qed

lemma md5_blocks_rest: "md5_blocks (m @ ys) = md5_blocks m @ md5_blocks (drop (length m - length m mod 64) m @ ys)"
proof -
  let ?k = "length m - length m mod 64"
  have k: "length (take ?k m) mod 64 = 0" by (simp add: minus_mod_eq_mult_div)
  have "length (take ?k m) mod 64 + length (drop ?k m) < 64" using k by simp
  then have "md5_blocks m = md5_blocks (take ?k m)" using md5_blocks_append[of "take ?k m" "drop ?k m"] by simp
  then show ?thesis using md5_blocks_from_boundary[OF k, of "drop ?k m @ ys"] by (simp flip: append.assoc)
qed

lemma padding_length:
  fixes c :: nat
  assumes "c < 64"
  shows "c + 1 + (119 - c) mod 64 = (if c < 56 then 56 else 120)"
proof (cases "c < 56")
  case True
  then have "119 - c = 64 + (55 - c)" by simp
  then have "(119 - c) mod 64 = 55 - c" by (simp only: mod_add_self1) simp
  then show ?thesis using True by simp
next
  case False
  then have "(119 - c) mod 64 = 119 - c" by simp
  then show ?thesis using False assms by simp
qed

lemma padded_buffer:
  fixes buff :: "8 word list"
  assumes "length buff = 128" "c < 64" "off = c + 1 + p" "off \<le> 120" "length L = 8"
  shows "mem_copy ((mem_copy buff c (replicate (128 - c) 0))[c := 0x80]) off L = take c buff @ 0x80 # replicate p 0 @ L @ replicate (120 - off) 0"
proof -
  have "mem_copy buff c (replicate (128 - c) 0) = take c buff @ replicate (128 - c) 0"
    using assms(1,2) by (simp add: mem_copy_def)
  moreover have "replicate (128 - c) (0 :: 8 word) = 0 # replicate p 0 @ replicate 8 0 @ replicate (120 - off) 0"
    using assms(2-4) by (simp flip: replicate_add replicate_Suc)
  ultimately have "(mem_copy buff c (replicate (128 - c) 0))[c := 0x80] = take c buff @ 0x80 # replicate p 0 @ replicate 8 0 @ replicate (120 - off) 0"
    using assms(1,2) by (simp add: list_update_append)
  moreover have "take off (take c buff @ 0x80 # replicate p 0 @ ys) = take c buff @ 0x80 # replicate p 0"
    "drop (off + 8) ((take c buff @ 0x80 # replicate p 0 @ replicate 8 0) @ ys) = ys" for ys
    using assms by (simp, simp only: drop_append, simp)
  ultimately show ?thesis by (simp only: mem_copy_def assms(5) append.assoc append_Cons)
qed

lemma msglen_mod: "unat (of_nat n :: 64 word) mod 64 = n mod 64"
  by (simp add: unat_of_nat mod_mod_cancel)

lemma sha_last_ok:
  assumes "sha_fed ctx m"
  shows "sha_hash (sha_process_last ctx) = foldl fips_compress sha256_init (md5_blocks (fips_pad m))"
proof -
  define c where "c = length m mod 64"
  define p where "p = (119 - c) mod 64"
  define off where "off = (if c < 56 then 56 else 120 :: nat)"
  define L where "L = pack_buff_be (of_nat (8 * length m) :: 64 word)"
  have ctx: "length (sha_hash ctx) = 8" "length (sha_buff ctx) = 128" "sha_hash ctx = foldl fips_compress sha256_init (md5_blocks m)"
    "take c (sha_buff ctx) = drop (length m - c) m" "sha_msglen ctx = of_nat (length m)"
    using assms[unfolded sha_fed_def c_def[symmetric]] by blast+
  have c: "c < 64" by (simp add: c_def)
  have off: "off = c + 1 + p" "off \<le> 120" using padding_length[OF c] by (simp_all add: off_def p_def)
  have L: "length L = 8" by (simp add: L_def)
  have len: "pack_buff_le (to_nbo64 (push_bit 3 (sha_msglen ctx))) = L"
    by (simp add: pack_le_swapped L_def ctx(5) push_bit_eq_mult mult.commute)
  define padded where "padded = take c (sha_buff ctx) @ 0x80 # replicate p 0 @ L"
  define buff where "buff = padded @ replicate (120 - off) 0"
  have padded: "length padded = off + 8" using ctx(2) c off L by (simp add: padded_def)
  have buff: "mem_copy ((mem_copy (sha_buff ctx) c (replicate (128 - c) 0))[c := 0x80]) off L = buff"
    using padded_buffer[OF ctx(2) c off L] by (simp add: buff_def padded_def)
  define ctx1 where "ctx1 = sha_process_block (ctx\<lparr>sha_buff := buff\<rparr>) buff"
  have last: "sha_process_last ctx = (if off > 64 then sha_process_block ctx1 (drop 64 buff) else ctx1)"
    unfolding sha_process_last_def Let_def BLOCK_SIZE_BYTES_def ctx(5) msglen_mod c_def[symmetric] ctx(2)
    by (simp only: off_def[symmetric, unfolded numeral_plus_numeral semiring_norm] len[unfolded ctx(5)] buff ctx1_def
        numeral_plus_numeral semiring_norm)
  have pad: "md5_blocks (fips_pad m) = md5_blocks m @ md5_blocks padded"
    using md5_blocks_rest[of m "0x80 # replicate p 0 @ L"]
    unfolding padded_def ctx(4) unfolding fips_pad_def p_def L_def c_def .
  have ctx1: "sha_hash ctx1 = fips_compress (sha_hash ctx) buff" "length (sha_hash ctx1) = 8"
    using sha_block_ok[of "ctx\<lparr>sha_buff := buff\<rparr>" buff] ctx(1) by (simp_all add: ctx1_def)
  show ?thesis
  proof (cases "c < 56")
    case True
    then have "off = 56" by (simp add: off_def)
    then have "md5_blocks padded = [padded]" "take 64 buff = padded" "64 \<le> length buff"
      using padded by (simp_all add: md5_blocks_def buff_def)
    then show ?thesis
      using last \<open>off = 56\<close> ctx1(1) compress_take[of buff "sha_hash ctx"] by (simp add: pad ctx(3))
  next
    case False
    then have "off = 120" by (simp add: off_def)
    then have "md5_blocks padded = [take 64 buff, drop 64 buff]" "length buff = 128"
      using padded by (simp_all add: md5_blocks_def buff_def upt_rec)
    then show ?thesis
      using last \<open>off = 120\<close> ctx1 compress_take[of buff "sha_hash ctx"] sha_block_ok[of ctx1 "drop 64 buff"] by (simp add: pad ctx(3))
  qed
qed

section \<open>The digest\<close>

lemma sha_bytes_ok:
  "sha_fed ctx m \<Longrightarrow> sha_get_hashbytes (sha_process ctx data True) = fips_sha256 (m @ data)"
  by (simp add: sha_get_hashbytes_def fips_sha256_def sha_process_ok(2) sha_last_ok[OF sha_process_ok(1)] to_nbo_words)

text \<open>C5: 
  However a message is cut into pieces, feeding them to a new context, whatever its buffer holds, and then the last one
  with the final flag gives the SHA-256 digest of the whole message by the reference definition.
\<close>

theorem sha256_streaming_correct:
  assumes "length garbage = 128"
  shows "sha_get_hashbytes (sha_process (foldl (\<lambda>ctx c. sha_process ctx c False) (sha256_new garbage) chunks) last_chunk True) =
    fips_sha256 (concat chunks @ last_chunk)"
  using sha_bytes_ok[OF sha_chunks_ok[OF sha_fed_new[OF assms]], of chunks last_chunk] by simp

theorem sha256_streaming_witness:
  "sha_get_hashbytes (sha_process (foldl (\<lambda>ctx c. sha_process ctx c False) (sha256_new (replicate 128 7)) [[97], [], [98]]) [99] True) =
    fips_sha256 [97, 98, 99]"
  using sha256_streaming_correct[of "replicate 128 7" "[[97], [], [98]]" "[99]"] by simp

lemma sha_bytes_once: "length garbage = 128 \<Longrightarrow> sha_get_hashbytes (sha_process (sha256_new garbage) data True) = fips_sha256 data"
  using sha_bytes_ok[OF sha_fed_new, of garbage data] by simp

lemma sha_bytes_twice:
  "length garbage = 128 \<Longrightarrow> sha_get_hashbytes (sha_process (sha_process (sha256_new garbage) xs False) ys True) = fips_sha256 (xs @ ys)"
  using sha_bytes_ok[OF sha_process_ok(1)[OF sha_fed_new, of garbage xs], of ys] by simp

lemma length_md5_fold: "length H = 8 \<Longrightarrow> length (foldl fips_compress H blocks) = 8"
proof (induction blocks arbitrary: H)
  case (Cons b bs)
  have "length (fips_compress H b) = 8"
    using sha_block_ok(2)[of "(sha256_new [])\<lparr>sha_hash := H\<rparr>" b] Cons.prems by simp
  then show ?case using Cons.IH by simp
qed simp

lemma length_fips_sha256 [simp]: "length (fips_sha256 m) = 32"
proof -
  have "length (concat (map pack_buff_be ws)) = 4 * length ws" for ws :: "32 word list"
    by (induction ws) simp_all
  then show ?thesis by (simp add: fips_sha256_def length_md5_fold sha256_init_def)
qed

lemma padded_key: "length xs \<le> 64 \<Longrightarrow> mem_copy (replicate 64 0) 0 xs = xs @ replicate (64 - length xs) 0"
  by (simp add: mem_copy_def)

text \<open>C20: 
  The keyed digest is the HMAC of RFC 2104, keys that are longer than a block included.
\<close>

theorem sha256_hmac_correct:
  assumes "length garbage = 128"
  shows "sha256_hmac_bytes garbage msg key = rfc_hmac key msg"
proof -
  let ?k = "if 64 < length key then fips_sha256 key else key"
  have reset: "sha_reset ctx = sha256_new (replicate 128 0)" for ctx by (simp add: sha_reset_def)
  have key: "(if length key \<le> BLOCK_SIZE_BYTES then (sha256_new garbage, mem_copy (replicate BLOCK_SIZE_BYTES 0) 0 key)
      else (sha_process (sha256_new garbage) key True, mem_copy (replicate BLOCK_SIZE_BYTES 0) 0 (sha_get_hashbytes (sha_process (sha256_new garbage) key True))))
    = (if length key \<le> BLOCK_SIZE_BYTES then sha256_new garbage else sha_process (sha256_new garbage) key True, ?k @ replicate (64 - length ?k) 0)"
    using assms by (simp add: BLOCK_SIZE_BYTES_def padded_key sha_bytes_once)
  show ?thesis
    unfolding sha256_hmac_bytes_def Let_def key prod.case reset rfc_hmac_def
    by (simp add: sha_bytes_twice)
qed

theorem sha256_hmac_witness: "sha256_hmac_bytes (replicate 128 0) [1, 2] [3] = rfc_hmac [3] [1, 2]"
  using sha256_hmac_correct[of "replicate 128 0" "[1, 2]" "[3]"] by simp

section \<open>The constants\<close>

text \<open>A number below \<open>18\<^sup>2\<close> is prime if no smaller number up to 17 divides it.\<close>

definition first_primes :: "int list" where
  "first_primes = filter (\<lambda>n. list_all (\<lambda>d. n mod d \<noteq> 0) [2..min 17 (n - 1)]) [2..311]"

lemma first_primes_list: "first_primes =
  [2, 3, 5, 7, 11, 13, 17, 19, 23, 29, 31, 37, 41, 43, 47, 53, 59, 61, 67, 71, 73, 79, 83, 89, 97, 101, 103, 107, 109, 113, 127, 131,
   137, 139, 149, 151, 157, 163, 167, 173, 179, 181, 191, 193, 197, 199, 211, 223, 227, 229, 233, 239, 241, 251, 257, 263, 269, 271, 277, 281, 283, 293, 307, 311]"
  by code_simp

definition root_digits :: "nat \<Rightarrow> 32 word \<Rightarrow> int \<Rightarrow> bool" where
  "root_digits e k p \<longleftrightarrow> list_ex (\<lambda>n. let c = n * 2 ^ 32 + uint k in c ^ e \<le> p * 2 ^ (32 * e) \<and> p * 2 ^ (32 * e) < (c + 1) ^ e) [1..6]"

text \<open>
  The 64 constants are the first 32 bits of the fractional parts of the cube roots of the first 64 primes, and the initial
  hash those of the square roots of the first eight.
\<close>

theorem sha256_constants_are_roots:
  "list_all2 (root_digits 3) sha256_constants first_primes \<and> list_all2 (root_digits 2) sha256_init (take 8 first_primes)"
  unfolding first_primes_list by code_simp

end
