(* ===== verification/Iniparse.thy ===== *)
theory Iniparse
  imports String_Utils
begin

text \<open>
  The line-oriented INI parser of \<open>src/parsers/iniparse.c\<close> and \<open>include/tarp/iniparse.h\<close>. A C string is a list of characters
  without NUL, the content of the file a list of characters; a pointer into a line is the rest of the line. The callback is a
  parameter over a state that stands for \<open>priv\<close> and the world. Debug messages are left out; characters are those of the C
  locale.
\<close>

section \<open>Parser, list states, errors\<close>

definition MAX_LINE_LEN :: nat where
  "MAX_LINE_LEN = 1024"

datatype iniParseListState = LIST_HEAD | LIST_OPEN | LIST_ONGOING | LIST_LAST | NOLIST

datatype iniParseError =
    INIPARSE_SUCCESS | INIPARSE_NOSECTION | INIPARSE_MALFORMED | INIPARSE_MALFORMED_LIST | INIPARSE_TOOLONG
  | INIPARSE_NESTED | INIPARSE_NOLIST | INIPARSE_EMPTY_LIST | INIPARSE_MISSING_COMMA | INIPARSE_REDUNDANT_COMMA
  | INIPARSE_REDUNDANT_BRACKET | INIPARSE_LIST_NOT_STARTED | INIPARSE_LIST_NOT_ENDED | INIPARSE_DUPLICATE | INIPARSE_SENTINEL

record iniparse_ctx =
  fatal_errors :: bool
  allow_global_records :: bool
  allow_empty_lists :: bool
  section_ns_sep :: string
  list_bracket :: string

text \<open>\<open>salloc\<close> clears the memory of the context, so \<open>fatal_errors\<close>, which gets no default, is false.\<close>

definition get_initialized_iniparse_ctx :: iniparse_ctx where
  "get_initialized_iniparse_ctx =
     \<lparr>fatal_errors = False, allow_global_records = False, allow_empty_lists = False, section_ns_sep = ''.'', list_bracket = ''[]''\<rparr>"

text \<open>How a run ends before its time: with an error code, by \<open>exit\<close>, with the value of the callback, at an assertion.\<close>

datatype ini_stop = IniError iniParseError | IniExit | IniCallback int | IniFault fault

text \<open>\<open>section_delim\<close> is passed to \<open>strlen\<close> whether it is NULL or not.\<close>

definition iniParse_init :: "bool \<Rightarrow> bool \<Rightarrow> string option \<Rightarrow> bool \<Rightarrow> ini_stop + iniparse_ctx" where
  "iniParse_init allow_globals allow_empty section_delim exit_on_error =
     (let ctx = get_initialized_iniparse_ctx;
          ctx = ctx\<lparr>allow_global_records := allow_globals\<rparr>;
          ctx = ctx\<lparr>allow_empty_lists := allow_empty\<rparr>;
          ctx = ctx\<lparr>fatal_errors := exit_on_error\<rparr>
      in case section_delim of
           None \<Rightarrow> Inl (IniFault NullDeref)
         | Some s \<Rightarrow> if length s > 1 then Inl IniExit else Inr (ctx\<lparr>section_ns_sep := s\<rparr>))"

definition cinic_error_strings :: "iniParseError \<Rightarrow> string option" where
  "cinic_error_strings errnum = (case errnum of
     INIPARSE_SUCCESS \<Rightarrow> Some ''Success''
   | INIPARSE_NOSECTION \<Rightarrow> Some ''entry without section''
   | INIPARSE_MALFORMED \<Rightarrow> Some ''malformed/syntacticaly incorrect''
   | INIPARSE_MALFORMED_LIST \<Rightarrow> Some ''malformed/syntacticaly incorrect list''
   | INIPARSE_TOOLONG \<Rightarrow> Some ''line length exceeds maximum acceptable length(1024U)''
   | INIPARSE_NESTED \<Rightarrow> Some ''illegal nesting (unterminated list?)''
   | INIPARSE_NOLIST \<Rightarrow> Some ''list item without list''
   | INIPARSE_EMPTY_LIST \<Rightarrow> Some ''malformed list (empty list?)''
   | INIPARSE_MISSING_COMMA \<Rightarrow> Some ''malformed list entry (previous missing comma?)''
   | INIPARSE_REDUNDANT_COMMA \<Rightarrow> Some ''malformed list entry (redundant comma?)''
   | INIPARSE_REDUNDANT_BRACKET \<Rightarrow> Some ''malformed list (redundant bracket ?)''
   | INIPARSE_LIST_NOT_STARTED \<Rightarrow> Some ''malformed list (missing opening bracket ?)''
   | INIPARSE_LIST_NOT_ENDED \<Rightarrow> Some ''malformed list (unterminated list ?)''
   | INIPARSE_DUPLICATE \<Rightarrow> Some ''duplicated key''
   | INIPARSE_SENTINEL \<Rightarrow> None)"

text \<open>\<open>None\<close>: the process exits with 13.\<close>

definition iniParse_err2str :: "iniParseError \<Rightarrow> string option" where
  "iniParse_err2str errnum = (if errnum = INIPARSE_SENTINEL then None else cinic_error_strings errnum)"

definition iniParse_get_list_error1000 :: "iniparse_ctx \<Rightarrow> iniParseListState \<Rightarrow> iniParseListState \<Rightarrow> iniParseError" where
  "iniParse_get_list_error1000 ctx prev nxt = (case prev of
     NOLIST \<Rightarrow>
       if nxt = LIST_HEAD then INIPARSE_SUCCESS
       else if nxt = NOLIST then INIPARSE_REDUNDANT_BRACKET
       else INIPARSE_NOLIST
   | LIST_HEAD \<Rightarrow>
       if nxt = LIST_OPEN then INIPARSE_SUCCESS
       else if nxt = LIST_HEAD then INIPARSE_MALFORMED_LIST
       else INIPARSE_LIST_NOT_STARTED
   | LIST_OPEN \<Rightarrow>
       if nxt = LIST_ONGOING \<or> nxt = LIST_LAST then INIPARSE_SUCCESS
       else if nxt = LIST_HEAD then INIPARSE_NESTED
       else if nxt = LIST_OPEN then INIPARSE_REDUNDANT_BRACKET
       else if nxt = NOLIST \<and> \<not> allow_empty_lists ctx then INIPARSE_EMPTY_LIST
       else INIPARSE_MALFORMED_LIST
   | LIST_ONGOING \<Rightarrow>
       if nxt = LIST_ONGOING \<or> nxt = LIST_LAST then INIPARSE_SUCCESS
       else if nxt = NOLIST then INIPARSE_REDUNDANT_COMMA
       else INIPARSE_LIST_NOT_ENDED
   | LIST_LAST \<Rightarrow>
       if nxt = NOLIST then INIPARSE_SUCCESS
       else if nxt = LIST_HEAD then INIPARSE_NESTED
       else if nxt = LIST_OPEN then INIPARSE_MALFORMED_LIST
       else INIPARSE_MISSING_COMMA)"

definition error_out :: "iniparse_ctx \<Rightarrow> iniParseError \<Rightarrow> ini_stop" where
  "error_out ctx e =
     (if e = INIPARSE_SENTINEL \<or> e = INIPARSE_SUCCESS then IniFault AssertFail
      else if fatal_errors ctx then IniExit
      else IniError e)"

section \<open>Characters and lines\<close>

definition is_alnum :: "char \<Rightarrow> bool" where
  "is_alnum c \<longleftrightarrow> (let n = of_char c :: nat in (48 \<le> n \<and> n \<le> 57) \<or> (65 \<le> n \<and> n \<le> 90) \<or> (97 \<le> n \<and> n \<le> 122))"

definition strip_lws :: "string \<Rightarrow> string" where
  "strip_lws s = dropWhile is_space s"

definition strip_tws :: "string \<Rightarrow> string" where
  "strip_tws s = rev (dropWhile is_space (rev s))"

definition is_comment :: "char \<Rightarrow> bool" where
  "is_comment c \<longleftrightarrow> c = CHR '';'' \<or> c = CHR ''#''"

definition strip_comment :: "string \<Rightarrow> string" where
  "strip_comment s = takeWhile (\<lambda>c. \<not> is_comment c) s"

definition is_allowed :: "char \<Rightarrow> bool \<Rightarrow> bool" where
  "is_allowed c ws_allowed \<longleftrightarrow>
     c = CHR ''.'' \<or> c = CHR ''-'' \<or> c = CHR ''_'' \<or> c = CHR ''@'' \<or> c = CHR ''/'' \<or> c = CHR ''*'' \<or> c = CHR ''?'' \<or> c = CHR ''%''
     \<or> c = CHR ''&'' \<or> is_alnum c \<or> (is_space c \<and> ws_allowed)"

fun char_occurs :: "char \<Rightarrow> string \<Rightarrow> bool \<Rightarrow> 32 word" where
  "char_occurs c [] through_comments = 0"
| "char_occurs c (x # xs) through_comments =
     (if \<not> through_comments \<and> is_comment x then 0
      else (if x = c then 1 else 0) + char_occurs c xs through_comments)"

definition is_empty_line :: "string \<Rightarrow> bool" where
  "is_empty_line line \<longleftrightarrow> strip_lws line = []"

definition is_comment_line :: "string \<Rightarrow> bool" where
  "is_comment_line line = (let line = strip_lws line in line \<noteq> [] \<and> is_comment (hd line))"

text \<open>
  \<open>getline\<close> returns the characters up to and including the next newline; their number is stored in 32 bits. The C string
  in the buffer ends at the first NUL.
\<close>

definition read_line :: "string \<Rightarrow> nat \<times> string \<times> string" where
  "read_line content =
     (let line = takeWhile (\<lambda>c. c \<noteq> CHR 0x0A) content @ take 1 (dropWhile (\<lambda>c. c \<noteq> CHR 0x0A) content)
      in (length line mod 2 ^ 32, takeWhile (\<lambda>c. c \<noteq> CHR 0x00) line, drop (length line) content))"

definition cp_to_buff :: "string \<Rightarrow> nat \<Rightarrow> nat \<Rightarrow> string" where
  "cp_to_buff src buffsz null_at =
     (let dst = take (buffsz - 1) src
      in if null_at < buffsz then take null_at dst else take (buffsz - 1) dst)"

section \<open>Recognising lines\<close>

definition is_section_line :: "string \<Rightarrow> nat \<Rightarrow> string option" where
  "is_section_line line buffsz =
     (if line = [] \<or> hd line \<noteq> CHR ''['' then None
      else let line = strip_lws (tl line) in
        if line = [] \<or> \<not> is_allowed (hd line) False then None
        else let start = line; line = dropWhile (\<lambda>c. is_allowed c False) line in
          if line = [] \<or> (\<not> is_space (hd line) \<and> hd line \<noteq> CHR '']'') then None
          else let name_len = length start - length line; line = strip_lws line in
            if line = [] \<or> hd line \<noteq> CHR '']'' then None
            else if tl line \<noteq> [] then None
            else Some (cp_to_buff start buffsz name_len))"

definition is_record_line :: "string \<Rightarrow> nat \<Rightarrow> (string \<times> string) option" where
  "is_record_line line buffsz =
     (if line = [] \<or> \<not> is_allowed (hd line) False then None
      else let key = line; line = dropWhile (\<lambda>c. is_allowed c False) line in
        if line = [] then None
        else let key_len = length key - length line; line = strip_lws line in
          if line = [] \<or> hd line \<noteq> CHR ''='' then None
          else let line = strip_lws (tl line) in
            if line = [] \<or> \<not> is_allowed (hd line) False then None
            else let val = line; line = dropWhile (\<lambda>c. is_allowed c True) line in
              if line \<noteq> [] then None
              else Some (cp_to_buff key buffsz key_len, cp_to_buff val buffsz (length val)))"

text \<open>The token and the rest of the line behind it. No pointer leaves the line: \<open>end\<close> is a position in it.\<close>

definition token_end :: "iniparse_ctx \<Rightarrow> string \<Rightarrow> nat" where
  "token_end ctx start =
     (let line = strip_lws (dropWhile (\<lambda>c. is_allowed c False) start);
          pos = length start - length line
      in if line \<noteq> [] \<and> (hd line = CHR ''='' \<or> hd line = list_bracket ctx ! 0 \<or> hd line = CHR '','') then pos
         else if line \<noteq> [] \<and> is_allowed (hd line) False then pos - 1
         else if line \<noteq> [] \<and> hd line = list_bracket ctx ! 1
              then (if is_allowed (hd start) False then pos - 1 else pos)
         else length start - 1)"

definition get_list_token :: "iniparse_ctx \<Rightarrow> string \<Rightarrow> nat \<Rightarrow> (string \<times> string) option" where
  "get_list_token ctx line buffsz =
     (let start = strip_tws (strip_comment (strip_lws line)) in
      if start = [] then None
      else Some (cp_to_buff start buffsz (token_end ctx start + 1), drop (token_end ctx start + 1) start))"

definition is_list_head :: "string \<Rightarrow> nat \<Rightarrow> string option" where
  "is_list_head line buffsz =
     (if line = [] \<or> \<not> is_allowed (hd line) False then None
      else let key = line; line = dropWhile (\<lambda>c. is_allowed c False) line in
        if line = [] then None
        else let key_len = length key - length line; line = strip_lws line in
          if line = [] \<or> hd line \<noteq> CHR ''='' then None
          else if tl line \<noteq> [] then None
          else Some (cp_to_buff key buffsz key_len))"

definition is_list_end :: "iniparse_ctx \<Rightarrow> string \<Rightarrow> bool" where
  "is_list_end ctx line \<longleftrightarrow> length line = 1 \<and> hd line = list_bracket ctx ! 1"

definition is_list_start :: "iniparse_ctx \<Rightarrow> string \<Rightarrow> bool" where
  "is_list_start ctx line \<longleftrightarrow> length line = 1 \<and> hd line = list_bracket ctx ! 0"

definition is_list_entry :: "string \<Rightarrow> nat \<Rightarrow> (string \<times> bool) option res" where
  "is_list_entry line buffsz =
     (if line = [] \<or> \<not> is_allowed (hd line) False then Inr None
      else let start = line; line = dropWhile (\<lambda>c. is_allowed c False) line;
               val_len = length start - length line;
               line = strip_lws line
           in if line \<noteq> [] \<and> hd line \<noteq> CHR '','' then Inr None
              else let last_in_list = (line = []); line = (if line = [] then line else tl line) in
                bindE (assertE (line = [])) (\<lambda>_. Inr (Some (cp_to_buff start buffsz val_len, last_in_list))))"

section \<open>Parsing\<close>

type_synonym 's ini_callback = "32 word \<Rightarrow> iniParseListState \<Rightarrow> string \<Rightarrow> string \<Rightarrow> string \<Rightarrow> 's \<Rightarrow> int \<times> 's"

record 's ini_state =
  ini_list :: iniParseListState
  ini_islast :: bool
  ini_section :: string
  ini_key :: string
  ini_val :: string
  ini_priv :: 's

definition call_cb :: "'s ini_callback \<Rightarrow> 32 word \<Rightarrow> 's ini_state \<Rightarrow> int \<times> 's ini_state" where
  "call_cb cb ln st =
     (let (rc, priv) = cb ln (ini_list st) (ini_section st) (ini_key st) (ini_val st) (ini_priv st)
      in (rc, st\<lparr>ini_priv := priv\<rparr>))"

lemma strip_shorter:
  "length (strip_lws s) \<le> length s" "length (strip_tws s) \<le> length s" "length (strip_comment s) \<le> length s"
  by (simp_all add: strip_lws_def strip_tws_def strip_comment_def length_dropWhile_le length_takeWhile_le
      order_trans[OF length_dropWhile_le])

lemma get_list_token_shorter:
  assumes "get_list_token ctx line buffsz = Some (token, nxt)"
  shows "length nxt < length line"
proof -
  let ?start = "strip_tws (strip_comment (strip_lws line))"
  have "?start \<noteq> []" and "\<exists>e. nxt = drop (e + 1) ?start"
    using assms by (auto simp: get_list_token_def Let_def split: if_splits)
  then have "length nxt < length ?start" by (cases "?start") auto
  also have "length ?start \<le> length line"
    by (meson order_trans strip_shorter)
  finally show ?thesis .
qed

text \<open>The tokens of a line that is neither a section nor a record.\<close>

function token_loop :: "iniparse_ctx \<Rightarrow> 's ini_callback \<Rightarrow> 32 word \<Rightarrow> string \<Rightarrow> 's ini_state \<Rightarrow> ini_stop option \<times> 's ini_state" where
  "token_loop ctx cb ln next_token st =
     (case get_list_token ctx next_token MAX_LINE_LEN of
        None \<Rightarrow> (None, st)
      | Some (token, next_token) \<Rightarrow>
          (case is_list_head token MAX_LINE_LEN of
             Some k \<Rightarrow>
               let st = st\<lparr>ini_key := k\<rparr>; cerr = iniParse_get_list_error1000 ctx (ini_list st) LIST_HEAD in
               if cerr \<noteq> INIPARSE_SUCCESS then (Some (error_out ctx cerr), st)
               else token_loop ctx cb ln next_token (st\<lparr>ini_list := LIST_HEAD, ini_islast := False\<rparr>)
           | None \<Rightarrow>
               if is_list_start ctx token then
                 let cerr = iniParse_get_list_error1000 ctx (ini_list st) LIST_OPEN in
                 if cerr \<noteq> INIPARSE_SUCCESS then (Some (error_out ctx cerr), st)
                 else token_loop ctx cb ln next_token (st\<lparr>ini_list := LIST_OPEN\<rparr>)
               else
                 (case is_list_entry token MAX_LINE_LEN of
                    Inl e \<Rightarrow> (Some (IniFault e), st)
                  | Inr (Some (v, islast)) \<Rightarrow>
                      let st = st\<lparr>ini_val := v, ini_islast := islast\<rparr>;
                          new = (if islast then LIST_LAST else LIST_ONGOING);
                          cerr = iniParse_get_list_error1000 ctx (ini_list st) new in
                      if cerr \<noteq> INIPARSE_SUCCESS then (Some (error_out ctx cerr), st)
                      else
                        let (rc, st) = call_cb cb ln (st\<lparr>ini_list := new\<rparr>) in
                        if rc \<noteq> 0 then (Some (IniCallback rc), st)
                        else token_loop ctx cb ln next_token st
                  | Inr None \<Rightarrow>
                      if is_list_end ctx token then
                        let cerr = iniParse_get_list_error1000 ctx (ini_list st) NOLIST in
                        if cerr \<noteq> INIPARSE_SUCCESS then (Some (error_out ctx cerr), st)
                        else token_loop ctx cb ln next_token (st\<lparr>ini_list := NOLIST\<rparr>)
                      else (Some (error_out ctx INIPARSE_MALFORMED), st))))"
  by pat_completeness auto
termination
  by (relation "measure (\<lambda>(ctx, cb, ln, next_token, st). length next_token)") (auto dest: get_list_token_shorter)

declare token_loop.simps [simp del]

text \<open>The body of the loop over the lines.\<close>

definition parse_line :: "iniparse_ctx \<Rightarrow> 's ini_callback \<Rightarrow> 32 word \<Rightarrow> nat \<Rightarrow> string \<Rightarrow> 's ini_state \<Rightarrow> ini_stop option \<times> 's ini_state" where
  "parse_line ctx cb ln bytes_read buff st =
     (if bytes_read > MAX_LINE_LEN then (Some (error_out ctx INIPARSE_TOOLONG), st)
      else if is_empty_line buff \<or> is_comment_line buff then (None, st)
      else
        let buff = strip_tws (strip_comment (strip_lws buff)) in
        case is_section_line buff MAX_LINE_LEN of
          Some name \<Rightarrow>
            let st = st\<lparr>ini_section := name\<rparr> in
            if ini_list st \<noteq> NOLIST then (Some (error_out ctx INIPARSE_NESTED), st) else (None, st)
        | None \<Rightarrow>
            (case is_record_line buff MAX_LINE_LEN of
               Some (k, v) \<Rightarrow>
                 let st = st\<lparr>ini_key := k, ini_val := v\<rparr> in
                 if ini_section st = [] \<and> \<not> allow_global_records ctx then (Some (error_out ctx INIPARSE_NOSECTION), st)
                 else if ini_list st \<noteq> NOLIST then (Some (error_out ctx INIPARSE_NESTED), st)
                 else
                   let (rc, st) = call_cb cb ln st in
                   if rc \<noteq> 0 then (Some (IniCallback rc), st) else (None, st)
             | None \<Rightarrow> token_loop ctx cb ln buff st))"

lemma read_line_shorter: "content \<noteq> [] \<Longrightarrow> length (snd (snd (read_line content))) < length content"
proof -
  assume "content \<noteq> []"
  then have "takeWhile (\<lambda>c. c \<noteq> CHR 0x0A) content @ take 1 (dropWhile (\<lambda>c. c \<noteq> CHR 0x0A) content) \<noteq> []"
    by (cases content) auto
  then show ?thesis using \<open>content \<noteq> []\<close> by (cases content) (auto simp: read_line_def Let_def)
qed

lemma read_line_Nil [simp]: "fst (read_line []) = 0"
  by (simp add: read_line_def)

function parse_loop :: "iniparse_ctx \<Rightarrow> 's ini_callback \<Rightarrow> 32 word \<Rightarrow> string \<Rightarrow> 's ini_state \<Rightarrow> ini_stop option \<times> 's ini_state" where
  "parse_loop ctx cb ln content st =
     (if fst (read_line content) = 0 then (None, st)
      else
        let ln = ln + 1; (r, st) = parse_line ctx cb ln (fst (read_line content)) (fst (snd (read_line content))) st in
        if r \<noteq> None then (r, st) else parse_loop ctx cb ln (snd (snd (read_line content))) st)"
  by pat_completeness auto
termination
  by (relation "measure (\<lambda>(ctx, cb, ln, content, st). length content)") (auto intro!: read_line_shorter)

declare parse_loop.simps [simp del]

text \<open>
  The whole run: how it stopped (\<open>None\<close>: the end of the file, the result 0), the last state of the callback's world, and
  whether the file was closed and the line buffer freed. A file that cannot be opened ends the process.
\<close>

definition iniParse_parse :: "iniparse_ctx \<Rightarrow> string option \<Rightarrow> 's ini_callback \<Rightarrow> 's \<Rightarrow> ini_stop option \<times> 's \<times> bool" where
  "iniParse_parse ctx file cb priv =
     (case file of
        None \<Rightarrow> (Some IniExit, priv, False)
      | Some content \<Rightarrow>
          let (r, st) = parse_loop ctx cb 0 content
                \<lparr>ini_list = NOLIST, ini_islast = False, ini_section = [], ini_key = [], ini_val = [], ini_priv = priv\<rparr>
          in (r, ini_priv st, r = None))"

end
