(* ===== verification/Iniparse_Correct.thy ===== *)
theory Iniparse_Correct
  imports Iniparse
begin

text \<open>
  What the INI parser does: written configurations are read back, lists are delivered in one piece on every input, and the
  inputs on which the code departs from its header.
\<close>

section \<open>List states\<close>

definition list_steps :: "(iniParseListState \<times> iniParseListState) list" where
  "list_steps = [(NOLIST, LIST_HEAD), (LIST_HEAD, LIST_OPEN), (LIST_OPEN, LIST_ONGOING), (LIST_OPEN, LIST_LAST),
     (LIST_ONGOING, LIST_ONGOING), (LIST_ONGOING, LIST_LAST), (LIST_LAST, NOLIST)]"

lemma list_error_spec: "iniParse_get_list_error1000 ctx p n = INIPARSE_SUCCESS \<longleftrightarrow> (p, n) \<in> set list_steps"
  by (cases p; cases n; cases "allow_empty_lists ctx") (simp_all add: iniParse_get_list_error1000_def list_steps_def)

lemma list_error_no_sentinel: "iniParse_get_list_error1000 ctx p n \<noteq> INIPARSE_SENTINEL"
  by (cases p; cases n; cases "allow_empty_lists ctx") (simp_all add: iniParse_get_list_error1000_def)

section \<open>Characters\<close>

lemma allowed_facts:
  assumes "is_allowed c False"
  shows "\<not> is_space c" "\<not> is_comment c" "c \<notin> {CHR ''['', CHR '']'', CHR ''='', CHR '','', CHR 0x00, CHR 0x0A}" "is_allowed c True"
  using assms by (auto simp: is_allowed_def is_alnum_def is_space_def is_comment_def Let_def)

lemma special_facts:
  "\<not> is_allowed (CHR ''['') b" "\<not> is_allowed (CHR '']'') b" "\<not> is_allowed (CHR ''='') b" "\<not> is_allowed (CHR '','') b"
  "\<not> is_space (CHR ''['')" "\<not> is_space (CHR '']'')" "\<not> is_space (CHR ''='')" "\<not> is_space (CHR '','')"
  "\<not> is_comment (CHR ''['')" "\<not> is_comment (CHR '']'')" "\<not> is_comment (CHR ''='')" "\<not> is_comment (CHR '','')"
  "is_space (CHR 0x0A)" "\<not> is_comment (CHR 0x0A)"
  by (simp_all add: is_allowed_def is_alnum_def is_space_def is_comment_def)

text \<open>A name is a non-empty run of allowed characters; a value may have blanks inside, but no line break.\<close>

definition ini_name :: "string \<Rightarrow> bool" where
  "ini_name n \<longleftrightarrow> n \<noteq> [] \<and> list_all (\<lambda>c. is_allowed c False) n"

definition ini_value :: "string \<Rightarrow> bool" where
  "ini_value v \<longleftrightarrow> v \<noteq> [] \<and> is_allowed (hd v) False \<and> \<not> is_space (last v) \<and> list_all (\<lambda>c. is_allowed c True \<and> c \<noteq> CHR 0x0A) v"

lemma ini_name_simps:
  assumes "ini_name n"
  shows "n \<noteq> []" "is_allowed (hd n) False" "hd n \<noteq> CHR ''[''" "\<not> is_space (hd n)" "\<not> is_space (last n)"
    "dropWhile (\<lambda>c. is_allowed c False) (n @ rest) = dropWhile (\<lambda>c. is_allowed c False) rest"
  using assms allowed_facts[of "hd n"] allowed_facts[of "last n"]
  by (auto simp: ini_name_def list_all_iff dropWhile_append2)

text \<open>A line that the stripping leaves alone.\<close>

definition clean :: "string \<Rightarrow> bool" where
  "clean s \<longleftrightarrow> s \<noteq> [] \<and> \<not> is_space (hd s) \<and> \<not> is_space (last s) \<and> list_all (\<lambda>c. \<not> is_comment c \<and> c \<noteq> CHR 0x00 \<and> c \<noteq> CHR 0x0A) s"

lemma takeWhile_all: "list_all P s \<Longrightarrow> takeWhile P s = s"
  by (simp add: list_all_iff)

lemma clean_strip:
  assumes "clean s"
  shows "strip_tws (strip_comment (strip_lws s)) = s" "strip_tws (strip_comment (strip_lws (s @ [CHR 0x0A]))) = s"
    "\<not> is_empty_line (s @ [CHR 0x0A])" "\<not> is_comment_line (s @ [CHR 0x0A])"
    "takeWhile (\<lambda>c. c \<noteq> CHR 0x00) (s @ [CHR 0x0A]) = s @ [CHR 0x0A]"
    "takeWhile (\<lambda>c. c \<noteq> CHR 0x0A) (s @ CHR 0x0A # rest) = s"
    "dropWhile (\<lambda>c. c \<noteq> CHR 0x0A) (s @ CHR 0x0A # rest) = CHR 0x0A # rest"
proof -
  have s: "s \<noteq> []" "\<not> is_space (hd s)" "\<not> is_space (last s)" "\<forall>c\<in>set s. \<not> is_comment c \<and> c \<noteq> CHR 0x00 \<and> c \<noteq> CHR 0x0A"
    using assms by (auto simp: clean_def list_all_iff)
  have lws: "strip_lws s = s" "strip_lws (s @ [CHR 0x0A]) = s @ [CHR 0x0A]"
    using s(1,2) by (cases s; simp add: strip_lws_def)+
  have com: "strip_comment s = s" "strip_comment (s @ [CHR 0x0A]) = s @ [CHR 0x0A]"
    using s(4) special_facts(14) by (auto simp: strip_comment_def takeWhile_eq_all_conv)
  have rev: "dropWhile is_space (rev s) = rev s"
    using s(1,3) by (cases s rule: rev_cases) simp_all
  show "strip_tws (strip_comment (strip_lws s)) = s" "strip_tws (strip_comment (strip_lws (s @ [CHR 0x0A]))) = s"
    by (simp_all add: lws com strip_tws_def rev special_facts)
  show "\<not> is_empty_line (s @ [CHR 0x0A])" "\<not> is_comment_line (s @ [CHR 0x0A])"
    using s by (simp_all add: is_empty_line_def is_comment_line_def lws)
  show "takeWhile (\<lambda>c. c \<noteq> CHR 0x00) (s @ [CHR 0x0A]) = s @ [CHR 0x0A]"
    using s(4) by (auto simp: takeWhile_eq_all_conv)
  show "takeWhile (\<lambda>c. c \<noteq> CHR 0x0A) (s @ CHR 0x0A # rest) = s" "dropWhile (\<lambda>c. c \<noteq> CHR 0x0A) (s @ CHR 0x0A # rest) = CHR 0x0A # rest"
    using s(4) by (auto simp: takeWhile_append2 dropWhile_append2)
qed

lemma cp_to_buff_take: "n < MAX_LINE_LEN \<Longrightarrow> cp_to_buff (s @ rest) MAX_LINE_LEN (length s) = s" if "n = length s" for n
  using that by (simp add: cp_to_buff_def MAX_LINE_LEN_def)

lemma cp_to_buff_all: "length s < MAX_LINE_LEN \<Longrightarrow> cp_to_buff s MAX_LINE_LEN (length s) = s"
  by (simp add: cp_to_buff_def MAX_LINE_LEN_def)

lemma cp_to_buff_bound: "length (cp_to_buff src MAX_LINE_LEN n) < MAX_LINE_LEN"
  by (auto simp: cp_to_buff_def MAX_LINE_LEN_def Let_def)

section \<open>Recognising lines\<close>

lemma strip_lws_id: "s = [] \<or> \<not> is_space (hd s) \<Longrightarrow> strip_lws s = s"
  by (cases s) (simp_all add: strip_lws_def)

lemma strip_lws_name: "ini_name n \<Longrightarrow> strip_lws (n @ rest) = n @ rest"
  using ini_name_simps[of n] by (simp add: strip_lws_id)

lemma section_line:
  assumes "ini_name n" "length n < MAX_LINE_LEN"
  shows "is_section_line (CHR ''['' # n @ '']'') MAX_LINE_LEN = Some n"
  using ini_name_simps[OF assms(1)] assms(2)
  by (simp add: is_section_line_def strip_lws_name[OF assms(1)] strip_lws_id special_facts cp_to_buff_take)

lemma not_section_line: "ini_name n \<Longrightarrow> is_section_line (n @ rest) m = None"
  using ini_name_simps[of n] by (simp add: is_section_line_def)

lemma record_line:
  assumes "ini_name k" "ini_value v" "length k < MAX_LINE_LEN" "length v < MAX_LINE_LEN"
  shows "is_record_line (k @ CHR ''='' # v) MAX_LINE_LEN = Some (k, v)"
proof -
  have "\<not> is_space (hd v)" using assms(2) allowed_facts(1) by (simp add: ini_value_def)
  then have "strip_lws v = v" using assms(2) by (cases v) (simp_all add: strip_lws_def ini_value_def)
  moreover have "dropWhile (\<lambda>c. is_allowed c True) v = []"
    using assms(2) by (simp add: ini_value_def list_all_iff dropWhile_eq_Nil_conv)
  ultimately show ?thesis
    using ini_name_simps[OF assms(1)] assms(2-4)
    by (simp add: is_record_line_def strip_lws_id special_facts cp_to_buff_take cp_to_buff_all ini_value_def)
qed

lemma list_line_no_record: "ini_name k \<Longrightarrow> is_record_line (k @ CHR ''='' # CHR ''['' # rest) m = None"
  using ini_name_simps[of k] by (simp add: is_record_line_def special_facts strip_lws_id)

lemma list_head_token: "ini_name k \<Longrightarrow> length k < MAX_LINE_LEN \<Longrightarrow> is_list_head (k @ ''='') MAX_LINE_LEN = Some k"
  using ini_name_simps[of k] by (simp add: is_list_head_def special_facts strip_lws_id cp_to_buff_take)

lemma no_list_head:
  "ini_name v \<Longrightarrow> is_list_head v m = None" "ini_name v \<Longrightarrow> is_list_head (v @ '','') m = None"
  "is_list_head ''['' m = None" "is_list_head '']'' m = None"
  using ini_name_simps[of v] ini_name_simps(6)[of v "[]"]
  by (simp_all add: is_list_head_def special_facts strip_lws_id)

lemma name_dropWhile: "ini_name n \<Longrightarrow> dropWhile (\<lambda>c. is_allowed c False) n = []"
  using ini_name_simps(6)[of n "[]"] by simp

lemma list_entry_token:
  "ini_name v \<Longrightarrow> length v < MAX_LINE_LEN \<Longrightarrow> is_list_entry (v @ '','') MAX_LINE_LEN = Inr (Some (v, False))"
  "ini_name v \<Longrightarrow> length v < MAX_LINE_LEN \<Longrightarrow> is_list_entry v MAX_LINE_LEN = Inr (Some (v, True))"
  "is_list_entry '']'' m = Inr None"
  using ini_name_simps[of v]
  by (simp_all add: is_list_entry_def special_facts strip_lws_id cp_to_buff_take cp_to_buff_all Let_def name_dropWhile)

lemma no_list_start:
  assumes "list_bracket ctx = ''[]''"
  shows "ini_name v \<Longrightarrow> \<not> is_list_start ctx v" "ini_name v \<Longrightarrow> \<not> is_list_start ctx (v @ '','')" "\<not> is_list_start ctx '']''"
    "is_list_start ctx ''[''" "is_list_end ctx '']''"
  using ini_name_simps[of v] by (simp_all add: is_list_start_def is_list_end_def assms)

text \<open>The tokens of a list on one line.\<close>

lemma clean_token:
  assumes "clean s"
  shows "get_list_token ctx s m = Some (cp_to_buff s m (token_end ctx s + 1), drop (token_end ctx s + 1) s)"
  using assms by (simp add: get_list_token_def clean_strip(1) clean_def)

lemma no_token: "get_list_token ctx [] m = None"
  by (simp add: get_list_token_def strip_lws_def strip_comment_def strip_tws_def)

lemma cp_to_buff_prefix: "n < MAX_LINE_LEN \<Longrightarrow> cp_to_buff s MAX_LINE_LEN n = take n s"
  by (auto simp: cp_to_buff_def MAX_LINE_LEN_def min_def)

lemma tokens:
  assumes "list_bracket ctx = ''[]''" "ini_name k" "Suc (length k) < MAX_LINE_LEN"
  shows "clean (k @ CHR ''='' # rest) \<Longrightarrow> get_list_token ctx (k @ CHR ''='' # rest) MAX_LINE_LEN = Some (k @ ''='', rest)"
    and "clean (k @ CHR '','' # rest) \<Longrightarrow> get_list_token ctx (k @ CHR '','' # rest) MAX_LINE_LEN = Some (k @ '','', rest)"
    and "clean (k @ CHR '']'' # rest) \<Longrightarrow> get_list_token ctx (k @ CHR '']'' # rest) MAX_LINE_LEN = Some (k, CHR '']'' # rest)"
proof -
  note k = ini_name_simps[OF assms(2)]
  have "token_end ctx (k @ CHR ''='' # rest) = length k" "token_end ctx (k @ CHR '','' # rest) = length k"
    using k by (simp_all add: token_end_def special_facts strip_lws_id assms(1))
  then show "clean (k @ CHR ''='' # rest) \<Longrightarrow> get_list_token ctx (k @ CHR ''='' # rest) MAX_LINE_LEN = Some (k @ ''='', rest)"
    "clean (k @ CHR '','' # rest) \<Longrightarrow> get_list_token ctx (k @ CHR '','' # rest) MAX_LINE_LEN = Some (k @ '','', rest)"
    using assms(3) by (simp_all add: clean_token cp_to_buff_prefix)
  have "token_end ctx (k @ CHR '']'' # rest) = length k - 1"
    using k by (simp add: token_end_def special_facts strip_lws_id assms(1))
  moreover have "length k - 1 + 1 = length k" using k(1) by (cases k) simp_all
  ultimately show "clean (k @ CHR '']'' # rest) \<Longrightarrow> get_list_token ctx (k @ CHR '']'' # rest) MAX_LINE_LEN = Some (k, CHR '']'' # rest)"
    using assms(3) by (simp add: clean_token cp_to_buff_prefix)
qed

lemma bracket_tokens:
  assumes "list_bracket ctx = ''[]''"
  shows "clean (CHR ''['' # rest) \<Longrightarrow> get_list_token ctx (CHR ''['' # rest) MAX_LINE_LEN = Some (''['', rest)"
    and "get_list_token ctx '']'' MAX_LINE_LEN = Some ('']'', [])"
proof -
  have "token_end ctx (CHR ''['' # rest) = 0" "token_end ctx '']'' = 0"
    by (simp_all add: token_end_def special_facts strip_lws_id assms)
  moreover have "clean '']''" by (simp add: clean_def special_facts)
  moreover have "Suc 0 < MAX_LINE_LEN" by (simp add: MAX_LINE_LEN_def)
  ultimately show "clean (CHR ''['' # rest) \<Longrightarrow> get_list_token ctx (CHR ''['' # rest) MAX_LINE_LEN = Some (''['', rest)"
    "get_list_token ctx '']'' MAX_LINE_LEN = Some ('']'', [])"
    by (simp_all add: clean_token cp_to_buff_prefix)
qed

section \<open>A written configuration is read back\<close>

datatype ini_entry = Section string | Record string string | List string "string list"

fun list_body :: "string list \<Rightarrow> string" where
  "list_body [] = '']''"
| "list_body [v] = v @ '']''"
| "list_body (v # vs) = v @ CHR '','' # list_body vs"

fun entry_line :: "ini_entry \<Rightarrow> string" where
  "entry_line (Section n) = CHR ''['' # n @ '']''"
| "entry_line (Record k v) = k @ CHR ''='' # v"
| "entry_line (List k vs) = k @ CHR ''='' # CHR ''['' # list_body vs"

definition write_entry :: "ini_entry \<Rightarrow> string" where
  "write_entry e = entry_line e @ [CHR 0x0A]"

fun entry_ok :: "ini_entry \<Rightarrow> bool" where
  "entry_ok (Section n) \<longleftrightarrow> ini_name n"
| "entry_ok (Record k v) \<longleftrightarrow> ini_name k \<and> ini_value v"
| "entry_ok (List k vs) \<longleftrightarrow> ini_name k \<and> vs \<noteq> [] \<and> list_all ini_name vs"

fun is_section :: "ini_entry \<Rightarrow> bool" where
  "is_section (Section n) \<longleftrightarrow> True"
| "is_section e \<longleftrightarrow> False"

type_synonym ini_event = "iniParseListState \<times> string \<times> string \<times> string"

fun entry_events :: "string \<Rightarrow> ini_entry \<Rightarrow> ini_event list" where
  "entry_events sec (Section n) = []"
| "entry_events sec (Record k v) = [(NOLIST, sec, k, v)]"
| "entry_events sec (List k vs) = map (\<lambda>v. (LIST_ONGOING, sec, k, v)) (butlast vs) @ [(LIST_LAST, sec, k, last vs)]"

fun next_section :: "string \<Rightarrow> ini_entry \<Rightarrow> string" where
  "next_section sec (Section n) = n"
| "next_section sec e = sec"

fun config_events :: "string \<Rightarrow> ini_entry list \<Rightarrow> ini_event list" where
  "config_events sec [] = []"
| "config_events sec (e # es) = entry_events sec e @ config_events (next_section sec e) es"

text \<open>A callback that notes what it is given, and answers with a number that may depend on it.\<close>

definition log_cb :: "(ini_event \<Rightarrow> int) \<Rightarrow> ini_event list ini_callback" where
  "log_cb answer ln l sec k v log = (answer (l, sec, k, v), log @ [(l, sec, k, v)])"

lemma name_chars: "ini_name v \<Longrightarrow> list_all (\<lambda>c. \<not> is_comment c \<and> c \<noteq> CHR 0x00 \<and> c \<noteq> CHR 0x0A) v"
  using allowed_facts(2,3) by (auto simp: ini_name_def list_all_iff)

lemma value_chars: "ini_value v \<Longrightarrow> list_all (\<lambda>c. \<not> is_comment c \<and> c \<noteq> CHR 0x00 \<and> c \<noteq> CHR 0x0A) v"
proof -
  have "is_allowed c True \<Longrightarrow> \<not> is_comment c \<and> c \<noteq> CHR 0x00" for c
    by (auto simp: is_allowed_def is_alnum_def is_space_def is_comment_def Let_def)
  then show "ini_value v \<Longrightarrow> list_all (\<lambda>c. \<not> is_comment c \<and> c \<noteq> CHR 0x00 \<and> c \<noteq> CHR 0x0A) v"
    by (simp add: ini_value_def list_all_iff)
qed

lemma clean_body:
  assumes "vs \<noteq> []" "list_all ini_name vs"
  shows "clean (list_body vs)" "last (list_body vs) = CHR '']''" "list_body vs \<noteq> []"
proof -
  have "list_body vs \<noteq> [] \<and> last (list_body vs) = CHR '']'' \<and> \<not> is_space (hd (list_body vs))
      \<and> list_all (\<lambda>c. \<not> is_comment c \<and> c \<noteq> CHR 0x00 \<and> c \<noteq> CHR 0x0A) (list_body vs)"
    using assms
  proof (induction vs rule: list_body.induct)
    case (2 v)
    then show ?case using ini_name_simps[of v] name_chars[of v] by (simp add: special_facts)
  next
    case (3 v w ws)
    then show ?case using ini_name_simps[of v] name_chars[of v] by (simp add: special_facts)
  qed simp
  then show "clean (list_body vs)" "last (list_body vs) = CHR '']''" "list_body vs \<noteq> []"
    by (simp_all add: clean_def special_facts)
qed

abbreviation "quiet_log \<equiv> log_cb (\<lambda>e. 0)"

lemma close_list:
  assumes "list_bracket ctx = ''[]''" "ini_list st = LIST_LAST"
  shows "token_loop ctx cb ln '']'' st = (None, st\<lparr>ini_list := NOLIST\<rparr>)"
  using assms
  by (simp add: token_loop.simps[of ctx cb ln "'']''"] token_loop.simps[of ctx cb ln "[]"] bracket_tokens no_token no_list_head
      list_entry_token no_list_start list_error_spec list_steps_def)

lemma body_loop:
  assumes "list_bracket ctx = ''[]''" "vs \<noteq> []" "list_all ini_name vs" "list_all (\<lambda>v. Suc (length v) < MAX_LINE_LEN) vs"
    "ini_list st = LIST_OPEN \<or> ini_list st = LIST_ONGOING"
  shows "\<exists>st'. token_loop ctx quiet_log ln (list_body vs) st = (None, st') \<and> ini_list st' = NOLIST \<and> ini_section st' = ini_section st
     \<and> ini_priv st' = ini_priv st @ entry_events (ini_section st) (List (ini_key st) vs)"
  using assms
proof (induction vs arbitrary: st rule: list_body.induct)
  case (2 v)
  have tok: "get_list_token ctx (v @ '']'') MAX_LINE_LEN = Some (v, '']'')"
    using 2 clean_body(1)[of "[v]"] by (simp add: tokens(3))
  have "(ini_list st, LIST_LAST) \<in> set list_steps" using 2 by (auto simp: list_steps_def)
  then show ?case
    using 2 unfolding list_body.simps
    by (subst token_loop.simps)
      (simp add: tok no_list_head no_list_start list_entry_token list_error_spec call_cb_def log_cb_def close_list)
next
  case (3 v w ws)
  have tok: "get_list_token ctx (v @ CHR '','' # list_body (w # ws)) MAX_LINE_LEN = Some (v @ '','', list_body (w # ws))"
    using 3 clean_body(1)[of "v # w # ws"] by (simp add: tokens(2))
  have "(ini_list st, LIST_ONGOING) \<in> set list_steps" using 3 by (auto simp: list_steps_def)
  then have "token_loop ctx quiet_log ln (list_body (v # w # ws)) st =
      token_loop ctx quiet_log ln (list_body (w # ws)) (st\<lparr>ini_val := v, ini_islast := False, ini_list := LIST_ONGOING,
        ini_priv := ini_priv st @ [(LIST_ONGOING, ini_section st, ini_key st, v)]\<rparr>)"
    using 3 unfolding list_body.simps
    by (subst token_loop.simps)
      (simp add: tok no_list_head no_list_start list_entry_token list_error_spec call_cb_def log_cb_def)
  then show ?case
    using 3(1)[of "st\<lparr>ini_val := v, ini_islast := False, ini_list := LIST_ONGOING,
        ini_priv := ini_priv st @ [(LIST_ONGOING, ini_section st, ini_key st, v)]\<rparr>"] 3(2-) by simp
qed simp

lemma list_loop:
  assumes "list_bracket ctx = ''[]''" "ini_name k" "Suc (length k) < MAX_LINE_LEN" "vs \<noteq> []" "list_all ini_name vs"
    "list_all (\<lambda>v. Suc (length v) < MAX_LINE_LEN) vs" "ini_list st = NOLIST" "clean (entry_line (List k vs))"
  shows "\<exists>st'. token_loop ctx quiet_log ln (entry_line (List k vs)) st = (None, st') \<and> ini_list st' = NOLIST
     \<and> ini_section st' = ini_section st \<and> ini_priv st' = ini_priv st @ entry_events (ini_section st) (List k vs)"
proof -
  have "clean (CHR ''['' # list_body vs)"
    using clean_body[OF assms(4,5)] by (simp add: clean_def special_facts)
  then have "token_loop ctx quiet_log ln (entry_line (List k vs)) st =
      token_loop ctx quiet_log ln (list_body vs) (st\<lparr>ini_key := k, ini_islast := False, ini_list := LIST_OPEN\<rparr>)"
    using assms(1-3,7,8)
    by (simp add: token_loop.simps[of ctx quiet_log ln "k @ CHR ''='' # CHR ''['' # list_body vs"]
        token_loop.simps[of ctx quiet_log ln "CHR ''['' # list_body vs"]
        tokens(1) bracket_tokens(1) list_head_token no_list_head no_list_start list_error_spec list_steps_def)
  then show ?thesis
    using body_loop[OF assms(1,4,5,6), of "st\<lparr>ini_key := k, ini_islast := False, ini_list := LIST_OPEN\<rparr>" ln] by simp
qed

lemma clean_entry: "entry_ok e \<Longrightarrow> clean (entry_line e)"
proof (induction e)
  case (Section n)
  then show ?case using name_chars[of n] by (simp add: clean_def special_facts)
next
  case (Record k v)
  then show ?case
    using name_chars[of k] value_chars[of v] ini_name_simps[of k] by (simp add: clean_def special_facts ini_value_def)
next
  case (List k vs)
  then show ?case
    using name_chars[of k] clean_body[of vs] ini_name_simps[of k] by (simp add: clean_def special_facts)
qed

lemma body_length: "v \<in> set vs \<Longrightarrow> length v < length (list_body vs)"
  by (induction vs rule: list_body.induct) auto

lemma entry_parsed:
  assumes "list_bracket ctx = ''[]''" "entry_ok e" "length (write_entry e) \<le> MAX_LINE_LEN" "ini_list st = NOLIST"
    "is_section e \<or> ini_section st \<noteq> [] \<or> allow_global_records ctx"
  shows "\<exists>st'. parse_line ctx quiet_log ln (length (write_entry e)) (write_entry e) st = (None, st') \<and> ini_list st' = NOLIST
     \<and> ini_section st' = next_section (ini_section st) e \<and> ini_priv st' = ini_priv st @ entry_events (ini_section st) e"
proof -
  note clean = clean_strip[OF clean_entry[OF assms(2)]]
  have line: "parse_line ctx quiet_log ln (length (write_entry e)) (write_entry e) st =
     (case is_section_line (entry_line e) MAX_LINE_LEN of
        Some name \<Rightarrow> (None, st\<lparr>ini_section := name\<rparr>)
      | None \<Rightarrow> (case is_record_line (entry_line e) MAX_LINE_LEN of
           Some (k, v) \<Rightarrow>
             if ini_section st = [] \<and> \<not> allow_global_records ctx then (Some (error_out ctx INIPARSE_NOSECTION), st\<lparr>ini_key := k, ini_val := v\<rparr>)
             else (None, st\<lparr>ini_key := k, ini_val := v, ini_priv := ini_priv st @ [(NOLIST, ini_section st, k, v)]\<rparr>)
         | None \<Rightarrow> token_loop ctx quiet_log ln (entry_line e) st))"
    using assms(3,4) by (auto simp: parse_line_def write_entry_def clean call_cb_def log_cb_def Let_def split: option.splits)
  have len: "length (entry_line e) < MAX_LINE_LEN" using assms(3) by (simp add: write_entry_def)
  show ?thesis
  proof (cases e)
    case (Section n)
    then show ?thesis using assms len section_line[of n] by (simp add: line[unfolded Section])
  next
    case (Record k v)
    then show ?thesis using assms len record_line[of k v] by (auto simp: line[unfolded Record] not_section_line)
  next
    case (List k vs)
    then have "list_all (\<lambda>v. Suc (length v) < MAX_LINE_LEN) vs" "Suc (length k) < MAX_LINE_LEN"
      using len by (auto simp: list_all_iff dest!: body_length)
    then show ?thesis
      using List assms len list_loop[of ctx k vs st ln] clean_entry[of e]
      by (simp add: line[unfolded List] not_section_line list_line_no_record)
  qed
qed

lemma read_written:
  assumes "clean s" "Suc (length s) \<le> MAX_LINE_LEN"
  shows "read_line (s @ CHR 0x0A # rest) = (Suc (length s), s @ [CHR 0x0A], rest)"
  using assms(2) unfolding read_line_def clean_strip(6,7)[OF assms(1)]
  by (simp add: clean_strip(5)[OF assms(1)] MAX_LINE_LEN_def)

lemma config_loop:
  assumes "list_bracket ctx = ''[]''" "list_all entry_ok es" "list_all (\<lambda>e. length (write_entry e) \<le> MAX_LINE_LEN) es"
    "ini_list st = NOLIST" "es = [] \<or> is_section (hd es) \<or> ini_section st \<noteq> [] \<or> allow_global_records ctx"
  shows "\<exists>st'. parse_loop ctx quiet_log ln (concat (map write_entry es)) st = (None, st')
     \<and> ini_priv st' = ini_priv st @ config_events (ini_section st) es"
  using assms
proof (induction es arbitrary: ln st)
  case Nil
  then show ?case by (simp add: parse_loop.simps)
next
  case (Cons e es)
  obtain st1 where st1: "parse_line ctx quiet_log (ln + 1) (length (write_entry e)) (write_entry e) st = (None, st1)"
    "ini_list st1 = NOLIST" "ini_section st1 = next_section (ini_section st) e" "ini_priv st1 = ini_priv st @ entry_events (ini_section st) e"
    using entry_parsed[of ctx e st "ln + 1"] Cons.prems by auto
  have sec: "es = [] \<or> is_section (hd es) \<or> ini_section st1 \<noteq> [] \<or> allow_global_records ctx"
    using Cons.prems(2,5) st1(3) ini_name_simps(1) by (cases e) auto
  have "parse_loop ctx quiet_log ln (concat (map write_entry (e # es))) st = parse_loop ctx quiet_log (ln + 1) (concat (map write_entry es)) st1"
    using st1(1) Cons.prems(2,3)
    by (subst parse_loop.simps) (simp add: write_entry_def read_written[OF clean_entry])
  then show ?case
    using Cons.IH[of st1 "ln + 1"] Cons.prems(1-3) st1(2-4) sec by simp
qed

text \<open>C6: 
  A configuration of sections, records and lists that is written with one entry per line is read back: the parser calls the
  callback for every record and every list item in order, with the section and the key they belong to, and returns success.
\<close>

theorem ini_roundtrip:
  assumes "list_bracket ctx = ''[]''" "list_all entry_ok es" "list_all (\<lambda>e. length (write_entry e) \<le> MAX_LINE_LEN) es"
    "es = [] \<or> is_section (hd es) \<or> allow_global_records ctx"
  shows "iniParse_parse ctx (Some (concat (map write_entry es))) quiet_log [] = (None, config_events [] es, True)"
proof -
  let ?st = "\<lparr>ini_list = NOLIST, ini_islast = False, ini_section = [], ini_key = [], ini_val = [], ini_priv = []\<rparr> :: ini_event list ini_state"
  obtain st' where "parse_loop ctx quiet_log 0 (concat (map write_entry es)) ?st = (None, st')" "ini_priv st' = config_events [] es"
    using config_loop[of ctx es ?st 0] assms by auto
  then show ?thesis by (simp add: iniParse_parse_def)
qed

definition ini_ctx_ex :: iniparse_ctx where
  "ini_ctx_ex = \<lparr>fatal_errors = False, allow_global_records = False, allow_empty_lists = False, section_ns_sep = ''.'', list_bracket = ''[]''\<rparr>"

theorem ini_roundtrip_witness:
  "iniParse_parse ini_ctx_ex (Some (concat (map write_entry [Section ''net'', Record ''host'' ''a.b c'', List ''ports'' [''80'', ''81'']]))) quiet_log [] =
     (None, [(NOLIST, ''net'', ''host'', ''a.b c''), (LIST_ONGOING, ''net'', ''ports'', ''80''), (LIST_LAST, ''net'', ''ports'', ''81'')], True)"
  using ini_roundtrip[of ini_ctx_ex "[Section ''net'', Record ''host'' ''a.b c'', List ''ports'' [''80'', ''81'']]"]
  by (simp add: ini_ctx_ex_def ini_name_def ini_value_def is_allowed_def is_alnum_def is_space_def write_entry_def MAX_LINE_LEN_def)

section \<open>Lists are delivered in one piece\<close>

text \<open>An item that is not the last of its list is followed by an item of the same list.\<close>

definition follows :: "ini_event \<Rightarrow> ini_event \<Rightarrow> bool" where
  "follows d e \<longleftrightarrow> (fst d = LIST_ONGOING \<longrightarrow> (fst e = LIST_ONGOING \<or> fst e = LIST_LAST) \<and> fst (snd e) = fst (snd d) \<and> fst (snd (snd e)) = fst (snd (snd d)))"

definition log_ok :: "ini_event list ini_state \<Rightarrow> bool" where
  "log_ok st \<longleftrightarrow> successively follows (ini_priv st) \<and>
     (ini_priv st \<noteq> [] \<and> fst (last (ini_priv st)) = LIST_ONGOING \<longrightarrow>
        ini_list st = LIST_ONGOING \<and> fst (snd (last (ini_priv st))) = ini_section st \<and> fst (snd (snd (last (ini_priv st)))) = ini_key st)"

lemma log_ok_event:
  assumes "log_ok st" "ini_list st = LIST_ONGOING \<longrightarrow> l = LIST_ONGOING \<or> l = LIST_LAST"
  shows "log_ok (st\<lparr>ini_list := l, ini_priv := ini_priv st @ [(l, ini_section st, ini_key st, v)]\<rparr>)"
  using assms by (auto simp: log_ok_def follows_def successively_append_iff)

lemma log_ok_idle: "log_ok st \<Longrightarrow> ini_list st \<noteq> LIST_ONGOING \<Longrightarrow> ini_priv st' = ini_priv st \<Longrightarrow> log_ok st'"
  by (auto simp: log_ok_def)

lemma call_log:
  "call_cb (log_cb answer) ln st =
     (answer (ini_list st, ini_section st, ini_key st, ini_val st),
      st\<lparr>ini_priv := ini_priv st @ [(ini_list st, ini_section st, ini_key st, ini_val st)]\<rparr>)"
  by (simp add: call_cb_def log_cb_def)

lemma steps_into:
  "(p, LIST_HEAD) \<in> set list_steps \<Longrightarrow> p \<noteq> LIST_ONGOING" "(p, LIST_OPEN) \<in> set list_steps \<Longrightarrow> p \<noteq> LIST_ONGOING"
  "(p, NOLIST) \<in> set list_steps \<Longrightarrow> p \<noteq> LIST_ONGOING"
  by (auto simp: list_steps_def)

lemma token_loop_log:
  "log_ok st \<Longrightarrow> token_loop ctx (log_cb answer) ln s st = (r, st') \<Longrightarrow> successively follows (ini_priv st') \<and> (r = None \<longrightarrow> log_ok st')"
proof (induction "length s" arbitrary: s st rule: less_induct)
  case (less s st)
  have ok: "successively follows (ini_priv st)" using less.prems(1) by (simp add: log_ok_def)
  show ?case
  proof (cases "get_list_token ctx s MAX_LINE_LEN")
    case None
    then show ?thesis using less.prems ok by (simp add: token_loop.simps[of ctx "log_cb answer" ln s st])
  next
    case (Some p)
    obtain token rest where p: "p = (token, rest)" by (cases p)
    note tok = Some[unfolded p]
    have IH: "log_ok st1 \<Longrightarrow> token_loop ctx (log_cb answer) ln rest st1 = (r, st') \<Longrightarrow>
        successively follows (ini_priv st') \<and> (r = None \<longrightarrow> log_ok st')" for st1
      using less.hyps[OF get_list_token_shorter[OF tok]] by blast
    note run = less.prems(2)[unfolded token_loop.simps[of ctx "log_cb answer" ln s st] tok option.case prod.case]
    show ?thesis
    proof (cases "is_list_head token MAX_LINE_LEN")
      case head: (Some k)
      have "log_ok (st\<lparr>ini_key := k, ini_list := LIST_HEAD, ini_islast := False\<rparr>)" if "(ini_list st, LIST_HEAD) \<in> set list_steps"
        using log_ok_idle[OF less.prems(1) steps_into(1)[OF that]] by simp
      then show ?thesis using run IH ok by (auto simp: head list_error_spec Let_def split: if_splits)
    next
      case no_head: None
      show ?thesis
      proof (cases "is_list_start ctx token")
        case True
        have "log_ok (st\<lparr>ini_list := LIST_OPEN\<rparr>)" if "(ini_list st, LIST_OPEN) \<in> set list_steps"
          using log_ok_idle[OF less.prems(1) steps_into(2)[OF that]] by simp
        then show ?thesis using run IH ok True by (auto simp: no_head list_error_spec Let_def split: if_splits)
      next
        case False
        note run = run[unfolded no_head option.case if_not_P[OF False]]
        consider e where "is_list_entry token MAX_LINE_LEN = Inl e" | v islast where "is_list_entry token MAX_LINE_LEN = Inr (Some (v, islast))"
          | "is_list_entry token MAX_LINE_LEN = Inr None"
          by (metis option.exhaust prod.exhaust sum.exhaust)
        then show ?thesis
        proof cases
          case 1
          then show ?thesis using run ok by auto
        next
          case (2 v islast)
          define new where "new = (if islast then LIST_LAST else LIST_ONGOING)"
          define st1 where "st1 = st\<lparr>ini_val := v, ini_islast := islast\<rparr>"
          have "log_ok st1" using less.prems(1) by (simp add: log_ok_def st1_def)
          then have event: "log_ok (st1\<lparr>ini_list := new, ini_priv := ini_priv st1 @ [(new, ini_section st1, ini_key st1, v)]\<rparr>)"
            by (intro log_ok_event) (auto simp: new_def)
          then have "successively follows (ini_priv st1 @ [(new, ini_section st1, ini_key st1, v)])" by (simp add: log_ok_def)
          then show ?thesis
            using run IH[OF event] ok by (auto simp: 2 call_log Let_def new_def st1_def split: if_splits)
        next
          case 3
          have "log_ok (st\<lparr>ini_list := NOLIST\<rparr>)" if "(ini_list st, NOLIST) \<in> set list_steps"
            using log_ok_idle[OF less.prems(1) steps_into(3)[OF that]] by simp
          then show ?thesis using run IH ok by (auto simp: 3 list_error_spec Let_def split: if_splits)
        qed
      qed
    qed
  qed
qed

lemma parse_line_log:
  assumes "log_ok st" "parse_line ctx (log_cb answer) ln n buff st = (r, st')"
  shows "successively follows (ini_priv st') \<and> (r = None \<longrightarrow> log_ok st')"
proof -
  let ?s = "strip_tws (strip_comment (strip_lws buff))"
  have ok: "successively follows (ini_priv st)" using assms(1) by (simp add: log_ok_def)
  have event: "log_ok (st\<lparr>ini_key := k, ini_val := v, ini_priv := ini_priv st @ [(NOLIST, ini_section st, k, v)]\<rparr>)"
    if "ini_list st = NOLIST" for k v
    using assms(1) that by (auto simp: log_ok_def successively_append_iff follows_def)
  then have event': "successively follows (ini_priv st @ [(NOLIST, ini_section st, k, v)])" if "ini_list st = NOLIST" for k v
    using that by (simp add: log_ok_def)
  have idle: "log_ok (st\<lparr>ini_section := name\<rparr>)" if "ini_list st = NOLIST" for name
    using log_ok_idle[OF assms(1)] that by simp
  show ?thesis
    using assms ok event event' idle token_loop_log[OF assms(1), of ctx answer ln ?s r st']
    by (auto simp: parse_line_def call_log Let_def split: if_splits option.splits)
qed

text \<open>C19: 
  On every input, and whatever the callback answers, a list is delivered in one piece: a list item that is not the last is
  followed only by an item of the same list, under the same section and key.
\<close>

theorem ini_lists_contiguous:
  assumes "iniParse_parse ctx (Some content) (log_cb answer) [] = (r, log, closed)"
  shows "successively follows log"
proof -
  have loop: "log_ok st \<Longrightarrow> parse_loop ctx (log_cb answer) ln content st = (r, st') \<Longrightarrow> successively follows (ini_priv st')" for ln content st r st'
  proof (induction "length content" arbitrary: ln content st rule: less_induct)
    case (less content ln st)
    show ?case
    proof (cases "fst (read_line content) = 0")
      case True
      then show ?thesis using less.prems by (simp add: parse_loop.simps[of ctx "log_cb answer" ln content st] log_ok_def)
    next
      case False
      then have "content \<noteq> []" by auto
      obtain r1 st1 where line: "parse_line ctx (log_cb answer) (ln + 1) (fst (read_line content)) (fst (snd (read_line content))) st = (r1, st1)"
        by (cases "parse_line ctx (log_cb answer) (ln + 1) (fst (read_line content)) (fst (snd (read_line content))) st")
      note one = parse_line_log[OF less.prems(1) line]
      have run: "(if r1 \<noteq> None then (r1, st1) else parse_loop ctx (log_cb answer) (ln + 1) (snd (snd (read_line content))) st1) = (r, st')"
        using less.prems(2) False line by (simp add: parse_loop.simps[of ctx "log_cb answer" ln content st])
      show ?thesis
        using run one less.hyps[OF read_line_shorter[OF \<open>content \<noteq> []\<close>], of st1 "ln + 1"] by (auto split: if_splits)
    qed
  qed
  have "log_ok \<lparr>ini_list = NOLIST, ini_islast = False, ini_section = [], ini_key = [], ini_val = [], ini_priv = []\<rparr>"
    by (simp add: log_ok_def)
  from loop[OF this] show ?thesis using assms by (auto simp: iniParse_parse_def split: prod.splits)
qed

theorem ini_lists_contiguous_witness: "successively follows [(LIST_ONGOING, [], ''k'', ''a''), (LIST_LAST, [], ''k'', ''b'')]"
proof -
  let ?e = "List ''k'' [''a'', ''b'']" and ?st = "\<lparr>ini_list = NOLIST, ini_islast = False, ini_section = [], ini_key = [], ini_val = [], ini_priv = []\<rparr> :: ini_event list ini_state"
  have "\<exists>st'. parse_loop (ini_ctx_ex\<lparr>allow_global_records := True\<rparr>) quiet_log 0 (concat (map write_entry [?e])) ?st = (None, st')
      \<and> ini_priv st' = ini_priv ?st @ config_events (ini_section ?st) [?e]"
    by (rule config_loop) (simp_all add: ini_ctx_ex_def ini_name_def is_allowed_def is_alnum_def write_entry_def MAX_LINE_LEN_def)
  then have "iniParse_parse (ini_ctx_ex\<lparr>allow_global_records := True\<rparr>) (Some (concat (map write_entry [?e]))) (log_cb (\<lambda>e. 0)) [] =
      (None, config_events [] [?e], True)"
    by (auto simp: iniParse_parse_def)
  from ini_lists_contiguous[OF this] show ?thesis by simp
qed

section \<open>Where the code departs from its documentation\<close>

text \<open>A single line that starts a list, up to the opening bracket.\<close>

lemma list_prefix:
  assumes "list_bracket ctx = ''[]''" "ini_name k" "clean (k @ CHR ''='' # CHR ''['' # rest)" "clean (CHR ''['' # rest)"
    "length k + length rest + 3 \<le> MAX_LINE_LEN"
  shows "parse_loop ctx cb 0 (k @ CHR ''='' # CHR ''['' # rest @ [CHR 0x0A]) (st\<lparr>ini_list := NOLIST\<rparr>) =
     (let (r, st) = token_loop ctx cb 1 rest (st\<lparr>ini_key := k, ini_islast := False, ini_list := LIST_OPEN\<rparr>)
      in if r \<noteq> None then (r, st) else parse_loop ctx cb 1 [] st)"
proof -
  let ?line = "k @ CHR ''='' # CHR ''['' # rest"
  have "token_loop ctx cb 1 ?line (st\<lparr>ini_list := NOLIST\<rparr>) =
      token_loop ctx cb 1 rest (st\<lparr>ini_key := k, ini_islast := False, ini_list := LIST_OPEN\<rparr>)"
    using assms
    by (simp add: token_loop.simps[of ctx cb 1 ?line] token_loop.simps[of ctx cb 1 "CHR ''['' # rest"]
        tokens(1) bracket_tokens(1) list_head_token no_list_head no_list_start list_error_spec list_steps_def)
  moreover have "read_line (?line @ [CHR 0x0A]) = (Suc (length ?line), ?line @ [CHR 0x0A], [])"
    using read_written[OF assms(3), of "[]"] assms(5) by simp
  ultimately show ?thesis
    using assms(2,5) clean_strip[OF assms(3)]
    by (simp add: parse_loop.simps[of ctx cb 0] parse_line_def not_section_line list_line_no_record split: prod.splits)
qed

text \<open>C28: 
  \<open>allow_empty_lists\<close> does not make an empty list legal: it is rejected in any case, with another error, before any call of
  the callback; and after an error the file stays open.
\<close>

theorem ini_empty_list_rejected:
  assumes "list_bracket ctx = ''[]''" "ini_name k" "length k + 4 \<le> MAX_LINE_LEN"
  shows "iniParse_parse ctx (Some (k @ ''=[]'' @ [CHR 0x0A])) cb priv =
     (Some (if fatal_errors ctx then IniExit
            else IniError (if allow_empty_lists ctx then INIPARSE_MALFORMED_LIST else INIPARSE_EMPTY_LIST)), priv, False)"
proof -
  let ?st = "\<lparr>ini_list = NOLIST, ini_islast = False, ini_section = [], ini_key = [], ini_val = [], ini_priv = priv\<rparr>"
  have clean: "clean (k @ CHR ''='' # CHR ''['' # '']'')" "clean (CHR ''['' # '']'')"
    using clean_entry[of "List k [k]"] ini_name_simps[OF assms(2)] name_chars[OF assms(2)] by (simp_all add: clean_def special_facts)
  have "token_loop ctx cb 1 '']'' (?st\<lparr>ini_key := k, ini_islast := False, ini_list := LIST_OPEN\<rparr>) =
     (Some (error_out ctx (iniParse_get_list_error1000 ctx LIST_OPEN NOLIST)), ?st\<lparr>ini_key := k, ini_islast := False, ini_list := LIST_OPEN\<rparr>)"
    using assms(1) list_error_spec[of ctx LIST_OPEN NOLIST]
    by (simp add: token_loop.simps[of ctx cb 1 "'']''"] bracket_tokens no_list_head list_entry_token no_list_start list_steps_def)
  then show ?thesis
    using list_prefix[OF assms(1,2) clean, of cb ?st] assms(3)
    by (simp add: iniParse_parse_def error_out_def iniParse_get_list_error1000_def)
qed

theorem ini_empty_list_witness:
  "iniParse_parse (ini_ctx_ex\<lparr>allow_empty_lists := True\<rparr>) (Some (''k'' @ ''=[]'' @ [CHR 0x0A])) quiet_log [] =
     (Some (IniError INIPARSE_MALFORMED_LIST), [], False)"
  using ini_empty_list_rejected[of "ini_ctx_ex\<lparr>allow_empty_lists := True\<rparr>" "''k''" quiet_log "[]"]
  by (simp add: ini_ctx_ex_def ini_name_def is_allowed_def is_alnum_def MAX_LINE_LEN_def)

text \<open>A list that the file does not close is no error, nor is a list before the first section.\<close>

lemma ini_unterminated_accepted:
  assumes "list_bracket ctx = ''[]''" "ini_name k" "ini_name v" "length k + length v + 4 \<le> MAX_LINE_LEN"
  shows "iniParse_parse ctx (Some (k @ ''=['' @ v @ '','' @ [CHR 0x0A])) quiet_log [] = (None, [(LIST_ONGOING, [], k, v)], True)"
proof -
  let ?st = "\<lparr>ini_list = NOLIST, ini_islast = False, ini_section = [], ini_key = [], ini_val = [], ini_priv = []\<rparr> :: ini_event list ini_state"
  have clean: "clean (k @ CHR ''='' # CHR ''['' # v @ '','')" "clean (CHR ''['' # v @ '','')" "clean (v @ '','')"
    using ini_name_simps[OF assms(2)] name_chars[OF assms(2)] ini_name_simps[OF assms(3)] name_chars[OF assms(3)]
    by (simp_all add: clean_def special_facts)
  have "token_loop ctx quiet_log 1 (v @ '','') (?st\<lparr>ini_key := k, ini_islast := False, ini_list := LIST_OPEN\<rparr>) =
     (None, ?st\<lparr>ini_key := k, ini_val := v, ini_islast := False, ini_list := LIST_ONGOING, ini_priv := [(LIST_ONGOING, [], k, v)]\<rparr>)"
    using assms clean(3)
    by (simp add: token_loop.simps[of ctx quiet_log 1 "v @ '',''"] token_loop.simps[of ctx quiet_log 1 "[]"] tokens(2) no_token no_list_head
        no_list_start list_entry_token list_error_spec list_steps_def call_log)
  then show ?thesis
    using list_prefix[OF assms(1,2) clean(1,2), of quiet_log ?st] assms(4)
    by (simp add: iniParse_parse_def parse_loop.simps[of ctx quiet_log 1 "[]"])
qed

text \<open>The text of an error is defined for every error but the last, and the delimiter must not be left out.\<close>

lemma ini_err2str_defined: "iniParse_err2str e \<noteq> None \<longleftrightarrow> e \<noteq> INIPARSE_SENTINEL"
  by (cases e) (simp_all add: iniParse_err2str_def cinic_error_strings_def)

lemma ini_init_crashes: "iniParse_init g e None x = Inl (IniFault NullDeref)"
  by (simp add: iniParse_init_def)

lemma ini_init_ok: "length s \<le> 1 \<Longrightarrow> \<exists>ctx. iniParse_init g e (Some s) x = Inr ctx \<and> list_bracket ctx = ''[]'' \<and>
    allow_global_records ctx = g \<and> allow_empty_lists ctx = e \<and> fatal_errors ctx = x \<and> section_ns_sep ctx = s"
  by (simp add: iniParse_init_def get_initialized_iniparse_ctx_def)

end
