(* ===== verification/Spec2Isabelle.thy ===== *)
theory Spec2Isabelle
  imports Prelude Interfaces Staq Dllist Vector Heap_Order Heap_Implicit Heapsort
    Avl Avl_Shape Avl_Correct Avl_Unlink Avl_Ops Avl_Query
    Bits Bitarray Bitarray_Correct Bitarray_Ops
    Hasht Hasht_Correct Hasht_Ops Hasht_Map
    Md5 Md5_Sine Md5_Correct
    XHeap XHeap_Swap XHeap_Correct XHeap_Ops
    Cohort Timeutils Ioutils
    Event Event_Pump Event_Timers Event_Queues
    Adler32 Inet
    Bits_Cxx Crc Crc_Correct Math_Cxx Fletcher Fletcher_Correct String_Utils String_Correct
    Sha256 Sha256_Correct Iniparse Iniparse_Correct
begin

text \<open>
  A verification library for libtarp, a C library of intrusive containers and utilities. Paths are relative to the
  repository; \<open>X.thy\<close> is the theory \<open>X\<close> of this directory.

  \<^bold>\<open>The parts of the program.\<close>
  The containers are intrusive: a list, queue, tree or heap links nodes that the user embeds in structures of their
  own, and frees them through a destructor callback. The vector and the pointer heap built on it, the AVL tree, the
  hash table and the linked heap order or look up nodes through comparator and key callbacks. The bit arrays and the
  byte packing work on buffers. The MD5 and SHA-256 digests are fed in pieces and use the packing and rotation
  routines; the Adler-32, Fletcher, CRC and internet checksums are fed in the same way. The INI parser reads a file line
  by line and hands records and list items to a callback. The string utilities are free functions. The event
  pump keeps its timers and descriptor events in doubly linked lists and its user events in a queue, uses the time
  arithmetic, and blocks in the kernel. The test runner \<open>cohort\<close> runs a list of tests and means to survive their crashes.

  \<^bold>\<open>Which theory models what.\<close>
  \<^item> \<open>Prelude\<close>: \<open>include/tarp/error.h\<close> and \<open>common.h\<close>; runs as values, stores, linked segments. \<open>Interfaces\<close>: the
    contracts of stacks, queues, priority queues and dictionaries as locales.
  \<^item> \<open>Staq\<close>: \<open>src/mods/staq/staq.c\<close>. \<open>Dllist\<close>: \<open>src/mods/dllist/dllist.c\<close>. \<open>Vector\<close>: \<open>src/mods/vector/vector.c\<close> and the
    generated code of \<open>impl/vector_impl.h\<close>.
  \<^item> \<open>Heap_Order\<close>: sifting on lists, shared by both heaps and the sort. \<open>Heap_Implicit\<close>: \<open>src/mods/heap/implicit.c\<close>.
    \<open>Heapsort\<close>: the generated sort of \<open>impl/heap_impl.h\<close>. \<open>XHeap\<close>, \<open>XHeap_Swap\<close>, \<open>XHeap_Correct\<close>, \<open>XHeap_Ops\<close>:
    \<open>src/mods/heap/explicit.c\<close>.
  \<^item> \<open>Avl\<close> and its companions: \<open>src/mods/avltree/avl.c\<close> and the functions of \<open>impl/bst_impl.h\<close> it instantiates.
  \<^item> \<open>Bits\<close>: \<open>include/tarp/bits.h\<close>, \<open>src/misc/bits.c\<close>. \<open>Bitarray\<close> and companions: \<open>src/misc/bitarray.c\<close>.
  \<^item> \<open>Hasht\<close> and companions: \<open>src/mods/hasht/hasht.c\<close>, \<open>src/misc/hash.c\<close>. \<open>Md5\<close>, \<open>Md5_Sine\<close>, \<open>Md5_Correct\<close>:
    \<open>src/hash/md5/md5sum.c\<close>, whose table of constants is shown to be \<open>2^32 |sin i|\<close> rounded down.
  \<^item> \<open>Adler32\<close>: \<open>src/hash/adler32.cxx\<close>, \<open>include/tarp/hash/checksum/adler32.hxx\<close>. \<open>Inet\<close>: \<open>src/hash/inet_checksum.cxx\<close>,
    \<open>include/tarp/hash/checksum/inet.hxx\<close>, on a little-endian machine. \<open>Fletcher\<close>, \<open>Fletcher_Correct\<close>:
    \<open>include/tarp/hash/checksum/fletcher.hxx\<close>. \<open>Crc\<close>, \<open>Crc_Correct\<close>: \<open>include/tarp/hash/crc/crc.hxx\<close>, \<open>src/hash/crc/crc.cxx\<close>.
    \<open>Sha256\<close>, \<open>Sha256_Correct\<close>: \<open>src/hash/sha/sha256.cxx\<close>, \<open>include/tarp/hash/checksum/sha256.hxx\<close>.
  \<^item> \<open>Bits_Cxx\<close>: \<open>include/tarp/bits.hxx\<close>, \<open>src/misc/bits.cxx\<close>. \<open>Math_Cxx\<close>: the integer functions of \<open>include/tarp/math.hxx\<close>.
    \<open>String_Utils\<close>, \<open>String_Correct\<close>: \<open>src/misc/string_utils.cxx\<close>, \<open>include/tarp/string_utils.hxx\<close>.
  \<^item> \<open>Iniparse\<close>, \<open>Iniparse_Correct\<close>: \<open>src/parsers/iniparse.c\<close>, \<open>include/tarp/iniparse.h\<close>; the file is the list of its
    characters, a pointer into a line the rest of the line.
  \<^item> \<open>Cohort\<close>: \<open>src/misc/cohort.c\<close>. \<open>Timeutils\<close>: \<open>src/misc/timeutils.c\<close> and the sieve of \<open>src/misc/math.c\<close>.
    \<open>Ioutils\<close>: the read and write wrappers of \<open>src/misc/ioutils.c\<close>.
  \<^item> \<open>Event\<close>, \<open>Event_Pump\<close>, \<open>Event_Timers\<close>, \<open>Event_Queues\<close>: \<open>src/misc/event.c\<close>, \<open>src/misc/linux-event.c\<close>.

  \<^bold>\<open>How state and operations correspond to the code.\<close>
  A structure is a record, an enumeration a datatype. A node has an address; the nodes of one type live in a store, a
  partial map from addresses, and an assignment through a pointer is an update of it. A handle (list head, tree, table)
  is passed and returned by value. An operation is one definition with the name of the C function (suffixed or
  prefixed where a HOL name is in the way, and where \<open>static\<close> functions of two files share a name); the body of a loop
  that runs through callbacks or links is a recursive function beside it. The result is \<open>fault + 'a\<close>: a failed
  assertion, a \<open>THROW_ON\<close> and an access outside of live memory are values, an error code that is returned is part of
  the result. Destructors, comparators, key getters, timer callbacks, tests and kernel calls are parameters; what the
  code relies on them for is a named hypothesis (\<open>frees_node\<close>, \<open>orders_by\<close>, \<open>keyed_by\<close>, \<open>write_ok\<close>, and for the
  callbacks of the event pump \<open>cb_keeps_queue\<close> and \<open>cb_user_reacts\<close>, both relative to an invariant of the user's
  choice), with a concrete instance in the witnesses: a periodic timer that registers itself again, a callback that
  pushes an event and one that unregisters its own watch. A container is identified with the node embedded in it. Allocation succeeds, except
  where the code handles its failure (the vector).

  \<^bold>\<open>What the lemmas show.\<close>
  Each component has a representation predicate that says which abstract value a state stands for (\<open>staq_inv\<close>,
  \<open>dll_inv\<close>, \<open>vect_inv\<close>, \<open>heap_inv\<close>, \<open>tree_at\<close>, \<open>bitr_inv\<close>, \<open>hasht_at\<close>, \<open>xheap_inv\<close>, \<open>cohort_inv\<close>, \<open>timers_ok\<close>) and
  a lemma per operation: from a represented state the operation returns, represents the result of the abstract
  operation, and changes nothing else (\<open>frame\<close>). The locales of \<open>Interfaces\<close> are interpreted on these operations and
  give the client-level facts (first in first out, sorting by draining, dictionary laws). The digests and checksums are
  compared with reference definitions of their standards for every way of cutting the message into pieces, the CRC also
  with the remainder of a division of polynomials. The INI parser reads back what is written, and on every input delivers
  a list in one piece. Where the code falls short
  of its documentation the property is stated with the condition under which it holds, or as a theorem about the
  failure on a concrete input.

  \<^bold>\<open>Fuel and bounds.\<close>
  Loops over links take fuel: one more than the number of linked nodes is shown to be enough, for the trees one more
  than the height (an AVL tree of fewer than \<open>2^64\<close> nodes has at most 129 levels). Loops over indices recurse on
  their distance and need none. \<open>try_write\<close> needs eleven rounds per byte. Adler-32 adds at most 5552 bytes
  between reductions; the internet checksum is right while its 32-bit sum does not wrap, the Fletcher checksum while the
  number of additions it allows between two reductions does not let the sums wrap, which depends on the greatest word of
  the message (and fails for \<open>fletcher16\<close> on bytes of 255). The loop of the integer square root is a partial function
  over words, shown to end with the value the same code has over unbounded numbers. Sizes are natural numbers reduced modulo
  \<open>2^64\<close> where the code can leave the range; hash tables are shown correct below \<open>2^50\<close> entries, for keys
  that \<open>strncmp\<close> tells apart (it stops at a NUL byte), and linked heaps below
  \<open>2^63\<close> nodes. Words of the code keep their width. Dispatching the event pump needs one round per timer that is due
  when the callbacks leave no more timers due than there were; user events are delivered as by an abstract queue, which
  ends unless callbacks push without end. A test of \<open>cohort\<close> that crashes makes the code jump into a function that has
  returned; the model says nothing of what follows, and shows what would if that function were live. The loop of \<open>Evp_run\<close> may run forever and has no claim.

  \<^bold>\<open>Not modelled.\<close>
  The container macros (address arithmetic), log and error printing, floating point (\<open>floats.c\<close>, the conversions of
  \<open>timeutils.c\<close>), processes and sockets (\<open>process.c\<close>, the second half of \<open>ioutils.c\<close>), which only assemble kernel
  calls, and of the C++ side the templates over threads and the standard library (signals, event channels, schedulers,
  the wrappers of the event pump), whose behaviour is that of their threads; of the string utilities the functions on
  regular expressions, files and floating point, and in \<open>bits.hxx\<close> the iterator over bit ranges and \<open>set_bit\<close>.
\<close>

end
